(* ===== verification/Prelude.thy ===== *)
theory Prelude
  imports Main "HOL-Library.Word" "HOL-Library.Monad_Syntax"
begin

text \<open>
  What every component of the development shares.

  \<^item> Result codes. A C function that returns a negative errno returns \<open>Inl e\<close> here,
    and \<open>Inr x\<close> where it returns a non-negative result (\<open>Inr ()\<close> for 0).
  \<^item> Undefined behaviour. An operation that touches memory has type \<open>_ option\<close>;
    \<open>None\<close> is an access outside of the object (or an overflow of a signed C integer),
    so \<open>op s = Some _\<close> says that the call is memory safe.
  \<^item> The allocator. The libc is not part of the repository; \<open>libc\<close> is the parameter
    that stands for it: which requests succeed and what fresh memory contains.
  \<^item> Memory blocks are lists of cells; \<open>mem_read\<close>, \<open>mem_write\<close> and \<open>mem_move\<close>
    are the bounds-checked accesses of \<^verbatim>\<open>memcpy\<close> and \<^verbatim>\<open>memmove\<close>.
  \<^item> \<open>size_t\<close> is \<open>nat\<close> with the wrap-around at \<open>SIZE_MAX + 1\<close> written out.

  A pointer to an object is the object itself, so a \<^verbatim>\<open>SOL_NULL_CHECK\<close> on the handle an
  operation works on always passes; logging has no effect on the state. Pointers that may
  legitimately be NULL (the data of a buffer or a vector) are options.
\<close>

named_theorems wf_intros \<open>introduction rules for the components' invariants\<close>
named_theorems mem_simps \<open>rewrite rules for bounds-checked memory accesses\<close>

section \<open>Result codes\<close>

datatype errno = E2BIG | EADDRINUSE | EEXIST | EINVAL | EIO | ENODATA | ENOENT | ENOMEM | EOVERFLOW | EPERM | ERANGE

text \<open>The numbers behind the names, on Linux; needed where the code casts a result code.\<close>

fun errno_val :: "errno \<Rightarrow> nat" where
  "errno_val E2BIG = 7"
| "errno_val EADDRINUSE = 98"
| "errno_val EEXIST = 17"
| "errno_val EINVAL = 22"
| "errno_val EIO = 5"
| "errno_val ENODATA = 61"
| "errno_val ENOENT = 2"
| "errno_val ENOMEM = 12"
| "errno_val EOVERFLOW = 75"
| "errno_val EPERM = 1"
| "errno_val ERANGE = 34"

type_synonym byte = "8 word"

text \<open>
  The idiom \<^verbatim>\<open>r = f(s); if (r < 0) return r;\<close> of the sources: an error of the first step is
  returned with the state that step left, a success continues.
\<close>

definition on_ok :: "((errno + 'a) \<times> 's) option \<Rightarrow> ('a \<Rightarrow> 's \<Rightarrow> ((errno + 'b) \<times> 's) option)
    \<Rightarrow> ((errno + 'b) \<times> 's) option" where
  "on_ok m k = (case m of None \<Rightarrow> None
     | Some (Inl e, s) \<Rightarrow> Some (Inl e, s)
     | Some (Inr x, s) \<Rightarrow> k x s)"

lemma on_ok_simps [simp]:
  "on_ok None k = None"
  "on_ok (Some (Inl e, s)) k = Some (Inl e, s)"
  "on_ok (Some (Inr x, s)) k = k x s"
  by (simp_all add: on_ok_def)

lemma on_ok_eq_Some_Inr:
  "on_ok m k = Some (Inr y, t) \<longleftrightarrow> (\<exists>x s. m = Some (Inr x, s) \<and> k x s = Some (Inr y, t))"
  by (auto simp: on_ok_def split: option.splits sum.splits)

section \<open>Machine sizes\<close>

definition SIZE_MAX :: nat where
  "SIZE_MAX = 18446744073709551615"

definition UINT16_MAX :: nat where
  "UINT16_MAX = 65535"

definition INT_MAX :: nat where
  "INT_MAX = 2147483647"

definition SSIZE_MAX :: nat where
  "SSIZE_MAX = 9223372036854775807"

text \<open>The operators \<open>+\<close> and \<open>-\<close> of the C type \<^verbatim>\<open>size_t\<close>.\<close>

definition size_plus :: "nat \<Rightarrow> nat \<Rightarrow> nat" where
  "size_plus a b = (a + b) mod (SIZE_MAX + 1)"

definition size_minus :: "nat \<Rightarrow> nat \<Rightarrow> nat" where
  "size_minus a b = (if b \<le> a then a - b else SIZE_MAX + 1 - (b - a))"

text \<open>A result code converted to \<^verbatim>\<open>size_t\<close>: a negative one becomes a huge size.\<close>

definition size_of_result :: "errno + nat \<Rightarrow> nat" where
  "size_of_result r = (case r of Inl e \<Rightarrow> SIZE_MAX + 1 - errno_val e | Inr n \<Rightarrow> n)"

lemma size_of_result_Inr [simp]: "size_of_result (Inr n) = n"
  by (simp add: size_of_result_def)

lemma size_plus_small [simp]: "a + b \<le> SIZE_MAX \<Longrightarrow> size_plus a b = a + b"
  by (simp add: size_plus_def)

lemma size_minus_le [simp]: "b \<le> a \<Longrightarrow> size_minus a b = a - b"
  by (simp add: size_minus_def)

lemma SSIZE_MAX_less_SIZE_MAX [simp]: "SSIZE_MAX < SIZE_MAX"
  by (simp add: SSIZE_MAX_def SIZE_MAX_def)

section \<open>Memory blocks\<close>

definition mem_read :: "nat \<Rightarrow> nat \<Rightarrow> 'a list \<Rightarrow> 'a list option" where
  "mem_read off n blk = (if off + n \<le> length blk then Some (take n (drop off blk)) else None)"

definition mem_write :: "nat \<Rightarrow> 'a list \<Rightarrow> 'a list \<Rightarrow> 'a list option" where
  "mem_write off xs blk =
     (if off + length xs \<le> length blk
      then Some (take off blk @ xs @ drop (off + length xs) blk) else None)"

definition mem_move :: "nat \<Rightarrow> nat \<Rightarrow> nat \<Rightarrow> 'a list \<Rightarrow> 'a list option" where
  "mem_move dst src n blk = Option.bind (mem_read src n blk) (\<lambda>xs. mem_write dst xs blk)"

definition mem_get :: "nat \<Rightarrow> 'a list \<Rightarrow> 'a option" where
  "mem_get i blk = (if i < length blk then Some (blk ! i) else None)"

definition mem_set :: "nat \<Rightarrow> 'a \<Rightarrow> 'a list \<Rightarrow> 'a list option" where
  "mem_set i x blk = (if i < length blk then Some (blk[i := x]) else None)"

lemma mem_get_Some [mem_simps]: "i < length blk \<Longrightarrow> mem_get i blk = Some (blk ! i)"
  by (simp add: mem_get_def)

lemma mem_set_Some [mem_simps]: "i < length blk \<Longrightarrow> mem_set i x blk = Some (blk[i := x])"
  by (simp add: mem_set_def)

lemma mem_read_Some [mem_simps]:
  "off + n \<le> length blk \<Longrightarrow> mem_read off n blk = Some (take n (drop off blk))"
  by (simp add: mem_read_def)

lemma mem_write_Some [mem_simps]:
  "off + length xs \<le> length blk \<Longrightarrow>
     mem_write off xs blk = Some (take off blk @ xs @ drop (off + length xs) blk)"
  by (simp add: mem_write_def)

lemma mem_move_Some [mem_simps]:
  "dst + n \<le> length blk \<Longrightarrow> src + n \<le> length blk \<Longrightarrow>
     mem_move dst src n blk = Some (take dst blk @ take n (drop src blk) @ drop (dst + n) blk)"
  by (simp add: mem_move_def mem_read_def mem_write_def)

lemma mem_write_length: "mem_write off xs blk = Some blk' \<Longrightarrow> length blk' = length blk"
  by (auto simp: mem_write_def split: if_splits)

lemma mem_move_length: "mem_move d s n blk = Some blk' \<Longrightarrow> length blk' = length blk"
  by (auto simp: mem_move_def mem_read_def dest: mem_write_length split: if_splits)

text \<open>What a loop that writes its output piece by piece needs to know of one piece.\<close>

lemma mem_write_step:
  assumes "pos + length g \<le> length out"
  obtains out1 where "mem_write pos g out = Some out1" "length out1 = length out"
    "take (pos + length g) out1 = take pos out @ g"
    "\<And>k. pos + length g \<le> k \<Longrightarrow> drop k out1 = drop k out"
proof (rule that [OF mem_write_Some [OF assms]])
  have "length (take pos out) = pos" using assms by simp
  then show "take (pos + length g) (take pos out @ g @ drop (pos + length g) out) = take pos out @ g"
    by simp
qed (use assms in auto)

lemma mem_set_eq_write: "mem_set pos x out = mem_write pos [x] out"
  by (simp add: mem_set_def mem_write_def upd_conv_take_nth_drop)

lemma mem_write_append:
  "Option.bind (mem_write pos g out) (mem_write (pos + length g) h) = mem_write pos (g @ h) out"
proof (cases "pos + length g \<le> length out")
  case True
  then obtain out1 where "mem_write pos g out = Some out1" "length out1 = length out"
    "take (pos + length g) out1 = take pos out @ g"
    "\<And>k. pos + length g \<le> k \<Longrightarrow> drop k out1 = drop k out"
    by (rule mem_write_step) blast
  then show ?thesis by (simp add: mem_write_def add.assoc)
qed (simp add: mem_write_def)

lemma mem_set_chain:
  "Option.bind (mem_set pos a out) (\<lambda>out. Option.bind (mem_set (pos + 1) b out) k) =
     Option.bind (mem_write pos [a, b] out) k"
  "Option.bind (mem_set pos a out) (\<lambda>out. Option.bind (mem_set (pos + 1) b out)
       (\<lambda>out. Option.bind (mem_set (pos + 2) c out) k)) =
     Option.bind (mem_write pos [a, b, c] out) k"
proof -
  have two: "mem_write pos [a, b] out = Option.bind (mem_set pos a out) (mem_set (pos + 1) b)"
    using mem_write_append [of pos "[a]" out "[b]"] by (simp add: mem_set_eq_write [abs_def])
  have three: "mem_write pos [a, b, c] out = Option.bind (mem_write pos [a, b] out) (mem_set (pos + 2) c)"
    using mem_write_append [of pos "[a, b]" out "[c]"]
    by (simp add: mem_set_eq_write [abs_def] numeral_2_eq_2)
  show "Option.bind (mem_set pos a out) (\<lambda>out. Option.bind (mem_set (pos + 1) b out) k) =
      Option.bind (mem_write pos [a, b] out) k"
    unfolding two by (simp add: Option.bind_assoc)
  show "Option.bind (mem_set pos a out) (\<lambda>out. Option.bind (mem_set (pos + 1) b out)
       (\<lambda>out. Option.bind (mem_set (pos + 2) c out) k)) = Option.bind (mem_write pos [a, b, c] out) k"
    unfolding three two by (simp add: Option.bind_assoc)
qed

lemma mem_write_Nil [simp]: "off \<le> length blk \<Longrightarrow> mem_write off [] blk = Some blk"
  by (simp add: mem_write_def)

section \<open>The allocator\<close>

text \<open>
  \<open>alloc_ok l n\<close>: a request for \<open>n\<close> bytes succeeds; \<open>fresh l i\<close>: what byte \<open>i\<close> of a
  newly obtained block contains. A request for 0 bytes yields NULL, as in the GNU libc.
\<close>

record 'a libc =
  alloc_ok :: "nat \<Rightarrow> bool"
  fresh :: "nat \<Rightarrow> 'a"

text \<open>The allocator that never fails, for statements about when an operation succeeds.\<close>

definition alloc_total :: "'a libc \<Rightarrow> bool" where
  "alloc_total l \<longleftrightarrow> (\<forall>n. alloc_ok l n)"

definition libc_total :: "'a \<Rightarrow> 'a libc" where
  "libc_total x = \<lparr>alloc_ok = \<lambda>_. True, fresh = \<lambda>_. x\<rparr>"

lemma alloc_total_libc_total [simp]: "alloc_total (libc_total x)"
  by (simp add: alloc_total_def libc_total_def)

text \<open>
  No object is larger than \<^verbatim>\<open>PTRDIFF_MAX\<close> bytes: the documented behaviour of \<^verbatim>\<open>malloc\<close> for
  larger requests is to fail. \<open>libc_std x\<close> is the allocator with exactly that limit.
\<close>

definition alloc_bounded :: "'a libc \<Rightarrow> bool" where
  "alloc_bounded l \<longleftrightarrow> (\<forall>n. alloc_ok l n \<longrightarrow> n \<le> SSIZE_MAX)"

definition libc_std :: "'a \<Rightarrow> 'a libc" where
  "libc_std x = \<lparr>alloc_ok = \<lambda>n. n \<le> SSIZE_MAX, fresh = \<lambda>_. x\<rparr>"

lemma alloc_bounded_libc_std [simp]: "alloc_bounded (libc_std x)"
  by (simp add: alloc_bounded_def libc_std_def)

lemma alloc_ok_libc_std [simp]: "alloc_ok (libc_std x) n \<longleftrightarrow> n \<le> SSIZE_MAX"
  by (simp add: libc_std_def)

text \<open>
  \<open>realloc_cells l es old n\<close>: \<^verbatim>\<open>realloc\<close> of a block of cells of \<open>es\<close> bytes to \<open>n\<close> cells.
  The first cells keep their contents, the rest is whatever the allocator left there.
\<close>

definition realloc_cells :: "'a libc \<Rightarrow> nat \<Rightarrow> 'a list \<Rightarrow> nat \<Rightarrow> 'a list option" where
  "realloc_cells l es old n =
     (if n * es = 0 \<or> \<not> alloc_ok l (n * es) then None
      else Some (take n old @ map (fresh l) [length old ..< n]))"

lemma realloc_cells_SomeD:
  assumes "realloc_cells l es old n = Some blk"
  shows "length blk = n" and "take (min n (length old)) blk = take n old"
  using assms by (auto simp: realloc_cells_def min_def split: if_splits)

lemma realloc_cells_take:
  "realloc_cells l es old n = Some blk \<Longrightarrow> k \<le> n \<Longrightarrow> k \<le> length old \<Longrightarrow> take k blk = take k old"
  by (auto simp: realloc_cells_def take_map split: if_splits)

section \<open>Lists\<close>

lemma take_le_eq: "take k xs = take k ys \<Longrightarrow> j \<le> k \<Longrightarrow> take j xs = take j ys"
  by (metis min.absorb1 take_take)

lemma nth_take_eq: "take k xs = take k ys \<Longrightarrow> j < k \<Longrightarrow> xs ! j = ys ! j"
  by (metis nth_take)

lemma take_after_delete:
  assumes "s + k \<le> n" and "n \<le> length b"
  shows "take (n - k) (take s b @ take (n - k - s) (drop (s + k) b) @ r) =
    take s (take n b) @ drop (s + k) (take n b)"
proof -
  obtain m where "n = s + k + m" using assms(1) le_Suc_ex by blast
  with assms(2) show ?thesis by (simp add: drop_take add.commute)
qed

lemma take_after_insert:
  assumes "i \<le> n" and "n + k \<le> length b" and "length xs = k"
  shows "take (n + k) (take i b @ xs @ take (n - i) (drop i b) @ r) =
    take i (take n b) @ xs @ drop i (take n b)"
proof -
  obtain m where "n = i + m" using assms(1) le_Suc_ex by blast
  with assms(2,3) show ?thesis by (simp add: drop_take)
qed

lemma list_update_move:
  assumes "i < length b"
  shows "(take (i + 1) b @ r)[i := x] = take i b @ x # r"
proof -
  have "take (i + 1) b = take i b @ [b ! i]" using assms by (simp add: take_Suc_conv_app_nth)
  then show ?thesis using assms by (simp add: list_update_append)
qed

section \<open>Bytes\<close>

text \<open>Two bytes are equal when their eight bits are; the goals are closed by \<open>simp add: bit_simps\<close>.\<close>

lemma byte_eqI:
  fixes x y :: byte
  assumes "bit x 0 = bit y 0" "bit x (Suc 0) = bit y (Suc 0)" "bit x 2 = bit y 2" "bit x 3 = bit y 3"
    "bit x 4 = bit y 4" "bit x 5 = bit y 5" "bit x 6 = bit y 6" "bit x 7 = bit y 7"
  shows "x = y"
proof (rule bit_word_eqI)
  fix n
  assume "n < LENGTH(8)"
  then have "n = 0 \<or> n = Suc 0 \<or> n = 2 \<or> n = 3 \<or> n = 4 \<or> n = 5 \<or> n = 6 \<or> n = 7"
    by (simp; linarith)
  with assms show "bit x n = bit y n" by (elim disjE) simp_all
qed

lemma word_eq_take_bit: "(x :: 'a::len word) < 2 ^ k \<Longrightarrow> x = take_bit k x"
  by (simp add: less_mask_eq take_bit_eq_mask)

lemma take_bit_unat_less: "(x :: 'a::len word) = take_bit k x \<Longrightarrow> unat x < 2 ^ k"
  by (metis take_bit_nat_less_exp unsigned_take_bit_eq)

lemma nibble_cases:
  assumes "(x :: byte) < 16"
  shows "x \<in> {0, 1, 2, 3, 4, 5, 6, 7, 8, 9, 10, 11, 12, 13, 14, 15}"
proof -
  have "unat x < 16" using assms by (simp add: word_less_nat_alt)
  then have "unat x \<in> {0, 1, 2, 3, 4, 5, 6, 7, 8, 9, 10, 11, 12, 13, 14, 15}"
    unfolding insert_iff empty_iff by presburger
  then have "of_nat (unat x) \<in> (of_nat ` {0, 1, 2, 3, 4, 5, 6, 7, 8, 9, 10, 11, 12, 13, 14, 15} :: byte set)"
    by (rule imageI)
  then show ?thesis by simp
qed

lemma word32_eqI:
  fixes x y :: "32 word"
  assumes "bit x 0 = bit y 0" "bit x (Suc 0) = bit y (Suc 0)" "bit x 2 = bit y 2" "bit x 3 = bit y 3" "bit x 4
    = bit y 4" "bit x 5 = bit y 5" "bit x 6 = bit y 6" "bit x 7 = bit y 7" "bit x 8 = bit y 8" "bit x 9
    = bit y 9" "bit x 10 = bit y 10" "bit x 11 = bit y 11" "bit x 12 = bit y 12" "bit x 13 = bit y 13"
    "bit x 14 = bit y 14" "bit x 15 = bit y 15" "bit x 16 = bit y 16" "bit x 17 = bit y 17" "bit x 18 =
    bit y 18" "bit x 19 = bit y 19" "bit x 20 = bit y 20" "bit x 21 = bit y 21" "bit x 22 = bit y 22"
    "bit x 23 = bit y 23" "bit x 24 = bit y 24" "bit x 25 = bit y 25" "bit x 26 = bit y 26" "bit x 27 =
    bit y 27" "bit x 28 = bit y 28" "bit x 29 = bit y 29" "bit x 30 = bit y 30" "bit x 31 = bit y 31"
  shows "x = y"
proof (rule bit_word_eqI)
  fix n
  assume "n < LENGTH(32)"
  then have "n < 32" by simp
  then have "n \<in> {0, Suc 0, 2, 3, 4, 5, 6, 7, 8, 9, 10, 11, 12, 13, 14, 15, 16, 17, 18, 19, 20, 21, 22, 23, 24, 25, 26, 27, 28, 29, 30, 31}"
    unfolding insert_iff empty_iff by presburger
  with assms show "bit x n = bit y n" by (elim insertE emptyE) simp_all
qed

lemma byte_range:
  fixes b w :: byte
  assumes "drop_bit k b = w"
  shows "unat w * 2 ^ k \<le> unat b" "unat b < (unat w + 1) * 2 ^ k"
proof -
  have "take_bit 8 (unat b) = unat b" by (rule take_bit_nat_eq_self) (use unsigned_less [of b] in simp)
  then have d: "unat w = unat b div 2 ^ k"
    unfolding assms [symmetric] by (simp add: unsigned_drop_bit_eq drop_bit_eq_div [where 'a = nat])
  show "unat w * 2 ^ k \<le> unat b" unfolding d by (rule div_times_less_eq_dividend)
  show "unat b < (unat w + 1) * 2 ^ k"
    unfolding d using dividend_less_div_times [of "2 ^ k" "unat b"] by (simp add: algebra_simps)
qed

lemma take_bit_high: "(c :: 'a::len word) = take_bit k c \<Longrightarrow> k \<le> n \<Longrightarrow> \<not> bit c n"
  by (metis bit_take_bit_iff linorder_not_le)

section \<open>Sequences of operations\<close>

text \<open>
  A client issues operations one after the other and goes on after an error. \<open>outcomes\<close> lists what the
  abstract state may be in the end: a success applied the specification, an error did not apply it or,
  where an operation can fail late, did.
\<close>

fun run_ops :: "('op \<Rightarrow> 's \<Rightarrow> ((errno + unit) \<times> 's) option) \<Rightarrow> 'op list \<Rightarrow> 's
    \<Rightarrow> ((errno + unit) list \<times> 's) option" where
  "run_ops exec [] s = Some ([], s)"
| "run_ops exec (opn # ops) s = do {
     (r, s) \<leftarrow> exec opn s;
     (rs, s) \<leftarrow> run_ops exec ops s;
     Some (r # rs, s)
   }"

fun outcomes :: "('op \<Rightarrow> 'a \<Rightarrow> 'a) \<Rightarrow> 'op list \<Rightarrow> (errno + unit) list \<Rightarrow> 'a \<Rightarrow> 'a list" where
  "outcomes spec (opn # ops) (Inr _ # rs) x = outcomes spec ops rs (spec opn x)"
| "outcomes spec (opn # ops) (Inl _ # rs) x = outcomes spec ops rs x @ outcomes spec ops rs (spec opn x)"
| "outcomes spec _ _ x = [x]"

locale simulation =
  fixes inv :: "'s \<Rightarrow> bool" and abs :: "'s \<Rightarrow> 'a"
    and exec :: "'op \<Rightarrow> 's \<Rightarrow> ((errno + unit) \<times> 's) option" and spec :: "'op \<Rightarrow> 'a \<Rightarrow> 'a"
    and legal :: "'op \<Rightarrow> bool"
  assumes step: "inv s \<Longrightarrow> legal opn \<Longrightarrow> \<exists>r s'. exec opn s = Some (r, s') \<and> inv s' \<and>
    (case r of Inl _ \<Rightarrow> abs s' = abs s \<or> abs s' = spec opn (abs s) | Inr _ \<Rightarrow> abs s' = spec opn (abs s))"
begin

lemma run:
  "inv s \<Longrightarrow> list_all legal ops \<Longrightarrow> \<exists>rs s'. run_ops exec ops s = Some (rs, s') \<and> inv s' \<and>
     length rs = length ops \<and> abs s' \<in> set (outcomes spec ops rs (abs s))"
proof (induction ops arbitrary: s)
  case (Cons opn ops)
  obtain r s1 where s1: "exec opn s = Some (r, s1)" "inv s1"
    and abs1: "case r of Inl _ \<Rightarrow> abs s1 = abs s \<or> abs s1 = spec opn (abs s) | Inr _ \<Rightarrow> abs s1 = spec opn (abs s)"
    using step [OF Cons.prems(1), of opn] Cons.prems(2) by auto
  obtain rs s' where "run_ops exec ops s1 = Some (rs, s')" "inv s'" "length rs = length ops"
    "abs s' \<in> set (outcomes spec ops rs (abs s1))"
    using Cons.IH [OF s1(2)] Cons.prems(2) by auto
  with s1 abs1 show ?case by (cases r) auto
qed simp

end

end
