(* ===== verification/Util_Arith.thy ===== *)
theory Util_Arith
  imports Prelude "HOL-Library.Signed_Division"
begin

text \<open>
  The checked arithmetic and the power-of-two alignment of
  \<^verbatim>\<open>src/lib/common/sol-util.c\<close> and \<^verbatim>\<open>src/lib/common/sol-util-internal.h\<close>.

  Each checked operation has two bodies, chosen when the library is compiled: the compiler's
  \<^verbatim>\<open>__builtin_*_overflow\<close> and portable C. The definitions below are the portable bodies; the
  theorems compare them with the exact specification of the builtins (\<open>exact_nat\<close> and
  \<open>exact_int\<close>: the mathematical result where the type can hold it, an error otherwise).
  C's truncating division is \<open>sdiv\<close>.
\<close>

section \<open>Alignment to a power of two\<close>

fun bit_len :: "nat \<Rightarrow> nat" where
  "bit_len x = (if x = 0 then 0 else Suc (bit_len (x div 2)))"

declare bit_len.simps [simp del]

text \<open>\<^verbatim>\<open>__builtin_clz\<close> on a \<open>w\<close>-bit operand; 0 is excluded by its callers.\<close>

definition clz :: "nat \<Rightarrow> nat \<Rightarrow> nat" where
  "clz w x = w - bit_len x"

definition align_power2_w :: "nat \<Rightarrow> nat \<Rightarrow> nat \<Rightarrow> nat" where
  "align_power2_w w mx u =
     (if u \<le> 1 then u
      else let left_zeros = clz w (u - 1)
           in if left_zeros \<le> 1 then mx else 2 ^ (w - left_zeros))"

definition align_power2_uint :: "nat \<Rightarrow> nat" where
  "align_power2_uint u = align_power2_w 32 4294967295 u"

definition align_power2_size :: "nat \<Rightarrow> nat" where
  "align_power2_size u = align_power2_w 64 SIZE_MAX u"

definition align_power2_short_uint :: "nat \<Rightarrow> nat" where
  "align_power2_short_uint u =
     (let aligned = align_power2_uint u in if aligned \<le> UINT16_MAX then aligned else UINT16_MAX)"

section \<open>Checked arithmetic\<close>

definition OVERFLOW_SIZE_T :: nat where
  "OVERFLOW_SIZE_T = 2 ^ 32"

definition OVERFLOW_UINT64 :: nat where
  "OVERFLOW_UINT64 = 2 ^ 32"

definition OVERFLOW_UINT32 :: nat where
  "OVERFLOW_UINT32 = 2 ^ 16"

definition UINT64_MAX :: nat where
  "UINT64_MAX = 2 ^ 64 - 1"

definition UINT32_MAX :: nat where
  "UINT32_MAX = 2 ^ 32 - 1"

definition sol_util_size_mul :: "nat \<Rightarrow> nat \<Rightarrow> errno + nat" where
  "sol_util_size_mul elem_size num_elems =
     (if (OVERFLOW_SIZE_T \<le> elem_size \<or> OVERFLOW_SIZE_T \<le> num_elems) \<and>
         0 < elem_size \<and> SIZE_MAX div elem_size < num_elems
      then Inl EOVERFLOW else Inr ((elem_size * num_elems) mod (SIZE_MAX + 1)))"

definition sol_util_size_add :: "nat \<Rightarrow> nat \<Rightarrow> errno + nat" where
  "sol_util_size_add a b =
     (if 0 < a \<and> SIZE_MAX - a < b then Inl EOVERFLOW else Inr (size_plus a b))"

definition sol_util_size_sub :: "nat \<Rightarrow> nat \<Rightarrow> errno + nat" where
  "sol_util_size_sub a b = (if a < b then Inl EOVERFLOW else Inr (size_minus a b))"

definition sol_util_uint64_mul :: "nat \<Rightarrow> nat \<Rightarrow> errno + nat" where
  "sol_util_uint64_mul a b =
     (if (OVERFLOW_UINT64 \<le> a \<or> OVERFLOW_UINT64 \<le> b) \<and> 0 < a \<and> UINT64_MAX div a < b
      then Inl EOVERFLOW else Inr ((a * b) mod (UINT64_MAX + 1)))"

definition sol_util_uint64_add :: "nat \<Rightarrow> nat \<Rightarrow> errno + nat" where
  "sol_util_uint64_add a b =
     (if 0 < a \<and> UINT64_MAX - a < b then Inl EOVERFLOW else Inr ((a + b) mod (UINT64_MAX + 1)))"

definition sol_util_uint32_mul :: "nat \<Rightarrow> nat \<Rightarrow> errno + nat" where
  "sol_util_uint32_mul a b =
     (if (OVERFLOW_UINT32 \<le> a \<or> OVERFLOW_UINT32 \<le> b) \<and> 0 < a \<and> UINT32_MAX div a < b
      then Inl EOVERFLOW else Inr ((a * b) mod (UINT32_MAX + 1)))"

text \<open>The signed operations; \<open>M\<close> is the largest value of the type, \<open>- M - 1\<close> the smallest.\<close>

definition signed_mul :: "int \<Rightarrow> int \<Rightarrow> int \<Rightarrow> errno + int" where
  "signed_mul M a b =
     (if (a = M \<and> b = -1) \<or>
         (a > 0 \<and> b > 0 \<and> a > M sdiv b) \<or>
         (a < 0 \<and> b < 0 \<and> a < M sdiv b) \<or>
         (a > 0 \<and> b < -1 \<and> a > (- M - 1) sdiv b) \<or>
         (a < 0 \<and> b > 0 \<and> a < (- M - 1) sdiv b)
      then Inl EOVERFLOW else Inr (a * b))"

definition sol_util_int64_mul :: "int \<Rightarrow> int \<Rightarrow> errno + int" where
  "sol_util_int64_mul a b = signed_mul (2 ^ 63 - 1) a b"

definition sol_util_int32_mul :: "int \<Rightarrow> int \<Rightarrow> errno + int" where
  "sol_util_int32_mul a b = signed_mul (2 ^ 31 - 1) a b"

definition OVERFLOW_SSIZE_T_POS :: int where
  "OVERFLOW_SSIZE_T_POS = 2 ^ 63 - 1"

definition OVERFLOW_SSIZE_T_NEG :: int where
  "OVERFLOW_SSIZE_T_NEG = - (2 ^ 63)"

definition sol_util_ssize_mul :: "int \<Rightarrow> int \<Rightarrow> errno + int" where
  "sol_util_ssize_mul op1 op2 =
     (let overflow =
        (if op1 > 0 \<and> op2 > 0 then op1 > OVERFLOW_SSIZE_T_POS sdiv op2
         else if op1 > 0 \<and> op2 \<le> 0 then op2 < OVERFLOW_SSIZE_T_NEG sdiv op1
         else if op1 \<le> 0 \<and> op2 > 0 then op1 < OVERFLOW_SSIZE_T_NEG sdiv op2
         else op1 \<noteq> 0 \<and> op2 < OVERFLOW_SSIZE_T_POS sdiv op1)
      in if overflow then Inl EOVERFLOW else Inr (op1 * op2))"

text \<open>The specification of the builtins.\<close>

definition exact_nat :: "nat \<Rightarrow> nat \<Rightarrow> errno + nat" where
  "exact_nat mx x = (if x \<le> mx then Inr x else Inl EOVERFLOW)"

definition exact_int :: "int \<Rightarrow> int \<Rightarrow> errno + int" where
  "exact_int M x = (if - M - 1 \<le> x \<and> x \<le> M then Inr x else Inl EOVERFLOW)"

section \<open>Lemmas on the alignment\<close>

lemma bit_len_0 [simp]: "bit_len 0 = 0"
  by (simp add: bit_len.simps)

lemma bit_len_upper: "x < 2 ^ bit_len x"
proof (induction x rule: bit_len.induct)
  case (1 x)
  show ?case
  proof (cases "x = 0")
    case False
    with 1 have "x div 2 < 2 ^ bit_len (x div 2)" by simp
    then have "x < 2 * 2 ^ bit_len (x div 2)" by linarith
    with False show ?thesis by (simp add: bit_len.simps [of x])
  qed simp
qed

lemma bit_len_lower: "0 < x \<Longrightarrow> 2 ^ (bit_len x - 1) \<le> x"
proof (induction x rule: bit_len.induct)
  case (1 x)
  then have len: "bit_len x = Suc (bit_len (x div 2))" by (simp add: bit_len.simps [of x])
  show ?case
  proof (cases "x div 2 = 0")
    case True
    with 1 len show ?thesis by simp
  next
    case False
    with 1 have "2 ^ (bit_len (x div 2) - 1) \<le> x div 2" by simp
    moreover have "bit_len (x div 2) \<noteq> 0" using False by (simp add: bit_len.simps)
    ultimately show ?thesis using len by (cases "bit_len (x div 2)") simp_all
  qed
qed

lemma bit_len_le: "x < 2 ^ k \<Longrightarrow> bit_len x \<le> k"
proof (induction k arbitrary: x)
  case (Suc k)
  then have "bit_len (x div 2) \<le> k" by (intro Suc.IH) (simp add: less_mult_imp_div_less)
  then show ?case by (simp add: bit_len.simps [of x])
qed simp

lemma align_power2_w_value:
  assumes "1 < u" and "u \<le> 2 ^ (w - 2)" and "2 \<le> w"
  shows "align_power2_w w mx u = 2 ^ bit_len (u - 1)"
proof -
  have "u - 1 < 2 ^ (w - 2)" using assms by linarith
  then have "bit_len (u - 1) \<le> w - 2" by (rule bit_len_le)
  with assms(3) have "\<not> clz w (u - 1) \<le> 1" and "w - clz w (u - 1) = bit_len (u - 1)"
    unfolding clz_def by linarith+
  with assms(1) show ?thesis by (simp add: align_power2_w_def Let_def)
qed

lemma align_power2_w_ge:
  assumes "u \<le> mx" and "2 \<le> w"
  shows "u \<le> align_power2_w w mx u"
proof (cases "1 < u \<and> 1 < clz w (u - 1)")
  case True
  have "u - 1 < 2 ^ bit_len (u - 1)" by (rule bit_len_upper)
  then have "u \<le> 2 ^ bit_len (u - 1)" using True by linarith
  moreover from True have "w - clz w (u - 1) = bit_len (u - 1)" unfolding clz_def by linarith
  ultimately show ?thesis using True by (simp add: align_power2_w_def Let_def)
next
  case False
  with assms show ?thesis by (auto simp: align_power2_w_def Let_def)
qed

lemma align_power2_w_less_double:
  assumes "1 < u" and "u \<le> 2 ^ (w - 2)" and "2 \<le> w"
  shows "align_power2_w w mx u < 2 * u"
proof -
  have "2 ^ (bit_len (u - 1) - 1) \<le> u - 1" using assms(1) by (intro bit_len_lower) simp
  moreover have "bit_len (u - 1) = Suc (bit_len (u - 1) - 1)"
    using assms(1) by (subst (1 2) bit_len.simps) simp
  ultimately have "2 ^ bit_len (u - 1) \<le> 2 * (u - 1)"
    by (metis mult_le_mono2 power_Suc)
  then show ?thesis using assms by (simp add: align_power2_w_value)
qed

lemma align_power2_w_bound:
  assumes "2 ^ (w - 2) \<le> mx" and "u \<le> mx"
  shows "align_power2_w w mx u \<le> mx"
proof -
  have "2 ^ (w - clz w (u - 1)) \<le> (2::nat) ^ (w - 2)" if "\<not> clz w (u - 1) \<le> 1"
    using that by (intro power_increasing) auto
  with assms(1) have "2 ^ (w - clz w (u - 1)) \<le> mx" if "\<not> clz w (u - 1) \<le> 1"
    using that order_trans by blast
  then show ?thesis using assms(2) by (simp add: align_power2_w_def Let_def)
qed

lemma align_power2_0 [simp]: "align_power2_size 0 = 0" "align_power2_short_uint 0 = 0"
  by (simp_all add: align_power2_size_def align_power2_short_uint_def align_power2_uint_def
      align_power2_w_def)

lemma align_power2_size_ge: "u \<le> SIZE_MAX \<Longrightarrow> u \<le> align_power2_size u"
  by (simp add: align_power2_size_def align_power2_w_ge)

lemma align_power2_size_le_max: "u \<le> SIZE_MAX \<Longrightarrow> align_power2_size u \<le> SIZE_MAX"
  unfolding align_power2_size_def by (rule align_power2_w_bound) (simp_all add: SIZE_MAX_def)

lemma align_power2_size_pos: "0 < u \<Longrightarrow> u \<le> SIZE_MAX \<Longrightarrow> 0 < align_power2_size u"
  using align_power2_size_ge [of u] by simp

lemma align_power2_uint_ge: "u \<le> 4294967295 \<Longrightarrow> u \<le> align_power2_uint u"
  by (simp add: align_power2_uint_def align_power2_w_ge)

lemma align_power2_short_uint_ge: "u \<le> UINT16_MAX \<Longrightarrow> u \<le> align_power2_short_uint u"
  using align_power2_uint_ge [of u] by (simp add: align_power2_short_uint_def UINT16_MAX_def Let_def)

lemma align_power2_short_uint_le: "align_power2_short_uint u \<le> UINT16_MAX"
  by (simp add: align_power2_short_uint_def Let_def)

lemma bit_len_mono: "x \<le> y \<Longrightarrow> bit_len x \<le> bit_len y"
  using bit_len_upper [of y] by (intro bit_len_le) simp

lemma align_power2_uint_value:
  "1 < u \<Longrightarrow> u \<le> 2 ^ 30 \<Longrightarrow> align_power2_uint u = 2 ^ bit_len (u - 1)"
  unfolding align_power2_uint_def by (rule align_power2_w_value) simp_all

lemma align_power2_uint_mono:
  assumes "u \<le> v" and "v \<le> 2 ^ 30"
  shows "align_power2_uint u \<le> align_power2_uint v"
proof (cases "u \<le> 1")
  case True
  then have "align_power2_uint u = u" by (simp add: align_power2_uint_def align_power2_w_def)
  also have "u \<le> align_power2_uint v"
    using align_power2_uint_ge [of v] assms by simp
  finally show ?thesis .
next
  case False
  with assms show ?thesis by (simp add: align_power2_uint_value bit_len_mono)
qed

lemma align_power2_short_uint_mono:
  "u \<le> v \<Longrightarrow> v \<le> UINT16_MAX \<Longrightarrow> align_power2_short_uint u \<le> align_power2_short_uint v"
  using align_power2_uint_mono [of u v]
  by (simp add: align_power2_short_uint_def UINT16_MAX_def Let_def)

section \<open>Lemmas on the checked arithmetic\<close>

lemma mul_check_nat:
  assumes lim: "lim * lim = mx + 1" and "a \<le> mx" and "b \<le> mx"
  shows "(if (lim \<le> a \<or> lim \<le> b) \<and> 0 < a \<and> mx div a < b then Inl EOVERFLOW
          else Inr ((a * b) mod (mx + 1))) = exact_nat mx (a * b)"
proof (cases "lim \<le> a \<or> lim \<le> b")
  case True
  have "mx div a < b \<longleftrightarrow> mx < a * b" if "0 < a"
    using that by (simp add: div_less_iff_less_mult mult.commute)
  with True show ?thesis by (cases "a = 0") (auto simp: exact_nat_def)
next
  case False
  then have "a * b \<le> (lim - 1) * (lim - 1)" by (intro mult_le_mono) auto
  also have "(lim - 1) * (lim - 1) \<le> (lim - 1) * lim" by simp
  also have "\<dots> = lim * lim - lim" by (simp add: diff_mult_distrib)
  also have "\<dots> \<le> mx" using lim by (cases lim) auto
  finally show ?thesis using False by (simp add: exact_nat_def)
qed

lemma sdiv_pos_pos: "0 \<le> (a::int) \<Longrightarrow> 0 < b \<Longrightarrow> a sdiv b = a div b"
  by (simp add: signed_divide_int_def sgn_if)

lemma sdiv_neg_pos: "(a::int) < 0 \<Longrightarrow> 0 < b \<Longrightarrow> a sdiv b = - ((- a) div b)"
  by (simp add: signed_divide_int_def sgn_if)

lemma sdiv_pos_neg: "0 \<le> (a::int) \<Longrightarrow> b < 0 \<Longrightarrow> a sdiv b = - (a div (- b))"
  by (simp add: signed_divide_int_def sgn_if)

lemma sdiv_neg_neg: "(a::int) < 0 \<Longrightarrow> b < 0 \<Longrightarrow> a sdiv b = (- a) div (- b)"
  by (simp add: signed_divide_int_def sgn_if)

lemma div_less_iff_int: "0 < (b::int) \<Longrightarrow> m div b < n \<longleftrightarrow> m < n * b"
  using pos_imp_zdiv_neg_iff [of b "m + (- n) * b"] div_mult_self1 [of b m "- n"] by auto

lemma mul_less_iff_neg: "(a::int) < - (m div c) \<longleftrightarrow> m < - a * c" if "0 < c"
  using div_less_iff_int [OF that, of m "- a"] by linarith

text \<open>
  The portable signed multiplication is exact but for one pair of operands: it rejects
  \<open>M * (-1)\<close>, whose product \<open>- M\<close> the type can hold.
\<close>

lemma signed_mul_exact:
  assumes "0 < M" and "- M - 1 \<le> a" "a \<le> M" "- M - 1 \<le> b" "b \<le> M"
    and "\<not> (a = M \<and> b = -1)"
  shows "signed_mul M a b = exact_int M (a * b)"
proof -
  consider "a = 0 \<or> b = 0" | "a > 0" "b > 0" | "a < 0" "b < 0" | "a > 0" "b < 0" | "a < 0" "b > 0"
    by linarith
  then show ?thesis
  proof cases
    case 1
    then show ?thesis using assms(1) by (elim disjE) (simp_all add: signed_mul_def exact_int_def)
  next
    case 2
    then have "a > M sdiv b \<longleftrightarrow> M < a * b"
      using assms(1) by (simp add: sdiv_pos_pos div_less_iff_int)
    moreover have "- M - 1 \<le> a * b" using mult_pos_pos [OF 2] assms(1) by linarith
    ultimately show ?thesis using 2 assms(1) by (simp add: signed_mul_def exact_int_def)
  next
    case 3
    then have "a < M sdiv b \<longleftrightarrow> M < a * b"
      using assms(1) mul_less_iff_neg [of "- b" a M] by (simp add: sdiv_pos_neg)
    moreover have "- M - 1 \<le> a * b" using mult_neg_neg [OF 3] assms(1) by linarith
    ultimately show ?thesis using 3 assms(1) by (simp add: signed_mul_def exact_int_def)
  next
    case 4
    then have "a > (- M - 1) sdiv b \<longleftrightarrow> M + 1 < - (a * b)"
      using assms(1) div_less_iff_int [of "- b" "1 + M" a] by (simp add: sdiv_neg_neg add.commute)
    moreover have "a * b \<le> M" using mult_pos_neg [OF 4] assms(1) by linarith
    ultimately show ?thesis
      using 4 assms(1,3,6) by (cases "b = -1") (simp_all add: signed_mul_def exact_int_def)
  next
    case 5
    then have "a < (- M - 1) sdiv b \<longleftrightarrow> M + 1 < - (a * b)"
      using assms(1) mul_less_iff_neg [of b a "1 + M"] by (simp add: sdiv_neg_pos add.commute)
    moreover have "a * b \<le> M" using mult_neg_pos [OF 5] assms(1) by linarith
    ultimately show ?thesis using 5 assms(1) by (simp add: signed_mul_def exact_int_def)
  qed
qed

lemma sol_util_size_mul_exact:
  "a \<le> SIZE_MAX \<Longrightarrow> b \<le> SIZE_MAX \<Longrightarrow> sol_util_size_mul a b = exact_nat SIZE_MAX (a * b)"
  unfolding sol_util_size_mul_def
  by (rule mul_check_nat) (simp_all add: OVERFLOW_SIZE_T_def SIZE_MAX_def)

lemma sol_util_size_add_exact:
  "a \<le> SIZE_MAX \<Longrightarrow> b \<le> SIZE_MAX \<Longrightarrow> sol_util_size_add a b = exact_nat SIZE_MAX (a + b)"
  by (auto simp: sol_util_size_add_def exact_nat_def)

lemma sol_util_size_mul_small:
  "a * b \<le> SIZE_MAX \<Longrightarrow> a \<le> SIZE_MAX \<Longrightarrow> b \<le> SIZE_MAX \<Longrightarrow> sol_util_size_mul a b = Inr (a * b)"
  by (simp add: sol_util_size_mul_exact exact_nat_def)

lemma sol_util_ssize_mul_cases:
  "op1 > 0 \<Longrightarrow> op2 > 0 \<Longrightarrow> op1 > OVERFLOW_SSIZE_T_POS sdiv op2 \<longleftrightarrow> 2 ^ 63 - 1 < op1 * op2"
  "op1 > 0 \<Longrightarrow> op2 < OVERFLOW_SSIZE_T_NEG sdiv op1 \<longleftrightarrow> op1 * op2 < - (2 ^ 63)"
  "op1 < 0 \<Longrightarrow> op2 < OVERFLOW_SSIZE_T_POS sdiv op1 \<longleftrightarrow> 2 ^ 63 - 1 < op1 * op2"
  using div_less_iff_int [of op2 "2 ^ 63 - 1" op1] mul_less_iff_neg [of op1 op2 "2 ^ 63"]
    mul_less_iff_neg [of "- op1" op2 "2 ^ 63 - 1"]
  by (auto simp: OVERFLOW_SSIZE_T_POS_def OVERFLOW_SSIZE_T_NEG_def sdiv_pos_pos sdiv_neg_pos
      sdiv_pos_neg mult.commute)

lemma sol_util_ssize_mul_exact:
  "sol_util_ssize_mul op1 op2 = exact_int (2 ^ 63 - 1) (op1 * op2)"
proof -
  consider "op1 = 0" | "op2 = 0" | "op1 > 0" "op2 > 0" | "op1 > 0" "op2 < 0"
    | "op1 < 0" "op2 > 0" | "op1 < 0" "op2 < 0"
    by linarith
  then show ?thesis
  proof cases
    case 1
    then show ?thesis
      using sol_util_ssize_mul_cases(2) [of op2 0]
      by (simp add: sol_util_ssize_mul_def exact_int_def)
  next
    case 2
    then show ?thesis
      using sol_util_ssize_mul_cases(2,3) [of op1 0]
      by (cases op1 "0 :: int" rule: linorder_cases) (simp_all add: sol_util_ssize_mul_def exact_int_def)
  next
    case 3
    have "- 9223372036854775808 \<le> op1 * op2" using mult_pos_pos [OF 3] by linarith
    with 3 show ?thesis
      by (simp add: sol_util_ssize_mul_def exact_int_def sol_util_ssize_mul_cases(1))
  next
    case 4
    have "op1 * op2 \<le> 9223372036854775807" using mult_pos_neg [OF 4] by linarith
    with 4 show ?thesis
      by (simp add: sol_util_ssize_mul_def exact_int_def sol_util_ssize_mul_cases(2))
  next
    case 5
    have "op1 * op2 \<le> 9223372036854775807" using mult_neg_pos [OF 5] by linarith
    with 5 show ?thesis
      using sol_util_ssize_mul_cases(2) [of op2 op1]
      by (simp add: sol_util_ssize_mul_def exact_int_def mult.commute)
  next
    case 6
    have "- 9223372036854775808 \<le> op1 * op2" using mult_neg_neg [OF 6] by linarith
    with 6 show ?thesis
      by (simp add: sol_util_ssize_mul_def exact_int_def sol_util_ssize_mul_cases(3))
  qed
qed

section \<open>Properties\<close>

text \<open>
  C30. The portable bodies of the unsigned checked operations agree with the compiler's
  overflow builtins on every pair of operands of their type: they return the mathematical
  result when it fits and the overflow error otherwise.
\<close>

theorem unsigned_checked_exact:
  shows "a \<le> SIZE_MAX \<Longrightarrow> b \<le> SIZE_MAX \<Longrightarrow>
      sol_util_size_mul a b = exact_nat SIZE_MAX (a * b) \<and>
      sol_util_size_add a b = exact_nat SIZE_MAX (a + b) \<and>
      sol_util_size_sub a b = (if b \<le> a then Inr (a - b) else Inl EOVERFLOW) \<and>
      sol_util_uint64_mul a b = exact_nat UINT64_MAX (a * b) \<and>
      sol_util_uint64_add a b = exact_nat UINT64_MAX (a + b) \<and>
      (a \<le> UINT32_MAX \<and> b \<le> UINT32_MAX \<longrightarrow>
         sol_util_uint32_mul a b = exact_nat UINT32_MAX (a * b))"
proof -
  assume ab: "a \<le> SIZE_MAX" "b \<le> SIZE_MAX"
  then have ab': "a \<le> UINT64_MAX" "b \<le> UINT64_MAX" by (simp_all add: SIZE_MAX_def UINT64_MAX_def)
  have "sol_util_uint64_mul a b = exact_nat UINT64_MAX (a * b)"
    unfolding sol_util_uint64_mul_def
    by (rule mul_check_nat) (use ab' in \<open>simp_all add: OVERFLOW_UINT64_def UINT64_MAX_def\<close>)
  moreover have "sol_util_uint32_mul a b = exact_nat UINT32_MAX (a * b)"
    if "a \<le> UINT32_MAX \<and> b \<le> UINT32_MAX"
    unfolding sol_util_uint32_mul_def
    by (rule mul_check_nat) (use that in \<open>simp_all add: OVERFLOW_UINT32_def UINT32_MAX_def\<close>)
  moreover have "sol_util_uint64_add a b = exact_nat UINT64_MAX (a + b)"
    using ab' by (auto simp: sol_util_uint64_add_def exact_nat_def)
  ultimately show ?thesis
    using ab by (simp add: sol_util_size_mul_exact sol_util_size_add_exact sol_util_size_sub_def)
qed

theorem unsigned_checked_exact_witness:
  "sol_util_size_mul 4294967296 4294967296 = Inl EOVERFLOW \<and>
   sol_util_size_mul 4294967296 4294967295 = Inr 18446744069414584320"
  using unsigned_checked_exact [of 4294967296 4294967296]
    unsigned_checked_exact [of 4294967296 4294967295]
  by (simp add: exact_nat_def SIZE_MAX_def)

text \<open>
  C31. The portable bodies of the signed multiplications, for operands of their type: the one
  on \<^verbatim>\<open>ssize_t\<close> is exact; those on \<^verbatim>\<open>int32_t\<close> and \<^verbatim>\<open>int64_t\<close> are exact except that they report an
  overflow for the largest value times -1, whose product the type can hold.
\<close>

theorem signed_checked_exact:
  assumes "- (2 ^ 63) \<le> a" "a < 2 ^ 63" "- (2 ^ 63) \<le> b" "b < 2 ^ 63"
  shows "sol_util_ssize_mul a b = exact_int (2 ^ 63 - 1) (a * b) \<and>
    sol_util_int64_mul a b =
      (if a = 2 ^ 63 - 1 \<and> b = -1 then Inl EOVERFLOW else exact_int (2 ^ 63 - 1) (a * b)) \<and>
    (- (2 ^ 31) \<le> a \<and> a < 2 ^ 31 \<and> - (2 ^ 31) \<le> b \<and> b < 2 ^ 31 \<longrightarrow>
      sol_util_int32_mul a b =
        (if a = 2 ^ 31 - 1 \<and> b = -1 then Inl EOVERFLOW else exact_int (2 ^ 31 - 1) (a * b)))"
proof -
  have "sol_util_int64_mul a b =
      (if a = 2 ^ 63 - 1 \<and> b = -1 then Inl EOVERFLOW else exact_int (2 ^ 63 - 1) (a * b))"
    using assms signed_mul_exact [of "2 ^ 63 - 1" a b]
    by (auto simp: sol_util_int64_mul_def signed_mul_def)
  moreover have "sol_util_int32_mul a b =
      (if a = 2 ^ 31 - 1 \<and> b = -1 then Inl EOVERFLOW else exact_int (2 ^ 31 - 1) (a * b))"
    if "- (2 ^ 31) \<le> a \<and> a < 2 ^ 31 \<and> - (2 ^ 31) \<le> b \<and> b < 2 ^ 31"
    using that signed_mul_exact [of "2 ^ 31 - 1" a b]
    by (auto simp: sol_util_int32_mul_def signed_mul_def)
  ultimately show ?thesis by (simp add: sol_util_ssize_mul_exact)
qed

theorem signed_checked_exact_witness:
  "sol_util_int32_mul 2147483647 (-1) = Inl EOVERFLOW \<and>
   sol_util_int32_mul (-2147483648) 1 = Inr (-2147483648) \<and>
   sol_util_int32_mul (-2147483648) (-1) = Inl EOVERFLOW"
  using signed_checked_exact [of 2147483647 "-1"] signed_checked_exact [of "-2147483648" 1]
    signed_checked_exact [of "-2147483648" "-1"]
  by (simp add: exact_int_def)

text \<open>
  Up to a quarter of the address space, the alignment used for every capacity of the
  library is the least power of two that is not below its argument; beyond that it saturates
  at \<^verbatim>\<open>SIZE_MAX\<close>. It never returns less than what was asked for.
\<close>

lemma align_power2_size_least:
  assumes "u \<le> SIZE_MAX"
  shows "u \<le> align_power2_size u \<and> align_power2_size u \<le> SIZE_MAX \<and>
    (1 < u \<and> u \<le> 2 ^ 62 \<longrightarrow> (\<exists>k. align_power2_size u = 2 ^ k \<and> 2 ^ k < 2 * u)) \<and>
    (2 ^ 62 < u \<longrightarrow> align_power2_size u = SIZE_MAX)"
proof -
  have "\<exists>k. align_power2_size u = 2 ^ k \<and> 2 ^ k < 2 * u" if "1 < u" "u \<le> 2 ^ 62"
    using align_power2_w_value [of u 64 SIZE_MAX] align_power2_w_less_double [of u 64 SIZE_MAX] that
    by (auto simp: align_power2_size_def)
  moreover have "align_power2_size u = SIZE_MAX" if "2 ^ 62 < u"
  proof -
    have "\<not> bit_len (u - 1) \<le> 62"
    proof
      assume "bit_len (u - 1) \<le> 62"
      then have "(2::nat) ^ bit_len (u - 1) \<le> 2 ^ 62" by (rule power_increasing) simp
      with bit_len_upper [of "u - 1"] that show False by linarith
    qed
    then have "clz 64 (u - 1) \<le> 1" by (simp add: clz_def)
    with that show ?thesis by (simp add: align_power2_size_def align_power2_w_def)
  qed
  ultimately show ?thesis
    using assms align_power2_size_ge align_power2_size_le_max by blast
qed

end
