(* ===== verification/Vector.thy ===== *)
theory Vector
  imports Util_Arith "HOL-Library.Multiset"
begin

text \<open>
  \<^verbatim>\<open>struct sol_vector\<close> and \<^verbatim>\<open>struct sol_ptr_vector\<close> of \<^verbatim>\<open>src/lib/datatypes/sol-vector.c\<close> and
  \<^verbatim>\<open>src/lib/datatypes/include/sol-vector.h\<close>.

  The allocated block is a list of cells, one cell for each \<^verbatim>\<open>elem_size\<close> bytes; the capacity is
  not stored, the code recomputes it from the length with \<^verbatim>\<open>align_power2\<close>. The all-zero cell
  that \<^verbatim>\<open>memset\<close> writes, and the NULL of a pointer vector, is \<open>0\<close>. Byte offsets such as
  \<^verbatim>\<open>v->elem_size * i\<close> are products of two \<^verbatim>\<open>uint16_t\<close>, that is of C \<^verbatim>\<open>int\<close>s: a product above
  \<^verbatim>\<open>INT_MAX\<close> is undefined behaviour (\<open>elem_off_ok\<close>). Compare callbacks are functions on
  the pointed-to values and have no effect.
\<close>

section \<open>Vectors of cells\<close>

record 'a sol_vector =
  vdata :: "'a list option"
  vlen :: nat
  velem_size :: nat

definition vblock :: "'a sol_vector \<Rightarrow> 'a list" where
  "vblock v = (case vdata v of None \<Rightarrow> [] | Some b \<Rightarrow> b)"

text \<open>The elements of the vector: the abstraction the lemmas are about.\<close>

definition velems :: "'a sol_vector \<Rightarrow> 'a list" where
  "velems v = take (vlen v) (vblock v)"

definition elem_off_ok :: "'a sol_vector \<Rightarrow> nat \<Rightarrow> bool" where
  "elem_off_ok v i \<longleftrightarrow> velem_size v * i \<le> INT_MAX"

definition sol_vector_init :: "nat \<Rightarrow> 'a sol_vector" where
  "sol_vector_init elem_size = \<lparr>vdata = None, vlen = 0, velem_size = elem_size\<rparr>"

definition sol_vector_grow :: "'a libc \<Rightarrow> 'a sol_vector \<Rightarrow> nat \<Rightarrow> (errno + unit) \<times> 'a sol_vector" where
  "sol_vector_grow l v amount =
     (if vlen v > UINT16_MAX - amount then (Inl EOVERFLOW, v)
      else let new_len = vlen v + amount;
               old_cap = align_power2_short_uint (vlen v);
               new_cap = align_power2_short_uint new_len
           in if new_cap \<noteq> old_cap then
                case sol_util_size_mul (velem_size v) new_cap of
                  Inl e \<Rightarrow> (Inl e, v)
                | Inr data_size \<Rightarrow>
                    (case realloc_cells l (velem_size v) (vblock v) new_cap of
                       None \<Rightarrow> (Inl ENOMEM, v)
                     | Some data \<Rightarrow> (Inr (), v\<lparr>vdata := Some data, vlen := new_len\<rparr>))
              else (Inr (), v\<lparr>vlen := new_len\<rparr>))"

definition sol_vector_append_n ::
    "('a::zero) libc \<Rightarrow> 'a sol_vector \<Rightarrow> nat \<Rightarrow> ((errno + nat) \<times> 'a sol_vector) option" where
  "sol_vector_append_n l v n =
     (if n = 0 then Some (Inl EINVAL, v)
      else case sol_vector_grow l v n of
          (Inl e, v') \<Rightarrow> Some (Inl e, v')
        | (Inr _, v') \<Rightarrow>
            if elem_off_ok v' (vlen v' - n) then do {
              blk \<leftarrow> mem_write (vlen v' - n) (replicate n 0) (vblock v');
              Some (Inr (vlen v' - n), v'\<lparr>vdata := Some blk\<rparr>)
            } else None)"

definition sol_vector_append ::
    "('a::zero) libc \<Rightarrow> 'a sol_vector \<Rightarrow> ((errno + nat) \<times> 'a sol_vector) option" where
  "sol_vector_append l v = sol_vector_append_n l v 1"

definition sol_vector_shrink :: "'a libc \<Rightarrow> 'a sol_vector \<Rightarrow> 'a sol_vector" where
  "sol_vector_shrink l v =
     (if vlen v = 0 then v\<lparr>vdata := None\<rparr>
      else let old_cap = align_power2_uint (vlen v + 1);
               new_cap = align_power2_short_uint (vlen v)
           in if new_cap = old_cap then v
              else case realloc_cells l (velem_size v) (vblock v) new_cap of
                     None \<Rightarrow> v
                   | Some data \<Rightarrow> v\<lparr>vdata := Some data\<rparr>)"

definition sol_vector_del :: "'a libc \<Rightarrow> 'a sol_vector \<Rightarrow> nat \<Rightarrow> ((errno + unit) \<times> 'a sol_vector) option" where
  "sol_vector_del l v i =
     (if i \<ge> vlen v then Some (Inl EINVAL, v)
      else let v = v\<lparr>vlen := vlen v - 1\<rparr>; tail_len = vlen v - i
           in if tail_len \<noteq> 0 then
                if elem_off_ok v i then do {
                  blk \<leftarrow> mem_move i (i + 1) tail_len (vblock v);
                  Some (Inr (), sol_vector_shrink l (v\<lparr>vdata := Some blk\<rparr>))
                } else None
              else Some (Inr (), sol_vector_shrink l v))"

definition sol_vector_del_range ::
    "'a libc \<Rightarrow> 'a sol_vector \<Rightarrow> nat \<Rightarrow> nat \<Rightarrow> ((errno + unit) \<times> 'a sol_vector) option" where
  "sol_vector_del_range l v start n =
     (if start \<ge> vlen v then Some (Inl EINVAL, v)
      else let n = (if start + n \<ge> vlen v then vlen v - start else n);
               v = v\<lparr>vlen := vlen v - n\<rparr>;
               tail_len = vlen v - start
           in if tail_len \<noteq> 0 then
                if elem_off_ok v start \<and> elem_off_ok v n then do {
                  blk \<leftarrow> mem_move start (start + n) tail_len (vblock v);
                  Some (Inr (), sol_vector_shrink l (v\<lparr>vdata := Some blk\<rparr>))
                } else None
              else Some (Inr (), sol_vector_shrink l v))"

definition sol_vector_clear :: "'a sol_vector \<Rightarrow> 'a sol_vector" where
  "sol_vector_clear v = v\<lparr>vdata := None, vlen := 0\<rparr>"

definition sol_vector_get_no_check :: "'a sol_vector \<Rightarrow> nat \<Rightarrow> 'a option" where
  "sol_vector_get_no_check v i = (if elem_off_ok v i then mem_get i (vblock v) else None)"

definition sol_vector_del_last :: "'a libc \<Rightarrow> 'a sol_vector \<Rightarrow> ((errno + unit) \<times> 'a sol_vector) option" where
  "sol_vector_del_last l v =
     (if vlen v = 0 then Some (Inr (), v) else sol_vector_del l v (vlen v - 1))"

definition sol_vector_steal_data :: "'a sol_vector \<Rightarrow> 'a list option \<times> 'a sol_vector" where
  "sol_vector_steal_data v = (vdata v, v\<lparr>vdata := None, vlen := 0\<rparr>)"

text \<open>\<open>offset\<close>: the distance in bytes from the start of the block to the element.\<close>

definition sol_vector_del_element ::
    "'a libc \<Rightarrow> 'a sol_vector \<Rightarrow> int \<Rightarrow> ((errno + unit) \<times> 'a sol_vector) option" where
  "sol_vector_del_element l v offset =
     (if offset mod int (velem_size v) \<noteq> 0 \<or> offset < 0 then Some (Inl ENOENT, v)
      else let index = nat (offset div int (velem_size v))
           in if index \<ge> vlen v then Some (Inl ENOENT, v) else sol_vector_del l v index)"

section \<open>Pointer vectors\<close>

type_synonym 'a sol_ptr_vector = "'a sol_vector"

definition sol_ptr_vector_init :: "'a sol_ptr_vector" where
  "sol_ptr_vector_init = sol_vector_init 8"

definition sol_ptr_vector_init_n ::
    "('a::zero) libc \<Rightarrow> nat \<Rightarrow> ((errno + unit) \<times> 'a sol_ptr_vector) option" where
  "sol_ptr_vector_init_n l n =
     on_ok (sol_vector_append_n l (sol_vector_init 8) n) (\<lambda>_ pv. Some (Inr (), pv))"

definition sol_ptr_vector_get_no_check :: "'a sol_ptr_vector \<Rightarrow> nat \<Rightarrow> 'a option" where
  "sol_ptr_vector_get_no_check pv i = sol_vector_get_no_check pv i"

definition sol_ptr_vector_get :: "('a::zero) sol_ptr_vector \<Rightarrow> nat \<Rightarrow> 'a option" where
  "sol_ptr_vector_get pv i =
     (if i \<ge> vlen pv then Some 0 else sol_ptr_vector_get_no_check pv i)"

definition sol_ptr_vector_set ::
    "'a sol_ptr_vector \<Rightarrow> nat \<Rightarrow> 'a \<Rightarrow> ((errno + unit) \<times> 'a sol_ptr_vector) option" where
  "sol_ptr_vector_set pv i ptr =
     (if i \<ge> vlen pv then Some (Inl ENODATA, pv)
      else if elem_off_ok pv i then do {
             blk \<leftarrow> mem_set i ptr (vblock pv);
             Some (Inr (), pv\<lparr>vdata := Some blk\<rparr>)
           } else None)"

definition sol_ptr_vector_append ::
    "('a::zero) libc \<Rightarrow> 'a sol_ptr_vector \<Rightarrow> 'a \<Rightarrow> ((errno + unit) \<times> 'a sol_ptr_vector) option" where
  "sol_ptr_vector_append l pv ptr =
     on_ok (sol_vector_append l pv) (\<lambda>data pv. do {
       blk \<leftarrow> mem_set data ptr (vblock pv);
       Some (Inr (), pv\<lparr>vdata := Some blk\<rparr>)
     })"

definition sol_ptr_vector_insert_at ::
    "('a::zero) libc \<Rightarrow> 'a sol_ptr_vector \<Rightarrow> nat \<Rightarrow> 'a \<Rightarrow> ((errno + unit) \<times> 'a sol_ptr_vector) option" where
  "sol_ptr_vector_insert_at l pv i ptr =
     (if i > vlen pv then Some (Inl ERANGE, pv)
      else if i = vlen pv then sol_ptr_vector_append l pv ptr
      else case sol_vector_grow l pv 1 of
          (Inl e, pv) \<Rightarrow> Some (Inl ENOMEM, pv)
        | (Inr _, pv) \<Rightarrow>
            if elem_off_ok pv (i + 1) then do {
              blk \<leftarrow> mem_move (i + 1) i (vlen pv - 1 - i) (vblock pv);
              sol_ptr_vector_set (pv\<lparr>vdata := Some blk\<rparr>) i ptr
            } else None)"

text \<open>
  The search loop of \<^verbatim>\<open>ptr_vector_find_sorted\<close>; \<open>None\<close> also stands for a loop that does not
  end (which \<open>low > high\<close> could cause).
\<close>

partial_function (option) find_sorted_loop ::
    "'a sol_ptr_vector \<Rightarrow> nat \<Rightarrow> nat \<Rightarrow> 'a \<Rightarrow> ('a \<Rightarrow> 'a \<Rightarrow> int) \<Rightarrow> (nat \<times> int) option" where
  "find_sorted_loop pv low high ptr compare =
     (if low = high then do {
        x \<leftarrow> sol_ptr_vector_get_no_check pv low;
        Some (low, compare ptr x)
      } else do {
        x \<leftarrow> sol_ptr_vector_get_no_check pv ((low + high) div 2);
        (if compare ptr x = 0 then Some ((low + high) div 2, 0)
         else if compare ptr x < 0 then find_sorted_loop pv low ((low + high) div 2) ptr compare
         else find_sorted_loop pv ((low + high) div 2 + 1) high ptr compare)
      })"

definition ptr_vector_find_sorted ::
    "'a sol_ptr_vector \<Rightarrow> nat \<Rightarrow> nat \<Rightarrow> 'a \<Rightarrow> ('a \<Rightarrow> 'a \<Rightarrow> int) \<Rightarrow> (nat \<times> int) option" where
  "ptr_vector_find_sorted pv low high ptr compare = do {
     x \<leftarrow> sol_ptr_vector_get_no_check pv low;
     (if compare ptr x \<le> 0 \<or> low = high then Some (low, compare ptr x)
      else do {
        y \<leftarrow> sol_ptr_vector_get_no_check pv high;
        (if compare ptr y \<ge> 0 then Some (high, compare ptr y)
         else find_sorted_loop pv low high ptr compare)
      })
   }"

text \<open>The loop of \<^verbatim>\<open>sol_ptr_vector_insert_sorted\<close> that skips the elements equal to the new one.\<close>

function skip_equal ::
    "'a sol_ptr_vector \<Rightarrow> 'a \<Rightarrow> ('a \<Rightarrow> 'a \<Rightarrow> int) \<Rightarrow> nat \<Rightarrow> int \<Rightarrow> (nat \<times> int) option" where
  "skip_equal pv ptr compare index dir =
     (if dir = 0 \<and> index < vlen pv - 1 then do {
        x \<leftarrow> sol_ptr_vector_get_no_check pv (index + 1);
        skip_equal pv ptr compare (index + 1) (compare ptr x)
      } else Some (index, dir))"
  by pat_completeness auto
termination
  by (relation "measure (\<lambda>(pv, ptr, compare, index, dir). vlen pv - index)") auto

definition sol_ptr_vector_insert_sorted ::
    "('a::zero) libc \<Rightarrow> 'a sol_ptr_vector \<Rightarrow> 'a \<Rightarrow> ('a \<Rightarrow> 'a \<Rightarrow> int)
      \<Rightarrow> ((errno + nat) \<times> 'a sol_ptr_vector) option" where
  "sol_ptr_vector_insert_sorted l pv ptr compare =
     (if vlen pv = 0 then
        on_ok (sol_ptr_vector_append l pv ptr) (\<lambda>_ pv. Some (Inr (vlen pv - 1), pv))
      else do {
        (index, dir) \<leftarrow> ptr_vector_find_sorted pv 0 (vlen pv - 1) ptr compare;
        (index, dir) \<leftarrow> skip_equal pv ptr compare index dir;
        let index = (if dir \<ge> 0 then index + 1 else index);
        on_ok (sol_ptr_vector_insert_at l pv index ptr) (\<lambda>_ pv. Some (Inr index, pv))
      })"

definition sol_ptr_vector_update_sorted ::
    "('a::zero) libc \<Rightarrow> 'a sol_ptr_vector \<Rightarrow> nat \<Rightarrow> ('a \<Rightarrow> 'a \<Rightarrow> int)
      \<Rightarrow> ((errno + nat) \<times> 'a sol_ptr_vector) option" where
  "sol_ptr_vector_update_sorted l pv i compare_cb =
     (if i \<ge> vlen pv then Some (Inl ERANGE, pv)
      else if vlen pv = 1 then Some (Inr 0, pv)
      else do {
        ptr \<leftarrow> sol_ptr_vector_get_no_check pv i;
        before \<leftarrow> (if i > 0 then do {
            other \<leftarrow> sol_ptr_vector_get_no_check pv (i - 1);
            Some (compare_cb other ptr > 0)
          } else Some False);
        after \<leftarrow> (if \<not> before \<and> i + 1 < vlen pv then do {
            other \<leftarrow> sol_ptr_vector_get_no_check pv (i + 1);
            Some (compare_cb ptr other \<ge> 0)
          } else Some False);
        (if \<not> before \<and> \<not> after then Some (Inr i, pv)
         else let pv = pv\<lparr>vlen := vlen pv - 1\<rparr>; tail_len = vlen pv - i
              in if tail_len \<noteq> 0 then
                   if elem_off_ok pv i then do {
                     blk \<leftarrow> mem_move i (i + 1) tail_len (vblock pv);
                     sol_ptr_vector_insert_sorted l (pv\<lparr>vdata := Some blk\<rparr>) ptr compare_cb
                   } else None
                 else sol_ptr_vector_insert_sorted l pv ptr compare_cb)
      })"

definition sol_ptr_vector_match_sorted ::
    "'a sol_ptr_vector \<Rightarrow> 'a \<Rightarrow> ('a \<Rightarrow> 'a \<Rightarrow> int) \<Rightarrow> (errno + nat) option" where
  "sol_ptr_vector_match_sorted pv elem compare_cb =
     (if vlen pv = 0 then Some (Inl ENODATA)
      else do {
        (i, dir) \<leftarrow> ptr_vector_find_sorted pv 0 (vlen pv - 1) elem compare_cb;
        Some (if dir \<noteq> 0 then Inl ENODATA else Inr i)
      })"

text \<open>The forward and backward iterations of the header's search functions.\<close>

function foreach_find :: "'a sol_ptr_vector \<Rightarrow> ('a \<Rightarrow> bool) \<Rightarrow> nat \<Rightarrow> (errno + nat) option" where
  "foreach_find pv P i =
     (if i < vlen pv then do {
        p \<leftarrow> sol_ptr_vector_get_no_check pv i;
        if P p then Some (Inr i) else foreach_find pv P (i + 1)
      } else Some (Inl ENODATA))"
  by pat_completeness auto
termination
  by (relation "measure (\<lambda>(pv, P, i). vlen pv - i)") auto

fun foreach_reverse_find :: "'a sol_ptr_vector \<Rightarrow> ('a \<Rightarrow> bool) \<Rightarrow> nat \<Rightarrow> (errno + nat) option" where
  "foreach_reverse_find pv P 0 = Some (Inl ENODATA)"
| "foreach_reverse_find pv P (Suc i) = do {
     p \<leftarrow> sol_ptr_vector_get_no_check pv i;
     if P p then Some (Inr i) else foreach_reverse_find pv P i
   }"

definition sol_ptr_vector_find_first :: "'a sol_ptr_vector \<Rightarrow> 'a \<Rightarrow> (errno + nat) option" where
  "sol_ptr_vector_find_first pv elem = foreach_find pv (\<lambda>p. elem = p) 0"

definition sol_ptr_vector_find_last :: "'a sol_ptr_vector \<Rightarrow> 'a \<Rightarrow> (errno + nat) option" where
  "sol_ptr_vector_find_last pv elem = foreach_reverse_find pv (\<lambda>p. elem = p) (vlen pv)"

definition sol_ptr_vector_match_first ::
    "'a sol_ptr_vector \<Rightarrow> 'a \<Rightarrow> ('a \<Rightarrow> 'a \<Rightarrow> int) \<Rightarrow> (errno + nat) option" where
  "sol_ptr_vector_match_first pv tempt compare_cb = foreach_find pv (\<lambda>p. compare_cb tempt p = 0) 0"

definition sol_ptr_vector_match_last ::
    "'a sol_ptr_vector \<Rightarrow> 'a \<Rightarrow> ('a \<Rightarrow> 'a \<Rightarrow> int) \<Rightarrow> (errno + nat) option" where
  "sol_ptr_vector_match_last pv tempt compare_cb =
     foreach_reverse_find pv (\<lambda>p. compare_cb tempt p = 0) (vlen pv)"

definition sol_ptr_vector_remove ::
    "'a libc \<Rightarrow> 'a sol_ptr_vector \<Rightarrow> 'a \<Rightarrow> ((errno + unit) \<times> 'a sol_ptr_vector) option" where
  "sol_ptr_vector_remove l pv ptr = do {
     r \<leftarrow> sol_ptr_vector_find_last pv ptr;
     case r of Inl e \<Rightarrow> Some (Inl e, pv) | Inr i \<Rightarrow> sol_vector_del l pv i
   }"

text \<open>The two loops of \<^verbatim>\<open>sol_ptr_vector_del_element\<close>: find the first occurrence, then compact.\<close>

function del_element_scan :: "'a list \<Rightarrow> 'a \<Rightarrow> nat \<Rightarrow> nat \<Rightarrow> nat option" where
  "del_element_scan v elem n i =
     (if i < n then do {
        x \<leftarrow> mem_get i v;
        if x \<noteq> elem then del_element_scan v elem n (i + 1) else Some i
      } else Some i)"
  by pat_completeness auto
termination
  by (relation "measure (\<lambda>(v, elem, n, i). n - i)") auto

function del_element_compact :: "'a list \<Rightarrow> 'a \<Rightarrow> nat \<Rightarrow> nat \<Rightarrow> nat \<Rightarrow> ('a list \<times> nat) option" where
  "del_element_compact v elem n i offset =
     (if i < n then do {
        x \<leftarrow> mem_get i v;
        if x \<noteq> elem then do {
          v \<leftarrow> mem_set offset x v;
          del_element_compact v elem n (i + 1) (offset + 1)
        } else del_element_compact v elem n (i + 1) offset
      } else Some (v, offset))"
  by pat_completeness auto
termination
  by (relation "measure (\<lambda>(v, elem, n, i, offset). n - i)") auto

definition sol_ptr_vector_del_element ::
    "'a libc \<Rightarrow> 'a sol_ptr_vector \<Rightarrow> 'a \<Rightarrow> ((errno + unit) \<times> 'a sol_ptr_vector) option" where
  "sol_ptr_vector_del_element l pv elem = do {
     i \<leftarrow> del_element_scan (vblock pv) elem (vlen pv) 0;
     (blk, offset) \<leftarrow> del_element_compact (vblock pv) elem (vlen pv) i i;
     let pv = (if vdata pv = None then pv else pv\<lparr>vdata := Some blk\<rparr>);
     if offset = vlen pv then Some (Inl ENOENT, pv)
     else Some (Inr (), sol_vector_shrink l (pv\<lparr>vlen := offset\<rparr>))
   }"

definition sol_ptr_vector_steal ::
    "('a::zero) libc \<Rightarrow> 'a sol_ptr_vector \<Rightarrow> nat \<Rightarrow> ('a \<times> 'a sol_ptr_vector) option" where
  "sol_ptr_vector_steal l pv i = do {
     result \<leftarrow> sol_ptr_vector_get pv i;
     (_, pv) \<leftarrow> sol_vector_del l pv i;
     Some (result, pv)
   }"

definition sol_ptr_vector_steal_last ::
    "('a::zero) libc \<Rightarrow> 'a sol_ptr_vector \<Rightarrow> ('a \<times> 'a sol_ptr_vector) option" where
  "sol_ptr_vector_steal_last l pv =
     (if vlen pv = 0 then Some (0, pv) else sol_ptr_vector_steal l pv (vlen pv - 1))"

declare skip_equal.simps [simp del] foreach_find.simps [simp del]
  del_element_scan.simps [simp del] del_element_compact.simps [simp del]

section \<open>The invariant\<close>

text \<open>The block holds at least the capacity that the code derives from the length.\<close>

definition vec_wf :: "'a sol_vector \<Rightarrow> bool" where
  "vec_wf v \<longleftrightarrow> vlen v \<le> UINT16_MAX \<and> 0 < velem_size v \<and> velem_size v \<le> UINT16_MAX \<and>
     align_power2_short_uint (vlen v) \<le> length (vblock v)"

lemma vec_wf_len: "vec_wf v \<Longrightarrow> vlen v \<le> length (vblock v)"
  using align_power2_short_uint_ge [of "vlen v"] by (simp add: vec_wf_def)

lemma length_velems: "vec_wf v \<Longrightarrow> length (velems v) = vlen v"
  by (simp add: velems_def vec_wf_len)

lemma vblock_simps [simp]:
  "vblock (v\<lparr>vdata := Some b\<rparr>) = b" "vblock (v\<lparr>vdata := None\<rparr>) = []"
  "vblock (v\<lparr>vlen := n\<rparr>) = vblock v"
  "vblock (v\<lparr>vdata := Some b, vlen := n\<rparr>) = b"
  by (simp_all add: vblock_def)

lemma nth_velems: "i < vlen v \<Longrightarrow> velems v ! i = vblock v ! i"
  by (simp add: velems_def)

lemma vec_wf_init [wf_intros]: "0 < es \<Longrightarrow> es \<le> UINT16_MAX \<Longrightarrow> vec_wf (sol_vector_init es)"
  by (simp add: vec_wf_def sol_vector_init_def vblock_def)

lemma velems_init [simp]: "velems (sol_vector_init es) = []"
  by (simp add: velems_def sol_vector_init_def)

lemma vec_size_small:
  "vec_wf v \<Longrightarrow> sol_util_size_mul (velem_size v) (align_power2_short_uint n) =
     Inr (velem_size v * align_power2_short_uint n)"
proof -
  assume "vec_wf v"
  then have "velem_size v * align_power2_short_uint n \<le> UINT16_MAX * UINT16_MAX"
    using align_power2_short_uint_le [of n] by (intro mult_le_mono) (auto simp: vec_wf_def)
  moreover have "UINT16_MAX * UINT16_MAX \<le> SIZE_MAX" and "UINT16_MAX \<le> SIZE_MAX"
    by (simp_all add: UINT16_MAX_def SIZE_MAX_def)
  ultimately show ?thesis
    using \<open>vec_wf v\<close> align_power2_short_uint_le [of n]
    by (intro sol_util_size_mul_small) (auto simp: vec_wf_def)
qed

section \<open>Growing and shrinking\<close>

lemma sol_vector_grow_ok:
  assumes wf: "vec_wf v" and n: "n \<le> UINT16_MAX"
    and res: "sol_vector_grow l v n = (Inr u, v')"
  shows "vec_wf v'" "vlen v' = vlen v + n" "velem_size v' = velem_size v"
    "take (vlen v) (vblock v') = velems v" "vlen v' \<le> UINT16_MAX"
proof -
  from res n have le: "vlen v + n \<le> UINT16_MAX"
    by (auto simp: sol_vector_grow_def split: if_splits)
  then have room: "\<not> UINT16_MAX - n < vlen v" by linarith
  have ge: "vlen v + n \<le> align_power2_short_uint (vlen v + n)"
    using le by (rule align_power2_short_uint_ge)
  have *: "vec_wf v' \<and> vlen v' = vlen v + n \<and> velem_size v' = velem_size v \<and>
     take (vlen v) (vblock v') = velems v"
  proof (cases "align_power2_short_uint (vlen v + n) = align_power2_short_uint (vlen v)")
    case True
    with res room have "v' = v\<lparr>vlen := vlen v + n\<rparr>" by (simp add: sol_vector_grow_def)
    with True le wf show ?thesis by (simp add: vec_wf_def velems_def)
  next
    case False
    with res room wf obtain blk where
      blk: "realloc_cells l (velem_size v) (vblock v) (align_power2_short_uint (vlen v + n)) = Some blk"
      and v': "v' = v\<lparr>vdata := Some blk, vlen := vlen v + n\<rparr>"
      by (auto simp: sol_vector_grow_def Let_def vec_size_small split: option.splits)
    have "take (vlen v) blk = velems v"
      using realloc_cells_take [OF blk, of "vlen v"] vec_wf_len [OF wf] ge by (simp add: velems_def)
    moreover have "length blk = align_power2_short_uint (vlen v + n)"
      using blk by (rule realloc_cells_SomeD)
    ultimately show ?thesis using le wf v' by (simp add: vec_wf_def)
  qed
  then show "vec_wf v'" "vlen v' = vlen v + n" "velem_size v' = velem_size v"
    "take (vlen v) (vblock v') = velems v" "vlen v' \<le> UINT16_MAX"
    using le by auto
qed

lemma sol_vector_grow_total:
  assumes "vec_wf v" and "vlen v + n \<le> UINT16_MAX" and "alloc_total l"
  shows "\<exists>v'. sol_vector_grow l v n = (Inr (), v')"
proof -
  have "align_power2_short_uint (vlen v + n) * velem_size v \<noteq> 0"
    if "align_power2_short_uint (vlen v + n) \<noteq> align_power2_short_uint (vlen v)"
    using that assms(1) align_power2_short_uint_mono [of "vlen v" "vlen v + n"] assms(2)
    by (auto simp: vec_wf_def)
  with assms show ?thesis
    unfolding alloc_total_def
    by (cases "align_power2_short_uint (vlen v + n) = align_power2_short_uint (vlen v)")
      (simp_all add: sol_vector_grow_def Let_def vec_size_small realloc_cells_def)
qed

lemma sol_vector_grow_err:
  assumes "vec_wf v" and "sol_vector_grow l v n = (Inl e, v')"
  shows "v' = v" "e = EOVERFLOW \<or> e = ENOMEM" "\<not> (vlen v + n \<le> UINT16_MAX \<and> alloc_total l)"
proof -
  show "v' = v" "e = EOVERFLOW \<or> e = ENOMEM"
    using assms
    by (auto simp: sol_vector_grow_def Let_def vec_size_small split: if_splits option.splits)
  show "\<not> (vlen v + n \<le> UINT16_MAX \<and> alloc_total l)"
    using sol_vector_grow_total [OF assms(1), of n l] assms(2) by auto
qed

lemma sol_vector_shrink_ok:
  assumes "vec_wf v"
  shows "vec_wf (sol_vector_shrink l v)" "velems (sol_vector_shrink l v) = velems v"
    "vlen (sol_vector_shrink l v) = vlen v" "velem_size (sol_vector_shrink l v) = velem_size v"
proof -
  have ge: "vlen v \<le> align_power2_short_uint (vlen v)"
    using assms by (intro align_power2_short_uint_ge) (simp add: vec_wf_def)
  have "vec_wf (sol_vector_shrink l v) \<and> velems (sol_vector_shrink l v) = velems v \<and>
    vlen (sol_vector_shrink l v) = vlen v \<and> velem_size (sol_vector_shrink l v) = velem_size v"
    using assms ge
    by (auto simp: sol_vector_shrink_def vec_wf_def velems_def Let_def
        dest: realloc_cells_SomeD realloc_cells_take split: option.splits)
  then show "vec_wf (sol_vector_shrink l v)" "velems (sol_vector_shrink l v) = velems v"
    "vlen (sol_vector_shrink l v) = vlen v" "velem_size (sol_vector_shrink l v) = velem_size v"
    by auto
qed

section \<open>The operations on the elements\<close>

text \<open>
  The offsets of all elements fit a C \<^verbatim>\<open>int\<close>. Pointer vectors always satisfy it; a vector of
  large elements may not.
\<close>

definition vec_small :: "'a sol_vector \<Rightarrow> bool" where
  "vec_small v \<longleftrightarrow> velem_size v * UINT16_MAX \<le> INT_MAX"

lemma vec_small_off: "vec_small v \<Longrightarrow> i \<le> UINT16_MAX \<Longrightarrow> elem_off_ok v i"
  unfolding vec_small_def elem_off_ok_def by (erule order_trans [rotated]) simp

lemma vec_small_update [simp]:
  "vec_small (v\<lparr>vdata := d\<rparr>) = vec_small v" "vec_small (v\<lparr>vlen := n\<rparr>) = vec_small v"
  by (simp_all add: vec_small_def)

lemma vec_small_cong: "velem_size v' = velem_size v \<Longrightarrow> vec_small v' = vec_small v"
  by (simp add: vec_small_def)

lemma get_no_check_velems [simp]:
  "vec_wf v \<Longrightarrow> vec_small v \<Longrightarrow> i < vlen v \<Longrightarrow>
     sol_ptr_vector_get_no_check v i = Some (velems v ! i)"
  using vec_wf_len [of v]
  by (simp add: sol_ptr_vector_get_no_check_def sol_vector_get_no_check_def vec_small_off
      vec_wf_def mem_simps nth_velems)

lemma sol_vector_append_n_ok:
  assumes wf: "vec_wf v" and small: "vec_small v" and n: "n \<le> UINT16_MAX"
  obtains (ok) v' where "sol_vector_append_n l v n = Some (Inr (vlen v), v')" "vec_wf v'"
      "velem_size v' = velem_size v" "velems v' = velems v @ replicate n 0" "0 < n"
      "vlen v' = vlen v + n" "vdata v' \<noteq> None"
  | (err) e where "sol_vector_append_n l v n = Some (Inl e, v)"
      "e = EINVAL \<and> n = 0 \<or> (e = EOVERFLOW \<or> e = ENOMEM) \<and>
         \<not> (vlen v + n \<le> UINT16_MAX \<and> alloc_total l)"
proof (cases "n = 0")
  case True
  then show thesis by (intro err [of EINVAL]) (simp_all add: sol_vector_append_n_def)
next
  case False
  show thesis
  proof (cases "sol_vector_grow l v n")
    case (Pair r v1)
    show thesis
    proof (cases r)
      case (Inl e)
      with Pair sol_vector_grow_err [OF wf, of l n e v1] False show thesis
        by (intro err [of e]) (auto simp: sol_vector_append_n_def)
    next
      case (Inr u)
      note grow = sol_vector_grow_ok [OF wf n Pair [unfolded Inr]]
      define b where "b = take (vlen v) (vblock v1) @ replicate n 0 @ drop (vlen v + n) (vblock v1)"
      have "vlen v + n \<le> length (vblock v1)" using vec_wf_len grow(1,2) by metis
      then have w: "mem_write (vlen v) (replicate n 0) (vblock v1) = Some b"
        and lb: "length b = length (vblock v1)"
        by (simp_all add: mem_simps b_def)
      have "elem_off_ok v1 (vlen v)"
        using small wf grow(3) by (intro vec_small_off) (simp_all add: vec_small_def vec_wf_def)
      with False Pair Inr w grow(2)
      have "sol_vector_append_n l v n = Some (Inr (vlen v), v1\<lparr>vdata := Some b\<rparr>)"
        by (simp add: sol_vector_append_n_def)
      moreover have "velems (v1\<lparr>vdata := Some b\<rparr>) = take (vlen v + n) b"
        using grow(2) by (simp add: velems_def)
      then have "velems (v1\<lparr>vdata := Some b\<rparr>) = velems v @ replicate n 0"
        using grow(4) length_velems [OF wf] by (simp add: b_def)
      moreover have "vec_wf (v1\<lparr>vdata := Some b\<rparr>)" using grow(1) lb by (simp add: vec_wf_def)
      ultimately show thesis using False grow(2,3) by (intro ok [of "v1\<lparr>vdata := Some b\<rparr>"]) simp_all
    qed
  qed
qed

lemma sol_vector_del_range_ok:
  assumes wf: "vec_wf v" and small: "vec_small v" and s: "start < vlen v" and n: "n \<le> UINT16_MAX"
  obtains v' where "sol_vector_del_range l v start n = Some (Inr (), v')" "vec_wf v'"
    "velem_size v' = velem_size v" "velems v' = take start (velems v) @ drop (start + n) (velems v)"
proof -
  define k where "k = (if start + n \<ge> vlen v then vlen v - start else n)"
  define v1 where "v1 = v\<lparr>vlen := vlen v - k\<rparr>"
  define b where "b = (if vlen v1 - start \<noteq> 0
     then take start (vblock v) @ take (vlen v1 - start) (drop (start + k) (vblock v)) @
       drop (start + (vlen v1 - start)) (vblock v) else vblock v)"
  define v2 where "v2 = (if vlen v1 - start \<noteq> 0 then v1\<lparr>vdata := Some b\<rparr> else v1)"
  have k: "start + k \<le> vlen v" and len: "vlen v \<le> length (vblock v)" and u: "vlen v \<le> UINT16_MAX"
    using s vec_wf_len [OF wf] wf by (auto simp: k_def vec_wf_def)
  have "elem_off_ok v1 start" "elem_off_ok v1 k"
    using small u k by (auto simp: v1_def intro!: vec_small_off)
  then have eq: "sol_vector_del_range l v start n = Some (Inr (), sol_vector_shrink l v2)"
    using s len k by (simp add: sol_vector_del_range_def Let_def mem_simps v2_def v1_def b_def
        flip: k_def)
  have blk: "vblock v2 = b" and lb: "length b = length (vblock v)"
    using k len by (auto simp: v2_def v1_def b_def)
  have vl: "vlen v2 = vlen v - k" and es: "velem_size v2 = velem_size v"
    by (simp_all add: v2_def v1_def)
  have mono: "align_power2_short_uint (vlen v - k) \<le> align_power2_short_uint (vlen v)"
    using u by (intro align_power2_short_uint_mono) auto
  have "velems v2 = take start (velems v) @ drop (start + k) (velems v)"
  proof (cases "vlen v1 - start = 0")
    case True
    with k have "vlen v - k = start" "vlen v - (start + k) = 0" by (auto simp: v1_def)
    with True k show ?thesis by (simp add: velems_def vl blk b_def drop_take)
  next
    case False
    then have bb: "b = take start (vblock v) @ take (vlen v - k - start) (drop (start + k) (vblock v)) @
        drop (start + (vlen v - k - start)) (vblock v)"
      by (simp add: b_def v1_def)
    show ?thesis
      unfolding velems_def vl blk bb by (rule take_after_delete [OF k len])
  qed
  moreover have "drop (start + k) (velems v) = drop (start + n) (velems v)"
    using length_velems [OF wf] by (auto simp: k_def)
  moreover have "vec_wf v2" using wf mono vl es blk lb by (auto simp: vec_wf_def)
  ultimately show thesis using es by (intro that [OF eq]) (simp_all add: sol_vector_shrink_ok)
qed

lemma sol_vector_del_eq_range:
  "i < vlen v \<Longrightarrow> elem_off_ok v 1 \<Longrightarrow> sol_vector_del l v i = sol_vector_del_range l v i 1"
  by (cases "vlen v = i + 1")
    (auto simp: sol_vector_del_def sol_vector_del_range_def Let_def elem_off_ok_def)

lemma sol_vector_del_ok:
  assumes "vec_wf v" and "vec_small v" and "i < vlen v"
  obtains v' where "sol_vector_del l v i = Some (Inr (), v')" "vec_wf v'"
    "velem_size v' = velem_size v" "velems v' = take i (velems v) @ drop (i + 1) (velems v)"
proof -
  have "elem_off_ok v 1" using assms(2) by (rule vec_small_off) (simp add: UINT16_MAX_def)
  show thesis
    by (rule sol_vector_del_range_ok [OF assms, of 1 l])
      (use \<open>elem_off_ok v 1\<close> assms(3) in
        \<open>auto simp: sol_vector_del_eq_range UINT16_MAX_def intro: that\<close>)
qed

lemma sol_ptr_vector_set_ok:
  assumes "vec_wf v" and "vec_small v" and "i < vlen v"
  obtains v' where "sol_ptr_vector_set v i x = Some (Inr (), v')" "vec_wf v'"
    "velem_size v' = velem_size v" "velems v' = (velems v)[i := x]"
proof -
  have "i < length (vblock v)" and "elem_off_ok v i"
    using assms vec_wf_len [OF assms(1)] by (auto simp: vec_wf_def intro!: vec_small_off)
  then have "sol_ptr_vector_set v i x = Some (Inr (), v\<lparr>vdata := Some ((vblock v)[i := x])\<rparr>)"
    using assms(3) by (simp add: sol_ptr_vector_set_def mem_simps)
  then show thesis
    by (rule that) (use assms in \<open>simp_all add: vec_wf_def velems_def take_update_swap\<close>)
qed

lemma sol_ptr_vector_append_ok:
  assumes wf: "vec_wf v" and small: "vec_small v"
  obtains (ok) v' where "sol_ptr_vector_append l v x = Some (Inr (), v')" "vec_wf v'"
      "velem_size v' = velem_size v" "velems v' = velems v @ [x]" "vlen v' = vlen v + 1"
  | (err) e where "sol_ptr_vector_append l v x = Some (Inl e, v)" "e = EOVERFLOW \<or> e = ENOMEM"
      "\<not> (vlen v + 1 \<le> UINT16_MAX \<and> alloc_total l)"
proof -
  have one: "1 \<le> UINT16_MAX" by (simp add: UINT16_MAX_def)
  show thesis
  proof (rule sol_vector_append_n_ok [OF wf small one, of l])
    fix v1
    assume a: "sol_vector_append_n l v 1 = Some (Inr (vlen v), v1)" and wf1: "vec_wf v1"
      and es: "velem_size v1 = velem_size v" and el: "velems v1 = velems v @ replicate 1 0"
      and len: "vlen v1 = vlen v + 1"
    have i: "vlen v < length (vblock v1)" using vec_wf_len [OF wf1] len by simp
    then have "sol_ptr_vector_append l v x = Some (Inr (), v1\<lparr>vdata := Some ((vblock v1)[vlen v := x])\<rparr>)"
      using a by (simp add: sol_ptr_vector_append_def sol_vector_append_def mem_simps)
    moreover have "velems (v1\<lparr>vdata := Some ((vblock v1)[vlen v := x])\<rparr>) = (velems v1)[vlen v := x]"
      by (simp add: velems_def len take_update_swap)
    moreover have "(velems v1)[vlen v := x] = velems v @ [x]"
      using el length_velems [OF wf] by (simp add: list_update_append)
    ultimately show thesis using wf1 es len
      by (intro ok [of "v1\<lparr>vdata := Some ((vblock v1)[vlen v := x])\<rparr>"]) (simp_all add: vec_wf_def)
  next
    fix e
    assume "sol_vector_append_n l v 1 = Some (Inl e, v)"
      and "e = EINVAL \<and> (1::nat) = 0 \<or> (e = EOVERFLOW \<or> e = ENOMEM) \<and>
         \<not> (vlen v + 1 \<le> UINT16_MAX \<and> alloc_total l)"
    then show thesis
      by (intro err [of e]) (auto simp: sol_ptr_vector_append_def sol_vector_append_def)
  qed
qed

lemma sol_ptr_vector_insert_at_ok:
  assumes wf: "vec_wf v" and small: "vec_small v" and i: "i \<le> vlen v"
  obtains (ok) v' where "sol_ptr_vector_insert_at l v i x = Some (Inr (), v')" "vec_wf v'"
      "velem_size v' = velem_size v" "velems v' = take i (velems v) @ x # drop i (velems v)"
  | (err) e where "sol_ptr_vector_insert_at l v i x = Some (Inl e, v)" "e = EOVERFLOW \<or> e = ENOMEM"
      "\<not> (vlen v + 1 \<le> UINT16_MAX \<and> alloc_total l)"
proof (cases "i = vlen v")
  case True
  then have eq: "sol_ptr_vector_insert_at l v i x = sol_ptr_vector_append l v x"
    by (simp add: sol_ptr_vector_insert_at_def)
  show thesis
    by (rule sol_ptr_vector_append_ok [OF wf small, of l x])
      (use eq True length_velems [OF wf] in \<open>auto intro: ok err\<close>)
next
  case False
  with i have lt: "i < vlen v" by simp
  obtain r v1 where g: "sol_vector_grow l v 1 = (r, v1)" by fastforce
  show thesis
  proof (cases r)
    case (Inl e)
    with g sol_vector_grow_err [OF wf, of l 1 e v1] lt show thesis
      by (intro err [of ENOMEM]) (simp_all add: sol_ptr_vector_insert_at_def)
  next
    case (Inr u)
    have one: "1 \<le> UINT16_MAX" by (simp add: UINT16_MAX_def)
    note grow = sol_vector_grow_ok [OF wf one g [unfolded Inr]]
    define b where "b = take (i + 1) (vblock v1) @ take (vlen v - i) (drop i (vblock v1)) @
      drop (i + 1 + (vlen v - i)) (vblock v1)"
    have room: "vlen v + 1 \<le> length (vblock v1)" using vec_wf_len [OF grow(1)] grow(2) by simp
    have small1: "vec_small v1" using small grow(3) by (simp add: vec_small_def)
    have "elem_off_ok v1 (i + 1)" using small1 grow(2,5) lt by (intro vec_small_off) simp_all
    then have eq: "sol_ptr_vector_insert_at l v i x = sol_ptr_vector_set (v1\<lparr>vdata := Some b\<rparr>) i x"
      using lt g Inr room grow(2)
      by (simp add: sol_ptr_vector_insert_at_def mem_simps b_def)
    have len_b: "length b = length (vblock v1)" using room lt by (simp add: b_def)
    with grow(1) have wf2: "vec_wf (v1\<lparr>vdata := Some b\<rparr>)" by (simp add: vec_wf_def)
    have upd: "b[i := x] = take i (vblock v1) @ [x] @ take (vlen v - i) (drop i (vblock v1)) @
      drop (i + 1 + (vlen v - i)) (vblock v1)"
      unfolding b_def using room lt by (subst list_update_move) simp_all
    have "(velems (v1\<lparr>vdata := Some b\<rparr>))[i := x] = take (vlen v + 1) (b[i := x])"
      by (simp add: velems_def grow(2) take_update_swap)
    also have "\<dots> = take i (take (vlen v) (vblock v1)) @ [x] @ drop i (take (vlen v) (vblock v1))"
      unfolding upd using lt room by (intro take_after_insert) simp_all
    finally have el: "(velems (v1\<lparr>vdata := Some b\<rparr>))[i := x] = take i (velems v) @ x # drop i (velems v)"
      using grow(4) by simp
    show thesis
      by (rule sol_ptr_vector_set_ok [OF wf2, of i x])
        (use small1 grow(2,3) lt eq el in \<open>auto intro: ok\<close>)
  qed
qed

section \<open>Sorted pointer vectors\<close>

definition cmp_sorted :: "('a \<Rightarrow> 'a \<Rightarrow> int) \<Rightarrow> 'a list \<Rightarrow> bool" where
  "cmp_sorted cmp xs \<longleftrightarrow> sorted_wrt (\<lambda>x y. cmp x y \<le> 0) xs"

text \<open>The reference: the new element goes after every element that is not greater.\<close>

definition insert_after_equals :: "('a \<Rightarrow> 'a \<Rightarrow> int) \<Rightarrow> 'a \<Rightarrow> 'a list \<Rightarrow> 'a list" where
  "insert_after_equals cmp x xs =
     takeWhile (\<lambda>y. cmp x y \<ge> 0) xs @ x # dropWhile (\<lambda>y. cmp x y \<ge> 0) xs"

text \<open>
  What a compare callback has to provide, in the sense of \<^verbatim>\<open>strcmp\<close>: the sorted operations are
  correct for every comparator that satisfies these laws.
\<close>

locale comparator =
  fixes cmp :: "'a::zero \<Rightarrow> 'a \<Rightarrow> int"
  assumes cmp_swap: "cmp x y < 0 \<longleftrightarrow> 0 < cmp y x"
    and cmp_trans: "cmp x y \<le> 0 \<Longrightarrow> cmp y z \<le> 0 \<Longrightarrow> cmp x z \<le> 0"
begin

lemma cmp_le_iff: "cmp x y \<le> 0 \<longleftrightarrow> 0 \<le> cmp y x"
  using cmp_swap [of y x] by linarith

lemma cmp_gt_le: "0 < cmp x y \<Longrightarrow> cmp z y \<le> 0 \<Longrightarrow> 0 < cmp x z"
  using cmp_trans [of x z y] by linarith

lemma cmp_ge_le: "0 \<le> cmp x y \<Longrightarrow> cmp z y \<le> 0 \<Longrightarrow> 0 \<le> cmp x z"
  using cmp_trans [of z y x] by (simp add: cmp_le_iff)

lemma sorted_nth: "cmp_sorted cmp xs \<Longrightarrow> i < j \<Longrightarrow> j < length xs \<Longrightarrow> cmp (xs ! i) (xs ! j) \<le> 0"
  unfolding cmp_sorted_def by (rule sorted_wrt_nth_less)

lemma sorted_ge_before:
  "cmp_sorted cmp xs \<Longrightarrow> i < length xs \<Longrightarrow> 0 \<le> cmp x (xs ! i) \<Longrightarrow> j \<le> i \<Longrightarrow> 0 \<le> cmp x (xs ! j)"
  using sorted_nth [of xs j i] by (cases "j = i") (auto intro: cmp_ge_le [of x "xs ! i"])

lemma sorted_less_after:
  "cmp_sorted cmp xs \<Longrightarrow> j < length xs \<Longrightarrow> cmp x (xs ! i) < 0 \<Longrightarrow> i \<le> j \<Longrightarrow> cmp x (xs ! j) < 0"
  using sorted_ge_before [of xs j x i] by (cases "0 \<le> cmp x (xs ! j)") auto

lemma insert_position:
  assumes "cmp_sorted cmp xs" and "p \<le> length xs"
    and "0 < p \<Longrightarrow> 0 \<le> cmp x (xs ! (p - 1))" and "p < length xs \<Longrightarrow> cmp x (xs ! p) < 0"
  shows "takeWhile (\<lambda>y. cmp x y \<ge> 0) xs = take p xs"
    and "insert_after_equals cmp x xs = take p xs @ x # drop p xs"
proof -
  have pre: "0 \<le> cmp x (xs ! j)" if "j < p" for j
  proof (rule sorted_ge_before [OF assms(1), of "p - 1"])
    show "p - 1 < length xs" "j \<le> p - 1" using that assms(2) by linarith+
    show "0 \<le> cmp x (xs ! (p - 1))" using that by (intro assms(3)) linarith
  qed
  show tw: "takeWhile (\<lambda>y. cmp x y \<ge> 0) xs = take p xs"
  proof (rule takeWhile_eq_take_P_nth)
    show "0 \<le> cmp x (xs ! j)" if "j < p" for j using that by (rule pre)
    show "\<not> 0 \<le> cmp x (xs ! p)" if "p < length xs" using assms(4) [OF that] by simp
  qed
  then show "insert_after_equals cmp x xs = take p xs @ x # drop p xs"
    using assms(2) by (simp add: insert_after_equals_def dropWhile_eq_drop)
qed

lemma sorted_insert_after_equals:
  assumes "cmp_sorted cmp xs"
  shows "cmp_sorted cmp (insert_after_equals cmp x xs)"
proof -
  let ?P = "\<lambda>y. cmp x y \<ge> 0"
  have split: "sorted_wrt (\<lambda>x y. cmp x y \<le> 0) (takeWhile ?P xs @ dropWhile ?P xs)"
    using assms by (simp add: cmp_sorted_def)
  have before: "cmp y x \<le> 0" if "y \<in> set (takeWhile ?P xs)" for y
    using set_takeWhileD [OF that] by (simp add: cmp_le_iff)
  have after: "cmp x y \<le> 0" if y: "y \<in> set (dropWhile ?P xs)" for y
  proof (cases "dropWhile ?P xs")
    case (Cons z zs)
    then have "cmp x z < 0" using hd_dropWhile [of ?P xs] by simp
    moreover have "y = z \<or> cmp z y \<le> 0"
      using split y by (auto simp: Cons sorted_wrt_append)
    ultimately show ?thesis using cmp_trans [of x z y] by auto
  next
    case Nil
    with y show ?thesis by (simp only: list.set empty_iff)
  qed
  show ?thesis
    using split before after 
    by (auto simp: cmp_sorted_def insert_after_equals_def sorted_wrt_append intro: cmp_trans [of _ x])
qed

lemma find_sorted_loop_ok:
  assumes "vec_wf pv" "vec_small pv" "cmp_sorted cmp (velems pv)"
    and "low \<le> high" "high < vlen pv" "cmp x (velems pv ! high) < 0"
    and "\<forall>j < low. 0 < cmp x (velems pv ! j)"
  shows "\<exists>m. find_sorted_loop pv low high x cmp = Some (m, cmp x (velems pv ! m)) \<and> m \<le> high \<and>
    (cmp x (velems pv ! m) = 0 \<or>
     cmp x (velems pv ! m) < 0 \<and> (\<forall>j < m. 0 < cmp x (velems pv ! j)))"
  using assms(4-7)
proof (induction "high - low" arbitrary: low high rule: less_induct)
  case less
  define mid where "mid = (low + high) div 2"
  show ?case
  proof (cases "low = high")
    case True
    with less.prems assms(1,2) show ?thesis
      by (intro exI [of _ high]) (simp add: find_sorted_loop.simps [of pv high])
  next
    case False
    with less.prems have mid: "low \<le> mid" "mid < high" "mid < vlen pv" by (auto simp: mid_def)
    note step = find_sorted_loop.simps [of pv low high x cmp, folded mid_def]
    consider "cmp x (velems pv ! mid) = 0" | "cmp x (velems pv ! mid) < 0"
      | "0 < cmp x (velems pv ! mid)" by linarith
    then show ?thesis
    proof cases
      case 1
      with False mid assms(1,2) show ?thesis
        by (intro exI [of _ mid]) (simp add: step)
    next
      case 2
      with False mid less.prems have
        "\<exists>m. find_sorted_loop pv low mid x cmp = Some (m, cmp x (velems pv ! m)) \<and> m \<le> mid \<and>
          (cmp x (velems pv ! m) = 0 \<or>
           cmp x (velems pv ! m) < 0 \<and> (\<forall>j < m. 0 < cmp x (velems pv ! j)))"
        by (intro less.hyps) auto
      with 2 False mid assms(1,2) show ?thesis by (auto simp: step)
    next
      case 3
      have "0 < cmp x (velems pv ! j)" if "j < mid + 1" for j
        using 3 that mid sorted_nth [OF assms(3), of j mid] length_velems [OF assms(1)]
        by (cases "j = mid") (auto intro: cmp_gt_le)
      with False mid less.prems have
        "\<exists>m. find_sorted_loop pv (mid + 1) high x cmp = Some (m, cmp x (velems pv ! m)) \<and> m \<le> high \<and>
          (cmp x (velems pv ! m) = 0 \<or>
           cmp x (velems pv ! m) < 0 \<and> (\<forall>j < m. 0 < cmp x (velems pv ! j)))"
        by (intro less.hyps) auto
      with 3 False mid assms(1,2) show ?thesis by (auto simp: step)
    qed
  qed
qed

lemma ptr_vector_find_sorted_ok:
  assumes "vec_wf pv" "vec_small pv" "cmp_sorted cmp (velems pv)" "0 < vlen pv"
  shows "\<exists>m. ptr_vector_find_sorted pv 0 (vlen pv - 1) x cmp = Some (m, cmp x (velems pv ! m)) \<and>
    m < vlen pv \<and>
    (cmp x (velems pv ! m) = 0 \<or>
     cmp x (velems pv ! m) < 0 \<and> (\<forall>j < m. 0 < cmp x (velems pv ! j)) \<or>
     0 < cmp x (velems pv ! m) \<and> m = vlen pv - 1)"
proof -
  let ?h = "vlen pv - 1"
  have get: "sol_ptr_vector_get_no_check pv 0 = Some (velems pv ! 0)"
    "sol_ptr_vector_get_no_check pv ?h = Some (velems pv ! ?h)"
    using assms by simp_all
  consider "cmp x (velems pv ! 0) \<le> 0 \<or> ?h = 0" | "cmp x (velems pv ! ?h) \<ge> 0" "\<not> (cmp x (velems pv ! 0) \<le> 0 \<or> ?h = 0)"
    | "cmp x (velems pv ! ?h) < 0" "\<not> (cmp x (velems pv ! 0) \<le> 0 \<or> ?h = 0)" by linarith
  then show ?thesis
  proof cases
    case 1
    with get assms(4) show ?thesis
      by (intro exI [of _ 0]) (auto simp: ptr_vector_find_sorted_def)
  next
    case 2
    with get assms(4) show ?thesis
      by (intro exI [of _ ?h]) (auto simp: ptr_vector_find_sorted_def)
  next
    case 3
    with get have "ptr_vector_find_sorted pv 0 ?h x cmp = find_sorted_loop pv 0 ?h x cmp"
      by (simp add: ptr_vector_find_sorted_def)
    with find_sorted_loop_ok [OF assms(1-3), of 0 ?h x] 3(1) assms(4) show ?thesis by force
  qed
qed

end

context comparator
begin

lemma skip_equal_ok:
  assumes "vec_wf pv" "vec_small pv" "cmp_sorted cmp (velems pv)" "i < vlen pv"
    and "cmp x (velems pv ! i) = 0"
  shows "\<exists>k. skip_equal pv x cmp i 0 = Some (k, cmp x (velems pv ! k)) \<and> k < vlen pv \<and>
    (cmp x (velems pv ! k) = 0 \<and> k = vlen pv - 1 \<or>
     cmp x (velems pv ! k) < 0 \<and> 0 < k \<and> cmp x (velems pv ! (k - 1)) = 0)"
  using assms(4,5)
proof (induction "vlen pv - i" arbitrary: i rule: less_induct)
  case less
  show ?case
  proof (cases "i < vlen pv - 1")
    case False
    with less.prems show ?thesis by (intro exI [of _ i]) (auto simp: skip_equal.simps)
  next
    case True
    then have succ: "i + 1 < vlen pv" by simp
    have step: "skip_equal pv x cmp i 0 = skip_equal pv x cmp (i + 1) (cmp x (velems pv ! (i + 1)))"
      using True succ assms(1,2) by (subst skip_equal.simps) simp
    have "cmp (velems pv ! i) (velems pv ! (i + 1)) \<le> 0"
      using succ length_velems [OF assms(1)] by (intro sorted_nth [OF assms(3)]) simp_all
    with less.prems(2) have "cmp x (velems pv ! (i + 1)) \<le> 0"
      using cmp_gt_le [of x "velems pv ! (i + 1)" "velems pv ! i"] by linarith
    then consider "cmp x (velems pv ! (i + 1)) = 0" | "cmp x (velems pv ! (i + 1)) < 0" by linarith
    then show ?thesis
    proof cases
      case 1
      with less.hyps [of "i + 1"] succ step show ?thesis by simp
    next
      case 2
      with succ step less.prems show ?thesis
        by (intro exI [of _ "i + 1"]) (simp add: skip_equal.simps [of pv x cmp "Suc i"])
    qed
  qed
qed

lemma mset_insert_after_equals: "mset (insert_after_equals cmp x xs) = add_mset x (mset xs)"
proof -
  have "mset (takeWhile (\<lambda>y. cmp x y \<ge> 0) xs) + mset (dropWhile (\<lambda>y. cmp x y \<ge> 0) xs) = mset xs"
    by (simp flip: mset_append)
  then show ?thesis by (simp add: insert_after_equals_def)
qed

text \<open>The position the binary search and the scan compute is the one of the reference.\<close>

lemma insert_sorted_position:
  assumes "vec_wf pv" "vec_small pv" "cmp_sorted cmp (velems pv)" "0 < vlen pv"
  obtains i d k d' where "ptr_vector_find_sorted pv 0 (vlen pv - 1) x cmp = Some (i, d)"
    "skip_equal pv x cmp i d = Some (k, d')"
    "(if d' \<ge> 0 then k + 1 else k) \<le> vlen pv"
    "take (if d' \<ge> 0 then k + 1 else k) (velems pv) = takeWhile (\<lambda>y. cmp x y \<ge> 0) (velems pv)"
    "insert_after_equals cmp x (velems pv) =
      take (if d' \<ge> 0 then k + 1 else k) (velems pv) @ x # drop (if d' \<ge> 0 then k + 1 else k) (velems pv)"
proof -
  let ?xs = "velems pv"
  have len: "length ?xs = vlen pv" using assms(1) by (rule length_velems)
  obtain i where i: "ptr_vector_find_sorted pv 0 (vlen pv - 1) x cmp = Some (i, cmp x (?xs ! i))"
    "i < vlen pv"
    and cases_i: "cmp x (?xs ! i) = 0 \<or> cmp x (?xs ! i) < 0 \<and> (\<forall>j < i. 0 < cmp x (?xs ! j)) \<or>
     0 < cmp x (?xs ! i) \<and> i = vlen pv - 1"
    using ptr_vector_find_sorted_ok [OF assms] by blast
  obtain k where k: "skip_equal pv x cmp i (cmp x (?xs ! i)) = Some (k, cmp x (?xs ! k))" "k < vlen pv"
    and cases_k: "0 \<le> cmp x (?xs ! k) \<and> k = vlen pv - 1 \<or>
      cmp x (?xs ! k) < 0 \<and> (0 < k \<longrightarrow> 0 \<le> cmp x (?xs ! (k - 1)))"
  proof (cases "cmp x (?xs ! i) = 0")
    case True
    with skip_equal_ok [OF assms(1-3) i(2), of x] that show thesis by force
  next
    case False
    with cases_i i(2) show thesis
      by (intro that [of i]) (auto simp: skip_equal.simps intro: less_imp_le)
  qed
  define q where "q = (if 0 \<le> cmp x (?xs ! k) then k + 1 else k)"
  have "q \<le> length ?xs" using k(2) len by (simp add: q_def)
  moreover have "0 \<le> cmp x (?xs ! (q - 1))" if "0 < q"
    using that cases_k by (auto simp: q_def split: if_splits)
  moreover have "cmp x (?xs ! q) < 0" if "q < length ?xs"
    using that cases_k len by (auto simp: q_def split: if_splits)
  ultimately have "takeWhile (\<lambda>y. cmp x y \<ge> 0) ?xs = take q ?xs"
    and "insert_after_equals cmp x ?xs = take q ?xs @ x # drop q ?xs"
    using insert_position [OF assms(3), of q x] by blast+
  with i(1) k(1) \<open>q \<le> length ?xs\<close> len show thesis
    by (intro that [of i "cmp x (?xs ! i)" k "cmp x (?xs ! k)"]) (simp_all flip: q_def)
qed

lemma sol_ptr_vector_insert_sorted_ok:
  assumes wf: "vec_wf pv" and small: "vec_small pv" and sorted: "cmp_sorted cmp (velems pv)"
  obtains (ok) pv' where
      "sol_ptr_vector_insert_sorted l pv x cmp =
         Some (Inr (length (takeWhile (\<lambda>y. cmp x y \<ge> 0) (velems pv))), pv')"
      "vec_wf pv'" "velem_size pv' = velem_size pv" "velems pv' = insert_after_equals cmp x (velems pv)"
  | (err) e where "sol_ptr_vector_insert_sorted l pv x cmp = Some (Inl e, pv)"
      "e = EOVERFLOW \<or> e = ENOMEM" "\<not> (vlen pv + 1 \<le> UINT16_MAX \<and> alloc_total l)"
proof (cases "vlen pv = 0")
  case True
  then have nil: "velems pv = []" by (simp add: velems_def)
  show thesis
    by (rule sol_ptr_vector_append_ok [OF wf small, of l x])
      (use True nil in \<open>auto simp: sol_ptr_vector_insert_sorted_def insert_after_equals_def
        intro: ok err\<close>)
next
  case False
  then obtain i d k d' where f: "ptr_vector_find_sorted pv 0 (vlen pv - 1) x cmp = Some (i, d)"
    "skip_equal pv x cmp i d = Some (k, d')"
    and q: "(if d' \<ge> 0 then k + 1 else k) \<le> vlen pv"
      "take (if d' \<ge> 0 then k + 1 else k) (velems pv) = takeWhile (\<lambda>y. cmp x y \<ge> 0) (velems pv)"
      "insert_after_equals cmp x (velems pv) =
        take (if d' \<ge> 0 then k + 1 else k) (velems pv) @ x # drop (if d' \<ge> 0 then k + 1 else k) (velems pv)"
    using insert_sorted_position [OF wf small sorted, of x] by blast
  define p where "p = (if d' \<ge> 0 then k + 1 else k)"
  have plen: "p = length (takeWhile (\<lambda>y. cmp x y \<ge> 0) (velems pv))"
    using q(1) length_velems [OF wf] unfolding q(2) [symmetric] p_def by simp
  have eq: "sol_ptr_vector_insert_sorted l pv x cmp =
      on_ok (sol_ptr_vector_insert_at l pv p x) (\<lambda>_ pv. Some (Inr p, pv))"
    using False f by (simp add: sol_ptr_vector_insert_sorted_def p_def)
  show thesis
    by (rule sol_ptr_vector_insert_at_ok [OF wf small, of p l x])
      (use eq q(1,3) plen in \<open>auto simp flip: p_def intro: ok err\<close>)
qed

end

context comparator
begin

lemma sol_ptr_vector_match_sorted_ok:
  assumes "vec_wf pv" "vec_small pv" "cmp_sorted cmp (velems pv)"
  shows "(\<exists>i < vlen pv. sol_ptr_vector_match_sorted pv x cmp = Some (Inr i) \<and>
           cmp x (velems pv ! i) = 0) \<or>
    sol_ptr_vector_match_sorted pv x cmp = Some (Inl ENODATA) \<and>
      (\<forall>y \<in> set (velems pv). cmp x y \<noteq> 0)"
proof (cases "vlen pv = 0")
  case True
  then show ?thesis by (simp add: sol_ptr_vector_match_sorted_def velems_def)
next
  case False
  let ?xs = "velems pv"
  have len: "length ?xs = vlen pv" using assms(1) by (rule length_velems)
  obtain i where f: "ptr_vector_find_sorted pv 0 (vlen pv - 1) x cmp = Some (i, cmp x (?xs ! i))"
    "i < vlen pv"
    and c: "cmp x (?xs ! i) = 0 \<or> cmp x (?xs ! i) < 0 \<and> (\<forall>j < i. 0 < cmp x (?xs ! j)) \<or>
     0 < cmp x (?xs ! i) \<and> i = vlen pv - 1"
    using ptr_vector_find_sorted_ok [OF assms] False by blast
  show ?thesis
  proof (cases "cmp x (?xs ! i) = 0")
    case True
    with f False show ?thesis by (auto simp: sol_ptr_vector_match_sorted_def)
  next
    case ne: False
    have "cmp x (?xs ! j) \<noteq> 0" if j: "j < length ?xs" for j
    proof (cases "cmp x (?xs ! i) < 0")
      case True
      with c have "\<forall>j < i. 0 < cmp x (?xs ! j)" by (elim disjE conjE) (simp_all, linarith?)
      then show ?thesis
        using sorted_less_after [OF assms(3) j True] by (cases "j < i") force+
    next
      case nl: False
      with c ne have i: "0 < cmp x (?xs ! i)" "i = vlen pv - 1" by linarith+
      then show ?thesis
        using sorted_nth [OF assms(3), of j i] cmp_gt_le [OF i(1), of "?xs ! j"] j len
        by (cases "j = i") auto
    qed
    then show ?thesis
      using ne f False by (simp add: sol_ptr_vector_match_sorted_def all_set_conv_all_nth)
  qed
qed

lemma sorted_with_neighbours:
  assumes "cmp_sorted cmp (take i xs @ drop (i + 1) xs)" and i: "i < length xs"
    and before: "0 < i \<Longrightarrow> cmp (xs ! (i - 1)) (xs ! i) \<le> 0"
    and after: "i + 1 < length xs \<Longrightarrow> cmp (xs ! i) (xs ! (i + 1)) \<le> 0"
  shows "cmp_sorted cmp xs"
proof -
  let ?R = "\<lambda>x y. cmp x y \<le> 0"
  have split: "sorted_wrt ?R (take i xs)" "sorted_wrt ?R (drop (i + 1) xs)"
    "\<forall>x \<in> set (take i xs). \<forall>y \<in> set (drop (i + 1) xs). cmp x y \<le> 0"
    using assms(1) by (simp_all add: cmp_sorted_def sorted_wrt_append)
  have b: "cmp x (xs ! i) \<le> 0" if x: "x \<in> set (take i xs)" for x
  proof -
    obtain j where j: "j < i" "x = xs ! j" using x i by (auto simp: in_set_conv_nth)
    have "j = i - 1 \<or> cmp (take i xs ! j) (take i xs ! (i - 1)) \<le> 0"
      using j i sorted_wrt_nth_less [OF split(1), of j "i - 1"] by (cases "j = i - 1") auto
    then have "x = xs ! (i - 1) \<or> cmp x (xs ! (i - 1)) \<le> 0" using j by auto
    then show ?thesis using before j(1) cmp_trans [of x "xs ! (i - 1)" "xs ! i"] by auto
  qed
  have a: "cmp (xs ! i) y \<le> 0" if y: "y \<in> set (drop (i + 1) xs)" for y
  proof -
    have ne: "i + 1 < length xs" using y by (cases "i + 1 < length xs") auto
    then obtain ys where ys: "drop (i + 1) xs = xs ! (i + 1) # ys"
      by (metis Cons_nth_drop_Suc)
    then have "y = xs ! (i + 1) \<or> cmp (xs ! (i + 1)) y \<le> 0" using y split(2) by auto
    then show ?thesis using after [OF ne] cmp_trans [of "xs ! i" "xs ! (i + 1)" y] by auto
  qed
  have "sorted_wrt ?R (take i xs @ xs ! i # drop (i + 1) xs)"
    using split a b by (simp add: sorted_wrt_append)
  then show ?thesis using i by (simp add: cmp_sorted_def id_take_nth_drop [symmetric])
qed

lemma sol_ptr_vector_update_sorted_ok:
  assumes wf: "vec_wf pv" and small: "vec_small pv" and i: "i < vlen pv"
    and rest: "cmp_sorted cmp (take i (velems pv) @ drop (i + 1) (velems pv))"
  obtains (same) "sol_ptr_vector_update_sorted l pv i cmp = Some (Inr i, pv)"
      "cmp_sorted cmp (velems pv)" "i + 1 < vlen pv \<longrightarrow> cmp (velems pv ! i) (velems pv ! (i + 1)) < 0"
  | (moved) p pv' where "sol_ptr_vector_update_sorted l pv i cmp = Some (Inr p, pv')" "vec_wf pv'"
      "velem_size pv' = velem_size pv"
      "velems pv' = insert_after_equals cmp (velems pv ! i) (take i (velems pv) @ drop (i + 1) (velems pv))"
      "p = length (takeWhile (\<lambda>y. cmp (velems pv ! i) y \<ge> 0) (take i (velems pv) @ drop (i + 1) (velems pv)))"
  | (err) e pv' where "sol_ptr_vector_update_sorted l pv i cmp = Some (Inl e, pv')" "vec_wf pv'"
      "e = EOVERFLOW \<or> e = ENOMEM" "velems pv' = take i (velems pv) @ drop (i + 1) (velems pv)"
      "\<not> alloc_total l"
proof (cases "vlen pv = 1")
  case True
  have "length (velems pv) = 1" using True length_velems [OF wf] by simp
  then have "cmp_sorted cmp (velems pv)" by (cases "velems pv") (auto simp: cmp_sorted_def)
  with True i show thesis by (intro same) (simp_all add: sol_ptr_vector_update_sorted_def)
next
  case False
  let ?xs = "velems pv"
  have len: "length ?xs = vlen pv" using wf by (rule length_velems)
  define before where "before \<longleftrightarrow> 0 < i \<and> 0 < cmp (?xs ! (i - 1)) (?xs ! i)"
  define after where "after \<longleftrightarrow> \<not> before \<and> i + 1 < vlen pv \<and> 0 \<le> cmp (?xs ! i) (?xs ! (i + 1))"
  define b where "b = (if vlen pv - 1 - i \<noteq> 0
    then take i (vblock pv) @ take (vlen pv - 1 - i) (drop (i + 1) (vblock pv)) @
      drop (i + (vlen pv - 1 - i)) (vblock pv) else vblock pv)"
  define pv1 where "pv1 = (if vlen pv - 1 - i \<noteq> 0
    then pv\<lparr>vlen := vlen pv - 1, vdata := Some b\<rparr> else pv\<lparr>vlen := vlen pv - 1\<rparr>)"
  have lenb: "vlen pv \<le> length (vblock pv)" using wf by (rule vec_wf_len)
  have off: "elem_off_ok (pv\<lparr>vlen := vlen pv - 1\<rparr>) i"
    using small i wf by (intro vec_small_off) (auto simp: vec_wf_def)
  have eq: "sol_ptr_vector_update_sorted l pv i cmp =
    (if \<not> before \<and> \<not> after then Some (Inr i, pv)
     else sol_ptr_vector_insert_sorted l pv1 (?xs ! i) cmp)"
    using False i wf small off lenb
    by (auto simp: sol_ptr_vector_update_sorted_def before_def after_def pv1_def b_def mem_simps Let_def)
  have mono: "align_power2_short_uint (vlen pv - 1) \<le> align_power2_short_uint (vlen pv)"
    using wf by (intro align_power2_short_uint_mono) (auto simp: vec_wf_def)
  have blk: "vblock pv1 = b" "length b = length (vblock pv)" and vl: "vlen pv1 = vlen pv - 1"
    and es: "velem_size pv1 = velem_size pv"
    using i lenb by (auto simp: pv1_def b_def)
  have wf1: "vec_wf pv1" using wf mono blk vl es by (auto simp: vec_wf_def)
  have small1: "vec_small pv1" using small es by (simp add: vec_small_def)
  have el: "velems pv1 = take i ?xs @ drop (i + 1) ?xs"
  proof (cases "vlen pv - 1 - i = 0")
    case True
    then have "vlen pv = i + 1" using i by simp
    then show ?thesis using True by (simp add: velems_def vl blk b_def)
  next
    case nz: False
    have "take (vlen pv - 1) (take i (vblock pv) @ take (vlen pv - 1 - i) (drop (i + 1) (vblock pv)) @
        drop (i + (vlen pv - 1 - i)) (vblock pv)) = take i ?xs @ drop (i + 1) ?xs"
      unfolding velems_def using i lenb by (intro take_after_delete) simp_all
    with nz show ?thesis by (simp add: velems_def vl blk b_def)
  qed
  show thesis
  proof (cases "\<not> before \<and> \<not> after")
    case True
    then have "cmp_sorted cmp ?xs"
      using i len by (intro sorted_with_neighbours [OF rest]) (auto simp: before_def after_def)
    with True eq show thesis by (intro same) (auto simp: before_def after_def)
  next
    case mv: False
    show thesis
      by (rule sol_ptr_vector_insert_sorted_ok [OF wf1 small1, of l "?xs ! i"])
        (use rest el eq mv es wf1 vl i wf in \<open>auto simp: vec_wf_def [of pv] intro: moved err\<close>)
  qed
qed

end

section \<open>Searching and removing\<close>

lemma foreach_find_ok:
  assumes "vec_wf pv" "vec_small pv"
  shows "(\<exists>k. foreach_find pv P i = Some (Inr k) \<and> i \<le> k \<and> k < vlen pv \<and> P (velems pv ! k) \<and>
        (\<forall>j. i \<le> j \<and> j < k \<longrightarrow> \<not> P (velems pv ! j))) \<or>
    foreach_find pv P i = Some (Inl ENODATA) \<and> (\<forall>j. i \<le> j \<and> j < vlen pv \<longrightarrow> \<not> P (velems pv ! j))"
proof (induction "vlen pv - i" arbitrary: i rule: less_induct)
  case less
  show ?case
  proof (cases "i < vlen pv \<and> \<not> P (velems pv ! i)")
    case True
    then have step: "foreach_find pv P i = foreach_find pv P (i + 1)"
      using assms by (subst foreach_find.simps) simp
    have ext: "i \<le> j \<longleftrightarrow> j = i \<or> i + 1 \<le> j" for j by linarith
    have "vlen pv - (i + 1) < vlen pv - i" using True by linarith
    from less.hyps [OF this] True show ?thesis unfolding step ext by auto
  next
    case False
    with assms show ?thesis by (auto simp: foreach_find.simps)
  qed
qed

lemma foreach_reverse_find_ok:
  assumes "vec_wf pv" "vec_small pv" "n \<le> vlen pv"
  shows "(\<exists>k. foreach_reverse_find pv P n = Some (Inr k) \<and> k < n \<and> P (velems pv ! k) \<and>
        (\<forall>j. k < j \<and> j < n \<longrightarrow> \<not> P (velems pv ! j))) \<or>
    foreach_reverse_find pv P n = Some (Inl ENODATA) \<and> (\<forall>j < n. \<not> P (velems pv ! j))"
  using assms(3)
proof (induction n)
  case (Suc n)
  show ?case
  proof (cases "P (velems pv ! n)")
    case True
    with Suc.prems assms(1,2) show ?thesis by auto
  next
    case False
    with Suc.prems assms(1,2) have "foreach_reverse_find pv P (Suc n) = foreach_reverse_find pv P n"
      by simp
    with Suc False show ?thesis by (auto simp: less_Suc_eq)
  qed
qed simp

lemma del_element_scan_ok:
  "n \<le> length v \<Longrightarrow> i \<le> n \<Longrightarrow>
     del_element_scan v e n i = Some (i + length (takeWhile (\<lambda>x. x \<noteq> e) (drop i (take n v))))"
proof (induction v e n i rule: del_element_scan.induct)
  case (1 v e n i)
  show ?case
  proof (cases "i < n")
    case True
    with 1 have "drop i (take n v) = v ! i # drop (i + 1) (take n v)"
      by (metis Cons_nth_drop_Suc Suc_eq_plus1 length_take min.absorb2 nth_take)
    with True 1 show ?thesis by (simp add: del_element_scan.simps [of v e n i] mem_simps)
  next
    case False
    with 1 show ?thesis by (subst del_element_scan.simps) simp
  qed
qed

lemma del_element_compact_ok:
  "n \<le> length v \<Longrightarrow> i \<le> n \<Longrightarrow> offset \<le> i \<Longrightarrow>
     \<exists>v'. del_element_compact v e n i offset =
         Some (v', offset + length (filter (\<lambda>x. x \<noteq> e) (drop i (take n v)))) \<and>
       length v' = length v \<and>
       take (offset + length (filter (\<lambda>x. x \<noteq> e) (drop i (take n v)))) v' =
         take offset v @ filter (\<lambda>x. x \<noteq> e) (drop i (take n v))"
proof (induction v e n i offset rule: del_element_compact.induct)
  case (1 v e n i offset)
  note step = del_element_compact.simps [of v e n i offset]
  show ?case
  proof (cases "i < n")
    case False
    with "1.prems" show ?thesis by (subst del_element_compact.simps) simp
  next
    case True
    with "1.prems" have split: "drop i (take n v) = v ! i # drop (i + 1) (take n v)"
      by (metis Cons_nth_drop_Suc Suc_eq_plus1 length_take min.absorb2 nth_take)
    have get: "mem_get i v = Some (v ! i)" using True "1.prems" by (simp add: mem_simps)
    show ?thesis
    proof (cases "v ! i = e")
      case eq: True
      then have "del_element_compact v e n i offset = del_element_compact v e n (i + 1) offset"
        using True get by (simp add: step)
      with "1.IH"(2) [OF True get] eq True "1.prems" split show ?thesis by simp
    next
      case ne: False
      define v1 where "v1 = v[offset := v ! i]"
      have set: "mem_set offset (v ! i) v = Some v1"
        using True "1.prems" by (simp add: mem_simps v1_def)
      then have eqn: "del_element_compact v e n i offset = del_element_compact v1 e n (i + 1) (offset + 1)"
        using True get ne by (simp add: step)
      have dr: "drop (i + 1) (take n v1) = drop (i + 1) (take n v)"
        using "1.prems" by (simp add: v1_def take_update_swap drop_update_cancel)
      have tk: "take (offset + 1) v1 = take offset v @ [v ! i]"
        using True "1.prems" by (simp add: v1_def take_Suc_conv_app_nth)
      have "\<exists>v'. del_element_compact v1 e n (i + 1) (offset + 1) =
         Some (v', offset + 1 + length (filter (\<lambda>x. x \<noteq> e) (drop (i + 1) (take n v1)))) \<and>
         length v' = length v1 \<and>
         take (offset + 1 + length (filter (\<lambda>x. x \<noteq> e) (drop (i + 1) (take n v1)))) v' =
           take (offset + 1) v1 @ filter (\<lambda>x. x \<noteq> e) (drop (i + 1) (take n v1))"
        using "1.IH"(1) [OF True get ne set] "1.prems" True by (simp add: v1_def)
      then show ?thesis using ne unfolding eqn dr tk split by (simp add: v1_def)
    qed
  qed
qed

lemma sol_ptr_vector_del_element_ok:
  assumes wf: "vec_wf pv"
  obtains (absent) "e \<notin> set (velems pv)" "sol_ptr_vector_del_element l pv e = Some (Inl ENOENT, pv)"
  | (removed) pv' where "e \<in> set (velems pv)" "sol_ptr_vector_del_element l pv e = Some (Inr (), pv')"
      "vec_wf pv'" "velem_size pv' = velem_size pv" "velems pv' = filter (\<lambda>x. x \<noteq> e) (velems pv)"
proof -
  let ?xs = "velems pv" and ?P = "\<lambda>x. x \<noteq> e"
  have len: "vlen pv \<le> length (vblock pv)" using wf by (rule vec_wf_len)
  define i where "i = length (takeWhile ?P ?xs)"
  have ile: "i \<le> vlen pv" using length_takeWhile_le [of ?P ?xs] length_velems [OF wf] by (simp add: i_def)
  have scan: "del_element_scan (vblock pv) e (vlen pv) 0 = Some i"
    using del_element_scan_ok [OF len, of 0 e] by (simp add: i_def velems_def)
  obtain b where compact: "del_element_compact (vblock pv) e (vlen pv) i i =
        Some (b, i + length (filter ?P (drop i ?xs)))"
    and lb: "length b = length (vblock pv)"
    and tb: "take (i + length (filter ?P (drop i ?xs))) b = take i (vblock pv) @ filter ?P (drop i ?xs)"
    using del_element_compact_ok [OF len ile le_refl, of e] by (auto simp: velems_def)
  have "take i ?xs = takeWhile ?P ?xs" by (simp add: i_def takeWhile_eq_take [symmetric])
  then have pre: "filter ?P (take i ?xs) = take i ?xs"
    by (metis filter_True set_takeWhileD)
  have "filter ?P ?xs = take i ?xs @ filter ?P (drop i ?xs)"
    using pre by (metis append_take_drop_id filter_append)
  moreover have "take i ?xs = take i (vblock pv)" using ile by (simp add: velems_def min_def)
  ultimately have fl: "filter ?P ?xs = take (i + length (filter ?P (drop i ?xs))) b"
    and off: "i + length (filter ?P (drop i ?xs)) = length (filter ?P ?xs)"
    using tb ile len by (auto simp: min_def)
  show thesis
  proof (cases "e \<in> set ?xs")
    case False
    then have "takeWhile ?P ?xs = ?xs" by (auto simp: takeWhile_eq_all_conv)
    then have "i = vlen pv" using length_velems [OF wf] by (simp only: i_def)
    then have "del_element_compact (vblock pv) e (vlen pv) i i = Some (vblock pv, vlen pv)"
      by (simp add: del_element_compact.simps)
    moreover have "(if vdata pv = None then pv else pv\<lparr>vdata := Some (vblock pv)\<rparr>) = pv"
      by (auto simp: vblock_def)
    ultimately have "sol_ptr_vector_del_element l pv e = Some (Inl ENOENT, pv)"
      using scan by (simp add: sol_ptr_vector_del_element_def Let_def)
    with False show thesis by (rule absent)
  next
    case True
    then have lt: "length (filter ?P ?xs) < vlen pv"
      using length_filter_less [OF True, of ?P] length_velems [OF wf] by simp
    have nn: "vdata pv \<noteq> None" using True by (cases "vdata pv") (auto simp: velems_def vblock_def)
    define pv1 where "pv1 = pv\<lparr>vdata := Some b, vlen := length (filter ?P ?xs)\<rparr>"
    have "align_power2_short_uint (length (filter ?P ?xs)) \<le> align_power2_short_uint (vlen pv)"
      using lt wf by (intro align_power2_short_uint_mono) (auto simp: vec_wf_def)
    then have "vec_wf pv1" using wf lt lb by (auto simp: pv1_def vec_wf_def)
    moreover have "sol_ptr_vector_del_element l pv e = Some (Inr (), sol_vector_shrink l pv1)"
      using scan compact lt nn off by (auto simp: sol_ptr_vector_del_element_def Let_def pv1_def)
    moreover have "velems pv1 = filter ?P ?xs" using fl off by (simp add: velems_def pv1_def)
    ultimately show thesis
      using True
      by (intro removed [of "sol_vector_shrink l pv1"])
        (simp_all add: sol_vector_shrink_ok, simp add: pv1_def)
  qed
qed

section \<open>A comparator of the library\<close>

text \<open>\<^verbatim>\<open>sol_util_int_compare\<close> of \<^verbatim>\<open>sol-util-internal.h\<close>, which the library's callbacks are made of.\<close>

definition sol_util_int_compare :: "int \<Rightarrow> int \<Rightarrow> int" where
  "sol_util_int_compare a b = of_bool (a > b) - of_bool (a < b)"

interpretation int_compare: comparator sol_util_int_compare
  by unfold_locales (auto simp: sol_util_int_compare_def split: if_splits)

text \<open>A small sorted vector on which the properties below are instantiated.\<close>

definition sample_vec :: "int sol_vector" where
  "sample_vec = \<lparr>vdata = Some [1, 3, 3, 9], vlen = 3, velem_size = 8\<rparr>"

lemma sample_vec_wf: "vec_wf sample_vec" and sample_vec_small: "vec_small sample_vec"
  and sample_vec_elems: "velems sample_vec = [1, 3, 3]" and sample_vec_len: "vlen sample_vec = 3"
  and sample_vec_sorted: "cmp_sorted sol_util_int_compare [1, 3, 3]"
proof -
  have "align_power2_short_uint 3 = 4"
    by (simp add: align_power2_short_uint_def align_power2_uint_def align_power2_w_def clz_def
        bit_len.simps UINT16_MAX_def)
  then show "vec_wf sample_vec"
    by (simp add: vec_wf_def sample_vec_def vblock_def UINT16_MAX_def)
qed (simp_all add: vec_small_def velems_def sample_vec_def vblock_def UINT16_MAX_def INT_MAX_def
    cmp_sorted_def sol_util_int_compare_def)

lemmas sample_vec_facts = sample_vec_wf sample_vec_small sample_vec_elems sample_vec_len sample_vec_sorted

section \<open>Properties\<close>

text \<open>
  C7. Appending \<open>n\<close> zeroed elements to a well-formed vector is memory safe and keeps the
  invariant. It either extends the elements by \<open>n\<close> zeroes and returns the index of the
  first one, or reports an error and leaves the vector as it was; it fails only for \<open>n = 0\<close>,
  when the length would not fit 16 bits, or when the allocator fails.
\<close>

theorem sol_vector_append_n_spec:
  assumes "vec_wf v" and "vec_small v" and "n \<le> UINT16_MAX"
  shows "\<exists>r v'. sol_vector_append_n l v n = Some (r, v') \<and> vec_wf v' \<and>
    (case r of
       Inr i \<Rightarrow> i = vlen v \<and> velems v' = velems v @ replicate n 0
     | Inl e \<Rightarrow> v' = v \<and> (n = 0 \<or> vlen v + n > UINT16_MAX \<or> \<not> alloc_total l))"
  by (rule sol_vector_append_n_ok [OF assms, of l]) (use assms(1) in auto)

theorem sol_vector_append_n_spec_witness:
  "\<exists>v'. sol_vector_append_n (libc_total 7) (sol_vector_init 4) 3 = Some (Inr 0, v') \<and> vec_wf v' \<and>
     velems v' = [0, 0, 0 :: int]"
proof -
  have "vec_wf (sol_vector_init 4 :: int sol_vector)" "vec_small (sol_vector_init 4 :: int sol_vector)"
    by (rule vec_wf_init) (simp_all add: vec_small_def sol_vector_init_def UINT16_MAX_def INT_MAX_def)
  from sol_vector_append_n_spec [OF this, of 3 "libc_total 7"] show ?thesis
    by (auto simp: sol_vector_init_def UINT16_MAX_def velems_def numeral_3_eq_3 split_sum_ex)
qed

text \<open>
  Deleting a range of elements is memory safe, keeps the invariant and removes exactly the
  elements from \<open>start\<close> to the end of the range, the range being cut at the end of the
  vector; deleting one element is the range of length 1. A start out of range is an error.
\<close>

lemma sol_vector_del_range_spec:
  assumes "vec_wf v" and "vec_small v" and "n \<le> UINT16_MAX"
  shows "(start < vlen v \<longrightarrow>
      (\<exists>v'. sol_vector_del_range l v start n = Some (Inr (), v') \<and> vec_wf v' \<and>
        velems v' = take start (velems v) @ drop (start + n) (velems v))) \<and>
    (start < vlen v \<longrightarrow>
      (\<exists>v'. sol_vector_del l v start = Some (Inr (), v') \<and> vec_wf v' \<and>
        velems v' = take start (velems v) @ drop (start + 1) (velems v))) \<and>
    (vlen v \<le> start \<longrightarrow> sol_vector_del_range l v start n = Some (Inl EINVAL, v) \<and>
      sol_vector_del l v start = Some (Inl EINVAL, v))"
proof -
  have "\<exists>v'. sol_vector_del_range l v start n = Some (Inr (), v') \<and> vec_wf v' \<and>
      velems v' = take start (velems v) @ drop (start + n) (velems v)" if "start < vlen v"
    by (rule sol_vector_del_range_ok [OF assms(1,2) that assms(3), of l]) blast
  moreover have "\<exists>v'. sol_vector_del l v start = Some (Inr (), v') \<and> vec_wf v' \<and>
      velems v' = take start (velems v) @ drop (start + 1) (velems v)" if "start < vlen v"
    by (rule sol_vector_del_ok [OF assms(1,2) that, of l]) blast
  ultimately show ?thesis by (simp add: sol_vector_del_range_def sol_vector_del_def)
qed

text \<open>
  C2. For every compare callback that is a total preorder, inserting into a sorted pointer
  vector is memory safe and returns: the new element goes after all elements that are not
  greater (so equal elements keep their order of insertion), its index is returned, and the
  vector stays sorted. On an error, which needs a full vector or a failing allocator, nothing
  changes.
\<close>

theorem sol_ptr_vector_insert_sorted_spec:
  assumes "comparator cmp" and "vec_wf pv" and "vec_small pv" and "cmp_sorted cmp (velems pv)"
  shows "\<exists>r pv'. sol_ptr_vector_insert_sorted l pv x cmp = Some (r, pv') \<and> vec_wf pv' \<and>
    cmp_sorted cmp (velems pv') \<and>
    (case r of
       Inr i \<Rightarrow> velems pv' = insert_after_equals cmp x (velems pv) \<and> velems pv' ! i = x
     | Inl e \<Rightarrow> pv' = pv \<and> (vlen pv + 1 > UINT16_MAX \<or> \<not> alloc_total l))"
  by (rule comparator.sol_ptr_vector_insert_sorted_ok [OF assms, of l x])
    (use assms comparator.sorted_insert_after_equals [OF assms(1,4), of x] in
      \<open>auto simp: insert_after_equals_def nth_append\<close>)

theorem sol_ptr_vector_insert_sorted_spec_witness:
  "\<exists>r pv'. sol_ptr_vector_insert_sorted (libc_total 0) sample_vec 3 sol_util_int_compare = Some (r, pv') \<and>
     velems pv' = [1, 3, 3, 3]"
  using sol_ptr_vector_insert_sorted_spec [OF int_compare.comparator_axioms sample_vec_wf
      sample_vec_small, of "libc_total 0" 3]
  by (auto simp: sample_vec_facts insert_after_equals_def sol_util_int_compare_def
      UINT16_MAX_def split_sum_ex)

text \<open>
  C5. After the key of entry \<open>i\<close> changed, \<^verbatim>\<open>sol_ptr_vector_update_sorted\<close> restores the order: if
  the other entries are sorted, the result is sorted and holds the same entries. When the
  allocator fails while the entry is moved, the call returns an error and the entry is no
  longer in the vector.
\<close>

theorem sol_ptr_vector_update_sorted_spec:
  assumes "comparator cmp" and "vec_wf pv" and "vec_small pv" and "i < vlen pv"
    and "cmp_sorted cmp (take i (velems pv) @ drop (i + 1) (velems pv))"
  shows "\<exists>r pv'. sol_ptr_vector_update_sorted l pv i cmp = Some (r, pv') \<and> vec_wf pv' \<and>
    cmp_sorted cmp (velems pv') \<and>
    (case r of
       Inr _ \<Rightarrow> mset (velems pv') = mset (velems pv)
     | Inl e \<Rightarrow> \<not> alloc_total l \<and> velems pv' = take i (velems pv) @ drop (i + 1) (velems pv))"
proof -
  let ?xs = "velems pv" and ?ys = "take i (velems pv) @ drop (i + 1) (velems pv)"
  have perm: "mset (insert_after_equals cmp (?xs ! i) ?ys) = mset ?xs"
  proof -
    have "mset (insert_after_equals cmp (?xs ! i) ?ys) = add_mset (?xs ! i) (mset ?ys)"
      by (rule comparator.mset_insert_after_equals [OF assms(1)])
    also have "\<dots> = mset (take i ?xs @ ?xs ! i # drop (i + 1) ?xs)" by simp
    also have "take i ?xs @ ?xs ! i # drop (i + 1) ?xs = ?xs"
      using assms(4) length_velems [OF assms(2)] by (simp add: id_take_nth_drop [symmetric])
    finally show ?thesis .
  qed
  show ?thesis
    by (rule comparator.sol_ptr_vector_update_sorted_ok [OF assms, of l])
      (use assms perm in \<open>auto simp: comparator.sorted_insert_after_equals\<close>)
qed

theorem sol_ptr_vector_update_sorted_spec_witness:
  "\<exists>r pv'. sol_ptr_vector_update_sorted (libc_total 0) sample_vec 0 sol_util_int_compare = Some (r, pv') \<and>
     cmp_sorted sol_util_int_compare (velems pv')"
  using sol_ptr_vector_update_sorted_spec [OF int_compare.comparator_axioms sample_vec_wf
      sample_vec_small, of 0 "libc_total 0"]
  by (auto simp: sample_vec_facts cmp_sorted_def sol_util_int_compare_def)

text \<open>
  Looking an entry up in a sorted pointer vector by binary search always returns: the index
  of an entry the callback calls equal, or \<^verbatim>\<open>-ENODATA\<close> exactly when there is none.
\<close>

lemma sol_ptr_vector_match_sorted_spec:
  assumes "comparator cmp" and "vec_wf pv" and "vec_small pv" and "cmp_sorted cmp (velems pv)"
  shows "\<exists>r. sol_ptr_vector_match_sorted pv x cmp = Some r \<and>
    (case r of
       Inr i \<Rightarrow> i < vlen pv \<and> cmp x (velems pv ! i) = 0
     | Inl e \<Rightarrow> e = ENODATA \<and> (\<forall>y \<in> set (velems pv). cmp x y \<noteq> 0))"
  using comparator.sol_ptr_vector_match_sorted_ok [OF assms, of x] by auto

text \<open>
  C8. \<^verbatim>\<open>sol_ptr_vector_del_element\<close> removes every occurrence of the pointer and keeps the other
  entries in order; a pointer that does not occur is \<^verbatim>\<open>-ENOENT\<close> and changes nothing.
\<close>

theorem sol_ptr_vector_del_element_spec:
  assumes "vec_wf pv"
  shows "\<exists>r pv'. sol_ptr_vector_del_element l pv e = Some (r, pv') \<and> vec_wf pv' \<and>
    velems pv' = filter (\<lambda>x. x \<noteq> e) (velems pv) \<and>
    r = (if e \<in> set (velems pv) then Inr () else Inl ENOENT)"
  by (rule sol_ptr_vector_del_element_ok [OF assms, of e l])
    (use assms in \<open>auto simp: filter_id_conv intro: sym\<close>)

theorem sol_ptr_vector_del_element_spec_witness:
  "\<exists>pv'. sol_ptr_vector_del_element (libc_total 0) sample_vec 3 = Some (Inr (), pv') \<and> velems pv' = [1]"
  using sol_ptr_vector_del_element_spec [OF sample_vec_wf, of "libc_total 0" 3]
  by (auto simp: sample_vec_elems)

text \<open>
  The bound on the element size is needed: on a well-formed vector of 40000 elements of
  65535 bytes, computing the address of an appended element overflows a C \<^verbatim>\<open>int\<close>.
\<close>

lemma sol_vector_append_n_offset_overflow:
  "\<exists>v :: int sol_vector. vec_wf v \<and> vlen v = 40000 \<and>
     sol_vector_append_n \<lparr>alloc_ok = \<lambda>_. True, fresh = \<lambda>_. 0\<rparr> v 1 = None"
proof -
  let ?l = "\<lparr>alloc_ok = \<lambda>_. True, fresh = \<lambda>_. 0 :: int\<rparr>"
  let ?v = "\<lparr>vdata = Some (replicate 65535 0), vlen = 40000, velem_size = 65535\<rparr> :: int sol_vector"
  have wf: "vec_wf ?v"
    using align_power2_short_uint_le [of 40000] by (simp add: vec_wf_def vblock_def UINT16_MAX_def)
  have total: "alloc_total ?l" by (simp add: alloc_total_def)
  obtain v1 where g: "sol_vector_grow ?l ?v 1 = (Inr (), v1)"
    using sol_vector_grow_total [OF wf _ total, of 1] by (auto simp: UINT16_MAX_def)
  have "vlen v1 = 40001" "velem_size v1 = 65535"
    using sol_vector_grow_ok(2,3) [OF wf _ g] by (simp_all add: UINT16_MAX_def)
  then have "\<not> elem_off_ok v1 (vlen v1 - 1)" by (simp add: elem_off_ok_def INT_MAX_def)
  with g have "sol_vector_append_n ?l ?v 1 = None" by (simp add: sol_vector_append_n_def)
  with wf show ?thesis by (intro exI [of _ ?v]) simp
qed

end
