(* ===== verification/Codec.thy ===== *)
theory Codec
  imports Util_Arith
begin

unbundle bit_operations_syntax

text \<open>
  The encoders and decoders of \<^verbatim>\<open>src/lib/common/sol-util.c\<close>: base64 with a caller-supplied
  alphabet, base16, and the conversion between Unicode code points and UTF-8.

  An encoder or decoder writes through an output pointer. It is given the memory from that
  pointer to the end of the object it points into and returns that memory after the call,
  with its result; \<open>None\<close> is a write behind the end of the object, whatever the length the
  caller passed. A slice is the list of its bytes; the byte loops are recursion on the bytes
  not yet read. Input and output do not overlap and neither pointer is NULL.
\<close>

section \<open>Base64\<close>

definition base64_pad :: "byte list \<Rightarrow> byte" where
  "base64_pad base64_map = base64_map ! 64"

definition sol_util_base64_calculate_encoded_len :: "byte list \<Rightarrow> byte list \<Rightarrow> errno + nat" where
  "sol_util_base64_calculate_encoded_len src base64_map =
     (let req_len = length src div 3;
          req_len = (if length src mod 3 \<noteq> 0 then req_len + 1 else req_len)
      in case sol_util_ssize_mul (int req_len) 4 of Inl e \<Rightarrow> Inl e | Inr n \<Rightarrow> Inr (nat n))"

fun decoded_len_loop :: "byte \<Rightarrow> byte list \<Rightarrow> nat \<Rightarrow> nat" where
  "decoded_len_loop pad [] req_len = req_len"
| "decoded_len_loop pad (c # cs) req_len =
     (if c \<noteq> pad then req_len else decoded_len_loop pad cs (size_minus req_len 1))"

definition sol_util_base64_calculate_decoded_len :: "byte list \<Rightarrow> byte list \<Rightarrow> errno + nat" where
  "sol_util_base64_calculate_decoded_len src base64_map =
     (let req_len = decoded_len_loop (base64_pad base64_map) (rev src) (length src div 4 * 3)
      in if req_len > SSIZE_MAX then Inl EOVERFLOW else Inr req_len)"

text \<open>The groups of six bits that \<^verbatim>\<open>c\<close> takes while three input bytes are encoded.\<close>

definition sextet0 :: "byte \<Rightarrow> byte" where
  "sextet0 a = drop_bit 2 (a AND 0xFC)"

definition sextet1_hi :: "byte \<Rightarrow> byte" where
  "sextet1_hi a = push_bit 4 (a AND 0x03)"

definition sextet1_lo :: "byte \<Rightarrow> byte" where
  "sextet1_lo b = drop_bit 4 (b AND 0xF0)"

definition sextet2_hi :: "byte \<Rightarrow> byte" where
  "sextet2_hi b = push_bit 2 (b AND 0x0F)"

definition sextet2_lo :: "byte \<Rightarrow> byte" where
  "sextet2_lo c = drop_bit 6 (c AND 0xC0)"

definition sextet3 :: "byte \<Rightarrow> byte" where
  "sextet3 c = c AND 0x3F"

text \<open>The output bytes that a group of four decoded characters yields.\<close>

definition octet0 :: "byte \<Rightarrow> byte \<Rightarrow> byte" where
  "octet0 v0 v1 = push_bit 2 v0 OR drop_bit 4 (v1 AND 0xF0)"

definition octet1 :: "byte \<Rightarrow> byte \<Rightarrow> byte" where
  "octet1 v1 v2 = push_bit 4 (v1 AND 0x0F) OR drop_bit 2 (v2 AND 0x3C)"

definition octet2 :: "byte \<Rightarrow> byte \<Rightarrow> byte" where
  "octet2 v2 v3 = push_bit 6 (v2 AND 0x03) OR v3"

fun base64_encode_loop :: "byte list \<Rightarrow> byte list \<Rightarrow> nat \<Rightarrow> byte list \<Rightarrow> (nat \<times> byte list) option" where
  "base64_encode_loop m (a # b # c # rest) pos out = do {
     out \<leftarrow> mem_write pos
       [m ! unat (sextet0 a),
        m ! unat (sextet1_hi a OR sextet1_lo b),
        m ! unat (sextet2_hi b OR sextet2_lo c),
        m ! unat (sextet3 c)] out;
     base64_encode_loop m rest (pos + 4) out
   }"
| "base64_encode_loop m [a, b] pos out = do {
     out \<leftarrow> mem_write pos
       [m ! unat (sextet0 a),
        m ! unat (sextet1_hi a OR sextet1_lo b),
        m ! unat (sextet2_hi b),
        base64_pad m] out;
     Some (pos + 4, out)
   }"
| "base64_encode_loop m [a] pos out = do {
     out \<leftarrow> mem_write pos
       [m ! unat (sextet0 a),
        m ! unat (sextet1_hi a),
        base64_pad m, base64_pad m] out;
     Some (pos + 4, out)
   }"
| "base64_encode_loop m [] pos out = Some (pos, out)"

definition sol_util_base64_encode ::
    "byte list \<Rightarrow> nat \<Rightarrow> byte list \<Rightarrow> byte list \<Rightarrow> ((errno + nat) \<times> byte list) option" where
  "sol_util_base64_encode buf buflen src base64_map =
     (if length src = 0 then Some (Inr 0, buf)
      else let req_len = size_of_result (sol_util_base64_calculate_encoded_len src base64_map)
           in if buflen < req_len then Some (Inl ENOMEM, buf)
              else do {
                (pos, out) \<leftarrow> base64_encode_loop base64_map src 0 buf;
                Some (Inr pos, out)
              })"

text \<open>\<^verbatim>\<open>memchr\<close> over the 65 characters of the map; \<^verbatim>\<open>UINT8_MAX\<close> when there is none.\<close>

definition base64_index_of :: "byte \<Rightarrow> byte list \<Rightarrow> byte" where
  "base64_index_of c base64_map =
     (let i = length (takeWhile (\<lambda>x. x \<noteq> c) (take 65 base64_map))
      in if i = length (take 65 base64_map) then 255 else of_nat i)"

fun base64_decode_loop ::
    "byte list \<Rightarrow> byte list \<Rightarrow> nat \<Rightarrow> byte list \<Rightarrow> ((errno + nat) \<times> byte list) option" where
  "base64_decode_loop m (p # q # r # s # rest) pos out =
     (let v0 = base64_index_of p m; v1 = base64_index_of q m;
          v2 = base64_index_of r m; v3 = base64_index_of s m
      in if v0 = 255 \<or> v1 = 255 \<or> v2 = 255 \<or> v3 = 255 then Some (Inl EINVAL, out)
         else do {
           out \<leftarrow> mem_set pos (octet0 v0 v1) out;
           (if v2 \<noteq> 64 then do {
              out \<leftarrow> mem_set (pos + 1) (octet1 v1 v2) out;
              (if v3 \<noteq> 64 then do {
                 out \<leftarrow> mem_set (pos + 2) (octet2 v2 v3) out;
                 base64_decode_loop m rest (pos + 3) out
               } else base64_decode_loop m rest (pos + 2) out)
            } else base64_decode_loop m rest (pos + 1) out)
         })"
| "base64_decode_loop m [] pos out = Some (Inr pos, out)"
| "base64_decode_loop m _ pos out = Some (Inl EINVAL, out)"

definition sol_util_base64_decode ::
    "byte list \<Rightarrow> nat \<Rightarrow> byte list \<Rightarrow> byte list \<Rightarrow> ((errno + nat) \<times> byte list) option" where
  "sol_util_base64_decode buf buflen src base64_map =
     (if length src = 0 then Some (Inr 0, buf)
      else let req_len = size_of_result (sol_util_base64_calculate_decoded_len src base64_map)
           in if buflen < req_len then Some (Inl ENOMEM, buf)
              else base64_decode_loop base64_map src 0 buf)"

section \<open>Base16\<close>

datatype sol_decode_case = SOL_DECODE_UPPERCASE | SOL_DECODE_LOWERCASE | SOL_DECODE_BOTH

definition base16_encode_digit :: "byte \<Rightarrow> byte \<Rightarrow> byte" where
  "base16_encode_digit nibble a = (if nibble < 10 then 0x30 + nibble else a + (nibble - 10))"

definition sol_util_base16_calculate_encoded_len :: "byte list \<Rightarrow> errno + nat" where
  "sol_util_base16_calculate_encoded_len src =
     (case sol_util_ssize_mul (int (length src)) 2 of Inl e \<Rightarrow> Inl e | Inr n \<Rightarrow> Inr (nat n))"

definition sol_util_base16_calculate_decoded_len :: "byte list \<Rightarrow> errno + nat" where
  "sol_util_base16_calculate_decoded_len src = Inr (length src div 2)"

text \<open>The two elements of the array \<^verbatim>\<open>nibble\<close>.\<close>

definition nibble_hi :: "byte \<Rightarrow> byte" where
  "nibble_hi b = drop_bit 4 (b AND 0xF0)"

definition nibble_lo :: "byte \<Rightarrow> byte" where
  "nibble_lo b = b AND 0x0F"

fun base16_encode_loop :: "byte \<Rightarrow> byte list \<Rightarrow> nat \<Rightarrow> byte list \<Rightarrow> (nat \<times> byte list) option" where
  "base16_encode_loop a [] pos out = Some (pos, out)"
| "base16_encode_loop a (b # rest) pos out = do {
     out \<leftarrow> mem_write pos [base16_encode_digit (nibble_hi b) a,
                           base16_encode_digit (nibble_lo b) a] out;
     base16_encode_loop a rest (pos + 2) out
   }"

definition sol_util_base16_encode ::
    "byte list \<Rightarrow> nat \<Rightarrow> byte list \<Rightarrow> bool \<Rightarrow> ((errno + nat) \<times> byte list) option" where
  "sol_util_base16_encode buf buflen src uppercase =
     (if length src = 0 then Some (Inr 0, buf)
      else let req_len = size_of_result (sol_util_base16_calculate_encoded_len src)
           in if buflen < req_len then Some (Inl ENOMEM, buf)
              else do {
                (pos, out) \<leftarrow> base16_encode_loop (if uppercase then 0x41 else 0x61) src 0 buf;
                Some (Inr pos, out)
              })"

definition base16_decode_digit :: "byte \<Rightarrow> byte \<Rightarrow> byte \<Rightarrow> byte \<Rightarrow> byte \<Rightarrow> byte" where
  "base16_decode_digit digit a f A F =
     (if 0x30 \<le> digit \<and> digit \<le> 0x39 then digit - 0x30
      else if a \<le> digit \<and> digit \<le> f then 10 + (digit - a)
      else if A \<noteq> a \<and> A \<le> digit \<and> digit \<le> F then 10 + (digit - A)
      else 255)"

fun base16_decode_loop ::
    "(byte \<Rightarrow> byte) \<Rightarrow> byte list \<Rightarrow> nat \<Rightarrow> byte list \<Rightarrow> ((errno + nat) \<times> byte list) option" where
  "base16_decode_loop dig (p # q # rest) pos out =
     (if dig p = 255 \<or> dig q = 255 then Some (Inl EINVAL, out)
      else do {
        out \<leftarrow> mem_set pos (push_bit 4 (dig p) OR dig q) out;
        base16_decode_loop dig rest (pos + 1) out
      })"
| "base16_decode_loop dig [] pos out = Some (Inr pos, out)"
| "base16_decode_loop dig _ pos out = Some (Inl EINVAL, out)"

definition base16_digit_of :: "sol_decode_case \<Rightarrow> byte \<Rightarrow> byte" where
  "base16_digit_of decode_case digit =
     (let a = (if decode_case = SOL_DECODE_UPPERCASE then 0x41 else 0x61);
          f = a + 5;
          A = (if decode_case = SOL_DECODE_BOTH then 0x41 else a);
          F = A + 5
      in base16_decode_digit digit a f A F)"

definition sol_util_base16_decode ::
    "byte list \<Rightarrow> nat \<Rightarrow> byte list \<Rightarrow> sol_decode_case \<Rightarrow> ((errno + nat) \<times> byte list) option" where
  "sol_util_base16_decode buf buflen src decode_case =
     (if length src = 0 then Some (Inr 0, buf)
      else let req_len = size_of_result (sol_util_base16_calculate_decoded_len src)
           in if buflen < req_len then Some (Inl ENOMEM, buf)
              else base16_decode_loop (base16_digit_of decode_case) src 0 buf)"

section \<open>UTF-8\<close>

text \<open>The leading byte of two and of three bytes, and the two continuation bytes.\<close>

definition utf8_lead2 :: "32 word \<Rightarrow> byte" where
  "utf8_lead2 unicode_code = 0xC0 OR ucast (drop_bit 6 (unicode_code AND 0x700))
                                  OR ucast (drop_bit 6 (0xC0 AND unicode_code))"

definition utf8_lead3 :: "32 word \<Rightarrow> byte" where
  "utf8_lead3 unicode_code = 0xE0 OR ucast (drop_bit 12 (unicode_code AND 0xF000))"

definition utf8_tail1 :: "32 word \<Rightarrow> byte" where
  "utf8_tail1 unicode_code = 0x80 OR ucast (drop_bit 6 (unicode_code AND 0x0F00))
                                  OR ucast (drop_bit 6 (unicode_code AND 0xC0))"

definition utf8_tail0 :: "32 word \<Rightarrow> byte" where
  "utf8_tail0 unicode_code = 0x80 OR ucast (unicode_code AND 0x3F)"

text \<open>The bytes written to \<^verbatim>\<open>buf\<close>; their number is the result of the C function.\<close>

definition sol_util_utf8_from_unicode_code :: "nat \<Rightarrow> 32 word \<Rightarrow> errno + byte list" where
  "sol_util_utf8_from_unicode_code buf_len unicode_code =
     (if buf_len = 0 then Inl EINVAL
      else if unicode_code > 0x10FFFF then Inl EINVAL
      else if unicode_code < 0x80 then Inr [ucast (unicode_code AND 0xFF)]
      else if unicode_code \<ge> 0x0800 then
        (if unicode_code > 0xFFFF then
           (if buf_len < 4 then Inl EINVAL
            else Inr [0xF0, 0x90, utf8_tail1 unicode_code, utf8_tail0 unicode_code])
         else if buf_len < 3 then Inl EINVAL
         else Inr [utf8_lead3 unicode_code, utf8_tail1 unicode_code, utf8_tail0 unicode_code])
      else if buf_len < 2 then Inl EINVAL
      else Inr [utf8_lead2 unicode_code, utf8_tail0 unicode_code])"

definition valid_utf8_byte :: "byte \<Rightarrow> bool" where
  "valid_utf8_byte b \<longleftrightarrow> b AND 0xC0 = 0x80"

text \<open>The code point and the number of bytes read; \<open>None\<close> is a read behind the buffer.\<close>

definition sol_util_unicode_code_from_utf8 :: "byte list \<Rightarrow> (errno + 32 word \<times> nat) option" where
  "sol_util_unicode_code_from_utf8 buf =
     (if buf = [] then Some (Inl EINVAL)
      else do {
        b0 \<leftarrow> mem_get 0 buf;
        (if b0 < 0x80 then Some (Inr (ucast b0, 1))
         else if b0 < 0xE0 then
           (if length buf < 2 \<or> \<not> valid_utf8_byte (buf ! 1) then Some (Inl EINVAL)
            else Some (Inr (push_bit 6 (ucast (b0 AND 0x1F)) OR ucast (buf ! 1 AND 0x3F), 2)))
         else if b0 < 0xF0 then
           (if length buf < 3 \<or> \<not> valid_utf8_byte (buf ! 1) \<or> \<not> valid_utf8_byte (buf ! 2)
            then Some (Inl EINVAL)
            else Some (Inr (push_bit 12 (ucast (b0 AND 0x0F)) OR push_bit 6 (ucast (buf ! 1 AND 0x3F))
                            OR ucast (buf ! 2 AND 0x3F), 3)))
         else if b0 = 0xF0 then do {
           b1 \<leftarrow> mem_get 1 buf;
           (if b1 = 0x90 then
              (if length buf < 4 \<or> \<not> valid_utf8_byte (buf ! 2) \<or> \<not> valid_utf8_byte (buf ! 3)
               then Some (Inl EINVAL)
               else Some (Inr (0x10000 OR push_bit 6 (ucast (buf ! 2 AND 0x3F))
                               OR ucast (buf ! 3 AND 0x3F), 4)))
            else Some (Inl EINVAL))
         } else Some (Inl EINVAL))
      })"

section \<open>Textual UUIDs\<close>

definition isxdigit :: "byte \<Rightarrow> bool" where
  "isxdigit c \<longleftrightarrow> 0x30 \<le> c \<and> c \<le> 0x39 \<or> 0x41 \<le> c \<and> c \<le> 0x46 \<or> 0x61 \<le> c \<and> c \<le> 0x66"

definition sol_util_uuid_str_is_valid :: "byte list \<Rightarrow> bool" where
  "sol_util_uuid_str_is_valid uuid =
     (if length uuid = 32 then list_all (\<lambda>i. isxdigit (uuid ! i)) [0..<32]
      else if length uuid = 36 then
        list_all (\<lambda>i. if i = 8 \<or> i = 13 \<or> i = 18 \<or> i = 23 then uuid ! i = 0x2D
                      else isxdigit (uuid ! i)) [0..<36]
      else False)"

section \<open>Base64: the reference and its properties\<close>

text \<open>An alphabet: 65 different characters, the last one for padding.\<close>

definition base64_map_ok :: "byte list \<Rightarrow> bool" where
  "base64_map_ok m \<longleftrightarrow> 65 \<le> length m \<and> distinct (take 65 m)"

fun base64_chars :: "byte list \<Rightarrow> byte list \<Rightarrow> byte list" where
  "base64_chars m (a # b # c # rest) =
     [m ! unat (sextet0 a),
      m ! unat (sextet1_hi a OR sextet1_lo b),
      m ! unat (sextet2_hi b OR sextet2_lo c),
      m ! unat (sextet3 c)] @ base64_chars m rest"
| "base64_chars m [a, b] =
     [m ! unat (sextet0 a),
      m ! unat (sextet1_hi a OR sextet1_lo b),
      m ! unat (sextet2_hi b), base64_pad m]"
| "base64_chars m [a] =
     [m ! unat (sextet0 a), m ! unat (sextet1_hi a),
      base64_pad m, base64_pad m]"
| "base64_chars m [] = []"

lemma length_base64_chars: "length (base64_chars m xs) = 4 * ((length xs + 2) div 3)"
  by (induction m xs rule: base64_chars.induct) (simp_all, presburger)

lemma base64_chars_Nil_iff [simp]: "base64_chars m xs = [] \<longleftrightarrow> xs = []"
  by (induction m xs rule: base64_chars.induct) simp_all

lemma base64_encode_loop_eq:
  "pos + length (base64_chars m xs) \<le> length out \<Longrightarrow>
     base64_encode_loop m xs pos out = Some (pos + length (base64_chars m xs),
       take pos out @ base64_chars m xs @ drop (pos + length (base64_chars m xs)) out)"
proof (induction m xs pos out rule: base64_encode_loop.induct)
  case (1 m a b c rest pos out)
  let ?g = "[m ! unat (sextet0 a), m ! unat (sextet1_hi a OR sextet1_lo b),
    m ! unat (sextet2_hi b OR sextet2_lo c), m ! unat (sextet3 c)]"
  have room: "pos + length ?g \<le> length out" using "1.prems" by simp
  obtain out1 where w: "mem_write pos ?g out = Some out1" and len: "length out1 = length out"
    and tk: "take (pos + length ?g) out1 = take pos out @ ?g"
    and dr: "\<And>k. pos + length ?g \<le> k \<Longrightarrow> drop k out1 = drop k out"
    by (rule mem_write_step [OF room]) blast
  have "base64_encode_loop m rest (pos + 4) out1 = Some (pos + 4 + length (base64_chars m rest),
      take (pos + 4) out1 @ base64_chars m rest @ drop (pos + 4 + length (base64_chars m rest)) out1)"
    using "1.prems" len by (intro "1.IH" [OF w]) simp
  moreover have "take (pos + 4) out1 = take pos out @ ?g" using tk by (simp add: eval_nat_numeral)
  moreover have "drop (pos + 4 + length (base64_chars m rest)) out1 =
      drop (pos + 4 + length (base64_chars m rest)) out"
    by (rule dr) simp
  moreover have "base64_encode_loop m (a # b # c # rest) pos out = base64_encode_loop m rest (pos + 4) out1"
    using w by simp
  ultimately have "base64_encode_loop m (a # b # c # rest) pos out = Some (pos + 4 + length (base64_chars m rest),
      (take pos out @ ?g) @ base64_chars m rest @ drop (pos + 4 + length (base64_chars m rest)) out)"
    by presburger
  moreover have "length (base64_chars m (a # b # c # rest)) = 4 + length (base64_chars m rest)" by simp
  ultimately show ?case by (simp only: add.assoc append_assoc base64_chars.simps)
qed (simp_all add: mem_simps)

lemma sol_util_base64_calculate_encoded_len_eq:
  "sol_util_base64_calculate_encoded_len xs m =
     exact_nat SSIZE_MAX (length (base64_chars m xs))"
proof -
  define k where "k = (length xs + 2) div 3"
  have "(if length xs mod 3 \<noteq> 0 then length xs div 3 + 1 else length xs div 3) = k"
    unfolding k_def by presburger
  then have "sol_util_base64_calculate_encoded_len xs m =
      (case sol_util_ssize_mul (int k) 4 of Inl e \<Rightarrow> Inl e | Inr n \<Rightarrow> Inr (nat n))"
    by (simp only: sol_util_base64_calculate_encoded_len_def Let_def)
  also have "\<dots> = exact_nat SSIZE_MAX (4 * k)"
    by (simp add: sol_util_ssize_mul_exact exact_int_def exact_nat_def SSIZE_MAX_def nat_mult_distrib)
  finally show ?thesis by (simp only: length_base64_chars k_def)
qed

text \<open>Six bits are the index of their own character.\<close>

lemma base64_index_of_nth:
  assumes "base64_map_ok m" and "i \<le> 64"
  shows "base64_index_of (m ! i) m = of_nat i"
proof -
  let ?xs = "take 65 m"
  have len: "length ?xs = 65" and d: "distinct ?xs" using assms(1) by (simp_all add: base64_map_ok_def)
  have mi: "m ! i = ?xs ! i" using assms(2) by simp
  have "takeWhile (\<lambda>x. x \<noteq> ?xs ! i) ?xs = take i ?xs"
  proof (rule takeWhile_eq_take_P_nth)
    show "?xs ! j \<noteq> ?xs ! i" if "j < i" "j < length ?xs" for j
      using that len assms(2) nth_eq_iff_index_eq [OF d, of j i] by simp
  qed simp
  then have "length (takeWhile (\<lambda>x. x \<noteq> m ! i) ?xs) = i" using len assms(2) unfolding mi by simp
  then show ?thesis using len assms(2) by (simp add: base64_index_of_def Let_def)
qed

lemma base64_index_of_pad: "base64_map_ok m \<Longrightarrow> base64_index_of (base64_pad m) m = 64"
  using base64_index_of_nth [of m 64] by (simp add: base64_pad_def)

lemmas sextet_defs = sextet0_def sextet1_hi_def sextet1_lo_def sextet2_hi_def sextet2_lo_def sextet3_def
lemmas octet_defs = octet0_def octet1_def octet2_def

lemma sextet_less [simp]:
  "unat (sextet0 a) < 64" "unat (sextet1_hi a OR sextet1_lo b) < 64" "unat (sextet1_hi a) < 64"
  "unat (sextet2_hi b OR sextet2_lo c) < 64" "unat (sextet2_hi b) < 64" "unat (sextet3 c) < 64"
proof -
  have lt: "unat z < 64" if "z = take_bit 6 z" for z :: byte
    using take_bit_unat_less [OF that] by simp
  show "unat (sextet0 a) < 64" "unat (sextet1_hi a OR sextet1_lo b) < 64" "unat (sextet1_hi a) < 64"
    "unat (sextet2_hi b OR sextet2_lo c) < 64" "unat (sextet2_hi b) < 64" "unat (sextet3 c) < 64"
    by (rule lt, rule byte_eqI; simp add: bit_simps sextet_defs)+
qed

lemma base64_index_of_six:
  assumes "base64_map_ok m" and "unat z < 64"
  shows "base64_index_of (m ! unat z) m = z"
  using base64_index_of_nth [OF assms(1), of "unat z"] assms(2) by simp

lemma six_ne:
  assumes "unat (z :: byte) < 64"
  shows "z \<noteq> 255" "z \<noteq> 64"
  using assms by auto

text \<open>The three bytes come back from the four groups of six bits.\<close>

lemma base64_regroup [simp]:
  "octet0 (sextet0 a) (sextet1_hi a OR sextet1_lo b) = a" "octet0 (sextet0 a) (sextet1_hi a) = a"
  "octet1 (sextet1_hi a OR sextet1_lo b) (sextet2_hi b OR sextet2_lo c) = b"
  "octet1 (sextet1_hi a OR sextet1_lo b) (sextet2_hi b) = b"
  "octet2 (sextet2_hi b OR sextet2_lo c) (sextet3 c) = c"
  by (rule byte_eqI; simp add: bit_simps sextet_defs octet_defs)+

text \<open>Padding at the end, and only there, shortens the decoded length.\<close>

lemma nth_ne_pad:
  assumes "base64_map_ok m" and "unat z < 64"
  shows "m ! unat z \<noteq> base64_pad m"
  using assms nth_eq_iff_index_eq [of "take 65 m" "unat z" 64]
  by (simp add: base64_map_ok_def base64_pad_def)

lemma decoded_len_loop_chars:
  "base64_map_ok m \<Longrightarrow> xs \<noteq> [] \<Longrightarrow> 2 \<le> n \<Longrightarrow>
     decoded_len_loop (base64_pad m) (rev (base64_chars m xs) @ ys) n = n - (3 - length xs mod 3) mod 3"
proof (induction m xs arbitrary: ys rule: base64_chars.induct)
  case (1 m a b c rest)
  show ?case
  proof (cases "rest = []")
    case True
    then show ?thesis using nth_ne_pad [OF "1.prems"(1) sextet_less(6), of c] by simp
  next
    case False
    have "(3 - length (a # b # c # rest) mod 3) mod 3 = (3 - length rest mod 3) mod 3"
      by simp
    with 1 False show ?thesis by simp
  qed
next
  case (2 m a b)
  then show ?case using nth_ne_pad [OF "2.prems"(1) sextet_less(5), of b] by simp
next
  case (3 m a)
  then show ?case using nth_ne_pad [OF "3.prems"(1) sextet_less(3), of a] by simp
qed simp

lemma base64_decode_loop_chars:
  "base64_map_ok m \<Longrightarrow> pos + length xs \<le> length out \<Longrightarrow>
     base64_decode_loop m (base64_chars m xs) pos out =
       Some (Inr (pos + length xs), take pos out @ xs @ drop (pos + length xs) out)"
proof (induction m xs arbitrary: pos out rule: base64_chars.induct)
  case (1 m a b c rest)
  have room: "pos + length [a, b, c] \<le> length out" using "1.prems" by simp
  obtain out1 where w: "mem_write pos [a, b, c] out = Some out1" and len: "length out1 = length out"
    and tk: "take (pos + length [a, b, c]) out1 = take pos out @ [a, b, c]"
    and dr: "\<And>k. pos + length [a, b, c] \<le> k \<Longrightarrow> drop k out1 = drop k out"
    by (rule mem_write_step [OF room]) blast
  have "base64_decode_loop m (base64_chars m (a # b # c # rest)) pos out =
      base64_decode_loop m (base64_chars m rest) (pos + 3) out1"
    using "1.prems"(1) w
    by (simp add: base64_index_of_six six_ne mem_set_chain(2) [unfolded One_nat_def add_2_eq_Suc' add_Suc_right add_0_right])
  moreover
  have "base64_decode_loop m (base64_chars m rest) (pos + 3) out1 = Some (Inr (pos + 3 + length rest),
      take (pos + 3) out1 @ rest @ drop (pos + 3 + length rest) out1)"
    using "1.prems" len by (intro "1.IH") simp_all
  moreover have "take (pos + 3) out1 = take pos out @ [a, b, c]" using tk by (simp add: eval_nat_numeral)
  moreover have "drop (pos + 3 + length rest) out1 = drop (pos + 3 + length rest) out" by (rule dr) simp
  ultimately have "base64_decode_loop m (base64_chars m (a # b # c # rest)) pos out =
      Some (Inr (pos + 3 + length rest), (take pos out @ [a, b, c]) @ rest @ drop (pos + 3 + length rest) out)"
    by presburger
  moreover have "length (a # b # c # rest) = 3 + length rest" by simp
  ultimately show ?case by (simp only: add.assoc append_assoc append_Cons append_Nil)
next
  case (2 m a b)
  then show ?case
    by (simp add: base64_index_of_six base64_index_of_pad six_ne mem_write_Some
        mem_set_chain(1) [unfolded One_nat_def add_Suc_right add_0_right])
next
  case (3 m a)
  then show ?case
    by (simp add: base64_index_of_six base64_index_of_pad six_ne mem_set_eq_write mem_write_Some)
qed simp

lemma groups_of_three: "3 * (((n::nat) + 2) div 3) = n + (3 - n mod 3) mod 3"
proof -
  obtain k r where n: "n = 3 * k + r" and "r < 3" by (metis mod_less_divisor mult_div_mod_eq zero_less_numeral)
  then have r: "n mod 3 = r" "(n + 2) div 3 = k + (r + 2) div 3" by simp_all
  consider "r = 0" | "r = 1" | "r = 2" using \<open>r < 3\<close> by linarith
  then show ?thesis unfolding r by cases (simp_all add: n)
qed

lemma sol_util_base64_calculate_decoded_len_chars:
  assumes "base64_map_ok m" and "length xs \<le> SSIZE_MAX"
  shows "sol_util_base64_calculate_decoded_len (base64_chars m xs) m = Inr (length xs)"
proof (cases "xs = []")
  case False
  define q where "q = (length xs + 2) div 3"
  have q: "3 * q = length xs + (3 - length xs mod 3) mod 3"
    unfolding q_def by (rule groups_of_three)
  have "length xs \<noteq> 0" using False by simp
  with q have "2 \<le> q * 3" by (cases q) simp_all
  then have "decoded_len_loop (base64_pad m) (rev (base64_chars m xs)) (q * 3) =
      q * 3 - (3 - length xs mod 3) mod 3"
    using decoded_len_loop_chars [OF assms(1) False, of "q * 3" "[]"] by simp
  also have "\<dots> = length xs" using q by (simp add: mult.commute)
  finally have "decoded_len_loop (base64_pad m) (rev (base64_chars m xs)) (q * 3) = length xs" .
  moreover have "length (base64_chars m xs) div 4 * 3 = q * 3"
    by (simp add: length_base64_chars q_def)
  ultimately show ?thesis
    using assms(2) by (simp add: sol_util_base64_calculate_decoded_len_def)
qed (simp add: sol_util_base64_calculate_decoded_len_def SSIZE_MAX_def)

text \<open>
  C4. Base64 round trip: encoding writes exactly the characters of the RFC, exactly as many
  as announced, and decoding them into any sufficient buffer restores the original
  bytes and changes nothing behind them, for every alphabet of 65 different characters.
\<close>

theorem base64_round_trip:
  assumes "base64_map_ok m" and "xs \<noteq> []"
    and "sol_util_base64_calculate_encoded_len xs m = Inr n"
    and "n \<le> length enc" and "length xs \<le> length dec"
  shows "sol_util_base64_encode enc (length enc) xs m = Some (Inr n, base64_chars m xs @ drop n enc)
    \<and> n = 4 * ((length xs + 2) div 3)
    \<and> sol_util_base64_decode dec (length dec) (base64_chars m xs) m =
      Some (Inr (length xs), xs @ drop (length xs) dec)"
proof (intro conjI)
  have n: "n = length (base64_chars m xs)" "n \<le> SSIZE_MAX"
    using assms(3) by (auto simp: sol_util_base64_calculate_encoded_len_eq exact_nat_def split: if_splits)
  show "n = 4 * ((length xs + 2) div 3)" using n by (simp add: length_base64_chars)
  show "sol_util_base64_encode enc (length enc) xs m = Some (Inr n, base64_chars m xs @ drop n enc)"
    using assms base64_encode_loop_eq [of 0 m xs enc] n
    by (simp add: sol_util_base64_encode_def)
  have "length xs \<le> n" using n(1) groups_of_three [of "length xs"] by (simp add: length_base64_chars)
  with n(2) have "sol_util_base64_calculate_decoded_len (base64_chars m xs) m = Inr (length xs)"
    by (intro sol_util_base64_calculate_decoded_len_chars [OF assms(1)]) simp
  then show "sol_util_base64_decode dec (length dec) (base64_chars m xs) m =
      Some (Inr (length xs), xs @ drop (length xs) dec)"
    using assms base64_decode_loop_chars [of m 0 xs dec] by (simp add: sol_util_base64_decode_def)
qed

text \<open>The map of \<^verbatim>\<open>sol-buffer.c\<close>: A-Z a-z 0-9 + / and = for padding.\<close>

definition SOL_BASE64_MAP :: "byte list" where
  "SOL_BASE64_MAP = map of_nat ([65..<91] @ [97..<123] @ [48..<58] @ [43, 47, 61])"

lemma SOL_BASE64_MAP_eval:
  "SOL_BASE64_MAP = [65, 66, 67, 68, 69, 70, 71, 72, 73, 74, 75, 76, 77, 78, 79, 80, 81, 82, 83, 84, 85,
    86, 87, 88, 89, 90, 97, 98, 99, 100, 101, 102, 103, 104, 105, 106, 107, 108, 109, 110, 111, 112, 113,
    114, 115, 116, 117, 118, 119, 120, 121, 122, 48, 49, 50, 51, 52, 53, 54, 55, 56, 57, 43, 47, 61]"
  by (simp add: SOL_BASE64_MAP_def upt_rec)

lemma SOL_BASE64_MAP_ok: "base64_map_ok SOL_BASE64_MAP"
  by (simp add: base64_map_ok_def SOL_BASE64_MAP_eval)

theorem base64_round_trip_witness:
  "sol_util_base64_encode [0, 0, 0, 0, 7] 5 [0x4D, 0x61] SOL_BASE64_MAP =
     Some (Inr 4, [0x54, 0x57, 0x45, 0x3D, 7])
   \<and> sol_util_base64_decode [0, 0, 9] 3 [0x54, 0x57, 0x45, 0x3D] SOL_BASE64_MAP =
     Some (Inr 2, [0x4D, 0x61, 9])"
proof -
  have e: "base64_chars SOL_BASE64_MAP [0x4D, 0x61] = [0x54, 0x57, 0x45, 0x3D]"
    by (simp add: sextet_defs base64_pad_def SOL_BASE64_MAP_eval)
  have l: "sol_util_base64_calculate_encoded_len [0x4D, 0x61] SOL_BASE64_MAP = Inr 4"
    unfolding sol_util_base64_calculate_encoded_len_eq e by (simp add: exact_nat_def SSIZE_MAX_def)
  have len: "length [0, 0, 0, 0, 7 :: byte] = 5" "length [0, 0, 9 :: byte] = 3" "length [0x4D, 0x61 :: byte] = 2"
    by simp_all
  have "sol_util_base64_encode [0, 0, 0, 0, 7] 5 [0x4D, 0x61] SOL_BASE64_MAP =
      Some (Inr 4, [0x54, 0x57, 0x45, 0x3D] @ drop 4 [0, 0, 0, 0, 7])
    \<and> 4 = 4 * ((2 + 2) div 3 :: nat)
    \<and> sol_util_base64_decode [0, 0, 9] 3 [0x54, 0x57, 0x45, 0x3D] SOL_BASE64_MAP =
      Some (Inr 2, [0x4D, 0x61] @ drop 2 [0, 0, 9])"
    using base64_round_trip [OF SOL_BASE64_MAP_ok _ l, of "[0, 0, 0, 0, 7]" "[0, 0, 9]"]
    unfolding e len by simp
  then show ?thesis by simp
qed

subsection \<open>Decoding never leaves the announced length, given whole groups\<close>

text \<open>The bytes the decoder writes at most: three for a group, fewer for padding in the last one.\<close>

fun base64_room :: "byte \<Rightarrow> byte list \<Rightarrow> nat" where
  "base64_room pad [p, q, r, s] = (if s \<noteq> pad then 3 else if r \<noteq> pad then 2 else 1)"
| "base64_room pad (p # q # r # s # rest) = 3 + base64_room pad rest"
| "base64_room pad _ = 0"

text \<open>Only the last two characters may be padding, and they come in groups of four.\<close>

fun base64_whole :: "byte \<Rightarrow> byte list \<Rightarrow> bool" where
  "base64_whole pad [p, q, r, s] = (q \<noteq> pad)"
| "base64_whole pad (p # q # r # s # rest) = base64_whole pad rest"
| "base64_whole pad _ = False"

definition keeps_from :: "nat \<Rightarrow> byte list \<Rightarrow> byte list \<Rightarrow> bool" where
  "keeps_from lim out out' \<longleftrightarrow> length out' = length out \<and> drop lim out' = drop lim out"

lemma keeps_from_refl [simp]: "keeps_from lim out out"
  by (simp add: keeps_from_def)

lemma keeps_from_update: "keeps_from lim (out[i := x]) out' \<Longrightarrow> i < lim \<Longrightarrow> keeps_from lim out out'"
  by (simp add: keeps_from_def)

lemma base64_index_of_pad_iff:
  assumes "base64_map_ok m"
  shows "base64_index_of c m = 64 \<longleftrightarrow> c = base64_pad m"
proof
  let ?xs = "take 65 m" and ?i = "length (takeWhile (\<lambda>x. x \<noteq> c) (take 65 m))"
  have len: "length ?xs = 65" using assms by (simp add: base64_map_ok_def)
  have le: "?i \<le> 65" using length_takeWhile_le [of "\<lambda>x. x \<noteq> c" ?xs] len by simp
  assume "base64_index_of c m = 64"
  then have i: "?i \<noteq> 65" "(of_nat ?i :: byte) = 64"
    using len by (auto simp: base64_index_of_def Let_def split: if_splits)
  have "?i = unat (of_nat ?i :: byte)" using le by (simp add: unat_of_nat take_bit_eq_mod)
  also have "\<dots> = 64" by (simp add: i)
  finally have "?i = 64" .
  then have "?xs ! 64 = c" using nth_length_takeWhile [of "\<lambda>x. x \<noteq> c" ?xs] len by simp
  then show "c = base64_pad m" using len by (simp add: base64_pad_def)
qed (simp add: base64_index_of_pad [OF assms])

lemma base64_decode_loop_room:
  "base64_map_ok m \<Longrightarrow> length src mod 4 = 0 \<Longrightarrow> pos + base64_room (base64_pad m) src \<le> lim \<Longrightarrow>
     lim \<le> length out \<Longrightarrow>
     \<exists>r out'. base64_decode_loop m src pos out = Some (r, out') \<and> keeps_from lim out out'
       \<and> (\<forall>n. r = Inr n \<longrightarrow> n \<le> lim)"
proof (induction "base64_pad m" src arbitrary: pos out rule: base64_room.induct)
  case (1 p q r s)
  then show ?case
    by (cases "s = base64_pad m"; cases "r = base64_pad m")
      (auto simp: base64_index_of_pad_iff mem_set_Some Let_def keeps_from_def)
next
  case (2 p q r s t rest)
  let ?rest = "t # rest"
  have "length (p # q # r # s # ?rest) = length ?rest + 4" by simp
  then have rest4: "length ?rest mod 4 = 0" using "2.prems"(2) mod_add_self2 [of "length ?rest" 4] by metis
  have IH: "\<exists>r out'. base64_decode_loop m ?rest pos1 out1 = Some (r, out')
      \<and> keeps_from lim out1 out' \<and> (\<forall>n. r = Inr n \<longrightarrow> n \<le> lim)"
    if "pos1 \<le> pos + 3" "length out1 = length out" for pos1 out1
    by (rule "2.hyps" [OF _ rest4]) (use "2.prems" that in simp_all)
  have lim: "pos + 3 \<le> lim" "pos + 3 \<le> length out" using "2.prems" by auto
  let ?v0 = "base64_index_of p m" and ?v1 = "base64_index_of q m"
    and ?v2 = "base64_index_of r m" and ?v3 = "base64_index_of s m"
  let ?o1 = "out[pos := octet0 ?v0 ?v1]"
  let ?o2 = "?o1[pos + 1 := octet1 ?v1 ?v2]"
  let ?o3 = "?o2[pos + 2 := octet2 ?v2 ?v3]"
  consider "?v0 = 255 \<or> ?v1 = 255 \<or> ?v2 = 255 \<or> ?v3 = 255"
    | "\<not> (?v0 = 255 \<or> ?v1 = 255 \<or> ?v2 = 255 \<or> ?v3 = 255)" "?v2 = 64"
    | "\<not> (?v0 = 255 \<or> ?v1 = 255 \<or> ?v2 = 255 \<or> ?v3 = 255)" "?v2 \<noteq> 64" "?v3 = 64"
    | "\<not> (?v0 = 255 \<or> ?v1 = 255 \<or> ?v2 = 255 \<or> ?v3 = 255)" "?v2 \<noteq> 64" "?v3 \<noteq> 64"
    by blast
  then show ?case
  proof cases
    case 1
    then show ?thesis by (auto simp: Let_def)
  next
    case 2
    then have "base64_decode_loop m (p # q # r # s # ?rest) pos out = base64_decode_loop m ?rest (pos + 1) ?o1"
      using lim by (simp add: mem_set_Some Let_def)
    with IH [of "pos + 1" ?o1] lim show ?thesis by (force dest: keeps_from_update)
  next
    case 3
    then have "base64_decode_loop m (p # q # r # s # ?rest) pos out = base64_decode_loop m ?rest (pos + 2) ?o2"
      using lim by (simp add: mem_set_Some Let_def)
    with IH [of "pos + 2" ?o2] lim show ?thesis by (force dest: keeps_from_update)
  next
    case 4
    then have "base64_decode_loop m (p # q # r # s # ?rest) pos out = base64_decode_loop m ?rest (pos + 3) ?o3"
      using lim by (simp add: mem_set_Some Let_def)
    with IH [of "pos + 3" ?o3] lim show ?thesis by (force dest: keeps_from_update)
  qed
qed auto

lemma base64_whole_groups:
  assumes "base64_whole pad src"
  obtains k where "length src = 4 * Suc k" and "base64_room pad src \<le> 3 * Suc k"
    and "3 * Suc k \<le> base64_room pad src + 2"
    and "\<And>n ys. 2 \<le> n \<Longrightarrow> decoded_len_loop pad (rev src @ ys) n = n - (3 * Suc k - base64_room pad src)"
  using assms
proof (induction pad src arbitrary: thesis rule: base64_whole.induct)
  case (1 pad p q r s)
  show ?case by (rule "1.prems"(1) [of 0]) (use "1.prems"(2) in auto)
next
  case (2 pad p q r s v va)
  have w: "base64_whole pad (v # va)" using "2.prems"(2) by simp
  obtain k where k: "length (v # va) = 4 * Suc k" "base64_room pad (v # va) \<le> 3 * Suc k"
    "3 * Suc k \<le> base64_room pad (v # va) + 2"
    "\<And>n ys. 2 \<le> n \<Longrightarrow> decoded_len_loop pad (rev (v # va) @ ys) n = n - (3 * Suc k - base64_room pad (v # va))"
    by (rule "2.IH" [OF _ w]) blast
  show ?case by (rule "2.prems"(1) [of "Suc k"]) (use k in simp_all)
qed simp_all

lemma base64_decoded_len_whole:
  assumes "base64_whole (base64_pad m) src" and "sol_util_base64_calculate_decoded_len src m = Inr n"
  shows "length src mod 4 = 0" "src \<noteq> []" "n = base64_room (base64_pad m) src"
proof -
  let ?k = "base64_room (base64_pad m) src"
  obtain k where k: "length src = 4 * Suc k" "?k \<le> 3 * Suc k"
    "\<And>n ys. 2 \<le> n \<Longrightarrow> decoded_len_loop (base64_pad m) (rev src @ ys) n = n - (3 * Suc k - ?k)"
    by (rule base64_whole_groups [OF assms(1)]) blast
  have "decoded_len_loop (base64_pad m) (rev src) (length src div 4 * 3) = ?k"
    using k(3) [of "3 * Suc k" "[]"] k(1,2) by (simp add: mult.commute)
  then show "n = ?k" using assms(2)
    by (auto simp: sol_util_base64_calculate_decoded_len_def Let_def split: if_splits)
  show "length src mod 4 = 0" "src \<noteq> []" using k(1) by auto
qed

text \<open>
  C10. Base64 decoding is memory safe on whole groups: for input whose length is a multiple of
  four with padding only in the last two places, whatever the other characters are, the decoder
  never touches a byte behind the length \<^verbatim>\<open>sol_util_base64_calculate_decoded_len\<close> announces,
  and never reports more than that length.
\<close>

theorem base64_decode_safe:
  assumes "base64_map_ok m" and "base64_whole (base64_pad m) src"
    and "sol_util_base64_calculate_decoded_len src m = Inr n" and "n \<le> length buf"
  shows "\<exists>r out. sol_util_base64_decode buf (length buf) src m = Some (r, out)
    \<and> length out = length buf \<and> drop n out = drop n buf \<and> (\<forall>k. r = Inr k \<longrightarrow> k \<le> n)"
proof -
  note w = base64_decoded_len_whole [OF assms(2,3)]
  have "sol_util_base64_decode buf (length buf) src m = base64_decode_loop m src 0 buf"
    using assms(3,4) w(2) by (simp add: sol_util_base64_decode_def)
  with base64_decode_loop_room [OF assms(1) w(1), of 0 n buf] assms(4) w(3) show ?thesis
    by (auto simp: keeps_from_def)
qed

lemma base64_index_of_MAP_eval:
  "base64_index_of 0x41 SOL_BASE64_MAP = 0" "base64_index_of 0x3D SOL_BASE64_MAP = 64"
  "base64_index_of 0x51 SOL_BASE64_MAP = 16"
  by (simp_all add: base64_index_of_def SOL_BASE64_MAP_eval)

theorem base64_decode_safe_witness:
  "base64_whole (base64_pad SOL_BASE64_MAP) [0x41, 0x51, 0x3D, 0x3D] \<and>
   (\<exists>r out. sol_util_base64_decode [7, 8] (length [7 :: byte, 8]) [0x41, 0x51, 0x3D, 0x3D] SOL_BASE64_MAP = Some (r, out)
    \<and> length out = length [7 :: byte, 8] \<and> drop 1 out = drop 1 [7, 8] \<and> (\<forall>k. r = Inr k \<longrightarrow> k \<le> 1))"
proof (intro conjI base64_decode_safe [OF SOL_BASE64_MAP_ok])
  show "base64_whole (base64_pad SOL_BASE64_MAP) [0x41, 0x51, 0x3D, 0x3D]"
    by (simp add: base64_pad_def SOL_BASE64_MAP_eval)
  then show "base64_whole (base64_pad SOL_BASE64_MAP) [0x41, 0x51, 0x3D, 0x3D]" .
  show "sol_util_base64_calculate_decoded_len [0x41, 0x51, 0x3D, 0x3D] SOL_BASE64_MAP = Inr 1"
    by (simp add: sol_util_base64_calculate_decoded_len_def base64_pad_def SOL_BASE64_MAP_eval SSIZE_MAX_def)
qed simp

text \<open>
  Without whole groups the announced length is not enough: for \<^verbatim>\<open>A===\<close> the decoder announces
  0 bytes and writes one, and for \<^verbatim>\<open>AAAA=\<close> it announces 2 and writes three, so a caller that
  allocated the announced length has its memory overrun.
\<close>

lemma base64_decode_overrun:
  "sol_util_base64_calculate_decoded_len [0x41, 0x3D, 0x3D, 0x3D] SOL_BASE64_MAP = Inr 0
   \<and> sol_util_base64_decode [] 0 [0x41, 0x3D, 0x3D, 0x3D] SOL_BASE64_MAP = None
   \<and> sol_util_base64_calculate_decoded_len [0x41, 0x41, 0x41, 0x41, 0x3D] SOL_BASE64_MAP = Inr 2
   \<and> sol_util_base64_decode [7, 8] 2 [0x41, 0x41, 0x41, 0x41, 0x3D] SOL_BASE64_MAP = None"
proof (intro conjI)
  note calc = sol_util_base64_calculate_decoded_len_def base64_pad_def SOL_BASE64_MAP_eval SSIZE_MAX_def
  show 1: "sol_util_base64_calculate_decoded_len [0x41, 0x3D, 0x3D, 0x3D] SOL_BASE64_MAP = Inr 0"
    and 2: "sol_util_base64_calculate_decoded_len [0x41, 0x41, 0x41, 0x41, 0x3D] SOL_BASE64_MAP = Inr 2"
    by (simp_all add: calc)
  show "sol_util_base64_decode [] 0 [0x41, 0x3D, 0x3D, 0x3D] SOL_BASE64_MAP = None"
    using 1 by (simp add: sol_util_base64_decode_def base64_index_of_MAP_eval mem_set_def)
  show "sol_util_base64_decode [7, 8] 2 [0x41, 0x41, 0x41, 0x41, 0x3D] SOL_BASE64_MAP = None"
    using 2 by (simp add: sol_util_base64_decode_def base64_index_of_MAP_eval mem_set_def)
qed

section \<open>Base16: properties\<close>

definition base16_chars :: "byte \<Rightarrow> byte list \<Rightarrow> byte list" where
  "base16_chars a xs = concat (map (\<lambda>b. [base16_encode_digit (nibble_hi b) a,
                                         base16_encode_digit (nibble_lo b) a]) xs)"

lemma base16_chars_simps [simp]:
  "base16_chars a [] = []"
  "base16_chars a (b # xs) = base16_encode_digit (nibble_hi b) a #
     base16_encode_digit (nibble_lo b) a # base16_chars a xs"
  "length (base16_chars a xs) = 2 * length xs"
  by (simp_all add: base16_chars_def length_concat comp_def sum_list_triv)

lemma base16_encode_loop_eq:
  "pos + 2 * length xs \<le> length out \<Longrightarrow>
     base16_encode_loop a xs pos out = Some (pos + 2 * length xs,
       take pos out @ base16_chars a xs @ drop (pos + 2 * length xs) out)"
proof (induction xs arbitrary: pos out)
  case (Cons b xs)
  let ?g = "[base16_encode_digit (nibble_hi b) a, base16_encode_digit (nibble_lo b) a]"
  have room: "pos + length ?g \<le> length out" using Cons.prems by simp
  obtain out1 where w: "mem_write pos ?g out = Some out1" and len: "length out1 = length out"
    and tk: "take (pos + length ?g) out1 = take pos out @ ?g"
    and dr: "\<And>k. pos + length ?g \<le> k \<Longrightarrow> drop k out1 = drop k out"
    by (rule mem_write_step [OF room]) blast
  have "drop (pos + 2 + 2 * length xs) out1 = drop (pos + 2 + 2 * length xs) out" by (rule dr) simp
  with Cons.IH [of "pos + 2" out1] Cons.prems w len tk show ?case
    by (simp add: numeral_2_eq_2 del: base16_chars_simps(2)) simp
qed simp

lemma base16_digit_round:
  assumes "x < 16"
    and "dc = SOL_DECODE_BOTH \<or> (if uppercase then dc = SOL_DECODE_UPPERCASE else dc = SOL_DECODE_LOWERCASE)"
  shows "base16_digit_of dc (base16_encode_digit x (if uppercase then 0x41 else 0x61)) = x" "x \<noteq> 255"
proof -
  let ?N = "{0, 1, 2, 3, 4, 5, 6, 7, 8, 9, 10, 11, 12, 13, 14, 15 :: byte}"
  note defs = base16_digit_of_def base16_decode_digit_def base16_encode_digit_def
  have "\<forall>x\<in>?N. base16_digit_of SOL_DECODE_BOTH (base16_encode_digit x 0x41) = x"
    "\<forall>x\<in>?N. base16_digit_of SOL_DECODE_BOTH (base16_encode_digit x 0x61) = x"
    "\<forall>x\<in>?N. base16_digit_of SOL_DECODE_UPPERCASE (base16_encode_digit x 0x41) = x"
    "\<forall>x\<in>?N. base16_digit_of SOL_DECODE_LOWERCASE (base16_encode_digit x 0x61) = x"
    by (simp_all add: defs)
  note round = this [THEN bspec, OF nibble_cases [OF assms(1)]]
  show "base16_digit_of dc (base16_encode_digit x (if uppercase then 0x41 else 0x61)) = x"
    using assms(2) round by (cases uppercase) (simp_all, (elim disjE; simp)+)
  show "x \<noteq> 255" using nibble_cases [OF assms(1)] by auto
qed

lemma nibbles_less: "nibble_hi b < 16" "nibble_lo b < 16"
proof -
  have lt: "z < 16" if "z = take_bit 4 z" for z :: byte
    using take_bit_unat_less [OF that] by (simp add: word_less_nat_alt)
  show "nibble_hi b < 16" "nibble_lo b < 16"
    by (rule lt, rule byte_eqI; simp add: bit_simps nibble_hi_def nibble_lo_def)+
qed

lemma nibbles_join: "push_bit 4 (nibble_hi b) OR nibble_lo b = b"
  by (rule byte_eqI) (simp_all add: bit_simps nibble_hi_def nibble_lo_def)

lemma base16_decode_loop_chars:
  assumes "dc = SOL_DECODE_BOTH \<or> (if uppercase then dc = SOL_DECODE_UPPERCASE else dc = SOL_DECODE_LOWERCASE)"
  shows "pos + length xs \<le> length out \<Longrightarrow>
     base16_decode_loop (base16_digit_of dc) (base16_chars (if uppercase then 0x41 else 0x61) xs) pos out =
       Some (Inr (pos + length xs), take pos out @ xs @ drop (pos + length xs) out)"
proof (induction xs arbitrary: pos out)
  case (Cons b xs)
  note r = base16_digit_round [OF nibbles_less(1) assms] base16_digit_round [OF nibbles_less(2) assms]
  have "out[pos := b] = take pos out @ b # drop (Suc pos) out"
    using Cons.prems by (simp add: upd_conv_take_nth_drop)
  with Cons.IH [of "pos + 1" "out[pos := b]"] Cons.prems show ?case
    by (simp add: r nibbles_join mem_set_Some add.commute [of "length xs"])
qed simp

lemma base16_decode_loop_room:
  "pos + length src div 2 \<le> lim \<Longrightarrow> lim \<le> length out \<Longrightarrow>
     \<exists>r out'. base16_decode_loop dig src pos out = Some (r, out') \<and> keeps_from lim out out'
       \<and> (\<forall>n. r = Inr n \<longrightarrow> n = pos + length src div 2 \<and> even (length src))"
proof (induction src arbitrary: pos out rule: induct_list012)
  case (3 p q rest)
  show ?case
  proof (cases "dig p = 255 \<or> dig q = 255")
    case False
    let ?o = "out[pos := push_bit 4 (dig p) OR dig q]"
    have "base16_decode_loop dig (p # q # rest) pos out = base16_decode_loop dig rest (pos + 1) ?o"
      using False "3.prems" by (simp add: mem_set_Some)
    with "3.IH"(1) [of "pos + 1" ?o] "3.prems" show ?thesis
      by (force dest: keeps_from_update)
  qed auto
qed simp_all

text \<open>
  Base16 round trip and safety: encoding writes exactly two digits a byte; decoding them in a
  matching case mode restores the bytes; and on any input at all the decoder stays inside the
  announced length and accepts only digit strings of even length.
\<close>

lemma base16_round_trip:
  assumes "dc = SOL_DECODE_BOTH \<or> (if uppercase then dc = SOL_DECODE_UPPERCASE else dc = SOL_DECODE_LOWERCASE)"
    and "xs \<noteq> []" and "2 * length xs \<le> SSIZE_MAX"
    and "2 * length xs \<le> length enc" and "length xs \<le> length dec"
  shows "\<exists>hex. length hex = 2 * length xs
    \<and> sol_util_base16_encode enc (length enc) xs uppercase = Some (Inr (2 * length xs), hex @ drop (2 * length xs) enc)
    \<and> sol_util_base16_decode dec (length dec) hex dc = Some (Inr (length xs), xs @ drop (length xs) dec)"
proof (intro exI conjI)
  let ?a = "if uppercase then 0x41 else 0x61 :: byte"
  let ?hex = "base16_chars ?a xs"
  have ne: "?hex \<noteq> []" using assms(2) by (cases xs) simp_all
  have "sol_util_base16_calculate_encoded_len xs = Inr (2 * length xs)"
    using assms(3) by (simp add: sol_util_base16_calculate_encoded_len_def sol_util_ssize_mul_exact exact_int_def
        SSIZE_MAX_def nat_mult_distrib)
  then show "sol_util_base16_encode enc (length enc) xs uppercase =
      Some (Inr (2 * length xs), ?hex @ drop (2 * length xs) enc)"
    using assms base16_encode_loop_eq [of 0 xs enc ?a] by (simp add: sol_util_base16_encode_def)
  show "sol_util_base16_decode dec (length dec) ?hex dc = Some (Inr (length xs), xs @ drop (length xs) dec)"
    using ne assms(5) base16_decode_loop_chars [OF assms(1), of 0 xs dec]
    by (simp add: sol_util_base16_decode_def sol_util_base16_calculate_decoded_len_def)
qed simp

text \<open>
  Base16 decoding is memory safe on every input: it stays inside the announced length, keeps
  every byte behind it and succeeds only on an even number of characters.
\<close>

lemma base16_decode_safe:
  assumes "sol_util_base16_calculate_decoded_len src = Inr n" and "n \<le> length buf"
  shows "\<exists>r out. sol_util_base16_decode buf (length buf) src dc = Some (r, out)
    \<and> length out = length buf \<and> drop n out = drop n buf \<and> (\<forall>k. r = Inr k \<longrightarrow> k = n \<and> even (length src))"
proof (cases "src = []")
  case False
  with assms base16_decode_loop_room [of 0 src n buf "base16_digit_of dc"] show ?thesis
    by (auto simp: sol_util_base16_decode_def sol_util_base16_calculate_decoded_len_def keeps_from_def)
qed (use assms in \<open>simp add: sol_util_base16_decode_def sol_util_base16_calculate_decoded_len_def\<close>)

section \<open>UTF-8: properties\<close>

lemmas utf8_byte_defs = utf8_tail1_def utf8_tail0_def utf8_lead2_def utf8_lead3_def

lemma utf8_bytes_shape:
  "valid_utf8_byte (utf8_tail1 c)" "valid_utf8_byte (utf8_tail0 c)"
  "drop_bit 5 (utf8_lead2 c) = 6" "drop_bit 4 (utf8_lead3 c) = 14"
  unfolding valid_utf8_byte_def by (rule byte_eqI; simp add: bit_simps utf8_byte_defs)+

lemma utf8_lead_range:
  "\<not> utf8_lead2 c < 0x80" "utf8_lead2 c < 0xE0"
  "\<not> utf8_lead3 c < 0x80" "\<not> utf8_lead3 c < 0xE0" "utf8_lead3 c < 0xF0"
  using byte_range [OF utf8_bytes_shape(3), of c] byte_range [OF utf8_bytes_shape(4), of c]
  by (simp_all add: word_less_nat_alt)

lemma utf8_join2:
  assumes "c = take_bit 11 c"
  shows "push_bit 6 (ucast (utf8_lead2 c AND 0x1F)) OR ucast (utf8_tail0 c AND 0x3F) = c"
  by (rule word32_eqI; simp add: bit_simps utf8_byte_defs take_bit_high [OF assms])

lemma utf8_join3:
  assumes "c = take_bit 16 c"
  shows "push_bit 12 (ucast (utf8_lead3 c AND 0x0F)) OR push_bit 6 (ucast (utf8_tail1 c AND 0x3F))
    OR ucast (utf8_tail0 c AND 0x3F) = c"
  by (rule word32_eqI; simp add: bit_simps utf8_byte_defs take_bit_high [OF assms])

lemma utf8_join4:
  assumes "drop_bit 12 c = 0x10"
  shows "0x10000 OR push_bit 6 (ucast (utf8_tail1 c AND 0x3F)) OR ucast (utf8_tail0 c AND 0x3F) = c"
proof -
  have hi: "bit c n = bit (0x10 :: 32 word) (n - 12)" if "12 \<le> n" for n
    using that unfolding assms [symmetric] by (simp add: bit_drop_bit_eq)
  show ?thesis
    by (rule word32_eqI; simp add: bit_simps utf8_byte_defs hi)
qed

lemma utf8_decode:
  "\<not> b0 < 0x80 \<Longrightarrow> b0 < 0xE0 \<Longrightarrow> valid_utf8_byte b1 \<Longrightarrow>
     sol_util_unicode_code_from_utf8 (b0 # b1 # rest) =
       Some (Inr (push_bit 6 (ucast (b0 AND 0x1F)) OR ucast (b1 AND 0x3F), 2))"
  "\<not> b0 < 0x80 \<Longrightarrow> \<not> b0 < 0xE0 \<Longrightarrow> b0 < 0xF0 \<Longrightarrow> valid_utf8_byte b1 \<Longrightarrow> valid_utf8_byte b2 \<Longrightarrow>
     sol_util_unicode_code_from_utf8 (b0 # b1 # b2 # rest) =
       Some (Inr (push_bit 12 (ucast (b0 AND 0x0F)) OR push_bit 6 (ucast (b1 AND 0x3F))
                  OR ucast (b2 AND 0x3F), 3))"
  "valid_utf8_byte b2 \<Longrightarrow> valid_utf8_byte b3 \<Longrightarrow>
     sol_util_unicode_code_from_utf8 (0xF0 # 0x90 # b2 # b3 # rest) =
       Some (Inr (0x10000 OR push_bit 6 (ucast (b2 AND 0x3F)) OR ucast (b3 AND 0x3F), 4))"
  by (simp_all add: sol_util_unicode_code_from_utf8_def mem_get_def)

text \<open>
  C29. UTF-8 round trip: every code point below 0x11000 is encoded in at most four bytes, and the
  decoder reads back that code point and exactly those bytes, whatever follows them.
\<close>

theorem utf8_round_trip:
  assumes "c < 0x11000" and "4 \<le> buf_len"
  shows "\<exists>bs. sol_util_utf8_from_unicode_code buf_len c = Inr bs \<and> length bs \<le> 4
    \<and> sol_util_unicode_code_from_utf8 (bs @ rest) = Some (Inr (c, length bs))"
proof -
  note enc = sol_util_utf8_from_unicode_code_def
  have lim: "\<not> c > 0x10FFFF" "buf_len \<noteq> 0" using assms by (auto simp: word_less_nat_alt)
  consider "c < 0x80" | "\<not> c < 0x80" "c < 0x800" | "\<not> c < 0x800" "c \<le> 0xFFFF" | "0xFFFF < c"
    by (metis linorder_not_le)
  then show ?thesis
  proof cases
    case 1
    have c7: "c = take_bit 7 c" using 1 by (intro word_eq_take_bit) simp
    have u: "ucast (ucast (c AND 0xFF) :: byte) = c"
      by (intro word32_eqI; simp add: bit_simps take_bit_high [OF c7])
    have "drop_bit 7 (ucast (c AND 0xFF) :: byte) = 0"
      using take_bit_high [OF c7] by (intro byte_eqI; simp add: bit_simps)
    from byte_range(2) [OF this] have "ucast (c AND 0xFF) < (0x80 :: byte)" by (simp add: word_less_nat_alt)
    then have "sol_util_unicode_code_from_utf8 ([ucast (c AND 0xFF)] @ rest) = Some (Inr (c, 1))"
      using u by (simp add: sol_util_unicode_code_from_utf8_def mem_get_def)
    with 1 lim show ?thesis by (auto simp: enc)
  next
    case 2
    then have "c = take_bit 11 c" "\<not> 0x800 \<le> c" by (auto intro: word_eq_take_bit)
    with 2 lim assms(2) show ?thesis
      by (intro exI [of _ "[utf8_lead2 c, utf8_tail0 c]"])
        (simp add: enc utf8_decode(1) utf8_lead_range utf8_bytes_shape utf8_join2)
  next
    case 3
    then have c: "c < 2 ^ 16" "\<not> c < 0x80" by (simp_all add: word_less_nat_alt word_le_nat_alt)
    then have "c = take_bit 16 c" by (intro word_eq_take_bit)
    with 3 c lim assms(2) show ?thesis
      by (intro exI [of _ "[utf8_lead3 c, utf8_tail1 c, utf8_tail0 c]"])
        (simp add: enc utf8_decode(2) utf8_lead_range utf8_bytes_shape utf8_join3 linorder_not_le)
  next
    case 4
    then have c: "\<not> c < 0x80" "0x800 \<le> c" by (simp_all add: word_less_nat_alt word_le_nat_alt)
    have "take_bit 32 (unat c) = unat c" by (rule take_bit_nat_eq_self) (use unsigned_less [of c] in simp)
    then have "unat (drop_bit 12 c) = unat c div 2 ^ 12"
      by (simp add: unsigned_drop_bit_eq drop_bit_eq_div [where 'a = nat])
    also have "\<dots> = unat (0x10 :: 32 word)" using 4 assms(1) by (simp add: word_less_nat_alt)
    finally have "drop_bit 12 c = 0x10" by (rule word_unat_eq_iff [THEN iffD2])
    with 4 c lim assms(2) show ?thesis
      by (intro exI [of _ "[0xF0, 0x90, utf8_tail1 c, utf8_tail0 c]"])
        (simp add: enc utf8_decode(3) utf8_bytes_shape utf8_join4)
  qed
qed

theorem utf8_round_trip_witness:
  "\<exists>bs. sol_util_utf8_from_unicode_code 4 0x20AC = Inr bs \<and> length bs \<le> 4
    \<and> sol_util_unicode_code_from_utf8 (bs @ [0x21]) = Some (Inr (0x20AC, length bs))"
  by (rule utf8_round_trip) simp_all

text \<open>
  Above 0x11000 the round trip is lost: the grinning face U+1F600 is encoded as the bytes of
  U+10600, so two different code points share one encoding; and a buffer that ends in the byte
  0xF0 makes the decoder read the byte behind it before it compares the length.
\<close>

lemma utf8_four_bytes:
  "sol_util_utf8_from_unicode_code 4 0x1F600 = Inr [0xF0, 0x90, 0x98, 0x80]
   \<and> sol_util_utf8_from_unicode_code 4 0x10600 = Inr [0xF0, 0x90, 0x98, 0x80]
   \<and> sol_util_unicode_code_from_utf8 [0xF0, 0x90, 0x98, 0x80] = Some (Inr (0x10600, 4))
   \<and> sol_util_unicode_code_from_utf8 [0xF0] = None"
  by (simp add: sol_util_utf8_from_unicode_code_def utf8_byte_defs utf8_decode(3) valid_utf8_byte_def
      sol_util_unicode_code_from_utf8_def mem_get_def)

section \<open>What a successful decoder wrote\<close>

fun base64_bytes :: "byte list \<Rightarrow> byte list \<Rightarrow> byte list" where
  "base64_bytes m (p # q # r # s # rest) =
     (let v0 = base64_index_of p m; v1 = base64_index_of q m; v2 = base64_index_of r m; v3 = base64_index_of s m
      in octet0 v0 v1 # (if v2 = 64 then [] else octet1 v1 v2 # (if v3 = 64 then [] else [octet2 v2 v3])))
     @ base64_bytes m rest"
| "base64_bytes m _ = []"

fun base16_bytes :: "(byte \<Rightarrow> byte) \<Rightarrow> byte list \<Rightarrow> byte list" where
  "base16_bytes dig (p # q # rest) = (push_bit 4 (dig p) OR dig q) # base16_bytes dig rest"
| "base16_bytes dig _ = []"

lemma list_update_app:
  "i < length out \<Longrightarrow> take (Suc i) (out[i := x]) = take i out @ [x]" "drop (Suc i + k) (out[i := x]) = drop (Suc i + k) out"
  by (simp_all add: take_Suc_conv_app_nth)

lemma base16_decode_loop_bytes:
  "base16_decode_loop dig src pos out = Some (Inr n, out') \<Longrightarrow>
     n = pos + length (base16_bytes dig src) \<and> out' = take pos out @ base16_bytes dig src @ drop n out"
proof (induction dig src pos out rule: base16_decode_loop.induct)
  case (1 dig p q rest pos out)
  let ?x = "push_bit 4 (dig p) OR dig q"
  from "1.prems" have ne: "\<not> (dig p = 255 \<or> dig q = 255)" and i: "pos < length out"
    and r: "base16_decode_loop dig rest (pos + 1) (out[pos := ?x]) = Some (Inr n, out')"
    by (auto simp: mem_set_def split: if_splits)
  have IH: "n = pos + 1 + length (base16_bytes dig rest) \<and>
      out' = take (pos + 1) (out[pos := ?x]) @ base16_bytes dig rest @ drop n (out[pos := ?x])"
    using "1.IH" [OF ne _ r] i by (simp add: mem_set_def)
  then have "n = Suc pos + length (base16_bytes dig rest)" by simp
  with IH show ?case using list_update_app(1) [OF i] list_update_app(2) by simp
qed auto

lemma base64_decode_loop_group:
  assumes "base64_decode_loop m (p # q # r # s # rest) pos out = Some (Inr n, out')"
  defines "v0 \<equiv> base64_index_of p m" and "v1 \<equiv> base64_index_of q m"
    and "v2 \<equiv> base64_index_of r m" and "v3 \<equiv> base64_index_of s m"
  defines "g \<equiv> octet0 v0 v1 # (if v2 = 64 then [] else octet1 v1 v2 # (if v3 = 64 then [] else [octet2 v2 v3]))"
  obtains out1 where "mem_write pos g out = Some out1"
    and "base64_decode_loop m rest (pos + length g) out1 = Some (Inr n, out')"
proof -
  have ne: "\<not> (v0 = 255 \<or> v1 = 255 \<or> v2 = 255 \<or> v3 = 255)"
    using assms(1) unfolding v0_def v1_def v2_def v3_def by (auto simp: Let_def split: if_splits)
  have "Option.bind (mem_write pos g out) (base64_decode_loop m rest (pos + length g)) = Some (Inr n, out')"
    using assms(1) ne
    by (cases "v2 = 64"; cases "v3 = 64")
      (simp_all add: g_def v0_def [symmetric] v1_def [symmetric] v2_def [symmetric] v3_def [symmetric]
        mem_set_chain [symmetric] mem_set_eq_write [symmetric] Let_def numeral_2_eq_2 numeral_3_eq_3)
  then show thesis using that by (auto simp: bind_eq_Some_conv)
qed

lemma base64_decode_loop_bytes:
  "base64_decode_loop m src pos out = Some (Inr n, out') \<Longrightarrow>
     n = pos + length (base64_bytes m src) \<and> out' = take pos out @ base64_bytes m src @ drop n out"
proof (induction m src arbitrary: pos out rule: base64_bytes.induct)
  case (1 m p q r s rest)
  let ?v0 = "base64_index_of p m" and ?v1 = "base64_index_of q m"
    and ?v2 = "base64_index_of r m" and ?v3 = "base64_index_of s m"
  define g where "g = octet0 ?v0 ?v1 #
    (if ?v2 = 64 then [] else octet1 ?v1 ?v2 # (if ?v3 = 64 then [] else [octet2 ?v2 ?v3]))"
  obtain out1 where w: "mem_write pos g out = Some out1"
    and d: "base64_decode_loop m rest (pos + length g) out1 = Some (Inr n, out')"
    using base64_decode_loop_group [OF "1.prems"] unfolding g_def by blast
  note IH = "1.IH" [OF d]
  have room: "pos + length g \<le> length out" using w by (auto simp: mem_write_def split: if_splits)
  have "take (pos + length g) out1 = take pos out @ g" "drop n out1 = drop n out"
    using mem_write_step [OF room] w IH by force+
  moreover have "base64_bytes m (p # q # r # s # rest) = g @ base64_bytes m rest" by (simp add: g_def Let_def)
  ultimately show ?case using IH by simp
qed auto

lemma base64_bytes_chars:
  assumes "base64_map_ok m"
  shows "base64_bytes m (base64_chars m xs) = xs"
proof -
  let ?o = "replicate (length xs) 0 :: byte list"
  have "base64_decode_loop m (base64_chars m xs) 0 ?o = Some (Inr (length xs), xs)"
    using base64_decode_loop_chars [OF assms, of 0 xs ?o] by simp
  from base64_decode_loop_bytes [OF this] show ?thesis by simp
qed

lemma base16_bytes_chars:
  assumes "dc = SOL_DECODE_BOTH \<or> (if uppercase then dc = SOL_DECODE_UPPERCASE else dc = SOL_DECODE_LOWERCASE)"
  shows "base16_bytes (base16_digit_of dc) (base16_chars (if uppercase then 0x41 else 0x61) xs) = xs"
proof -
  let ?o = "replicate (length xs) 0 :: byte list"
  have "base16_decode_loop (base16_digit_of dc) (base16_chars (if uppercase then 0x41 else 0x61) xs) 0 ?o =
      Some (Inr (length xs), xs)"
    using base16_decode_loop_chars [OF assms, of 0 xs ?o] by simp
  from base16_decode_loop_bytes [OF this] show ?thesis by simp
qed

end
