(* ===== verification/Buffer.thy ===== *)
theory Buffer
  imports Codec
begin

unbundle bit_operations_syntax

text \<open>
  The growable byte buffer of \<^verbatim>\<open>src/lib/datatypes/sol-buffer.c\<close> and \<^verbatim>\<open>sol-buffer.h\<close>.

  \<open>sol_buffer\<close> has the fields of the C struct: the memory block (\<open>None\<close> is a NULL pointer), the
  capacity, the used size and the flags. \<open>breleased\<close> is not in the struct: it records, with their
  last contents, the blocks that were given back to the allocator, so that what
  \<^verbatim>\<open>SOL_BUFFER_FLAGS_CLEAR_MEMORY\<close> promises can be stated. Every operation returns its result
  code and the buffer after the call; \<open>None\<close> is an access outside of the block. The source of a
  copy is another object than the buffer's own block.
\<close>

section \<open>The buffer\<close>

record sol_buffer =
  bdata :: "byte list option"
  bcapacity :: nat
  bused :: nat
  bflags :: byte
  breleased :: "byte list list"

type_synonym buffer_result = "((errno + unit) \<times> sol_buffer) option"

definition SOL_BUFFER_FLAGS_DEFAULT :: byte where
  "SOL_BUFFER_FLAGS_DEFAULT = 0"

definition SOL_BUFFER_FLAGS_FIXED_CAPACITY :: byte where
  "SOL_BUFFER_FLAGS_FIXED_CAPACITY = 1"

definition SOL_BUFFER_FLAGS_NO_FREE :: byte where
  "SOL_BUFFER_FLAGS_NO_FREE = 2"

definition SOL_BUFFER_FLAGS_MEMORY_NOT_OWNED :: byte where
  "SOL_BUFFER_FLAGS_MEMORY_NOT_OWNED = SOL_BUFFER_FLAGS_FIXED_CAPACITY OR SOL_BUFFER_FLAGS_NO_FREE"

definition SOL_BUFFER_FLAGS_NO_NUL_BYTE :: byte where
  "SOL_BUFFER_FLAGS_NO_NUL_BYTE = 4"

definition SOL_BUFFER_FLAGS_CLEAR_MEMORY :: byte where
  "SOL_BUFFER_FLAGS_CLEAR_MEMORY = 8"

text \<open>\<^verbatim>\<open>buf->flags & f\<close> as a condition.\<close>

definition has_flag :: "byte \<Rightarrow> sol_buffer \<Rightarrow> bool" where
  "has_flag f b \<longleftrightarrow> bflags b AND f \<noteq> 0"

definition SOL_BUFFER_NEEDS_NUL_BYTE :: "sol_buffer \<Rightarrow> bool" where
  "SOL_BUFFER_NEEDS_NUL_BYTE b \<longleftrightarrow> \<not> has_flag SOL_BUFFER_FLAGS_NO_NUL_BYTE b"

definition nul_byte_size :: "sol_buffer \<Rightarrow> nat" where
  "nul_byte_size b = (if has_flag SOL_BUFFER_FLAGS_NO_NUL_BYTE b then 0 else 1)"

definition sol_buffer_init :: sol_buffer where
  "sol_buffer_init = \<lparr>bdata = None, bcapacity = 0, bused = 0, bflags = SOL_BUFFER_FLAGS_DEFAULT,
     breleased = []\<rparr>"

text \<open>The caller hands over a block of \<^verbatim>\<open>data_size\<close> bytes; \<open>None\<close> is a failed assertion.\<close>

definition sol_buffer_init_flags :: "byte list option \<Rightarrow> nat \<Rightarrow> byte \<Rightarrow> sol_buffer option" where
  "sol_buffer_init_flags data data_size flags =
     (if flags AND SOL_BUFFER_FLAGS_MEMORY_NOT_OWNED \<noteq> 0 \<and> data = None then None
      else Some \<lparr>bdata = data, bcapacity = data_size, bused = 0, bflags = flags, breleased = []\<rparr>)"

definition SOL_BUFFER_INIT_CONST :: "byte list \<Rightarrow> sol_buffer" where
  "SOL_BUFFER_INIT_CONST data =
     \<lparr>bdata = Some data, bcapacity = length data, bused = length data,
      bflags = SOL_BUFFER_FLAGS_MEMORY_NOT_OWNED, breleased = []\<rparr>"

definition sol_buffer_reset :: "sol_buffer \<Rightarrow> sol_buffer" where
  "sol_buffer_reset b = b\<lparr>bused := 0\<rparr>"

section \<open>Accesses through the data pointer\<close>

definition buf_mem :: "sol_buffer \<Rightarrow> byte list" where
  "buf_mem b = (case bdata b of None \<Rightarrow> [] | Some blk \<Rightarrow> blk)"

text \<open>An access of no bytes is none at all; that holds for NULL as well.\<close>

definition buf_write :: "nat \<Rightarrow> byte list \<Rightarrow> sol_buffer \<Rightarrow> sol_buffer option" where
  "buf_write off xs b =
     (if xs = [] then Some b
      else do { blk \<leftarrow> bdata b; blk \<leftarrow> mem_write off xs blk; Some (b\<lparr>bdata := Some blk\<rparr>) })"

definition buf_move :: "nat \<Rightarrow> nat \<Rightarrow> nat \<Rightarrow> sol_buffer \<Rightarrow> sol_buffer option" where
  "buf_move dst src n b =
     (if n = 0 then Some b
      else do { blk \<leftarrow> bdata b; blk \<leftarrow> mem_move dst src n blk; Some (b\<lparr>bdata := Some blk\<rparr>) })"

definition buf_get :: "nat \<Rightarrow> sol_buffer \<Rightarrow> byte option" where
  "buf_get i b = do { blk \<leftarrow> bdata b; mem_get i blk }"

text \<open>
  A call that writes through \<^verbatim>\<open>p = data + off\<close>: the codec gets the rest of the block. The codecs
  answer \<^verbatim>\<open>-EINVAL\<close> to a NULL pointer.
\<close>

definition buf_codec :: "nat \<Rightarrow> (byte list \<Rightarrow> ((errno + nat) \<times> byte list) option) \<Rightarrow> sol_buffer
    \<Rightarrow> ((errno + nat) \<times> sol_buffer) option" where
  "buf_codec off f b =
     (case bdata b of None \<Rightarrow> Some (Inl EINVAL, b)
      | Some blk \<Rightarrow> do { (r, out) \<leftarrow> f (drop off blk); Some (r, b\<lparr>bdata := Some (take off blk @ out)\<rparr>) })"

section \<open>Memory management\<close>

definition buf_release :: "byte list option \<Rightarrow> sol_buffer \<Rightarrow> sol_buffer" where
  "buf_release data b =
     (case data of None \<Rightarrow> b | Some blk \<Rightarrow> b\<lparr>breleased := blk # breleased b\<rparr>)"

text \<open>\<^verbatim>\<open>sol_util_clear_memory_secure(buf->data, buf->capacity)\<close>.\<close>

definition buf_clear :: "sol_buffer \<Rightarrow> sol_buffer option" where
  "buf_clear b = buf_write 0 (replicate (bcapacity b) 0) b"

definition secure_realloc :: "byte libc \<Rightarrow> nat \<Rightarrow> sol_buffer \<Rightarrow> (byte list option \<times> sol_buffer) option" where
  "secure_realloc l new_size b =
     (if new_size = 0 then do { b \<leftarrow> buf_clear b; Some (None, buf_release (bdata b) b) }
      else if \<not> alloc_ok l new_size then Some (None, b)
      else
        let new_data = map (fresh l) [0..<new_size]
        in case bdata b of None \<Rightarrow> Some (Some new_data, b)
           | Some old \<Rightarrow> do {
               xs \<leftarrow> mem_read 0 (min new_size (bcapacity b)) old;
               new_data \<leftarrow> mem_write 0 xs new_data;
               b \<leftarrow> buf_clear b;
               Some (Some new_data, buf_release (bdata b) b)
             })"

text \<open>\<^verbatim>\<open>realloc\<close>: the old block is released, with what it contains, unless it cannot be enlarged.\<close>

definition buf_realloc :: "byte libc \<Rightarrow> nat \<Rightarrow> sol_buffer \<Rightarrow> byte list option \<times> sol_buffer" where
  "buf_realloc l new_size b =
     (if new_size = 0 then (None, buf_release (bdata b) b)
      else case realloc_cells l 1 (buf_mem b) new_size of
             None \<Rightarrow> (None, b)
           | Some new_data \<Rightarrow> (Some new_data, buf_release (bdata b) b))"

definition sol_buffer_resize :: "byte libc \<Rightarrow> nat \<Rightarrow> sol_buffer \<Rightarrow> buffer_result" where
  "sol_buffer_resize l new_size b =
     (if has_flag SOL_BUFFER_FLAGS_MEMORY_NOT_OWNED b then Some (Inl EPERM, b)
      else if bcapacity b = new_size then Some (Inr (), b)
      else do {
        (new_data, b) \<leftarrow> (if has_flag SOL_BUFFER_FLAGS_CLEAR_MEMORY b then secure_realloc l new_size b
                          else Some (buf_realloc l new_size b));
        (if new_data = None \<and> new_size \<noteq> 0 then Some (Inl ENOMEM, b)
         else
           let b = b\<lparr>bdata := new_data, bcapacity := new_size\<rparr>
           in Some (Inr (), if bused b > new_size then b\<lparr>bused := new_size\<rparr> else b))
      })"

definition sol_buffer_ensure :: "byte libc \<Rightarrow> nat \<Rightarrow> sol_buffer \<Rightarrow> buffer_result" where
  "sol_buffer_ensure l min_size b =
     (let nul_byte = nul_byte_size b
      in if min_size \<ge> SIZE_MAX - nul_byte then Some (Inl EINVAL, b)
         else let min_size = min_size + nul_byte
              in if bcapacity b \<ge> min_size then Some (Inr (), b)
                 else do {
                   (err, b) \<leftarrow> sol_buffer_resize l (align_power2_size min_size) b;
                   Some (if err = Inl EPERM then Inl ENOMEM else err, b)
                 })"

definition sol_buffer_expand :: "byte libc \<Rightarrow> nat \<Rightarrow> sol_buffer \<Rightarrow> buffer_result" where
  "sol_buffer_expand l bytes b =
     (let available = size_minus (bcapacity b) (bused b)
      in if available \<ge> size_plus bytes (nul_byte_size b) then Some (Inr (), b)
         else case sol_util_size_add (bcapacity b) (size_minus bytes available) of
                Inl e \<Rightarrow> Some (Inl e, b)
              | Inr new_size \<Rightarrow> sol_buffer_ensure l new_size b)"

definition sol_buffer_ensure_nul_byte :: "byte libc \<Rightarrow> sol_buffer \<Rightarrow> buffer_result" where
  "sol_buffer_ensure_nul_byte l b =
     (if has_flag SOL_BUFFER_FLAGS_NO_NUL_BYTE b then Some (Inl EINVAL, b)
      else do {
        nul_at_end \<leftarrow> (if bused b \<noteq> 0 then map_option (\<lambda>c. c = 0) (buf_get (bused b - 1) b) else Some False);
        (if nul_at_end then Some (Inr (), b)
         else if bused b \<ge> SIZE_MAX - 1 then Some (Inl ENOMEM, b)
         else do {
           (err, b) \<leftarrow> sol_buffer_ensure l (bused b) b;
           (case err of Inl _ \<Rightarrow> Some (Inl ENOMEM, b)
            | Inr _ \<Rightarrow> do { b \<leftarrow> buf_write (bused b) [0] b; Some (Inr (), b) })
         })
      })"

text \<open>\<^verbatim>\<open>if (SOL_BUFFER_NEEDS_NUL_BYTE(buf)) return sol_buffer_ensure_nul_byte(buf); return 0;\<close>\<close>

definition terminate_buffer :: "byte libc \<Rightarrow> sol_buffer \<Rightarrow> buffer_result" where
  "terminate_buffer l b =
     (if SOL_BUFFER_NEEDS_NUL_BYTE b then sol_buffer_ensure_nul_byte l b else Some (Inr (), b))"

definition sol_buffer_trim :: "byte libc \<Rightarrow> sol_buffer \<Rightarrow> buffer_result" where
  "sol_buffer_trim l b =
     (if \<not> has_flag SOL_BUFFER_FLAGS_NO_NUL_BYTE b \<and> bused b = SIZE_MAX then Some (Inl EOVERFLOW, b)
      else
        let new_size = (if has_flag SOL_BUFFER_FLAGS_NO_NUL_BYTE b then bused b else bused b + 1)
        in if new_size = bcapacity b then Some (Inr (), b) else sol_buffer_resize l new_size b)"

definition sol_buffer_fini :: "sol_buffer \<Rightarrow> sol_buffer option" where
  "sol_buffer_fini b = do {
     b \<leftarrow> (if has_flag SOL_BUFFER_FLAGS_CLEAR_MEMORY b then buf_clear b else Some b);
     let b = (if has_flag SOL_BUFFER_FLAGS_NO_FREE b then b else buf_release (bdata b) b);
     Some (b\<lparr>bdata := None, bused := 0, bcapacity := 0\<rparr>)
   }"

section \<open>Writing bytes\<close>

definition sol_buffer_set_slice :: "byte libc \<Rightarrow> byte list \<Rightarrow> sol_buffer \<Rightarrow> buffer_result" where
  "sol_buffer_set_slice l src b =
     on_ok (sol_buffer_ensure l (length src) b) (\<lambda>_ b. do {
       b \<leftarrow> buf_write 0 src b;
       terminate_buffer l (b\<lparr>bused := length src\<rparr>)
     })"

definition sol_buffer_append_bytes :: "byte libc \<Rightarrow> byte list \<Rightarrow> sol_buffer \<Rightarrow> buffer_result" where
  "sol_buffer_append_bytes l bytes b =
     (if length bytes = 0 then terminate_buffer l b
      else on_ok (sol_buffer_expand l (length bytes) b) (\<lambda>_ b. do {
        b \<leftarrow> buf_write (bused b) bytes b;
        b \<leftarrow> (if SOL_BUFFER_NEEDS_NUL_BYTE b then buf_write (bused b + length bytes) [0] b else Some b);
        Some (Inr (), b\<lparr>bused := bused b + length bytes\<rparr>)
      }))"

text \<open>\<^verbatim>\<open>sol_buffer_get_slice\<close> reads the used bytes.\<close>

definition sol_buffer_get_slice :: "sol_buffer \<Rightarrow> byte list" where
  "sol_buffer_get_slice b = take (bused b) (buf_mem b)"

definition sol_buffer_get_slice_at :: "sol_buffer \<Rightarrow> nat \<Rightarrow> byte list" where
  "sol_buffer_get_slice_at b pos = (if bused b < pos then [] else drop pos (sol_buffer_get_slice b))"

definition sol_buffer_append_buffer :: "byte libc \<Rightarrow> sol_buffer \<Rightarrow> sol_buffer \<Rightarrow> buffer_result" where
  "sol_buffer_append_buffer l src dst = sol_buffer_append_bytes l (sol_buffer_get_slice src) dst"

definition sol_buffer_append_slice :: "byte libc \<Rightarrow> byte list \<Rightarrow> sol_buffer \<Rightarrow> buffer_result" where
  "sol_buffer_append_slice l src b = sol_buffer_append_bytes l src b"

definition sol_buffer_set_slice_at :: "byte libc \<Rightarrow> nat \<Rightarrow> byte list \<Rightarrow> sol_buffer \<Rightarrow> buffer_result" where
  "sol_buffer_set_slice_at l pos src b =
     (if length src = 0 then Some (Inr (), b)
      else if bused b < pos then Some (Inl EINVAL, b)
      else
        let nul_size = nul_byte_size b
        in if length src \<ge> size_minus (SIZE_MAX - nul_size) pos then Some (Inl EOVERFLOW, b)
           else on_ok (sol_buffer_ensure l (pos + length src) b) (\<lambda>_ b. do {
             b \<leftarrow> buf_write pos src b;
             (if pos + length src \<ge> bused b then do {
                let b = b\<lparr>bused := pos + length src\<rparr>;
                b \<leftarrow> (if nul_size \<noteq> 0 then buf_write (bused b) [0] b else Some b);
                Some (Inr (), b)
              } else Some (Inr (), b))
           }))"

definition sol_buffer_set_char_at :: "byte libc \<Rightarrow> nat \<Rightarrow> byte \<Rightarrow> sol_buffer \<Rightarrow> buffer_result" where
  "sol_buffer_set_char_at l pos c b =
     (if bused b < pos then Some (Inl EINVAL, b)
      else
        let nul_size = nul_byte_size b
        in if 1 \<ge> size_minus (SIZE_MAX - nul_size) pos then Some (Inl EOVERFLOW, b)
           else on_ok (sol_buffer_ensure l (pos + 1) b) (\<lambda>_ b. do {
             b \<leftarrow> buf_write pos [c] b;
             let b = (if pos + 1 \<ge> bused b then b\<lparr>bused := pos + 1\<rparr> else b);
             (if nul_size \<noteq> 0 then sol_buffer_ensure_nul_byte l b else Some (Inr (), b))
           }))"

definition sol_buffer_insert_bytes :: "byte libc \<Rightarrow> nat \<Rightarrow> byte list \<Rightarrow> sol_buffer \<Rightarrow> buffer_result" where
  "sol_buffer_insert_bytes l pos bytes b =
     (if pos > bused b then Some (Inl EINVAL, b)
      else if length bytes = 0 then terminate_buffer l b
      else if pos = bused b then sol_buffer_append_bytes l bytes b
      else on_ok (sol_buffer_expand l (length bytes) b) (\<lambda>_ b. do {
        b \<leftarrow> buf_move (pos + length bytes) pos (bused b - pos) b;
        b \<leftarrow> buf_write pos bytes b;
        terminate_buffer l (b\<lparr>bused := bused b + length bytes\<rparr>)
      }))"

definition sol_buffer_insert_slice :: "byte libc \<Rightarrow> nat \<Rightarrow> byte list \<Rightarrow> sol_buffer \<Rightarrow> buffer_result" where
  "sol_buffer_insert_slice l pos src b = sol_buffer_insert_bytes l pos src b"

definition sol_buffer_set_buffer :: "byte libc \<Rightarrow> sol_buffer \<Rightarrow> sol_buffer \<Rightarrow> buffer_result" where
  "sol_buffer_set_buffer l src dst = sol_buffer_set_slice l (sol_buffer_get_slice src) dst"

definition sol_buffer_set_buffer_at :: "byte libc \<Rightarrow> nat \<Rightarrow> sol_buffer \<Rightarrow> sol_buffer \<Rightarrow> buffer_result" where
  "sol_buffer_set_buffer_at l pos src dst = sol_buffer_set_slice_at l pos (sol_buffer_get_slice src) dst"

definition sol_buffer_insert_buffer :: "byte libc \<Rightarrow> nat \<Rightarrow> sol_buffer \<Rightarrow> sol_buffer \<Rightarrow> buffer_result" where
  "sol_buffer_insert_buffer l pos src dst = sol_buffer_insert_slice l pos (sol_buffer_get_slice src) dst"

definition sol_buffer_append_char :: "byte libc \<Rightarrow> byte \<Rightarrow> sol_buffer \<Rightarrow> buffer_result" where
  "sol_buffer_append_char l c b =
     on_ok (sol_buffer_expand l 1 b) (\<lambda>_ b. do {
       b \<leftarrow> buf_write (bused b) [c] b;
       let b = b\<lparr>bused := bused b + 1\<rparr>;
       (if nul_byte_size b \<noteq> 0 then sol_buffer_ensure_nul_byte l b else Some (Inr (), b))
     })"

definition sol_buffer_insert_char :: "byte libc \<Rightarrow> nat \<Rightarrow> byte \<Rightarrow> sol_buffer \<Rightarrow> buffer_result" where
  "sol_buffer_insert_char l pos c b =
     (if pos > bused b then Some (Inl EINVAL, b)
      else if pos = bused b then sol_buffer_append_char l c b
      else on_ok (sol_buffer_expand l 1 b) (\<lambda>_ b. do {
        b \<leftarrow> buf_move (pos + 1) pos (bused b - pos) b;
        b \<leftarrow> buf_write pos [c] b;
        terminate_buffer l (b\<lparr>bused := bused b + 1\<rparr>)
      }))"

definition sol_buffer_remove_data :: "byte libc \<Rightarrow> nat \<Rightarrow> nat \<Rightarrow> sol_buffer \<Rightarrow> buffer_result" where
  "sol_buffer_remove_data l offset len b =
     (if bused b < offset then Some (Inl EINVAL, b)
      else case sol_util_size_add len offset of
        Inl e \<Rightarrow> Some (Inl e, b)
      | Inr total_size \<Rightarrow>
          let len = (if total_size \<le> bused b then len else bused b - offset)
          in do {
            b \<leftarrow> (if bused b \<noteq> total_size then buf_move offset total_size (bused b - len - offset) b else Some b);
            let b = b\<lparr>bused := bused b - len\<rparr>;
            on_ok (if has_flag SOL_BUFFER_FLAGS_MEMORY_NOT_OWNED b then Some (Inr (), b)
                   else sol_buffer_resize l (align_power2_size (bused b + nul_byte_size b)) b)
              (\<lambda>_ b. terminate_buffer l b)
          })"

section \<open>Formatted output\<close>

text \<open>
  \<^verbatim>\<open>vsnprintf(p, space, fmt, args)\<close>: \<open>text\<close> is what the format and the arguments expand to (or
  the error). At most \<^verbatim>\<open>space\<close> bytes are written, the last one of them NUL; the result is the
  length of the whole text.
\<close>

definition vsnprintf_bytes :: "nat \<Rightarrow> byte list \<Rightarrow> byte list" where
  "vsnprintf_bytes space text = (if space = 0 then [] else take (space - 1) text @ [0])"

definition sol_buffer_append_vprintf :: "byte libc \<Rightarrow> errno + byte list \<Rightarrow> sol_buffer \<Rightarrow> buffer_result" where
  "sol_buffer_append_vprintf l formatted b =
     (case formatted of Inl e \<Rightarrow> Some (Inl e, b)
      | Inr text \<Rightarrow> do {
          let space = size_minus (bcapacity b) (bused b);
          b \<leftarrow> buf_write (bused b) (vsnprintf_bytes space text) b;
          (if length text \<ge> space then
             case sol_util_size_add (bused b) (length text) of Inl e \<Rightarrow> Some (Inl e, b)
             | Inr new_size \<Rightarrow>
                 if \<not> SOL_BUFFER_NEEDS_NUL_BYTE b \<and> new_size \<ge> SIZE_MAX - 1 then Some (Inl EOVERFLOW, b)
                 else
                   let new_size = (if SOL_BUFFER_NEEDS_NUL_BYTE b then new_size else new_size + 1)
                   in on_ok (sol_buffer_ensure l new_size b) (\<lambda>_ b. do {
                        b \<leftarrow> buf_write (bused b) (vsnprintf_bytes (size_minus (bcapacity b) (bused b)) text) b;
                        Some (Inr (), b\<lparr>bused := bused b + length text\<rparr>)
                      })
           else Some (Inr (), b\<lparr>bused := bused b + length text\<rparr>))
        })"

definition sol_buffer_insert_vprintf :: "byte libc \<Rightarrow> nat \<Rightarrow> errno + byte list \<Rightarrow> sol_buffer \<Rightarrow> buffer_result" where
  "sol_buffer_insert_vprintf l pos formatted b =
     (if pos > bused b then Some (Inl EINVAL, b)
      else if pos = bused b then sol_buffer_append_vprintf l formatted b
      else case formatted of Inl e \<Rightarrow> Some (Inl e, b)
           | Inr text \<Rightarrow> sol_buffer_insert_slice l pos text b)"

section \<open>Encoded and decoded contents\<close>

text \<open>
  The eight operations that encode into or decode into the buffer have the same two bodies; they
  differ in the length they announce and in the codec they call.
\<close>

definition append_coded :: "byte libc \<Rightarrow> byte list \<Rightarrow> errno + nat
    \<Rightarrow> (byte list \<Rightarrow> nat \<Rightarrow> ((errno + nat) \<times> byte list) option) \<Rightarrow> sol_buffer \<Rightarrow> buffer_result" where
  "append_coded l src len codec b =
     (if length src = 0 then terminate_buffer l b
      else case len of Inl e \<Rightarrow> Some (Inl e, b)
      | Inr n \<Rightarrow> on_ok (sol_buffer_expand l n b) (\<lambda>_ b. do {
          (r, b) \<leftarrow> buf_codec (bused b) (\<lambda>out. codec out n) b;
          (if r \<noteq> Inr n then do {
             (_, b) \<leftarrow> terminate_buffer l b;
             Some (case r of Inl e \<Rightarrow> Inl e | Inr _ \<Rightarrow> Inl EINVAL, b)
           } else terminate_buffer l (b\<lparr>bused := bused b + n\<rparr>))
        }))"

definition insert_coded :: "byte libc \<Rightarrow> nat \<Rightarrow> byte list \<Rightarrow> errno + nat
    \<Rightarrow> (byte list \<Rightarrow> nat \<Rightarrow> ((errno + nat) \<times> byte list) option) \<Rightarrow> sol_buffer \<Rightarrow> buffer_result" where
  "insert_coded l pos src len codec b =
     (if pos > bused b then Some (Inl EINVAL, b)
      else if length src = 0 then terminate_buffer l b
      else if pos = bused b then append_coded l src len codec b
      else case len of Inl e \<Rightarrow> Some (Inl e, b)
      | Inr n \<Rightarrow> on_ok (sol_buffer_expand l n b) (\<lambda>_ b. do {
          b \<leftarrow> buf_move (pos + n) pos (bused b - pos) b;
          (r, b) \<leftarrow> buf_codec pos (\<lambda>out. codec out n) b;
          (if r \<noteq> Inr n then do {
             b \<leftarrow> buf_move pos (pos + n) (bused b - pos) b;
             (_, b) \<leftarrow> terminate_buffer l b;
             Some (case r of Inl e \<Rightarrow> Inl e | Inr _ \<Rightarrow> Inl EINVAL, b)
           } else terminate_buffer l (b\<lparr>bused := bused b + n\<rparr>))
        }))"

definition sol_buffer_append_as_base64 where
  "sol_buffer_append_as_base64 l src base64_map b =
     append_coded l src (sol_util_base64_calculate_encoded_len src base64_map)
       (\<lambda>out n. sol_util_base64_encode out n src base64_map) b"

definition sol_buffer_insert_as_base64 where
  "sol_buffer_insert_as_base64 l pos src base64_map b =
     insert_coded l pos src (sol_util_base64_calculate_encoded_len src base64_map)
       (\<lambda>out n. sol_util_base64_encode out n src base64_map) b"

definition sol_buffer_append_from_base64 where
  "sol_buffer_append_from_base64 l src base64_map b =
     append_coded l src (sol_util_base64_calculate_decoded_len src base64_map)
       (\<lambda>out n. sol_util_base64_decode out n src base64_map) b"

definition sol_buffer_insert_from_base64 where
  "sol_buffer_insert_from_base64 l pos src base64_map b =
     insert_coded l pos src (sol_util_base64_calculate_decoded_len src base64_map)
       (\<lambda>out n. sol_util_base64_decode out n src base64_map) b"

definition sol_buffer_append_as_base16 where
  "sol_buffer_append_as_base16 l src uppercase b =
     append_coded l src (sol_util_base16_calculate_encoded_len src)
       (\<lambda>out n. sol_util_base16_encode out n src uppercase) b"

definition sol_buffer_insert_as_base16 where
  "sol_buffer_insert_as_base16 l pos src uppercase b =
     insert_coded l pos src (sol_util_base16_calculate_encoded_len src)
       (\<lambda>out n. sol_util_base16_encode out n src uppercase) b"

definition sol_buffer_append_from_base16 where
  "sol_buffer_append_from_base16 l src decode_case b =
     append_coded l src (sol_util_base16_calculate_decoded_len src)
       (\<lambda>out n. sol_util_base16_decode out n src decode_case) b"

definition sol_buffer_insert_from_base16 where
  "sol_buffer_insert_from_base16 l pos src decode_case b =
     insert_coded l pos src (sol_util_base16_calculate_decoded_len src)
       (\<lambda>out n. sol_util_base16_decode out n src decode_case) b"

section \<open>Handing the block over\<close>

text \<open>\<^verbatim>\<open>sol_util_memdup\<close>: \<open>Some None\<close> is the NULL of a failed allocation.\<close>

definition sol_util_memdup :: "byte libc \<Rightarrow> byte list option \<Rightarrow> nat \<Rightarrow> byte list option option" where
  "sol_util_memdup l data len =
     (if \<not> alloc_ok l len then Some None
      else if len = 0 then Some (Some [])
      else do { blk \<leftarrow> data; xs \<leftarrow> mem_read 0 len blk; Some (Some xs) })"

definition sol_buffer_steal :: "sol_buffer \<Rightarrow> (byte list option \<times> nat) \<times> sol_buffer" where
  "sol_buffer_steal b =
     (if has_flag SOL_BUFFER_FLAGS_NO_FREE b then ((None, 0), b)
      else ((bdata b, bused b), b\<lparr>bdata := None, bused := 0, bcapacity := 0\<rparr>))"

definition sol_buffer_steal_or_copy ::
    "byte libc \<Rightarrow> sol_buffer \<Rightarrow> ((byte list option \<times> nat) \<times> sol_buffer) option" where
  "sol_buffer_steal_or_copy l b =
     (let ((r, n), b) = sol_buffer_steal b
      in case r of Some blk \<Rightarrow> Some ((r, n), b)
         | None \<Rightarrow> do {
             r \<leftarrow> sol_util_memdup l (bdata b) (bused b + nul_byte_size b);
             Some (case r of None \<Rightarrow> ((None, n), b) | Some blk \<Rightarrow> ((Some blk, bused b), b))
           })"

text \<open>\<open>Some None\<close> is the NULL result; the struct itself is obtained from \<^verbatim>\<open>malloc\<close>, too.\<close>

definition sol_buffer_copy :: "byte libc \<Rightarrow> nat \<Rightarrow> sol_buffer \<Rightarrow> sol_buffer option option" where
  "sol_buffer_copy l struct_size b =
     (if \<not> alloc_ok l struct_size then Some None
      else do {
        data \<leftarrow> sol_util_memdup l (bdata b) (bused b + nul_byte_size b);
        Some (case data of None \<Rightarrow> None
          | Some blk \<Rightarrow> Some (b\<lparr>bdata := Some blk, bflags := bflags b AND NOT SOL_BUFFER_FLAGS_NO_FREE,
                               breleased := []\<rparr>))
      })"

section \<open>The invariant\<close>

definition all_zero :: "byte list \<Rightarrow> bool" where
  "all_zero xs \<longleftrightarrow> list_all (\<lambda>x. x = 0) xs"

text \<open>
  The used bytes lie inside the capacity, the capacity is the size of the block (0 for NULL), no
  object is larger than half of the address space, and under \<^verbatim>\<open>SOL_BUFFER_FLAGS_CLEAR_MEMORY\<close> every
  block that was given back was zeroed before.
\<close>

definition buf_wf :: "sol_buffer \<Rightarrow> bool" where
  "buf_wf b \<longleftrightarrow> bused b \<le> bcapacity b \<and> length (buf_mem b) = bcapacity b \<and> bcapacity b \<le> SSIZE_MAX
     \<and> (has_flag SOL_BUFFER_FLAGS_CLEAR_MEMORY b \<longrightarrow> list_all all_zero (breleased b))"

text \<open>
  What the operations guarantee about termination: the byte behind the used ones is NUL, or the
  last used byte is.
\<close>

definition buf_terminated :: "sol_buffer \<Rightarrow> bool" where
  "buf_terminated b \<longleftrightarrow> SOL_BUFFER_NEEDS_NUL_BYTE b \<longrightarrow>
     (0 < bused b \<and> buf_mem b ! (bused b - 1) = 0) \<or> (bused b < bcapacity b \<and> buf_mem b ! bused b = 0)"

definition with_mem :: "byte list \<Rightarrow> sol_buffer \<Rightarrow> sol_buffer" where
  "with_mem m b = b\<lparr>bdata := (case bdata b of None \<Rightarrow> None | Some _ \<Rightarrow> Some m)\<rparr>"

lemma with_mem_simps [simp]:
  "bcapacity (with_mem m b) = bcapacity b" "bused (with_mem m b) = bused b"
  "bflags (with_mem m b) = bflags b" "breleased (with_mem m b) = breleased b"
  "with_mem (buf_mem b) b = b" "with_mem m (b\<lparr>bused := u\<rparr>) = (with_mem m b)\<lparr>bused := u\<rparr>"
  "with_mem m (with_mem m' b) = with_mem m b"
  by (cases "bdata b"; simp add: with_mem_def buf_mem_def)+

lemma with_mem_same_used [simp]: "(with_mem m b)\<lparr>bused := bused b\<rparr> = with_mem m b"
  by (cases b) (simp add: with_mem_def)

lemma buf_mem_with_mem [simp]: "length m = length (buf_mem b) \<Longrightarrow> buf_mem (with_mem m b) = m"
  by (cases "bdata b") (simp_all add: with_mem_def buf_mem_def)

lemma buf_mem_update [simp]:
  "buf_mem (b\<lparr>bused := u\<rparr>) = buf_mem b" "buf_mem (b\<lparr>bcapacity := u\<rparr>) = buf_mem b"
  "buf_mem (b\<lparr>breleased := u'\<rparr>) = buf_mem b"
  by (simp_all add: buf_mem_def)

lemma flag_cong:
  "bflags b' = bflags b \<Longrightarrow> has_flag f b' = has_flag f b"
  "bflags b' = bflags b \<Longrightarrow> nul_byte_size b' = nul_byte_size b"
  "bflags b' = bflags b \<Longrightarrow> SOL_BUFFER_NEEDS_NUL_BYTE b' = SOL_BUFFER_NEEDS_NUL_BYTE b"
  by (simp_all add: has_flag_def nul_byte_size_def SOL_BUFFER_NEEDS_NUL_BYTE_def)

lemma flag_simps [simp]:
  "has_flag f (with_mem m b) = has_flag f b" "has_flag f (b\<lparr>bused := u\<rparr>) = has_flag f b"
  "has_flag f (b\<lparr>bdata := d\<rparr>) = has_flag f b" "has_flag f (b\<lparr>bcapacity := c\<rparr>) = has_flag f b"
  "nul_byte_size (with_mem m b) = nul_byte_size b" "nul_byte_size (b\<lparr>bused := u\<rparr>) = nul_byte_size b"
  "SOL_BUFFER_NEEDS_NUL_BYTE (with_mem m b) = SOL_BUFFER_NEEDS_NUL_BYTE b"
  "SOL_BUFFER_NEEDS_NUL_BYTE (b\<lparr>bused := u\<rparr>) = SOL_BUFFER_NEEDS_NUL_BYTE b"
  by (rule flag_cong; simp)+

lemma needs_nul_size: "SOL_BUFFER_NEEDS_NUL_BYTE b \<longleftrightarrow> nul_byte_size b = 1" "nul_byte_size b \<le> 1"
  by (simp_all add: SOL_BUFFER_NEEDS_NUL_BYTE_def nul_byte_size_def)

subsection \<open>Accesses that stay inside the block\<close>

lemma buf_write_Some [mem_simps]:
  "off + length xs \<le> length (buf_mem b) \<Longrightarrow>
     buf_write off xs b = Some (with_mem (take off (buf_mem b) @ xs @ drop (off + length xs) (buf_mem b)) b)"
  by (cases "bdata b") (auto simp: buf_write_def with_mem_def buf_mem_def mem_simps)

lemma buf_move_Some [mem_simps]:
  "dst + n \<le> length (buf_mem b) \<Longrightarrow> src + n \<le> length (buf_mem b) \<Longrightarrow>
     buf_move dst src n b =
       Some (with_mem (take dst (buf_mem b) @ take n (drop src (buf_mem b)) @ drop (dst + n) (buf_mem b)) b)"
  by (cases "bdata b") (auto simp: buf_move_def with_mem_def buf_mem_def mem_simps)

lemma buf_move_none [simp]: "buf_move dst src 0 b = Some b"
  by (simp add: buf_move_def)

lemma buf_get_Some [mem_simps]: "i < length (buf_mem b) \<Longrightarrow> buf_get i b = Some (buf_mem b ! i)"
  by (cases "bdata b") (simp_all add: buf_get_def buf_mem_def mem_simps)

lemma buf_clear_Some:
  "length (buf_mem b) = bcapacity b \<Longrightarrow> buf_clear b = Some (with_mem (replicate (bcapacity b) 0) b)"
  by (simp add: buf_clear_def mem_simps)

lemma buf_release_simps [simp]:
  "bused (buf_release d b) = bused b" "bcapacity (buf_release d b) = bcapacity b"
  "bflags (buf_release d b) = bflags b" "bdata (buf_release d b) = bdata b"
  by (simp_all add: buf_release_def split: option.splits)

lemma all_zero_replicate [simp]: "all_zero (replicate n 0)"
  by (simp add: all_zero_def list_all_iff)

lemma released_clear:
  "list_all all_zero (breleased b) \<Longrightarrow>
     list_all all_zero (breleased (buf_release (bdata (with_mem (replicate n 0) b)) (with_mem (replicate n 0) b)))"
  by (cases "bdata b") (simp_all add: buf_release_def with_mem_def)

subsection \<open>Resizing\<close>

lemma secure_realloc_ok:
  assumes "buf_wf b" and "n \<noteq> 0" and "alloc_ok l n"
  obtains blk b1 where "secure_realloc l n b = Some (Some blk, b1)" and "length blk = n"
    and "take (min n (bcapacity b)) blk = take n (buf_mem b)"
    and "bused b1 = bused b" "bflags b1 = bflags b"
    and "list_all all_zero (breleased b) \<Longrightarrow> list_all all_zero (breleased b1)"
proof (cases "bdata b")
  case None
  then show ?thesis
    using assms that [of "map (fresh l) [0..<n]" b] by (simp add: secure_realloc_def buf_wf_def buf_mem_def)
next
  case (Some old)
  let ?b1 = "buf_release (bdata (with_mem (replicate (bcapacity b) 0) b)) (with_mem (replicate (bcapacity b) 0) b)"
  let ?k = "min n (bcapacity b)"
  have len: "length old = bcapacity b" using assms(1) Some by (simp add: buf_wf_def buf_mem_def)
  then have r: "secure_realloc l n b =
      Some (Some (take ?k old @ drop ?k (map (fresh l) [0..<n])), ?b1)"
    using assms Some buf_clear_Some [of b]
    by (simp add: secure_realloc_def mem_simps buf_wf_def min_def)
  show ?thesis
    by (rule that [OF r]) (use len Some in \<open>auto simp: min_def buf_mem_def intro: released_clear\<close>)
qed

lemma buf_realloc_ok:
  assumes "n \<noteq> 0" and "alloc_ok l n"
  obtains blk b1 where "buf_realloc l n b = (Some blk, b1)" and "length blk = n"
    and "take (min n (length (buf_mem b))) blk = take n (buf_mem b)"
    and "bused b1 = bused b" "bflags b1 = bflags b"
proof (cases "realloc_cells l 1 (buf_mem b) n")
  case (Some blk)
  then have "buf_realloc l n b = (Some blk, buf_release (bdata b) b)" using assms(1) by (simp add: buf_realloc_def)
  then show ?thesis using realloc_cells_SomeD [OF Some] that by simp
qed (use assms in \<open>simp add: realloc_cells_def\<close>)

lemma buf_release_empty [simp]:
  "bdata b = None \<Longrightarrow> buf_release (bdata b) b = b"
  by (simp add: buf_release_def)

lemma sol_buffer_resize_ok:
  assumes wf: "buf_wf b" and l: "alloc_bounded l"
  obtains (ok) b' where "sol_buffer_resize l n b = Some (Inr (), b')" and "buf_wf b'"
      and "bflags b' = bflags b" and "bcapacity b' = n" and "bused b' = min (bused b) n"
      and "take (min n (bcapacity b)) (buf_mem b') = take n (buf_mem b)"
    | (err) e where "sol_buffer_resize l n b = Some (Inl e, b)"
proof -
  note cap = wf [unfolded buf_wf_def]
  consider "has_flag SOL_BUFFER_FLAGS_MEMORY_NOT_OWNED b" | "bcapacity b = n"
    | "\<not> has_flag SOL_BUFFER_FLAGS_MEMORY_NOT_OWNED b" "bcapacity b \<noteq> n" "n = 0"
    | "\<not> has_flag SOL_BUFFER_FLAGS_MEMORY_NOT_OWNED b" "bcapacity b \<noteq> n" "n \<noteq> 0" "\<not> alloc_ok l n"
    | "\<not> has_flag SOL_BUFFER_FLAGS_MEMORY_NOT_OWNED b" "bcapacity b \<noteq> n" "n \<noteq> 0" "alloc_ok l n"
    by blast
  then show thesis
  proof cases
    case 1
    then show ?thesis by (intro err) (simp add: sol_buffer_resize_def)
  next
    case 2
    then show ?thesis using wf by (cases "has_flag SOL_BUFFER_FLAGS_MEMORY_NOT_OWNED b")
      (auto simp: sol_buffer_resize_def buf_wf_def intro: err ok)
  next
    case 3
    let ?z = "with_mem (replicate (bcapacity b) 0) b"
    let ?b1 = "if has_flag SOL_BUFFER_FLAGS_CLEAR_MEMORY b then buf_release (bdata ?z) ?z else buf_release (bdata b) b"
    let ?b' = "?b1\<lparr>bdata := None, bcapacity := 0, bused := 0\<rparr>"
    have "sol_buffer_resize l n b = Some (Inr (), ?b')"
      using 3 cap buf_clear_Some [of b]
      by (cases "bused b = 0") (simp_all add: sol_buffer_resize_def secure_realloc_def buf_realloc_def Let_def)
    then show ?thesis
      by (rule ok) (use 3 cap released_clear [of b "bcapacity b"] in
          \<open>simp_all add: buf_wf_def buf_mem_def flag_cong(1) [of "buf_release d c" c for d c] SSIZE_MAX_def\<close>)
  next
    case 4
    then show ?thesis
      by (intro err [of ENOMEM]) (simp add: sol_buffer_resize_def secure_realloc_def buf_realloc_def realloc_cells_def)
  next
    case 5
    then have n: "n \<le> SSIZE_MAX" using l by (simp add: alloc_bounded_def)
    obtain blk b1 where r: "(if has_flag SOL_BUFFER_FLAGS_CLEAR_MEMORY b then secure_realloc l n b
        else Some (buf_realloc l n b)) = Some (Some blk, b1)" and blk: "length blk = n"
      "take (min n (bcapacity b)) blk = take n (buf_mem b)" and b1: "bused b1 = bused b" "bflags b1 = bflags b"
      and rel: "has_flag SOL_BUFFER_FLAGS_CLEAR_MEMORY b \<Longrightarrow> list_all all_zero (breleased b1)"
    proof (cases "has_flag SOL_BUFFER_FLAGS_CLEAR_MEMORY b")
      case True
      obtain blk b1 where "secure_realloc l n b = Some (Some blk, b1)" "length blk = n"
        "take (min n (bcapacity b)) blk = take n (buf_mem b)" "bused b1 = bused b" "bflags b1 = bflags b"
        "list_all all_zero (breleased b) \<Longrightarrow> list_all all_zero (breleased b1)"
        by (rule secure_realloc_ok [OF wf 5(3,4)]) blast
      with True cap that show ?thesis by simp
    next
      case False
      obtain blk b1 where "buf_realloc l n b = (Some blk, b1)" "length blk = n"
        "take (min n (length (buf_mem b))) blk = take n (buf_mem b)" "bused b1 = bused b" "bflags b1 = bflags b"
        by (rule buf_realloc_ok [OF 5(3,4), of b]) blast
      with False cap that show ?thesis by simp
    qed
    let ?b' = "b1\<lparr>bdata := Some blk, bcapacity := n, bused := min (bused b) n\<rparr>"
    have "sol_buffer_resize l n b = Some (Inr (), ?b')"
      using 5 r b1 by (simp add: sol_buffer_resize_def min_def)
    then show ?thesis
      by (rule ok) (use blk b1 rel n in \<open>simp_all add: buf_wf_def buf_mem_def has_flag_def\<close>)
  qed
qed

text \<open>With room for \<open>n\<close> bytes and the terminator, or unchanged.\<close>

lemma sol_buffer_ensure_ok:
  assumes wf: "buf_wf b" and l: "alloc_bounded l"
  obtains (ok) b' where "sol_buffer_ensure l n b = Some (Inr (), b')" and "buf_wf b'"
      and "bflags b' = bflags b" and "bused b' = bused b" and "n + nul_byte_size b \<le> bcapacity b'"
      and "take (bcapacity b) (buf_mem b') = buf_mem b"
    | (err) e where "sol_buffer_ensure l n b = Some (Inl e, b)"
proof -
  let ?m = "n + nul_byte_size b"
  consider "SIZE_MAX - nul_byte_size b \<le> n" | "n < SIZE_MAX - nul_byte_size b" "?m \<le> bcapacity b"
    | "n < SIZE_MAX - nul_byte_size b" "bcapacity b < ?m"
    by linarith
  then show thesis
  proof cases
    case 1
    then show ?thesis by (intro err) (simp add: sol_buffer_ensure_def)
  next
    case 2
    then show ?thesis using wf by (intro ok [of b]) (simp_all add: sol_buffer_ensure_def buf_wf_def Let_def)
  next
    case 3
    then have m: "?m \<le> align_power2_size ?m" by (intro align_power2_size_ge) simp
    have e: "sol_buffer_ensure l n b = do {
        (err, b) \<leftarrow> sol_buffer_resize l (align_power2_size ?m) b;
        Some (if err = Inl EPERM then Inl ENOMEM else err, b) }"
      using 3 by (simp add: sol_buffer_ensure_def Let_def)
    show ?thesis
    proof (rule sol_buffer_resize_ok [OF wf l, of "align_power2_size ?m"])
      fix b'
      assume "sol_buffer_resize l (align_power2_size ?m) b = Some (Inr (), b')" "buf_wf b'"
        "bflags b' = bflags b" "bcapacity b' = align_power2_size ?m"
        "bused b' = min (bused b) (align_power2_size ?m)"
        "take (min (align_power2_size ?m) (bcapacity b)) (buf_mem b') = take (align_power2_size ?m) (buf_mem b)"
      with e 3 m wf show ?thesis by (intro ok [of b']) (simp_all add: buf_wf_def min_def)
    next
      fix x
      assume "sol_buffer_resize l (align_power2_size ?m) b = Some (Inl x, b)"
      with e show ?thesis by (intro err [of "if x = EPERM then ENOMEM else x"]) simp
    qed
  qed
qed

lemma get_slice_prefix:
  "take c (buf_mem b') = buf_mem b \<Longrightarrow> bused b' = bused b \<Longrightarrow> bused b \<le> c \<Longrightarrow> length (buf_mem b) = c \<Longrightarrow>
     sol_buffer_get_slice b' = sol_buffer_get_slice b"
  by (auto simp: sol_buffer_get_slice_def min_def dest: arg_cong [of _ _ "take (bused b)"])

lemma sol_buffer_expand_ok:
  assumes wf: "buf_wf b" and l: "alloc_bounded l" and n: "n \<le> SSIZE_MAX"
  obtains (ok) b' where "sol_buffer_expand l n b = Some (Inr (), b')" and "buf_wf b'"
      and "bflags b' = bflags b" and "bused b' = bused b" and "bused b + n + nul_byte_size b \<le> bcapacity b'"
      and "take (bcapacity b) (buf_mem b') = buf_mem b"
    | (err) e where "sol_buffer_expand l n b = Some (Inl e, b)"
proof -
  note cap = wf [unfolded buf_wf_def]
  let ?av = "bcapacity b - bused b"
  have sum: "n + nul_byte_size b \<le> SIZE_MAX" using n needs_nul_size(2) [of b] SSIZE_MAX_less_SIZE_MAX by linarith
  show thesis
  proof (cases "n + nul_byte_size b \<le> ?av")
    case True
    then have "bused b + n + nul_byte_size b \<le> bcapacity b" using cap by linarith
    with True cap wf sum show ?thesis by (intro ok [of b]) (simp_all add: sol_buffer_expand_def)
  next
    case False
    then have av: "?av \<le> n" using needs_nul_size(2) [of b] by linarith
    have add: "bcapacity b + (n - ?av) = bused b + n" using cap av by simp
    have le: "bused b + n \<le> SIZE_MAX" using cap n by (simp add: SSIZE_MAX_def SIZE_MAX_def)
    have "sol_util_size_add (bcapacity b) (n - ?av) = Inr (bused b + n)"
      using cap n le unfolding add [symmetric]
      by (subst sol_util_size_add_exact) (simp_all add: exact_nat_def SSIZE_MAX_def SIZE_MAX_def)
    then have e: "sol_buffer_expand l n b = sol_buffer_ensure l (bused b + n) b"
      using False sum cap av by (simp add: sol_buffer_expand_def)
    show ?thesis
      by (rule sol_buffer_ensure_ok [OF wf l, of "bused b + n"]) (auto simp: e intro: ok err)
  qed
qed

section \<open>The operations refine list operations\<close>

text \<open>
  \<open>buf_refines b res xs\<close>: the call stayed inside its memory, kept the invariant and the flags, and
  either failed with the contents as they were or succeeded, with contents \<open>xs\<close> and a terminator.
\<close>

definition buf_refines :: "sol_buffer \<Rightarrow> buffer_result \<Rightarrow> byte list \<Rightarrow> bool" where
  "buf_refines b res xs \<longleftrightarrow> (case res of None \<Rightarrow> False
     | Some (r, b') \<Rightarrow> buf_wf b' \<and> bflags b' = bflags b \<and>
         (case r of Inl _ \<Rightarrow> sol_buffer_get_slice b' = sol_buffer_get_slice b
          | Inr _ \<Rightarrow> sol_buffer_get_slice b' = xs \<and> buf_terminated b'))"

lemma buf_refines_Inr [wf_intros]:
  "res = Some (Inr (), b') \<Longrightarrow> buf_wf b' \<Longrightarrow> bflags b' = bflags b \<Longrightarrow> sol_buffer_get_slice b' = xs \<Longrightarrow>
     buf_terminated b' \<Longrightarrow> buf_refines b res xs"
  by (simp add: buf_refines_def)

lemma buf_refines_Inl [wf_intros]: "buf_wf b \<Longrightarrow> res = Some (Inl e, b) \<Longrightarrow> buf_refines b res xs"
  by (simp add: buf_refines_def)

lemma buf_refines_cong:
  assumes "buf_refines b1 res xs" and "bflags b1 = bflags b" and "sol_buffer_get_slice b1 = sol_buffer_get_slice b"
  shows "buf_refines b res xs"
  using assms by (auto simp: buf_refines_def split: option.splits sum.splits)

lemma buf_wf_with:
  "buf_wf b \<Longrightarrow> length m = bcapacity b \<Longrightarrow> u \<le> bcapacity b \<Longrightarrow> buf_wf ((with_mem m b)\<lparr>bused := u\<rparr>)"
  by (simp add: buf_wf_def)

lemma buf_wf_mem: "buf_wf b \<Longrightarrow> length (buf_mem b) = bcapacity b"
  by (simp add: buf_wf_def)

lemma length_get_slice: "buf_wf b \<Longrightarrow> length (sol_buffer_get_slice b) = bused b"
  by (simp add: buf_wf_def sol_buffer_get_slice_def)

subsection \<open>Terminating\<close>

definition ends_in_nul :: "sol_buffer \<Rightarrow> bool" where
  "ends_in_nul b \<longleftrightarrow> 0 < bused b \<and> buf_mem b ! (bused b - 1) = 0"

lemma terminate_cases:
  assumes wf: "buf_wf b"
  shows "\<not> SOL_BUFFER_NEEDS_NUL_BYTE b \<Longrightarrow> terminate_buffer l b = Some (Inr (), b)"
    and "SOL_BUFFER_NEEDS_NUL_BYTE b \<Longrightarrow> ends_in_nul b \<Longrightarrow> terminate_buffer l b = Some (Inr (), b)"
    and "SOL_BUFFER_NEEDS_NUL_BYTE b \<Longrightarrow> \<not> ends_in_nul b \<Longrightarrow> terminate_buffer l b = do {
        (err, b) \<leftarrow> sol_buffer_ensure l (bused b) b;
        (case err of Inl _ \<Rightarrow> Some (Inl ENOMEM, b)
         | Inr _ \<Rightarrow> do { b \<leftarrow> buf_write (bused b) [0] b; Some (Inr (), b) }) }"
proof -
  note cap = wf [unfolded buf_wf_def]
  have small: "bused b < SIZE_MAX - 1" using cap by (simp add: SSIZE_MAX_def SIZE_MAX_def)
  have last: "0 < bused b \<Longrightarrow> buf_get (bused b - 1) b = Some (buf_mem b ! (bused b - 1))"
    using cap by (intro buf_get_Some) linarith
  note defs = terminate_buffer_def sol_buffer_ensure_nul_byte_def SOL_BUFFER_NEEDS_NUL_BYTE_def ends_in_nul_def
  show "\<not> SOL_BUFFER_NEEDS_NUL_BYTE b \<Longrightarrow> terminate_buffer l b = Some (Inr (), b)"
    by (simp add: terminate_buffer_def)
  show "SOL_BUFFER_NEEDS_NUL_BYTE b \<Longrightarrow> ends_in_nul b \<Longrightarrow> terminate_buffer l b = Some (Inr (), b)"
    using last by (simp add: defs)
  show "SOL_BUFFER_NEEDS_NUL_BYTE b \<Longrightarrow> \<not> ends_in_nul b \<Longrightarrow> terminate_buffer l b = do {
        (err, b) \<leftarrow> sol_buffer_ensure l (bused b) b;
        (case err of Inl _ \<Rightarrow> Some (Inl ENOMEM, b)
         | Inr _ \<Rightarrow> do { b \<leftarrow> buf_write (bused b) [0] b; Some (Inr (), b) }) }"
    using last small by (cases "bused b = 0") (auto simp: defs)
qed

lemma buf_terminated_cases:
  "\<not> SOL_BUFFER_NEEDS_NUL_BYTE b \<Longrightarrow> buf_terminated b" "ends_in_nul b \<Longrightarrow> buf_terminated b"
  by (simp_all add: buf_terminated_def ends_in_nul_def)

lemma put_terminator:
  assumes wf: "buf_wf b" and room: "bused b < bcapacity b"
  obtains b' where "buf_write (bused b) [0] b = Some b'" and "buf_wf b'" and "bflags b' = bflags b"
    and "bused b' = bused b" and "sol_buffer_get_slice b' = sol_buffer_get_slice b" and "buf_terminated b'"
    and "bcapacity b' = bcapacity b"
proof -
  let ?m = "take (bused b) (buf_mem b) @ [0] @ drop (bused b + 1) (buf_mem b)"
  have len: "length ?m = bcapacity b" using room by (simp add: buf_wf_mem [OF wf])
  show thesis
    by (rule that [of "with_mem ?m b"])
      (use len room buf_wf_with [OF wf len, of "bused b"] in
        \<open>simp_all add: buf_write_Some sol_buffer_get_slice_def buf_terminated_def nth_append buf_wf_mem [OF wf] buf_wf_def\<close>)
qed

lemma terminate_room:
  assumes wf: "buf_wf b" and room: "bused b + nul_byte_size b \<le> bcapacity b"
  obtains b' where "terminate_buffer l b = Some (Inr (), b')" and "buf_wf b'" and "bflags b' = bflags b"
    and "bused b' = bused b" and "sol_buffer_get_slice b' = sol_buffer_get_slice b" and "buf_terminated b'"
proof (cases "SOL_BUFFER_NEEDS_NUL_BYTE b \<and> \<not> ends_in_nul b")
  case True
  have n: "nul_byte_size b = 1" using True by (simp add: needs_nul_size)
  have "bused b < SIZE_MAX - 1" using wf by (simp add: buf_wf_def SSIZE_MAX_def SIZE_MAX_def)
  then have ens: "sol_buffer_ensure l (bused b) b = Some (Inr (), b)"
    using room n by (simp add: sol_buffer_ensure_def)
  show thesis
    by (rule put_terminator [OF wf]) (use room n True ens that in \<open>auto simp: terminate_cases(3) [OF wf]\<close>)
next
  case False
  with wf show thesis
    by (cases "SOL_BUFFER_NEEDS_NUL_BYTE b") (auto intro!: that [of b] simp: terminate_cases buf_terminated_cases)
qed

lemma terminate_refines:
  assumes wf: "buf_wf b" and l: "alloc_bounded l"
  shows "buf_refines b (terminate_buffer l b) (sol_buffer_get_slice b)"
proof (cases "SOL_BUFFER_NEEDS_NUL_BYTE b \<and> \<not> ends_in_nul b")
  case True
  note t = terminate_cases(3) [OF wf True [THEN conjunct1] True [THEN conjunct2], of l]
  have n: "nul_byte_size b = 1" using True by (simp add: needs_nul_size)
  show ?thesis
  proof (rule sol_buffer_ensure_ok [OF wf l, of "bused b"])
    fix b1
    assume b1: "sol_buffer_ensure l (bused b) b = Some (Inr (), b1)" "buf_wf b1" "bflags b1 = bflags b"
      "bused b1 = bused b" "bused b + nul_byte_size b \<le> bcapacity b1" "take (bcapacity b) (buf_mem b1) = buf_mem b"
    have "sol_buffer_get_slice b1 = sol_buffer_get_slice b"
      by (rule get_slice_prefix [OF b1(6,4)]) (use wf in \<open>simp_all add: buf_wf_def\<close>)
    moreover have "buf_refines b1 (terminate_buffer l b) (sol_buffer_get_slice b1)"
      by (rule put_terminator [OF b1(2)]) (use b1 n in \<open>auto simp: t intro: buf_refines_Inr\<close>)
    ultimately show ?thesis using b1(3) by (simp add: buf_refines_cong)
  next
    fix e
    assume "sol_buffer_ensure l (bused b) b = Some (Inl e, b)"
    with t wf show ?thesis by (intro buf_refines_Inl) simp_all
  qed
next
  case False
  with wf show ?thesis
    by (cases "SOL_BUFFER_NEEDS_NUL_BYTE b")
      (auto intro!: buf_refines_Inr [of _ b] simp: terminate_cases buf_terminated_cases)
qed

subsection \<open>Making room, then writing\<close>

lemma ensure_then:
  assumes wf: "buf_wf b" and l: "alloc_bounded l"
    and k: "\<And>b1. buf_wf b1 \<Longrightarrow> bflags b1 = bflags b \<Longrightarrow> bused b1 = bused b \<Longrightarrow>
      n + nul_byte_size b1 \<le> bcapacity b1 \<Longrightarrow> sol_buffer_get_slice b1 = sol_buffer_get_slice b \<Longrightarrow>
      buf_refines b1 (k () b1) xs"
  shows "buf_refines b (on_ok (sol_buffer_ensure l n b) k) xs"
proof (rule sol_buffer_ensure_ok [OF wf l, of n])
  fix b1
  assume b1: "sol_buffer_ensure l n b = Some (Inr (), b1)" "buf_wf b1" "bflags b1 = bflags b"
    "bused b1 = bused b" "n + nul_byte_size b \<le> bcapacity b1" "take (bcapacity b) (buf_mem b1) = buf_mem b"
  have "sol_buffer_get_slice b1 = sol_buffer_get_slice b"
    by (rule get_slice_prefix [OF b1(6,4)]) (use wf in \<open>simp_all add: buf_wf_def\<close>)
  with b1 show ?thesis by (auto intro!: buf_refines_cong [OF k] simp: flag_cong(2) [OF b1(3)])
qed (use wf in \<open>auto intro: buf_refines_Inl\<close>)

lemma expand_then:
  assumes wf: "buf_wf b" and l: "alloc_bounded l" and n: "n \<le> SSIZE_MAX"
    and k: "\<And>b1. buf_wf b1 \<Longrightarrow> bflags b1 = bflags b \<Longrightarrow> bused b1 = bused b \<Longrightarrow>
      bused b1 + n + nul_byte_size b1 \<le> bcapacity b1 \<Longrightarrow> sol_buffer_get_slice b1 = sol_buffer_get_slice b \<Longrightarrow>
      buf_refines b1 (k () b1) xs"
  shows "buf_refines b (on_ok (sol_buffer_expand l n b) k) xs"
proof (rule sol_buffer_expand_ok [OF wf l n])
  fix b1
  assume b1: "sol_buffer_expand l n b = Some (Inr (), b1)" "buf_wf b1" "bflags b1 = bflags b"
    "bused b1 = bused b" "bused b + n + nul_byte_size b \<le> bcapacity b1" "take (bcapacity b) (buf_mem b1) = buf_mem b"
  have "sol_buffer_get_slice b1 = sol_buffer_get_slice b"
    by (rule get_slice_prefix [OF b1(6,4)]) (use wf in \<open>simp_all add: buf_wf_def\<close>)
  with b1 show ?thesis by (auto intro!: buf_refines_cong [OF k] simp: flag_cong(2) [OF b1(3)])
qed (use wf in \<open>auto intro: buf_refines_Inl\<close>)

lemma finish_then:
  assumes "buf_wf b" and "length m = bcapacity b" and "u + nul_byte_size b \<le> bcapacity b" and "take u m = xs"
  shows "buf_refines b (terminate_buffer l ((with_mem m b)\<lparr>bused := u\<rparr>)) xs"
proof (rule terminate_room)
  show "buf_wf ((with_mem m b)\<lparr>bused := u\<rparr>)" using assms by (intro buf_wf_with) simp_all
  show "bused ((with_mem m b)\<lparr>bused := u\<rparr>) + nul_byte_size ((with_mem m b)\<lparr>bused := u\<rparr>)
      \<le> bcapacity ((with_mem m b)\<lparr>bused := u\<rparr>)"
    using assms(3) by simp
qed (use assms in \<open>auto intro!: buf_refines_Inr simp: sol_buffer_get_slice_def buf_wf_mem\<close>)

lemma take_write:
  "off + length xs \<le> length m \<Longrightarrow> take (off + length xs) (take off m @ xs @ drop (off + length xs) m) = take off m @ xs"
  by simp

lemma insert_mem:
  fixes m :: "'a list"
  assumes "p \<le> u" and "u + k \<le> length m" and "length bs = k"
  defines "m1 \<equiv> take (p + k) m @ take (u - p) (drop p m) @ drop (u + k) m"
  shows "take (u + k) (take p m1 @ bs @ drop (p + k) m1) = take p (take u m) @ bs @ drop p (take u m)"
proof -
  have "take p m1 = take p m" "drop (p + k) m1 = take (u - p) (drop p m) @ drop (u + k) m"
    using assms(1,2) by (simp_all add: m1_def)
  moreover obtain d where "u = p + d" using assms(1) le_Suc_ex by blast
  ultimately show ?thesis using assms(2,3) by (simp add: drop_take)
qed

lemma sol_buffer_append_bytes_refines:
  assumes wf: "buf_wf b" and l: "alloc_bounded l" and n: "length bs \<le> SSIZE_MAX"
  shows "buf_refines b (sol_buffer_append_bytes l bs b) (sol_buffer_get_slice b @ bs)"
proof (cases "bs = []")
  case True
  then show ?thesis using terminate_refines [OF wf l] by (simp add: sol_buffer_append_bytes_def)
next
  case False
  let ?k = "\<lambda>b1. do {
        b \<leftarrow> buf_write (bused b1) bs b1;
        b \<leftarrow> (if SOL_BUFFER_NEEDS_NUL_BYTE b then buf_write (bused b + length bs) [0] b else Some b);
        Some (Inr (), b\<lparr>bused := bused b + length bs\<rparr>) }"
  have "buf_refines b (on_ok (sol_buffer_expand l (length bs) b) (\<lambda>_. ?k)) (sol_buffer_get_slice b @ bs)"
  proof (rule expand_then [OF wf l n])
    fix b1
    assume b1: "buf_wf b1" "bflags b1 = bflags b" "bused b1 = bused b"
      "bused b1 + length bs + nul_byte_size b1 \<le> bcapacity b1" "sol_buffer_get_slice b1 = sol_buffer_get_slice b"
    let ?m = "take (bused b1) (buf_mem b1) @ bs @ drop (bused b1 + length bs) (buf_mem b1)"
    let ?u = "bused b1 + length bs"
    let ?b2 = "(with_mem ?m b1)\<lparr>bused := ?u\<rparr>"
    note len = buf_wf_mem [OF b1(1)]
    have w: "buf_write (bused b1) bs b1 = Some (with_mem ?m b1)" using b1 by (intro buf_write_Some) (simp add: len)
    have wf2: "buf_wf ?b2" and slice: "sol_buffer_get_slice ?b2 = sol_buffer_get_slice b @ bs"
      using b1 len by (simp_all add: buf_wf_with sol_buffer_get_slice_def [of "b1\<lparr>bused := _\<rparr>" for b1] b1(5) [symmetric])
        (simp add: sol_buffer_get_slice_def)
    show "buf_refines b1 (?k b1) (sol_buffer_get_slice b @ bs)"
    proof (cases "SOL_BUFFER_NEEDS_NUL_BYTE b1")
      case True
      then have "?u < bcapacity b1" using b1(4) by (simp add: needs_nul_size)
      then obtain b3 where b3: "buf_write ?u [0] ?b2 = Some b3" "buf_wf b3" "bflags b3 = bflags b1"
        "bused b3 = ?u" "sol_buffer_get_slice b3 = sol_buffer_get_slice ?b2" "buf_terminated b3"
        using put_terminator [OF wf2] by auto
      then have "?k b1 = Some (Inr (), b3)" using w True b1(4) len needs_nul_size(1) [of b1]
        by (auto simp: buf_write_Some)
      with b3 slice show ?thesis by (intro buf_refines_Inr) auto
    next
      case False
      then have "?k b1 = Some (Inr (), ?b2)" using w by simp
      with False wf2 slice show ?thesis by (intro buf_refines_Inr) (auto simp: buf_terminated_cases)
    qed
  qed
  with False show ?thesis by (simp add: sol_buffer_append_bytes_def)
qed

lemma insert_body_refines:
  assumes wf: "buf_wf b" and l: "alloc_bounded l" and n: "length bs \<le> SSIZE_MAX" and pos: "pos < bused b"
  shows "buf_refines b (on_ok (sol_buffer_expand l (length bs) b) (\<lambda>_ b. do {
      b \<leftarrow> buf_move (pos + length bs) pos (bused b - pos) b;
      b \<leftarrow> buf_write pos bs b;
      terminate_buffer l (b\<lparr>bused := bused b + length bs\<rparr>) }))
    (take pos (sol_buffer_get_slice b) @ bs @ drop pos (sol_buffer_get_slice b))"
proof (rule expand_then [OF wf l n])
  fix b1
  assume b1: "buf_wf b1" "bflags b1 = bflags b" "bused b1 = bused b"
    "bused b1 + length bs + nul_byte_size b1 \<le> bcapacity b1" "sol_buffer_get_slice b1 = sol_buffer_get_slice b"
  note len = buf_wf_mem [OF b1(1)]
  let ?m = "buf_mem b1" and ?u = "bused b1" and ?k = "length bs"
  define m1 where "m1 = take (pos + ?k) ?m @ take (?u - pos) (drop pos ?m) @ drop (?u + ?k) ?m"
  let ?m2 = "take pos m1 @ bs @ drop (pos + ?k) m1"
  have move: "buf_move (pos + ?k) pos (?u - pos) b1 = Some (with_mem m1 b1)"
    using b1(3,4) pos by (subst buf_move_Some) (simp_all add: len add.commute m1_def)
  have l1: "length m1 = bcapacity b1" using b1(3,4) pos by (simp add: len m1_def)
  have room: "pos + ?k \<le> bcapacity b1" using b1(3,4) pos by simp
  have "take (?u + ?k) ?m2 = take pos (take ?u ?m) @ bs @ drop pos (take ?u ?m)"
    unfolding m1_def by (rule insert_mem) (use b1(3,4) pos in \<open>simp_all add: len\<close>)
  then have "buf_refines b1 (terminate_buffer l ((with_mem ?m2 b1)\<lparr>bused := ?u + ?k\<rparr>))
      (take pos (take ?u ?m) @ bs @ drop pos (take ?u ?m))"
    by (intro finish_then [OF b1(1)]) (use b1(4) room l1 in simp_all)
  moreover have "buf_write pos bs (with_mem m1 b1) = Some (with_mem ?m2 b1)"
    using room by (subst buf_write_Some) (simp_all add: len l1)
  ultimately show "buf_refines b1 (do {
      b \<leftarrow> buf_move (pos + ?k) pos (?u - pos) b1;
      b \<leftarrow> buf_write pos bs b;
      terminate_buffer l (b\<lparr>bused := bused b + length bs\<rparr>) })
    (take pos (sol_buffer_get_slice b) @ bs @ drop pos (sol_buffer_get_slice b))"
    unfolding b1(5) [symmetric] unfolding sol_buffer_get_slice_def move by simp
qed

lemma sol_buffer_insert_bytes_refines:
  assumes wf: "buf_wf b" and l: "alloc_bounded l" and n: "length bs \<le> SSIZE_MAX" and pos: "pos \<le> bused b"
  shows "buf_refines b (sol_buffer_insert_bytes l pos bs b)
    (take pos (sol_buffer_get_slice b) @ bs @ drop pos (sol_buffer_get_slice b))"
proof -
  consider "bs = []" | "bs \<noteq> []" "pos = bused b" | "bs \<noteq> []" "pos < bused b" using pos by linarith
  then show ?thesis
  proof cases
    case 1
    then show ?thesis using terminate_refines [OF wf l] pos by (simp add: sol_buffer_insert_bytes_def)
  next
    case 2
    then show ?thesis
      using sol_buffer_append_bytes_refines [OF wf l n] length_get_slice [OF wf] by (simp add: sol_buffer_insert_bytes_def)
  next
    case 3
    then show ?thesis using insert_body_refines [OF wf l n 3(2)] by (simp add: sol_buffer_insert_bytes_def)
  qed
qed

lemma terminate_if:
  "(if nul_byte_size b \<noteq> 0 then sol_buffer_ensure_nul_byte l b else Some (Inr (), b)) = terminate_buffer l b"
  by (simp add: terminate_buffer_def SOL_BUFFER_NEEDS_NUL_BYTE_def nul_byte_size_def)

lemma sol_buffer_append_char_refines:
  assumes wf: "buf_wf b" and l: "alloc_bounded l"
  shows "buf_refines b (sol_buffer_append_char l c b) (sol_buffer_get_slice b @ [c])"
  unfolding sol_buffer_append_char_def Let_def terminate_if
proof (rule expand_then [OF wf l])
  fix b1
  assume b1: "buf_wf b1" "bflags b1 = bflags b" "bused b1 = bused b"
    "bused b1 + 1 + nul_byte_size b1 \<le> bcapacity b1" "sol_buffer_get_slice b1 = sol_buffer_get_slice b"
  note len = buf_wf_mem [OF b1(1)]
  let ?m = "take (bused b1) (buf_mem b1) @ [c] @ drop (bused b1 + 1) (buf_mem b1)"
  have tk: "take (bused b1 + 1) ?m = sol_buffer_get_slice b @ [c]"
    using b1(4) unfolding b1(5) [symmetric] by (simp add: sol_buffer_get_slice_def len)
  have "buf_refines b1 (terminate_buffer l ((with_mem ?m b1)\<lparr>bused := bused b1 + 1\<rparr>)) (sol_buffer_get_slice b @ [c])"
    by (rule finish_then [OF b1(1) _ _ tk]) (use b1(4) in \<open>simp_all add: len\<close>)
  moreover have "buf_write (bused b1) [c] b1 = Some (with_mem ?m b1)"
    using b1(4) by (subst buf_write_Some) (simp_all add: len)
  ultimately show "buf_refines b1 (do { b \<leftarrow> buf_write (bused b1) [c] b1; terminate_buffer l (b\<lparr>bused := bused b + 1\<rparr>) })
      (sol_buffer_get_slice b @ [c])"
    by simp
qed (simp add: SSIZE_MAX_def)

lemma sol_buffer_insert_char_refines:
  assumes wf: "buf_wf b" and l: "alloc_bounded l" and pos: "pos \<le> bused b"
  shows "buf_refines b (sol_buffer_insert_char l pos c b)
    (take pos (sol_buffer_get_slice b) @ [c] @ drop pos (sol_buffer_get_slice b))"
proof (cases "pos = bused b")
  case True
  then show ?thesis
    using sol_buffer_append_char_refines [OF wf l] length_get_slice [OF wf] by (simp add: sol_buffer_insert_char_def)
next
  case False
  then show ?thesis
    using insert_body_refines [OF wf l, of "[c]" pos] pos by (simp add: sol_buffer_insert_char_def SSIZE_MAX_def)
qed

lemma sol_buffer_set_slice_refines:
  assumes wf: "buf_wf b" and l: "alloc_bounded l"
  shows "buf_refines b (sol_buffer_set_slice l bs b) bs"
  unfolding sol_buffer_set_slice_def
proof (rule ensure_then [OF wf l])
  fix b1
  assume b1: "buf_wf b1" "length bs + nul_byte_size b1 \<le> bcapacity b1"
  note len = buf_wf_mem [OF b1(1)]
  let ?m = "take 0 (buf_mem b1) @ bs @ drop (0 + length bs) (buf_mem b1)"
  have "buf_write 0 bs b1 = Some (with_mem ?m b1)" using b1(2) by (intro buf_write_Some) (simp add: len)
  moreover have "buf_refines b1 (terminate_buffer l ((with_mem ?m b1)\<lparr>bused := length bs\<rparr>)) bs"
    by (rule finish_then [OF b1(1)]) (use b1(2) in \<open>simp_all add: len\<close>)
  ultimately show "buf_refines b1 (do { b \<leftarrow> buf_write 0 bs b1; terminate_buffer l (b\<lparr>bused := length bs\<rparr>) }) bs"
    by simp
qed

text \<open>Overwriting from \<open>pos\<close> on; what lies behind the written bytes stays.\<close>

definition overwrite :: "nat \<Rightarrow> 'a list \<Rightarrow> 'a list \<Rightarrow> 'a list" where
  "overwrite pos bs xs = take pos xs @ bs @ drop (pos + length bs) xs"

lemma overwrite_take:
  assumes "pos \<le> u" "u \<le> length m" "pos + length bs \<le> length m"
  shows "take (max u (pos + length bs)) (overwrite pos bs m) = overwrite pos bs (take u m)"
proof (cases "u \<le> pos + length bs")
  case True
  then show ?thesis using assms by (simp add: overwrite_def)
next
  case False
  then obtain d where "u = pos + length bs + d" using le_Suc_ex by (metis nat_le_linear)
  then show ?thesis using assms by (simp add: overwrite_def drop_take)
qed

text \<open>
  Two operations may fail after they have written: the caller then sees an error and the new contents.
\<close>

definition buf_refines_late :: "sol_buffer \<Rightarrow> buffer_result \<Rightarrow> byte list \<Rightarrow> bool" where
  "buf_refines_late b res xs \<longleftrightarrow> (case res of None \<Rightarrow> False
     | Some (r, b') \<Rightarrow> buf_wf b' \<and> bflags b' = bflags b \<and>
         (case r of Inl _ \<Rightarrow> sol_buffer_get_slice b' = sol_buffer_get_slice b \<or> sol_buffer_get_slice b' = xs
          | Inr _ \<Rightarrow> sol_buffer_get_slice b' = xs \<and> buf_terminated b'))"

lemma refines_imp_late: "buf_refines b res xs \<Longrightarrow> buf_refines_late b res xs"
  by (auto simp: buf_refines_def buf_refines_late_def split: option.splits sum.splits)

lemma late_from:
  assumes "buf_refines b1 res xs" and "bflags b1 = bflags b" and "sol_buffer_get_slice b1 = xs"
  shows "buf_refines_late b res xs"
  using assms by (auto simp: buf_refines_def buf_refines_late_def split: option.splits sum.splits)

lemma overwrite_buffer:
  assumes wf: "buf_wf b" and pos: "pos \<le> bused b" and room: "pos + length bs \<le> bcapacity b"
  defines "b2 \<equiv> (with_mem (overwrite pos bs (buf_mem b)) b)\<lparr>bused := max (bused b) (pos + length bs)\<rparr>"
  shows "buf_write pos bs b = Some (with_mem (overwrite pos bs (buf_mem b)) b)"
    and "buf_wf b2" and "sol_buffer_get_slice b2 = overwrite pos bs (sol_buffer_get_slice b)"
proof -
  note cap = wf [unfolded buf_wf_def]
  show "buf_write pos bs b = Some (with_mem (overwrite pos bs (buf_mem b)) b)"
    using room cap by (simp add: buf_write_Some overwrite_def)
  have len: "length (overwrite pos bs (buf_mem b)) = bcapacity b"
    using room cap by (simp add: overwrite_def)
  show "buf_wf b2" unfolding b2_def by (rule buf_wf_with [OF wf len]) (use room cap in simp)
  have "take (max (bused b) (pos + length bs)) (overwrite pos bs (buf_mem b)) =
      overwrite pos bs (take (bused b) (buf_mem b))"
    by (rule overwrite_take) (use pos room cap in simp_all)
  then show "sol_buffer_get_slice b2 = overwrite pos bs (sol_buffer_get_slice b)"
    using len cap by (simp add: b2_def sol_buffer_get_slice_def)
qed

lemma sol_buffer_set_char_at_refines:
  assumes wf: "buf_wf b" and l: "alloc_bounded l" and pos: "pos \<le> bused b"
  shows "buf_refines_late b (sol_buffer_set_char_at l pos c b) (overwrite pos [c] (sol_buffer_get_slice b))"
proof (cases "1 \<ge> size_minus (SIZE_MAX - nul_byte_size b) pos")
  case True
  then show ?thesis using wf pos
    by (intro refines_imp_late buf_refines_Inl) (simp_all add: sol_buffer_set_char_at_def)
next
  case False
  have r: "sol_buffer_set_char_at l pos c b = on_ok (sol_buffer_ensure l (pos + 1) b) (\<lambda>_ b'. do {
      b' \<leftarrow> buf_write pos [c] b';
      let b' = (if pos + 1 \<ge> bused b' then b'\<lparr>bused := pos + 1\<rparr> else b');
      (if nul_byte_size b \<noteq> 0 then sol_buffer_ensure_nul_byte l b' else Some (Inr (), b')) })"
    using False pos by (simp add: sol_buffer_set_char_at_def Let_def)
  show ?thesis
  proof (rule sol_buffer_ensure_ok [OF wf l, of "pos + 1"])
    fix b1
    assume b1: "sol_buffer_ensure l (pos + 1) b = Some (Inr (), b1)" "buf_wf b1" "bflags b1 = bflags b"
      "bused b1 = bused b" "pos + 1 + nul_byte_size b \<le> bcapacity b1" "take (bcapacity b) (buf_mem b1) = buf_mem b"
    have slice: "sol_buffer_get_slice b1 = sol_buffer_get_slice b"
      by (rule get_slice_prefix [OF b1(6,4)]) (use wf in \<open>simp_all add: buf_wf_def\<close>)
    let ?b2 = "(with_mem (overwrite pos [c] (buf_mem b1)) b1)\<lparr>bused := max (bused b1) (pos + length [c])\<rparr>"
    note w = overwrite_buffer [OF b1(2), of pos "[c]"]
    have b2: "buf_wf ?b2" "sol_buffer_get_slice ?b2 = overwrite pos [c] (sol_buffer_get_slice b)"
      "buf_write pos [c] b1 = Some (with_mem (overwrite pos [c] (buf_mem b1)) b1)"
      using w b1(4,5) pos slice by simp_all
    have upd: "(if pos + 1 \<ge> bused b1 then B\<lparr>bused := pos + 1\<rparr> else B) = B\<lparr>bused := max (bused b1) (pos + length [c])\<rparr>"
      if "bused B = bused b1" for B
      using that by (cases "pos + 1 \<ge> bused b1") (simp_all add: max_def)
    have "sol_buffer_set_char_at l pos c b = terminate_buffer l ?b2"
      unfolding r b1(1) on_ok_simps b2(3) bind.bind_lunit Let_def
      using upd [of "with_mem (overwrite pos [c] (buf_mem b1)) b1"]
      by (simp add: terminate_if [symmetric] flag_cong(2) [OF b1(3)])
    with terminate_refines [OF b2(1) l] b2(2) b1(3) show ?thesis
      by (intro late_from [of ?b2]) simp_all
  next
    fix e
    assume "sol_buffer_ensure l (pos + 1) b = Some (Inl e, b)"
    with r wf show ?thesis by (intro refines_imp_late buf_refines_Inl) simp_all
  qed
qed

lemma buf_terminated_overwrite:
  assumes wf: "buf_wf b" "buf_wf b1" and t: "buf_terminated b" and b1: "bflags b1 = bflags b" "bused b1 = bused b"
    and m: "take (bcapacity b) (buf_mem b1) = buf_mem b" and behind: "pos + length bs < bused b"
  shows "buf_terminated (with_mem (overwrite pos bs (buf_mem b1)) b1)"
proof -
  note cap = wf [unfolded buf_wf_def]
  have le: "bcapacity b \<le> bcapacity b1" using arg_cong [OF m, of length] cap by simp
  have len: "length (overwrite pos bs (buf_mem b1)) = length (buf_mem b1)"
    using cap le behind by (simp add: overwrite_def)
  have same: "overwrite pos bs (buf_mem b1) ! i = buf_mem b ! i" if "pos + length bs \<le> i" "i < bcapacity b" for i
  proof -
    have "overwrite pos bs (buf_mem b1) ! i = buf_mem b1 ! i"
      using that cap le behind by (auto simp: overwrite_def nth_append)
    also have "\<dots> = buf_mem b ! i" using that(2) arg_cong [OF m, of "\<lambda>xs. xs ! i"] by simp
    finally show ?thesis .
  qed
  have last: "overwrite pos bs (buf_mem b1) ! (bused b - 1) = buf_mem b ! (bused b - 1)"
    by (rule same) (use cap behind in linarith)+
  have next_byte: "overwrite pos bs (buf_mem b1) ! bused b = buf_mem b ! bused b" if "bused b < bcapacity b"
    by (rule same) (use that behind in linarith)+
  show ?thesis
    using t last next_byte le b1 len
    by (cases "bused b < bcapacity b") (simp_all add: buf_terminated_def flag_cong(3) [OF b1(1)])
qed

lemma sol_buffer_set_slice_at_ok:
  assumes wf: "buf_wf b" and l: "alloc_bounded l" and pos: "pos \<le> bused b"
  obtains (ok) b' where "sol_buffer_set_slice_at l pos bs b = Some (Inr (), b')" and "buf_wf b'"
      and "bflags b' = bflags b" and "sol_buffer_get_slice b' = overwrite pos bs (sol_buffer_get_slice b)"
      and "buf_terminated b \<Longrightarrow> buf_terminated b'"
    | (err) e where "sol_buffer_set_slice_at l pos bs b = Some (Inl e, b)"
proof -
  consider "bs = []" | "bs \<noteq> []" "length bs \<ge> size_minus (SIZE_MAX - nul_byte_size b) pos"
    | "bs \<noteq> []" "\<not> length bs \<ge> size_minus (SIZE_MAX - nul_byte_size b) pos" by blast
  then show ?thesis
  proof cases
    case 1
    then show ?thesis using wf
      by (intro ok [of b]) (simp_all add: sol_buffer_set_slice_at_def overwrite_def)
  next
    case 2
    then show ?thesis using pos by (intro err) (simp add: sol_buffer_set_slice_at_def)
  next
    case 3
    let ?k = "\<lambda>b'. do {
             b' \<leftarrow> buf_write pos bs b';
             (if pos + length bs \<ge> bused b' then do {
                let b' = b'\<lparr>bused := pos + length bs\<rparr>;
                b' \<leftarrow> (if nul_byte_size b \<noteq> 0 then buf_write (bused b') [0] b' else Some b');
                Some (Inr (), b')
              } else Some (Inr (), b')) }"
    have r: "sol_buffer_set_slice_at l pos bs b = on_ok (sol_buffer_ensure l (pos + length bs) b) (\<lambda>_. ?k)"
      using 3 pos by (simp add: sol_buffer_set_slice_at_def Let_def)
    show ?thesis
    proof (rule sol_buffer_ensure_ok [OF wf l, of "pos + length bs"])
      fix b1
      assume b1: "sol_buffer_ensure l (pos + length bs) b = Some (Inr (), b1)" "buf_wf b1" "bflags b1 = bflags b"
        "bused b1 = bused b" "pos + length bs + nul_byte_size b \<le> bcapacity b1"
        "take (bcapacity b) (buf_mem b1) = buf_mem b"
      have slice: "sol_buffer_get_slice b1 = sol_buffer_get_slice b"
        by (rule get_slice_prefix [OF b1(6,4)]) (use wf in \<open>simp_all add: buf_wf_def\<close>)
      let ?w = "with_mem (overwrite pos bs (buf_mem b1)) b1"
      let ?b2 = "?w\<lparr>bused := max (bused b1) (pos + length bs)\<rparr>"
      note w = overwrite_buffer [OF b1(2), of pos "bs"]
      have b2: "buf_wf ?b2" "sol_buffer_get_slice ?b2 = overwrite pos bs (sol_buffer_get_slice b)"
        "buf_write pos bs b1 = Some ?w"
        using w b1(4,5) pos slice by simp_all
      show ?thesis
      proof (cases "pos + length bs \<ge> bused b1")
        case True
        then have k: "sol_buffer_set_slice_at l pos bs b = do {
            b' \<leftarrow> (if nul_byte_size b \<noteq> 0 then buf_write (bused ?b2) [0] ?b2 else Some ?b2); Some (Inr (), b') }"
          unfolding r b1(1) on_ok_simps b2(3) by (simp add: max_def Let_def)
        obtain b3 where "sol_buffer_set_slice_at l pos bs b = Some (Inr (), b3)" "buf_wf b3" "bflags b3 = bflags ?b2"
          "sol_buffer_get_slice b3 = sol_buffer_get_slice ?b2" "buf_terminated b3"
        proof (cases "nul_byte_size b = 0")
          case True
          then have "\<not> SOL_BUFFER_NEEDS_NUL_BYTE ?b2" by (simp add: needs_nul_size flag_cong [OF b1(3)])
          with True k b2(1) buf_terminated_cases(1) show ?thesis by (intro that [of ?b2]) simp_all
        next
          case False
          then have room: "bused ?b2 < bcapacity ?b2" using b1(5) True by simp
          show ?thesis
            by (rule put_terminator [OF b2(1) room]) (use k False that in auto)
        qed
        with b1(3) b2(2) show ?thesis by (intro ok [of b3]) simp_all
      next
        case False
        then have k: "sol_buffer_set_slice_at l pos bs b = Some (Inr (), ?w)"
          unfolding r b1(1) on_ok_simps b2(3) by simp
        have m: "max (bused b1) (pos + length bs) = bused b1" using False by simp
        have t: "buf_terminated ?w" if "buf_terminated b"
          by (rule buf_terminated_overwrite [OF wf b1(2) that b1(3,4,6)]) (use False b1(4) in simp)
        show ?thesis
          by (rule ok [OF k]) (use b2(1,2) b1(3) m t in simp_all)
      qed
    next
      fix e
      assume "sol_buffer_ensure l (pos + length bs) b = Some (Inl e, b)"
      with r show ?thesis by (intro err) simp
    qed
  qed
qed

lemma sol_buffer_set_slice_at_refines:
  assumes wf: "buf_wf b" and l: "alloc_bounded l" and pos: "pos \<le> bused b" and t: "buf_terminated b"
  shows "buf_refines b (sol_buffer_set_slice_at l pos bs b) (overwrite pos bs (sol_buffer_get_slice b))"
  by (rule sol_buffer_set_slice_at_ok [OF wf l pos, of bs]) (use wf t in \<open>auto intro: wf_intros\<close>)

subsection \<open>Removing\<close>

lemma get_slice_resized:
  assumes "take (min n (bcapacity b)) (buf_mem b') = take n (buf_mem b)" and "bused b' = min (bused b) n"
    and "bused b \<le> n" and "buf_wf b"
  shows "sol_buffer_get_slice b' = sol_buffer_get_slice b"
proof -
  have u: "bused b \<le> min n (bcapacity b)" using assms(3,4) by (simp add: buf_wf_def)
  have "take (bused b) (buf_mem b') = take (bused b) (take (min n (bcapacity b)) (buf_mem b'))"
    using u by (simp add: min_absorb1)
  also have "\<dots> = take (bused b) (buf_mem b)" using assms(1,3) by (simp add: min_absorb1)
  finally show ?thesis using assms(2,3) by (simp add: sol_buffer_get_slice_def)
qed

lemma shrink_refines:
  assumes wf: "buf_wf b2" and l: "alloc_bounded l" and xs: "sol_buffer_get_slice b2 = xs" and fl: "bflags b2 = bflags b"
  shows "buf_refines_late b (on_ok (if has_flag SOL_BUFFER_FLAGS_MEMORY_NOT_OWNED b2 then Some (Inr (), b2)
      else sol_buffer_resize l (align_power2_size (bused b2 + nul_byte_size b2)) b2) (\<lambda>_ b. terminate_buffer l b)) xs"
proof (cases "has_flag SOL_BUFFER_FLAGS_MEMORY_NOT_OWNED b2")
  case True
  then show ?thesis using late_from [OF terminate_refines [OF wf l]] xs fl by simp
next
  case False
  let ?n = "align_power2_size (bused b2 + nul_byte_size b2)"
  note cap = wf [unfolded buf_wf_def]
  have n: "bused b2 + nul_byte_size b2 \<le> ?n"
    using cap needs_nul_size(2) [of b2] by (intro align_power2_size_ge) (simp add: SSIZE_MAX_def SIZE_MAX_def)
  show ?thesis
  proof (rule sol_buffer_resize_ok [OF wf l, of ?n])
    fix b3
    assume b3: "sol_buffer_resize l ?n b2 = Some (Inr (), b3)" "buf_wf b3" "bflags b3 = bflags b2" "bcapacity b3 = ?n"
      "bused b3 = min (bused b2) ?n" "take (min ?n (bcapacity b2)) (buf_mem b3) = take ?n (buf_mem b2)"
    have "sol_buffer_get_slice b3 = xs" using get_slice_resized [OF b3(6,5) _ wf] n xs by simp
    then show ?thesis using late_from [OF terminate_refines [OF b3(2) l]] b3(1,3) fl False by simp
  next
    fix e
    assume "sol_buffer_resize l ?n b2 = Some (Inl e, b2)"
    with False wf xs fl show ?thesis by (simp add: buf_refines_late_def)
  qed
qed

lemma sol_buffer_remove_data_refines:
  assumes wf: "buf_wf b" and l: "alloc_bounded l" and off: "off \<le> bused b" and n: "off + n \<le> SIZE_MAX"
  shows "buf_refines_late b (sol_buffer_remove_data l off n b)
    (take off (sol_buffer_get_slice b) @ drop (off + n) (sol_buffer_get_slice b))"
proof -
  note cap = wf [unfolded buf_wf_def]
  have add: "sol_util_size_add n off = Inr (off + n)"
    using n by (simp add: sol_util_size_add_exact exact_nat_def add.commute)
  let ?n = "if off + n \<le> bused b then n else bused b - off"
  let ?m = "take off (buf_mem b) @ take (bused b - ?n - off) (drop (off + n) (buf_mem b))
      @ drop (off + (bused b - ?n - off)) (buf_mem b)"
  let ?b1 = "with_mem ?m b"
  have mv: "(if bused b \<noteq> off + n then buf_move off (off + n) (bused b - ?n - off) b else Some b) = Some ?b1"
  proof (cases "off + n < bused b")
    case True
    then have "buf_move off (off + n) (bused b - ?n - off) b = Some ?b1"
      by (intro buf_move_Some) (use cap in auto)
    with True show ?thesis by simp
  next
    case False
    then have "bused b - ?n - off = 0" using off by auto
    then show ?thesis by simp
  qed
  have len: "length ?m = bcapacity b" using cap off by auto
  have wf2: "buf_wf (?b1\<lparr>bused := bused b - ?n\<rparr>)" by (rule buf_wf_with [OF wf len]) (use cap in auto)
  have slice: "sol_buffer_get_slice (?b1\<lparr>bused := bused b - ?n\<rparr>) =
      take off (sol_buffer_get_slice b) @ drop (off + n) (sol_buffer_get_slice b)"
  proof (cases "off + n \<le> bused b")
    case True
    then obtain d where d: "bused b = off + n + d" using le_Suc_ex by blast
    then have "length (buf_mem b) \<ge> off + n + d" using cap by simp
    then show ?thesis using len d by (simp add: sol_buffer_get_slice_def cap drop_take min_absorb1 add.commute)
  next
    case False
    then show ?thesis using len off cap by (simp add: sol_buffer_get_slice_def cap)
  qed
  have "sol_buffer_remove_data l off n b = on_ok (if has_flag SOL_BUFFER_FLAGS_MEMORY_NOT_OWNED (?b1\<lparr>bused := bused b - ?n\<rparr>)
      then Some (Inr (), ?b1\<lparr>bused := bused b - ?n\<rparr>)
      else sol_buffer_resize l (align_power2_size (bused (?b1\<lparr>bused := bused b - ?n\<rparr>) + nul_byte_size (?b1\<lparr>bused := bused b - ?n\<rparr>)))
        (?b1\<lparr>bused := bused b - ?n\<rparr>)) (\<lambda>_ b. terminate_buffer l b)"
    unfolding sol_buffer_remove_data_def add sum.case Let_def mv bind.bind_lunit using off by simp
  then show ?thesis using shrink_refines [OF wf2 l slice] by simp
qed

subsection \<open>Encoding and decoding into the buffer\<close>

lemma refines_fail:
  assumes "buf_refines b res (sol_buffer_get_slice b)"
  shows "buf_refines b (do { (_, b) \<leftarrow> res; Some (case (r :: errno + nat) of Inl e \<Rightarrow> Inl e | Inr _ \<Rightarrow> Inl EINVAL, b) }) xs"
proof -
  obtain r' b' where "res = Some (r', b')" using assms by (auto simp: buf_refines_def split: option.splits)
  then show ?thesis using assms by (cases r; cases r') (simp_all add: buf_refines_def)
qed

text \<open>
  What the buffer relies on when it lets a codec write through a pointer into its block: given
  room for the announced length, the codec stays inside it, and when it reports that length it has
  written \<open>coded\<close>.
\<close>

locale buffer_codec =
  fixes len :: "errno + nat"
    and codec :: "byte list \<Rightarrow> nat \<Rightarrow> ((errno + nat) \<times> byte list) option"
    and coded :: "byte list"
  assumes len_bound: "len = Inr n \<Longrightarrow> n \<le> SSIZE_MAX"
    and codec_safe: "len = Inr n \<Longrightarrow> n \<le> length out \<Longrightarrow>
      \<exists>r out'. codec out n = Some (r, out') \<and> keeps_from n out out' \<and> (r = Inr n \<longrightarrow> take n out' = coded)"
begin

lemma buf_codec_ok:
  assumes wf: "buf_wf b" and len: "len = Inr n" and room: "off + n \<le> bcapacity b"
  obtains r out' where "buf_codec off (\<lambda>out. codec out n) b = Some (r, with_mem (take off (buf_mem b) @ out') b)"
    and "length (take off (buf_mem b) @ out') = bcapacity b" and "drop n out' = drop (off + n) (buf_mem b)"
    and "r = Inr n \<Longrightarrow> take n out' = coded"
proof (cases "bdata b")
  case None
  then have "buf_codec off (\<lambda>out. codec out n) b = Some (Inl EINVAL, with_mem (take off (buf_mem b) @ []) b)"
    by (simp add: buf_codec_def with_mem_def)
  moreover have "buf_mem b = []" "bcapacity b = 0" using None buf_wf_mem [OF wf] by (simp_all add: buf_mem_def)
  ultimately show thesis using room by (intro that [of "Inl EINVAL" "[]"]) simp_all
next
  case (Some blk)
  have m: "buf_mem b = blk" "length blk = bcapacity b" using Some buf_wf_mem [OF wf] by (simp_all add: buf_mem_def)
  obtain r out' where r: "codec (drop off blk) n = Some (r, out')" "keeps_from n (drop off blk) out'"
    "r = Inr n \<longrightarrow> take n out' = coded"
    using codec_safe [OF len, of "drop off blk"] room m(2) by fastforce
  then have "buf_codec off (\<lambda>out. codec out n) b = Some (r, with_mem (take off (buf_mem b) @ out') b)"
    using Some by (simp add: buf_codec_def with_mem_def buf_mem_def)
  then show thesis
    by (rule that) (use r room m in \<open>auto simp: keeps_from_def add.commute\<close>)
qed

lemma append_coded_refines:
  assumes wf: "buf_wf b" and l: "alloc_bounded l" and src: "src \<noteq> []"
  shows "buf_refines b (append_coded l src len codec b) (sol_buffer_get_slice b @ coded)"
proof (cases len)
  case (Inl e)
  then show ?thesis using wf src by (intro buf_refines_Inl) (simp_all add: append_coded_def)
next
  case (Inr n)
  have "buf_refines b (on_ok (sol_buffer_expand l n b) (\<lambda>_ b. do {
          (r, b) \<leftarrow> buf_codec (bused b) (\<lambda>out. codec out n) b;
          (if r \<noteq> Inr n then do {
             (_, b) \<leftarrow> terminate_buffer l b;
             Some (case r of Inl e \<Rightarrow> Inl e | Inr _ \<Rightarrow> Inl EINVAL, b)
           } else terminate_buffer l (b\<lparr>bused := bused b + n\<rparr>)) })) (sol_buffer_get_slice b @ coded)"
  proof (rule expand_then [OF wf l len_bound [OF Inr]])
    fix b1
    assume b1: "buf_wf b1" "bflags b1 = bflags b" "bused b1 = bused b"
      "bused b1 + n + nul_byte_size b1 \<le> bcapacity b1" "sol_buffer_get_slice b1 = sol_buffer_get_slice b"
    note m = buf_wf_mem [OF b1(1)]
    obtain r out' where c: "buf_codec (bused b1) (\<lambda>out. codec out n) b1 =
        Some (r, with_mem (take (bused b1) (buf_mem b1) @ out') b1)"
      and len': "length (take (bused b1) (buf_mem b1) @ out') = bcapacity b1"
      and good: "r = Inr n \<Longrightarrow> take n out' = coded"
      by (rule buf_codec_ok [OF b1(1) Inr, of "bused b1"]) (use b1(4) in auto)
    let ?m = "take (bused b1) (buf_mem b1) @ out'"
    have tk: "take (bused b1) ?m = take (bused b1) (buf_mem b1)" using b1(4) by (simp add: m)
    show "buf_refines b1 (do {
          (r, b) \<leftarrow> buf_codec (bused b1) (\<lambda>out. codec out n) b1;
          (if r \<noteq> Inr n then do {
             (_, b) \<leftarrow> terminate_buffer l b;
             Some (case r of Inl e \<Rightarrow> Inl e | Inr _ \<Rightarrow> Inl EINVAL, b)
           } else terminate_buffer l (b\<lparr>bused := bused b + n\<rparr>)) }) (sol_buffer_get_slice b @ coded)"
    proof (cases "r = Inr n")
      case True
      have "take (bused b1 + n) ?m = sol_buffer_get_slice b @ coded"
        using good [OF True] b1(4) unfolding b1(5) [symmetric] by (simp add: m sol_buffer_get_slice_def)
      then show ?thesis using True b1(4) finish_then [OF b1(1) len', of "bused b1 + n"] by (simp add: c)
    next
      case False
      have "buf_refines b1 (terminate_buffer l ((with_mem ?m b1)\<lparr>bused := bused b1\<rparr>)) (take (bused b1) (buf_mem b1))"
        by (rule finish_then [OF b1(1) len' _ tk]) (use b1(4) in simp)
      then show ?thesis using False refines_fail [of b1 _ r] by (simp add: c sol_buffer_get_slice_def)
    qed
  qed
  with Inr src show ?thesis by (simp add: append_coded_def)
qed

lemma insert_coded_refines:
  assumes wf: "buf_wf b" and l: "alloc_bounded l" and src: "src \<noteq> []" and pos: "pos < bused b"
  shows "buf_refines b (insert_coded l pos src len codec b)
    (take pos (sol_buffer_get_slice b) @ coded @ drop pos (sol_buffer_get_slice b))"
proof (cases len)
  case (Inl e)
  then show ?thesis using wf src pos by (intro buf_refines_Inl) (simp_all add: insert_coded_def)
next
  case (Inr n)
  have "buf_refines b (on_ok (sol_buffer_expand l n b) (\<lambda>_ b. do {
          b \<leftarrow> buf_move (pos + n) pos (bused b - pos) b;
          (r, b) \<leftarrow> buf_codec pos (\<lambda>out. codec out n) b;
          (if r \<noteq> Inr n then do {
             b \<leftarrow> buf_move pos (pos + n) (bused b - pos) b;
             (_, b) \<leftarrow> terminate_buffer l b;
             Some (case r of Inl e \<Rightarrow> Inl e | Inr _ \<Rightarrow> Inl EINVAL, b)
           } else terminate_buffer l (b\<lparr>bused := bused b + n\<rparr>)) }))
    (take pos (sol_buffer_get_slice b) @ coded @ drop pos (sol_buffer_get_slice b))"
  proof (rule expand_then [OF wf l len_bound [OF Inr]])
    fix b1
    assume b1: "buf_wf b1" "bflags b1 = bflags b" "bused b1 = bused b"
      "bused b1 + n + nul_byte_size b1 \<le> bcapacity b1" "sol_buffer_get_slice b1 = sol_buffer_get_slice b"
    note m = buf_wf_mem [OF b1(1)]
    let ?m = "buf_mem b1" and ?u = "bused b1"
    define m1 where "m1 = take (pos + n) ?m @ take (?u - pos) (drop pos ?m) @ drop (?u + n) ?m"
    have p: "pos < ?u" using pos b1(3) by simp
    have move: "buf_move (pos + n) pos (?u - pos) b1 = Some (with_mem m1 b1)"
      using b1(4) p by (subst buf_move_Some) (simp_all add: m add.commute m1_def)
    have l1: "length m1 = bcapacity b1" using b1(4) p by (simp add: m m1_def)
    have wf1: "buf_wf (with_mem m1 b1)"
      using buf_wf_with [OF b1(1) l1, of ?u] b1(1) by (simp add: buf_wf_def)
    have mem1: "buf_mem (with_mem m1 b1) = m1" by (simp add: l1 m)
    obtain r out' where c: "buf_codec pos (\<lambda>out. codec out n) (with_mem m1 b1) =
        Some (r, with_mem (take pos m1 @ out') b1)"
      and l2: "length (take pos m1 @ out') = bcapacity b1" and dr: "drop n out' = drop (pos + n) m1"
      and good: "r = Inr n \<Longrightarrow> take n out' = coded"
      by (rule buf_codec_ok [OF wf1 Inr, of pos]) (use b1(4) p in \<open>auto simp: mem1\<close>)
    have out': "out' = take n out' @ drop (pos + n) m1" unfolding dr [symmetric] by simp
    let ?m2 = "take pos m1 @ out'"
    have "buf_refines b1 (if r \<noteq> Inr n then do {
             b \<leftarrow> buf_move pos (pos + n) (bused (with_mem ?m2 b1) - pos) (with_mem ?m2 b1);
             (_, b) \<leftarrow> terminate_buffer l b;
             Some (case r of Inl e \<Rightarrow> Inl e | Inr _ \<Rightarrow> Inl EINVAL, b)
           } else terminate_buffer l ((with_mem ?m2 b1)\<lparr>bused := bused (with_mem ?m2 b1) + n\<rparr>))
        (take pos (take ?u ?m) @ coded @ drop pos (take ?u ?m))"
    proof (cases "r = Inr n")
      case True
      have lc: "length coded = n" using good [OF True] l2 l1 b1(4) p by auto
      have "take (?u + n) (take pos m1 @ coded @ drop (pos + n) m1) = take pos (take ?u ?m) @ coded @ drop pos (take ?u ?m)"
        unfolding m1_def by (rule insert_mem) (use b1(4) p lc in \<open>simp_all add: m\<close>)
      then have "take (?u + n) ?m2 = take pos (take ?u ?m) @ coded @ drop pos (take ?u ?m)"
        using out' good [OF True] by simp
      then show ?thesis using True b1(4) finish_then [OF b1(1) l2, of "?u + n"] by simp
    next
      case False
      have lo: "length out' = bcapacity b1 - pos" using l2 l1 b1(4) p by simp
      define m3 where "m3 = take pos ?m2 @ take (?u - pos) (drop (pos + n) ?m2) @ drop ?u ?m2"
      have mv: "buf_move pos (pos + n) (?u - pos) (with_mem ?m2 b1) = Some (with_mem m3 b1)"
        using b1(4) p l2 by (subst buf_move_Some) (simp_all add: m m3_def)
      have "take pos m1 = take pos ?m" "length (take pos m1) = pos"
        using b1(4) p by (simp_all add: m1_def m)
      moreover have "drop (pos + n) ?m2 = take (?u - pos) (drop pos ?m) @ drop (?u + n) ?m"
        using l1 dr b1(4) p by (simp add: m1_def m)
      ultimately have tk: "take ?u m3 = take ?u ?m"
        using p b1(4) take_add [of pos "?u - pos" ?m] by (simp add: m3_def m)
      have "length m3 = bcapacity b1" using l2 b1(4) p lo l1 by (simp add: m3_def m)
      from finish_then [OF b1(1) this _ tk, of l] b1(4)
      have "buf_refines b1 (terminate_buffer l (with_mem m3 b1)) (sol_buffer_get_slice b1)"
        by (simp add: sol_buffer_get_slice_def)
      then show ?thesis using False refines_fail [of b1 _ r] by (simp add: mv)
    qed
    then show "buf_refines b1 (do {
          b \<leftarrow> buf_move (pos + n) pos (?u - pos) b1;
          (r, b) \<leftarrow> buf_codec pos (\<lambda>out. codec out n) b;
          (if r \<noteq> Inr n then do {
             b \<leftarrow> buf_move pos (pos + n) (bused b - pos) b;
             (_, b) \<leftarrow> terminate_buffer l b;
             Some (case r of Inl e \<Rightarrow> Inl e | Inr _ \<Rightarrow> Inl EINVAL, b)
           } else terminate_buffer l (b\<lparr>bused := bused b + n\<rparr>)) })
        (take pos (sol_buffer_get_slice b) @ coded @ drop pos (sol_buffer_get_slice b))"
      unfolding b1(5) [symmetric] unfolding sol_buffer_get_slice_def move by (simp add: c)
  qed
  with Inr src pos show ?thesis by (simp add: insert_coded_def)
qed

text \<open>The two cases of an insertion, and the empty source that only terminates.\<close>

lemma insert_coded_any:
  assumes wf: "buf_wf b" and l: "alloc_bounded l" and pos: "pos \<le> bused b" and src: "src \<noteq> []"
  shows "buf_refines b (insert_coded l pos src len codec b)
    (take pos (sol_buffer_get_slice b) @ coded @ drop pos (sol_buffer_get_slice b))"
proof (cases "pos = bused b")
  case True
  then show ?thesis using append_coded_refines [OF wf l src] src length_get_slice [OF wf]
    by (simp add: insert_coded_def)
next
  case False
  then show ?thesis using insert_coded_refines [OF wf l src] pos by simp
qed

end

lemma base16_encode_into:
  assumes "2 * length src \<le> length out" and "2 * length src \<le> SSIZE_MAX"
  shows "sol_util_base16_encode out (2 * length src) src uppercase =
    Some (Inr (2 * length src), base16_chars (if uppercase then 0x41 else 0x61) src @ drop (2 * length src) out)"
proof -
  have "sol_util_base16_calculate_encoded_len src = Inr (2 * length src)"
    using assms(2) by (simp add: sol_util_base16_calculate_encoded_len_def sol_util_ssize_mul_exact exact_int_def
        SSIZE_MAX_def nat_mult_distrib)
  then show ?thesis
    using base16_encode_loop_eq [of 0 src out] assms by (cases "src = []") (simp_all add: sol_util_base16_encode_def)
qed

lemma base16_encoded_len: "sol_util_base16_calculate_encoded_len src = Inr n \<Longrightarrow> n = 2 * length src \<and> n \<le> SSIZE_MAX"
  by (auto simp: sol_util_base16_calculate_encoded_len_def sol_util_ssize_mul_exact exact_int_def SSIZE_MAX_def
      nat_mult_distrib split: if_splits)

interpretation as_base16: buffer_codec "sol_util_base16_calculate_encoded_len src"
    "\<lambda>out n. sol_util_base16_encode out n src uppercase" "base16_chars (if uppercase then 0x41 else 0x61) src"
  for src uppercase
proof
  show "n \<le> SSIZE_MAX" if "sol_util_base16_calculate_encoded_len src = Inr n" for n
    using base16_encoded_len [OF that] by simp
  show "\<exists>r out'. sol_util_base16_encode out n src uppercase = Some (r, out') \<and> keeps_from n out out' \<and>
      (r = Inr n \<longrightarrow> take n out' = base16_chars (if uppercase then 0x41 else 0x61) src)"
    if "sol_util_base16_calculate_encoded_len src = Inr n" "n \<le> length out" for n out
    using base16_encoded_len [OF that(1)] that(2) base16_encode_into [of src out uppercase]
    by (simp add: keeps_from_def)
qed

interpretation as_base64: buffer_codec "sol_util_base64_calculate_encoded_len src base64_map"
    "\<lambda>out n. sol_util_base64_encode out n src base64_map" "base64_chars base64_map src"
  for src base64_map
proof
  fix n and out :: "byte list"
  assume "sol_util_base64_calculate_encoded_len src base64_map = Inr n"
  then have n: "n = length (base64_chars base64_map src)" "n \<le> SSIZE_MAX"
    and len: "sol_util_base64_calculate_encoded_len src base64_map = Inr n"
    by (auto simp: sol_util_base64_calculate_encoded_len_eq exact_nat_def split: if_splits)
  show "n \<le> SSIZE_MAX" by (rule n)
  assume "n \<le> length out"
  then show "\<exists>r out'. sol_util_base64_encode out n src base64_map = Some (r, out') \<and> keeps_from n out out' \<and>
      (r = Inr n \<longrightarrow> take n out' = base64_chars base64_map src)"
    using n len base64_encode_loop_eq [of 0 base64_map src out]
    by (cases "src = []") (simp_all add: sol_util_base64_encode_def keeps_from_def)
qed

lemma from_base16_codec:
  assumes "length src \<le> SIZE_MAX"
  shows "buffer_codec (sol_util_base16_calculate_decoded_len src)
    (\<lambda>out n. sol_util_base16_decode out n src decode_case) (base16_bytes (base16_digit_of decode_case) src)"
proof
  fix n and out :: "byte list"
  assume "sol_util_base16_calculate_decoded_len src = Inr n"
  then have n: "n = length src div 2" by (simp add: sol_util_base16_calculate_decoded_len_def)
  show "n \<le> SSIZE_MAX" using assms by (simp add: n SSIZE_MAX_def SIZE_MAX_def)
  assume le: "n \<le> length out"
  show "\<exists>r out'. sol_util_base16_decode out n src decode_case = Some (r, out') \<and> keeps_from n out out' \<and>
      (r = Inr n \<longrightarrow> take n out' = base16_bytes (base16_digit_of decode_case) src)"
  proof (cases "src = []")
    case True
    then show ?thesis using n by (simp add: sol_util_base16_decode_def)
  next
    case False
    then have d: "sol_util_base16_decode out n src decode_case =
        base16_decode_loop (base16_digit_of decode_case) src 0 out"
      by (simp add: sol_util_base16_decode_def sol_util_base16_calculate_decoded_len_def n)
    obtain r out' where r: "base16_decode_loop (base16_digit_of decode_case) src 0 out = Some (r, out')"
      "keeps_from n out out'"
      using base16_decode_loop_room [of 0 src n out] le n by fastforce
    then show ?thesis using d base16_decode_loop_bytes [of "base16_digit_of decode_case" src 0 out n out'] by auto
  qed
qed

lemma from_base64_codec:
  assumes "base64_map_ok m" and "base64_whole (base64_pad m) src"
  shows "buffer_codec (sol_util_base64_calculate_decoded_len src m)
    (\<lambda>out n. sol_util_base64_decode out n src m) (base64_bytes m src)"
proof
  fix n and out :: "byte list"
  assume len: "sol_util_base64_calculate_decoded_len src m = Inr n"
  then show "n \<le> SSIZE_MAX" by (auto simp: sol_util_base64_calculate_decoded_len_def Let_def split: if_splits)
  assume le: "n \<le> length out"
  have w: "length src mod 4 = 0" "src \<noteq> []" "n = base64_room (base64_pad m) src"
    using base64_decoded_len_whole [OF assms(2) len] by auto
  then have d: "sol_util_base64_decode out n src m = base64_decode_loop m src 0 out"
    using len by (simp add: sol_util_base64_decode_def)
  obtain r out' where "base64_decode_loop m src 0 out = Some (r, out')" "keeps_from n out out'"
    using base64_decode_loop_room [OF assms(1) w(1), of 0 n out] le w(3) by fastforce
  then show "\<exists>r out'. sol_util_base64_decode out n src m = Some (r, out') \<and> keeps_from n out out' \<and>
      (r = Inr n \<longrightarrow> take n out' = base64_bytes m src)"
    using d base64_decode_loop_bytes [of m src 0 out n out'] by auto
qed

section \<open>Formatted output\<close>

text \<open>With room for the text and its NUL byte, \<^verbatim>\<open>vsnprintf\<close> writes both; it never leaves the spare space.\<close>

lemma print_room:
  assumes wf: "buf_wf b" and room: "length text < bcapacity b - bused b"
  obtains b' where "buf_write (bused b) (vsnprintf_bytes (bcapacity b - bused b) text) b = Some b'"
    and "bused b' = bused b" and "bflags b' = bflags b" and "buf_wf (b'\<lparr>bused := bused b + length text\<rparr>)"
    and "sol_buffer_get_slice (b'\<lparr>bused := bused b + length text\<rparr>) = sol_buffer_get_slice b @ text"
    and "buf_terminated (b'\<lparr>bused := bused b + length text\<rparr>)"
proof -
  let ?u = "bused b" and ?k = "length text"
  let ?m = "take ?u (buf_mem b) @ (text @ [0]) @ drop (?u + (?k + 1)) (buf_mem b)"
  note m = buf_wf_mem [OF wf]
  have u: "?u \<le> bcapacity b" using wf by (simp add: buf_wf_def)
  have v: "vsnprintf_bytes (bcapacity b - ?u) text = text @ [0]" using room by (simp add: vsnprintf_bytes_def)
  have len: "length ?m = bcapacity b" using room u by (simp add: m)
  have w: "buf_write ?u (text @ [0]) b = Some (with_mem ?m b)"
    using room u by (subst buf_write_Some) (simp_all add: m)
  have "buf_wf ((with_mem ?m b)\<lparr>bused := ?u + ?k\<rparr>)"
    by (rule buf_wf_with [OF wf len]) (use room in simp)
  moreover have "take (?u + ?k) ?m = sol_buffer_get_slice b @ text" "?m ! (?u + ?k) = 0"
    using u by (simp_all add: m sol_buffer_get_slice_def nth_append)
  moreover have "?u + ?k < bcapacity b" using room by simp
  ultimately show thesis
    using room len w by (intro that [of "with_mem ?m b"])
      (simp_all add: v sol_buffer_get_slice_def buf_terminated_def m)
qed

lemma print_spare:
  assumes wf: "buf_wf b"
  obtains b' where "buf_write (bused b) (vsnprintf_bytes (bcapacity b - bused b) text) b = Some b'"
    and "buf_wf b'" and "bused b' = bused b" and "bcapacity b' = bcapacity b" and "bflags b' = bflags b"
    and "sol_buffer_get_slice b' = sol_buffer_get_slice b"
proof -
  let ?v = "vsnprintf_bytes (bcapacity b - bused b) text"
  let ?m = "take (bused b) (buf_mem b) @ ?v @ drop (bused b + length ?v) (buf_mem b)"
  note m = buf_wf_mem [OF wf]
  have le: "bused b + length ?v \<le> bcapacity b" using wf by (auto simp: vsnprintf_bytes_def buf_wf_def)
  then have len: "length ?m = bcapacity b" by (simp add: m)
  have "buf_write (bused b) ?v b = Some (with_mem ?m b)" using le by (intro buf_write_Some) (simp add: m)
  moreover have "buf_wf (with_mem ?m b)"
    using buf_wf_with [OF wf len, of "bused b"] le by simp
  ultimately show thesis using le
    by (intro that [of "with_mem ?m b"]) (simp_all add: sol_buffer_get_slice_def len m)
qed

lemma sol_buffer_append_vprintf_refines:
  assumes wf: "buf_wf b" and l: "alloc_bounded l"
    and fmt: "\<And>t. formatted = Inr t \<Longrightarrow> length t \<le> SSIZE_MAX \<and> xs = sol_buffer_get_slice b @ t"
  shows "buf_refines b (sol_buffer_append_vprintf l formatted b) xs"
proof (cases formatted)
  case (Inl e)
  then show ?thesis using wf by (intro buf_refines_Inl) (simp_all add: sol_buffer_append_vprintf_def)
next
  case (Inr t)
  note t = fmt [OF Inr] and cap = wf [unfolded buf_wf_def]
  have sp: "size_minus (bcapacity b) (bused b) = bcapacity b - bused b" using cap by simp
  show ?thesis
  proof (cases "length t < bcapacity b - bused b")
    case True
    show ?thesis
      by (rule print_room [OF wf True]) (use Inr t True sp in
        \<open>auto intro!: buf_refines_Inr simp: sol_buffer_append_vprintf_def\<close>)
  next
    case False
    obtain b0 where b0: "buf_write (bused b) (vsnprintf_bytes (bcapacity b - bused b) t) b = Some b0" "buf_wf b0"
      "bused b0 = bused b" "bcapacity b0 = bcapacity b" "bflags b0 = bflags b"
      "sol_buffer_get_slice b0 = sol_buffer_get_slice b"
      by (rule print_spare [OF wf])
    have sum: "bused b + length t \<le> SIZE_MAX" "length t \<le> SIZE_MAX" "bused b \<le> SIZE_MAX"
      using cap t by (simp_all add: SSIZE_MAX_def SIZE_MAX_def)
    define n where "n = (if SOL_BUFFER_NEEDS_NUL_BYTE b0 then bused b + length t else bused b + length t + 1)"
    let ?k = "\<lambda>b1. do {
        b' \<leftarrow> buf_write (bused b1) (vsnprintf_bytes (size_minus (bcapacity b1) (bused b1)) t) b1;
        Some (Inr (), b'\<lparr>bused := bused b' + length t\<rparr>) }"
    have e: "sol_buffer_append_vprintf l formatted b =
        (if \<not> SOL_BUFFER_NEEDS_NUL_BYTE b0 \<and> bused b + length t \<ge> SIZE_MAX - 1 then Some (Inl EOVERFLOW, b0)
         else on_ok (sol_buffer_ensure l n b0) (\<lambda>_. ?k))"
      using Inr False b0(1,3) sum sp
      by (simp add: sol_buffer_append_vprintf_def sol_util_size_add_exact exact_nat_def n_def Let_def)
    have "buf_refines b0 (on_ok (sol_buffer_ensure l n b0) (\<lambda>_. ?k)) xs"
    proof (rule ensure_then [OF b0(2) l])
      fix b1
      assume b1: "buf_wf b1" "bflags b1 = bflags b0" "bused b1 = bused b0" "n + nul_byte_size b1 \<le> bcapacity b1"
        "sol_buffer_get_slice b1 = sol_buffer_get_slice b0"
      have room: "length t < bcapacity b1 - bused b1"
        using b1(3,4) b0(3) flag_cong [OF b1(2)] needs_nul_size(1) [of b1] by (auto simp: n_def split: if_splits)
      then have "size_minus (bcapacity b1) (bused b1) = bcapacity b1 - bused b1" by simp
      then show "buf_refines b1 (?k b1) xs"
        by (rule_tac print_room [OF b1(1) room]) (use b1 b0(6) t in \<open>auto intro!: buf_refines_Inr\<close>)
    qed
    then have r: "buf_refines b (on_ok (sol_buffer_ensure l n b0) (\<lambda>_. ?k)) xs"
      by (rule buf_refines_cong) (use b0 in simp_all)
    show ?thesis
    proof (cases "\<not> SOL_BUFFER_NEEDS_NUL_BYTE b0 \<and> bused b + length t \<ge> SIZE_MAX - 1")
      case True
      with b0 show ?thesis by (simp add: e buf_refines_def)
    next
      case False
      show ?thesis unfolding e if_not_P [OF False] by (rule r)
    qed
  qed
qed

section \<open>Any sequence of operations\<close>

text \<open>
  The operations that act on one buffer: every call of \<^verbatim>\<open>sol-buffer.c\<close> and of the inline functions of
  \<^verbatim>\<open>sol-buffer.h\<close>, but for those that hand the block over or give it back (\<^verbatim>\<open>sol_buffer_steal\<close>,
  \<^verbatim>\<open>sol_buffer_steal_or_copy\<close>, \<^verbatim>\<open>sol_buffer_copy\<close>, \<^verbatim>\<open>sol_buffer_to_blob\<close> and \<^verbatim>\<open>sol_buffer_fini\<close>). A source
  buffer is another buffer than the one written. \<^verbatim>\<open>errno + byte list\<close> is what a format and its
  arguments expand to.
\<close>

datatype buf_op =
    Op_set "byte list"
  | Op_append "byte list"
  | Op_insert nat "byte list"
  | Op_set_at nat "byte list"
  | Op_append_char byte
  | Op_insert_char nat byte
  | Op_set_char_at nat byte
  | Op_set_buffer sol_buffer
  | Op_append_buffer sol_buffer
  | Op_insert_buffer nat sol_buffer
  | Op_set_buffer_at nat sol_buffer
  | Op_append_printf "errno + byte list"
  | Op_insert_printf nat "errno + byte list"
  | Op_remove nat nat
  | Op_append_hex "byte list" bool
  | Op_insert_hex nat "byte list" bool
  | Op_append_from_hex "byte list" sol_decode_case
  | Op_insert_from_hex nat "byte list" sol_decode_case
  | Op_append_base64 "byte list" "byte list"
  | Op_insert_base64 nat "byte list" "byte list"
  | Op_append_from_base64 "byte list" "byte list"
  | Op_insert_from_base64 nat "byte list" "byte list"
  | Op_resize nat
  | Op_ensure nat
  | Op_expand nat
  | Op_trim
  | Op_ensure_nul_byte
  | Op_reset

fun buf_exec :: "byte libc \<Rightarrow> buf_op \<Rightarrow> sol_buffer \<Rightarrow> buffer_result" where
  "buf_exec l (Op_set bs) b = sol_buffer_set_slice l bs b"
| "buf_exec l (Op_append bs) b = sol_buffer_append_slice l bs b"
| "buf_exec l (Op_insert pos bs) b = sol_buffer_insert_slice l pos bs b"
| "buf_exec l (Op_set_at pos bs) b = sol_buffer_set_slice_at l pos bs b"
| "buf_exec l (Op_append_char c) b = sol_buffer_append_char l c b"
| "buf_exec l (Op_insert_char pos c) b = sol_buffer_insert_char l pos c b"
| "buf_exec l (Op_set_char_at pos c) b = sol_buffer_set_char_at l pos c b"
| "buf_exec l (Op_remove off n) b = sol_buffer_remove_data l off n b"
| "buf_exec l (Op_append_hex bs up) b = sol_buffer_append_as_base16 l bs up b"
| "buf_exec l (Op_insert_hex pos bs up) b = sol_buffer_insert_as_base16 l pos bs up b"
| "buf_exec l (Op_append_from_hex bs dc) b = sol_buffer_append_from_base16 l bs dc b"
| "buf_exec l (Op_insert_from_hex pos bs dc) b = sol_buffer_insert_from_base16 l pos bs dc b"
| "buf_exec l (Op_append_base64 bs m) b = sol_buffer_append_as_base64 l bs m b"
| "buf_exec l (Op_insert_base64 pos bs m) b = sol_buffer_insert_as_base64 l pos bs m b"
| "buf_exec l (Op_append_from_base64 bs m) b = sol_buffer_append_from_base64 l bs m b"
| "buf_exec l (Op_insert_from_base64 pos bs m) b = sol_buffer_insert_from_base64 l pos bs m b"
| "buf_exec l (Op_set_buffer src) b = sol_buffer_set_buffer l src b"
| "buf_exec l (Op_append_buffer src) b = sol_buffer_append_buffer l src b"
| "buf_exec l (Op_insert_buffer pos src) b = sol_buffer_insert_buffer l pos src b"
| "buf_exec l (Op_set_buffer_at pos src) b = sol_buffer_set_buffer_at l pos src b"
| "buf_exec l (Op_append_printf formatted) b = sol_buffer_append_vprintf l formatted b"
| "buf_exec l (Op_insert_printf pos formatted) b = sol_buffer_insert_vprintf l pos formatted b"
| "buf_exec l (Op_resize n) b = sol_buffer_resize l n b"
| "buf_exec l (Op_ensure n) b = sol_buffer_ensure l n b"
| "buf_exec l (Op_expand n) b = sol_buffer_expand l n b"
| "buf_exec l Op_trim b = sol_buffer_trim l b"
| "buf_exec l Op_ensure_nul_byte b = sol_buffer_ensure_nul_byte l b"
| "buf_exec l Op_reset b = Some (Inr (), sol_buffer_reset b)"

text \<open>The abstract specification: what a successful call makes of the contents.\<close>

fun buf_spec :: "buf_op \<Rightarrow> byte list \<Rightarrow> byte list" where
  "buf_spec (Op_set bs) xs = bs"
| "buf_spec (Op_append bs) xs = xs @ bs"
| "buf_spec (Op_insert pos bs) xs = take pos xs @ bs @ drop pos xs"
| "buf_spec (Op_set_at pos bs) xs = overwrite pos bs xs"
| "buf_spec (Op_append_char c) xs = xs @ [c]"
| "buf_spec (Op_insert_char pos c) xs = take pos xs @ [c] @ drop pos xs"
| "buf_spec (Op_set_char_at pos c) xs = overwrite pos [c] xs"
| "buf_spec (Op_remove off n) xs = take off xs @ drop (off + n) xs"
| "buf_spec (Op_append_hex bs up) xs = xs @ base16_chars (if up then 0x41 else 0x61) bs"
| "buf_spec (Op_insert_hex pos bs up) xs =
     take pos xs @ base16_chars (if up then 0x41 else 0x61) bs @ drop pos xs"
| "buf_spec (Op_append_from_hex bs dc) xs = xs @ base16_bytes (base16_digit_of dc) bs"
| "buf_spec (Op_insert_from_hex pos bs dc) xs = take pos xs @ base16_bytes (base16_digit_of dc) bs @ drop pos xs"
| "buf_spec (Op_append_base64 bs m) xs = xs @ base64_chars m bs"
| "buf_spec (Op_insert_base64 pos bs m) xs = take pos xs @ base64_chars m bs @ drop pos xs"
| "buf_spec (Op_append_from_base64 bs m) xs = xs @ base64_bytes m bs"
| "buf_spec (Op_insert_from_base64 pos bs m) xs = take pos xs @ base64_bytes m bs @ drop pos xs"
| "buf_spec (Op_set_buffer src) xs = sol_buffer_get_slice src"
| "buf_spec (Op_append_buffer src) xs = xs @ sol_buffer_get_slice src"
| "buf_spec (Op_insert_buffer pos src) xs = take pos xs @ sol_buffer_get_slice src @ drop pos xs"
| "buf_spec (Op_set_buffer_at pos src) xs = overwrite pos (sol_buffer_get_slice src) xs"
| "buf_spec (Op_append_printf formatted) xs = (case formatted of Inl _ \<Rightarrow> xs | Inr bs \<Rightarrow> xs @ bs)"
| "buf_spec (Op_insert_printf pos formatted) xs =
     (case formatted of Inl _ \<Rightarrow> xs | Inr bs \<Rightarrow> take pos xs @ bs @ drop pos xs)"
| "buf_spec (Op_resize n) xs = take n xs"
| "buf_spec (Op_ensure n) xs = xs"
| "buf_spec (Op_expand n) xs = xs"
| "buf_spec Op_trim xs = xs"
| "buf_spec Op_ensure_nul_byte xs = xs"
| "buf_spec Op_reset xs = []"

text \<open>
  Arguments are C objects, so no source is larger than an object can be. Encoded base64 is decoded
  when it consists of whole groups with padding in their last two places only: what happens
  otherwise is the subject of \<open>decode_lone_pad\<close> below.
\<close>

fun buf_arg_ok :: "buf_op \<Rightarrow> bool" where
  "buf_arg_ok (Op_append bs) = (length bs \<le> SSIZE_MAX)"
| "buf_arg_ok (Op_insert pos bs) = (length bs \<le> SSIZE_MAX)"
| "buf_arg_ok (Op_append_from_hex bs dc) = (length bs \<le> SSIZE_MAX)"
| "buf_arg_ok (Op_insert_from_hex pos bs dc) = (length bs \<le> SSIZE_MAX)"
| "buf_arg_ok (Op_append_from_base64 bs m) = (base64_map_ok m \<and> (bs = [] \<or> base64_whole (base64_pad m) bs))"
| "buf_arg_ok (Op_insert_from_base64 pos bs m) = (base64_map_ok m \<and> (bs = [] \<or> base64_whole (base64_pad m) bs))"
| "buf_arg_ok (Op_set_buffer src) = buf_wf src"
| "buf_arg_ok (Op_append_buffer src) = buf_wf src"
| "buf_arg_ok (Op_insert_buffer pos src) = buf_wf src"
| "buf_arg_ok (Op_set_buffer_at pos src) = buf_wf src"
| "buf_arg_ok (Op_append_printf formatted) = (case formatted of Inl _ \<Rightarrow> True | Inr bs \<Rightarrow> length bs \<le> SSIZE_MAX)"
| "buf_arg_ok (Op_insert_printf pos formatted) = (case formatted of Inl _ \<Rightarrow> True | Inr bs \<Rightarrow> length bs \<le> SSIZE_MAX)"
| "buf_arg_ok (Op_expand n) = (n \<le> SSIZE_MAX)"
| "buf_arg_ok (Op_remove off n) = (n \<le> SIZE_MAX)"
| "buf_arg_ok _ = True"

definition buf_step_ok :: "sol_buffer \<Rightarrow> buffer_result \<Rightarrow> byte list \<Rightarrow> bool" where
  "buf_step_ok b res xs \<longleftrightarrow> (case res of None \<Rightarrow> False
     | Some (r, b') \<Rightarrow> buf_wf b' \<and> bflags b' = bflags b \<and>
         (case r of Inl _ \<Rightarrow> sol_buffer_get_slice b' = sol_buffer_get_slice b \<or> sol_buffer_get_slice b' = xs
          | Inr _ \<Rightarrow> sol_buffer_get_slice b' = xs))"

lemma late_imp_step: "buf_refines_late b res xs \<Longrightarrow> buf_step_ok b res xs"
  by (auto simp: buf_refines_late_def buf_step_ok_def split: option.splits sum.splits)

lemma refines_imp_step: "buf_refines b res xs \<Longrightarrow> buf_step_ok b res xs"
  by (intro late_imp_step refines_imp_late)

lemma step_error: "buf_wf b \<Longrightarrow> res = Some (Inl e, b) \<Longrightarrow> buf_step_ok b res xs"
  by (intro refines_imp_step buf_refines_Inl)

lemma sol_buffer_trim_step:
  assumes wf: "buf_wf b" and l: "alloc_bounded l"
  shows "buf_step_ok b (sol_buffer_trim l b) (sol_buffer_get_slice b)"
proof -
  let ?n = "bused b + nul_byte_size b"
  have "bused b \<noteq> SIZE_MAX" using wf by (simp add: buf_wf_def SSIZE_MAX_def SIZE_MAX_def)
  then have t: "sol_buffer_trim l b = (if ?n = bcapacity b then Some (Inr (), b) else sol_buffer_resize l ?n b)"
    by (simp add: sol_buffer_trim_def nul_byte_size_def Let_def)
  show ?thesis
  proof (cases "?n = bcapacity b")
    case True
    with t wf show ?thesis by (simp add: buf_step_ok_def)
  next
    case False
    show ?thesis
    proof (rule sol_buffer_resize_ok [OF wf l, of ?n])
      fix b'
      assume b': "sol_buffer_resize l ?n b = Some (Inr (), b')" "buf_wf b'" "bflags b' = bflags b"
        "bused b' = min (bused b) ?n" "take (min ?n (bcapacity b)) (buf_mem b') = take ?n (buf_mem b)"
      then show ?thesis using t False get_slice_resized [OF b'(5,4) _ wf] by (simp add: buf_step_ok_def)
    qed (use t False wf in \<open>auto intro: step_error\<close>)
  qed
qed

lemma coded_empty:
  "pos \<le> bused b \<Longrightarrow> insert_coded l pos [] len codec b = terminate_buffer l b"
  "append_coded l [] len codec b = terminate_buffer l b"
  by (simp_all add: insert_coded_def append_coded_def)

lemma out_of_range:
  assumes "bused b < pos"
  shows "sol_buffer_insert_bytes l pos bs b = Some (Inl EINVAL, b)"
    and "sol_buffer_insert_char l pos c b = Some (Inl EINVAL, b)"
    and "sol_buffer_set_char_at l pos c b = Some (Inl EINVAL, b)"
    and "sol_buffer_remove_data l pos n b = Some (Inl EINVAL, b)"
    and "insert_coded l pos bs len codec b = Some (Inl EINVAL, b)"
  using assms by (simp_all add: sol_buffer_insert_bytes_def sol_buffer_insert_char_def sol_buffer_set_char_at_def
      sol_buffer_remove_data_def insert_coded_def)

lemma remove_overflow:
  "off \<le> bused b \<Longrightarrow> buf_wf b \<Longrightarrow> n \<le> SIZE_MAX \<Longrightarrow> SIZE_MAX < off + n \<Longrightarrow>
     sol_buffer_remove_data l off n b = Some (Inl EOVERFLOW, b)"
  by (simp add: sol_buffer_remove_data_def buf_wf_def SSIZE_MAX_def SIZE_MAX_def sol_util_size_add_exact exact_nat_def)

text \<open>The eight operations that encode or decode, over whatever codec meets the contract.\<close>

lemma append_coded_step:
  assumes wf: "buf_wf b" and l: "alloc_bounded l" and codec: "bs \<noteq> [] \<Longrightarrow> buffer_codec len codec coded"
    and none: "bs = [] \<Longrightarrow> coded = []"
  shows "buf_step_ok b (append_coded l bs len codec b) (sol_buffer_get_slice b @ coded)"
proof (cases "bs = []")
  case True
  with terminate_refines [OF wf l] none show ?thesis by (simp add: coded_empty refines_imp_step)
next
  case False
  from buffer_codec.append_coded_refines [OF codec [OF this] wf l this] show ?thesis by (rule refines_imp_step)
qed

lemma insert_coded_step:
  assumes wf: "buf_wf b" and l: "alloc_bounded l" and codec: "bs \<noteq> [] \<Longrightarrow> buffer_codec len codec coded"
    and none: "bs = [] \<Longrightarrow> coded = []"
  shows "buf_step_ok b (insert_coded l pos bs len codec b)
    (take pos (sol_buffer_get_slice b) @ coded @ drop pos (sol_buffer_get_slice b))"
proof (cases "bused b < pos")
  case True
  show ?thesis by (rule step_error [OF wf out_of_range(5) [OF True]])
next
  case False
  show ?thesis
  proof (cases "bs = []")
    case True
    with terminate_refines [OF wf l] none False show ?thesis by (simp add: coded_empty refines_imp_step)
  next
    case ne: False
    from buffer_codec.insert_coded_any [OF codec [OF ne] wf l _ ne, of pos] False
    show ?thesis by (simp add: refines_imp_step)
  qed
qed

lemma insert_bytes_step:
  assumes wf: "buf_wf b" and l: "alloc_bounded l" and n: "length bs \<le> SSIZE_MAX"
  shows "buf_step_ok b (sol_buffer_insert_bytes l pos bs b)
    (take pos (sol_buffer_get_slice b) @ bs @ drop pos (sol_buffer_get_slice b))"
  using out_of_range(1) [of b pos l bs] sol_buffer_insert_bytes_refines [OF wf l n, of pos] wf
  by (cases "pos \<le> bused b") (auto intro: step_error refines_imp_step)

lemma set_slice_at_step:
  assumes wf: "buf_wf b" and l: "alloc_bounded l"
  shows "buf_step_ok b (sol_buffer_set_slice_at l pos bs b) (overwrite pos bs (sol_buffer_get_slice b))"
proof (cases "pos \<le> bused b")
  case True
  show ?thesis
    by (rule sol_buffer_set_slice_at_ok [OF wf l True, of bs]) (use wf in \<open>auto simp: buf_step_ok_def\<close>)
next
  case False
  with wf show ?thesis
    by (cases "bs = []") (simp_all add: sol_buffer_set_slice_at_def buf_step_ok_def overwrite_def length_get_slice)
qed

lemma insert_vprintf_step:
  assumes wf: "buf_wf b" and l: "alloc_bounded l" and t: "\<And>t. formatted = Inr t \<Longrightarrow> length t \<le> SSIZE_MAX"
  shows "buf_step_ok b (sol_buffer_insert_vprintf l pos formatted b)
    (case formatted of Inl _ \<Rightarrow> sol_buffer_get_slice b
     | Inr bs \<Rightarrow> take pos (sol_buffer_get_slice b) @ bs @ drop pos (sol_buffer_get_slice b))"
proof -
  have s: "length (sol_buffer_get_slice b) = bused b" by (rule length_get_slice [OF wf])
  consider "bused b < pos" | "pos = bused b" | "pos < bused b" by linarith
  then show ?thesis
  proof cases
    case 1
    then show ?thesis by (intro step_error [OF wf, of _ EINVAL]) (simp add: sol_buffer_insert_vprintf_def)
  next
    case 2
    have "buf_refines b (sol_buffer_append_vprintf l formatted b)
        (case formatted of Inl _ \<Rightarrow> sol_buffer_get_slice b
         | Inr bs \<Rightarrow> take pos (sol_buffer_get_slice b) @ bs @ drop pos (sol_buffer_get_slice b))"
      by (rule sol_buffer_append_vprintf_refines [OF wf l]) (use 2 s t in auto)
    with 2 show ?thesis by (simp add: sol_buffer_insert_vprintf_def refines_imp_step)
  next
    case 3
    then show ?thesis
      using wf insert_bytes_step [OF wf l t, of _ pos]
      by (cases formatted) (auto simp: sol_buffer_insert_vprintf_def sol_buffer_insert_slice_def intro: step_error)
  qed
qed

lemma resize_step:
  assumes wf: "buf_wf b" and l: "alloc_bounded l"
  shows "buf_step_ok b (sol_buffer_resize l n b) (take n (sol_buffer_get_slice b))"
proof (rule sol_buffer_resize_ok [OF wf l, of n])
  fix b'
  assume b': "sol_buffer_resize l n b = Some (Inr (), b')" "buf_wf b'" "bflags b' = bflags b"
    "bused b' = min (bused b) n" "take (min n (bcapacity b)) (buf_mem b') = take n (buf_mem b)"
  have le: "bused b' \<le> min n (bcapacity b)" using b'(4) wf by (auto simp: buf_wf_def min_le_iff_disj)
  have "take (bused b') (buf_mem b') = take (bused b') (take (min n (bcapacity b)) (buf_mem b'))"
    using le by (simp add: min_absorb1)
  also have "\<dots> = take n (take (bused b) (buf_mem b))" using b'(4,5) by (simp add: min.commute)
  finally show ?thesis using b' by (simp add: buf_step_ok_def sol_buffer_get_slice_def)
qed (use wf in \<open>auto intro: step_error\<close>)

lemma ensure_step:
  assumes wf: "buf_wf b" and l: "alloc_bounded l"
  shows "buf_step_ok b (sol_buffer_ensure l n b) (sol_buffer_get_slice b)"
proof (rule sol_buffer_ensure_ok [OF wf l, of n])
  fix b'
  assume b': "sol_buffer_ensure l n b = Some (Inr (), b')" "buf_wf b'" "bflags b' = bflags b" "bused b' = bused b"
    "take (bcapacity b) (buf_mem b') = buf_mem b"
  have "sol_buffer_get_slice b' = sol_buffer_get_slice b"
    by (rule get_slice_prefix [OF b'(5,4)]) (use wf in \<open>simp_all add: buf_wf_def\<close>)
  with b' show ?thesis by (simp add: buf_step_ok_def)
qed (use wf in \<open>auto intro: step_error\<close>)

lemma expand_step:
  assumes wf: "buf_wf b" and l: "alloc_bounded l" and n: "n \<le> SSIZE_MAX"
  shows "buf_step_ok b (sol_buffer_expand l n b) (sol_buffer_get_slice b)"
proof (rule sol_buffer_expand_ok [OF wf l n])
  fix b'
  assume b': "sol_buffer_expand l n b = Some (Inr (), b')" "buf_wf b'" "bflags b' = bflags b" "bused b' = bused b"
    "take (bcapacity b) (buf_mem b') = buf_mem b"
  have "sol_buffer_get_slice b' = sol_buffer_get_slice b"
    by (rule get_slice_prefix [OF b'(5,4)]) (use wf in \<open>simp_all add: buf_wf_def\<close>)
  with b' show ?thesis by (simp add: buf_step_ok_def)
qed (use wf in \<open>auto intro: step_error\<close>)

lemma ensure_nul_byte_step:
  assumes wf: "buf_wf b" and l: "alloc_bounded l"
  shows "buf_step_ok b (sol_buffer_ensure_nul_byte l b) (sol_buffer_get_slice b)"
proof (cases "SOL_BUFFER_NEEDS_NUL_BYTE b")
  case True
  with terminate_refines [OF wf l] show ?thesis by (simp add: terminate_buffer_def refines_imp_step)
next
  case False
  then show ?thesis
    by (intro step_error [OF wf, of _ EINVAL])
      (simp add: sol_buffer_ensure_nul_byte_def SOL_BUFFER_NEEDS_NUL_BYTE_def)
qed

lemma slice_small: "buf_wf b \<Longrightarrow> length (sol_buffer_get_slice b) \<le> SSIZE_MAX"
  by (simp add: length_get_slice buf_wf_def)

lemma buf_exec_step:
  assumes wf: "buf_wf b" and l: "alloc_bounded l" and arg: "buf_arg_ok opn"
  shows "buf_step_ok b (buf_exec l opn b) (buf_spec opn (sol_buffer_get_slice b))"
proof (cases opn)
  case (Op_insert_char pos c)
  then show ?thesis using wf out_of_range(2) [of b pos l c] sol_buffer_insert_char_refines [OF wf l, of pos c]
    by (cases "pos \<le> bused b") (auto intro: step_error refines_imp_step)
next
  case (Op_set_char_at pos c)
  then show ?thesis using wf out_of_range(3) [of b pos l c] sol_buffer_set_char_at_refines [OF wf l, of pos c]
    by (cases "pos \<le> bused b") (auto intro: step_error late_imp_step)
next
  case (Op_remove off n)
  consider "bused b < off" | "off \<le> bused b" "off + n \<le> SIZE_MAX" | "off \<le> bused b" "SIZE_MAX < off + n" by linarith
  then show ?thesis
    using Op_remove wf arg out_of_range(4) [of b off l n] sol_buffer_remove_data_refines [OF wf l, of off n]
      remove_overflow [OF _ wf, of off n l]
    by cases (auto intro: step_error late_imp_step)
next
  case (Op_append_hex bs up)
  show ?thesis using append_coded_step [OF wf l as_base16.buffer_codec_axioms]
    by (simp add: Op_append_hex sol_buffer_append_as_base16_def)
next
  case (Op_insert_hex pos bs up)
  show ?thesis using insert_coded_step [OF wf l as_base16.buffer_codec_axioms]
    by (simp add: Op_insert_hex sol_buffer_insert_as_base16_def)
next
  case (Op_append_from_hex bs dc)
  then have "length bs \<le> SIZE_MAX" using arg by (simp add: SSIZE_MAX_def SIZE_MAX_def)
  from append_coded_step [OF wf l from_base16_codec [OF this]] show ?thesis
    by (simp add: Op_append_from_hex sol_buffer_append_from_base16_def)
next
  case (Op_insert_from_hex pos bs dc)
  then have "length bs \<le> SIZE_MAX" using arg by (simp add: SSIZE_MAX_def SIZE_MAX_def)
  from insert_coded_step [OF wf l from_base16_codec [OF this]] show ?thesis
    by (simp add: Op_insert_from_hex sol_buffer_insert_from_base16_def)
next
  case (Op_append_base64 bs m)
  show ?thesis using append_coded_step [OF wf l as_base64.buffer_codec_axioms]
    by (simp add: Op_append_base64 sol_buffer_append_as_base64_def)
next
  case (Op_insert_base64 pos bs m)
  show ?thesis using insert_coded_step [OF wf l as_base64.buffer_codec_axioms]
    by (simp add: Op_insert_base64 sol_buffer_insert_as_base64_def)
next
  case (Op_append_from_base64 bs m)
  then show ?thesis using append_coded_step [OF wf l from_base64_codec, of bs m bs] arg
    by (auto simp: sol_buffer_append_from_base64_def)
next
  case (Op_insert_from_base64 pos bs m)
  then show ?thesis using insert_coded_step [OF wf l from_base64_codec, of bs m bs] arg
    by (auto simp: sol_buffer_insert_from_base64_def)
next
  case (Op_append_printf formatted)
  then show ?thesis using arg
    by (auto intro!: refines_imp_step sol_buffer_append_vprintf_refines [OF wf l] split: sum.splits)
next
  case (Op_insert_printf pos formatted)
  then show ?thesis using arg insert_vprintf_step [OF wf l, of formatted pos] by (auto split: sum.splits)
next
  case (Op_set_buffer src)
  then show ?thesis using sol_buffer_set_slice_refines [OF wf l]
    by (simp add: sol_buffer_set_buffer_def refines_imp_step)
next
  case (Op_append_buffer src)
  then show ?thesis using sol_buffer_append_bytes_refines [OF wf l slice_small] arg
    by (simp add: sol_buffer_append_buffer_def refines_imp_step)
next
  case (Op_insert_buffer pos src)
  then show ?thesis using insert_bytes_step [OF wf l slice_small] arg
    by (simp add: sol_buffer_insert_buffer_def sol_buffer_insert_slice_def)
next
  case (Op_set_buffer_at pos src)
  then show ?thesis using set_slice_at_step [OF wf l] by (simp add: sol_buffer_set_buffer_at_def)
next
  case Op_reset
  then show ?thesis using wf by (simp add: sol_buffer_reset_def buf_step_ok_def buf_wf_def sol_buffer_get_slice_def)
qed (use wf l arg in \<open>auto simp: sol_buffer_append_slice_def sol_buffer_insert_slice_def intro: refines_imp_step
    sol_buffer_set_slice_refines sol_buffer_append_bytes_refines sol_buffer_append_char_refines insert_bytes_step
    set_slice_at_step resize_step ensure_step expand_step sol_buffer_trim_step ensure_nul_byte_step\<close>)

interpretation buffer_sim: simulation "\<lambda>b. buf_wf b \<and> alloc_bounded l \<and> bflags b = flags" sol_buffer_get_slice
    "buf_exec l" buf_spec buf_arg_ok
  for l flags
proof
  fix b opn
  assume "buf_wf b \<and> alloc_bounded l \<and> bflags b = flags" "buf_arg_ok opn"
  with buf_exec_step [of b l opn]
  show "\<exists>r s'. buf_exec l opn b = Some (r, s') \<and> (buf_wf s' \<and> alloc_bounded l \<and> bflags s' = flags) \<and>
      (case r of Inl _ \<Rightarrow> sol_buffer_get_slice s' = sol_buffer_get_slice b \<or>
          sol_buffer_get_slice s' = buf_spec opn (sol_buffer_get_slice b)
        | Inr _ \<Rightarrow> sol_buffer_get_slice s' = buf_spec opn (sol_buffer_get_slice b))"
    by (auto simp: buf_step_ok_def split: option.splits)
qed

lemma sol_buffer_fini_ok:
  assumes wf: "buf_wf b"
  obtains b' where "sol_buffer_fini b = Some b'" and "bdata b' = None" "bused b' = 0" "bcapacity b' = 0"
    and "has_flag SOL_BUFFER_FLAGS_CLEAR_MEMORY b \<Longrightarrow> list_all all_zero (breleased b')"
proof -
  note cap = wf [unfolded buf_wf_def]
  let ?z = "with_mem (replicate (bcapacity b) 0) b"
  have c: "buf_clear b = Some ?z" using cap by (intro buf_clear_Some) simp
  let ?c = "if has_flag SOL_BUFFER_FLAGS_CLEAR_MEMORY b then ?z else b"
  let ?r = "if has_flag SOL_BUFFER_FLAGS_NO_FREE b then ?c else buf_release (bdata ?c) ?c"
  have "sol_buffer_fini b = Some (?r\<lparr>bdata := None, bused := 0, bcapacity := 0\<rparr>)"
    using c by (simp add: sol_buffer_fini_def Let_def)
  then show thesis
    by (rule that) (use cap released_clear [of b "bcapacity b"] in simp_all)
qed

section \<open>Properties\<close>

text \<open>
  C1. A buffer behaves like a list of bytes: whatever sequence of the operations of \<open>buf_op\<close> a client
  issues (setting, appending, inserting and removing bytes, characters, slices and other buffers,
  formatted output, base16 and base64 in both directions, and the management of the capacity), no
  operation ever accesses memory outside of its block, the invariant and the flags persist, and the
  contents are those the abstract list operations give; an operation that reports an error has left the
  contents as they were or has failed after it did its work. The sequences leave out the calls that hand
  the block over (steal, copy, to blob, fini), and base64 is decoded from whole groups with padding in
  the last two places only: \<open>sol_buffer_copy_too_small\<close> and \<open>decode_lone_pad\<close> show that the
  statement fails for a copy and for a lone character followed by padding.
\<close>

theorem buffer_run_refines:
  assumes "buf_wf b" and "alloc_bounded l" and "list_all buf_arg_ok ops"
  shows "\<exists>rs b'. run_ops (buf_exec l) ops b = Some (rs, b') \<and> buf_wf b' \<and> bflags b' = bflags b
    \<and> length rs = length ops
    \<and> sol_buffer_get_slice b' \<in> set (outcomes buf_spec ops rs (sol_buffer_get_slice b))"
  using buffer_sim.run [of b l "bflags b" ops] assms by blast

lemma buf_wf_init: "buf_wf sol_buffer_init"
  by (simp add: buf_wf_def sol_buffer_init_def buf_mem_def)

theorem buffer_run_refines_witness:
  "\<exists>rs b'. run_ops (buf_exec (libc_std 0)) [Op_append [1, 2], Op_insert 1 [7], Op_remove 0 1] sol_buffer_init
      = Some (rs, b') \<and> buf_wf b' \<and> bflags b' = bflags sol_buffer_init
    \<and> length rs = length [Op_append [1, 2], Op_insert 1 [7], Op_remove 0 1]
    \<and> sol_buffer_get_slice b' \<in> set (outcomes buf_spec [Op_append [1, 2], Op_insert 1 [7], Op_remove 0 1] rs
        (sol_buffer_get_slice sol_buffer_init))"
  by (rule buffer_run_refines [OF buf_wf_init]) (simp_all add: SSIZE_MAX_def SIZE_MAX_def)

text \<open>
  C3. Clearing memory: with \<^verbatim>\<open>SOL_BUFFER_FLAGS_CLEAR_MEMORY\<close>, every block that any sequence of
  operations followed by \<^verbatim>\<open>sol_buffer_fini\<close> gives back to the allocator contains nothing but zeros.
\<close>

theorem buffer_clear_memory:
  assumes "buf_wf b" and "alloc_bounded l" and "list_all buf_arg_ok ops"
    and "has_flag SOL_BUFFER_FLAGS_CLEAR_MEMORY b"
  shows "\<exists>rs b1 b2. run_ops (buf_exec l) ops b = Some (rs, b1) \<and> sol_buffer_fini b1 = Some b2
    \<and> bdata b2 = None \<and> list_all all_zero (breleased b2)"
proof -
  obtain rs b1 where b1: "run_ops (buf_exec l) ops b = Some (rs, b1)" "buf_wf b1" "bflags b1 = bflags b"
    using buffer_sim.run [of b l "bflags b" ops] assms by blast
  then have "has_flag SOL_BUFFER_FLAGS_CLEAR_MEMORY b1" using assms(4) by (simp add: has_flag_def)
  with b1 show ?thesis using sol_buffer_fini_ok [OF b1(2)] by metis
qed

definition secret_buffer :: sol_buffer where
  "secret_buffer = sol_buffer_init\<lparr>bflags := SOL_BUFFER_FLAGS_CLEAR_MEMORY\<rparr>"

theorem buffer_clear_memory_witness:
  "\<exists>rs b1 b2. run_ops (buf_exec (libc_std 0)) [Op_append [1, 2, 3], Op_append [4, 5], Op_remove 0 4] secret_buffer
      = Some (rs, b1) \<and> sol_buffer_fini b1 = Some b2 \<and> bdata b2 = None \<and> list_all all_zero (breleased b2)"
  by (rule buffer_clear_memory)
    (simp_all add: secret_buffer_def buf_wf_def sol_buffer_init_def buf_mem_def has_flag_def
      SOL_BUFFER_FLAGS_CLEAR_MEMORY_def SSIZE_MAX_def SIZE_MAX_def)

text \<open>
  C6. Inserting bytes: on every branch the call stays inside the block; a success has the bytes at
  their place, the rest moved behind them and a terminating NUL byte (or a NUL as the last byte); an
  error leaves the contents as they were.
\<close>

theorem sol_buffer_insert_bytes_spec:
  assumes "buf_wf b" and "alloc_bounded l" and "length bs \<le> SSIZE_MAX" and "pos \<le> bused b"
  shows "\<exists>r b'. sol_buffer_insert_bytes l pos bs b = Some (r, b') \<and> buf_wf b' \<and>
    (case r of Inl _ \<Rightarrow> sol_buffer_get_slice b' = sol_buffer_get_slice b
     | Inr _ \<Rightarrow> sol_buffer_get_slice b' = take pos (sol_buffer_get_slice b) @ bs @ drop pos (sol_buffer_get_slice b)
         \<and> buf_terminated b')"
  using sol_buffer_insert_bytes_refines [OF assms] by (auto simp: buf_refines_def split: option.splits)

definition two_bytes :: sol_buffer where
  "two_bytes = sol_buffer_init\<lparr>bdata := Some [0x61, 0x62, 0], bcapacity := 3, bused := 2\<rparr>"

lemma two_bytes_wf: "buf_wf two_bytes"
  by (simp add: buf_wf_def two_bytes_def buf_mem_def sol_buffer_init_def SSIZE_MAX_def has_flag_def
      SOL_BUFFER_FLAGS_DEFAULT_def)

theorem sol_buffer_insert_bytes_spec_witness:
  "\<exists>r b'. sol_buffer_insert_bytes (libc_std 0) 1 [0x78, 0x79] two_bytes = Some (r, b') \<and> buf_wf b' \<and>
    (case r of Inl _ \<Rightarrow> sol_buffer_get_slice b' = sol_buffer_get_slice two_bytes
     | Inr _ \<Rightarrow> sol_buffer_get_slice b' =
           take 1 (sol_buffer_get_slice two_bytes) @ [0x78, 0x79] @ drop 1 (sol_buffer_get_slice two_bytes)
         \<and> buf_terminated b')"
  by (rule sol_buffer_insert_bytes_spec [OF two_bytes_wf]) (simp_all add: SSIZE_MAX_def two_bytes_def)

text \<open>
  C9. Inserting decoded base64, for input in whole groups with padding in the last two places of the
  last group only: the decoded bytes arrive at their place, and when a character turns out to be none of
  the alphabet half-way, the bytes written so far are undone and the contents are as before. The
  hypothesis leaves out padding that starts in the second place of the last group (as in \<^verbatim>\<open>A===\<close>),
  where the contents are not restored (\<open>decode_lone_pad\<close>).
\<close>

theorem sol_buffer_insert_from_base64_spec:
  assumes "buf_wf b" and "alloc_bounded l" and "base64_map_ok m" and "base64_whole (base64_pad m) src"
    and "pos \<le> bused b"
  shows "\<exists>r b'. sol_buffer_insert_from_base64 l pos src m b = Some (r, b') \<and> buf_wf b' \<and>
    (case r of Inl _ \<Rightarrow> sol_buffer_get_slice b' = sol_buffer_get_slice b
     | Inr _ \<Rightarrow> sol_buffer_get_slice b' =
           take pos (sol_buffer_get_slice b) @ base64_bytes m src @ drop pos (sol_buffer_get_slice b)
         \<and> buf_terminated b')"
proof -
  have "src \<noteq> []" using assms(4) by auto
  from buffer_codec.insert_coded_any [OF from_base64_codec [OF assms(3,4)] assms(1,2,5) this] show ?thesis
    by (auto simp: sol_buffer_insert_from_base64_def buf_refines_def split: option.splits)
qed

theorem sol_buffer_insert_from_base64_spec_witness:
  "\<exists>r b'. sol_buffer_insert_from_base64 (libc_std 0) 1 [0x54, 0x57, 0x45, 0x3D] SOL_BASE64_MAP two_bytes = Some (r, b')
    \<and> buf_wf b' \<and>
    (case r of Inl _ \<Rightarrow> sol_buffer_get_slice b' = sol_buffer_get_slice two_bytes
     | Inr _ \<Rightarrow> sol_buffer_get_slice b' = take 1 (sol_buffer_get_slice two_bytes)
           @ base64_bytes SOL_BASE64_MAP [0x54, 0x57, 0x45, 0x3D] @ drop 1 (sol_buffer_get_slice two_bytes)
         \<and> buf_terminated b')"
  by (rule sol_buffer_insert_from_base64_spec [OF two_bytes_wf alloc_bounded_libc_std SOL_BASE64_MAP_ok])
    (simp_all add: base64_pad_def SOL_BASE64_MAP_eval two_bytes_def)

lemma copy_flags: "(bflags b AND NOT SOL_BUFFER_FLAGS_NO_FREE) AND SOL_BUFFER_FLAGS_NO_NUL_BYTE
    = bflags b AND SOL_BUFFER_FLAGS_NO_NUL_BYTE"
  by (simp add: SOL_BUFFER_FLAGS_NO_FREE_def SOL_BUFFER_FLAGS_NO_NUL_BYTE_def and.assoc)

lemma middle_together: "take p xs @ take k (drop p xs) @ drop (p + k) xs = xs"
  by (metis append.assoc append_take_drop_id take_add)

text \<open>
  C38. A copy is too small for its capacity: \<^verbatim>\<open>sol_buffer_copy\<close> duplicates the used bytes and the NUL
  byte but keeps the capacity of the original, so for every buffer with spare room, whatever is
  appended within that room is written outside of the copy's block.
\<close>

theorem sol_buffer_copy_too_small:
  assumes "buf_wf b" and "bdata b \<noteq> None" and "bs \<noteq> []"
    and "bused b + length bs + nul_byte_size b \<le> bcapacity b"
    and "alloc_ok l struct_size" and "alloc_ok l (bused b + nul_byte_size b)"
  shows "\<exists>c. sol_buffer_copy l struct_size b = Some (Some c)
    \<and> sol_buffer_get_slice c = sol_buffer_get_slice b \<and> bcapacity c = bcapacity b
    \<and> sol_buffer_append_bytes l bs c = None"
proof -
  let ?n = "bused b + nul_byte_size b"
  obtain blk where blk: "bdata b = Some blk" using assms(2) by blast
  have len: "length blk = bcapacity b" using assms(1) blk by (simp add: buf_wf_def buf_mem_def)
  let ?c = "b\<lparr>bdata := Some (take ?n blk), bflags := bflags b AND NOT SOL_BUFFER_FLAGS_NO_FREE, breleased := []\<rparr>"
  have "sol_util_memdup l (bdata b) ?n = Some (Some (take ?n blk))"
    using assms(4,6) by (auto simp: sol_util_memdup_def blk mem_read_Some len)
  then have copy: "sol_buffer_copy l struct_size b = Some (Some ?c)" using assms(5) by (simp add: sol_buffer_copy_def)
  have nul: "nul_byte_size ?c = nul_byte_size b"
    using copy_flags [of b] by (simp add: nul_byte_size_def has_flag_def)
  have small: "length bs + nul_byte_size b \<le> SIZE_MAX"
    using assms(1,4) by (simp add: buf_wf_def SSIZE_MAX_def SIZE_MAX_def)
  have room: "sol_buffer_expand l (length bs) ?c = Some (Inr (), ?c)"
    using assms(1,4) nul small le_diff_conv2 [of "bused b" "bcapacity b" "length bs + nul_byte_size b"]
    by (simp add: sol_buffer_expand_def buf_wf_def)
  have l1: "length (take ?n blk) = ?n" using assms(4) len by simp
  have "do { b \<leftarrow> buf_write (bused b) bs ?c;
        b \<leftarrow> (if SOL_BUFFER_NEEDS_NUL_BYTE b then buf_write (bused b + length bs) [0] b else Some b);
        Some (Inr (), b\<lparr>bused := bused b + length bs\<rparr>) } = (None :: buffer_result)"
  proof (cases "length bs \<le> nul_byte_size b")
    case True
    have w: "buf_write (bused b) bs ?c = Some (with_mem (take (bused b) blk @ bs @ []) ?c)"
      using True assms(3) l1 needs_nul_size(2) [of b] len assms(4)
      by (subst buf_write_Some) (auto simp: buf_mem_def min_absorb2 Suc_le_eq le_Suc_eq)
    moreover have need: "SOL_BUFFER_NEEDS_NUL_BYTE ?c" using True assms(3) nul needs_nul_size(1) [of ?c]
      by (cases bs) (auto simp: nul_byte_size_def split: if_splits)
    moreover have "SOL_BUFFER_NEEDS_NUL_BYTE (with_mem (take (bused b) blk @ bs @ []) ?c)"
      using need unfolding flag_simps .
    ultimately show ?thesis using assms(3) True needs_nul_size(2) [of b] len assms(4)
      by (simp add: buf_write_def with_mem_def mem_write_def)
  next
    case False
    then have "buf_write (bused b) bs ?c = None" using l1 assms(3) by (simp add: buf_write_def mem_write_def)
    then show ?thesis by simp
  qed
  then have "sol_buffer_append_bytes l bs ?c = None" using room assms(3) by (simp add: sol_buffer_append_bytes_def)
  with copy l1 show ?thesis by (simp add: sol_buffer_get_slice_def buf_mem_def blk)
qed

theorem sol_buffer_copy_too_small_witness:
  "\<exists>c. sol_buffer_copy (libc_std 0) 32 (two_bytes\<lparr>bused := 1\<rparr>) = Some (Some c)
    \<and> sol_buffer_get_slice c = sol_buffer_get_slice (two_bytes\<lparr>bused := 1\<rparr>)
    \<and> bcapacity c = bcapacity (two_bytes\<lparr>bused := 1\<rparr>)
    \<and> sol_buffer_append_bytes (libc_std 0) [0x63] c = None"
  by (rule sol_buffer_copy_too_small)
    (simp_all add: two_bytes_def buf_wf_def buf_mem_def sol_buffer_init_def SSIZE_MAX_def has_flag_def
      SOL_BUFFER_FLAGS_DEFAULT_def nul_byte_size_def)

text \<open>
  C39. Decoding base64 whose padding starts in the second place of a group, into the middle of a buffer:
  the call reports \<^verbatim>\<open>-EINVAL\<close> but has overwritten the byte at the insertion point, for every alphabet,
  every character before the padding and every buffer.
\<close>

theorem decode_lone_pad:
  assumes "buf_wf b" and "base64_map_ok m" and "base64_index_of x m \<noteq> 255" and "x \<noteq> base64_pad m"
    and "pos < bused b" and "bused b + nul_byte_size b \<le> bcapacity b"
  shows "\<exists>b'. sol_buffer_insert_from_base64 l pos [x, base64_pad m, base64_pad m, base64_pad m] m b
        = Some (Inl EINVAL, b')
    \<and> sol_buffer_get_slice b' = (sol_buffer_get_slice b)[pos := octet0 (base64_index_of x m) 64]"
proof -
  let ?src = "[x, base64_pad m, base64_pad m, base64_pad m]" and ?o = "octet0 (base64_index_of x m) 64"
  obtain blk where blk: "bdata b = Some blk" using assms(1,5) by (cases "bdata b") (auto simp: buf_wf_def buf_mem_def)
  have len: "length blk = bcapacity b" "buf_mem b = blk" using assms(1) blk by (simp_all add: buf_wf_def buf_mem_def)
  have n: "sol_util_base64_calculate_decoded_len ?src m = Inr 0"
    using assms(4) by (simp add: sol_util_base64_calculate_decoded_len_def)
  have stay: "buf_move pos pos (bused c - pos) c = Some c"
    if "bused c = bused b" "length (buf_mem c) = bcapacity b" for c
    using that assms(5,6) middle_together [of pos "buf_mem c" "bused b - pos"]
    by (subst buf_move_Some) simp_all
  have exp: "sol_buffer_expand l 0 b = Some (Inr (), b)"
    using assms(1,6) needs_nul_size(2) [of b] le_diff_conv2 [of "bused b" "bcapacity b" "nul_byte_size b"]
    by (simp add: sol_buffer_expand_def buf_wf_def SIZE_MAX_def)
  have dec: "sol_util_base64_decode (drop pos blk) 0 ?src m = Some (Inr 1, (drop pos blk)[0 := ?o])"
    using assms(3,5,6) n len
    by (simp add: sol_util_base64_decode_def base64_index_of_pad [OF assms(2)] mem_set_Some)
  let ?m = "blk[pos := ?o]"
  have upd: "take pos blk @ (drop pos blk)[0 := ?o] = ?m"
    using assms(5,6) len by (simp add: list_update_append1 upd_conv_take_nth_drop drop_Suc tl_drop)
  have codec: "buf_codec pos (\<lambda>out. sol_util_base64_decode out 0 ?src m) b = Some (Inr 1, with_mem ?m b)"
    using dec upd by (simp add: buf_codec_def blk with_mem_def)
  have wf: "buf_wf (with_mem ?m b)" using assms(1) len by (simp add: buf_wf_def)
  show ?thesis
  proof (rule terminate_room [OF wf])
    fix b'
    assume b': "terminate_buffer l (with_mem ?m b) = Some (Inr (), b')"
      "sol_buffer_get_slice b' = sol_buffer_get_slice (with_mem ?m b)"
    have "sol_buffer_insert_from_base64 l pos ?src m b = Some (Inl EINVAL, b')"
      using assms(5) n exp codec b'(1) stay [of b] stay [of "with_mem ?m b"] len
      by (simp add: sol_buffer_insert_from_base64_def insert_coded_def)
    moreover have "sol_buffer_get_slice b' = (sol_buffer_get_slice b)[pos := ?o]"
      using b'(2) len by (simp add: sol_buffer_get_slice_def take_update_swap)
    ultimately show ?thesis by blast
  qed (use assms(6) in simp)
qed

lemma base64_pad_MAP: "base64_pad SOL_BASE64_MAP = 0x3D"
  by (simp add: base64_pad_def SOL_BASE64_MAP_eval)

theorem decode_lone_pad_witness:
  "\<exists>b'. sol_buffer_insert_from_base64 (libc_std 0) 1 [0x41, 0x3D, 0x3D, 0x3D] SOL_BASE64_MAP two_bytes
        = Some (Inl EINVAL, b')
    \<and> sol_buffer_get_slice b' = [0x61, 0x04]"
proof -
  have "\<exists>b'. sol_buffer_insert_from_base64 (libc_std 0) 1
        [0x41, base64_pad SOL_BASE64_MAP, base64_pad SOL_BASE64_MAP, base64_pad SOL_BASE64_MAP] SOL_BASE64_MAP two_bytes
        = Some (Inl EINVAL, b')
    \<and> sol_buffer_get_slice b' = (sol_buffer_get_slice two_bytes)[1 := octet0 (base64_index_of 0x41 SOL_BASE64_MAP) 64]"
    by (rule decode_lone_pad [OF two_bytes_wf SOL_BASE64_MAP_ok])
      (simp_all add: base64_index_of_MAP_eval base64_pad_MAP two_bytes_def nul_byte_size_def)
  then show ?thesis
    by (simp add: base64_index_of_MAP_eval base64_pad_MAP octet0_def two_bytes_def
        sol_buffer_get_slice_def buf_mem_def)
qed

text \<open>Stealing or copying an empty buffer duplicates one byte from NULL.\<close>

lemma steal_or_copy_empty: "sol_buffer_steal_or_copy (libc_std 0) sol_buffer_init = None"
  by (simp add: sol_buffer_steal_or_copy_def sol_buffer_steal_def sol_util_memdup_def SSIZE_MAX_def
      sol_buffer_init_def nul_byte_size_def has_flag_def SOL_BUFFER_FLAGS_DEFAULT_def)

end
