(* ===== verification/Coap.thy ===== *)
theory Coap
  imports Buffer
begin

unbundle bit_operations_syntax

text \<open>
  CoAP packets: the option codec of \<^verbatim>\<open>src/lib/comms/coap.c\<close> and the packet functions of
  \<^verbatim>\<open>src/lib/comms/sol-coap.c\<close> that read and write a packet's header, options and payload.

  A packet is its reference count, its buffer and the offset of the payload (0: none). The buffer is
  that of theory \<open>Buffer\<close>, so every read and write is checked against the block. The context of the
  option functions is the record \<open>option_context\<close>; the buffer it points to is passed beside it. The
  host is little endian, so the bit fields of the header's first byte are, from the low end, the token
  length, the type and the version. A packet is far smaller than 2 GiB, so the \<^verbatim>\<open>int\<close> counters do
  not overflow. The value of an option is the slice the code points to.
\<close>

section \<open>The packet\<close>

record sol_coap_packet =
  pkt_refcnt :: nat
  pkt_buf :: sol_buffer
  pkt_payload_start :: nat

record option_context =
  ctx_pos :: nat
  ctx_delta :: int
  ctx_used :: nat

type_synonym packet_result = "((errno + unit) \<times> sol_coap_packet) option"

definition COAP_VERSION :: byte where
  "COAP_VERSION = 1"

definition COAP_MARKER :: byte where
  "COAP_MARKER = 0xFF"

text \<open>\<^verbatim>\<open>sizeof(struct coap_header)\<close>.\<close>

definition coap_header_size :: nat where
  "coap_header_size = 4"

definition sol_util_uint16_bytes_swap :: "16 word \<Rightarrow> 16 word" where
  "sol_util_uint16_bytes_swap val = (drop_bit 8 val AND 0xFF) OR push_bit 8 (val AND 0xFF)"

definition sol_util_cpu_to_be16 :: "16 word \<Rightarrow> 16 word" where
  "sol_util_cpu_to_be16 val = sol_util_uint16_bytes_swap val"

definition sol_util_be16_to_cpu :: "16 word \<Rightarrow> 16 word" where
  "sol_util_be16_to_cpu val = sol_util_uint16_bytes_swap val"

text \<open>How a little endian host stores and loads a \<^verbatim>\<open>uint16_t\<close>.\<close>

definition u16_store :: "16 word \<Rightarrow> byte list" where
  "u16_store v = [ucast v, ucast (drop_bit 8 v)]"

definition u16_load :: "byte \<Rightarrow> byte \<Rightarrow> 16 word" where
  "u16_load lo hi = ucast lo OR push_bit 8 (ucast hi)"

text \<open>\<^verbatim>\<open>sol_buffer_at\<close>: the offset behind the pointer, \<open>None\<close> for NULL; and the byte there.\<close>

definition sol_buffer_at :: "sol_buffer \<Rightarrow> nat \<Rightarrow> nat option" where
  "sol_buffer_at b pos = (if pos > bused b then None else Some pos)"

definition buf_at_get :: "sol_buffer \<Rightarrow> nat \<Rightarrow> byte option" where
  "buf_at_get b pos = do { p \<leftarrow> sol_buffer_at b pos; buf_get p b }"

section \<open>Options\<close>

definition coap_option_header_get_delta :: "byte \<Rightarrow> byte" where
  "coap_option_header_get_delta buf = drop_bit 4 (buf AND 0xF0)"

definition coap_option_header_get_len :: "byte \<Rightarrow> byte" where
  "coap_option_header_get_len buf = buf AND 0x0F"

definition coap_option_header_set_delta :: "byte \<Rightarrow> byte \<Rightarrow> byte" where
  "coap_option_header_set_delta buf delta = buf OR push_bit 4 (delta AND 0xF)"

definition coap_option_header_set_len :: "byte \<Rightarrow> byte \<Rightarrow> byte" where
  "coap_option_header_set_len buf len = buf OR (len AND 0xF)"

text \<open>The conversion of a size to \<^verbatim>\<open>int16_t\<close> in the call of \<^verbatim>\<open>decode_delta\<close>.\<close>

definition int16_of :: "nat \<Rightarrow> int" where
  "int16_of n = (let m = n mod 65536 in if m < 32768 then int m else int m - 65536)"

text \<open>
  \<open>Inr (hdrlen, decoded)\<close>. In case 14 the code dereferences a byte pointer before it widens the
  result, so only one of the two bytes counts.
\<close>

definition decode_delta :: "sol_buffer \<Rightarrow> nat \<Rightarrow> nat \<Rightarrow> int \<Rightarrow> (errno + nat \<times> nat) option" where
  "decode_delta b num pos buflen =
     (if num = 13 then
        (if buflen < 1 then Some (Inl EINVAL)
         else do { c \<leftarrow> buf_at_get b pos; Some (Inr (1, (unat c + 13) mod 65536)) })
      else if num = 14 then
        (if buflen < 2 then Some (Inl EINVAL)
         else do {
           c \<leftarrow> buf_at_get b pos;
           Some (Inr (2, (unat (sol_util_be16_to_cpu (ucast c)) + 269) mod 65536))
         })
      else if num = 15 then Some (Inl EINVAL)
      else Some (Inr (0, num)))"

text \<open>The call of \<^verbatim>\<open>decode_delta\<close> at the current position, and the advance past \<open>n\<close> bytes.\<close>

definition decode_at :: "sol_buffer \<Rightarrow> nat \<Rightarrow> option_context \<Rightarrow> ((errno + nat \<times> nat) \<times> option_context) option" where
  "decode_at b num ctx =
     map_option (\<lambda>d. (d, ctx))
       (decode_delta b num (ctx_pos ctx) (int16_of (size_minus (bused b) (ctx_pos ctx))))"

definition ctx_advance :: "nat \<Rightarrow> option_context \<Rightarrow> option_context" where
  "ctx_advance n ctx = ctx\<lparr>ctx_pos := ctx_pos ctx + n, ctx_used := ctx_used ctx + n\<rparr>"

text \<open>The result 0 is \<open>Inr None\<close>: there is no further option.\<close>

definition coap_parse_option ::
    "sol_buffer \<Rightarrow> option_context \<Rightarrow> ((errno + byte list option) \<times> option_context) option" where
  "coap_parse_option b ctx =
     (if size_minus (bused b) (ctx_pos ctx) < 1 then Some (Inr None, ctx)
      else do {
        start \<leftarrow> buf_at_get b (ctx_pos ctx);
        (if start = COAP_MARKER then Some (Inr None, ctx)
         else
           on_ok (decode_at b (unat (coap_option_header_get_delta start)) (ctx_advance 1 ctx)) (\<lambda>(r, delta) ctx.
           on_ok (decode_at b (unat (coap_option_header_get_len start)) (ctx_advance r ctx)) (\<lambda>(r, len) ctx.
             if size_minus (bused b) (ctx_pos ctx) < r + len then Some (Inl EINVAL, ctx)
             else
               let value = take len (drop (ctx_pos ctx + r) (sol_buffer_get_slice b));
                   ctx = ctx_advance (r + len) ctx
               in Some (Inr (Some value), ctx\<lparr>ctx_delta := ctx_delta ctx + int delta\<rparr>))))
      })"

lemma ctx_advance_simps [simp]:
  "ctx_pos (ctx_advance n ctx) = ctx_pos ctx + n" "ctx_delta (ctx_advance n ctx) = ctx_delta ctx"
  "ctx_used (ctx_advance n ctx) = ctx_used ctx + n"
  "ctx_advance n (ctx_advance m ctx) = ctx_advance (m + n) ctx"
  by (simp_all add: ctx_advance_def)

lemma decode_at_SomeD: "decode_at b num ctx = Some (r, ctx') \<Longrightarrow> ctx' = ctx"
  by (auto simp: decode_at_def)

lemma coap_parse_option_SomeE:
  assumes "coap_parse_option b ctx = Some (Inr (Some v), ctx')"
  obtains start r1 delta r2 len where
    "buf_at_get b (ctx_pos ctx) = Some start" "start \<noteq> COAP_MARKER"
    "decode_at b (unat (coap_option_header_get_delta start)) (ctx_advance 1 ctx) =
       Some (Inr (r1, delta), ctx_advance 1 ctx)"
    "decode_at b (unat (coap_option_header_get_len start)) (ctx_advance (1 + r1) ctx) =
       Some (Inr (r2, len), ctx_advance (1 + r1) ctx)"
    "r2 + len \<le> size_minus (bused b) (ctx_pos ctx + 1 + r1)"
    "v = take len (drop (ctx_pos ctx + 1 + r1 + r2) (sol_buffer_get_slice b))"
    "ctx' = (ctx_advance (1 + r1 + r2 + len) ctx)\<lparr>ctx_delta := ctx_delta ctx + int delta\<rparr>"
proof -
  from assms obtain start where start: "buf_at_get b (ctx_pos ctx) = Some start" "start \<noteq> COAP_MARKER"
    and body: "on_ok (decode_at b (unat (coap_option_header_get_delta start)) (ctx_advance 1 ctx)) (\<lambda>(r, delta) ctx.
           on_ok (decode_at b (unat (coap_option_header_get_len start)) (ctx_advance r ctx)) (\<lambda>(r, len) ctx.
             if size_minus (bused b) (ctx_pos ctx) < r + len then Some (Inl EINVAL, ctx)
             else
               let value = take len (drop (ctx_pos ctx + r) (sol_buffer_get_slice b));
                   ctx = ctx_advance (r + len) ctx
               in Some (Inr (Some value), ctx\<lparr>ctx_delta := ctx_delta ctx + int delta\<rparr>))) = Some (Inr (Some v), ctx')"
    by (auto simp: coap_parse_option_def bind_eq_Some_conv split: if_splits)
  from body obtain r1 delta c1 where
    d: "decode_at b (unat (coap_option_header_get_delta start)) (ctx_advance 1 ctx) = Some (Inr (r1, delta), c1)"
    and rest: "on_ok (decode_at b (unat (coap_option_header_get_len start)) (ctx_advance r1 c1)) (\<lambda>(r, len) ctx.
             if size_minus (bused b) (ctx_pos ctx) < r + len then Some (Inl EINVAL, ctx)
             else
               let value = take len (drop (ctx_pos ctx + r) (sol_buffer_get_slice b));
                   ctx = ctx_advance (r + len) ctx
               in Some (Inr (Some value), ctx\<lparr>ctx_delta := ctx_delta ctx + int delta\<rparr>)) = Some (Inr (Some v), ctx')"
    by (auto simp: on_ok_eq_Some_Inr)
  have c1: "c1 = ctx_advance 1 ctx" using d by (rule decode_at_SomeD)
  from rest obtain r2 len c2 where
    n: "decode_at b (unat (coap_option_header_get_len start)) (ctx_advance r1 c1) = Some (Inr (r2, len), c2)"
    and fits: "\<not> size_minus (bused b) (ctx_pos c2) < r2 + len"
    and v: "v = take len (drop (ctx_pos c2 + r2) (sol_buffer_get_slice b))"
    and c': "ctx' = (ctx_advance (r2 + len) c2)\<lparr>ctx_delta := ctx_delta c2 + int delta\<rparr>"
    by (auto simp: on_ok_eq_Some_Inr Let_def split: if_splits)
  have c2: "c2 = ctx_advance (1 + r1) ctx" using decode_at_SomeD [OF n] by (simp add: c1)
  show thesis
    by (rule that [OF start d [unfolded c1] n [unfolded c2 c1 ctx_advance_simps]])
      (use fits v c' in \<open>simp_all add: c2 add.assoc\<close>)
qed

text \<open>An option that was parsed moves the position forward and leaves it inside the used bytes.\<close>

lemma coap_parse_option_progress:
  assumes "coap_parse_option b ctx = Some (Inr (Some v), ctx')"
  shows "ctx_pos ctx < ctx_pos ctx'" and "ctx_pos ctx < bused b"
proof -
  show "ctx_pos ctx < ctx_pos ctx'" by (rule coap_parse_option_SomeE [OF assms]) simp
  show "ctx_pos ctx < bused b"
    using assms by (cases "ctx_pos ctx \<le> bused b")
      (auto simp: coap_parse_option_def buf_at_get_def sol_buffer_at_def split: if_splits)
qed

function parse_options_loop :: "sol_buffer \<Rightarrow> option_context \<Rightarrow> (errno + nat) option" where
  "parse_options_loop b ctx =
     (case coap_parse_option b ctx of
        None \<Rightarrow> None
      | Some (Inl e, _) \<Rightarrow> Some (Inl EINVAL)
      | Some (Inr None, ctx') \<Rightarrow> Some (Inr (ctx_used ctx'))
      | Some (Inr (Some v), ctx') \<Rightarrow> parse_options_loop b ctx')"
  by pat_completeness auto
termination
  by (relation "measure (\<lambda>(b, ctx). bused b - ctx_pos ctx)")
    (auto dest: coap_parse_option_progress intro: diff_less_mono2)

definition start_context :: "nat \<Rightarrow> option_context" where
  "start_context offset = \<lparr>ctx_pos = offset, ctx_delta = 0, ctx_used = 0\<rparr>"

definition coap_parse_options :: "sol_coap_packet \<Rightarrow> nat \<Rightarrow> (errno + nat) option" where
  "coap_parse_options pkt offset = parse_options_loop (pkt_buf pkt) (start_context offset)"

definition coap_get_header_len :: "sol_coap_packet \<Rightarrow> (errno + nat) option" where
  "coap_get_header_len pkt =
     (let b = pkt_buf pkt
      in if bused b < coap_header_size then Some (Inl EINVAL)
         else do {
           c \<leftarrow> buf_at_get b 0;
           (let tkl = unat (c AND 0x0F)
            in if tkl > 8 then Some (Inl EINVAL)
               else if bused b < coap_header_size + tkl then Some (Inl EINVAL)
               else Some (Inr (coap_header_size + tkl)))
         })"

definition coap_packet_parse :: "sol_coap_packet \<Rightarrow> packet_result" where
  "coap_packet_parse pkt = do {
     h \<leftarrow> coap_get_header_len pkt;
     (case h of Inl e \<Rightarrow> Some (Inl e, pkt)
      | Inr hdrlen \<Rightarrow> do {
          r \<leftarrow> coap_parse_options pkt hdrlen;
          Some (case r of Inl e \<Rightarrow> (Inl e, pkt)
           | Inr optlen \<Rightarrow>
               if bused (pkt_buf pkt) < hdrlen + optlen then (Inl EINVAL, pkt)
               else if bused (pkt_buf pkt) \<le> hdrlen + optlen + 1 then (Inr (), pkt\<lparr>pkt_payload_start := 0\<rparr>)
               else (Inr (), pkt\<lparr>pkt_payload_start := hdrlen + optlen + 1\<rparr>))
        })
   }"

text \<open>\<open>Inr (n, value)\<close>: the nibble for the header and the number of extension bytes inserted.\<close>

definition delta_encode :: "byte libc \<Rightarrow> int \<Rightarrow> nat \<Rightarrow> sol_buffer \<Rightarrow> ((errno + nat \<times> byte) \<times> sol_buffer) option" where
  "delta_encode l num offset b =
     (if num < 13 then Some (Inr (0, word_of_int num), b)
      else if num < 269 then
        on_ok (sol_buffer_insert_char l offset (word_of_int (num - 13)) b) (\<lambda>_ b. Some (Inr (1, 13), b))
      else
        on_ok (sol_buffer_insert_bytes l offset (u16_store (sol_util_cpu_to_be16 (word_of_int (num - 269)))) b)
          (\<lambda>_ b. Some (Inr (2, 14), b)))"

text \<open>A read-modify-write of the byte \<^verbatim>\<open>sol_buffer_at(buf, pos)\<close> points to.\<close>

definition buf_at_modify :: "nat \<Rightarrow> (byte \<Rightarrow> byte) \<Rightarrow> sol_buffer \<Rightarrow> sol_buffer option" where
  "buf_at_modify pos f b = do {
     p \<leftarrow> sol_buffer_at b pos;
     c \<leftarrow> buf_get p b;
     buf_write p [f c] b
   }"

definition coap_option_encode ::
    "byte libc \<Rightarrow> option_context \<Rightarrow> nat \<Rightarrow> byte list \<Rightarrow> sol_buffer \<Rightarrow> ((errno + nat) \<times> sol_buffer) option" where
  "coap_option_encode l ctx code value b =
     (let delta = int code - ctx_delta ctx; offset = 1
      in on_ok (sol_buffer_set_char_at l (ctx_pos ctx) 0 b) (\<lambda>_ b. do {
        (r, b) \<leftarrow> delta_encode l delta (ctx_pos ctx + offset) b;
        (case r of Inl _ \<Rightarrow> Some (Inl EINVAL, b)
         | Inr (r, data) \<Rightarrow>
             let offset = offset + r
             in do {
               b \<leftarrow> buf_at_modify (ctx_pos ctx) (\<lambda>c. coap_option_header_set_delta c data) b;
               on_ok (delta_encode l (int (length value)) (ctx_pos ctx + offset) b) (\<lambda>(r, data) b.
                 let offset = offset + r
                 in do {
                   b \<leftarrow> buf_at_modify (ctx_pos ctx) (\<lambda>c. coap_option_header_set_len c data) b;
                   on_ok (sol_buffer_insert_bytes l (ctx_pos ctx + offset) value b) (\<lambda>_ b.
                     Some (Inr (offset + length value), b))
                 })
             })
      }))"

section \<open>Packets\<close>

definition pkt_on_buf :: "(sol_buffer \<Rightarrow> ((errno + 'a) \<times> sol_buffer) option) \<Rightarrow> sol_coap_packet
    \<Rightarrow> ((errno + 'a) \<times> sol_coap_packet) option" where
  "pkt_on_buf f pkt = do { (r, b) \<leftarrow> f (pkt_buf pkt); Some (r, pkt\<lparr>pkt_buf := b\<rparr>) }"

function add_option_loop :: "sol_buffer \<Rightarrow> nat \<Rightarrow> option_context \<Rightarrow> (errno + option_context) option" where
  "add_option_loop b code ctx =
     (if ctx_delta ctx \<le> int code then
        (case coap_parse_option b ctx of
           None \<Rightarrow> None
         | Some (Inl e, _) \<Rightarrow> Some (Inl ENOENT)
         | Some (Inr None, ctx') \<Rightarrow> Some (Inr ctx')
         | Some (Inr (Some v), ctx') \<Rightarrow>
             if int code < ctx_delta ctx' then Some (Inl EINVAL) else add_option_loop b code ctx')
      else Some (Inr ctx))"
  by pat_completeness auto
termination
  by (relation "measure (\<lambda>(b, code, ctx). bused b - ctx_pos ctx)")
    (auto dest: coap_parse_option_progress intro: diff_less_mono2)

definition sol_coap_add_option ::
    "byte libc \<Rightarrow> sol_coap_packet \<Rightarrow> nat \<Rightarrow> byte list \<Rightarrow> packet_result" where
  "sol_coap_add_option l pkt code value =
     (if pkt_payload_start pkt \<noteq> 0 then Some (Inl EINVAL, pkt)
      else do {
        h \<leftarrow> coap_get_header_len pkt;
        (case h of Inl _ \<Rightarrow> Some (Inl EINVAL, pkt)
         | Inr offset \<Rightarrow> do {
             c \<leftarrow> add_option_loop (pkt_buf pkt) code (start_context offset);
             (case c of Inl e \<Rightarrow> Some (Inl e, pkt)
              | Inr ctx \<Rightarrow>
                  on_ok (pkt_on_buf (coap_option_encode l ctx code value) pkt) (\<lambda>_ pkt. Some (Inr (), pkt)))
           })
      })"

text \<open>
  \<open>vec\<close> holds the entries found so far; the loop ends with the option list, with a larger option
  number or when \<^verbatim>\<open>veclen\<close> entries were found.
\<close>

function find_options_loop :: "sol_buffer \<Rightarrow> nat \<Rightarrow> nat \<Rightarrow> option_context \<Rightarrow> byte list list
    \<Rightarrow> (errno + byte list list) option" where
  "find_options_loop b code veclen ctx vec =
     (if ctx_delta ctx \<le> int code \<and> length vec < veclen then
        (case coap_parse_option b ctx of
           None \<Rightarrow> None
         | Some (Inl e, _) \<Rightarrow> Some (Inl ENOENT)
         | Some (Inr None, ctx') \<Rightarrow> Some (Inr vec)
         | Some (Inr (Some v), ctx') \<Rightarrow>
             find_options_loop b code veclen ctx' (if int code \<noteq> ctx_delta ctx' then vec else vec @ [v]))
      else Some (Inr vec))"
  by pat_completeness auto
termination
  by (relation "measure (\<lambda>(b, code, veclen, ctx, vec). bused b - ctx_pos ctx)")
    (auto dest: coap_parse_option_progress intro: diff_less_mono2)

definition sol_coap_find_options :: "sol_coap_packet \<Rightarrow> nat \<Rightarrow> nat \<Rightarrow> (errno + byte list list) option" where
  "sol_coap_find_options pkt code veclen = do {
     h \<leftarrow> coap_get_header_len pkt;
     (case h of Inl _ \<Rightarrow> Some (Inl EINVAL)
      | Inr hdrlen \<Rightarrow> find_options_loop (pkt_buf pkt) code veclen (start_context hdrlen) [])
   }"

definition sol_coap_find_first_option :: "sol_coap_packet \<Rightarrow> nat \<Rightarrow> byte list option option" where
  "sol_coap_find_first_option pkt code = do {
     r \<leftarrow> sol_coap_find_options pkt code 1;
     Some (case r of Inl _ \<Rightarrow> None | Inr [] \<Rightarrow> None | Inr (v # _) \<Rightarrow> Some v)
   }"

definition SOL_COAP_OPTION_URI_PATH :: nat where
  "SOL_COAP_OPTION_URI_PATH = 11"

text \<open>The comparison of \<^verbatim>\<open>uri_path_eq\<close>: a resource path ends with an empty segment or with the list.\<close>

fun path_loop :: "byte list list \<Rightarrow> byte list list \<Rightarrow> bool" where
  "path_loop [] options = (options = [])"
| "path_loop (p # path) [] = (p = [])"
| "path_loop (p # path) (opt # options) = (p \<noteq> [] \<and> opt = p \<and> path_loop path options)"

definition uri_path_eq :: "sol_coap_packet \<Rightarrow> byte list list \<Rightarrow> bool option" where
  "uri_path_eq req path = do {
     r \<leftarrow> sol_coap_find_options req SOL_COAP_OPTION_URI_PATH 16;
     Some (case r of Inl _ \<Rightarrow> False | Inr options \<Rightarrow> path_loop path options)
   }"

text \<open>
  \<^verbatim>\<open>sol_coap_packet_add_uri_path_option\<close> after the leading slash: every segment up to the next slash
  becomes an option; a string that ends in a slash is an error, after the options were added.
\<close>

definition SLASH :: byte where
  "SLASH = 0x2F"

text \<open>The length of an option's value is passed as \<^verbatim>\<open>uint16_t\<close>.\<close>

definition option_value :: "byte list \<Rightarrow> byte list" where
  "option_value v = take (length v mod 65536) v"

function uri_path_loop :: "byte libc \<Rightarrow> byte list \<Rightarrow> sol_coap_packet \<Rightarrow> packet_result" where
  "uri_path_loop l uri pkt =
     (if uri = [] then Some (Inl EINVAL, pkt)
      else
        let seg = takeWhile (\<lambda>c. c \<noteq> SLASH) uri
        in if length seg = length uri then sol_coap_add_option l pkt SOL_COAP_OPTION_URI_PATH (option_value seg)
           else on_ok (sol_coap_add_option l pkt SOL_COAP_OPTION_URI_PATH (option_value seg))
             (\<lambda>_ pkt. uri_path_loop l (drop (length seg + 1) uri) pkt))"
  by pat_completeness auto
termination by (relation "measure (\<lambda>(l, uri, pkt). length uri)") auto

definition sol_coap_packet_add_uri_path_option :: "byte libc \<Rightarrow> sol_coap_packet \<Rightarrow> byte list \<Rightarrow> packet_result" where
  "sol_coap_packet_add_uri_path_option l pkt uri =
     (if uri = [] \<or> hd uri \<noteq> SLASH then Some (Inl EINVAL, pkt)
      else if length uri = 1 then Some (Inr (), pkt)
      else uri_path_loop l (tl uri) pkt)"

definition sol_coap_packet_has_payload :: "sol_coap_packet \<Rightarrow> bool option" where
  "sol_coap_packet_has_payload pkt = do {
     h \<leftarrow> coap_get_header_len pkt;
     Some (case h of Inl _ \<Rightarrow> False
      | Inr offset \<Rightarrow> pkt_payload_start pkt \<noteq> 0 \<or> bused (pkt_buf pkt) > offset)
   }"

text \<open>\<open>Inr offset\<close>: where the payload starts.\<close>

definition sol_coap_packet_get_payload ::
    "byte libc \<Rightarrow> sol_coap_packet \<Rightarrow> ((errno + nat) \<times> sol_coap_packet) option" where
  "sol_coap_packet_get_payload l pkt =
     on_ok (if pkt_payload_start pkt = 0 then
              on_ok (pkt_on_buf (sol_buffer_append_char l COAP_MARKER) pkt)
                (\<lambda>_ pkt. Some (Inr (), pkt\<lparr>pkt_payload_start := bused (pkt_buf pkt)\<rparr>))
            else Some (Inr (), pkt))
       (\<lambda>_ pkt. Some (Inr (pkt_payload_start pkt), pkt))"

section \<open>The header\<close>

text \<open>The fields of the first byte.\<close>

definition hdr_ver :: "byte \<Rightarrow> byte" where
  "hdr_ver c = drop_bit 6 c"

definition hdr_type :: "byte \<Rightarrow> byte" where
  "hdr_type c = drop_bit 4 c AND 0x03"

definition hdr_tkl :: "byte \<Rightarrow> byte" where
  "hdr_tkl c = c AND 0x0F"

definition hdr_set_ver :: "byte \<Rightarrow> byte \<Rightarrow> byte" where
  "hdr_set_ver v c = (c AND 0x3F) OR push_bit 6 (v AND 0x03)"

definition hdr_set_type :: "byte \<Rightarrow> byte \<Rightarrow> byte" where
  "hdr_set_type t c = (c AND 0xCF) OR push_bit 4 (t AND 0x03)"

definition hdr_set_tkl :: "byte \<Rightarrow> byte \<Rightarrow> byte" where
  "hdr_set_tkl n c = (c AND 0xF0) OR (n AND 0x0F)"

definition sol_coap_header_get_version :: "sol_coap_packet \<Rightarrow> byte option" where
  "sol_coap_header_get_version pkt = map_option hdr_ver (buf_get 0 (pkt_buf pkt))"

definition sol_coap_header_get_type :: "sol_coap_packet \<Rightarrow> byte option" where
  "sol_coap_header_get_type pkt = map_option hdr_type (buf_get 0 (pkt_buf pkt))"

text \<open>
  The token: the bytes behind the pointer that is returned, \<open>Some None\<close> when the length is 0 (the code
  returns NULL). A length that reaches behind the block is an access outside of it.
\<close>

definition sol_coap_header_get_token :: "sol_coap_packet \<Rightarrow> byte list option option" where
  "sol_coap_header_get_token pkt = do {
     c \<leftarrow> buf_get 0 (pkt_buf pkt);
     (if hdr_tkl c = 0 then Some None
      else map_option Some (mem_read coap_header_size (unat (hdr_tkl c)) (buf_mem (pkt_buf pkt))))
   }"

definition sol_coap_header_get_id :: "sol_coap_packet \<Rightarrow> 16 word option" where
  "sol_coap_header_get_id pkt = do {
     lo \<leftarrow> buf_get 2 (pkt_buf pkt);
     hi \<leftarrow> buf_get 3 (pkt_buf pkt);
     Some (sol_util_be16_to_cpu (u16_load lo hi))
   }"

text \<open>\<^verbatim>\<open>sol_coap_make_response_code(class, detail)\<close> and the codes the getter lets pass.\<close>

definition sol_coap_make_response_code :: "byte \<Rightarrow> byte \<Rightarrow> byte" where
  "sol_coap_make_response_code clas det = push_bit 5 clas OR det"

definition known_codes :: "byte list" where
  "known_codes = [1, 2, 3, 4] @ map (\<lambda>(c, d). sol_coap_make_response_code c d)
     [(2, 0), (2, 1), (2, 2), (2, 3), (2, 4), (2, 5), (4, 0), (4, 1), (4, 2), (4, 3), (4, 4), (4, 5), (4, 6),
      (4, 12), (4, 13), (4, 15), (5, 0), (5, 1), (5, 2), (5, 3), (5, 4), (5, 5)] @ [0]"

definition sol_coap_header_get_code :: "sol_coap_packet \<Rightarrow> (errno + byte) option" where
  "sol_coap_header_get_code pkt = do {
     c \<leftarrow> buf_get 1 (pkt_buf pkt);
     Some (if c \<in> set known_codes then Inr c else Inl EINVAL)
   }"

text \<open>All setters make sure that there is room for a header and then write one field.\<close>

definition set_header_byte :: "byte libc \<Rightarrow> nat \<Rightarrow> (byte \<Rightarrow> byte) \<Rightarrow> sol_buffer \<Rightarrow> buffer_result" where
  "set_header_byte l i f b =
     on_ok (sol_buffer_ensure l coap_header_size b) (\<lambda>_ b. do {
       c \<leftarrow> buf_get i b;
       b \<leftarrow> buf_write i [f c] b;
       Some (Inr (), b)
     })"

definition sol_coap_header_set_version :: "byte libc \<Rightarrow> sol_coap_packet \<Rightarrow> byte \<Rightarrow> packet_result" where
  "sol_coap_header_set_version l pkt ver = pkt_on_buf (set_header_byte l 0 (hdr_set_ver ver)) pkt"

definition sol_coap_header_set_type :: "byte libc \<Rightarrow> sol_coap_packet \<Rightarrow> byte \<Rightarrow> packet_result" where
  "sol_coap_header_set_type l pkt type = pkt_on_buf (set_header_byte l 0 (hdr_set_type type)) pkt"

definition sol_coap_header_set_code :: "byte libc \<Rightarrow> sol_coap_packet \<Rightarrow> byte \<Rightarrow> packet_result" where
  "sol_coap_header_set_code l pkt code = pkt_on_buf (set_header_byte l 1 (\<lambda>_. code)) pkt"

definition sol_coap_header_set_id :: "byte libc \<Rightarrow> sol_coap_packet \<Rightarrow> 16 word \<Rightarrow> packet_result" where
  "sol_coap_header_set_id l pkt ident = pkt_on_buf (\<lambda>b.
     on_ok (sol_buffer_ensure l coap_header_size b) (\<lambda>_ b. do {
       b \<leftarrow> buf_write 2 (u16_store (sol_util_cpu_to_be16 ident)) b;
       Some (Inr (), b)
     })) pkt"

definition sol_coap_header_set_token :: "byte libc \<Rightarrow> sol_coap_packet \<Rightarrow> byte list \<Rightarrow> packet_result" where
  "sol_coap_header_set_token l pkt token = pkt_on_buf (\<lambda>b.
     on_ok (sol_buffer_ensure l coap_header_size b) (\<lambda>_ b.
     on_ok (sol_buffer_insert_slice l coap_header_size token b) (\<lambda>_ b. do {
       c \<leftarrow> buf_get 0 b;
       b \<leftarrow> buf_write 0 [hdr_set_tkl (of_nat (length token)) c] b;
       Some (Inr (), b)
     }))) pkt"

text \<open>
  A new packet. \<open>struct_size\<close> is the size of the packet struct; \<open>Inl e\<close> stands for the NULL result.
  The second definition answers a packet \<^verbatim>\<open>old\<close>: it takes over the id and the token and turns
  a confirmable type into an acknowledgement. Its check after \<^verbatim>\<open>sol_coap_header_set_token\<close> looks at
  the token, so a failure to set it goes unnoticed.
\<close>

definition packet_new :: "byte libc \<Rightarrow> nat \<Rightarrow> sol_buffer option \<Rightarrow> (errno + sol_coap_packet) option" where
  "packet_new l struct_size buf =
     (if \<not> alloc_ok l struct_size then Some (Inl ENOMEM)
      else
        let b = (case buf of None \<Rightarrow> sol_buffer_init\<lparr>bflags := SOL_BUFFER_FLAGS_NO_NUL_BYTE\<rparr> | Some b \<Rightarrow> b);
            pkt = \<lparr>pkt_refcnt = 1, pkt_buf = b, pkt_payload_start = 0\<rparr>
        in do {
          (r, pkt) \<leftarrow> on_ok (pkt_on_buf (sol_buffer_ensure l coap_header_size) pkt) (\<lambda>_ pkt. do {
            b \<leftarrow> buf_write 0 (replicate coap_header_size 0) (pkt_buf pkt);
            on_ok (sol_coap_header_set_version l (pkt\<lparr>pkt_buf := b\<rparr>) COAP_VERSION) (\<lambda>_ pkt.
              Some (Inr (), pkt\<lparr>pkt_buf := (pkt_buf pkt)\<lparr>bused := coap_header_size\<rparr>\<rparr>))
          });
          Some (case r of Inl e \<Rightarrow> Inl e | Inr _ \<Rightarrow> Inr pkt)
        })"

definition SOL_COAP_MESSAGE_TYPE_CON :: byte where
  "SOL_COAP_MESSAGE_TYPE_CON = 0"

definition SOL_COAP_MESSAGE_TYPE_NON_CON :: byte where
  "SOL_COAP_MESSAGE_TYPE_NON_CON = 1"

definition SOL_COAP_MESSAGE_TYPE_ACK :: byte where
  "SOL_COAP_MESSAGE_TYPE_ACK = 2"

definition sol_coap_packet_new ::
    "byte libc \<Rightarrow> nat \<Rightarrow> sol_coap_packet option \<Rightarrow> (errno + sol_coap_packet) option" where
  "sol_coap_packet_new l struct_size old = do {
     p \<leftarrow> packet_new l struct_size None;
     (case p of Inl e \<Rightarrow> Some (Inl e)
      | Inr pkt \<Rightarrow>
          (case old of None \<Rightarrow> Some (Inr pkt)
           | Some old \<Rightarrow> do {
               ident \<leftarrow> sol_coap_header_get_id old;
               (r, pkt) \<leftarrow> on_ok (sol_coap_header_set_id l pkt ident) (\<lambda>_ pkt. do {
                 type \<leftarrow> sol_coap_header_get_type old;
                 on_ok (if type = SOL_COAP_MESSAGE_TYPE_CON then sol_coap_header_set_type l pkt SOL_COAP_MESSAGE_TYPE_ACK
                        else if type = SOL_COAP_MESSAGE_TYPE_NON_CON
                        then sol_coap_header_set_type l pkt SOL_COAP_MESSAGE_TYPE_NON_CON
                        else Some (Inr (), pkt)) (\<lambda>_ pkt. do {
                   token \<leftarrow> sol_coap_header_get_token old;
                   (case token of None \<Rightarrow> Some (Inr (), pkt)
                    | Some token \<Rightarrow> do {
                        (_, pkt) \<leftarrow> sol_coap_header_set_token l pkt token;
                        Some (Inr (), pkt)
                      })
                 })
               });
               Some (case r of Inl e \<Rightarrow> Inl e | Inr _ \<Rightarrow> Inr pkt)
             }))
   }"

definition sol_coap_packet_ref :: "sol_coap_packet \<Rightarrow> sol_coap_packet" where
  "sol_coap_packet_ref pkt = pkt\<lparr>pkt_refcnt := pkt_refcnt pkt + 1\<rparr>"

text \<open>\<open>Some None\<close>: the last reference went away and the packet was freed.\<close>

definition sol_coap_packet_unref :: "sol_coap_packet \<Rightarrow> sol_coap_packet option option" where
  "sol_coap_packet_unref pkt =
     (if pkt_refcnt pkt > 1 then Some (Some (pkt\<lparr>pkt_refcnt := pkt_refcnt pkt - 1\<rparr>))
      else do { _ \<leftarrow> sol_buffer_fini (pkt_buf pkt); Some None })"

section \<open>Options as lists: the reference encoding\<close>

definition ext_nibble :: "nat \<Rightarrow> byte" where
  "ext_nibble n = (if n < 13 then of_nat n else if n < 269 then 13 else 14)"

definition ext_bytes :: "nat \<Rightarrow> byte list" where
  "ext_bytes n = (if n < 13 then [] else if n < 269 then [of_nat (n - 13)]
     else [of_nat ((n - 269) div 256), of_nat ((n - 269) mod 256)])"

definition option_bytes :: "nat \<Rightarrow> byte list \<Rightarrow> byte list" where
  "option_bytes d v = (push_bit 4 (ext_nibble d) OR ext_nibble (length v)) # ext_bytes d @ ext_bytes (length v) @ v"

fun options_bytes :: "nat \<Rightarrow> (nat \<times> byte list) list \<Rightarrow> byte list" where
  "options_bytes prev [] = []"
| "options_bytes prev ((c, v) # opts) = option_bytes (c - prev) v @ options_bytes c opts"

text \<open>Option numbers in order, with differences and lengths that need at most one extension byte.\<close>

fun opts_ok :: "nat \<Rightarrow> (nat \<times> byte list) list \<Rightarrow> bool" where
  "opts_ok prev [] = True"
| "opts_ok prev ((c, v) # opts) = (prev \<le> c \<and> c - prev < 269 \<and> length v < 269 \<and> opts_ok c opts)"

definition last_code :: "nat \<Rightarrow> (nat \<times> byte list) list \<Rightarrow> nat" where
  "last_code prev opts = (if opts = [] then prev else fst (last opts))"

subsection \<open>Reading an option\<close>

lemma buf_at_get_slice:
  assumes "buf_wf b" and "pos < bused b"
  shows "buf_at_get b pos = Some (sol_buffer_get_slice b ! pos)"
  using assms by (simp add: buf_at_get_def sol_buffer_at_def buf_get_Some buf_wf_def sol_buffer_get_slice_def)

lemma ext_nibble_less: "ext_nibble n < 16"
  by (auto simp: ext_nibble_def word_less_nat_alt unat_of_nat take_bit_eq_mod)

lemma nibble_take: "(x :: byte) < 16 \<Longrightarrow> x = take_bit 4 x"
  using word_eq_take_bit [of x 4] by simp

lemma option_header_get:
  assumes "d < 16" and "n < 16"
  shows "coap_option_header_get_delta (push_bit 4 d OR n) = d" and "coap_option_header_get_len (push_bit 4 d OR n) = n"
proof -
  note hi = take_bit_high [OF nibble_take [OF assms(1)]] take_bit_high [OF nibble_take [OF assms(2)]]
  show "coap_option_header_get_delta (push_bit 4 d OR n) = d" "coap_option_header_get_len (push_bit 4 d OR n) = n"
    by (rule byte_eqI; simp add: coap_option_header_get_delta_def coap_option_header_get_len_def bit_simps hi)+
qed

lemma option_header_ne_marker:
  assumes "n < 269"
  shows "push_bit 4 (ext_nibble n) OR x \<noteq> COAP_MARKER \<or> x \<ge> 16"
proof (rule ccontr)
  assume "\<not> (push_bit 4 (ext_nibble n) OR x \<noteq> COAP_MARKER \<or> x \<ge> 16)"
  then have "push_bit 4 (ext_nibble n) OR x = 0xFF" "x < 16" by (auto simp: COAP_MARKER_def)
  with option_header_get(1) [OF ext_nibble_less [of n], of x] have "ext_nibble n = 15"
    by (simp add: coap_option_header_get_delta_def)
  then show False using assms by (auto simp: ext_nibble_def word_unat_eq_iff unat_of_nat take_bit_eq_mod split: if_splits)
qed

lemma unat_ext_nibble: "n < 269 \<Longrightarrow> unat (ext_nibble n) = (if n < 13 then n else 13)"
  by (simp add: ext_nibble_def unat_of_nat take_bit_eq_mod)

lemma int16_of_small: "n \<le> 32767 \<Longrightarrow> int16_of n = int n"
  by (simp add: int16_of_def)

lemma decode_at_ext:
  assumes wf: "buf_wf b" and n: "n < 269" and small: "bused b \<le> 32767"
    and slice: "sol_buffer_get_slice b = pre @ ext_bytes n @ rest" and pos: "ctx_pos ctx = length pre"
  shows "decode_at b (unat (ext_nibble n)) ctx = Some (Inr (length (ext_bytes n), n), ctx)"
proof (cases "n < 13")
  case True
  then show ?thesis by (simp add: decode_at_def decode_delta_def unat_ext_nibble ext_bytes_def)
next
  case False
  then obtain k where k: "n = 13 + k" using le_Suc_ex by (metis not_less)
  have used: "bused b = length pre + 1 + length rest"
    using length_get_slice [OF wf] slice n by (simp add: ext_bytes_def k)
  have "buf_at_get b (length pre) = Some (of_nat k)"
    using buf_at_get_slice [OF wf, of "length pre"] used slice n by (simp add: ext_bytes_def nth_append k)
  moreover have "unat (of_nat k :: byte) = k"
    using n by (simp add: unat_of_nat take_bit_eq_mod k)
  ultimately show ?thesis
    using n used small pos k by (simp add: decode_at_def decode_delta_def unat_ext_nibble ext_bytes_def int16_of_small)
qed

lemma coap_parse_option_bytes:
  assumes wf: "buf_wf b" and small: "bused b \<le> 32767" and d: "d < 269" and v: "length v < 269"
    and slice: "sol_buffer_get_slice b = pre @ option_bytes d v @ rest" and pos: "ctx_pos ctx = length pre"
  shows "coap_parse_option b ctx =
    Some (Inr (Some v), (ctx_advance (length (option_bytes d v)) ctx)\<lparr>ctx_delta := ctx_delta ctx + int d\<rparr>)"
proof -
  let ?h = "push_bit 4 (ext_nibble d) OR ext_nibble (length v)"
  note nib = ext_nibble_less
  have used: "bused b = length pre + length (option_bytes d v) + length rest"
    using length_get_slice [OF wf] slice by simp
  have start: "buf_at_get b (ctx_pos ctx) = Some ?h"
    using buf_at_get_slice [OF wf, of "length pre"] used slice pos by (simp add: option_bytes_def nth_append)
  have ne: "?h \<noteq> COAP_MARKER" using option_header_ne_marker [OF d, of "ext_nibble (length v)"] nib [of "length v"] by auto
  have D: "decode_at b (unat (ext_nibble d)) (ctx_advance 1 ctx) = Some (Inr (length (ext_bytes d), d), ctx_advance 1 ctx)"
    by (rule decode_at_ext [OF wf d small, of "pre @ [?h]" "ext_bytes (length v) @ v @ rest"])
      (use slice pos in \<open>simp_all add: option_bytes_def\<close>)
  let ?c2 = "ctx_advance (1 + length (ext_bytes d)) ctx"
  have N: "decode_at b (unat (ext_nibble (length v))) ?c2 = Some (Inr (length (ext_bytes (length v)), length v), ?c2)"
    by (rule decode_at_ext [OF wf v small, of "pre @ [?h] @ ext_bytes d" "v @ rest"])
      (use slice pos in \<open>simp_all add: option_bytes_def\<close>)
  have "\<not> size_minus (bused b) (ctx_pos ctx) < 1"
    using used pos by (simp add: option_bytes_def)
  moreover have "\<not> size_minus (bused b) (ctx_pos ?c2) < length (ext_bytes (length v)) + length v"
    using used pos by (simp add: option_bytes_def)
  moreover have "take (length v) (drop (ctx_pos ?c2 + length (ext_bytes (length v))) (sol_buffer_get_slice b)) = v"
    using pos by (simp add: slice option_bytes_def)
  ultimately show ?thesis
    using start ne D N
    by (simp add: coap_parse_option_def option_header_get [OF nib nib] Let_def option_bytes_def add.assoc)
qed

lemma coap_parse_option_end:
  assumes wf: "buf_wf b" and slice: "sol_buffer_get_slice b = pre @ tail" and pos: "ctx_pos ctx = length pre"
    and tail: "tail = [] \<or> hd tail = COAP_MARKER"
  shows "coap_parse_option b ctx = Some (Inr None, ctx)"
proof (cases "tail = []")
  case True
  then show ?thesis using length_get_slice [OF wf] slice pos by (simp add: coap_parse_option_def)
next
  case False
  then have "ctx_pos ctx < bused b" using length_get_slice [OF wf] slice pos by (cases tail) auto
  moreover have "sol_buffer_get_slice b ! ctx_pos ctx = COAP_MARKER"
    using slice pos False tail by (simp add: nth_append hd_conv_nth)
  ultimately show ?thesis using buf_at_get_slice [OF wf] by (simp add: coap_parse_option_def)
qed

declare parse_options_loop.simps [simp del] add_option_loop.simps [simp del] find_options_loop.simps [simp del]
  uri_path_loop.simps [simp del]

subsection \<open>Reading all options\<close>

text \<open>The position of a context in a buffer that holds \<open>opts\<close> from there on.\<close>

definition at_options :: "sol_buffer \<Rightarrow> option_context \<Rightarrow> nat \<Rightarrow> (nat \<times> byte list) list \<Rightarrow> byte list \<Rightarrow> bool" where
  "at_options b ctx prev opts tail \<longleftrightarrow> buf_wf b \<and> bused b \<le> 32767 \<and> opts_ok prev opts \<and>
     (tail = [] \<or> hd tail = COAP_MARKER) \<and> ctx_delta ctx = int prev \<and> ctx_pos ctx \<le> bused b \<and>
     drop (ctx_pos ctx) (sol_buffer_get_slice b) = options_bytes prev opts @ tail"

lemma at_options_Nil:
  assumes "at_options b ctx prev [] tail"
  shows "coap_parse_option b ctx = Some (Inr None, ctx)"
proof (rule coap_parse_option_end)
  show "sol_buffer_get_slice b = take (ctx_pos ctx) (sol_buffer_get_slice b) @ tail"
    using assms append_take_drop_id [of "ctx_pos ctx" "sol_buffer_get_slice b"] by (simp add: at_options_def)
qed (use assms in \<open>auto simp: at_options_def length_get_slice\<close>)

lemma at_options_Cons:
  assumes "at_options b ctx prev ((c, v) # opts) tail"
  defines "ctx' \<equiv> (ctx_advance (length (option_bytes (c - prev) v)) ctx)\<lparr>ctx_delta := int c\<rparr>"
  shows "coap_parse_option b ctx = Some (Inr (Some v), ctx')" and "at_options b ctx' c opts tail"
proof -
  note at = assms(1) [unfolded at_options_def]
  let ?xs = "sol_buffer_get_slice b" and ?n = "length (option_bytes (c - prev) v)"
  have c: "prev \<le> c" "c - prev < 269" "length v < 269" using at by auto
  have slice: "?xs = take (ctx_pos ctx) ?xs @ option_bytes (c - prev) v @ options_bytes c opts @ tail"
    using append_take_drop_id [of "ctx_pos ctx" ?xs] at by simp
  have len: "length (take (ctx_pos ctx) ?xs) = ctx_pos ctx" using at by (simp add: length_get_slice)
  have "ctx_delta ctx + int (c - prev) = int c" using at c by simp
  then show "coap_parse_option b ctx = Some (Inr (Some v), ctx')"
    using coap_parse_option_bytes [OF _ _ c(2,3) slice] at len by (simp add: ctx'_def)
  have "drop (ctx_pos ctx + ?n) ?xs = drop ?n (drop (ctx_pos ctx) ?xs)" by (simp add: add.commute)
  also have "drop (ctx_pos ctx) ?xs = option_bytes (c - prev) v @ options_bytes c opts @ tail" using at by simp
  also have "drop ?n (option_bytes (c - prev) v @ options_bytes c opts @ tail) = options_bytes c opts @ tail" by simp
  finally have dr: "drop (ctx_pos ctx + ?n) ?xs = options_bytes c opts @ tail" .
  have "length (drop (ctx_pos ctx) ?xs) = bused b - ctx_pos ctx"
    using length_get_slice [of b] at unfolding length_drop by simp
  moreover have "length (drop (ctx_pos ctx) ?xs) \<ge> ?n" using at by simp
  ultimately have "ctx_pos ctx + ?n \<le> bused b" using at by linarith
  with at dr show "at_options b ctx' c opts tail" by (simp add: at_options_def ctx'_def)
qed

lemma parse_options_loop_bytes:
  "at_options b ctx prev opts tail \<Longrightarrow>
     parse_options_loop b ctx = Some (Inr (ctx_used ctx + length (options_bytes prev opts)))"
proof (induction opts arbitrary: ctx prev)
  case Nil
  then show ?case using at_options_Nil by (subst parse_options_loop.simps) simp
next
  case (Cons opt opts)
  obtain c v where [simp]: "opt = (c, v)" by (cases opt)
  note at = at_options_Cons [OF Cons.prems [simplified]]
  show ?case using Cons.IH [OF at(2)] at(1) by (subst parse_options_loop.simps) simp
qed

lemma opts_ok_ge: "opts_ok prev opts \<Longrightarrow> (c, v) \<in> set opts \<Longrightarrow> prev \<le> c"
proof (induction opts arbitrary: prev)
  case (Cons opt opts)
  then show ?case by (cases opt) (auto dest: le_trans)
qed simp

lemma last_code_simps [simp]:
  "last_code prev [] = prev" "last_code prev ((c, v) # opts) = last_code c opts"
  by (simp_all add: last_code_def)

lemma last_code_ge: "opts_ok prev opts \<Longrightarrow> prev \<le> last_code prev opts"
proof (induction opts arbitrary: prev)
  case (Cons opt opts)
  then show ?case by (cases opt) (auto dest: le_trans)
qed simp

lemma add_option_loop_bytes:
  "at_options b ctx prev opts tail \<Longrightarrow> prev \<le> code \<Longrightarrow>
     (last_code prev opts \<le> code \<longrightarrow>
        (\<exists>ctx'. add_option_loop b code ctx = Some (Inr ctx') \<and>
           ctx_pos ctx' = ctx_pos ctx + length (options_bytes prev opts) \<and> ctx_delta ctx' = int (last_code prev opts)))
     \<and> (code < last_code prev opts \<longrightarrow> add_option_loop b code ctx = Some (Inl EINVAL))"
proof (induction opts arbitrary: ctx prev)
  case Nil
  have "add_option_loop b code ctx = Some (Inr ctx)"
    using at_options_Nil [OF Nil.prems(1)] by (subst add_option_loop.simps) simp
  with Nil.prems show ?case by (simp add: at_options_def)
next
  case (Cons opt opts)
  obtain c v where [simp]: "opt = (c, v)" by (cases opt)
  let ?ctx' = "(ctx_advance (length (option_bytes (c - prev) v)) ctx)\<lparr>ctx_delta := int c\<rparr>"
  note at = at_options_Cons [OF Cons.prems(1) [simplified]]
  have le: "c \<le> last_code c opts" using at(2) last_code_ge by (simp add: at_options_def)
  have dl: "ctx_delta ctx \<le> int code" using Cons.prems by (simp add: at_options_def)
  show ?case
  proof (cases "c \<le> code")
    case True
    then have "add_option_loop b code ctx = add_option_loop b code ?ctx'"
      using at(1) dl by (subst add_option_loop.simps) simp
    with Cons.IH [OF at(2) True] show ?thesis by (auto simp: add.assoc)
  next
    case False
    then have "add_option_loop b code ctx = Some (Inl EINVAL)"
      using at(1) dl by (subst add_option_loop.simps) simp
    with False le show ?thesis by simp
  qed
qed

definition option_values :: "nat \<Rightarrow> (nat \<times> byte list) list \<Rightarrow> byte list list" where
  "option_values code opts = map snd (filter (\<lambda>(c, v). c = code) opts)"

lemma option_values_simps [simp]:
  "option_values code [] = []"
  "option_values code ((c, v) # opts) = (if c = code then v # option_values code opts else option_values code opts)"
  by (simp_all add: option_values_def)

lemma option_values_none: "opts_ok prev opts \<Longrightarrow> code < prev \<Longrightarrow> option_values code opts = []"
  using opts_ok_ge by (fastforce simp: option_values_def filter_empty_conv)

lemma find_options_loop_bytes:
  "at_options b ctx prev opts tail \<Longrightarrow>
     find_options_loop b code veclen ctx vec = Some (Inr (vec @ take (veclen - length vec) (option_values code opts)))"
proof (induction opts arbitrary: ctx prev vec)
  case Nil
  then show ?case using at_options_Nil by (subst find_options_loop.simps) simp
next
  case (Cons opt opts)
  obtain c v where [simp]: "opt = (c, v)" by (cases opt)
  let ?ctx' = "(ctx_advance (length (option_bytes (c - prev) v)) ctx)\<lparr>ctx_delta := int c\<rparr>"
  note at = at_options_Cons [OF Cons.prems [simplified]]
  have dl: "ctx_delta ctx = int prev" "opts_ok prev (opt # opts)" using Cons.prems by (simp_all add: at_options_def)
  show ?case
  proof (cases "prev \<le> code \<and> length vec < veclen")
    case True
    then have "find_options_loop b code veclen ctx vec =
        find_options_loop b code veclen ?ctx' (if c = code then vec @ [v] else vec)"
      using at(1) dl(1) by (subst find_options_loop.simps) simp
    also have "\<dots> = Some (Inr (vec @ take (veclen - length vec) (option_values code (opt # opts))))"
      using Cons.IH [OF at(2)] True by (simp add: take_Cons' Suc_diff_Suc)
    finally show ?thesis .
  next
    case False
    then show ?thesis using dl option_values_none [OF dl(2), of code]
      by (subst find_options_loop.simps) auto
  qed
qed

subsection \<open>Writing an option\<close>

text \<open>
  \<open>grows xs flags res P\<close>: the call stayed inside its memory, the contents still begin with \<open>xs\<close>,
  and a success has result \<open>x\<close> and contents \<open>ys\<close> with \<open>P x ys\<close>.
\<close>

definition grows :: "byte list \<Rightarrow> byte \<Rightarrow> ((errno + 'a) \<times> sol_buffer) option \<Rightarrow> ('a \<Rightarrow> byte list \<Rightarrow> bool) \<Rightarrow> bool" where
  "grows xs flags res P \<longleftrightarrow> (\<exists>r b'. res = Some (r, b') \<and> buf_wf b' \<and> bflags b' = flags \<and>
     (\<exists>ys. sol_buffer_get_slice b' = xs @ ys) \<and> (\<forall>x. r = Inr x \<longrightarrow> P x (sol_buffer_get_slice b')))"

lemma grows_on_ok:
  assumes "grows xs flags m Q"
    and "\<And>x b. buf_wf b \<Longrightarrow> bflags b = flags \<Longrightarrow> Q x (sol_buffer_get_slice b) \<Longrightarrow> grows xs flags (k x b) P"
  shows "grows xs flags (on_ok m k) P"
proof -
  obtain r b' where m: "m = Some (r, b')" "buf_wf b'" "bflags b' = flags"
    "\<exists>ys. sol_buffer_get_slice b' = xs @ ys" "\<forall>x. r = Inr x \<longrightarrow> Q x (sol_buffer_get_slice b')"
    using assms(1) by (auto simp: grows_def)
  show ?thesis
  proof (cases r)
    case (Inl e)
    with m show ?thesis by (simp add: grows_def)
  next
    case (Inr x)
    with m assms(2) [of b' x] show ?thesis by simp
  qed
qed

lemma grows_recode:
  assumes "grows xs flags m Q"
    and "\<And>x b. buf_wf b \<Longrightarrow> bflags b = flags \<Longrightarrow> Q x (sol_buffer_get_slice b) \<Longrightarrow> grows xs flags (k x b) P"
  shows "grows xs flags (do { (r, b) \<leftarrow> m; (case r of Inl _ \<Rightarrow> Some (Inl EINVAL, b) | Inr x \<Rightarrow> k x b) }) P"
proof -
  obtain r b' where m: "m = Some (r, b')" "buf_wf b'" "bflags b' = flags"
    "\<exists>ys. sol_buffer_get_slice b' = xs @ ys" "\<forall>x. r = Inr x \<longrightarrow> Q x (sol_buffer_get_slice b')"
    using assms(1) by (auto simp: grows_def)
  show ?thesis
  proof (cases r)
    case (Inl e)
    with m show ?thesis by (simp add: grows_def)
  next
    case (Inr x)
    with m assms(2) [of b' x] show ?thesis by simp
  qed
qed

lemma grows_late:
  assumes "buf_refines_late b res (xs @ ys)" and "sol_buffer_get_slice b = xs @ zs" and "bflags b = flags"
  shows "grows xs flags res (\<lambda>_ s. s = xs @ ys)"
proof -
  obtain r b' where r: "res = Some (r, b')" using assms(1) by (auto simp: buf_refines_late_def split: option.splits)
  show ?thesis using assms r by (cases r) (auto simp: buf_refines_late_def grows_def)
qed

lemma grows_refines:
  "buf_refines b res (xs @ ys) \<Longrightarrow> sol_buffer_get_slice b = xs @ zs \<Longrightarrow> bflags b = flags \<Longrightarrow>
     grows xs flags res (\<lambda>_ s. s = xs @ ys)"
  by (rule grows_late [OF refines_imp_late])

lemma grows_return:
  "buf_wf b \<Longrightarrow> bflags b = flags \<Longrightarrow> sol_buffer_get_slice b = xs @ ys \<Longrightarrow> P x (xs @ ys) \<Longrightarrow>
     grows xs flags (Some (Inr x, b)) P"
  by (simp add: grows_def)

lemma be16_bytes:
  assumes "n < 65536"
  shows "u16_store (sol_util_cpu_to_be16 (word_of_int (int n))) = [of_nat (n div 256), of_nat (n mod 256)]"
proof -
  let ?w = "word_of_int (int n) :: 16 word"
  have hi: "ucast (sol_util_cpu_to_be16 ?w) = (ucast (drop_bit 8 ?w) :: byte)"
    and lo: "ucast (drop_bit 8 (sol_util_cpu_to_be16 ?w)) = (ucast ?w :: byte)"
    by (rule byte_eqI; simp add: sol_util_cpu_to_be16_def sol_util_uint16_bytes_swap_def bit_simps)+
  have "unat ?w = n" using assms by (simp add: unat_of_nat take_bit_eq_mod)
  then have "unat (drop_bit 8 ?w) = n div 256" "unat (ucast ?w :: byte) = n mod 256"
    using assms by (simp_all add: unsigned_drop_bit_eq unsigned_ucast_eq take_bit_eq_mod drop_bit_eq_div [where 'a = nat])
  then have "ucast (drop_bit 8 ?w) = (of_nat (n div 256) :: byte)" "ucast ?w = (of_nat (n mod 256) :: byte)"
    by (simp_all add: word_unat_eq_iff unsigned_ucast_eq unat_of_nat take_bit_eq_mod)
  with hi lo show ?thesis by (simp add: u16_store_def)
qed

lemma delta_encode_grows:
  assumes wf: "buf_wf b" and l: "alloc_bounded l" and slice: "sol_buffer_get_slice b = xs @ zs"
    and off: "off = bused b" and n: "n < 65536 + 269" and fl: "bflags b = flags"
  shows "grows xs flags (delta_encode l (int n) off b)
    (\<lambda>(r, data) s. r = length (ext_bytes n) \<and> data = ext_nibble n \<and> s = xs @ zs @ ext_bytes n)"
proof -
  consider "n < 13" | "13 \<le> n" "n < 269" | "269 \<le> n" by linarith
  then show ?thesis
  proof cases
    case 1
    then show ?thesis using wf slice fl
      by (simp add: delta_encode_def ext_bytes_def ext_nibble_def grows_def)
  next
    case 2
    then obtain k where k: "n = 13 + k" using le_Suc_ex by blast
    have "buf_refines b (sol_buffer_insert_char l off (of_nat k) b) (xs @ zs @ [of_nat k])"
      using sol_buffer_insert_char_refines [OF wf l, of off "of_nat k"] off slice length_get_slice [OF wf] by simp
    from grows_refines [OF this slice fl] have
      "grows xs flags (on_ok (sol_buffer_insert_char l off (of_nat k) b) (\<lambda>_ b. Some (Inr (1, 13), b)))
        (\<lambda>(r, data) s. r = length (ext_bytes n) \<and> data = ext_nibble n \<and> s = xs @ zs @ ext_bytes n)"
      by (rule grows_on_ok) (use 2 k in \<open>auto intro!: grows_return simp: ext_bytes_def ext_nibble_def\<close>)
    then show ?thesis using 2 k by (simp add: delta_encode_def)
  next
    case 3
    then obtain k where k: "n = 269 + k" using le_Suc_ex by blast
    let ?bs = "[of_nat (k div 256), of_nat (k mod 256)] :: byte list"
    have "buf_refines b (sol_buffer_insert_bytes l off ?bs b) (xs @ zs @ ?bs)"
      using sol_buffer_insert_bytes_refines [OF wf l, of ?bs off] off slice length_get_slice [OF wf]
      by (simp add: SSIZE_MAX_def)
    from grows_refines [OF this slice fl] have
      "grows xs flags (on_ok (sol_buffer_insert_bytes l off ?bs b) (\<lambda>_ b. Some (Inr (2, 14), b)))
        (\<lambda>(r, data) s. r = length (ext_bytes n) \<and> data = ext_nibble n \<and> s = xs @ zs @ ext_bytes n)"
      by (rule grows_on_ok) (use 3 k in \<open>auto intro!: grows_return simp: ext_bytes_def ext_nibble_def\<close>)
    then show ?thesis using 3 k n be16_bytes [of k] by (simp add: delta_encode_def)
  qed
qed

lemma buf_at_modify_ok:
  assumes wf: "buf_wf b" and slice: "sol_buffer_get_slice b = xs @ c # zs"
  obtains b' where "buf_at_modify (length xs) f b = Some b'" and "buf_wf b'" and "bflags b' = bflags b"
    and "bused b' = bused b" and "sol_buffer_get_slice b' = xs @ f c # zs"
proof -
  have used: "bused b = length xs + 1 + length zs" using length_get_slice [OF wf] slice by simp
  note cap = wf [unfolded buf_wf_def]
  have get: "buf_get (length xs) b = Some c"
    using buf_at_get_slice [OF wf, of "length xs"] used slice
    by (simp add: buf_at_get_def sol_buffer_at_def nth_append)
  let ?b' = "with_mem (overwrite (length xs) [f c] (buf_mem b)) b"
  note w = overwrite_buffer [OF wf, of "length xs" "[f c]"]
  have m: "max (bused b) (length xs + length [f c]) = bused b" using used by simp
  have "buf_wf ?b'" "sol_buffer_get_slice ?b' = overwrite (length xs) [f c] (sol_buffer_get_slice b)"
    "buf_write (length xs) [f c] b = Some ?b'"
    using w [unfolded m with_mem_same_used] used cap by (simp_all only:) simp_all
  moreover have "overwrite (length xs) [f c] (sol_buffer_get_slice b) = xs @ f c # zs"
    by (simp add: slice overwrite_def)
  ultimately show thesis
    using that [of ?b'] get used by (simp add: buf_at_modify_def sol_buffer_at_def)
qed

lemma option_header_set:
  assumes "d < 16" and "n < 16"
  shows "coap_option_header_set_delta 0 d = push_bit 4 d" and "coap_option_header_set_len c n = c OR n"
proof -
  note hi = take_bit_high [OF nibble_take [OF assms(1)]] take_bit_high [OF nibble_take [OF assms(2)]]
  show "coap_option_header_set_delta 0 d = push_bit 4 d" "coap_option_header_set_len c n = c OR n"
    by (rule byte_eqI; simp add: coap_option_header_set_delta_def coap_option_header_set_len_def bit_simps hi)+
qed

lemma grows_modify:
  assumes wf: "buf_wf b" and slice: "sol_buffer_get_slice b = xs @ c # zs" and fl: "bflags b = flags" and pos: "pos = length xs"
    and "\<And>b1. buf_wf b1 \<Longrightarrow> bflags b1 = flags \<Longrightarrow> bused b1 = bused b \<Longrightarrow>
      sol_buffer_get_slice b1 = xs @ f c # zs \<Longrightarrow> grows xs flags (k b1) P"
  shows "grows xs flags (do { b \<leftarrow> buf_at_modify pos f b; k b }) P"
proof -
  obtain b1 where "buf_at_modify (length xs) f b = Some b1" "buf_wf b1" "bflags b1 = bflags b" "bused b1 = bused b"
    "sol_buffer_get_slice b1 = xs @ f c # zs" using buf_at_modify_ok [OF wf slice] .
  with assms(5) fl pos show ?thesis by simp
qed

text \<open>The part of \<^verbatim>\<open>coap_option_encode\<close> behind the number: the length and the value.\<close>

lemma encode_value_grows:
  assumes wf: "buf_wf b" and l: "alloc_bounded l" and v: "length v \<le> 65535" and fl: "bflags b = flags"
    and slice: "sol_buffer_get_slice b = xs @ h # es" and off: "off = 1 + length es" and pos: "pos = length xs"
  shows "grows xs flags
    (on_ok (delta_encode l (int (length v)) (pos + off) b) (\<lambda>(r, data) b.
       do {
         b \<leftarrow> buf_at_modify pos (\<lambda>c. coap_option_header_set_len c data) b;
         on_ok (sol_buffer_insert_bytes l (pos + (off + r)) v b) (\<lambda>_ b. Some (Inr (off + r + length v), b))
       }))
    (\<lambda>n s. n = off + length (ext_bytes (length v)) + length v \<and>
       s = xs @ (h OR ext_nibble (length v)) # es @ ext_bytes (length v) @ v)"
proof -
  let ?n = "length v"
  define hs where "hs = h OR ext_nibble ?n"
  have used: "pos + off = bused b" using length_get_slice [OF wf] slice off pos by simp
  have body: "grows xs flags (do {
         b \<leftarrow> buf_at_modify pos (\<lambda>c. coap_option_header_set_len c (ext_nibble ?n)) b1;
         on_ok (sol_buffer_insert_bytes l (pos + (off + length (ext_bytes ?n))) v b)
           (\<lambda>_ b. Some (Inr (off + length (ext_bytes ?n) + ?n), b))
       }) (\<lambda>n s. n = off + length (ext_bytes ?n) + ?n \<and> s = xs @ hs # es @ ext_bytes ?n @ v)"
    if b1: "buf_wf b1" "bflags b1 = flags" "sol_buffer_get_slice b1 = xs @ h # es @ ext_bytes ?n" for b1
  proof (rule grows_modify [OF b1(1,3,2) pos])
    fix b2
    assume b2: "buf_wf b2" "bflags b2 = flags" "bused b2 = bused b1"
      "sol_buffer_get_slice b2 = xs @ coap_option_header_set_len h (ext_nibble ?n) # es @ ext_bytes ?n"
    have slice2: "sol_buffer_get_slice b2 = xs @ hs # es @ ext_bytes ?n"
      using b2(4) option_header_set(2) [OF ext_nibble_less ext_nibble_less] by (simp add: hs_def)
    have at: "pos + (off + length (ext_bytes ?n)) = bused b2"
      using length_get_slice [OF b2(1)] slice2 pos off by simp
    have "buf_refines b2 (sol_buffer_insert_bytes l (pos + (off + length (ext_bytes ?n))) v b2) (xs @ hs # es @ ext_bytes ?n @ v)"
      using sol_buffer_insert_bytes_refines [OF b2(1) l _ eq_imp_le [OF at], of v] v slice2 length_get_slice [OF b2(1)] at
      by (simp add: SSIZE_MAX_def)
    from grows_refines [OF this slice2 b2(2)]
    show "grows xs flags (on_ok (sol_buffer_insert_bytes l (pos + (off + length (ext_bytes ?n))) v b2)
        (\<lambda>_ b. Some (Inr (off + length (ext_bytes ?n) + ?n), b)))
      (\<lambda>n s. n = off + length (ext_bytes ?n) + ?n \<and> s = xs @ hs # es @ ext_bytes ?n @ v)"
      by (rule grows_on_ok) (auto intro!: grows_return)
  qed
  show ?thesis
    by (rule grows_on_ok [OF delta_encode_grows [OF wf l slice used _ fl, where n = ?n]])
      (use v body in \<open>auto simp: hs_def\<close>)
qed

lemma coap_option_encode_grows:
  assumes wf: "buf_wf b" and l: "alloc_bounded l" and v: "length v \<le> 65535" and d: "int code - ctx_delta ctx = int d" "d \<le> 65535"
    and pos: "ctx_pos ctx = bused b"
  shows "grows (sol_buffer_get_slice b) (bflags b) (coap_option_encode l ctx code v b)
    (\<lambda>n s. n = length (option_bytes d v) \<and> s = sol_buffer_get_slice b @ option_bytes d v)"
proof -
  define xs where "xs = sol_buffer_get_slice b"
  have at: "ctx_pos ctx = length xs" using length_get_slice [OF wf] pos by (simp add: xs_def)
  have "buf_refines_late b (sol_buffer_set_char_at l (ctx_pos ctx) 0 b) (xs @ [0])"
    using sol_buffer_set_char_at_refines [OF wf l, of "ctx_pos ctx" 0] pos at by (simp add: overwrite_def flip: xs_def)
  from grows_late [OF this, of "[]"] have zero:
    "grows xs (bflags b) (sol_buffer_set_char_at l (length xs) 0 b) (\<lambda>_ s. s = xs @ [0])"
    by (simp add: at xs_def)
  have num: "grows xs (bflags b) (do {
        (r, b) \<leftarrow> delta_encode l (int d) (length xs + 1) b1;
        (case r of Inl _ \<Rightarrow> Some (Inl EINVAL, b)
         | Inr (r, data) \<Rightarrow> do {
               b \<leftarrow> buf_at_modify (length xs) (\<lambda>c. coap_option_header_set_delta c data) b;
               on_ok (delta_encode l (int (length v)) (length xs + (1 + r)) b) (\<lambda>(r', data) b.
                 do {
                   b \<leftarrow> buf_at_modify (length xs) (\<lambda>c. coap_option_header_set_len c data) b;
                   on_ok (sol_buffer_insert_bytes l (length xs + ((1 + r) + r')) v b) (\<lambda>_ b.
                     Some (Inr ((1 + r) + r' + length v), b))
                 })
             }) }) (\<lambda>n s. n = length (option_bytes d v) \<and> s = xs @ option_bytes d v)"
    if b1: "buf_wf b1" "bflags b1 = bflags b" "sol_buffer_get_slice b1 = xs @ [0]" for b1
  proof (rule grows_recode [OF delta_encode_grows [OF b1(1) l b1(3) _ _ b1(2), where n = d]])
    show "length xs + 1 = bused b1" using length_get_slice [OF b1(1)] b1(3) by simp
    show "d < 65536 + 269" using d by simp
  next
    fix x b2
    assume b2: "buf_wf b2" "bflags b2 = bflags b" and
      x: "(case x of (r, data) \<Rightarrow> \<lambda>s. r = length (ext_bytes d) \<and> data = ext_nibble d \<and> s = xs @ [0] @ ext_bytes d)
        (sol_buffer_get_slice b2)"
    then have [simp]: "x = (length (ext_bytes d), ext_nibble d)" and s2: "sol_buffer_get_slice b2 = xs @ 0 # ext_bytes d"
      by (auto split: prod.splits)
    show "grows xs (bflags b) (case x of (r, data) \<Rightarrow> do {
               b \<leftarrow> buf_at_modify (length xs) (\<lambda>c. coap_option_header_set_delta c data) b2;
               on_ok (delta_encode l (int (length v)) (length xs + (1 + r)) b) (\<lambda>(r', data) b.
                 do {
                   b \<leftarrow> buf_at_modify (length xs) (\<lambda>c. coap_option_header_set_len c data) b;
                   on_ok (sol_buffer_insert_bytes l (length xs + ((1 + r) + r')) v b) (\<lambda>_ b.
                     Some (Inr ((1 + r) + r' + length v), b))
                 })
             }) (\<lambda>n s. n = length (option_bytes d v) \<and> s = xs @ option_bytes d v)"
      unfolding \<open>x = _\<close> prod.case
    proof (rule grows_modify [OF b2(1) s2 b2(2) refl])
      fix b3
      assume b3: "buf_wf b3" "bflags b3 = bflags b"
        "sol_buffer_get_slice b3 = xs @ coap_option_header_set_delta 0 (ext_nibble d) # ext_bytes d"
      show "grows xs (bflags b) (on_ok (delta_encode l (int (length v)) (length xs + (1 + length (ext_bytes d))) b3) (\<lambda>(r', data) b.
                 do {
                   b \<leftarrow> buf_at_modify (length xs) (\<lambda>c. coap_option_header_set_len c data) b;
                   on_ok (sol_buffer_insert_bytes l (length xs + ((1 + length (ext_bytes d)) + r')) v b) (\<lambda>_ b.
                     Some (Inr ((1 + length (ext_bytes d)) + r' + length v), b))
                 })) (\<lambda>n s. n = length (option_bytes d v) \<and> s = xs @ option_bytes d v)"
        using encode_value_grows [OF b3(1) l v b3(2) b3(3) refl refl] option_header_set(1) [OF ext_nibble_less ext_nibble_less]
        by (simp add: option_bytes_def add.assoc)
    qed
  qed
  show ?thesis
    unfolding coap_option_encode_def Let_def d(1) at xs_def [symmetric]
    by (rule grows_on_ok [OF zero], rule num)
qed

section \<open>Packets and what they stand for\<close>

text \<open>
  The packet holds the header \<open>h\<close>, the token, the options and, behind a marker, the payload. A payload
  that \<^verbatim>\<open>sol_coap_packet_get_payload\<close> or the parser announced starts at \<open>pkt_payload_start\<close>.
\<close>

fun payload_bytes :: "byte list option \<Rightarrow> byte list" where
  "payload_bytes None = []"
| "payload_bytes (Some p) = COAP_MARKER # p"

definition message_bytes :: "byte list \<Rightarrow> byte list \<Rightarrow> (nat \<times> byte list) list \<Rightarrow> byte list option \<Rightarrow> byte list" where
  "message_bytes h token opts payload = h @ token @ options_bytes 0 opts @ payload_bytes payload"

definition packet_holds ::
    "sol_coap_packet \<Rightarrow> byte list \<Rightarrow> byte list \<Rightarrow> (nat \<times> byte list) list \<Rightarrow> byte list option \<Rightarrow> bool" where
  "packet_holds pkt h token opts payload \<longleftrightarrow> buf_wf (pkt_buf pkt) \<and> bused (pkt_buf pkt) \<le> 32767 \<and>
     length h = coap_header_size \<and> length token \<le> 8 \<and> unat (h ! 0 AND 0x0F) = length token \<and> opts_ok 0 opts \<and>
     sol_buffer_get_slice (pkt_buf pkt) = message_bytes h token opts payload"

lemma packet_holds_header_len:
  assumes "packet_holds pkt h token opts payload"
  shows "coap_get_header_len pkt = Some (Inr (coap_header_size + length token))"
proof -
  note p = assms [unfolded packet_holds_def message_bytes_def]
  have used: "bused (pkt_buf pkt) = length (message_bytes h token opts payload)"
    using length_get_slice [of "pkt_buf pkt"] p by (simp add: message_bytes_def)
  have "buf_at_get (pkt_buf pkt) 0 = Some (h ! 0)"
    using buf_at_get_slice [of "pkt_buf pkt" 0] p used by (simp add: message_bytes_def nth_append coap_header_size_def)
  with p used show ?thesis by (simp add: coap_get_header_len_def message_bytes_def)
qed

lemma packet_holds_at_options:
  assumes "packet_holds pkt h token opts payload"
  shows "at_options (pkt_buf pkt) (start_context (coap_header_size + length token)) 0 opts (payload_bytes payload)"
proof -
  note p = assms [unfolded packet_holds_def message_bytes_def]
  have used: "bused (pkt_buf pkt) = length (message_bytes h token opts payload)"
    using length_get_slice [of "pkt_buf pkt"] p by (simp add: message_bytes_def)
  show ?thesis using p used by (cases payload) (simp_all add: at_options_def start_context_def message_bytes_def)
qed

lemma options_bytes_append:
  "options_bytes prev (opts @ [(c, v)]) = options_bytes prev opts @ option_bytes (c - last_code prev opts) v"
proof (induction opts arbitrary: prev)
  case (Cons opt opts)
  then show ?case by (cases opt) simp
qed simp

lemma opts_ok_append:
  "opts_ok prev (opts @ [(c, v)]) \<longleftrightarrow> opts_ok prev opts \<and> last_code prev opts \<le> c \<and>
     c - last_code prev opts < 269 \<and> length v < 269"
proof (induction opts arbitrary: prev)
  case (Cons opt opts)
  then show ?case by (cases opt) auto
qed simp

lemma packet_length:
  "packet_holds pkt h token opts payload \<Longrightarrow> bused (pkt_buf pkt) = length (message_bytes h token opts payload)"
  using length_get_slice [of "pkt_buf pkt"] by (simp add: packet_holds_def)

text \<open>
  C24. A complete message (header, token, options in order, and optionally a marker with a payload) of at
  most 32767 bytes whose option number differences and option lengths are all below 269, so that each
  needs at most one extension byte, is parsed: parsing succeeds, finds the first byte of a non-empty
  payload and reports no payload otherwise, and finding options then returns the values of the options
  with the given number, in order and at most as many as asked for. Larger differences and lengths are
  left out because the decoder misreads their two extension bytes (\<open>decode_delta_two_bytes\<close>).
\<close>

theorem coap_message_parse:
  assumes "packet_holds pkt h token opts payload"
  shows "\<exists>pkt'. coap_packet_parse pkt = Some (Inr (), pkt') \<and> pkt_buf pkt' = pkt_buf pkt \<and>
    (case payload of Some p \<Rightarrow> p \<noteq> [] \<longrightarrow> drop (pkt_payload_start pkt') (sol_buffer_get_slice (pkt_buf pkt')) = p \<and>
        pkt_payload_start pkt' + length p = bused (pkt_buf pkt')
     | None \<Rightarrow> pkt_payload_start pkt' = 0) \<and>
    (payload = Some [] \<longrightarrow> pkt_payload_start pkt' = 0) \<and>
    (\<forall>code n. sol_coap_find_options pkt' code n = Some (Inr (take n (option_values code opts))))"
proof -
  let ?off = "coap_header_size + length token"
  note hl = packet_holds_header_len [OF assms] and at = packet_holds_at_options [OF assms]
  have used: "bused (pkt_buf pkt) = ?off + length (options_bytes 0 opts) + length (payload_bytes payload)"
    using packet_length [OF assms] assms by (simp add: packet_holds_def message_bytes_def)
  have hlen: "length h = coap_header_size" using assms by (simp add: packet_holds_def)
  have slice: "sol_buffer_get_slice (pkt_buf pkt) = h @ token @ options_bytes 0 opts @ payload_bytes payload"
    using assms by (simp add: packet_holds_def message_bytes_def)
  define start where "start = (case payload of None \<Rightarrow> 0 | Some p \<Rightarrow> if p = [] then 0 else ?off + length (options_bytes 0 opts) + 1)"
  have parse: "coap_packet_parse pkt = Some (Inr (), pkt\<lparr>pkt_payload_start := start\<rparr>)"
    using parse_options_loop_bytes [OF at] hl used
    by (cases payload) (auto simp: coap_packet_parse_def coap_parse_options_def start_context_def start_def)
  have find: "sol_coap_find_options (pkt\<lparr>pkt_payload_start := start\<rparr>) code n = Some (Inr (take n (option_values code opts)))" for code n
    using find_options_loop_bytes [OF at, of code n "[]"] hl
    by (simp add: sol_coap_find_options_def coap_get_header_len_def)
  show ?thesis
    by (intro exI conjI, rule parse) (use find used hlen in \<open>auto simp: start_def slice split: option.splits\<close>)
qed

text \<open>A request for the resource \<open>a\<close> with token 9 and the payload byte 1.\<close>

definition sample_packet :: sol_coap_packet where
  "sample_packet = \<lparr>pkt_refcnt = 1, pkt_buf = sol_buffer_init\<lparr>
     bdata := Some [0x41, 1, 0, 7, 9, 0xB1, 0x61, 0xFF, 1], bcapacity := 9, bused := 9,
     bflags := SOL_BUFFER_FLAGS_NO_NUL_BYTE\<rparr>, pkt_payload_start = 0\<rparr>"

lemma buf_wf_block:
  "length blk \<le> SSIZE_MAX \<Longrightarrow> bused b \<le> length blk \<Longrightarrow> bdata b = Some blk \<Longrightarrow> bcapacity b = length blk \<Longrightarrow>
     breleased b = [] \<Longrightarrow> buf_wf b"
  by (simp add: buf_wf_def buf_mem_def)

lemma sample_packet_holds: "packet_holds sample_packet [0x41, 1, 0, 7] [9] [(11, [0x61])] (Some [1])"
proof -
  have "buf_wf (pkt_buf sample_packet)"
    by (rule buf_wf_block [of "[0x41, 1, 0, 7, 9, 0xB1, 0x61, 0xFF, 1]"])
      (simp_all add: sample_packet_def sol_buffer_init_def SSIZE_MAX_def)
  then show ?thesis
    by (simp add: packet_holds_def message_bytes_def sample_packet_def coap_header_size_def sol_buffer_get_slice_def
      buf_mem_def option_bytes_def ext_nibble_def ext_bytes_def COAP_MARKER_def)
qed

theorem coap_message_parse_witness:
  "\<exists>pkt'. coap_packet_parse sample_packet = Some (Inr (), pkt') \<and> pkt_buf pkt' = pkt_buf sample_packet \<and>
    (drop (pkt_payload_start pkt') (sol_buffer_get_slice (pkt_buf pkt')) = [1] \<and>
        pkt_payload_start pkt' + 1 = bused (pkt_buf pkt')) \<and>
    (\<forall>code n. sol_coap_find_options pkt' code n = Some (Inr (take n (option_values code [(11, [0x61])]))))"
  using coap_message_parse [OF sample_packet_holds] by auto

text \<open>
  C26. Adding an option to a packet without payload whose options so far have number differences and
  lengths below 269 (the new one may have any) is memory safe and, when it succeeds, the packet holds the
  same message with the option at the end; a failure only ever leaves bytes behind the old message.
  Options must come in order: a smaller number than the last one is refused without a change, and a
  packet whose payload was started takes no option. Behind an option with a larger difference or length
  the decoder misreads its two extension bytes (\<open>decode_delta_two_bytes\<close>), and the new difference would be
  computed from a wrong number.
\<close>

theorem sol_coap_add_option_spec:
  assumes "packet_holds pkt h token opts None" and "alloc_bounded l" and "code \<le> 65535" and "length v \<le> 65535"
  shows "\<exists>r pkt'. sol_coap_add_option l pkt code v = Some (r, pkt') \<and>
    (if pkt_payload_start pkt \<noteq> 0 \<or> code < last_code 0 opts then r = Inl EINVAL \<and> pkt' = pkt
     else buf_wf (pkt_buf pkt') \<and> pkt_payload_start pkt' = 0 \<and> pkt_refcnt pkt' = pkt_refcnt pkt \<and>
       (case r of Inl e \<Rightarrow> \<exists>ys. sol_buffer_get_slice (pkt_buf pkt') = message_bytes h token opts None @ ys
        | Inr _ \<Rightarrow> sol_buffer_get_slice (pkt_buf pkt') = message_bytes h token (opts @ [(code, v)]) None))"
proof -
  let ?b = "pkt_buf pkt" and ?ctx0 = "start_context (coap_header_size + length token)"
  note hl = packet_holds_header_len [OF assms(1)] and at = packet_holds_at_options [OF assms(1)]
  have slice: "sol_buffer_get_slice ?b = message_bytes h token opts None" and wf: "buf_wf ?b"
    and used: "bused ?b = coap_header_size + length token + length (options_bytes 0 opts)"
    using packet_length [OF assms(1)] assms(1) by (simp_all add: packet_holds_def message_bytes_def)
  consider "pkt_payload_start pkt \<noteq> 0" | "pkt_payload_start pkt = 0" "code < last_code 0 opts"
    | "pkt_payload_start pkt = 0" "last_code 0 opts \<le> code" by linarith
  then show ?thesis
  proof cases
    case 1
    then show ?thesis by (simp add: sol_coap_add_option_def)
  next
    case 2
    then have "add_option_loop ?b code ?ctx0 = Some (Inl EINVAL)" using add_option_loop_bytes [OF at, of code] by simp
    with 2 hl show ?thesis by (simp add: sol_coap_add_option_def)
  next
    case 3
    then obtain ctx where ctx: "add_option_loop ?b code ?ctx0 = Some (Inr ctx)" "ctx_delta ctx = int (last_code 0 opts)"
      "ctx_pos ctx = bused ?b"
      using add_option_loop_bytes [OF at, of code] used by (auto simp: start_context_def)
    have "grows (sol_buffer_get_slice ?b) (bflags ?b) (coap_option_encode l ctx code v ?b)
      (\<lambda>n s. n = length (option_bytes (code - last_code 0 opts) v) \<and>
         s = sol_buffer_get_slice ?b @ option_bytes (code - last_code 0 opts) v)"
      by (rule coap_option_encode_grows) (use wf assms ctx 3 in simp_all)
    then obtain r b' where enc: "coap_option_encode l ctx code v ?b = Some (r, b')" "buf_wf b'"
      "\<exists>ys. sol_buffer_get_slice b' = sol_buffer_get_slice ?b @ ys"
      "\<forall>n. r = Inr n \<longrightarrow> sol_buffer_get_slice b' = sol_buffer_get_slice ?b @ option_bytes (code - last_code 0 opts) v"
      by (auto simp: grows_def)
    with 3 hl ctx(1) slice show ?thesis
      by (cases r) (auto simp: sol_coap_add_option_def pkt_on_buf_def message_bytes_def options_bytes_append)
  qed
qed

definition empty_packet :: sol_coap_packet where
  "empty_packet = \<lparr>pkt_refcnt = 1, pkt_buf = sol_buffer_init\<lparr>
     bdata := Some [0x40, 0, 0, 0], bcapacity := 4, bused := 4, bflags := SOL_BUFFER_FLAGS_NO_NUL_BYTE\<rparr>,
     pkt_payload_start = 0\<rparr>"

lemma empty_packet_holds: "packet_holds empty_packet [0x40, 0, 0, 0] [] [] None"
proof -
  have "buf_wf (pkt_buf empty_packet)"
    by (rule buf_wf_block [of "[0x40, 0, 0, 0]"]) (simp_all add: empty_packet_def sol_buffer_init_def SSIZE_MAX_def)
  then show ?thesis
    by (simp add: packet_holds_def message_bytes_def empty_packet_def coap_header_size_def sol_buffer_get_slice_def buf_mem_def)
qed

theorem sol_coap_add_option_spec_witness:
  "\<exists>r pkt'. sol_coap_add_option (libc_std 0) empty_packet 11 [0x61] = Some (r, pkt') \<and>
    (if pkt_payload_start empty_packet \<noteq> 0 \<or> 11 < last_code 0 [] then r = Inl EINVAL \<and> pkt' = empty_packet
     else buf_wf (pkt_buf pkt') \<and> pkt_payload_start pkt' = 0 \<and> pkt_refcnt pkt' = pkt_refcnt empty_packet \<and>
       (case r of Inl e \<Rightarrow> \<exists>ys. sol_buffer_get_slice (pkt_buf pkt') = message_bytes [0x40, 0, 0, 0] [] [] None @ ys
        | Inr _ \<Rightarrow> sol_buffer_get_slice (pkt_buf pkt') = message_bytes [0x40, 0, 0, 0] [] ([] @ [(11, [0x61])]) None))"
  by (rule sol_coap_add_option_spec [OF empty_packet_holds]) simp_all

subsection \<open>Any received bytes\<close>

lemma int16_of_le: "int16_of n \<le> int n"
proof -
  have "int (n mod 65536) \<le> int n" by simp
  then show ?thesis unfolding int16_of_def Let_def by auto
qed

lemma decode_at_safe:
  assumes wf: "buf_wf b" and pos: "ctx_pos ctx \<le> bused b" and num: "num \<le> 15"
  obtains (err) e where "decode_at b num ctx = Some (Inl e, ctx)"
    | (ok) r d where "decode_at b num ctx = Some (Inr (r, d), ctx)" and "ctx_pos ctx + r \<le> bused b"
proof -
  let ?n = "bused b - ctx_pos ctx"
  have len: "int16_of ?n \<le> int ?n" by (rule int16_of_le)
  have byte: "\<exists>c. buf_at_get b (ctx_pos ctx) = Some c" if "ctx_pos ctx < bused b"
    using buf_at_get_slice [OF wf that] by simp
  show thesis
  proof (cases "decode_at b num ctx")
    case None
    then show ?thesis using len byte pos by (force simp: decode_at_def decode_delta_def bind_eq_None_conv split: if_splits)
  next
    case (Some x)
    then obtain rd where x: "x = (rd, ctx)" by (auto simp: decode_at_def)
    show ?thesis
    proof (cases rd)
      case (Inl e)
      with Some x show ?thesis using err by simp
    next
      case (Inr p)
      then obtain r d where p: "rd = Inr (r, d)" by (cases p) auto
      have "ctx_pos ctx + r \<le> bused b"
        using Some x p len pos by (auto simp: decode_at_def decode_delta_def bind_eq_Some_conv split: if_splits)
      with Some x p show ?thesis using ok by simp
    qed
  qed
qed

lemma nibble_le: "unat (coap_option_header_get_delta c) \<le> 15" "unat (coap_option_header_get_len c) \<le> 15"
proof -
  have "coap_option_header_get_delta c = take_bit 4 (coap_option_header_get_delta c)"
    "coap_option_header_get_len c = take_bit 4 (coap_option_header_get_len c)"
    by (rule byte_eqI; simp add: coap_option_header_get_delta_def coap_option_header_get_len_def bit_simps)+
  from this [THEN take_bit_unat_less] show "unat (coap_option_header_get_delta c) \<le> 15" "unat (coap_option_header_get_len c) \<le> 15"
    by simp_all
qed

lemma coap_parse_option_safe:
  assumes wf: "buf_wf b" and pos: "ctx_pos ctx \<le> bused b"
  obtains (err) e ctx' where "coap_parse_option b ctx = Some (Inl e, ctx')"
    | (stop) "coap_parse_option b ctx = Some (Inr None, ctx)"
        and "ctx_pos ctx = bused b \<or> sol_buffer_get_slice b ! ctx_pos ctx = COAP_MARKER"
    | (option) v n d where "coap_parse_option b ctx = Some (Inr (Some v), (ctx_advance n ctx)\<lparr>ctx_delta := d\<rparr>)"
        and "0 < n" and "ctx_pos ctx + n \<le> bused b"
proof (cases "ctx_pos ctx = bused b \<or> sol_buffer_get_slice b ! ctx_pos ctx = COAP_MARKER")
  case True
  then have "coap_parse_option b ctx = Some (Inr None, ctx)"
    using pos buf_at_get_slice [OF wf, of "ctx_pos ctx"] by (cases "ctx_pos ctx = bused b") (simp_all add: coap_parse_option_def)
  with True stop show ?thesis by blast
next
  case False
  let ?c = "sol_buffer_get_slice b ! ctx_pos ctx" and ?c1 = "ctx_advance 1 ctx"
  have lt: "ctx_pos ctx < bused b" using False pos by simp
  note start = buf_at_get_slice [OF wf lt]
  show ?thesis
  proof (rule decode_at_safe [OF wf _ nibble_le(1) [of ?c], of ?c1])
    show "ctx_pos ?c1 \<le> bused b" using lt by simp
  next
    fix e
    assume "decode_at b (unat (coap_option_header_get_delta ?c)) ?c1 = Some (Inl e, ?c1)"
    then show ?thesis using err lt False start by (simp add: coap_parse_option_def)
  next
    fix r1 d
    let ?c2 = "ctx_advance r1 ?c1"
    assume D: "decode_at b (unat (coap_option_header_get_delta ?c)) ?c1 = Some (Inr (r1, d), ?c1)" "ctx_pos ?c1 + r1 \<le> bused b"
    show ?thesis
    proof (rule decode_at_safe [OF wf _ nibble_le(2) [of ?c], of ?c2])
      show "ctx_pos ?c2 \<le> bused b" using D by simp
    next
      fix e
      assume "decode_at b (unat (coap_option_header_get_len ?c)) ?c2 = Some (Inl e, ?c2)"
      then show ?thesis using err lt False start D by (simp add: coap_parse_option_def)
    next
      fix r2 len
      assume N: "decode_at b (unat (coap_option_header_get_len ?c)) ?c2 = Some (Inr (r2, len), ?c2)"
      show ?thesis
      proof (cases "size_minus (bused b) (ctx_pos ?c2) < r2 + len")
        case True
        then show ?thesis using err lt False start D N by (simp add: coap_parse_option_def)
      next
        case fits: False
        let ?n = "1 + r1 + r2 + len"
        have "ctx_pos ctx + ?n \<le> bused b" using fits D(2) by (simp add: add.assoc)
        moreover have "coap_parse_option b ctx = Some (Inr (Some (take len (drop (ctx_pos ?c2 + r2) (sol_buffer_get_slice b)))),
          (ctx_advance ?n ctx)\<lparr>ctx_delta := ctx_delta ctx + int d\<rparr>)"
          using lt False start D(1) N fits by (simp add: coap_parse_option_def Let_def add.assoc)
        ultimately show ?thesis using option by (metis add_pos_nonneg zero_le zero_less_one)
      qed
    qed
  qed
qed

lemma parse_options_loop_safe:
  "buf_wf b \<Longrightarrow> ctx_pos ctx \<le> bused b \<Longrightarrow>
     parse_options_loop b ctx = Some (Inl EINVAL) \<or>
     (\<exists>k. parse_options_loop b ctx = Some (Inr (ctx_used ctx + k)) \<and> ctx_pos ctx + k \<le> bused b \<and>
        (ctx_pos ctx + k = bused b \<or> sol_buffer_get_slice b ! (ctx_pos ctx + k) = COAP_MARKER))"
proof (induction b ctx rule: parse_options_loop.induct)
  case (1 b ctx)
  show ?case
  proof (rule coap_parse_option_safe [OF 1(2,3)])
    fix e ctx'
    assume "coap_parse_option b ctx = Some (Inl e, ctx')"
    then show ?thesis by (subst (1 2) parse_options_loop.simps) simp
  next
    assume "coap_parse_option b ctx = Some (Inr None, ctx)"
      and "ctx_pos ctx = bused b \<or> sol_buffer_get_slice b ! ctx_pos ctx = COAP_MARKER"
    then show ?thesis using 1(3) by (subst (1 2) parse_options_loop.simps) (auto intro!: exI [of _ 0])
  next
    fix v n d
    let ?ctx' = "(ctx_advance n ctx)\<lparr>ctx_delta := d\<rparr>"
    assume p: "coap_parse_option b ctx = Some (Inr (Some v), ?ctx')" "0 < n" "ctx_pos ctx + n \<le> bused b"
    have eq: "parse_options_loop b ctx = parse_options_loop b ?ctx'"
      using p(1) by (subst parse_options_loop.simps) simp
    have "parse_options_loop b ?ctx' = Some (Inl EINVAL) \<or>
     (\<exists>k. parse_options_loop b ?ctx' = Some (Inr (ctx_used ctx + n + k)) \<and> ctx_pos ctx + n + k \<le> bused b \<and>
        (ctx_pos ctx + n + k = bused b \<or> sol_buffer_get_slice b ! (ctx_pos ctx + n + k) = COAP_MARKER))"
      using 1(1) [OF p(1)] 1(2) p by simp
    then show ?thesis unfolding eq add.assoc by blast
  qed
qed

lemma coap_get_header_len_safe:
  assumes "buf_wf (pkt_buf pkt)"
  obtains (err) e where "coap_get_header_len pkt = Some (Inl e)"
    | (ok) n where "coap_get_header_len pkt = Some (Inr n)" and "coap_header_size \<le> n" and "n \<le> bused (pkt_buf pkt)"
proof (cases "bused (pkt_buf pkt) < coap_header_size")
  case True
  then show ?thesis using err by (simp add: coap_get_header_len_def)
next
  case False
  then have "buf_at_get (pkt_buf pkt) 0 = Some (sol_buffer_get_slice (pkt_buf pkt) ! 0)"
    using buf_at_get_slice [OF assms, of 0] by (simp add: coap_header_size_def)
  with False show ?thesis
    by (cases "8 < unat (sol_buffer_get_slice (pkt_buf pkt) ! 0 AND 0xF)";
        cases "bused (pkt_buf pkt) < coap_header_size + unat (sol_buffer_get_slice (pkt_buf pkt) ! 0 AND 0xF)")
      (use err ok in \<open>auto simp: coap_get_header_len_def\<close>)
qed

text \<open>
  C25. The parser takes any bytes from the network: on every well-formed buffer it terminates, reads
  inside the block only, leaves the buffer alone and either reports an error or puts the payload start
  at 0 or right behind a marker byte, inside the message and behind the fixed header.
\<close>

theorem coap_packet_parse_safe:
  assumes "buf_wf (pkt_buf pkt)"
  shows "\<exists>r pkt'. coap_packet_parse pkt = Some (r, pkt') \<and> pkt_buf pkt' = pkt_buf pkt \<and>
    (case r of Inl e \<Rightarrow> pkt' = pkt
     | Inr _ \<Rightarrow> pkt_payload_start pkt' = 0 \<or>
         coap_header_size < pkt_payload_start pkt' \<and> pkt_payload_start pkt' < bused (pkt_buf pkt) \<and>
         sol_buffer_get_slice (pkt_buf pkt) ! (pkt_payload_start pkt' - 1) = COAP_MARKER)"
proof (rule coap_get_header_len_safe [OF assms])
  fix e
  assume "coap_get_header_len pkt = Some (Inl e)"
  then show ?thesis by (simp add: coap_packet_parse_def)
next
  fix n
  assume n: "coap_get_header_len pkt = Some (Inr n)" "coap_header_size \<le> n" "n \<le> bused (pkt_buf pkt)"
  then have "ctx_pos (start_context n) \<le> bused (pkt_buf pkt)" by (simp add: start_context_def)
  from parse_options_loop_safe [OF assms this] show ?thesis
    using n by (auto simp: coap_packet_parse_def coap_parse_options_def start_context_def)
qed

theorem coap_packet_parse_safe_witness:
  "\<exists>r pkt'. coap_packet_parse sample_packet = Some (r, pkt') \<and> pkt_buf pkt' = pkt_buf sample_packet \<and>
    (case r of Inl e \<Rightarrow> pkt' = sample_packet
     | Inr _ \<Rightarrow> pkt_payload_start pkt' = 0 \<or>
         coap_header_size < pkt_payload_start pkt' \<and> pkt_payload_start pkt' < bused (pkt_buf sample_packet) \<and>
         sol_buffer_get_slice (pkt_buf sample_packet) ! (pkt_payload_start pkt' - 1) = COAP_MARKER)"
  by (rule coap_packet_parse_safe) (use sample_packet_holds in \<open>simp add: packet_holds_def\<close>)

subsection \<open>Resource paths\<close>

lemma path_loop_takeWhile: "path_loop path options \<longleftrightarrow> options = takeWhile (\<lambda>p. p \<noteq> []) path"
  by (induction path options rule: path_loop.induct) auto

text \<open>
  C27. Matching a resource: \<^verbatim>\<open>uri_path_eq\<close> accepts a request exactly when the segments of the
  resource's path, up to its empty terminator, are the first 16 \<^verbatim>\<open>Uri-Path\<close> options of the request.
  So it is string equality of the paths for requests of up to 16 segments, and a request with more
  segments matches a resource of 16.
\<close>

theorem uri_path_eq_spec:
  assumes "packet_holds req h token opts payload"
  shows "uri_path_eq req path =
    Some (take 16 (option_values SOL_COAP_OPTION_URI_PATH opts) = takeWhile (\<lambda>p. p \<noteq> []) path)"
proof -
  have "sol_coap_find_options req SOL_COAP_OPTION_URI_PATH 16 = Some (Inr (take 16 (option_values SOL_COAP_OPTION_URI_PATH opts)))"
    using find_options_loop_bytes [OF packet_holds_at_options [OF assms], of _ 16 "[]"] packet_holds_header_len [OF assms]
    by (simp add: sol_coap_find_options_def)
  then show ?thesis by (simp add: uri_path_eq_def path_loop_takeWhile)
qed

theorem uri_path_eq_spec_witness: "uri_path_eq sample_packet [[0x61], []] = Some True"
  using uri_path_eq_spec [OF sample_packet_holds, of "[[0x61], []]"]
  by (simp add: SOL_COAP_OPTION_URI_PATH_def)

subsection \<open>Two extension bytes\<close>

text \<open>
  Numbers and lengths from 269 on do not survive: the encoder stores them in two bytes, most
  significant first, but the decoder looks at the first one only, so what it returns is the number
  rounded down to 269 plus a multiple of 256.
\<close>

lemma decode_delta_two_bytes:
  assumes "buf_wf b" and "pos + 2 \<le> bused b" and "bused b \<le> 32767" and "269 \<le> n" and "n \<le> 65535"
    and "take 2 (drop pos (sol_buffer_get_slice b)) = ext_bytes n"
  shows "decode_delta b (unat (ext_nibble n)) pos (int16_of (bused b - pos)) = Some (Inr (2, n - (n - 269) mod 256))"
proof -
  obtain k where k: "n = 269 + k" using assms(4) le_Suc_ex by blast
  have "2 \<le> length (drop pos (sol_buffer_get_slice b))" using length_get_slice [OF assms(1)] assms(2) by simp
  then have "sol_buffer_get_slice b ! pos = hd (take 2 (drop pos (sol_buffer_get_slice b)))"
    by (cases "drop pos (sol_buffer_get_slice b)") (auto simp: nth_via_drop)
  then have byte: "buf_at_get b pos = Some (of_nat (k div 256))"
    using buf_at_get_slice [OF assms(1), of pos] assms(2,6) by (simp add: ext_bytes_def k)
  have m: "x AND 0xFF = take_bit 8 x" for x :: "16 word"
    by (simp add: take_bit_eq_mask mask_eq_exp_minus_1)
  have swap: "sol_util_be16_to_cpu (ucast c) = push_bit 8 (ucast c)" for c :: byte
    unfolding sol_util_be16_to_cpu_def sol_util_uint16_bytes_swap_def m
    by (rule bit_word_eqI) (auto simp: bit_simps dest: bit_imp_le_length)
  have "k div 256 < 256" using assms(5) k by simp
  then have "unat (push_bit 8 (ucast (of_nat (k div 256) :: byte)) :: 16 word) = 256 * (k div 256)"
    by (simp add: push_bit_eq_mult unat_word_ariths unsigned_ucast_eq unat_of_nat take_bit_eq_mod)
  moreover have "256 * (k div 256) + 269 = n - (n - 269) mod 256"
    using k by (simp add: minus_mod_eq_mult_div [symmetric])
  moreover have "2 \<le> int16_of (bused b - pos)" using assms(2,3) by (simp add: int16_of_small)
  ultimately show ?thesis
    using byte assms(5) by (simp add: decode_delta_def ext_nibble_def k swap)
qed

subsection \<open>Replies\<close>

text \<open>A buffer of a packet: well formed, without terminator, with at least a header in it.\<close>

definition packet_buf :: "sol_buffer \<Rightarrow> bool" where
  "packet_buf b \<longleftrightarrow> buf_wf b \<and> bflags b = SOL_BUFFER_FLAGS_NO_NUL_BYTE \<and> coap_header_size \<le> bused b"

lemma no_nul [simp]:
  "bflags b = SOL_BUFFER_FLAGS_NO_NUL_BYTE \<Longrightarrow> nul_byte_size b = 0"
  "bflags b = SOL_BUFFER_FLAGS_NO_NUL_BYTE \<Longrightarrow> \<not> has_flag SOL_BUFFER_FLAGS_MEMORY_NOT_OWNED b"
  "bflags b = SOL_BUFFER_FLAGS_NO_NUL_BYTE \<Longrightarrow> \<not> has_flag SOL_BUFFER_FLAGS_CLEAR_MEMORY b"
  by (simp_all add: nul_byte_size_def has_flag_def SOL_BUFFER_FLAGS_NO_NUL_BYTE_def SOL_BUFFER_FLAGS_MEMORY_NOT_OWNED_def
      SOL_BUFFER_FLAGS_CLEAR_MEMORY_def SOL_BUFFER_FLAGS_FIXED_CAPACITY_def SOL_BUFFER_FLAGS_NO_FREE_def)

lemma packet_buf_ensure: "packet_buf b \<Longrightarrow> sol_buffer_ensure l coap_header_size b = Some (Inr (), b)"
  by (simp add: packet_buf_def buf_wf_def sol_buffer_ensure_def coap_header_size_def SIZE_MAX_def)

lemma packet_buf_write:
  assumes b: "packet_buf b" and n: "i + length bs \<le> coap_header_size"
  obtains b' where "buf_write i bs b = Some b'" and "packet_buf b'" and "bused b' = bused b"
    and "sol_buffer_get_slice b' = overwrite i bs (sol_buffer_get_slice b)"
proof -
  note p = b [unfolded packet_buf_def buf_wf_def]
  let ?b' = "with_mem (overwrite i bs (buf_mem b)) b"
  note w = overwrite_buffer [of b i bs]
  have "max (bused b) (i + length bs) = bused b" using p n by simp
  then have "buf_wf ?b'" "sol_buffer_get_slice ?b' = overwrite i bs (sol_buffer_get_slice b)" "buf_write i bs b = Some ?b'"
    using w b p n unfolding packet_buf_def by (simp_all add: with_mem_same_used)
  with b that [of ?b'] show thesis by (simp add: packet_buf_def)
qed

lemma packet_buf_get:
  "packet_buf b \<Longrightarrow> i < coap_header_size \<Longrightarrow> buf_get i b = Some (sol_buffer_get_slice b ! i)"
  using buf_at_get_slice [of b i] by (simp add: packet_buf_def buf_at_get_def sol_buffer_at_def)

lemma set_header_byte_ok:
  assumes b: "packet_buf b" and i: "i < coap_header_size"
  obtains b' where "set_header_byte l i f b = Some (Inr (), b')" and "packet_buf b'" and "bused b' = bused b"
    and "sol_buffer_get_slice b' = (sol_buffer_get_slice b)[i := f (sol_buffer_get_slice b ! i)]"
proof -
  let ?xs = "sol_buffer_get_slice b"
  have "i < length ?xs" using b i length_get_slice [of b] by (simp add: packet_buf_def)
  then have "overwrite i [f (?xs ! i)] ?xs = ?xs[i := f (?xs ! i)]"
    by (simp add: overwrite_def upd_conv_take_nth_drop)
  moreover have "i + length [f (?xs ! i)] \<le> coap_header_size" using i by simp
  then obtain b' where "buf_write i [f (?xs ! i)] b = Some b'" "packet_buf b'" "bused b' = bused b"
    "sol_buffer_get_slice b' = overwrite i [f (?xs ! i)] ?xs" by (rule packet_buf_write [OF b])
  ultimately show thesis
    using that [of b'] by (simp add: set_header_byte_def packet_buf_get [OF b i] packet_buf_ensure [OF b])
qed

lemma ensure_success:
  assumes "bflags b = SOL_BUFFER_FLAGS_NO_NUL_BYTE" and "n < SIZE_MAX" and "0 < n" and "alloc_ok l (align_power2_size n)"
  shows "\<exists>b'. sol_buffer_ensure l n b = Some (Inr (), b')"
proof -
  have "0 < align_power2_size n" using assms(2,3) by (intro align_power2_size_pos) simp_all
  then show ?thesis
    using assms by (simp add: sol_buffer_ensure_def sol_buffer_resize_def buf_realloc_def realloc_cells_def Let_def)
qed

text \<open>Enough memory for the struct of a packet and for a buffer of a few bytes.\<close>

definition alloc_small :: "byte libc \<Rightarrow> nat \<Rightarrow> bool" where
  "alloc_small l struct_size \<longleftrightarrow> alloc_bounded l \<and> alloc_ok l struct_size \<and> (\<forall>n \<le> 24. alloc_ok l n)"

lemma align_small: "1 < n \<Longrightarrow> n \<le> 12 \<Longrightarrow> align_power2_size n \<le> 24"
  using align_power2_w_less_double [of n 64 SIZE_MAX] by (simp add: align_power2_size_def)

lemma token_append_success:
  assumes b: "packet_buf b" and l: "alloc_small l s" and n: "bused b + length xs \<le> 12" and ne: "xs \<noteq> []"
  obtains b' where "sol_buffer_insert_slice l (bused b) xs b = Some (Inr (), b')" and "packet_buf b'"
    and "sol_buffer_get_slice b' = sol_buffer_get_slice b @ xs"
proof -
  have l': "alloc_bounded l" and lsmall: "\<And>n. n \<le> 24 \<Longrightarrow> alloc_ok l n" using l by (simp_all add: alloc_small_def)
  have wf: "buf_wf b" and fl: "bflags b = SOL_BUFFER_FLAGS_NO_NUL_BYTE" using b by (simp_all add: packet_buf_def)
  have len: "0 < length xs" "length xs \<le> SSIZE_MAX" using n ne by (simp_all add: SSIZE_MAX_def)
  let ?n = "bused b + length xs"
  have ens: "\<exists>b'. sol_buffer_ensure l ?n b = Some (Inr (), b')"
    by (rule ensure_success [OF fl]) (use n len b lsmall align_small [of ?n] in \<open>auto simp: SIZE_MAX_def packet_buf_def coap_header_size_def\<close>)
  have "\<exists>b'. sol_buffer_expand l (length xs) b = Some (Inr (), b')"
  proof (cases "length xs \<le> bcapacity b - bused b")
    case True
    then show ?thesis using wf fl n by (simp add: sol_buffer_expand_def buf_wf_def SIZE_MAX_def)
  next
    case False
    then have "bcapacity b + (length xs - (bcapacity b - bused b)) = ?n" using wf by (simp add: buf_wf_def)
    moreover have "?n \<le> SIZE_MAX" using n by (simp add: SIZE_MAX_def)
    ultimately have "sol_util_size_add (bcapacity b) (length xs - (bcapacity b - bused b)) = Inr ?n"
      by (subst sol_util_size_add_exact) (simp_all add: exact_nat_def)
    with False ens wf fl n show ?thesis by (simp add: sol_buffer_expand_def buf_wf_def SIZE_MAX_def)
  qed
  then obtain b1 where e: "sol_buffer_expand l (length xs) b = Some (Inr (), b1)" by blast
  have ref: "buf_refines b (sol_buffer_insert_bytes l (bused b) xs b) (sol_buffer_get_slice b @ xs)"
    using sol_buffer_insert_bytes_refines [OF wf l' len(2), of "bused b"] length_get_slice [OF wf] by simp
  have "\<not> (\<exists>x b'. sol_buffer_insert_bytes l (bused b) xs b = Some (Inl x, b'))"
    using len e by (auto simp: sol_buffer_insert_bytes_def sol_buffer_append_bytes_def bind_eq_Some_conv)
  moreover obtain r b' where r: "sol_buffer_insert_bytes l (bused b) xs b = Some (r, b')"
    using ref by (auto simp: buf_refines_def split: option.splits)
  ultimately obtain u where "r = Inr u" by (cases r) auto
  with r ref have "sol_buffer_insert_bytes l (bused b) xs b = Some (Inr (), b')" "buf_wf b'"
    "bflags b' = bflags b" "sol_buffer_get_slice b' = sol_buffer_get_slice b @ xs"
    by (simp_all add: buf_refines_def)
  moreover from this have "bused b' = bused b + length xs" using length_get_slice [of b'] length_get_slice [OF wf] by simp
  ultimately show thesis using that [of b'] b by (simp add: packet_buf_def sol_buffer_insert_slice_def)
qed

lemma sol_coap_packet_new_None:
  assumes l: "alloc_small l s"
  shows "packet_new l s None = Some (Inr empty_packet)"
proof -
  let ?b = "sol_buffer_init\<lparr>bflags := SOL_BUFFER_FLAGS_NO_NUL_BYTE\<rparr>"
  let ?e = "?b\<lparr>bdata := Some (map (fresh l) [0..<4]), bcapacity := 4\<rparr>"
  let ?z = "?e\<lparr>bdata := Some [0, 0, 0, 0]\<rparr>" and ?v = "?e\<lparr>bdata := Some [0x40, 0, 0, 0]\<rparr>"
  have "align_power2_size 4 = 4" by (simp add: align_power2_size_def align_power2_w_def clz_def bit_len.simps)
  then have ens: "sol_buffer_ensure l 4 ?b = Some (Inr (), ?e)" using l
    by (simp add: alloc_small_def sol_buffer_ensure_def sol_buffer_resize_def buf_realloc_def realloc_cells_def
      sol_buffer_init_def SIZE_MAX_def buf_release_def buf_mem_def)
  have clear: "buf_write 0 (replicate 4 0) ?e = Some ?z"
    by (simp add: buf_write_def mem_write_def sol_buffer_init_def numeral_eq_Suc)
  have ver: "set_header_byte l 0 (hdr_set_ver COAP_VERSION) ?z = Some (Inr (), ?v)"
    by (simp add: set_header_byte_def sol_buffer_ensure_def coap_header_size_def SIZE_MAX_def buf_get_def mem_get_def
      buf_write_def mem_write_def hdr_set_ver_def COAP_VERSION_def)
  have "alloc_ok l s" using l by (simp add: alloc_small_def)
  then show ?thesis
    by (simp add: packet_new_def pkt_on_buf_def ens clear [simplified] ver [simplified] sol_coap_header_set_version_def
      coap_header_size_def empty_packet_def)
qed

lemma byte_high [simp]: "8 \<le> n \<Longrightarrow> \<not> bit (c :: byte) n"
  using bit_imp_le_length [of c n] by auto

lemma u16_swap_round: "u16_store (sol_util_cpu_to_be16 (sol_util_be16_to_cpu (u16_load lo hi))) = [lo, hi]"
proof -
  have "ucast (sol_util_cpu_to_be16 (sol_util_be16_to_cpu (u16_load lo hi))) = lo"
    "ucast (drop_bit 8 (sol_util_cpu_to_be16 (sol_util_be16_to_cpu (u16_load lo hi)))) = hi"
    by (rule byte_eqI; simp add: sol_util_cpu_to_be16_def sol_util_be16_to_cpu_def sol_util_uint16_bytes_swap_def u16_load_def bit_simps)+
  then show ?thesis by (simp add: u16_store_def)
qed

lemma set_id_ok:
  assumes b: "packet_buf (pkt_buf pkt)" and s: "sol_buffer_get_slice (pkt_buf pkt) = [a, c, x, y]"
    and ident: "u16_store (sol_util_cpu_to_be16 ident) = [x', y']"
  obtains b' where "sol_coap_header_set_id l pkt ident = Some (Inr (), pkt\<lparr>pkt_buf := b'\<rparr>)" and "packet_buf b'"
    and "sol_buffer_get_slice b' = [a, c, x', y']"
proof -
  have "2 + length [x', y'] \<le> coap_header_size" by (simp add: coap_header_size_def)
  then obtain b' where "buf_write 2 [x', y'] (pkt_buf pkt) = Some b'" "packet_buf b'"
    "sol_buffer_get_slice b' = overwrite 2 [x', y'] [a, c, x, y]"
    using packet_buf_write [OF b] unfolding s by metis
  then show thesis
    using that [of b'] by (simp add: sol_coap_header_set_id_def pkt_on_buf_def packet_buf_ensure [OF b] ident overwrite_def)
qed

lemma set_type_ok:
  assumes b: "packet_buf (pkt_buf pkt)" and s: "sol_buffer_get_slice (pkt_buf pkt) = a # rest"
  obtains b' where "sol_coap_header_set_type l pkt t = Some (Inr (), pkt\<lparr>pkt_buf := b'\<rparr>)" and "packet_buf b'"
    and "sol_buffer_get_slice b' = hdr_set_type t a # rest"
proof -
  have "0 < coap_header_size" by (simp add: coap_header_size_def)
  then obtain b' where "set_header_byte l 0 (hdr_set_type t) (pkt_buf pkt) = Some (Inr (), b')" "packet_buf b'"
    "sol_buffer_get_slice b' = (a # rest)[0 := hdr_set_type t ((a # rest) ! 0)]"
    using set_header_byte_ok [OF b] unfolding s by metis
  then show thesis using that [of b'] by (simp add: sol_coap_header_set_type_def pkt_on_buf_def)
qed

lemma set_token_ok:
  assumes b: "packet_buf (pkt_buf pkt)" and s: "sol_buffer_get_slice (pkt_buf pkt) = [a, c, x, y]"
    and l: "alloc_small l sz" and tok: "token \<noteq> []" "length token \<le> 8"
  obtains b' where "sol_coap_header_set_token l pkt token = Some (Inr (), pkt\<lparr>pkt_buf := b'\<rparr>)" and "packet_buf b'"
    and "sol_buffer_get_slice b' = [hdr_set_tkl (of_nat (length token)) a, c, x, y] @ token"
proof -
  have used: "bused (pkt_buf pkt) = 4" using length_get_slice [of "pkt_buf pkt"] b s by (simp add: packet_buf_def)
  then have "bused (pkt_buf pkt) + length token \<le> 12" using tok by simp
  from token_append_success [OF b l this tok(1)] obtain b1 where
    b1: "sol_buffer_insert_slice l (bused (pkt_buf pkt)) token (pkt_buf pkt) = Some (Inr (), b1)" "packet_buf b1"
    "sol_buffer_get_slice b1 = [a, c, x, y] @ token" unfolding s .
  have h: "0 < coap_header_size" by (simp add: coap_header_size_def)
  then have n: "0 + length [hdr_set_tkl (of_nat (length token)) a] \<le> coap_header_size" by simp
  obtain b' where "buf_write 0 [hdr_set_tkl (of_nat (length token)) a] b1 = Some b'" "packet_buf b'"
    "sol_buffer_get_slice b' = overwrite 0 [hdr_set_tkl (of_nat (length token)) a] ([a, c, x, y] @ token)"
    using packet_buf_write [OF b1(2) n] unfolding b1(3) by metis
  then show thesis
    using that [of b'] b1(1) packet_buf_get [OF b1(2) h] used b1(3)
    by (simp add: sol_coap_header_set_token_def pkt_on_buf_def packet_buf_ensure [OF b, unfolded coap_header_size_def]
        coap_header_size_def overwrite_def)
qed

text \<open>The fields of the first byte are independent, and a token length is stored as it is.\<close>

lemma hdr_fields:
  "hdr_ver (hdr_set_type t c) = hdr_ver c" "hdr_tkl (hdr_set_type t c) = hdr_tkl c" "hdr_type (hdr_set_type t c) = t AND 3"
  "hdr_ver (hdr_set_tkl n c) = hdr_ver c" "hdr_type (hdr_set_tkl n c) = hdr_type c" "hdr_tkl (hdr_set_tkl n c) = n AND 15"
  by (rule byte_eqI; simp add: hdr_ver_def hdr_type_def hdr_tkl_def hdr_set_type_def hdr_set_tkl_def bit_simps)+

text \<open>The type of the answer to a message of type \<open>t\<close>.\<close>

definition reply_type :: "byte \<Rightarrow> byte" where
  "reply_type t = (if t = SOL_COAP_MESSAGE_TYPE_CON then SOL_COAP_MESSAGE_TYPE_ACK
     else if t = SOL_COAP_MESSAGE_TYPE_NON_CON then SOL_COAP_MESSAGE_TYPE_NON_CON else SOL_COAP_MESSAGE_TYPE_CON)"

lemma small_nibble:
  assumes "n \<le> 8"
  shows "unat (of_nat n AND 15 :: byte) = n"
proof -
  have "of_nat n AND 15 = take_bit 4 (of_nat n :: byte)" by (simp add: take_bit_eq_mask mask_eq_exp_minus_1)
  then have "unat (of_nat n AND 15 :: byte) = take_bit 4 (unat (of_nat n :: byte))" by (simp only: unsigned_take_bit_eq)
  with assms show ?thesis by (simp add: unat_of_nat take_bit_eq_mod)
qed

lemma packet_holds_fields:
  assumes "packet_holds old h token opts payload"
  shows "sol_coap_header_get_id old = Some (sol_util_be16_to_cpu (u16_load (h ! 2) (h ! 3)))"
    and "sol_coap_header_get_type old = Some (hdr_type (h ! 0))"
    and "sol_coap_header_get_token old = Some (if token = [] then None else Some token)"
proof -
  let ?b = "pkt_buf old"
  note p = assms [unfolded packet_holds_def]
  have used: "length h + length token \<le> bused ?b" using packet_length [OF assms] by (simp add: message_bytes_def)
  have get: "buf_get i ?b = Some (h ! i)" if "i < 4" for i
    using buf_at_get_slice [of ?b i] that p used
    by (simp add: buf_at_get_def sol_buffer_at_def message_bytes_def nth_append coap_header_size_def)
  show "sol_coap_header_get_id old = Some (sol_util_be16_to_cpu (u16_load (h ! 2) (h ! 3)))"
    "sol_coap_header_get_type old = Some (hdr_type (h ! 0))"
    by (simp_all add: sol_coap_header_get_id_def sol_coap_header_get_type_def get)
  have "take (length h + length token) (buf_mem ?b) = take (length h + length token) (sol_buffer_get_slice ?b)"
    using used by (simp add: sol_buffer_get_slice_def)
  also have "\<dots> = h @ token" using p by (simp add: message_bytes_def)
  finally have "take (length token) (drop (length h) (buf_mem ?b)) = token"
    by (simp add: take_drop add.commute)
  moreover have "length h + length token \<le> length (buf_mem ?b)" using used p by (simp add: buf_wf_def)
  ultimately have "mem_read (length h) (length token) (buf_mem ?b) = Some token" by (simp add: mem_read_def)
  moreover have "unat (hdr_tkl (h ! 0)) = length token" using p by (simp add: hdr_tkl_def)
  ultimately show "sol_coap_header_get_token old = Some (if token = [] then None else Some token)"
    using get [of 0] p by (auto simp: sol_coap_header_get_token_def unat_eq_zero)
qed

text \<open>
  C28. A reply: with memory for it, the packet made from a received one has one reference, the
  protocol's version, the received id and token, no options and no payload; it acknowledges a
  confirmable message and is non-confirmable for a non-confirmable one.
\<close>

theorem sol_coap_packet_new_reply:
  assumes "packet_holds old h token opts payload" and "alloc_small l s"
  shows "\<exists>pkt c. sol_coap_packet_new l s (Some old) = Some (Inr pkt) \<and> pkt_refcnt pkt = 1 \<and> pkt_payload_start pkt = 0 \<and>
    packet_holds pkt [c, 0, h ! 2, h ! 3] token [] None \<and> hdr_ver c = COAP_VERSION \<and> hdr_type c = reply_type (hdr_type (h ! 0))"
proof -
  let ?p = empty_packet and ?t = "hdr_type (h ! 0)"
  note old = packet_holds_fields [OF assms(1)]
  have tok8: "length token \<le> 8" using assms(1) by (simp add: packet_holds_def)
  have p: "packet_buf (pkt_buf ?p)" "sol_buffer_get_slice (pkt_buf ?p) = [0x40, 0, 0, 0]"
    using empty_packet_holds packet_length [OF empty_packet_holds]
    by (simp_all add: packet_buf_def packet_holds_def message_bytes_def coap_header_size_def) (simp add: empty_packet_def)
  obtain b1 where b1: "sol_coap_header_set_id l ?p (sol_util_be16_to_cpu (u16_load (h ! 2) (h ! 3))) = Some (Inr (), ?p\<lparr>pkt_buf := b1\<rparr>)"
    "packet_buf b1" "sol_buffer_get_slice b1 = [0x40, 0, h ! 2, h ! 3]"
    by (rule set_id_ok [OF p u16_swap_round])
  let ?p1 = "?p\<lparr>pkt_buf := b1\<rparr>"
  define c1 where "c1 = (if ?t = SOL_COAP_MESSAGE_TYPE_CON \<or> ?t = SOL_COAP_MESSAGE_TYPE_NON_CON
    then hdr_set_type (reply_type ?t) 0x40 else 0x40)"
  have "\<exists>b2. (if ?t = SOL_COAP_MESSAGE_TYPE_CON then sol_coap_header_set_type l ?p1 SOL_COAP_MESSAGE_TYPE_ACK
        else if ?t = SOL_COAP_MESSAGE_TYPE_NON_CON then sol_coap_header_set_type l ?p1 SOL_COAP_MESSAGE_TYPE_NON_CON
        else Some (Inr (), ?p1)) = Some (Inr (), ?p\<lparr>pkt_buf := b2\<rparr>) \<and> packet_buf b2 \<and>
      sol_buffer_get_slice b2 = [c1, 0, h ! 2, h ! 3]"
    using b1(2,3) set_type_ok [of ?p1 "0x40" "[0, h ! 2, h ! 3]" l] by (simp add: c1_def reply_type_def) metis
  then obtain b2 where b2: "(if ?t = SOL_COAP_MESSAGE_TYPE_CON then sol_coap_header_set_type l ?p1 SOL_COAP_MESSAGE_TYPE_ACK
        else if ?t = SOL_COAP_MESSAGE_TYPE_NON_CON then sol_coap_header_set_type l ?p1 SOL_COAP_MESSAGE_TYPE_NON_CON
        else Some (Inr (), ?p1)) = Some (Inr (), ?p\<lparr>pkt_buf := b2\<rparr>)" "packet_buf b2"
      "sol_buffer_get_slice b2 = [c1, 0, h ! 2, h ! 3]" by blast
  let ?p2 = "?p\<lparr>pkt_buf := b2\<rparr>"
  have c1: "hdr_ver c1 = COAP_VERSION" "hdr_type c1 = reply_type ?t" "hdr_tkl c1 = 0"
    by (auto simp: c1_def hdr_fields reply_type_def SOL_COAP_MESSAGE_TYPE_CON_def SOL_COAP_MESSAGE_TYPE_NON_CON_def
      SOL_COAP_MESSAGE_TYPE_ACK_def COAP_VERSION_def hdr_ver_def hdr_type_def hdr_tkl_def
      hdr_set_type_def)
  have holds: "packet_holds (?p\<lparr>pkt_buf := b\<rparr>) [c, 0, h ! 2, h ! 3] token [] None"
    if "packet_buf b" "sol_buffer_get_slice b = [c, 0, h ! 2, h ! 3] @ token" "unat (hdr_tkl c) = length token" for b c
    using that tok8 length_get_slice [of b] by (simp add: packet_holds_def packet_buf_def message_bytes_def coap_header_size_def hdr_tkl_def)
  have new: "sol_coap_packet_new l s (Some old) = Some (Inr pkt)"
    if "(if token = [] then Some (Inr (), ?p2)
         else do { (_, pkt) \<leftarrow> sol_coap_header_set_token l ?p2 token; Some (Inr (), pkt) }) = Some (Inr (), pkt)" for pkt
    using that unfolding sol_coap_packet_new_def sol_coap_packet_new_None [OF assms(2)]
    by (simp add: old b1(1) b2(1) split: if_splits) (auto simp: bind_eq_Some_conv)
  show ?thesis
  proof (cases "token = []")
    case True
    then have "packet_holds ?p2 [c1, 0, h ! 2, h ! 3] token [] None" using holds [OF b2(2), of c1] b2(3) c1 by simp
    with new [of ?p2] True c1 show ?thesis by (intro exI [of _ ?p2] exI [of _ c1]) (simp add: empty_packet_def)
  next
    case False
    have s2: "packet_buf (pkt_buf ?p2)" "sol_buffer_get_slice (pkt_buf ?p2) = [c1, 0, h ! 2, h ! 3]" using b2 by simp_all
    let ?c = "hdr_set_tkl (of_nat (length token)) c1"
    obtain b3 where b3: "sol_coap_header_set_token l ?p2 token = Some (Inr (), ?p2\<lparr>pkt_buf := b3\<rparr>)" "packet_buf b3"
      "sol_buffer_get_slice b3 = [?c, 0, h ! 2, h ! 3] @ token"
      by (rule set_token_ok [OF s2 assms(2) False tok8])
    have "packet_holds (?p\<lparr>pkt_buf := b3\<rparr>) [?c, 0, h ! 2, h ! 3] token [] None"
      by (rule holds [OF b3(2,3)]) (simp add: hdr_fields small_nibble [OF tok8])
    with new [of "?p2\<lparr>pkt_buf := b3\<rparr>"] b3(1) False c1 show ?thesis
      by (intro exI [of _ "?p\<lparr>pkt_buf := b3\<rparr>"] exI [of _ ?c]) (simp add: empty_packet_def hdr_fields)
  qed
qed

theorem sol_coap_packet_new_reply_witness:
  "\<exists>pkt c. sol_coap_packet_new (libc_std 0) 64 (Some sample_packet) = Some (Inr pkt) \<and> pkt_refcnt pkt = 1 \<and>
    pkt_payload_start pkt = 0 \<and> packet_holds pkt [c, 0, [0x41, 1, 0, 7] ! 2, [0x41, 1, 0, 7] ! 3] [9] [] None \<and>
    hdr_ver c = COAP_VERSION \<and> hdr_type c = reply_type (hdr_type ([0x41, 1, 0, 7] ! 0))"
  by (rule sol_coap_packet_new_reply [OF sample_packet_holds]) (simp add: alloc_small_def SSIZE_MAX_def)

end
