(* ===== verification/Mainloop.thy ===== *)
theory Mainloop
  imports Vector "HOL-Library.Sublist"
begin

text \<open>
  The main loop of \<^verbatim>\<open>src/lib/common/sol-mainloop-common.c\<close>: timeouts, idlers and event sources, in
  the build without \<^verbatim>\<open>THREADS\<close> (one vector per kind; the lock and steal operations are empty).

  The static variables of one kind (its vector, its counter of pending deletions, its processing flag)
  and the objects its vector points to are a \<open>registry\<close>. An object's address is never used twice,
  which a caller that keeps no handle of a deleted object cannot see. A function's result \<open>None\<close> is an
  access to a freed object or outside a vector, or a loop that does not end.

  The callbacks belong to the application: an \<open>app\<close> says, for a callback and the state it is called
  in, which functions of the main loop it calls and what it returns. The dispose callback of a source
  does not call the main loop. The clock is the application's platform: its readings in order. Seconds
  and nanoseconds are unbounded integers, as 64 bits do not overflow within the age of a machine.
\<close>

section \<open>Time\<close>

record timespec =
  tv_sec :: int
  tv_nsec :: int

definition SOL_UTIL_NSEC_PER_SEC :: int where
  "SOL_UTIL_NSEC_PER_SEC = 1000000000"

definition SOL_UTIL_MSEC_PER_SEC :: nat where
  "SOL_UTIL_MSEC_PER_SEC = 1000"

definition SOL_UTIL_NSEC_PER_MSEC :: int where
  "SOL_UTIL_NSEC_PER_MSEC = 1000000"

text \<open>The comparison of the sum is unsigned, so a negative sum counts as large.\<close>

definition sol_util_timespec_add :: "timespec \<Rightarrow> timespec \<Rightarrow> timespec" where
  "sol_util_timespec_add t1 t2 =
     (let n = tv_nsec t1 + tv_nsec t2; s = tv_sec t1 + tv_sec t2
      in if n < 0 \<or> n \<ge> SOL_UTIL_NSEC_PER_SEC
         then \<lparr>tv_sec = s + 1, tv_nsec = n - SOL_UTIL_NSEC_PER_SEC\<rparr> else \<lparr>tv_sec = s, tv_nsec = n\<rparr>)"

definition sol_util_timespec_sub :: "timespec \<Rightarrow> timespec \<Rightarrow> timespec" where
  "sol_util_timespec_sub t1 t2 =
     (let n = tv_nsec t1 - tv_nsec t2; s = tv_sec t1 - tv_sec t2
      in if n < 0 then \<lparr>tv_sec = s - 1, tv_nsec = n + SOL_UTIL_NSEC_PER_SEC\<rparr> else \<lparr>tv_sec = s, tv_nsec = n\<rparr>)"

definition sol_util_timespec_compare :: "timespec \<Rightarrow> timespec \<Rightarrow> int" where
  "sol_util_timespec_compare t1 t2 =
     (let retval = of_bool (tv_sec t1 > tv_sec t2) - of_bool (tv_sec t1 < tv_sec t2)
      in if retval \<noteq> 0 then retval else of_bool (tv_nsec t1 > tv_nsec t2) - of_bool (tv_nsec t1 < tv_nsec t2))"

section \<open>State\<close>

record 'a registry =
  rg_vector :: "nat sol_ptr_vector"
  rg_objs :: "nat \<Rightarrow> 'a option"
  rg_pending_deletion :: nat
  rg_processing :: bool

record sol_timeout_common =
  to_timeout :: timespec
  to_expire :: timespec
  to_cb :: nat
  to_remove_me :: bool

datatype idler_status = idler_ready | idler_deleted | idler_ready_on_next_iteration

record sol_idler_common =
  id_cb :: nat
  id_status :: idler_status

text \<open>The source's type: which of the optional callbacks it has.\<close>

record source_type =
  has_prepare :: bool
  has_get_next_timeout :: bool
  has_dispose :: bool

record sol_mainloop_source_common =
  src_type :: source_type
  src_data :: nat
  src_ready :: bool
  src_remove_me :: bool

text \<open>
  \<open>ml_ran\<close> and \<open>ml_idled\<close> record, in order, the timeouts and idlers whose callback was called;
  \<open>ml_disposed\<close> the data given to a dispose callback. \<open>ml_reads\<close> counts the readings of the clock.
\<close>

record mainloop =
  run_loop :: bool
  ml_timeouts :: "sol_timeout_common registry"
  ml_idlers :: "sol_idler_common registry"
  ml_sources :: "sol_mainloop_source_common registry"
  ml_next :: nat
  ml_reads :: nat
  ml_ran :: "nat list"
  ml_idled :: "nat list"
  ml_disposed :: "nat list"

datatype call =
    Timeout_add nat nat
  | Timeout_del nat
  | Idle_add nat
  | Idle_del nat
  | Source_add source_type nat
  | Source_del nat
  | Quit

record app =
  clock :: "nat \<Rightarrow> timespec"
  run_timeout :: "nat \<Rightarrow> mainloop \<Rightarrow> call list \<times> bool"
  run_idler :: "nat \<Rightarrow> mainloop \<Rightarrow> call list \<times> bool"
  run_prepare :: "nat \<Rightarrow> mainloop \<Rightarrow> call list \<times> bool"
  run_check :: "nat \<Rightarrow> mainloop \<Rightarrow> call list \<times> bool"
  run_dispatch :: "nat \<Rightarrow> mainloop \<Rightarrow> call list"
  run_get_next_timeout :: "nat \<Rightarrow> mainloop \<Rightarrow> call list \<times> timespec option"

text \<open>The structs of an LP64 machine.\<close>

definition timeout_size :: nat where
  "timeout_size = 56"

definition idler_size :: nat where
  "idler_size = 24"

definition source_size :: nat where
  "source_size = 24"

definition registry_init :: "'a registry" where
  "registry_init = \<lparr>rg_vector = sol_ptr_vector_init, rg_objs = \<lambda>_. None, rg_pending_deletion = 0, rg_processing = False\<rparr>"

definition mainloop_init :: mainloop where
  "mainloop_init = \<lparr>run_loop = False, ml_timeouts = registry_init, ml_idlers = registry_init, ml_sources = registry_init,
     ml_next = 1, ml_reads = 0, ml_ran = [], ml_idled = [], ml_disposed = []\<rparr>"

definition get_current :: "app \<Rightarrow> mainloop \<Rightarrow> timespec \<times> mainloop" where
  "get_current a s = (clock a (ml_reads s), s\<lparr>ml_reads := ml_reads s + 1\<rparr>)"

section \<open>Registries\<close>

text \<open>
  The cleanup functions: a walk backwards over the vector that deletes and frees what is marked, until
  the counter is zero. \<open>timeout_cleanup\<close>, \<open>idler_cleanup\<close> and \<open>source_cleanup\<close> are its instances; the
  second component collects the freed objects.
\<close>

fun cleanup_loop :: "nat libc \<Rightarrow> ('a \<Rightarrow> bool) \<Rightarrow> nat \<Rightarrow> 'a registry \<Rightarrow> 'a list \<Rightarrow> ('a registry \<times> 'a list) option" where
  "cleanup_loop l marked 0 r freed = Some (r, freed)"
| "cleanup_loop l marked (Suc i) r freed = do {
     p \<leftarrow> sol_ptr_vector_get_no_check (rg_vector r) i;
     x \<leftarrow> rg_objs r p;
     (if \<not> marked x then cleanup_loop l marked i r freed
      else do {
        (_, v) \<leftarrow> sol_vector_del l (rg_vector r) i;
        let r = r\<lparr>rg_vector := v, rg_objs := (rg_objs r)(p := None), rg_pending_deletion := rg_pending_deletion r - 1\<rparr>;
        (if rg_pending_deletion r = 0 then Some (r, freed @ [x]) else cleanup_loop l marked i r (freed @ [x]))
      })
   }"

definition cleanup :: "nat libc \<Rightarrow> ('a \<Rightarrow> bool) \<Rightarrow> 'a registry \<Rightarrow> ('a registry \<times> 'a list) option" where
  "cleanup l marked r =
     (if rg_pending_deletion r = 0 then Some (r, []) else cleanup_loop l marked (vlen (rg_vector r)) r [])"

text \<open>Marking an object that a handle points to and, outside of processing, cleaning up.\<close>

definition mark :: "('a \<Rightarrow> 'a) \<Rightarrow> nat \<Rightarrow> 'a registry \<Rightarrow> 'a registry option" where
  "mark upd p r = do {
     x \<leftarrow> rg_objs r p;
     Some (r\<lparr>rg_objs := (rg_objs r)(p \<mapsto> upd x), rg_pending_deletion := rg_pending_deletion r + 1\<rparr>)
   }"

definition timeout_cleanup :: "nat libc \<Rightarrow> mainloop \<Rightarrow> mainloop option" where
  "timeout_cleanup l s = do {
     (r, _) \<leftarrow> cleanup l to_remove_me (ml_timeouts s);
     Some (s\<lparr>ml_timeouts := r\<rparr>)
   }"

definition idler_cleanup :: "nat libc \<Rightarrow> mainloop \<Rightarrow> mainloop option" where
  "idler_cleanup l s = do {
     (r, _) \<leftarrow> cleanup l (\<lambda>x. id_status x = idler_deleted) (ml_idlers s);
     Some (s\<lparr>ml_idlers := r\<rparr>)
   }"

definition disposed_data :: "sol_mainloop_source_common list \<Rightarrow> nat list" where
  "disposed_data xs = map src_data (filter (\<lambda>x. has_dispose (src_type x)) xs)"

definition source_cleanup :: "nat libc \<Rightarrow> mainloop \<Rightarrow> mainloop option" where
  "source_cleanup l s = do {
     (r, freed) \<leftarrow> cleanup l src_remove_me (ml_sources s);
     Some (s\<lparr>ml_sources := r, ml_disposed := ml_disposed s @ disposed_data freed\<rparr>)
   }"

section \<open>Adding and deleting\<close>

definition expire_of :: "(nat \<Rightarrow> sol_timeout_common option) \<Rightarrow> nat \<Rightarrow> timespec" where
  "expire_of objs p = (case objs p of None \<Rightarrow> \<lparr>tv_sec = 0, tv_nsec = 0\<rparr> | Some t \<Rightarrow> to_expire t)"

definition timeout_compare :: "(nat \<Rightarrow> sol_timeout_common option) \<Rightarrow> nat \<Rightarrow> nat \<Rightarrow> int" where
  "timeout_compare objs a b = sol_util_timespec_compare (expire_of objs a) (expire_of objs b)"

definition period_of :: "nat \<Rightarrow> timespec" where
  "period_of timeout_ms = \<lparr>tv_sec = int (timeout_ms div SOL_UTIL_MSEC_PER_SEC),
     tv_nsec = int (timeout_ms mod SOL_UTIL_MSEC_PER_SEC) * SOL_UTIL_NSEC_PER_MSEC\<rparr>"

text \<open>The result \<open>None\<close> inside is the NULL handle.\<close>

definition sol_mainloop_impl_timeout_add ::
    "app \<Rightarrow> nat libc \<Rightarrow> nat \<Rightarrow> nat \<Rightarrow> mainloop \<Rightarrow> (nat option \<times> mainloop) option" where
  "sol_mainloop_impl_timeout_add a l timeout_ms cb s =
     (if \<not> alloc_ok l timeout_size then Some (None, s)
      else
        let p = ml_next s; s = s\<lparr>ml_next := ml_next s + 1\<rparr>;
            (now, s) = get_current a s;
            timeout = \<lparr>to_timeout = period_of timeout_ms, to_expire = sol_util_timespec_add now (period_of timeout_ms),
              to_cb = cb, to_remove_me = False\<rparr>;
            r = ml_timeouts s; objs = (rg_objs r)(p \<mapsto> timeout)
        in do {
          (ret, v) \<leftarrow> sol_ptr_vector_insert_sorted l (rg_vector r) p (timeout_compare objs);
          Some (case ret of Inl _ \<Rightarrow> (None, s\<lparr>ml_timeouts := r\<lparr>rg_vector := v\<rparr>\<rparr>)
            | Inr _ \<Rightarrow> (Some p, s\<lparr>ml_timeouts := r\<lparr>rg_vector := v, rg_objs := objs\<rparr>\<rparr>))
        })"

definition sol_mainloop_impl_timeout_del :: "nat libc \<Rightarrow> nat \<Rightarrow> mainloop \<Rightarrow> (bool \<times> mainloop) option" where
  "sol_mainloop_impl_timeout_del l p s = do {
     t \<leftarrow> rg_objs (ml_timeouts s) p;
     (if to_remove_me t then Some (False, s)
      else do {
        r \<leftarrow> mark (\<lambda>t. t\<lparr>to_remove_me := True\<rparr>) p (ml_timeouts s);
        let s = s\<lparr>ml_timeouts := r\<rparr>;
        s \<leftarrow> (if \<not> rg_processing r then timeout_cleanup l s else Some s);
        Some (True, s)
      })
   }"

definition sol_mainloop_impl_idle_add :: "nat libc \<Rightarrow> nat \<Rightarrow> mainloop \<Rightarrow> (nat option \<times> mainloop) option" where
  "sol_mainloop_impl_idle_add l cb s =
     (if \<not> alloc_ok l idler_size then Some (None, s)
      else
        let p = ml_next s; s = s\<lparr>ml_next := ml_next s + 1\<rparr>; r = ml_idlers s;
            idler = \<lparr>id_cb = cb, id_status = if rg_processing r then idler_ready_on_next_iteration else idler_ready\<rparr>
        in do {
          (ret, v) \<leftarrow> sol_ptr_vector_append l (rg_vector r) p;
          Some (case ret of Inl _ \<Rightarrow> (None, s\<lparr>ml_idlers := r\<lparr>rg_vector := v\<rparr>\<rparr>)
            | Inr _ \<Rightarrow> (Some p, s\<lparr>ml_idlers := r\<lparr>rg_vector := v, rg_objs := (rg_objs r)(p \<mapsto> idler)\<rparr>\<rparr>))
        })"

definition sol_mainloop_impl_idle_del :: "nat libc \<Rightarrow> nat \<Rightarrow> mainloop \<Rightarrow> (bool \<times> mainloop) option" where
  "sol_mainloop_impl_idle_del l p s = do {
     x \<leftarrow> rg_objs (ml_idlers s) p;
     (if id_status x = idler_deleted then Some (False, s)
      else do {
        r \<leftarrow> mark (\<lambda>x. x\<lparr>id_status := idler_deleted\<rparr>) p (ml_idlers s);
        let s = s\<lparr>ml_idlers := r\<rparr>;
        s \<leftarrow> (if \<not> rg_processing r then idler_cleanup l s else Some s);
        Some (True, s)
      })
   }"

definition sol_mainloop_impl_source_add ::
    "nat libc \<Rightarrow> source_type \<Rightarrow> nat \<Rightarrow> mainloop \<Rightarrow> (nat option \<times> mainloop) option" where
  "sol_mainloop_impl_source_add l type data s =
     (if \<not> alloc_ok l source_size then Some (None, s)
      else
        let p = ml_next s; s = s\<lparr>ml_next := ml_next s + 1\<rparr>; r = ml_sources s;
            source = \<lparr>src_type = type, src_data = data, src_ready = False, src_remove_me = False\<rparr>
        in do {
          (ret, v) \<leftarrow> sol_ptr_vector_append l (rg_vector r) p;
          Some (case ret of Inl _ \<Rightarrow> (None, s\<lparr>ml_sources := r\<lparr>rg_vector := v\<rparr>\<rparr>)
            | Inr _ \<Rightarrow> (Some p, s\<lparr>ml_sources := r\<lparr>rg_vector := v, rg_objs := (rg_objs r)(p \<mapsto> source)\<rparr>\<rparr>))
        })"

definition sol_mainloop_impl_source_del :: "nat libc \<Rightarrow> nat \<Rightarrow> mainloop \<Rightarrow> mainloop option" where
  "sol_mainloop_impl_source_del l p s = do {
     x \<leftarrow> rg_objs (ml_sources s) p;
     (if src_remove_me x then Some s
      else do {
        r \<leftarrow> mark (\<lambda>x. x\<lparr>src_remove_me := True\<rparr>) p (ml_sources s);
        let s = s\<lparr>ml_sources := r\<rparr>;
        (if \<not> rg_processing r then source_cleanup l s else Some s)
      })
   }"

definition sol_mainloop_impl_source_get_data :: "nat \<Rightarrow> mainloop \<Rightarrow> nat option" where
  "sol_mainloop_impl_source_get_data p s = map_option src_data (rg_objs (ml_sources s) p)"

definition sol_mainloop_common_loop_check :: "mainloop \<Rightarrow> bool" where
  "sol_mainloop_common_loop_check s = run_loop s"

definition sol_mainloop_common_loop_set :: "bool \<Rightarrow> mainloop \<Rightarrow> mainloop" where
  "sol_mainloop_common_loop_set val s = s\<lparr>run_loop := val\<rparr>"

definition sol_mainloop_impl_quit :: "mainloop \<Rightarrow> mainloop" where
  "sol_mainloop_impl_quit s = sol_mainloop_common_loop_set False s"

text \<open>A callback: its calls in order.\<close>

definition do_call :: "app \<Rightarrow> nat libc \<Rightarrow> call \<Rightarrow> mainloop \<Rightarrow> mainloop option" where
  "do_call a l c s =
     (case c of
        Timeout_add ms cb \<Rightarrow> map_option snd (sol_mainloop_impl_timeout_add a l ms cb s)
      | Timeout_del p \<Rightarrow> map_option snd (sol_mainloop_impl_timeout_del l p s)
      | Idle_add cb \<Rightarrow> map_option snd (sol_mainloop_impl_idle_add l cb s)
      | Idle_del p \<Rightarrow> map_option snd (sol_mainloop_impl_idle_del l p s)
      | Source_add type data \<Rightarrow> map_option snd (sol_mainloop_impl_source_add l type data s)
      | Source_del p \<Rightarrow> sol_mainloop_impl_source_del l p s
      | Quit \<Rightarrow> Some (sol_mainloop_impl_quit s))"

fun do_calls :: "app \<Rightarrow> nat libc \<Rightarrow> call list \<Rightarrow> mainloop \<Rightarrow> mainloop option" where
  "do_calls a l [] s = Some s"
| "do_calls a l (c # cs) s = do { s \<leftarrow> do_call a l c s; do_calls a l cs s }"

section \<open>Processing\<close>

definition set_processing :: "bool \<Rightarrow> 'a registry \<Rightarrow> 'a registry" where
  "set_processing b r = r\<lparr>rg_processing := b\<rparr>"

text \<open>The call of a timeout's callback; the object is still there when it returns.\<close>

definition call_timeout :: "app \<Rightarrow> nat libc \<Rightarrow> nat \<Rightarrow> sol_timeout_common \<Rightarrow> mainloop \<Rightarrow> (bool \<times> mainloop) option" where
  "call_timeout a l p t s =
     (let s = s\<lparr>ml_ran := ml_ran s @ [p]\<rparr>; (calls, again) = run_timeout a (to_cb t) s
      in do { s \<leftarrow> do_calls a l calls s; Some (again, s) })"

text \<open>What follows a callback that returned false: the timeout is marked unless it already is.\<close>

definition timeout_done :: "nat \<Rightarrow> mainloop \<Rightarrow> mainloop option" where
  "timeout_done p s = do {
     t \<leftarrow> rg_objs (ml_timeouts s) p;
     (if to_remove_me t then Some s
      else do {
        r \<leftarrow> mark (\<lambda>t. t\<lparr>to_remove_me := True\<rparr>) p (ml_timeouts s);
        Some (s\<lparr>ml_timeouts := r\<rparr>)
      })
   }"

text \<open>What follows a callback that returned true: the next expiration, and the entry's new place.\<close>

definition timeout_again :: "nat libc \<Rightarrow> timespec \<Rightarrow> nat \<Rightarrow> nat \<Rightarrow> mainloop \<Rightarrow> ((errno + nat) \<times> mainloop) option" where
  "timeout_again l now i p s = do {
     t \<leftarrow> rg_objs (ml_timeouts s) p;
     let r = ml_timeouts s;
     let objs = (rg_objs r)(p \<mapsto> t\<lparr>to_expire := sol_util_timespec_add now (to_timeout t)\<rparr>);
     (ret, v) \<leftarrow> sol_ptr_vector_update_sorted l (rg_vector r) i (timeout_compare objs);
     Some (ret, s\<lparr>ml_timeouts := r\<lparr>rg_vector := v, rg_objs := objs\<rparr>\<rparr>)
   }"

text \<open>Calling a due timeout: the index the iteration goes on with, or the error that ends it.\<close>

definition timeout_fire :: "app \<Rightarrow> nat libc \<Rightarrow> timespec \<Rightarrow> nat \<Rightarrow> nat \<Rightarrow> sol_timeout_common \<Rightarrow> mainloop
    \<Rightarrow> ((errno + nat) \<times> mainloop) option" where
  "timeout_fire a l now i p t s = do {
     (again, s) \<leftarrow> call_timeout a l p t s;
     (if \<not> again then do { s \<leftarrow> timeout_done p s; Some (Inr (i + 1), s) }
      else on_ok (timeout_again l now i p s) (\<lambda>k s. Some (Inr (if k = i then i + 1 else i), s)))
   }"

partial_function (option) timeout_loop :: "app \<Rightarrow> nat libc \<Rightarrow> timespec \<Rightarrow> nat \<Rightarrow> mainloop \<Rightarrow> mainloop option" where
  "timeout_loop a l now i s =
     (if i < vlen (rg_vector (ml_timeouts s)) then do {
        p \<leftarrow> sol_ptr_vector_get (rg_vector (ml_timeouts s)) i;
        (if \<not> sol_mainloop_common_loop_check s then Some s
         else do {
           t \<leftarrow> rg_objs (ml_timeouts s) p;
           (if to_remove_me t then timeout_loop a l now (i + 1) s
            else if sol_util_timespec_compare (to_expire t) now > 0 then Some s
            else do {
              (r, s) \<leftarrow> timeout_fire a l now i p t s;
              (case r of Inl _ \<Rightarrow> Some s | Inr i \<Rightarrow> timeout_loop a l now i s)
            })
         })
      } else Some s)"

definition sol_mainloop_common_timeout_process :: "app \<Rightarrow> nat libc \<Rightarrow> mainloop \<Rightarrow> mainloop option" where
  "sol_mainloop_common_timeout_process a l s =
     (let s = s\<lparr>ml_timeouts := set_processing True (ml_timeouts s)\<rparr>;
          (now, s) = get_current a s
      in do {
        s \<leftarrow> timeout_loop a l now 0 s;
        s \<leftarrow> timeout_cleanup l s;
        Some (s\<lparr>ml_timeouts := set_processing False (ml_timeouts s)\<rparr>)
      })"

subsection \<open>Idlers\<close>

definition set_idler :: "nat \<Rightarrow> idler_status \<Rightarrow> mainloop \<Rightarrow> mainloop option" where
  "set_idler p st s = do {
     x \<leftarrow> rg_objs (ml_idlers s) p;
     Some (s\<lparr>ml_idlers := (ml_idlers s)\<lparr>rg_objs := (rg_objs (ml_idlers s))(p \<mapsto> x\<lparr>id_status := st\<rparr>)\<rparr>\<rparr>)
   }"

definition call_idler :: "app \<Rightarrow> nat libc \<Rightarrow> nat \<Rightarrow> sol_idler_common \<Rightarrow> mainloop \<Rightarrow> (bool \<times> mainloop) option" where
  "call_idler a l p x s =
     (let s = s\<lparr>ml_idled := ml_idled s @ [p]\<rparr>; (calls, again) = run_idler a (id_cb x) s
      in do { s \<leftarrow> do_calls a l calls s; Some (again, s) })"

definition idler_done :: "nat \<Rightarrow> mainloop \<Rightarrow> mainloop option" where
  "idler_done p s = do {
     x \<leftarrow> rg_objs (ml_idlers s) p;
     (if id_status x = idler_deleted then Some s
      else do {
        r \<leftarrow> mark (\<lambda>x. x\<lparr>id_status := idler_deleted\<rparr>) p (ml_idlers s);
        Some (s\<lparr>ml_idlers := r\<rparr>)
      })
   }"

text \<open>An idler that is ready: its callback, and the timeouts that became due meanwhile.\<close>

definition idler_fire :: "app \<Rightarrow> nat libc \<Rightarrow> nat \<Rightarrow> sol_idler_common \<Rightarrow> mainloop \<Rightarrow> mainloop option" where
  "idler_fire a l p x s = do {
     (again, s) \<leftarrow> call_idler a l p x s;
     s \<leftarrow> (if again then Some s else idler_done p s);
     sol_mainloop_common_timeout_process a l s
   }"

text \<open>The index is below the length, which is at most 65535, so the \<^verbatim>\<open>uint16_t\<close> does not wrap.\<close>

partial_function (option) idler_loop :: "app \<Rightarrow> nat libc \<Rightarrow> nat \<Rightarrow> mainloop \<Rightarrow> mainloop option" where
  "idler_loop a l i s =
     (if i < vlen (rg_vector (ml_idlers s)) then do {
        p \<leftarrow> sol_ptr_vector_get_no_check (rg_vector (ml_idlers s)) i;
        (if \<not> sol_mainloop_common_loop_check s then Some s
         else do {
           x \<leftarrow> rg_objs (ml_idlers s) p;
           (if id_status x \<noteq> idler_ready then do {
              s \<leftarrow> (if id_status x = idler_ready_on_next_iteration then set_idler p idler_ready s else Some s);
              idler_loop a l (i + 1) s
            } else do { s \<leftarrow> idler_fire a l p x s; idler_loop a l (i + 1) s })
         })
      } else Some s)"

partial_function (option) idlers_ready_loop :: "nat \<Rightarrow> mainloop \<Rightarrow> mainloop option" where
  "idlers_ready_loop i s =
     (if i < vlen (rg_vector (ml_idlers s)) then do {
        p \<leftarrow> sol_ptr_vector_get_no_check (rg_vector (ml_idlers s)) i;
        x \<leftarrow> rg_objs (ml_idlers s) p;
        s \<leftarrow> (if id_status x = idler_ready_on_next_iteration then set_idler p idler_ready s else Some s);
        idlers_ready_loop (i + 1) s
      } else Some s)"

definition sol_mainloop_common_idler_process :: "app \<Rightarrow> nat libc \<Rightarrow> mainloop \<Rightarrow> mainloop option" where
  "sol_mainloop_common_idler_process a l s = do {
     s \<leftarrow> idler_loop a l 0 (s\<lparr>ml_idlers := set_processing True (ml_idlers s)\<rparr>);
     s \<leftarrow> idlers_ready_loop 0 s;
     s \<leftarrow> idler_cleanup l s;
     Some (s\<lparr>ml_idlers := set_processing False (ml_idlers s)\<rparr>)
   }"

definition sol_mainloop_common_idler_first :: "mainloop \<Rightarrow> nat option" where
  "sol_mainloop_common_idler_first s =
     find (\<lambda>p. \<forall>x \<in> set_option (rg_objs (ml_idlers s) p). id_status x \<noteq> idler_deleted) (velems (rg_vector (ml_idlers s)))"

subsection \<open>Sources\<close>

definition upd_source :: "nat \<Rightarrow> (sol_mainloop_source_common \<Rightarrow> sol_mainloop_source_common) \<Rightarrow> mainloop \<Rightarrow> mainloop option" where
  "upd_source p f s = do {
     x \<leftarrow> rg_objs (ml_sources s) p;
     Some (s\<lparr>ml_sources := (ml_sources s)\<lparr>rg_objs := (rg_objs (ml_sources s))(p \<mapsto> f x)\<rparr>\<rparr>)
   }"

text \<open>
  The iteration the four source functions share: it visits the sources that are not marked, those that
  callbacks add included, and, if \<open>stoppable\<close>, ends when the loop is to quit. \<open>acc\<close> is the variable
  the body accumulates its result in.
\<close>

partial_function (option) source_loop ::
    "bool \<Rightarrow> (nat \<Rightarrow> sol_mainloop_source_common \<Rightarrow> 'r \<Rightarrow> mainloop \<Rightarrow> ('r \<times> mainloop) option) \<Rightarrow> nat \<Rightarrow> 'r \<Rightarrow> mainloop
      \<Rightarrow> ('r \<times> mainloop) option" where
  "source_loop stoppable body i acc s =
     (if i < vlen (rg_vector (ml_sources s)) then do {
        p \<leftarrow> sol_ptr_vector_get_no_check (rg_vector (ml_sources s)) i;
        (if stoppable \<and> \<not> sol_mainloop_common_loop_check s then Some (acc, s)
         else do {
           x \<leftarrow> rg_objs (ml_sources s) p;
           (if src_remove_me x then source_loop stoppable body (i + 1) acc s
            else do { (acc, s) \<leftarrow> body p x acc s; source_loop stoppable body (i + 1) acc s })
         })
      } else Some (acc, s))"

definition source_iterate ::
    "nat libc \<Rightarrow> bool \<Rightarrow> (nat \<Rightarrow> sol_mainloop_source_common \<Rightarrow> 'r \<Rightarrow> mainloop \<Rightarrow> ('r \<times> mainloop) option) \<Rightarrow> 'r \<Rightarrow> mainloop
      \<Rightarrow> ('r \<times> mainloop) option" where
  "source_iterate l stoppable body acc s = do {
     (acc, s) \<leftarrow> source_loop stoppable body 0 acc (s\<lparr>ml_sources := set_processing True (ml_sources s)\<rparr>);
     s \<leftarrow> source_cleanup l s;
     Some (acc, s\<lparr>ml_sources := set_processing False (ml_sources s)\<rparr>)
   }"

text \<open>The bodies of the four iterations.\<close>

definition prepare_body :: "app \<Rightarrow> nat libc \<Rightarrow> nat \<Rightarrow> sol_mainloop_source_common \<Rightarrow> bool \<Rightarrow> mainloop \<Rightarrow> (bool \<times> mainloop) option" where
  "prepare_body a l p x ready s =
     (if has_prepare (src_type x) then
        let (calls, r) = run_prepare a (src_data x) s
        in do {
          s \<leftarrow> do_calls a l calls s;
          s \<leftarrow> upd_source p (\<lambda>x. x\<lparr>src_ready := r\<rparr>) s;
          Some (ready \<or> r, s)
        }
      else do { s \<leftarrow> upd_source p (\<lambda>x. x\<lparr>src_ready := False\<rparr>) s; Some (ready, s) })"

definition sol_mainloop_common_source_prepare :: "app \<Rightarrow> nat libc \<Rightarrow> mainloop \<Rightarrow> (bool \<times> mainloop) option" where
  "sol_mainloop_common_source_prepare a l = source_iterate l True (prepare_body a l) False"

text \<open>A negative number of seconds counts as no wait at all.\<close>

definition clamp :: "timespec \<Rightarrow> timespec" where
  "clamp t = (if tv_sec t < 0 then \<lparr>tv_sec = 0, tv_nsec = 0\<rparr> else t)"

definition next_timeout_body ::
    "app \<Rightarrow> nat libc \<Rightarrow> nat \<Rightarrow> sol_mainloop_source_common \<Rightarrow> timespec option \<Rightarrow> mainloop \<Rightarrow> (timespec option \<times> mainloop) option" where
  "next_timeout_body a l p x timeout s =
     (if has_get_next_timeout (src_type x) then
        let (calls, r) = run_get_next_timeout a (src_data x) s
        in do {
          s \<leftarrow> do_calls a l calls s;
          Some (case r of None \<Rightarrow> timeout
            | Some cur \<Rightarrow> (case timeout of None \<Rightarrow> Some (clamp cur)
                | Some t \<Rightarrow> Some (if sol_util_timespec_compare cur t < 0 then clamp cur else t)), s)
        }
      else Some (timeout, s))"

definition sol_mainloop_common_source_get_next_timeout ::
    "app \<Rightarrow> nat libc \<Rightarrow> mainloop \<Rightarrow> (timespec option \<times> mainloop) option" where
  "sol_mainloop_common_source_get_next_timeout a l = source_iterate l False (next_timeout_body a l) None"

definition check_body :: "app \<Rightarrow> nat libc \<Rightarrow> nat \<Rightarrow> sol_mainloop_source_common \<Rightarrow> bool \<Rightarrow> mainloop \<Rightarrow> (bool \<times> mainloop) option" where
  "check_body a l p x ready s =
     (let (calls, r) = run_check a (src_data x) s
      in do {
        s \<leftarrow> do_calls a l calls s;
        x \<leftarrow> rg_objs (ml_sources s) p;
        let r = src_ready x \<or> r;
        s \<leftarrow> upd_source p (\<lambda>x. x\<lparr>src_ready := r\<rparr>) s;
        Some (ready \<or> r, s)
      })"

definition sol_mainloop_common_source_check :: "app \<Rightarrow> nat libc \<Rightarrow> mainloop \<Rightarrow> (bool \<times> mainloop) option" where
  "sol_mainloop_common_source_check a l = source_iterate l True (check_body a l) False"

definition dispatch_body :: "app \<Rightarrow> nat libc \<Rightarrow> nat \<Rightarrow> sol_mainloop_source_common \<Rightarrow> unit \<Rightarrow> mainloop \<Rightarrow> (unit \<times> mainloop) option" where
  "dispatch_body a l p x u s =
     (if src_ready x then do {
        s \<leftarrow> do_calls a l (run_dispatch a (src_data x) s) s;
        s \<leftarrow> upd_source p (\<lambda>x. x\<lparr>src_ready := False\<rparr>) s;
        Some ((), s)
      } else Some ((), s))"

definition sol_mainloop_common_source_dispatch :: "app \<Rightarrow> nat libc \<Rightarrow> mainloop \<Rightarrow> (unit \<times> mainloop) option" where
  "sol_mainloop_common_source_dispatch a l = source_iterate l True (dispatch_body a l) ()"

text \<open>Everything is freed, marked or not.\<close>

definition sol_mainloop_common_source_shutdown :: "mainloop \<Rightarrow> mainloop" where
  "sol_mainloop_common_source_shutdown s =
     (let r = ml_sources s; xs = List.map_filter (rg_objs r) (velems (rg_vector r))
      in s\<lparr>ml_sources := r\<lparr>rg_vector := sol_vector_clear (rg_vector r), rg_objs := \<lambda>_. None\<rparr>,
           ml_disposed := ml_disposed s @ disposed_data xs\<rparr>)"

definition sol_mainloop_impl_shutdown :: "mainloop \<Rightarrow> mainloop" where
  "sol_mainloop_impl_shutdown s =
     s\<lparr>ml_timeouts := (ml_timeouts s)\<lparr>rg_vector := sol_vector_clear (rg_vector (ml_timeouts s)), rg_objs := \<lambda>_. None\<rparr>,
       ml_idlers := (ml_idlers s)\<lparr>rg_vector := sol_vector_clear (rg_vector (ml_idlers s)), rg_objs := \<lambda>_. None\<rparr>\<rparr>"

subsection \<open>How long to wait\<close>

definition sol_mainloop_common_timeout_first :: "mainloop \<Rightarrow> nat option" where
  "sol_mainloop_common_timeout_first s =
     find (\<lambda>p. \<forall>t \<in> set_option (rg_objs (ml_timeouts s) p). \<not> to_remove_me t) (velems (rg_vector (ml_timeouts s)))"

text \<open>The first timeout is looked up before the sources are asked; \<open>None\<close> inside: no timeout at all.\<close>

definition sol_mainloop_common_timespec_first :: "app \<Rightarrow> nat libc \<Rightarrow> mainloop \<Rightarrow> (timespec option \<times> mainloop) option" where
  "sol_mainloop_common_timespec_first a l s =
     (let timeout = sol_mainloop_common_timeout_first s
      in do {
        (ts, s) \<leftarrow> sol_mainloop_common_source_get_next_timeout a l s;
        (case timeout of None \<Rightarrow> Some (ts, s)
         | Some p \<Rightarrow>
             let (now, s) = get_current a s
             in do {
               t \<leftarrow> rg_objs (ml_timeouts s) p;
               let diff = sol_util_timespec_sub (to_expire t) now;
               Some (case ts of None \<Rightarrow> Some (clamp diff)
                 | Some ts \<Rightarrow> Some (if sol_util_timespec_compare diff ts < 0 then clamp diff else ts), s)
             })
      })"

text \<open>The loop itself; an iteration is the platform's.\<close>

partial_function (option) run_iterations :: "(mainloop \<Rightarrow> mainloop option) \<Rightarrow> mainloop \<Rightarrow> mainloop option" where
  "run_iterations iter s =
     (if sol_mainloop_common_loop_check s then do { s \<leftarrow> iter s; run_iterations iter s } else Some s)"

definition sol_mainloop_impl_run :: "bool \<Rightarrow> (mainloop \<Rightarrow> mainloop option) \<Rightarrow> mainloop \<Rightarrow> mainloop option" where
  "sol_mainloop_impl_run main_thread iter s =
     (if \<not> main_thread then Some s else run_iterations iter (sol_mainloop_common_loop_set True s))"

section \<open>Registries are consistent\<close>

text \<open>
  The vector holds every live object exactly once and nothing else, and the counter counts the marked
  ones. Outside of processing no marked object is left.
\<close>

definition marked_at :: "('a \<Rightarrow> bool) \<Rightarrow> 'a registry \<Rightarrow> nat \<Rightarrow> bool" where
  "marked_at marked r p \<longleftrightarrow> (\<exists>x. rg_objs r p = Some x \<and> marked x)"

definition reg_ok :: "('a \<Rightarrow> bool) \<Rightarrow> nat \<Rightarrow> 'a registry \<Rightarrow> bool" where
  "reg_ok marked n r \<longleftrightarrow> vec_wf (rg_vector r) \<and> vec_small (rg_vector r) \<and> distinct (velems (rg_vector r)) \<and>
     dom (rg_objs r) = set (velems (rg_vector r)) \<and> (\<forall>p \<in> dom (rg_objs r). p < n) \<and>
     rg_pending_deletion r = length (filter (marked_at marked r) (velems (rg_vector r)))"

definition reg_settled :: "'a registry \<Rightarrow> bool" where
  "reg_settled r \<longleftrightarrow> rg_processing r \<or> rg_pending_deletion r = 0"

lemma reg_ok_init: "reg_ok marked n registry_init"
  by (simp add: reg_ok_def registry_init_def sol_ptr_vector_init_def vec_wf_init vec_small_def sol_vector_init_def
      UINT16_MAX_def INT_MAX_def vec_wf_def velems_def)

lemma reg_ok_mono: "reg_ok marked n r \<Longrightarrow> n \<le> m \<Longrightarrow> reg_ok marked m r"
  by (fastforce simp: reg_ok_def)

lemma reg_ok_processing [simp]: "reg_ok marked n (set_processing b r) = reg_ok marked n r"
  by (simp add: reg_ok_def set_processing_def marked_at_def [abs_def])

lemma reg_length: "reg_ok marked n r \<Longrightarrow> length (velems (rg_vector r)) = vlen (rg_vector r)"
  by (simp add: reg_ok_def length_velems)

lemma reg_entry:
  assumes "reg_ok marked n r" and "i < vlen (rg_vector r)"
  obtains p x where "sol_ptr_vector_get_no_check (rg_vector r) i = Some p" and "p = velems (rg_vector r) ! i"
    and "rg_objs r p = Some x"
proof -
  let ?p = "velems (rg_vector r) ! i"
  have "?p \<in> dom (rg_objs r)" using assms reg_length [OF assms(1)] by (simp add: reg_ok_def)
  then obtain x where "rg_objs r ?p = Some x" by blast
  with assms show thesis using that by (simp add: reg_ok_def)
qed

text \<open>Deleting the entry at \<open>i\<close>, which is marked.\<close>

lemma reg_delete:
  assumes ok: "reg_ok marked n r" and i: "i < vlen (rg_vector r)" and m: "marked_at marked r (velems (rg_vector r) ! i)"
  obtains v where "sol_vector_del l (rg_vector r) i = Some (Inr (), v)"
    and "velems v = take i (velems (rg_vector r)) @ drop (i + 1) (velems (rg_vector r))"
    and "reg_ok marked n (r\<lparr>rg_vector := v, rg_objs := (rg_objs r)(velems (rg_vector r) ! i := None),
      rg_pending_deletion := rg_pending_deletion r - 1\<rparr>)"
proof -
  let ?xs = "velems (rg_vector r)" and ?p = "velems (rg_vector r) ! i"
  note o = ok [unfolded reg_ok_def]
  obtain v where v: "sol_vector_del l (rg_vector r) i = Some (Inr (), v)" "vec_wf v"
    "velem_size v = velem_size (rg_vector r)" "velems v = take i ?xs @ drop (i + 1) ?xs"
    using o i by (metis sol_vector_del_ok)
  have xs: "?xs = take i ?xs @ ?p # drop (i + 1) ?xs" using i reg_length [OF ok] by (simp add: id_take_nth_drop)
  let ?r = "r\<lparr>rg_vector := v, rg_objs := (rg_objs r)(?p := None), rg_pending_deletion := rg_pending_deletion r - 1\<rparr>"
  have d: "?p \<notin> set (take i ?xs @ drop (i + 1) ?xs)" using o by (subst (asm) xs) simp
  then have "filter (marked_at marked ?r) (velems v) = filter (marked_at marked r) (take i ?xs @ drop (i + 1) ?xs)"
    unfolding v(4) by (intro filter_cong) (auto simp: marked_at_def)
  moreover have "length (filter (marked_at marked r) ?xs) = Suc (length (filter (marked_at marked r) (take i ?xs @ drop (i + 1) ?xs)))"
    using m by (subst xs) simp
  moreover have "dom ((rg_objs r)(?p := None)) = set (take i ?xs @ drop (i + 1) ?xs)"
  proof -
    have "set ?xs = insert ?p (set (take i ?xs @ drop (i + 1) ?xs))" by (subst xs) auto
    then show ?thesis using o d by auto
  qed
  moreover have "distinct (take i ?xs @ drop (i + 1) ?xs)" using o by (subst (asm) xs) simp
  moreover have "\<forall>q \<in> dom ((rg_objs r)(?p := None)). q < n" using o by auto
  ultimately have "reg_ok marked n ?r"
    using o v(2,4) vec_small_cong [OF v(3)] unfolding reg_ok_def by simp
  with v that show thesis by blast
qed

lemma cleanup_loop_ok:
  assumes "reg_ok marked n r" and "i \<le> vlen (rg_vector r)" and "rg_pending_deletion r \<noteq> 0"
    and "\<forall>p \<in> set (drop i (velems (rg_vector r))). \<not> marked_at marked r p"
  shows "\<exists>r' freed'. cleanup_loop l marked i r freed = Some (r', freed') \<and> reg_ok marked n r' \<and>
    rg_pending_deletion r' = 0 \<and> rg_processing r' = rg_processing r \<and>
    velems (rg_vector r') = filter (\<lambda>p. \<not> marked_at marked r p) (velems (rg_vector r)) \<and>
    rg_objs r' = (\<lambda>p. if marked_at marked r p then None else rg_objs r p)"
  using assms
proof (induction i arbitrary: r freed)
  case 0
  then have "filter (marked_at marked r) (velems (rg_vector r)) = []" by (simp add: filter_empty_conv)
  with 0 show ?case by (simp add: reg_ok_def)
next
  case (Suc i)
  let ?xs = "velems (rg_vector r)"
  have lt: "i < vlen (rg_vector r)" using Suc.prems(2) by simp
  obtain p x where p: "sol_ptr_vector_get_no_check (rg_vector r) i = Some p" "p = ?xs ! i" "rg_objs r p = Some x"
    by (rule reg_entry [OF Suc.prems(1) lt])
  have dr: "drop i ?xs = p # drop (Suc i) ?xs" using lt reg_length [OF Suc.prems(1)] p(2) by (simp add: Cons_nth_drop_Suc)
  show ?case
  proof (cases "marked x")
    case False
    then have "\<forall>q \<in> set (drop i ?xs). \<not> marked_at marked r q" using Suc.prems(4) p(3) by (simp add: dr marked_at_def)
    from Suc.IH [OF Suc.prems(1) _ Suc.prems(3) this, of freed] lt False p(1,3) show ?thesis by simp
  next
    case True
    then have m: "marked_at marked r (?xs ! i)" using p by (simp add: marked_at_def)
    let ?rv = "\<lambda>v. r\<lparr>rg_vector := v, rg_objs := (rg_objs r)(?xs ! i := None), rg_pending_deletion := rg_pending_deletion r - 1\<rparr>"
    obtain v where v: "sol_vector_del l (rg_vector r) i = Some (Inr (), v)"
      "velems v = take i ?xs @ drop (i + 1) ?xs" "reg_ok marked n (?rv v)"
      by (rule reg_delete [OF Suc.prems(1) lt m])
    define r1 where "r1 = ?rv v"
    have r1: "rg_vector r1 = v" "rg_objs r1 = (rg_objs r)(?xs ! i := None)" "rg_processing r1 = rg_processing r"
      by (simp_all add: r1_def)
    note ok1 = v(3) [folded r1_def]
    have xs: "?xs = take i ?xs @ p # drop (Suc i) ?xs" using dr by (metis append_take_drop_id)
    have um: "marked_at marked r1 q \<longleftrightarrow> marked_at marked r q \<and> q \<noteq> ?xs ! i" for q by (simp add: marked_at_def r1)
    have ne: "?xs ! i \<notin> set (take i ?xs @ drop (Suc i) ?xs)"
      using Suc.prems(1) unfolding p(2) [symmetric] by (subst (asm) reg_ok_def) (metis distinct_append distinct.simps(2) xs disjoint_insert(1) list.simps(15) set_append Un_iff)
    have flt: "filter (\<lambda>q. \<not> marked_at marked r1 q) (velems v) = filter (\<lambda>q. \<not> marked_at marked r q) ?xs"
    proof -
      have "filter (\<lambda>q. \<not> marked_at marked r1 q) (velems v) = filter (\<lambda>q. \<not> marked_at marked r q) (take i ?xs @ drop (Suc i) ?xs)"
        unfolding v(2) Suc_eq_plus1 [symmetric] um using ne by (intro filter_cong) auto
      also have "\<dots> = filter (\<lambda>q. \<not> marked_at marked r q) (take i ?xs @ p # drop (Suc i) ?xs)" using m p(2) by simp
      finally show ?thesis using xs by simp
    qed
    have objs: "(\<lambda>q. if marked_at marked r1 q then None else rg_objs r1 q) = (\<lambda>q. if marked_at marked r q then None else rg_objs r q)"
      using m by (auto simp: um r1)
    have step: "cleanup_loop l marked (Suc i) r freed =
      (if rg_pending_deletion r1 = 0 then Some (r1, freed @ [x]) else cleanup_loop l marked i r1 (freed @ [x]))"
      using p(1,3) v(1) True by (simp add: p(2) Let_def r1_def)
    show ?thesis
    proof (cases "rg_pending_deletion r1 = 0")
      case True
      then have none: "\<forall>q \<in> set (velems v). \<not> marked_at marked r1 q" using ok1 r1 by (simp add: reg_ok_def filter_empty_conv)
      then have "velems v = filter (\<lambda>q. \<not> marked_at marked r1 q) (velems v)" by simp
      moreover have um0: "\<not> marked_at marked r1 q" for q
        using none ok1 r1 unfolding reg_ok_def marked_at_def by blast
      moreover have "rg_objs r1 = (\<lambda>q. if marked_at marked r q then None else rg_objs r q)" using objs um0 by simp
      ultimately show ?thesis
        using True ok1 step flt r1(1,3) by (intro exI [of _ r1] exI [of _ "freed @ [x]"]) (simp del: cleanup_loop.simps)
    next
      case False
      have "i \<le> vlen (rg_vector r1)" using v(2) reg_length [OF ok1] lt reg_length [OF Suc.prems(1)] r1 by simp
      moreover have "\<forall>q \<in> set (drop i (velems (rg_vector r1))). \<not> marked_at marked r1 q"
        using Suc.prems(4) v(2) lt reg_length [OF Suc.prems(1)] r1 by (simp add: um)
      ultimately show ?thesis using Suc.IH [OF ok1 _ False, of "freed @ [x]"] step False flt objs r1 by simp
    qed
  qed
qed

lemma cleanup_ok:
  assumes "reg_ok marked n r"
  obtains r' freed where "cleanup l marked r = Some (r', freed)" and "reg_ok marked n r'"
    and "rg_pending_deletion r' = 0" and "rg_processing r' = rg_processing r"
    and "velems (rg_vector r') = filter (\<lambda>p. \<not> marked_at marked r p) (velems (rg_vector r))"
    and "rg_objs r' = (\<lambda>p. if marked_at marked r p then None else rg_objs r p)"
proof (cases "rg_pending_deletion r = 0")
  case True
  then have "\<not> marked_at marked r p" for p
  proof -
    have "\<forall>q \<in> set (velems (rg_vector r)). \<not> marked_at marked r q"
      using assms True by (simp add: reg_ok_def filter_empty_conv)
    moreover have "marked_at marked r p \<Longrightarrow> p \<in> set (velems (rg_vector r))"
      using assms by (auto simp: reg_ok_def marked_at_def)
    ultimately show ?thesis by blast
  qed
  then show ?thesis using that [of r "[]"] True assms by (simp add: cleanup_def)
next
  case False
  have "\<forall>p \<in> set (drop (vlen (rg_vector r)) (velems (rg_vector r))). \<not> marked_at marked r p"
    using reg_length [OF assms] by simp
  from cleanup_loop_ok [OF assms order_refl False this, of l "[]"] show ?thesis
    using that False by (auto simp: cleanup_def)
qed

lemma length_filter_insert:
  "distinct xs \<Longrightarrow> p \<in> set xs \<Longrightarrow> \<not> P p \<Longrightarrow> length (filter (\<lambda>q. P q \<or> q = p) xs) = Suc (length (filter P xs))"
proof (induction xs)
  case (Cons x xs)
  show ?case
  proof (cases "x = p")
    case True
    with Cons.prems have "filter (\<lambda>q. P q \<or> q = p) xs = filter P xs" by (intro filter_cong) auto
    with True Cons.prems show ?thesis by simp
  next
    case False
    with Cons show ?thesis by auto
  qed
qed simp

lemma reg_replace:
  assumes ok: "reg_ok marked n r" and x: "rg_objs r p = Some x" and y: "marked x \<Longrightarrow> marked y"
    and k: "k = (if marked y \<and> \<not> marked x then 1 else 0)"
  shows "reg_ok marked n (r\<lparr>rg_objs := (rg_objs r)(p \<mapsto> y), rg_pending_deletion := rg_pending_deletion r + k\<rparr>)"
proof -
  define r1 where "r1 = r\<lparr>rg_objs := (rg_objs r)(p \<mapsto> y), rg_pending_deletion := rg_pending_deletion r + k\<rparr>"
  let ?xs = "velems (rg_vector r)"
  note o = ok [unfolded reg_ok_def]
  have p: "p \<in> set ?xs" using o x by blast
  have m: "marked_at marked r1 q \<longleftrightarrow> marked_at marked r q \<or> marked y \<and> q = p" for q
    using x y by (auto simp: marked_at_def r1_def)
  have mp: "marked_at marked r p = marked x" using x by (simp add: marked_at_def)
  have "length (filter (marked_at marked r1) ?xs) = rg_pending_deletion r + k"
  proof (cases "marked y \<and> \<not> marked x")
    case True
    then have "marked_at marked r1 = (\<lambda>q. marked_at marked r q \<or> q = p)" by (auto simp: m)
    moreover have "length (filter (\<lambda>q. marked_at marked r q \<or> q = p) ?xs) = rg_pending_deletion r + 1"
      using True o mp p by (subst length_filter_insert) simp_all
    ultimately show ?thesis using True k by simp
  next
    case False
    then have "marked_at marked r1 = marked_at marked r" using mp by (auto simp: m)
    moreover have "k = 0" using False k by simp
    ultimately show ?thesis using o by simp
  qed
  moreover have "dom (rg_objs r1) = dom (rg_objs r)" using x by (auto simp: r1_def)
  moreover have "rg_vector r1 = rg_vector r" "rg_pending_deletion r1 = rg_pending_deletion r + k" by (simp_all add: r1_def)
  ultimately have "reg_ok marked n r1" using o unfolding reg_ok_def by simp
  then show ?thesis by (simp only: r1_def)
qed

lemma reg_replace_same:
  assumes "reg_ok marked n r" and "rg_objs r p = Some x" and "marked y = marked x"
  shows "reg_ok marked n (r\<lparr>rg_objs := (rg_objs r)(p \<mapsto> y)\<rparr>)"
  using reg_replace [OF assms(1,2), of y 0] assms(3) by simp

lemma mark_ok:
  assumes "reg_ok marked n r" and "rg_objs r p = Some x" and "\<not> marked x" and "marked (upd x)"
  shows "mark upd p r = Some (r\<lparr>rg_objs := (rg_objs r)(p \<mapsto> upd x), rg_pending_deletion := rg_pending_deletion r + 1\<rparr>)"
    and "reg_ok marked n (r\<lparr>rg_objs := (rg_objs r)(p \<mapsto> upd x), rg_pending_deletion := rg_pending_deletion r + 1\<rparr>)"
  using assms reg_replace [OF assms(1,2), of "upd x" 1] by (simp_all add: mark_def)

lemma reg_vector_replace:
  assumes ok: "reg_ok marked n r" and v: "vec_wf v" "velem_size v = velem_size (rg_vector r)"
    and perm: "mset (velems v) = mset (velems (rg_vector r))"
  shows "reg_ok marked n (r\<lparr>rg_vector := v\<rparr>)"
proof -
  let ?r = "r\<lparr>rg_vector := v\<rparr>"
  have "marked_at marked ?r = marked_at marked r" by (simp add: marked_at_def [abs_def])
  moreover have "length (filter P (velems v)) = length (filter P (velems (rg_vector r)))" for P
    using perm by (metis mset_filter size_mset)
  ultimately show ?thesis
    using ok v vec_small_cong [OF v(2)] mset_eq_setD [OF perm] mset_eq_imp_distinct_iff [OF perm] unfolding reg_ok_def by simp
qed

lemma reg_add:
  assumes ok: "reg_ok marked n r" and v: "vec_wf v" "velem_size v = velem_size (rg_vector r)"
    and perm: "mset (velems v) = add_mset n (mset (velems (rg_vector r)))" and x: "\<not> marked x"
  shows "reg_ok marked (n + 1) (r\<lparr>rg_vector := v, rg_objs := (rg_objs r)(n \<mapsto> x)\<rparr>)"
proof -
  let ?r = "r\<lparr>rg_vector := v, rg_objs := (rg_objs r)(n \<mapsto> x)\<rparr>" and ?xs = "velems (rg_vector r)"
  note o = ok [unfolded reg_ok_def]
  have fresh: "n \<notin> set ?xs" using o by blast
  have perm': "mset (velems v) = mset (n # ?xs)" using perm by simp
  have "marked_at marked ?r n = False" using x by (simp add: marked_at_def)
  moreover have "filter (marked_at marked ?r) ?xs = filter (marked_at marked r) ?xs"
    using fresh by (intro filter_cong) (auto simp: marked_at_def)
  moreover have "length (filter (marked_at marked ?r) (velems v)) = length (filter (marked_at marked ?r) (n # ?xs))"
    using perm' by (metis mset_filter size_mset)
  ultimately have "length (filter (marked_at marked ?r) (velems v)) = rg_pending_deletion r" using o by simp
  moreover have "set (velems v) = insert n (set ?xs)" using mset_eq_setD [OF perm'] by simp
  moreover have "distinct (velems v)" using mset_eq_imp_distinct_iff [OF perm'] o fresh by simp
  moreover have "\<forall>p \<in> insert n (dom (rg_objs r)). p < n + 1" using o by (auto intro: less_SucI)
  ultimately show ?thesis
    using o v vec_small_cong [OF v(2)] unfolding reg_ok_def by simp
qed

section \<open>The order of times\<close>

definition ts_norm :: "timespec \<Rightarrow> bool" where
  "ts_norm t \<longleftrightarrow> 0 \<le> tv_nsec t \<and> tv_nsec t < SOL_UTIL_NSEC_PER_SEC"

definition ts_val :: "timespec \<Rightarrow> int" where
  "ts_val t = tv_sec t * SOL_UTIL_NSEC_PER_SEC + tv_nsec t"

lemma timespec_compare_val:
  assumes "ts_norm a" and "ts_norm b"
  shows "0 < sol_util_timespec_compare a b \<longleftrightarrow> ts_val b < ts_val a"
    and "sol_util_timespec_compare a b < 0 \<longleftrightarrow> ts_val a < ts_val b"
    and "sol_util_timespec_compare a b \<le> 0 \<longleftrightarrow> ts_val a \<le> ts_val b"
    and "0 \<le> sol_util_timespec_compare a b \<longleftrightarrow> ts_val b \<le> ts_val a"
  using assms by (auto simp: sol_util_timespec_compare_def ts_norm_def ts_val_def SOL_UTIL_NSEC_PER_SEC_def)

lemma timespec_add_val:
  assumes "ts_norm a" and "ts_norm b"
  shows "ts_norm (sol_util_timespec_add a b)" and "ts_val (sol_util_timespec_add a b) = ts_val a + ts_val b"
  using assms by (auto simp: sol_util_timespec_add_def ts_norm_def ts_val_def SOL_UTIL_NSEC_PER_SEC_def Let_def)

lemma timespec_sub_val:
  assumes "ts_norm a" and "ts_norm b"
  shows "ts_norm (sol_util_timespec_sub a b)" and "ts_val (sol_util_timespec_sub a b) = ts_val a - ts_val b"
  using assms by (auto simp: sol_util_timespec_sub_def ts_norm_def ts_val_def SOL_UTIL_NSEC_PER_SEC_def Let_def)

lemma period_of_val: "ts_norm (period_of ms)" "ts_val (period_of ms) = int ms * 1000000"
proof -
  show "ts_norm (period_of ms)"
    by (simp add: ts_norm_def period_of_def SOL_UTIL_NSEC_PER_SEC_def SOL_UTIL_MSEC_PER_SEC_def SOL_UTIL_NSEC_PER_MSEC_def)
  have "int (ms div 1000) * 1000 + int (ms mod 1000) = int ms"
    by (metis div_mult_mod_eq of_nat_add of_nat_mult of_nat_numeral)
  then show "ts_val (period_of ms) = int ms * 1000000"
    by (simp add: ts_val_def period_of_def SOL_UTIL_NSEC_PER_SEC_def SOL_UTIL_MSEC_PER_SEC_def SOL_UTIL_NSEC_PER_MSEC_def)
qed

text \<open>The compare function of the timeouts satisfies the laws that the sorted vector operations need.\<close>

interpretation timeout_cmp: comparator "timeout_compare objs" for objs
proof
  fix x y z
  show "timeout_compare objs x y < 0 \<longleftrightarrow> 0 < timeout_compare objs y x"
    by (auto simp: timeout_compare_def sol_util_timespec_compare_def Let_def)
  assume "timeout_compare objs x y \<le> 0" "timeout_compare objs y z \<le> 0"
  then show "timeout_compare objs x z \<le> 0"
    by (auto simp: timeout_compare_def sol_util_timespec_compare_def Let_def of_bool_def split: if_splits)
qed

section \<open>The invariant of the main loop\<close>

text \<open>
  The three registries are consistent and settled; the timeouts are sorted by expiration, their
  times are normalised and their periods are at least \<open>least\<close> milliseconds.
\<close>

definition timeouts_ok :: "nat \<Rightarrow> sol_timeout_common registry \<Rightarrow> bool" where
  "timeouts_ok least r \<longleftrightarrow> cmp_sorted (timeout_compare (rg_objs r)) (velems (rg_vector r)) \<and>
     (\<forall>p t. rg_objs r p = Some t \<longrightarrow> ts_norm (to_expire t) \<and> (\<exists>ms. least \<le> ms \<and> to_timeout t = period_of ms))"

definition ml_ok :: "nat \<Rightarrow> mainloop \<Rightarrow> bool" where
  "ml_ok least s \<longleftrightarrow> reg_ok to_remove_me (ml_next s) (ml_timeouts s) \<and> reg_settled (ml_timeouts s) \<and> timeouts_ok least (ml_timeouts s) \<and>
     reg_ok (\<lambda>x. id_status x = idler_deleted) (ml_next s) (ml_idlers s) \<and> reg_settled (ml_idlers s) \<and>
     reg_ok src_remove_me (ml_next s) (ml_sources s) \<and> reg_settled (ml_sources s)"

lemma reg_settled_init: "reg_settled registry_init"
  by (simp add: reg_settled_def registry_init_def)

lemma ml_ok_init: "ml_ok least mainloop_init"
proof -
  have "timeouts_ok least registry_init"
    by (simp add: timeouts_ok_def registry_init_def cmp_sorted_def sol_ptr_vector_init_def)
  then show ?thesis by (simp add: ml_ok_def mainloop_init_def reg_ok_init reg_settled_init)
qed

text \<open>What the main loop needs from the platform's clock: normalised readings that do not go back.\<close>

definition clock_ok :: "app \<Rightarrow> bool" where
  "clock_ok a \<longleftrightarrow> (\<forall>n. ts_norm (clock a n)) \<and> (\<forall>m n. m \<le> n \<longrightarrow> ts_val (clock a m) \<le> ts_val (clock a n))"

text \<open>
  What a callback may do: only delete what exists, and only add timeouts of at least \<open>least\<close>
  milliseconds.
\<close>

fun call_ok :: "nat \<Rightarrow> call \<Rightarrow> mainloop \<Rightarrow> bool" where
  "call_ok least (Timeout_add ms cb) s = (least \<le> ms)"
| "call_ok least (Timeout_del p) s = (rg_objs (ml_timeouts s) p \<noteq> None)"
| "call_ok least (Idle_del p) s = (rg_objs (ml_idlers s) p \<noteq> None)"
| "call_ok least (Source_del p) s = (rg_objs (ml_sources s) p \<noteq> None)"
| "call_ok least _ s = True"

fun calls_ok :: "nat \<Rightarrow> app \<Rightarrow> nat libc \<Rightarrow> call list \<Rightarrow> mainloop \<Rightarrow> bool" where
  "calls_ok least a l [] s = True"
| "calls_ok least a l (c # cs) s =
     (call_ok least c s \<and> (case do_call a l c s of None \<Rightarrow> True | Some s' \<Rightarrow> calls_ok least a l cs s'))"

text \<open>
  How calls change the registries while they are processed: existing timeouts keep their times and
  their order and can only become marked; new ones expire after the clock's next reading.
\<close>

definition timeouts_ext :: "nat \<Rightarrow> app \<Rightarrow> mainloop \<Rightarrow> mainloop \<Rightarrow> bool" where
  "timeouts_ext least a s s' \<longleftrightarrow> rg_processing (ml_timeouts s') = rg_processing (ml_timeouts s) \<and>
     (rg_processing (ml_timeouts s) \<longrightarrow>
       (\<forall>p t. rg_objs (ml_timeouts s) p = Some t \<longrightarrow>
          (\<exists>b. rg_objs (ml_timeouts s') p = Some (t\<lparr>to_remove_me := b\<rparr>) \<and> (to_remove_me t \<longrightarrow> b))) \<and>
       filter (\<lambda>p. p < ml_next s) (velems (rg_vector (ml_timeouts s'))) = velems (rg_vector (ml_timeouts s)) \<and>
       (\<forall>i \<le> length (velems (rg_vector (ml_timeouts s))). (\<forall>p \<in> set (take i (velems (rg_vector (ml_timeouts s)))).
              ts_val (expire_of (rg_objs (ml_timeouts s)) p) \<le> ts_val (clock a (ml_reads s))) \<longrightarrow>
          take i (velems (rg_vector (ml_timeouts s'))) = take i (velems (rg_vector (ml_timeouts s)))) \<and>
       (\<forall>p t. rg_objs (ml_timeouts s') p = Some t \<and> rg_objs (ml_timeouts s) p = None \<longrightarrow>
          ml_next s \<le> p \<and> ts_val (clock a (ml_reads s)) + int least * 1000000 \<le> ts_val (to_expire t)))"

text \<open>Existing idlers can only become deleted, new ones wait for the next iteration.\<close>

definition idlers_ext :: "mainloop \<Rightarrow> mainloop \<Rightarrow> bool" where
  "idlers_ext s s' \<longleftrightarrow> rg_processing (ml_idlers s') = rg_processing (ml_idlers s) \<and>
     (rg_processing (ml_idlers s) \<longrightarrow>
       (\<forall>p x. rg_objs (ml_idlers s) p = Some x \<longrightarrow>
          rg_objs (ml_idlers s') p \<in> {Some x, Some (x\<lparr>id_status := idler_deleted\<rparr>)}) \<and>
       (\<exists>new. velems (rg_vector (ml_idlers s')) = velems (rg_vector (ml_idlers s)) @ new \<and>
          (\<forall>p \<in> set new. \<forall>x. rg_objs (ml_idlers s') p = Some x \<longrightarrow> id_status x \<noteq> idler_ready)))"

definition sources_ext :: "mainloop \<Rightarrow> mainloop \<Rightarrow> bool" where
  "sources_ext s s' \<longleftrightarrow> rg_processing (ml_sources s') = rg_processing (ml_sources s) \<and>
     (rg_processing (ml_sources s) \<longrightarrow>
       (\<forall>p x. rg_objs (ml_sources s) p = Some x \<longrightarrow>
          rg_objs (ml_sources s') p \<in> {Some x, Some (x\<lparr>src_remove_me := True\<rparr>)}) \<and>
       (\<exists>new. velems (rg_vector (ml_sources s')) = velems (rg_vector (ml_sources s)) @ new))"

definition ml_ext :: "nat \<Rightarrow> app \<Rightarrow> mainloop \<Rightarrow> mainloop \<Rightarrow> bool" where
  "ml_ext least a s s' \<longleftrightarrow> ml_ok least s' \<and> ml_ran s' = ml_ran s \<and> ml_idled s' = ml_idled s \<and> (run_loop s' \<longrightarrow> run_loop s) \<and> ml_next s \<le> ml_next s' \<and>
     ml_reads s \<le> ml_reads s' \<and> timeouts_ext least a s s' \<and> idlers_ext s s' \<and> sources_ext s s'"

lemma ext_refl:
  "timeouts_ext least a s s" "idlers_ext s s" "sources_ext s s"
  if "ml_ok least' s"
proof -
  have "filter (\<lambda>p. p < ml_next s) (velems (rg_vector (ml_timeouts s))) = velems (rg_vector (ml_timeouts s))"
    using that unfolding ml_ok_def reg_ok_def by (intro filter_True) auto
  then show "timeouts_ext least a s s" 
    unfolding timeouts_ext_def by (metis (mono_tags, lifting) option.distinct(1) sol_timeout_common.surjective sol_timeout_common.update_convs(4))
qed (simp_all add: idlers_ext_def sources_ext_def)

lemma timeouts_ext_cong:
  "ml_timeouts s1 = ml_timeouts s \<Longrightarrow> ml_next s1 = ml_next s \<Longrightarrow> ml_reads s1 = ml_reads s \<Longrightarrow> ml_timeouts s1' = ml_timeouts s' \<Longrightarrow>
     timeouts_ext least a s1 s1' = timeouts_ext least a s s'"
  by (simp add: timeouts_ext_def)

lemma timeouts_ext_old:
  assumes "timeouts_ext least a s s'" and "rg_processing (ml_timeouts s)" and "rg_objs (ml_timeouts s) p = Some t"
  obtains b where "rg_objs (ml_timeouts s') p = Some (t\<lparr>to_remove_me := b\<rparr>)" and "to_remove_me t \<longrightarrow> b"
proof -
  have "\<exists>b. rg_objs (ml_timeouts s') p = Some (t\<lparr>to_remove_me := b\<rparr>) \<and> (to_remove_me t \<longrightarrow> b)"
    using assms unfolding timeouts_ext_def by simp
  with that show thesis by blast
qed

lemma timeouts_ext_expire:
  assumes "timeouts_ext least a s s'" and "rg_processing (ml_timeouts s)" and "rg_objs (ml_timeouts s) p \<noteq> None"
  shows "expire_of (rg_objs (ml_timeouts s')) p = expire_of (rg_objs (ml_timeouts s)) p"
proof -
  obtain t where t: "rg_objs (ml_timeouts s) p = Some t" using assms(3) by blast
  obtain b where "rg_objs (ml_timeouts s') p = Some (t\<lparr>to_remove_me := b\<rparr>)" by (rule timeouts_ext_old [OF assms(1,2) t])
  with t show ?thesis by (simp add: expire_of_def)
qed

lemma timeouts_ext_trans:
  assumes 1: "timeouts_ext least a s s1" and 2: "timeouts_ext least a s1 s2" and c: "clock_ok a"
    and s: "reg_ok to_remove_me (ml_next s) (ml_timeouts s)" and n: "ml_next s \<le> ml_next s1" and rd: "ml_reads s \<le> ml_reads s1"
  shows "timeouts_ext least a s s2"
proof -
  let ?v = "\<lambda>s. velems (rg_vector (ml_timeouts s))" and ?o = "\<lambda>s. rg_objs (ml_timeouts s)"
  have pr: "rg_processing (ml_timeouts s1) = rg_processing (ml_timeouts s)"
    "rg_processing (ml_timeouts s2) = rg_processing (ml_timeouts s1)"
    using 1 2 unfolding timeouts_ext_def by simp_all
  have mono: "ts_val (clock a (ml_reads s)) \<le> ts_val (clock a (ml_reads s1))" using c rd by (simp add: clock_ok_def)
  have dom: "set (?v s) = dom (?o s)" using s by (simp add: reg_ok_def)
  have A: "\<exists>b. ?o s2 p = Some (t\<lparr>to_remove_me := b\<rparr>) \<and> (to_remove_me t \<longrightarrow> b)"
    if P: "rg_processing (ml_timeouts s)" and t: "?o s p = Some t" for p t
  proof -
    have P1: "rg_processing (ml_timeouts s1)" using P pr by simp
    obtain b1 where b1: "?o s1 p = Some (t\<lparr>to_remove_me := b1\<rparr>)" "to_remove_me t \<longrightarrow> b1"
      using timeouts_ext_old [OF 1 P t] .
    obtain b2 where "?o s2 p = Some (t\<lparr>to_remove_me := b1\<rparr>\<lparr>to_remove_me := b2\<rparr>)" "to_remove_me (t\<lparr>to_remove_me := b1\<rparr>) \<longrightarrow> b2"
      using timeouts_ext_old [OF 2 P1 b1(1)] .
    with b1 show ?thesis by auto
  qed
  have B: "filter (\<lambda>p. p < ml_next s) (?v s2) = ?v s" if P: "rg_processing (ml_timeouts s)"
  proof -
    have "filter (\<lambda>p. p < ml_next s) (?v s2) = filter (\<lambda>p. p < ml_next s) (filter (\<lambda>p. p < ml_next s1) (?v s2))"
      using n by (simp add: filter_filter) (intro filter_cong; auto)
    also have "filter (\<lambda>p. p < ml_next s1) (?v s2) = ?v s1" using 2 P pr unfolding timeouts_ext_def by simp
    also have "filter (\<lambda>p. p < ml_next s) (?v s1) = ?v s" using 1 P unfolding timeouts_ext_def by simp
    finally show ?thesis .
  qed
  have C: "take i (?v s2) = take i (?v s)" if P: "rg_processing (ml_timeouts s)" and i: "i \<le> length (?v s)"
    and le: "\<forall>p \<in> set (take i (?v s)). ts_val (expire_of (?o s) p) \<le> ts_val (clock a (ml_reads s))" for i
  proof -
    have eq: "take i (?v s1) = take i (?v s)" using 1 P le i unfolding timeouts_ext_def by simp
    have "ts_val (expire_of (?o s1) p) \<le> ts_val (clock a (ml_reads s1))" if "p \<in> set (take i (?v s1))" for p
    proof -
      have p: "p \<in> set (take i (?v s))" using that eq by simp
      then have "?o s p \<noteq> None" using dom in_set_takeD [OF p] by blast
      with timeouts_ext_expire [OF 1 P this] le p mono show ?thesis by fastforce
    qed
    moreover have "i \<le> length (?v s1)" using arg_cong [OF eq, of length] i by (simp add: min_def split: if_splits)
    ultimately have "take i (?v s2) = take i (?v s1)" using 2 P pr unfolding timeouts_ext_def by simp
    with eq show ?thesis by simp
  qed
  have D: "ml_next s \<le> p \<and> ts_val (clock a (ml_reads s)) + int least * 1000000 \<le> ts_val (to_expire t)"
    if t: "?o s2 p = Some t" "?o s p = None" and P: "rg_processing (ml_timeouts s)" for p t
  proof (cases "?o s1 p")
    case None
    then have "ml_next s1 \<le> p \<and> ts_val (clock a (ml_reads s1)) + int least * 1000000 \<le> ts_val (to_expire t)"
      using t(1) 2 P pr unfolding timeouts_ext_def by simp
    with n mono show ?thesis by linarith
  next
    case (Some t1)
    then have "ml_next s \<le> p \<and> ts_val (clock a (ml_reads s)) + int least * 1000000 \<le> ts_val (to_expire t1)"
      using 1 t(2) P unfolding timeouts_ext_def by simp
    moreover have P1: "rg_processing (ml_timeouts s1)" using P pr by simp
    moreover obtain b where "?o s2 p = Some (t1\<lparr>to_remove_me := b\<rparr>)"
      using timeouts_ext_old [OF 2 P1 Some] .
    ultimately show ?thesis using t(1) by auto
  qed
  show ?thesis unfolding timeouts_ext_def
  proof (intro conjI impI allI)
    fix p t i assume P: "rg_processing (ml_timeouts s)"
    show "filter (\<lambda>p. p < ml_next s) (?v s2) = ?v s" by (rule B [OF P])
    show "take i (?v s2) = take i (?v s)"
      if "i \<le> length (?v s)" "\<forall>p \<in> set (take i (?v s)). ts_val (expire_of (?o s) p) \<le> ts_val (clock a (ml_reads s))"
      by (rule C [OF P that])
    show "\<exists>b. ?o s2 p = Some (t\<lparr>to_remove_me := b\<rparr>) \<and> (to_remove_me t \<longrightarrow> b)" if "?o s p = Some t" by (rule A [OF P that])
    show "ml_next s \<le> p" "ts_val (clock a (ml_reads s)) + int least * 1000000 \<le> ts_val (to_expire t)"
      if "?o s2 p = Some t \<and> ?o s p = None" using D [OF conjunct1 [OF that] conjunct2 [OF that] P] by simp_all
  qed (use pr in simp)
qed

lemma idlers_ext_trans:
  assumes 1: "idlers_ext s s1" and 2: "idlers_ext s1 s2"
    and s1: "reg_ok (\<lambda>x. id_status x = idler_deleted) n (ml_idlers s1)"
  shows "idlers_ext s s2"
proof (cases "rg_processing (ml_idlers s)")
  case False
  with 1 2 show ?thesis by (simp add: idlers_ext_def)
next
  case P: True
  let ?v = "\<lambda>s. velems (rg_vector (ml_idlers s))" and ?o = "\<lambda>s. rg_objs (ml_idlers s)"
  have pr: "rg_processing (ml_idlers s1)" "rg_processing (ml_idlers s2)" using 1 2 P by (simp_all add: idlers_ext_def)
  obtain n1 where n1: "?v s1 = ?v s @ n1" "\<forall>p \<in> set n1. \<forall>x. ?o s1 p = Some x \<longrightarrow> id_status x \<noteq> idler_ready"
    using 1 P unfolding idlers_ext_def by blast
  obtain n2 where n2: "?v s2 = ?v s1 @ n2" "\<forall>p \<in> set n2. \<forall>x. ?o s2 p = Some x \<longrightarrow> id_status x \<noteq> idler_ready"
    using 2 pr(1) unfolding idlers_ext_def by blast
  have step: "?o s2 p \<in> {Some x, Some (x\<lparr>id_status := idler_deleted\<rparr>)}" if "?o s1 p = Some x" for p x
    using 2 pr(1) that unfolding idlers_ext_def by blast
  have "?o s2 p \<in> {Some x, Some (x\<lparr>id_status := idler_deleted\<rparr>)}" if x: "?o s p = Some x" for p x
  proof -
    have "?o s1 p \<in> {Some x, Some (x\<lparr>id_status := idler_deleted\<rparr>)}" using 1 P x unfolding idlers_ext_def by blast
    then show ?thesis using step [of p x] step [of p "x\<lparr>id_status := idler_deleted\<rparr>"] by auto
  qed
  moreover have "id_status x \<noteq> idler_ready" if p: "p \<in> set (n1 @ n2)" and x: "?o s2 p = Some x" for p x
  proof (cases "p \<in> set n1")
    case True
    have "p \<in> set (?v s1)" using True n1(1) by simp
    then obtain x1 where x1: "?o s1 p = Some x1" using s1 by (auto simp: reg_ok_def)
    then have "id_status x1 \<noteq> idler_ready" using n1(2) True by blast
    with step [OF x1] x show ?thesis by auto
  next
    case False
    then show ?thesis using p n2(2) x by auto
  qed
  moreover have "?v s2 = ?v s @ n1 @ n2" using n1 n2 by simp
  ultimately show ?thesis unfolding idlers_ext_def using P pr by blast
qed

lemma sources_ext_trans:
  assumes 1: "sources_ext s s1" and 2: "sources_ext s1 s2"
  shows "sources_ext s s2"
proof (cases "rg_processing (ml_sources s)")
  case False
  with 1 2 show ?thesis by (simp add: sources_ext_def)
next
  case P: True
  let ?v = "\<lambda>s. velems (rg_vector (ml_sources s))" and ?o = "\<lambda>s. rg_objs (ml_sources s)"
  have pr: "rg_processing (ml_sources s1)" "rg_processing (ml_sources s2)" using 1 2 P by (simp_all add: sources_ext_def)
  have step: "?o s2 p \<in> {Some x, Some (x\<lparr>src_remove_me := True\<rparr>)}" if "?o s1 p = Some x" for p x
    using 2 pr(1) that unfolding sources_ext_def by blast
  have "?o s2 p \<in> {Some x, Some (x\<lparr>src_remove_me := True\<rparr>)}" if x: "?o s p = Some x" for p x
  proof -
    have "?o s1 p \<in> {Some x, Some (x\<lparr>src_remove_me := True\<rparr>)}" using 1 P x unfolding sources_ext_def by blast
    then show ?thesis using step [of p x] step [of p "x\<lparr>src_remove_me := True\<rparr>"] by auto
  qed
  moreover have "\<exists>new. ?v s2 = ?v s @ new" using 1 2 P pr unfolding sources_ext_def by (metis append.assoc)
  ultimately show ?thesis unfolding sources_ext_def using P pr by blast
qed

lemma ml_ext_trans:
  "ml_ext least a s s1 \<Longrightarrow> ml_ext least a s1 s2 \<Longrightarrow> clock_ok a \<Longrightarrow> ml_ok least s \<Longrightarrow> ml_ext least a s s2"
  unfolding ml_ext_def by (auto simp: ml_ok_def intro: timeouts_ext_trans idlers_ext_trans sources_ext_trans)

subsection \<open>Single calls\<close>

lemma insert_after_equals_prefix:
  "\<forall>y \<in> set (take i xs). 0 \<le> cmp x y \<Longrightarrow> i \<le> length xs \<Longrightarrow> take i (insert_after_equals cmp x xs) = take i xs"
proof (induction i arbitrary: xs)
  case (Suc i)
  then show ?case by (cases xs) (auto simp: insert_after_equals_def)
qed simp

lemma cmp_sorted_cong:
  "(\<And>p. p \<in> set xs \<Longrightarrow> expire_of o' p = expire_of o1 p) \<Longrightarrow> cmp_sorted (timeout_compare o') xs = cmp_sorted (timeout_compare o1) xs"
  by (auto simp: cmp_sorted_def sorted_wrt_iff_nth_less timeout_compare_def)

lemma ml_ok_reads [simp]: "ml_ok least (s\<lparr>ml_reads := k\<rparr>) = ml_ok least s"
  and ml_ok_ran [simp]: "ml_ok least (s\<lparr>ml_ran := xs\<rparr>) = ml_ok least s"
  and ml_ok_idled [simp]: "ml_ok least (s\<lparr>ml_idled := xs\<rparr>) = ml_ok least s"
  and ml_ok_run_loop [simp]: "ml_ok least (s\<lparr>run_loop := b\<rparr>) = ml_ok least s"
  and ml_ok_disposed [simp]: "ml_ok least (s\<lparr>ml_disposed := xs\<rparr>) = ml_ok least s"
  by (simp_all add: ml_ok_def)

lemma ml_ok_next: "ml_ok least s \<Longrightarrow> ml_ok least (s\<lparr>ml_next := ml_next s + 1\<rparr>)"
  unfolding ml_ok_def by (auto intro: reg_ok_mono)

lemma ext_same:
  "ml_timeouts s' = ml_timeouts s \<Longrightarrow> ml_ok least' s \<Longrightarrow> timeouts_ext least a s s'"
  "ml_idlers s' = ml_idlers s \<Longrightarrow> idlers_ext s s'"
  "ml_sources s' = ml_sources s \<Longrightarrow> sources_ext s s'"
proof -
  show "timeouts_ext least a s s'" if "ml_timeouts s' = ml_timeouts s" "ml_ok least' s"
    using ext_refl(1) [OF that(2), of least a] that(1) by (auto simp add: timeouts_ext_def)
qed (simp_all add: idlers_ext_def sources_ext_def)

text \<open>How the invariant changes with one registry.\<close>

lemma ml_ok_timeouts:
  assumes "ml_ok least s" and "reg_ok to_remove_me (ml_next s) r" and "reg_settled r" and "timeouts_ok least r"
  shows "ml_ok least (s\<lparr>ml_timeouts := r\<rparr>)"
  using assms by (simp add: ml_ok_def)

lemma timeouts_sorted_le:
  assumes "timeouts_ok least r" and "i \<le> j" and "j < length (velems (rg_vector r))" and "reg_ok to_remove_me n r"
  shows "ts_val (expire_of (rg_objs r) (velems (rg_vector r) ! i)) \<le> ts_val (expire_of (rg_objs r) (velems (rg_vector r) ! j))"
proof -
  let ?v = "velems (rg_vector r)"
  have norm: "ts_norm (expire_of (rg_objs r) (?v ! k))" if k: "k < length ?v" for k
  proof -
    have "?v ! k \<in> dom (rg_objs r)" using nth_mem [OF k] assms(4) by (simp add: reg_ok_def)
    then show ?thesis using assms(1) by (auto simp: timeouts_ok_def expire_of_def)
  qed
  show ?thesis
  proof (cases "i = j")
    case False
    then have "timeout_compare (rg_objs r) (?v ! i) (?v ! j) \<le> 0"
      using timeout_cmp.sorted_nth [of "rg_objs r" ?v i j] assms by (simp add: timeouts_ok_def)
    then show ?thesis using norm assms(2,3) by (simp add: timeout_compare_def timespec_compare_val)
  qed simp
qed

lemma timeout_add_ok:
  assumes ok: "ml_ok least s" and c: "clock_ok a" and ms: "least \<le> ms"
  shows "\<exists>h s'. sol_mainloop_impl_timeout_add a l ms cb s = Some (h, s') \<and> ml_ext least a s s'"
proof (cases "alloc_ok l timeout_size")
  case False
  then show ?thesis using ok by (simp add: sol_mainloop_impl_timeout_add_def ml_ext_def ext_refl)
next
  case True
  define n where "n = ml_next s"
  define now where "now = clock a (ml_reads s)"
  define r where "r = ml_timeouts s"
  define t where "t = \<lparr>to_timeout = period_of ms, to_expire = sol_util_timespec_add now (period_of ms), to_cb = cb, to_remove_me = False\<rparr>"
  define objs where "objs = (rg_objs r)(n \<mapsto> t)"
  let ?xs = "velems (rg_vector r)" and ?cmp = "timeout_compare objs"
  define s1 where "s1 = s\<lparr>ml_next := n + 1, ml_reads := ml_reads s + 1\<rparr>"
  have o: "reg_ok to_remove_me n r" "timeouts_ok least r" "reg_settled r" using ok by (simp_all add: ml_ok_def r_def n_def)
  have ok1: "ml_ok least s1" using ml_ok_next [OF ok] by (simp add: s1_def n_def)
  have fresh: "n \<notin> set ?xs" using o(1) by (auto simp: reg_ok_def)
  have norm: "ts_norm now" using c by (simp add: clock_ok_def now_def)
  have tnorm: "ts_norm (to_expire t)" and tval: "ts_val (to_expire t) = ts_val now + int ms * 1000000"
    using timespec_add_val [OF norm period_of_val(1)] by (simp_all add: t_def period_of_val(2))
  have same: "expire_of objs p = expire_of (rg_objs r) p" if "p \<in> set ?xs" for p
    using that fresh by (auto simp: expire_of_def objs_def)
  have sorted: "cmp_sorted ?cmp ?xs" using o(2) cmp_sorted_cong [OF same] by (simp add: timeouts_ok_def)
  have eq: "sol_mainloop_impl_timeout_add a l ms cb s = do {
      (ret, v) \<leftarrow> sol_ptr_vector_insert_sorted l (rg_vector r) n ?cmp;
      Some (case ret of Inl _ \<Rightarrow> (None, s1\<lparr>ml_timeouts := r\<lparr>rg_vector := v\<rparr>\<rparr>)
        | Inr _ \<Rightarrow> (Some n, s1\<lparr>ml_timeouts := r\<lparr>rg_vector := v, rg_objs := objs\<rparr>\<rparr>)) }"
    using True by (simp add: sol_mainloop_impl_timeout_add_def get_current_def Let_def s1_def n_def r_def now_def t_def objs_def
      cong: sum.case_cong)
  have wf: "vec_wf (rg_vector r)" "vec_small (rg_vector r)" using o(1) by (simp_all add: reg_ok_def)
  show ?thesis
  proof (rule timeout_cmp.sol_ptr_vector_insert_sorted_ok [OF wf sorted, of l n])
    fix e
    assume "sol_ptr_vector_insert_sorted l (rg_vector r) n ?cmp = Some (Inl e, rg_vector r)"
    then have "sol_mainloop_impl_timeout_add a l ms cb s = Some (None, s1)"
      unfolding eq by (simp add: s1_def r_def)
    then show ?thesis using ok1 ext_same(1) [OF _ ok, of s1] by (simp add: ml_ext_def s1_def n_def ext_same(2,3))
  next
    fix v
    assume v: "sol_ptr_vector_insert_sorted l (rg_vector r) n ?cmp = Some (Inr (length (takeWhile (\<lambda>y. 0 \<le> ?cmp n y) ?xs)), v)"
      "vec_wf v" "velem_size v = velem_size (rg_vector r)" "velems v = insert_after_equals ?cmp n ?xs"
    let ?r = "r\<lparr>rg_vector := v, rg_objs := objs\<rparr>" and ?s = "s1\<lparr>ml_timeouts := r\<lparr>rg_vector := v, rg_objs := objs\<rparr>\<rparr>"
    have reg: "reg_ok to_remove_me (n + 1) ?r"
      unfolding objs_def by (rule reg_add [OF o(1) v(2,3)])
        (simp_all add: v(4) [unfolded objs_def] timeout_cmp.mset_insert_after_equals t_def)
    have tok: "timeouts_ok least ?r"
      using o(2) tnorm ms timeout_cmp.sorted_insert_after_equals [OF sorted] v(4)
      by (auto simp: timeouts_ok_def objs_def t_def)
    have "ml_ok least ?s"
      by (rule ml_ok_timeouts [OF ok1]) (use reg tok o(3) in \<open>simp_all add: s1_def reg_settled_def\<close>)
    moreover have "timeouts_ext least a s ?s"
    proof -
      have old: "filter (\<lambda>p. p < n) (velems v) = ?xs"
      proof -
        have "\<forall>p \<in> set ?xs. p < n" using o(1) by (auto simp: reg_ok_def)
        then have "filter (\<lambda>p. p < n) (takeWhile P ?xs) = takeWhile P ?xs" "filter (\<lambda>p. p < n) (dropWhile P ?xs) = dropWhile P ?xs" for P
          by (auto intro!: filter_True dest: set_takeWhileD set_dropWhileD)
        then show ?thesis by (simp add: v(4) insert_after_equals_def)
      qed
      have prefix: "take i (velems v) = take i ?xs" if i: "i \<le> length ?xs"
        and le: "\<forall>p \<in> set (take i ?xs). ts_val (expire_of (rg_objs r) p) \<le> ts_val now" for i
      proof -
        have "0 \<le> ?cmp n p" if p: "p \<in> set (take i ?xs)" for p
        proof -
          have p': "p \<in> set ?xs" using p by (rule in_set_takeD)
          then have "p \<in> dom (rg_objs r)" using o(1) by (simp add: reg_ok_def)
          then have "ts_norm (expire_of (rg_objs r) p)" using o(2) by (auto simp: timeouts_ok_def expire_of_def)
          moreover have "expire_of objs n = to_expire t" by (simp add: expire_of_def objs_def)
          moreover have "ts_val (expire_of (rg_objs r) p) \<le> ts_val (to_expire t)" using le p tval by fastforce
          ultimately show ?thesis using tnorm same [OF p'] by (simp add: timeout_compare_def timespec_compare_val)
        qed
        then show ?thesis unfolding v(4) using i by (intro insert_after_equals_prefix) simp_all
      qed
      have new: "n \<le> p \<and> ts_val now + int least * 1000000 \<le> ts_val (to_expire u)"
        if "objs p = Some u" "rg_objs r p = None" for p u
        using that tval ms by (auto simp: objs_def split: if_splits)
      have "\<exists>b. objs p = Some (u\<lparr>to_remove_me := b\<rparr>) \<and> (to_remove_me u \<longrightarrow> b)" if "rg_objs r p = Some u" for p u
        using that o(1) by (intro exI [of _ "to_remove_me u"]) (auto simp: objs_def reg_ok_def)
      then show ?thesis unfolding timeouts_ext_def using old prefix new
        by (simp add: s1_def n_def r_def now_def) blast
    qed
    ultimately have "ml_ext least a s ?s"
      by (simp add: ml_ext_def s1_def n_def ext_same)
    with v(1) show ?thesis unfolding eq by simp
  qed
qed

lemma no_marked:
  assumes "reg_ok marked n r" and "rg_pending_deletion r = 0"
  shows "\<not> marked_at marked r p"
proof -
  have "\<forall>q \<in> set (velems (rg_vector r)). \<not> marked_at marked r q" using assms by (simp add: reg_ok_def filter_empty_conv)
  moreover have "marked_at marked r p \<Longrightarrow> p \<in> set (velems (rg_vector r))" using assms by (auto simp: reg_ok_def marked_at_def)
  ultimately show ?thesis by blast
qed

text \<open>Deleting an object: it is marked while its registry is processed, and goes away at once otherwise.\<close>

lemma reg_del_ok:
  assumes ok: "reg_ok marked n r" and st: "reg_settled r" and x: "rg_objs r p = Some x" "\<not> marked x" "marked (upd x)"
  obtains r1 where "mark upd p r = Some r1" and "rg_processing r1 = rg_processing r"
    and "rg_processing r \<longrightarrow> reg_ok marked n r1 \<and> rg_vector r1 = rg_vector r \<and> rg_objs r1 = (rg_objs r)(p \<mapsto> upd x)"
    and "\<not> rg_processing r \<longrightarrow> (\<exists>r' freed. cleanup l marked r1 = Some (r', freed) \<and> reg_ok marked n r' \<and>
      rg_pending_deletion r' = 0 \<and> \<not> rg_processing r' \<and> rg_objs r' = (rg_objs r)(p := None) \<and>
      velems (rg_vector r') = filter (\<lambda>q. q \<noteq> p) (velems (rg_vector r)))"
proof -
  define r1 where "r1 = r\<lparr>rg_objs := (rg_objs r)(p \<mapsto> upd x), rg_pending_deletion := rg_pending_deletion r + 1\<rparr>"
  note m = mark_ok [where marked = marked and upd = upd, OF ok x(1) x(2) x(3)]
  have r1: "mark upd p r = Some r1" "reg_ok marked n r1" using m by (simp_all add: r1_def)
  have f: "rg_processing r1 = rg_processing r" "rg_vector r1 = rg_vector r" "rg_objs r1 = (rg_objs r)(p \<mapsto> upd x)"
    by (simp_all add: r1_def)
  have "\<exists>r' freed. cleanup l marked r1 = Some (r', freed) \<and> reg_ok marked n r' \<and>
      rg_pending_deletion r' = 0 \<and> \<not> rg_processing r' \<and> rg_objs r' = (rg_objs r)(p := None) \<and>
      velems (rg_vector r') = filter (\<lambda>q. q \<noteq> p) (velems (rg_vector r))" if np: "\<not> rg_processing r"
  proof -
    from np have nm: "\<not> marked_at marked r q" for q using no_marked [OF ok] st by (simp add: reg_settled_def)
    have at: "marked_at marked r1 q \<longleftrightarrow> q = p" for q using nm [of q] x(3) by (auto simp: marked_at_def f)
    obtain r' freed where r': "cleanup l marked r1 = Some (r', freed)" "reg_ok marked n r'" "rg_pending_deletion r' = 0"
      "rg_processing r' = rg_processing r1" "velems (rg_vector r') = filter (\<lambda>p. \<not> marked_at marked r1 p) (velems (rg_vector r1))"
      "rg_objs r' = (\<lambda>p. if marked_at marked r1 p then None else rg_objs r1 p)"
      by (rule cleanup_ok [OF r1(2)])
    have "rg_objs r' = (rg_objs r)(p := None)" unfolding r'(6) by (rule ext) (simp add: at f)
    with r' np show ?thesis by (simp add: at f)
  qed
  with that [OF r1(1) f(1)] r1(2) f(2,3) show thesis by blast
qed

lemma timeouts_ok_sub:
  assumes "timeouts_ok least r" and "\<And>p. p \<noteq> q \<Longrightarrow> rg_objs r' p = rg_objs r p" and "rg_objs r' q = None"
    and "velems (rg_vector r') = filter (\<lambda>p. p \<noteq> q) (velems (rg_vector r))"
  shows "timeouts_ok least r'"
proof -
  have "cmp_sorted (timeout_compare (rg_objs r')) (velems (rg_vector r'))"
    unfolding assms(4) using assms(1,2) cmp_sorted_cong [of "filter (\<lambda>p. p \<noteq> q) (velems (rg_vector r))" "rg_objs r'" "rg_objs r"]
    by (simp add: timeouts_ok_def expire_of_def cmp_sorted_def sorted_wrt_filter)
  moreover have "rg_objs r' p = Some t \<Longrightarrow> rg_objs r p = Some t" for p t using assms(2,3) by (cases "p = q") auto
  ultimately show ?thesis using assms(1) unfolding timeouts_ok_def by blast
qed

lemma timeouts_ok_mark:
  assumes "timeouts_ok least r" and "rg_objs r p = Some t" and "rg_vector r' = rg_vector r"
    and "rg_objs r' = (rg_objs r)(p \<mapsto> t\<lparr>to_remove_me := b\<rparr>)"
  shows "timeouts_ok least r'"
proof -
  have "expire_of (rg_objs r') q = expire_of (rg_objs r) q" for q using assms(2,4) by (simp add: expire_of_def)
  then show ?thesis using assms cmp_sorted_cong [of "velems (rg_vector r)" "rg_objs r'" "rg_objs r"]
    by (auto simp: timeouts_ok_def)
qed

lemma timeout_del_ok:
  assumes ok: "ml_ok least s" and p: "rg_objs (ml_timeouts s) p \<noteq> None"
  shows "\<exists>b s'. sol_mainloop_impl_timeout_del l p s = Some (b, s') \<and> ml_ext least a s s'"
proof -
  obtain t where t: "rg_objs (ml_timeouts s) p = Some t" using p by blast
  have o: "reg_ok to_remove_me (ml_next s) (ml_timeouts s)" "reg_settled (ml_timeouts s)" "timeouts_ok least (ml_timeouts s)"
    using ok by (simp_all add: ml_ok_def)
  show ?thesis
  proof (cases "to_remove_me t")
    case True
    then show ?thesis using t ok
      by (intro exI [of _ False] exI [of _ s]) (simp add: sol_mainloop_impl_timeout_del_def ml_ext_def ext_refl)
  next
    case False
    let ?u = "\<lambda>t. t\<lparr>to_remove_me := True\<rparr>"
    have u: "to_remove_me (?u t)" by simp
    obtain r1 where r1: "mark ?u p (ml_timeouts s) = Some r1" "rg_processing r1 = rg_processing (ml_timeouts s)"
      and proc: "rg_processing (ml_timeouts s) \<longrightarrow> reg_ok to_remove_me (ml_next s) r1 \<and> rg_vector r1 = rg_vector (ml_timeouts s) \<and>
        rg_objs r1 = (rg_objs (ml_timeouts s))(p \<mapsto> ?u t)"
      and rest: "\<not> rg_processing (ml_timeouts s) \<longrightarrow> (\<exists>r' freed. cleanup l to_remove_me r1 = Some (r', freed) \<and> reg_ok to_remove_me (ml_next s) r' \<and>
        rg_pending_deletion r' = 0 \<and> \<not> rg_processing r' \<and> rg_objs r' = (rg_objs (ml_timeouts s))(p := None) \<and>
        velems (rg_vector r') = filter (\<lambda>q. q \<noteq> p) (velems (rg_vector (ml_timeouts s))))"
      using reg_del_ok [where upd = ?u and l = l, OF o(1,2) t False u] .
    show ?thesis
    proof (cases "rg_processing (ml_timeouts s)")
      case True
      note r = mp [OF proc True]
      let ?s = "s\<lparr>ml_timeouts := r1\<rparr>"
      have "timeouts_ok least r1" by (rule timeouts_ok_mark [OF o(3) t]) (use r in auto)
      then have "ml_ok least ?s" by (intro ml_ok_timeouts [OF ok]) (use r True r1(2) in \<open>simp_all add: reg_settled_def\<close>)
      moreover have "timeouts_ext least a s ?s"
      proof -
        have "\<exists>b. rg_objs r1 q = Some (v\<lparr>to_remove_me := b\<rparr>) \<and> (to_remove_me v \<longrightarrow> b)" if "rg_objs (ml_timeouts s) q = Some v" for q v
          using that t r by (cases "q = p") (auto intro: exI [of _ True] exI [of _ "to_remove_me v"])
        then show ?thesis using ext_refl(1) [OF ok, of least a] r True r1(2) t
          unfolding timeouts_ext_def by (auto split: if_splits)
      qed
      ultimately have "ml_ext least a s ?s" by (simp add: ml_ext_def ext_same)
      then show ?thesis using t False r1 True
        by (intro exI [of _ True] exI [of _ ?s]) (simp add: sol_mainloop_impl_timeout_del_def)
    next
      case np: False
      obtain r' freed where r': "cleanup l to_remove_me r1 = Some (r', freed)" "reg_ok to_remove_me (ml_next s) r'"
        "rg_pending_deletion r' = 0" "\<not> rg_processing r'" "rg_objs r' = (rg_objs (ml_timeouts s))(p := None)"
        "velems (rg_vector r') = filter (\<lambda>q. q \<noteq> p) (velems (rg_vector (ml_timeouts s)))" using mp [OF rest np] by blast
      have "timeouts_ok least r'" by (rule timeouts_ok_sub [OF o(3), of p]) (use r' in auto)
      then have "ml_ok least (s\<lparr>ml_timeouts := r'\<rparr>)"
        by (intro ml_ok_timeouts [OF ok]) (use r' in \<open>simp_all add: reg_settled_def\<close>)
      then have "ml_ext least a s (s\<lparr>ml_timeouts := r'\<rparr>)"
        using np r' by (simp add: ml_ext_def ext_same timeouts_ext_def)
      then show ?thesis using t False r1 np r'(1)
        by (intro exI [of _ True] exI [of _ "s\<lparr>ml_timeouts := r'\<rparr>"])
          (simp add: sol_mainloop_impl_timeout_del_def timeout_cleanup_def)
    qed
  qed
qed

lemma ml_ok_idlers:
  assumes "ml_ok least s" and "reg_ok (\<lambda>x. id_status x = idler_deleted) (ml_next s) r" and "reg_settled r"
  shows "ml_ok least (s\<lparr>ml_idlers := r\<rparr>)"
  using assms by (simp add: ml_ok_def)

lemma ml_ok_sources:
  assumes "ml_ok least s" and "reg_ok src_remove_me (ml_next s) r" and "reg_settled r"
  shows "ml_ok least (s\<lparr>ml_sources := r\<rparr>)"
  using assms by (simp add: ml_ok_def)

text \<open>Appending a new object to a registry.\<close>

lemma reg_append_ok:
  assumes reg: "reg_ok marked n r" and x: "\<not> marked x"
  obtains (ok) v where "sol_ptr_vector_append l (rg_vector r) n = Some (Inr (), v)"
      and "velems v = velems (rg_vector r) @ [n]" and "reg_ok marked (n + 1) (r\<lparr>rg_vector := v, rg_objs := (rg_objs r)(n \<mapsto> x)\<rparr>)"
    | (err) e where "sol_ptr_vector_append l (rg_vector r) n = Some (Inl e, rg_vector r)"
proof -
  have wf: "vec_wf (rg_vector r)" "vec_small (rg_vector r)" using reg by (simp_all add: reg_ok_def)
  show thesis
  proof (rule sol_ptr_vector_append_ok [OF wf, of l n])
    fix v
    assume v: "sol_ptr_vector_append l (rg_vector r) n = Some (Inr (), v)" "vec_wf v"
      "velem_size v = velem_size (rg_vector r)" "velems v = velems (rg_vector r) @ [n]"
    show thesis by (rule ok [OF v(1,4) reg_add [OF assms(1) v(2,3) _ x]]) (simp add: v(4))
  qed (use err in blast)
qed

lemma idle_add_ok:
  assumes ok: "ml_ok least s"
  shows "\<exists>h s'. sol_mainloop_impl_idle_add l cb s = Some (h, s') \<and> ml_ext least a s s'"
proof (cases "alloc_ok l idler_size")
  case False
  then show ?thesis using ok by (simp add: sol_mainloop_impl_idle_add_def ml_ext_def ext_refl)
next
  case True
  define n where "n = ml_next s"
  define r where "r = ml_idlers s"
  define x where "x = \<lparr>id_cb = cb, id_status = if rg_processing r then idler_ready_on_next_iteration else idler_ready\<rparr>"
  define s1 where "s1 = s\<lparr>ml_next := n + 1\<rparr>"
  have o: "reg_ok (\<lambda>x. id_status x = idler_deleted) n r" "reg_settled r" using ok by (simp_all add: ml_ok_def r_def n_def)
  have ok1: "ml_ok least s1" using ml_ok_next [OF ok] by (simp add: s1_def n_def)
  have eq: "sol_mainloop_impl_idle_add l cb s = do {
      (ret, v) \<leftarrow> sol_ptr_vector_append l (rg_vector r) n;
      Some (case ret of Inl _ \<Rightarrow> (None, s1\<lparr>ml_idlers := r\<lparr>rg_vector := v\<rparr>\<rparr>)
        | Inr _ \<Rightarrow> (Some n, s1\<lparr>ml_idlers := r\<lparr>rg_vector := v, rg_objs := (rg_objs r)(n \<mapsto> x)\<rparr>\<rparr>)) }"
    using True by (simp add: sol_mainloop_impl_idle_add_def Let_def s1_def n_def r_def x_def cong: sum.case_cong)
  have um: "id_status x \<noteq> idler_deleted" by (simp add: x_def)
  show ?thesis
  proof (rule reg_append_ok [OF o(1) um, of l])
    fix e
    assume "sol_ptr_vector_append l (rg_vector r) n = Some (Inl e, rg_vector r)"
    then have "sol_mainloop_impl_idle_add l cb s = Some (None, s1)" unfolding eq by (simp add: s1_def r_def)
    then show ?thesis using ok1 ext_same(1) [OF _ ok, of s1] by (simp add: ml_ext_def s1_def n_def ext_same(2,3))
  next
    fix v
    let ?r = "r\<lparr>rg_vector := v, rg_objs := (rg_objs r)(n \<mapsto> x)\<rparr>"
    assume v: "sol_ptr_vector_append l (rg_vector r) n = Some (Inr (), v)" "velems v = velems (rg_vector r) @ [n]"
      "reg_ok (\<lambda>x. id_status x = idler_deleted) (n + 1) ?r"
    let ?s = "s1\<lparr>ml_idlers := ?r\<rparr>"
    have "ml_ok least ?s" by (rule ml_ok_idlers [OF ok1]) (use v o(2) in \<open>simp_all add: s1_def reg_settled_def\<close>)
    moreover have "idlers_ext s ?s"
      unfolding idlers_ext_def using v(2) o(1) by (auto simp: s1_def r_def [symmetric] x_def reg_ok_def)
    ultimately have "ml_ext least a s ?s"
      using ext_same(1) [OF _ ok, of ?s] by (simp add: ml_ext_def s1_def n_def ext_same(3))
    with v(1) show ?thesis unfolding eq by simp
  qed
qed

lemma source_add_ok:
  assumes ok: "ml_ok least s"
  shows "\<exists>h s'. sol_mainloop_impl_source_add l type d s = Some (h, s') \<and> ml_ext least a s s'"
proof (cases "alloc_ok l source_size")
  case False
  then show ?thesis using ok by (simp add: sol_mainloop_impl_source_add_def ml_ext_def ext_refl)
next
  case True
  define n where "n = ml_next s"
  define r where "r = ml_sources s"
  define x where "x = \<lparr>src_type = type, src_data = d, src_ready = False, src_remove_me = False\<rparr>"
  define s1 where "s1 = s\<lparr>ml_next := n + 1\<rparr>"
  have o: "reg_ok src_remove_me n r" "reg_settled r" using ok by (simp_all add: ml_ok_def r_def n_def)
  have ok1: "ml_ok least s1" using ml_ok_next [OF ok] by (simp add: s1_def n_def)
  have eq: "sol_mainloop_impl_source_add l type d s = do {
      (ret, v) \<leftarrow> sol_ptr_vector_append l (rg_vector r) n;
      Some (case ret of Inl _ \<Rightarrow> (None, s1\<lparr>ml_sources := r\<lparr>rg_vector := v\<rparr>\<rparr>)
        | Inr _ \<Rightarrow> (Some n, s1\<lparr>ml_sources := r\<lparr>rg_vector := v, rg_objs := (rg_objs r)(n \<mapsto> x)\<rparr>\<rparr>)) }"
    using True by (simp add: sol_mainloop_impl_source_add_def Let_def s1_def n_def r_def x_def cong: sum.case_cong)
  have um: "\<not> src_remove_me x" by (simp add: x_def)
  show ?thesis
  proof (rule reg_append_ok [OF o(1) um, of l])
    fix e
    assume "sol_ptr_vector_append l (rg_vector r) n = Some (Inl e, rg_vector r)"
    then have "sol_mainloop_impl_source_add l type d s = Some (None, s1)" unfolding eq by (simp add: s1_def r_def)
    then show ?thesis using ok1 ext_same(1) [OF _ ok, of s1] by (simp add: ml_ext_def s1_def n_def ext_same(2,3))
  next
    fix v
    let ?r = "r\<lparr>rg_vector := v, rg_objs := (rg_objs r)(n \<mapsto> x)\<rparr>"
    assume v: "sol_ptr_vector_append l (rg_vector r) n = Some (Inr (), v)" "velems v = velems (rg_vector r) @ [n]"
      "reg_ok src_remove_me (n + 1) ?r"
    let ?s = "s1\<lparr>ml_sources := ?r\<rparr>"
    have "ml_ok least ?s" by (rule ml_ok_sources [OF ok1]) (use v o(2) in \<open>simp_all add: s1_def reg_settled_def\<close>)
    moreover have "sources_ext s ?s"
      unfolding sources_ext_def using v(2) o(1) by (auto simp: s1_def r_def [symmetric] reg_ok_def)
    ultimately have "ml_ext least a s ?s"
      using ext_same(1) [OF _ ok, of ?s] by (simp add: ml_ext_def s1_def n_def ext_same(2))
    with v(1) show ?thesis unfolding eq by simp
  qed
qed

lemma idle_del_ok:
  assumes ok: "ml_ok least s" and p: "rg_objs (ml_idlers s) p \<noteq> None"
  shows "\<exists>b s'. sol_mainloop_impl_idle_del l p s = Some (b, s') \<and> ml_ext least a s s'"
proof -
  define r where "r = ml_idlers s"
  obtain x where x: "rg_objs r p = Some x" using p by (auto simp: r_def)
  let ?m = "\<lambda>x. id_status x = idler_deleted" and ?u = "\<lambda>x. x\<lparr>id_status := idler_deleted\<rparr>"
  have o: "reg_ok ?m (ml_next s) r" "reg_settled r" using ok by (simp_all add: ml_ok_def r_def)
  show ?thesis
  proof (cases "id_status x = idler_deleted")
    case True
    then show ?thesis using x ok
      by (intro exI [of _ False] exI [of _ s]) (simp add: sol_mainloop_impl_idle_del_def ml_ext_def ext_refl r_def)
  next
    case False
    have u: "id_status (?u x) = idler_deleted" by simp
    obtain r1 where r1: "mark ?u p r = Some r1" "rg_processing r1 = rg_processing r"
      and proc: "rg_processing r \<longrightarrow> reg_ok ?m (ml_next s) r1 \<and> rg_vector r1 = rg_vector r \<and> rg_objs r1 = (rg_objs r)(p \<mapsto> ?u x)"
      and rest: "\<not> rg_processing r \<longrightarrow> (\<exists>r' freed. cleanup l ?m r1 = Some (r', freed) \<and> reg_ok ?m (ml_next s) r' \<and>
        rg_pending_deletion r' = 0 \<and> \<not> rg_processing r' \<and> rg_objs r' = (rg_objs r)(p := None) \<and>
        velems (rg_vector r') = filter (\<lambda>q. q \<noteq> p) (velems (rg_vector r)))"
      using reg_del_ok [where upd = ?u and l = l and marked = ?m, OF o x False u] .
    show ?thesis
    proof (cases "rg_processing r")
      case True
      let ?s = "s\<lparr>ml_idlers := r1\<rparr>"
      have "ml_ok least ?s" by (intro ml_ok_idlers [OF ok]) (use mp [OF proc True] True r1(2) in \<open>simp_all add: reg_settled_def\<close>)
      moreover have "idlers_ext s ?s"
        unfolding idlers_ext_def using mp [OF proc True] True r1(2) x by (auto simp: r_def [symmetric])
      ultimately have "ml_ext least a s ?s" using ext_same(1) [OF _ ok, of ?s] by (simp add: ml_ext_def ext_same)
      then show ?thesis using x False r1 True
        by (intro exI [of _ True] exI [of _ ?s]) (simp add: sol_mainloop_impl_idle_del_def r_def [symmetric])
    next
      case np: False
      obtain r' freed where r': "cleanup l ?m r1 = Some (r', freed)" "reg_ok ?m (ml_next s) r'"
        "rg_pending_deletion r' = 0" "\<not> rg_processing r'" using mp [OF rest np] by blast
      let ?s = "s\<lparr>ml_idlers := r'\<rparr>"
      have "ml_ok least ?s" by (intro ml_ok_idlers [OF ok]) (use r' in \<open>simp_all add: reg_settled_def\<close>)
      moreover have "idlers_ext s ?s" using np r'(4) by (simp add: idlers_ext_def r_def)
      ultimately have "ml_ext least a s ?s" using ext_same(1) [OF _ ok, of ?s] by (simp add: ml_ext_def ext_same)
      then show ?thesis using x False r1 np r'(1)
        by (intro exI [of _ True] exI [of _ ?s]) (simp add: sol_mainloop_impl_idle_del_def idler_cleanup_def r_def [symmetric])
    qed
  qed
qed

lemma source_del_ok:
  assumes ok: "ml_ok least s" and p: "rg_objs (ml_sources s) p \<noteq> None"
  shows "\<exists>s'. sol_mainloop_impl_source_del l p s = Some s' \<and> ml_ext least a s s'"
proof -
  define r where "r = ml_sources s"
  obtain x where x: "rg_objs r p = Some x" using p by (auto simp: r_def)
  let ?m = "src_remove_me" and ?u = "\<lambda>x. x\<lparr>src_remove_me := True\<rparr>"
  have o: "reg_ok ?m (ml_next s) r" "reg_settled r" using ok by (simp_all add: ml_ok_def r_def)
  show ?thesis
  proof (cases "src_remove_me x")
    case True
    then show ?thesis using x ok
      by (intro exI [of _ s]) (simp add: sol_mainloop_impl_source_del_def ml_ext_def ext_refl r_def)
  next
    case False
    have u: "src_remove_me (?u x)" by simp
    obtain r1 where r1: "mark ?u p r = Some r1" "rg_processing r1 = rg_processing r"
      and proc: "rg_processing r \<longrightarrow> reg_ok ?m (ml_next s) r1 \<and> rg_vector r1 = rg_vector r \<and> rg_objs r1 = (rg_objs r)(p \<mapsto> ?u x)"
      and rest: "\<not> rg_processing r \<longrightarrow> (\<exists>r' freed. cleanup l ?m r1 = Some (r', freed) \<and> reg_ok ?m (ml_next s) r' \<and>
        rg_pending_deletion r' = 0 \<and> \<not> rg_processing r' \<and> rg_objs r' = (rg_objs r)(p := None) \<and>
        velems (rg_vector r') = filter (\<lambda>q. q \<noteq> p) (velems (rg_vector r)))"
      using reg_del_ok [where upd = ?u and l = l and marked = ?m, OF o x False u] .
    show ?thesis
    proof (cases "rg_processing r")
      case True
      let ?s = "s\<lparr>ml_sources := r1\<rparr>"
      have "ml_ok least ?s" by (intro ml_ok_sources [OF ok]) (use mp [OF proc True] True r1(2) in \<open>simp_all add: reg_settled_def\<close>)
      moreover have "sources_ext s ?s"
        unfolding sources_ext_def using mp [OF proc True] True r1(2) x by (auto simp: r_def [symmetric])
      ultimately have "ml_ext least a s ?s" using ext_same(1) [OF _ ok, of ?s] by (simp add: ml_ext_def ext_same)
      then show ?thesis using x False r1 True
        by (intro exI [of _ ?s]) (simp add: sol_mainloop_impl_source_del_def r_def [symmetric])
    next
      case np: False
      obtain r' freed where r': "cleanup l ?m r1 = Some (r', freed)" "reg_ok ?m (ml_next s) r'"
        "rg_pending_deletion r' = 0" "\<not> rg_processing r'" using mp [OF rest np] by blast
      let ?s = "s\<lparr>ml_sources := r', ml_disposed := ml_disposed s @ disposed_data freed\<rparr>"
      have "ml_ok least ?s" using ml_ok_sources [OF ok r'(2)] r' by (simp add: reg_settled_def)
      moreover have "sources_ext s ?s" using np r'(4) by (simp add: sources_ext_def r_def)
      ultimately have "ml_ext least a s ?s" using ext_same(1) [OF _ ok, of ?s] by (simp add: ml_ext_def ext_same)
      then show ?thesis using x False r1 np r'(1)
        by (intro exI [of _ ?s]) (simp add: sol_mainloop_impl_source_del_def source_cleanup_def r_def [symmetric])
    qed
  qed
qed


lemma quit_ok: "ml_ok least s \<Longrightarrow> ml_ext least a s (sol_mainloop_impl_quit s)"
  using ext_same(1) [of "sol_mainloop_impl_quit s" s]
  by (simp add: ml_ext_def sol_mainloop_impl_quit_def sol_mainloop_common_loop_set_def ext_same)

lemma do_call_ok:
  assumes "ml_ok least s" and "clock_ok a" and "call_ok least c s"
  shows "\<exists>s'. do_call a l c s = Some s' \<and> ml_ext least a s s'"
proof (cases c)
  case (Timeout_add ms cb)
  then show ?thesis using timeout_add_ok [OF assms(1,2), of ms l cb] assms(3) by (auto simp: do_call_def)
next
  case (Timeout_del p)
  then show ?thesis using timeout_del_ok [OF assms(1), of p l a] assms(3) by (auto simp: do_call_def)
next
  case (Idle_add cb)
  then show ?thesis using idle_add_ok [OF assms(1), of l cb a] by (auto simp: do_call_def)
next
  case (Idle_del p)
  then show ?thesis using idle_del_ok [OF assms(1), of p l a] assms(3) by (auto simp: do_call_def)
next
  case (Source_add ty d)
  then show ?thesis using source_add_ok [OF assms(1), of l ty d a] by (auto simp: do_call_def)
next
  case (Source_del p)
  then show ?thesis using source_del_ok [OF assms(1), of p l a] assms(3) by (auto simp: do_call_def)
next
  case Quit
  then show ?thesis using quit_ok [OF assms(1)] by (simp add: do_call_def)
qed

lemma do_calls_ok:
  assumes "ml_ok least s" and "clock_ok a" and "calls_ok least a l cs s"
  shows "\<exists>s'. do_calls a l cs s = Some s' \<and> ml_ext least a s s'"
  using assms
proof (induction cs arbitrary: s)
  case Nil
  then show ?case by (simp add: ml_ext_def ext_refl)
next
  case (Cons c cs)
  obtain s1 where s1: "do_call a l c s = Some s1" "ml_ext least a s s1"
    using do_call_ok [OF Cons.prems(1,2)] Cons.prems(3) by auto
  then have "ml_ok least s1" "calls_ok least a l cs s1" using Cons.prems(3) by (simp_all add: ml_ext_def)
  then obtain s2 where s2: "do_calls a l cs s1 = Some s2" "ml_ext least a s1 s2" using Cons.IH Cons.prems(2) by blast
  have "ml_ext least a s s2" by (rule ml_ext_trans [OF s1(2) s2(2) Cons.prems(2,1)])
  with s1 s2 show ?case by simp
qed

section \<open>Processing timeouts\<close>

text \<open>What the main loop asks of the application: a sane clock, and callbacks that only make legal calls.\<close>

definition app_ok :: "nat \<Rightarrow> app \<Rightarrow> nat libc \<Rightarrow> bool" where
  "app_ok least a l \<longleftrightarrow> clock_ok a \<and>
     (\<forall>cb s. ml_ok least s \<longrightarrow>
        calls_ok least a l (fst (run_timeout a cb s)) s \<and> calls_ok least a l (fst (run_idler a cb s)) s \<and>
        calls_ok least a l (fst (run_prepare a cb s)) s \<and> calls_ok least a l (fst (run_check a cb s)) s \<and>
        calls_ok least a l (run_dispatch a cb s) s \<and> calls_ok least a l (fst (run_get_next_timeout a cb s)) s)"

definition due :: "timespec \<Rightarrow> mainloop \<Rightarrow> nat \<Rightarrow> bool" where
  "due now s p \<longleftrightarrow> (\<exists>t. rg_objs (ml_timeouts s) p = Some t \<and> \<not> to_remove_me t \<and> ts_val (to_expire t) \<le> ts_val now)"

definition due_from :: "timespec \<Rightarrow> nat \<Rightarrow> mainloop \<Rightarrow> nat list" where
  "due_from now i s = filter (due now s) (drop i (velems (rg_vector (ml_timeouts s))))"

text \<open>The states of a pass over the timeouts with the time \<open>now\<close>.\<close>

definition in_pass :: "nat \<Rightarrow> app \<Rightarrow> timespec \<Rightarrow> mainloop \<Rightarrow> bool" where
  "in_pass least a now s \<longleftrightarrow> ml_ok least s \<and> rg_processing (ml_timeouts s) \<and> ts_norm now \<and>
     ts_val now \<le> ts_val (clock a (ml_reads s))"

text \<open>What every part of a pass guarantees: the registries of idlers and sources only change as a
  callback may change them, marks stay, and \<open>fired\<close> are the timeouts called.\<close>

definition pass_step :: "nat \<Rightarrow> app \<Rightarrow> timespec \<Rightarrow> nat list \<Rightarrow> mainloop \<Rightarrow> mainloop \<Rightarrow> bool" where
  "pass_step least a now fired s s' \<longleftrightarrow> in_pass least a now s' \<and> ml_ran s' = ml_ran s @ fired \<and> ml_idled s' = ml_idled s \<and>
     (run_loop s' \<longrightarrow> run_loop s) \<and> ml_next s \<le> ml_next s' \<and> ml_reads s \<le> ml_reads s' \<and>
     idlers_ext s s' \<and> sources_ext s s' \<and>
     (\<forall>p. marked_at to_remove_me (ml_timeouts s) p \<longrightarrow> marked_at to_remove_me (ml_timeouts s') p)"

lemma pass_step_refl: "in_pass least a now s \<Longrightarrow> pass_step least a now [] s s"
  unfolding pass_step_def in_pass_def using ext_refl(2,3) by auto

lemma pass_step_trans:
  assumes "pass_step least a now r1 s s1" and "pass_step least a now r2 s1 s2"
  shows "pass_step least a now (r1 @ r2) s s2"
proof -
  have "reg_ok (\<lambda>x. id_status x = idler_deleted) (ml_next s1) (ml_idlers s1)"
    using assms(1) by (simp add: pass_step_def in_pass_def ml_ok_def)
  then show ?thesis using assms idlers_ext_trans [of s s1 s2] sources_ext_trans [of s s1 s2]
    unfolding pass_step_def by auto
qed

text \<open>The callback of the timeout at index \<open>i\<close>, which is due: it cannot move any entry up to \<open>i\<close>.\<close>

lemma call_timeout_ok:
  assumes app: "app_ok least a l" and s: "in_pass least a now s" and i: "i < vlen (rg_vector (ml_timeouts s))"
    and p: "p = velems (rg_vector (ml_timeouts s)) ! i" and t: "rg_objs (ml_timeouts s) p = Some t"
    and le: "ts_val (to_expire t) \<le> ts_val now"
  obtains again s1 b where "call_timeout a l p t s = Some (again, s1)" and "pass_step least a now [p] s s1"
    and "take (i + 1) (velems (rg_vector (ml_timeouts s1))) = take (i + 1) (velems (rg_vector (ml_timeouts s)))"
    and "filter (\<lambda>q. q < ml_next s) (velems (rg_vector (ml_timeouts s1))) = velems (rg_vector (ml_timeouts s))"
    and "rg_objs (ml_timeouts s1) p = Some (t\<lparr>to_remove_me := b\<rparr>)"
    and "\<forall>q u. rg_objs (ml_timeouts s1) q = Some u \<and> ml_next s \<le> q \<longrightarrow>
      ts_val now + int least * 1000000 \<le> ts_val (to_expire u)"
    and "\<forall>q. due now s1 q \<longrightarrow> q < ml_next s \<longrightarrow> due now s q"
    and "\<forall>q. due now s q \<longrightarrow> due now s1 q \<or> marked_at to_remove_me (ml_timeouts s1) q"
proof -
  let ?s0 = "s\<lparr>ml_ran := ml_ran s @ [p]\<rparr>" and ?v = "\<lambda>s. velems (rg_vector (ml_timeouts s))" and ?o = "\<lambda>s. rg_objs (ml_timeouts s)"
  have ok: "ml_ok least s" and P: "rg_processing (ml_timeouts s)" and now: "ts_val now \<le> ts_val (clock a (ml_reads s))"
    using s by (simp_all add: in_pass_def)
  have reg: "reg_ok to_remove_me (ml_next s) (ml_timeouts s)" and tok: "timeouts_ok least (ml_timeouts s)"
    using ok by (simp_all add: ml_ok_def)
  have c: "clock_ok a" using app by (simp add: app_ok_def)
  obtain cs again where run: "run_timeout a (to_cb t) ?s0 = (cs, again)" by fastforce
  have "calls_ok least a l cs ?s0" using app run ok unfolding app_ok_def by (metis fst_conv ml_ok_ran)
  then obtain s1 where s1: "do_calls a l cs ?s0 = Some s1" "ml_ext least a ?s0 s1"
    using do_calls_ok [of least ?s0 a l cs] ok c by auto
  note e = s1(2) [unfolded ml_ext_def]
  have te: "timeouts_ext least a ?s0 s1" using e by blast
  have te': "timeouts_ext least a s s1" using te by (subst timeouts_ext_cong [of ?s0 s s1 s1, symmetric]) simp_all
  have len: "i < length (?v s)" using i reg_length [OF reg] by simp
  have early: "ts_val (expire_of (?o s) q) \<le> ts_val (clock a (ml_reads s))" if q: "q \<in> set (take (i + 1) (?v s))" for q
  proof -
    obtain j where j: "j \<le> i" "q = ?v s ! j" using q len by (auto simp: in_set_conv_nth less_Suc_eq_le)
    have "ts_val (expire_of (?o s) q) \<le> ts_val (expire_of (?o s) p)"
      using timeouts_sorted_le [OF tok j(1) len reg] by (simp add: j(2) p)
    with le now t show ?thesis by (simp add: expire_of_def)
  qed
  have pre: "take (i + 1) (?v s1) = take (i + 1) (?v s)" using te' P early len unfolding timeouts_ext_def by simp
  have old: "filter (\<lambda>q. q < ml_next s) (?v s1) = ?v s" using te' P unfolding timeouts_ext_def by simp
  obtain b where b: "?o s1 p = Some (t\<lparr>to_remove_me := b\<rparr>)" by (rule timeouts_ext_old [OF te' P t])
  have dom: "?o s q \<noteq> None \<Longrightarrow> q < ml_next s" for q using reg by (auto simp: reg_ok_def)
  have new: "ts_val now + int least * 1000000 \<le> ts_val (to_expire u)" if u: "?o s1 q = Some u" "ml_next s \<le> q" for q u
  proof -
    have "?o s q = None" using dom [of q] u(2) by (cases "?o s q") auto
    then have "ts_val (clock a (ml_reads s)) + int least * 1000000 \<le> ts_val (to_expire u)"
      using te' P u(1) unfolding timeouts_ext_def by blast
    with now show ?thesis by linarith
  qed
  have mk: "marked_at to_remove_me (ml_timeouts s1) q" if m: "marked_at to_remove_me (ml_timeouts s) q" for q
  proof -
    obtain u where u: "?o s q = Some u" "to_remove_me u" using m by (auto simp: marked_at_def)
    obtain b where "?o s1 q = Some (u\<lparr>to_remove_me := b\<rparr>)" "to_remove_me u \<longrightarrow> b" by (rule timeouts_ext_old [OF te' P u(1)])
    with u(2) show ?thesis by (simp add: marked_at_def)
  qed
  have du: "due now s q" if d: "due now s1 q" and q: "q < ml_next s" for q
  proof -
    obtain u where u: "?o s1 q = Some u" "\<not> to_remove_me u" "ts_val (to_expire u) \<le> ts_val now" using d by (auto simp: due_def)
    obtain w where w: "?o s q = Some w"
    proof (cases "?o s q")
      case None
      then have "ml_next s \<le> q" using te' P u(1) unfolding timeouts_ext_def by blast
      with q show ?thesis by simp
    qed
    obtain b where "?o s1 q = Some (w\<lparr>to_remove_me := b\<rparr>)" "to_remove_me w \<longrightarrow> b" by (rule timeouts_ext_old [OF te' P w])
    with u w show ?thesis by (auto simp: due_def)
  qed
  have kept: "due now s1 q \<or> marked_at to_remove_me (ml_timeouts s1) q" if d: "due now s q" for q
  proof -
    obtain u where u: "?o s q = Some u" "ts_val (to_expire u) \<le> ts_val now" using d by (auto simp: due_def)
    obtain b where "?o s1 q = Some (u\<lparr>to_remove_me := b\<rparr>)" by (rule timeouts_ext_old [OF te' P u(1)])
    with u(2) show ?thesis by (simp add: due_def marked_at_def)
  qed
  have ps: "pass_step least a now [p] s s1"
  proof -
    have mono: "ts_val (clock a (ml_reads s)) \<le> ts_val (clock a (ml_reads s1))" using c e by (simp add: clock_ok_def)
    have "idlers_ext s s1" "sources_ext s s1" using e by (simp_all add: idlers_ext_def sources_ext_def)
    moreover have "rg_processing (ml_timeouts s1)" using te' P by (simp add: timeouts_ext_def)
    ultimately show ?thesis using e s mono now mk by (auto simp: pass_step_def in_pass_def)
  qed
  have "call_timeout a l p t s = Some (again, s1)" using run s1(1) by (simp add: call_timeout_def)
  then show thesis by (rule that [OF _ ps pre old b]) (use new du kept in auto)
qed

lemma insert_after_equals_append:
  "\<forall>y \<in> set xs. 0 \<le> cmp x y \<Longrightarrow> insert_after_equals cmp x (xs @ ys) = xs @ insert_after_equals cmp x ys"
  "\<forall>y \<in> set xs. 0 \<le> cmp x y \<Longrightarrow>
     length (takeWhile (\<lambda>y. 0 \<le> cmp x y) (xs @ ys)) = length xs + length (takeWhile (\<lambda>y. 0 \<le> cmp x y) ys)"
  by (simp_all add: insert_after_equals_def takeWhile_append dropWhile_append)

lemma filter_insert_after_equals: "\<not> P x \<Longrightarrow> filter P (insert_after_equals cmp x ys) = filter P ys"
proof -
  let ?Q = "\<lambda>y. 0 \<le> cmp x y"
  assume "\<not> P x"
  then have "filter P (insert_after_equals cmp x ys) = filter P (takeWhile ?Q ys @ dropWhile ?Q ys)"
    unfolding insert_after_equals_def filter_append by simp
  then show ?thesis by simp
qed

text \<open>A timeout that runs again: its entry moves behind everything that is not later than it.\<close>

lemma timeout_again_ok:
  assumes l: "alloc_total l" and s: "in_pass least a now s" and i: "i < vlen (rg_vector (ml_timeouts s))"
    and p: "p = velems (rg_vector (ml_timeouts s)) ! i" and t: "rg_objs (ml_timeouts s) p = Some t"
    and le: "ts_val (to_expire t) \<le> ts_val now"
  obtains k s' where "timeout_again l now i p s = Some (Inr k, s')" and "pass_step least a now [] s s'"
    and "rg_objs (ml_timeouts s') = (rg_objs (ml_timeouts s))(p \<mapsto> t\<lparr>to_expire := sol_util_timespec_add now (to_timeout t)\<rparr>)"
    and "\<forall>P. \<not> P p \<longrightarrow> filter P (drop (if k = i then i + 1 else i) (velems (rg_vector (ml_timeouts s')))) =
      filter P (drop (i + 1) (velems (rg_vector (ml_timeouts s))))"
    and "velems (rg_vector (ml_timeouts s')) = take i (velems (rg_vector (ml_timeouts s))) @
      insert_after_equals (timeout_compare (rg_objs (ml_timeouts s'))) p (drop (i + 1) (velems (rg_vector (ml_timeouts s))))"
    and "k = i + length (takeWhile (\<lambda>y. 0 \<le> timeout_compare (rg_objs (ml_timeouts s')) p y)
      (drop (i + 1) (velems (rg_vector (ml_timeouts s)))))"
proof -
  define r where "r = ml_timeouts s"
  define v where "v = rg_vector r"
  define t' where "t' = t\<lparr>to_expire := sol_util_timespec_add now (to_timeout t)\<rparr>"
  define objs where "objs = (rg_objs r)(p \<mapsto> t')"
  let ?xs = "velems v" and ?cmp = "timeout_compare objs"
  let ?A = "take i ?xs" and ?B = "drop (i + 1) ?xs"
  have ok: "ml_ok least s" and P: "rg_processing r" and norm: "ts_norm now" using s by (simp_all add: in_pass_def r_def)
  have reg: "reg_ok to_remove_me (ml_next s) r" and tok: "timeouts_ok least r" using ok by (simp_all add: ml_ok_def r_def)
  have wf: "vec_wf v" "vec_small v" "distinct ?xs" using reg by (simp_all add: reg_ok_def v_def)
  have len: "i < length ?xs" using i reg_length [OF reg] by (simp add: v_def r_def)
  have pi: "p = ?xs ! i" using p by (simp add: v_def r_def)
  have tr: "rg_objs r p = Some t" using t by (simp add: r_def)
  have xs: "?xs = ?A @ p # ?B" using len pi by (simp add: id_take_nth_drop)
  have notin: "p \<notin> set (?A @ ?B)" using wf(3) by (subst (asm) xs) simp
  obtain ms where ms: "least \<le> ms" "to_timeout t = period_of ms" "ts_norm (to_expire t)" using tok tr by (auto simp: timeouts_ok_def)
  have t': "ts_norm (to_expire t')" "ts_val (to_expire t') = ts_val now + int ms * 1000000"
    using timespec_add_val [OF norm period_of_val(1)] ms(2) by (simp_all add: t'_def period_of_val(2))
  have same: "expire_of objs q = expire_of (rg_objs r) q" if "q \<noteq> p" for q using that by (simp add: expire_of_def objs_def)
  have sub: "cmp_sorted ?cmp (?A @ ?B)"
  proof -
    have "cmp_sorted (timeout_compare (rg_objs r)) (?A @ p # ?B)" using tok xs by (simp add: timeouts_ok_def v_def)
    then have "cmp_sorted (timeout_compare (rg_objs r)) (?A @ ?B)" by (auto simp: cmp_sorted_def sorted_wrt_append)
    moreover have "expire_of objs q = expire_of (rg_objs r) q" if "q \<in> set (?A @ ?B)" for q using notin that by (intro same) auto
    ultimately show ?thesis using cmp_sorted_cong by blast
  qed
  have Ale: "0 \<le> ?cmp p q" if q: "q \<in> set ?A" for q
  proof -
    obtain j where j: "j < i" "q = ?xs ! j" using q len by (auto simp: in_set_conv_nth)
    have "ts_val (expire_of (rg_objs r) q) \<le> ts_val (expire_of (rg_objs r) p)"
      using timeouts_sorted_le [OF tok _ _ reg, of j i] j len pi by (simp add: v_def)
    moreover have "q \<noteq> p" using notin q by auto
    ultimately have "ts_val (expire_of objs q) \<le> ts_val (to_expire t')"
      using le tr t'(2) same [of q] by (simp add: expire_of_def [of "rg_objs r" p])
    moreover have "q \<in> dom (rg_objs r)" using q reg in_set_takeD [OF q] by (simp add: reg_ok_def v_def)
    then have "ts_norm (expire_of objs q)" using tok t'(1) by (auto simp: timeouts_ok_def expire_of_def objs_def)
    moreover have "expire_of objs p = to_expire t'" by (simp add: expire_of_def objs_def)
    ultimately show ?thesis using t'(1) by (simp add: timeout_compare_def timespec_compare_val)
  qed
  define fin where "fin v' = s\<lparr>ml_timeouts := r\<lparr>rg_vector := v', rg_objs := objs\<rparr>\<rparr>" for v'
  have eq: "timeout_again l now i p s = do { (ret, v') \<leftarrow> sol_ptr_vector_update_sorted l v i ?cmp; Some (ret, fin v') }"
    using tr by (simp add: timeout_again_def Let_def r_def [symmetric] v_def objs_def t'_def fin_def)
  have step: "pass_step least a now [] s (fin v')"
    if v': "vec_wf v'" "velem_size v' = velem_size v" "mset (velems v') = mset ?xs" "cmp_sorted ?cmp (velems v')" for v'
  proof -
    have r1: "reg_ok to_remove_me (ml_next s) (r\<lparr>rg_objs := objs\<rparr>)"
      unfolding objs_def by (rule reg_replace_same [OF reg tr]) (simp add: t'_def)
    have r2: "reg_ok to_remove_me (ml_next s) (r\<lparr>rg_objs := objs\<rparr>\<lparr>rg_vector := v'\<rparr>)"
      by (rule reg_vector_replace [OF r1]) (use v' in \<open>simp_all add: v_def\<close>)
    have r3: "r\<lparr>rg_objs := objs\<rparr>\<lparr>rg_vector := v'\<rparr> = r\<lparr>rg_vector := v', rg_objs := objs\<rparr>" by (cases r) simp
    have "timeouts_ok least (r\<lparr>rg_vector := v', rg_objs := objs\<rparr>)"
      using tok v'(4) t'(1) ms tr by (auto simp: timeouts_ok_def objs_def t'_def)
    then have "ml_ok least (fin v')"
      unfolding fin_def by (intro ml_ok_timeouts [OF ok]) (use r2 [unfolded r3] P in \<open>simp_all add: reg_settled_def\<close>)
    moreover have "marked_at to_remove_me (r\<lparr>rg_vector := v', rg_objs := objs\<rparr>) q" if "marked_at to_remove_me r q" for q
      using that tr by (auto simp: marked_at_def objs_def t'_def)
    ultimately show ?thesis
      using s by (auto simp: pass_step_def in_pass_def fin_def r_def ext_same)
  qed
  have out: "rg_objs (ml_timeouts (fin v')) = objs" "velems (rg_vector (ml_timeouts (fin v'))) = velems v'" for v'
    by (simp_all add: fin_def)
  have ivl: "i < vlen v" using i by (simp add: v_def r_def)
  show thesis
  proof (rule timeout_cmp.sol_ptr_vector_update_sorted_ok [OF wf(1,2) ivl sub, of l])
    assume u: "sol_ptr_vector_update_sorted l v i ?cmp = Some (Inr i, v)" "cmp_sorted ?cmp ?xs"
      "i + 1 < vlen v \<longrightarrow> ?cmp (?xs ! i) (?xs ! (i + 1)) < 0"
    have vl: "vlen v = length ?xs" using reg_length [OF reg] by (simp add: v_def)
    have tw: "takeWhile (\<lambda>y. 0 \<le> ?cmp p y) ?B = []"
    proof (cases "i + 1 < length ?xs")
      case True
      then have "?B = ?xs ! (i + 1) # drop (i + 2) ?xs" by (simp add: Cons_nth_drop_Suc)
      then show ?thesis using u(3) True vl pi by simp
    qed simp
    then have ins: "insert_after_equals ?cmp p ?B = p # ?B"
      unfolding insert_after_equals_def by (metis append_Nil takeWhile_dropWhile_id)
    have "velems v = ?A @ insert_after_equals ?cmp p ?B" unfolding ins by (rule xs)
    moreover have "i = i + length (takeWhile (\<lambda>y. 0 \<le> ?cmp p y) ?B)" using tw by simp
    moreover have "timeout_again l now i p s = Some (Inr i, fin v)" using eq u(1) by simp
    moreover have "pass_step least a now [] s (fin v)" using step [of v] wf u(2) by simp
    ultimately show thesis
      by (intro that [of i "fin v"]) (simp_all only: out, simp_all add: objs_def t'_def r_def v_def)
  next
    fix k v'
    assume u: "sol_ptr_vector_update_sorted l v i ?cmp = Some (Inr k, v')" "vec_wf v'" "velem_size v' = velem_size v"
      "velems v' = insert_after_equals ?cmp (?xs ! i) (?A @ ?B)"
      "k = length (takeWhile (\<lambda>y. 0 \<le> ?cmp (?xs ! i) y) (?A @ ?B))"
    note app = insert_after_equals_append [of ?A ?cmp p ?B]
    have v': "velems v' = ?A @ insert_after_equals ?cmp p ?B" using u(4) app(1) Ale pi by simp
    have k: "k = i + length (takeWhile (\<lambda>y. 0 \<le> ?cmp p y) ?B)" using u(5) app(2) Ale pi len by simp
    have "mset (velems v') = mset (?A @ p # ?B)" unfolding v' by (simp add: timeout_cmp.mset_insert_after_equals)
    then have ms': "mset (velems v') = mset ?xs" by (simp only: xs [symmetric])
    have srt: "cmp_sorted ?cmp (velems v')" unfolding u(4) by (rule timeout_cmp.sorted_insert_after_equals [OF sub])
    have flt: "filter Q (drop (if k = i then i + 1 else i) (velems v')) = filter Q ?B" if "\<not> Q p" for Q
    proof (cases "k = i")
      case True
      then have "takeWhile (\<lambda>y. 0 \<le> ?cmp p y) ?B = []" using k by simp
      then have "insert_after_equals ?cmp p ?B = p # ?B"
        unfolding insert_after_equals_def by (metis append_Nil takeWhile_dropWhile_id)
      then show ?thesis using True v' len by simp
    next
      case False
      then show ?thesis using v' len that by (simp add: filter_insert_after_equals)
    qed
    have "timeout_again l now i p s = Some (Inr k, fin v')" using eq u(1) by simp
    with step [OF u(2,3) ms' srt] flt v' k show thesis
      by (intro that [of k "fin v'"]) (simp_all only: out, simp_all add: objs_def t'_def r_def v_def)
  qed (use l in blast)
qed

lemma timeout_done_ok:
  assumes s: "in_pass least a now s" and t: "rg_objs (ml_timeouts s) p = Some t"
  obtains s' where "timeout_done p s = Some s'" and "pass_step least a now [] s s'"
    and "velems (rg_vector (ml_timeouts s')) = velems (rg_vector (ml_timeouts s))"
    and "\<forall>q. due now s' q \<longrightarrow> q \<noteq> p \<and> due now s q"
    and "\<forall>q. q \<noteq> p \<longrightarrow> rg_objs (ml_timeouts s') q = rg_objs (ml_timeouts s) q"
proof (cases "to_remove_me t")
  case True
  then show ?thesis
    by (intro that [of s]) (use s t in \<open>auto simp: timeout_done_def pass_step_refl due_def marked_at_def\<close>)
next
  case False
  let ?u = "\<lambda>t. t\<lparr>to_remove_me := True\<rparr>" and ?r = "ml_timeouts s"
  let ?r' = "?r\<lparr>rg_objs := (rg_objs ?r)(p \<mapsto> ?u t), rg_pending_deletion := rg_pending_deletion ?r + 1\<rparr>"
  have ok: "ml_ok least s" and P: "rg_processing ?r" using s by (simp_all add: in_pass_def)
  have o: "reg_ok to_remove_me (ml_next s) ?r" "timeouts_ok least ?r" using ok by (simp_all add: ml_ok_def)
  note m = mark_ok [where marked = to_remove_me and upd = ?u, OF o(1) t False]
  have "timeouts_ok least ?r'" by (rule timeouts_ok_mark [OF o(2) t, of _ True]) simp_all
  then have "ml_ok least (s\<lparr>ml_timeouts := ?r'\<rparr>)"
    by (intro ml_ok_timeouts [OF ok]) (use m(2) P in \<open>simp_all add: reg_settled_def\<close>)
  moreover have "marked_at to_remove_me ?r' q" if "marked_at to_remove_me ?r q" for q using that by (auto simp: marked_at_def)
  ultimately have "pass_step least a now [] s (s\<lparr>ml_timeouts := ?r'\<rparr>)"
    using s by (auto simp: pass_step_def in_pass_def ext_same)
  then show ?thesis
    by (intro that [of "s\<lparr>ml_timeouts := ?r'\<rparr>"]) (use m t False in \<open>auto simp: timeout_done_def due_def marked_at_def split: if_splits\<close>)
qed

text \<open>
  One due timeout: it is called, and when periods are positive what remains to be called is what was
  behind it, less what the callback deleted.
\<close>

lemma timeout_fire_ok:
  assumes app: "app_ok least a l" and l: "alloc_total l" and s: "in_pass least a now s"
    and i: "i < vlen (rg_vector (ml_timeouts s))" and p: "p = velems (rg_vector (ml_timeouts s)) ! i"
    and t: "rg_objs (ml_timeouts s) p = Some t" and le: "ts_val (to_expire t) \<le> ts_val now"
  obtains i' s' where "timeout_fire a l now i p t s = Some (Inr i', s')" and "pass_step least a now [p] s s'"
    and "0 < least \<longrightarrow> due_from now i' s' = filter (due now s') (drop (i + 1) (velems (rg_vector (ml_timeouts s)))) \<and>
      (\<forall>q. due now s' q \<longrightarrow> due now s q)"
    and "\<forall>q. q \<noteq> p \<longrightarrow> due now s q \<longrightarrow> due now s' q \<or> marked_at to_remove_me (ml_timeouts s') q"
proof -
  let ?v = "\<lambda>s. velems (rg_vector (ml_timeouts s))" and ?o = "\<lambda>s. rg_objs (ml_timeouts s)"
  obtain again s1 b where s1: "call_timeout a l p t s = Some (again, s1)" "pass_step least a now [p] s s1"
    "take (i + 1) (?v s1) = take (i + 1) (?v s)" "filter (\<lambda>q. q < ml_next s) (?v s1) = ?v s"
    "?o s1 p = Some (t\<lparr>to_remove_me := b\<rparr>)"
    "\<forall>q u. ?o s1 q = Some u \<and> ml_next s \<le> q \<longrightarrow> ts_val now + int least * 1000000 \<le> ts_val (to_expire u)"
    "\<forall>q. due now s1 q \<longrightarrow> q < ml_next s \<longrightarrow> due now s q"
    "\<forall>q. due now s q \<longrightarrow> due now s1 q \<or> marked_at to_remove_me (ml_timeouts s1) q"
    by (rule call_timeout_ok [OF app s i p t le])
  have pass1: "in_pass least a now s1" using s1(2) by (simp add: pass_step_def)
  have reg: "reg_ok to_remove_me (ml_next s) (ml_timeouts s)" using s by (simp add: in_pass_def ml_ok_def)
  have reg1: "reg_ok to_remove_me (ml_next s1) (ml_timeouts s1)" using pass1 by (simp add: in_pass_def ml_ok_def)
  have len: "i < length (?v s)" using i reg_length [OF reg] by simp
  then have len1: "i < length (?v s1)" using arg_cong [OF s1(3), of length] by simp
  have p1: "p = ?v s1 ! i" using arg_cong [OF s1(3), of "\<lambda>xs. xs ! i"] p by simp
  have i1: "i < vlen (rg_vector (ml_timeouts s1))" using len1 reg_length [OF reg1] by simp
  have drp: "drop (i + 1) (?v s) = filter (\<lambda>q. q < ml_next s) (drop (i + 1) (?v s1))"
  proof -
    have "\<forall>q \<in> set (take (i + 1) (?v s)). q < ml_next s" using reg in_set_takeD by (fastforce simp: reg_ok_def)
    then have "filter (\<lambda>q. q < ml_next s) (take (i + 1) (?v s1)) = take (i + 1) (?v s)" unfolding s1(3) by (rule filter_True)
    moreover have "?v s = filter (\<lambda>q. q < ml_next s) (take (i + 1) (?v s1) @ drop (i + 1) (?v s1))"
      unfolding append_take_drop_id by (rule s1(4) [symmetric])
    ultimately have "?v s = take (i + 1) (?v s) @ filter (\<lambda>q. q < ml_next s) (drop (i + 1) (?v s1))"
      unfolding filter_append by (simp only:)
    then have "take (i + 1) (?v s) @ drop (i + 1) (?v s) = take (i + 1) (?v s) @ filter (\<lambda>q. q < ml_next s) (drop (i + 1) (?v s1))"
      unfolding append_take_drop_id .
    then show ?thesis by (simp only: same_append_eq)
  qed
  have old: "q < ml_next s" if least: "0 < least" and d: "due now s1 q" for q
  proof (rule ccontr)
    assume "\<not> q < ml_next s"
    moreover obtain u where u: "?o s1 q = Some u" "ts_val (to_expire u) \<le> ts_val now" using d by (auto simp: due_def)
    ultimately have "ts_val now + int least * 1000000 \<le> ts_val now" using s1(6) by fastforce
    with least show False by simp
  qed
  have due1: "due now s q" if "0 < least" "due now s1 q" for q using s1(7) old that by blast
  have cut: "filter Q (drop (i + 1) (?v s1)) = filter Q (drop (i + 1) (?v s))" if "\<And>q. Q q \<Longrightarrow> q < ml_next s" for Q
    unfolding drp filter_filter using that by (intro filter_cong) auto
  show thesis
  proof (cases again)
    case False
    obtain s2 where s2: "timeout_done p s1 = Some s2" "pass_step least a now [] s1 s2" "?v s2 = ?v s1"
      "\<forall>q. due now s2 q \<longrightarrow> q \<noteq> p \<and> due now s1 q" "\<forall>q. q \<noteq> p \<longrightarrow> ?o s2 q = ?o s1 q"
      by (rule timeout_done_ok [OF pass1 s1(5)])
    have kept: "\<forall>q. q \<noteq> p \<longrightarrow> due now s q \<longrightarrow> due now s2 q \<or> marked_at to_remove_me (ml_timeouts s2) q"
      using s1(8) s2(5) by (auto simp: due_def marked_at_def)
    have ps: "pass_step least a now [p] s s2" using pass_step_trans [OF s1(2) s2(2)] by simp
    have "due_from now (i + 1) s2 = filter (due now s2) (drop (i + 1) (?v s))" if "0 < least"
      unfolding due_from_def s2(3) using s2(4) old that by (intro cut) blast
    then show ?thesis
      by (intro that [of "i + 1" s2, OF _ ps]) (use s1(1) s2(1,4) False due1 kept in \<open>auto simp: timeout_fire_def\<close>)
  next
    case True
    have le1: "ts_val (to_expire (t\<lparr>to_remove_me := b\<rparr>)) \<le> ts_val now" using le by simp
    obtain k s2 where s2: "timeout_again l now i p s1 = Some (Inr k, s2)" "pass_step least a now [] s1 s2"
      "?o s2 = (?o s1)(p \<mapsto> t\<lparr>to_remove_me := b\<rparr>\<lparr>to_expire := sol_util_timespec_add now (to_timeout (t\<lparr>to_remove_me := b\<rparr>))\<rparr>)"
      "\<forall>Q. \<not> Q p \<longrightarrow> filter Q (drop (if k = i then i + 1 else i) (?v s2)) = filter Q (drop (i + 1) (?v s1))"
      by (rule timeout_again_ok [OF l pass1 i1 p1 s1(5) le1])
    have ps: "pass_step least a now [p] s s2" using pass_step_trans [OF s1(2) s2(2)] by simp
    obtain ms where ms: "least \<le> ms" "to_timeout t = period_of ms"
      using s t unfolding in_pass_def ml_ok_def timeouts_ok_def by blast
    have norm: "ts_norm now" using s by (simp add: in_pass_def)
    have np: "\<not> due now s2 p" if "0 < least"
      using timespec_add_val(2) [OF norm period_of_val(1), of ms] ms that by (simp add: due_def s2(3) period_of_val(2))
    have d12: "due now s1 q" if "0 < least" "due now s2 q" for q
      using np that s2(3) by (cases "q = p") (auto simp: due_def)
    have kept: "\<forall>q. q \<noteq> p \<longrightarrow> due now s q \<longrightarrow> due now s2 q \<or> marked_at to_remove_me (ml_timeouts s2) q"
      using s1(8) s2(3) by (auto simp: due_def marked_at_def)
    have "due_from now (if k = i then i + 1 else i) s2 = filter (due now s2) (drop (i + 1) (?v s))" if "0 < least"
      unfolding due_from_def s2(4) [rule_format, of "due now s2", OF np [OF that]] using d12 old that by (intro cut) blast
    then show ?thesis
      by (intro that [of "if k = i then i + 1 else i" s2, OF _ ps]) (use s1(1) s2(1) True due1 d12 kept in \<open>auto simp: timeout_fire_def\<close>)
  qed
qed

text \<open>One turn of the loop, by what it finds at its index.\<close>

lemma timeout_loop_cases:
  assumes s: "in_pass least a now s"
  obtains (stop) "timeout_loop a l now i s = Some s" and "run_loop s \<Longrightarrow> due_from now i s = []"
    | (skip) "timeout_loop a l now i s = timeout_loop a l now (i + 1) s" and "due_from now (i + 1) s = due_from now i s"
        and "i < vlen (rg_vector (ml_timeouts s))"
    | (fire) p t where "timeout_loop a l now i s = do {
          (r, s) \<leftarrow> timeout_fire a l now i p t s; (case r of Inl _ \<Rightarrow> Some s | Inr i \<Rightarrow> timeout_loop a l now i s) }"
        and "i < vlen (rg_vector (ml_timeouts s))" and "p = velems (rg_vector (ml_timeouts s)) ! i"
        and "rg_objs (ml_timeouts s) p = Some t" and "ts_val (to_expire t) \<le> ts_val now"
        and "due_from now i s = p # filter (due now s) (drop (i + 1) (velems (rg_vector (ml_timeouts s))))"
proof -
  let ?r = "ml_timeouts s"
  let ?xs = "velems (rg_vector ?r)"
  have ok: "ml_ok least s" and norm: "ts_norm now" using s by (simp_all add: in_pass_def)
  have reg: "reg_ok to_remove_me (ml_next s) ?r" and tok: "timeouts_ok least ?r" using ok by (simp_all add: ml_ok_def)
  have len: "length ?xs = vlen (rg_vector ?r)" by (rule reg_length [OF reg])
  show thesis
  proof (cases "i < vlen (rg_vector ?r)")
    case False
    then show ?thesis using len by (intro stop) (simp_all add: due_from_def timeout_loop.simps)
  next
    case i: True
    obtain p t where p: "sol_ptr_vector_get_no_check (rg_vector ?r) i = Some p" "p = ?xs ! i" "rg_objs ?r p = Some t"
      by (rule reg_entry [OF reg i])
    have get: "sol_ptr_vector_get (rg_vector ?r) i = Some p" using p(1) i by (simp add: sol_ptr_vector_get_def)
    have dr: "drop i ?xs = p # drop (i + 1) ?xs" using i len p(2) by (simp add: Cons_nth_drop_Suc)
    have tn: "ts_norm (to_expire t)" using tok p(3) by (auto simp: timeouts_ok_def)
    consider "\<not> run_loop s" | "run_loop s" "to_remove_me t" | "run_loop s" "\<not> to_remove_me t" "ts_val now < ts_val (to_expire t)"
      | "run_loop s" "\<not> to_remove_me t" "ts_val (to_expire t) \<le> ts_val now" by linarith
    then show ?thesis
    proof cases
      case 1
      then show ?thesis using i get by (intro stop) (simp_all add: timeout_loop.simps sol_mainloop_common_loop_check_def)
    next
      case 2
      then have "due_from now (i + 1) s = due_from now i s" using p(3) dr by (simp add: due_from_def due_def)
      with 2 i get p(3) show ?thesis
        by (intro skip) (simp_all add: timeout_loop.simps [of a l now i] sol_mainloop_common_loop_check_def)
    next
      case 3
      have "\<not> due now s q" if q: "q \<in> set (drop i ?xs)" for q
      proof -
        obtain j where j: "i + j < length ?xs" "q = ?xs ! (i + j)" using q i len by (auto simp: in_set_conv_nth less_diff_conv add.commute)
        have "ts_val (expire_of (rg_objs ?r) p) \<le> ts_val (expire_of (rg_objs ?r) q)"
          using timeouts_sorted_le [OF tok _ j(1) reg, of i] by (simp add: j(2) p(2))
        with 3(3) p(3) show ?thesis by (auto simp: due_def expire_of_def)
      qed
      then have "due_from now i s = []" by (simp add: due_from_def filter_empty_conv)
      with 3 i get p(3) tn norm show ?thesis
        by (intro stop) (simp_all add: timeout_loop.simps sol_mainloop_common_loop_check_def timespec_compare_val)
    next
      case 4
      have "due_from now i s = p # filter (due now s) (drop (i + 1) ?xs)" using 4 p(3) unfolding due_from_def dr by (simp add: due_def)
      with 4 i get p(2,3) tn norm show ?thesis
        by (intro fire [of p t])
          (simp_all add: timeout_loop.simps [of a l now i] sol_mainloop_common_loop_check_def timespec_compare_val)
    qed
  qed
qed

lemma timeout_loop_ok:
  assumes app: "app_ok least a l" and least: "0 < least" and l: "alloc_total l"
  shows "in_pass least a now s \<Longrightarrow> \<exists>s' fired. timeout_loop a l now i s = Some s' \<and> pass_step least a now fired s s' \<and>
    subseq fired (due_from now i s) \<and>
    (run_loop s' \<longrightarrow> (\<forall>p \<in> set (due_from now i s). p \<in> set fired \<or> marked_at to_remove_me (ml_timeouts s') p))"
proof (induction "(length (due_from now i s), vlen (rg_vector (ml_timeouts s)) - i)" arbitrary: i s
    rule: wf_induct_rule [OF wf_lex_prod [OF wf_less_than wf_less_than]])
  case (1 i s)
  note IH = 1(1) and s = 1(2)
  show ?case
  proof (rule timeout_loop_cases [OF s, of l i])
    assume "timeout_loop a l now i s = Some s" and "run_loop s \<Longrightarrow> due_from now i s = []"
    then show ?thesis using pass_step_refl [OF s] by fastforce
  next
    assume k: "timeout_loop a l now i s = timeout_loop a l now (i + 1) s" "due_from now (i + 1) s = due_from now i s"
      "i < vlen (rg_vector (ml_timeouts s))"
    then show ?thesis using IH [of "i + 1" s] s by simp
  next
    fix p t
    assume f: "timeout_loop a l now i s = do {
          (r, s) \<leftarrow> timeout_fire a l now i p t s; (case r of Inl _ \<Rightarrow> Some s | Inr i \<Rightarrow> timeout_loop a l now i s) }"
      "i < vlen (rg_vector (ml_timeouts s))" "p = velems (rg_vector (ml_timeouts s)) ! i"
      "rg_objs (ml_timeouts s) p = Some t" "ts_val (to_expire t) \<le> ts_val now"
      and d: "due_from now i s = p # filter (due now s) (drop (i + 1) (velems (rg_vector (ml_timeouts s))))"
    let ?rest = "drop (i + 1) (velems (rg_vector (ml_timeouts s)))"
    obtain i' s1 where s1: "timeout_fire a l now i p t s = Some (Inr i', s1)" "pass_step least a now [p] s s1"
      "0 < least \<longrightarrow> due_from now i' s1 = filter (due now s1) ?rest \<and> (\<forall>q. due now s1 q \<longrightarrow> due now s q)"
      "\<forall>q. q \<noteq> p \<longrightarrow> due now s q \<longrightarrow> due now s1 q \<or> marked_at to_remove_me (ml_timeouts s1) q"
      by (rule timeout_fire_ok [OF app l s f(2-5)])
    have pass1: "in_pass least a now s1" using s1(2) by (simp add: pass_step_def)
    have d1: "due_from now i' s1 = filter (due now s1) (filter (due now s) ?rest)"
      using s1(3) least by (auto simp: filter_filter intro!: filter_cong)
    then have sub: "subseq (due_from now i' s1) (filter (due now s) ?rest)" by (simp only: subseq_filter_left)
    have "length (due_from now i' s1) < length (due_from now i s)" using list_emb_length [OF sub] by (simp add: d)
    then obtain s' fired where s': "timeout_loop a l now i' s1 = Some s'" "pass_step least a now fired s1 s'"
      "subseq fired (due_from now i' s1)"
      "run_loop s' \<longrightarrow> (\<forall>p \<in> set (due_from now i' s1). p \<in> set fired \<or> marked_at to_remove_me (ml_timeouts s') p)"
      using IH [of i' s1] pass1 by auto
    have "timeout_loop a l now i s = Some s'" using f(1) s1(1) s'(1) by simp
    moreover have "pass_step least a now (p # fired) s s'" using pass_step_trans [OF s1(2) s'(2)] by simp
    moreover have "subseq (p # fired) (due_from now i s)" using subseq_order.trans [OF s'(3) sub] by (simp add: d)
    moreover have "q \<in> set (p # fired) \<or> marked_at to_remove_me (ml_timeouts s') q"
      if "run_loop s'" and q: "q \<in> set (due_from now i s)" for q
    proof (cases "q = p")
      case False
      then have "due now s q" "q \<in> set ?rest" using q d by auto
      then consider "q \<in> set (due_from now i' s1)" | "marked_at to_remove_me (ml_timeouts s1) q"
        using s1(4) False by (auto simp: d1)
      then show ?thesis using s'(4) \<open>run_loop s'\<close> s'(2) by cases (auto simp: pass_step_def)
    qed simp
    ultimately show ?thesis by blast
  qed
qed

lemma timeouts_ok_restrict:
  assumes "timeouts_ok least r" and "velems (rg_vector r') = filter (\<lambda>p. \<not> P p) (velems (rg_vector r))"
    and "rg_objs r' = (\<lambda>p. if P p then None else rg_objs r p)"
  shows "timeouts_ok least r'"
proof -
  have "expire_of (rg_objs r') p = expire_of (rg_objs r) p" if "\<not> P p" for p using that assms(3) by (simp add: expire_of_def)
  then have "cmp_sorted (timeout_compare (rg_objs r')) (velems (rg_vector r'))"
    unfolding assms(2) using assms(1) cmp_sorted_cong [of "filter (\<lambda>p. \<not> P p) (velems (rg_vector r))" "rg_objs r'" "rg_objs r"]
    by (simp add: timeouts_ok_def cmp_sorted_def sorted_wrt_filter)
  then show ?thesis using assms(1,3) by (auto simp: timeouts_ok_def split: if_splits)
qed

text \<open>The end of a pass: what is marked is freed and the processing flag falls.\<close>

lemma timeout_pass_end:
  assumes ok: "ml_ok least s"
  obtains s' where "timeout_cleanup l s = Some s'" and "ml_ok least (s'\<lparr>ml_timeouts := set_processing False (ml_timeouts s')\<rparr>)"
    and "s' = s\<lparr>ml_timeouts := ml_timeouts s'\<rparr>"
    and "rg_objs (ml_timeouts s') = (\<lambda>p. if marked_at to_remove_me (ml_timeouts s) p then None else rg_objs (ml_timeouts s) p)"
proof -
  have o: "reg_ok to_remove_me (ml_next s) (ml_timeouts s)" "timeouts_ok least (ml_timeouts s)" using ok by (simp_all add: ml_ok_def)
  obtain r freed where r: "cleanup l to_remove_me (ml_timeouts s) = Some (r, freed)" "reg_ok to_remove_me (ml_next s) r"
    "rg_pending_deletion r = 0" "velems (rg_vector r) = filter (\<lambda>p. \<not> marked_at to_remove_me (ml_timeouts s) p) (velems (rg_vector (ml_timeouts s)))"
    "rg_objs r = (\<lambda>p. if marked_at to_remove_me (ml_timeouts s) p then None else rg_objs (ml_timeouts s) p)"
    by (rule cleanup_ok [OF o(1)])
  have tok: "timeouts_ok least (set_processing False r)"
    using timeouts_ok_restrict [OF o(2) r(4,5)] by (simp add: timeouts_ok_def set_processing_def)
  have "ml_ok least (s\<lparr>ml_timeouts := set_processing False r\<rparr>)"
    by (rule ml_ok_timeouts [OF ok _ _ tok]) (use r in \<open>simp_all add: reg_settled_def set_processing_def reg_ok_processing [unfolded set_processing_def]\<close>)
  then show thesis
    by (intro that [of "s\<lparr>ml_timeouts := r\<rparr>"]) (use r in \<open>simp_all add: timeout_cleanup_def\<close>)
qed

lemma pass_start:
  assumes ok: "ml_ok least s" and c: "clock_ok a"
  shows "in_pass least a (clock a (ml_reads s))
    (s\<lparr>ml_timeouts := set_processing True (ml_timeouts s), ml_reads := ml_reads s + 1\<rparr>)"
proof -
  have "timeouts_ok least (set_processing True (ml_timeouts s))" using ok by (simp add: ml_ok_def timeouts_ok_def set_processing_def)
  moreover have "reg_settled (set_processing True (ml_timeouts s))" "rg_processing (set_processing True (ml_timeouts s))"
    by (simp_all add: reg_settled_def set_processing_def)
  ultimately show ?thesis using ok c by (simp add: in_pass_def ml_ok_def clock_ok_def)
qed

lemma timeout_process_ok:
  assumes "app_ok least a l" and "0 < least" and "alloc_total l" and "ml_ok least s" and "\<not> rg_processing (ml_timeouts s)"
  obtains s' fired where "sol_mainloop_common_timeout_process a l s = Some s'" and "ml_ok least s'"
    and "\<not> rg_processing (ml_timeouts s')" and "ml_ran s' = ml_ran s @ fired" and "ml_idled s' = ml_idled s"
    and "run_loop s' \<longrightarrow> run_loop s" and "idlers_ext s s'" and "sources_ext s s'"
    and "subseq fired (due_from (clock a (ml_reads s)) 0 s)"
    and "run_loop s' \<longrightarrow> (\<forall>p \<in> set (due_from (clock a (ml_reads s)) 0 s). p \<in> set fired \<or> rg_objs (ml_timeouts s') p = None)"
proof -
  let ?now = "clock a (ml_reads s)"
  define s0 where "s0 = s\<lparr>ml_timeouts := set_processing True (ml_timeouts s), ml_reads := ml_reads s + 1\<rparr>"
  have c: "clock_ok a" using assms(1) by (simp add: app_ok_def)
  have "in_pass least a ?now s0" unfolding s0_def by (rule pass_start [OF assms(4) c])
  from timeout_loop_ok [OF assms(1-3) this, of 0] obtain s1 fired where
    s1: "timeout_loop a l ?now 0 s0 = Some s1" "pass_step least a ?now fired s0 s1" "subseq fired (due_from ?now 0 s0)"
    "run_loop s1 \<longrightarrow> (\<forall>p \<in> set (due_from ?now 0 s0). p \<in> set fired \<or> marked_at to_remove_me (ml_timeouts s1) p)" by blast
  have due: "due_from ?now 0 s0 = due_from ?now 0 s" by (simp add: due_from_def due_def [abs_def] s0_def set_processing_def)
  have "ml_ok least s1" using s1(2) by (simp add: pass_step_def in_pass_def)
  then obtain s2 where s2: "timeout_cleanup l s1 = Some s2" "ml_ok least (s2\<lparr>ml_timeouts := set_processing False (ml_timeouts s2)\<rparr>)"
    "s2 = s1\<lparr>ml_timeouts := ml_timeouts s2\<rparr>"
    "rg_objs (ml_timeouts s2) = (\<lambda>p. if marked_at to_remove_me (ml_timeouts s1) p then None else rg_objs (ml_timeouts s1) p)"
    by (rule timeout_pass_end)
  let ?s = "s2\<lparr>ml_timeouts := set_processing False (ml_timeouts s2)\<rparr>"
  have f: "run_loop s2 = run_loop s1" "ml_ran s2 = ml_ran s1" "ml_idled s2 = ml_idled s1"
    "ml_idlers s2 = ml_idlers s1" "ml_sources s2 = ml_sources s1" by (subst s2(3), simp)+
  have "idlers_ext s ?s" "sources_ext s ?s"
    using s1(2) f by (simp_all add: pass_step_def idlers_ext_def sources_ext_def s0_def)
  moreover have "sol_mainloop_common_timeout_process a l s = Some ?s"
    using s1(1) s2(1) by (simp add: sol_mainloop_common_timeout_process_def get_current_def s0_def)
  moreover have "ml_ran s2 = ml_ran s @ fired" "ml_idled s2 = ml_idled s" "run_loop s2 \<longrightarrow> run_loop s"
    using s1(2) f by (simp_all add: pass_step_def s0_def)
  moreover have "rg_objs (ml_timeouts ?s) = rg_objs (ml_timeouts s2)" "\<not> rg_processing (ml_timeouts ?s)" by (simp_all add: set_processing_def)
  ultimately show thesis
    using s1(3,4) s2(2,4) f due by (intro that [of ?s fired]) auto
qed

text \<open>
  C11. A pass over the timeouts, with a clock that does not go back, allocations that succeed and
  positive periods (no timeout of zero milliseconds exists or is added), whatever legal calls the
  callbacks make: it ends, keeps the invariant (the vector is sorted by expiration and holds every live
  timeout once, nothing freed is used, nothing deleted is left), and the callbacks called are timeouts
  that were due at its start, each once and in the order of their expiration. Unless a callback quits
  the loop, every due timeout was called or is gone. With periods of zero, which the code accepts, a
  pass need not end: \<open>timeout_livelock\<close>.
\<close>

theorem timeout_process_pass:
  assumes "app_ok least a l" and "0 < least" and "alloc_total l" and "ml_ok least s" and "\<not> rg_processing (ml_timeouts s)"
  shows "\<exists>s' fired. sol_mainloop_common_timeout_process a l s = Some s' \<and> ml_ok least s' \<and> \<not> rg_processing (ml_timeouts s') \<and>
    ml_ran s' = ml_ran s @ fired \<and> subseq fired (due_from (clock a (ml_reads s)) 0 s) \<and>
    (run_loop s' \<longrightarrow> (\<forall>p \<in> set (due_from (clock a (ml_reads s)) 0 s). p \<in> set fired \<or> rg_objs (ml_timeouts s') p = None))"
  by (rule timeout_process_ok [OF assms]) blast

text \<open>An application whose callbacks all add another timeout of five milliseconds, with a ticking clock.\<close>

definition demo_app :: app where
  "demo_app = \<lparr>clock = \<lambda>n. \<lparr>tv_sec = int n, tv_nsec = 0\<rparr>, run_timeout = \<lambda>cb s. ([Timeout_add 5 cb], cb = 0),
     run_idler = \<lambda>cb s. ([Timeout_add 5 cb], True), run_prepare = \<lambda>d s. ([], True), run_check = \<lambda>d s. ([], False),
     run_dispatch = \<lambda>d s. [Idle_add d], run_get_next_timeout = \<lambda>d s. ([], None)\<rparr>"

definition demo_state :: mainloop where
  "demo_state = the (do_calls demo_app (libc_total 0) [Timeout_add 1 0, Idle_add 3, Timeout_add 2 1] (mainloop_init\<lparr>run_loop := True\<rparr>))"

lemma demo_app_ok: "app_ok 1 demo_app l"
  by (simp add: app_ok_def demo_app_def clock_ok_def ts_norm_def ts_val_def SOL_UTIL_NSEC_PER_SEC_def split: option.splits)

lemma demo_state_ext: "ml_ext 1 demo_app (mainloop_init\<lparr>run_loop := True\<rparr>) demo_state"
proof -
  have "calls_ok 1 demo_app (libc_total 0) [Timeout_add 1 0, Idle_add 3, Timeout_add 2 1] (mainloop_init\<lparr>run_loop := True\<rparr>)"
    by (simp split: option.splits)
  moreover have "clock_ok demo_app" using demo_app_ok [of "libc_total 0"] by (simp add: app_ok_def)
  moreover have "ml_ok 1 (mainloop_init\<lparr>run_loop := True\<rparr>)" by (simp add: ml_ok_init)
  ultimately obtain s' where
    "do_calls demo_app (libc_total 0) [Timeout_add 1 0, Idle_add 3, Timeout_add 2 1] (mainloop_init\<lparr>run_loop := True\<rparr>) = Some s'"
    "ml_ext 1 demo_app (mainloop_init\<lparr>run_loop := True\<rparr>) s'"
    using do_calls_ok by blast
  then show ?thesis by (simp add: demo_state_def)
qed

lemma demo_state_ok: "ml_ok 1 demo_state" "\<not> rg_processing (ml_timeouts demo_state)" "\<not> rg_processing (ml_idlers demo_state)"
  "\<not> rg_processing (ml_sources demo_state)"
  using demo_state_ext
  by (simp_all add: ml_ext_def timeouts_ext_def idlers_ext_def sources_ext_def mainloop_init_def registry_init_def)

theorem timeout_process_pass_witness:
  "\<exists>s' fired. sol_mainloop_common_timeout_process demo_app (libc_total 0) demo_state = Some s' \<and> ml_ok 1 s' \<and>
    \<not> rg_processing (ml_timeouts s') \<and> ml_ran s' = ml_ran demo_state @ fired \<and>
    subseq fired (due_from (clock demo_app (ml_reads demo_state)) 0 demo_state) \<and>
    (run_loop s' \<longrightarrow> (\<forall>p \<in> set (due_from (clock demo_app (ml_reads demo_state)) 0 demo_state).
       p \<in> set fired \<or> rg_objs (ml_timeouts s') p = None))"
  by (rule timeout_process_pass [OF demo_app_ok _ _ demo_state_ok(1,2)]) simp_all

section \<open>Processing idlers\<close>

definition idler_is :: "idler_status \<Rightarrow> mainloop \<Rightarrow> nat \<Rightarrow> bool" where
  "idler_is st s p \<longleftrightarrow> (\<exists>x. rg_objs (ml_idlers s) p = Some x \<and> id_status x = st)"

text \<open>The idlers from index \<open>i\<close> on that are ready.\<close>

definition ready_from :: "nat \<Rightarrow> mainloop \<Rightarrow> nat list" where
  "ready_from i s = filter (idler_is idler_ready s) (drop i (velems (rg_vector (ml_idlers s))))"

definition in_idling :: "nat \<Rightarrow> mainloop \<Rightarrow> bool" where
  "in_idling least s \<longleftrightarrow> ml_ok least s \<and> rg_processing (ml_idlers s) \<and> \<not> rg_processing (ml_timeouts s)"

text \<open>
  What a part of a pass guarantees: \<open>idled\<close> are the idlers called, the vector only grows, and what is
  deleted stays so.
\<close>

definition idle_step :: "nat \<Rightarrow> nat list \<Rightarrow> mainloop \<Rightarrow> mainloop \<Rightarrow> bool" where
  "idle_step least idled s s' \<longleftrightarrow> in_idling least s' \<and> ml_idled s' = ml_idled s @ idled \<and> (run_loop s' \<longrightarrow> run_loop s) \<and>
     sources_ext s s' \<and> (\<exists>new. velems (rg_vector (ml_idlers s')) = velems (rg_vector (ml_idlers s)) @ new) \<and>
     (\<forall>p. idler_is idler_deleted s p \<longrightarrow> idler_is idler_deleted s' p)"

lemma idle_step_refl: "in_idling least s \<Longrightarrow> idle_step least [] s s"
  by (simp add: idle_step_def ext_same)

lemma idle_step_trans:
  assumes "idle_step least i1 s s1" and "idle_step least i2 s1 s2"
  shows "idle_step least (i1 @ i2) s s2"
  using assms sources_ext_trans [of s s1 s2] unfolding idle_step_def by auto

lemma idlers_ext_deleted: "idlers_ext s s' \<Longrightarrow> rg_processing (ml_idlers s) \<Longrightarrow> idler_is idler_deleted s p \<Longrightarrow> idler_is idler_deleted s' p"
  by (fastforce simp: idlers_ext_def idler_is_def)

text \<open>What callbacks do to the idlers that are still to come.\<close>

lemma idlers_ext_ready:
  assumes e: "idlers_ext s s'" and P: "rg_processing (ml_idlers s)" and i: "i \<le> length (velems (rg_vector (ml_idlers s)))"
    and reg: "reg_ok (\<lambda>x. id_status x = idler_deleted) n (ml_idlers s)"
    and reg': "reg_ok (\<lambda>x. id_status x = idler_deleted) n' (ml_idlers s')"
  shows "ready_from i s' = filter (idler_is idler_ready s') (ready_from i s)"
    and "p \<in> set (ready_from i s) \<Longrightarrow> p \<in> set (ready_from i s') \<or> idler_is idler_deleted s' p"
proof -
  let ?v = "\<lambda>s. velems (rg_vector (ml_idlers s))" and ?o = "\<lambda>s. rg_objs (ml_idlers s)"
  obtain new where new: "?v s' = ?v s @ new" "\<forall>p \<in> set new. \<forall>x. ?o s' p = Some x \<longrightarrow> id_status x \<noteq> idler_ready"
    using e P unfolding idlers_ext_def by blast
  have old: "?o s' p \<in> {Some x, Some (x\<lparr>id_status := idler_deleted\<rparr>)}" if "?o s p = Some x" for p x
    using e P that unfolding idlers_ext_def by blast
  have nr: "filter (idler_is idler_ready s') new = []" using new(2) by (auto simp: filter_empty_conv idler_is_def)
  have "idler_is idler_ready s p" if r: "idler_is idler_ready s' p" and p: "p \<in> set (?v s)" for p
  proof -
    obtain x where x: "?o s p = Some x" using p reg by (auto simp: reg_ok_def)
    from old [OF x] r x show ?thesis by (auto simp: idler_is_def)
  qed
  then have "filter (idler_is idler_ready s') (drop i (?v s)) = filter (idler_is idler_ready s') (ready_from i s)"
    unfolding ready_from_def filter_filter by (intro filter_cong) (auto dest: in_set_dropD)
  then show eq: "ready_from i s' = filter (idler_is idler_ready s') (ready_from i s)"
    using i nr by (simp add: ready_from_def new(1))
  show "p \<in> set (ready_from i s') \<or> idler_is idler_deleted s' p" if p: "p \<in> set (ready_from i s)" for p
  proof -
    obtain x where x: "?o s p = Some x" "id_status x = idler_ready" using p by (auto simp: ready_from_def idler_is_def)
    from old [OF x(1)] x(2) have "idler_is idler_ready s' p \<or> idler_is idler_deleted s' p" by (auto simp: idler_is_def)
    with p show ?thesis by (auto simp: eq)
  qed
qed

lemma set_idler_ok:
  assumes s: "in_idling least s" and i: "i < length (velems (rg_vector (ml_idlers s)))"
    and p: "p = velems (rg_vector (ml_idlers s)) ! i" and x: "rg_objs (ml_idlers s) p = Some x" "id_status x \<noteq> idler_deleted"
  obtains s' where "set_idler p idler_ready s = Some s'" and "idle_step least [] s s'" and "ready_from (i + 1) s' = ready_from (i + 1) s"
    and "velems (rg_vector (ml_idlers s')) = velems (rg_vector (ml_idlers s))"
    and "\<forall>q. q \<noteq> p \<longrightarrow> rg_objs (ml_idlers s') q = rg_objs (ml_idlers s) q" and "idler_is idler_ready s' p"
proof -
  let ?m = "\<lambda>x. id_status x = idler_deleted" and ?r = "ml_idlers s"
  let ?r' = "?r\<lparr>rg_objs := (rg_objs ?r)(p \<mapsto> x\<lparr>id_status := idler_ready\<rparr>)\<rparr>" and ?xs = "velems (rg_vector (ml_idlers s))"
  have ok: "ml_ok least s" and P: "rg_processing ?r" using s by (simp_all add: in_idling_def)
  have reg: "reg_ok ?m (ml_next s) ?r" using ok by (simp add: ml_ok_def)
  have reg': "reg_ok ?m (ml_next s) ?r'" by (rule reg_replace_same [OF reg x(1)]) (use x(2) in simp)
  let ?s = "s\<lparr>ml_idlers := ?r'\<rparr>"
  have ok': "ml_ok least ?s" by (rule ml_ok_idlers [OF ok reg']) (use P in \<open>simp add: reg_settled_def\<close>)
  have "p \<notin> set (drop (i + 1) ?xs)"
    using reg i unfolding p reg_ok_def by (metis Cons_nth_drop_Suc Suc_eq_plus1 distinct.simps(2) distinct_drop)
  then have "ready_from (i + 1) ?s = ready_from (i + 1) s"
    unfolding ready_from_def by (auto simp: idler_is_def intro!: filter_cong split: if_splits)
  moreover have "idle_step least [] s ?s"
    using ok' s x by (auto simp: idle_step_def in_idling_def ext_same idler_is_def)
  ultimately show thesis by (intro that [of ?s]) (use x in \<open>simp_all add: set_idler_def idler_is_def\<close>)
qed

lemma idler_done_ok:
  assumes s: "in_idling least s" and x: "rg_objs (ml_idlers s) p = Some x"
  obtains s' where "idler_done p s = Some s'" and "idle_step least [] s s'" and "idlers_ext s s'"
proof (cases "id_status x = idler_deleted")
  case True
  then show ?thesis
    by (intro that [of s]) (use s x in \<open>simp_all add: idler_done_def idle_step_refl ext_same\<close>)
next
  case False
  let ?u = "\<lambda>x. x\<lparr>id_status := idler_deleted\<rparr>" and ?m = "\<lambda>x. id_status x = idler_deleted" and ?r = "ml_idlers s"
  let ?r' = "?r\<lparr>rg_objs := (rg_objs ?r)(p \<mapsto> ?u x), rg_pending_deletion := rg_pending_deletion ?r + 1\<rparr>"
  have ok: "ml_ok least s" and P: "rg_processing ?r" using s by (simp_all add: in_idling_def)
  have reg: "reg_ok ?m (ml_next s) ?r" using ok by (simp add: ml_ok_def)
  have u: "id_status (?u x) = idler_deleted" by simp
  note m = mark_ok [where marked = ?m and upd = ?u, OF reg x False u]
  let ?s = "s\<lparr>ml_idlers := ?r'\<rparr>"
  have ok': "ml_ok least ?s" by (rule ml_ok_idlers [OF ok m(2)]) (use P in \<open>simp add: reg_settled_def\<close>)
  have "idlers_ext s ?s" using x by (auto simp: idlers_ext_def)
  moreover have "idle_step least [] s ?s" using ok' s x by (auto simp: idle_step_def in_idling_def ext_same idler_is_def)
  ultimately show ?thesis by (intro that [of ?s]) (use m(1) x False in \<open>simp_all add: idler_done_def\<close>)
qed

lemma idle_stepI:
  assumes "ml_ok least s'" and "idlers_ext s s'" and "in_idling least s" and "\<not> rg_processing (ml_timeouts s')"
    and "ml_idled s' = ml_idled s @ idled" and "run_loop s' \<longrightarrow> run_loop s" and "sources_ext s s'"
  shows "idle_step least idled s s'"
proof -
  have "\<exists>new. velems (rg_vector (ml_idlers s')) = velems (rg_vector (ml_idlers s)) @ new" "rg_processing (ml_idlers s')"
    using assms(2,3) by (auto simp: idlers_ext_def in_idling_def)
  then show ?thesis
    using assms idlers_ext_deleted [OF assms(2)] by (simp add: idle_step_def in_idling_def)
qed

lemma idler_fire_ok:
  assumes app: "app_ok least a l" and least: "0 < least" and l: "alloc_total l" and s: "in_idling least s"
    and x: "rg_objs (ml_idlers s) p = Some x"
  obtains s' where "idler_fire a l p x s = Some s'" and "idle_step least [p] s s'" and "idlers_ext s s'"
proof -
  let ?s0 = "s\<lparr>ml_idled := ml_idled s @ [p]\<rparr>"
  have ok: "ml_ok least s" and P: "rg_processing (ml_idlers s)" and np: "\<not> rg_processing (ml_timeouts s)"
    using s by (simp_all add: in_idling_def)
  have c: "clock_ok a" using app by (simp add: app_ok_def)
  obtain cs again where run: "run_idler a (id_cb x) ?s0 = (cs, again)" by fastforce
  have "calls_ok least a l cs ?s0" using app run ok unfolding app_ok_def by (metis fst_conv ml_ok_idled)
  then obtain s1 where s1: "do_calls a l cs ?s0 = Some s1" "ml_ext least a ?s0 s1"
    using do_calls_ok [of least ?s0 a l cs] ok c by auto
  note e = s1(2) [unfolded ml_ext_def]
  have e1: "idlers_ext s s1" "sources_ext s s1" using e by (simp_all add: idlers_ext_def sources_ext_def)
  have np1: "\<not> rg_processing (ml_timeouts s1)" using e np by (simp add: timeouts_ext_def)
  have step1: "idle_step least [p] s s1" using e e1 np1 s by (intro idle_stepI) simp_all
  have in1: "in_idling least s1" using step1 by (simp add: idle_step_def)
  have "rg_objs (ml_idlers s1) p \<in> {Some x, Some (x\<lparr>id_status := idler_deleted\<rparr>)}" using e1(1) P x unfolding idlers_ext_def by blast
  then obtain y where y: "rg_objs (ml_idlers s1) p = Some y" by blast
  obtain s2 where s2: "(if again then Some s1 else idler_done p s1) = Some s2" "idle_step least [] s1 s2" "idlers_ext s1 s2"
  proof (cases again)
    case True
    then show ?thesis using that [of s1] idle_step_refl [OF in1] ext_same(2) by simp
  next
    case False
    obtain s2 where "idler_done p s1 = Some s2" "idle_step least [] s1 s2" "idlers_ext s1 s2" by (rule idler_done_ok [OF in1 y])
    with False that show ?thesis by simp
  qed
  have in2: "in_idling least s2" "ml_ok least s2" "\<not> rg_processing (ml_timeouts s2)" using s2(2) by (simp_all add: idle_step_def in_idling_def)
  obtain s3 fired where s3: "sol_mainloop_common_timeout_process a l s2 = Some s3" "ml_ok least s3" "\<not> rg_processing (ml_timeouts s3)"
    "ml_ran s3 = ml_ran s2 @ fired" "ml_idled s3 = ml_idled s2" "run_loop s3 \<longrightarrow> run_loop s2" "idlers_ext s2 s3" "sources_ext s2 s3"
    by (rule timeout_process_ok [OF app least l in2(2,3)])
  have step3: "idle_step least [] s2 s3" using s3 in2(1) by (intro idle_stepI) simp_all
  have reg1: "reg_ok (\<lambda>x. id_status x = idler_deleted) (ml_next s1) (ml_idlers s1)" using in1 by (simp add: in_idling_def ml_ok_def)
  have reg2: "reg_ok (\<lambda>x. id_status x = idler_deleted) (ml_next s2) (ml_idlers s2)" using in2 by (simp add: ml_ok_def)
  have "idlers_ext s s3" by (rule idlers_ext_trans [OF idlers_ext_trans [OF e1(1) s2(3) reg1] s3(7) reg2])
  moreover have "idle_step least [p] s s3" using idle_step_trans [OF idle_step_trans [OF step1 s2(2)] step3] by simp
  moreover have "idler_fire a l p x s = Some s3" using run s1(1) s2(1) s3(1) by (simp add: idler_fire_def call_idler_def)
  ultimately show thesis using that by blast
qed

lemma idler_loop_ok:
  assumes app: "app_ok least a l" and least: "0 < least" and l: "alloc_total l"
  shows "in_idling least s \<Longrightarrow> i \<le> length (velems (rg_vector (ml_idlers s))) \<Longrightarrow>
    \<exists>s' idled. idler_loop a l i s = Some s' \<and> idle_step least idled s s' \<and> subseq idled (ready_from i s) \<and>
      (run_loop s' \<longrightarrow> (\<forall>p \<in> set (ready_from i s). p \<in> set idled \<or> idler_is idler_deleted s' p))"
proof (induction "UINT16_MAX - i" arbitrary: i s rule: less_induct)
  case (less i s)
  let ?xs = "velems (rg_vector (ml_idlers s))"
  note s = less.prems(1)
  have ok: "ml_ok least s" and P: "rg_processing (ml_idlers s)" using s by (simp_all add: in_idling_def)
  have reg: "reg_ok (\<lambda>x. id_status x = idler_deleted) (ml_next s) (ml_idlers s)" using ok by (simp add: ml_ok_def)
  have len: "length ?xs = vlen (rg_vector (ml_idlers s))" "vlen (rg_vector (ml_idlers s)) \<le> UINT16_MAX"
    using reg_length [OF reg] reg by (simp_all add: reg_ok_def vec_wf_def)
  show ?case
  proof (cases "i < vlen (rg_vector (ml_idlers s)) \<and> run_loop s")
    case False
    then have "idler_loop a l i s = Some s"
    proof (cases "i < vlen (rg_vector (ml_idlers s))")
      case True
      obtain p x where "sol_ptr_vector_get_no_check (rg_vector (ml_idlers s)) i = Some p" by (rule reg_entry [OF reg True])
      then show ?thesis using True False by (simp add: idler_loop.simps sol_mainloop_common_loop_check_def)
    qed (simp add: idler_loop.simps)
    moreover have "run_loop s \<longrightarrow> ready_from i s = []" using False len less.prems(2) by (auto simp: ready_from_def)
    ultimately show ?thesis using idle_step_refl [OF s] by fastforce
  next
    case True
    then have i: "i < vlen (rg_vector (ml_idlers s))" and rl: "run_loop s" by simp_all
    have dec: "UINT16_MAX - (i + 1) < UINT16_MAX - i" using i len by linarith
    obtain p x where p: "sol_ptr_vector_get_no_check (rg_vector (ml_idlers s)) i = Some p" "p = ?xs ! i" "rg_objs (ml_idlers s) p = Some x"
      by (rule reg_entry [OF reg i])
    have il: "i < length ?xs" "i + 1 \<le> length ?xs" using i len by simp_all
    have dr: "drop i ?xs = p # drop (i + 1) ?xs" using il p(2) by (simp add: Cons_nth_drop_Suc)
    show ?thesis
    proof (cases "id_status x = idler_ready")
      case False
      have rf: "ready_from i s = ready_from (i + 1) s" using False p(3) unfolding ready_from_def dr by (simp add: idler_is_def)
      obtain s1 where s1: "(if id_status x = idler_ready_on_next_iteration then set_idler p idler_ready s else Some s) = Some s1"
        "idle_step least [] s s1" "ready_from (i + 1) s1 = ready_from (i + 1) s" "velems (rg_vector (ml_idlers s1)) = ?xs"
      proof (cases "id_status x = idler_ready_on_next_iteration")
        case True
        then have nd: "id_status x \<noteq> idler_deleted" by simp
        show ?thesis by (rule set_idler_ok [OF s il(1) p(2,3) nd]) (use True that in simp)
      next
        case False
        then show ?thesis using that [of s] idle_step_refl [OF s] by simp
      qed
      have "in_idling least s1" using s1(2) by (simp add: idle_step_def)
      from less.hyps [OF dec this] il(2) s1(4) obtain s' idled where
        s': "idler_loop a l (i + 1) s1 = Some s'" "idle_step least idled s1 s'" "subseq idled (ready_from (i + 1) s1)"
        "run_loop s' \<longrightarrow> (\<forall>p \<in> set (ready_from (i + 1) s1). p \<in> set idled \<or> idler_is idler_deleted s' p)" by auto
      have "idler_loop a l i s = Some s'"
        using i p(1,3) rl False s1(1) s'(1) by (simp add: idler_loop.simps [of a l i s] sol_mainloop_common_loop_check_def)
      with s' s1(3) rf idle_step_trans [OF s1(2) s'(2)] show ?thesis by auto
    next
      case True
      have rf: "ready_from i s = p # ready_from (i + 1) s" using True p(3) unfolding ready_from_def dr by (simp add: idler_is_def)
      obtain s1 where s1: "idler_fire a l p x s = Some s1" "idle_step least [p] s s1" "idlers_ext s s1"
        by (rule idler_fire_ok [OF app least l s p(3)])
      have in1: "in_idling least s1" using s1(2) by (simp add: idle_step_def)
      have reg1: "reg_ok (\<lambda>x. id_status x = idler_deleted) (ml_next s1) (ml_idlers s1)" using in1 by (simp add: in_idling_def ml_ok_def)
      note r1 = idlers_ext_ready [OF s1(3) P il(2) reg reg1]
      have il1: "i + 1 \<le> length (velems (rg_vector (ml_idlers s1)))" using s1(2) il(2) by (auto simp: idle_step_def)
      from less.hyps [OF dec in1 il1] obtain s' idled where
        s': "idler_loop a l (i + 1) s1 = Some s'" "idle_step least idled s1 s'" "subseq idled (ready_from (i + 1) s1)"
        "run_loop s' \<longrightarrow> (\<forall>p \<in> set (ready_from (i + 1) s1). p \<in> set idled \<or> idler_is idler_deleted s' p)" by blast
      have "idler_loop a l i s = Some s'"
        using i p(1,3) rl True s1(1) s'(1) by (simp add: idler_loop.simps [of a l i s] sol_mainloop_common_loop_check_def)
      moreover have "subseq (p # idled) (ready_from i s)"
        using subseq_order.trans [OF s'(3) [unfolded r1(1)] subseq_filter_left] by (simp add: rf)
      moreover have "q \<in> set (p # idled) \<or> idler_is idler_deleted s' q" if "run_loop s'" and q: "q \<in> set (ready_from i s)" for q
      proof (cases "q = p")
        case False
        then have "q \<in> set (ready_from (i + 1) s)" using q rf by simp
        then consider "q \<in> set (ready_from (i + 1) s1)" | "idler_is idler_deleted s1 q" using r1(2) by blast
        then show ?thesis using s'(4) \<open>run_loop s'\<close> s'(2) by cases (auto simp: idle_step_def)
      qed simp
      ultimately show ?thesis using idle_step_trans [OF s1(2) s'(2)] by (intro exI [of _ s'] exI [of _ "p # idled"]) auto
    qed
  qed
qed

lemma idlers_ready_loop_ok:
  assumes "in_idling least s" and "i \<le> length (velems (rg_vector (ml_idlers s)))"
  shows "\<exists>s'. idlers_ready_loop i s = Some s' \<and> idle_step least [] s s' \<and>
    velems (rg_vector (ml_idlers s')) = velems (rg_vector (ml_idlers s)) \<and>
    (\<forall>p \<in> set (drop i (velems (rg_vector (ml_idlers s)))). \<not> idler_is idler_ready_on_next_iteration s' p) \<and>
    (\<forall>p. \<not> idler_is idler_ready_on_next_iteration s p \<longrightarrow> \<not> idler_is idler_ready_on_next_iteration s' p)"
  using assms
proof (induction "length (velems (rg_vector (ml_idlers s))) - i" arbitrary: i s)
  case 0
  then have "reg_ok (\<lambda>x. id_status x = idler_deleted) (ml_next s) (ml_idlers s)" by (simp add: in_idling_def ml_ok_def)
  from reg_length [OF this] 0 show ?case by (auto simp: idlers_ready_loop.simps idle_step_refl)
next
  case (Suc k)
  let ?xs = "velems (rg_vector (ml_idlers s))"
  note s = Suc.prems(1)
  have reg: "reg_ok (\<lambda>x. id_status x = idler_deleted) (ml_next s) (ml_idlers s)" using s by (simp add: in_idling_def ml_ok_def)
  have il: "i < length ?xs" using Suc.hyps(2) by linarith
  have i: "i < vlen (rg_vector (ml_idlers s))" using il reg_length [OF reg] by simp
  obtain p x where p: "sol_ptr_vector_get_no_check (rg_vector (ml_idlers s)) i = Some p" "p = ?xs ! i" "rg_objs (ml_idlers s) p = Some x"
    by (rule reg_entry [OF reg i])
  have dr: "drop i ?xs = p # drop (i + 1) ?xs" using il p(2) by (simp add: Cons_nth_drop_Suc)
  obtain s1 where s1: "(if id_status x = idler_ready_on_next_iteration then set_idler p idler_ready s else Some s) = Some s1"
    "idle_step least [] s s1" "velems (rg_vector (ml_idlers s1)) = ?xs" "\<not> idler_is idler_ready_on_next_iteration s1 p"
    "\<forall>q. \<not> idler_is idler_ready_on_next_iteration s q \<longrightarrow> \<not> idler_is idler_ready_on_next_iteration s1 q"
  proof (cases "id_status x = idler_ready_on_next_iteration")
    case True
    then have nd: "id_status x \<noteq> idler_deleted" by simp
    obtain s1 where "set_idler p idler_ready s = Some s1" "idle_step least [] s s1" "velems (rg_vector (ml_idlers s1)) = ?xs"
      "\<forall>q. q \<noteq> p \<longrightarrow> rg_objs (ml_idlers s1) q = rg_objs (ml_idlers s) q" "idler_is idler_ready s1 p"
      by (rule set_idler_ok [OF s il p(2,3) nd])
    moreover from this have "\<not> idler_is idler_ready_on_next_iteration s1 p" by (auto simp: idler_is_def)
    ultimately show ?thesis using that [of s1] True unfolding idler_is_def by metis
  next
    case False
    then show ?thesis using that [of s] idle_step_refl [OF s] p(3) by (auto simp: idler_is_def)
  qed
  have in1: "in_idling least s1" using s1(2) by (simp add: idle_step_def)
  have k: "k = length (velems (rg_vector (ml_idlers s1))) - (i + 1)" using Suc.hyps(2) s1(3) by simp
  from Suc.hyps(1) [OF k in1] il s1(3) obtain s' where
    s': "idlers_ready_loop (i + 1) s1 = Some s'" "idle_step least [] s1 s'" "velems (rg_vector (ml_idlers s')) = ?xs"
    "\<forall>p \<in> set (drop (i + 1) ?xs). \<not> idler_is idler_ready_on_next_iteration s' p"
    "\<forall>p. \<not> idler_is idler_ready_on_next_iteration s1 p \<longrightarrow> \<not> idler_is idler_ready_on_next_iteration s' p" by auto
  have "idlers_ready_loop i s = Some s'" using i p(1,3) s1(1) s'(1) by (simp add: idlers_ready_loop.simps [of i s])
  with s' s1 idle_step_trans [OF s1(2) s'(2)] show ?case by (intro exI [of _ s']) (auto simp: dr)
qed

lemma idler_process_ok:
  assumes "app_ok least a l" and "0 < least" and "alloc_total l" and "ml_ok least s"
    and "\<not> rg_processing (ml_timeouts s)" and "\<not> rg_processing (ml_idlers s)"
  obtains s' idled where "sol_mainloop_common_idler_process a l s = Some s'" and "ml_ok least s'"
    and "\<not> rg_processing (ml_timeouts s')" and "\<not> rg_processing (ml_idlers s')" and "ml_idled s' = ml_idled s @ idled"
    and "sources_ext s s'" and "run_loop s' \<longrightarrow> run_loop s" and "subseq idled (ready_from 0 s)"
    and "run_loop s' \<longrightarrow> (\<forall>p \<in> set (ready_from 0 s). p \<in> set idled \<or> rg_objs (ml_idlers s') p = None)"
    and "\<forall>p x. rg_objs (ml_idlers s') p = Some x \<longrightarrow> id_status x = idler_ready"
proof -
  let ?m = "\<lambda>x. id_status x = idler_deleted"
  define s0 where "s0 = s\<lparr>ml_idlers := set_processing True (ml_idlers s)\<rparr>"
  have "ml_ok least s0"
    unfolding s0_def by (rule ml_ok_idlers [OF assms(4)]) (use assms(4) in \<open>simp_all add: ml_ok_def reg_settled_def set_processing_def reg_ok_processing [unfolded set_processing_def]\<close>)
  then have in0: "in_idling least s0" using assms(5) by (simp add: in_idling_def s0_def set_processing_def)
  have rf: "ready_from 0 s0 = ready_from 0 s" by (simp add: ready_from_def idler_is_def [abs_def] s0_def set_processing_def)
  obtain s1 idled where s1: "idler_loop a l 0 s0 = Some s1" "idle_step least idled s0 s1" "subseq idled (ready_from 0 s0)"
    "run_loop s1 \<longrightarrow> (\<forall>p \<in> set (ready_from 0 s0). p \<in> set idled \<or> idler_is idler_deleted s1 p)"
    using idler_loop_ok [OF assms(1-3) in0, of 0] by auto
  have "in_idling least s1" using s1(2) by (simp add: idle_step_def)
  from idlers_ready_loop_ok [OF this, of 0] obtain s2 where s2: "idlers_ready_loop 0 s1 = Some s2" "idle_step least [] s1 s2"
    "velems (rg_vector (ml_idlers s2)) = velems (rg_vector (ml_idlers s1))"
    "\<forall>p \<in> set (velems (rg_vector (ml_idlers s1))). \<not> idler_is idler_ready_on_next_iteration s2 p" by auto
  have step: "idle_step least idled s0 s2" using idle_step_trans [OF s1(2) s2(2)] by simp
  have ok2: "ml_ok least s2" "\<not> rg_processing (ml_timeouts s2)" using step by (simp_all add: idle_step_def in_idling_def)
  have reg2: "reg_ok ?m (ml_next s2) (ml_idlers s2)" using ok2 by (simp add: ml_ok_def)
  obtain r freed where r: "cleanup l ?m (ml_idlers s2) = Some (r, freed)" "reg_ok ?m (ml_next s2) r" "rg_pending_deletion r = 0"
    "rg_objs r = (\<lambda>p. if marked_at ?m (ml_idlers s2) p then None else rg_objs (ml_idlers s2) p)"
    by (rule cleanup_ok [OF reg2])
  let ?s = "s2\<lparr>ml_idlers := set_processing False r\<rparr>"
  have ok3: "ml_ok least ?s" by (rule ml_ok_idlers [OF ok2(1)])
    (use r in \<open>simp_all add: reg_settled_def set_processing_def reg_ok_processing [unfolded set_processing_def]\<close>)
  have objs: "rg_objs (ml_idlers ?s) = (\<lambda>p. if idler_is idler_deleted s2 p then None else rg_objs (ml_idlers s2) p)"
    using r(4) by (simp add: set_processing_def marked_at_def idler_is_def)
  have "id_status x = idler_ready" if x: "rg_objs (ml_idlers ?s) p = Some x" for p x
  proof -
    have y: "rg_objs (ml_idlers s2) p = Some x" "\<not> idler_is idler_deleted s2 p" using x objs by (auto split: if_splits)
    then have "p \<in> set (velems (rg_vector (ml_idlers s1)))" using reg2 s2(3) by (auto simp: reg_ok_def)
    with s2(4) y show ?thesis by (cases "id_status x") (auto simp: idler_is_def)
  qed
  moreover have "sol_mainloop_common_idler_process a l s = Some ?s"
    using s1(1) s2(1) r(1) by (simp add: sol_mainloop_common_idler_process_def idler_cleanup_def s0_def)
  moreover have "run_loop ?s \<longrightarrow> (\<forall>p \<in> set (ready_from 0 s). p \<in> set idled \<or> rg_objs (ml_idlers ?s) p = None)"
  proof (intro impI ballI)
    fix p
    assume q: "run_loop ?s" "p \<in> set (ready_from 0 s)"
    then have "run_loop s1" using s2(2) by (simp add: idle_step_def)
    with s1(4) q(2) rf consider "p \<in> set idled" | "idler_is idler_deleted s1 p" by auto
    then show "p \<in> set idled \<or> rg_objs (ml_idlers ?s) p = None" using s2(2) objs by cases (auto simp: idle_step_def)
  qed
  moreover have "ml_idled ?s = ml_idled s @ idled" "run_loop ?s \<longrightarrow> run_loop s" using step by (simp_all add: idle_step_def s0_def)
  moreover have "sources_ext s ?s" using step by (simp add: idle_step_def sources_ext_def s0_def)
  moreover have "\<not> rg_processing (ml_idlers ?s)" "\<not> rg_processing (ml_timeouts ?s)" using ok2(2) by (simp_all add: set_processing_def)
  ultimately show thesis using ok3 s1(3) rf by (intro that [of ?s idled]) auto
qed

text \<open>
  C13. A pass over the idlers, with the timeouts that become due in between, under the conditions of a
  pass over the timeouts (positive periods, legal calls, a clock that does not go back, allocations that
  succeed), ends and keeps the invariant; with periods of zero the timeouts in between may run forever
  (\<open>timeout_livelock\<close>). Every idler that was ready is called at most once, in order; one that is added during the
  pass waits for the next one; unless a callback quits the loop every ready idler was called or is
  gone; and afterwards every idler that is left is ready.
\<close>

theorem idler_process_pass:
  assumes "app_ok least a l" and "0 < least" and "alloc_total l" and "ml_ok least s"
    and "\<not> rg_processing (ml_timeouts s)" and "\<not> rg_processing (ml_idlers s)"
  shows "\<exists>s' idled. sol_mainloop_common_idler_process a l s = Some s' \<and> ml_ok least s' \<and>
    \<not> rg_processing (ml_timeouts s') \<and> \<not> rg_processing (ml_idlers s') \<and>
    ml_idled s' = ml_idled s @ idled \<and> subseq idled (ready_from 0 s) \<and>
    (run_loop s' \<longrightarrow> (\<forall>p \<in> set (ready_from 0 s). p \<in> set idled \<or> rg_objs (ml_idlers s') p = None)) \<and>
    (\<forall>p x. rg_objs (ml_idlers s') p = Some x \<longrightarrow> id_status x = idler_ready)"
  by (rule idler_process_ok [OF assms]) blast

theorem idler_process_pass_witness:
  "\<exists>s' idled. sol_mainloop_common_idler_process demo_app (libc_total 0) demo_state = Some s' \<and> ml_ok 1 s' \<and>
    \<not> rg_processing (ml_timeouts s') \<and> \<not> rg_processing (ml_idlers s') \<and>
    ml_idled s' = ml_idled demo_state @ idled \<and> subseq idled (ready_from 0 demo_state) \<and>
    (run_loop s' \<longrightarrow> (\<forall>p \<in> set (ready_from 0 demo_state). p \<in> set idled \<or> rg_objs (ml_idlers s') p = None)) \<and>
    (\<forall>p x. rg_objs (ml_idlers s') p = Some x \<longrightarrow> id_status x = idler_ready)"
  by (rule idler_process_pass [OF demo_app_ok _ _ demo_state_ok(1-3)]) simp_all

section \<open>Event sources\<close>

definition in_sourcing :: "nat \<Rightarrow> mainloop \<Rightarrow> bool" where
  "in_sourcing least s \<longleftrightarrow> ml_ok least s \<and> rg_processing (ml_sources s)"

text \<open>What the visit of a source guarantees.\<close>

definition src_step :: "nat \<Rightarrow> mainloop \<Rightarrow> mainloop \<Rightarrow> bool" where
  "src_step least s s' \<longleftrightarrow> in_sourcing least s' \<and> rg_processing (ml_timeouts s') = rg_processing (ml_timeouts s) \<and>
     rg_processing (ml_idlers s') = rg_processing (ml_idlers s) \<and> (run_loop s' \<longrightarrow> run_loop s) \<and>
     (\<exists>new. velems (rg_vector (ml_sources s')) = velems (rg_vector (ml_sources s)) @ new) \<and>
     (\<forall>p. rg_objs (ml_sources s) p \<noteq> None \<longrightarrow> rg_objs (ml_sources s') p \<noteq> None)"

definition body_ok ::
    "nat \<Rightarrow> (nat \<Rightarrow> sol_mainloop_source_common \<Rightarrow> 'r \<Rightarrow> mainloop \<Rightarrow> ('r \<times> mainloop) option) \<Rightarrow> bool" where
  "body_ok least body \<longleftrightarrow> (\<forall>p x acc s. in_sourcing least s \<and> rg_objs (ml_sources s) p = Some x \<longrightarrow>
     (\<exists>acc' s'. body p x acc s = Some (acc', s') \<and> src_step least s s'))"

lemma src_step_refl: "in_sourcing least s \<Longrightarrow> src_step least s s"
  by (simp add: src_step_def)

lemma src_step_trans: "src_step least s s1 \<Longrightarrow> src_step least s1 s2 \<Longrightarrow> src_step least s s2"
  unfolding src_step_def by auto

lemma src_step_calls:
  assumes app: "app_ok least a l" and s: "in_sourcing least s" and cs: "calls_ok least a l cs s"
  obtains s' where "do_calls a l cs s = Some s'" and "src_step least s s'"
proof -
  have ok: "ml_ok least s" and P: "rg_processing (ml_sources s)" using s by (simp_all add: in_sourcing_def)
  have c: "clock_ok a" using app by (simp add: app_ok_def)
  obtain s' where s': "do_calls a l cs s = Some s'" "ml_ext least a s s'" using do_calls_ok [OF ok c cs] by blast
  note e = s'(2) [unfolded ml_ext_def]
  have se: "sources_ext s s'" using e by blast
  then have "rg_objs (ml_sources s') p \<noteq> None" if "rg_objs (ml_sources s) p \<noteq> None" for p
    using that P by (auto simp: sources_ext_def)
  then have "src_step least s s'"
    using e P by (auto simp: src_step_def in_sourcing_def timeouts_ext_def idlers_ext_def sources_ext_def)
  with s'(1) that show thesis by blast
qed

lemma upd_source_ok:
  assumes s: "in_sourcing least s" and x: "rg_objs (ml_sources s) p \<noteq> None" and f: "\<And>x. src_remove_me (f x) = src_remove_me x"
  obtains s' where "upd_source p f s = Some s'" and "src_step least s s'"
proof -
  obtain y where y: "rg_objs (ml_sources s) p = Some y" using x by blast
  have ok: "ml_ok least s" and P: "rg_processing (ml_sources s)" using s by (simp_all add: in_sourcing_def)
  have reg: "reg_ok src_remove_me (ml_next s) (ml_sources s)" using ok by (simp add: ml_ok_def)
  let ?r = "(ml_sources s)\<lparr>rg_objs := (rg_objs (ml_sources s))(p \<mapsto> f y)\<rparr>"
  have "reg_ok src_remove_me (ml_next s) ?r" by (rule reg_replace_same [OF reg y f])
  then have "ml_ok least (s\<lparr>ml_sources := ?r\<rparr>)" by (intro ml_ok_sources [OF ok]) (use P in \<open>simp_all add: reg_settled_def\<close>)
  then show thesis
    by (intro that [of "s\<lparr>ml_sources := ?r\<rparr>"]) (use y P in \<open>simp_all add: upd_source_def src_step_def in_sourcing_def\<close>)
qed

lemma source_loop_ok:
  assumes body: "body_ok least body"
  shows "in_sourcing least s \<Longrightarrow> \<exists>acc' s'. source_loop stoppable body i acc s = Some (acc', s') \<and> src_step least s s'"
proof (induction "UINT16_MAX - i" arbitrary: i s acc rule: less_induct)
  case (less i s acc)
  let ?r = "ml_sources s"
  note s = less.prems
  have reg: "reg_ok src_remove_me (ml_next s) ?r" using s by (simp add: in_sourcing_def ml_ok_def)
  have len: "vlen (rg_vector ?r) \<le> UINT16_MAX" using reg by (simp add: reg_ok_def vec_wf_def)
  show ?case
  proof (cases "i < vlen (rg_vector ?r)")
    case False
    then show ?thesis using src_step_refl [OF s] by (simp add: source_loop.simps)
  next
    case i: True
    obtain p x where p: "sol_ptr_vector_get_no_check (rg_vector ?r) i = Some p" "rg_objs ?r p = Some x"
      by (rule reg_entry [OF reg i])
    have dec: "UINT16_MAX - (i + 1) < UINT16_MAX - i" using i len by linarith
    consider "stoppable \<and> \<not> run_loop s" | "\<not> (stoppable \<and> \<not> run_loop s)" "src_remove_me x"
      | "\<not> (stoppable \<and> \<not> run_loop s)" "\<not> src_remove_me x" by blast
    then show ?thesis
    proof cases
      case 1
      then show ?thesis using src_step_refl [OF s] i p
        by (simp add: source_loop.simps sol_mainloop_common_loop_check_def)
    next
      case 2
      have eq: "source_loop stoppable body i acc s = source_loop stoppable body (i + 1) acc s"
        using 2 i p by (auto simp: source_loop.simps [of stoppable body i] sol_mainloop_common_loop_check_def)
      show ?thesis unfolding eq by (rule less.hyps [OF dec s])
    next
      case 3
      obtain acc1 s1 where s1: "body p x acc s = Some (acc1, s1)" "src_step least s s1"
        using body s p(2) unfolding body_ok_def by blast
      then have "in_sourcing least s1" by (simp add: src_step_def)
      from less.hyps [OF dec this, of acc1] obtain acc' s' where
        s': "source_loop stoppable body (i + 1) acc1 s1 = Some (acc', s')" "src_step least s1 s'" by blast
      have eq: "source_loop stoppable body i acc s = Some (acc', s')"
        using 3 i p s1(1) s'(1) by (auto simp: source_loop.simps [of stoppable body i] sol_mainloop_common_loop_check_def)
      show ?thesis using eq src_step_trans [OF s1(2) s'(2)] by blast
    qed
  qed
qed

lemma ml_ok_sourcing: "ml_ok least s \<Longrightarrow> ml_ok least (s\<lparr>ml_sources := set_processing True (ml_sources s)\<rparr>)"
  by (rule ml_ok_sources) (simp_all add: ml_ok_def reg_settled_def set_processing_def reg_ok_processing [unfolded set_processing_def])

lemma source_iterate_ok:
  assumes body: "body_ok least body" and ok: "ml_ok least s"
  obtains acc' s' where "source_iterate l stoppable body acc s = Some (acc', s')" and "ml_ok least s'"
    and "\<not> rg_processing (ml_sources s')" and "rg_processing (ml_timeouts s') = rg_processing (ml_timeouts s)"
    and "rg_processing (ml_idlers s') = rg_processing (ml_idlers s)" and "run_loop s' \<longrightarrow> run_loop s"
proof -
  define s0 where "s0 = s\<lparr>ml_sources := set_processing True (ml_sources s)\<rparr>"
  have "ml_ok least s0" unfolding s0_def by (rule ml_ok_sourcing [OF ok])
  then have "in_sourcing least s0" by (simp add: in_sourcing_def s0_def set_processing_def)
  from source_loop_ok [OF body this, of stoppable 0 acc] obtain acc' s1 where
    s1: "source_loop stoppable body 0 acc s0 = Some (acc', s1)" "src_step least s0 s1" by blast
  have ok1: "ml_ok least s1" using s1(2) by (simp add: src_step_def in_sourcing_def)
  then have reg1: "reg_ok src_remove_me (ml_next s1) (ml_sources s1)" by (simp add: ml_ok_def)
  obtain r freed where r: "cleanup l src_remove_me (ml_sources s1) = Some (r, freed)" "reg_ok src_remove_me (ml_next s1) r"
    "rg_pending_deletion r = 0" by (rule cleanup_ok [OF reg1])
  let ?s = "s1\<lparr>ml_sources := set_processing False r, ml_disposed := ml_disposed s1 @ disposed_data freed\<rparr>"
  have "ml_ok least (s1\<lparr>ml_sources := set_processing False r\<rparr>)" by (rule ml_ok_sources [OF ok1])
    (use r in \<open>simp_all add: reg_settled_def set_processing_def reg_ok_processing [unfolded set_processing_def]\<close>)
  then have "ml_ok least ?s" by (simp only: ml_ok_disposed)
  moreover have "source_iterate l stoppable body acc s = Some (acc', ?s)"
    using s1(1) r(1) by (simp add: source_iterate_def source_cleanup_def s0_def)
  moreover have "\<not> rg_processing (ml_sources ?s)" by (simp add: set_processing_def)
  ultimately show thesis using s1(2) by (intro that [of acc' ?s]) (simp_all add: src_step_def s0_def)
qed

lemma src_step_obj: "src_step least s s' \<Longrightarrow> rg_objs (ml_sources s) p = Some x \<Longrightarrow> \<exists>y. rg_objs (ml_sources s') p = Some y"
  unfolding src_step_def by (metis not_None_eq)

lemma app_ok_sources:
  assumes "app_ok least a l" and "in_sourcing least s"
  shows "calls_ok least a l (fst (run_prepare a d s)) s" "calls_ok least a l (fst (run_check a d s)) s"
    "calls_ok least a l (run_dispatch a d s) s" "calls_ok least a l (fst (run_get_next_timeout a d s)) s"
  using assms by (simp_all add: app_ok_def in_sourcing_def)

text \<open>A callback, followed by an update of the source it belongs to.\<close>

lemma calls_then_update:
  assumes app: "app_ok least a l" and s: "in_sourcing least s" and x: "rg_objs (ml_sources s) p = Some x"
    and cs: "calls_ok least a l cs s" and f: "\<And>x. src_remove_me (f x) = src_remove_me x"
  obtains s1 y s2 where "do_calls a l cs s = Some s1" and "rg_objs (ml_sources s1) p = Some y" and "src_step least s s1"
    and "upd_source p f s1 = Some s2" and "src_step least s s2"
proof -
  obtain s1 where s1: "do_calls a l cs s = Some s1" "src_step least s s1" by (rule src_step_calls [OF app s cs])
  have in1: "in_sourcing least s1" using s1(2) by (simp add: src_step_def)
  obtain y where y: "rg_objs (ml_sources s1) p = Some y" using src_step_obj [OF s1(2) x] by blast
  obtain s2 where s2: "upd_source p f s1 = Some s2" "src_step least s1 s2"
    by (rule upd_source_ok [OF in1 _ f, of p]) (use y in auto)
  show thesis by (rule that [OF s1(1) y s1(2) s2(1) src_step_trans [OF s1(2) s2(2)]])
qed

lemma bodies_ok:
  assumes app: "app_ok least a l"
  shows "body_ok least (prepare_body a l)" "body_ok least (check_body a l)" "body_ok least (dispatch_body a l)"
    "body_ok least (next_timeout_body a l)"
proof -
  note calls = app_ok_sources [OF app]
  have f: "src_remove_me (x\<lparr>src_ready := b\<rparr>) = src_remove_me x" for x b by simp
  show "body_ok least (prepare_body a l)" unfolding body_ok_def
  proof (intro allI impI, elim conjE)
    fix p x acc s
    assume s: "in_sourcing least s" "rg_objs (ml_sources s) p = Some x"
    obtain cs r where run: "run_prepare a (src_data x) s = (cs, r)" by fastforce
    have cs: "calls_ok least a l cs s" using calls(1) [OF s(1), of "src_data x"] run by simp
    obtain s1 y s2 where c: "do_calls a l cs s = Some s1" "upd_source p (\<lambda>x. x\<lparr>src_ready := r\<rparr>) s1 = Some s2" "src_step least s s2"
      by (rule calls_then_update [OF app s cs f])
    obtain s3 where u: "upd_source p (\<lambda>x. x\<lparr>src_ready := False\<rparr>) s = Some s3" "src_step least s s3"
      by (rule upd_source_ok [OF s(1) _ f, of p]) (use s(2) in auto)
    show "\<exists>acc' s'. prepare_body a l p x acc s = Some (acc', s') \<and> src_step least s s'"
      using run c u by (simp add: prepare_body_def)
  qed
  show "body_ok least (check_body a l)" unfolding body_ok_def
  proof (intro allI impI, elim conjE)
    fix p x acc s
    assume s: "in_sourcing least s" "rg_objs (ml_sources s) p = Some x"
    obtain cs r where run: "run_check a (src_data x) s = (cs, r)" by fastforce
    have cs: "calls_ok least a l cs s" using calls(2) [OF s(1), of "src_data x"] run by simp
    obtain s1 where s1: "do_calls a l cs s = Some s1" "src_step least s s1" by (rule src_step_calls [OF app s(1) cs])
    obtain y where y: "rg_objs (ml_sources s1) p = Some y" using src_step_obj [OF s1(2) s(2)] by blast
    have in1: "in_sourcing least s1" using s1(2) by (simp add: src_step_def)
    obtain s2 where "upd_source p (\<lambda>x. x\<lparr>src_ready := src_ready y \<or> r\<rparr>) s1 = Some s2" "src_step least s1 s2"
      by (rule upd_source_ok [OF in1 _ f, of p]) (use y in auto)
    then show "\<exists>acc' s'. check_body a l p x acc s = Some (acc', s') \<and> src_step least s s'"
      using run s1 y src_step_trans [OF s1(2)] by (simp add: check_body_def)
  qed
  show "body_ok least (dispatch_body a l)" unfolding body_ok_def
  proof (intro allI impI, elim conjE)
    fix p x acc s
    assume s: "in_sourcing least s" "rg_objs (ml_sources s) p = Some x"
    obtain s1 y s2 where "do_calls a l (run_dispatch a (src_data x) s) s = Some s1"
      "upd_source p (\<lambda>x. x\<lparr>src_ready := False\<rparr>) s1 = Some s2" "src_step least s s2"
      by (rule calls_then_update [OF app s calls(3) [OF s(1)] f])
    then show "\<exists>acc' s'. dispatch_body a l p x acc s = Some (acc', s') \<and> src_step least s s'"
      using src_step_refl [OF s(1)] by (simp add: dispatch_body_def)
  qed
  show "body_ok least (next_timeout_body a l)" unfolding body_ok_def
  proof (intro allI impI, elim conjE)
    fix p x acc s
    assume s: "in_sourcing least s" "rg_objs (ml_sources s) p = Some x"
    obtain cs r where run: "run_get_next_timeout a (src_data x) s = (cs, r)" by fastforce
    have cs: "calls_ok least a l cs s" using calls(4) [OF s(1), of "src_data x"] run by simp
    obtain s1 where s1: "do_calls a l cs s = Some s1" "src_step least s s1" by (rule src_step_calls [OF app s(1) cs])
    then show "\<exists>acc' s'. next_timeout_body a l p x acc s = Some (acc', s') \<and> src_step least s s'"
      using run src_step_refl [OF s(1)] by (simp add: next_timeout_body_def)
  qed
qed

section \<open>Everything the main loop goes through\<close>

text \<open>
  A step: a legal call from outside the callbacks, a pass over the timeouts or the idlers, or one of
  the passes over the sources.
\<close>

inductive ml_step :: "nat \<Rightarrow> app \<Rightarrow> nat libc \<Rightarrow> mainloop \<Rightarrow> mainloop \<Rightarrow> bool" for least a l where
  step_call: "call_ok least c s \<Longrightarrow> do_call a l c s = Some s' \<Longrightarrow> ml_step least a l s s'"
| step_run: "ml_step least a l s (sol_mainloop_common_loop_set b s)"
| step_timeouts: "sol_mainloop_common_timeout_process a l s = Some s' \<Longrightarrow> ml_step least a l s s'"
| step_idlers: "sol_mainloop_common_idler_process a l s = Some s' \<Longrightarrow> ml_step least a l s s'"
| step_prepare: "sol_mainloop_common_source_prepare a l s = Some (ready, s') \<Longrightarrow> ml_step least a l s s'"
| step_next_timeout: "sol_mainloop_common_source_get_next_timeout a l s = Some (ts, s') \<Longrightarrow> ml_step least a l s s'"
| step_check: "sol_mainloop_common_source_check a l s = Some (ready, s') \<Longrightarrow> ml_step least a l s s'"
| step_dispatch: "sol_mainloop_common_source_dispatch a l s = Some (u, s') \<Longrightarrow> ml_step least a l s s'"

definition ml_idle :: "nat \<Rightarrow> mainloop \<Rightarrow> bool" where
  "ml_idle least s \<longleftrightarrow> ml_ok least s \<and> \<not> rg_processing (ml_timeouts s) \<and> \<not> rg_processing (ml_idlers s) \<and> \<not> rg_processing (ml_sources s)"

lemma sources_pass_ok:
  assumes "body_ok least body" and "ml_idle least s"
  shows "\<exists>r s'. source_iterate l stoppable body acc s = Some (r, s') \<and> ml_idle least s'"
proof -
  have ok: "ml_ok least s" using assms(2) by (simp add: ml_idle_def)
  show ?thesis
    by (rule source_iterate_ok [OF assms(1) ok, of l stoppable acc]) (use assms(2) in \<open>auto simp: ml_idle_def\<close>)
qed

lemma idle_defined:
  assumes app: "app_ok least a l" and least: "0 < least" and l: "alloc_total l" and s: "ml_idle least s"
  shows "call_ok least c s \<Longrightarrow> \<exists>s'. do_call a l c s = Some s' \<and> ml_idle least s'"
    and "\<exists>s'. sol_mainloop_common_timeout_process a l s = Some s' \<and> ml_idle least s'"
    and "\<exists>s'. sol_mainloop_common_idler_process a l s = Some s' \<and> ml_idle least s'"
    and "\<exists>r s'. sol_mainloop_common_source_prepare a l s = Some (r, s') \<and> ml_idle least s'"
    and "\<exists>r s'. sol_mainloop_common_source_get_next_timeout a l s = Some (r, s') \<and> ml_idle least s'"
    and "\<exists>r s'. sol_mainloop_common_source_check a l s = Some (r, s') \<and> ml_idle least s'"
    and "\<exists>r s'. sol_mainloop_common_source_dispatch a l s = Some (r, s') \<and> ml_idle least s'"
proof -
  have ok: "ml_ok least s" and np: "\<not> rg_processing (ml_timeouts s)" "\<not> rg_processing (ml_idlers s)" "\<not> rg_processing (ml_sources s)"
    using s by (simp_all add: ml_idle_def)
  have c: "clock_ok a" using app by (simp add: app_ok_def)
  show "\<exists>s'. do_call a l c s = Some s' \<and> ml_idle least s'" if "call_ok least c s"
    using do_call_ok [OF ok c that, of l] np
    by (auto simp: ml_idle_def ml_ext_def timeouts_ext_def idlers_ext_def sources_ext_def)
  show "\<exists>s'. sol_mainloop_common_timeout_process a l s = Some s' \<and> ml_idle least s'"
    by (rule timeout_process_ok [OF app least l ok np(1)]) (use np in \<open>auto simp: ml_idle_def idlers_ext_def sources_ext_def\<close>)
  show "\<exists>s'. sol_mainloop_common_idler_process a l s = Some s' \<and> ml_idle least s'"
    by (rule idler_process_ok [OF app least l ok np(1,2)]) (use np in \<open>auto simp: ml_idle_def sources_ext_def\<close>)
  note b = bodies_ok [OF app]
  show "\<exists>r s'. sol_mainloop_common_source_prepare a l s = Some (r, s') \<and> ml_idle least s'"
    "\<exists>r s'. sol_mainloop_common_source_get_next_timeout a l s = Some (r, s') \<and> ml_idle least s'"
    "\<exists>r s'. sol_mainloop_common_source_check a l s = Some (r, s') \<and> ml_idle least s'"
    "\<exists>r s'. sol_mainloop_common_source_dispatch a l s = Some (r, s') \<and> ml_idle least s'"
    using sources_pass_ok [OF b(1) s] sources_pass_ok [OF b(4) s] sources_pass_ok [OF b(2) s] sources_pass_ok [OF b(3) s]
    by (simp_all add: sol_mainloop_common_source_prepare_def sol_mainloop_common_source_get_next_timeout_def
        sol_mainloop_common_source_check_def sol_mainloop_common_source_dispatch_def)
qed

lemma ml_step_idle:
  assumes "ml_step least a l s s'" and "app_ok least a l" and "0 < least" and "alloc_total l" and "ml_idle least s"
  shows "ml_idle least s'"
  using assms(1)
proof cases
  case step_run
  then show ?thesis using assms(5) by (simp add: ml_idle_def sol_mainloop_common_loop_set_def)
qed (use idle_defined [OF assms(2-5)] in force)+

text \<open>
  C12. In every state the main loop can reach from its start, with an application whose callbacks
  only make legal calls and whose timeouts have positive periods (none of zero milliseconds, which the
  code accepts and with which a pass may run forever, \<open>timeout_livelock\<close>), with a clock that does not go
  back and allocations that succeed: the timeouts are sorted by
  expiration, every live timeout, idler and source is in its vector exactly once, no deleted object is
  left behind, and every pass is defined, so no freed object is ever accessed and none of the loops
  runs forever.
\<close>

theorem mainloop_invariant:
  assumes "(ml_step least a l)\<^sup>*\<^sup>* mainloop_init s" and "app_ok least a l" and "0 < least" and "alloc_total l"
  shows "ml_ok least s \<and> rg_pending_deletion (ml_timeouts s) = 0 \<and> rg_pending_deletion (ml_idlers s) = 0 \<and>
    rg_pending_deletion (ml_sources s) = 0 \<and>
    sol_mainloop_common_timeout_process a l s \<noteq> None \<and> sol_mainloop_common_idler_process a l s \<noteq> None \<and>
    sol_mainloop_common_source_prepare a l s \<noteq> None \<and> sol_mainloop_common_source_get_next_timeout a l s \<noteq> None \<and>
    sol_mainloop_common_source_check a l s \<noteq> None \<and> sol_mainloop_common_source_dispatch a l s \<noteq> None"
proof -
  have "ml_idle least s"
    using assms(1)
  proof induction
    case base
    then show ?case using ml_ok_init by (simp add: ml_idle_def mainloop_init_def registry_init_def)
  next
    case (step s s')
    show ?case by (rule ml_step_idle [OF step(2) assms(2-4) step(3)])
  qed
  then show ?thesis
    using idle_defined [OF assms(2-4), of s] by (auto simp: ml_idle_def ml_ok_def reg_settled_def)
qed

theorem mainloop_invariant_witness: "ml_ok 1 (sol_mainloop_common_loop_set True mainloop_init)"
proof -
  have "(ml_step 1 demo_app (libc_total 0))\<^sup>*\<^sup>* mainloop_init (sol_mainloop_common_loop_set True mainloop_init)"
    by (intro r_into_rtranclp step_run)
  from mainloop_invariant [OF this demo_app_ok] show ?thesis by simp
qed

section \<open>A pass that never ends\<close>

text \<open>Two timeouts without a period, both due.\<close>

definition two_zero_timeouts :: "timespec \<Rightarrow> mainloop \<Rightarrow> bool" where
  "two_zero_timeouts now s \<longleftrightarrow> run_loop s \<and> (\<exists>p q t u. velems (rg_vector (ml_timeouts s)) = [p, q] \<and>
     rg_objs (ml_timeouts s) p = Some t \<and> rg_objs (ml_timeouts s) q = Some u \<and> \<not> to_remove_me t \<and> \<not> to_remove_me u \<and>
     to_timeout t = period_of 0 \<and> to_timeout u = period_of 0 \<and> ts_val (to_expire t) \<le> ts_val now \<and> ts_val (to_expire u) \<le> ts_val now)"

definition restless :: "app \<Rightarrow> bool" where
  "restless a \<longleftrightarrow> (\<forall>cb s. run_timeout a cb s = ([], True))"

lemma two_zero_timeouts_fire:
  assumes a: "restless a" and l: "alloc_total l" and s: "in_pass 0 a now s" and z: "two_zero_timeouts now s"
  obtains p t s' where "sol_ptr_vector_get (rg_vector (ml_timeouts s)) 0 = Some p" and "0 < vlen (rg_vector (ml_timeouts s))"
    and "rg_objs (ml_timeouts s) p = Some t" and "\<not> to_remove_me t" and "ts_norm (to_expire t)" and "ts_val (to_expire t) \<le> ts_val now"
    and "timeout_fire a l now 0 p t s = Some (Inr 0, s')" and "in_pass 0 a now s'" and "two_zero_timeouts now s'"
proof -
  obtain p q t u where v: "velems (rg_vector (ml_timeouts s)) = [p, q]" and run: "run_loop s"
    and o: "rg_objs (ml_timeouts s) p = Some t" "rg_objs (ml_timeouts s) q = Some u" "\<not> to_remove_me t" "\<not> to_remove_me u"
      "to_timeout t = period_of 0" "to_timeout u = period_of 0" "ts_val (to_expire t) \<le> ts_val now" "ts_val (to_expire u) \<le> ts_val now"
    using z unfolding two_zero_timeouts_def by blast
  let ?s1 = "s\<lparr>ml_ran := ml_ran s @ [p]\<rparr>"
  have reg: "reg_ok to_remove_me (ml_next s) (ml_timeouts s)" and tok: "timeouts_ok 0 (ml_timeouts s)" and norm: "ts_norm now"
    using s by (simp_all add: in_pass_def ml_ok_def)
  have len: "vlen (rg_vector (ml_timeouts s)) = 2" using reg_length [OF reg] v by simp
  have pq: "p \<noteq> q" using reg v by (simp add: reg_ok_def)
  have nt: "ts_norm (to_expire t)" "ts_norm (to_expire u)" using tok o(1,2) by (auto simp: timeouts_ok_def)
  have pass1: "in_pass 0 a now ?s1" using s by (simp add: in_pass_def)
  have i: "0 < vlen (rg_vector (ml_timeouts ?s1))" and p0: "p = velems (rg_vector (ml_timeouts ?s1)) ! 0"
    and o1: "rg_objs (ml_timeouts ?s1) p = Some t" using len v o(1) by simp_all
  obtain k s2 where s2: "timeout_again l now 0 p ?s1 = Some (Inr k, s2)" "pass_step 0 a now [] ?s1 s2"
    "rg_objs (ml_timeouts s2) = (rg_objs (ml_timeouts ?s1))(p \<mapsto> t\<lparr>to_expire := sol_util_timespec_add now (to_timeout t)\<rparr>)"
    "velems (rg_vector (ml_timeouts s2)) = take 0 (velems (rg_vector (ml_timeouts ?s1))) @
      insert_after_equals (timeout_compare (rg_objs (ml_timeouts s2))) p (drop (0 + 1) (velems (rg_vector (ml_timeouts ?s1))))"
    "k = 0 + length (takeWhile (\<lambda>y. 0 \<le> timeout_compare (rg_objs (ml_timeouts s2)) p y)
      (drop (0 + 1) (velems (rg_vector (ml_timeouts ?s1)))))"
    by (rule timeout_again_ok [OF l pass1 i p0 o1 o(7)])
  let ?t = "t\<lparr>to_expire := sol_util_timespec_add now (to_timeout t)\<rparr>"
  have tv: "ts_norm (to_expire ?t)" "ts_val (to_expire ?t) = ts_val now"
    using timespec_add_val [OF norm period_of_val(1), of 0] o(5) by (simp_all add: period_of_val(2))
  have "0 \<le> timeout_compare (rg_objs (ml_timeouts s2)) p q"
    using tv nt(2) o(2,8) pq by (simp add: timeout_compare_def expire_of_def s2(3) timespec_compare_val)
  then have v2: "velems (rg_vector (ml_timeouts s2)) = [q, p]" and k: "k = 1"
    using s2(4,5) v by (simp_all add: insert_after_equals_def)
  have run2: "run_loop s2"
  proof -
    have "timeout_again l now 0 p ?s1 = Some (Inr k, s2) \<Longrightarrow> run_loop s2 = run_loop ?s1"
      by (auto simp: timeout_again_def bind_eq_Some_conv Let_def)
    with s2(1) run show ?thesis by simp
  qed
  have "two_zero_timeouts now s2"
    unfolding two_zero_timeouts_def
    by (intro conjI run2 exI [of _ q] exI [of _ p] exI [of _ u] exI [of _ ?t]) (use v2 s2(3) o pq tv in simp_all)
  moreover have "in_pass 0 a now s2" using s2(2) by (simp add: pass_step_def)
  moreover have "timeout_fire a l now 0 p t s = Some (Inr 0, s2)"
    using a s2(1) k by (simp add: timeout_fire_def call_timeout_def restless_def)
  moreover have "sol_ptr_vector_get (rg_vector (ml_timeouts s)) 0 = Some p"
    using reg len v by (simp add: sol_ptr_vector_get_def reg_ok_def)
  ultimately show thesis using that [of p t s2] len o(1,3,7) nt(1) by simp
qed

lemma timeout_loop_restless:
  assumes a: "restless a" and l: "alloc_total l" and "timeout_loop a l now i s = Some s'"
  shows "\<not> (i = 0 \<and> in_pass 0 a now s \<and> two_zero_timeouts now s)"
proof -
  let ?P = "\<lambda>b m n i s s'. b = a \<and> m = l \<and> n = now \<longrightarrow> \<not> (i = 0 \<and> in_pass 0 a now s \<and> two_zero_timeouts now s)"
  have "?P a l now i s s'"
  proof (rule timeout_loop.raw_induct [where P = ?P, OF _ assms(3)])
    fix loop :: "app \<Rightarrow> nat libc \<Rightarrow> timespec \<Rightarrow> nat \<Rightarrow> mainloop \<Rightarrow> mainloop option" and b m n i s s'
    assume IH: "\<And>b m n i s s'. loop b m n i s = Some s' \<Longrightarrow> ?P b m n i s s'"
      and body: "(if i < vlen (rg_vector (ml_timeouts s)) then do {
        p \<leftarrow> sol_ptr_vector_get (rg_vector (ml_timeouts s)) i;
        (if \<not> sol_mainloop_common_loop_check s then Some s
         else do {
           t \<leftarrow> rg_objs (ml_timeouts s) p;
           (if to_remove_me t then loop b m n (i + 1) s
            else if sol_util_timespec_compare (to_expire t) n > 0 then Some s
            else do {
              (r, s) \<leftarrow> timeout_fire b m n i p t s;
              (case r of Inl _ \<Rightarrow> Some s | Inr i \<Rightarrow> loop b m n i s)
            })
         })
      } else Some s) = Some s'"
    show "?P b m n i s s'"
    proof (intro impI notI)
      assume eq: "b = a \<and> m = l \<and> n = now" and z: "i = 0 \<and> in_pass 0 a now s \<and> two_zero_timeouts now s"
      then have "ts_norm now" "run_loop s" by (simp_all add: in_pass_def two_zero_timeouts_def)
      obtain p t s1 where f: "sol_ptr_vector_get (rg_vector (ml_timeouts s)) 0 = Some p" "0 < vlen (rg_vector (ml_timeouts s))"
        "rg_objs (ml_timeouts s) p = Some t" "\<not> to_remove_me t" "ts_norm (to_expire t)" "ts_val (to_expire t) \<le> ts_val now"
        "timeout_fire a l now 0 p t s = Some (Inr 0, s1)" "in_pass 0 a now s1" "two_zero_timeouts now s1"
        by (rule two_zero_timeouts_fire [OF a l, of now s]) (use z in auto)
      have "loop a l now 0 s1 = Some s'"
        using body eq z f \<open>ts_norm now\<close> \<open>run_loop s\<close> by (simp add: sol_mainloop_common_loop_check_def timespec_compare_val)
      from IH [OF this] f(8,9) show False by simp
    qed
  qed
  then show ?thesis by simp
qed

text \<open>
  C40. Two timeouts with a period of zero whose callbacks keep asking to run again stop the main
  loop: the pass over the timeouts never ends, because each of them expires again at the time the pass
  started with and is put behind the other one.
\<close>

theorem timeout_livelock:
  assumes "restless a" and "alloc_total l" and "clock_ok a" and "ml_ok 0 s" and "two_zero_timeouts (clock a (ml_reads s)) s"
  shows "sol_mainloop_common_timeout_process a l s = None"
proof -
  let ?now = "clock a (ml_reads s)"
  define s0 where "s0 = s\<lparr>ml_timeouts := set_processing True (ml_timeouts s), ml_reads := ml_reads s + 1\<rparr>"
  have "in_pass 0 a ?now s0" unfolding s0_def by (rule pass_start [OF assms(4,3)])
  moreover have "two_zero_timeouts ?now s0" using assms(5) by (simp add: two_zero_timeouts_def s0_def set_processing_def)
  ultimately have "timeout_loop a l ?now 0 s0 = None"
    using timeout_loop_restless [OF assms(1,2), of ?now 0 s0] by (cases "timeout_loop a l ?now 0 s0") auto
  then show ?thesis by (simp add: sol_mainloop_common_timeout_process_def get_current_def s0_def)
qed

definition restless_app :: app where
  "restless_app = demo_app\<lparr>run_timeout := \<lambda>cb s. ([], True)\<rparr>"

definition zero_timeout :: sol_timeout_common where
  "zero_timeout = \<lparr>to_timeout = period_of 0, to_expire = \<lparr>tv_sec = 0, tv_nsec = 0\<rparr>, to_cb = 0, to_remove_me = False\<rparr>"

definition restless_state :: mainloop where
  "restless_state = mainloop_init\<lparr>run_loop := True, ml_next := 3,
     ml_timeouts := \<lparr>rg_vector = \<lparr>vdata = Some [1, 2], vlen = 2, velem_size = 8\<rparr>,
       rg_objs = [1 \<mapsto> zero_timeout, 2 \<mapsto> zero_timeout], rg_pending_deletion = 0, rg_processing = False\<rparr>\<rparr>"

lemma restless_state_ok: "ml_ok 0 restless_state"
proof -
  let ?r = "ml_timeouts restless_state"
  have v: "rg_vector ?r = \<lparr>vdata = Some [1, 2], vlen = 2, velem_size = 8\<rparr>" "rg_pending_deletion ?r = 0"
    "rg_objs ?r = [1 \<mapsto> zero_timeout, 2 \<mapsto> zero_timeout]" by (simp_all add: restless_state_def)
  then have e: "velems (rg_vector ?r) = [1, 2]" by (simp add: velems_def vblock_def)
  have "align_power2_short_uint 2 = 2"
    by (simp add: align_power2_short_uint_def align_power2_uint_def align_power2_w_def clz_def bit_len.simps UINT16_MAX_def)
  then have "vec_wf (rg_vector ?r)" "vec_small (rg_vector ?r)"
    by (simp_all add: v vec_wf_def vec_small_def vblock_def UINT16_MAX_def INT_MAX_def)
  moreover have "\<not> marked_at to_remove_me ?r p" for p by (simp add: marked_at_def v zero_timeout_def)
  ultimately have "reg_ok to_remove_me 3 ?r" by (auto simp: reg_ok_def e v(2,3))
  moreover have "timeouts_ok 0 ?r"
    by (auto simp: timeouts_ok_def e v(2,3) cmp_sorted_def timeout_compare_def expire_of_def zero_timeout_def ts_norm_def
        SOL_UTIL_NSEC_PER_SEC_def sol_util_timespec_compare_def split: if_splits)
  ultimately show ?thesis
    by (simp add: ml_ok_def reg_settled_def restless_state_def mainloop_init_def registry_init_def
        reg_ok_init [unfolded registry_init_def])
qed

theorem timeout_livelock_witness: "sol_mainloop_common_timeout_process restless_app (libc_total 0) restless_state = None"
proof (rule timeout_livelock)
  show "clock_ok restless_app" using demo_app_ok [of "libc_total 0"] by (simp add: app_ok_def restless_app_def clock_ok_def)
  show "two_zero_timeouts (clock restless_app (ml_reads restless_state)) restless_state"
    by (simp add: two_zero_timeouts_def restless_state_def velems_def vblock_def zero_timeout_def restless_app_def demo_app_def
        mainloop_init_def ts_val_def)
qed (simp_all add: restless_def restless_app_def restless_state_ok)

section \<open>How long the loop may sleep\<close>

lemma source_loop_inv:
  assumes body: "\<And>p x acc s acc' s'. body p x acc s = Some (acc', s') \<Longrightarrow> Q acc s \<Longrightarrow> Q acc' s'"
    and "source_loop stoppable body i acc s = Some res" and "Q acc s"
  shows "Q (fst res) (snd res)"
proof -
  let ?P = "\<lambda>st b i acc s res. b = body \<longrightarrow> Q acc s \<longrightarrow> Q (fst res) (snd res)"
  have "?P stoppable body i acc s res"
  proof (rule source_loop.raw_induct [where P = ?P, OF _ assms(2)], intro impI)
    fix loop st b i acc s res
    assume IH: "\<And>st b i acc s res. loop st b i acc s = Some res \<Longrightarrow> ?P st b i acc s res"
      and run: "(if i < vlen (rg_vector (ml_sources s)) then do {
        p \<leftarrow> sol_ptr_vector_get_no_check (rg_vector (ml_sources s)) i;
        (if st \<and> \<not> sol_mainloop_common_loop_check s then Some (acc, s)
         else do {
           x \<leftarrow> rg_objs (ml_sources s) p;
           (if src_remove_me x then loop st b (i + 1) acc s
            else do { (acc, s) \<leftarrow> b p x acc s; loop st b (i + 1) acc s })
         })
      } else Some (acc, s)) = Some res" and b: "b = body" and q: "Q acc s"
    from run q body show "Q (fst res) (snd res)"
      by (auto simp: b bind_eq_Some_conv split: if_splits dest!: IH)
  qed
  then show ?thesis using assms(3) by simp
qed

lemma clamp_ok: "ts_norm t \<Longrightarrow> ts_norm (clamp t) \<and> 0 \<le> ts_val (clamp t) \<and> ts_val (clamp t) = max 0 (ts_val t)"
  by (auto simp: clamp_def ts_norm_def ts_val_def SOL_UTIL_NSEC_PER_SEC_def)

text \<open>
  The sources' callbacks that say how long the loop may wait, when they delete no timeout and answer with
  normalised times; they may make any other call.
\<close>

definition sparing_sources :: "app \<Rightarrow> bool" where
  "sparing_sources a \<longleftrightarrow> (\<forall>d s. (\<forall>p. Timeout_del p \<notin> set (fst (run_get_next_timeout a d s))) \<and>
     (\<forall>t. snd (run_get_next_timeout a d s) = Some t \<longrightarrow> ts_norm t))"

definition timeouts_stay :: "mainloop \<Rightarrow> mainloop \<Rightarrow> bool" where
  "timeouts_stay s s' \<longleftrightarrow> rg_objs (ml_timeouts s) \<subseteq>\<^sub>m rg_objs (ml_timeouts s') \<and> ml_reads s \<le> ml_reads s'"

lemma timeouts_stay_trans: "timeouts_stay s s1 \<Longrightarrow> timeouts_stay s1 s2 \<Longrightarrow> timeouts_stay s s2"
  by (auto simp: timeouts_stay_def intro: map_le_trans)

lemma add_stays:
  "sol_mainloop_impl_idle_add l cb s = Some (p, s') \<Longrightarrow> timeouts_stay s s'"
  "sol_mainloop_impl_source_add l type data s = Some (p, s') \<Longrightarrow> timeouts_stay s s'"
proof -
  assume a: "sol_mainloop_impl_idle_add l cb s = Some (p, s')"
  show "timeouts_stay s s'"
  proof (cases "sol_ptr_vector_append l (rg_vector (ml_idlers s)) (ml_next s)")
    case None
    with a show ?thesis by (auto simp: sol_mainloop_impl_idle_add_def timeouts_stay_def Let_def split: if_split_asm)
  next
    case (Some x)
    obtain r v where "x = (r, v)" by fastforce
    with a Some show ?thesis
      by (cases r) (auto simp: sol_mainloop_impl_idle_add_def timeouts_stay_def Let_def split: if_split_asm)
  qed
next
  assume a: "sol_mainloop_impl_source_add l type data s = Some (p, s')"
  show "timeouts_stay s s'"
  proof (cases "sol_ptr_vector_append l (rg_vector (ml_sources s)) (ml_next s)")
    case None
    with a show ?thesis by (auto simp: sol_mainloop_impl_source_add_def timeouts_stay_def Let_def split: if_split_asm)
  next
    case (Some x)
    obtain r v where "x = (r, v)" by fastforce
    with a Some show ?thesis
      by (cases r) (auto simp: sol_mainloop_impl_source_add_def timeouts_stay_def Let_def split: if_split_asm)
  qed
qed

lemma do_call_stays:
  assumes "ml_ok least s" and "do_call a l c s = Some s'" and "\<And>p. c \<noteq> Timeout_del p"
  shows "timeouts_stay s s'"
proof (cases c)
  case (Timeout_add ms cb)
  have new: "rg_objs (ml_timeouts s) (ml_next s) = None" using assms(1) by (auto simp: ml_ok_def reg_ok_def domIff)
  have le: "rg_objs (ml_timeouts s) \<subseteq>\<^sub>m (rg_objs (ml_timeouts s))(ml_next s \<mapsto> x)" for x
    using new by (auto simp: map_le_def)
  obtain p where add: "sol_mainloop_impl_timeout_add a l ms cb s = Some (p, s')"
    using assms(2) by (auto simp: Timeout_add do_call_def)
  let ?x = "\<lparr>to_timeout = period_of ms, to_expire = sol_util_timespec_add (clock a (ml_reads s)) (period_of ms),
    to_cb = cb, to_remove_me = False\<rparr>"
  let ?ins = "sol_ptr_vector_insert_sorted l (rg_vector (ml_timeouts s)) (ml_next s)
    (timeout_compare ((rg_objs (ml_timeouts s))(ml_next s \<mapsto> ?x)))"
  show ?thesis
  proof (cases "alloc_ok l timeout_size")
    case True
    then obtain r v where "?ins = Some (r, v)"
      using add by (auto simp: sol_mainloop_impl_timeout_add_def get_current_def Let_def bind_eq_Some_conv)
    then show ?thesis using True add le [of ?x]
      by (cases r) (auto simp: sol_mainloop_impl_timeout_add_def get_current_def timeouts_stay_def Let_def)
  next
    case False
    then show ?thesis using add by (auto simp: sol_mainloop_impl_timeout_add_def timeouts_stay_def)
  qed
next
  case (Idle_add cb)
  then show ?thesis using assms(2) add_stays(1) by (auto simp: do_call_def)
next
  case (Source_add type data)
  then show ?thesis using assms(2) add_stays(2) by (auto simp: do_call_def)
qed (use assms in \<open>auto simp: do_call_def timeouts_stay_def sol_mainloop_impl_idle_del_def sol_mainloop_impl_source_del_def sol_mainloop_impl_quit_def idler_cleanup_def
    source_cleanup_def sol_mainloop_common_loop_set_def Let_def bind_eq_Some_conv split: if_splits sum.splits\<close>)

lemma do_calls_stay:
  assumes "ml_ok least s" and "clock_ok a" and "calls_ok least a l cs s" and "do_calls a l cs s = Some s'"
    and "\<And>p. Timeout_del p \<notin> set cs"
  shows "timeouts_stay s s'"
  using assms
proof (induction cs arbitrary: s)
  case Nil
  then show ?case by (simp add: timeouts_stay_def)
next
  case (Cons c cs)
  obtain s1 where s1: "do_call a l c s = Some s1" "ml_ext least a s s1"
    using do_call_ok [OF Cons.prems(1,2)] Cons.prems(3) by auto
  have "timeouts_stay s s1" by (rule do_call_stays [OF Cons.prems(1) s1(1)]) (use Cons.prems(5) in auto)
  moreover have "timeouts_stay s1 s'"
    by (rule Cons.IH) (use s1 Cons.prems in \<open>auto simp: ml_ext_def\<close>)
  ultimately show ?case by (rule timeouts_stay_trans)
qed

lemma next_timeout_stays:
  assumes app: "app_ok least a l" and q: "sparing_sources a" and ok: "ml_ok least s"
    and step: "next_timeout_body a l p x acc s = Some (acc', s')"
    and acc: "\<forall>t. acc = Some t \<longrightarrow> ts_norm t \<and> 0 \<le> ts_val t"
  shows "ml_ok least s'" and "timeouts_stay s s'" and "\<forall>t. acc' = Some t \<longrightarrow> ts_norm t \<and> 0 \<le> ts_val t"
proof -
  obtain cs r where run: "run_get_next_timeout a (src_data x) s = (cs, r)" by fastforce
  have c: "clock_ok a" "calls_ok least a l cs s" using app ok run unfolding app_ok_def by (metis fst_conv)+
  have "(\<forall>p. Timeout_del p \<notin> set (fst (run_get_next_timeout a (src_data x) s))) \<and>
      (\<forall>t. snd (run_get_next_timeout a (src_data x) s) = Some t \<longrightarrow> ts_norm t)"
    using q unfolding sparing_sources_def by blast
  then have r: "\<And>p. Timeout_del p \<notin> set cs" "\<And>t. r = Some t \<Longrightarrow> ts_norm t" by (simp_all add: run)
  obtain s1 where s1: "do_calls a l cs s = Some s1" "ml_ext least a s s1" using do_calls_ok [OF ok c] by blast
  then have st: "timeouts_stay s s1" using do_calls_stay [OF ok c] r(1) by blast
  have s': "s' = s1 \<or> s' = s" using step run s1(1) by (auto simp: next_timeout_body_def split: if_splits)
  then show "ml_ok least s'" using s1(2) ok by (auto simp: ml_ext_def)
  show "timeouts_stay s s'" using s' st by (auto simp: timeouts_stay_def)
  show "\<forall>t. acc' = Some t \<longrightarrow> ts_norm t \<and> 0 \<le> ts_val t"
    using step acc run r(2) s1(1) clamp_ok by (auto simp: next_timeout_body_def split: if_splits option.splits)
qed

text \<open>
  C14. The time the loop may sleep, between passes and with sources whose callbacks for the next timeout
  make any legal calls but delete no timeout (\<open>sparing_sources\<close>): it is never negative and never goes
  beyond a timeout that was live when the time was computed; for each of them the wait is at most the
  time left until it expires, and nothing at all once it is due. There is a bound whenever there is a
  timeout. The hypothesis is needed: \<^verbatim>\<open>sol_mainloop_common_timespec_first\<close> keeps its pointer to the first
  timeout while it runs these callbacks, and one that deletes this timeout makes it use freed memory.
\<close>

theorem timespec_first_wait:
  assumes "app_ok least a l" and "sparing_sources a" and "ml_idle least s"
  shows "\<exists>w s'. sol_mainloop_common_timespec_first a l s = Some (w, s') \<and> (\<forall>d. w = Some d \<longrightarrow> 0 \<le> ts_val d) \<and>
    (\<forall>p t. rg_objs (ml_timeouts s) p = Some t \<longrightarrow>
       (\<exists>d. w = Some d \<and> ts_val d \<le> max 0 (ts_val (to_expire t) - ts_val (clock a (ml_reads s)))))"
proof -
  let ?Q = "\<lambda>acc s1. ml_ok least s1 \<and> timeouts_stay s s1 \<and> (\<forall>t. acc = Some t \<longrightarrow> ts_norm t \<and> 0 \<le> ts_val t)"
  let ?r = "ml_timeouts s" and ?now = "clock a (ml_reads s)"
  let ?xs = "velems (rg_vector ?r)"
  have ok: "ml_ok least s" using assms(3) by (simp add: ml_idle_def)
  then have reg: "reg_ok to_remove_me (ml_next s) ?r" and tok: "timeouts_ok least ?r" by (simp_all add: ml_ok_def)
  have pend: "rg_pending_deletion ?r = 0" using assms(3) by (auto simp: ml_idle_def ml_ok_def reg_settled_def)
  obtain ts s1 where s1: "sol_mainloop_common_source_get_next_timeout a l s = Some (ts, s1)"
    using sources_pass_ok [OF bodies_ok(4) [OF assms(1)] assms(3), of l False None]
    by (auto simp: sol_mainloop_common_source_get_next_timeout_def)
  have Q: "timeouts_stay s s1" "\<forall>t. ts = Some t \<longrightarrow> ts_norm t \<and> 0 \<le> ts_val t"
  proof -
    define s0 where "s0 = s\<lparr>ml_sources := set_processing True (ml_sources s)\<rparr>"
    obtain s2 where s2: "source_loop False (next_timeout_body a l) 0 None s0 = Some (ts, s2)"
      "ml_timeouts s1 = ml_timeouts s2" "ml_reads s1 = ml_reads s2"
      using s1 by (auto simp: sol_mainloop_common_source_get_next_timeout_def source_iterate_def source_cleanup_def s0_def
          bind_eq_Some_conv)
    have "?Q (fst (ts, s2)) (snd (ts, s2))"
    proof (rule source_loop_inv [where Q = ?Q, OF _ s2(1)])
      fix p x acc u acc' u' assume step: "next_timeout_body a l p x acc u = Some (acc', u')" and q: "?Q acc u"
      note n = next_timeout_stays [OF assms(1,2) _ step]
      show "?Q acc' u'" using n q timeouts_stay_trans by blast
    next
      show "?Q None s0" using ml_ok_sourcing [OF ok] by (simp add: s0_def timeouts_stay_def)
    qed
    then show "timeouts_stay s s1" "\<forall>t. ts = Some t \<longrightarrow> ts_norm t \<and> 0 \<le> ts_val t"
      using s2(2,3) by (simp_all add: timeouts_stay_def)
  qed
  have stay: "rg_objs (ml_timeouts s1) p = Some t" if "rg_objs ?r p = Some t" for p t
    using Q(1) that by (auto simp: timeouts_stay_def map_le_def dom_def)
  let ?later = "clock a (ml_reads s1)"
  have now: "ts_norm ?later" "ts_val ?now \<le> ts_val ?later"
    using assms(1) Q(1) by (simp_all add: app_ok_def clock_ok_def timeouts_stay_def)
  have live: "\<not> to_remove_me t" if "rg_objs ?r p = Some t" for p t
    using no_marked [OF reg pend, of p] that by (simp add: marked_at_def)
  show ?thesis
  proof (cases ?xs)
    case Nil
    then have "rg_objs ?r p = None" for p using reg by (auto simp: reg_ok_def)
    with Nil s1 Q show ?thesis by (simp add: sol_mainloop_common_timespec_first_def sol_mainloop_common_timeout_first_def)
  next
    case (Cons p xs)
    then obtain t where t: "rg_objs ?r p = Some t" using reg by (auto simp: reg_ok_def)
    have first: "sol_mainloop_common_timeout_first s = Some p"
      using Cons live t by (simp add: sol_mainloop_common_timeout_first_def)
    define diff where "diff = sol_util_timespec_sub (to_expire t) ?later"
    have tn: "ts_norm (to_expire t)" using tok t by (auto simp: timeouts_ok_def)
    note d = timespec_sub_val [OF tn now(1), folded diff_def]
    define w where "w = (case ts of None \<Rightarrow> clamp diff
      | Some ts \<Rightarrow> if sol_util_timespec_compare diff ts < 0 then clamp diff else ts)"
    have w: "0 \<le> ts_val w" "ts_val w \<le> max 0 (ts_val diff)"
      using Q clamp_ok [OF d(1)] timespec_compare_val(2) [OF d(1)] by (auto simp: w_def split: option.splits)
    have "sol_mainloop_common_timespec_first a l s = Some (Some w, s1\<lparr>ml_reads := ml_reads s1 + 1\<rparr>)"
      using first s1 stay [OF t] by (simp add: sol_mainloop_common_timespec_first_def get_current_def diff_def w_def split: option.splits)
    moreover have "ts_val (to_expire t) \<le> ts_val (to_expire u)" if u: "rg_objs ?r q = Some u" for q u
    proof -
      have "q \<in> set ?xs" using u reg by (auto simp: reg_ok_def)
      then obtain j where j: "j < length ?xs" "q = ?xs ! j" by (auto simp: in_set_conv_nth)
      have "ts_val (expire_of (rg_objs ?r) (?xs ! 0)) \<le> ts_val (expire_of (rg_objs ?r) (?xs ! j))"
        by (rule timeouts_sorted_le [OF tok _ j(1) reg]) simp
      then show ?thesis using Cons t u j(2) by (simp add: expire_of_def)
    qed
    ultimately show ?thesis
      using w d(2) now(2) by (intro exI [of _ "Some w"] exI [of _ "s1\<lparr>ml_reads := ml_reads s1 + 1\<rparr>"]) fastforce
  qed
qed

theorem timespec_first_wait_witness:
  "\<exists>w s'. sol_mainloop_common_timespec_first demo_app (libc_total 0) demo_state = Some (w, s') \<and> (\<forall>d. w = Some d \<longrightarrow> 0 \<le> ts_val d) \<and>
    (\<forall>p t. rg_objs (ml_timeouts demo_state) p = Some t \<longrightarrow>
       (\<exists>d. w = Some d \<and> ts_val d \<le> max 0 (ts_val (to_expire t) - ts_val (clock demo_app (ml_reads demo_state)))))"
  by (rule timespec_first_wait [OF demo_app_ok]) (use demo_state_ok in \<open>simp_all add: sparing_sources_def demo_app_def ml_idle_def\<close>)

end
