(* ===== verification/Linked_List.thy ===== *)
theory Linked_List
  imports Prelude
begin

text \<open>
  The intrusive doubly linked lists of \<^verbatim>\<open>src/lib/datatypes/include/sol-list.h\<close>, on an explicit heap of
  the two link fields: a node is an address, a list is the address of its head node, and every function is
  its assignments in order, so that the aliasing of a head with its own neighbours shows.

  \<open>is_list h l xs\<close> abstracts the ring through \<open>l\<close> to the list \<open>xs\<close> of its other nodes. The locale
  \<open>drainable\<close> is what the loops that empty a list rely on; \<open>list_drain\<close> is such a loop.
\<close>

record links =
  lnext :: "nat \<Rightarrow> nat"
  lprev :: "nat \<Rightarrow> nat"

abbreviation set_next :: "nat \<Rightarrow> nat \<Rightarrow> links \<Rightarrow> links" where
  "set_next p q h \<equiv> h\<lparr>lnext := (lnext h)(p := q)\<rparr>"

abbreviation set_prev :: "nat \<Rightarrow> nat \<Rightarrow> links \<Rightarrow> links" where
  "set_prev p q h \<equiv> h\<lparr>lprev := (lprev h)(p := q)\<rparr>"

definition sol_list_init :: "nat \<Rightarrow> links \<Rightarrow> links" where
  "sol_list_init l h = set_next l l (set_prev l l h)"

definition sol_list_append :: "nat \<Rightarrow> nat \<Rightarrow> links \<Rightarrow> links" where
  "sol_list_append l new_l h =
     (let h = set_next new_l l h; h = set_prev new_l (lprev h l) h; h = set_next (lprev h l) new_l h
      in set_prev l new_l h)"

definition sol_list_prepend :: "nat \<Rightarrow> nat \<Rightarrow> links \<Rightarrow> links" where
  "sol_list_prepend l new_l h =
     (let h = set_prev new_l l h; h = set_next new_l (lnext h l) h; h = set_prev (lnext h l) new_l h
      in set_next l new_l h)"

definition sol_list_remove :: "nat \<Rightarrow> links \<Rightarrow> links" where
  "sol_list_remove l h =
     (let h = set_prev (lnext h l) (lprev h l) h
      in set_next (lprev h l) (lnext h l) h)"

definition sol_list_is_empty :: "nat \<Rightarrow> links \<Rightarrow> bool" where
  "sol_list_is_empty l h \<longleftrightarrow> lnext h l = l"

definition sol_list_steal :: "nat \<Rightarrow> nat \<Rightarrow> links \<Rightarrow> links" where
  "sol_list_steal l new_head h =
     (let h = set_next (lprev h l) new_head h; h = set_prev (lnext h l) new_head h;
          h = set_next new_head (lnext h l) h; h = set_prev new_head (lprev h l) h
      in sol_list_init l h)"

section \<open>Abstraction\<close>

fun linked :: "links \<Rightarrow> nat \<Rightarrow> nat list \<Rightarrow> nat \<Rightarrow> bool" where
  "linked h a [] b \<longleftrightarrow> lnext h a = b \<and> lprev h b = a"
| "linked h a (x # xs) b \<longleftrightarrow> lnext h a = x \<and> lprev h x = a \<and> linked h x xs b"

definition is_list :: "links \<Rightarrow> nat \<Rightarrow> nat list \<Rightarrow> bool" where
  "is_list h l xs \<longleftrightarrow> distinct (l # xs) \<and> linked h l xs l"

lemma linked_append: "linked h a (xs @ y # ys) b \<longleftrightarrow> linked h a xs y \<and> linked h y ys b"
  by (induction xs arbitrary: a) auto

lemma linked_ends: "linked h a xs b \<Longrightarrow> lnext h a = hd (xs @ [b]) \<and> lprev h b = last (a # xs)"
  by (induction xs arbitrary: a) (auto simp: neq_Nil_conv)

lemma linked_cong:
  assumes "\<forall>p \<in> set (a # xs). lnext h p = lnext h' p" and "\<forall>p \<in> set (xs @ [b]). lprev h p = lprev h' p"
  shows "linked h a xs b = linked h' a xs b"
  using assms by (induction xs arbitrary: a) auto

lemma linked_frame:
  "linked h a xs b \<Longrightarrow> (\<And>p. p \<in> set (a # xs) \<Longrightarrow> lnext h' p = lnext h p) \<Longrightarrow>
     (\<And>p. p \<in> set (xs @ [b]) \<Longrightarrow> lprev h' p = lprev h p) \<Longrightarrow> linked h' a xs b"
  by (simp add: linked_cong [of a xs h' h b])

lemma is_list_Nil: "is_list h l [] \<longleftrightarrow> lnext h l = l \<and> lprev h l = l"
  by (simp add: is_list_def)

lemma is_list_snoc: "is_list h l (ys @ [y]) \<longleftrightarrow> distinct (l # ys @ [y]) \<and> linked h l ys y \<and> lnext h y = l \<and> lprev h l = y"
  by (simp add: is_list_def linked_append)

lemma is_list_Cons: "is_list h l (y # ys) \<longleftrightarrow> distinct (l # y # ys) \<and> lnext h l = y \<and> lprev h y = l \<and> linked h y ys l"
  by (simp add: is_list_def)

lemma init_list: "is_list (sol_list_init l h) l []"
  by (simp add: is_list_Nil sol_list_init_def)

lemma is_empty_list: "is_list h l xs \<Longrightarrow> sol_list_is_empty l h \<longleftrightarrow> xs = []"
  by (cases xs) (auto simp: is_list_Nil is_list_Cons sol_list_is_empty_def)

lemma append_list:
  assumes "is_list h l xs" and "n \<notin> set (l # xs)"
  shows "is_list (sol_list_append l n h) l (xs @ [n])"
proof (cases xs rule: rev_cases)
  case Nil
  with assms show ?thesis by (auto simp: is_list_Nil is_list_Cons sol_list_append_def)
next
  case (snoc ys y)
  with assms show ?thesis
    unfolding snoc is_list_snoc by (auto simp: linked_append sol_list_append_def Let_def) (erule linked_frame; auto)+
qed

lemma prepend_list:
  assumes "is_list h l xs" and "n \<notin> set (l # xs)"
  shows "is_list (sol_list_prepend l n h) l (n # xs)"
proof (cases xs)
  case Nil
  with assms show ?thesis by (auto simp: is_list_Nil is_list_Cons sol_list_prepend_def)
next
  case (Cons y ys)
  with assms show ?thesis
    by (auto simp: is_list_Cons sol_list_prepend_def Let_def) (erule linked_frame; auto)+
qed

lemma remove_list:
  assumes "is_list h l (xs @ x # ys)"
  shows "is_list (sol_list_remove x h) l (xs @ ys)"
proof -
  have d: "distinct (l # xs @ x # ys)" and xs: "linked h l xs x" and ys: "linked h x ys l"
    using assms by (simp_all add: is_list_def linked_append)
  define p where "p = lprev h x"
  define q where "q = lnext h x"
  have pq: "p = last (l # xs)" "q = hd (ys @ [l])" using linked_ends [OF xs] linked_ends [OF ys] by (simp_all add: p_def q_def)
  have h: "sol_list_remove x h = set_next p q (set_prev q p h)"
    using d pq by (cases ys) (auto simp: sol_list_remove_def p_def q_def)
  show ?thesis
  proof (cases ys)
    case Nil
    then show ?thesis using d xs pq unfolding h
      by (cases xs rule: rev_cases; auto simp: is_list_Nil is_list_snoc linked_append) (erule linked_frame; auto)+
  next
    case (Cons y zs)
    then show ?thesis using d xs ys pq unfolding h
      by (cases xs rule: rev_cases; auto simp: is_list_def linked_append) (erule linked_frame; auto)+
  qed
qed

lemma steal_list:
  assumes "is_list h l xs" and "xs \<noteq> []" and "n \<notin> set (l # xs)"
  shows "is_list (sol_list_steal l n h) n xs" and "is_list (sol_list_steal l n h) l []"
proof -
  obtain y ys where xs: "xs = y # ys" using assms(2) by (cases xs) auto
  define z where "z = last xs"
  have ends: "lnext h l = y" "lprev h l = z" using assms(1) linked_ends [of h l xs l] by (auto simp: is_list_def xs z_def)
  have z: "z \<in> set xs" using assms(2) by (simp add: z_def)
  have d: "distinct (l # xs)" using assms(1) by (simp add: is_list_def)
  have h: "sol_list_steal l n h = sol_list_init l (set_prev n z (set_next n y (set_prev y n (set_next z n h))))"
    using z d assms(3) ends by (auto simp: sol_list_steal_def Let_def xs)
  show "is_list (sol_list_steal l n h) l []" unfolding h by (rule init_list)
  have lk: "linked h y ys l" using assms(1) by (simp add: is_list_def xs)
  show "is_list (sol_list_steal l n h) n xs"
  proof (cases ys rule: rev_cases)
    case Nil
    then show ?thesis using d assms(3) xs by (auto simp: h is_list_def z_def sol_list_init_def)
  next
    case (snoc zs w)
    then have "w = z" by (simp add: z_def xs)
    then show ?thesis using d assms(3) lk unfolding h is_list_def xs snoc
      by (auto simp: linked_append sol_list_init_def) (erule linked_frame; auto)+
  qed
qed

text \<open>No operation touches the links of a node outside of the lists it works on.\<close>

lemma operations_local:
  assumes "is_list h l xs" and "p \<notin> set (l # xs)" and "p \<noteq> n"
  shows "lnext (sol_list_append l n h) p = lnext h p \<and> lprev (sol_list_append l n h) p = lprev h p"
    and "lnext (sol_list_prepend l n h) p = lnext h p \<and> lprev (sol_list_prepend l n h) p = lprev h p"
    and "x \<in> set xs \<Longrightarrow> lnext (sol_list_remove x h) p = lnext h p \<and> lprev (sol_list_remove x h) p = lprev h p"
    and "lnext (sol_list_steal l n h) p = lnext h p \<and> lprev (sol_list_steal l n h) p = lprev h p"
proof -
  have in_ends: "hd (ys @ [z]) \<in> set (ys @ [z])" "last (z # ys) \<in> set (z # ys)" for z :: nat and ys
    by (metis hd_in_set snoc_eq_iff_butlast) (rule last_in_set, simp)
  have near: "lnext h l \<in> set (l # xs)" "lprev h l \<in> set (l # xs)"
    using assms(1) linked_ends [of h l xs l] in_ends(1) [of xs l] in_ends(2) [of l xs] unfolding is_list_def by simp_all
  show "lnext (sol_list_append l n h) p = lnext h p \<and> lprev (sol_list_append l n h) p = lprev h p"
    "lnext (sol_list_prepend l n h) p = lnext h p \<and> lprev (sol_list_prepend l n h) p = lprev h p"
    "lnext (sol_list_steal l n h) p = lnext h p \<and> lprev (sol_list_steal l n h) p = lprev h p"
    using near assms(2,3) by (auto simp: sol_list_append_def sol_list_prepend_def sol_list_steal_def sol_list_init_def Let_def)
  show "lnext (sol_list_remove x h) p = lnext h p \<and> lprev (sol_list_remove x h) p = lprev h p" if "x \<in> set xs"
  proof -
    obtain as bs where xs: "xs = as @ x # bs" using \<open>x \<in> set xs\<close> by (auto simp: in_set_conv_decomp)
    have "lnext h x \<in> set (l # xs)" "lprev h x \<in> set (l # xs)"
      using assms(1) linked_ends [of h l as x] linked_ends [of h x bs l] in_ends(1) [of bs l] in_ends(2) [of l as]
      unfolding is_list_def xs linked_append by auto
    then show ?thesis using assms(2) by (auto simp: sol_list_remove_def Let_def)
  qed
qed

lemma is_list_frame:
  "is_list h m ys \<Longrightarrow> (\<And>p. p \<in> set (m # ys) \<Longrightarrow> lnext h' p = lnext h p \<and> lprev h' p = lprev h p) \<Longrightarrow> is_list h' m ys"
  unfolding is_list_def by (auto intro: linked_frame)

section \<open>Emptying a list\<close>

text \<open>The loops that take the first node off a list until there is none; \<open>visit\<close> is the rest of the body.\<close>

partial_function (option) drain_loop ::
    "(nat \<Rightarrow> 'h \<Rightarrow> bool) \<Rightarrow> (nat \<Rightarrow> 'h \<Rightarrow> nat) \<Rightarrow> (nat \<Rightarrow> 'h \<Rightarrow> 'h) \<Rightarrow> (nat \<Rightarrow> 'h \<times> 's \<Rightarrow> ('h \<times> 's) option)
      \<Rightarrow> nat \<Rightarrow> 'h \<times> 's \<Rightarrow> ('h \<times> 's) option" where
  "drain_loop is_empty first remove visit l hs =
     (if is_empty l (fst hs) then Some hs
      else let x = first l (fst hs)
           in do { hs \<leftarrow> visit x (remove x (fst hs), snd hs); drain_loop is_empty first remove visit l hs })"

text \<open>Visiting every element of a list in order.\<close>

fun visit_all :: "(nat \<Rightarrow> 'h \<times> 's \<Rightarrow> ('h \<times> 's) option) \<Rightarrow> ('h \<Rightarrow> nat \<Rightarrow> 'h) \<Rightarrow> nat list \<Rightarrow> 'h \<times> 's \<Rightarrow> ('h \<times> 's) option" where
  "visit_all visit remove [] hs = Some hs"
| "visit_all visit remove (x # xs) hs = do { hs \<leftarrow> visit x (remove (fst hs) x, snd hs); visit_all visit remove xs hs }"

locale drainable =
  fixes rep :: "'h \<Rightarrow> nat \<Rightarrow> nat list \<Rightarrow> bool" and is_empty :: "nat \<Rightarrow> 'h \<Rightarrow> bool"
    and first :: "nat \<Rightarrow> 'h \<Rightarrow> nat" and remove :: "nat \<Rightarrow> 'h \<Rightarrow> 'h"
  assumes rep_empty: "rep h l xs \<Longrightarrow> is_empty l h \<longleftrightarrow> xs = []"
    and rep_first: "rep h l (x # xs) \<Longrightarrow> first l h = x"
    and rep_remove: "rep h l (x # xs) \<Longrightarrow> rep (remove x h) l xs"
begin

lemma drain_visits:
  assumes keeps: "\<And>h s x ys hs. rep h l ys \<Longrightarrow> visit x (h, s) = Some hs \<Longrightarrow> rep (fst hs) l ys"
    and "rep h l xs"
  shows "drain_loop is_empty first remove visit l (h, s) = visit_all visit (\<lambda>h x. remove x h) xs (h, s)"
  using assms(2)
proof (induction xs arbitrary: h s)
  case Nil
  then show ?case using rep_empty [of h l "[]"] by (simp add: drain_loop.simps)
next
  case (Cons x xs)
  have "\<not> is_empty l h" and first: "first l h = x" and rest: "rep (remove x h) l xs"
    using Cons.prems rep_empty rep_first rep_remove by fastforce+
  show ?case
  proof (cases "visit x (remove x h, s)")
    case None
    then show ?thesis using \<open>\<not> is_empty l h\<close> by (simp add: drain_loop.simps first)
  next
    case (Some hs)
    obtain h' s' where hs: "hs = (h', s')" by (cases hs)
    have "drain_loop is_empty first remove visit l (h, s) = drain_loop is_empty first remove visit l (h', s')"
      using \<open>\<not> is_empty l h\<close> Some hs by (subst drain_loop.simps) (simp add: first)
    then show ?thesis using Cons.IH [of h' s'] keeps [OF rest Some] Some hs by simp
  qed
qed

end

interpretation sol_list: drainable is_list sol_list_is_empty "\<lambda>l h. lnext h l" sol_list_remove
proof
  show "is_list h l xs \<Longrightarrow> sol_list_is_empty l h = (xs = [])" for h l xs by (rule is_empty_list)
  show "is_list h l (x # xs) \<Longrightarrow> lnext h l = x" for h l x xs by (simp add: is_list_Cons)
  show "is_list h l (x # xs) \<Longrightarrow> is_list (sol_list_remove x h) l xs" for h l x xs using remove_list [of h l "[]" x xs] by simp
qed

section \<open>Properties\<close>

text \<open>
  C17. The operations on linked lists are those on lists of nodes: append, prepend, removal from any
  place, the test for emptiness, and taking over a list that is not empty, which leaves the old head with
  an empty list. Other lists are not touched. Taking over an empty list however gives a head whose list
  looks empty but loses the next node that is appended to it.
\<close>

theorem sol_list_operations:
  assumes "is_list h l xs" and "n \<notin> set (l # xs)"
  shows "is_list (sol_list_append l n h) l (xs @ [n]) \<and> is_list (sol_list_prepend l n h) l (n # xs) \<and>
    (\<forall>as x bs. xs = as @ x # bs \<longrightarrow> is_list (sol_list_remove x h) l (as @ bs)) \<and>
    (sol_list_is_empty l h \<longleftrightarrow> xs = []) \<and>
    (xs \<noteq> [] \<longrightarrow> is_list (sol_list_steal l n h) n xs \<and> is_list (sol_list_steal l n h) l []) \<and>
    (\<forall>m ys. is_list h m ys \<and> set (m # ys) \<inter> set (n # l # xs) = {} \<longrightarrow>
       is_list (sol_list_append l n h) m ys \<and> is_list (sol_list_prepend l n h) m ys \<and> is_list (sol_list_steal l n h) m ys) \<and>
    (xs = [] \<longrightarrow> sol_list_is_empty n (sol_list_steal l n h) \<and>
       (\<forall>k. k \<notin> {l, n} \<longrightarrow> sol_list_is_empty n (sol_list_append n k (sol_list_steal l n h))))"
proof (intro conjI allI impI)
  fix as x bs assume "xs = as @ x # bs"
  then show "is_list (sol_list_remove x h) l (as @ bs)" using remove_list assms(1) by blast
next
  fix m ys assume m: "is_list h m ys \<and> set (m # ys) \<inter> set (n # l # xs) = {}"
  have p: "p \<notin> set (l # xs)" "p \<noteq> n" if "p \<in> set (m # ys)" for p using m that by auto
  show "is_list (sol_list_append l n h) m ys" "is_list (sol_list_prepend l n h) m ys" "is_list (sol_list_steal l n h) m ys"
    by (rule is_list_frame [OF conjunct1 [OF m]], rule operations_local [OF assms(1) p], assumption+)+
next
  assume "xs = []"
  then have "lnext h l = l" "lprev h l = l" "n \<noteq> l" using assms by (simp_all add: is_list_Nil)
  then show "sol_list_is_empty n (sol_list_steal l n h)"
    "k \<notin> {l, n} \<Longrightarrow> sol_list_is_empty n (sol_list_append n k (sol_list_steal l n h))" for k
    by (simp_all add: sol_list_steal_def sol_list_init_def sol_list_append_def sol_list_is_empty_def Let_def)
qed (use append_list [OF assms] prepend_list [OF assms] is_empty_list [OF assms(1)] steal_list [OF assms(1) _ assms(2)] in simp_all)

definition ring3 :: links where
  "ring3 = \<lparr>lnext = (\<lambda>_. 0)(0 := 1, 1 := 2), lprev = (\<lambda>_. 0)(0 := 2, 2 := 1)\<rparr>"

theorem sol_list_operations_witness:
  "is_list (sol_list_append 0 3 ring3) 0 [1, 2, 3] \<and> is_list (sol_list_remove 1 ring3) 0 [2]"
proof -
  have "is_list ring3 0 [1, 2]" by (simp add: is_list_def ring3_def)
  from sol_list_operations [OF this, of 3] show ?thesis by (auto dest: spec [of _ "[]"])
qed

end
