(* ===== verification/Flow_Type.thy ===== *)
theory Flow_Type
  imports Prelude
begin

text \<open>
  The types of static flows: the first half of \<^verbatim>\<open>src/lib/flow/sol-flow-static.c\<close>, from the
  specification an application writes (node, connection and exported port arrays, each ended by a
  guard) to the tables the running flow uses (\<open>flow_static_type_init\<close> and what it calls).

  The arrays of a specification are the application's memory: lists of cells, read with
  \<open>mem_get\<close>, so that running past the end of an array that has no guard is \<open>None\<close>. Counters are
  \<^verbatim>\<open>uint16_t\<close> in the code; every loop compares them with \<open>UINT16_MAX\<close> before it increments them, so
  they are natural numbers here. A freed array or NULL is the empty list.
\<close>

section \<open>Node types and specifications\<close>

text \<open>Packet types are pointers; two of them have a meaning of their own.\<close>

datatype packet_type = PACKET_TYPE_ANY | PACKET_TYPE_ERROR | PACKET_TYPE nat

text \<open>The optional callbacks of a port; the \<open>pin_api\<close> and \<open>pout_api\<close> say that the API version matches.\<close>

record sol_flow_port_type_in =
  pin_api :: bool
  pin_packet_type :: "packet_type option"
  pin_process :: bool
  pin_connect :: bool
  pin_disconnect :: bool

record sol_flow_port_type_out =
  pout_api :: bool
  pout_packet_type :: "packet_type option"
  pout_connect :: bool
  pout_disconnect :: bool

record sol_flow_node_type =
  nt_api :: bool
  nt_data_size :: nat
  nt_options_size :: nat
  nt_ports_in_count :: nat
  nt_ports_out_count :: nat
  nt_get_port_in :: "(nat \<Rightarrow> sol_flow_port_type_in option) option"
  nt_get_port_out :: "(nat \<Rightarrow> sol_flow_port_type_out option) option"
  nt_open :: bool
  nt_close :: bool

definition SOL_FLOW_NODE_PORT_ERROR :: nat where
  "SOL_FLOW_NODE_PORT_ERROR = UINT16_MAX - 1"

definition port_error :: sol_flow_port_type_out where
  "port_error = \<lparr>pout_api = True, pout_packet_type = Some PACKET_TYPE_ERROR, pout_connect = False, pout_disconnect = False\<rparr>"

definition sol_flow_node_type_get_port_in :: "sol_flow_node_type option \<Rightarrow> nat \<Rightarrow> sol_flow_port_type_in option" where
  "sol_flow_node_type_get_port_in type port = do { t \<leftarrow> type; f \<leftarrow> nt_get_port_in t; f port }"

definition sol_flow_node_type_get_port_out :: "sol_flow_node_type option \<Rightarrow> nat \<Rightarrow> sol_flow_port_type_out option" where
  "sol_flow_node_type_get_port_out type port = do {
     t \<leftarrow> type;
     (if port = SOL_FLOW_NODE_PORT_ERROR then Some port_error else do { f \<leftarrow> nt_get_port_out t; f port })
   }"

record sol_flow_static_conn_spec =
  src :: nat
  src_port :: nat
  dst :: nat
  dst_port :: nat

record sol_flow_static_port_spec =
  pnode :: nat
  pport :: nat

text \<open>The node specification that the guard is: one without a type.\<close>

record sol_flow_static_spec =
  nodes :: "sol_flow_node_type option list"
  conns :: "sol_flow_static_conn_spec list"
  exported_in :: "sol_flow_static_port_spec list option"
  exported_out :: "sol_flow_static_port_spec list option"

record conn_info =
  out_conn_id :: nat
  in_conn_id :: nat

record flow_static_type =
  node_specs :: "sol_flow_node_type option list"
  conn_specs :: "sol_flow_static_conn_spec list"
  exported_in_specs :: "sol_flow_static_port_spec list option"
  exported_out_specs :: "sol_flow_static_port_spec list option"
  node_infos :: "nat list"
  conn_infos :: "conn_info list"
  node_storage_size :: nat
  node_count :: nat
  conn_count :: nat
  ports_in_count :: nat
  ports_out_count :: nat
  ports_in :: "sol_flow_port_type_in list"
  ports_out :: "sol_flow_port_type_out list"
  ports_in_base_conn_id :: "nat list"
  ports_out_base_conn_id :: "nat list"
  owned_by_node :: bool

type_synonym type_result = "((errno + unit) \<times> flow_static_type) option"

section \<open>Nodes\<close>

definition UINT_MAX :: nat where
  "UINT_MAX = 4294967295"

text \<open>The header of a node, on an LP64 machine; the sum is an \<^verbatim>\<open>unsigned int\<close>.\<close>

definition sizeof_sol_flow_node :: nat where
  "sizeof_sol_flow_node = 32"

definition align_to_ptr :: "nat \<Rightarrow> nat" where
  "align_to_ptr u = ((u + 7) div 8 * 8) mod (UINT_MAX + 1)"

definition calc_node_size :: "sol_flow_node_type \<Rightarrow> nat" where
  "calc_node_size t = align_to_ptr ((sizeof_sol_flow_node + nt_data_size t) mod (UINT_MAX + 1))"

text \<open>The loop of \<open>setup_node_specs\<close>: the number of nodes and the size of their storage.\<close>

fun node_specs_loop :: "nat \<Rightarrow> sol_flow_node_type option list \<Rightarrow> nat \<Rightarrow> nat \<Rightarrow> (errno + nat \<times> nat) option" where
  "node_specs_loop 0 specs count storage_size = Some (Inr (count, storage_size))"
| "node_specs_loop (Suc left) specs count storage_size =
     (case mem_get count specs of None \<Rightarrow> None
      | Some None \<Rightarrow> Some (Inr (count, storage_size))
      | Some (Some t) \<Rightarrow>
          if UINT_MAX - calc_node_size t < storage_size then Some (Inl ENOMEM)
          else node_specs_loop left specs (count + 1) (storage_size + calc_node_size t))"

definition setup_node_specs :: "nat libc \<Rightarrow> flow_static_type \<Rightarrow> type_result" where
  "setup_node_specs l type = do {
     r \<leftarrow> node_specs_loop UINT16_MAX (node_specs type) 0 0;
     (case r of Inl e \<Rightarrow> Some (Inl e, type)
      | Inr (count, storage_size) \<Rightarrow>
          if count = 0 then Some (Inl EINVAL, type)
          else do {
            guard \<leftarrow> mem_get count (node_specs type);
            (if guard \<noteq> None then Some (Inl EINVAL, type)
             else if \<not> alloc_ok l (2 * count) then Some (Inl ENOMEM, type)
             else Some (Inr (), type\<lparr>node_infos := replicate count 0, node_count := count, node_storage_size := storage_size\<rparr>))
          })
   }"

definition teardown_node_specs :: "flow_static_type \<Rightarrow> flow_static_type" where
  "teardown_node_specs type = type\<lparr>node_infos := []\<rparr>"

section \<open>Connections\<close>

definition flow_port_out_is_valid :: "sol_flow_node_type \<Rightarrow> nat \<Rightarrow> bool" where
  "flow_port_out_is_valid t port_idx \<longleftrightarrow> port_idx = SOL_FLOW_NODE_PORT_ERROR \<or> port_idx < nt_ports_out_count t"

definition flow_port_in_is_valid :: "sol_flow_node_type \<Rightarrow> nat \<Rightarrow> bool" where
  "flow_port_in_is_valid t port_idx \<longleftrightarrow> port_idx < nt_ports_in_count t"

text \<open>The type of a node; \<open>None\<close> is a read outside of the array or through NULL.\<close>

definition spec_type :: "flow_static_type \<Rightarrow> nat \<Rightarrow> sol_flow_node_type option" where
  "spec_type type i = do { t \<leftarrow> mem_get i (node_specs type); t }"

definition is_valid_spec :: "flow_static_type \<Rightarrow> sol_flow_static_conn_spec \<Rightarrow> bool option" where
  "is_valid_spec type spec =
     (if src spec \<ge> node_count type then Some False
      else if dst spec \<ge> node_count type then Some False
      else do {
        s \<leftarrow> spec_type type (src spec);
        (if \<not> flow_port_out_is_valid s (src_port spec) then Some False
         else do {
           d \<leftarrow> spec_type type (dst spec);
           Some (flow_port_in_is_valid d (dst_port spec))
         })
      })"

text \<open>
  The connection identifiers of one port: the connections from and to it are numbered in order. The
  result has the number of connections to and from the port.
\<close>

fun conn_ids_loop :: "nat \<Rightarrow> nat \<Rightarrow> sol_flow_static_conn_spec list \<Rightarrow> nat \<Rightarrow> nat \<Rightarrow> nat \<Rightarrow> nat \<Rightarrow> conn_info list
    \<Rightarrow> (nat \<times> nat \<times> conn_info list) option" where
  "conn_ids_loop node port specs 0 i in_id out_id infos = Some (in_id, out_id, infos)"
| "conn_ids_loop node port specs (Suc left) i in_id out_id infos = do {
     spec \<leftarrow> mem_get i specs;
     ci \<leftarrow> mem_get i infos;
     let is_dst = (dst spec = node \<and> dst_port spec = port);
     let is_src = (src spec = node \<and> src_port spec = port);
     let ci = (if is_dst then ci\<lparr>in_conn_id := in_id\<rparr> else ci);
     let ci = (if is_src then ci\<lparr>out_conn_id := out_id\<rparr> else ci);
     conn_ids_loop node port specs left (i + 1) (if is_dst then in_id + 1 else in_id) (if is_src then out_id + 1 else out_id)
       (infos[i := ci])
   }"

text \<open>
  The next exported port, when it is this one, starts its connections behind those inside the flow.
  The cursor only moves when the port is met.
\<close>

definition export_base :: "nat \<Rightarrow> nat \<Rightarrow> nat \<Rightarrow> nat \<Rightarrow> nat \<Rightarrow> sol_flow_static_port_spec list option \<Rightarrow> nat list \<Rightarrow> (nat \<times> nat list) option" where
  "export_base node port count cursor conn_id specs base =
     (if cursor < count then do {
        specs \<leftarrow> specs;
        pspec \<leftarrow> mem_get cursor specs;
        (if pnode pspec = node \<and> pport pspec = port then do {
           base \<leftarrow> mem_set cursor conn_id base;
           Some (cursor + 1, base)
         } else Some (cursor, base))
      } else Some (cursor, base))"

text \<open>One port of one node; the two cursors are the variables \<^verbatim>\<open>exported_in\<close> and \<^verbatim>\<open>exported_out\<close>.\<close>

definition port_conn_ids :: "nat \<Rightarrow> nat \<Rightarrow> nat \<times> nat \<Rightarrow> flow_static_type \<Rightarrow> ((nat \<times> nat) \<times> flow_static_type) option" where
  "port_conn_ids node port cursors type = do {
     (in_id, out_id, infos) \<leftarrow> conn_ids_loop node port (conn_specs type) (conn_count type) 0 0 0 (conn_infos type);
     (cin, ibase) \<leftarrow> export_base node port (ports_in_count type) (fst cursors) in_id (exported_in_specs type)
        (ports_in_base_conn_id type);
     (cout, obase) \<leftarrow> export_base node port (ports_out_count type) (snd cursors) out_id (exported_out_specs type)
        (ports_out_base_conn_id type);
     Some ((cin, cout), type\<lparr>conn_infos := infos, ports_in_base_conn_id := ibase, ports_out_base_conn_id := obase\<rparr>)
   }"

text \<open>The ports are counted up to the number of output ports, for the connections to input ports too.\<close>

fun ports_loop :: "nat \<Rightarrow> nat \<Rightarrow> nat \<Rightarrow> nat \<times> nat \<Rightarrow> flow_static_type \<Rightarrow> ((nat \<times> nat) \<times> flow_static_type) option" where
  "ports_loop node 0 port cursors type = Some (cursors, type)"
| "ports_loop node (Suc left) port cursors type = do {
     (cursors, type) \<leftarrow> port_conn_ids node port cursors type;
     ports_loop node left (port + 1) cursors type
   }"

fun nodes_loop :: "nat \<Rightarrow> nat \<Rightarrow> nat \<times> nat \<Rightarrow> flow_static_type \<Rightarrow> flow_static_type option" where
  "nodes_loop 0 node cursors type = Some type"
| "nodes_loop (Suc left) node cursors type = do {
     t \<leftarrow> spec_type type node;
     (cursors, type) \<leftarrow> ports_loop node (nt_ports_out_count t) 0 cursors type;
     nodes_loop left (node + 1) cursors type
   }"

definition setup_conn_ids :: "flow_static_type \<Rightarrow> flow_static_type option" where
  "setup_conn_ids type = nodes_loop (node_count type) 0 (0, 0) type"

text \<open>
  The loop of \<open>setup_conn_specs\<close>: every connection is valid and not before its predecessor; the index of
  the first connection of every source is recorded. The result is the number of connections.
\<close>

fun conn_specs_loop :: "nat \<Rightarrow> sol_flow_static_conn_spec option \<Rightarrow> nat \<Rightarrow> flow_static_type
    \<Rightarrow> ((errno + nat) \<times> flow_static_type) option" where
  "conn_specs_loop 0 prev count type = Some (Inr count, type)"
| "conn_specs_loop (Suc left) prev count type = do {
     spec \<leftarrow> mem_get count (conn_specs type);
     (if src spec = UINT16_MAX then Some (Inr count, type)
      else do {
        valid \<leftarrow> is_valid_spec type spec;
        (if \<not> valid then Some (Inl EINVAL, type)
         else do {
           infos \<leftarrow> (if \<forall>p \<in> set_option prev. src spec \<noteq> src p then mem_set (src spec) count (node_infos type)
             else Some (node_infos type));
           let type = type\<lparr>node_infos := infos\<rparr>;
           (if \<exists>p \<in> set_option prev. src spec < src p \<or> src spec = src p \<and> src_port spec < src_port p
            then Some (Inl EINVAL, type)
            else conn_specs_loop left (Some spec) (count + 1) type)
         })
      })
   }"

definition setup_conn_specs :: "nat libc \<Rightarrow> flow_static_type \<Rightarrow> type_result" where
  "setup_conn_specs l type =
     on_ok (conn_specs_loop UINT16_MAX None 0 type) (\<lambda>count type. do {
       guard \<leftarrow> mem_get count (conn_specs type);
       (if src guard \<noteq> UINT16_MAX then Some (Inl EINVAL, type)
        else if count > 0 \<and> \<not> alloc_ok l (4 * count) then Some (Inl ENOMEM, type)
        else do {
          type \<leftarrow> setup_conn_ids (type\<lparr>conn_infos := replicate count \<lparr>out_conn_id = 0, in_conn_id = 0\<rparr>, conn_count := count\<rparr>);
          Some (Inr (), type)
        })
     })"

definition teardown_conn_specs :: "flow_static_type \<Rightarrow> flow_static_type" where
  "teardown_conn_specs type = type\<lparr>conn_infos := []\<rparr>"

section \<open>Exported ports\<close>

text \<open>The loop of \<open>validate_port_specs\<close>: the ports are in strictly increasing order.\<close>

fun port_specs_loop :: "nat \<Rightarrow> sol_flow_static_port_spec option \<Rightarrow> nat \<Rightarrow> sol_flow_static_port_spec list \<Rightarrow> (errno + nat) option" where
  "port_specs_loop 0 prev c specs = Some (Inr c)"
| "port_specs_loop (Suc left) prev c specs = do {
     spec \<leftarrow> mem_get c specs;
     (if pnode spec = UINT16_MAX then Some (Inr c)
      else if \<exists>p \<in> set_option prev. pnode spec < pnode p \<or> pnode spec = pnode p \<and> pport spec \<le> pport p then Some (Inl EINVAL)
      else port_specs_loop left (Some spec) (c + 1) specs)
   }"

definition validate_port_specs :: "sol_flow_static_port_spec list option \<Rightarrow> (errno + nat) option" where
  "validate_port_specs specs =
     (case specs of None \<Rightarrow> Some (Inr 0)
      | Some specs \<Rightarrow> do {
          r \<leftarrow> port_specs_loop UINT16_MAX None 0 specs;
          Some (case r of Inl e \<Rightarrow> Inl e | Inr c \<Rightarrow> if c = UINT16_MAX then Inl E2BIG else Inr c)
        })"

definition teardown_exported_ports_specs :: "flow_static_type \<Rightarrow> flow_static_type" where
  "teardown_exported_ports_specs type =
     (let type = (if ports_in_count type > 0 then type\<lparr>ports_in := [], ports_in_base_conn_id := []\<rparr> else type)
      in if ports_out_count type > 0 then type\<lparr>ports_out := [], ports_out_base_conn_id := []\<rparr> else type)"

text \<open>An exported port has the packet type of the port it stands for and the flow's own callbacks.\<close>

definition exported_port_in :: "flow_static_type \<Rightarrow> sol_flow_static_port_spec \<Rightarrow> sol_flow_port_type_in option" where
  "exported_port_in type spec = do {
     t \<leftarrow> mem_get (pnode spec) (node_specs type);
     port \<leftarrow> sol_flow_node_type_get_port_in t (pport spec);
     Some \<lparr>pin_api = True, pin_packet_type = pin_packet_type port, pin_process = True, pin_connect = True, pin_disconnect = True\<rparr>
   }"

definition exported_port_out :: "flow_static_type \<Rightarrow> sol_flow_static_port_spec \<Rightarrow> sol_flow_port_type_out option" where
  "exported_port_out type spec = do {
     t \<leftarrow> mem_get (pnode spec) (node_specs type);
     port \<leftarrow> sol_flow_node_type_get_port_out t (pport spec);
     Some \<lparr>pout_api = True, pout_packet_type = pout_packet_type port, pout_connect = True, pout_disconnect = True\<rparr>
   }"

fun exported_ports_loop :: "('p \<Rightarrow> 'q option) \<Rightarrow> nat \<Rightarrow> nat \<Rightarrow> 'p list \<Rightarrow> 'q list \<Rightarrow> 'q list option" where
  "exported_ports_loop f 0 u specs ports = Some ports"
| "exported_ports_loop f (Suc left) u specs ports = do {
     spec \<leftarrow> mem_get u specs;
     port \<leftarrow> f spec;
     exported_ports_loop f left (u + 1) specs (ports @ [port])
   }"

text \<open>Both arrays are allocated before either is looked at; a port type has 40 and 32 bytes.\<close>

definition setup_exported_in :: "nat libc \<Rightarrow> nat \<Rightarrow> flow_static_type \<Rightarrow> type_result" where
  "setup_exported_in l in_count type =
     (if in_count = 0 then Some (Inr (), type)
      else
        let type = type\<lparr>ports_in_count := in_count\<rparr>
        in if \<not> alloc_ok l (40 * in_count) \<or> \<not> alloc_ok l (2 * in_count)
           then Some (Inl ENOMEM, teardown_exported_ports_specs type)
           else do {
             specs \<leftarrow> exported_in_specs type;
             ports \<leftarrow> exported_ports_loop (exported_port_in type) in_count 0 specs [];
             Some (Inr (), type\<lparr>ports_in := ports, ports_in_base_conn_id := replicate in_count 0\<rparr>)
           })"

definition setup_exported_out :: "nat libc \<Rightarrow> nat \<Rightarrow> flow_static_type \<Rightarrow> type_result" where
  "setup_exported_out l out_count type =
     (if out_count = 0 then Some (Inr (), type)
      else
        let type = type\<lparr>ports_out_count := out_count\<rparr>
        in if \<not> alloc_ok l (32 * out_count) \<or> \<not> alloc_ok l (2 * out_count)
           then Some (Inl ENOMEM, teardown_exported_ports_specs type)
           else do {
             specs \<leftarrow> exported_out_specs type;
             ports \<leftarrow> exported_ports_loop (exported_port_out type) out_count 0 specs [];
             Some (Inr (), type\<lparr>ports_out := ports, ports_out_base_conn_id := replicate out_count 0\<rparr>)
           })"

definition setup_exported_ports_specs :: "nat libc \<Rightarrow> flow_static_type \<Rightarrow> type_result" where
  "setup_exported_ports_specs l type = do {
     ri \<leftarrow> validate_port_specs (exported_in_specs type);
     (case ri of Inl _ \<Rightarrow> Some (Inl EINVAL, type)
      | Inr in_count \<Rightarrow> do {
          ro \<leftarrow> validate_port_specs (exported_out_specs type);
          (case ro of Inl _ \<Rightarrow> Some (Inl EINVAL, type)
           | Inr out_count \<Rightarrow>
               on_ok (setup_exported_in l in_count
                   (type\<lparr>ports_in := [], ports_in_base_conn_id := [], ports_out := [], ports_out_base_conn_id := []\<rparr>))
                 (\<lambda>_ type. setup_exported_out l out_count type))
        })
   }"

section \<open>The whole type\<close>

definition flow_get_port_in :: "flow_static_type \<Rightarrow> nat \<Rightarrow> sol_flow_port_type_in option" where
  "flow_get_port_in type port = mem_get port (ports_in type)"

definition flow_get_port_out :: "flow_static_type \<Rightarrow> nat \<Rightarrow> sol_flow_port_type_out option" where
  "flow_get_port_out type port = mem_get port (ports_out type)"

definition flow_static_type_init :: "nat libc \<Rightarrow> sol_flow_static_spec \<Rightarrow> type_result" where
  "flow_static_type_init l spec =
     on_ok (setup_node_specs l
         \<lparr>node_specs = nodes spec, conn_specs = conns spec, exported_in_specs = exported_in spec,
          exported_out_specs = exported_out spec, node_infos = [], conn_infos = [], node_storage_size = 0, node_count = 0,
          conn_count = 0, ports_in_count = 0, ports_out_count = 0, ports_in = [], ports_out = [],
          ports_in_base_conn_id = [], ports_out_base_conn_id = [], owned_by_node = False\<rparr>) (\<lambda>_ type. do {
       (r, type) \<leftarrow> setup_conn_specs l type;
       (case r of Inl e \<Rightarrow> Some (Inl e, teardown_node_specs type)
        | Inr _ \<Rightarrow> do {
            (r, type) \<leftarrow> setup_exported_ports_specs l type;
            (case r of Inl e \<Rightarrow> Some (Inl e, teardown_node_specs (teardown_conn_specs type))
             | Inr _ \<Rightarrow> do { type \<leftarrow> setup_conn_ids type; Some (Inr (), type) })
          })
     })"

definition flow_static_type_fini :: "flow_static_type \<Rightarrow> flow_static_type" where
  "flow_static_type_fini type = teardown_node_specs (teardown_conn_specs (teardown_exported_ports_specs type))"

text \<open>The result \<open>None\<close> inside is NULL; the struct of the type itself has 232 bytes.\<close>

definition sol_flow_static_new_type :: "nat libc \<Rightarrow> bool \<Rightarrow> sol_flow_static_spec \<Rightarrow> flow_static_type option option" where
  "sol_flow_static_new_type l api_version_ok spec =
     (if \<not> api_version_ok \<or> \<not> alloc_ok l 232 then Some None
      else do {
        (r, type) \<leftarrow> flow_static_type_init l spec;
        Some (case r of Inl _ \<Rightarrow> None | Inr _ \<Rightarrow> Some type)
      })"

section \<open>Specifications that are accepted\<close>

text \<open>
  The arrays as an application writes them: what is before the guard. Behind the guard there may be
  anything.
\<close>

definition node_array :: "sol_flow_node_type list \<Rightarrow> sol_flow_node_type option list \<Rightarrow> bool" where
  "node_array ts specs \<longleftrightarrow> (\<exists>rest. specs = map Some ts @ None # rest)"

definition conn_array :: "sol_flow_static_conn_spec list \<Rightarrow> sol_flow_static_conn_spec list \<Rightarrow> bool" where
  "conn_array cs specs \<longleftrightarrow> (\<exists>g rest. specs = cs @ g # rest \<and> src g = UINT16_MAX) \<and> (\<forall>c \<in> set cs. src c \<noteq> UINT16_MAX)"

definition storage_of :: "sol_flow_node_type list \<Rightarrow> nat" where
  "storage_of ts = sum_list (map calc_node_size ts)"

definition conn_le :: "sol_flow_static_conn_spec \<Rightarrow> sol_flow_static_conn_spec \<Rightarrow> bool" where
  "conn_le a b \<longleftrightarrow> src a < src b \<or> src a = src b \<and> src_port a \<le> src_port b"

definition conn_valid :: "sol_flow_node_type list \<Rightarrow> sol_flow_static_conn_spec \<Rightarrow> bool" where
  "conn_valid ts c \<longleftrightarrow> src c < length ts \<and> dst c < length ts \<and>
     (src_port c = SOL_FLOW_NODE_PORT_ERROR \<or> src_port c < nt_ports_out_count (ts ! src c)) \<and>
     dst_port c < nt_ports_in_count (ts ! dst c)"

lemma calc_node_size_le: "calc_node_size t \<le> UINT_MAX"
  by (simp add: calc_node_size_def align_to_ptr_def UINT_MAX_def)

lemma node_specs_loop_eq:
  assumes "node_array ts specs" and "count + length us = length ts" and "us = drop count ts" and "sz \<le> UINT_MAX"
  shows "node_specs_loop left specs count sz =
    (if sz + storage_of (take left us) \<le> UINT_MAX then Some (Inr (count + length (take left us), sz + storage_of (take left us)))
     else Some (Inl ENOMEM))"
  using assms(2-4)
proof (induction us arbitrary: left count sz)
  case Nil
  then have "mem_get count specs = Some None" using assms(1) by (auto simp: node_array_def mem_get_def nth_append)
  then show ?case using Nil by (cases left) (simp_all add: storage_of_def)
next
  case (Cons u us)
  have lt: "count < length ts" using Cons.prems(1) by simp
  then have "u = ts ! count" and us: "us = drop (count + 1) ts" using Cons.prems(2) [folded Cons_nth_drop_Suc [OF lt]] by simp_all
  then have u: "mem_get count specs = Some (Some u)" using lt assms(1) by (auto simp: node_array_def mem_get_def nth_append)
  show ?case
  proof (cases left)
    case 0
    then show ?thesis using Cons.prems by (simp add: storage_of_def)
  next
    case (Suc k)
    have guard: "UINT_MAX - calc_node_size u < sz \<longleftrightarrow> UINT_MAX < sz + calc_node_size u"
      using calc_node_size_le [of u] Cons.prems(3) by linarith
    show ?thesis
      using Cons.IH [of "count + 1" "sz + calc_node_size u" k] us u guard Cons.prems(1,3)
      by (auto simp: Suc storage_of_def)
  qed
qed

text \<open>The first connection of a source, 0 for a node without connections.\<close>

definition first_idx :: "sol_flow_static_conn_spec list \<Rightarrow> nat \<Rightarrow> nat" where
  "first_idx cs n = (if n \<in> src ` set cs then length (takeWhile (\<lambda>c. src c \<noteq> n) cs) else 0)"

lemma first_idx_snoc:
  "first_idx (cs @ [c]) n = (if n \<in> src ` set cs then first_idx cs n else if n = src c then length cs else 0)"
proof -
  have "takeWhile (\<lambda>c. src c \<noteq> n) (cs @ [c]) = takeWhile (\<lambda>c. src c \<noteq> n) cs" if "n \<in> src ` set cs"
    using that by (auto simp: takeWhile_append1)
  moreover have "takeWhile (\<lambda>c. src c \<noteq> n) (cs @ [c]) = cs @ takeWhile (\<lambda>c. src c \<noteq> n) [c]" if "n \<notin> src ` set cs"
    using that by (subst takeWhile_append2) auto
  ultimately show ?thesis by (auto simp: first_idx_def)
qed

definition conns_sorted :: "sol_flow_static_conn_spec list \<Rightarrow> bool" where
  "conns_sorted cs \<longleftrightarrow> sorted_wrt conn_le cs"

lemma conns_sorted_snoc: "conns_sorted (cs @ [c]) \<longleftrightarrow> conns_sorted cs \<and> (cs = [] \<or> conn_le (last cs) c)"
proof -
  have "conn_le x y \<Longrightarrow> conn_le y z \<Longrightarrow> conn_le x z" for x y z by (auto simp: conn_le_def)
  then have "conns_sorted cs \<Longrightarrow> cs \<noteq> [] \<Longrightarrow> conn_le (last cs) c \<Longrightarrow> \<forall>x \<in> set cs. conn_le x c"
    by (cases cs rule: rev_cases) (auto simp: conns_sorted_def sorted_wrt_append)
  then show ?thesis by (cases "cs = []") (auto simp: conns_sorted_def sorted_wrt_append)
qed

lemma is_valid_spec_eq:
  assumes "node_array ts (node_specs t)" and "node_count t = length ts"
  shows "is_valid_spec t c = Some (conn_valid ts c)"
proof -
  have "spec_type t i = Some (ts ! i)" if "i < length ts" for i
    using assms(1) that by (auto simp: spec_type_def node_array_def mem_get_def nth_append)
  then show ?thesis
    by (auto simp: is_valid_spec_def conn_valid_def assms(2) flow_port_out_is_valid_def flow_port_in_is_valid_def not_less)
qed

lemma conn_specs_loop_eq:
  assumes "conn_array cs (conn_specs t)" and ts: "node_array ts (node_specs t)" "node_count t = length ts"
    and "count + length us = length cs" and "us = drop count cs" and "conns_sorted (take count cs)"
    and "\<forall>c \<in> set (take count cs). conn_valid ts c"
    and "prev = (if count = 0 then None else Some (last (take count cs)))"
    and "node_infos t = map (first_idx (take count cs)) [0..<length ts]"
  obtains (bad) t' where "conn_specs_loop left prev count t = Some (Inl EINVAL, t')"
      and "\<not> (conns_sorted (take (count + left) cs) \<and> (\<forall>c \<in> set (take (count + left) cs). conn_valid ts c))"
    | (good) "conn_specs_loop left prev count t = Some (Inr (min (length cs) (count + left)),
          t\<lparr>node_infos := map (first_idx (take (count + left) cs)) [0..<length ts]\<rparr>)"
      and "conns_sorted (take (count + left) cs)" and "\<forall>c \<in> set (take (count + left) cs). conn_valid ts c"
proof -
  have sub: "conns_sorted (take m cs) \<and> (\<forall>c \<in> set (take m cs). conn_valid ts c)"
    if "conns_sorted (take k cs) \<and> (\<forall>c \<in> set (take k cs). conn_valid ts c)" "m \<le> k" for m k
  proof -
    have "take k cs = take m cs @ drop m (take k cs)" using that(2) by (metis append_take_drop_id min.absorb1 take_take)
    then show ?thesis using that(1) by (metis Un_iff conns_sorted_def set_append sorted_wrt_append)
  qed
  let ?good = "\<lambda>count left. conns_sorted (take (count + left) cs) \<and> (\<forall>c \<in> set (take (count + left) cs). conn_valid ts c)"
  have "(\<exists>t'. conn_specs_loop left prev count t = Some (Inl EINVAL, t') \<and> \<not> ?good count left) \<or>
    (conn_specs_loop left prev count t = Some (Inr (min (length cs) (count + left)),
          t\<lparr>node_infos := map (first_idx (take (count + left) cs)) [0..<length ts]\<rparr>) \<and> ?good count left)"
    using assms
  proof (induction us arbitrary: left count prev t)
    case Nil
    then have "count = length cs" by simp
    then obtain g where "mem_get count (conn_specs t) = Some g" "src g = UINT16_MAX"
      using Nil.prems(1) by (auto simp: conn_array_def mem_get_def nth_append)
    then show ?case using Nil.prems \<open>count = length cs\<close> by (cases left) auto
  next
    case (Cons u us)
    have lt: "count < length cs" using Cons.prems(4) by simp
    have "u = cs ! count" and us: "us = drop (count + 1) cs" using Cons.prems(5) [folded Cons_nth_drop_Suc [OF lt]] by simp_all
    then have u: "mem_get count (conn_specs t) = Some u" "src u \<noteq> UINT16_MAX"
      using lt Cons.prems(1) by (auto simp: conn_array_def mem_get_def nth_append)
    have t1: "take (count + 1) cs = take count cs @ [u]" using lt \<open>u = cs ! count\<close> by (simp add: take_Suc_conv_app_nth)
    show ?case
    proof (cases left)
      case 0
      then show ?thesis using Cons.prems lt by (auto intro!: disjI2)
    next
      case (Suc k)
      note step = u is_valid_spec_eq [OF Cons.prems(2,3), of u]
      show ?thesis
      proof (cases "conn_valid ts u \<and> conns_sorted (take count cs @ [u])")
        case False
        then have "\<not> ?good count left" using sub [of "count + left" "count + 1"] t1 Suc by (auto simp: conns_sorted_snoc)
        moreover have "\<exists>t'. conn_specs_loop left prev count t = Some (Inl EINVAL, t')"
          using False step Cons.prems lt
          by (auto simp: Suc conns_sorted_snoc conn_le_def mem_set_def conn_valid_def split: if_splits)
        ultimately show ?thesis by blast
      next
        case True
        define infos where "infos = map (first_idx (take (count + 1) cs)) [0..<length ts]"
        have run: "conn_specs_loop left prev count t = conn_specs_loop k (Some u) (count + 1) (t\<lparr>node_infos := infos\<rparr>)"
        proof -
          have before: "src c \<le> src u" if "c \<in> set (take count cs)" for c
            using True that by (auto simp: conns_sorted_def sorted_wrt_append conn_le_def)
          have new: "src u \<notin> src ` set (take count cs)" if "\<forall>p \<in> set_option prev. src u \<noteq> src p"
          proof
            assume "src u \<in> src ` set (take count cs)"
            then obtain c where c: "c \<in> set (take count cs)" "src c = src u" by auto
            then have "count \<noteq> 0" by (cases count) auto
            then have "last (take count cs) \<in> set (take count cs)" using lt by (intro last_in_set) auto
            have "src c \<le> src (last (take count cs))"
            proof (cases "take count cs" rule: rev_cases)
              case (snoc ys y)
              then show ?thesis using c(1) Cons.prems(6) by (auto simp: conns_sorted_def sorted_wrt_append conn_le_def)
            qed (use c in \<open>auto simp del: take_eq_Nil\<close>)
            then have "src u = src (last (take count cs))" using c(2) before [OF \<open>last (take count cs) \<in> _\<close>] by simp
            then show False using that Cons.prems(8) \<open>count \<noteq> 0\<close> by simp
          qed
          have len: "length (take count cs) = count" using lt by simp
          have upd: "(node_infos t)[src u := count] = infos" if "\<forall>p \<in> set_option prev. src u \<noteq> src p"
          proof -
            have "first_idx (take count cs @ [u]) n = (if n = src u then count else first_idx (take count cs) n)" for n
              using new [OF that] unfolding first_idx_snoc len by (auto simp: first_idx_def)
            then show ?thesis
              using True unfolding infos_def t1 Cons.prems(9) by (intro nth_equalityI) (auto simp: nth_list_update)
          qed
          have same: "node_infos t = infos" if "\<not> (\<forall>p \<in> set_option prev. src u \<noteq> src p)"
          proof -
            have "src u \<in> src ` set (take count cs)" using that Cons.prems(8) lt by (auto split: if_splits intro!: imageI last_in_set)
            then have "first_idx (take count cs @ [u]) n = first_idx (take count cs) n" for n
              unfolding first_idx_snoc by (auto simp: first_idx_def)
            then show ?thesis unfolding infos_def t1 Cons.prems(9) by simp
          qed
          have order: "\<not> (\<exists>p \<in> set_option prev. src u < src p \<or> src u = src p \<and> src_port u < src_port p)"
            using True Cons.prems(8) lt by (auto simp: conns_sorted_snoc conn_le_def split: if_splits)
          have bound: "src u < length (node_infos t)" using True Cons.prems(9) by (simp add: conn_valid_def)
          show ?thesis
            using step True order upd same bound by (auto simp: Suc mem_set_def)
        qed
        have "(\<exists>t'. conn_specs_loop k (Some u) (count + 1) (t\<lparr>node_infos := infos\<rparr>) = Some (Inl EINVAL, t') \<and> \<not> ?good (count + 1) k) \<or>
          (conn_specs_loop k (Some u) (count + 1) (t\<lparr>node_infos := infos\<rparr>) = Some (Inr (min (length cs) (count + 1 + k)),
             t\<lparr>node_infos := infos\<rparr>\<lparr>node_infos := map (first_idx (take (count + 1 + k) cs)) [0..<length ts]\<rparr>) \<and> ?good (count + 1) k)"
          by (rule Cons.IH) (use Cons.prems(1-4,7) lt us t1 True in \<open>auto simp: infos_def\<close>)
        then show ?thesis unfolding run by (simp add: Suc)
      qed
    qed
  qed
  then show thesis using bad good by blast
qed

section \<open>Connection identifiers\<close>

definition ins :: "sol_flow_static_conn_spec list \<Rightarrow> nat \<Rightarrow> nat \<Rightarrow> nat" where
  "ins cs n p = length (filter (\<lambda>c. dst c = n \<and> dst_port c = p) cs)"

definition outs :: "sol_flow_static_conn_spec list \<Rightarrow> nat \<Rightarrow> nat \<Rightarrow> nat" where
  "outs cs n p = length (filter (\<lambda>c. src c = n \<and> src_port c = p) cs)"

text \<open>
  The identifiers once the ports of \<open>V\<close> were visited: a connection's number among those from, and among
  those to, the same port; 0 where the port was not visited.
\<close>

definition ids_at :: "(nat \<times> nat) set \<Rightarrow> sol_flow_static_conn_spec list \<Rightarrow> nat \<Rightarrow> conn_info" where
  "ids_at V cs j = (let c = cs ! j in
     \<lparr>out_conn_id = if (src c, src_port c) \<in> V then outs (take j cs) (src c) (src_port c) else 0,
      in_conn_id = if (dst c, dst_port c) \<in> V then ins (take j cs) (dst c) (dst_port c) else 0\<rparr>)"

definition id_infos :: "(nat \<times> nat) set \<Rightarrow> sol_flow_static_conn_spec list \<Rightarrow> conn_info list" where
  "id_infos V cs = map (ids_at V cs) [0..<length cs]"

lemma conn_ids_loop_eq:
  assumes "conn_array cs specs" and "i + left = length cs"
    and "infos = map (\<lambda>j. if j < i then ids_at (insert (n, p) V) cs j else ids_at V cs j) [0..<length cs]"
  shows "conn_ids_loop n p specs left i (ins (take i cs) n p) (outs (take i cs) n p) infos =
    Some (ins cs n p, outs cs n p, id_infos (insert (n, p) V) cs)"
  using assms(2-3)
proof (induction left arbitrary: i infos)
  case 0
  then show ?case by (auto simp: id_infos_def)
next
  case (Suc left)
  let ?V = "insert (n, p) V"
  have i: "i < length cs" "mem_get i specs = Some (cs ! i)" "mem_get i infos = Some (ids_at V cs i)"
    using Suc.prems assms(1) by (auto simp: conn_array_def mem_get_def nth_append)
  let ?c = "cs ! i"
  have upd: "infos[i := ids_at ?V cs i] = map (\<lambda>j. if j < Suc i then ids_at ?V cs j else ids_at V cs j) [0..<length cs]"
    by (rule nth_equalityI) (auto simp: Suc.prems(2) nth_list_update less_Suc_eq)
  have step: "take (Suc i) cs = take i cs @ [?c]" using i(1) by (simp add: take_Suc_conv_app_nth)
  have cnt: "ins (take (Suc i) cs) n p = (if dst ?c = n \<and> dst_port ?c = p then ins (take i cs) n p + 1 else ins (take i cs) n p)"
    "outs (take (Suc i) cs) n p = (if src ?c = n \<and> src_port ?c = p then outs (take i cs) n p + 1 else outs (take i cs) n p)"
    by (simp_all add: ins_def outs_def step)
  have ids: "ids_at ?V cs i =
      (let ci = ids_at V cs i; ci = (if dst ?c = n \<and> dst_port ?c = p then ci\<lparr>in_conn_id := ins (take i cs) n p\<rparr> else ci)
       in if src ?c = n \<and> src_port ?c = p then ci\<lparr>out_conn_id := outs (take i cs) n p\<rparr> else ci)"
    by (auto simp: ids_at_def Let_def)
  have "conn_ids_loop n p specs left (Suc i) (ins (take (Suc i) cs) n p) (outs (take (Suc i) cs) n p) (infos[i := ids_at ?V cs i]) =
      Some (ins cs n p, outs cs n p, id_infos ?V cs)"
    by (rule Suc.IH) (use Suc.prems(1) upd in simp_all)
  then show ?case using i(2,3) unfolding cnt ids by (simp add: Let_def)
qed

definition port_less :: "sol_flow_static_port_spec \<Rightarrow> nat \<Rightarrow> nat \<Rightarrow> bool" where
  "port_less e n p \<longleftrightarrow> pnode e < n \<or> pnode e = n \<and> pport e < p"

definition ports_sorted :: "sol_flow_static_port_spec list \<Rightarrow> bool" where
  "ports_sorted es \<longleftrightarrow> sorted_wrt (\<lambda>a b. port_less a (pnode b) (pport b)) es"

definition port_array :: "sol_flow_static_port_spec list \<Rightarrow> sol_flow_static_port_spec list option \<Rightarrow> bool" where
  "port_array es specs \<longleftrightarrow> (case specs of None \<Rightarrow> es = []
     | Some xs \<Rightarrow> \<exists>g rest. xs = es @ g # rest \<and> pnode g = UINT16_MAX \<and> (\<forall>e \<in> set es. pnode e \<noteq> UINT16_MAX))"

text \<open>The ports that the numbering reaches: those below the number of output ports of their node.\<close>

definition numbered :: "sol_flow_node_type list \<Rightarrow> sol_flow_static_port_spec \<Rightarrow> bool" where
  "numbered ts e \<longleftrightarrow> pnode e < length ts \<and> pport e < nt_ports_out_count (ts ! pnode e)"

text \<open>How many exported ports the walk over the ports has met before port \<open>p\<close> of node \<open>n\<close>, and their numbers.\<close>

definition met :: "sol_flow_node_type list \<Rightarrow> sol_flow_static_port_spec list \<Rightarrow> nat \<Rightarrow> nat \<Rightarrow> nat" where
  "met ts es n p = length (takeWhile (\<lambda>e. port_less e n p \<and> numbered ts e) es)"

definition bases :: "(nat \<Rightarrow> nat \<Rightarrow> nat) \<Rightarrow> nat \<Rightarrow> sol_flow_static_port_spec list \<Rightarrow> nat list" where
  "bases f k es = map (\<lambda>i. if i < k then f (pnode (es ! i)) (pport (es ! i)) else 0) [0..<length es]"

lemma takeWhile_extend:
  assumes "\<And>x. x \<in> set xs \<Longrightarrow> Q x \<longleftrightarrow> P x \<or> x = y" and "distinct xs"
    and "\<And>i j. i < j \<Longrightarrow> j < length xs \<Longrightarrow> xs ! i = y \<Longrightarrow> \<not> P (xs ! j)"
  shows "takeWhile Q xs = takeWhile P xs @ (if length (takeWhile P xs) < length xs \<and> xs ! length (takeWhile P xs) = y \<and> \<not> P y then [y] else [])"
  using assms
proof (induction xs)
  case (Cons x xs)
  show ?case
  proof (cases "P x")
    case True
    have "takeWhile Q xs = takeWhile P xs @ (if length (takeWhile P xs) < length xs \<and> xs ! length (takeWhile P xs) = y \<and> \<not> P y then [y] else [])"
    proof (rule Cons.IH)
      show "\<not> P (xs ! j)" if "i < j" "j < length xs" "xs ! i = y" for i j using Cons.prems(3) [of "Suc i" "Suc j"] that by simp
    qed (use Cons.prems in auto)
    then show ?thesis using True Cons.prems(1) [of x] by simp
  next
    case False
    show ?thesis
    proof (cases "x = y")
      case True
      have "takeWhile Q xs = []"
      proof (cases xs)
        case (Cons z zs)
        have "\<not> P z" using Cons.prems(3) [of 0 1] True Cons by simp
        then show ?thesis using Cons.prems(1) [of z] Cons.prems(2) True Cons by auto
      qed simp
      then show ?thesis using False True Cons.prems(1) [of x] by simp
    qed (use False Cons.prems(1) [of x] in simp)
  qed
qed simp

lemma ports_sorted_distinct: "ports_sorted es \<Longrightarrow> distinct es"
  by (induction es) (auto simp: ports_sorted_def port_less_def)

lemma met_step:
  assumes "ports_sorted es" and "n < length ts" and "p < nt_ports_out_count (ts ! n)"
  shows "met ts es n (Suc p) = met ts es n p +
    (if met ts es n p < length es \<and> pnode (es ! met ts es n p) = n \<and> pport (es ! met ts es n p) = p then 1 else 0)"
proof -
  let ?e = "\<lparr>pnode = n, pport = p\<rparr>"
  have eq: "e = ?e \<longleftrightarrow> pnode e = n \<and> pport e = p" for e :: sol_flow_static_port_spec by (cases e) simp
  have "takeWhile (\<lambda>e. port_less e n (Suc p) \<and> numbered ts e) es = takeWhile (\<lambda>e. port_less e n p \<and> numbered ts e) es @
     (if met ts es n p < length es \<and> es ! met ts es n p = ?e \<and> \<not> (port_less ?e n p \<and> numbered ts ?e) then [?e] else [])"
    unfolding met_def
  proof (rule takeWhile_extend [OF _ ports_sorted_distinct [OF assms(1)]])
    show "\<not> (port_less (es ! j) n p \<and> numbered ts (es ! j))" if "i < j" "j < length es" "es ! i = ?e" for i j
    proof -
      have "port_less (es ! i) (pnode (es ! j)) (pport (es ! j))"
        using assms(1) that(1,2) by (auto simp: ports_sorted_def sorted_wrt_iff_nth_less)
      then show ?thesis using that(3) by (auto simp: port_less_def)
    qed
  qed (use assms(2,3) in \<open>auto simp: port_less_def numbered_def eq less_Suc_eq\<close>)
  from arg_cong [OF this, of length] show ?thesis by (auto simp: met_def eq port_less_def)
qed

lemma met_next_node: "n < length ts \<Longrightarrow> met ts es (Suc n) 0 = met ts es n (nt_ports_out_count (ts ! n))"
proof -
  have "port_less e (Suc n) 0 \<and> numbered ts e \<longleftrightarrow> port_less e n (nt_ports_out_count (ts ! n)) \<and> numbered ts e" for e
    by (auto simp: port_less_def numbered_def less_Suc_eq)
  then show ?thesis by (simp add: met_def)
qed

lemma met_le: "met ts es n p \<le> length es"
  by (simp add: met_def length_takeWhile_le)

lemma export_base_eq:
  assumes "es = [] \<or> port_array es specs" and "ports_sorted es" and "n < length ts" and "p < nt_ports_out_count (ts ! n)"
    and "conn_id = f n p"
  shows "export_base n p (length es) (met ts es n p) conn_id specs (bases f (met ts es n p) es) =
    Some (met ts es n (Suc p), bases f (met ts es n (Suc p)) es)"
proof (cases "met ts es n p < length es")
  case True
  let ?k = "met ts es n p"
  have "es \<noteq> []" using True by auto
  then obtain xs where xs: "specs = Some xs" "mem_get ?k xs = Some (es ! ?k)"
    using assms(1) True by (auto simp: port_array_def mem_get_def nth_append split: option.splits)
  have "(bases f ?k es)[?k := conn_id] = bases f (Suc ?k) es" if "pnode (es ! ?k) = n" "pport (es ! ?k) = p"
    using that assms(5) by (intro nth_equalityI) (auto simp: bases_def nth_list_update less_Suc_eq)
  moreover have "?k < length (bases f ?k es)" using True by (simp add: bases_def)
  ultimately show ?thesis
    using True xs met_step [OF assms(2,3,4)] by (auto simp: export_base_def mem_set_def)
next
  case False
  then show ?thesis using met_step [OF assms(2,3,4)] by (simp add: export_base_def)
qed

text \<open>What the numbering works on, and the tables after the ports of \<open>V\<close> and before port \<open>p\<close> of node \<open>n\<close>.\<close>

definition flow_spec :: "sol_flow_node_type list \<Rightarrow> sol_flow_static_conn_spec list \<Rightarrow> sol_flow_static_port_spec list
    \<Rightarrow> sol_flow_static_port_spec list \<Rightarrow> flow_static_type \<Rightarrow> bool" where
  "flow_spec ts cs ei eo t \<longleftrightarrow> node_array ts (node_specs t) \<and> node_count t = length ts \<and>
     conn_array cs (conn_specs t) \<and> conn_count t = length cs \<and>
     (ei = [] \<or> port_array ei (exported_in_specs t)) \<and> ports_sorted ei \<and> ports_in_count t = length ei \<and>
     (eo = [] \<or> port_array eo (exported_out_specs t)) \<and> ports_sorted eo \<and> ports_out_count t = length eo"

definition with_ids :: "sol_flow_node_type list \<Rightarrow> sol_flow_static_conn_spec list \<Rightarrow> sol_flow_static_port_spec list
    \<Rightarrow> sol_flow_static_port_spec list \<Rightarrow> (nat \<times> nat) set \<Rightarrow> nat \<Rightarrow> nat \<Rightarrow> flow_static_type \<Rightarrow> flow_static_type" where
  "with_ids ts cs ei eo V n p t = t\<lparr>conn_infos := id_infos V cs,
     ports_in_base_conn_id := bases (ins cs) (met ts ei n p) ei, ports_out_base_conn_id := bases (outs cs) (met ts eo n p) eo\<rparr>"

lemma port_conn_ids_eq:
  assumes "flow_spec ts cs ei eo t" and "n < length ts" and "p < nt_ports_out_count (ts ! n)"
  shows "port_conn_ids n p (met ts ei n p, met ts eo n p) (with_ids ts cs ei eo V n p t) =
    Some ((met ts ei n (Suc p), met ts eo n (Suc p)), with_ids ts cs ei eo (insert (n, p) V) n (Suc p) t)"
proof -
  note spec = assms(1) [unfolded flow_spec_def]
  have "conn_ids_loop n p (conn_specs t) (length cs) 0 0 0 (id_infos V cs) = Some (ins cs n p, outs cs n p, id_infos (insert (n, p) V) cs)"
    using conn_ids_loop_eq [of cs "conn_specs t" 0 "length cs" "id_infos V cs" n p V] spec by (simp add: ins_def outs_def id_infos_def)
  moreover have "export_base n p (length ei) (met ts ei n p) (ins cs n p) (exported_in_specs t) (bases (ins cs) (met ts ei n p) ei) =
      Some (met ts ei n (Suc p), bases (ins cs) (met ts ei n (Suc p)) ei)"
    by (rule export_base_eq) (use spec assms(2,3) in simp_all)
  moreover have "export_base n p (length eo) (met ts eo n p) (outs cs n p) (exported_out_specs t) (bases (outs cs) (met ts eo n p) eo) =
      Some (met ts eo n (Suc p), bases (outs cs) (met ts eo n (Suc p)) eo)"
    by (rule export_base_eq) (use spec assms(2,3) in simp_all)
  ultimately show ?thesis using spec by (simp add: port_conn_ids_def with_ids_def)
qed

definition ports_of :: "sol_flow_node_type list \<Rightarrow> nat \<Rightarrow> (nat \<times> nat) set" where
  "ports_of ts n = {(m, q). m < n \<and> q < nt_ports_out_count (ts ! m)}"

lemma ports_loop_eq:
  assumes "flow_spec ts cs ei eo t" and "n < length ts" and "p + left = nt_ports_out_count (ts ! n)"
  shows "ports_loop n left p (met ts ei n p, met ts eo n p) (with_ids ts cs ei eo V n p t) =
    Some ((met ts ei (Suc n) 0, met ts eo (Suc n) 0), with_ids ts cs ei eo (V \<union> Pair n ` {p..<p + left}) (Suc n) 0 t)"
  using assms(3)
proof (induction left arbitrary: p V)
  case 0
  then show ?case using met_next_node [OF assms(2)] by (simp add: with_ids_def)
next
  case (Suc left)
  have "insert (n, p) V \<union> Pair n ` {Suc p..<Suc p + left} = V \<union> Pair n ` {p..<p + Suc left}"
    by (auto simp: image_iff)
  then show ?case
    using port_conn_ids_eq [OF assms(1,2), of p V] Suc.IH [of "Suc p" "insert (n, p) V"] Suc.prems by simp
qed

lemma nodes_loop_eq:
  assumes "flow_spec ts cs ei eo t" and "n + left = length ts"
  shows "nodes_loop left n (met ts ei n 0, met ts eo n 0) (with_ids ts cs ei eo (V \<union> ports_of ts n) n 0 t) =
    Some (with_ids ts cs ei eo (V \<union> ports_of ts (length ts)) (length ts) 0 t)"
  using assms(2)
proof (induction left arbitrary: n)
  case 0
  then show ?case by simp
next
  case (Suc left)
  have "spec_type (with_ids ts cs ei eo (V \<union> ports_of ts n) n 0 t) n = Some (ts ! n)"
    using assms(1) Suc.prems
    by (auto simp: spec_type_def with_ids_def flow_spec_def node_array_def mem_get_def nth_append)
  moreover have "V \<union> ports_of ts n \<union> Pair n ` {0..<0 + nt_ports_out_count (ts ! n)} = V \<union> ports_of ts (Suc n)"
    by (auto simp: ports_of_def less_Suc_eq)
  ultimately show ?case
    using ports_loop_eq [OF assms(1), of n 0 "nt_ports_out_count (ts ! n)" "V \<union> ports_of ts n"] Suc.IH [of "Suc n"] Suc.prems
    by simp
qed

lemma setup_conn_ids_eq:
  assumes "flow_spec ts cs ei eo t" and "conn_infos t = id_infos V cs"
    and "ports_in_base_conn_id t = replicate (length ei) 0" and "ports_out_base_conn_id t = replicate (length eo) 0"
  shows "setup_conn_ids t = Some (with_ids ts cs ei eo (V \<union> ports_of ts (length ts)) (length ts) 0 t)"
proof -
  have "port_less e 0 0 = False" for e by (simp add: port_less_def)
  then have z: "met ts es 0 0 = 0" for es by (cases es) (simp_all add: met_def)
  have b: "bases f 0 es = replicate (length es) 0" for f es by (auto simp: bases_def intro: nth_equalityI)
  have "with_ids ts cs ei eo (V \<union> ports_of ts 0) 0 0 t = t"
    using assms(2-4) by (simp add: with_ids_def z b ports_of_def)
  then show ?thesis
    using nodes_loop_eq [OF assms(1), of 0 "length ts" V] assms(1) by (simp add: setup_conn_ids_def z flow_spec_def)
qed

section \<open>Building a type\<close>

lemma ports_sorted_snoc: "ports_sorted (es @ [e]) \<longleftrightarrow> ports_sorted es \<and> (es = [] \<or> port_less (last es) (pnode e) (pport e))"
proof -
  have "port_less x (pnode y) (pport y) \<Longrightarrow> port_less y (pnode z) (pport z) \<Longrightarrow> port_less x (pnode z) (pport z)" for x y z
    by (auto simp: port_less_def)
  then have "ports_sorted es \<Longrightarrow> es \<noteq> [] \<Longrightarrow> port_less (last es) (pnode e) (pport e) \<Longrightarrow> \<forall>x \<in> set es. port_less x (pnode e) (pport e)"
    by (cases es rule: rev_cases) (auto simp: ports_sorted_def sorted_wrt_append)
  then show ?thesis by (cases "es = []") (auto simp: ports_sorted_def sorted_wrt_append)
qed

lemma ports_sorted_take: "ports_sorted es \<Longrightarrow> ports_sorted (take k es)"
  by (simp add: ports_sorted_def sorted_wrt_take)

lemma port_specs_loop_eq:
  assumes "xs = es @ g # rest" and "pnode g = UINT16_MAX" and "\<forall>e \<in> set es. pnode e \<noteq> UINT16_MAX"
    and "c + length us = length es" and "us = drop c es" and "ports_sorted (take c es)"
    and "prev = (if c = 0 then None else Some (last (take c es)))"
  shows "port_specs_loop left prev c xs =
    Some (if ports_sorted (take (c + left) es) then Inr (min (length es) (c + left)) else Inl EINVAL)"
  using assms(4-7)
proof (induction us arbitrary: left c prev)
  case Nil
  then show ?case using assms(1,2) by (cases left) (simp_all add: mem_get_def)
next
  case (Cons u us)
  have lt: "c < length es" using Cons.prems(1) by simp
  have "u = es ! c" and us: "us = drop (c + 1) es" using Cons.prems(2) [folded Cons_nth_drop_Suc [OF lt]] by simp_all
  then have u: "mem_get c xs = Some u" "pnode u \<noteq> UINT16_MAX" using lt assms(1,3) by (auto simp: mem_get_def nth_append)
  have t1: "take (Suc c) es = take c es @ [u]" using lt \<open>u = es ! c\<close> by (simp add: take_Suc_conv_app_nth)
  show ?case
  proof (cases left)
    case 0
    then show ?thesis using Cons.prems(3) lt by simp
  next
    case (Suc k)
    have order: "(\<exists>p \<in> set_option prev. pnode u < pnode p \<or> pnode u = pnode p \<and> pport u \<le> pport p) \<longleftrightarrow> \<not> ports_sorted (take (Suc c) es)"
      using Cons.prems(3,4) lt unfolding t1 ports_sorted_snoc by (auto simp: port_less_def split: if_splits)
    have "ports_sorted (take (Suc (c + k)) es) \<Longrightarrow> ports_sorted (take (Suc c) es)"
      using ports_sorted_take [of "take (Suc (c + k)) es" "Suc c"] by (simp add: min_absorb1)
    moreover have "port_specs_loop k (Some u) (Suc c) xs =
        Some (if ports_sorted (take (Suc c + k) es) then Inr (min (length es) (Suc c + k)) else Inl EINVAL)"
      if "ports_sorted (take (Suc c) es)"
      by (rule Cons.IH) (use that us lt Cons.prems(1) t1 in simp_all)
    ultimately show ?thesis using u order by (auto simp: Suc)
  qed
qed

definition ports_accepted :: "sol_flow_static_port_spec list \<Rightarrow> bool" where
  "ports_accepted es \<longleftrightarrow> ports_sorted es \<and> length es < UINT16_MAX"

lemma validate_port_specs_eq:
  assumes "port_array es specs"
  obtains "ports_accepted es" and "validate_port_specs specs = Some (Inr (length es))"
    | e where "\<not> ports_accepted es" and "validate_port_specs specs = Some (Inl e)"
proof (cases specs)
  case None
  then show thesis using assms that(1) by (simp add: port_array_def validate_port_specs_def ports_accepted_def ports_sorted_def UINT16_MAX_def)
next
  case (Some xs)
  then obtain g rest where "xs = es @ g # rest" "pnode g = UINT16_MAX" "\<forall>e \<in> set es. pnode e \<noteq> UINT16_MAX"
    using assms by (auto simp: port_array_def)
  from port_specs_loop_eq [OF this, of 0 es None UINT16_MAX]
  have "port_specs_loop UINT16_MAX None 0 xs =
      Some (if ports_sorted (take UINT16_MAX es) then Inr (min (length es) UINT16_MAX) else Inl EINVAL)"
    by (simp add: ports_sorted_def)
  then have run: "validate_port_specs specs =
      Some (if ports_sorted (take UINT16_MAX es) then if min (length es) UINT16_MAX = UINT16_MAX then Inl E2BIG else Inr (length es)
        else Inl EINVAL)"
    using Some by (auto simp: validate_port_specs_def min_def)
  show thesis
  proof (cases "length es < UINT16_MAX")
    case True
    then show thesis using run that by (cases "ports_sorted es") (auto simp: ports_accepted_def)
  next
    case False
    then show thesis using run that(2) by (cases "ports_sorted (take UINT16_MAX es)") (auto simp: ports_accepted_def)
  qed
qed

lemma exported_ports_loop_eq:
  assumes "specs = es @ rest" and "\<forall>e \<in> set es. f e \<noteq> None" and "u + left = length es"
  shows "exported_ports_loop f left u specs ports = Some (ports @ map (the \<circ> f) (drop u es))"
  using assms(3)
proof (induction left arbitrary: u ports)
  case (Suc left)
  then have u: "u < length es" by simp
  then obtain q where "f (es ! u) = Some q" using assms(2) nth_mem by blast
  then show ?case using Suc.IH [of "Suc u"] Suc.prems u assms(1) Cons_nth_drop_Suc [OF u, symmetric]
    by (simp add: mem_get_def nth_append)
qed simp

lemma exported_ports_loop_None:
  assumes "specs = es @ rest" and "\<exists>e \<in> set (drop u es). f e = None" and "u + left = length es"
  shows "exported_ports_loop f left u specs ports = None"
  using assms(2,3)
proof (induction left arbitrary: u ports)
  case (Suc left)
  then have u: "u < length es" by simp
  then have "drop u es = es ! u # drop (Suc u) es" by (simp add: Cons_nth_drop_Suc)
  then show ?case using Suc.IH [of "Suc u"] Suc.prems u assms(1)
    by (cases "f (es ! u)") (simp_all add: mem_get_def nth_append)
qed simp

text \<open>
  The exported ports can be looked up: the place of the node array they name, which may lie behind the
  guard, holds a type, and this type has the port.
\<close>

definition exports_readable :: "sol_flow_node_type option list \<Rightarrow> sol_flow_static_port_spec list
    \<Rightarrow> sol_flow_static_port_spec list \<Rightarrow> bool" where
  "exports_readable ns ei eo \<longleftrightarrow>
     (\<forall>e \<in> set ei. \<exists>t. mem_get (pnode e) ns = Some t \<and> sol_flow_node_type_get_port_in t (pport e) \<noteq> None) \<and>
     (\<forall>e \<in> set eo. \<exists>t. mem_get (pnode e) ns = Some t \<and> sol_flow_node_type_get_port_out t (pport e) \<noteq> None)"

text \<open>The exported ports exist.\<close>

definition exports_exist :: "sol_flow_node_type list \<Rightarrow> sol_flow_static_port_spec list \<Rightarrow> sol_flow_static_port_spec list \<Rightarrow> bool" where
  "exports_exist ts ei eo \<longleftrightarrow>
     (\<forall>e \<in> set ei. pnode e < length ts \<and> sol_flow_node_type_get_port_in (Some (ts ! pnode e)) (pport e) \<noteq> None) \<and>
     (\<forall>e \<in> set eo. pnode e < length ts \<and> sol_flow_node_type_get_port_out (Some (ts ! pnode e)) (pport e) \<noteq> None)"

definition spec_accepted :: "sol_flow_node_type list \<Rightarrow> sol_flow_static_conn_spec list \<Rightarrow> sol_flow_static_port_spec list
    \<Rightarrow> sol_flow_static_port_spec list \<Rightarrow> bool" where
  "spec_accepted ts cs ei eo \<longleftrightarrow> ts \<noteq> [] \<and> length ts \<le> UINT16_MAX \<and> storage_of ts \<le> UINT_MAX \<and>
     length cs \<le> UINT16_MAX \<and> conns_sorted cs \<and> (\<forall>c \<in> set cs. conn_valid ts c) \<and> ports_accepted ei \<and> ports_accepted eo"

text \<open>The tables of a type.\<close>

definition flow_type_ok :: "sol_flow_node_type list \<Rightarrow> sol_flow_static_conn_spec list \<Rightarrow> sol_flow_static_port_spec list
    \<Rightarrow> sol_flow_static_port_spec list \<Rightarrow> flow_static_type \<Rightarrow> bool" where
  "flow_type_ok ts cs ei eo t \<longleftrightarrow> flow_spec ts cs ei eo t \<and> spec_accepted ts cs ei eo \<and> node_storage_size t = storage_of ts \<and>
     node_infos t = map (first_idx cs) [0..<length ts] \<and> conn_infos t = id_infos (ports_of ts (length ts)) cs \<and>
     ports_in_base_conn_id t = bases (ins cs) (met ts ei (length ts) 0) ei \<and>
     ports_out_base_conn_id t = bases (outs cs) (met ts eo (length ts) 0) eo \<and>
     ports_in t = map (the \<circ> exported_port_in t) ei \<and> ports_out t = map (the \<circ> exported_port_out t) eo"

lemma setup_node_specs_eq:
  assumes "node_array ts (node_specs t)" and "alloc_total l"
  obtains (ok) "ts \<noteq> []" "length ts \<le> UINT16_MAX" "storage_of ts \<le> UINT_MAX"
      and "setup_node_specs l t =
        Some (Inr (), t\<lparr>node_infos := replicate (length ts) 0, node_count := length ts, node_storage_size := storage_of ts\<rparr>)"
    | (err) e where "\<not> (ts \<noteq> [] \<and> length ts \<le> UINT16_MAX \<and> storage_of ts \<le> UINT_MAX)" and "setup_node_specs l t = Some (Inl e, t)"
proof -
  let ?us = "take UINT16_MAX ts"
  note run = node_specs_loop_eq [OF assms(1), of 0 ts 0 UINT16_MAX, simplified]
  have guard: "mem_get (length ?us) (node_specs t) = Some (if UINT16_MAX < length ts then Some (ts ! UINT16_MAX) else None)"
    using assms(1) by (auto simp: node_array_def mem_get_def nth_append)
  have l: "alloc_ok l n" for n using assms(2) by (simp add: alloc_total_def)
  have len: "length ?us = 0 \<longleftrightarrow> ts = []" by (auto simp: UINT16_MAX_def min_def split: if_splits)
  show thesis
  proof (cases "ts \<noteq> [] \<and> length ts \<le> UINT16_MAX \<and> storage_of ts \<le> UINT_MAX")
    case True
    then show thesis using run guard l by (intro ok) (simp_all add: setup_node_specs_def)
  next
    case False
    then have "\<exists>e. setup_node_specs l t = Some (Inl e, t)"
      using run guard l len by (auto simp: setup_node_specs_def split: if_splits)
    then show thesis using False err by blast
  qed
qed

lemma setup_conn_specs_eq:
  assumes "conn_array cs (conn_specs t)" and "node_array ts (node_specs t)" and "node_count t = length ts"
    and "node_infos t = replicate (length ts) 0" and "alloc_total l" and "ports_in_count t = 0" and "ports_out_count t = 0"
    and "ports_in_base_conn_id t = []" and "ports_out_base_conn_id t = []" and "conn_infos t = []"
  obtains (ok) "length cs \<le> UINT16_MAX" "conns_sorted cs" "\<forall>c \<in> set cs. conn_valid ts c"
      and "setup_conn_specs l t = Some (Inr (), t\<lparr>node_infos := map (first_idx cs) [0..<length ts],
        conn_infos := id_infos (ports_of ts (length ts)) cs, conn_count := length cs\<rparr>)"
    | (err) e t' where "\<not> (length cs \<le> UINT16_MAX \<and> conns_sorted cs \<and> (\<forall>c \<in> set cs. conn_valid ts c))"
      and "setup_conn_specs l t = Some (Inl e, t')"
proof -
  have start: "node_infos t = map (first_idx (take 0 cs)) [0..<length ts]"
    using assms(4) by (auto simp: first_idx_def intro: nth_equalityI)
  have l: "alloc_ok l n" for n using assms(5) by (simp add: alloc_total_def)
  consider (bad) t' where "conn_specs_loop UINT16_MAX None 0 t = Some (Inl EINVAL, t')"
      "\<not> (conns_sorted (take UINT16_MAX cs) \<and> (\<forall>c \<in> set (take UINT16_MAX cs). conn_valid ts c))"
    | (good) "conn_specs_loop UINT16_MAX None 0 t = Some (Inr (min (length cs) UINT16_MAX),
          t\<lparr>node_infos := map (first_idx (take UINT16_MAX cs)) [0..<length ts]\<rparr>)"
      "conns_sorted (take UINT16_MAX cs)" "\<forall>c \<in> set (take UINT16_MAX cs). conn_valid ts c"
    by (rule conn_specs_loop_eq [OF assms(1-3) _ _ _ _ _ start, of cs None UINT16_MAX]) (auto simp: conns_sorted_def)
  then show thesis
  proof cases
    case bad
    then have "\<not> (length cs \<le> UINT16_MAX \<and> conns_sorted cs \<and> (\<forall>c \<in> set cs. conn_valid ts c))" by auto
    then show thesis using bad(1) by (intro err) (simp_all add: setup_conn_specs_def)
  next
    case good
    show thesis
    proof (cases "length cs \<le> UINT16_MAX")
      case True
      define t1 where "t1 = t\<lparr>node_infos := map (first_idx cs) [0..<length ts],
        conn_infos := replicate (length cs) \<lparr>out_conn_id = 0, in_conn_id = 0\<rparr>, conn_count := length cs\<rparr>"
      have guard: "\<exists>g. mem_get (length cs) (conn_specs t) = Some g \<and> src g = UINT16_MAX"
        using assms(1) by (auto simp: conn_array_def mem_get_def nth_append)
      have z: "replicate (length cs) \<lparr>out_conn_id = 0, in_conn_id = 0\<rparr> = id_infos {} cs"
        by (auto simp: id_infos_def ids_at_def Let_def intro: nth_equalityI)
      have "flow_spec ts cs [] [] t1" using assms by (simp add: flow_spec_def t1_def ports_sorted_def)
      from setup_conn_ids_eq [OF this, of "{}"]
      have "setup_conn_ids t1 = Some (t\<lparr>node_infos := map (first_idx cs) [0..<length ts],
          conn_infos := id_infos (ports_of ts (length ts)) cs, conn_count := length cs\<rparr>)"
        using assms(8,9) by (simp add: t1_def z with_ids_def bases_def)
      then show thesis using True good guard l by (intro ok) (auto simp: setup_conn_specs_def t1_def)
    next
      case False
      have "mem_get UINT16_MAX (conn_specs t) = Some (cs ! UINT16_MAX)" "src (cs ! UINT16_MAX) \<noteq> UINT16_MAX"
        using False assms(1) by (auto simp: conn_array_def mem_get_def nth_append)
      then show thesis using False good(1) by (intro err) (simp_all add: setup_conn_specs_def)
    qed
  qed
qed

lemma exported_port_cong:
  "node_specs a = node_specs b \<Longrightarrow> exported_port_in a = exported_port_in b"
  "node_specs a = node_specs b \<Longrightarrow> exported_port_out a = exported_port_out b"
  by (simp_all add: fun_eq_iff exported_port_in_def exported_port_out_def)

lemma exports_readable_ports:
  "exports_readable (node_specs t) ei eo \<longleftrightarrow>
     (\<forall>e \<in> set ei. exported_port_in t e \<noteq> None) \<and> (\<forall>e \<in> set eo. exported_port_out t e \<noteq> None)"
  unfolding exports_readable_def exported_port_in_def exported_port_out_def
  by (intro arg_cong2 [of _ _ _ _ "(\<and>)"] ball_cong refl) (auto simp: bind_eq_None_conv Option.bind_eq_Some_conv)

lemma exports_exist_readable:
  assumes "node_array ts ns" and "exports_exist ts ei eo"
  shows "exports_readable ns ei eo"
proof -
  have "mem_get i ns = Some (Some (ts ! i))" if "i < length ts" for i
    using assms(1) that by (auto simp: node_array_def mem_get_def nth_append)
  then show ?thesis using assms(2) by (auto simp: exports_readable_def exports_exist_def)
qed

lemma setup_exported_in_eq:
  assumes "alloc_total l" and "port_array ei (exported_in_specs t)"
    and "ports_in t = []" and "ports_in_base_conn_id t = []" and "ports_in_count t = 0"
  shows "setup_exported_in l (length ei) t = (if \<forall>e \<in> set ei. exported_port_in t e \<noteq> None
    then Some (Inr (), t\<lparr>ports_in_count := length ei, ports_in := map (the \<circ> exported_port_in t) ei,
      ports_in_base_conn_id := replicate (length ei) 0\<rparr>) else None)"
proof (cases "ei = []")
  case False
  have l: "alloc_ok l n" for n using assms(1) by (simp add: alloc_total_def)
  obtain specs rest where specs: "exported_in_specs t = Some specs" "specs = ei @ rest"
    using False assms(2) by (auto simp: port_array_def split: option.splits)
  have eq: "exported_port_in (t\<lparr>ports_in_count := length ei\<rparr>) = exported_port_in t" by (rule exported_port_cong) simp
  show ?thesis
  proof (cases "\<forall>e \<in> set ei. exported_port_in t e \<noteq> None")
    case True
    then show ?thesis using False l specs eq exported_ports_loop_eq [OF specs(2) True, of 0 "length ei" "[]"]
      by (simp add: setup_exported_in_def)
  next
    case bad: False
    then have "exported_ports_loop (exported_port_in t) (length ei) 0 specs [] = None"
      using specs(2) by (intro exported_ports_loop_None) auto
    with False bad l specs eq show ?thesis by (simp add: setup_exported_in_def)
  qed
qed (use assms in \<open>simp add: setup_exported_in_def\<close>)

lemma setup_exported_out_eq:
  assumes "alloc_total l" and "port_array eo (exported_out_specs t)"
    and "ports_out t = []" and "ports_out_base_conn_id t = []" and "ports_out_count t = 0"
  shows "setup_exported_out l (length eo) t = (if \<forall>e \<in> set eo. exported_port_out t e \<noteq> None
    then Some (Inr (), t\<lparr>ports_out_count := length eo, ports_out := map (the \<circ> exported_port_out t) eo,
      ports_out_base_conn_id := replicate (length eo) 0\<rparr>) else None)"
proof (cases "eo = []")
  case False
  have l: "alloc_ok l n" for n using assms(1) by (simp add: alloc_total_def)
  obtain specs rest where specs: "exported_out_specs t = Some specs" "specs = eo @ rest"
    using False assms(2) by (auto simp: port_array_def split: option.splits)
  have eq: "exported_port_out (t\<lparr>ports_out_count := length eo\<rparr>) = exported_port_out t" by (rule exported_port_cong) simp
  show ?thesis
  proof (cases "\<forall>e \<in> set eo. exported_port_out t e \<noteq> None")
    case True
    then show ?thesis using False l specs eq exported_ports_loop_eq [OF specs(2) True, of 0 "length eo" "[]"]
      by (simp add: setup_exported_out_def)
  next
    case bad: False
    then have "exported_ports_loop (exported_port_out t) (length eo) 0 specs [] = None"
      using specs(2) by (intro exported_ports_loop_None) auto
    with False bad l specs eq show ?thesis by (simp add: setup_exported_out_def)
  qed
qed (use assms in \<open>simp add: setup_exported_out_def\<close>)

lemma setup_exported_eq:
  assumes l: "alloc_total l"
    and ei: "port_array ei (exported_in_specs t)" and eo: "port_array eo (exported_out_specs t)"
    and "ports_in t = []" "ports_in_base_conn_id t = []" "ports_out t = []" "ports_out_base_conn_id t = []"
    and "ports_in_count t = 0" "ports_out_count t = 0"
  obtains (ok) "ports_accepted ei" "ports_accepted eo" "exports_readable (node_specs t) ei eo"
      and "setup_exported_ports_specs l t = Some (Inr (), t\<lparr>ports_in_count := length ei, ports_in := map (the \<circ> exported_port_in t) ei,
          ports_in_base_conn_id := replicate (length ei) 0, ports_out_count := length eo,
          ports_out := map (the \<circ> exported_port_out t) eo, ports_out_base_conn_id := replicate (length eo) 0\<rparr>)"
    | (err) e where "\<not> (ports_accepted ei \<and> ports_accepted eo)" and "setup_exported_ports_specs l t = Some (Inl e, t)"
    | (bad) "ports_accepted ei" "ports_accepted eo" "\<not> exports_readable (node_specs t) ei eo"
      and "setup_exported_ports_specs l t = None"
proof (cases rule: validate_port_specs_eq [OF ei, case_names oki erri])
  case (erri e)
  then show thesis by (intro err) (simp_all add: setup_exported_ports_specs_def)
next
  case oki
  show thesis
  proof (cases rule: validate_port_specs_eq [OF eo, case_names oko erro])
    case (erro e)
    then show thesis using oki by (intro err) (simp_all add: setup_exported_ports_specs_def)
  next
    case oko
    have t: "t\<lparr>ports_in := [], ports_in_base_conn_id := [], ports_out := [], ports_out_base_conn_id := []\<rparr> = t" using assms(4-7) by simp
    define t1 where "t1 = t\<lparr>ports_in_count := length ei, ports_in := map (the \<circ> exported_port_in t) ei,
          ports_in_base_conn_id := replicate (length ei) 0\<rparr>"
    have eq: "exported_port_out t1 = exported_port_out t" by (rule exported_port_cong) (simp add: t1_def)
    have out: "setup_exported_out l (length eo) t1 = (if \<forall>e \<in> set eo. exported_port_out t1 e \<noteq> None
        then Some (Inr (), t1\<lparr>ports_out_count := length eo,
        ports_out := map (the \<circ> exported_port_out t1) eo, ports_out_base_conn_id := replicate (length eo) 0\<rparr>) else None)"
      by (rule setup_exported_out_eq) (use assms in \<open>simp_all add: t1_def\<close>)
    have run: "setup_exported_ports_specs l t = (if \<forall>e \<in> set ei. exported_port_in t e \<noteq> None
        then setup_exported_out l (length eo) t1 else None)"
      using oki oko setup_exported_in_eq [OF l ei] assms
      by (cases "\<forall>e \<in> set ei. exported_port_in t e \<noteq> None") (auto simp: setup_exported_ports_specs_def t t1_def)
    show thesis
    proof (cases "exports_readable (node_specs t) ei eo")
      case True
      with oki oko out run eq show thesis by (intro ok) (simp_all add: t1_def exports_readable_ports)
    next
      case False
      with oki oko out run eq show thesis by (intro bad) (auto simp: exports_readable_ports)
    qed
  qed
qed

lemma flow_static_type_init_ok:
  assumes "node_array ts (nodes spec)" and "conn_array cs (conns spec)" and "port_array ei (exported_in spec)"
    and "port_array eo (exported_out spec)" and "alloc_total l"
  shows "if \<not> spec_accepted ts cs ei eo then \<exists>e t. flow_static_type_init l spec = Some (Inl e, t)
    else if exports_readable (nodes spec) ei eo
      then \<exists>t. flow_static_type_init l spec = Some (Inr (), t) \<and> flow_type_ok ts cs ei eo t
    else flow_static_type_init l spec = None"
proof -
  define t0 where "t0 = \<lparr>node_specs = nodes spec, conn_specs = conns spec, exported_in_specs = exported_in spec,
          exported_out_specs = exported_out spec, node_infos = [], conn_infos = [], node_storage_size = 0, node_count = 0,
          conn_count = 0, ports_in_count = 0, ports_out_count = 0, ports_in = [], ports_out = [],
          ports_in_base_conn_id = [], ports_out_base_conn_id = [], owned_by_node = False\<rparr>"
  have init: "flow_static_type_init l spec = on_ok (setup_node_specs l t0) (\<lambda>_ type. do {
       (r, type) \<leftarrow> setup_conn_specs l type;
       (case r of Inl e \<Rightarrow> Some (Inl e, teardown_node_specs type)
        | Inr _ \<Rightarrow> do {
            (r, type) \<leftarrow> setup_exported_ports_specs l type;
            (case r of Inl e \<Rightarrow> Some (Inl e, teardown_node_specs (teardown_conn_specs type))
             | Inr _ \<Rightarrow> do { type \<leftarrow> setup_conn_ids type; Some (Inr (), type) })
          })
     })" by (simp add: flow_static_type_init_def t0_def)
  have "node_array ts (node_specs t0)" using assms(1) by (simp add: t0_def)
  then show ?thesis
  proof (cases rule: setup_node_specs_eq [OF _ assms(5), consumes 1, case_names ok err])
    case (err e)
    then show ?thesis by (auto simp: init spec_accepted_def)
  next
    case ok
    define t1 where "t1 = t0\<lparr>node_infos := replicate (length ts) 0, node_count := length ts, node_storage_size := storage_of ts\<rparr>"
    have "conn_array cs (conn_specs t1)" using assms(2) by (simp add: t1_def t0_def)
    then show ?thesis
    proof (cases rule: setup_conn_specs_eq [where ts = ts and l = l, consumes 1, case_names na nc ni al pi po bi bo ci conns err])
      case (err e t')
      then show ?thesis using ok(4) by (auto simp: init spec_accepted_def t1_def)
    next
      case conns
      define t2 where "t2 = t1\<lparr>node_infos := map (first_idx cs) [0..<length ts],
        conn_infos := id_infos (ports_of ts (length ts)) cs, conn_count := length cs\<rparr>"
      have steps: "setup_node_specs l t0 = Some (Inr (), t1)" "setup_conn_specs l t1 = Some (Inr (), t2)"
        using ok(4) conns(4) by (simp_all only: t1_def t2_def)
      have ns: "node_specs t2 = nodes spec" by (simp add: t2_def t1_def t0_def)
      show ?thesis
      proof (cases rule: setup_exported_eq [where ei = ei and eo = eo and l = l and t = t2, case_names al ei eo pi bi po bo ci co ports err bad])
        case (err e)
        then show ?thesis by (auto simp: init steps spec_accepted_def)
      next
        case bad
        have "spec_accepted ts cs ei eo" using ok conns bad(1,2) by (simp add: spec_accepted_def)
        then show ?thesis using bad(3,4) by (simp add: init steps ns)
      next
        case ports
        define t3 where "t3 = t2\<lparr>ports_in_count := length ei, ports_in := map (the \<circ> exported_port_in t2) ei,
          ports_in_base_conn_id := replicate (length ei) 0, ports_out_count := length eo,
          ports_out := map (the \<circ> exported_port_out t2) eo, ports_out_base_conn_id := replicate (length eo) 0\<rparr>"
        have acc: "spec_accepted ts cs ei eo" using ok conns ports by (simp add: spec_accepted_def)
        have spec3: "flow_spec ts cs ei eo t3"
          using assms(1-4) acc by (simp add: flow_spec_def t3_def t2_def t1_def t0_def spec_accepted_def ports_accepted_def)
        define t4 where "t4 = with_ids ts cs ei eo (ports_of ts (length ts)) (length ts) 0 t3"
        have "setup_conn_ids t3 = Some t4"
          using setup_conn_ids_eq [OF spec3, of "ports_of ts (length ts)"] by (simp add: t4_def t3_def t2_def)
        then have "flow_static_type_init l spec = Some (Inr (), t4)" using ports(4) by (simp add: init steps flip: t3_def)
        moreover have "exported_port_in t2 = exported_port_in t4" "exported_port_out t2 = exported_port_out t4"
          by (rule exported_port_cong; simp add: t4_def t3_def with_ids_def)+
        then have "flow_type_ok ts cs ei eo t4"
          using spec3 acc by (simp add: flow_type_ok_def flow_spec_def t4_def with_ids_def) (simp add: t3_def t2_def t1_def)
        ultimately show ?thesis using acc ports(3) by (simp add: ns)
      qed (use assms in \<open>simp_all add: t2_def t1_def t0_def\<close>)
    qed (use assms in \<open>simp_all add: t1_def t0_def\<close>)
  qed
qed

text \<open>
  C15. Building the type of a static flow from arrays that end with their guards, when allocations
  succeed. The specifications that have between 1 and 65535 nodes that fit into memory, connections
  between existing ports in the order of their sources, and exported ports in order are accepted, all
  others are refused with an error, and nothing is read outside of the arrays. For an accepted one the
  tables are right: where the connections of every node start, and the identifiers of connections and
  exported ports as far as the numbering reaches. That the exported ports exist is checked nowhere: if
  one names a place of the node array without a type, or a port this type does not have, the call reads
  outside of the array or follows a null pointer.
\<close>

theorem flow_static_type_init_spec:
  assumes "node_array ts (nodes spec)" and "conn_array cs (conns spec)" and "port_array ei (exported_in spec)"
    and "port_array eo (exported_out spec)" and "alloc_total l"
  shows "if \<not> spec_accepted ts cs ei eo then \<exists>e t. flow_static_type_init l spec = Some (Inl e, t)
    else if exports_readable (nodes spec) ei eo
      then \<exists>t. flow_static_type_init l spec = Some (Inr (), t) \<and> flow_type_ok ts cs ei eo t
    else flow_static_type_init l spec = None"
  by (rule flow_static_type_init_ok [OF assms])

text \<open>A source with one output port and a sink with two input ports and no output port.\<close>

definition emitter_type :: sol_flow_node_type where
  "emitter_type = \<lparr>nt_api = True, nt_data_size = 8, nt_options_size = 2, nt_ports_in_count = 0, nt_ports_out_count = 1,
     nt_get_port_in = None, nt_get_port_out = Some (\<lambda>p. if p = 0 then
       Some \<lparr>pout_api = True, pout_packet_type = Some (PACKET_TYPE 1), pout_connect = True, pout_disconnect = True\<rparr> else None),
     nt_open = True, nt_close = True\<rparr>"

definition sink_type :: sol_flow_node_type where
  "sink_type = \<lparr>nt_api = True, nt_data_size = 8, nt_options_size = 4, nt_ports_in_count = 2, nt_ports_out_count = 0,
     nt_get_port_in = Some (\<lambda>p. if p < 2 then
       Some \<lparr>pin_api = True, pin_packet_type = Some (PACKET_TYPE 1), pin_process = True, pin_connect = True, pin_disconnect = True\<rparr> else None),
     nt_get_port_out = None, nt_open = True, nt_close = True\<rparr>"

text \<open>Two sources connected to the same port of a sink.\<close>

definition fan_in :: "sol_flow_static_conn_spec list" where
  "fan_in = [\<lparr>src = 0, src_port = 0, dst = 2, dst_port = 0\<rparr>, \<lparr>src = 1, src_port = 0, dst = 2, dst_port = 0\<rparr>]"

definition fan_in_nodes :: "sol_flow_node_type list" where
  "fan_in_nodes = [emitter_type, emitter_type, sink_type]"

definition fan_in_spec :: sol_flow_static_spec where
  "fan_in_spec = \<lparr>nodes = map Some fan_in_nodes @ [None], conns = fan_in @ [\<lparr>src = UINT16_MAX, src_port = 0, dst = 0, dst_port = 0\<rparr>],
     exported_in = None, exported_out = Some [\<lparr>pnode = 0, pport = 0\<rparr>, \<lparr>pnode = UINT16_MAX, pport = 0\<rparr>]\<rparr>"

lemma fan_in_arrays:
  "node_array fan_in_nodes (nodes fan_in_spec)" "conn_array fan_in (conns fan_in_spec)" "port_array [] (exported_in fan_in_spec)"
  "port_array [\<lparr>pnode = 0, pport = 0\<rparr>] (exported_out fan_in_spec)" "exports_exist fan_in_nodes [] [\<lparr>pnode = 0, pport = 0\<rparr>]"
  by (simp_all add: node_array_def conn_array_def port_array_def exports_exist_def fan_in_spec_def fan_in_def UINT16_MAX_def
      fan_in_nodes_def sol_flow_node_type_get_port_out_def SOL_FLOW_NODE_PORT_ERROR_def emitter_type_def)

lemma fan_in_accepted: "spec_accepted fan_in_nodes fan_in [] [\<lparr>pnode = 0, pport = 0\<rparr>]"
  by (simp add: spec_accepted_def fan_in_nodes_def fan_in_def UINT16_MAX_def storage_of_def calc_node_size_def align_to_ptr_def
      sizeof_sol_flow_node_def UINT_MAX_def emitter_type_def sink_type_def conns_sorted_def conn_le_def conn_valid_def
      ports_accepted_def ports_sorted_def)

theorem flow_static_type_init_spec_witness:
  "\<exists>t. flow_static_type_init (libc_total 0) fan_in_spec = Some (Inr (), t) \<and>
     flow_type_ok fan_in_nodes fan_in [] [\<lparr>pnode = 0, pport = 0\<rparr>] t"
  using flow_static_type_init_spec [OF fan_in_arrays(1-4), of "libc_total 0"] fan_in_accepted
    exports_exist_readable [OF fan_in_arrays(1,5)] by simp

lemma count_less:
  assumes "i < j" and "j < length cs" and "P (cs ! i)"
  shows "length (filter P (take i cs)) < length (filter P (take j cs))"
proof -
  have "take j cs = take i cs @ cs ! i # drop (Suc i) (take j cs)"
  proof -
    have "drop i cs = cs ! i # drop (Suc i) cs" using assms(1,2) by (simp add: Cons_nth_drop_Suc)
    then have "take (j - i) (drop i cs) = cs ! i # drop (Suc i) (take j cs)"
      using assms(1) by (simp add: drop_take take_Cons' Suc_diff_Suc)
    moreover have "take j cs = take i cs @ take (j - i) (drop i cs)" using assms(1) by (metis le_add_diff_inverse less_imp_le take_add)
    ultimately show ?thesis by simp
  qed
  from arg_cong [OF this, of "\<lambda>xs. length (filter P xs)"] show ?thesis using assms(3) by simp
qed

text \<open>
  C16. Two connections into the same input port have different identifiers exactly when the number of
  that port is below the number of \<^emph>\<open>output\<close> ports of its node, and two connections from the same output
  port exactly when that is not the error port beyond the node's own ports.
\<close>

theorem connection_ids:
  assumes "flow_type_ok ts cs ei eo t" and "i < j" and "j < length cs"
  shows "(dst (cs ! i) = dst (cs ! j) \<and> dst_port (cs ! i) = dst_port (cs ! j) \<longrightarrow>
      (in_conn_id (conn_infos t ! i) \<noteq> in_conn_id (conn_infos t ! j) \<longleftrightarrow> dst_port (cs ! j) < nt_ports_out_count (ts ! dst (cs ! j)))) \<and>
    (src (cs ! i) = src (cs ! j) \<and> src_port (cs ! i) = src_port (cs ! j) \<longrightarrow>
      (out_conn_id (conn_infos t ! i) \<noteq> out_conn_id (conn_infos t ! j) \<longleftrightarrow> src_port (cs ! j) < nt_ports_out_count (ts ! src (cs ! j))))"
proof -
  have infos: "conn_infos t ! k = ids_at (ports_of ts (length ts)) cs k" if "k < length cs" for k
    using assms(1) that by (simp add: flow_type_ok_def id_infos_def)
  have valid: "conn_valid ts (cs ! k)" if "k < length cs" for k
    using assms(1) that by (simp add: flow_type_ok_def spec_accepted_def)
  have "ins (take i cs) (dst (cs ! j)) (dst_port (cs ! j)) < ins (take j cs) (dst (cs ! j)) (dst_port (cs ! j))"
    if "dst (cs ! i) = dst (cs ! j) \<and> dst_port (cs ! i) = dst_port (cs ! j)"
    unfolding ins_def by (rule count_less [OF assms(2,3)]) (use that in simp)
  moreover have "outs (take i cs) (src (cs ! j)) (src_port (cs ! j)) < outs (take j cs) (src (cs ! j)) (src_port (cs ! j))"
    if "src (cs ! i) = src (cs ! j) \<and> src_port (cs ! i) = src_port (cs ! j)"
    unfolding outs_def by (rule count_less [OF assms(2,3)]) (use that in simp)
  ultimately show ?thesis
    using assms(2,3) valid [OF assms(3)] by (auto simp: infos ids_at_def Let_def ports_of_def conn_valid_def)
qed

lemma fan_in_type:
  obtains t where "flow_static_type_init (libc_total 0) fan_in_spec = Some (Inr (), t)"
    and "flow_type_ok fan_in_nodes fan_in [] [\<lparr>pnode = 0, pport = 0\<rparr>] t"
  using flow_static_type_init_ok [OF fan_in_arrays(1-4), of "libc_total 0"] fan_in_accepted
    exports_exist_readable [OF fan_in_arrays(1,5)] by auto

theorem connection_ids_witness:
  "\<exists>t. flow_static_type_init (libc_total 0) fan_in_spec = Some (Inr (), t) \<and>
     in_conn_id (conn_infos t ! 0) = in_conn_id (conn_infos t ! 1)"
proof -
  obtain t where t: "flow_static_type_init (libc_total 0) fan_in_spec = Some (Inr (), t)"
    "flow_type_ok fan_in_nodes fan_in [] [\<lparr>pnode = 0, pport = 0\<rparr>] t"
    by (rule fan_in_type)
  then show ?thesis using connection_ids [OF t(2), of 0 1] by (auto simp: fan_in_def fan_in_nodes_def sink_type_def)
qed

end
