(* ===== verification/Flow_Static.thy ===== *)
theory Flow_Static
  imports Flow_Type Buffer
begin

text \<open>
  A running static flow: the second half of \<^verbatim>\<open>src/lib/flow/sol-flow-static.c\<close> (opening, connecting,
  sending, closing) with the functions of \<^verbatim>\<open>src/lib/flow/sol-flow.c\<close> it goes through.

  The children's callbacks belong to their node types: a \<open>flow_app\<close> says for the history of callbacks
  so far, the current one last, which packets the callback sends and what it returns. It also stands
  for the timer service (whether a timer can be had) and for the options given to the children.
  \<open>flow\<close> is \<^verbatim>\<open>struct flow_static_data\<close> with the children, packets and timers it refers to; a packet
  is on the heap from its creation to its deletion, so deleting it twice, or using it afterwards, is
  \<open>None\<close>, as is any use of the flow's freed arrays. The packets a flow exports are handed to its parent.
\<close>

section \<open>State\<close>

record sol_flow_packet =
  pk_type :: "packet_type option"
  pk_data :: nat

text \<open>A node's private area starts at an offset of the flow's node storage; its type is set while it is in use.\<close>

record sol_flow_node =
  nd_offset :: nat
  nd_typed :: bool

record delayed_packet =
  dp_packet :: nat
  source_idx :: nat
  source_port_idx :: nat

datatype event =
    Ev_open nat
  | Ev_close nat
  | Ev_connect_out nat nat nat
  | Ev_connect_in nat nat nat
  | Ev_disconnect_out nat nat nat
  | Ev_disconnect_in nat nat nat
  | Ev_process nat nat nat sol_flow_packet
  | Ev_export nat sol_flow_packet

record send =
  sd_node :: nat
  sd_port :: nat
  sd_packet :: sol_flow_packet

record flow_app =
  react :: "event list \<Rightarrow> send list \<times> (errno + unit)"
  timer_ok :: "event list \<Rightarrow> bool"
  opts_ok :: "nat \<Rightarrow> bool"
  child_opts_set :: bool
  has_parent :: bool

record flow =
  fl_nodes :: "sol_flow_node list option"
  delay_send :: "nat option"
  delayed_packets :: "delayed_packet list"
  fl_timers :: "nat list"
  fl_packets :: "nat \<Rightarrow> sol_flow_packet option"
  fl_next :: nat
  fl_log :: "event list"

type_synonym flow_result = "((errno + unit) \<times> flow) option"

section \<open>Packets and timers\<close>

definition sol_flow_packet_del :: "nat \<Rightarrow> flow \<Rightarrow> flow option" where
  "sol_flow_packet_del p fl = do {
     _ \<leftarrow> fl_packets fl p;
     Some (fl\<lparr>fl_packets := (fl_packets fl)(p := None)\<rparr>)
   }"

text \<open>The timer service; the result \<open>None\<close> of adding is the NULL handle.\<close>

definition sol_timeout_add :: "flow_app \<Rightarrow> flow \<Rightarrow> nat option \<times> flow" where
  "sol_timeout_add a fl =
     (if timer_ok a (fl_log fl)
      then (Some (fl_next fl), fl\<lparr>fl_next := fl_next fl + 1, fl_timers := fl_timers fl @ [fl_next fl]\<rparr>) else (None, fl))"

definition sol_timeout_del :: "nat \<Rightarrow> flow \<Rightarrow> flow option" where
  "sol_timeout_del h fl = (if h \<in> set (fl_timers fl) then Some (fl\<lparr>fl_timers := remove1 h (fl_timers fl)\<rparr>) else None)"

fun delete_packets :: "delayed_packet list \<Rightarrow> flow \<Rightarrow> flow option" where
  "delete_packets [] fl = Some fl"
| "delete_packets (dp # dps) fl = do { fl \<leftarrow> sol_flow_packet_del (dp_packet dp) fl; delete_packets dps fl }"

definition delete_delayed_packets :: "flow \<Rightarrow> flow option" where
  "delete_delayed_packets fl = do {
     fl \<leftarrow> (case delay_send fl of None \<Rightarrow> Some fl | Some h \<Rightarrow> sol_timeout_del h fl);
     let dps = delayed_packets fl;
     delete_packets dps (fl\<lparr>delayed_packets := []\<rparr>)
   }"

definition flow_delay_send :: "flow_app \<Rightarrow> flow \<Rightarrow> (errno + unit) \<times> flow" where
  "flow_delay_send a fl =
     (if delay_send fl = None then
        let (h, fl) = sol_timeout_add a fl; fl = fl\<lparr>delay_send := h\<rparr>
        in if h = None then (Inl ENOMEM, fl) else (Inr (), fl)
      else (Inr (), fl))"

section \<open>Sending\<close>

definition match_packets :: "packet_type option \<Rightarrow> packet_type option \<Rightarrow> bool" where
  "match_packets a b \<longleftrightarrow> a = Some PACKET_TYPE_ANY \<or> b = Some PACKET_TYPE_ANY \<or> a = b"

text \<open>The type of a child as its node has it: NULL (inner \<open>None\<close>) before it is opened and after it is closed.\<close>

definition node_type :: "flow_static_type \<Rightarrow> flow \<Rightarrow> nat \<Rightarrow> sol_flow_node_type option option" where
  "node_type ty fl i = do {
     ns \<leftarrow> fl_nodes fl;
     n \<leftarrow> mem_get i ns;
     (if nd_typed n then do { t \<leftarrow> spec_type ty i; Some (Some t) } else Some None)
   }"

text \<open>A mismatch is logged with the names of both types, which reads the port's.\<close>

definition flow_send :: "flow_app \<Rightarrow> nat libc \<Rightarrow> flow_static_type \<Rightarrow> nat \<Rightarrow> nat \<Rightarrow> nat \<Rightarrow> flow \<Rightarrow> flow_result" where
  "flow_send a l ty src_idx port p fl = do {
     t \<leftarrow> node_type ty fl src_idx;
     let ptype = sol_flow_node_type_get_port_out t port;
     pk \<leftarrow> fl_packets fl p;
     (if pk_type pk = None then Some (Inl EINVAL, fl)
      else do {
        ptype \<leftarrow> ptype;
        (if \<not> match_packets (pout_packet_type ptype) (pk_type pk)
         then do { _ \<leftarrow> pout_packet_type ptype; Some (Inl EINVAL, fl) }
         else do {
           spec \<leftarrow> spec_type ty src_idx;
           (if \<not> flow_port_out_is_valid spec port then Some (Inl EINVAL, fl)
            else on_ok (Some (flow_delay_send a fl)) (\<lambda>_ fl.
              if \<not> alloc_ok l 32 then Some (Inl ENOMEM, fl)
              else Some (Inr (), fl\<lparr>delayed_packets := delayed_packets fl @
                [\<lparr>dp_packet = p, source_idx = src_idx, source_port_idx = port\<rparr>]\<rparr>)))
         })
      })
   }"

text \<open>The child's parent is the flow; a packet that cannot be sent is deleted.\<close>

definition sol_flow_send_packet :: "flow_app \<Rightarrow> nat libc \<Rightarrow> flow_static_type \<Rightarrow> nat \<Rightarrow> nat \<Rightarrow> nat \<Rightarrow> flow \<Rightarrow> flow_result" where
  "sol_flow_send_packet a l ty node port p fl = do {
     t \<leftarrow> node_type ty fl node;
     (if t = None then do { fl \<leftarrow> sol_flow_packet_del p fl; Some (Inl EINVAL, fl) }
      else do {
        (r, fl) \<leftarrow> flow_send a l ty node port p fl;
        (case r of Inl e \<Rightarrow> do { fl \<leftarrow> sol_flow_packet_del p fl; Some (Inl e, fl) } | Inr _ \<Rightarrow> Some (Inr (), fl))
      })
   }"

text \<open>What a callback sends: a new packet each, its result ignored.\<close>

definition do_send :: "flow_app \<Rightarrow> nat libc \<Rightarrow> flow_static_type \<Rightarrow> send \<Rightarrow> flow \<Rightarrow> flow option" where
  "do_send a l ty sd fl =
     (let p = fl_next fl; fl = fl\<lparr>fl_next := fl_next fl + 1, fl_packets := (fl_packets fl)(p \<mapsto> sd_packet sd)\<rparr>
      in map_option snd (sol_flow_send_packet a l ty (sd_node sd) (sd_port sd) p fl))"

fun do_sends :: "flow_app \<Rightarrow> nat libc \<Rightarrow> flow_static_type \<Rightarrow> send list \<Rightarrow> flow \<Rightarrow> flow option" where
  "do_sends a l ty [] fl = Some fl"
| "do_sends a l ty (sd # sds) fl = do { fl \<leftarrow> do_send a l ty sd fl; do_sends a l ty sds fl }"

definition callback :: "flow_app \<Rightarrow> nat libc \<Rightarrow> flow_static_type \<Rightarrow> event \<Rightarrow> flow \<Rightarrow> flow_result" where
  "callback a l ty ev fl =
     (let fl = fl\<lparr>fl_log := fl_log fl @ [ev]\<rparr>; (sds, r) = react a (fl_log fl)
      in do { fl \<leftarrow> do_sends a l ty sds fl; Some (r, fl) })"

section \<open>Dispatching\<close>

definition dispatch_connect_out :: "flow_app \<Rightarrow> nat libc \<Rightarrow> flow_static_type \<Rightarrow> nat \<Rightarrow> nat \<Rightarrow> nat \<Rightarrow> sol_flow_port_type_out \<Rightarrow> flow \<Rightarrow> flow_result" where
  "dispatch_connect_out a l ty node port conn_id pt fl =
     (if pout_connect pt then callback a l ty (Ev_connect_out node port conn_id) fl else Some (Inr (), fl))"

definition dispatch_connect_in :: "flow_app \<Rightarrow> nat libc \<Rightarrow> flow_static_type \<Rightarrow> nat \<Rightarrow> nat \<Rightarrow> nat \<Rightarrow> sol_flow_port_type_in \<Rightarrow> flow \<Rightarrow> flow_result" where
  "dispatch_connect_in a l ty node port conn_id pt fl =
     (if pin_connect pt then callback a l ty (Ev_connect_in node port conn_id) fl else Some (Inr (), fl))"

definition dispatch_disconnect_out :: "flow_app \<Rightarrow> nat libc \<Rightarrow> flow_static_type \<Rightarrow> nat \<Rightarrow> nat \<Rightarrow> nat \<Rightarrow> sol_flow_port_type_out \<Rightarrow> flow \<Rightarrow> flow_result" where
  "dispatch_disconnect_out a l ty node port conn_id pt fl =
     (if pout_disconnect pt then callback a l ty (Ev_disconnect_out node port conn_id) fl else Some (Inr (), fl))"

definition dispatch_disconnect_in :: "flow_app \<Rightarrow> nat libc \<Rightarrow> flow_static_type \<Rightarrow> nat \<Rightarrow> nat \<Rightarrow> nat \<Rightarrow> sol_flow_port_type_in \<Rightarrow> flow \<Rightarrow> flow_result" where
  "dispatch_disconnect_in a l ty node port conn_id pt fl =
     (if pin_disconnect pt then callback a l ty (Ev_disconnect_in node port conn_id) fl else Some (Inr (), fl))"

definition dispatch_process :: "flow_app \<Rightarrow> nat libc \<Rightarrow> flow_static_type \<Rightarrow> nat \<Rightarrow> nat \<Rightarrow> nat \<Rightarrow> sol_flow_port_type_in \<Rightarrow> nat \<Rightarrow> flow \<Rightarrow> flow_result" where
  "dispatch_process a l ty node port conn_id pt p fl = do {
     pk \<leftarrow> fl_packets fl p;
     (if pin_process pt then callback a l ty (Ev_process node port conn_id pk) fl else Some (Inr (), fl))
   }"

text \<open>
  The connections of a source, from the first one on as long as the source is the same. The connection
  array of \<open>ty\<close> is finite, and a read behind it is \<open>None\<close>.
\<close>

function send_loop :: "flow_app \<Rightarrow> nat libc \<Rightarrow> flow_static_type \<Rightarrow> nat \<Rightarrow> nat \<Rightarrow> nat \<Rightarrow> nat \<Rightarrow> bool \<Rightarrow> flow \<Rightarrow> (bool \<times> flow) option" where
  "send_loop a l ty src_idx port p i dispatched fl =
     (case mem_get i (conn_specs ty) of None \<Rightarrow> None
      | Some spec \<Rightarrow>
          if src spec \<noteq> src_idx then Some (dispatched, fl)
          else if src_port spec \<noteq> port then send_loop a l ty src_idx port p (i + 1) dispatched fl
          else do {
            t \<leftarrow> node_type ty fl (dst spec);
            pt \<leftarrow> sol_flow_node_type_get_port_in t (dst_port spec);
            ci \<leftarrow> mem_get i (conn_infos ty);
            (_, fl) \<leftarrow> dispatch_process a l ty (dst spec) (dst_port spec) (in_conn_id ci) pt p fl;
            send_loop a l ty src_idx port p (i + 1) True fl
          })"
  by pat_completeness auto
termination
  by (relation "measure (\<lambda>(a, l, ty, src_idx, port, p, i, dispatched, fl). length (conn_specs ty) - i)")
    (auto simp: mem_get_def split: if_splits)

declare send_loop.simps [simp del]

text \<open>The exported port a child's port is, if it is one.\<close>

function export_loop :: "sol_flow_static_port_spec list \<Rightarrow> nat \<Rightarrow> nat \<Rightarrow> nat \<Rightarrow> nat option option" where
  "export_loop specs src_idx port i =
     (case mem_get i specs of None \<Rightarrow> None
      | Some pspec \<Rightarrow>
          if \<not> pnode pspec < UINT16_MAX then Some None
          else if pnode pspec = src_idx \<and> pport pspec = port then Some (Some i)
          else export_loop specs src_idx port (i + 1))"
  by pat_completeness auto
termination
  by (relation "measure (\<lambda>(specs, src_idx, port, i). length specs - i)") (auto simp: mem_get_def split: if_splits)

declare export_loop.simps [simp del]

text \<open>A packet that leaves the flow belongs to the parent; without one it is deleted.\<close>

definition export_packet :: "flow_app \<Rightarrow> nat \<Rightarrow> nat \<Rightarrow> flow \<Rightarrow> flow option" where
  "export_packet a port_out p fl = do {
     pk \<leftarrow> fl_packets fl p;
     fl \<leftarrow> sol_flow_packet_del p fl;
     Some (if has_parent a then fl\<lparr>fl_log := fl_log fl @ [Ev_export port_out pk]\<rparr> else fl)
   }"

text \<open>An error packet that nobody took is logged, which changes nothing.\<close>

definition flow_send_do :: "flow_app \<Rightarrow> nat libc \<Rightarrow> flow_static_type \<Rightarrow> nat \<Rightarrow> nat \<Rightarrow> nat \<Rightarrow> flow \<Rightarrow> flow option" where
  "flow_send_do a l ty src_idx port p fl = do {
     _ \<leftarrow> fl_packets fl p;
     i \<leftarrow> mem_get src_idx (node_infos ty);
     (_, fl) \<leftarrow> send_loop a l ty src_idx port p i False fl;
     out \<leftarrow> (if ports_out_count ty > 0 then do { specs \<leftarrow> exported_out_specs ty; export_loop specs src_idx port 0 } else Some None);
     (case out of Some port_out \<Rightarrow> export_packet a port_out p fl | None \<Rightarrow> sol_flow_packet_del p fl)
   }"

fun send_all :: "flow_app \<Rightarrow> nat libc \<Rightarrow> flow_static_type \<Rightarrow> delayed_packet list \<Rightarrow> flow \<Rightarrow> flow option" where
  "send_all a l ty [] fl = Some fl"
| "send_all a l ty (dp # dps) fl = do {
     fl \<leftarrow> flow_send_do a l ty (source_idx dp) (source_port_idx dp) (dp_packet dp) fl;
     send_all a l ty dps fl
   }"

definition flow_send_idle :: "flow_app \<Rightarrow> nat libc \<Rightarrow> flow_static_type \<Rightarrow> flow \<Rightarrow> flow option" where
  "flow_send_idle a l ty fl = send_all a l ty (delayed_packets fl) (fl\<lparr>delay_send := None, delayed_packets := []\<rparr>)"

section \<open>Exported ports\<close>

text \<open>The callbacks of the flow's own ports: those of the children's ports, the identifier shifted (a \<^verbatim>\<open>uint16_t\<close>).\<close>

definition exported_child :: "sol_flow_static_port_spec list option \<Rightarrow> nat list \<Rightarrow> nat \<Rightarrow> nat \<Rightarrow> (nat \<times> nat \<times> nat) option" where
  "exported_child specs base port conn_id = do {
     specs \<leftarrow> specs;
     e \<leftarrow> mem_get port specs;
     b \<leftarrow> mem_get port base;
     Some (pnode e, pport e, (b + conn_id) mod (UINT16_MAX + 1))
   }"

definition flow_exported_port_process :: "flow_app \<Rightarrow> nat libc \<Rightarrow> flow_static_type \<Rightarrow> nat \<Rightarrow> nat \<Rightarrow> nat \<Rightarrow> flow \<Rightarrow> flow_result" where
  "flow_exported_port_process a l ty port conn_id p fl = do {
     (child, child_port, child_conn_id) \<leftarrow> exported_child (exported_in_specs ty) (ports_in_base_conn_id ty) port conn_id;
     t \<leftarrow> node_type ty fl child;
     pt \<leftarrow> sol_flow_node_type_get_port_in t child_port;
     (_, fl) \<leftarrow> dispatch_process a l ty child child_port child_conn_id pt p fl;
     Some (Inr (), fl)
   }"

definition flow_exported_connect_port_in :: "flow_app \<Rightarrow> nat libc \<Rightarrow> flow_static_type \<Rightarrow> nat \<Rightarrow> nat \<Rightarrow> flow \<Rightarrow> flow_result" where
  "flow_exported_connect_port_in a l ty port conn_id fl = do {
     (child, child_port, child_conn_id) \<leftarrow> exported_child (exported_in_specs ty) (ports_in_base_conn_id ty) port conn_id;
     t \<leftarrow> node_type ty fl child;
     pt \<leftarrow> sol_flow_node_type_get_port_in t child_port;
     dispatch_connect_in a l ty child child_port child_conn_id pt fl
   }"

definition flow_exported_disconnect_port_in :: "flow_app \<Rightarrow> nat libc \<Rightarrow> flow_static_type \<Rightarrow> nat \<Rightarrow> nat \<Rightarrow> flow \<Rightarrow> flow_result" where
  "flow_exported_disconnect_port_in a l ty port conn_id fl = do {
     (child, child_port, child_conn_id) \<leftarrow> exported_child (exported_in_specs ty) (ports_in_base_conn_id ty) port conn_id;
     t \<leftarrow> node_type ty fl child;
     pt \<leftarrow> sol_flow_node_type_get_port_in t child_port;
     dispatch_disconnect_in a l ty child child_port child_conn_id pt fl
   }"

definition flow_exported_connect_port_out :: "flow_app \<Rightarrow> nat libc \<Rightarrow> flow_static_type \<Rightarrow> nat \<Rightarrow> nat \<Rightarrow> flow \<Rightarrow> flow_result" where
  "flow_exported_connect_port_out a l ty port conn_id fl = do {
     (child, child_port, child_conn_id) \<leftarrow> exported_child (exported_out_specs ty) (ports_out_base_conn_id ty) port conn_id;
     t \<leftarrow> node_type ty fl child;
     pt \<leftarrow> sol_flow_node_type_get_port_out t child_port;
     dispatch_connect_out a l ty child child_port child_conn_id pt fl
   }"

definition flow_exported_disconnect_port_out :: "flow_app \<Rightarrow> nat libc \<Rightarrow> flow_static_type \<Rightarrow> nat \<Rightarrow> nat \<Rightarrow> flow \<Rightarrow> flow_result" where
  "flow_exported_disconnect_port_out a l ty port conn_id fl = do {
     (child, child_port, child_conn_id) \<leftarrow> exported_child (exported_out_specs ty) (ports_out_base_conn_id ty) port conn_id;
     t \<leftarrow> node_type ty fl child;
     pt \<leftarrow> sol_flow_node_type_get_port_out t child_port;
     dispatch_disconnect_out a l ty child child_port child_conn_id pt fl
   }"

section \<open>Connecting\<close>

text \<open>How the first loop of \<open>connect_nodes\<close> ends: all done, a plain return, or a jump with the index it failed at.\<close>

datatype connect_end = Connected | Returned errno | Failed nat errno

text \<open>The ports of a connection whose nodes are all in use.\<close>

definition out_port_of :: "flow_static_type \<Rightarrow> flow \<Rightarrow> sol_flow_static_conn_spec \<Rightarrow> sol_flow_port_type_out option option" where
  "out_port_of ty fl spec = do { t \<leftarrow> node_type ty fl (src spec); Some (sol_flow_node_type_get_port_out t (src_port spec)) }"

definition in_port_of :: "flow_static_type \<Rightarrow> flow \<Rightarrow> sol_flow_static_conn_spec \<Rightarrow> sol_flow_port_type_in option option" where
  "in_port_of ty fl spec = do { t \<leftarrow> node_type ty fl (dst spec); Some (sol_flow_node_type_get_port_in t (dst_port spec)) }"

text \<open>The checks before a connection is made: NULL, the API version, the packet types.\<close>

definition check_ports :: "nat \<Rightarrow> sol_flow_port_type_out option \<Rightarrow> sol_flow_port_type_in option \<Rightarrow> connect_end" where
  "check_ports i op ip =
     (case (op, ip) of
        (Some op, Some ip) \<Rightarrow>
          if \<not> pout_api op \<or> \<not> pin_api ip then Returned EINVAL
          else if pout_packet_type op = None \<or> pin_packet_type ip = None then Returned EINVAL
          else if \<not> match_packets (pout_packet_type op) (pin_packet_type ip) then Failed i EINVAL
          else Connected
      | _ \<Rightarrow> Returned EINVAL)"

definition connect_one :: "flow_app \<Rightarrow> nat libc \<Rightarrow> flow_static_type \<Rightarrow> nat \<Rightarrow> flow \<Rightarrow> (connect_end \<times> flow) option" where
  "connect_one a l ty i fl = do {
     spec \<leftarrow> mem_get i (conn_specs ty);
     op \<leftarrow> out_port_of ty fl spec;
     ip \<leftarrow> in_port_of ty fl spec;
     ci \<leftarrow> mem_get i (conn_infos ty);
     (case (check_ports i op ip, op, ip) of
        (Connected, Some op, Some ip) \<Rightarrow> do {
          (r, fl) \<leftarrow> dispatch_connect_out a l ty (src spec) (src_port spec) (out_conn_id ci) op fl;
          (case r of Inl e \<Rightarrow> Some (Failed i e, fl)
           | Inr _ \<Rightarrow> do {
               (r, fl) \<leftarrow> dispatch_connect_in a l ty (dst spec) (dst_port spec) (in_conn_id ci) ip fl;
               (case r of Inl e \<Rightarrow> do {
                    (_, fl) \<leftarrow> dispatch_disconnect_out a l ty (src spec) (src_port spec) (out_conn_id ci) op fl;
                    Some (Failed i e, fl)
                  }
                | Inr _ \<Rightarrow> Some (Connected, fl))
             })
        }
      | (r, _, _) \<Rightarrow> Some (r, fl))
   }"

fun connect_loop :: "flow_app \<Rightarrow> nat libc \<Rightarrow> flow_static_type \<Rightarrow> nat \<Rightarrow> nat \<Rightarrow> flow \<Rightarrow> (connect_end \<times> flow) option" where
  "connect_loop a l ty 0 i fl = Some (Connected, fl)"
| "connect_loop a l ty (Suc left) i fl = do {
     (r, fl) \<leftarrow> connect_one a l ty i fl;
     (if r = Connected then connect_loop a l ty left (i + 1) fl else Some (r, fl))
   }"

text \<open>Undoing connection \<open>i\<close>, the input side first.\<close>

definition unconnect :: "flow_app \<Rightarrow> nat libc \<Rightarrow> flow_static_type \<Rightarrow> nat \<Rightarrow> flow \<Rightarrow> flow option" where
  "unconnect a l ty i fl = do {
     spec \<leftarrow> mem_get i (conn_specs ty);
     ci \<leftarrow> mem_get i (conn_infos ty);
     ip \<leftarrow> in_port_of ty fl spec;
     ip \<leftarrow> ip;
     (_, fl) \<leftarrow> dispatch_disconnect_in a l ty (dst spec) (dst_port spec) (in_conn_id ci) ip fl;
     op \<leftarrow> out_port_of ty fl spec;
     op \<leftarrow> op;
     (_, fl) \<leftarrow> dispatch_disconnect_out a l ty (src spec) (src_port spec) (out_conn_id ci) op fl;
     Some fl
   }"

fun unconnect_loop :: "flow_app \<Rightarrow> nat libc \<Rightarrow> flow_static_type \<Rightarrow> nat \<Rightarrow> flow \<Rightarrow> flow option" where
  "unconnect_loop a l ty 0 fl = Some fl"
| "unconnect_loop a l ty (Suc i) fl = do { fl \<leftarrow> unconnect a l ty i fl; unconnect_loop a l ty i fl }"

definition connect_nodes :: "flow_app \<Rightarrow> nat libc \<Rightarrow> flow_static_type \<Rightarrow> flow \<Rightarrow> flow_result" where
  "connect_nodes a l ty fl = do {
     (r, fl) \<leftarrow> connect_loop a l ty (conn_count ty) 0 fl;
     (case r of Connected \<Rightarrow> Some (Inr (), fl)
      | Returned e \<Rightarrow> Some (Inl e, fl)
      | Failed i e \<Rightarrow> do { fl \<leftarrow> unconnect_loop a l ty i fl; Some (Inl e, fl) })
   }"

text \<open>Closing a connection: the output side first.\<close>

definition teardown_one :: "flow_app \<Rightarrow> nat libc \<Rightarrow> flow_static_type \<Rightarrow> nat \<Rightarrow> flow \<Rightarrow> flow option" where
  "teardown_one a l ty i fl = do {
     spec \<leftarrow> mem_get i (conn_specs ty);
     ci \<leftarrow> mem_get i (conn_infos ty);
     op \<leftarrow> out_port_of ty fl spec;
     ip \<leftarrow> in_port_of ty fl spec;
     op \<leftarrow> op;
     (_, fl) \<leftarrow> dispatch_disconnect_out a l ty (src spec) (src_port spec) (out_conn_id ci) op fl;
     ip \<leftarrow> ip;
     (_, fl) \<leftarrow> dispatch_disconnect_in a l ty (dst spec) (dst_port spec) (in_conn_id ci) ip fl;
     Some fl
   }"

fun teardown_connections :: "flow_app \<Rightarrow> nat libc \<Rightarrow> flow_static_type \<Rightarrow> nat \<Rightarrow> flow \<Rightarrow> flow option" where
  "teardown_connections a l ty 0 fl = Some fl"
| "teardown_connections a l ty (Suc i) fl = do { fl \<leftarrow> teardown_one a l ty i fl; teardown_connections a l ty i fl }"

section \<open>Opening and closing\<close>

text \<open>
  The nodes' places in the storage, one behind the other; a node that would not fit into the storage is
  a write outside of it. The recursion is over the node array.
\<close>

fun place_nodes :: "flow_static_type \<Rightarrow> sol_flow_node_type option list \<Rightarrow> nat \<Rightarrow> nat \<Rightarrow> sol_flow_node list option" where
  "place_nodes ty [] i off = None"
| "place_nodes ty (None # specs) i off = Some []"
| "place_nodes ty (Some t # specs) i off =
     (if i < node_count ty \<and> off + calc_node_size t \<le> node_storage_size ty
      then map_option (Cons \<lparr>nd_offset = off, nd_typed = False\<rparr>) (place_nodes ty specs (i + 1) (off + calc_node_size t))
      else None)"

definition setup_flow_data :: "nat libc \<Rightarrow> flow_static_type \<Rightarrow> flow \<Rightarrow> flow_result" where
  "setup_flow_data l ty fl =
     (if \<not> alloc_ok l (8 * node_count ty) \<or> \<not> alloc_ok l (node_storage_size ty) then Some (Inl ENOMEM, fl)
      else do {
        ns \<leftarrow> place_nodes ty (node_specs ty) 0 0;
        Some (Inr (), fl\<lparr>fl_nodes := Some ns, delayed_packets := []\<rparr>)
      })"

definition teardown_flow_data :: "flow \<Rightarrow> flow" where
  "teardown_flow_data fl = fl\<lparr>fl_nodes := None\<rparr>"

definition set_typed :: "nat \<Rightarrow> bool \<Rightarrow> flow \<Rightarrow> flow option" where
  "set_typed i b fl = do {
     ns \<leftarrow> fl_nodes fl;
     n \<leftarrow> mem_get i ns;
     Some (fl\<lparr>fl_nodes := Some (ns[i := n\<lparr>nd_typed := b\<rparr>])\<rparr>)
   }"

text \<open>The type stays set when opening fails.\<close>

definition sol_flow_node_init :: "flow_app \<Rightarrow> nat libc \<Rightarrow> flow_static_type \<Rightarrow> nat \<Rightarrow> flow \<Rightarrow> flow_result" where
  "sol_flow_node_init a l ty i fl = do {
     t \<leftarrow> spec_type ty i;
     (if \<not> nt_api t \<or> \<not> opts_ok a i then Some (Inl EINVAL, fl)
      else do {
        fl \<leftarrow> set_typed i True fl;
        (if nt_open t then callback a l ty (Ev_open i) fl else Some (Inr (), fl))
      })
   }"

definition sol_flow_node_fini :: "flow_app \<Rightarrow> nat libc \<Rightarrow> flow_static_type \<Rightarrow> nat \<Rightarrow> flow \<Rightarrow> flow option" where
  "sol_flow_node_fini a l ty i fl = do {
     t \<leftarrow> node_type ty fl i;
     (case t of None \<Rightarrow> Some fl
      | Some t \<Rightarrow> do {
          (_, fl) \<leftarrow> (if nt_close t then callback a l ty (Ev_close i) fl else Some (Inr (), fl));
          set_typed i False fl
        })
   }"

text \<open>
  The options of a child when the flow adjusts them: copied into a buffer that is grown as needed. The
  check of the size jumps to the error label with whatever the last result was, which is a success;
  \<open>Some None\<close> is that jump.
\<close>

definition sizeof_sol_flow_node_options :: nat where
  "sizeof_sol_flow_node_options = 4"

definition copy_options :: "byte libc \<Rightarrow> sol_flow_node_type \<Rightarrow> sol_buffer \<Rightarrow> ((errno + unit) option \<times> sol_buffer) option" where
  "copy_options bl t buf =
     (if nt_options_size t < sizeof_sol_flow_node_options then Some (None, buf)
      else do {
        (r, buf) \<leftarrow> sol_buffer_ensure bl (nt_options_size t) buf;
        (case r of Inl e \<Rightarrow> Some (Some (Inl e), buf)
         | Inr _ \<Rightarrow> if nt_options_size t \<le> bcapacity buf then Some (Some (Inr ()), buf) else None)
      })"

text \<open>
  The loop over the children: the result, the number of children that are open and the buffer. A
  result \<open>None\<close> is the jump above.
\<close>

fun open_loop :: "flow_app \<Rightarrow> nat libc \<Rightarrow> byte libc \<Rightarrow> flow_static_type \<Rightarrow> sol_flow_node_type option list \<Rightarrow> nat \<Rightarrow> sol_buffer \<Rightarrow> flow
    \<Rightarrow> ((errno + unit) option \<times> nat \<times> sol_buffer \<times> flow) option" where
  "open_loop a l bl ty [] i buf fl = None"
| "open_loop a l bl ty (None # specs) i buf fl = Some (Some (Inr ()), i, buf, fl)"
| "open_loop a l bl ty (Some t # specs) i buf fl = do {
     (opts, buf) \<leftarrow> (if child_opts_set a then copy_options bl t buf else Some (Some (Inr ()), buf));
     (case opts of None \<Rightarrow> Some (None, i, buf, fl)
      | Some (Inl e) \<Rightarrow> Some (Some (Inl e), i, buf, fl)
      | Some (Inr _) \<Rightarrow> do {
          (r, fl) \<leftarrow> sol_flow_node_init a l ty i fl;
          (case r of Inl e \<Rightarrow> Some (Some (Inl e), i, buf, fl)
           | Inr _ \<Rightarrow> open_loop a l bl ty specs (i + 1) buf fl)
        })
   }"

fun fini_loop :: "flow_app \<Rightarrow> nat libc \<Rightarrow> flow_static_type \<Rightarrow> nat \<Rightarrow> flow \<Rightarrow> flow option" where
  "fini_loop a l ty 0 fl = Some fl"
| "fini_loop a l ty (Suc i) fl = do { fl \<leftarrow> sol_flow_node_fini a l ty i fl; fini_loop a l ty i fl }"

text \<open>From the labels \<^verbatim>\<open>error_conns\<close> and \<^verbatim>\<open>error_nodes\<close> on.\<close>

definition open_failed :: "flow_app \<Rightarrow> nat libc \<Rightarrow> flow_static_type \<Rightarrow> nat \<Rightarrow> flow \<Rightarrow> flow option" where
  "open_failed a l ty i fl = do {
     fl \<leftarrow> fini_loop a l ty i fl;
     fl \<leftarrow> delete_delayed_packets fl;
     Some (teardown_flow_data fl)
   }"

text \<open>The end of opening, once the loop over the children ended with \<open>r\<close> at child \<open>k\<close>.\<close>

definition open_finish :: "flow_app \<Rightarrow> nat libc \<Rightarrow> flow_static_type \<Rightarrow> (errno + unit) option \<Rightarrow> nat \<Rightarrow> flow \<Rightarrow> flow_result" where
  "open_finish a l ty r i fl = (case r of None \<Rightarrow> do { fl \<leftarrow> open_failed a l ty i fl; Some (Inr (), fl) }
     | Some (Inl e) \<Rightarrow> do { fl \<leftarrow> open_failed a l ty i fl; Some (Inl e, fl) }
     | Some (Inr _) \<Rightarrow> do {
         (r, fl) \<leftarrow> connect_nodes a l ty fl;
         (case r of Inl e \<Rightarrow> do { fl \<leftarrow> open_failed a l ty i fl; Some (Inl e, fl) } | Inr _ \<Rightarrow> Some (Inr (), fl))
       })"

definition flow_node_open :: "flow_app \<Rightarrow> nat libc \<Rightarrow> byte libc \<Rightarrow> flow_static_type \<Rightarrow> flow \<Rightarrow> flow_result" where
  "flow_node_open a l bl ty fl = do {
     (r, fl) \<leftarrow> setup_flow_data l ty fl;
     (case r of Inl e \<Rightarrow> Some (Inl e, teardown_flow_data fl)
      | Inr _ \<Rightarrow>
          (case flow_delay_send a fl of (Inl e, fl) \<Rightarrow> Some (Inl e, teardown_flow_data fl)
           | (Inr _, fl) \<Rightarrow> do {
               (r, i, buf, fl) \<leftarrow> open_loop a l bl ty (node_specs ty) 0 sol_buffer_init fl;
               (r, fl) \<leftarrow> open_finish a l ty r i fl;
               _ \<leftarrow> sol_buffer_fini buf;
               Some (r, fl)
             }))
   }"

text \<open>
  Closing returns what is left of the type as well: a type that its node owns is deleted with the node
  (\<open>None\<close>). Such a type has no dispose callback of the application.
\<close>

definition flow_node_close :: "flow_app \<Rightarrow> nat libc \<Rightarrow> flow_static_type \<Rightarrow> flow \<Rightarrow> (flow \<times> flow_static_type option) option" where
  "flow_node_close a l ty fl = do {
     fl \<leftarrow> delete_delayed_packets fl;
     fl \<leftarrow> teardown_connections a l ty (conn_count ty) fl;
     fl \<leftarrow> fini_loop a l ty (node_count ty) fl;
     Some (teardown_flow_data fl, if owned_by_node ty then None else Some ty)
   }"

definition flow_init :: flow where
  "flow_init = \<lparr>fl_nodes = None, delay_send = None, delayed_packets = [], fl_timers = [], fl_packets = \<lambda>_. None, fl_next = 0, fl_log = []\<rparr>"

text \<open>
  A flow of its own: a type made for one node, which then owns it. The node and its data take 40 bytes
  more than a node without data. \<open>None\<close> inside is NULL.
\<close>

definition sol_flow_static_new :: "flow_app \<Rightarrow> nat libc \<Rightarrow> byte libc \<Rightarrow> sol_flow_node_type option list \<Rightarrow> sol_flow_static_conn_spec list
    \<Rightarrow> (flow_static_type \<times> flow) option option" where
  "sol_flow_static_new a l bl ns cs = do {
     type \<leftarrow> sol_flow_static_new_type l True \<lparr>nodes = ns, conns = cs, exported_in = None, exported_out = None\<rparr>;
     (case type of None \<Rightarrow> Some None
      | Some type \<Rightarrow>
          let type = type\<lparr>owned_by_node := True\<rparr>
          in if \<not> alloc_ok l (sizeof_sol_flow_node + 40) then Some None
             else do {
               (r, fl) \<leftarrow> flow_node_open a l bl type flow_init;
               Some (case r of Inl _ \<Rightarrow> None | Inr _ \<Rightarrow> Some (type, fl))
             })
   }"

text \<open>\<open>None\<close> inside: index out of range.\<close>

definition sol_flow_static_get_node :: "flow_static_type \<Rightarrow> flow \<Rightarrow> nat \<Rightarrow> sol_flow_node option option" where
  "sol_flow_static_get_node ty fl index =
     (if index \<ge> node_count ty then Some None
      else do { ns \<leftarrow> fl_nodes fl; n \<leftarrow> mem_get index ns; Some (Some n) })"

section \<open>Invariant\<close>

text \<open>
  Node types that keep their word: the ports they announce exist and have a packet type. Callbacks
  that keep theirs: they send from existing nodes to existing ports.
\<close>

definition types_ok :: "sol_flow_node_type list \<Rightarrow> bool" where
  "types_ok ts \<longleftrightarrow> (\<forall>t \<in> set ts.
     (\<forall>p < nt_ports_out_count t. \<exists>pt. sol_flow_node_type_get_port_out (Some t) p = Some pt \<and> pout_packet_type pt \<noteq> None) \<and>
     (\<forall>p < nt_ports_in_count t. \<exists>pt. sol_flow_node_type_get_port_in (Some t) p = Some pt))"

definition source_ok :: "sol_flow_node_type list \<Rightarrow> nat \<Rightarrow> nat \<Rightarrow> bool" where
  "source_ok ts n p \<longleftrightarrow> n < length ts \<and> flow_port_out_is_valid (ts ! n) p"

definition app_legal :: "sol_flow_node_type list \<Rightarrow> flow_app \<Rightarrow> bool" where
  "app_legal ts a \<longleftrightarrow> (\<forall>h. \<forall>sd \<in> set (fst (react a h)). source_ok ts (sd_node sd) (sd_port sd))"

text \<open>
  The invariant: every packet on the heap is in the queue once or one of \<open>extra\<close>, which the code has in
  its hands; there is exactly one timer when \<open>delay_send\<close> is set and none otherwise; and no packet
  waits without a timer.
\<close>

definition flow_inv :: "sol_flow_node_type list \<Rightarrow> nat list \<Rightarrow> flow \<Rightarrow> bool" where
  "flow_inv ts extra fl \<longleftrightarrow> (\<exists>ns. fl_nodes fl = Some ns \<and> length ns = length ts) \<and>
     distinct (map dp_packet (delayed_packets fl) @ extra) \<and>
     dom (fl_packets fl) = set (map dp_packet (delayed_packets fl) @ extra) \<and>
     (\<forall>dp \<in> set (delayed_packets fl). source_ok ts (source_idx dp) (source_port_idx dp)) \<and>
     (\<forall>p \<in> dom (fl_packets fl). p < fl_next fl) \<and>
     fl_timers fl = (case delay_send fl of None \<Rightarrow> [] | Some h \<Rightarrow> [h]) \<and>
     (delayed_packets fl \<noteq> [] \<longrightarrow> delay_send fl \<noteq> None)"

text \<open>What a callback's sends may change: new packets, at the end of the queue.\<close>

definition flow_grows :: "flow \<Rightarrow> flow \<Rightarrow> bool" where
  "flow_grows fl fl' \<longleftrightarrow> fl_nodes fl' = fl_nodes fl \<and> fl_next fl \<le> fl_next fl' \<and>
     (\<forall>p \<in> dom (fl_packets fl). fl_packets fl' p = fl_packets fl p) \<and>
     (\<exists>more. delayed_packets fl' = delayed_packets fl @ more \<and> (\<forall>dp \<in> set more. fl_next fl \<le> dp_packet dp))"

lemma flow_grows_refl: "flow_grows fl fl"
  by (simp add: flow_grows_def)

lemma flow_grows_trans: "flow_grows a b \<Longrightarrow> flow_grows b c \<Longrightarrow> flow_grows a c"
  unfolding flow_grows_def by (auto simp: dom_def) (metis (no_types, lifting) dual_order.trans)+

lemma node_type_eq:
  assumes "flow_type_ok ts cs ei eo ty" and "fl_nodes fl = Some ns" and "length ns = length ts" and "n < length ts"
  shows "node_type ty fl n = Some (if nd_typed (ns ! n) then Some (ts ! n) else None)" and "spec_type ty n = Some (ts ! n)"
proof -
  show "spec_type ty n = Some (ts ! n)"
    using assms(1,4) by (auto simp: flow_type_ok_def flow_spec_def node_array_def spec_type_def mem_get_def nth_append)
  then show "node_type ty fl n = Some (if nd_typed (ns ! n) then Some (ts ! n) else None)"
    using assms(2-4) by (simp add: node_type_def mem_get_def)
qed

lemma out_port_exists:
  assumes "types_ok ts" and "source_ok ts n p"
  obtains pt where "sol_flow_node_type_get_port_out (Some (ts ! n)) p = Some pt" and "pout_packet_type pt \<noteq> None"
proof (cases "p = SOL_FLOW_NODE_PORT_ERROR")
  case True
  then show thesis by (intro that [of port_error]) (simp_all add: sol_flow_node_type_get_port_out_def port_error_def)
next
  case False
  then have "ts ! n \<in> set ts" "p < nt_ports_out_count (ts ! n)"
    using assms(2) by (auto simp: source_ok_def flow_port_out_is_valid_def)
  then show thesis using assms(1) that unfolding types_ok_def by blast
qed

lemma flow_send_ok:
  assumes ty: "flow_type_ok ts cs ei eo ty" and types: "types_ok ts" and inv: "flow_inv ts (p # extra) fl"
    and src: "source_ok ts n port" and typed: "node_type ty fl n = Some (Some (ts ! n))"
  obtains (sent) fl' where "flow_send a l ty n port p fl = Some (Inr (), fl')" and "flow_inv ts extra fl'"
      and "fl_nodes fl' = fl_nodes fl" "fl_next fl \<le> fl_next fl'" "fl_packets fl' = fl_packets fl" "fl_log fl' = fl_log fl"
      and "delayed_packets fl' = delayed_packets fl @ [\<lparr>dp_packet = p, source_idx = n, source_port_idx = port\<rparr>]"
    | (failed) e fl' where "flow_send a l ty n port p fl = Some (Inl e, fl')" and "flow_inv ts (p # extra) fl'"
      and "fl_nodes fl' = fl_nodes fl" "fl_next fl \<le> fl_next fl'" "fl_packets fl' = fl_packets fl" "fl_log fl' = fl_log fl"
      and "delayed_packets fl' = delayed_packets fl"
proof -
  obtain ns where ns: "fl_nodes fl = Some ns" "length ns = length ts" using inv by (auto simp: flow_inv_def)
  have n: "n < length ts" using src by (simp add: source_ok_def)
  note nt = node_type_eq [OF ty ns n]
  obtain pt where pt: "sol_flow_node_type_get_port_out (Some (ts ! n)) port = Some pt" "pout_packet_type pt \<noteq> None"
    using out_port_exists [OF types src] by blast
  obtain pk where pk: "fl_packets fl p = Some pk" using inv by (simp add: flow_inv_def) (metis domD insertI1)
  define fl1 where "fl1 = snd (flow_delay_send a fl)"
  have fl1: "flow_inv ts (p # extra) fl1" "fl_nodes fl1 = fl_nodes fl" "fl_next fl \<le> fl_next fl1" "fl_packets fl1 = fl_packets fl"
      "fl_log fl1 = fl_log fl" "delayed_packets fl1 = delayed_packets fl" "fst (flow_delay_send a fl) = Inr () \<Longrightarrow> delay_send fl1 \<noteq> None"
    using inv by (auto simp: flow_inv_def fl1_def flow_delay_send_def sol_timeout_add_def Let_def less_Suc_eq split: option.splits)
  have run: "flow_send a l ty n port p fl =
      (if pk_type pk = None \<or> \<not> match_packets (pout_packet_type pt) (pk_type pk) then Some (Inl EINVAL, fl)
       else on_ok (Some (flow_delay_send a fl)) (\<lambda>_ fl. if \<not> alloc_ok l 32 then Some (Inl ENOMEM, fl)
              else Some (Inr (), fl\<lparr>delayed_packets := delayed_packets fl @
                [\<lparr>dp_packet = p, source_idx = n, source_port_idx = port\<rparr>]\<rparr>)))"
    using nt typed pt pk src by (auto simp: flow_send_def source_ok_def)
  show thesis
  proof (cases "pk_type pk = None \<or> \<not> match_packets (pout_packet_type pt) (pk_type pk)")
    case True
    then show thesis using run inv by (intro failed [of EINVAL fl]) auto
  next
    case False
    show thesis
    proof (cases "fst (flow_delay_send a fl)")
      case (Inl e)
      then have "flow_delay_send a fl = (Inl e, fl1)" by (simp add: fl1_def prod_eq_iff)
      then show thesis using False run fl1 by (intro failed [of e fl1]) auto
    next
      case (Inr u)
      then have d: "flow_delay_send a fl = (Inr (), fl1)" by (simp add: fl1_def prod_eq_iff)
      show thesis
      proof (cases "alloc_ok l 32")
        case True
        define fl2 where "fl2 = fl1\<lparr>delayed_packets := delayed_packets fl1 @ [\<lparr>dp_packet = p, source_idx = n, source_port_idx = port\<rparr>]\<rparr>"
        have "flow_inv ts extra fl2" using fl1(1,7) d src by (auto simp: flow_inv_def fl2_def)
        moreover have "flow_send a l ty n port p fl = Some (Inr (), fl2)" using False True run d by (simp add: fl2_def)
        ultimately show thesis using fl1(2-6) by (intro sent [of fl2]) (simp_all add: fl2_def)
      next
        case no: False
        then show thesis using False run fl1 d by (intro failed [of ENOMEM fl1]) auto
      qed
    qed
  qed
qed

lemma packet_del_ok:
  assumes "flow_inv ts (p # extra) fl"
  obtains fl' where "sol_flow_packet_del p fl = Some fl'" and "fl' = fl\<lparr>fl_packets := (fl_packets fl)(p := None)\<rparr>" and "flow_inv ts extra fl'"
proof -
  have "p \<in> dom (fl_packets fl)" using assms by (simp add: flow_inv_def)
  then obtain pk where "fl_packets fl p = Some pk" by blast
  then show thesis
    using assms by (intro that [of "fl\<lparr>fl_packets := (fl_packets fl)(p := None)\<rparr>"]) (auto simp: sol_flow_packet_del_def flow_inv_def)
qed

lemma do_send_ok:
  assumes ty: "flow_type_ok ts cs ei eo ty" and types: "types_ok ts" and inv: "flow_inv ts extra fl"
    and src: "source_ok ts (sd_node sd) (sd_port sd)"
  obtains (ok) fl' where "do_send a l ty sd fl = Some fl'" and "flow_inv ts extra fl'" and "flow_grows fl fl'" and "fl_log fl' = fl_log fl"
proof -
  define p where "p = fl_next fl"
  define fl1 where "fl1 = fl\<lparr>fl_next := fl_next fl + 1, fl_packets := (fl_packets fl)(p \<mapsto> sd_packet sd)\<rparr>"
  have old: "p \<notin> dom (fl_packets fl)" using inv unfolding flow_inv_def p_def by blast
  have "p \<notin> dp_packet ` set (delayed_packets fl)" "p \<notin> set extra" using old inv by (simp_all add: flow_inv_def)
  moreover have "p < Suc (fl_next fl)" by (simp add: p_def)
  ultimately have inv1: "flow_inv ts (p # extra) fl1" using inv by (auto simp: flow_inv_def fl1_def less_Suc_eq)
  obtain ns where ns: "fl_nodes fl1 = Some ns" "length ns = length ts" using inv1 by (auto simp: flow_inv_def)
  have n: "sd_node sd < length ts" using src by (simp add: source_ok_def)
  note nt = node_type_eq [OF ty ns n]
  have run: "do_send a l ty sd fl = map_option snd (sol_flow_send_packet a l ty (sd_node sd) (sd_port sd) p fl1)"
    by (simp add: do_send_def fl1_def p_def Let_def)
  have dropped: thesis if run2: "do_send a l ty sd fl = Some (fl2\<lparr>fl_packets := (fl_packets fl2)(p := None)\<rparr>)"
    and inv2: "flow_inv ts (p # extra) fl2" and same: "fl_nodes fl2 = fl_nodes fl" "fl_next fl \<le> fl_next fl2"
    "fl_packets fl2 = fl_packets fl1" "fl_log fl2 = fl_log fl" "delayed_packets fl2 = delayed_packets fl" for fl2
  proof -
    obtain fl3 where "fl3 = fl2\<lparr>fl_packets := (fl_packets fl2)(p := None)\<rparr>" "flow_inv ts extra fl3"
      using packet_del_ok [OF inv2] by blast
    then show thesis using run2 same old by (intro ok [of fl3]) (auto simp: flow_grows_def fl1_def)
  qed
  show thesis
  proof (cases "nd_typed (ns ! sd_node sd)")
    case False
    then show thesis using nt inv1 run by (intro dropped [of fl1]) (auto simp: sol_flow_send_packet_def sol_flow_packet_del_def fl1_def p_def)
  next
    case True
    have typed: "node_type ty fl1 (sd_node sd) = Some (Some (ts ! sd_node sd))" using nt(1) True by simp
    show thesis
    proof (cases rule: flow_send_ok [OF ty types inv1 src typed, of a l, case_names sent failed])
      case (sent fl2)
      then show thesis using typed run old
        by (intro ok [of fl2]) (auto simp: sol_flow_send_packet_def flow_grows_def fl1_def p_def split: if_splits)
    next
      case (failed e fl2)
      have "sol_flow_packet_del p fl2 = Some (fl2\<lparr>fl_packets := (fl_packets fl2)(p := None)\<rparr>)"
        using failed(5) by (simp add: sol_flow_packet_del_def fl1_def)
      then show thesis using typed run failed
        by (intro dropped [of fl2]) (auto simp: sol_flow_send_packet_def fl1_def)
    qed
  qed
qed

lemma do_sends_ok:
  assumes ty: "flow_type_ok ts cs ei eo ty" and types: "types_ok ts" and inv: "flow_inv ts extra fl"
    and src: "\<forall>sd \<in> set sds. source_ok ts (sd_node sd) (sd_port sd)"
  obtains (ok) fl' where "do_sends a l ty sds fl = Some fl'" and "flow_inv ts extra fl'" and "flow_grows fl fl'" and "fl_log fl' = fl_log fl"
proof -
  have "\<exists>fl'. do_sends a l ty sds fl = Some fl' \<and> flow_inv ts extra fl' \<and> flow_grows fl fl' \<and> fl_log fl' = fl_log fl"
    using inv src
  proof (induction sds arbitrary: fl)
    case Nil
    then show ?case by (simp add: flow_grows_refl)
  next
    case (Cons sd sds)
    obtain fl1 where fl1: "do_send a l ty sd fl = Some fl1" "flow_inv ts extra fl1" "flow_grows fl fl1" "fl_log fl1 = fl_log fl"
      using do_send_ok [OF ty types Cons.prems(1), of sd a l] Cons.prems(2) by auto
    obtain fl2 where "do_sends a l ty sds fl1 = Some fl2" "flow_inv ts extra fl2" "flow_grows fl1 fl2" "fl_log fl2 = fl_log fl1"
      using Cons.IH [OF fl1(2)] Cons.prems(2) by auto
    then show ?case using fl1 flow_grows_trans by auto
  qed
  then show thesis using ok by blast
qed

lemma callback_ok:
  assumes "flow_type_ok ts cs ei eo ty" and "types_ok ts" and "app_legal ts a" and "flow_inv ts extra fl"
  obtains (ok) r fl' where "callback a l ty ev fl = Some (r, fl')" and "flow_inv ts extra fl'" and "flow_grows fl fl'"
    and "fl_log fl' = fl_log fl @ [ev]" and "r = snd (react a (fl_log fl @ [ev]))"
proof -
  let ?fl = "fl\<lparr>fl_log := fl_log fl @ [ev]\<rparr>"
  obtain sds r where react: "react a (fl_log fl @ [ev]) = (sds, r)" by fastforce
  have "flow_inv ts extra ?fl" using assms(4) by (simp add: flow_inv_def)
  moreover have "\<forall>sd \<in> set sds. source_ok ts (sd_node sd) (sd_port sd)"
    using assms(3) react unfolding app_legal_def by (metis fst_conv)
  ultimately obtain fl' where "do_sends a l ty sds ?fl = Some fl'" "flow_inv ts extra fl'" "flow_grows ?fl fl'" "fl_log fl' = fl_log fl @ [ev]"
    using do_sends_ok [OF assms(1,2), of extra ?fl sds a l] by auto
  then show thesis using react by (intro ok [of r fl']) (auto simp: callback_def flow_grows_def)
qed

section \<open>Delivery\<close>

text \<open>
  The reference: the connections from a port, in the order of the specification, whose input port has
  a process callback; and the event of the packet's export, if the port is exported.
\<close>

definition takes_packets :: "sol_flow_node_type list \<Rightarrow> sol_flow_static_conn_spec \<Rightarrow> bool" where
  "takes_packets ts c \<longleftrightarrow> (\<exists>pt. sol_flow_node_type_get_port_in (Some (ts ! dst c)) (dst_port c) = Some pt \<and> pin_process pt)"

definition delivered :: "sol_flow_node_type list \<Rightarrow> sol_flow_static_conn_spec list \<Rightarrow> flow_static_type \<Rightarrow> nat \<Rightarrow> nat \<Rightarrow> sol_flow_packet
    \<Rightarrow> nat list \<Rightarrow> event list" where
  "delivered ts cs ty s q pk js =
     map (\<lambda>j. Ev_process (dst (cs ! j)) (dst_port (cs ! j)) (in_conn_id (conn_infos ty ! j)) pk)
       (filter (\<lambda>j. src (cs ! j) = s \<and> src_port (cs ! j) = q \<and> takes_packets ts (cs ! j)) js)"

definition exported_as :: "sol_flow_static_port_spec list \<Rightarrow> nat \<Rightarrow> nat \<Rightarrow> nat option" where
  "exported_as eo s q = find (\<lambda>k. pnode (eo ! k) = s \<and> pport (eo ! k) = q) [0..<length eo]"

definition export_event :: "flow_app \<Rightarrow> sol_flow_static_port_spec list \<Rightarrow> nat \<Rightarrow> nat \<Rightarrow> sol_flow_packet \<Rightarrow> event list" where
  "export_event a eo s q pk = (case exported_as eo s q of Some k \<Rightarrow> if has_parent a then [Ev_export k pk] else [] | None \<Rightarrow> [])"

definition all_open :: "flow \<Rightarrow> bool" where
  "all_open fl \<longleftrightarrow> (\<forall>ns \<in> set_option (fl_nodes fl). \<forall>n \<in> set ns. nd_typed n)"

lemma conns_sorted_src: "conns_sorted cs \<Longrightarrow> i \<le> j \<Longrightarrow> j < length cs \<Longrightarrow> src (cs ! i) \<le> src (cs ! j)"
  unfolding conns_sorted_def sorted_wrt_iff_nth_less conn_le_def by (metis le_neq_implies_less less_imp_le order_refl)

lemma conn_array_get:
  assumes "flow_type_ok ts cs ei eo ty"
  shows "i < length cs \<Longrightarrow> mem_get i (conn_specs ty) = Some (cs ! i)"
    and "\<exists>g. mem_get (length cs) (conn_specs ty) = Some g \<and> src g = UINT16_MAX"
    and "i < length cs \<Longrightarrow> mem_get i (conn_infos ty) = Some (conn_infos ty ! i)"
    and "i < length cs \<Longrightarrow> conn_valid ts (cs ! i)"
    and "conns_sorted cs" and "length ts \<le> UINT16_MAX"
  using assms by (auto simp: flow_type_ok_def flow_spec_def conn_array_def mem_get_def nth_append id_infos_def spec_accepted_def)

text \<open>Delivering over one connection.\<close>

lemma deliver_one:
  assumes ty: "flow_type_ok ts cs ei eo ty" and types: "types_ok ts" and legal: "app_legal ts a" and inv: "flow_inv ts extra fl"
    and opened: "all_open fl" and c: "conn_valid ts c" and p: "fl_packets fl p = Some pk"
  obtains (ok) fl' r pt where "node_type ty fl (dst c) = Some (Some (ts ! dst c))"
    and "sol_flow_node_type_get_port_in (Some (ts ! dst c)) (dst_port c) = Some pt"
    and "dispatch_process a l ty (dst c) (dst_port c) cid pt p fl = Some (r, fl')" and "flow_inv ts extra fl'" and "flow_grows fl fl'"
    and "fl_log fl' = fl_log fl @ (if takes_packets ts c then [Ev_process (dst c) (dst_port c) cid pk] else [])"
proof -
  obtain ns where ns: "fl_nodes fl = Some ns" "length ns = length ts" using inv by (auto simp: flow_inv_def)
  have d: "dst c < length ts" "dst_port c < nt_ports_in_count (ts ! dst c)" using c by (simp_all add: conn_valid_def)
  have typed: "node_type ty fl (dst c) = Some (Some (ts ! dst c))"
    using node_type_eq(1) [OF ty ns d(1)] opened ns d(1) by (auto simp: all_open_def)
  obtain pt where pt: "sol_flow_node_type_get_port_in (Some (ts ! dst c)) (dst_port c) = Some pt"
    using types d nth_mem [OF d(1)] unfolding types_ok_def by blast
  show thesis
  proof (cases "pin_process pt")
    case True
    obtain r fl' where "callback a l ty (Ev_process (dst c) (dst_port c) cid pk) fl = Some (r, fl')" "flow_inv ts extra fl'" "flow_grows fl fl'"
      "fl_log fl' = fl_log fl @ [Ev_process (dst c) (dst_port c) cid pk]"
      using callback_ok [OF ty types legal inv] by blast
    then show thesis using True pt typed p by (intro ok [of pt r fl']) (auto simp: dispatch_process_def takes_packets_def)
  next
    case False
    then show thesis using pt typed p inv by (intro ok [of pt "Inr ()" fl]) (auto simp: dispatch_process_def takes_packets_def flow_grows_refl)
  qed
qed

lemma flow_grows_packet: "flow_grows fl fl' \<Longrightarrow> fl_packets fl p = Some pk \<Longrightarrow> fl_packets fl' p = Some pk"
  by (auto simp: flow_grows_def dom_def)

lemma flow_grows_open: "flow_grows fl fl' \<Longrightarrow> all_open fl \<Longrightarrow> all_open fl'"
  by (simp add: flow_grows_def all_open_def)

text \<open>From a connection of the source on, the loop serves all the later ones of the same source and port.\<close>

lemma send_loop_ok:
  assumes ty: "flow_type_ok ts cs ei eo ty" and types: "types_ok ts" and legal: "app_legal ts a" and s: "s < length ts"
    and "flow_inv ts extra fl" and "all_open fl" and "fl_packets fl p = Some pk" and "i \<le> length cs"
    and "i < length cs \<longrightarrow> s \<le> src (cs ! i) \<or> s \<notin> src ` set cs"
  shows "\<exists>b fl'. send_loop a l ty s q p i dispatched fl = Some (b, fl') \<and> flow_inv ts extra fl' \<and> flow_grows fl fl' \<and>
    fl_log fl' = fl_log fl @ delivered ts cs ty s q pk [i..<length cs]"
  using assms(5-9)
proof (induction "length cs - i" arbitrary: i dispatched fl)
  case 0
  then have i: "i = length cs" by simp
  obtain g where "mem_get i (conn_specs ty) = Some g" "src g \<noteq> s"
    using conn_array_get(2,6) [OF ty] s i by force
  then show ?case using 0 i by (subst send_loop.simps) (simp add: delivered_def flow_grows_refl)
next
  case (Suc k)
  then have i: "i < length cs" by simp
  note get = conn_array_get(1,3,4) [OF ty, of i, OF i]
  have upt: "[i..<length cs] = i # [Suc i..<length cs]" using i by (simp add: upt_conv_Cons)
  have later: "Suc i < length cs \<longrightarrow> s \<le> src (cs ! Suc i) \<or> s \<notin> src ` set cs"
    using Suc.prems(5) i conns_sorted_src [OF conn_array_get(5) [OF ty], of i "Suc i"] by auto
  show ?case
  proof (cases "src (cs ! i) = s")
    case False
    have none: "src (cs ! j) \<noteq> s" if "i \<le> j" "j < length cs" for j
      using Suc.prems(5) i that False conns_sorted_src [OF conn_array_get(5) [OF ty], of i j] by (force simp: image_iff)
    then have "delivered ts cs ty s q pk [i..<length cs] = []" by (auto simp: delivered_def filter_empty_conv)
    then show ?thesis using False get(1) Suc.prems by (auto simp: send_loop.simps [of a l ty s q p i] flow_grows_refl)
  next
    case same: True
    show ?thesis
    proof (cases "src_port (cs ! i) = q")
      case False
      have "\<exists>b fl'. send_loop a l ty s q p (Suc i) dispatched fl = Some (b, fl') \<and> flow_inv ts extra fl' \<and> flow_grows fl fl' \<and>
          fl_log fl' = fl_log fl @ delivered ts cs ty s q pk [Suc i..<length cs]"
        by (rule Suc.hyps(1)) (use Suc.hyps(2) Suc.prems later i in auto)
      then show ?thesis using same False get(1) by (simp add: send_loop.simps [of a l ty s q p i] delivered_def upt)
    next
      case True
      obtain fl1 r pt where one: "node_type ty fl (dst (cs ! i)) = Some (Some (ts ! dst (cs ! i)))"
        "sol_flow_node_type_get_port_in (Some (ts ! dst (cs ! i))) (dst_port (cs ! i)) = Some pt"
        "dispatch_process a l ty (dst (cs ! i)) (dst_port (cs ! i)) (in_conn_id (conn_infos ty ! i)) pt p fl = Some (r, fl1)"
        "flow_inv ts extra fl1" "flow_grows fl fl1"
        "fl_log fl1 = fl_log fl @ (if takes_packets ts (cs ! i)
           then [Ev_process (dst (cs ! i)) (dst_port (cs ! i)) (in_conn_id (conn_infos ty ! i)) pk] else [])"
        using deliver_one [OF ty types legal Suc.prems(1,2) get(3) Suc.prems(3)] by blast
      have "\<exists>b fl'. send_loop a l ty s q p (Suc i) True fl1 = Some (b, fl') \<and> flow_inv ts extra fl' \<and> flow_grows fl1 fl' \<and>
          fl_log fl' = fl_log fl1 @ delivered ts cs ty s q pk [Suc i..<length cs]"
        by (rule Suc.hyps(1))
          (use Suc.hyps(2) one(4) flow_grows_open [OF one(5) Suc.prems(2)] flow_grows_packet [OF one(5) Suc.prems(3)] later i in auto)
      then obtain b fl2 where two: "send_loop a l ty s q p (Suc i) True fl1 = Some (b, fl2)" "flow_inv ts extra fl2" "flow_grows fl1 fl2"
        "fl_log fl2 = fl_log fl1 @ delivered ts cs ty s q pk [Suc i..<length cs]" by blast
      have "send_loop a l ty s q p i dispatched fl = Some (b, fl2)"
        using same True get one(1-3) two(1) by (simp add: send_loop.simps [of a l ty s q p i])
      then show ?thesis using flow_grows_trans [OF one(5) two(3)] two(2,4) one(6) same True by (auto simp: delivered_def upt)
    qed
  qed
qed

lemma export_loop_eq:
  assumes "specs = eo @ g # rest" and "pnode g = UINT16_MAX" and "\<forall>e \<in> set eo. pnode e < UINT16_MAX" and "i \<le> length eo"
  shows "export_loop specs s q i = Some (find (\<lambda>k. pnode (eo ! k) = s \<and> pport (eo ! k) = q) [i..<length eo])"
  using assms(4)
proof (induction "length eo - i" arbitrary: i)
  case 0
  then have "mem_get i specs = Some g" using assms(1) by (simp add: mem_get_def nth_append)
  then show ?case using 0 assms(2) by (subst export_loop.simps) simp
next
  case (Suc k)
  then have i: "i < length eo" by simp
  then have "mem_get i specs = Some (eo ! i)" "pnode (eo ! i) < UINT16_MAX" using assms(1,3) by (auto simp: mem_get_def nth_append)
  then show ?case using Suc i by (subst export_loop.simps) (auto simp: upt_conv_Cons)
qed

lemma flow_send_do_ok:
  assumes ty: "flow_type_ok ts cs ei eo ty" and types: "types_ok ts" and ex: "exports_exist ts ei eo" and legal: "app_legal ts a"
    and inv: "flow_inv ts (p # extra) fl" and opened: "all_open fl" and p: "fl_packets fl p = Some pk" and s: "s < length ts"
  obtains (ok) fl' where "flow_send_do a l ty s q p fl = Some fl'" and "flow_inv ts extra fl'" and "fl_nodes fl' = fl_nodes fl"
    and "fl_next fl \<le> fl_next fl'" and "\<forall>x \<in> dom (fl_packets fl) - {p}. fl_packets fl' x = fl_packets fl x"
    and "\<exists>more. delayed_packets fl' = delayed_packets fl @ more \<and> (\<forall>dp \<in> set more. fl_next fl \<le> dp_packet dp)"
    and "fl_log fl' = fl_log fl @ delivered ts cs ty s q pk [0..<length cs] @ export_event a eo s q pk"
proof -
  define i where "i = first_idx cs s"
  have i: "mem_get s (node_infos ty) = Some i" using ty s by (simp add: flow_type_ok_def mem_get_def i_def)
  have le: "i \<le> length cs" by (simp add: i_def first_idx_def length_takeWhile_le)
  have start: "i < length cs \<longrightarrow> s \<le> src (cs ! i) \<or> s \<notin> src ` set cs"
    using nth_length_takeWhile [of "\<lambda>c. src c \<noteq> s" cs] by (auto simp: i_def first_idx_def)
  have "src (cs ! j) \<noteq> s" if "j < i" for j
  proof -
    have j: "j < length (takeWhile (\<lambda>c. src c \<noteq> s) cs)" using that by (auto simp: i_def first_idx_def split: if_splits)
    show ?thesis using set_takeWhileD [OF nth_mem [OF j]] takeWhile_nth [OF j] by simp
  qed
  then have "delivered ts cs ty s q pk [0..<length cs] = delivered ts cs ty s q pk [i..<length cs]"
    using le upt_add_eq_append [of 0 i "length cs - i"] by (auto simp: delivered_def filter_empty_conv)
  then obtain b fl1 where fl1: "send_loop a l ty s q p i False fl = Some (b, fl1)" "flow_inv ts (p # extra) fl1" "flow_grows fl fl1"
    "fl_log fl1 = fl_log fl @ delivered ts cs ty s q pk [0..<length cs]"
    using send_loop_ok [OF ty types legal s inv opened p le start, of l q False] by auto
  have out: "(if ports_out_count ty > 0 then do { specs \<leftarrow> exported_out_specs ty; export_loop specs s q 0 } else Some None) = Some (exported_as eo s q)"
  proof (cases "eo = []")
    case True
    then show ?thesis using ty by (simp add: flow_type_ok_def flow_spec_def exported_as_def)
  next
    case False
    then obtain specs g rest where "exported_out_specs ty = Some specs" "specs = eo @ g # rest" "pnode g = UINT16_MAX"
      using ty by (auto simp: flow_type_ok_def flow_spec_def port_array_def split: option.splits)
    moreover have "\<forall>e \<in> set eo. pnode e < UINT16_MAX" using ex conn_array_get(6) [OF ty] by (auto simp: exports_exist_def)
    ultimately show ?thesis using False ty export_loop_eq [of specs eo g rest 0 s q]
      by (simp add: flow_type_ok_def flow_spec_def exported_as_def)
  qed
  define fl2 where "fl2 = fl1\<lparr>fl_packets := (fl_packets fl1)(p := None)\<rparr>"
  have fl2: "sol_flow_packet_del p fl1 = Some fl2" "flow_inv ts extra fl2" using packet_del_ok [OF fl1(2)] by (auto simp: fl2_def)
  define fl3 where "fl3 = fl2\<lparr>fl_log := fl_log fl1 @ export_event a eo s q pk\<rparr>"
  have p1: "fl_packets fl1 p = Some pk" using flow_grows_packet [OF fl1(3) p] .
  have "flow_send_do a l ty s q p fl = Some fl3"
    using i p fl1(1) out fl2(1) p1
    by (auto simp: flow_send_do_def export_packet_def export_event_def fl3_def fl2_def split: option.splits)
  moreover have "flow_inv ts extra fl3" using fl2(2) by (simp add: fl3_def flow_inv_def)
  ultimately show thesis
    using fl1(3,4) by (intro ok [of fl3]) (auto simp: fl3_def fl2_def flow_grows_def)
qed

text \<open>Everything one waiting packet causes, and what a run of the timer does to the queue.\<close>

definition transport :: "sol_flow_node_type list \<Rightarrow> sol_flow_static_conn_spec list \<Rightarrow> sol_flow_static_port_spec list \<Rightarrow> flow_app
    \<Rightarrow> flow_static_type \<Rightarrow> (nat \<Rightarrow> sol_flow_packet option) \<Rightarrow> delayed_packet \<Rightarrow> event list" where
  "transport ts cs eo a ty heap dp =
     (let s = source_idx dp; q = source_port_idx dp; pk = the (heap (dp_packet dp))
      in delivered ts cs ty s q pk [0..<length cs] @ export_event a eo s q pk)"

lemma send_all_ok:
  assumes ty: "flow_type_ok ts cs ei eo ty" and types: "types_ok ts" and ex: "exports_exist ts ei eo" and legal: "app_legal ts a"
    and "flow_inv ts (map dp_packet dps) fl" and "all_open fl" and "\<forall>dp \<in> set dps. source_idx dp < length ts"
    and "\<forall>dp \<in> set dps. fl_packets fl (dp_packet dp) = heap (dp_packet dp)" and "\<forall>dp \<in> set (delayed_packets fl). n \<le> dp_packet dp"
    and "n \<le> fl_next fl"
  shows "\<exists>fl'. send_all a l ty dps fl = Some fl' \<and> flow_inv ts [] fl' \<and> fl_nodes fl' = fl_nodes fl \<and>
    (\<forall>dp \<in> set (delayed_packets fl'). n \<le> dp_packet dp) \<and>
    fl_log fl' = fl_log fl @ concat (map (transport ts cs eo a ty heap) dps)"
  using assms(5-10)
proof (induction dps arbitrary: fl)
  case Nil
  then show ?case by simp
next
  case (Cons dp dps)
  let ?p = "dp_packet dp"
  have inv: "flow_inv ts (?p # map dp_packet dps) fl" using Cons.prems(1) by simp
  have new: "?p \<notin> set (map dp_packet dps)" "dom (fl_packets fl) \<supseteq> set (?p # map dp_packet dps)" using inv by (auto simp: flow_inv_def)
  then obtain pk where pk: "fl_packets fl ?p = Some pk" by auto
  obtain fl1 where fl1: "flow_send_do a l ty (source_idx dp) (source_port_idx dp) ?p fl = Some fl1" "flow_inv ts (map dp_packet dps) fl1"
    "fl_nodes fl1 = fl_nodes fl" "fl_next fl \<le> fl_next fl1" "\<forall>x \<in> dom (fl_packets fl) - {?p}. fl_packets fl1 x = fl_packets fl x"
    "\<exists>more. delayed_packets fl1 = delayed_packets fl @ more \<and> (\<forall>d \<in> set more. fl_next fl \<le> dp_packet d)"
    "fl_log fl1 = fl_log fl @ delivered ts cs ty (source_idx dp) (source_port_idx dp) pk [0..<length cs] @
       export_event a eo (source_idx dp) (source_port_idx dp) pk"
    using flow_send_do_ok [OF ty types ex legal inv Cons.prems(2) pk, of "source_idx dp" l "source_port_idx dp"] Cons.prems(3) by auto
  have "\<exists>fl'. send_all a l ty dps fl1 = Some fl' \<and> flow_inv ts [] fl' \<and> fl_nodes fl' = fl_nodes fl1 \<and>
      (\<forall>dp \<in> set (delayed_packets fl'). n \<le> dp_packet dp) \<and>
      fl_log fl' = fl_log fl1 @ concat (map (transport ts cs eo a ty heap) dps)"
  proof (rule Cons.IH [OF fl1(2)])
    show "all_open fl1" using Cons.prems(2) fl1(3) by (simp add: all_open_def)
    show "\<forall>d \<in> set dps. fl_packets fl1 (dp_packet d) = heap (dp_packet d)"
    proof
      fix d assume d: "d \<in> set dps"
      then have "dp_packet d \<in> dom (fl_packets fl) - {?p}" using new by (auto simp: image_iff)
      then show "fl_packets fl1 (dp_packet d) = heap (dp_packet d)" using fl1(5) Cons.prems(4) d by simp
    qed
    show "\<forall>d \<in> set (delayed_packets fl1). n \<le> dp_packet d" using fl1(6) Cons.prems(5,6) by (auto intro: le_trans)
  qed (use Cons.prems(3,6) fl1(4) in auto)
  moreover have "heap ?p = Some pk" using Cons.prems(4) pk by (metis list.set_intros(1))
  then have "transport ts cs eo a ty heap dp = delivered ts cs ty (source_idx dp) (source_port_idx dp) pk [0..<length cs] @
      export_event a eo (source_idx dp) (source_port_idx dp) pk"
    by (simp add: transport_def Let_def)
  ultimately show ?case using fl1(1,3,7) by auto
qed

text \<open>
  The main loop's part: the timer is taken off its list and the callback run, which returns false.
\<close>

definition timer_fires :: "flow_app \<Rightarrow> nat libc \<Rightarrow> flow_static_type \<Rightarrow> flow \<Rightarrow> flow option" where
  "timer_fires a l ty fl = (case fl_timers fl of [] \<Rightarrow> None | h # hs \<Rightarrow> flow_send_idle a l ty (fl\<lparr>fl_timers := hs\<rparr>))"

lemma timer_fires_ok:
  assumes "flow_type_ok ts cs ei eo ty" and "types_ok ts" and "exports_exist ts ei eo" and "app_legal ts a"
    and inv: "flow_inv ts [] fl" and "all_open fl" and "delay_send fl \<noteq> None"
  shows "\<exists>fl'. timer_fires a l ty fl = Some fl' \<and> flow_inv ts [] fl' \<and> all_open fl' \<and>
    fl_log fl' = fl_log fl @ concat (map (transport ts cs eo a ty (fl_packets fl)) (delayed_packets fl)) \<and>
    (\<forall>p \<in> dom (fl_packets fl). fl_packets fl' p = None)"
proof -
  define fl1 where "fl1 = fl\<lparr>fl_timers := [], delay_send := None, delayed_packets := []\<rparr>"
  have run: "timer_fires a l ty fl = send_all a l ty (delayed_packets fl) fl1"
    using assms(7) inv by (auto simp: timer_fires_def flow_inv_def flow_send_idle_def fl1_def)
  have heap: "dom (fl_packets fl) = dp_packet ` set (delayed_packets fl)" using inv by (simp add: flow_inv_def)
  have "flow_inv ts (map dp_packet (delayed_packets fl)) fl1" using inv by (simp add: flow_inv_def fl1_def)
  then obtain fl' where fl': "send_all a l ty (delayed_packets fl) fl1 = Some fl'" "flow_inv ts [] fl'" "fl_nodes fl' = fl_nodes fl1"
    "\<forall>dp \<in> set (delayed_packets fl'). fl_next fl \<le> dp_packet dp"
    "fl_log fl' = fl_log fl1 @ concat (map (transport ts cs eo a ty (fl_packets fl)) (delayed_packets fl))"
    using send_all_ok [OF assms(1-4), of "delayed_packets fl" fl1 "fl_packets fl" "fl_next fl" l] assms(6) inv
    by (auto simp: fl1_def all_open_def flow_inv_def source_ok_def)
  have "fl_packets fl' p = None" if "p \<in> dom (fl_packets fl)" for p
  proof -
    have "p < fl_next fl" using inv that by (auto simp: flow_inv_def)
    then have "p \<notin> dp_packet ` set (delayed_packets fl')" using fl'(4) by force
    then show ?thesis using fl'(2) by (auto simp: flow_inv_def)
  qed
  then show ?thesis using run fl' assms(6) by (auto simp: fl1_def all_open_def)
qed

text \<open>
  C18. When the flow's timer fires, every waiting packet is delivered in the order in which the packets
  were sent: to each connection of its source port in the order of the specification, exactly once, and
  to the parent if the port is exported. All these packets are deleted or handed over, once. Packets
  that the callbacks send meanwhile wait for the next firing, for which there is exactly one timer.
\<close>

theorem flow_send_idle_delivers:
  assumes "flow_type_ok ts cs ei eo ty" and "types_ok ts" and "exports_exist ts ei eo" and "app_legal ts a"
    and "flow_inv ts [] fl" and "all_open fl" and "delay_send fl \<noteq> None"
  shows "\<exists>fl'. timer_fires a l ty fl = Some fl' \<and> flow_inv ts [] fl' \<and> all_open fl' \<and>
    fl_log fl' = fl_log fl @ concat (map (transport ts cs eo a ty (fl_packets fl)) (delayed_packets fl)) \<and>
    (\<forall>p \<in> dom (fl_packets fl). fl_packets fl' p = None)"
  by (rule timer_fires_ok [OF assms])

section \<open>Opening\<close>

text \<open>
  \<open>calls ts evs fl fl'\<close>: from \<open>fl\<close> to \<open>fl'\<close> the callbacks \<open>evs\<close> were called and the invariant was kept.
\<close>

definition typed_below :: "flow \<Rightarrow> nat \<Rightarrow> bool" where
  "typed_below fl k \<longleftrightarrow> (\<forall>ns \<in> set_option (fl_nodes fl). \<forall>i < k. nd_typed (ns ! i))"

definition calls :: "sol_flow_node_type list \<Rightarrow> event list \<Rightarrow> flow \<Rightarrow> flow \<Rightarrow> bool" where
  "calls ts evs fl fl' \<longleftrightarrow> flow_inv ts [] fl' \<and> fl_nodes fl' = fl_nodes fl \<and> fl_log fl' = fl_log fl @ evs"

lemma calls_refl: "flow_inv ts [] fl \<Longrightarrow> calls ts [] fl fl"
  by (simp add: calls_def)

lemma calls_trans: "calls ts e1 a b \<Longrightarrow> calls ts e2 b c \<Longrightarrow> calls ts (e1 @ e2) a c"
  by (simp add: calls_def)

lemma callback_calls:
  assumes "flow_type_ok ts cs ei eo ty" and "types_ok ts" and "app_legal ts a" and "flow_inv ts [] fl"
  obtains r fl' where "callback a l ty ev fl = Some (r, fl')" and "calls ts [ev] fl fl'"
  using callback_ok [OF assms] by (metis calls_def flow_grows_def)

definition event_if :: "bool \<Rightarrow> event \<Rightarrow> event list" where
  "event_if b ev = (if b then [ev] else [])"

lemma callback_if:
  assumes "flow_type_ok ts cs ei eo ty" and "types_ok ts" and "app_legal ts a" and "flow_inv ts [] fl"
  shows "\<exists>r fl'. (if b then callback a l ty ev fl else Some (Inr (), fl)) = Some (r, fl') \<and> calls ts (event_if b ev) fl fl'"
proof -
  have "\<exists>r fl'. callback a l ty ev fl = Some (r, fl') \<and> calls ts [ev] fl fl'" using callback_calls [OF assms, of l ev] by blast
  then show ?thesis using calls_refl [OF assms(4)] by (simp add: event_if_def)
qed

lemma dispatch_calls:
  assumes "flow_type_ok ts cs ei eo ty" and "types_ok ts" and "app_legal ts a" and "flow_inv ts [] fl"
  shows "\<exists>r fl'. dispatch_connect_out a l ty n p c po fl = Some (r, fl') \<and> calls ts (event_if (pout_connect po) (Ev_connect_out n p c)) fl fl'"
    and "\<exists>r fl'. dispatch_connect_in a l ty n p c pi fl = Some (r, fl') \<and> calls ts (event_if (pin_connect pi) (Ev_connect_in n p c)) fl fl'"
    and "\<exists>r fl'. dispatch_disconnect_out a l ty n p c po fl = Some (r, fl') \<and> calls ts (event_if (pout_disconnect po) (Ev_disconnect_out n p c)) fl fl'"
    and "\<exists>r fl'. dispatch_disconnect_in a l ty n p c pi fl = Some (r, fl') \<and> calls ts (event_if (pin_disconnect pi) (Ev_disconnect_in n p c)) fl fl'"
  unfolding dispatch_connect_out_def dispatch_connect_in_def dispatch_disconnect_out_def dispatch_disconnect_in_def
  by (rule callback_if [OF assms])+

text \<open>The ports of a connection, and the events of making and undoing it.\<close>

definition conn_out :: "sol_flow_node_type list \<Rightarrow> sol_flow_static_conn_spec \<Rightarrow> sol_flow_port_type_out" where
  "conn_out ts c = the (sol_flow_node_type_get_port_out (Some (ts ! src c)) (src_port c))"

definition conn_in :: "sol_flow_node_type list \<Rightarrow> sol_flow_static_conn_spec \<Rightarrow> sol_flow_port_type_in" where
  "conn_in ts c = the (sol_flow_node_type_get_port_in (Some (ts ! dst c)) (dst_port c))"

definition ev_out :: "sol_flow_node_type list \<Rightarrow> sol_flow_static_conn_spec list \<Rightarrow> flow_static_type \<Rightarrow> nat \<Rightarrow> event list" where
  "ev_out ts cs ty j = event_if (pout_connect (conn_out ts (cs ! j)))
     (Ev_connect_out (src (cs ! j)) (src_port (cs ! j)) (out_conn_id (conn_infos ty ! j)))"

definition ev_in :: "sol_flow_node_type list \<Rightarrow> sol_flow_static_conn_spec list \<Rightarrow> flow_static_type \<Rightarrow> nat \<Rightarrow> event list" where
  "ev_in ts cs ty j = event_if (pin_connect (conn_in ts (cs ! j)))
     (Ev_connect_in (dst (cs ! j)) (dst_port (cs ! j)) (in_conn_id (conn_infos ty ! j)))"

definition ev_unout :: "sol_flow_node_type list \<Rightarrow> sol_flow_static_conn_spec list \<Rightarrow> flow_static_type \<Rightarrow> nat \<Rightarrow> event list" where
  "ev_unout ts cs ty j = event_if (pout_disconnect (conn_out ts (cs ! j)))
     (Ev_disconnect_out (src (cs ! j)) (src_port (cs ! j)) (out_conn_id (conn_infos ty ! j)))"

definition ev_unin :: "sol_flow_node_type list \<Rightarrow> sol_flow_static_conn_spec list \<Rightarrow> flow_static_type \<Rightarrow> nat \<Rightarrow> event list" where
  "ev_unin ts cs ty j = event_if (pin_disconnect (conn_in ts (cs ! j)))
     (Ev_disconnect_in (dst (cs ! j)) (dst_port (cs ! j)) (in_conn_id (conn_infos ty ! j)))"

definition connect_events :: "sol_flow_node_type list \<Rightarrow> sol_flow_static_conn_spec list \<Rightarrow> flow_static_type \<Rightarrow> nat \<Rightarrow> event list" where
  "connect_events ts cs ty k = concat (map (\<lambda>j. ev_out ts cs ty j @ ev_in ts cs ty j) [0..<k])"

definition unconnect_events :: "sol_flow_node_type list \<Rightarrow> sol_flow_static_conn_spec list \<Rightarrow> flow_static_type \<Rightarrow> nat \<Rightarrow> event list" where
  "unconnect_events ts cs ty k = concat (map (\<lambda>j. ev_unin ts cs ty j @ ev_unout ts cs ty j) (rev [0..<k]))"

text \<open>Ports of the current API whose packet types are set.\<close>

definition ports_ok :: "sol_flow_node_type list \<Rightarrow> sol_flow_static_conn_spec \<Rightarrow> bool" where
  "ports_ok ts c \<longleftrightarrow> pout_api (conn_out ts c) \<and> pin_api (conn_in ts c) \<and>
     pout_packet_type (conn_out ts c) \<noteq> None \<and> pin_packet_type (conn_in ts c) \<noteq> None"

lemma conn_ports_nodes:
  assumes ty: "flow_type_ok ts cs ei eo ty" and types: "types_ok ts" and ns: "fl_nodes fl = Some ns" "length ns = length ts"
    and opened: "all_open fl" and j: "j < length cs"
  shows "out_port_of ty fl (cs ! j) = Some (Some (conn_out ts (cs ! j)))" and "in_port_of ty fl (cs ! j) = Some (Some (conn_in ts (cs ! j)))"
proof -
  have v: "conn_valid ts (cs ! j)" using conn_array_get(4) [OF ty j] .
  then have s: "source_ok ts (src (cs ! j)) (src_port (cs ! j))" and d: "dst (cs ! j) < length ts" "dst_port (cs ! j) < nt_ports_in_count (ts ! dst (cs ! j))"
    by (auto simp: conn_valid_def source_ok_def flow_port_out_is_valid_def)
  have nt: "node_type ty fl n = Some (Some (ts ! n))" if "n < length ts" for n
    using node_type_eq(1) [OF ty ns that] opened ns that by (auto simp: all_open_def)
  obtain pt where "sol_flow_node_type_get_port_out (Some (ts ! src (cs ! j))) (src_port (cs ! j)) = Some pt"
    using out_port_exists [OF types s] by blast
  then show "out_port_of ty fl (cs ! j) = Some (Some (conn_out ts (cs ! j)))"
    using nt s by (simp add: out_port_of_def conn_out_def source_ok_def)
  obtain pi where "sol_flow_node_type_get_port_in (Some (ts ! dst (cs ! j))) (dst_port (cs ! j)) = Some pi"
    using types d nth_mem [OF d(1)] unfolding types_ok_def by blast
  then show "in_port_of ty fl (cs ! j) = Some (Some (conn_in ts (cs ! j)))"
    using nt d by (simp add: in_port_of_def conn_in_def)
qed

lemma conn_ports:
  assumes "flow_type_ok ts cs ei eo ty" and "types_ok ts" and inv: "flow_inv ts [] fl" and "all_open fl" and "j < length cs"
  shows "out_port_of ty fl (cs ! j) = Some (Some (conn_out ts (cs ! j)))" and "in_port_of ty fl (cs ! j) = Some (Some (conn_in ts (cs ! j)))"
proof -
  obtain ns where ns: "fl_nodes fl = Some ns" "length ns = length ts" using inv by (auto simp: flow_inv_def)
  show "out_port_of ty fl (cs ! j) = Some (Some (conn_out ts (cs ! j)))" "in_port_of ty fl (cs ! j) = Some (Some (conn_in ts (cs ! j)))"
    by (rule conn_ports_nodes [OF assms(1,2) ns assms(4,5)])+
qed

lemma calls_open: "calls ts evs fl fl' \<Longrightarrow> all_open fl' = all_open fl"
  by (simp add: calls_def all_open_def)

lemma unconnect_loop_ok:
  assumes ty: "flow_type_ok ts cs ei eo ty" and types: "types_ok ts" and legal: "app_legal ts a" and "flow_inv ts [] fl" and "all_open fl"
    and "k \<le> length cs"
  shows "\<exists>fl'. unconnect_loop a l ty k fl = Some fl' \<and> calls ts (unconnect_events ts cs ty k) fl fl'"
  using assms(4-6)
proof (induction k arbitrary: fl)
  case 0
  then show ?case by (simp add: unconnect_events_def calls_refl)
next
  case (Suc k)
  then have k: "k < length cs" by simp
  let ?c = "cs ! k"
  note get = conn_array_get(1,3) [OF ty, of k, OF k] and ports = conn_ports [OF ty types _ _ k]
  obtain r1 fl1 where one: "dispatch_disconnect_in a l ty (dst ?c) (dst_port ?c) (in_conn_id (conn_infos ty ! k)) (conn_in ts ?c) fl = Some (r1, fl1)"
    "calls ts (ev_unin ts cs ty k) fl fl1"
    using dispatch_calls(4) [OF ty types legal Suc.prems(1)] unfolding ev_unin_def by blast
  have inv1: "flow_inv ts [] fl1" "all_open fl1" using one(2) Suc.prems(2) by (simp_all add: calls_def all_open_def)
  obtain r2 fl2 where two: "dispatch_disconnect_out a l ty (src ?c) (src_port ?c) (out_conn_id (conn_infos ty ! k)) (conn_out ts ?c) fl1 = Some (r2, fl2)"
    "calls ts (ev_unout ts cs ty k) fl1 fl2"
    using dispatch_calls(3) [OF ty types legal inv1(1)] unfolding ev_unout_def by blast
  have "unconnect a l ty k fl = Some fl2"
    using get ports(1) [OF inv1] ports(2) [OF Suc.prems(1,2)] one(1) two(1) by (simp add: unconnect_def)
  moreover have "\<exists>fl'. unconnect_loop a l ty k fl2 = Some fl' \<and> calls ts (unconnect_events ts cs ty k) fl2 fl'"
    by (rule Suc.IH) (use two(2) inv1(2) k in \<open>auto simp: calls_def all_open_def\<close>)
  moreover have "unconnect_events ts cs ty (Suc k) = ev_unin ts cs ty k @ ev_unout ts cs ty k @ unconnect_events ts cs ty k"
    by (simp add: unconnect_events_def)
  ultimately show ?case using calls_trans [OF one(2) calls_trans [OF two(2)]] by auto
qed

text \<open>How far making a connection gets before it fails: the types do not match, or one of the ends refuses.\<close>

definition attempt :: "sol_flow_node_type list \<Rightarrow> sol_flow_static_conn_spec list \<Rightarrow> flow_static_type \<Rightarrow> nat \<Rightarrow> event list set" where
  "attempt ts cs ty j = {[], ev_out ts cs ty j, ev_out ts cs ty j @ ev_in ts cs ty j @ ev_unout ts cs ty j}"

lemma connect_one_ok:
  assumes ty: "flow_type_ok ts cs ei eo ty" and types: "types_ok ts" and legal: "app_legal ts a" and inv: "flow_inv ts [] fl"
    and opened: "all_open fl" and j: "j < length cs"
  shows "\<exists>r fl' evs. connect_one a l ty j fl = Some (r, fl') \<and> calls ts evs fl fl' \<and>
    (r = Connected \<and> evs = ev_out ts cs ty j @ ev_in ts cs ty j \<or> (\<exists>e. r = Failed j e \<and> evs \<in> attempt ts cs ty j) \<or>
     r = Returned EINVAL \<and> \<not> ports_ok ts (cs ! j) \<and> evs = [])"
proof (cases "ports_ok ts (cs ! j)")
  case False
  have "check_ports j (Some (conn_out ts (cs ! j))) (Some (conn_in ts (cs ! j))) = Returned EINVAL"
    using False by (auto simp: check_ports_def ports_ok_def)
  then have "connect_one a l ty j fl = Some (Returned EINVAL, fl)"
    using conn_array_get(1,3) [OF ty, of j, OF j] conn_ports [OF ty types inv opened j] by (simp add: connect_one_def)
  with False calls_refl [OF inv] show ?thesis by blast
next
  case ports: True
  let ?c = "cs ! j" and ?ci = "conn_infos ty ! j"
  let ?op = "conn_out ts ?c" and ?ip = "conn_in ts ?c"
  note get = conn_array_get(1,3) [OF ty, of j, OF j] and cp = conn_ports [OF ty types inv opened j]
  have p: "pout_api ?op" "pin_api ?ip" "pout_packet_type ?op \<noteq> None" "pin_packet_type ?ip \<noteq> None"
    using ports by (simp_all add: ports_ok_def)
  have run: "connect_one a l ty j fl = (if \<not> match_packets (pout_packet_type ?op) (pin_packet_type ?ip) then Some (Failed j EINVAL, fl)
     else do {
          (r, fl) \<leftarrow> dispatch_connect_out a l ty (src ?c) (src_port ?c) (out_conn_id ?ci) ?op fl;
          (case r of Inl e \<Rightarrow> Some (Failed j e, fl)
           | Inr _ \<Rightarrow> do {
               (r, fl) \<leftarrow> dispatch_connect_in a l ty (dst ?c) (dst_port ?c) (in_conn_id ?ci) ?ip fl;
               (case r of Inl e \<Rightarrow> do {
                    (_, fl) \<leftarrow> dispatch_disconnect_out a l ty (src ?c) (src_port ?c) (out_conn_id ?ci) ?op fl;
                    Some (Failed j e, fl)
                  }
                | Inr _ \<Rightarrow> Some (Connected, fl))
             })
        })"
  proof -
    have "check_ports j (Some ?op) (Some ?ip) =
        (if match_packets (pout_packet_type ?op) (pin_packet_type ?ip) then Connected else Failed j EINVAL)"
      using p by (auto simp: check_ports_def)
    then show ?thesis using get cp by (simp add: connect_one_def)
  qed
  show ?thesis
  proof (cases "match_packets (pout_packet_type ?op) (pin_packet_type ?ip)")
    case False
    then show ?thesis using run calls_refl [OF inv] by (auto simp: attempt_def)
  next
    case match: True
    obtain r1 fl1 where one: "dispatch_connect_out a l ty (src ?c) (src_port ?c) (out_conn_id ?ci) ?op fl = Some (r1, fl1)" "calls ts (ev_out ts cs ty j) fl fl1"
      using dispatch_calls(1) [OF ty types legal inv] unfolding ev_out_def by blast
    show ?thesis
    proof (cases r1)
      case (Inl e)
      then show ?thesis using run match one by (auto simp: attempt_def)
    next
      case (Inr u)
      have inv1: "flow_inv ts [] fl1" using one(2) by (simp add: calls_def)
      obtain r2 fl2 where two: "dispatch_connect_in a l ty (dst ?c) (dst_port ?c) (in_conn_id ?ci) ?ip fl1 = Some (r2, fl2)" "calls ts (ev_in ts cs ty j) fl1 fl2"
        using dispatch_calls(2) [OF ty types legal inv1] unfolding ev_in_def by blast
      have inv2: "flow_inv ts [] fl2" using two(2) by (simp add: calls_def)
      obtain r3 fl3 where three: "dispatch_disconnect_out a l ty (src ?c) (src_port ?c) (out_conn_id ?ci) ?op fl2 = Some (r3, fl3)"
        "calls ts (ev_unout ts cs ty j) fl2 fl3"
        using dispatch_calls(3) [OF ty types legal inv2] unfolding ev_unout_def by blast
      show ?thesis
      proof (cases r2)
        case (Inl e)
        then show ?thesis
          using run match one(1) Inr two(1) three calls_trans [OF one(2) calls_trans [OF two(2) three(2)]] by (auto simp: attempt_def)
      next
        case r2: (Inr v)
        then show ?thesis using run match one(1) Inr two(1) calls_trans [OF one(2) two(2)] by auto
      qed
    qed
  qed
qed

lemma connect_loop_ok:
  assumes ty: "flow_type_ok ts cs ei eo ty" and types: "types_ok ts" and legal: "app_legal ts a"
    and "calls ts (connect_events ts cs ty i) fl0 fl" and "all_open fl0" and "i + left = length cs"
  shows "\<exists>r fl'. connect_loop a l ty left i fl = Some (r, fl') \<and>
    (r = Connected \<and> calls ts (connect_events ts cs ty (length cs)) fl0 fl' \<or>
     (\<exists>j e evs. r = Failed j e \<and> j < length cs \<and> evs \<in> attempt ts cs ty j \<and> calls ts (connect_events ts cs ty j @ evs) fl0 fl') \<or>
     (\<exists>j. r = Returned EINVAL \<and> j < length cs \<and> \<not> ports_ok ts (cs ! j) \<and> calls ts (connect_events ts cs ty j) fl0 fl'))"
  using assms(4-6)
proof (induction left arbitrary: i fl)
  case 0
  then show ?case by simp
next
  case (Suc left)
  have i: "i < length cs" using Suc.prems(3) by simp
  have inv: "flow_inv ts [] fl" "all_open fl" using Suc.prems(1,2) by (simp_all add: calls_def all_open_def)
  obtain r fl1 evs where one: "connect_one a l ty i fl = Some (r, fl1)" "calls ts evs fl fl1"
    "r = Connected \<and> evs = ev_out ts cs ty i @ ev_in ts cs ty i \<or> (\<exists>e. r = Failed i e \<and> evs \<in> attempt ts cs ty i) \<or>
     r = Returned EINVAL \<and> \<not> ports_ok ts (cs ! i) \<and> evs = []"
    using connect_one_ok [OF ty types legal inv i] by blast
  note all = calls_trans [OF Suc.prems(1) one(2)]
  show ?case
  proof (cases "r = Connected")
    case True
    have "connect_events ts cs ty (Suc i) = connect_events ts cs ty i @ ev_out ts cs ty i @ ev_in ts cs ty i" by (simp add: connect_events_def)
    then have "calls ts (connect_events ts cs ty (Suc i)) fl0 fl1" using all one(3) True by auto
    then show ?thesis using Suc.IH [of "Suc i" fl1] Suc.prems(2,3) one(1) True by simp
  next
    case False
    then show ?thesis using all one i by auto
  qed
qed

lemma connect_nodes_ok:
  assumes ty: "flow_type_ok ts cs ei eo ty" and types: "types_ok ts" and legal: "app_legal ts a"
    and inv: "flow_inv ts [] fl" and opened: "all_open fl"
  obtains (connected) fl' where "connect_nodes a l ty fl = Some (Inr (), fl')" and "calls ts (connect_events ts cs ty (length cs)) fl fl'"
    | (undone) e fl' j evs where "connect_nodes a l ty fl = Some (Inl e, fl')" and "j < length cs" and "evs \<in> attempt ts cs ty j"
        and "calls ts (connect_events ts cs ty j @ evs @ unconnect_events ts cs ty j) fl fl'"
    | (left) fl' j where "connect_nodes a l ty fl = Some (Inl EINVAL, fl')" and "j < length cs" and "\<not> ports_ok ts (cs ! j)"
        and "calls ts (connect_events ts cs ty j) fl fl'"
proof -
  have count: "conn_count ty = length cs" using ty by (simp add: flow_type_ok_def flow_spec_def)
  have "calls ts (connect_events ts cs ty 0) fl fl" using calls_refl [OF inv] by (simp add: connect_events_def)
  from connect_loop_ok [OF ty types legal this opened add_0, of l]
  obtain r fl1 where loop: "connect_loop a l ty (length cs) 0 fl = Some (r, fl1)" and
    "r = Connected \<and> calls ts (connect_events ts cs ty (length cs)) fl fl1 \<or>
     (\<exists>j e evs. r = Failed j e \<and> j < length cs \<and> evs \<in> attempt ts cs ty j \<and> calls ts (connect_events ts cs ty j @ evs) fl fl1) \<or>
     (\<exists>j. r = Returned EINVAL \<and> j < length cs \<and> \<not> ports_ok ts (cs ! j) \<and> calls ts (connect_events ts cs ty j) fl fl1)"
    by blast
  then consider "r = Connected" "calls ts (connect_events ts cs ty (length cs)) fl fl1"
    | j e evs where "r = Failed j e" "j < length cs" "evs \<in> attempt ts cs ty j" "calls ts (connect_events ts cs ty j @ evs) fl fl1"
    | j where "r = Returned EINVAL" "j < length cs" "\<not> ports_ok ts (cs ! j)" "calls ts (connect_events ts cs ty j) fl fl1"
    by blast
  then show thesis
  proof cases
    case (3 j)
    then show thesis using loop count by (intro left [of fl1 j]) (simp_all add: connect_nodes_def)
  next
    case 1
    then show thesis using loop count by (intro connected [of fl1]) (simp_all add: connect_nodes_def)
  next
    case (2 j e evs)
    have "flow_inv ts [] fl1" "all_open fl1" using 2(4) opened by (simp_all add: calls_def all_open_def)
    then obtain fl2 where fl2: "unconnect_loop a l ty j fl1 = Some fl2" "calls ts (unconnect_events ts cs ty j) fl1 fl2"
      using unconnect_loop_ok [OF ty types legal, of fl1 j l] 2(2) by auto
    show thesis
      using loop count 2 fl2(1) calls_trans [OF 2(4) fl2(2)] by (intro undone [of e fl2 j evs]) (simp_all add: connect_nodes_def)
  qed
qed

text \<open>The children's events, in order and in reverse.\<close>

definition open_events :: "sol_flow_node_type list \<Rightarrow> nat \<Rightarrow> event list" where
  "open_events ts k = concat (map (\<lambda>i. event_if (nt_open (ts ! i)) (Ev_open i)) [0..<k])"

definition close_events :: "sol_flow_node_type list \<Rightarrow> nat \<Rightarrow> event list" where
  "close_events ts k = concat (map (\<lambda>i. event_if (nt_close (ts ! i)) (Ev_close i)) (rev [0..<k]))"

lemma place_nodes_eq:
  assumes "flow_type_ok ts cs ei eo ty" and "us = drop i ts" and "i + length us = length ts" and "off = storage_of (take i ts)"
  shows "place_nodes ty (map Some us @ None # rest) i off =
    Some (map (\<lambda>k. \<lparr>nd_offset = storage_of (take k ts), nd_typed = False\<rparr>) [i..<length ts])"
  using assms(2-4)
proof (induction us arbitrary: i off)
  case Nil
  then show ?case by simp
next
  case (Cons u us)
  have lt: "i < length ts" using Cons.prems(2) by simp
  have u: "u = ts ! i" and us: "us = drop (Suc i) ts" using Cons.prems(1) [folded Cons_nth_drop_Suc [OF lt]] by simp_all
  have after: "off + calc_node_size u = storage_of (take (Suc i) ts)"
    using lt u Cons.prems(3) by (simp add: storage_of_def take_Suc_conv_app_nth)
  have "storage_of ts = storage_of (take (Suc i) ts) + storage_of (drop (Suc i) ts)"
    unfolding storage_of_def by (metis append_take_drop_id map_append sum_list_append)
  then have "off + calc_node_size u \<le> node_storage_size ty" "i < node_count ty"
    using after lt assms(1) by (auto simp: flow_type_ok_def flow_spec_def)
  then show ?case using Cons.IH [OF us _ after] Cons.prems(2,3) lt by (simp add: upt_conv_Cons)
qed

lemma set_typed_ok:
  assumes "flow_inv ts [] fl" and "i < length ts"
  obtains ns where "fl_nodes fl = Some ns" "length ns = length ts"
    and "set_typed i b fl = Some (fl\<lparr>fl_nodes := Some (ns[i := (ns ! i)\<lparr>nd_typed := b\<rparr>])\<rparr>)"
    and "flow_inv ts [] (fl\<lparr>fl_nodes := Some (ns[i := (ns ! i)\<lparr>nd_typed := b\<rparr>])\<rparr>)"
  using assms by (auto simp: flow_inv_def set_typed_def mem_get_def)

lemma node_init_ok:
  assumes ty: "flow_type_ok ts cs ei eo ty" and types: "types_ok ts" and legal: "app_legal ts a" and inv: "flow_inv ts [] fl"
    and below: "typed_below fl i" and i: "i < length ts"
  obtains (ok) fl' where "sol_flow_node_init a l ty i fl = Some (Inr (), fl')" and "flow_inv ts [] fl'" and "typed_below fl' (Suc i)"
      and "fl_log fl' = fl_log fl @ event_if (nt_open (ts ! i)) (Ev_open i)"
    | (err) e fl' evs where "sol_flow_node_init a l ty i fl = Some (Inl e, fl')" and "flow_inv ts [] fl'" and "typed_below fl' i"
      and "fl_log fl' = fl_log fl @ evs" and "evs \<in> {[], [Ev_open i]}"
proof -
  obtain ns where ns: "fl_nodes fl = Some ns" "length ns = length ts"
    and upd: "set_typed i True fl = Some (fl\<lparr>fl_nodes := Some (ns[i := (ns ! i)\<lparr>nd_typed := True\<rparr>])\<rparr>)"
      "flow_inv ts [] (fl\<lparr>fl_nodes := Some (ns[i := (ns ! i)\<lparr>nd_typed := True\<rparr>])\<rparr>)"
    by (rule set_typed_ok [OF inv i, of True])
  define fl1 where "fl1 = fl\<lparr>fl_nodes := Some (ns[i := (ns ! i)\<lparr>nd_typed := True\<rparr>])\<rparr>"
  have fl1: "set_typed i True fl = Some fl1" "flow_inv ts [] fl1" "typed_below fl1 (Suc i)" "fl_log fl1 = fl_log fl"
    using upd below ns i by (auto simp: fl1_def typed_below_def nth_list_update less_Suc_eq)
  note spec = node_type_eq(2) [OF ty ns i]
  show thesis
  proof (cases "nt_api (ts ! i) \<and> opts_ok a i")
    case False
    then show thesis using spec inv below by (intro err [of EINVAL fl "[]"]) (auto simp: sol_flow_node_init_def)
  next
    case True
    show thesis
    proof (cases "nt_open (ts ! i)")
      case False
      then show thesis using spec fl1 True by (intro ok [of fl1]) (simp_all add: sol_flow_node_init_def event_if_def)
    next
      case opened: True
      obtain r fl2 where fl2: "callback a l ty (Ev_open i) fl1 = Some (r, fl2)" "calls ts [Ev_open i] fl1 fl2"
        using callback_calls [OF ty types legal fl1(2)] by blast
      have b: "typed_below fl2 (Suc i)" "typed_below fl2 i" using fl2(2) fl1(3) by (auto simp: calls_def typed_below_def)
      have run: "sol_flow_node_init a l ty i fl = Some (r, fl2)" using spec fl1(1) True opened fl2(1) by (simp add: sol_flow_node_init_def)
      show thesis
      proof (cases r)
        case (Inl e)
        then show thesis using run b fl2(2) fl1(4) by (intro err [of e fl2 "[Ev_open i]"]) (simp_all add: calls_def)
      next
        case (Inr u)
        then show thesis using run b fl2(2) fl1(4) opened by (intro ok [of fl2]) (simp_all add: calls_def event_if_def)
      qed
    qed
  qed
qed

lemma copy_options_ok:
  assumes "buf_wf buf" and "alloc_bounded bl"
  obtains r buf' where "copy_options bl t buf = Some (r, buf')" and "buf_wf buf'" and "r = None \<longleftrightarrow> nt_options_size t < sizeof_sol_flow_node_options"
proof (cases "nt_options_size t < sizeof_sol_flow_node_options")
  case True
  then show thesis using assms by (intro that [of None buf]) (simp_all add: copy_options_def)
next
  case False
  show thesis
  proof (cases rule: sol_buffer_ensure_ok [OF assms, of "nt_options_size t", case_names ok err])
    case (ok b)
    then show thesis using False by (intro that [of "Some (Inr ())" b]) (simp_all add: copy_options_def)
  next
    case (err e)
    then show thesis using False assms by (intro that [of "Some (Inl e)" buf]) (simp_all add: copy_options_def)
  qed
qed

text \<open>How the loop over the children ends: all open, or stopped at child \<open>k\<close>.\<close>

lemma open_loop_ok:
  assumes ty: "flow_type_ok ts cs ei eo ty" and types: "types_ok ts" and legal: "app_legal ts a" and bl: "alloc_bounded bl"
    and "us = drop i ts" and "i + length us = length ts" and "buf_wf buf" and "flow_inv ts [] fl" and "typed_below fl i"
    and "fl_log fl = log @ open_events ts i"
  shows "\<exists>r k buf' fl'. open_loop a l bl ty (map Some us @ None # rest) i buf fl = Some (r, k, buf', fl') \<and> buf_wf buf' \<and>
    flow_inv ts [] fl' \<and> typed_below fl' k \<and> k \<le> length ts \<and>
    (if r = Some (Inr ()) then k = length ts \<and> fl_log fl' = log @ open_events ts k
     else (\<exists>evs \<in> {[], [Ev_open k]}. fl_log fl' = log @ open_events ts k @ evs) \<and>
       (r = None \<longrightarrow> child_opts_set a \<and> (\<exists>t \<in> set ts. nt_options_size t < sizeof_sol_flow_node_options)))"
  using assms(5-10)
proof (induction us arbitrary: i buf fl)
  case Nil
  then show ?case by auto
next
  case (Cons u us)
  have lt: "i < length ts" using Cons.prems(2) by simp
  have u: "u = ts ! i" and us: "us = drop (Suc i) ts" using Cons.prems(1) [folded Cons_nth_drop_Suc [OF lt]] by simp_all
  have "\<exists>r buf'. (if child_opts_set a then copy_options bl u buf else Some (Some (Inr ()), buf)) = Some (r, buf') \<and> buf_wf buf' \<and>
      (r = None \<longrightarrow> child_opts_set a \<and> nt_options_size u < sizeof_sol_flow_node_options)"
  proof -
    have "\<exists>r buf'. copy_options bl u buf = Some (r, buf') \<and> buf_wf buf' \<and> (r = None \<longrightarrow> nt_options_size u < sizeof_sol_flow_node_options)"
      using copy_options_ok [OF Cons.prems(3) bl, of u] by blast
    then show ?thesis using Cons.prems(3) by auto
  qed
  then obtain o1 buf1 where opts: "(if child_opts_set a then copy_options bl u buf else Some (Some (Inr ()), buf)) = Some (o1, buf1)" "buf_wf buf1"
      "o1 = None \<longrightarrow> child_opts_set a \<and> nt_options_size u < sizeof_sol_flow_node_options" by blast
  show ?case
  proof (cases "o1 = Some (Inr ())")
    case False
    then have "open_loop a l bl ty (map Some (u # us) @ None # rest) i buf fl = Some (o1, i, buf1, fl)"
      using opts(1) by (auto split: option.splits sum.splits)
    then show ?thesis using False opts(2,3) Cons.prems(4,5,6) u lt by auto
  next
    case go: True
    show ?thesis
    proof (cases rule: node_init_ok [OF ty types legal Cons.prems(4,5) lt, of l, case_names ok err])
      case (err e fl1 evs)
      then have "open_loop a l bl ty (map Some (u # us) @ None # rest) i buf fl = Some (Some (Inl e), i, buf1, fl1)" using opts(1) go by simp
      then show ?thesis using err opts(2) Cons.prems(6) lt by auto
    next
      case (ok fl1)
      have run: "open_loop a l bl ty (map Some (u # us) @ None # rest) i buf fl = open_loop a l bl ty (map Some us @ None # rest) (Suc i) buf1 fl1"
        using opts(1) go ok(1) by simp
      show ?thesis unfolding run
        by (rule Cons.IH) (use us lt Cons.prems(2,6) opts(2) ok u in \<open>simp_all add: open_events_def\<close>)
    qed
  qed
qed

lemma fini_loop_ok:
  assumes ty: "flow_type_ok ts cs ei eo ty" and types: "types_ok ts" and legal: "app_legal ts a"
    and "flow_inv ts [] fl" and "typed_below fl k" and "k \<le> length ts"
  shows "\<exists>fl'. fini_loop a l ty k fl = Some fl' \<and> flow_inv ts [] fl' \<and> fl_log fl' = fl_log fl @ close_events ts k"
  using assms(4-6)
proof (induction k arbitrary: fl)
  case 0
  then show ?case by (simp add: close_events_def)
next
  case (Suc k)
  then have k: "k < length ts" by simp
  obtain ns where ns: "fl_nodes fl = Some ns" "length ns = length ts" using Suc.prems(1) by (auto simp: flow_inv_def)
  have typed: "node_type ty fl k = Some (Some (ts ! k))" using node_type_eq(1) [OF ty ns k] Suc.prems(2) ns by (simp add: typed_below_def)
  have "\<exists>r fl'. (if nt_close (ts ! k) then callback a l ty (Ev_close k) fl else Some (Inr (), fl)) = Some (r, fl') \<and>
      calls ts (event_if (nt_close (ts ! k)) (Ev_close k)) fl fl'"
    by (rule callback_if [OF ty types legal Suc.prems(1)])
  then obtain r fl1 where fl1: "(if nt_close (ts ! k) then callback a l ty (Ev_close k) fl else Some (Inr (), fl)) = Some (r, fl1)"
    "calls ts (event_if (nt_close (ts ! k)) (Ev_close k)) fl fl1" by blast
  have inv1: "flow_inv ts [] fl1" "fl_nodes fl1 = Some ns" using fl1(2) ns by (simp_all add: calls_def)
  define fl2 where "fl2 = fl1\<lparr>fl_nodes := Some (ns[k := (ns ! k)\<lparr>nd_typed := False\<rparr>])\<rparr>"
  have fl2: "set_typed k False fl1 = Some fl2" "flow_inv ts [] fl2" using set_typed_ok [OF inv1(1) k, of False] inv1(2) by (auto simp: fl2_def)
  have "sol_flow_node_fini a l ty k fl = Some fl2" using typed fl1(1) fl2(1) by (simp add: sol_flow_node_fini_def)
  moreover have "typed_below fl2 k" using Suc.prems(2) ns by (simp add: typed_below_def fl2_def)
  moreover have "fl_log fl2 = fl_log fl @ event_if (nt_close (ts ! k)) (Ev_close k)" using fl1(2) by (simp add: fl2_def calls_def)
  ultimately show ?case using Suc.IH [OF fl2(2)] k by (auto simp: close_events_def)
qed

text \<open>Nothing is left of the flow: no packet, no timer, no node.\<close>

definition released :: "flow \<Rightarrow> bool" where
  "released fl \<longleftrightarrow> fl_nodes fl = None \<and> fl_packets fl = (\<lambda>_. None) \<and> fl_timers fl = [] \<and> delayed_packets fl = []"

lemma delete_packets_ok:
  assumes "distinct (map dp_packet dps)" and "dom (fl_packets fl) = dp_packet ` set dps"
  shows "delete_packets dps fl = Some (fl\<lparr>fl_packets := \<lambda>_. None\<rparr>)"
  using assms
proof (induction dps arbitrary: fl)
  case Nil
  then have "fl_packets fl = (\<lambda>_. None)" by (simp add: dom_eq_empty_conv)
  then show ?case by simp
next
  case (Cons dp dps)
  then have "dp_packet dp \<in> dom (fl_packets fl)" by simp
  then obtain pk where "fl_packets fl (dp_packet dp) = Some pk" by blast
  then have "delete_packets (dp # dps) fl = delete_packets dps (fl\<lparr>fl_packets := (fl_packets fl)(dp_packet dp := None)\<rparr>)"
    by (simp add: sol_flow_packet_del_def)
  also have "\<dots> = Some (fl\<lparr>fl_packets := (fl_packets fl)(dp_packet dp := None)\<rparr>\<lparr>fl_packets := \<lambda>_. None\<rparr>)"
  proof (rule Cons.IH)
    have "dom ((fl_packets fl)(dp_packet dp := None)) = dom (fl_packets fl) - {dp_packet dp}" by auto
    then show "dom (fl_packets (fl\<lparr>fl_packets := (fl_packets fl)(dp_packet dp := None)\<rparr>)) = dp_packet ` set dps" using Cons.prems by auto
  qed (use Cons.prems in simp)
  also have "\<dots> = Some (fl\<lparr>fl_packets := \<lambda>_. None\<rparr>)" by simp
  finally show ?case .
qed

lemma delete_delayed_ok:
  assumes "flow_inv ts [] fl"
  shows "delete_delayed_packets fl = Some (fl\<lparr>fl_timers := [], delayed_packets := [], fl_packets := \<lambda>_. None\<rparr>)"
proof -
  let ?fl = "fl\<lparr>fl_timers := [], delayed_packets := []\<rparr>"
  have "delete_packets (delayed_packets fl) ?fl = Some (?fl\<lparr>fl_packets := \<lambda>_. None\<rparr>)"
    using assms by (intro delete_packets_ok) (simp_all add: flow_inv_def)
  moreover have "(case delay_send fl of None \<Rightarrow> Some fl | Some h \<Rightarrow> sol_timeout_del h fl) = Some (fl\<lparr>fl_timers := []\<rparr>)"
    using assms by (auto simp: flow_inv_def sol_timeout_del_def split: option.splits)
  ultimately show ?thesis using assms by (simp add: delete_delayed_packets_def)
qed

lemma open_failed_ok:
  assumes "flow_type_ok ts cs ei eo ty" and "types_ok ts" and "app_legal ts a" and "flow_inv ts [] fl" and "typed_below fl k" and "k \<le> length ts"
  shows "\<exists>fl'. open_failed a l ty k fl = Some fl' \<and> released fl' \<and> fl_log fl' = fl_log fl @ close_events ts k"
proof -
  obtain fl1 where "fini_loop a l ty k fl = Some fl1" "flow_inv ts [] fl1" "fl_log fl1 = fl_log fl @ close_events ts k"
    using fini_loop_ok [OF assms] by blast
  then show ?thesis using delete_delayed_ok by (auto simp: open_failed_def teardown_flow_data_def released_def)
qed

lemma setup_flow_ok:
  assumes ty: "flow_type_ok ts cs ei eo ty"
  obtains (ok) fl where "setup_flow_data l ty flow_init = Some (Inr (), fl)" and "flow_delay_send a fl = (Inr (), snd (flow_delay_send a fl))"
      and "flow_inv ts [] (snd (flow_delay_send a fl))" and "fl_log (snd (flow_delay_send a fl)) = []"
    | (no_timer) fl e where "setup_flow_data l ty flow_init = Some (Inr (), fl)" and "flow_delay_send a fl = (Inl e, fl)"
      and "released (teardown_flow_data fl)" and "fl_log fl = []"
    | (no_memory) "setup_flow_data l ty flow_init = Some (Inl ENOMEM, flow_init)"
proof (cases "alloc_ok l (8 * node_count ty) \<and> alloc_ok l (node_storage_size ty)")
  case False
  then show thesis by (intro no_memory) (auto simp: setup_flow_data_def)
next
  case True
  define ns where "ns = map (\<lambda>k. \<lparr>nd_offset = storage_of (take k ts), nd_typed = False\<rparr>) [0..<length ts]"
  obtain rest where rest: "node_specs ty = map Some ts @ None # rest" using ty by (auto simp: flow_type_ok_def flow_spec_def node_array_def)
  define fl where "fl = flow_init\<lparr>fl_nodes := Some ns\<rparr>"
  have fl: "setup_flow_data l ty flow_init = Some (Inr (), fl)"
    using True place_nodes_eq [OF ty, of ts 0 0 rest] rest by (simp add: setup_flow_data_def ns_def fl_def flow_init_def storage_of_def)
  show thesis
  proof (cases "timer_ok a []")
    case True
    then show thesis using fl
      by (intro ok [of fl]) (auto simp: fl_def flow_delay_send_def sol_timeout_add_def flow_init_def flow_inv_def ns_def Let_def)
  next
    case False
    then show thesis using fl
      by (intro no_timer [of fl ENOMEM])
        (auto simp: fl_def flow_delay_send_def sol_timeout_add_def flow_init_def released_def teardown_flow_data_def)
  qed
qed

lemma typed_all_open: "flow_inv ts [] fl \<Longrightarrow> typed_below fl (length ts) \<Longrightarrow> all_open fl"
  by (auto simp: flow_inv_def typed_below_def all_open_def in_set_conv_nth)

text \<open>What opening may end with.\<close>

definition opened :: "sol_flow_node_type list \<Rightarrow> sol_flow_static_conn_spec list \<Rightarrow> flow_static_type \<Rightarrow> flow \<Rightarrow> bool" where
  "opened ts cs ty fl \<longleftrightarrow> flow_inv ts [] fl \<and> all_open fl \<and>
     fl_log fl = open_events ts (length ts) @ connect_events ts cs ty (length cs)"

definition undone :: "sol_flow_node_type list \<Rightarrow> sol_flow_static_conn_spec list \<Rightarrow> flow_static_type \<Rightarrow> flow \<Rightarrow> bool" where
  "undone ts cs ty fl \<longleftrightarrow> released fl \<and>
     ((\<exists>k \<le> length ts. \<exists>evs \<in> {[], [Ev_open k]}. fl_log fl = open_events ts k @ evs @ close_events ts k) \<or>
      (\<exists>j < length cs. \<exists>evs \<in> attempt ts cs ty j. fl_log fl =
         open_events ts (length ts) @ connect_events ts cs ty j @ evs @ unconnect_events ts cs ty j @ close_events ts (length ts)))"

text \<open>
  A connection with a port that is not as it should be: the children are closed again, but the connections
  made before stay as they are.
\<close>

definition abandoned :: "sol_flow_node_type list \<Rightarrow> sol_flow_static_conn_spec list \<Rightarrow> flow_static_type \<Rightarrow> flow \<Rightarrow> bool" where
  "abandoned ts cs ty fl \<longleftrightarrow> released fl \<and> (\<exists>j < length cs. \<not> ports_ok ts (cs ! j) \<and>
     fl_log fl = open_events ts (length ts) @ connect_events ts cs ty j @ close_events ts (length ts))"

definition small_options :: "sol_flow_node_type list \<Rightarrow> flow_app \<Rightarrow> bool" where
  "small_options ts a \<longleftrightarrow> child_opts_set a \<and> (\<exists>t \<in> set ts. nt_options_size t < sizeof_sol_flow_node_options)"

lemma undoneI: "released fl \<Longrightarrow> k \<le> length ts \<Longrightarrow> evs \<in> {[], [Ev_open k]} \<Longrightarrow>
    fl_log fl = open_events ts k @ evs @ close_events ts k \<Longrightarrow> undone ts cs ty fl"
  unfolding undone_def by blast

lemma open_finish_ok:
  assumes ty: "flow_type_ok ts cs ei eo ty" and types: "types_ok ts" and legal: "app_legal ts a"
    and inv: "flow_inv ts [] fl" and typed: "typed_below fl k" and k: "k \<le> length ts"
    and log: "if r = Some (Inr ()) then k = length ts \<and> fl_log fl = open_events ts k
      else (\<exists>evs \<in> {[], [Ev_open k]}. fl_log fl = open_events ts k @ evs) \<and> (r = None \<longrightarrow> small_options ts a)"
  shows "\<exists>r' fl'. open_finish a l ty r k fl = Some (r', fl') \<and>
    (r' = Inr () \<and> opened ts cs ty fl' \<or> (r' = Inr () \<longrightarrow> small_options ts a) \<and> undone ts cs ty fl' \<or>
     r' = Inl EINVAL \<and> abandoned ts cs ty fl')"
proof (cases "r = Some (Inr ())")
  case False
  obtain fl1 where fl1: "open_failed a l ty k fl = Some fl1" "released fl1" "fl_log fl1 = fl_log fl @ close_events ts k"
    using open_failed_ok [OF ty types legal inv typed k] by blast
  obtain evs where "evs \<in> {[], [Ev_open k]}" "fl_log fl = open_events ts k @ evs" using log unfolding if_not_P [OF False] by blast
  then have "undone ts cs ty fl1" using fl1(2,3) k by (intro undoneI [of _ k _ evs]) auto
  moreover have "\<exists>r'. open_finish a l ty r k fl = Some (r', fl1) \<and> (r' = Inr () \<longrightarrow> r = None)"
  proof (cases r)
    case None
    then show ?thesis using fl1(1) by (simp add: open_finish_def)
  next
    case (Some x)
    then obtain e where "r = Some (Inl e)" using False by (cases x) auto
    then show ?thesis using fl1(1) by (simp add: open_finish_def)
  qed
  moreover have "r = None \<longrightarrow> small_options ts a" using False log by simp
  ultimately show ?thesis by blast
next
  case True
  then have all: "k = length ts" "fl_log fl = open_events ts (length ts)" using log by auto
  have op: "all_open fl" using typed_all_open [OF inv] typed all(1) by simp
  show ?thesis
  proof (cases rule: connect_nodes_ok [OF ty types legal inv op, of l, case_names connected failed left])
    case (connected fl1)
    then show ?thesis using True all op by (auto simp: open_finish_def opened_def calls_def all_open_def)
  next
    case (left fl1 j)
    have inv1: "flow_inv ts [] fl1" "typed_below fl1 k" using left(4) typed by (simp_all add: calls_def typed_below_def)
    obtain fl2 where fl2: "open_failed a l ty k fl1 = Some fl2" "released fl2" "fl_log fl2 = fl_log fl1 @ close_events ts k"
      using open_failed_ok [OF ty types legal inv1 k] by blast
    have "fl_log fl2 = open_events ts (length ts) @ connect_events ts cs ty j @ close_events ts (length ts)"
      using fl2(3) left(4) all by (simp add: calls_def)
    then have "abandoned ts cs ty fl2" using fl2(2) left(2,3) unfolding abandoned_def by blast
    then show ?thesis using True left(1) fl2(1) by (simp add: open_finish_def)
  next
    case (failed e fl1 j evs)
    have inv1: "flow_inv ts [] fl1" "typed_below fl1 k" using failed(4) typed by (simp_all add: calls_def typed_below_def)
    obtain fl2 where fl2: "open_failed a l ty k fl1 = Some fl2" "released fl2" "fl_log fl2 = fl_log fl1 @ close_events ts k"
      using open_failed_ok [OF ty types legal inv1 k] by blast
    have "fl_log fl2 = open_events ts (length ts) @ connect_events ts cs ty j @ evs @ unconnect_events ts cs ty j @ close_events ts (length ts)"
      using fl2(3) failed(4) all by (simp add: calls_def)
    then have "undone ts cs ty fl2" using fl2(2) failed(2,3) unfolding undone_def by blast
    then show ?thesis using True failed(1) fl2(1) by (simp add: open_finish_def)
  qed
qed

lemma flow_node_open_ok:
  assumes ty: "flow_type_ok ts cs ei eo ty" and types: "types_ok ts" and legal: "app_legal ts a" and bl: "alloc_bounded bl"
  shows "\<exists>r fl. flow_node_open a l bl ty flow_init = Some (r, fl) \<and>
    (r = Inr () \<and> opened ts cs ty fl \<or> (r = Inr () \<longrightarrow> small_options ts a) \<and> undone ts cs ty fl \<or>
     r = Inl EINVAL \<and> abandoned ts cs ty fl)"
proof (cases rule: setup_flow_ok [OF ty, of l a, case_names ok no_timer no_memory])
  case no_memory
  have "undone ts cs ty flow_init"
    by (rule undoneI [of _ 0 _ "[]"]) (simp_all add: released_def flow_init_def open_events_def close_events_def)
  then show ?thesis using no_memory by (auto simp: flow_node_open_def teardown_flow_data_def flow_init_def)
next
  case (no_timer fl e)
  have "undone ts cs ty (teardown_flow_data fl)"
    by (rule undoneI [of _ 0 _ "[]"]) (use no_timer(3,4) in \<open>simp_all add: open_events_def close_events_def teardown_flow_data_def\<close>)
  then show ?thesis using no_timer(1,2) by (auto simp: flow_node_open_def)
next
  case (ok fl)
  define fl1 where "fl1 = snd (flow_delay_send a fl)"
  obtain rest where rest: "node_specs ty = map Some ts @ None # rest" using ty by (auto simp: flow_type_ok_def flow_spec_def node_array_def)
  have "\<exists>r k buf' fl'. open_loop a l bl ty (map Some ts @ None # rest) 0 sol_buffer_init fl1 = Some (r, k, buf', fl') \<and> buf_wf buf' \<and>
    flow_inv ts [] fl' \<and> typed_below fl' k \<and> k \<le> length ts \<and>
    (if r = Some (Inr ()) then k = length ts \<and> fl_log fl' = [] @ open_events ts k
     else (\<exists>evs \<in> {[], [Ev_open k]}. fl_log fl' = [] @ open_events ts k @ evs) \<and>
       (r = None \<longrightarrow> child_opts_set a \<and> (\<exists>t \<in> set ts. nt_options_size t < sizeof_sol_flow_node_options)))"
    by (rule open_loop_ok [OF ty types legal bl]) (use ok buf_wf_init in \<open>simp_all add: fl1_def typed_below_def open_events_def\<close>)
  then obtain r k buf fl2 where loop: "open_loop a l bl ty (node_specs ty) 0 sol_buffer_init fl1 = Some (r, k, buf, fl2)" "buf_wf buf"
    and fl2: "flow_inv ts [] fl2" "typed_below fl2 k" "k \<le> length ts"
      "if r = Some (Inr ()) then k = length ts \<and> fl_log fl2 = open_events ts k
       else (\<exists>evs \<in> {[], [Ev_open k]}. fl_log fl2 = open_events ts k @ evs) \<and> (r = None \<longrightarrow> small_options ts a)"
    unfolding append_Nil rest small_options_def by blast
  obtain r' fl3 where fl3: "open_finish a l ty r k fl2 = Some (r', fl3)"
    "r' = Inr () \<and> opened ts cs ty fl3 \<or> (r' = Inr () \<longrightarrow> small_options ts a) \<and> undone ts cs ty fl3 \<or>
     r' = Inl EINVAL \<and> abandoned ts cs ty fl3"
    using open_finish_ok [OF ty types legal fl2] by blast
  obtain buf' where "sol_buffer_fini buf = Some buf'" using sol_buffer_fini_ok [OF loop(2)] by blast
  moreover have "flow_delay_send a fl = (Inr (), fl1)" unfolding fl1_def by (rule ok(2))
  ultimately have "flow_node_open a l bl ty flow_init = Some (r', fl3)"
    using ok(1) loop(1) fl3(1) by (simp add: flow_node_open_def)
  then show ?thesis using fl3(2) by blast
qed

text \<open>
  C19. Opening a flow, with node types that have the ports they announce and callbacks that send from
  existing nodes to existing ports, ends in one of three ways. Either all the children are opened in order
  and then all the connections are made in order. Or nothing is left behind: the connections made so far
  are undone in reverse order, the children opened so far are closed in reverse order, and there is no
  packet, timer or node left; this is an error, or else, although reported as a success, a child's options
  are smaller than the header of options and the flow adjusts its children's options. Or the port of some
  connection is not of the current API or has no packet type: this error is reported, the children are
  closed in reverse order, but the connections made before are not undone.
\<close>

theorem flow_node_open_or_undone:
  assumes "flow_type_ok ts cs ei eo ty" and "types_ok ts" and "app_legal ts a" and "alloc_bounded bl"
  shows "\<exists>r fl. flow_node_open a l bl ty flow_init = Some (r, fl) \<and>
    (r = Inr () \<and> opened ts cs ty fl \<or> (r = Inr () \<longrightarrow> small_options ts a) \<and> undone ts cs ty fl \<or>
     r = Inl EINVAL \<and> abandoned ts cs ty fl)"
  by (rule flow_node_open_ok [OF assms])

section \<open>Closing\<close>

definition quiet_on :: "flow_app \<Rightarrow> event \<Rightarrow> bool" where
  "quiet_on a ev \<longleftrightarrow> (\<forall>h. fst (react a (h @ [ev])) = [])"

definition quiet_close :: "flow_app \<Rightarrow> bool" where
  "quiet_close a \<longleftrightarrow> (\<forall>n p c. quiet_on a (Ev_disconnect_out n p c) \<and> quiet_on a (Ev_disconnect_in n p c))"

definition add_log :: "event list \<Rightarrow> flow \<Rightarrow> flow" where
  "add_log evs fl = fl\<lparr>fl_log := fl_log fl @ evs\<rparr>"

lemma add_log_simps [simp]:
  "add_log [] fl = fl" "add_log e2 (add_log e1 fl) = add_log (e1 @ e2) fl" "fl_nodes (add_log evs fl) = fl_nodes fl"
  "all_open (add_log evs fl) = all_open fl" "fl_log (add_log evs fl) = fl_log fl @ evs"
  by (simp_all add: add_log_def all_open_def)

lemma quiet_callback: "quiet_on a ev \<Longrightarrow> \<exists>r. callback a l ty ev fl = Some (r, add_log [ev] fl)"
  by (cases "react a (fl_log fl @ [ev])") (auto simp: callback_def quiet_on_def add_log_def dest: spec [of _ "fl_log fl"])

lemma quiet_if: "quiet_on a ev \<Longrightarrow> \<exists>r. (if b then callback a l ty ev fl else Some (Inr (), fl)) = Some (r, add_log (event_if b ev) fl)"
  using quiet_callback by (auto simp: event_if_def)

definition teardown_events :: "sol_flow_node_type list \<Rightarrow> sol_flow_static_conn_spec list \<Rightarrow> flow_static_type \<Rightarrow> nat \<Rightarrow> event list" where
  "teardown_events ts cs ty k = concat (map (\<lambda>j. ev_unout ts cs ty j @ ev_unin ts cs ty j) (rev [0..<k]))"

lemma teardown_quiet:
  assumes ty: "flow_type_ok ts cs ei eo ty" and types: "types_ok ts" and quiet: "quiet_close a"
    and "fl_nodes fl = Some ns" and "length ns = length ts" and "all_open fl" and "k \<le> length cs"
  shows "teardown_connections a l ty k fl = Some (add_log (teardown_events ts cs ty k) fl)"
  using assms(4-7)
proof (induction k arbitrary: fl)
  case 0
  then show ?case by (simp add: teardown_events_def)
next
  case (Suc k)
  then have k: "k < length cs" by simp
  let ?c = "cs ! k"
  note get = conn_array_get(1,3) [OF ty, of k, OF k] and ports = conn_ports_nodes [OF ty types Suc.prems(1,2,3) k]
  obtain r1 where one: "dispatch_disconnect_out a l ty (src ?c) (src_port ?c) (out_conn_id (conn_infos ty ! k)) (conn_out ts ?c) fl =
      Some (r1, add_log (ev_unout ts cs ty k) fl)"
    using quiet_if quiet unfolding dispatch_disconnect_out_def ev_unout_def quiet_close_def by meson
  obtain r2 where two: "dispatch_disconnect_in a l ty (dst ?c) (dst_port ?c) (in_conn_id (conn_infos ty ! k)) (conn_in ts ?c)
      (add_log (ev_unout ts cs ty k) fl) = Some (r2, add_log (ev_unin ts cs ty k) (add_log (ev_unout ts cs ty k) fl))"
    using quiet_if quiet unfolding dispatch_disconnect_in_def ev_unin_def quiet_close_def by meson
  have "teardown_one a l ty k fl = Some (add_log (ev_unout ts cs ty k @ ev_unin ts cs ty k) fl)"
    using get ports one two by (simp add: teardown_one_def)
  then show ?case using Suc.IH [of "add_log (ev_unout ts cs ty k @ ev_unin ts cs ty k) fl"] Suc.prems by (simp add: teardown_events_def)
qed

definition quiet_fini :: "flow_app \<Rightarrow> nat \<Rightarrow> bool" where
  "quiet_fini a k \<longleftrightarrow> (\<forall>i < k. quiet_on a (Ev_close i))"

lemma fini_quiet:
  assumes ty: "flow_type_ok ts cs ei eo ty" and "quiet_fini a k" and "fl_nodes fl = Some ns" and "length ns = length ts"
    and "typed_below fl k" and "k \<le> length ts"
  shows "\<exists>ns'. fini_loop a l ty k fl = Some (add_log (close_events ts k) (fl\<lparr>fl_nodes := Some ns'\<rparr>))"
  using assms(2-6)
proof (induction k arbitrary: fl ns)
  case 0
  then have "fl\<lparr>fl_nodes := Some ns\<rparr> = fl" by simp
  then show ?case by (auto simp: close_events_def intro: exI [of _ ns])
next
  case (Suc k)
  then have k: "k < length ts" by simp
  have typed: "node_type ty fl k = Some (Some (ts ! k))"
    using node_type_eq(1) [OF ty Suc.prems(2,3) k] Suc.prems(2,4) by (simp add: typed_below_def)
  let ?ev = "event_if (nt_close (ts ! k)) (Ev_close k)" and ?ns = "ns[k := (ns ! k)\<lparr>nd_typed := False\<rparr>]"
  have "quiet_on a (Ev_close k)" using Suc.prems(1) by (simp add: quiet_fini_def)
  then obtain r where "(if nt_close (ts ! k) then callback a l ty (Ev_close k) fl else Some (Inr (), fl)) = Some (r, add_log ?ev fl)"
    using quiet_if by blast
  then have one: "sol_flow_node_fini a l ty k fl = Some (add_log ?ev (fl\<lparr>fl_nodes := Some ?ns\<rparr>))"
    using typed Suc.prems(2,3) k by (simp add: sol_flow_node_fini_def set_typed_def mem_get_def) (simp add: add_log_def)
  have "\<exists>ns'. fini_loop a l ty k (add_log ?ev (fl\<lparr>fl_nodes := Some ?ns\<rparr>)) =
      Some (add_log (close_events ts k) ((add_log ?ev (fl\<lparr>fl_nodes := Some ?ns\<rparr>))\<lparr>fl_nodes := Some ns'\<rparr>))"
    by (rule Suc.IH [where ns = ?ns]) (use Suc.prems k in \<open>auto simp: quiet_fini_def typed_below_def add_log_def\<close>)
  then show ?case using one by (auto simp: close_events_def add_log_def)
qed

lemma all_open_typed: "all_open fl \<Longrightarrow> fl_nodes fl = Some ns \<Longrightarrow> k \<le> length ns \<Longrightarrow> typed_below fl k"
  by (auto simp: all_open_def typed_below_def)

text \<open>
  C20. Closing an open flow whose children send nothing while they are disconnected and closed
  (\<open>quiet_close\<close>, \<open>quiet_fini\<close>) releases everything: the packets that still wait, the timer and the nodes,
  and the type if the node owns it. The connections are undone in reverse order, then the children are
  closed in reverse order. The hypotheses are needed: the delayed packets are deleted first, so a packet
  that a child makes another one send while it is closed arms a new timer and is never deleted
  (\<open>late_close\<close>).
\<close>

theorem flow_node_close_releases:
  assumes "flow_type_ok ts cs ei eo ty" and "types_ok ts" and "flow_inv ts [] fl" and "all_open fl"
    and "quiet_close a" and "quiet_fini a (length ts)"
  shows "\<exists>fl'. flow_node_close a l ty fl = Some (fl', if owned_by_node ty then None else Some ty) \<and> released fl' \<and>
    fl_log fl' = fl_log fl @ teardown_events ts cs ty (length cs) @ close_events ts (length ts)"
proof -
  obtain ns where ns: "fl_nodes fl = Some ns" "length ns = length ts" using assms(3) by (auto simp: flow_inv_def)
  define fl1 where "fl1 = fl\<lparr>fl_timers := [], delayed_packets := [], fl_packets := \<lambda>_. None\<rparr>"
  define fl2 where "fl2 = add_log (teardown_events ts cs ty (length cs)) fl1"
  have one: "delete_delayed_packets fl = Some fl1" using delete_delayed_ok [OF assms(3)] by (simp add: fl1_def)
  have two: "teardown_connections a l ty (length cs) fl1 = Some fl2"
    unfolding fl2_def by (rule teardown_quiet [OF assms(1,2,5)]) (use ns assms(4) in \<open>simp_all add: fl1_def all_open_def\<close>)
  have "fl_nodes fl2 = Some ns" "all_open fl2" using ns assms(4) by (simp_all add: fl2_def fl1_def all_open_def)
  then obtain ns' where "fini_loop a l ty (length ts) fl2 = Some (add_log (close_events ts (length ts)) (fl2\<lparr>fl_nodes := Some ns'\<rparr>))"
    using fini_quiet [OF assms(1,6), of fl2 ns l] all_open_typed [of fl2 ns "length ts"] ns by auto
  moreover have "conn_count ty = length cs" "node_count ty = length ts" using assms(1) by (simp_all add: flow_type_ok_def flow_spec_def)
  ultimately show ?thesis
    using one two by (simp add: flow_node_close_def teardown_flow_data_def released_def fl2_def fl1_def add_log_def)
qed

section \<open>An example\<close>

text \<open>
  The flow of two emitters and a sink: open, with a packet of the first emitter waiting. The first
  emitter's port is also exported.
\<close>

definition fan_packet :: sol_flow_packet where
  "fan_packet = \<lparr>pk_type = Some (PACKET_TYPE 1), pk_data = 7\<rparr>"

definition fan_app :: flow_app where
  "fan_app = \<lparr>react = \<lambda>h. (if h \<noteq> [] \<and> last h = Ev_open 0 then [\<lparr>sd_node = 0, sd_port = 0, sd_packet = fan_packet\<rparr>] else [], Inr ()),
     timer_ok = \<lambda>_. True, opts_ok = \<lambda>_. True, child_opts_set = False, has_parent = True\<rparr>"

definition fan_idle :: flow where
  "fan_idle = flow_init\<lparr>fl_nodes := Some (replicate 3 \<lparr>nd_offset = 0, nd_typed = True\<rparr>), fl_next := 2\<rparr>"

definition fan_flow :: flow where
  "fan_flow = fan_idle\<lparr>delay_send := Some 1, fl_timers := [1], fl_packets := [0 \<mapsto> fan_packet],
     delayed_packets := [\<lparr>dp_packet = 0, source_idx = 0, source_port_idx = 0\<rparr>]\<rparr>"

lemma nat_less_2: "(\<forall>p < (2::nat). P p) \<longleftrightarrow> P 0 \<and> P 1"
  by (auto simp: less_Suc_eq numeral_2_eq_2)

lemma fan_in_ok: "types_ok fan_in_nodes" "\<forall>c \<in> set fan_in. ports_ok fan_in_nodes c"
  by (auto simp: types_ok_def fan_in_nodes_def emitter_type_def sink_type_def sol_flow_node_type_get_port_out_def
      sol_flow_node_type_get_port_in_def SOL_FLOW_NODE_PORT_ERROR_def UINT16_MAX_def ports_ok_def fan_in_def conn_out_def conn_in_def)

lemma fan_app_ok: "app_legal fan_in_nodes fan_app" "quiet_close fan_app" "quiet_fini fan_app k"
  by (auto simp: app_legal_def fan_app_def source_ok_def flow_port_out_is_valid_def fan_in_nodes_def emitter_type_def
      quiet_close_def quiet_fini_def quiet_on_def)

lemma fan_flow_ok: "flow_inv fan_in_nodes [] fan_flow" "all_open fan_flow" "flow_inv fan_in_nodes [] fan_idle" "all_open fan_idle"
  by (auto simp: flow_inv_def fan_flow_def fan_idle_def flow_init_def fan_in_nodes_def source_ok_def flow_port_out_is_valid_def emitter_type_def all_open_def)

lemma fan_transport:
  assumes "flow_type_ok fan_in_nodes fan_in [] [\<lparr>pnode = 0, pport = 0\<rparr>] ty"
  shows "transport fan_in_nodes fan_in [\<lparr>pnode = 0, pport = 0\<rparr>] fan_app ty (fl_packets fan_flow) \<lparr>dp_packet = 0, source_idx = 0, source_port_idx = 0\<rparr> =
    [Ev_process 2 0 0 fan_packet, Ev_export 0 fan_packet]"
proof -
  have "conn_infos ty = id_infos (ports_of fan_in_nodes (length fan_in_nodes)) fan_in" using assms by (simp add: flow_type_ok_def)
  then have "in_conn_id (conn_infos ty ! 0) = 0" by (simp add: id_infos_def ids_at_def fan_in_def ins_def Let_def)
  moreover have "takes_packets fan_in_nodes (fan_in ! 0)"
    by (simp add: takes_packets_def fan_in_nodes_def fan_in_def sink_type_def sol_flow_node_type_get_port_in_def)
  ultimately show ?thesis
    by (simp add: transport_def delivered_def export_event_def exported_as_def fan_flow_def fan_app_def Let_def upt_rec fan_in_def)
qed

theorem flow_send_idle_delivers_witness:
  "\<exists>ty fl'. flow_static_type_init (libc_total 0) fan_in_spec = Some (Inr (), ty) \<and>
     timer_fires fan_app (libc_total 0) ty fan_flow = Some fl' \<and> fl_log fl' = [Ev_process 2 0 0 fan_packet, Ev_export 0 fan_packet]"
proof -
  obtain ty where ty: "flow_static_type_init (libc_total 0) fan_in_spec = Some (Inr (), ty)"
    "flow_type_ok fan_in_nodes fan_in [] [\<lparr>pnode = 0, pport = 0\<rparr>] ty" by (rule fan_in_type)
  have "delay_send fan_flow \<noteq> None" by (simp add: fan_flow_def)
  from flow_send_idle_delivers [OF ty(2) fan_in_ok(1) fan_in_arrays(5) fan_app_ok(1) fan_flow_ok(1,2) this, of "libc_total 0"]
  show ?thesis using ty(1) fan_transport [OF ty(2)] by (auto simp: fan_flow_def fan_idle_def flow_init_def)
qed

theorem flow_node_open_or_undone_witness:
  "\<exists>ty r fl. flow_static_type_init (libc_total 0) fan_in_spec = Some (Inr (), ty) \<and>
     flow_node_open fan_app (libc_total 0) (libc_std 0) ty flow_init = Some (r, fl) \<and>
     (r = Inr () \<and> opened fan_in_nodes fan_in ty fl \<or> r \<noteq> Inr () \<and> undone fan_in_nodes fan_in ty fl)"
proof -
  obtain ty where ty: "flow_static_type_init (libc_total 0) fan_in_spec = Some (Inr (), ty)"
    "flow_type_ok fan_in_nodes fan_in [] [\<lparr>pnode = 0, pport = 0\<rparr>] ty" by (rule fan_in_type)
  have "\<not> small_options fan_in_nodes fan_app" by (simp add: small_options_def fan_app_def)
  moreover have "\<not> abandoned fan_in_nodes fan_in ty fl" for fl
    using fan_in_ok(2) by (auto simp: abandoned_def)
  ultimately show ?thesis
    using flow_node_open_or_undone [OF ty(2) fan_in_ok(1) fan_app_ok(1) alloc_bounded_libc_std, of "libc_total 0" 0] ty(1) by blast
qed

theorem flow_node_close_releases_witness:
  "\<exists>ty fl'. flow_static_type_init (libc_total 0) fan_in_spec = Some (Inr (), ty) \<and>
     flow_node_close fan_app (libc_total 0) ty fan_flow = Some (fl', if owned_by_node ty then None else Some ty) \<and> released fl'"
proof -
  obtain ty where ty: "flow_static_type_init (libc_total 0) fan_in_spec = Some (Inr (), ty)"
    "flow_type_ok fan_in_nodes fan_in [] [\<lparr>pnode = 0, pport = 0\<rparr>] ty" by (rule fan_in_type)
  then show ?thesis
    using flow_node_close_releases [OF ty(2) fan_in_ok(1) fan_flow_ok(1,2) fan_app_ok(2,3), of "libc_total 0"] by blast
qed

text \<open>The same application, but the flow adjusts its children's options; and one whose sink makes an emitter send when it is closed.\<close>

definition strict_app :: flow_app where
  "strict_app = fan_app\<lparr>child_opts_set := True\<rparr>"

definition late_app :: flow_app where
  "late_app = fan_app\<lparr>react := \<lambda>h. (if h \<noteq> [] \<and> last h = Ev_close 2
     then [\<lparr>sd_node = 0, sd_port = 0, sd_packet = fan_packet\<rparr>] else [], Inr ())\<rparr>"

lemma open_small_options:
  assumes ty: "flow_type_ok ts cs ei eo ty" and "child_opts_set a" and "timer_ok a []" and "alloc_total l"
    and "ts \<noteq> []" and "nt_options_size (hd ts) < sizeof_sol_flow_node_options"
  shows "\<exists>fl. flow_node_open a l bl ty flow_init = Some (Inr (), fl) \<and> released fl"
proof -
  obtain t us where ts: "ts = t # us" using assms(5) by (cases ts) auto
  obtain rest where rest: "node_specs ty = map Some ts @ None # rest" using ty by (auto simp: flow_type_ok_def flow_spec_def node_array_def)
  show ?thesis
  proof (cases rule: setup_flow_ok [OF ty, of l a, case_names ok no_timer no_memory])
    case (ok fl)
    define fl1 where "fl1 = snd (flow_delay_send a fl)"
    have d: "flow_delay_send a fl = (Inr (), fl1)" unfolding fl1_def by (rule ok(2))
    have "open_loop a l bl ty (node_specs ty) 0 sol_buffer_init fl1 = Some (None, 0, sol_buffer_init, fl1)"
      using assms(2,6) by (simp add: rest ts copy_options_def)
    moreover have "delete_delayed_packets fl1 = Some (fl1\<lparr>fl_timers := [], delayed_packets := [], fl_packets := \<lambda>_. None\<rparr>)"
      using delete_delayed_ok ok(3) by (simp add: fl1_def)
    moreover obtain buf' where "sol_buffer_fini sol_buffer_init = Some buf'" using sol_buffer_fini_ok [OF buf_wf_init] by blast
    ultimately show ?thesis
      using ok(1) d by (simp add: flow_node_open_def open_finish_def open_failed_def released_def teardown_flow_data_def)
  next
    case (no_timer fl e)
    then have "fl_log fl = []" "snd (flow_delay_send a fl) = fl" "fst (flow_delay_send a fl) = Inl e" by simp_all
    then show ?thesis using assms(3) by (auto simp: flow_delay_send_def sol_timeout_add_def split: if_splits)
  next
    case no_memory
    then show ?thesis using assms(4) by (auto simp: setup_flow_data_def alloc_total_def split: if_splits bind_splits)
  qed
qed

lemma late_close:
  assumes ty: "flow_type_ok fan_in_nodes fan_in [] eo ty"
  shows "\<exists>fl' t. flow_node_close late_app (libc_total 0) ty fan_idle = Some (fl', t) \<and> fl_nodes fl' = None \<and> fl_timers fl' = [3] \<and>
    dom (fl_packets fl') = {2}"
proof -
  let ?l = "libc_total 0 :: nat libc"
  have n3: "length fan_in_nodes = 3" by (simp add: fan_in_nodes_def)
  have quiet: "quiet_close late_app" "quiet_fini late_app 2"
    by (auto simp: quiet_close_def quiet_fini_def quiet_on_def late_app_def)
  define fl1 where "fl1 = add_log (teardown_events fan_in_nodes fan_in ty 2) fan_idle"
  have one: "delete_delayed_packets fan_idle = Some fan_idle" by (simp add: delete_delayed_packets_def fan_idle_def flow_init_def)
  have two: "teardown_connections late_app ?l ty 2 fan_idle = Some fl1"
    unfolding fl1_def
    by (rule teardown_quiet [OF ty fan_in_ok(1) quiet(1)]) (use fan_flow_ok(4) in \<open>auto simp: fan_idle_def n3 fan_in_def\<close>)
  define ns where "ns = replicate 3 \<lparr>nd_offset = 0, nd_typed = True\<rparr>"
  define fl2 where "fl2 = fl1\<lparr>fl_log := fl_log fl1 @ [Ev_close 2], fl_next := 4, fl_packets := [2 \<mapsto> fan_packet],
    fl_timers := [3], delay_send := Some 3, delayed_packets := [\<lparr>dp_packet = 2, source_idx = 0, source_port_idx = 0\<rparr>]\<rparr>"
  have nodes: "fl_nodes fl = Some ns \<Longrightarrow> i < 3 \<Longrightarrow> node_type ty fl i = Some (Some (fan_in_nodes ! i))" for fl i
    using node_type_eq(1) [OF ty, of fl ns i] by (simp add: ns_def n3)
  have spec: "spec_type ty 0 = Some emitter_type" using node_type_eq(2) [OF ty, of fan_idle ns 0] by (simp add: fan_idle_def ns_def n3) (simp add: fan_in_nodes_def)
  have fl1: "fl_nodes fl1 = Some ns" by (simp add: fl1_def fan_idle_def ns_def)
  have "callback late_app ?l ty (Ev_close 2) fl1 = Some (Inr (), fl2)"
  proof -
    have nt: "node_type ty (fl1\<lparr>fl_log := h, fl_next := n, fl_packets := m\<rparr>) 0 = Some (Some emitter_type)" for h n m
      using nodes [of "fl1\<lparr>fl_log := h, fl_next := n, fl_packets := m\<rparr>" 0] fl1 by (simp add: fan_in_nodes_def)
    have port: "sol_flow_node_type_get_port_out (Some emitter_type) 0 =
        Some \<lparr>pout_api = True, pout_packet_type = Some (PACKET_TYPE 1), pout_connect = True, pout_disconnect = True\<rparr>"
      by (simp add: sol_flow_node_type_get_port_out_def SOL_FLOW_NODE_PORT_ERROR_def UINT16_MAX_def emitter_type_def)
    have valid: "flow_port_out_is_valid emitter_type 0" by (simp add: flow_port_out_is_valid_def emitter_type_def)
    have st: "fl_next fl1 = 2" "fl_packets fl1 = (\<lambda>_. None)" "delay_send fl1 = None" "fl_timers fl1 = []" "delayed_packets fl1 = []"
      by (simp_all add: fl1_def add_log_def fan_idle_def flow_init_def)
    show ?thesis
      by (simp add: callback_def late_app_def fan_app_def do_send_def Let_def sol_flow_send_packet_def nt flow_send_def port spec valid
          match_packets_def fan_packet_def flow_delay_send_def sol_timeout_add_def st fl2_def libc_total_def fun_upd_def)
  qed
  then have three: "sol_flow_node_fini late_app ?l ty 2 fl1 = Some (fl2\<lparr>fl_nodes := Some (ns[2 := (ns ! 2)\<lparr>nd_typed := False\<rparr>])\<rparr>)"
    using nodes [OF fl1, of 2] fl1 by (simp add: sol_flow_node_fini_def fan_in_nodes_def sink_type_def set_typed_def mem_get_def fl2_def ns_def)
  define fl3 where "fl3 = fl2\<lparr>fl_nodes := Some (ns[2 := (ns ! 2)\<lparr>nd_typed := False\<rparr>])\<rparr>"
  have "typed_below fl3 2" by (auto simp: typed_below_def fl3_def ns_def less_2_cases_iff)
  then obtain ns' where "fini_loop late_app ?l ty 2 fl3 = Some (add_log (close_events fan_in_nodes 2) (fl3\<lparr>fl_nodes := Some ns'\<rparr>))"
    using fini_quiet [OF ty quiet(2), of fl3 "ns[2 := (ns ! 2)\<lparr>nd_typed := False\<rparr>]"] by (auto simp: fl3_def ns_def n3)
  then have "fini_loop late_app ?l ty (Suc 2) fl1 = Some (add_log (close_events fan_in_nodes 2) (fl3\<lparr>fl_nodes := Some ns'\<rparr>))"
    unfolding fini_loop.simps(2) three fl3_def by simp
  moreover have "Suc 2 = 3" by simp
  moreover have "conn_count ty = 2" "node_count ty = 3" using ty by (simp_all add: flow_type_ok_def flow_spec_def n3) (simp add: fan_in_def)
  ultimately have "flow_node_close late_app ?l ty fan_idle =
      Some (teardown_flow_data (add_log (close_events fan_in_nodes 2) (fl3\<lparr>fl_nodes := Some ns'\<rparr>)),
        if owned_by_node ty then None else Some ty)"
    using one two by (simp only: flow_node_close_def Option.bind.simps)
  then show ?thesis by (simp add: teardown_flow_data_def add_log_def fl3_def fl2_def)
qed

text \<open>
  Two calls of the flow node type that report success or finish while the flow is not in the
  state they promise. Opening a flow whose first child has an options structure smaller than the
  library's, when the flow adjusts its children's options, returns success with everything torn
  down again; closing an idle flow whose last child makes an emitter send while it is closed frees
  the node array but leaves the timer that was armed for the late packet.\<close>

lemma flow_broken_calls:
  "\<exists>ty. flow_static_type_init (libc_total 0) fan_in_spec = Some (Inr (), ty) \<and>
     (\<exists>fl. flow_node_open strict_app (libc_total 0) (libc_std 0) ty flow_init = Some (Inr (), fl) \<and> released fl) \<and>
     (\<exists>fl' t. flow_node_close late_app (libc_total 0) ty fan_idle = Some (fl', t) \<and> fl_nodes fl' = None \<and>
        fl_timers fl' = [3] \<and> dom (fl_packets fl') = {2})"
proof -
  obtain ty where ty: "flow_static_type_init (libc_total 0) fan_in_spec = Some (Inr (), ty)"
    "flow_type_ok fan_in_nodes fan_in [] [\<lparr>pnode = 0, pport = 0\<rparr>] ty" by (rule fan_in_type)
  have "\<exists>fl. flow_node_open strict_app (libc_total 0) (libc_std 0) ty flow_init = Some (Inr (), fl) \<and> released fl"
    by (rule open_small_options [OF ty(2)])
      (simp_all add: strict_app_def fan_app_def alloc_total_def libc_total_def fan_in_nodes_def emitter_type_def
        sizeof_sol_flow_node_options_def)
  then show ?thesis using ty(1) late_close [OF ty(2)] by blast
qed

end
