(* ===== verification/Str_Slice.thy ===== *)
theory Str_Slice
  imports Buffer
begin

text \<open>
  Strings: characters and their classes, and the numbers in slices (\<^verbatim>\<open>sol_str_slice_to_int\<close> of
  \<^verbatim>\<open>sol-str-slice.c\<close>, \<^verbatim>\<open>sol_util_strtol_n\<close> of \<^verbatim>\<open>sol-util.c\<close>). A slice is the list of its bytes.
\<close>

abbreviation ascii :: "char \<Rightarrow> byte" where
  "ascii c \<equiv> of_char c"

abbreviation quote :: byte where
  "quote \<equiv> ascii CHR 0x22"

abbreviation apostrophe :: byte where
  "apostrophe \<equiv> ascii CHR 0x27"

abbreviation backslash :: byte where
  "backslash \<equiv> ascii CHR 0x5C"

section \<open>Functions of the C library\<close>

text \<open>The classification of \<^verbatim>\<open>ctype.h\<close> in the C locale.\<close>

definition isspace :: "byte \<Rightarrow> bool" where
  "isspace c \<longleftrightarrow> c = 32 \<or> 9 \<le> c \<and> c \<le> 13"

definition isdigit :: "byte \<Rightarrow> bool" where
  "isdigit c \<longleftrightarrow> ascii CHR ''0'' \<le> c \<and> c \<le> ascii CHR ''9''"

text \<open>\<^verbatim>\<open>strtol\<close> with base 0: the value, the number of bytes it has read and \<^verbatim>\<open>errno\<close>.\<close>

definition LONG_MAX :: int where
  "LONG_MAX = 9223372036854775807"

definition hex_value :: "byte \<Rightarrow> nat" where
  "hex_value c =
     (if isdigit c then unat c - 48
      else if ascii CHR ''a'' \<le> c \<and> c \<le> ascii CHR ''f'' then unat c - 87
      else if ascii CHR ''A'' \<le> c \<and> c \<le> ascii CHR ''F'' then unat c - 55
      else 16)"

definition int_prefix :: "byte list \<Rightarrow> nat \<times> byte list" where
  "int_prefix s =
     (case s of
        z # x # h # cs \<Rightarrow>
          if z = ascii CHR ''0'' \<and> (x = ascii CHR ''x'' \<or> x = ascii CHR ''X'') \<and> hex_value h < 16 then (16, h # cs)
          else if z = ascii CHR ''0'' then (8, s) else (10, s)
      | z # cs \<Rightarrow> if z = ascii CHR ''0'' then (8, s) else (10, s)
      | [] \<Rightarrow> (10, s))"

definition strtol :: "byte list \<Rightarrow> int \<times> nat \<times> errno option" where
  "strtol s =
     (let s1 = dropWhile isspace s;
          neg = (s1 \<noteq> [] \<and> hd s1 = ascii CHR ''-'');
          s2 = (if s1 \<noteq> [] \<and> (hd s1 = ascii CHR ''-'' \<or> hd s1 = ascii CHR ''+'') then tl s1 else s1);
          (base, s3) = int_prefix s2;
          ds = takeWhile (\<lambda>c. hex_value c < base) s3;
          n = foldl (\<lambda>n c. int base * n + int (hex_value c)) 0 ds;
          v = (if neg then - n else n)
      in if ds = [] then (0, 0, None)
         else if v > LONG_MAX then (LONG_MAX, length s - length s3 + length ds, Some ERANGE)
         else if v < - LONG_MAX - 1 then (- LONG_MAX - 1, length s - length s3 + length ds, Some ERANGE)
         else (v, length s - length s3 + length ds, None))"

text \<open>\<^verbatim>\<open>sol_util_strtol_n\<close> converts a terminated copy of the bytes.\<close>

definition sol_util_strtol_n :: "byte list \<Rightarrow> int \<times> nat \<times> errno option" where
  "sol_util_strtol_n s = strtol (takeWhile (\<lambda>c. c \<noteq> 0) s)"

definition sol_str_slice_to_int :: "byte list \<Rightarrow> errno + int" where
  "sol_str_slice_to_int s =
     (if length s = 0 then Inl EINVAL
      else
        let (v, n, err) = sol_util_strtol_n s
        in case err of Some e \<Rightarrow> Inl e
           | None \<Rightarrow>
               if n \<noteq> length s then Inl EINVAL
               else if v > int INT_MAX \<or> v < - int INT_MAX - 1 then Inl ERANGE
               else Inr v)"

section \<open>Decimal numbers\<close>

text \<open>The number that decimal digits denote.\<close>

definition index_of :: "byte list \<Rightarrow> nat" where
  "index_of ds = foldl (\<lambda>n c. 10 * n + hex_value c) 0 ds"

lemma digit_facts:
  assumes "isdigit c"
  shows "hex_value c < 10" "c \<noteq> 0" "\<not> isspace c" "c \<noteq> ascii CHR ''-''" "c \<noteq> ascii CHR ''+''" "c \<noteq> apostrophe"
proof -
  have "unat c \<le> 57" using assms by (simp add: isdigit_def word_le_nat_alt)
  then show "hex_value c < 10" using assms by (simp add: hex_value_def)
  show "\<not> isspace c" using assms order_trans [of 48 c 13] by (auto simp: isspace_def isdigit_def)
qed (use assms in \<open>auto simp: isdigit_def\<close>)

lemma foldl_int: "foldl (\<lambda>n c. int b * n + int (f c)) (int a) xs = int (foldl (\<lambda>n c. b * n + f c) a xs)"
  by (induction xs arbitrary: a) (simp_all flip: of_nat_mult of_nat_add)

lemma strtol_digits:
  assumes "list_all isdigit ds" and "ds \<noteq> []" and "hd ds = ascii CHR ''0'' \<longrightarrow> tl ds = []" and "index_of ds \<le> UINT16_MAX"
  shows "strtol ds = (int (index_of ds), length ds, None)"
proof -
  obtain c cs where c: "ds = c # cs" using assms(2) by (cases ds) auto
  note f = digit_facts [of c] digit_facts(1)
  have dw: "dropWhile isspace ds = ds" using c f(3) assms(1) by simp
  have tw: "b = 8 \<and> cs = [] \<and> c = ascii CHR ''0'' \<or> b = 10 \<Longrightarrow> takeWhile (\<lambda>c. hex_value c < b) ds = ds" for b
    using assms(1) c digit_facts(1) by (auto simp: takeWhile_eq_all_conv list_all_iff hex_value_def)
  have big: "int (index_of ds) \<le> LONG_MAX" using assms(4) by (simp add: LONG_MAX_def UINT16_MAX_def)
  show ?thesis
  proof (cases "c = ascii CHR ''0''")
    case True
    then have ds: "ds = [c]" using assms(3) c by simp
    have "index_of ds = 0" using True ds by (simp add: index_of_def hex_value_def isdigit_def)
    then show ?thesis using dw f ds True
      by (simp add: strtol_def Let_def int_prefix_def hex_value_def isdigit_def LONG_MAX_def)
  next
    case False
    have pre: "int_prefix ds = (10, ds)" using c False by (auto simp: int_prefix_def split: list.splits)
    have n: "foldl (\<lambda>n c. int 10 * n + int (hex_value c)) 0 ds = int (index_of ds)"
      using foldl_int [of 10 hex_value 0 ds] by (simp add: index_of_def)
    have sign: "\<not> (ds \<noteq> [] \<and> (hd ds = ascii CHR ''-'' \<or> hd ds = ascii CHR ''+''))" "\<not> (ds \<noteq> [] \<and> hd ds = ascii CHR ''-'')"
      using c f(4,5) assms(1) by auto
    have low: "\<not> int (index_of ds) < - LONG_MAX - 1" by (simp add: LONG_MAX_def)
    have tw10: "takeWhile (\<lambda>c. hex_value c < 10) ds = ds" by (rule tw) simp
    show ?thesis
      unfolding strtol_def Let_def dw if_not_P [OF sign(1)] if_not_P [OF sign(2)] pre prod.case tw10 n
      using assms(2) big low by simp
  qed
qed

end
