(* ===== verification/Json.thy ===== *)
theory Json
  imports Str_Slice
begin

text \<open>
  The JSON scanner of \<^verbatim>\<open>sol-json.c\<close> and the inline functions of \<^verbatim>\<open>sol-json.h\<close>.

  The document is a block of bytes \<open>d\<close>; a pointer into it is an offset, NULL is \<open>None\<close>, and every
  byte is read with \<open>mem_get\<close> or \<open>mem_read\<close>, so that \<open>None\<close> as a result is an access outside of the
  block (or a NULL pointer). \<^verbatim>\<open>bool\<close> results that come with \<^verbatim>\<open>errno\<close> are a \<open>scan_status\<close>.
\<close>

section \<open>Scanner and tokens\<close>

record sol_json_scanner =
  sc_mem :: nat
  sc_mem_end :: nat
  sc_current :: nat

record sol_json_token =
  tk_start :: "nat option"
  tk_end :: "nat option"

datatype sol_json_type =
    SOL_JSON_TYPE_UNKNOWN
  | SOL_JSON_TYPE_OBJECT_START
  | SOL_JSON_TYPE_OBJECT_END
  | SOL_JSON_TYPE_ARRAY_START
  | SOL_JSON_TYPE_ARRAY_END
  | SOL_JSON_TYPE_ELEMENT_SEP
  | SOL_JSON_TYPE_PAIR_SEP
  | SOL_JSON_TYPE_TRUE
  | SOL_JSON_TYPE_FALSE
  | SOL_JSON_TYPE_NULL
  | SOL_JSON_TYPE_STRING
  | SOL_JSON_TYPE_NUMBER

datatype sol_json_loop_status = SOL_JSON_LOOP_REASON_OK | SOL_JSON_LOOP_REASON_INVALID

text \<open>\<^verbatim>\<open>true\<close>; \<^verbatim>\<open>false\<close> with an \<^verbatim>\<open>errno\<close>; \<^verbatim>\<open>false\<close> with \<^verbatim>\<open>errno\<close> 0, the end of the document.\<close>

datatype scan_status = Scanned | Scan_error errno | Scan_end

type_synonym scan_result = "(scan_status \<times> sol_json_scanner \<times> sol_json_token) option"

definition no_token :: sol_json_token where
  "no_token = \<lparr>tk_start = None, tk_end = None\<rparr>"

definition sol_json_scanner_init :: "nat \<Rightarrow> nat \<Rightarrow> sol_json_scanner" where
  "sol_json_scanner_init mem sz = \<lparr>sc_mem = mem, sc_mem_end = mem + sz, sc_current = mem\<rparr>"

definition sol_json_scanner_init_from_scanner :: "sol_json_scanner \<Rightarrow> sol_json_scanner" where
  "sol_json_scanner_init_from_scanner other =
     \<lparr>sc_mem = sc_mem other, sc_mem_end = sc_mem_end other, sc_current = sc_mem other\<rparr>"

definition sol_json_scanner_init_from_token :: "sol_json_token \<Rightarrow> sol_json_scanner option" where
  "sol_json_scanner_init_from_token token = do {
     s \<leftarrow> tk_start token;
     e \<leftarrow> tk_end token;
     Some \<lparr>sc_mem = s, sc_mem_end = e, sc_current = s\<rparr>
   }"

definition sol_json_scanner_get_size_remaining :: "sol_json_scanner \<Rightarrow> nat" where
  "sol_json_scanner_get_size_remaining sc = size_minus (sc_mem_end sc) (sc_current sc)"

text \<open>
  The byte decides the type. \<^verbatim>\<open>strchr\<close> finds the terminator as well, and the enumeration
  constant of the byte 0 is \<^verbatim>\<open>SOL_JSON_TYPE_UNKNOWN\<close>.
\<close>

definition byte_type :: "byte \<Rightarrow> sol_json_type" where
  "byte_type c =
     (if c = ascii CHR ''{'' then SOL_JSON_TYPE_OBJECT_START
      else if c = ascii CHR ''}'' then SOL_JSON_TYPE_OBJECT_END
      else if c = ascii CHR ''['' then SOL_JSON_TYPE_ARRAY_START
      else if c = ascii CHR '']'' then SOL_JSON_TYPE_ARRAY_END
      else if c = ascii CHR '','' then SOL_JSON_TYPE_ELEMENT_SEP
      else if c = ascii CHR '':'' then SOL_JSON_TYPE_PAIR_SEP
      else if c = ascii CHR ''t'' then SOL_JSON_TYPE_TRUE
      else if c = ascii CHR ''f'' then SOL_JSON_TYPE_FALSE
      else if c = ascii CHR ''n'' then SOL_JSON_TYPE_NULL
      else if c = quote then SOL_JSON_TYPE_STRING
      else if c = 0 then SOL_JSON_TYPE_UNKNOWN
      else if isdigit c \<or> c = ascii CHR ''-'' \<or> c = ascii CHR ''+'' then SOL_JSON_TYPE_NUMBER
      else SOL_JSON_TYPE_UNKNOWN)"

definition sol_json_mem_get_type :: "byte list \<Rightarrow> nat \<Rightarrow> sol_json_type option" where
  "sol_json_mem_get_type d p = map_option byte_type (mem_get p d)"

definition sol_json_token_get_type :: "byte list \<Rightarrow> sol_json_token \<Rightarrow> sol_json_type option" where
  "sol_json_token_get_type d token = do { s \<leftarrow> tk_start token; sol_json_mem_get_type d s }"

definition sol_json_token_get_size :: "sol_json_token \<Rightarrow> nat option" where
  "sol_json_token_get_size token = do { s \<leftarrow> tk_start token; e \<leftarrow> tk_end token; Some (size_minus e s) }"

section \<open>One token\<close>

definition check_symbol :: "byte list \<Rightarrow> byte list \<Rightarrow> sol_json_scanner \<Rightarrow> sol_json_token \<Rightarrow> scan_result" where
  "check_symbol d symname sc token =
     (if sol_json_scanner_get_size_remaining sc < length symname then Some (Scan_error EINVAL, sc, token)
      else do {
        bs \<leftarrow> mem_read (sc_current sc) (length symname) d;
        (if bs \<noteq> symname then Some (Scan_error EINVAL, sc, token)
         else
           let e = sc_current sc + length symname
           in Some (Scanned, sc\<lparr>sc_current := e\<rparr>, \<lparr>tk_start = Some (sc_current sc), tk_end = Some e\<rparr>))
      })"

definition string_escapes :: "byte list" where
  "string_escapes = [quote, backslash, ascii CHR ''/'', ascii CHR ''b'', ascii CHR ''f'', ascii CHR ''n'',
     ascii CHR ''r'', ascii CHR ''t'', ascii CHR ''u'']"

text \<open>The loop stops at the closing quote (\<open>True\<close>), at a bad escape or at the end.\<close>

function string_loop :: "byte list \<Rightarrow> nat \<Rightarrow> nat \<Rightarrow> bool \<Rightarrow> (bool \<times> nat) option" where
  "string_loop d mem_end cur escaped =
     (if cur < mem_end then do {
        c \<leftarrow> mem_get cur d;
        (if escaped then
           if c \<notin> set string_escapes then Some (False, cur) else string_loop d mem_end (cur + 1) False
         else if c = backslash then string_loop d mem_end (cur + 1) True
         else if c = quote then Some (True, cur)
         else string_loop d mem_end (cur + 1) False)
      } else Some (False, cur))"
  by pat_completeness auto
termination
  by (relation "measure (\<lambda>(d, mem_end, cur, escaped). mem_end - cur)") auto

definition check_string :: "byte list \<Rightarrow> sol_json_scanner \<Rightarrow> sol_json_token \<Rightarrow> scan_result" where
  "check_string d sc token = do {
     (closed, cur) \<leftarrow> string_loop d (sc_mem_end sc) (sc_current sc + 1) False;
     (if closed then Some (Scanned, sc\<lparr>sc_current := cur + 1\<rparr>, \<lparr>tk_start = Some (sc_current sc), tk_end = Some (cur + 1)\<rparr>)
      else Some (Scan_error EINVAL, sc\<lparr>sc_current := cur\<rparr>, token\<lparr>tk_start := None\<rparr>))
   }"

function number_loop :: "byte list \<Rightarrow> nat \<Rightarrow> nat \<Rightarrow> nat option \<Rightarrow> nat option \<Rightarrow> (nat \<times> nat option \<times> nat option) option" where
  "number_loop d mem_end cur frac exp =
     (if cur < mem_end then do {
        c \<leftarrow> mem_get cur d;
        (if isdigit c then number_loop d mem_end (cur + 1) frac exp
         else if exp \<noteq> None then Some (cur, frac, exp)
         else if c = ascii CHR ''e'' \<or> c = ascii CHR ''E'' then do {
           sign \<leftarrow> (if cur + 1 < mem_end then do {
               c \<leftarrow> mem_get (cur + 1) d;
               Some (c = ascii CHR ''-'' \<or> c = ascii CHR ''+'')
             } else Some False);
           (if sign then number_loop d mem_end (cur + 2) frac (Some (cur + 1))
            else number_loop d mem_end (cur + 1) frac (Some cur))
         }
         else if frac = None \<and> c = ascii CHR ''.'' then number_loop d mem_end (cur + 1) (Some cur) exp
         else Some (cur, frac, exp))
      } else Some (cur, frac, exp))"
  by pat_completeness auto
termination
  by (relation "measure (\<lambda>(d, mem_end, cur, frac, exp). mem_end - cur)") auto

definition check_number :: "byte list \<Rightarrow> sol_json_scanner \<Rightarrow> sol_json_token \<Rightarrow> scan_result" where
  "check_number d sc token = do {
     (cur, frac, exp) \<leftarrow> number_loop d (sc_mem_end sc) (sc_current sc + 1) None None;
     (if frac = Some cur \<or> exp = Some cur
      then Some (Scan_error EINVAL, sc\<lparr>sc_current := cur\<rparr>, token\<lparr>tk_start := None\<rparr>)
      else Some (Scanned, sc\<lparr>sc_current := cur\<rparr>, \<lparr>tk_start = Some (sc_current sc), tk_end = Some cur\<rparr>))
   }"

function next_loop :: "byte list \<Rightarrow> sol_json_scanner \<Rightarrow> scan_result" where
  "next_loop d sc =
     (if sc_current sc < sc_mem_end sc then do {
        c \<leftarrow> mem_get (sc_current sc) d;
        (case byte_type c of
           SOL_JSON_TYPE_UNKNOWN \<Rightarrow>
             if \<not> isspace c then Some (Scan_error EINVAL, sc, no_token)
             else next_loop d (sc\<lparr>sc_current := sc_current sc + 1\<rparr>)
         | SOL_JSON_TYPE_TRUE \<Rightarrow> check_symbol d (map ascii ''true'') sc no_token
         | SOL_JSON_TYPE_FALSE \<Rightarrow> check_symbol d (map ascii ''false'') sc no_token
         | SOL_JSON_TYPE_NULL \<Rightarrow> check_symbol d (map ascii ''null'') sc no_token
         | SOL_JSON_TYPE_STRING \<Rightarrow> check_string d sc no_token
         | SOL_JSON_TYPE_NUMBER \<Rightarrow> check_number d sc no_token
         | _ \<Rightarrow> Some (Scanned, sc\<lparr>sc_current := sc_current sc + 1\<rparr>,
                  \<lparr>tk_start = Some (sc_current sc), tk_end = Some (sc_current sc + 1)\<rparr>))
      } else Some (Scan_end, sc, no_token))"
  by pat_completeness auto
termination
  by (relation "measure (\<lambda>(d, sc). sc_mem_end sc - sc_current sc)") auto

definition sol_json_scanner_next :: "byte list \<Rightarrow> sol_json_scanner \<Rightarrow> scan_result" where
  "sol_json_scanner_next d sc = next_loop d sc"

declare string_loop.simps [simp del] number_loop.simps [simp del] next_loop.simps [simp del]

subsection \<open>Progress\<close>

lemma string_loop_bounds:
  "string_loop d e cur esc = Some (closed, cur') \<Longrightarrow> cur \<le> cur' \<and> (cur' \<le> e \<or> cur' = cur) \<and> (closed \<longrightarrow> cur' < e)"
proof (induction d e cur esc arbitrary: closed cur' rule: string_loop.induct)
  case (1 d e cur esc)
  show ?case
  proof (cases "cur < e")
    case True
    then obtain c where c: "mem_get cur d = Some c"
      using "1.prems" by (subst (asm) string_loop.simps) (auto split: bind_splits)
    note eq = "1.prems" [unfolded string_loop.simps [of d e cur esc], simplified True c, simplified]
    note IH = "1.IH" [OF True c]
    show ?thesis using eq IH True by (fastforce split: if_splits)
  qed (use "1.prems" in \<open>simp add: string_loop.simps\<close>)
qed

lemma number_loop_bounds:
  "number_loop d e cur frac exp = Some (cur', frac', exp') \<Longrightarrow> cur \<le> cur' \<and> (cur' \<le> e \<or> cur' = cur) \<and>
     (\<forall>p. frac' = Some p \<longrightarrow> frac = frac' \<or> p < cur') \<and> (\<forall>p. exp' = Some p \<longrightarrow> exp = exp' \<or> p < cur')"
proof (induction d e cur frac exp arbitrary: cur' frac' exp' rule: number_loop.induct)
  case (1 d e cur frac exp)
  show ?case
  proof (cases "cur < e")
    case True
    then obtain c where c: "mem_get cur d = Some c"
      using "1.prems" by (subst (asm) number_loop.simps) (auto split: bind_splits)
    note eq = "1.prems" [unfolded number_loop.simps [of d e cur frac exp], simplified True c, simplified]
    note IH = "1.IH" [OF True c]
    consider "isdigit c" | "\<not> isdigit c" "exp \<noteq> None" | "\<not> isdigit c" "exp = None" "c = ascii CHR ''e'' \<or> c = ascii CHR ''E''"
      | "\<not> isdigit c" "exp = None" "\<not> (c = ascii CHR ''e'' \<or> c = ascii CHR ''E'')" by blast
    then show ?thesis
    proof cases
      case 1
      then show ?thesis using eq IH(1) True by fastforce
    next
      case 2
      then show ?thesis using eq True by simp
    next
      case 3
      then show ?thesis using eq IH(2,3) [OF 3(1) _ 3(3)] True by (fastforce split: if_splits bind_splits)
    next
      case 4
      then show ?thesis using eq IH(4) [OF 4(1) _ 4(3)] True by (fastforce split: if_splits)
    qed
  qed (use "1.prems" in \<open>simp add: number_loop.simps\<close>)
qed

text \<open>
  What every step of the scanner keeps: the bounds of the document stay, the position moves forward
  inside of them, and a scanned token ends at the new position.
\<close>

definition advances :: "sol_json_scanner \<Rightarrow> scan_status \<times> sol_json_scanner \<times> sol_json_token \<Rightarrow> bool" where
  "advances sc r = (case r of (st, sc', token) \<Rightarrow>
     sc_mem sc' = sc_mem sc \<and> sc_mem_end sc' = sc_mem_end sc \<and> sc_current sc \<le> sc_current sc' \<and>
     (sc_current sc \<le> sc_mem_end sc \<longrightarrow> sc_current sc' \<le> sc_mem_end sc) \<and>
     (st = Scanned \<longrightarrow> sc_current sc' \<le> sc_mem_end sc \<and> tk_end token = Some (sc_current sc') \<and>
        (\<exists>s. tk_start token = Some s \<and> sc_current sc \<le> s \<and> s < sc_current sc')))"

lemma check_advances:
  assumes "sc_current sc < sc_mem_end sc"
  shows "check_symbol d word sc token = Some r \<Longrightarrow> word \<noteq> [] \<Longrightarrow> advances sc r"
    and "check_string d sc token = Some r \<Longrightarrow> advances sc r"
    and "check_number d sc token = Some r \<Longrightarrow> advances sc r"
proof -
  show "check_symbol d word sc token = Some r \<Longrightarrow> word \<noteq> [] \<Longrightarrow> advances sc r"
    using assms by (auto simp: check_symbol_def advances_def Let_def sol_json_scanner_get_size_remaining_def
        split: if_splits bind_splits)
  show "check_string d sc token = Some r \<Longrightarrow> advances sc r"
    using assms by (auto simp: check_string_def advances_def split: if_splits bind_splits dest!: string_loop_bounds)
  show "check_number d sc token = Some r \<Longrightarrow> advances sc r"
    using assms by (auto simp: check_number_def advances_def split: if_splits bind_splits dest!: number_loop_bounds)
qed

lemma next_loop_advances: "next_loop d sc = Some r \<Longrightarrow> advances sc r"
proof (induction d sc arbitrary: r rule: next_loop.induct)
  case (1 d sc)
  show ?case
  proof (cases "sc_current sc < sc_mem_end sc")
    case True
    then obtain c where c: "mem_get (sc_current sc) d = Some c"
      using "1.prems" by (subst (asm) next_loop.simps) (auto split: bind_splits)
    note eq = "1.prems" [unfolded next_loop.simps [of d sc], simplified True c, simplified]
    have space: "byte_type c = SOL_JSON_TYPE_UNKNOWN \<Longrightarrow> isspace c \<Longrightarrow> advances (sc\<lparr>sc_current := sc_current sc + 1\<rparr>) r"
      by (rule "1.IH" [OF True c]) (use eq in \<open>simp_all\<close>)
    have single: "r = (Scanned, sc\<lparr>sc_current := Suc (sc_current sc)\<rparr>,
        \<lparr>tk_start = Some (sc_current sc), tk_end = Some (Suc (sc_current sc))\<rparr>) \<Longrightarrow> advances sc r"
      using True by (simp add: advances_def)
    show ?thesis
    proof (cases "byte_type c")
      case SOL_JSON_TYPE_UNKNOWN
      then show ?thesis using eq True space by (cases "isspace c") (auto simp: advances_def)
    qed (use eq check_advances [OF True] single in auto)
  qed (use "1.prems" in \<open>auto simp: next_loop.simps advances_def\<close>)
qed

lemma next_advances: "sol_json_scanner_next d sc = Some r \<Longrightarrow> advances sc r"
  by (simp add: sol_json_scanner_next_def next_loop_advances)

lemma next_scanned:
  assumes "sol_json_scanner_next d sc = Some (Scanned, sc', token)"
  shows "sc_current sc < sc_current sc'" "sc_current sc' \<le> sc_mem_end sc" "sc_mem_end sc' = sc_mem_end sc" "sc_mem sc' = sc_mem sc"
    "tk_end token = Some (sc_current sc')"
  using next_advances [OF assms] by (auto simp: advances_def)

lemma next_measure:
  assumes "sol_json_scanner_next d sc = Some (Scanned, sc', token)"
  shows "sc_mem_end sc' - sc_current sc' < sc_mem_end sc - sc_current sc"
  using next_scanned [OF assms] by linarith

section \<open>Values\<close>

text \<open>How a token changes the depth; \<open>None\<close> is an unknown token.\<close>

fun level_after :: "sol_json_type \<Rightarrow> int \<Rightarrow> int option" where
  "level_after SOL_JSON_TYPE_UNKNOWN level = None"
| "level_after SOL_JSON_TYPE_OBJECT_START level = Some (level + 1)"
| "level_after SOL_JSON_TYPE_ARRAY_START level = Some (level + 1)"
| "level_after SOL_JSON_TYPE_OBJECT_END level = Some (level - 1)"
| "level_after SOL_JSON_TYPE_ARRAY_END level = Some (level - 1)"
| "level_after _ level = Some level"

function skip_loop :: "byte list \<Rightarrow> sol_json_scanner \<Rightarrow> sol_json_token \<Rightarrow> int \<Rightarrow> scan_result" where
  "skip_loop d sc token level = do {
     type \<leftarrow> sol_json_token_get_type d token;
     (case level_after type level of
        None \<Rightarrow> Some (Scan_error EINVAL, sc, token)
      | Some level \<Rightarrow>
          if level < 0 then Some (Scan_error EINVAL, sc, token)
          else if level > 0 then
            (case sol_json_scanner_next d sc of
               None \<Rightarrow> None
             | Some (Scanned, sc, token) \<Rightarrow> skip_loop d sc token level
             | Some (_, sc, token) \<Rightarrow> Some (Scan_error EINVAL, sc, token))
          else Some (Scanned, sc, token))
   }"
  by pat_completeness auto
termination
  by (relation "measure (\<lambda>(d, sc, token, level). sc_mem_end sc - sc_current sc)") (auto dest: next_measure)

declare skip_loop.simps [simp del]

definition sol_json_scanner_skip :: "byte list \<Rightarrow> sol_json_scanner \<Rightarrow> sol_json_token \<Rightarrow> scan_result" where
  "sol_json_scanner_skip d sc token = do {
     e \<leftarrow> tk_end token;
     skip_loop d (sc\<lparr>sc_current := e\<rparr>) token 0
   }"

text \<open>Every failure sets \<^verbatim>\<open>errno\<close> to \<^verbatim>\<open>EINVAL\<close>; the value is the token that is returned.\<close>

definition sol_json_scanner_get_dict_pair :: "byte list \<Rightarrow> sol_json_scanner \<Rightarrow> sol_json_token \<Rightarrow> sol_json_token \<Rightarrow> scan_result" where
  "sol_json_scanner_get_dict_pair d sc key val = do {
     k \<leftarrow> sol_json_token_get_type d key;
     (if k \<noteq> SOL_JSON_TYPE_STRING then Some (Scan_error EINVAL, sc, val)
      else do {
        (st, sc, val) \<leftarrow> sol_json_scanner_next d sc;
        (if st \<noteq> Scanned then Some (Scan_error EINVAL, sc, val)
         else do {
           t \<leftarrow> sol_json_token_get_type d val;
           (if t \<noteq> SOL_JSON_TYPE_PAIR_SEP then Some (Scan_error EINVAL, sc, val)
            else do {
              (st, sc, val) \<leftarrow> sol_json_scanner_next d sc;
              (if st \<noteq> Scanned then Some (Scan_error EINVAL, sc, val)
               else do {
                 let start = tk_start val;
                 (st, sc, val) \<leftarrow> sol_json_scanner_skip d sc val;
                 (if st \<noteq> Scanned then Some (Scan_error EINVAL, sc, val)
                  else Some (Scanned, sc, val\<lparr>tk_start := start\<rparr>))
               })
            })
         })
      })
   }"

section \<open>Iterating over arrays and objects\<close>

definition sol_json_loop_iterate_init ::
    "byte list \<Rightarrow> sol_json_scanner \<Rightarrow> sol_json_type
      \<Rightarrow> (sol_json_loop_status \<times> sol_json_scanner \<times> sol_json_token) option" where
  "sol_json_loop_iterate_init d sc start_type = do {
     (st, sc, token) \<leftarrow> sol_json_scanner_next d sc;
     (if st \<noteq> Scanned then Some (SOL_JSON_LOOP_REASON_INVALID, sc, token)
      else do {
        t \<leftarrow> sol_json_token_get_type d token;
        Some (if t \<noteq> start_type then SOL_JSON_LOOP_REASON_INVALID else SOL_JSON_LOOP_REASON_OK, sc, token)
      })
   }"

text \<open>The returned \<open>bool\<close> says whether there is another element.\<close>

definition sol_json_loop_iterate_generic ::
    "byte list \<Rightarrow> sol_json_scanner \<Rightarrow> sol_json_token \<Rightarrow> sol_json_type \<Rightarrow> sol_json_loop_status
      \<Rightarrow> (bool \<times> sol_json_loop_status \<times> sol_json_scanner \<times> sol_json_token) option" where
  "sol_json_loop_iterate_generic d sc token end_type reason =
     (if reason \<noteq> SOL_JSON_LOOP_REASON_OK then Some (False, reason, sc, token)
      else do {
        (st, sc, token) \<leftarrow> sol_json_scanner_next d sc;
        (if st \<noteq> Scanned then Some (False, SOL_JSON_LOOP_REASON_INVALID, sc, token)
         else do {
           t \<leftarrow> sol_json_token_get_type d token;
           (if t = end_type then Some (False, SOL_JSON_LOOP_REASON_OK, sc, token)
            else if t = SOL_JSON_TYPE_ELEMENT_SEP then do {
              (st, sc, token) \<leftarrow> sol_json_scanner_next d sc;
              (if st \<noteq> Scanned then Some (False, SOL_JSON_LOOP_REASON_INVALID, sc, token)
               else Some (True, reason, sc, token))
            }
            else Some (True, reason, sc, token))
         })
      })"

definition sol_json_loop_iterate_array ::
    "byte list \<Rightarrow> sol_json_scanner \<Rightarrow> sol_json_token \<Rightarrow> sol_json_loop_status \<Rightarrow> sol_json_type
      \<Rightarrow> (bool \<times> sol_json_loop_status \<times> sol_json_scanner \<times> sol_json_token) option" where
  "sol_json_loop_iterate_array d sc token reason element_type = do {
     (cont, reason, sc, token) \<leftarrow> sol_json_loop_iterate_generic d sc token SOL_JSON_TYPE_ARRAY_END reason;
     (if \<not> cont then Some (False, reason, sc, token)
      else do {
        t \<leftarrow> sol_json_token_get_type d token;
        (if t = element_type then Some (True, SOL_JSON_LOOP_REASON_OK, sc, token)
         else Some (False, SOL_JSON_LOOP_REASON_INVALID, sc, token))
      })
   }"

text \<open>\<open>key\<close> and \<open>val\<close> are the variables of the caller's loop.\<close>

definition sol_json_loop_iterate_object ::
    "byte list \<Rightarrow> sol_json_scanner \<Rightarrow> sol_json_token \<Rightarrow> sol_json_token \<Rightarrow> sol_json_token \<Rightarrow> sol_json_loop_status
      \<Rightarrow> (bool \<times> sol_json_loop_status \<times> sol_json_scanner \<times> sol_json_token \<times> sol_json_token \<times> sol_json_token) option" where
  "sol_json_loop_iterate_object d sc token key val reason = do {
     (cont, reason, sc, token) \<leftarrow> sol_json_loop_iterate_generic d sc token SOL_JSON_TYPE_OBJECT_END reason;
     (if \<not> cont then Some (False, reason, sc, token, key, val)
      else do {
        (st, sc, val) \<leftarrow> sol_json_scanner_get_dict_pair d sc token val;
        (if st \<noteq> Scanned then Some (False, SOL_JSON_LOOP_REASON_INVALID, sc, token, token, val)
         else Some (True, SOL_JSON_LOOP_REASON_OK, sc, token, token, val))
      })
   }"

subsection \<open>Progress\<close>

text \<open>The same for the steps over several tokens; a value ends at the new position.\<close>

definition moves :: "sol_json_scanner \<Rightarrow> scan_status \<Rightarrow> sol_json_scanner \<Rightarrow> sol_json_token \<Rightarrow> bool" where
  "moves sc st sc' token \<longleftrightarrow>
     sc_mem sc' = sc_mem sc \<and> sc_mem_end sc' = sc_mem_end sc \<and> sc_current sc \<le> sc_current sc' \<and>
     (sc_current sc \<le> sc_mem_end sc \<longrightarrow> sc_current sc' \<le> sc_mem_end sc) \<and>
     (st = Scanned \<longrightarrow> tk_end token = Some (sc_current sc'))"

lemma moves_next: "sol_json_scanner_next d sc = Some (st, sc', token) \<Longrightarrow> moves sc st sc' token"
  by (drule next_advances) (auto simp: advances_def moves_def)

lemma moves_trans: "moves sc st sc1 tok1 \<Longrightarrow> moves sc1 st' sc2 tok2 \<Longrightarrow> moves sc st' sc2 tok2"
  by (auto simp: moves_def)

lemma moves_error: "moves sc st sc' token \<Longrightarrow> moves sc (Scan_error e) sc' token'"
  by (simp add: moves_def)

lemma skip_loop_moves:
  "skip_loop d sc token level = Some (st, sc', token') \<Longrightarrow> tk_end token = Some (sc_current sc) \<Longrightarrow> moves sc st sc' token'"
proof (induction d sc token level rule: skip_loop.induct)
  case (1 d sc token level)
  obtain type where type: "sol_json_token_get_type d token = Some type"
    using "1.prems"(1) by (subst (asm) skip_loop.simps) (auto split: bind_splits)
  note eq = "1.prems"(1) [unfolded skip_loop.simps [of d sc token], simplified type, simplified]
  have stay: "moves sc Scanned sc token" "moves sc (Scan_error EINVAL) sc token"
    using "1.prems"(2) by (simp_all add: moves_def)
  show ?case
  proof (cases "level_after type level")
    case (Some n)
    show ?thesis
    proof (cases "n > 0")
      case True
      then obtain st1 sc1 tok1 where nx: "sol_json_scanner_next d sc = Some (st1, sc1, tok1)"
        using eq Some by (auto split: option.splits)
      note m = moves_next [OF nx]
      show ?thesis
      proof (cases "st1 = Scanned")
        case True
        have "moves sc1 st sc' token'"
          by (rule "1.IH" [OF type Some _ \<open>n > 0\<close> nx])
            (use eq Some \<open>n > 0\<close> nx True next_scanned(5) [of d sc sc1 tok1] in auto)
        with m show ?thesis by (rule moves_trans)
      next
        case False
        then have "st = Scan_error EINVAL \<and> sc' = sc1" using eq Some \<open>n > 0\<close> nx by (cases st1) auto
        then show ?thesis using m by (auto intro: moves_error)
      qed
    qed (use eq Some stay in \<open>auto split: if_splits\<close>)
  qed (use eq stay in auto)
qed

lemma skip_moves:
  assumes "sol_json_scanner_skip d sc token = Some (st, sc', token')" and "tk_end token = Some (sc_current sc)"
  shows "moves sc st sc' token'"
proof -
  have "sc\<lparr>sc_current := sc_current sc\<rparr> = sc" by simp
  then show ?thesis using assms by (simp add: sol_json_scanner_skip_def skip_loop_moves)
qed

lemma moves_refl: "moves sc (Scan_error e) sc token"
  by (simp add: moves_def)

lemma dict_pair_moves:
  assumes "sol_json_scanner_get_dict_pair d sc key val = Some (st, sc', val')"
  shows "moves sc st sc' val'"
proof -
  obtain k where k: "sol_json_token_get_type d key = Some k"
    using assms by (auto simp: sol_json_scanner_get_dict_pair_def split: bind_splits)
  note a1 = assms [unfolded sol_json_scanner_get_dict_pair_def k, simplified]
  show ?thesis
  proof (cases "k = SOL_JSON_TYPE_STRING")
    case True
    then obtain st1 sc1 v1 where n1: "sol_json_scanner_next d sc = Some (st1, sc1, v1)"
      using a1 by (auto split: bind_splits)
    note m1 = moves_next [OF n1] note a2 = a1 [simplified True n1, simplified]
    show ?thesis
    proof (cases "st1 = Scanned")
      case True
      obtain t where t: "sol_json_token_get_type d v1 = Some t" using a2 True by (auto split: bind_splits)
      note a3 = a2 [simplified True t, simplified]
      show ?thesis
      proof (cases "t = SOL_JSON_TYPE_PAIR_SEP")
        case True
        obtain st2 sc2 v2 where n2: "sol_json_scanner_next d sc1 = Some (st2, sc2, v2)"
          using a3 True by (auto split: bind_splits)
        note m2 = moves_trans [OF m1 moves_next [OF n2]] note a4 = a3 [simplified True n2, simplified]
        show ?thesis
        proof (cases "st2 = Scanned")
          case True
          obtain st3 sc3 v3 where n3: "sol_json_scanner_skip d sc2 v2 = Some (st3, sc3, v3)"
            using a4 True by (auto split: bind_splits)
          have "moves sc st3 sc3 v3"
            using moves_trans [OF m2 skip_moves [OF n3]] next_scanned(5) n2 True by blast
          then show ?thesis using a4 True n3 by (auto simp: moves_def split: if_splits)
        qed (use a4 m2 in \<open>auto intro: moves_error\<close>)
      qed (use a3 m1 in \<open>auto intro: moves_error\<close>)
    qed (use a2 m1 in \<open>auto intro: moves_error\<close>)
  qed (use a1 in \<open>auto intro: moves_refl\<close>)
qed

lemma iterate_generic_moves:
  assumes "sol_json_loop_iterate_generic d sc token end_type reason = Some (cont, reason', sc', token')"
  shows "moves sc (if cont then Scanned else Scan_error EINVAL) sc' token'"
    and "cont \<Longrightarrow> sc_mem_end sc' - sc_current sc' < sc_mem_end sc - sc_current sc"
proof -
  have "moves sc (if cont then Scanned else Scan_error EINVAL) sc' token' \<and>
      (cont \<longrightarrow> sc_mem_end sc' - sc_current sc' < sc_mem_end sc - sc_current sc)"
  proof (cases "reason = SOL_JSON_LOOP_REASON_OK")
    case True
    then obtain st1 sc1 t1 where n1: "sol_json_scanner_next d sc = Some (st1, sc1, t1)"
      using assms by (auto simp: sol_json_loop_iterate_generic_def split: bind_splits)
    note m1 = moves_next [OF n1] note a1 = assms [unfolded sol_json_loop_iterate_generic_def n1, simplified True, simplified]
    show ?thesis
    proof (cases "st1 = Scanned")
      case True
      have less: "sc_mem_end sc1 - sc_current sc1 < sc_mem_end sc - sc_current sc"
        using n1 True by (simp add: next_measure)
      obtain t where t: "sol_json_token_get_type d t1 = Some t" using a1 True by (auto split: bind_splits)
      note a2 = a1 [simplified True t, simplified]
      show ?thesis
      proof (cases "t \<noteq> end_type \<and> t = SOL_JSON_TYPE_ELEMENT_SEP")
        case True
        then obtain st2 sc2 t2 where n2: "sol_json_scanner_next d sc1 = Some (st2, sc2, t2)"
          using a2 by (auto split: bind_splits)
        note m2 = moves_trans [OF m1 moves_next [OF n2]]
        have "st2 = Scanned \<Longrightarrow> sc_mem_end sc2 - sc_current sc2 < sc_mem_end sc - sc_current sc"
          using n2 next_measure less by (meson less_trans)
        then show ?thesis using a2 True n2 m2 by (auto split: if_splits intro: moves_error)
      qed (use a2 m1 less True in \<open>auto split: if_splits intro: moves_error\<close>)
    qed (use a1 m1 in \<open>auto intro: moves_error\<close>)
  qed (use assms in \<open>auto simp: sol_json_loop_iterate_generic_def moves_refl\<close>)
  then show "moves sc (if cont then Scanned else Scan_error EINVAL) sc' token'"
    and "cont \<Longrightarrow> sc_mem_end sc' - sc_current sc' < sc_mem_end sc - sc_current sc" by simp_all
qed

lemma moves_measure: "moves sc st sc' token \<Longrightarrow> sc_mem_end sc' - sc_current sc' \<le> sc_mem_end sc - sc_current sc"
  by (auto simp: moves_def)

lemma iterate_object_moves:
  assumes "sol_json_loop_iterate_object d sc token key val reason = Some (cont, reason', sc', token', key', val')"
  shows "moves sc (if cont then Scanned else Scan_error EINVAL) sc' val'"
    and "cont \<Longrightarrow> sc_mem_end sc' - sc_current sc' < sc_mem_end sc - sc_current sc"
proof -
  obtain cont1 reason1 sc1 t1 where g: "sol_json_loop_iterate_generic d sc token SOL_JSON_TYPE_OBJECT_END reason = Some (cont1, reason1, sc1, t1)"
    using assms by (auto simp: sol_json_loop_iterate_object_def split: bind_splits)
  note m = iterate_generic_moves [OF g] note a1 = assms [unfolded sol_json_loop_iterate_object_def g, simplified]
  have "moves sc (if cont then Scanned else Scan_error EINVAL) sc' val' \<and>
      (cont \<longrightarrow> sc_mem_end sc' - sc_current sc' < sc_mem_end sc - sc_current sc)"
  proof (cases cont1)
    case True
    then obtain st2 sc2 v2 where p: "sol_json_scanner_get_dict_pair d sc1 t1 val = Some (st2, sc2, v2)"
      using a1 by (auto split: bind_splits)
    note m2 = dict_pair_moves [OF p]
    have "moves sc st2 sc2 v2" using moves_trans [OF m(1) m2] .
    moreover have "sc_mem_end sc2 - sc_current sc2 < sc_mem_end sc - sc_current sc"
      using m(2) [OF True] moves_measure [OF m2] by linarith
    ultimately show ?thesis using a1 True p by (auto split: if_splits intro: moves_error)
  qed (use a1 m in \<open>auto intro: moves_error\<close>)
  then show "moves sc (if cont then Scanned else Scan_error EINVAL) sc' val'"
    and "cont \<Longrightarrow> sc_mem_end sc' - sc_current sc' < sc_mem_end sc - sc_current sc" by simp_all
qed

section \<open>Looking up members and elements\<close>

text \<open>\<open>None\<close> is also the failed assertion that the token is a string.\<close>

definition sol_json_token_str_eq :: "byte list \<Rightarrow> sol_json_token \<Rightarrow> byte list \<Rightarrow> bool option" where
  "sol_json_token_str_eq d token str = do {
     t \<leftarrow> sol_json_token_get_type d token;
     (if t \<noteq> SOL_JSON_TYPE_STRING then None
      else do {
        s \<leftarrow> tk_start token;
        sz \<leftarrow> sol_json_token_get_size token;
        (if sz = length str + 2 then do {
           bs \<leftarrow> mem_read (s + 1) (length str) d;
           Some (bs = str)
         } else Some False)
      })
   }"

function by_key_loop :: "byte list \<Rightarrow> byte list \<Rightarrow> sol_json_scanner \<Rightarrow> sol_json_token \<Rightarrow> sol_json_token \<Rightarrow> sol_json_token
    \<Rightarrow> sol_json_loop_status \<Rightarrow> ((errno + unit) \<times> sol_json_scanner \<times> sol_json_token) option" where
  "by_key_loop d key_slice sc token key val reason =
     (case sol_json_loop_iterate_object d sc token key val reason of
        None \<Rightarrow> None
      | Some (cont, reason, sc, token, key, val) \<Rightarrow>
          if \<not> cont then Some (if reason = SOL_JSON_LOOP_REASON_OK then Inl ENOENT else Inl EINVAL, sc, val)
          else do {
            eq \<leftarrow> sol_json_token_str_eq d key key_slice;
            (if eq then Some (Inr (), sc, val) else by_key_loop d key_slice sc token key val reason)
          })"
  by pat_completeness auto
termination
  by (relation "measure (\<lambda>(d, key_slice, sc, token, key, val, reason). sc_mem_end sc - sc_current sc)")
    (auto dest: iterate_object_moves(2))

definition sol_json_object_get_value_by_key :: "byte list \<Rightarrow> sol_json_scanner \<Rightarrow> byte list \<Rightarrow> sol_json_token
    \<Rightarrow> ((errno + unit) \<times> sol_json_scanner \<times> sol_json_token) option" where
  "sol_json_object_get_value_by_key d sc key_slice val = do {
     t \<leftarrow> sol_json_mem_get_type d (sc_current sc);
     (if t \<noteq> SOL_JSON_TYPE_OBJECT_START then Some (Inl EINVAL, sc, val)
      else do {
        (reason, sc, token) \<leftarrow> sol_json_loop_iterate_init d sc SOL_JSON_TYPE_OBJECT_START;
        by_key_loop d key_slice sc token no_token val reason
      })
   }"

text \<open>The index counts in 16 bits.\<close>

function at_index_loop :: "byte list \<Rightarrow> nat \<Rightarrow> nat \<Rightarrow> sol_json_scanner \<Rightarrow> sol_json_token \<Rightarrow> sol_json_loop_status
    \<Rightarrow> ((errno + unit) \<times> sol_json_scanner \<times> sol_json_token) option" where
  "at_index_loop d i cur_index sc val reason =
     (case sol_json_loop_iterate_generic d sc val SOL_JSON_TYPE_ARRAY_END reason of
        None \<Rightarrow> None
      | Some (cont, reason, sc, val) \<Rightarrow>
          if \<not> cont then Some (if reason = SOL_JSON_LOOP_REASON_OK then Inl ENOENT else Inl EINVAL, sc, val)
          else if i = cur_index then Some (Inr (), sc, val)
          else
            (case sol_json_scanner_skip d sc val of
               None \<Rightarrow> None
             | Some (st, sc, val) \<Rightarrow>
                 if st \<noteq> Scanned then Some (Inl ENOENT, sc, val)
                 else at_index_loop d i ((cur_index + 1) mod (UINT16_MAX + 1)) sc val reason))"
  by pat_completeness auto
termination
proof (relation "measure (\<lambda>(d, i, cur_index, sc, val, reason). sc_mem_end sc - sc_current sc)")
  fix d i cur_index sc val reason x cont x2 reason1 x4 sc1 val1 y st y2 sc2 val2
  assume it: "sol_json_loop_iterate_generic d sc val SOL_JSON_TYPE_ARRAY_END reason = Some x" "(cont, x2) = x"
      "(reason1, x4) = x2" "(sc1, val1) = x4" "\<not> \<not> cont"
    and sk: "sol_json_scanner_skip d sc1 val1 = Some y" "(st, y2) = y" "(sc2, val2) = y2"
  then have g: "sol_json_loop_iterate_generic d sc val SOL_JSON_TYPE_ARRAY_END reason = Some (True, reason1, sc1, val1)"
    and s: "sol_json_scanner_skip d sc1 val1 = Some (st, sc2, val2)" by auto
  have "moves sc1 st sc2 val2" using iterate_generic_moves(1) [OF g] by (intro skip_moves [OF s]) (simp add: moves_def)
  then show "((d, i, (cur_index + 1) mod (UINT16_MAX + 1), sc2, val2, reason1), (d, i, cur_index, sc, val, reason))
      \<in> measure (\<lambda>(d, i, cur_index, sc, val, reason). sc_mem_end sc - sc_current sc)"
    using iterate_generic_moves(2) [OF g] moves_measure by fastforce
qed simp

declare by_key_loop.simps [simp del] at_index_loop.simps [simp del]

definition sol_json_array_get_at_index :: "byte list \<Rightarrow> sol_json_scanner \<Rightarrow> nat \<Rightarrow> sol_json_token
    \<Rightarrow> ((errno + unit) \<times> sol_json_scanner \<times> sol_json_token) option" where
  "sol_json_array_get_at_index d sc i val = do {
     t \<leftarrow> sol_json_mem_get_type d (sc_current sc);
     (if t \<noteq> SOL_JSON_TYPE_ARRAY_START then Some (Inl EINVAL, sc, val)
      else do {
        (reason, sc, val) \<leftarrow> sol_json_loop_iterate_init d sc SOL_JSON_TYPE_ARRAY_START;
        at_index_loop d i 0 sc val reason
      })
   }"

text \<open>
  \<^verbatim>\<open>*(mem_end - 1)\<close> is read before anything else, also of a document without any byte, whose
  \<^verbatim>\<open>mem_end\<close> may be the first byte of the block.
\<close>

definition sol_json_is_valid_type :: "byte list \<Rightarrow> sol_json_scanner \<Rightarrow> sol_json_type \<Rightarrow> (bool \<times> sol_json_scanner) option" where
  "sol_json_is_valid_type d sc type =
     (if sc_mem_end sc = 0 then None
      else do {
        c \<leftarrow> mem_get (sc_mem_end sc - 1) d;
        let last_position = (if c = 0 then sc_mem_end sc - 1 else sc_mem_end sc);
        (st, sc, token) \<leftarrow> sol_json_scanner_next d sc;
        (if st \<noteq> Scanned then Some (False, sc)
         else do {
           t \<leftarrow> sol_json_token_get_type d token;
           (if t \<noteq> type then Some (False, sc)
            else do {
              (st, sc, token) \<leftarrow> sol_json_scanner_skip d sc token;
              Some (st = Scanned \<and> tk_end token = Some last_position, sc)
            })
         })
      })"

section \<open>Memory safety\<close>

lemma string_loop_total: "e \<le> length d \<Longrightarrow> \<exists>r. string_loop d e cur esc = Some r"
proof (induction d e cur esc rule: string_loop.induct)
  case (1 d e cur esc)
  show ?case
  proof (cases "cur < e")
    case True
    then have c: "mem_get cur d = Some (d ! cur)" using "1.prems" by (simp add: mem_get_Some)
    show ?thesis
      by (subst string_loop.simps) (use "1.IH" [OF True c] True c "1.prems" in \<open>auto\<close>)
  qed (auto simp: string_loop.simps)
qed

lemma number_loop_total: "e \<le> length d \<Longrightarrow> \<exists>cur' frac' exp'. number_loop d e cur frac exp = Some (cur', frac', exp')"
proof (induction d e cur frac exp rule: number_loop.induct)
  case (1 d e cur frac exp)
  show ?case
  proof (cases "cur < e")
    case True
    then have c: "mem_get cur d = Some (d ! cur)" using "1.prems" by (simp add: mem_get_Some)
    have c1: "cur + 1 < e \<Longrightarrow> mem_get (cur + 1) d = Some (d ! (cur + 1))" using "1.prems" by (simp add: mem_get_Some)
    show ?thesis
      by (subst number_loop.simps)
        (use "1.IH" [OF True c] True c c1 "1.prems" in \<open>auto split: bind_splits\<close>)
  qed (simp add: number_loop.simps)
qed

lemma check_total:
  assumes "sc_mem_end sc \<le> length d" and "sc_current sc < sc_mem_end sc"
  shows "\<exists>r. check_symbol d word sc token = Some r" and "\<exists>r. check_string d sc token = Some r"
    and "\<exists>r. check_number d sc token = Some r"
proof -
  show "\<exists>r. check_symbol d word sc token = Some r"
    using assms by (auto simp: check_symbol_def sol_json_scanner_get_size_remaining_def mem_read_Some Let_def)
  show "\<exists>r. check_string d sc token = Some r"
    using string_loop_total [OF assms(1), of "sc_current sc + 1" False] by (auto simp: check_string_def)
  show "\<exists>r. check_number d sc token = Some r"
    using number_loop_total [OF assms(1), of "sc_current sc + 1" None None] by (auto simp: check_number_def)
qed

lemma next_total: "sc_mem_end sc \<le> length d \<Longrightarrow> \<exists>st sc' token. sol_json_scanner_next d sc = Some (st, sc', token)"
  unfolding sol_json_scanner_next_def
proof (induction d sc rule: next_loop.induct)
  case (1 d sc)
  show ?case
  proof (cases "sc_current sc < sc_mem_end sc")
    case True
    then have c: "mem_get (sc_current sc) d = Some (d ! sc_current sc)" using "1.prems" by (simp add: mem_get_Some)
    have "\<exists>r. next_loop d sc = Some r"
    proof (cases "byte_type (d ! sc_current sc)")
      case SOL_JSON_TYPE_UNKNOWN
      then show ?thesis
        using "1.IH" [OF True c SOL_JSON_TYPE_UNKNOWN] "1.prems" True c by (subst next_loop.simps) auto
    qed (use True c check_total [OF "1.prems" True] in \<open>auto simp: next_loop.simps [of d sc]\<close>)
    then show ?thesis by auto
  qed (simp add: next_loop.simps)
qed

lemma next_token_type:
  assumes "sol_json_scanner_next d sc = Some (Scanned, sc', token)"
  obtains t where "sol_json_token_get_type d token = Some t" "t \<noteq> SOL_JSON_TYPE_UNKNOWN"
proof -
  have "next_loop d sc = Some (Scanned, sc', token) \<Longrightarrow>
      \<exists>t. sol_json_token_get_type d token = Some t \<and> t \<noteq> SOL_JSON_TYPE_UNKNOWN"
  proof (induction d sc rule: next_loop.induct)
    case (1 d sc)
    have lt: "sc_current sc < sc_mem_end sc" using "1.prems" by (rule_tac ccontr) (simp add: next_loop.simps)
    then obtain c where c: "mem_get (sc_current sc) d = Some c"
      using "1.prems" by (subst (asm) next_loop.simps) (auto split: bind_splits)
    note eq = "1.prems" [unfolded next_loop.simps [of d sc], simplified lt c, simplified]
    show ?case
    proof (cases "byte_type c")
      case SOL_JSON_TYPE_UNKNOWN
      then show ?thesis using eq "1.IH" [OF lt c] by (simp split: if_splits)
    qed (use eq c in \<open>auto simp: sol_json_token_get_type_def sol_json_mem_get_type_def check_symbol_def
          check_string_def check_number_def Let_def split: if_splits bind_splits\<close>)
  qed
  with assms that show thesis by (auto simp: sol_json_scanner_next_def)
qed

lemma next_typed: "sol_json_scanner_next d sc = Some (Scanned, sc', token) \<Longrightarrow> \<exists>t. sol_json_token_get_type d token = Some t"
  by (auto elim: next_token_type)

definition inside :: "byte list \<Rightarrow> sol_json_scanner \<Rightarrow> bool" where
  "inside d sc \<longleftrightarrow> sc_current sc \<le> sc_mem_end sc \<and> sc_mem_end sc \<le> length d"

lemma moves_inside: "moves sc st sc' token \<Longrightarrow> inside d sc \<Longrightarrow> inside d sc'"
  by (auto simp: moves_def inside_def)

lemma next_inside:
  assumes "inside d sc"
  obtains st sc' token where "sol_json_scanner_next d sc = Some (st, sc', token)" "inside d sc'"
proof -
  obtain st sc' token where n: "sol_json_scanner_next d sc = Some (st, sc', token)"
    using next_total [of sc d] assms unfolding inside_def by blast
  with that moves_inside [OF moves_next [OF n] assms] show thesis by blast
qed

lemma skip_loop_total:
  "inside d sc \<Longrightarrow> sol_json_token_get_type d token = Some t \<Longrightarrow> \<exists>st sc' token'. skip_loop d sc token level = Some (st, sc', token')"
proof (induction d sc token level arbitrary: t rule: skip_loop.induct)
  case (1 d sc token level)
  obtain st1 sc1 tok1 where nx: "sol_json_scanner_next d sc = Some (st1, sc1, tok1)"
    by (rule next_inside [OF "1.prems"(1)])
  have "\<exists>r. skip_loop d sc token level = Some r"
  proof (cases "level_after t level")
    case (Some n)
    show ?thesis
    proof (cases "n > 0 \<and> st1 = Scanned")
      case True
      obtain t1 where "sol_json_token_get_type d tok1 = Some t1" using nx True by (auto elim: next_token_type)
      then have "\<exists>st sc' token'. skip_loop d sc1 tok1 n = Some (st, sc', token')"
        using "1.IH" [OF "1.prems"(2) Some _ _ nx] True moves_inside [OF moves_next [OF nx] "1.prems"(1)] by auto
      then show ?thesis using "1.prems"(2) Some True nx by (subst skip_loop.simps) auto
    qed (use "1.prems"(2) Some nx in \<open>subst skip_loop.simps, auto split: scan_status.splits\<close>)
  qed (use "1.prems"(2) in \<open>subst skip_loop.simps, auto\<close>)
  then show ?case by auto
qed

lemma skip_total:
  assumes "inside d sc" and "tk_end token = Some (sc_current sc)" and "sol_json_token_get_type d token = Some t"
  shows "\<exists>st sc' token'. sol_json_scanner_skip d sc token = Some (st, sc', token')"
  using skip_loop_total [OF assms(1,3)] assms(2) by (simp add: sol_json_scanner_skip_def)

lemma dict_pair_total:
  assumes "inside d sc" and key: "sol_json_token_get_type d key = Some k"
  shows "\<exists>st sc' val'. sol_json_scanner_get_dict_pair d sc key val = Some (st, sc', val')"
proof -
  obtain st1 sc1 v1 where n1: "sol_json_scanner_next d sc = Some (st1, sc1, v1)"
    and in1: "inside d sc1" by (rule next_inside [OF assms(1)])
  obtain st2 sc2 v2 where n2: "sol_json_scanner_next d sc1 = Some (st2, sc2, v2)"
    and in2: "inside d sc2" by (rule next_inside [OF in1])
  have t1: "st1 = Scanned \<Longrightarrow> \<exists>t. sol_json_token_get_type d v1 = Some t" using n1 by (auto elim: next_token_type)
  have t2: "st2 = Scanned \<Longrightarrow> \<exists>st sc' v. sol_json_scanner_skip d sc2 v2 = Some (st, sc', v)"
    using n2 next_scanned(5) [of d sc1 sc2 v2] by (auto elim: next_token_type intro: skip_total [OF in2])
  show ?thesis
    using t1 t2 by (auto simp: sol_json_scanner_get_dict_pair_def key n1 n2 Let_def)
qed

lemma iterate_generic_type:
  assumes "sol_json_loop_iterate_generic d sc token end_type reason = Some (True, reason', sc', token')"
  obtains t where "sol_json_token_get_type d token' = Some t"
proof -
  have "\<exists>t. sol_json_token_get_type d token' = Some t"
    using assms by (auto simp: sol_json_loop_iterate_generic_def split: if_splits bind_splits) (rule next_typed)
  then show thesis using that by blast
qed

lemma iterate_generic_total:
  assumes "inside d sc"
  shows "\<exists>r. sol_json_loop_iterate_generic d sc token end_type reason = Some r"
proof -
  obtain st1 sc1 v1 where n1: "sol_json_scanner_next d sc = Some (st1, sc1, v1)"
    and in1: "inside d sc1" by (rule next_inside [OF assms])
  obtain st2 sc2 v2 where n2: "sol_json_scanner_next d sc1 = Some (st2, sc2, v2)" by (rule next_inside [OF in1])
  have t1: "st1 = Scanned \<Longrightarrow> \<exists>t. sol_json_token_get_type d v1 = Some t" using n1 by (auto elim: next_token_type)
  show ?thesis
    unfolding sol_json_loop_iterate_generic_def n1 using t1 by (cases "st1 = Scanned") (auto simp: n2)
qed

lemma iterate_object_total:
  assumes "inside d sc"
  shows "\<exists>r. sol_json_loop_iterate_object d sc token key val reason = Some r"
proof -
  obtain cont reason1 sc1 t1 where g: "sol_json_loop_iterate_generic d sc token SOL_JSON_TYPE_OBJECT_END reason = Some (cont, reason1, sc1, t1)"
    using iterate_generic_total [OF assms] by fastforce
  have "inside d sc1" using moves_inside [OF iterate_generic_moves(1) [OF g] assms] .
  then have "cont \<Longrightarrow> \<exists>st sc' val'. sol_json_scanner_get_dict_pair d sc1 t1 val = Some (st, sc', val')"
    using g by (auto elim: iterate_generic_type intro: dict_pair_total)
  then show ?thesis by (cases cont) (auto simp: sol_json_loop_iterate_object_def g)
qed

text \<open>Where a value starts.\<close>

definition starts_in :: "sol_json_scanner \<Rightarrow> sol_json_scanner \<Rightarrow> sol_json_token \<Rightarrow> bool" where
  "starts_in sc sc' token \<longleftrightarrow> (\<exists>s. tk_start token = Some s \<and> sc_current sc \<le> s \<and> s < sc_current sc')"

lemma next_starts: "sol_json_scanner_next d sc = Some (Scanned, sc', token) \<Longrightarrow> starts_in sc sc' token"
  by (drule next_advances) (auto simp: advances_def starts_in_def)

lemma starts_in_before: "starts_in sc1 sc2 token \<Longrightarrow> moves sc st sc1 token' \<Longrightarrow> starts_in sc sc2 token"
  by (auto simp: starts_in_def moves_def)

lemma starts_in_after: "starts_in sc sc1 token \<Longrightarrow> moves sc1 st sc2 token' \<Longrightarrow> starts_in sc sc2 token"
  by (auto simp: starts_in_def moves_def)

lemma dict_pair_starts:
  assumes "sol_json_scanner_get_dict_pair d sc key val = Some (Scanned, sc', val')"
  shows "starts_in sc sc' val'"
proof -
  obtain sc1 v1 sc2 v2 v3 where n1: "sol_json_scanner_next d sc = Some (Scanned, sc1, v1)"
    and n2: "sol_json_scanner_next d sc1 = Some (Scanned, sc2, v2)"
    and s: "sol_json_scanner_skip d sc2 v2 = Some (Scanned, sc', v3)" "val' = v3\<lparr>tk_start := tk_start v2\<rparr>"
    using assms by (auto simp: sol_json_scanner_get_dict_pair_def Let_def split: bind_splits if_splits)
  have "moves sc2 Scanned sc' v3" using skip_moves [OF s(1)] next_scanned(5) [OF n2] by simp
  then have "starts_in sc sc' v2"
    using starts_in_after starts_in_before [OF next_starts [OF n2] moves_next [OF n1]] by blast
  then show ?thesis using s(2) by (simp add: starts_in_def)
qed

lemma iterate_generic_starts:
  assumes "sol_json_loop_iterate_generic d sc token end_type reason = Some (True, reason', sc', token')"
  shows "starts_in sc sc' token'"
  using assms
  by (auto simp: sol_json_loop_iterate_generic_def split: if_splits bind_splits)
    (blast intro: next_starts starts_in_before moves_next)+

lemma iterate_object_starts:
  assumes "sol_json_loop_iterate_object d sc token key val reason = Some (True, reason', sc', token', key', val')"
  shows "starts_in sc sc' val'"
  using assms
  by (auto simp: sol_json_loop_iterate_object_def split: if_splits bind_splits)
    (blast intro: starts_in_before dict_pair_starts iterate_generic_moves(1))+

lemma iterate_object_str_eq:
  assumes "sol_json_loop_iterate_object d sc token key val reason = Some (True, reason', sc', token', key', val')"
    and "inside d sc"
  shows "\<exists>eq. sol_json_token_str_eq d key' str = Some eq"
proof -
  obtain sc1 reason1 where g: "sol_json_loop_iterate_generic d sc token SOL_JSON_TYPE_OBJECT_END reason = Some (True, reason1, sc1, key')"
    and p: "\<exists>sc2. sol_json_scanner_get_dict_pair d sc1 key' val = Some (Scanned, sc2, val')"
    using assms(1) by (auto simp: sol_json_loop_iterate_object_def split: bind_splits if_splits)
  have "sol_json_token_get_type d key' = Some SOL_JSON_TYPE_STRING"
    using p by (auto simp: sol_json_scanner_get_dict_pair_def split: bind_splits if_splits)
  moreover obtain s where s: "tk_start key' = Some s" "s < sc_current sc1"
    using iterate_generic_starts [OF g] by (auto simp: starts_in_def)
  moreover have "tk_end key' = Some (sc_current sc1)" "sc_current sc1 \<le> length d"
    using iterate_generic_moves(1) [OF g] assms(2) by (auto simp: moves_def inside_def)
  ultimately show ?thesis
    by (auto simp: sol_json_token_str_eq_def sol_json_token_get_size_def mem_read_def)
qed

text \<open>What a lookup promises whatever the document is: it returns, and a value it returns lies in the document.\<close>

definition lookup_safe :: "byte list \<Rightarrow> sol_json_scanner
    \<Rightarrow> ((errno + unit) \<times> sol_json_scanner \<times> sol_json_token) option \<Rightarrow> bool" where
  "lookup_safe d sc res = (case res of None \<Rightarrow> False
     | Some (r, sc', val) \<Rightarrow> inside d sc' \<and> sc_mem_end sc' = sc_mem_end sc \<and> sc_current sc \<le> sc_current sc' \<and>
         (r = Inr () \<longrightarrow> starts_in sc sc' val \<and> tk_end val = Some (sc_current sc')))"

lemma lookup_safe_before:
  assumes "lookup_safe d sc1 res" and "moves sc st sc1 token"
  shows "lookup_safe d sc res"
proof -
  obtain r sc' val where "res = Some (r, sc', val)" using assms(1) by (auto simp: lookup_safe_def split: option.splits)
  with assms show ?thesis by (auto simp: lookup_safe_def moves_def starts_in_def)
qed

lemma by_key_loop_safe: "inside d sc \<Longrightarrow> lookup_safe d sc (by_key_loop d key_slice sc token key val reason)"
proof (induction d key_slice sc token key val reason rule: by_key_loop.induct)
  case (1 d key_slice sc token key val reason)
  obtain cont reason1 sc1 token1 key1 val1 where
    it: "sol_json_loop_iterate_object d sc token key val reason = Some (cont, reason1, sc1, token1, key1, val1)"
    using iterate_object_total [OF "1.prems"] by (metis prod_cases6)
  note m = iterate_object_moves(1) [OF it]
  have in1: "inside d sc1" using moves_inside [OF m "1.prems"] .
  show ?case
  proof (cases cont)
    case True
    note it1 = it [unfolded True[THEN eqTrueI]]
    have "starts_in sc sc1 val1" using it1 by (rule iterate_object_starts)
    then have found: "lookup_safe d sc (Some (Inr (), sc1, val1))"
      using m in1 True by (simp add: lookup_safe_def moves_def)
    obtain eq where eq: "sol_json_token_str_eq d key1 key_slice = Some eq"
      using iterate_object_str_eq [OF it1 "1.prems"] by blast
    have "\<not> eq \<Longrightarrow> lookup_safe d sc (by_key_loop d key_slice sc1 token1 key1 val1 reason1)"
      by (rule lookup_safe_before [OF "1.IH" m]) (use it True eq in1 in auto)
    with found show ?thesis by (subst by_key_loop.simps) (simp add: it True eq)
  qed (use m in1 in \<open>subst by_key_loop.simps, simp add: it lookup_safe_def moves_def\<close>)
qed

lemma at_index_loop_safe: "inside d sc \<Longrightarrow> lookup_safe d sc (at_index_loop d i k sc val reason)"
proof (induction d i k sc val reason rule: at_index_loop.induct)
  case (1 d i k sc val reason)
  obtain cont reason1 sc1 val1 where
    it: "sol_json_loop_iterate_generic d sc val SOL_JSON_TYPE_ARRAY_END reason = Some (cont, reason1, sc1, val1)"
    using iterate_generic_total [OF "1.prems"] by (metis prod_cases4)
  note m = iterate_generic_moves(1) [OF it]
  have in1: "inside d sc1" using moves_inside [OF m "1.prems"] .
  show ?case
  proof (cases cont)
    case True
    note it1 = it [unfolded True [THEN eqTrueI]]
    have "starts_in sc sc1 val1" using it1 by (rule iterate_generic_starts)
    then have found: "lookup_safe d sc (Some (Inr (), sc1, val1))"
      using m in1 True by (simp add: lookup_safe_def moves_def)
    obtain t where t: "sol_json_token_get_type d val1 = Some t" using it1 by (rule iterate_generic_type)
    have e: "tk_end val1 = Some (sc_current sc1)" using m True by (simp add: moves_def)
    obtain st sc2 val2 where sk: "sol_json_scanner_skip d sc1 val1 = Some (st, sc2, val2)"
      using skip_total [OF in1 e t] by blast
    note m2 = moves_trans [OF m skip_moves [OF sk e]]
    have in2: "inside d sc2" using moves_inside [OF m2 "1.prems"] .
    have "i \<noteq> k \<Longrightarrow> st = Scanned \<Longrightarrow> lookup_safe d sc (at_index_loop d i ((k + 1) mod (UINT16_MAX + 1)) sc2 val2 reason1)"
      by (rule lookup_safe_before [OF "1.IH" m2]) (use it True sk in2 in auto)
    moreover have "lookup_safe d sc (Some (Inl ENOENT, sc2, val2))" using m2 in2 by (simp add: lookup_safe_def moves_def)
    ultimately show ?thesis using found by (subst at_index_loop.simps) (simp add: it True sk)
  qed (use m in1 in \<open>subst at_index_loop.simps, simp add: it lookup_safe_def moves_def\<close>)
qed

lemma iterate_init_total:
  assumes "inside d sc"
  obtains reason sc' token where "sol_json_loop_iterate_init d sc t = Some (reason, sc', token)" "inside d sc'"
    "moves sc (Scan_error EINVAL) sc' token"
proof -
  obtain st sc1 tok where n: "sol_json_scanner_next d sc = Some (st, sc1, tok)" "inside d sc1" by (rule next_inside [OF assms])
  have "st = Scanned \<Longrightarrow> \<exists>u. sol_json_token_get_type d tok = Some u" using n by (auto intro: next_typed)
  then have "\<exists>reason. sol_json_loop_iterate_init d sc t = Some (reason, sc1, tok)"
    by (cases "st = Scanned") (auto simp: sol_json_loop_iterate_init_def n)
  with n that moves_error [OF moves_next [OF n(1)]] show thesis by blast
qed

lemma lookups_safe:
  assumes "inside d sc" and "sc_current sc < length d"
  shows "lookup_safe d sc (sol_json_object_get_value_by_key d sc key_slice val)"
    and "lookup_safe d sc (sol_json_array_get_at_index d sc i val)"
proof -
  have t: "sol_json_mem_get_type d (sc_current sc) = Some (byte_type (d ! sc_current sc))"
    using assms by (simp add: sol_json_mem_get_type_def mem_get_Some)
  have err: "lookup_safe d sc (Some (Inl e, sc, val))" for e using assms(1) by (simp add: lookup_safe_def)
  show "lookup_safe d sc (sol_json_object_get_value_by_key d sc key_slice val)"
  proof -
    obtain reason sc1 token where i: "sol_json_loop_iterate_init d sc SOL_JSON_TYPE_OBJECT_START = Some (reason, sc1, token)"
      "inside d sc1" "moves sc (Scan_error EINVAL) sc1 token" by (rule iterate_init_total [OF assms(1)])
    show ?thesis using err lookup_safe_before [OF by_key_loop_safe [OF i(2)] i(3)]
      by (simp add: sol_json_object_get_value_by_key_def t i(1))
  qed
  show "lookup_safe d sc (sol_json_array_get_at_index d sc i val)"
  proof -
    obtain reason sc1 token where i: "sol_json_loop_iterate_init d sc SOL_JSON_TYPE_ARRAY_START = Some (reason, sc1, token)"
      "inside d sc1" "moves sc (Scan_error EINVAL) sc1 token" by (rule iterate_init_total [OF assms(1)])
    show ?thesis using err lookup_safe_before [OF at_index_loop_safe [OF i(2)] i(3)]
      by (simp add: sol_json_array_get_at_index_def t i(1))
  qed
qed

lemma scanner_safe:
  assumes "sc_current sc \<le> sc_mem_end sc" and "sc_mem_end sc \<le> length d"
  shows "\<exists>st sc' token. sol_json_scanner_next d sc = Some (st, sc', token) \<and> sc_current sc \<le> sc_current sc' \<and>
      sc_current sc' \<le> sc_mem_end sc' \<and> sc_mem_end sc' = sc_mem_end sc \<and>
      (st = Scanned \<longrightarrow> (\<exists>s. tk_start token = Some s \<and> sc_current sc \<le> s \<and> s < sc_current sc' \<and>
        tk_end token = Some (sc_current sc') \<and> byte_type (d ! s) \<noteq> SOL_JSON_TYPE_UNKNOWN))"
    and "sc_current sc < length d \<Longrightarrow> \<exists>r sc' val'. sol_json_object_get_value_by_key d sc key_slice val = Some (r, sc', val') \<and>
      (r = Inr () \<longrightarrow> (\<exists>s e. tk_start val' = Some s \<and> tk_end val' = Some e \<and> sc_current sc \<le> s \<and> s < e \<and> e \<le> sc_mem_end sc))"
    and "sc_current sc < length d \<Longrightarrow> \<exists>r sc' val'. sol_json_array_get_at_index d sc i val = Some (r, sc', val') \<and>
      (r = Inr () \<longrightarrow> (\<exists>s e. tk_start val' = Some s \<and> tk_end val' = Some e \<and> sc_current sc \<le> s \<and> s < e \<and> e \<le> sc_mem_end sc))"
proof -
  have ins: "inside d sc" using assms by (simp add: inside_def)
  obtain st sc' token where n: "sol_json_scanner_next d sc = Some (st, sc', token)" "inside d sc'" by (rule next_inside [OF ins])
  have "st = Scanned \<Longrightarrow> (\<exists>s. tk_start token = Some s \<and> sc_current sc \<le> s \<and> s < sc_current sc' \<and>
        tk_end token = Some (sc_current sc') \<and> byte_type (d ! s) \<noteq> SOL_JSON_TYPE_UNKNOWN)"
    using n(1) next_starts [of d sc sc' token] next_scanned(5) [of d sc sc' token]
    by (auto simp: starts_in_def sol_json_token_get_type_def sol_json_mem_get_type_def mem_get_def
        split: if_splits elim!: next_token_type)
  then show "\<exists>st sc' token. sol_json_scanner_next d sc = Some (st, sc', token) \<and> sc_current sc \<le> sc_current sc' \<and>
      sc_current sc' \<le> sc_mem_end sc' \<and> sc_mem_end sc' = sc_mem_end sc \<and>
      (st = Scanned \<longrightarrow> (\<exists>s. tk_start token = Some s \<and> sc_current sc \<le> s \<and> s < sc_current sc' \<and>
        tk_end token = Some (sc_current sc') \<and> byte_type (d ! s) \<noteq> SOL_JSON_TYPE_UNKNOWN))"
    using n moves_next [OF n(1)] by (auto simp: moves_def inside_def)
  note safe = lookups_safe [OF ins]
  show "sc_current sc < length d \<Longrightarrow> \<exists>r sc' val'. sol_json_object_get_value_by_key d sc key_slice val = Some (r, sc', val') \<and>
      (r = Inr () \<longrightarrow> (\<exists>s e. tk_start val' = Some s \<and> tk_end val' = Some e \<and> sc_current sc \<le> s \<and> s < e \<and> e \<le> sc_mem_end sc))"
    using safe(1) [of key_slice val] by (auto simp: lookup_safe_def starts_in_def inside_def split: option.splits)
  show "sc_current sc < length d \<Longrightarrow> \<exists>r sc' val'. sol_json_array_get_at_index d sc i val = Some (r, sc', val') \<and>
      (r = Inr () \<longrightarrow> (\<exists>s e. tk_start val' = Some s \<and> tk_end val' = Some e \<and> sc_current sc \<le> s \<and> s < e \<and> e \<le> sc_mem_end sc))"
    using safe(2) [of i val] by (auto simp: lookup_safe_def starts_in_def inside_def split: option.splits)
qed

text \<open>With nothing left to read, both lookups read the byte at the cursor all the same.\<close>

lemma lookups_behind:
  assumes "sc_current sc = length d"
  shows "sol_json_object_get_value_by_key d sc key_slice val = None" and "sol_json_array_get_at_index d sc i val = None"
  using assms by (simp_all add: sol_json_object_get_value_by_key_def sol_json_array_get_at_index_def
      sol_json_mem_get_type_def mem_get_def)

text \<open>
  C32. The scanner is memory safe and terminates on any document, empty, well formed or not; \<open>d\<close> is the
  memory that starts with the document. Scanning a token returns and stays inside of the document; a
  token that was scanned is one of the known types, starts at or behind the old position and ends at
  the new one. Looking up a member of an object or an element of an array looks at the byte at the
  cursor first: as long as there is one, it returns, and a value that was found lies inside of the
  document; on an empty or exhausted document at the end of the memory it reads outside.\<close>

theorem json_scanner_safe:
  assumes "sc_current sc \<le> sc_mem_end sc" and "sc_mem_end sc \<le> length d"
  shows "(\<exists>st sc' token. sol_json_scanner_next d sc = Some (st, sc', token) \<and> sc_current sc \<le> sc_current sc' \<and>
      sc_current sc' \<le> sc_mem_end sc' \<and> sc_mem_end sc' = sc_mem_end sc \<and>
      (st = Scanned \<longrightarrow> (\<exists>s. tk_start token = Some s \<and> sc_current sc \<le> s \<and> s < sc_current sc' \<and>
        tk_end token = Some (sc_current sc') \<and> byte_type (d ! s) \<noteq> SOL_JSON_TYPE_UNKNOWN))) \<and>
    (sc_current sc < length d \<longrightarrow>
      (\<exists>r sc' val'. sol_json_object_get_value_by_key d sc key_slice val = Some (r, sc', val') \<and>
        (r = Inr () \<longrightarrow> (\<exists>s e. tk_start val' = Some s \<and> tk_end val' = Some e \<and> sc_current sc \<le> s \<and> s < e \<and> e \<le> sc_mem_end sc))) \<and>
      (\<exists>r sc' val'. sol_json_array_get_at_index d sc i val = Some (r, sc', val') \<and>
        (r = Inr () \<longrightarrow> (\<exists>s e. tk_start val' = Some s \<and> tk_end val' = Some e \<and> sc_current sc \<le> s \<and> s < e \<and> e \<le> sc_mem_end sc)))) \<and>
    (sc_current sc = length d \<longrightarrow>
      sol_json_object_get_value_by_key d sc key_slice val = None \<and> sol_json_array_get_at_index d sc i val = None)"
  by (intro conjI impI scanner_safe [OF assms] lookups_behind)

text \<open>The document \<^verbatim>\<open>[1,\<close>.\<close>

theorem json_scanner_safe_witness:
  "\<exists>r sc' val'. sol_json_array_get_at_index [91, 49, 44] (sol_json_scanner_init 0 3) 1 no_token = Some (r, sc', val') \<and>
    (r = Inr () \<longrightarrow> (\<exists>s e. tk_start val' = Some s \<and> tk_end val' = Some e \<and> s < e \<and> e \<le> 3))"
proof -
  let ?sc = "sol_json_scanner_init 0 3"
  have "sc_current ?sc \<le> sc_mem_end ?sc" "sc_mem_end ?sc \<le> length [91, 49, 44 :: byte]" by (simp_all add: sol_json_scanner_init_def)
  from json_scanner_safe [OF this, of "[]" no_token 1] show ?thesis by (fastforce simp: sol_json_scanner_init_def)
qed

section \<open>The tokens of a well-formed document\<close>

fun string_body :: "byte list \<Rightarrow> bool" where
  "string_body [] = True"
| "string_body [c] = (c \<noteq> quote \<and> c \<noteq> backslash)"
| "string_body (c # x # cs) =
     (if c = backslash then x \<in> set string_escapes \<and> string_body cs else c \<noteq> quote \<and> string_body (x # cs))"

definition string_lexeme :: "byte list \<Rightarrow> bool" where
  "string_lexeme t \<longleftrightarrow> (\<exists>b. t = quote # b @ [quote] \<and> string_body b)"

definition exponent :: "byte list \<Rightarrow> bool" where
  "exponent ex \<longleftrightarrow> ex = [] \<or> (\<exists>m sg es. ex = m # sg @ es \<and> m \<in> {ascii CHR ''e'', ascii CHR ''E''} \<and>
     sg \<in> {[], [ascii CHR ''-''], [ascii CHR ''+'']} \<and> list_all isdigit es)"

definition number_lexeme :: "byte list \<Rightarrow> bool" where
  "number_lexeme t \<longleftrightarrow> (\<exists>c ds fr ex. t = c # ds @ fr @ ex \<and> byte_type c = SOL_JSON_TYPE_NUMBER \<and> list_all isdigit ds \<and>
     (fr = [] \<or> hd fr = ascii CHR ''.'' \<and> list_all isdigit (tl fr)) \<and> exponent ex)"

definition number_char :: "byte \<Rightarrow> bool" where
  "number_char c \<longleftrightarrow> isdigit c \<or> c \<in> set (map ascii ''.eE+-'')"

definition single_lexemes :: "byte list list" where
  "single_lexemes = map (\<lambda>c. [ascii c]) ''{}[],:''"

definition symbol_lexemes :: "byte list list" where
  "symbol_lexemes = [map ascii ''true'', map ascii ''false'', map ascii ''null'']"

definition lexeme :: "byte list \<Rightarrow> bool" where
  "lexeme t \<longleftrightarrow> t \<in> set single_lexemes \<or> t \<in> set symbol_lexemes \<or> string_lexeme t \<or> number_lexeme t"

lemma mem_get_drop: "drop p d = c # cs \<Longrightarrow> mem_get p d = Some c \<and> drop (p + 1) d = cs \<and> p < length d"
  by (metis Cons_nth_drop_Suc Suc_eq_plus1 drop_all linorder_not_le list.distinct(1) list.inject mem_get_def)

lemma drop_past: "drop p d = w @ r \<Longrightarrow> drop (p + length w) d = r"
  by (metis add.commute append_eq_conv_conj drop_drop)

lemma string_loop_body:
  "string_body b \<Longrightarrow> drop cur d = b @ quote # r \<Longrightarrow> cur + length b < e \<Longrightarrow> string_loop d e cur False = Some (True, cur + length b)"
proof (induction b arbitrary: cur rule: string_body.induct)
  case 1
  then show ?case using mem_get_drop [of cur d quote r] by (subst string_loop.simps) simp
next
  case (2 c)
  then have m: "mem_get cur d = Some c" "drop (cur + 1) d = quote # r" using mem_get_drop [of cur d] by auto
  have "string_loop d e (cur + 1) False = Some (True, cur + 1)"
    using mem_get_drop [OF m(2)] "2.prems" by (subst string_loop.simps) simp
  then show ?case using "2.prems" m by (subst string_loop.simps) simp
next
  case (3 c x cs)
  then have m: "mem_get cur d = Some c" "drop (cur + 1) d = x # cs @ quote # r" using mem_get_drop [of cur d] by auto
  note m' = mem_get_drop [OF m(2)]
  show ?case
  proof (cases "c = backslash")
    case True
    have "string_loop d e (cur + 2) False = Some (True, cur + 2 + length cs)"
      using "3.IH"(1) [OF True, of "cur + 2"] "3.prems" True m' by simp
    moreover have "string_loop d e (cur + 1) True = string_loop d e (cur + 2) False"
      using m' True "3.prems" by (subst string_loop.simps) simp
    moreover have "string_loop d e cur False = string_loop d e (cur + 1) True"
      using m True "3.prems" by (subst string_loop.simps) simp
    ultimately show ?thesis by simp
  next
    case False
    have "string_loop d e (cur + 1) False = Some (True, cur + 1 + length (x # cs))"
      using "3.IH"(2) [OF False, of "cur + 1"] "3.prems" False m by simp
    moreover have "string_loop d e cur False = string_loop d e (cur + 1) False"
      using m False "3.prems" by (subst string_loop.simps) simp
    ultimately show ?thesis by simp
  qed
qed

lemma number_loop_digits:
  "list_all isdigit ds \<Longrightarrow> drop cur d = ds @ r \<Longrightarrow> cur + length ds \<le> e \<Longrightarrow>
     number_loop d e cur frac exp = number_loop d e (cur + length ds) frac exp"
proof (induction ds arbitrary: cur)
  case (Cons c ds)
  then have m: "mem_get cur d = Some c" "drop (cur + 1) d = ds @ r" using mem_get_drop [of cur d] by auto
  have "number_loop d e cur frac exp = number_loop d e (cur + 1) frac exp"
    using m Cons.prems by (subst number_loop.simps) simp
  then show ?case using Cons.IH [OF _ m(2)] Cons.prems by simp
qed simp

lemma number_loop_stop:
  assumes "cur = e \<or> (\<exists>c r. drop cur d = c # r \<and> \<not> number_char c)"
  shows "number_loop d e cur frac exp = Some (cur, frac, exp)"
  using assms mem_get_drop [of cur d]
  by (subst number_loop.simps) (auto simp: number_char_def)

text \<open>Where a number ends: at the end of the document or before a byte that cannot continue it.\<close>

definition number_ends :: "byte list \<Rightarrow> nat \<Rightarrow> nat \<Rightarrow> bool" where
  "number_ends d e p \<longleftrightarrow> p = e \<or> (\<exists>c r. drop p d = c # r \<and> \<not> number_char c)"

lemma number_loop_exponent:
  assumes "exponent ex" and "drop cur d = ex @ r" and "cur + length ex \<le> e" and "number_ends d e (cur + length ex)"
  shows "\<exists>x. number_loop d e cur frac None = Some (cur + length ex, frac, x)"
proof -
  have stop: "number_loop d e (cur + length ex) frac x = Some (cur + length ex, frac, x)" for x
    using assms(4) unfolding number_ends_def by (rule number_loop_stop)
  show ?thesis
  proof (cases "ex = []")
    case True
    then show ?thesis using stop by simp
  next
    case False
    then obtain m sg es where ex: "ex = m # sg @ es" "m \<in> {ascii CHR ''e'', ascii CHR ''E''}"
      "sg \<in> {[], [ascii CHR ''-''], [ascii CHR ''+'']}" "list_all isdigit es" using assms(1) by (auto simp: exponent_def)
    have nd: "\<not> isdigit m" using ex(2) by (auto simp: isdigit_def)
    have m: "mem_get cur d = Some m" "drop (cur + 1) d = sg @ es @ r" using mem_get_drop [of cur d m] assms(2) ex(1) by auto
    show ?thesis
    proof (cases "sg = []")
      case True
      have sign: "cur + 1 < e \<Longrightarrow> \<exists>c. mem_get (cur + 1) d = Some c \<and> \<not> (c = ascii CHR ''-'' \<or> c = ascii CHR ''+'')"
      proof -
        assume lt: "cur + 1 < e"
        show ?thesis
        proof (cases es)
          case Nil
          then have "cur + length ex = cur + 1" using ex True by simp
          then obtain c r' where c: "drop (cur + 1) d = c # r'" "\<not> number_char c"
            using assms(4) lt by (auto simp: number_ends_def)
          then show ?thesis using mem_get_drop [OF c(1)] by (auto simp: number_char_def)
        next
          case (Cons c es')
          then have "mem_get (cur + 1) d = Some c" "isdigit c" using m(2) True mem_get_drop [of "cur + 1" d c] ex(4) by auto
          then show ?thesis by (auto simp: isdigit_def)
        qed
      qed
      have "number_loop d e cur frac None = number_loop d e (cur + 1) frac (Some cur)"
        by (subst number_loop.simps) (use m(1) nd ex(2) sign assms(3) ex(1) in \<open>auto split: bind_splits\<close>)
      also have "\<dots> = number_loop d e (cur + 1 + length es) frac (Some cur)"
        by (rule number_loop_digits [OF ex(4)]) (use m(2) True assms(3) ex(1) in auto)
      finally show ?thesis using stop ex(1) True by (auto simp: add.assoc)
    next
      case False
      then obtain g where g: "sg = [g]" "g = ascii CHR ''-'' \<or> g = ascii CHR ''+''" using ex(3) by auto
      have m2: "mem_get (cur + 1) d = Some g" "drop (cur + 2) d = es @ r" using mem_get_drop [of "cur + 1" d g] m(2) g(1) by auto
      have "number_loop d e cur frac None = number_loop d e (cur + 2) frac (Some (cur + 1))"
        by (subst number_loop.simps) (use m(1) m2(1) nd ex(1,2) g assms(3) in \<open>auto split: bind_splits\<close>)
      also have "\<dots> = number_loop d e (cur + 2 + length es) frac (Some (cur + 1))"
        by (rule number_loop_digits [OF ex(4)]) (use m2(2) assms(3) ex(1) g(1) in auto)
      finally show ?thesis using stop ex(1) g(1) by (auto simp: add.assoc)
    qed
  qed
qed

lemma number_loop_lexeme:
  assumes "list_all isdigit ds" and "fr = [] \<or> hd fr = ascii CHR ''.'' \<and> list_all isdigit (tl fr)" and "exponent ex"
    and "drop cur d = ds @ fr @ ex @ r" and "cur + length (ds @ fr @ ex) \<le> e" and "number_ends d e (cur + length (ds @ fr @ ex))"
  shows "\<exists>frac x. number_loop d e cur None None = Some (cur + length (ds @ fr @ ex), frac, x)"
proof -
  let ?p = "cur + length ds"
  have p: "drop ?p d = fr @ ex @ r" using drop_past [OF assms(4)] by simp
  have "number_loop d e cur None None = number_loop d e ?p None None"
    by (rule number_loop_digits [OF assms(1,4)]) (use assms(5) in simp)
  moreover have "\<exists>frac x. number_loop d e ?p None None = Some (?p + length (fr @ ex), frac, x)"
  proof (cases fr)
    case Nil
    then show ?thesis using number_loop_exponent [OF assms(3), of ?p d r e None] p assms(5,6) by (auto simp: add.assoc)
  next
    case (Cons c fs)
    then have c: "c = ascii CHR ''.''" "list_all isdigit fs" using assms(2) by auto
    have m: "mem_get ?p d = Some c" "drop (?p + 1) d = fs @ ex @ r" using mem_get_drop [of ?p d c] p Cons by auto
    have "number_loop d e ?p None None = number_loop d e (?p + 1) (Some ?p) None"
      by (subst number_loop.simps) (use m(1) c assms(5) Cons in \<open>auto simp: isdigit_def\<close>)
    also have "\<dots> = number_loop d e (?p + 1 + length fs) (Some ?p) None"
      by (rule number_loop_digits [OF c(2) m(2)]) (use assms(5) Cons in simp)
    finally show ?thesis
      using number_loop_exponent [OF assms(3), of "?p + 1 + length fs" d r e "Some ?p"] drop_past [OF m(2)] assms(5,6) Cons
      by (auto simp: add.assoc)
  qed
  ultimately show ?thesis by (simp add: add.assoc)
qed

lemma next_loop_spaces:
  "list_all isspace w \<Longrightarrow> drop (sc_current sc) d = w @ r \<Longrightarrow> sc_current sc + length w \<le> sc_mem_end sc \<Longrightarrow>
     next_loop d sc = next_loop d (sc\<lparr>sc_current := sc_current sc + length w\<rparr>)"
proof (induction w arbitrary: sc)
  case (Cons c w)
  then have m: "mem_get (sc_current sc) d = Some c" "drop (sc_current sc + 1) d = w @ r" using mem_get_drop [of "sc_current sc" d] by auto
  have "\<not> isdigit c" using Cons.prems(1) order_trans [of 48 c 13] by (auto simp: isspace_def isdigit_def)
  then have "byte_type c = SOL_JSON_TYPE_UNKNOWN" using Cons.prems(1) by (auto simp: isspace_def byte_type_def)
  then have "next_loop d sc = next_loop d (sc\<lparr>sc_current := sc_current sc + 1\<rparr>)"
    using m Cons.prems by (subst next_loop.simps) simp
  then show ?case using Cons.IH [of "sc\<lparr>sc_current := sc_current sc + 1\<rparr>"] Cons.prems m by simp
qed simp

text \<open>The token that was scanned at \<open>p\<close>.\<close>

definition token_at :: "nat \<Rightarrow> byte list \<Rightarrow> sol_json_token" where
  "token_at p t = \<lparr>tk_start = Some p, tk_end = Some (p + length t)\<rparr>"

lemma next_at:
  assumes "lexeme t" and "drop (sc_current sc) d = t @ r" and "sc_current sc + length t \<le> sc_mem_end sc"
    and "number_lexeme t \<Longrightarrow> number_ends d (sc_mem_end sc) (sc_current sc + length t)"
  shows "next_loop d sc = Some (Scanned, sc\<lparr>sc_current := sc_current sc + length t\<rparr>, token_at (sc_current sc) t)"
proof -
  have t0: "t \<noteq> []" using assms(1)
    by (auto simp: lexeme_def single_lexemes_def symbol_lexemes_def string_lexeme_def number_lexeme_def)
  then obtain c u where t: "t = c # u" by (cases t) auto
  have m: "mem_get (sc_current sc) d = Some c" "drop (sc_current sc + 1) d = u @ r" "sc_current sc < length d"
    using mem_get_drop [of "sc_current sc" d c "u @ r"] assms(2) t by auto
  have lt: "sc_current sc < sc_mem_end sc" using assms(3) t by simp
  have sym: "check_symbol d t sc no_token =
      Some (Scanned, sc\<lparr>sc_current := sc_current sc + length t\<rparr>, token_at (sc_current sc) t)"
  proof -
    have "sc_current sc + length t \<le> length d" using arg_cong [OF assms(2), of length] m(3) by simp
    then show ?thesis using assms(2,3)
      by (auto simp: check_symbol_def sol_json_scanner_get_size_remaining_def mem_read_Some token_at_def Let_def)
  qed
  note step = next_loop.simps [of d sc]
  consider "t \<in> set single_lexemes" | "t \<in> set symbol_lexemes" | "string_lexeme t" | "number_lexeme t"
    using assms(1) by (auto simp: lexeme_def)
  then show ?thesis
  proof cases
    case 1
    have "u = []" using 1 t by (auto simp: single_lexemes_def)
    moreover have "byte_type c \<in> {SOL_JSON_TYPE_OBJECT_START, SOL_JSON_TYPE_OBJECT_END, SOL_JSON_TYPE_ARRAY_START,
        SOL_JSON_TYPE_ARRAY_END, SOL_JSON_TYPE_ELEMENT_SEP, SOL_JSON_TYPE_PAIR_SEP}"
      using 1 t by (auto simp: single_lexemes_def byte_type_def)
    ultimately show ?thesis using m(1) lt t by (subst step) (auto simp: token_at_def)
  next
    case 2
    then consider "t = map ascii ''true''" "byte_type c = SOL_JSON_TYPE_TRUE" | "t = map ascii ''false''" "byte_type c = SOL_JSON_TYPE_FALSE"
      | "t = map ascii ''null''" "byte_type c = SOL_JSON_TYPE_NULL"
      using t by (auto simp: symbol_lexemes_def byte_type_def)
    then show ?thesis
      by cases (subst step, use m(1) lt sym in \<open>simp only: if_True Option.bind.simps sol_json_type.case\<close>)+
  next
    case 3
    then obtain b where b: "c = quote" "u = b @ [quote]" "string_body b" using t by (auto simp: string_lexeme_def)
    have "string_loop d (sc_mem_end sc) (sc_current sc + 1) False = Some (True, sc_current sc + 1 + length b)"
      by (rule string_loop_body [OF b(3)]) (use m(2) b(2) t assms(3) in auto)
    then have "check_string d sc no_token =
        Some (Scanned, sc\<lparr>sc_current := sc_current sc + length t\<rparr>, token_at (sc_current sc) t)"
      using t b(2) by (simp add: check_string_def token_at_def)
    then show ?thesis using m(1) lt b(1) by (subst step) (auto simp: byte_type_def)
  next
    case 4
    then obtain ds fr ex where n: "u = ds @ fr @ ex" "byte_type c = SOL_JSON_TYPE_NUMBER" "list_all isdigit ds"
      "fr = [] \<or> hd fr = ascii CHR ''.'' \<and> list_all isdigit (tl fr)" "exponent ex"
      using t by (auto simp: number_lexeme_def)
    have len: "sc_current sc + length t = sc_current sc + 1 + length (ds @ fr @ ex)" using t n(1) by simp
    have "\<exists>frac x. number_loop d (sc_mem_end sc) (sc_current sc + 1) None None =
        Some (sc_current sc + 1 + length (ds @ fr @ ex), frac, x)"
      by (rule number_loop_lexeme [OF n(3-5)]) (use m(2) n(1) assms(3,4) 4 len in auto)
    then obtain frac x where nl: "number_loop d (sc_mem_end sc) (sc_current sc + 1) None None = Some (sc_current sc + length t, frac, x)"
      unfolding len by blast
    then have "frac \<noteq> Some (sc_current sc + length t) \<and> x \<noteq> Some (sc_current sc + length t)"
      using number_loop_bounds [OF nl] by auto
    then have "check_number d sc no_token =
        Some (Scanned, sc\<lparr>sc_current := sc_current sc + length t\<rparr>, token_at (sc_current sc) t)"
      using nl by (simp add: check_number_def token_at_def)
    then show ?thesis using m(1) lt n(2) by (subst step) simp
  qed
qed

lemma next_lexeme:
  assumes "lexeme t" and "list_all isspace w" and "drop (sc_current sc) d = w @ t @ r"
    and "sc_current sc + length w + length t \<le> sc_mem_end sc"
    and "number_lexeme t \<Longrightarrow> number_ends d (sc_mem_end sc) (sc_current sc + length w + length t)"
  shows "sol_json_scanner_next d sc = Some (Scanned, sc\<lparr>sc_current := sc_current sc + length w + length t\<rparr>,
    token_at (sc_current sc + length w) t)"
proof -
  have "next_loop d sc = next_loop d (sc\<lparr>sc_current := sc_current sc + length w\<rparr>)"
    using assms(2-4) by (intro next_loop_spaces) auto
  also have "\<dots> = Some (Scanned, sc\<lparr>sc_current := sc_current sc + length w + length t\<rparr>, token_at (sc_current sc + length w) t)"
    using next_at [OF assms(1), of "sc\<lparr>sc_current := sc_current sc + length w\<rparr>" d r] drop_past [OF assms(3)] assms(4,5) by simp
  finally show ?thesis by (simp add: sol_json_scanner_next_def)
qed

text \<open>
  C37. Numbers without the digits they need are accepted: whatever number is followed by a point or by an
  exponent (with or without a sign) and no digit, the scanner delivers all of it as one token, because
  the test for missing digits compares the cursor with the place of the point or of the exponent, which
  the cursor has left already.\<close>

theorem json_number_without_digits:
  assumes "byte_type c = SOL_JSON_TYPE_NUMBER" and "list_all isdigit ds"
    and "mark \<in> {[ascii CHR ''.''], [ascii CHR ''e''], [ascii CHR ''E''], [ascii CHR ''e'', ascii CHR ''+''],
      [ascii CHR ''e'', ascii CHR ''-'']}"
    and "list_all isspace w" and "drop (sc_current sc) d = w @ (c # ds @ mark) @ r"
    and "sc_current sc + length w + length (c # ds @ mark) \<le> sc_mem_end sc"
    and "number_ends d (sc_mem_end sc) (sc_current sc + length w + length (c # ds @ mark))"
  shows "sol_json_scanner_next d sc =
    Some (Scanned, sc\<lparr>sc_current := sc_current sc + length w + length (c # ds @ mark)\<rparr>,
      token_at (sc_current sc + length w) (c # ds @ mark))"
proof -
  consider (point) "mark = [ascii CHR ''.'']"
    | (expo) m sg where "mark = m # sg" "m \<in> {ascii CHR ''e'', ascii CHR ''E''}" "sg \<in> {[], [ascii CHR ''-''], [ascii CHR ''+'']}"
    using assms(3) by auto
  then have "number_lexeme (c # ds @ mark)"
  proof cases
    case point
    have "c # ds @ mark = c # ds @ mark @ []" "hd mark = ascii CHR ''.'' \<and> list_all isdigit (tl mark)"
      using point by simp_all
    with assms(1,2) show ?thesis unfolding number_lexeme_def exponent_def by blast
  next
    case expo
    have "exponent mark" unfolding exponent_def using expo by (intro disjI2 exI [of _ m] exI [of _ sg] exI [of _ "[]"]) simp
    moreover have "c # ds @ mark = c # ds @ [] @ mark" by simp
    ultimately show ?thesis using assms(1,2) unfolding number_lexeme_def by blast
  qed
  then show ?thesis using assms(4-7) by (intro next_lexeme) (simp_all add: lexeme_def)
qed

theorem json_number_without_digits_witness:
  "sol_json_scanner_next [32, 49, 50, 46, 44] (sol_json_scanner_init 0 5) =
    Some (Scanned, \<lparr>sc_mem = 0, sc_mem_end = 5, sc_current = 4\<rparr>, \<lparr>tk_start = Some 1, tk_end = Some 4\<rparr>)"
  using json_number_without_digits [of 49 "[50]" "[ascii CHR ''.'']" "[32]" "sol_json_scanner_init 0 5" "[32, 49, 50, 46, 44]" "[44]"]
  by (simp add: byte_type_def isdigit_def isspace_def sol_json_scanner_init_def number_ends_def number_char_def token_at_def)

section \<open>Documents\<close>

text \<open>
  A value as a tree: an atom is its token (a symbol, a string with its quotes or a number), the key
  of a member is a string token.
\<close>

datatype json = Atom "byte list" | Array "json list" | Object "(byte list \<times> json) list"

abbreviation comma :: "byte list" where
  "comma \<equiv> [ascii CHR '','']"

definition separate :: "byte list list list \<Rightarrow> byte list list" where
  "separate xss = (case xss of [] \<Rightarrow> [] | xs # xss \<Rightarrow> xs @ concat (map ((#) comma) xss))"

fun tokens :: "json \<Rightarrow> byte list list" where
  "tokens (Atom t) = [t]"
| "tokens (Array js) = [ascii CHR ''[''] # separate (map tokens js) @ [[ascii CHR '']'']]"
| "tokens (Object ms) = [ascii CHR ''{''] # separate (map (\<lambda>(k, v). k # [ascii CHR '':''] # tokens v) ms) @ [[ascii CHR ''}'']]"

fun wf_json :: "json \<Rightarrow> bool" where
  "wf_json (Atom t) \<longleftrightarrow> t \<in> set symbol_lexemes \<or> string_lexeme t \<or> number_lexeme t"
| "wf_json (Array js) \<longleftrightarrow> list_all wf_json js"
| "wf_json (Object ms) \<longleftrightarrow> list_all (\<lambda>(k, v). string_lexeme k \<and> wf_json v) ms"

text \<open>The text of a document: every token behind any white space.\<close>

definition layout :: "(byte list \<times> byte list) list \<Rightarrow> byte list" where
  "layout xs = concat (map (\<lambda>(w, t). w @ t) xs)"

text \<open>\<open>scans d sc ts sc'\<close>: from \<open>sc\<close> the scanner yields the tokens \<open>ts\<close> and is at \<open>sc'\<close> then.\<close>

inductive scans :: "byte list \<Rightarrow> sol_json_scanner \<Rightarrow> byte list list \<Rightarrow> sol_json_scanner \<Rightarrow> bool" for d where
  scans_Nil: "scans d sc [] sc"
| scans_Cons: "sol_json_scanner_next d sc = Some (Scanned, sc1, token_at p t) \<Longrightarrow> take (length t) (drop p d) = t \<Longrightarrow> t \<noteq> [] \<Longrightarrow>
    scans d sc1 ts sc' \<Longrightarrow> scans d sc (t # ts) sc'"

inductive_cases scans_NilE: "scans d sc [] sc'"
inductive_cases scans_ConsE: "scans d sc (t # ts) sc'"

lemma scans_append: "scans d sc (ts @ us) sc' \<longleftrightarrow> (\<exists>sc1. scans d sc ts sc1 \<and> scans d sc1 us sc')"
proof (induction ts arbitrary: sc)
  case Nil
  then show ?case by (auto intro: scans_Nil elim: scans_NilE)
next
  case (Cons t ts)
  then show ?case by (auto elim!: scans_ConsE intro: scans_Cons) (blast intro: scans_Cons)+
qed

lemma byte_at:
  assumes "take (length t) (drop p d) = t" and "t \<noteq> []"
  shows "p + length t \<le> length d" "mem_get p d = Some (hd t)"
proof -
  have "length (take (length t) (drop p d)) = length t" using assms(1) by simp
  then show le: "p + length t \<le> length d" using assms(2) by (cases "p \<le> length d") auto
  obtain c cs where t: "t = c # cs" using assms(2) by (cases t) auto
  have "drop p d = d ! p # drop (Suc p) d" using le t by (simp add: Cons_nth_drop_Suc)
  then have "d ! p = c" using assms(1) t by simp
  then show "mem_get p d = Some (hd t)" using le t by (simp add: mem_get_def)
qed

lemma token_at_type:
  assumes "take (length t) (drop p d) = t" and "t \<noteq> []"
  shows "sol_json_token_get_type d (token_at p t) = Some (byte_type (hd t))"
  using byte_at [OF assms] by (simp add: sol_json_token_get_type_def sol_json_mem_get_type_def token_at_def)

text \<open>What follows a number must not continue it.\<close>

fun separated :: "(byte list \<times> byte list) list \<Rightarrow> bool" where
  "separated ((w, t) # (w', t') # xs) \<longleftrightarrow>
     (number_lexeme t \<longrightarrow> \<not> number_char (hd (w' @ t'))) \<and> separated ((w', t') # xs)"
| "separated xs \<longleftrightarrow> True"

lemma lexeme_not_Nil: "lexeme t \<Longrightarrow> t \<noteq> []"
  by (auto simp: lexeme_def single_lexemes_def symbol_lexemes_def string_lexeme_def number_lexeme_def)

lemma scans_layout:
  assumes "list_all (\<lambda>(w, t). list_all isspace w \<and> lexeme t) xs" and "separated xs"
    and "drop (sc_current sc) d = layout xs @ r" and "sc_current sc + length (layout xs) \<le> sc_mem_end sc"
    and "xs \<noteq> [] \<Longrightarrow> number_lexeme (snd (last xs)) \<Longrightarrow> number_ends d (sc_mem_end sc) (sc_current sc + length (layout xs))"
  shows "scans d sc (map snd xs) (sc\<lparr>sc_current := sc_current sc + length (layout xs)\<rparr>)"
  using assms
proof (induction xs arbitrary: sc)
  case Nil
  then show ?case by (simp add: layout_def scans_Nil)
next
  case (Cons x xs)
  obtain w t where x: "x = (w, t)" by fastforce
  let ?sc = "sc\<lparr>sc_current := sc_current sc + length w + length t\<rparr>"
  have t: "lexeme t" "list_all isspace w" using Cons.prems(1) x by auto
  have d: "drop (sc_current sc) d = w @ t @ layout xs @ r" using Cons.prems(3) x by (simp add: layout_def)
  have d1: "drop (sc_current sc + length w) d = t @ layout xs @ r" using drop_past [OF d] .
  have d2: "drop (sc_current sc + length w + length t) d = layout xs @ r" using drop_past [OF d1] .
  have ends: "number_ends d (sc_mem_end sc) (sc_current sc + length w + length t)" if "number_lexeme t"
  proof (cases xs)
    case Nil
    then show ?thesis using Cons.prems(5) that x by (simp add: layout_def add.assoc)
  next
    case (Cons y ys)
    obtain w' t' where y: "y = (w', t')" by fastforce
    have "\<not> number_char (hd (w' @ t'))" using \<open>separated (x # xs)\<close> x y Cons that by simp
    moreover have "t' \<noteq> []" using Cons.prems(1) Cons y by (auto dest: lexeme_not_Nil)
    ultimately show ?thesis using d2 Cons y unfolding number_ends_def layout_def
      by (cases "w' @ t'") auto
  qed
  have "sol_json_scanner_next d sc = Some (Scanned, ?sc, token_at (sc_current sc + length w) t)"
    by (rule next_lexeme [OF t d]) (use Cons.prems(4) x ends in \<open>simp_all add: layout_def\<close>)
  moreover have "scans d ?sc (map snd xs) (?sc\<lparr>sc_current := sc_current ?sc + length (layout xs)\<rparr>)"
    by (rule Cons.IH) (use Cons.prems x d2 in \<open>auto simp: layout_def add.assoc elim: separated.elims split: if_splits\<close>)
  ultimately show ?case using x d1 lexeme_not_Nil [OF t(1)] by (auto simp: layout_def add.assoc intro!: scans_Cons)
qed

subsection \<open>Skipping a value\<close>

definition skip_from :: "byte list \<Rightarrow> sol_json_scanner \<Rightarrow> int \<Rightarrow> scan_result" where
  "skip_from d sc level = (case sol_json_scanner_next d sc of
     None \<Rightarrow> None
   | Some (Scanned, sc, token) \<Rightarrow> skip_loop d sc token level
   | Some (_, sc, token) \<Rightarrow> Some (Scan_error EINVAL, sc, token))"

lemma skip_loop_from:
  assumes "sol_json_token_get_type d token = Some t" and "level_after t level = Some n" and "0 < n"
  shows "skip_loop d sc token level = skip_from d sc n"
  using assms by (subst skip_loop.simps) (simp add: skip_from_def split: option.splits scan_status.splits)

lemma skip_from_token:
  assumes "scans d sc (t # ts) sc'" and "level_after (byte_type (hd t)) level = Some n" and "0 < n"
  obtains sc1 where "skip_from d sc level = skip_from d sc1 n" "scans d sc1 ts sc'"
proof -
  obtain sc1 p where s: "sol_json_scanner_next d sc = Some (Scanned, sc1, token_at p t)" "take (length t) (drop p d) = t"
    "t \<noteq> []" "scans d sc1 ts sc'" using assms(1) by (rule scans_ConsE) blast
  have "skip_from d sc level = skip_from d sc1 n"
    using skip_loop_from [OF token_at_type [OF s(2,3)] assms(2,3)] s(1) by (simp add: skip_from_def)
  with s(4) that show thesis by blast
qed

definition neutral :: "byte list list \<Rightarrow> bool" where
  "neutral ts \<longleftrightarrow> (\<forall>d sc sc' n. scans d sc ts sc' \<longrightarrow> 0 < n \<longrightarrow> skip_from d sc n = skip_from d sc' n)"

lemma neutral_Nil: "neutral []"
  by (auto simp: neutral_def elim: scans_NilE)

lemma neutral_append: "neutral ts \<Longrightarrow> neutral us \<Longrightarrow> neutral (ts @ us)"
  unfolding neutral_def scans_append by (metis (no_types))

lemma neutral_Cons:
  assumes "\<And>n. level_after (byte_type (hd t)) n = Some n" and "neutral ts"
  shows "neutral (t # ts)"
  unfolding neutral_def
proof (intro allI impI)
  fix d sc sc' and n :: int
  assume "scans d sc (t # ts) sc'" "0 < n"
  then show "skip_from d sc n = skip_from d sc' n"
    using assms(2) by (auto elim!: skip_from_token [OF _ assms(1)] simp: neutral_def)
qed

lemma neutral_concat: "list_all neutral tss \<Longrightarrow> neutral (concat tss)"
  by (induction tss) (simp_all add: neutral_Nil neutral_append)

lemma neutral_separate: "list_all neutral tss \<Longrightarrow> neutral (separate tss)"
proof (cases tss)
  case (Cons ts us)
  assume "list_all neutral tss"
  moreover have "byte_type (hd comma) = SOL_JSON_TYPE_ELEMENT_SEP" by (simp add: byte_type_def)
  ultimately have "neutral ts" "list_all neutral (map ((#) comma) us)"
    using Cons by (auto simp: list_all_iff intro!: neutral_Cons)
  then show ?thesis using Cons by (simp add: separate_def neutral_append neutral_concat)
qed (simp add: separate_def neutral_Nil)

lemma neutral_bracket:
  assumes "neutral ts" and op: "\<And>n. level_after (byte_type (hd a)) n = Some (n + 1)"
    and cl: "\<And>n. level_after (byte_type (hd b)) n = Some (n - 1)"
  shows "neutral (a # ts @ [b])"
  unfolding neutral_def
proof (intro allI impI)
  fix d sc sc' and n :: int
  assume s: "scans d sc (a # ts @ [b]) sc'" and n: "0 < n"
  obtain sc1 where s1: "skip_from d sc n = skip_from d sc1 (n + 1)" "scans d sc1 (ts @ [b]) sc'"
    by (rule skip_from_token [OF s op [of n]]) (use n in auto)
  obtain sc2 where s2: "scans d sc1 ts sc2" "scans d sc2 [b] sc'" using s1(2) by (auto simp: scans_append)
  have e: "skip_from d sc1 (n + 1) = skip_from d sc2 (n + 1)" using assms(1) s2(1) n by (simp add: neutral_def)
  obtain sc3 where s3: "skip_from d sc2 (n + 1) = skip_from d sc3 n" "scans d sc3 [] sc'"
    by (rule skip_from_token [OF s2(2) cl [of "n + 1"]]) (use n in auto)
  then show "skip_from d sc n = skip_from d sc' n" using s1(1) e by (auto elim: scans_NilE)
qed

lemma atom_type:
  assumes "t \<in> set symbol_lexemes \<or> string_lexeme t \<or> number_lexeme t"
  shows "byte_type (hd t) \<in> {SOL_JSON_TYPE_TRUE, SOL_JSON_TYPE_FALSE, SOL_JSON_TYPE_NULL, SOL_JSON_TYPE_STRING, SOL_JSON_TYPE_NUMBER}"
    and "string_lexeme t \<Longrightarrow> byte_type (hd t) = SOL_JSON_TYPE_STRING"
proof -
  show str: "string_lexeme t \<Longrightarrow> byte_type (hd t) = SOL_JSON_TYPE_STRING" by (auto simp: string_lexeme_def byte_type_def)
  have sym: "t \<in> set symbol_lexemes \<Longrightarrow> byte_type (hd t) \<in> {SOL_JSON_TYPE_TRUE, SOL_JSON_TYPE_FALSE, SOL_JSON_TYPE_NULL}"
    by (auto simp: symbol_lexemes_def byte_type_def)
  have num: "number_lexeme t \<Longrightarrow> byte_type (hd t) = SOL_JSON_TYPE_NUMBER" by (auto simp: number_lexeme_def)
  show "byte_type (hd t) \<in> {SOL_JSON_TYPE_TRUE, SOL_JSON_TYPE_FALSE, SOL_JSON_TYPE_NULL, SOL_JSON_TYPE_STRING, SOL_JSON_TYPE_NUMBER}"
    using assms str sym num by auto
qed

lemma level_atom:
  "t \<in> set symbol_lexemes \<or> string_lexeme t \<or> number_lexeme t \<Longrightarrow> level_after (byte_type (hd t)) n = Some n"
  using atom_type(1) [of t] by auto

lemma neutral_members:
  assumes "\<And>k v. (k, v) \<in> set ms \<Longrightarrow> string_lexeme k \<and> neutral (tokens v)"
  shows "neutral (separate (map (\<lambda>(k, v). k # [ascii CHR '':''] # tokens v) ms))"
proof (rule neutral_separate, unfold list_all_iff, rule ballI)
  fix ts
  assume "ts \<in> set (map (\<lambda>(k, v). k # [ascii CHR '':''] # tokens v) ms)"
  then obtain k v where kv: "(k, v) \<in> set ms" "ts = k # [ascii CHR '':''] # tokens v" by auto
  have c: "neutral ([ascii CHR '':''] # tokens v)"
    by (rule neutral_Cons) (use assms [OF kv(1)] in \<open>simp_all add: byte_type_def\<close>)
  show "neutral ts" unfolding kv(2) by (rule neutral_Cons [OF _ c]) (simp add: level_atom assms [OF kv(1)])
qed

lemma neutral_tokens: "wf_json j \<Longrightarrow> neutral (tokens j)"
proof (induction j rule: tokens.induct)
  case (1 t)
  then show ?case by (auto intro!: neutral_Cons neutral_Nil level_atom)
next
  case (2 js)
  then have "neutral (separate (map tokens js))" by (intro neutral_separate) (auto simp: list_all_iff)
  then show ?case by (auto intro!: neutral_bracket simp: byte_type_def)
next
  case (3 ms)
  have "neutral (separate (map (\<lambda>(k, v). k # [ascii CHR '':''] # tokens v) ms))"
    by (rule neutral_members) (use 3 in \<open>auto simp: list_all_iff\<close>)
  then show ?case by (auto intro!: neutral_bracket simp: byte_type_def)
qed

lemma skip_of_loop:
  assumes "sol_json_scanner_next d sc = Some (Scanned, sc1, token)"
  shows "sol_json_scanner_skip d sc1 token = skip_loop d sc1 token 0"
proof -
  have "sc1\<lparr>sc_current := sc_current sc1\<rparr> = sc1" by simp
  then show ?thesis using next_scanned(5) [OF assms] by (simp add: sol_json_scanner_skip_def)
qed

lemma skip_bracket:
  assumes s: "scans d sc (a # ts @ [b]) sc'" and "neutral ts"
    and op: "level_after (byte_type (hd a)) 0 = Some 1" and cl: "level_after (byte_type (hd b)) 1 = Some 0"
    and n: "sol_json_scanner_next d sc = Some (Scanned, sc1, token_at p a)" and p: "take (length a) (drop p d) = a" "a \<noteq> []"
  shows "\<exists>q. sol_json_scanner_skip d sc1 (token_at p a) = Some (Scanned, sc', token_at q b) \<and> tk_end (token_at q b) = Some (sc_current sc')"
proof -
  have "scans d sc1 (ts @ [b]) sc'" using s n by (auto elim: scans_ConsE)
  then obtain sc2 q where m: "scans d sc1 ts sc2" "sol_json_scanner_next d sc2 = Some (Scanned, sc', token_at q b)"
    "take (length b) (drop q d) = b" "b \<noteq> []" by (auto simp: scans_append elim!: scans_ConsE scans_NilE)
  have "sol_json_scanner_skip d sc1 (token_at p a) = skip_from d sc1 1"
    unfolding skip_of_loop [OF n] by (rule skip_loop_from [OF token_at_type [OF p] op]) simp
  also have "\<dots> = skip_from d sc2 1" using assms(2) m(1) by (simp add: neutral_def)
  also have "\<dots> = skip_loop d sc' (token_at q b) 1" by (simp add: skip_from_def m(2))
  also have "\<dots> = Some (Scanned, sc', token_at q b)"
    using cl by (subst skip_loop.simps) (simp add: token_at_type [OF m(3,4)])
  finally show ?thesis using next_scanned(5) [OF m(2)] by blast
qed

lemma skip_value:
  assumes wf: "wf_json j" and s: "scans d sc (tokens j) sc'"
  obtains sc1 p token' where "sol_json_scanner_next d sc = Some (Scanned, sc1, token_at p (hd (tokens j)))"
    "take (length (hd (tokens j))) (drop p d) = hd (tokens j)" "hd (tokens j) \<noteq> []"
    "sol_json_scanner_skip d sc1 (token_at p (hd (tokens j))) = Some (Scanned, sc', token')" "tk_end token' = Some (sc_current sc')"
proof -
  obtain t ts where t: "tokens j = t # ts" by (cases j) auto
  obtain sc1 p where n: "sol_json_scanner_next d sc = Some (Scanned, sc1, token_at p t)" "take (length t) (drop p d) = t" "t \<noteq> []"
    and rest: "scans d sc1 ts sc'" using s unfolding t by (rule scans_ConsE) blast
  have "\<exists>token'. sol_json_scanner_skip d sc1 (token_at p t) = Some (Scanned, sc', token') \<and> tk_end token' = Some (sc_current sc')"
  proof (cases j)
    case (Atom a)
    then have "sc' = sc1" "level_after (byte_type (hd t)) 0 = Some 0" using t rest wf level_atom by (auto elim: scans_NilE)
    then have "skip_loop d sc1 (token_at p t) 0 = Some (Scanned, sc', token_at p t)"
      by (subst skip_loop.simps) (simp add: token_at_type [OF n(2,3)])
    then show ?thesis using skip_of_loop [OF n(1)] next_scanned(5) [OF n(1)] \<open>sc' = sc1\<close> by auto
  next
    case (Array js)
    have "neutral (separate (map tokens js))"
      using wf Array neutral_tokens by (intro neutral_separate) (auto simp: list_all_iff)
    then show ?thesis
      using skip_bracket [OF s [unfolded Array tokens.simps], of sc1 p] t n Array by (auto simp: byte_type_def)
  next
    case (Object ms)
    have "neutral (separate (map (\<lambda>(k, v). k # [ascii CHR '':''] # tokens v) ms))"
      by (rule neutral_members) (use wf Object neutral_tokens in \<open>auto simp: list_all_iff\<close>)
    then show ?thesis
      using skip_bracket [OF s [unfolded Object tokens.simps], of sc1 p] t n Object by (auto simp: byte_type_def)
  qed
  with n t that show thesis by auto
qed

lemma next_restart:
  assumes "sol_json_scanner_next d sc = Some (Scanned, sc1, token)" and "tk_start token = Some s"
  shows "sol_json_scanner_next d (sc\<lparr>sc_current := s\<rparr>) = Some (Scanned, sc1, token)"
proof -
  have "next_loop d sc = Some (Scanned, sc1, token) \<Longrightarrow> next_loop d (sc\<lparr>sc_current := s\<rparr>) = Some (Scanned, sc1, token)"
  proof (induction d sc rule: next_loop.induct)
    case (1 d sc)
    have lt: "sc_current sc < sc_mem_end sc" using "1.prems" by (rule_tac ccontr) (simp add: next_loop.simps)
    then obtain c where c: "mem_get (sc_current sc) d = Some c"
      using "1.prems" by (subst (asm) next_loop.simps) (auto split: bind_splits)
    note eq = "1.prems" [unfolded next_loop.simps [of d sc], simplified lt c, simplified]
    show ?case
    proof (cases "byte_type c = SOL_JSON_TYPE_UNKNOWN")
      case True
      then show ?thesis using eq "1.IH" [OF lt c True] by (simp split: if_splits)
    next
      case False
      then have "tk_start token = Some (sc_current sc)"
        using eq by (cases "byte_type c") (auto simp: check_symbol_def check_string_def check_number_def Let_def split: if_splits bind_splits)
      then have "sc\<lparr>sc_current := s\<rparr> = sc" using assms(2) by simp
      then show ?thesis using "1.prems" by simp
    qed
  qed
  then show ?thesis using assms(1) by (simp add: sol_json_scanner_next_def)
qed

subsection \<open>Finding members and elements\<close>

text \<open>The value \<open>v\<close> is written from \<open>s\<close> to where the scanner \<open>sc\<close> is.\<close>

definition stands :: "byte list \<Rightarrow> nat \<Rightarrow> json \<Rightarrow> sol_json_scanner \<Rightarrow> bool" where
  "stands d s v sc \<longleftrightarrow> scans d (sc\<lparr>sc_current := s\<rparr>) (tokens v) sc \<and> mem_get s d = Some (hd (hd (tokens v)))"

text \<open>The token \<open>val\<close> spans exactly the value \<open>v\<close>, which the scanner \<open>sc\<close> has just left.\<close>

definition value_at :: "byte list \<Rightarrow> sol_json_scanner \<Rightarrow> json \<Rightarrow> sol_json_token \<Rightarrow> bool" where
  "value_at d sc v val \<longleftrightarrow> (\<exists>s. tk_start val = Some s \<and> tk_end val = Some (sc_current sc) \<and> stands d s v sc)"

lemma scanner_restart:
  "sc_mem a = sc_mem b \<Longrightarrow> sc_mem_end a = sc_mem_end b \<Longrightarrow> a\<lparr>sc_current := s\<rparr> = (b :: sol_json_scanner)\<lparr>sc_current := s\<rparr>"
  by (cases a, cases b) simp

lemma scans_mem: "scans d sc ts sc' \<Longrightarrow> sc_mem sc' = sc_mem sc \<and> sc_mem_end sc' = sc_mem_end sc"
  by (induction rule: scans.induct) (auto dest: next_scanned(3,4))

lemma scans_restart:
  assumes "scans d sc (t # ts) sc'" and "sol_json_scanner_next d sc = Some (Scanned, sc1, token_at p t)"
  shows "scans d (sc'\<lparr>sc_current := p\<rparr>) (t # ts) sc'"
proof -
  have "sc'\<lparr>sc_current := p\<rparr> = sc\<lparr>sc_current := p\<rparr>" by (rule scanner_restart) (use scans_mem [OF assms(1)] in auto)
  moreover have "sol_json_scanner_next d (sc\<lparr>sc_current := p\<rparr>) = Some (Scanned, sc1, token_at p t)"
    using next_restart [OF assms(2)] by (simp add: token_at_def)
  moreover have "take (length t) (drop p d) = t" "t \<noteq> []" "scans d sc1 ts sc'"
    using assms by (auto elim!: scans_ConsE simp: token_at_def)
  ultimately show ?thesis by (auto intro: scans_Cons)
qed

lemma dict_pair_doc:
  assumes "wf_json v" and "string_lexeme k" and s: "scans d sc ([ascii CHR '':''] # tokens v) sc'"
    and p: "take (length k) (drop p d) = k" "k \<noteq> []"
  obtains val' where "sol_json_scanner_get_dict_pair d sc (token_at p k) val = Some (Scanned, sc', val')" "value_at d sc' v val'"
proof -
  obtain sc1 q where c: "sol_json_scanner_next d sc = Some (Scanned, sc1, token_at q [ascii CHR '':''])"
    "take (length [ascii CHR '':'']) (drop q d) = [ascii CHR '':'']" "scans d sc1 (tokens v) sc'"
    using s by (rule scans_ConsE) blast
  obtain sc2 s' token' where v: "sol_json_scanner_next d sc1 = Some (Scanned, sc2, token_at s' (hd (tokens v)))"
    "sol_json_scanner_skip d sc2 (token_at s' (hd (tokens v))) = Some (Scanned, sc', token')" "tk_end token' = Some (sc_current sc')"
    and first: "take (length (hd (tokens v))) (drop s' d) = hd (tokens v)" "hd (tokens v) \<noteq> []"
    by (rule skip_value [OF assms(1) c(3)])
  have "sol_json_token_get_type d (token_at p k) = Some SOL_JSON_TYPE_STRING"
    using token_at_type [OF p] atom_type(2) assms(2) by auto
  moreover have "sol_json_token_get_type d (token_at q [ascii CHR '':'']) = Some SOL_JSON_TYPE_PAIR_SEP"
    using token_at_type [OF c(2)] by (simp add: byte_type_def)
  ultimately have "sol_json_scanner_get_dict_pair d sc (token_at p k) val = Some (Scanned, sc', token'\<lparr>tk_start := Some s'\<rparr>)"
    by (simp add: sol_json_scanner_get_dict_pair_def c(1) v Let_def) (simp add: token_at_def)
  moreover have "value_at d sc' v (token'\<lparr>tk_start := Some s'\<rparr>)"
  proof -
    obtain t ts where t: "tokens v = t # ts" by (cases v) auto
    then have "scans d (sc'\<lparr>sc_current := s'\<rparr>) (tokens v) sc'" using scans_restart c(3) v(1) by simp
    then show ?thesis using v(3) byte_at(2) [OF first] by (simp add: value_at_def stands_def)
  qed
  ultimately show thesis using that by blast
qed

lemma iterate_doc_next:
  assumes s: "scans d sc ((if lead then [comma] else []) @ t # ts) sc'"
    and t: "byte_type (hd t) \<noteq> end_type" "byte_type (hd t) \<noteq> SOL_JSON_TYPE_ELEMENT_SEP" "end_type \<noteq> SOL_JSON_TYPE_ELEMENT_SEP"
  obtains sc0 sc1 p where "sol_json_loop_iterate_generic d sc token end_type SOL_JSON_LOOP_REASON_OK =
      Some (True, SOL_JSON_LOOP_REASON_OK, sc1, token_at p t)" "take (length t) (drop p d) = t" "t \<noteq> []"
    "scans d sc1 ts sc'" "scans d sc0 (t # ts) sc'" "sol_json_scanner_next d sc0 = Some (Scanned, sc1, token_at p t)"
proof -
  obtain sc0 where s0: "scans d sc (if lead then [comma] else []) sc0" "scans d sc0 (t # ts) sc'"
    using s by (auto simp: scans_append)
  obtain sc1 p where n: "sol_json_scanner_next d sc0 = Some (Scanned, sc1, token_at p t)" "take (length t) (drop p d) = t"
    "t \<noteq> []" "scans d sc1 ts sc'" using s0(2) by (rule scans_ConsE) blast
  note ty = token_at_type [OF n(2,3)]
  have "sol_json_loop_iterate_generic d sc token end_type SOL_JSON_LOOP_REASON_OK = Some (True, SOL_JSON_LOOP_REASON_OK, sc1, token_at p t)"
  proof (cases lead)
    case True
    then obtain q where q: "sol_json_scanner_next d sc = Some (Scanned, sc0, token_at q comma)" "take (length comma) (drop q d) = comma"
      using s0(1) by (auto elim!: scans_ConsE scans_NilE)
    have "sol_json_token_get_type d (token_at q comma) = Some SOL_JSON_TYPE_ELEMENT_SEP"
      using token_at_type [OF q(2)] by (simp add: byte_type_def)
    then show ?thesis using t(3) by (simp add: sol_json_loop_iterate_generic_def q(1) n(1))
  next
    case False
    then have "sc0 = sc" using s0(1) by (auto elim: scans_NilE)
    then show ?thesis using t ty n(1) by (simp add: sol_json_loop_iterate_generic_def)
  qed
  with n s0 that show thesis by blast
qed

lemma iterate_doc_end:
  assumes "scans d sc [t] sc'" and "byte_type (hd t) = end_type"
  obtains p where "sol_json_loop_iterate_generic d sc token end_type SOL_JSON_LOOP_REASON_OK =
    Some (False, SOL_JSON_LOOP_REASON_OK, sc', token_at p t)"
proof -
  obtain p where n: "sol_json_scanner_next d sc = Some (Scanned, sc', token_at p t)" "take (length t) (drop p d) = t" "t \<noteq> []"
    using assms(1) by (auto elim!: scans_ConsE scans_NilE)
  then show thesis using that [of p] token_at_type [OF n(2,3)] assms(2) by (simp add: sol_json_loop_iterate_generic_def)
qed

definition items :: "bool \<Rightarrow> byte list list list \<Rightarrow> byte list list" where
  "items lead xss = (if lead then concat (map ((#) comma) xss) else separate xss)"

lemma items_simps:
  "items lead [] = []" "items lead (xs # xss) = (if lead then [comma] else []) @ xs @ items True xss"
  by (simp_all add: items_def separate_def)

definition member_tokens :: "byte list \<times> json \<Rightarrow> byte list list" where
  "member_tokens m = (case m of (k, v) \<Rightarrow> k # [ascii CHR '':''] # tokens v)"

definition key_of :: "byte list \<Rightarrow> byte list" where
  "key_of name = quote # name @ [quote]"

lemma str_eq_doc:
  assumes "string_lexeme k" and "take (length k) (drop p d) = k" and "k \<noteq> []"
  shows "sol_json_token_str_eq d (token_at p k) name = Some (k = key_of name)"
proof -
  obtain b where k: "k = quote # b @ [quote]" using assms(1) by (auto simp: string_lexeme_def)
  note b = byte_at [OF assms(2,3)]
  have ty: "sol_json_token_get_type d (token_at p k) = Some SOL_JSON_TYPE_STRING"
    using token_at_type [OF assms(2,3)] atom_type(2) assms(1) by auto
  have dr: "drop p d = k @ drop (p + length k) d" using assms(2) append_take_drop_id [of "length k" "drop p d"] by (simp add: add.commute)
  have "drop (p + 1) d = b @ [quote] @ drop (p + length k) d" using mem_get_drop [of p d quote] dr k by auto
  then have "mem_read (p + 1) (length b) d = Some b" using b(1) k by (simp add: mem_read_Some)
  then show ?thesis using ty k by (auto simp: sol_json_token_str_eq_def sol_json_token_get_size_def token_at_def key_of_def)
qed

lemma by_key_loop_doc:
  assumes "list_all (\<lambda>(k, v). string_lexeme k \<and> wf_json v) ms"
    and "scans d sc (items lead (map member_tokens ms) @ [[ascii CHR ''}'']]) sc'"
  shows "case find (\<lambda>(k, v). k = key_of name) ms of
      None \<Rightarrow> \<exists>val'. by_key_loop d name sc token key val SOL_JSON_LOOP_REASON_OK = Some (Inl ENOENT, sc', val')
    | Some (k, v) \<Rightarrow> \<exists>sc1 val'. by_key_loop d name sc token key val SOL_JSON_LOOP_REASON_OK = Some (Inr (), sc1, val') \<and> value_at d sc1 v val'"
  using assms
proof (induction ms arbitrary: lead sc token key val)
  case Nil
  then obtain p where "sol_json_loop_iterate_generic d sc token SOL_JSON_TYPE_OBJECT_END SOL_JSON_LOOP_REASON_OK =
      Some (False, SOL_JSON_LOOP_REASON_OK, sc', token_at p [ascii CHR ''}''])"
    by (auto simp: items_simps byte_type_def elim!: iterate_doc_end [where end_type = SOL_JSON_TYPE_OBJECT_END])
  then show ?case by (subst by_key_loop.simps) (simp add: sol_json_loop_iterate_object_def)
next
  case (Cons m ms)
  obtain k v where m: "m = (k, v)" by fastforce
  have kv: "string_lexeme k" "wf_json v" "byte_type (hd k) = SOL_JSON_TYPE_STRING" using Cons.prems(1) m atom_type(2) by auto
  let ?rest = "items True (map member_tokens ms) @ [[ascii CHR ''}'']]"
  have "scans d sc ((if lead then [comma] else []) @ k # ([ascii CHR '':''] # tokens v) @ ?rest) sc'"
    using Cons.prems(2) m by (simp add: items_simps member_tokens_def [of "(k, v)"])
  then obtain sc1 p where g: "sol_json_loop_iterate_generic d sc token SOL_JSON_TYPE_OBJECT_END SOL_JSON_LOOP_REASON_OK =
      Some (True, SOL_JSON_LOOP_REASON_OK, sc1, token_at p k)" "take (length k) (drop p d) = k" "k \<noteq> []"
    "scans d sc1 (([ascii CHR '':''] # tokens v) @ ?rest) sc'"
    by (rule iterate_doc_next [where end_type = SOL_JSON_TYPE_OBJECT_END and token = token]) (use kv(3) in auto)
  obtain sc2 where s2: "scans d sc1 ([ascii CHR '':''] # tokens v) sc2" "scans d sc2 ?rest sc'"
    using g(4) unfolding scans_append by blast
  obtain val1 where dp: "sol_json_scanner_get_dict_pair d sc1 (token_at p k) val = Some (Scanned, sc2, val1)" "value_at d sc2 v val1"
    by (rule dict_pair_doc [OF kv(2,1) s2(1) g(2,3)])
  have it: "sol_json_loop_iterate_object d sc token key val SOL_JSON_LOOP_REASON_OK =
      Some (True, SOL_JSON_LOOP_REASON_OK, sc2, token_at p k, token_at p k, val1)"
    by (simp add: sol_json_loop_iterate_object_def g(1) dp(1))
  have step: "by_key_loop d name sc token key val SOL_JSON_LOOP_REASON_OK =
      (if k = key_of name then Some (Inr (), sc2, val1)
       else by_key_loop d name sc2 (token_at p k) (token_at p k) val1 SOL_JSON_LOOP_REASON_OK)"
    by (subst by_key_loop.simps) (simp add: it str_eq_doc [OF kv(1) g(2,3)])
  show ?case
  proof (cases "k = key_of name")
    case True
    then show ?thesis using step m dp(2) by auto
  next
    case False
    then show ?thesis using Cons.IH [OF _ s2(2), of "token_at p k" "token_at p k" val1] Cons.prems(1) m unfolding step by simp
  qed
qed

lemma first_token_type:
  assumes "wf_json j"
  shows "byte_type (hd (hd (tokens j))) \<notin> {SOL_JSON_TYPE_ARRAY_END, SOL_JSON_TYPE_ELEMENT_SEP, SOL_JSON_TYPE_OBJECT_END}"
proof (cases j)
  case (Atom t)
  then show ?thesis using assms atom_type(1) [of t] by auto
qed (simp_all add: byte_type_def)

lemma at_index_loop_doc:
  assumes "list_all wf_json js" and "scans d sc (items lead (map tokens js) @ [[ascii CHR '']'']]) sc'"
    and "k \<le> i" and "i \<le> UINT16_MAX"
  shows "if i - k < length js
      then \<exists>sc1 p sc2. at_index_loop d i k sc val SOL_JSON_LOOP_REASON_OK = Some (Inr (), sc1, token_at p (hd (tokens (js ! (i - k))))) \<and>
        stands d p (js ! (i - k)) sc2 \<and> sc_mem_end sc2 = sc_mem_end sc1 \<and> sc_mem sc2 = sc_mem sc1
      else \<exists>val'. at_index_loop d i k sc val SOL_JSON_LOOP_REASON_OK = Some (Inl ENOENT, sc', val')"
  using assms
proof (induction js arbitrary: lead sc k val)
  case Nil
  then obtain p where "sol_json_loop_iterate_generic d sc val SOL_JSON_TYPE_ARRAY_END SOL_JSON_LOOP_REASON_OK =
      Some (False, SOL_JSON_LOOP_REASON_OK, sc', token_at p [ascii CHR '']''])"
    by (auto simp: items_simps byte_type_def elim!: iterate_doc_end [where end_type = SOL_JSON_TYPE_ARRAY_END])
  then show ?case by (subst at_index_loop.simps) simp
next
  case (Cons j js)
  let ?rest = "items True (map tokens js) @ [[ascii CHR '']'']]"
  obtain t ts where t: "tokens j = t # ts" by (cases j) auto
  have j: "wf_json j" "byte_type (hd t) \<noteq> SOL_JSON_TYPE_ARRAY_END" "byte_type (hd t) \<noteq> SOL_JSON_TYPE_ELEMENT_SEP"
    using Cons.prems(1) first_token_type [of j] t by auto
  have "scans d sc ((if lead then [comma] else []) @ t # ts @ ?rest) sc'"
    using Cons.prems(2) t by (simp add: items_simps)
  then obtain sc0 sc1 p where g: "sol_json_loop_iterate_generic d sc val SOL_JSON_TYPE_ARRAY_END SOL_JSON_LOOP_REASON_OK =
      Some (True, SOL_JSON_LOOP_REASON_OK, sc1, token_at p t)" "scans d sc0 (t # ts @ ?rest) sc'"
    "sol_json_scanner_next d sc0 = Some (Scanned, sc1, token_at p t)" "take (length t) (drop p d) = t" "t \<noteq> []"
    by (rule iterate_doc_next [where end_type = SOL_JSON_TYPE_ARRAY_END and token = val]) (use j in auto)
  obtain sc2 where s2: "scans d sc0 (t # ts) sc2" "scans d sc2 ?rest sc'"
    using g(2) scans_append [of d sc0 "t # ts" ?rest sc'] by auto
  obtain token' where sk: "sol_json_scanner_skip d sc1 (token_at p t) = Some (Scanned, sc2, token')"
    using skip_value [OF j(1), of d sc0 sc2] s2(1) g(3) t by (metis Pair_inject list.sel(1) option.inject)
  show ?case
  proof (cases "i = k")
    case True
    have "at_index_loop d i k sc val SOL_JSON_LOOP_REASON_OK = Some (Inr (), sc1, token_at p t)"
      using True by (subst at_index_loop.simps) (simp add: g(1))
    moreover have "stands d p j sc2"
      using scans_restart [OF s2(1) g(3)] byte_at(2) [OF g(4,5)] t by (simp add: stands_def)
    moreover have "sc_mem_end sc2 = sc_mem_end sc1" "sc_mem sc2 = sc_mem sc1"
      using scans_mem [OF s2(1)] next_scanned(3,4) [OF g(3)] by auto
    ultimately show ?thesis using True t by auto
  next
    case False
    then have k: "k + 1 \<le> i" "(k + 1) mod (UINT16_MAX + 1) = k + 1" "i - k = Suc (i - (k + 1))" using Cons.prems(3,4) by auto
    have step: "at_index_loop d i k sc val SOL_JSON_LOOP_REASON_OK = at_index_loop d i (k + 1) sc2 token' SOL_JSON_LOOP_REASON_OK"
      using False k(2) by (subst at_index_loop.simps) (simp add: g(1) sk)
    show ?thesis
      using Cons.IH [OF _ s2(2) k(1) Cons.prems(4), of token'] Cons.prems(1) unfolding step k(3)
      by (cases "i - (k + 1) < length js") simp_all
  qed
qed

subsection \<open>Documents as text\<close>

text \<open>A value is written with any white space between its tokens, but none in front of it.\<close>

definition spacing :: "byte list list \<Rightarrow> json \<Rightarrow> bool" where
  "spacing ws j \<longleftrightarrow> length ws = length (tokens j) \<and> hd ws = [] \<and> list_all (list_all isspace) ws"

definition document :: "byte list list \<Rightarrow> json \<Rightarrow> byte list" where
  "document ws j = layout (zip ws (tokens j))"

definition apart :: "byte list \<Rightarrow> byte list \<Rightarrow> bool" where
  "apart t t' \<longleftrightarrow> (number_lexeme t \<longrightarrow> \<not> number_char (hd t'))"

lemma tokens_Cons: "\<exists>t ts. tokens j = t # ts" and tokens_not_Nil: "tokens j \<noteq> []"
  by (cases j, auto)+

lemma not_number_lexeme: "byte_type c \<noteq> SOL_JSON_TYPE_NUMBER \<Longrightarrow> \<not> number_lexeme (c # cs)"
  by (auto simp: number_lexeme_def)

lemma apart_single:
  "apart [ascii CHR '',''] t" "apart [ascii CHR '':''] t" "apart [ascii CHR ''[''] t" "apart [ascii CHR ''{''] t"
  "apart t [ascii CHR '','']" "apart t [ascii CHR '']'']" "apart t [ascii CHR ''}'']" "apart t [ascii CHR '':'']"
  by (auto simp: apart_def not_number_lexeme byte_type_def number_char_def isdigit_def)

lemmas apart_simps [simp] = apart_single [simplified]

lemma apart_string: "string_lexeme k \<Longrightarrow> apart k t"
  by (auto simp: apart_def string_lexeme_def not_number_lexeme byte_type_def)

lemma successively_separate:
  assumes "list_all (\<lambda>xs. xs \<noteq> [] \<and> successively apart xs) xss"
  shows "successively apart (separate xss)"
proof -
  have tail: "successively apart (concat (map ((#) comma) xss))"
    if "list_all (\<lambda>xs. xs \<noteq> [] \<and> successively apart xs) xss" for xss
    using that
  proof (induction xss)
    case (Cons xs xss)
    then show ?case
      by (cases xss; cases xs) (auto simp: successively_append_iff successively_Cons hd_append)
  qed simp
  show ?thesis
  proof (cases xss)
    case (Cons xs yss)
    then show ?thesis
      using assms tail [of yss] by (cases yss) (auto simp: separate_def successively_append_iff)
  qed (simp add: separate_def)
qed

lemma successively_bracket:
  assumes "successively apart ts" and "\<And>t. apart a t" and "\<And>t. apart t b"
  shows "successively apart (a # ts @ [b])"
  using assms by (cases ts) (auto simp: successively_append_iff successively_Cons hd_append)

lemma tokens_apart: "wf_json j \<Longrightarrow> successively apart (tokens j)"
proof (induction j rule: tokens.induct)
  case (2 js)
  have "successively apart (separate (map tokens js))"
    by (rule successively_separate) (use 2 tokens_not_Nil in \<open>auto simp: list_all_iff\<close>)
  then show ?case by (auto intro: successively_bracket)
next
  case (3 ms)
  have "successively apart (separate (map (\<lambda>(k, v). k # [ascii CHR '':''] # tokens v) ms))"
  proof (rule successively_separate, unfold list_all_iff, rule ballI)
    fix ts
    assume "ts \<in> set (map (\<lambda>(k, v). k # [ascii CHR '':''] # tokens v) ms)"
    then obtain k v where kv: "(k, v) \<in> set ms" "ts = k # [ascii CHR '':''] # tokens v" by auto
    then have "successively apart (tokens v)" using 3 by (auto simp: list_all_iff)
    then show "ts \<noteq> [] \<and> successively apart ts" unfolding kv(2) by (auto simp: successively_Cons)
  qed
  then show ?case by (auto intro: successively_bracket)
qed simp

lemma lexeme_single:
  "lexeme [ascii CHR ''{'']" "lexeme [ascii CHR ''}'']" "lexeme [ascii CHR ''['']" "lexeme [ascii CHR '']'']"
  "lexeme comma" "lexeme [ascii CHR '':'']"
  by (simp_all add: lexeme_def single_lexemes_def)

lemmas lexeme_simps [simp] = lexeme_single [simplified]

lemma tokens_lexemes: "wf_json j \<Longrightarrow> list_all lexeme (tokens j)"
proof (induction j rule: tokens.induct)
  case (1 t)
  then show ?case by (auto simp: lexeme_def)
next
  case (2 js)
  have "list_all lexeme (separate (map tokens js))" using 2 by (cases js) (auto simp: separate_def list_all_iff)
  then show ?case by simp
next
  case (3 ms)
  have "list_all lexeme (separate (map (\<lambda>(k, v). k # [ascii CHR '':''] # tokens v) ms))"
  proof -
    have key: "string_lexeme k \<Longrightarrow> lexeme k" for k by (simp add: lexeme_def)
    have "lexeme t" if "(k, v) \<in> set ms" "t \<in> set (k # [ascii CHR '':''] # tokens v)" for k v t
      using 3 that key by (auto simp: list_all_iff)
    then show ?thesis by (cases ms) (fastforce simp: separate_def list_all_iff)+
  qed
  then show ?case by simp
qed

lemma space_not_number: "isspace c \<Longrightarrow> \<not> number_char c"
  using order_trans [of 48 c 13] order_trans [of 45 c 13] order_trans [of 46 c 13]
  by (auto simp: isspace_def number_char_def isdigit_def)

lemma separated_zip:
  "successively apart ts \<Longrightarrow> length ws = length ts \<Longrightarrow> list_all (list_all isspace) ws \<Longrightarrow> separated (zip ws ts)"
proof (induction ts arbitrary: ws)
  case (Cons t ts)
  show ?case
  proof (cases ts)
    case Nil
    then show ?thesis using Cons.prems(2) by (cases ws) auto
  next
    case (Cons t' ts')
    then obtain w w' ws' where ws: "ws = w # w' # ws'" using Cons.prems(2) by (cases ws; cases "tl ws") auto
    have "separated (zip (w' # ws') (t' # ts'))" using Cons.IH [of "w' # ws'"] Cons.prems Cons ws by (simp add: successively_Cons)
    moreover have "number_lexeme t \<longrightarrow> \<not> number_char (hd (w' @ t'))"
      using Cons.prems(1,3) Cons ws space_not_number by (cases w') (auto simp: successively_Cons apart_def)
    ultimately show ?thesis using Cons ws by simp
  qed
qed simp

lemma scans_document:
  assumes "wf_json j" and "spacing ws j" and "drop (sc_current sc) d = document ws j @ r"
    and "sc_current sc + length (document ws j) \<le> sc_mem_end sc" and "\<forall>t. j \<noteq> Atom t"
  shows "scans d sc (tokens j) (sc\<lparr>sc_current := sc_current sc + length (document ws j)\<rparr>)"
proof -
  have l: "length ws = length (tokens j)" "list_all (list_all isspace) ws" using assms(2) by (auto simp: spacing_def)
  have "\<not> number_lexeme (last (tokens j))"
    using assms(5) by (cases j) (auto simp: not_number_lexeme byte_type_def)
  then have "\<not> number_lexeme (snd (last (zip ws (tokens j))))"
    using l(1) tokens_Cons [of j] by (subst last_zip) auto
  moreover have "list_all (\<lambda>(w, t). list_all isspace w \<and> lexeme t) (zip ws (tokens j))"
    using l tokens_lexemes [OF assms(1)] by (auto simp: list_all_iff dest: set_zip_leftD set_zip_rightD)
  ultimately have "scans d sc (map snd (zip ws (tokens j))) (sc\<lparr>sc_current := sc_current sc + length (document ws j)\<rparr>)"
    unfolding document_def using assms(3,4) separated_zip [OF tokens_apart [OF assms(1)] l]
    by (intro scans_layout) (auto simp: document_def)
  then show ?thesis using l(1) by simp
qed

lemma init_doc:
  assumes "scans d sc ([c] # ts) sc'" and "byte_type c = t"
  obtains sc1 token where "sol_json_loop_iterate_init d sc t = Some (SOL_JSON_LOOP_REASON_OK, sc1, token)" "scans d sc1 ts sc'"
proof -
  obtain sc1 p where n: "sol_json_scanner_next d sc = Some (Scanned, sc1, token_at p [c])" "take (length [c]) (drop p d) = [c]"
    "scans d sc1 ts sc'" using assms(1) by (rule scans_ConsE) blast
  have "sol_json_token_get_type d (token_at p [c]) = Some t" using token_at_type [OF n(2)] assms(2) by simp
  then show thesis using that [of sc1 "token_at p [c]"] n by (simp add: sol_json_loop_iterate_init_def)
qed

lemma by_key_doc:
  assumes "wf_json (Object ms)" and "scans d sc (tokens (Object ms)) sc'" and "mem_get (sc_current sc) d = Some (ascii CHR ''{'')"
  shows "case find (\<lambda>(k, v). k = key_of name) ms of
      None \<Rightarrow> \<exists>val'. sol_json_object_get_value_by_key d sc name val = Some (Inl ENOENT, sc', val')
    | Some (k, v) \<Rightarrow> \<exists>sc1 val'. sol_json_object_get_value_by_key d sc name val = Some (Inr (), sc1, val') \<and> value_at d sc1 v val'"
proof -
  have s: "scans d sc ([ascii CHR ''{''] # items False (map member_tokens ms) @ [[ascii CHR ''}'']]) sc'"
    using assms(2) by (simp add: items_def member_tokens_def [abs_def])
  obtain sc1 token where i: "sol_json_loop_iterate_init d sc SOL_JSON_TYPE_OBJECT_START = Some (SOL_JSON_LOOP_REASON_OK, sc1, token)"
    "scans d sc1 (items False (map member_tokens ms) @ [[ascii CHR ''}'']]) sc'"
    by (rule init_doc [OF s]) (simp_all add: byte_type_def)
  have "sol_json_mem_get_type d (sc_current sc) = Some SOL_JSON_TYPE_OBJECT_START"
    using assms(3) by (simp add: sol_json_mem_get_type_def byte_type_def)
  then have eq: "sol_json_object_get_value_by_key d sc name val = by_key_loop d name sc1 token no_token val SOL_JSON_LOOP_REASON_OK"
    by (simp add: sol_json_object_get_value_by_key_def i(1))
  show ?thesis unfolding eq by (rule by_key_loop_doc [OF _ i(2)]) (use assms(1) in simp)
qed

lemma at_index_doc:
  assumes "wf_json (Array js)" and "scans d sc (tokens (Array js)) sc'" and "mem_get (sc_current sc) d = Some (ascii CHR ''['')"
    and "i \<le> UINT16_MAX"
  shows "if i < length js
      then \<exists>sc1 p sc2. sol_json_array_get_at_index d sc i val = Some (Inr (), sc1, token_at p (hd (tokens (js ! i)))) \<and>
        stands d p (js ! i) sc2 \<and> sc_mem_end sc2 = sc_mem_end sc1 \<and> sc_mem sc2 = sc_mem sc1
      else \<exists>val'. sol_json_array_get_at_index d sc i val = Some (Inl ENOENT, sc', val')"
proof -
  have s: "scans d sc ([ascii CHR ''[''] # items False (map tokens js) @ [[ascii CHR '']'']]) sc'"
    using assms(2) by (simp add: items_def)
  obtain sc1 token where i: "sol_json_loop_iterate_init d sc SOL_JSON_TYPE_ARRAY_START = Some (SOL_JSON_LOOP_REASON_OK, sc1, token)"
    "scans d sc1 (items False (map tokens js) @ [[ascii CHR '']'']]) sc'"
    by (rule init_doc [OF s]) (simp_all add: byte_type_def)
  have "sol_json_mem_get_type d (sc_current sc) = Some SOL_JSON_TYPE_ARRAY_START"
    using assms(3) by (simp add: sol_json_mem_get_type_def byte_type_def)
  then have eq: "sol_json_array_get_at_index d sc i val = at_index_loop d i 0 sc1 token SOL_JSON_LOOP_REASON_OK"
    by (simp add: sol_json_array_get_at_index_def i(1))
  show ?thesis
    using at_index_loop_doc [OF _ i(2) _ assms(4), of 0 token] assms(1) unfolding eq by (cases "i < length js") simp_all
qed

lemma document_hd:
  assumes "spacing ws j" and "drop p d = document ws j @ r" and "tokens j = [c] # ts"
  shows "mem_get p d = Some c"
proof -
  obtain ws' where "ws = [] # ws'" using assms(1,3) by (cases ws) (auto simp: spacing_def)
  then show ?thesis using assms(2,3) mem_get_drop [of p d c] by (simp add: document_def layout_def)
qed

lemma lookup_doc:
  assumes "wf_json j" and "spacing ws j" and "drop (sc_current sc) d = document ws j @ r"
    and "sc_current sc + length (document ws j) \<le> sc_mem_end sc"
  shows "j = Object ms \<Longrightarrow> (case find (\<lambda>(k, v). k = key_of name) ms of
      None \<Rightarrow> \<exists>sc' val'. sol_json_object_get_value_by_key d sc name val = Some (Inl ENOENT, sc', val')
    | Some (k, v) \<Rightarrow> \<exists>sc' val' s. sol_json_object_get_value_by_key d sc name val = Some (Inr (), sc', val') \<and>
        tk_start val' = Some s \<and> tk_end val' = Some (sc_current sc') \<and> scans d (sc'\<lparr>sc_current := s\<rparr>) (tokens v) sc')"
    and "j = Array js \<Longrightarrow> i \<le> UINT16_MAX \<Longrightarrow> (if i < length js
      then \<exists>sc' val' s sc''. sol_json_array_get_at_index d sc i val = Some (Inr (), sc', val') \<and>
        tk_start val' = Some s \<and> scans d (sc''\<lparr>sc_current := s\<rparr>) (tokens (js ! i)) sc'' \<and> sc_mem_end sc'' = sc_mem_end sc'
      else \<exists>sc' val'. sol_json_array_get_at_index d sc i val = Some (Inl ENOENT, sc', val'))"
proof -
  note scan = scans_document [OF assms]
  show "case find (\<lambda>(k, v). k = key_of name) ms of
      None \<Rightarrow> \<exists>sc' val'. sol_json_object_get_value_by_key d sc name val = Some (Inl ENOENT, sc', val')
    | Some (k, v) \<Rightarrow> \<exists>sc' val' s. sol_json_object_get_value_by_key d sc name val = Some (Inr (), sc', val') \<and>
        tk_start val' = Some s \<and> tk_end val' = Some (sc_current sc') \<and> scans d (sc'\<lparr>sc_current := s\<rparr>) (tokens v) sc'"
    if j: "j = Object ms"
  proof -
    have c: "mem_get (sc_current sc) d = Some (ascii CHR ''{'')"
      by (rule document_hd [OF assms(2,3)]) (simp add: j)
    have no_atom: "\<forall>t. j \<noteq> Atom t" using j by simp
    note scan' = scan [OF no_atom, unfolded j]
    show ?thesis
      using by_key_doc [OF assms(1) [unfolded j] scan' c, of name val]
      by (cases "find (\<lambda>(k, v). k = key_of name) ms") (auto simp: value_at_def stands_def)
  qed
  show "if i < length js
      then \<exists>sc' val' s sc''. sol_json_array_get_at_index d sc i val = Some (Inr (), sc', val') \<and>
        tk_start val' = Some s \<and> scans d (sc''\<lparr>sc_current := s\<rparr>) (tokens (js ! i)) sc'' \<and> sc_mem_end sc'' = sc_mem_end sc'
      else \<exists>sc' val'. sol_json_array_get_at_index d sc i val = Some (Inl ENOENT, sc', val')"
    if j: "j = Array js" and i: "i \<le> UINT16_MAX"
  proof -
    have c: "mem_get (sc_current sc) d = Some (ascii CHR ''['')"
      by (rule document_hd [OF assms(2,3)]) (simp add: j)
    have no_atom: "\<forall>t. j \<noteq> Atom t" using j by simp
    note scan' = scan [OF no_atom, unfolded j]
    show ?thesis
      using at_index_doc [OF assms(1) [unfolded j] scan' c i, of val]
      by (cases "i < length js") (auto simp: token_at_def stands_def)
  qed
qed

text \<open>
  C33. On a well-formed document the lookups do what they say, whatever white space is between the
  tokens. Looking up a member of an object yields the value of the first member with that key, and the
  returned token spans exactly that value; a key that no member has is reported as \<^verbatim>\<open>-ENOENT\<close>.
  Looking up an element of an array yields the token at which that element starts, and an index
  behind the last element is reported as \<^verbatim>\<open>-ENOENT\<close>. A value is told by its tokens: scanning from
  its start yields exactly them.\<close>

theorem json_lookup:
  assumes "wf_json j" and "spacing ws j" and "drop (sc_current sc) d = document ws j @ r"
    and "sc_current sc + length (document ws j) \<le> sc_mem_end sc"
  shows "(j = Object ms \<longrightarrow> (case find (\<lambda>(k, v). k = key_of name) ms of
      None \<Rightarrow> \<exists>sc' val'. sol_json_object_get_value_by_key d sc name val = Some (Inl ENOENT, sc', val')
    | Some (k, v) \<Rightarrow> \<exists>sc' val' s. sol_json_object_get_value_by_key d sc name val = Some (Inr (), sc', val') \<and>
        tk_start val' = Some s \<and> tk_end val' = Some (sc_current sc') \<and> scans d (sc'\<lparr>sc_current := s\<rparr>) (tokens v) sc')) \<and>
    (j = Array js \<longrightarrow> i \<le> UINT16_MAX \<longrightarrow> (if i < length js
      then \<exists>sc' val' s sc''. sol_json_array_get_at_index d sc i val = Some (Inr (), sc', val') \<and>
        tk_start val' = Some s \<and> scans d (sc''\<lparr>sc_current := s\<rparr>) (tokens (js ! i)) sc'' \<and> sc_mem_end sc'' = sc_mem_end sc'
      else \<exists>sc' val'. sol_json_array_get_at_index d sc i val = Some (Inl ENOENT, sc', val')))"
  by (intro conjI impI lookup_doc [OF assms])

text \<open>The document \<^verbatim>\<open>{"a": [7]}\<close> and the key \<^verbatim>\<open>a\<close>.\<close>

theorem json_lookup_witness:
  "\<exists>sc' val' s. sol_json_object_get_value_by_key [123, 34, 97, 34, 58, 32, 91, 55, 93, 125] (sol_json_scanner_init 0 10) [97] no_token =
      Some (Inr (), sc', val') \<and> tk_start val' = Some s \<and> tk_end val' = Some (sc_current sc') \<and>
    scans [123, 34, 97, 34, 58, 32, 91, 55, 93, 125] (sc'\<lparr>sc_current := s\<rparr>) [[91], [55], [93]] sc'"
proof -
  let ?d = "[123, 34, 97, 34, 58, 32, 91, 55, 93, 125] :: byte list"
  let ?ms = "[([34, 97, 34], Array [Atom [55]])]" and ?ws = "[[], [], [], [32], [], [], []]"
  have wf: "wf_json (Object ?ms)" by (simp add: string_lexeme_def number_lexeme_def byte_type_def exponent_def isdigit_def)
  have sp: "spacing ?ws (Object ?ms)" by (simp add: spacing_def separate_def isspace_def)
  have doc: "document ?ws (Object ?ms) = ?d" by (simp add: document_def layout_def separate_def)
  show ?thesis
    using json_lookup [OF wf sp, of "sol_json_scanner_init 0 10" ?d "[]" ?ms "[97]" no_token] unfolding doc
    by (simp add: sol_json_scanner_init_def key_of_def separate_def)
qed

end
