(* ===== verification/Json_Number.thy ===== *)
theory Json_Number
  imports Json
begin

text \<open>
  Integers of JSON documents: \<^verbatim>\<open>sol_json_token_get_uint64\<close>, \<^verbatim>\<open>sol_json_token_get_int64\<close> and their
  32 bit variants. A result code comes with the value that is stored through the pointer, also
  when it is an error (\<open>best effort\<close>).
\<close>

section \<open>Reading an integer\<close>

definition digit_value :: "byte \<Rightarrow> nat" where
  "digit_value c = unat c - 48"

function uint64_loop :: "byte list \<Rightarrow> nat \<Rightarrow> nat \<Rightarrow> nat \<Rightarrow> ((errno + unit) \<times> nat) option" where
  "uint64_loop d e itr tmpvar =
     (if itr < e then do {
        c \<leftarrow> mem_get itr d;
        (if isdigit c then
           (case sol_util_uint64_mul tmpvar 10 of
              Inl _ \<Rightarrow> Some (Inl ERANGE, UINT64_MAX)
            | Inr tmpvar \<Rightarrow>
                (case sol_util_uint64_add tmpvar (digit_value c) of
                   Inl _ \<Rightarrow> Some (Inl ERANGE, UINT64_MAX)
                 | Inr tmpvar \<Rightarrow> uint64_loop d e (itr + 1) tmpvar))
         else Some (Inl EINVAL, tmpvar))
      } else Some (Inr (), tmpvar))"
  by pat_completeness auto
termination
  by (relation "measure (\<lambda>(d, e, itr, tmpvar). e - itr)") auto

declare uint64_loop.simps [simp del]

definition token_get_uint64 :: "byte list \<Rightarrow> nat \<Rightarrow> nat \<Rightarrow> ((errno + unit) \<times> nat) option" where
  "token_get_uint64 d s e = do {
     c \<leftarrow> mem_get s d;
     uint64_loop d e (if c = ascii CHR ''+'' then s + 1 else s) 0
   }"

definition INT64_MAX :: int where
  "INT64_MAX = 9223372036854775807"

definition INT64_MIN :: int where
  "INT64_MIN = -9223372036854775808"

definition INT32_MAX :: int where
  "INT32_MAX = 2147483647"

definition INT32_MIN :: int where
  "INT32_MIN = -2147483648"

text \<open>\<^verbatim>\<open>*value = sign * tmpvar\<close>: the product is taken in \<^verbatim>\<open>uint64_t\<close> and converted to \<^verbatim>\<open>int64_t\<close>.\<close>

definition signed_value :: "int \<Rightarrow> nat \<Rightarrow> int" where
  "signed_value sign tmpvar = sint (word_of_int (sign * int tmpvar) :: 64 word)"

definition token_get_int64 :: "byte list \<Rightarrow> nat \<Rightarrow> nat \<Rightarrow> ((errno + unit) \<times> int) option" where
  "token_get_int64 d s e = do {
     c \<leftarrow> mem_get s d;
     let (sign, s) = (if c = ascii CHR ''-'' then (-1, s + 1) else (1, s));
     (r, tmpvar) \<leftarrow> token_get_uint64 d s e;
     (case r of
        Inr _ \<Rightarrow>
          if sign > 0 \<and> int tmpvar > INT64_MAX then Some (Inl ERANGE, INT64_MAX)
          else if sign < 0 \<and> int tmpvar > INT64_MAX + 1 then Some (Inl ERANGE, INT64_MIN)
          else Some (Inr (), signed_value sign tmpvar)
      | Inl e \<Rightarrow>
          if e = ERANGE then Some (Inl e, if sign > 0 then INT64_MAX else INT64_MIN)
          else if sign > 0 \<and> int tmpvar > INT64_MAX then Some (Inl e, INT64_MAX)
          else if sign < 0 \<and> int tmpvar > INT64_MAX + 1 then Some (Inl e, INT64_MIN)
          else Some (Inl e, signed_value sign tmpvar))
   }"

text \<open>The checks of the token; a comparison of NULL with a pointer into the document is not defined.\<close>

definition number_token :: "byte list \<Rightarrow> sol_json_token \<Rightarrow> (nat \<times> nat) option option" where
  "number_token d token =
     (case (tk_start token, tk_end token) of
        (None, None) \<Rightarrow> Some None
      | (Some s, Some e) \<Rightarrow>
          if s \<ge> e then Some None
          else do {
            t \<leftarrow> sol_json_token_get_type d token;
            Some (if t \<noteq> SOL_JSON_TYPE_NUMBER then None else Some (s, e))
          }
      | _ \<Rightarrow> None)"

definition sol_json_token_get_uint64 :: "byte list \<Rightarrow> sol_json_token \<Rightarrow> ((errno + unit) \<times> nat) option" where
  "sol_json_token_get_uint64 d token = do {
     t \<leftarrow> number_token d token;
     (case t of None \<Rightarrow> Some (Inl EINVAL, 0)
      | Some (s, e) \<Rightarrow> do {
          c \<leftarrow> mem_get s d;
          (if c = ascii CHR ''-'' then Some (Inl ERANGE, 0) else token_get_uint64 d s e)
        })
   }"

definition sol_json_token_get_int64 :: "byte list \<Rightarrow> sol_json_token \<Rightarrow> ((errno + unit) \<times> int) option" where
  "sol_json_token_get_int64 d token = do {
     t \<leftarrow> number_token d token;
     (case t of None \<Rightarrow> Some (Inl EINVAL, 0)
      | Some (s, e) \<Rightarrow> token_get_int64 d s e)
   }"

definition sol_json_token_get_uint32 :: "byte list \<Rightarrow> sol_json_token \<Rightarrow> ((errno + unit) \<times> nat) option" where
  "sol_json_token_get_uint32 d token = do {
     (r, tmp) \<leftarrow> sol_json_token_get_uint64 d token;
     Some (if tmp > UINT32_MAX then (if r = Inr () then Inl ERANGE else r, UINT32_MAX) else (r, tmp))
   }"

definition sol_json_token_get_int32 :: "byte list \<Rightarrow> sol_json_token \<Rightarrow> ((errno + unit) \<times> int) option" where
  "sol_json_token_get_int32 d token = do {
     (r, tmp) \<leftarrow> sol_json_token_get_int64 d token;
     Some (if tmp > INT32_MAX then (if r = Inr () then Inl ERANGE else r, INT32_MAX)
           else if tmp < INT32_MIN then (if r = Inr () then Inl ERANGE else r, INT32_MIN)
           else (r, tmp))
   }"

section \<open>Exactness\<close>

definition decimal :: "byte list \<Rightarrow> nat" where
  "decimal ds = foldl (\<lambda>n c. 10 * n + digit_value c) 0 ds"

text \<open>What is returned for the number \<open>n\<close> when \<open>lo\<close> to \<open>hi\<close> can be stored.\<close>

definition saturated :: "int \<Rightarrow> int \<Rightarrow> int \<Rightarrow> (errno + unit) \<times> int" where
  "saturated lo hi n = (if n > hi then (Inl ERANGE, hi) else if n < lo then (Inl ERANGE, lo) else (Inr (), n))"

lemma uint64_loop_digits:
  "list_all isdigit ds \<Longrightarrow> drop itr d = ds @ r \<Longrightarrow> tmpvar \<le> UINT64_MAX \<Longrightarrow>
     uint64_loop d (itr + length ds) itr tmpvar =
       (let n = foldl (\<lambda>n c. 10 * n + digit_value c) tmpvar ds
        in Some (if n \<le> UINT64_MAX then (Inr (), n) else (Inl ERANGE, UINT64_MAX)))"
proof (induction ds arbitrary: itr tmpvar)
  case Nil
  then show ?case by (simp add: uint64_loop.simps)
next
  case (Cons c ds)
  let ?f = "\<lambda>n c. 10 * n + digit_value c"
  have m: "mem_get itr d = Some c" "drop (itr + 1) d = ds @ r" using mem_get_drop [of itr d c] Cons.prems(2) by auto
  have grow: "n \<le> foldl ?f n xs" for n xs by (induction xs rule: rev_induct) auto
  have mul: "sol_util_uint64_mul tmpvar 10 = exact_nat UINT64_MAX (tmpvar * 10)"
    unfolding sol_util_uint64_mul_def
    by (rule mul_check_nat) (use Cons.prems(3) in \<open>simp_all add: OVERFLOW_UINT64_def UINT64_MAX_def\<close>)
  have "unat c < 256" by (rule order.strict_trans2 [OF unsigned_less]) simp
  then have "digit_value c \<le> UINT64_MAX" by (simp add: digit_value_def UINT64_MAX_def)
  then have add: "k \<le> UINT64_MAX \<Longrightarrow> sol_util_uint64_add k (digit_value c) = exact_nat UINT64_MAX (k + digit_value c)" for k
    by (auto simp: sol_util_uint64_add_def exact_nat_def)
  show ?case
  proof (cases "?f tmpvar c \<le> UINT64_MAX")
    case True
    then have "uint64_loop d (itr + length (c # ds)) itr tmpvar = uint64_loop d (itr + 1 + length ds) (itr + 1) (?f tmpvar c)"
      using m Cons.prems(1) mul add [of "tmpvar * 10"] by (subst uint64_loop.simps) (simp add: exact_nat_def mult.commute)
    then show ?thesis using Cons.IH [OF _ m(2), of "?f tmpvar c"] Cons.prems(1) True by simp
  next
    case False
    then have "uint64_loop d (itr + length (c # ds)) itr tmpvar = Some (Inl ERANGE, UINT64_MAX)"
      using m Cons.prems(1) mul add [of "tmpvar * 10"] by (subst uint64_loop.simps) (simp add: exact_nat_def mult.commute)
    moreover have "\<not> foldl ?f tmpvar (c # ds) \<le> UINT64_MAX" using grow [of "?f tmpvar c" ds] False by auto
    ultimately show ?thesis by simp
  qed
qed

lemma signed_value_exact:
  "int n \<le> INT64_MAX \<Longrightarrow> signed_value 1 n = int n" "int n \<le> INT64_MAX + 1 \<Longrightarrow> signed_value (-1) n = - int n"
  unfolding signed_value_def sint_sbintrunc' by (simp_all add: INT64_MAX_def signed_take_bit_int_eq_self)

lemma token_get_uint64_digits:
  assumes "list_all isdigit ds" and "ds \<noteq> []" and "drop s d = ds @ r"
  shows "token_get_uint64 d s (s + length ds) =
    Some (if decimal ds \<le> UINT64_MAX then (Inr (), decimal ds) else (Inl ERANGE, UINT64_MAX))"
proof -
  obtain c cs where c: "ds = c # cs" using assms(2) by (cases ds) auto
  then have "mem_get s d = Some c" "c \<noteq> ascii CHR ''+''" using mem_get_drop [of s d c] assms by (auto simp: isdigit_def)
  then show ?thesis
    using uint64_loop_digits [OF assms(1,3), of 0] by (simp add: token_get_uint64_def decimal_def Let_def UINT64_MAX_def)
qed

lemma token_get_uint64_plus:
  assumes "list_all isdigit ds" and "drop s d = ascii CHR ''+'' # ds @ r"
  shows "token_get_uint64 d s (s + 1 + length ds) =
    Some (if decimal ds \<le> UINT64_MAX then (Inr (), decimal ds) else (Inl ERANGE, UINT64_MAX))"
  using mem_get_drop [OF assms(2)] uint64_loop_digits [OF assms(1), of "s + 1" d r 0]
  by (simp add: token_get_uint64_def decimal_def Let_def UINT64_MAX_def)

lemma token_get_int64_digits:
  assumes ds: "list_all isdigit ds" "ds \<noteq> []" and d: "drop s d = sg @ ds @ r"
    and sg: "sg \<in> {[], [ascii CHR ''-''], [ascii CHR ''+'']}"
  shows "token_get_int64 d s (s + length (sg @ ds)) =
    Some (saturated INT64_MIN INT64_MAX (if sg = [ascii CHR ''-''] then - int (decimal ds) else int (decimal ds)))"
proof -
  have big: "\<not> decimal ds \<le> UINT64_MAX \<Longrightarrow> INT64_MAX + 1 < int (decimal ds)" by (simp add: UINT64_MAX_def INT64_MAX_def)
  have small: "int (decimal ds) \<le> INT64_MAX + 1 \<Longrightarrow> decimal ds \<le> UINT64_MAX" by (simp add: UINT64_MAX_def INT64_MAX_def)
  have min: "INT64_MIN = - (INT64_MAX + 1)" "INT64_MAX > 0" by (simp_all add: INT64_MIN_def INT64_MAX_def)
  obtain c cs where c: "ds = c # cs" "isdigit c" using ds by (cases ds) auto
  have nd: "c \<noteq> ascii CHR ''-''" using c(2) by (auto simp: isdigit_def)
  consider "sg = []" | "sg = [ascii CHR ''-'']" | "sg = [ascii CHR ''+'']" using sg by blast
  then show ?thesis
  proof cases
    case 1
    have "mem_get s d = Some c" using mem_get_drop [of s d c] d 1 c by simp
    moreover have "token_get_uint64 d s (s + length ds) = Some (if decimal ds \<le> UINT64_MAX then (Inr (), decimal ds) else (Inl ERANGE, UINT64_MAX))"
      by (rule token_get_uint64_digits [OF ds]) (use d 1 in simp)
    ultimately show ?thesis using 1 nd big min signed_value_exact(1) [of "decimal ds"]
      by (auto simp: token_get_int64_def saturated_def)
  next
    case 2
    have m: "mem_get s d = Some (ascii CHR ''-'')" "drop (s + 1) d = ds @ r" using mem_get_drop [of s d] d 2 by auto
    have "token_get_uint64 d (s + 1) (s + 1 + length ds) = Some (if decimal ds \<le> UINT64_MAX then (Inr (), decimal ds) else (Inl ERANGE, UINT64_MAX))"
      by (rule token_get_uint64_digits [OF ds m(2)])
    then show ?thesis using 2 m(1) big small min signed_value_exact(2) [of "decimal ds"]
      by (auto simp: token_get_int64_def saturated_def)
  next
    case 3
    have "mem_get s d = Some (ascii CHR ''+'')" using mem_get_drop [of s d] d 3 by auto
    moreover have "token_get_uint64 d s (s + 1 + length ds) = Some (if decimal ds \<le> UINT64_MAX then (Inr (), decimal ds) else (Inl ERANGE, UINT64_MAX))"
      by (rule token_get_uint64_plus [OF ds(1)]) (use d 3 in simp)
    ultimately show ?thesis using 3 big min signed_value_exact(1) [of "decimal ds"]
      by (auto simp: token_get_int64_def saturated_def)
  qed
qed

lemma number_token_ok:
  assumes ds: "list_all isdigit ds" "ds \<noteq> []" and d: "drop s d = sg @ ds @ r"
    and sg: "sg \<in> {[], [ascii CHR ''-''], [ascii CHR ''+'']}"
  shows "number_token d \<lparr>tk_start = Some s, tk_end = Some (s + length (sg @ ds))\<rparr> = Some (Some (s, s + length (sg @ ds)))"
    and "mem_get s d = Some (hd (sg @ ds))"
proof -
  obtain c cs where c: "sg @ ds = c # cs" using ds(2) by (cases "sg @ ds") auto
  have m: "mem_get s d = Some c" using mem_get_drop [of s d c] d c by (metis append_assoc append_Cons)
  then show "mem_get s d = Some (hd (sg @ ds))" using c by simp
  have "byte_type c = SOL_JSON_TYPE_NUMBER"
    using c ds sg order_trans [of 123 c 57] order_trans [of 48 c 44] order_trans [of 58 c 57]
    by (cases ds) (auto simp: byte_type_def isdigit_def)
  then show "number_token d \<lparr>tk_start = Some s, tk_end = Some (s + length (sg @ ds))\<rparr> = Some (Some (s, s + length (sg @ ds)))"
    using m ds(2) by (simp add: number_token_def sol_json_token_get_type_def sol_json_mem_get_type_def)
qed

text \<open>
  C36. Integers are read exactly. For a number token of an optional sign and digits the four readers
  return the number it denotes when their type can hold it; otherwise they report \<^verbatim>\<open>-ERANGE\<close> and store
  the nearest value the type can hold. An unsigned reader refuses a minus sign.\<close>

theorem json_integer_exact:
  assumes "list_all isdigit ds" and "ds \<noteq> []" and "drop s d = sg @ ds @ r"
    and "sg \<in> {[], [ascii CHR ''-''], [ascii CHR ''+'']}"
    and "token = \<lparr>tk_start = Some s, tk_end = Some (s + length (sg @ ds))\<rparr>"
    and "n = (if sg = [ascii CHR ''-''] then - int (decimal ds) else int (decimal ds))"
  shows "sol_json_token_get_int64 d token = Some (saturated INT64_MIN INT64_MAX n) \<and>
    sol_json_token_get_int32 d token = Some (saturated INT32_MIN INT32_MAX n) \<and>
    sol_json_token_get_uint64 d token =
      Some (if sg = [ascii CHR ''-''] then (Inl ERANGE, 0)
            else if decimal ds \<le> UINT64_MAX then (Inr (), decimal ds) else (Inl ERANGE, UINT64_MAX)) \<and>
    sol_json_token_get_uint32 d token =
      Some (if sg = [ascii CHR ''-''] then (Inl ERANGE, 0)
            else if decimal ds \<le> UINT32_MAX then (Inr (), decimal ds) else (Inl ERANGE, UINT32_MAX))"
proof -
  note tok = number_token_ok [OF assms(1-4), folded assms(5)]
  have i64: "sol_json_token_get_int64 d token = Some (saturated INT64_MIN INT64_MAX n)"
    using tok(1) token_get_int64_digits [OF assms(1-4)] assms(6) by (simp add: sol_json_token_get_int64_def)
  moreover have "sol_json_token_get_int32 d token = Some (saturated INT32_MIN INT32_MAX n)"
    by (simp add: sol_json_token_get_int32_def i64 saturated_def INT64_MIN_def INT64_MAX_def INT32_MIN_def INT32_MAX_def)
  moreover have u64: "sol_json_token_get_uint64 d token =
      Some (if sg = [ascii CHR ''-''] then (Inl ERANGE, 0)
            else if decimal ds \<le> UINT64_MAX then (Inr (), decimal ds) else (Inl ERANGE, UINT64_MAX))"
  proof -
    have "isdigit (hd ds)" using assms(1,2) by (cases ds) auto
    then have hd: "hd ds \<noteq> ascii CHR ''-''" by (auto simp: isdigit_def)
    consider "sg = []" | "sg = [ascii CHR ''-'']" | "sg = [ascii CHR ''+'']" using assms(4) by blast
    then show ?thesis
    proof cases
      case 1
      then show ?thesis using tok hd token_get_uint64_digits [OF assms(1,2), of s d r] assms(3) by (simp add: sol_json_token_get_uint64_def)
    next
      case 2
      then show ?thesis using tok by (simp add: sol_json_token_get_uint64_def)
    next
      case 3
      then show ?thesis using tok token_get_uint64_plus [OF assms(1), of s d r] assms(3) by (simp add: sol_json_token_get_uint64_def)
    qed
  qed
  moreover have "sol_json_token_get_uint32 d token =
      Some (if sg = [ascii CHR ''-''] then (Inl ERANGE, 0)
            else if decimal ds \<le> UINT32_MAX then (Inr (), decimal ds) else (Inl ERANGE, UINT32_MAX))"
    by (simp add: sol_json_token_get_uint32_def u64 UINT32_MAX_def UINT64_MAX_def)
  ultimately show ?thesis by blast
qed

text \<open>The token \<^verbatim>\<open>-42\<close>.\<close>

theorem json_integer_exact_witness:
  "sol_json_token_get_int64 [45, 52, 50] \<lparr>tk_start = Some 0, tk_end = Some 3\<rparr> = Some (Inr (), - 42) \<and>
   sol_json_token_get_int32 [45, 52, 50] \<lparr>tk_start = Some 0, tk_end = Some 3\<rparr> = Some (Inr (), - 42) \<and>
   sol_json_token_get_uint64 [45, 52, 50] \<lparr>tk_start = Some 0, tk_end = Some 3\<rparr> = Some (Inl ERANGE, 0)"
  using json_integer_exact [of "[52, 50]" 0 "[45, 52, 50]" "[45]" "[]" "\<lparr>tk_start = Some 0, tk_end = Some 3\<rparr>" "- 42"]
  by (simp add: isdigit_def decimal_def digit_value_def saturated_def INT64_MAX_def INT64_MIN_def INT32_MAX_def INT32_MIN_def)

end
