(* ===== verification/Json_String.thy ===== *)
theory Json_String
  imports Json
begin

text \<open>
  Strings of JSON documents: escaping a C string into a buffer and reading a string token back
  (\<^verbatim>\<open>sol_json_escape_string\<close>, \<^verbatim>\<open>sol_json_serialize_string\<close> and
  \<^verbatim>\<open>sol_json_token_get_unescaped_string\<close> of \<^verbatim>\<open>sol-json.c\<close>).
\<close>

section \<open>Escaping\<close>

definition sol_json_escapable_chars :: "byte list" where
  "sol_json_escapable_chars = [backslash, quote, ascii CHR ''/'', 8, 12, 10, 13, 9]"

text \<open>
  A C string is the bytes from a pointer to the end of its block; reading past the block is \<open>None\<close>.
  The length cannot wrap around: a string has less than \<^verbatim>\<open>PTRDIFF_MAX\<close> bytes.
\<close>

fun escaped_len_loop :: "byte list \<Rightarrow> nat \<Rightarrow> nat option" where
  "escaped_len_loop [] len = None"
| "escaped_len_loop (c # str) len =
     (if c = 0 then Some (len + 1)
      else escaped_len_loop str (if c \<in> set sol_json_escapable_chars then len + 2 else len + 1))"

definition sol_json_calculate_escaped_string_len :: "byte list \<Rightarrow> nat option" where
  "sol_json_calculate_escaped_string_len str = escaped_len_loop str 0"

text \<open>The second byte of an escape; the switch of the code has no default.\<close>

definition escape_code :: "byte \<Rightarrow> byte list" where
  "escape_code c =
     (if c = quote then [quote]
      else if c = backslash then [backslash]
      else if c = ascii CHR ''/'' then [ascii CHR ''/'']
      else if c = 8 then [ascii CHR ''b'']
      else if c = 12 then [ascii CHR ''f'']
      else if c = 10 then [ascii CHR ''n'']
      else if c = 13 then [ascii CHR ''r'']
      else if c = 9 then [ascii CHR ''t'']
      else [])"

fun escape_loop :: "byte list \<Rightarrow> nat \<Rightarrow> nat \<Rightarrow> nat \<Rightarrow> sol_buffer \<Rightarrow> (nat \<times> sol_buffer) option" where
  "escape_loop [] i escaped_len out b = None"
| "escape_loop (c # str) i escaped_len out b =
     (if c \<noteq> 0 \<and> i < escaped_len then
        if c \<in> set sol_json_escapable_chars then do {
          b \<leftarrow> buf_write out [backslash] b;
          b \<leftarrow> buf_write (out + 1) (escape_code c) b;
          escape_loop str (i + 1) escaped_len (out + 1 + length (escape_code c)) b
        } else do {
          b \<leftarrow> buf_write out [c] b;
          escape_loop str (i + 1) escaped_len (out + 1) b
        }
      else Some (out, b))"

text \<open>The offset of the escaped string in the buffer, or NULL.\<close>

definition sol_json_escape_string :: "byte libc \<Rightarrow> byte list \<Rightarrow> sol_buffer \<Rightarrow> (nat option \<times> sol_buffer) option" where
  "sol_json_escape_string l str b = do {
     escaped_len \<leftarrow> sol_json_calculate_escaped_string_len str;
     (r, b) \<leftarrow> sol_buffer_expand l escaped_len b;
     (case r of Inl _ \<Rightarrow> Some (None, b)
      | Inr _ \<Rightarrow> do {
          let r_str = bused b;
          (out, b) \<leftarrow> escape_loop str 0 escaped_len r_str b;
          b \<leftarrow> buf_write out [0] b;
          Some (Some r_str, b\<lparr>bused := size_plus (bused b) (escaped_len - 1)\<rparr>)
        })
   }"

definition sol_json_serialize_string :: "byte libc \<Rightarrow> sol_buffer \<Rightarrow> byte list \<Rightarrow> buffer_result" where
  "sol_json_serialize_string l b str =
     on_ok (sol_buffer_append_char l quote b) (\<lambda>_ b. do {
       (p, b) \<leftarrow> sol_json_escape_string l str b;
       (case p of None \<Rightarrow> Some (Inl EINVAL, b)
        | Some _ \<Rightarrow> on_ok (sol_buffer_append_char l quote b) (\<lambda>_ b. Some (Inr (), b)))
     })"

definition sol_json_serialize_bool :: "byte libc \<Rightarrow> sol_buffer \<Rightarrow> bool \<Rightarrow> buffer_result" where
  "sol_json_serialize_bool l b val =
     on_ok (sol_buffer_append_slice l (if val then map ascii ''true'' else map ascii ''false'') b) (\<lambda>_ b. Some (Inr (), b))"

definition sol_json_serialize_null :: "byte libc \<Rightarrow> sol_buffer \<Rightarrow> buffer_result" where
  "sol_json_serialize_null l b = sol_buffer_append_slice l (map ascii ''null'') b"

section \<open>Unescaping\<close>

text \<open>What a simple escape stands for.\<close>

definition unescape_char :: "byte \<Rightarrow> byte option" where
  "unescape_char c =
     (if c = backslash then Some backslash
      else if c = ascii CHR ''/'' then Some (ascii CHR ''/'')
      else if c = quote then Some quote
      else if c = ascii CHR ''b'' then Some 8
      else if c = ascii CHR ''r'' then Some 13
      else if c = ascii CHR ''n'' then Some 10
      else if c = ascii CHR ''f'' then Some 12
      else if c = ascii CHR ''t'' then Some 9
      else None)"

definition MAX_BYTES_UNICODE :: nat where
  "MAX_BYTES_UNICODE = 3"

text \<open>How the loop ends: by a return, or with \<^verbatim>\<open>start\<close>, \<^verbatim>\<open>p\<close> and \<^verbatim>\<open>is_escaped\<close> at the end of the token.\<close>

datatype unescaped = Return "errno + unit" | Finished nat nat bool

definition unescape_return :: "errno + unit \<Rightarrow> sol_buffer \<Rightarrow> (unescaped \<times> sol_buffer) option" where
  "unescape_return r b = do { b \<leftarrow> sol_buffer_fini b; Some (Return r, b) }"

text \<open>
  The escape of a code point, at the letter \<^verbatim>\<open>u\<close>. \<open>Inl r\<close>: the function returns \<open>r\<close> after it has
  freed the buffer. The two digits are decoded into uninitialised bytes.
\<close>

definition unescape_unicode :: "byte libc \<Rightarrow> byte list \<Rightarrow> nat \<Rightarrow> sol_buffer \<Rightarrow> (((errno + unit) + unit) \<times> sol_buffer) option" where
  "unescape_unicode l d p b = do {
     hex1 \<leftarrow> mem_read (p + 1) 2 d;
     (r, n1) \<leftarrow> sol_util_base16_decode [0] 1 hex1 SOL_DECODE_BOTH;
     (if r \<noteq> Inr 1 then Some (Inl (map_sum (\<lambda>e. e) (\<lambda>_. ()) r), b)
      else do {
        hex2 \<leftarrow> mem_read (p + 3) 2 d;
        (r, n2) \<leftarrow> sol_util_base16_decode [0] 1 hex2 SOL_DECODE_BOTH;
        (if r \<noteq> Inr 1 then Some (Inl (map_sum (\<lambda>e. e) (\<lambda>_. ()) r), b)
         else if bused b > SIZE_MAX - MAX_BYTES_UNICODE then Some (Inl (Inl EOVERFLOW), b)
         else do {
           (r, b) \<leftarrow> sol_buffer_ensure l (bused b + MAX_BYTES_UNICODE) b;
           (case r of Inl e \<Rightarrow> Some (Inl (Inl e), b)
            | Inr _ \<Rightarrow>
                let code = push_bit 8 (ucast (n1 ! 0)) OR ucast (n2 ! 0) :: 32 word
                in case sol_util_utf8_from_unicode_code MAX_BYTES_UNICODE code of
                     Inl e \<Rightarrow> Some (Inl (Inl e), b)
                   | Inr bytes \<Rightarrow> do {
                       b \<leftarrow> buf_write (bused b) bytes b;
                       Some (Inr (), b\<lparr>bused := bused b + length bytes\<rparr>)
                     })
         })
      })
   }"

function unescape_loop :: "byte libc \<Rightarrow> byte list \<Rightarrow> nat \<Rightarrow> nat \<Rightarrow> nat \<Rightarrow> bool \<Rightarrow> sol_buffer \<Rightarrow> (unescaped \<times> sol_buffer) option" where
  "unescape_loop l d end1 start p is_escaped b =
     (if p < end1 then do {
        c \<leftarrow> mem_get p d;
        (if \<not> is_escaped \<and> c = backslash then do {
           bs \<leftarrow> mem_read start (p - start) d;
           (r, b) \<leftarrow> sol_buffer_append_slice l bs b;
           (case r of Inl e \<Rightarrow> unescape_return (Inl e) b
            | Inr _ \<Rightarrow> unescape_loop l d end1 start (p + 1) True b)
         }
         else if is_escaped then
           (case unescape_char c of
              Some new_char \<Rightarrow> do {
                (r, b) \<leftarrow> sol_buffer_append_char l new_char b;
                (case r of Inl e \<Rightarrow> unescape_return (Inl e) b
                 | Inr _ \<Rightarrow> unescape_loop l d end1 (p + 1) (p + 1) False b)
              }
            | None \<Rightarrow>
                if c = ascii CHR ''u'' \<and> p + 4 < end1 then do {
                  (r, b) \<leftarrow> unescape_unicode l d p b;
                  (case r of Inl r \<Rightarrow> unescape_return r b
                   | Inr _ \<Rightarrow> unescape_loop l d end1 (p + 5) (p + 5) False b)
                }
                else unescape_return (Inl EINVAL) b)
         else unescape_loop l d end1 start (p + 1) False b)
      } else Some (Finished start p is_escaped, b))"
  by pat_completeness auto
termination
  by (relation "measure (\<lambda>(l, d, end1, start, p, is_escaped, b). end1 - p)") auto

declare unescape_loop.simps [simp del]

text \<open>
  \<open>b\<close> is the caller's buffer, which is not initialised. A string without escapes is not copied: the
  buffer refers to the document.
\<close>

definition sol_json_token_get_unescaped_string :: "byte libc \<Rightarrow> byte list \<Rightarrow> sol_json_token \<Rightarrow> sol_buffer \<Rightarrow> buffer_result" where
  "sol_json_token_get_unescaped_string l d token b =
     (case (tk_start token, tk_end token) of
        (Some s, Some e) \<Rightarrow> do {
          b \<leftarrow> sol_buffer_init_flags None 0 SOL_BUFFER_FLAGS_NO_NUL_BYTE;
          c \<leftarrow> mem_get s d;
          valid \<leftarrow> (if c \<noteq> quote then Some False
                   else if e = 0 then None else do { c \<leftarrow> mem_get (e - 1) d; Some (c = quote) });
          (if \<not> valid then do { b \<leftarrow> sol_buffer_fini b; Some (Inl EINVAL, b) }
           else do {
             (u, b) \<leftarrow> unescape_loop l d (e - 1) (s + 1) (s + 1) False b;
             (case u of
                Return r \<Rightarrow> Some (r, b)
              | Finished start p is_escaped \<Rightarrow>
                  if is_escaped then do { b \<leftarrow> sol_buffer_fini b; Some (Inl EINVAL, b) }
                  else if start = s + 1 then do {
                    bs \<leftarrow> mem_read start (p - start) d;
                    b \<leftarrow> sol_buffer_init_flags (Some bs) (p - start)
                      (SOL_BUFFER_FLAGS_MEMORY_NOT_OWNED OR SOL_BUFFER_FLAGS_NO_NUL_BYTE);
                    Some (Inr (), b\<lparr>bused := bcapacity b\<rparr>)
                  }
                  else do {
                    bs \<leftarrow> mem_read start (p - start) d;
                    (r, b) \<leftarrow> sol_buffer_append_slice l bs b;
                    (case r of Inl e \<Rightarrow> do { b \<leftarrow> sol_buffer_fini b; Some (Inl e, b) }
                     | Inr _ \<Rightarrow> Some (Inr (), b))
                  })
           })
        }
      | _ \<Rightarrow> Some (Inl EINVAL, b))"

section \<open>What is written\<close>

definition escape :: "byte list \<Rightarrow> byte list" where
  "escape s = concat (map (\<lambda>c. if c \<in> set sol_json_escapable_chars then backslash # escape_code c else [c]) s)"

lemma escape_simps:
  "escape [] = []"
  "escape (c # s) = (if c \<in> set sol_json_escapable_chars then backslash # escape_code c @ escape s else c # escape s)"
  by (simp_all add: escape_def)

lemma escape_code_single:
  assumes "c \<in> set sol_json_escapable_chars"
  obtains x where "escape_code c = [x]" "x \<in> set string_escapes" "unescape_char x = Some c" "x \<noteq> ascii CHR ''u''"
  using assms by (auto simp: sol_json_escapable_chars_def escape_code_def string_escapes_def unescape_char_def)

lemma length_escape: "length s \<le> length (escape s)" "length (escape s) \<le> 2 * length s"
proof (induction s)
  case (Cons c s)
  {
    case 1
    then show ?case using Cons.IH(1) by (auto simp: escape_simps elim: escape_code_single)
  next
    case 2
    then show ?case using Cons.IH(2) by (auto simp: escape_simps elim: escape_code_single)
  }
qed (simp_all add: escape_simps)

lemma escaped_len_loop_eq: "0 \<notin> set s \<Longrightarrow> escaped_len_loop (s @ 0 # z) n = Some (n + length (escape s) + 1)"
  by (induction s arbitrary: n) (auto simp: escape_simps elim!: escape_code_single)

lemma buf_write_append:
  "Option.bind (buf_write off xs b) (buf_write (off + length xs) ys) = buf_write off (xs @ ys) b"
proof (cases "xs = [] \<or> ys = []")
  case False
  then show ?thesis
  proof (cases "bdata b")
    case (Some blk)
    then show ?thesis
      using False mem_write_append [of off xs blk ys]
      by (cases "mem_write off xs blk") (auto simp: buf_write_def split: bind_splits)
  qed (simp add: buf_write_def)
next
  case True
  then show ?thesis by (cases "buf_write off xs b") (auto simp: buf_write_def)
qed

lemma buf_write_same: "buf_write off xs b = Some b' \<Longrightarrow> bused b' = bused b \<and> bflags b' = bflags b \<and> bcapacity b' = bcapacity b"
  by (auto simp: buf_write_def split: if_splits bind_splits)

lemma escape_loop_eq:
  "0 \<notin> set s \<Longrightarrow> i + length s < n \<Longrightarrow>
     escape_loop (s @ 0 # z) i n out b = map_option (Pair (out + length (escape s))) (buf_write out (escape s) b)"
proof (induction s arbitrary: i out b)
  case Nil
  then show ?case by (simp add: escape_simps buf_write_def)
next
  case (Cons c s)
  have ih: "escape_loop (s @ 0 # z) (Suc i) n q = (\<lambda>b. map_option (Pair (q + length (escape s))) (buf_write q (escape s) b))" for q
    by (rule ext, rule Cons.IH) (use Cons.prems in auto)
  show ?case
  proof (cases "c \<in> set sol_json_escapable_chars")
    case True
    then obtain x where x: "escape_code c = [x]" by (rule escape_code_single)
    have "escape_loop ((c # s) @ 0 # z) i n out b =
        Option.bind (buf_write out [backslash] b) (\<lambda>b. Option.bind (buf_write (out + 1) [x] b)
          (\<lambda>b. map_option (Pair (out + 2 + length (escape s))) (buf_write (out + 2) (escape s) b)))"
      using Cons.prems True x by (simp add: ih)
    also have "\<dots> = map_option (Pair (out + 2 + length (escape s)))
        (Option.bind (Option.bind (buf_write out [backslash] b) (buf_write (out + 1) [x])) (buf_write (out + 2) (escape s)))"
      by (simp add: map_option_bind Option.bind_assoc comp_def)
    also have "\<dots> = map_option (Pair (out + 2 + length (escape s))) (buf_write out (([backslash] @ [x]) @ escape s) b)"
      using buf_write_append [of out "[backslash]" b "[x]"] buf_write_append [of out "[backslash] @ [x]" b "escape s"] by simp
    finally show ?thesis using True x by (simp add: escape_simps add.assoc)
  next
    case False
    have "escape_loop ((c # s) @ 0 # z) i n out b =
        Option.bind (buf_write out [c] b) (\<lambda>b. map_option (Pair (out + 1 + length (escape s))) (buf_write (out + 1) (escape s) b))"
      using Cons.prems False by (simp add: ih)
    also have "\<dots> = map_option (Pair (out + 1 + length (escape s))) (buf_write out ([c] @ escape s) b)"
      unfolding buf_write_append [of out "[c]" b "escape s", symmetric] by (simp add: map_option_bind comp_def)
    finally show ?thesis using False by (simp add: escape_simps)
  qed
qed

text \<open>A write behind the used bytes and the new number of used bytes, as every writer of the library does it.\<close>

lemma write_used:
  assumes wf: "buf_wf b" and room: "bused b + length bs + 1 \<le> bcapacity b"
  obtains b' where "buf_write (bused b) (bs @ [0]) b = Some b'" "buf_wf (b'\<lparr>bused := bused b + length bs\<rparr>)"
    "bflags b' = bflags b" "bused b' = bused b" "sol_buffer_get_slice (b'\<lparr>bused := bused b + length bs\<rparr>) = sol_buffer_get_slice b @ bs"
    "buf_terminated (b'\<lparr>bused := bused b + length bs\<rparr>)"
proof -
  let ?m = "take (bused b) (buf_mem b) @ (bs @ [0]) @ drop (bused b + length (bs @ [0])) (buf_mem b)"
  note len = buf_wf_mem [OF wf]
  have w: "buf_write (bused b) (bs @ [0]) b = Some (with_mem ?m b)" using room len by (intro buf_write_Some) simp
  have m: "length ?m = bcapacity b" using room len by simp
  have "buf_wf ((with_mem ?m b)\<lparr>bused := bused b + length bs\<rparr>)" using buf_wf_with [OF wf m] room by simp
  moreover have "sol_buffer_get_slice ((with_mem ?m b)\<lparr>bused := bused b + length bs\<rparr>) = sol_buffer_get_slice b @ bs"
    using room len by (simp add: sol_buffer_get_slice_def)
  moreover have "buf_terminated ((with_mem ?m b)\<lparr>bused := bused b + length bs\<rparr>)"
    using room len by (simp add: buf_terminated_def nth_append)
  ultimately show thesis using that [OF w] by simp
qed

lemma escape_string_ok:
  assumes wf: "buf_wf b" and l: "alloc_bounded l" and s: "0 \<notin> set s" "2 * length s < SSIZE_MAX"
  obtains (ok) p b' where "sol_json_escape_string l (s @ 0 # z) b = Some (Some p, b')" "buf_wf b'" "bflags b' = bflags b"
      "sol_buffer_get_slice b' = sol_buffer_get_slice b @ escape s" "buf_terminated b'"
    | (err) "sol_json_escape_string l (s @ 0 # z) b = Some (None, b)"
proof -
  let ?n = "length (escape s) + 1"
  have n: "?n \<le> SSIZE_MAX" using length_escape(2) [of s] s(2) by linarith
  have len: "sol_json_calculate_escaped_string_len (s @ 0 # z) = Some ?n"
    using escaped_len_loop_eq [OF s(1)] by (simp add: sol_json_calculate_escaped_string_len_def)
  show thesis
  proof (cases rule: sol_buffer_expand_ok [OF wf l n, case_names ok1 err1])
    case (ok1 b1)
    have slice: "sol_buffer_get_slice b1 = sol_buffer_get_slice b"
      by (rule get_slice_prefix [OF ok1(6,4)]) (use wf in \<open>simp_all add: buf_wf_def\<close>)
    have room: "bused b1 + length (escape s) + 1 \<le> bcapacity b1" using ok1(4,5) by linarith
    obtain b2 where b2: "buf_write (bused b1) (escape s @ [0]) b1 = Some b2" "buf_wf (b2\<lparr>bused := bused b1 + length (escape s)\<rparr>)"
      "bflags b2 = bflags b1" "bused b2 = bused b1"
      "sol_buffer_get_slice (b2\<lparr>bused := bused b1 + length (escape s)\<rparr>) = sol_buffer_get_slice b1 @ escape s"
      "buf_terminated (b2\<lparr>bused := bused b1 + length (escape s)\<rparr>)"
      by (rule write_used [OF ok1(2) room])
    have bind: "Option.bind (buf_write (bused b1) (escape s) b1) (buf_write (bused b1 + length (escape s)) [0]) = Some b2"
      using b2(1) by (simp add: buf_write_append)
    then obtain b3 where b3: "buf_write (bused b1) (escape s) b1 = Some b3" "buf_write (bused b1 + length (escape s)) [0] b3 = Some b2"
      by (cases "buf_write (bused b1) (escape s) b1") auto
    have small: "bused b1 + length (escape s) \<le> SIZE_MAX"
      using room ok1(2) by (simp add: buf_wf_def SSIZE_MAX_def SIZE_MAX_def)
    have i: "0 + length s < ?n" using length_escape(1) [of s] by simp
    have "sol_json_escape_string l (s @ 0 # z) b = Some (Some (bused b1), b2\<lparr>bused := bused b1 + length (escape s)\<rparr>)"
      using escape_loop_eq [OF s(1) i, of z "bused b1" b1] b2(4) b3 small
      by (simp add: sol_json_escape_string_def len ok1(1) [simplified] Let_def)
    then show thesis by (rule ok) (use b2 ok1(3) slice in simp_all)
  next
    case (err1 e)
    then show thesis by (intro err) (use err1 in \<open>simp add: sol_json_escape_string_def len\<close>)
  qed
qed

lemma append_char_ok:
  assumes "buf_wf b" and "alloc_bounded l"
  shows "\<exists>r b'. sol_buffer_append_char l c b = Some (r, b') \<and> buf_wf b' \<and> bflags b' = bflags b \<and>
    (r = Inr () \<longrightarrow> sol_buffer_get_slice b' = sol_buffer_get_slice b @ [c])"
proof -
  obtain r b' where "sol_buffer_append_char l c b = Some (r, b')"
    using sol_buffer_append_char_refines [OF assms, of c] by (cases "sol_buffer_append_char l c b") (auto simp: buf_refines_def)
  then show ?thesis using sol_buffer_append_char_refines [OF assms, of c] by (cases r) (auto simp: buf_refines_def)
qed

lemma serialize_string_ok:
  assumes wf: "buf_wf b" and l: "alloc_bounded l" and s: "0 \<notin> set s" "2 * length s < SSIZE_MAX"
  shows "\<exists>r b'. sol_json_serialize_string l b (s @ 0 # z) = Some (r, b') \<and> buf_wf b' \<and> bflags b' = bflags b \<and>
    (r = Inr () \<longrightarrow> sol_buffer_get_slice b' = sol_buffer_get_slice b @ quote # escape s @ [quote])"
proof -
  obtain r1 b1 where a1: "sol_buffer_append_char l quote b = Some (r1, b1)" "buf_wf b1" "bflags b1 = bflags b"
    and s1: "r1 = Inr () \<Longrightarrow> sol_buffer_get_slice b1 = sol_buffer_get_slice b @ [quote]"
    using append_char_ok [OF wf l] by metis
  show ?thesis
  proof (cases r1)
    case (Inr u)
    show ?thesis
    proof (cases rule: escape_string_ok [OF a1(2) l s, of z, case_names ok err])
      case (ok p b2)
      obtain r3 b3 where a3: "sol_buffer_append_char l quote b2 = Some (r3, b3)" "buf_wf b3" "bflags b3 = bflags b2"
        and s3: "r3 = Inr () \<Longrightarrow> sol_buffer_get_slice b3 = sol_buffer_get_slice b2 @ [quote]"
        using append_char_ok [OF ok(2) l] by metis
      have "sol_json_serialize_string l b (s @ 0 # z) = Some (map_sum (\<lambda>e. e) (\<lambda>_. ()) r3, b3)"
        using a1(1) Inr ok(1) a3(1) by (cases r3) (simp_all add: sol_json_serialize_string_def)
      then show ?thesis using a1(3) a3 s1 s3 ok(3,4) Inr by (cases r3) auto
    next
      case err
      then show ?thesis using a1 Inr by (simp add: sol_json_serialize_string_def)
    qed
  qed (use a1 in \<open>simp add: sol_json_serialize_string_def\<close>)
qed

lemma string_body_Cons: "c \<noteq> quote \<Longrightarrow> c \<noteq> backslash \<Longrightarrow> string_body cs \<Longrightarrow> string_body (c # cs)"
  by (cases cs) simp_all

lemma string_body_escape: "string_body (escape s)"
proof (induction s)
  case (Cons c s)
  show ?case
  proof (cases "c \<in> set sol_json_escapable_chars")
    case True
    then obtain x where "escape_code c = [x]" "x \<in> set string_escapes" by (rule escape_code_single)
    then show ?thesis using True Cons by (simp add: escape_simps)
  next
    case False
    then have "c \<noteq> quote" "c \<noteq> backslash" by (auto simp: sol_json_escapable_chars_def)
    then show ?thesis using False string_body_Cons [OF _ _ Cons] by (simp add: escape_simps)
  qed
qed (simp add: escape_simps)

section \<open>Reading it back\<close>

lemma align_power2_bound:
  assumes "m \<le> 2 ^ 62"
  shows "align_power2_size m \<le> SSIZE_MAX"
proof (cases "1 < m")
  case True
  have "m \<le> SIZE_MAX" using assms by (simp add: SIZE_MAX_def)
  then obtain k where k: "align_power2_size m = 2 ^ k" "(2::nat) ^ k < 2 * m"
    using align_power2_size_least [of m] True assms by blast
  then have "(2::nat) ^ k < 2 ^ 63" using assms by simp
  with k show ?thesis by (simp add: SSIZE_MAX_def)
next
  case False
  then have "m = 0 \<or> m = 1" by linarith
  then show ?thesis
    by (auto simp: align_power2_size_def align_power2_w_def clz_def SSIZE_MAX_def SIZE_MAX_def)
qed

definition plain :: "sol_buffer \<Rightarrow> bool" where
  "plain b \<longleftrightarrow> buf_wf b \<and> bflags b = SOL_BUFFER_FLAGS_NO_NUL_BYTE"

lemma plain_flags:
  assumes "plain b"
  shows "\<not> has_flag SOL_BUFFER_FLAGS_MEMORY_NOT_OWNED b" "\<not> has_flag SOL_BUFFER_FLAGS_CLEAR_MEMORY b"
    "\<not> SOL_BUFFER_NEEDS_NUL_BYTE b" "nul_byte_size b = 0"
  using assms by (simp_all add: plain_def has_flag_def SOL_BUFFER_NEEDS_NUL_BYTE_def nul_byte_size_def
      SOL_BUFFER_FLAGS_NO_NUL_BYTE_def SOL_BUFFER_FLAGS_MEMORY_NOT_OWNED_def SOL_BUFFER_FLAGS_CLEAR_MEMORY_def
      SOL_BUFFER_FLAGS_FIXED_CAPACITY_def SOL_BUFFER_FLAGS_NO_FREE_def)

lemma plain_step: "plain b \<Longrightarrow> buf_wf b' \<Longrightarrow> bflags b' = bflags b \<Longrightarrow> plain b'"
  by (simp add: plain_def)

lemma expand_succeeds:
  assumes "plain b" and "bused b + n \<le> 2 ^ 62"
  shows "\<exists>b'. sol_buffer_expand (libc_std x) n b = Some (Inr (), b')"
proof -
  note f = plain_flags [OF assms(1)]
  have cap: "bused b \<le> bcapacity b" "bcapacity b \<le> SSIZE_MAX" using assms(1) by (simp_all add: plain_def buf_wf_def)
  have sz: "bused b + n < SIZE_MAX" using assms(2) by (simp add: SIZE_MAX_def)
  let ?a = "align_power2_size (bused b + n)"
  show ?thesis
  proof (cases "n \<le> bcapacity b - bused b")
    case True
    then show ?thesis using cap sz f(4) by (simp add: sol_buffer_expand_def)
  next
    case False
    have add: "sol_util_size_add (bcapacity b) (n - (bcapacity b - bused b)) = Inr (bused b + n)"
      using False cap sz by (simp add: sol_util_size_add_def) linarith
    have pos: "0 < ?a" using False sz by (intro align_power2_size_pos) auto
    have "realloc_cells (libc_std x) 1 (buf_mem b) ?a \<noteq> None"
      using pos align_power2_bound [OF assms(2)] by (simp add: realloc_cells_def)
    then have "\<exists>b'. sol_buffer_resize (libc_std x) ?a b = Some (Inr (), b')"
      using f pos by (auto simp: sol_buffer_resize_def buf_realloc_def Let_def split: option.splits)
    then obtain b' where "sol_buffer_resize (libc_std x) ?a b = Some (Inr (), b')" ..
    then have "sol_buffer_ensure (libc_std x) (bused b + n) b = Some (Inr (), b')"
      using f(4) sz False cap by (simp add: sol_buffer_ensure_def Let_def)
    then show ?thesis using False f(4) sz cap add by (simp add: sol_buffer_expand_def)
  qed
qed

lemma append_succeeds:
  assumes b: "plain b" and n: "bused b + length bs \<le> 2 ^ 62"
  obtains b' where "sol_buffer_append_slice (libc_std x) bs b = Some (Inr (), b')" "plain b'"
    "sol_buffer_get_slice b' = sol_buffer_get_slice b @ bs" "bused b' = bused b + length bs"
proof -
  have wf: "buf_wf b" using b by (simp add: plain_def)
  have len: "length bs \<le> SSIZE_MAX" using n by (simp add: SSIZE_MAX_def)
  note ref = sol_buffer_append_bytes_refines [OF wf alloc_bounded_libc_std [of x] len, unfolded buf_refines_def]
  obtain r b' where eq: "sol_buffer_append_bytes (libc_std x) bs b = Some (r, b')"
    using ref by (cases "sol_buffer_append_bytes (libc_std x) bs b") auto
  obtain b1 where "sol_buffer_expand (libc_std x) (length bs) b = Some (Inr (), b1)" using expand_succeeds [OF b n] by blast
  then have "\<exists>u. r = Inr u"
    using eq plain_flags(3) [OF b] by (auto simp: sol_buffer_append_bytes_def terminate_buffer_def split: if_splits bind_splits)
  then have r: "r = Inr ()" by auto
  have b': "buf_wf b'" "bflags b' = bflags b" "sol_buffer_get_slice b' = sol_buffer_get_slice b @ bs"
    using ref eq r by simp_all
  have "bused b' = bused b + length bs" using length_get_slice [OF b'(1)] length_get_slice [OF wf] b'(3) by simp
  with that [of b'] eq r b' plain_step [OF b] show thesis by (simp add: sol_buffer_append_slice_def)
qed

lemma append_char_succeeds:
  assumes b: "plain b" and n: "bused b + 1 \<le> 2 ^ 62"
  obtains b' where "sol_buffer_append_char (libc_std x) c b = Some (Inr (), b')" "plain b'"
    "sol_buffer_get_slice b' = sol_buffer_get_slice b @ [c]" "bused b' = bused b + 1"
proof -
  have wf: "buf_wf b" using b by (simp add: plain_def)
  obtain r b' where eq: "sol_buffer_append_char (libc_std x) c b = Some (r, b')" "buf_wf b'" "bflags b' = bflags b"
    and s: "r = Inr () \<Longrightarrow> sol_buffer_get_slice b' = sol_buffer_get_slice b @ [c]"
    using append_char_ok [OF wf alloc_bounded_libc_std [of x], of c] by metis
  obtain b1 where "sol_buffer_expand (libc_std x) 1 b = Some (Inr (), b1)" using expand_succeeds [OF b n] by blast
  moreover have "bflags b1 = bflags b"
    by (cases rule: sol_buffer_expand_ok [OF wf alloc_bounded_libc_std [of x], of 1, case_names ok err])
      (use calculation in \<open>auto simp: SSIZE_MAX_def\<close>)
  ultimately have "\<exists>u. r = Inr u"
    using eq(1) plain_flags(4) [OF b]
    by (auto simp: sol_buffer_append_char_def nul_byte_size_def has_flag_def Let_def split: bind_splits if_splits dest!: buf_write_same)
  then have r: "r = Inr ()" by auto
  have "bused b' = bused b + 1" using length_get_slice [OF eq(2)] length_get_slice [OF wf] s [OF r] by simp
  with that [of b'] eq r s plain_step [OF b] show thesis by simp
qed

text \<open>
  The loop at the beginning of an escaped string: what it has appended and the bytes since \<open>start\<close>,
  which it has not appended yet, are what it has read so far.
\<close>

lemma mem_read_append:
  assumes "drop start d = u @ v" and "start \<le> length d"
  shows "mem_read start (length u) d = Some u"
proof -
  have "length d - start = length u + length v" using arg_cong [OF assms(1), of length] by simp
  then have "start + length u \<le> length d" using assms(2) by linarith
  then show ?thesis using assms(1) by (simp add: mem_read_def)
qed

lemma unescape_escape:
  assumes "plain b" and "drop start d = seg @ escape s @ quote # r" and "start \<le> length d"
    and "bused b + length seg + length s \<le> 2 ^ 62"
  shows "\<exists>start' seg' b'. unescape_loop (libc_std x) d (start + length (seg @ escape s)) start (start + length seg) False b =
      Some (Finished start' (start + length (seg @ escape s)) False, b') \<and> plain b' \<and>
      drop start' d = seg' @ quote # r \<and> start' + length seg' = start + length (seg @ escape s) \<and> start' \<le> length d \<and>
      sol_buffer_get_slice b' @ seg' = sol_buffer_get_slice b @ seg @ s \<and> start \<le> start' \<and>
      (start' = start \<longrightarrow> b' = b) \<and> bused b' + length seg' \<le> 2 ^ 62"
  using assms
proof (induction s arbitrary: start seg b)
  case Nil
  then show ?case by (subst unescape_loop.simps) (auto simp: escape_simps)
next
  case (Cons c s)
  let ?p = "start + length seg"
  let ?e = "start + length (seg @ escape (c # s))"
  show ?case
  proof (cases "c \<in> set sol_json_escapable_chars")
    case True
    then obtain y where y: "escape_code c = [y]" "unescape_char y = Some c" by (rule escape_code_single)
    have es: "escape (c # s) = backslash # y # escape s" using True y by (simp add: escape_simps)
    have d: "drop start d = seg @ backslash # y # escape s @ quote # r" using Cons.prems(2) es by simp
    have p0: "mem_get ?p d = Some backslash" "drop (?p + 1) d = y # escape s @ quote # r"
      using mem_get_drop [OF drop_past [OF d]] by auto
    have p1: "mem_get (?p + 1) d = Some y" "drop (?p + 2) d = escape s @ quote # r" "?p + 1 < length d"
      using mem_get_drop [OF p0(2)] by auto
    obtain b1 where b1: "sol_buffer_append_slice (libc_std x) seg b = Some (Inr (), b1)" "plain b1"
      "sol_buffer_get_slice b1 = sol_buffer_get_slice b @ seg" "bused b1 = bused b + length seg"
      by (rule append_succeeds [OF Cons.prems(1)]) (use Cons.prems(4) in auto)
    obtain b2 where b2: "sol_buffer_append_char (libc_std x) c b1 = Some (Inr (), b2)" "plain b2"
      "sol_buffer_get_slice b2 = sol_buffer_get_slice b1 @ [c]" "bused b2 = bused b1 + 1"
      by (rule append_char_succeeds [OF b1(2)]) (use Cons.prems(4) b1(4) in auto)
    have "unescape_loop (libc_std x) d ?e start ?p False b = unescape_loop (libc_std x) d ?e start (?p + 1) True b1"
      using p0(1) mem_read_append [OF d Cons.prems(3)] b1(1) es by (subst unescape_loop.simps) simp
    also have "\<dots> = unescape_loop (libc_std x) d ?e (?p + 2) (?p + 2) False b2"
      using p1(1) y(2) b2(1) es by (subst unescape_loop.simps) simp
    finally have eq: "unescape_loop (libc_std x) d ?e start ?p False b = unescape_loop (libc_std x) d ?e (?p + 2) (?p + 2) False b2" .
    have e: "?e = ?p + 2 + length ([] @ escape s)" using es by simp
    obtain start' seg' b' where IH:
      "unescape_loop (libc_std x) d ?e (?p + 2) (?p + 2) False b2 = Some (Finished start' ?e False, b')" "plain b'"
      "drop start' d = seg' @ quote # r" "start' + length seg' = ?e" "start' \<le> length d"
      "sol_buffer_get_slice b' @ seg' = sol_buffer_get_slice b2 @ s" "?p + 2 \<le> start'" "bused b' + length seg' \<le> 2 ^ 62"
      using Cons.IH [OF b2(2), of "?p + 2" "[]"] p1 Cons.prems(4) b1(4) b2(4) unfolding e by auto
    then show ?thesis unfolding eq using b1(3) b2(3)
      by (intro exI [of _ start'] exI [of _ seg'] exI [of _ b']) auto
  next
    case False
    have es: "escape (c # s) = c # escape s" using False by (simp add: escape_simps)
    have d: "drop start d = seg @ c # escape s @ quote # r" using Cons.prems(2) es by simp
    have p0: "mem_get ?p d = Some c" using mem_get_drop [OF drop_past [OF d]] by auto
    have c: "c \<noteq> backslash" using False by (auto simp: sol_json_escapable_chars_def)
    have "unescape_loop (libc_std x) d ?e start ?p False b = unescape_loop (libc_std x) d ?e start (?p + 1) False b"
      using p0 c es by (subst unescape_loop.simps) simp
    then show ?thesis
      using Cons.IH [OF Cons.prems(1), of start "seg @ [c]"] d es Cons.prems(3,4) by simp
  qed
qed

lemma unescaped_string_ok:
  assumes d: "drop q d = quote # escape s @ quote # r" and n: "length s \<le> 2 ^ 62"
  shows "\<exists>b'. sol_json_token_get_unescaped_string (libc_std x) d \<lparr>tk_start = Some q, tk_end = Some (q + length (escape s) + 2)\<rparr> b =
    Some (Inr (), b') \<and> sol_buffer_get_slice b' = s"
proof -
  define b0 where "b0 = \<lparr>bdata = None, bcapacity = 0, bused = 0, bflags = SOL_BUFFER_FLAGS_NO_NUL_BYTE, breleased = []\<rparr>"
  have init: "sol_buffer_init_flags None 0 SOL_BUFFER_FLAGS_NO_NUL_BYTE = Some b0"
    by (simp add: sol_buffer_init_flags_def b0_def SOL_BUFFER_FLAGS_NO_NUL_BYTE_def SOL_BUFFER_FLAGS_MEMORY_NOT_OWNED_def
        SOL_BUFFER_FLAGS_FIXED_CAPACITY_def SOL_BUFFER_FLAGS_NO_FREE_def)
  have refers: "sol_buffer_init_flags (Some bs) k f = Some \<lparr>bdata = Some bs, bcapacity = k, bused = 0, bflags = f, breleased = []\<rparr>" for bs k f
    by (simp add: sol_buffer_init_flags_def)
  have b0: "plain b0" "sol_buffer_get_slice b0 = []" "bused b0 = 0"
    by (simp_all add: plain_def buf_wf_def b0_def sol_buffer_get_slice_def buf_mem_def has_flag_def SOL_BUFFER_FLAGS_NO_NUL_BYTE_def
        SOL_BUFFER_FLAGS_CLEAR_MEMORY_def)
  let ?fin = "q + 1 + length (escape s)"
  have m: "mem_get q d = Some quote" "drop (q + 1) d = escape s @ quote # r" "q + 1 \<le> length d" using mem_get_drop [OF d] by auto
  have last: "mem_get ?fin d = Some quote" using mem_get_drop [OF drop_past [OF m(2)]] by simp
  obtain start' seg' b1 where u: "unescape_loop (libc_std x) d ?fin (q + 1) (q + 1) False b0 = Some (Finished start' ?fin False, b1)"
    "plain b1" "drop start' d = seg' @ quote # r" "start' + length seg' = ?fin" "start' \<le> length d"
    "sol_buffer_get_slice b1 @ seg' = s" "start' = q + 1 \<longrightarrow> b1 = b0" "bused b1 + length seg' \<le> 2 ^ 62"
    using unescape_escape [OF b0(1), of "q + 1" d "[]" s r x] m n b0(2,3) by auto
  have rd: "mem_read start' (?fin - start') d = Some seg'" using mem_read_append [OF u(3,5)] u(4) by (metis add_diff_cancel_left')
  show ?thesis
  proof (cases "start' = q + 1")
    case True
    then have "s = seg'" "b1 = b0" using u(6,7) b0(2) by auto
    then show ?thesis using True u(1,4) rd last m(1)
      by (simp add: sol_json_token_get_unescaped_string_def init refers sol_buffer_get_slice_def buf_mem_def)
  next
    case False
    obtain b2 where b2: "sol_buffer_append_slice (libc_std x) seg' b1 = Some (Inr (), b2)" "sol_buffer_get_slice b2 = sol_buffer_get_slice b1 @ seg'"
      by (rule append_succeeds [OF u(2,8)])
    then show ?thesis using False u(1,6) rd last m(1)
      by (simp add: sol_json_token_get_unescaped_string_def init)
  qed
qed

text \<open>
  C35. Serializing a string and reading it back restores it. Writing the C string \<open>s\<close> to a buffer is
  memory safe, and when it succeeds, the text it has appended is one string token of the scanner that
  reaches to the end of the buffer; the token is read back without an error, whatever it contains, and
  yields \<open>s\<close>. The allocator is one that only refuses more than \<^verbatim>\<open>PTRDIFF_MAX\<close> bytes.\<close>

theorem json_string_round_trip:
  assumes "buf_wf b" and "0 \<notin> set s" and "2 * length s < SSIZE_MAX"
  shows "\<exists>r b'. sol_json_serialize_string (libc_std x) b (s @ 0 # z) = Some (r, b') \<and> buf_wf b' \<and>
    (r = Inr () \<longrightarrow> (\<exists>sc' token b''.
       sol_json_scanner_next (sol_buffer_get_slice b') (sol_json_scanner_init (bused b) (bused b' - bused b)) = Some (Scanned, sc', token) \<and>
       sc_current sc' = bused b' \<and>
       sol_json_token_get_unescaped_string (libc_std x) (sol_buffer_get_slice b') token out = Some (Inr (), b'') \<and>
       sol_buffer_get_slice b'' = s))"
proof -
  obtain r b' where ser: "sol_json_serialize_string (libc_std x) b (s @ 0 # z) = Some (r, b')" "buf_wf b'"
    and slice: "r = Inr () \<Longrightarrow> sol_buffer_get_slice b' = sol_buffer_get_slice b @ quote # escape s @ [quote]"
    using serialize_string_ok [OF assms(1) alloc_bounded_libc_std [of x] assms(2,3), of z] by metis
  let ?t = "quote # escape s @ [quote]"
  have "\<exists>sc' token b''. sol_json_scanner_next (sol_buffer_get_slice b') (sol_json_scanner_init (bused b) (bused b' - bused b)) = Some (Scanned, sc', token) \<and>
       sc_current sc' = bused b' \<and>
       sol_json_token_get_unescaped_string (libc_std x) (sol_buffer_get_slice b') token out = Some (Inr (), b'') \<and>
       sol_buffer_get_slice b'' = s" if r: "r = Inr ()"
  proof -
    let ?d = "sol_buffer_get_slice b'"
    have used: "bused b' = bused b + length ?t" "length (sol_buffer_get_slice b) = bused b"
      using slice [OF r] length_get_slice [OF ser(2)] length_get_slice [OF assms(1)] by auto
    have d: "drop (bused b) ?d = ?t" using slice [OF r] used(2) by simp
    have lex: "lexeme ?t" "\<not> number_lexeme ?t"
      using string_body_escape [of s] not_number_lexeme [of quote] by (auto simp: lexeme_def string_lexeme_def byte_type_def)
    have "sol_json_scanner_next ?d (sol_json_scanner_init (bused b) (length ?t)) =
        Some (Scanned, (sol_json_scanner_init (bused b) (length ?t))\<lparr>sc_current := bused b + 0 + length ?t\<rparr>, token_at (bused b + 0) ?t)"
      using next_lexeme [OF lex(1), of "[]" "sol_json_scanner_init (bused b) (length ?t)" ?d "[]"] lex(2) d
      by (simp add: sol_json_scanner_init_def)
    moreover obtain b'' where "sol_json_token_get_unescaped_string (libc_std x) ?d
        \<lparr>tk_start = Some (bused b), tk_end = Some (bused b + length (escape s) + 2)\<rparr> out = Some (Inr (), b'')" "sol_buffer_get_slice b'' = s"
      using unescaped_string_ok [of "bused b" ?d s "[]" x out] d assms(3) by (auto simp: SSIZE_MAX_def)
    ultimately show ?thesis using used(1) by (simp add: token_at_def)
  qed
  with ser show ?thesis by blast
qed

text \<open>A quote, a line feed and a letter, written to an empty buffer.\<close>

theorem json_string_round_trip_witness:
  "\<exists>r b'. sol_json_serialize_string (libc_std 0) sol_buffer_init [34, 10, 97, 0] = Some (r, b') \<and> buf_wf b' \<and>
    (r = Inr () \<longrightarrow> (\<exists>sc' token b''.
       sol_json_scanner_next (sol_buffer_get_slice b') (sol_json_scanner_init 0 (bused b')) = Some (Scanned, sc', token) \<and>
       sc_current sc' = bused b' \<and>
       sol_json_token_get_unescaped_string (libc_std 0) (sol_buffer_get_slice b') token sol_buffer_init = Some (Inr (), b'') \<and>
       sol_buffer_get_slice b'' = [34, 10, 97]))"
proof -
  have "bused sol_buffer_init = 0" by (simp add: sol_buffer_init_def)
  then show ?thesis
    using json_string_round_trip [OF buf_wf_init, of "[34, 10, 97]" 0 "[]" sol_buffer_init] by (simp add: SSIZE_MAX_def)
qed

end
