(* ===== verification/Json_Path.thy ===== *)
theory Json_Path
  imports Json_String
begin

text \<open>
  JSONPath: the segments of a path and the lookup along a path (\<^verbatim>\<open>sol_json_path_get_next_segment\<close>,
  \<^verbatim>\<open>sol_json_get_value_by_path\<close> of \<^verbatim>\<open>sol-json.c\<close>). The path is a block of bytes \<open>m\<close> of its own; the block may be longer
  than the path, which ends at \<open>ps_end\<close>.
\<close>

section \<open>Finding a byte\<close>

text \<open>\<^verbatim>\<open>memchr\<close> reads byte by byte until it has found one; the result is a pointer or NULL.\<close>

fun mem_chr :: "byte list \<Rightarrow> nat \<Rightarrow> byte \<Rightarrow> nat \<Rightarrow> nat option option" where
  "mem_chr m p c n =
     (if n = 0 then Some None
      else do {
        x \<leftarrow> mem_get p m;
        (if x = c then Some (Some p) else mem_chr m (p + 1) c (n - 1))
      })"

declare mem_chr.simps [simp del]

section \<open>Segments\<close>

record sol_json_path_scanner =
  ps_path :: nat
  ps_end :: nat
  ps_current :: nat

text \<open>A slice of the path: where it starts and how long it is.\<close>

type_synonym path_slice = "nat \<times> nat"

definition sol_json_path_scanner_init :: "path_slice \<Rightarrow> sol_json_path_scanner" where
  "sol_json_path_scanner_init path = (case path of (p, n) \<Rightarrow> \<lparr>ps_path = p, ps_end = p + n, ps_current = p\<rparr>)"

definition get_lowest_not_null_pointer :: "nat option \<Rightarrow> nat option \<Rightarrow> nat option" where
  "get_lowest_not_null_pointer p p2 =
     (case p of None \<Rightarrow> p2 | Some a \<Rightarrow> (case p2 of None \<Rightarrow> p | Some b \<Rightarrow> if a < b then p else p2))"

text \<open>\<open>None\<close> inside of the result is \<^verbatim>\<open>false\<close>.\<close>

definition json_path_parse_key_after_dot ::
    "byte list \<Rightarrow> sol_json_path_scanner \<Rightarrow> (path_slice \<times> sol_json_path_scanner) option option" where
  "json_path_parse_key_after_dot m ps = do {
     let start = ps_current ps + 1;
     first_dot \<leftarrow> mem_chr m start (ascii CHR ''.'') (size_minus (ps_end ps) start);
     first_bracket_start \<leftarrow> mem_chr m start (ascii CHR ''['') (size_minus (ps_end ps) start);
     let e = (case get_lowest_not_null_pointer first_dot first_bracket_start of None \<Rightarrow> ps_end ps | Some p \<Rightarrow> p);
     Some (if e = start then None else Some ((start, e - start), ps\<lparr>ps_current := start + (e - start)\<rparr>))
   }"

lemma mem_chr_bounds: "mem_chr m p c n = Some (Some q) \<Longrightarrow> p \<le> q \<and> q < p + n \<and> mem_get q m = Some c"
proof (induction m p c n rule: mem_chr.induct)
  case (1 m p c n)
  from "1.prems" have n: "n \<noteq> 0" and x: "\<exists>x. mem_get p m = Some x"
    by (subst (asm) mem_chr.simps, auto split: if_splits bind_splits)+
  then obtain x where x: "mem_get p m = Some x" by blast
  show ?case
  proof (cases "x = c")
    case True
    then show ?thesis using "1.prems" n x by (subst (asm) mem_chr.simps) auto
  next
    case False
    then have "mem_chr m (p + 1) c (n - 1) = Some (Some q)" using "1.prems" n x by (subst (asm) mem_chr.simps) simp
    from "1.IH" [OF n x False this] show ?thesis using n by auto
  qed
qed

text \<open>The search for the closing quote, which is not behind a backslash; \<open>None\<close> inside is \<^verbatim>\<open>return false\<close>.\<close>

function quote_loop :: "byte list \<Rightarrow> nat \<Rightarrow> nat \<Rightarrow> nat option option" where
  "quote_loop m e p =
     (if p < e then
        (case mem_chr m p apostrophe (size_minus e p) of
           None \<Rightarrow> None
         | Some None \<Rightarrow> Some None
         | Some (Some q) \<Rightarrow> do {
             c \<leftarrow> mem_get (q - 1) m;
             (if c \<noteq> backslash then Some (Some q) else quote_loop m e (q + 1))
           })
      else Some (Some p))"
  by pat_completeness auto
termination
  by (relation "measure (\<lambda>(m, e, p). e - p)") (auto dest: mem_chr_bounds)

declare quote_loop.simps [simp del]

text \<open>Where the key in brackets ends, without the closing bracket.\<close>

definition bracket_end :: "byte list \<Rightarrow> nat \<Rightarrow> nat \<Rightarrow> nat option option" where
  "bracket_end m e p = do {
     c \<leftarrow> mem_get p m;
     (if c = apostrophe then do {
        q \<leftarrow> quote_loop m e (p + 1);
        (case q of None \<Rightarrow> Some None
         | Some q \<Rightarrow>
             if q + 1 \<ge> e then Some None
             else do {
               c \<leftarrow> mem_get (q + 1) m;
               Some (if c \<noteq> ascii CHR '']'' then None else Some (q + 1))
             })
      }
      else if c \<noteq> ascii CHR '']'' then mem_chr m (p + 1) (ascii CHR '']'') (size_minus e (p + 1))
      else Some None)
   }"

definition json_path_parse_key_in_brackets ::
    "byte list \<Rightarrow> sol_json_path_scanner \<Rightarrow> (path_slice \<times> sol_json_path_scanner) option option" where
  "json_path_parse_key_in_brackets m ps = do {
     p \<leftarrow> bracket_end m (ps_end ps) (ps_current ps + 1);
     Some (case p of None \<Rightarrow> None
       | Some p \<Rightarrow> Some ((ps_current ps, p + 1 - ps_current ps), ps\<lparr>ps_current := ps_current ps + (p + 1 - ps_current ps)\<rparr>))
   }"

text \<open>Another segment, or \<open>None\<close> with the status of the loop.\<close>

definition sol_json_path_get_next_segment ::
    "byte list \<Rightarrow> sol_json_path_scanner \<Rightarrow> sol_json_loop_status
      \<Rightarrow> (path_slice option \<times> sol_json_path_scanner \<times> sol_json_loop_status) option" where
  "sol_json_path_get_next_segment m ps reason =
     (if ps_path ps = ps_end ps then Some (None, ps, SOL_JSON_LOOP_REASON_INVALID)
      else do {
        root \<leftarrow> (if ps_current ps = ps_path ps then do { c \<leftarrow> mem_get (ps_path ps) m; Some (c = ascii CHR ''$'') } else Some True);
        (if \<not> root then Some (None, ps, SOL_JSON_LOOP_REASON_INVALID)
         else
           let ps = (if ps_current ps = ps_path ps then ps\<lparr>ps_current := ps_path ps + 1\<rparr> else ps)
           in if ps_current ps \<ge> ps_end ps then Some (None, ps, reason)
              else do {
                c \<leftarrow> mem_get (ps_current ps) m;
                key \<leftarrow> (if c = ascii CHR ''['' then json_path_parse_key_in_brackets m ps
                       else if c = ascii CHR ''.'' then json_path_parse_key_after_dot m ps
                       else Some None);
                Some (case key of None \<Rightarrow> (None, ps, SOL_JSON_LOOP_REASON_INVALID) | Some (s, ps) \<Rightarrow> (Some s, ps, reason))
              })
      })"

definition sol_json_path_is_array_key :: "byte list \<Rightarrow> bool" where
  "sol_json_path_is_array_key key \<longleftrightarrow> length key \<ge> 2 \<and> key ! 0 = ascii CHR ''['' \<and> key ! 1 \<noteq> apostrophe"

definition sol_json_path_array_get_segment_index :: "byte list \<Rightarrow> errno + nat" where
  "sol_json_path_array_get_segment_index key =
     (if length key < 3 then Inl EINVAL
      else if \<not> sol_json_path_is_array_key key then Inl EINVAL
      else case sol_str_slice_to_int (take (length key - 2) (drop 1 key)) of
             Inl e \<Rightarrow> Inl e
           | Inr v \<Rightarrow> if v < 0 \<or> v > int UINT16_MAX then Inl ERANGE else Inr (nat v))"

section \<open>Keys\<close>

text \<open>The loop that removes the backslashes; it stops at \<open>p\<close>, before the rest without a quote.\<close>

function unquote_loop :: "byte libc \<Rightarrow> byte list \<Rightarrow> nat \<Rightarrow> sol_buffer \<Rightarrow> ((errno + nat) \<times> sol_buffer) option" where
  "unquote_loop l key p b =
     (if p < length key then
        (case mem_chr key p apostrophe (length key - p) of
           None \<Rightarrow> None
         | Some None \<Rightarrow> Some (Inr p, b)
         | Some (Some p2) \<Rightarrow> do {
             bs \<leftarrow> mem_read p (size_minus (p2 - p) 1) key;
             (r, b) \<leftarrow> sol_buffer_append_slice l bs b;
             (case r of Inl e \<Rightarrow> Some (Inl e, b)
              | Inr _ \<Rightarrow> do {
                  (r, b) \<leftarrow> sol_buffer_append_char l apostrophe b;
                  (case r of Inl e \<Rightarrow> Some (Inl e, b) | Inr _ \<Rightarrow> unquote_loop l key (p2 + 1) b)
                })
           })
      else Some (Inr p, b))"
  by pat_completeness auto
termination
  by (relation "measure (\<lambda>(l, key, p, b). length key - p)") (auto dest!: mem_chr_bounds)

declare unquote_loop.simps [simp del]

definition refer_to :: "byte list \<Rightarrow> sol_buffer option" where
  "refer_to bs = do {
     b \<leftarrow> sol_buffer_init_flags (Some bs) (length bs) (SOL_BUFFER_FLAGS_MEMORY_NOT_OWNED OR SOL_BUFFER_FLAGS_NO_NUL_BYTE);
     Some (b\<lparr>bused := bcapacity b\<rparr>)
   }"

definition json_path_parse_object_key :: "byte libc \<Rightarrow> byte list \<Rightarrow> buffer_result" where
  "json_path_parse_object_key l key_slice = do {
     c \<leftarrow> mem_get 0 key_slice;
     (if c \<noteq> ascii CHR ''['' then do { b \<leftarrow> refer_to key_slice; Some (Inr (), b) }
      else do {
        key \<leftarrow> mem_read 2 (size_minus (length key_slice) 4) key_slice;
        b \<leftarrow> sol_buffer_init_flags None 0 SOL_BUFFER_FLAGS_NO_NUL_BYTE;
        (r, b) \<leftarrow> unquote_loop l key 0 b;
        (case r of Inl e \<Rightarrow> Some (Inl e, b)
         | Inr p \<Rightarrow>
             if bdata b = None then do { b \<leftarrow> refer_to key; Some (Inr (), b) }
             else do {
               bs \<leftarrow> mem_read p (size_minus (length key) p) key;
               (r, b) \<leftarrow> sol_buffer_append_slice l bs b;
               Some (r, b)
             })
      })
   }"

section \<open>Following a path\<close>

lemma quote_loop_bounds: "quote_loop m e p = Some (Some q) \<Longrightarrow> p \<le> q"
proof (induction m e p rule: quote_loop.induct)
  case (1 m e p)
  show ?case
  proof (cases "p < e")
    case True
    then obtain q' where q': "mem_chr m p apostrophe (size_minus e p) = Some (Some q')"
      using "1.prems" by (subst (asm) quote_loop.simps) (auto split: option.splits)
    obtain c where c: "mem_get (q' - 1) m = Some c"
      using "1.prems" True q' by (subst (asm) quote_loop.simps) (auto split: bind_splits)
    have "if c \<noteq> backslash then q = q' else quote_loop m e (q' + 1) = Some (Some q)"
      using "1.prems" True q' c by (subst (asm) quote_loop.simps) (simp split: if_splits)
    then show ?thesis
      using mem_chr_bounds [OF q'] "1.IH" [OF True q' _ c] by (fastforce split: if_splits)
  qed (use "1.prems" in \<open>simp add: quote_loop.simps\<close>)
qed

lemma bracket_end_bounds: "bracket_end m e p = Some (Some q) \<Longrightarrow> p < q"
  by (auto simp: bracket_end_def split: if_splits bind_splits option.splits dest!: quote_loop_bounds mem_chr_bounds)

lemma next_segment_measure:
  assumes "sol_json_path_get_next_segment m ps reason = Some (Some s, ps', reason')"
  shows "ps_end ps' - ps_current ps' < ps_end ps - ps_current ps" "ps_end ps' = ps_end ps"
proof -
  define qs where "qs = (if ps_current ps = ps_path ps then ps\<lparr>ps_current := ps_path ps + 1\<rparr> else ps)"
  have q: "ps_end qs = ps_end ps" "ps_current ps \<le> ps_current qs" by (simp_all add: qs_def)
  have k: "ps_current qs < ps_end qs"
    "json_path_parse_key_in_brackets m qs = Some (Some (s, ps')) \<or> json_path_parse_key_after_dot m qs = Some (Some (s, ps'))"
    using assms by (auto simp: sol_json_path_get_next_segment_def qs_def Let_def split: if_splits bind_splits option.splits)
  have "ps_current qs < ps_current ps' \<and> ps_end ps' = ps_end qs"
    using k(2)
  proof
    assume "json_path_parse_key_in_brackets m qs = Some (Some (s, ps'))"
    then obtain p where p: "bracket_end m (ps_end qs) (ps_current qs + 1) = Some (Some p)"
      "ps' = qs\<lparr>ps_current := ps_current qs + (p + 1 - ps_current qs)\<rparr>"
      by (auto simp: json_path_parse_key_in_brackets_def split: bind_splits option.splits)
    have "ps_current qs \<le> p"
      using bracket_end_bounds [OF p(1)] by simp
    then show ?thesis using p(2) by simp
  next
    assume "json_path_parse_key_after_dot m qs = Some (Some (s, ps'))"
    then show ?thesis
      using k(1) by (auto simp: json_path_parse_key_after_dot_def get_lowest_not_null_pointer_def Let_def
          split: bind_splits option.splits if_splits dest!: mem_chr_bounds)
  qed
  then show "ps_end ps' - ps_current ps' < ps_end ps - ps_current ps" "ps_end ps' = ps_end ps" using q k(1) by auto
qed

text \<open>
  One step for each segment; the result is the scanner, which is at the value, and the value. The key
  is not freed when it could not be built. \<open>None\<close> as the slice ends the loop.
\<close>

function by_path_loop :: "byte libc \<Rightarrow> byte list \<Rightarrow> byte list \<Rightarrow> sol_json_scanner \<Rightarrow> sol_json_path_scanner \<Rightarrow> sol_json_token
    \<Rightarrow> sol_json_loop_status \<Rightarrow> ((errno + unit) \<times> sol_json_scanner \<times> sol_json_token) option" where
  "by_path_loop l d m sc ps val reason =
     (case sol_json_path_get_next_segment m ps reason of
        None \<Rightarrow> None
      | Some (None, ps, reason) \<Rightarrow> Some (if reason \<noteq> SOL_JSON_LOOP_REASON_OK then Inl ENOENT else Inr (), sc, val)
      | Some (Some (p, n), ps, reason) \<Rightarrow> do {
          key_slice \<leftarrow> mem_read p n m;
          type \<leftarrow> sol_json_mem_get_type d (sc_current sc);
          (if type = SOL_JSON_TYPE_OBJECT_START then
             if sol_json_path_is_array_key key_slice then Some (Inl ENOENT, sc, val)
             else do {
               (r, current_key) \<leftarrow> json_path_parse_object_key l key_slice;
               (case r of Inl e \<Rightarrow> Some (Inl e, sc, val)
                | Inr _ \<Rightarrow> do {
                    (r, sc, val) \<leftarrow> sol_json_object_get_value_by_key d sc (sol_buffer_get_slice current_key) val;
                    _ \<leftarrow> sol_buffer_fini current_key;
                    (if r \<noteq> Inr () then Some (Inl ENOENT, sc, val)
                     else do { s \<leftarrow> tk_start val; by_path_loop l d m (sc\<lparr>sc_current := s\<rparr>) ps val reason })
                  })
             }
           else if type = SOL_JSON_TYPE_ARRAY_START then
             if \<not> sol_json_path_is_array_key key_slice then Some (Inl ENOENT, sc, val)
             else
               (case sol_json_path_array_get_segment_index key_slice of
                  Inl _ \<Rightarrow> Some (Inl ENOENT, sc, val)
                | Inr index_val \<Rightarrow> do {
                    (r, sc, val) \<leftarrow> sol_json_array_get_at_index d sc index_val val;
                    (if r \<noteq> Inr () then Some (Inl ENOENT, sc, val)
                     else do { s \<leftarrow> tk_start val; by_path_loop l d m (sc\<lparr>sc_current := s\<rparr>) ps val reason })
                  })
           else Some (Inl ENOENT, sc, val))
        })"
  by pat_completeness auto
termination
  by (relation "measure (\<lambda>(l, d, m, sc, ps, val, reason). ps_end ps - ps_current ps)") (auto dest: next_segment_measure(1))

declare by_path_loop.simps [simp del]

definition sol_json_get_value_by_path :: "byte libc \<Rightarrow> byte list \<Rightarrow> sol_json_scanner \<Rightarrow> byte list \<Rightarrow> path_slice \<Rightarrow> sol_json_token
    \<Rightarrow> ((errno + unit) \<times> sol_json_scanner \<times> sol_json_token) option" where
  "sol_json_get_value_by_path l d sc m path val = do {
     let start = sc_current sc;
     (r, sc, val) \<leftarrow> by_path_loop l d m sc (sol_json_path_scanner_init path) val SOL_JSON_LOOP_REASON_OK;
     (case r of Inl e \<Rightarrow> Some (Inl e, sc, val)
      | Inr _ \<Rightarrow>
          Some (Inr (), sc, if start = sc_current sc then \<lparr>tk_start = Some (sc_current sc), tk_end = Some (sc_current sc + 1)\<rparr> else val))
   }"

section \<open>Paths as text\<close>

text \<open>
  The segments of a path: a key behind a dot, a quoted key in brackets, in which quotes are escaped,
  and an index in brackets.
\<close>

datatype segment = Dot_key "byte list" | Quoted_key "byte list" | Index "byte list"

definition quoted :: "byte list \<Rightarrow> byte list" where
  "quoted k = concat (map (\<lambda>c. if c = apostrophe then [backslash, apostrophe] else [c]) k)"

fun segment_text :: "segment \<Rightarrow> byte list" where
  "segment_text (Dot_key k) = ascii CHR ''.'' # k"
| "segment_text (Quoted_key k) = [ascii CHR ''['', apostrophe] @ quoted k @ [apostrophe, ascii CHR '']'']"
| "segment_text (Index ds) = ascii CHR ''['' # ds @ [ascii CHR '']'']"

fun segment_ok :: "segment \<Rightarrow> bool" where
  "segment_ok (Dot_key k) \<longleftrightarrow> k \<noteq> [] \<and> ascii CHR ''.'' \<notin> set k \<and> ascii CHR ''['' \<notin> set k"
| "segment_ok (Quoted_key k) \<longleftrightarrow> (k \<noteq> [] \<longrightarrow> last k \<noteq> backslash) \<and> length k \<le> 2 ^ 61"
| "segment_ok (Index ds) \<longleftrightarrow> list_all isdigit ds \<and> ds \<noteq> [] \<and> (hd ds = ascii CHR ''0'' \<longrightarrow> tl ds = []) \<and> index_of ds \<le> UINT16_MAX"

text \<open>What a path means on a value.\<close>

fun member :: "json \<Rightarrow> segment \<Rightarrow> json option" where
  "member (Object ms) (Dot_key k) = map_option snd (find (\<lambda>(n, v). n = key_of k) ms)"
| "member (Object ms) (Quoted_key k) = map_option snd (find (\<lambda>(n, v). n = key_of k) ms)"
| "member (Array js) (Index ds) = (if index_of ds < length js then Some (js ! index_of ds) else None)"
| "member _ _ = None"

fun lookup :: "json \<Rightarrow> segment list \<Rightarrow> json option" where
  "lookup j [] = Some j"
| "lookup j (s # ss) = Option.bind (member j s) (\<lambda>v. lookup v ss)"

definition path_text :: "segment list \<Rightarrow> byte list" where
  "path_text ss = ascii CHR ''$'' # concat (map segment_text ss)"

subsection \<open>Finding bytes\<close>

lemma mem_chr_found:
  "drop p m = u @ c # v \<Longrightarrow> c \<notin> set u \<Longrightarrow> length u < n \<Longrightarrow> mem_chr m p c n = Some (Some (p + length u))"
proof (induction u arbitrary: p n)
  case Nil
  then show ?case using mem_get_drop [of p m c v] by (subst mem_chr.simps) simp
next
  case (Cons x u)
  have x: "mem_get p m = Some x" "drop (p + 1) m = u @ c # v" using mem_get_drop [of p m x] Cons.prems(1) by auto
  then have "mem_chr m p c n = mem_chr m (p + 1) c (n - 1)" using Cons.prems(2,3) by (subst mem_chr.simps) auto
  then show ?case using Cons.IH [OF x(2), of "n - 1"] Cons.prems(2,3) by simp
qed

lemma mem_chr_total: "p + n \<le> length m \<Longrightarrow> \<exists>r. mem_chr m p c n = Some r"
proof (induction n arbitrary: p)
  case (Suc n)
  then show ?case using Suc.IH [of "p + 1"] by (subst mem_chr.simps) (auto simp: mem_get_Some)
qed (simp add: mem_chr.simps)

lemma mem_chr_after:
  assumes "mem_chr m p c n = Some (Some q)" and "drop p m = u @ v" and "c \<notin> set u"
  shows "p + length u \<le> q"
proof (rule ccontr)
  note b = mem_chr_bounds [OF assms(1)]
  assume "\<not> p + length u \<le> q"
  then have q: "q - p < length u" "q = p + (q - p)" using b by auto
  have "q < length m" using b by (auto simp: mem_get_def split: if_splits)
  then have "m ! q = drop p m ! (q - p)" using q(2) by simp
  also have "\<dots> = u ! (q - p)" using assms(2) q(1) by (simp add: nth_append)
  finally have "m ! q \<in> set u" using q(1) by simp
  then show False using b assms(3) by (auto simp: mem_get_def split: if_splits)
qed

lemma after_dot_ok:
  assumes k: "k \<noteq> []" "ascii CHR ''.'' \<notin> set k" "ascii CHR ''['' \<notin> set k"
    and m: "drop (ps_current ps + 1) m = k @ rest @ r" and e: "ps_end ps = ps_current ps + 1 + length (k @ rest)"
    and rest: "rest = [] \<or> hd rest = ascii CHR ''.'' \<or> hd rest = ascii CHR ''[''"
    and in_m: "ps_end ps \<le> length m"
  shows "json_path_parse_key_after_dot m ps = Some (Some ((ps_current ps + 1, length k), ps\<lparr>ps_current := ps_current ps + 1 + length k\<rparr>))"
proof -
  let ?s = "ps_current ps + 1" and ?n = "length (k @ rest)"
  have sz: "size_minus (ps_end ps) ?s = ?n" using e by simp
  have tot: "\<exists>r. mem_chr m ?s c ?n = Some r" for c using mem_chr_total [of ?s ?n m c] e in_m by simp
  obtain dot br where mc: "mem_chr m ?s (ascii CHR ''.'') ?n = Some dot" "mem_chr m ?s (ascii CHR ''['') ?n = Some br"
    using tot by meson
  have ge: "dot = Some q \<Longrightarrow> ?s + length k \<le> q \<and> q < ?s + ?n \<and> mem_get q m = Some (ascii CHR ''.'')"
    "br = Some q \<Longrightarrow> ?s + length k \<le> q \<and> q < ?s + ?n \<and> mem_get q m = Some (ascii CHR ''['')" for q
    using mem_chr_after [OF _ m, of _ ?n q] mem_chr_bounds [of m ?s _ ?n q] k mc by blast+
  have "(case get_lowest_not_null_pointer dot br of None \<Rightarrow> ps_end ps | Some p \<Rightarrow> p) = ?s + length k"
  proof (cases rest)
    case Nil
    have "dot \<noteq> Some q" for q using ge(1) [of q] Nil by auto
    moreover have "br \<noteq> Some q" for q using ge(2) [of q] Nil by auto
    ultimately have "dot = None" "br = None" using option.exhaust by metis+
    then show ?thesis using e Nil by (simp add: get_lowest_not_null_pointer_def)
  next
    case (Cons c cs)
    have d: "drop ?s m = k @ c # cs @ r" using m Cons by simp
    have at: "mem_get (?s + length k) m = Some c" using mem_get_drop [OF drop_past [OF d]] by simp
    have n: "length k < ?n" using Cons by simp
    consider "c = ascii CHR ''.''" | "c = ascii CHR ''[''" using rest Cons by auto
    then show ?thesis
    proof cases
      case 1
      then have "dot = Some (?s + length k)" using mem_chr_found [OF d] k(2) n mc(1) by simp
      moreover have "br = Some q \<Longrightarrow> ?s + length k < q" for q using ge(2) [of q] at 1 by (cases "q = ?s + length k") auto
      ultimately show ?thesis by (cases br) (auto simp: get_lowest_not_null_pointer_def)
    next
      case 2
      then have "br = Some (?s + length k)" using mem_chr_found [OF d] k(3) n mc(2) by simp
      moreover have "dot = Some q \<Longrightarrow> ?s + length k < q" for q using ge(1) [of q] at 2 by (cases "q = ?s + length k") auto
      ultimately show ?thesis by (cases dot) (auto simp: get_lowest_not_null_pointer_def)
    qed
  qed
  then show ?thesis
    using k(1) unfolding json_path_parse_key_after_dot_def Let_def sz mc by simp
qed

lemma quoted_plain: "apostrophe \<notin> set k \<Longrightarrow> quoted k = k"
  by (induction k) (auto simp: quoted_def)

lemma quoted_split: "apostrophe \<notin> set a \<Longrightarrow> quoted (a @ apostrophe # k) = a @ [backslash, apostrophe] @ quoted k"
  using quoted_plain [of a] by (simp add: quoted_def)

lemma quote_loop_quoted:
  "drop p m = quoted k @ apostrophe # v \<Longrightarrow> 0 < p \<Longrightarrow> mem_get (p - 1) m \<noteq> Some backslash \<Longrightarrow> p \<le> length m \<Longrightarrow>
     (k \<noteq> [] \<longrightarrow> last k \<noteq> backslash) \<Longrightarrow> p + length (quoted k) < e \<Longrightarrow> quote_loop m e p = Some (Some (p + length (quoted k)))"
proof (induction k arbitrary: p rule: length_induct)
  case (1 k)
  show ?case
  proof (cases "apostrophe \<in> set k")
    case False
    note q = quoted_plain [OF False]
    have d: "drop p m = k @ apostrophe # v" using "1.prems"(1) q by simp
    have "mem_chr m p apostrophe (size_minus e p) = Some (Some (p + length k))"
      using mem_chr_found [OF d False] "1.prems"(6) q by simp
    moreover have "\<exists>c. mem_get (p + length k - 1) m = Some c \<and> c \<noteq> backslash"
    proof (cases "k = []")
      case True
      have "p - 1 < length m" using "1.prems"(2,4) by simp
      then show ?thesis using "1.prems"(3) True by (simp add: mem_get_def)
    next
      case k: False
      then obtain k' x where kx: "k = k' @ [x]" by (cases k rule: rev_cases) auto
      then have dx: "drop p m = k' @ x # apostrophe # v" using d by simp
      show ?thesis using mem_get_drop [OF drop_past [OF dx]] "1.prems"(5) kx by auto
    qed
    ultimately show ?thesis using "1.prems"(6) q by (subst quote_loop.simps) auto
  next
    case True
    then obtain a k' where k: "k = a @ apostrophe # k'" "apostrophe \<notin> set a" by (auto dest: split_list_first)
    have qk: "quoted k = (a @ [backslash]) @ apostrophe # quoted k'" using quoted_split [OF k(2)] k(1) by simp
    have d: "drop p m = (a @ [backslash]) @ apostrophe # quoted k' @ apostrophe # v" using "1.prems"(1) qk by simp
    let ?q = "p + length (a @ [backslash])"
    have mc: "mem_chr m p apostrophe (size_minus e p) = Some (Some ?q)"
      using mem_chr_found [OF d] k(2) "1.prems"(6) qk by simp
    have bs: "mem_get (?q - 1) m = Some backslash" using mem_get_drop [OF drop_past [of p m a]] d by simp
    have at: "mem_get ?q m = Some apostrophe" "drop (?q + 1) m = quoted k' @ apostrophe # v" "?q < length m"
      using mem_get_drop [OF drop_past [OF d]] by auto
    have "quote_loop m e p = quote_loop m e (?q + 1)"
      using mc bs "1.prems"(6) qk by (subst quote_loop.simps) simp
    also have "\<dots> = Some (Some (?q + 1 + length (quoted k')))"
      by (rule "1.IH" [rule_format, of k' "?q + 1"]) (use at k(1) qk "1.prems"(5,6) in auto)
    finally show ?thesis using qk by simp
  qed
qed

lemma in_brackets_ok:
  assumes "segment_ok s" and "\<forall>k. s \<noteq> Dot_key k" and m: "drop (ps_current ps) m = segment_text s @ r"
    and e: "ps_current ps + length (segment_text s) \<le> ps_end ps"
  shows "json_path_parse_key_in_brackets m ps =
    Some (Some ((ps_current ps, length (segment_text s)), ps\<lparr>ps_current := ps_current ps + length (segment_text s)\<rparr>))"
proof -
  let ?p = "ps_current ps + 1"
  have "bracket_end m (ps_end ps) ?p = Some (Some (ps_current ps + length (segment_text s) - 1))"
  proof (cases s)
    case (Index ds)
    then obtain c cs where c: "ds = c # cs" "isdigit c" using assms(1) by (cases ds) auto
    have m1: "drop ?p m = c # cs @ ascii CHR '']'' # r" using mem_get_drop [of "ps_current ps" m] m Index c by auto
    have m2: "mem_get ?p m = Some c" "drop (?p + 1) m = cs @ ascii CHR '']'' # r" using mem_get_drop [OF m1] by auto
    have nb: "ascii CHR '']'' \<notin> set cs" using assms(1) Index c by (auto simp: list_all_iff isdigit_def)
    have "mem_chr m (?p + 1) (ascii CHR '']'') (size_minus (ps_end ps) (?p + 1)) = Some (Some (?p + 1 + length cs))"
      using mem_chr_found [OF m2(2) nb] e Index c by simp
    moreover have "c \<noteq> apostrophe" "c \<noteq> ascii CHR '']''" using c(2) by (auto simp: isdigit_def)
    ultimately show ?thesis using m2(1) Index c by (simp add: bracket_end_def)
  next
    case (Quoted_key k)
    have m1: "drop ?p m = apostrophe # quoted k @ apostrophe # ascii CHR '']'' # r"
      using mem_get_drop [of "ps_current ps" m] m Quoted_key by auto
    have m2: "mem_get ?p m = Some apostrophe" "drop (?p + 1) m = quoted k @ apostrophe # ascii CHR '']'' # r" "?p < length m"
      using mem_get_drop [OF m1] by auto
    have q: "quote_loop m (ps_end ps) (?p + 1) = Some (Some (?p + 1 + length (quoted k)))"
      by (rule quote_loop_quoted [OF m2(2)]) (use m2 assms(1) Quoted_key e in auto)
    have m3: "drop (?p + 1 + length (quoted k) + 1) m = ascii CHR '']'' # r"
      using mem_get_drop [OF drop_past [OF m2(2)]] by auto
    have "mem_get (?p + 1 + length (quoted k) + 1) m = Some (ascii CHR '']'')" using mem_get_drop [OF m3] by simp
    then show ?thesis using q m2(1) e Quoted_key by (simp add: bracket_end_def)
  qed (use assms(2) in simp)
  then show ?thesis by (cases s) (simp_all add: json_path_parse_key_in_brackets_def)
qed

subsection \<open>Indices and keys\<close>

lemma segment_index_ok:
  assumes "segment_ok (Index ds)"
  shows "sol_json_path_array_get_segment_index (segment_text (Index ds)) = Inr (index_of ds)"
    "sol_json_path_is_array_key (segment_text (Index ds))"
proof -
  obtain c cs where c: "ds = c # cs" "isdigit c" using assms by (cases ds) auto
  show k: "sol_json_path_is_array_key (segment_text (Index ds))"
    using c digit_facts(6) by (simp add: sol_json_path_is_array_key_def)
  have tw: "takeWhile (\<lambda>c. c \<noteq> 0) ds = ds" using assms digit_facts(2) by (auto simp: takeWhile_eq_all_conv list_all_iff)
  have st: "sol_util_strtol_n ds = (int (index_of ds), length ds, None)"
    unfolding sol_util_strtol_n_def tw by (rule strtol_digits) (use assms in auto)
  have "sol_str_slice_to_int ds = Inr (int (index_of ds))"
    unfolding sol_str_slice_to_int_def st using assms c by (simp add: INT_MAX_def UINT16_MAX_def)
  then show "sol_json_path_array_get_segment_index (segment_text (Index ds)) = Inr (index_of ds)"
    using k c assms by (simp add: sol_json_path_array_get_segment_index_def)
qed

lemma unquote_loop_quoted:
  "plain b \<Longrightarrow> drop p key = quoted k \<Longrightarrow> p \<le> length key \<Longrightarrow> bused b + length k \<le> 2 ^ 61 \<Longrightarrow>
     \<exists>p' b'. unquote_loop (libc_std x) key p b = Some (Inr p', b') \<and> plain b' \<and> p' \<le> length key \<and>
       sol_buffer_get_slice b' @ drop p' key = sol_buffer_get_slice b @ k \<and> bused b' + length (drop p' key) \<le> 2 ^ 61 \<and>
       (b' = b \<and> p' = p \<or> bdata b' \<noteq> None)"
proof (induction k arbitrary: p b rule: length_induct)
  case (1 k)
  show ?case
  proof (cases "apostrophe \<in> set k")
    case False
    note q = quoted_plain [OF False]
    have "mem_chr key p apostrophe (length key - p) = Some None"
    proof -
      obtain r where r: "mem_chr key p apostrophe (length key - p) = Some r"
        using mem_chr_total [of p "length key - p" key] "1.prems"(3) by auto
      have "r \<noteq> Some z" for z
      proof
        assume z: "r = Some z"
        have "p + length k \<le> z" by (rule mem_chr_after [of key p apostrophe "length key - p" z k "[]"]) (use r z "1.prems"(2) q False in auto)
        moreover have "z < length key" using mem_chr_bounds [of key p apostrophe "length key - p" z] r z "1.prems"(3) by auto
        moreover have "length key - p = length k" using arg_cong [OF "1.prems"(2), of length] q by simp
        ultimately show False using "1.prems"(3) by linarith
      qed
      then show ?thesis using r by (cases r) auto
    qed
    then have "unquote_loop (libc_std x) key p b = Some (Inr p, b)" by (subst unquote_loop.simps) simp
    then show ?thesis using "1.prems" q by auto
  next
    case True
    then obtain a k' where k: "k = a @ apostrophe # k'" "apostrophe \<notin> set a" by (auto dest: split_list_first)
    have d: "drop p key = (a @ [backslash]) @ apostrophe # quoted k'" using "1.prems"(2) quoted_split [OF k(2)] k(1) by simp
    let ?q = "p + length (a @ [backslash])"
    have at: "drop (?q + 1) key = quoted k'" "?q < length key" using mem_get_drop [OF drop_past [OF d]] by auto
    have mc: "mem_chr key p apostrophe (length key - p) = Some (Some ?q)"
      using mem_chr_found [OF d] k(2) at(2) by auto
    have rd: "mem_read p (size_minus (?q - p) 1) key = Some a" using mem_read_append [of p key a] d "1.prems"(3) by simp
    obtain b1 where b1: "sol_buffer_append_slice (libc_std x) a b = Some (Inr (), b1)" "plain b1"
      "sol_buffer_get_slice b1 = sol_buffer_get_slice b @ a" "bused b1 = bused b + length a"
      by (rule append_succeeds [OF "1.prems"(1)]) (use "1.prems"(4) k(1) in auto)
    obtain b2 where b2: "sol_buffer_append_char (libc_std x) apostrophe b1 = Some (Inr (), b2)" "plain b2"
      "sol_buffer_get_slice b2 = sol_buffer_get_slice b1 @ [apostrophe]" "bused b2 = bused b1 + 1"
      by (rule append_char_succeeds [OF b1(2)]) (use "1.prems"(4) k(1) b1(4) in auto)
    have step: "unquote_loop (libc_std x) key p b = unquote_loop (libc_std x) key (?q + 1) b2"
      using mc rd b1(1) b2(1) at(2) by (subst unquote_loop.simps) simp
    have data: "bdata b2 \<noteq> None"
    proof
      assume "bdata b2 = None"
      then have "sol_buffer_get_slice b2 = []" by (simp add: sol_buffer_get_slice_def buf_mem_def)
      then show False using b2(3) by simp
    qed
    have len: "length k' < length k" using k(1) by simp
    obtain p' b' where "unquote_loop (libc_std x) key (?q + 1) b2 = Some (Inr p', b')" "plain b'" "p' \<le> length key"
      "sol_buffer_get_slice b' @ drop p' key = sol_buffer_get_slice b2 @ k'" "bused b' + length (drop p' key) \<le> 2 ^ 61"
      "b' = b2 \<or> bdata b' \<noteq> None"
      using "1.IH" [rule_format, OF len b2(2) at(1)] at(2) "1.prems"(4) k(1) b1(4) b2(4) by auto
    then show ?thesis unfolding step using b1(3) b2(3) k(1) data by auto
  qed
qed

subsection \<open>The steps of a lookup\<close>

text \<open>The bytes of the slice that is returned for a segment.\<close>

fun segment_slice :: "segment \<Rightarrow> byte list" where
  "segment_slice (Dot_key k) = k"
| "segment_slice s = segment_text s"

fun segment_name :: "segment \<Rightarrow> byte list" where
  "segment_name (Dot_key k) = k"
| "segment_name (Quoted_key k) = k"
| "segment_name (Index ds) = []"

lemmas buffer_flags = SOL_BUFFER_FLAGS_NO_NUL_BYTE_def SOL_BUFFER_FLAGS_MEMORY_NOT_OWNED_def SOL_BUFFER_FLAGS_CLEAR_MEMORY_def
  SOL_BUFFER_FLAGS_FIXED_CAPACITY_def SOL_BUFFER_FLAGS_NO_FREE_def

lemma refer_to_ok:
  obtains b b' where "refer_to bs = Some b" "sol_buffer_get_slice b = bs" "sol_buffer_fini b = Some b'"
proof -
  let ?b = "\<lparr>bdata = Some bs, bcapacity = length bs, bused = length bs,
    bflags = SOL_BUFFER_FLAGS_MEMORY_NOT_OWNED OR SOL_BUFFER_FLAGS_NO_NUL_BYTE, breleased = []\<rparr>"
  have r: "refer_to bs = Some ?b" by (simp add: refer_to_def sol_buffer_init_flags_def)
  have "\<not> has_flag SOL_BUFFER_FLAGS_CLEAR_MEMORY ?b" by (simp add: has_flag_def buffer_flags)
  then obtain b' where "sol_buffer_fini ?b = Some b'" by (simp add: sol_buffer_fini_def)
  with that [OF r] show thesis by (simp add: sol_buffer_get_slice_def buf_mem_def)
qed

lemma parse_object_key_ok:
  assumes "segment_ok s" and "\<forall>ds. s \<noteq> Index ds"
  obtains b b' where "json_path_parse_object_key (libc_std x) (segment_slice s) = Some (Inr (), b)"
    "sol_buffer_get_slice b = segment_name s" "sol_buffer_fini b = Some b'"
proof (cases s)
  case (Dot_key k)
  obtain b b' where b: "refer_to k = Some b" "sol_buffer_get_slice b = k" "sol_buffer_fini b = Some b'" by (rule refer_to_ok)
  obtain c cs where "k = c # cs" "c \<noteq> ascii CHR ''[''" using assms(1) Dot_key by (cases k) auto
  with b that [of b b'] Dot_key show thesis by (simp add: json_path_parse_object_key_def mem_get_def)
next
  case (Quoted_key k)
  define b0 where "b0 = \<lparr>bdata = None, bcapacity = 0, bused = 0, bflags = SOL_BUFFER_FLAGS_NO_NUL_BYTE, breleased = []\<rparr>"
  have i: "sol_buffer_init_flags None 0 SOL_BUFFER_FLAGS_NO_NUL_BYTE = Some b0"
    by (simp add: sol_buffer_init_flags_def b0_def buffer_flags)
  have b0: "plain b0" "sol_buffer_get_slice b0 = []" "bused b0 = 0" "bdata b0 = None"
    by (simp_all add: plain_def buf_wf_def b0_def sol_buffer_get_slice_def buf_mem_def has_flag_def SOL_BUFFER_FLAGS_NO_NUL_BYTE_def
        SOL_BUFFER_FLAGS_CLEAR_MEMORY_def)
  let ?key = "segment_slice s"
  have rd: "mem_read 2 (size_minus (length ?key) 4) ?key = Some (quoted k)" "mem_get 0 ?key = Some (ascii CHR ''['')"
    using Quoted_key mem_read_append [of 2 ?key "quoted k"] by (simp_all add: mem_get_def)
  obtain p b1 where l: "unquote_loop (libc_std x) (quoted k) 0 b0 = Some (Inr p, b1)" "plain b1" "p \<le> length (quoted k)"
    "sol_buffer_get_slice b1 @ drop p (quoted k) = k" "bused b1 + length (drop p (quoted k)) \<le> 2 ^ 61"
    "b1 = b0 \<and> p = 0 \<or> bdata b1 \<noteq> None"
    using unquote_loop_quoted [OF b0(1), of 0 "quoted k" k x] assms(1) Quoted_key b0(2,3) by auto
  show thesis
  proof (cases "bdata b1 = None")
    case True
    then have k: "quoted k = k" using l(4,6) b0(2) by auto
    obtain b b' where "refer_to k = Some b" "sol_buffer_get_slice b = k" "sol_buffer_fini b = Some b'" by (rule refer_to_ok)
    with that [of b b'] show thesis using rd i l(1) True k Quoted_key by (simp add: json_path_parse_object_key_def)
  next
    case False
    have rest: "mem_read p (size_minus (length (quoted k)) p) (quoted k) = Some (drop p (quoted k))"
      using mem_read_append [of p "quoted k" "drop p (quoted k)" "[]"] l(3) by simp
    obtain b where b: "sol_buffer_append_slice (libc_std x) (drop p (quoted k)) b1 = Some (Inr (), b)" "plain b"
      "sol_buffer_get_slice b = sol_buffer_get_slice b1 @ drop p (quoted k)"
      by (rule append_succeeds [OF l(2)]) (use l(5) in auto)
    obtain b' where "sol_buffer_fini b = Some b'" using sol_buffer_fini_ok [of b] b(2) by (auto simp: plain_def)
    with that [of b b'] show thesis using rd i l(1,4) rest b(1,3) Quoted_key
      by (simp add: json_path_parse_object_key_def if_not_P [OF False])
  qed
qed (use assms(2) in simp)

lemma segment_text_hd: "segment_ok s \<Longrightarrow> \<exists>c cs. segment_text s = c # cs \<and> (c = ascii CHR ''.'' \<or> c = ascii CHR ''['')"
  by (cases s) auto

lemma path_segments_hd:
  assumes "list_all segment_ok ss"
  shows "concat (map segment_text ss) = [] \<or> hd (concat (map segment_text ss)) \<in> {ascii CHR ''.'', ascii CHR ''[''}"
proof (cases ss)
  case (Cons s ss')
  then show ?thesis using assms segment_text_hd [of s] by auto
qed simp

lemma next_segment_ok:
  assumes "list_all segment_ok (s # ss)" and m: "drop (ps_current ps) m = concat (map segment_text (s # ss)) @ r"
    and e: "ps_end ps = ps_current ps + length (concat (map segment_text (s # ss)))" "ps_path ps < ps_current ps"
    and in_m: "ps_end ps \<le> length m"
  obtains p n where "sol_json_path_get_next_segment m ps reason =
      Some (Some (p, n), ps\<lparr>ps_current := ps_current ps + length (segment_text s)\<rparr>, reason)"
    "mem_read p n m = Some (segment_slice s)"
proof -
  obtain c cs where c: "segment_text s = c # cs" "c = ascii CHR ''.'' \<or> c = ascii CHR ''[''"
    using segment_text_hd [of s] assms(1) by auto
  have get: "mem_get (ps_current ps) m = Some c" using mem_get_drop [of "ps_current ps" m c] m c(1) by simp
  have cur: "ps_current ps < ps_end ps" "ps_path ps \<noteq> ps_end ps" "ps_current ps \<noteq> ps_path ps" using e c(1) by auto
  show thesis
  proof (cases "\<exists>k. s = Dot_key k")
    case True
    then obtain k where k: "s = Dot_key k" by blast
    have d: "drop (ps_current ps + 1) m = k @ concat (map segment_text ss) @ r"
      using mem_get_drop [of "ps_current ps" m] m k by simp
    have "json_path_parse_key_after_dot m ps =
        Some (Some ((ps_current ps + 1, length k), ps\<lparr>ps_current := ps_current ps + 1 + length k\<rparr>))"
      by (rule after_dot_ok [OF _ _ _ d]) (use assms(1) k e(1) in_m path_segments_hd [of ss] in auto)
    moreover have "mem_read (ps_current ps + 1) (length k) m = Some k"
      using mem_read_append [OF d] cur(1) in_m by simp
    ultimately show thesis using that [of "ps_current ps + 1" "length k"] k get cur c
      by (simp add: sol_json_path_get_next_segment_def)
  next
    case False
    have "json_path_parse_key_in_brackets m ps =
        Some (Some ((ps_current ps, length (segment_text s)), ps\<lparr>ps_current := ps_current ps + length (segment_text s)\<rparr>))"
      by (rule in_brackets_ok [of _ _ _ "concat (map segment_text ss) @ r"]) (use assms(1) False m e(1) in auto)
    moreover have "mem_read (ps_current ps) (length (segment_text s)) m = Some (segment_text s)"
      using mem_read_append [of "ps_current ps" m "segment_text s"] m cur(1) in_m by simp
    moreover have "segment_slice s = segment_text s" "c = ascii CHR ''[''" using False c(1) by (cases s; auto)+
    ultimately show thesis using that [of "ps_current ps" "length (segment_text s)"] get cur
      by (simp add: sol_json_path_get_next_segment_def)
  qed
qed

lemma by_path_loop_end:
  assumes "ps_path ps < ps_current ps" and "ps_end ps = ps_current ps"
  shows "by_path_loop l d m sc ps val SOL_JSON_LOOP_REASON_OK = Some (Inr (), sc, val)"
  using assms by (subst by_path_loop.simps) (simp add: sol_json_path_get_next_segment_def)

text \<open>One segment of a path on a value: the loop goes on at the member, or there is none.\<close>

definition follows :: "byte libc \<Rightarrow> byte list \<Rightarrow> byte list \<Rightarrow> sol_json_scanner \<Rightarrow> sol_json_path_scanner \<Rightarrow> sol_json_token
    \<Rightarrow> json \<Rightarrow> segment \<Rightarrow> bool" where
  "follows l d m sc ps val v s = (case member v s of
      None \<Rightarrow> \<exists>sc1 val'. by_path_loop l d m sc ps val SOL_JSON_LOOP_REASON_OK = Some (Inl ENOENT, sc1, val')
    | Some w \<Rightarrow> \<exists>sc1 val' sc2. by_path_loop l d m sc ps val SOL_JSON_LOOP_REASON_OK =
          by_path_loop l d m sc1 (ps\<lparr>ps_current := ps_current ps + length (segment_text s)\<rparr>) val' SOL_JSON_LOOP_REASON_OK \<and>
        tk_start val' = Some (sc_current sc1) \<and> wf_json w \<and> scans d sc1 (tokens w) sc2 \<and>
        mem_get (sc_current sc1) d = Some (hd (hd (tokens w))))"

lemma followsI:
  assumes "member v s = Some w" "by_path_loop l d m sc ps val SOL_JSON_LOOP_REASON_OK =
        by_path_loop l d m sc1 (ps\<lparr>ps_current := ps_current ps + length (segment_text s)\<rparr>) val' SOL_JSON_LOOP_REASON_OK"
    "tk_start val' = Some (sc_current sc1)" "wf_json w" "scans d sc1 (tokens w) sc2" "mem_get (sc_current sc1) d = Some (hd (hd (tokens w)))"
  shows "follows l d m sc ps val v s"
  unfolding follows_def assms(1) option.case using assms(2-6) by blast

text \<open>The segment that comes next on the path.\<close>

definition next_is :: "byte list \<Rightarrow> sol_json_path_scanner \<Rightarrow> segment \<Rightarrow> bool" where
  "next_is m ps s \<longleftrightarrow> segment_ok s \<and> (\<exists>p n. sol_json_path_get_next_segment m ps SOL_JSON_LOOP_REASON_OK =
      Some (Some (p, n), ps\<lparr>ps_current := ps_current ps + length (segment_text s)\<rparr>, SOL_JSON_LOOP_REASON_OK) \<and>
    mem_read p n m = Some (segment_slice s))"

lemma array_key_iff: "segment_ok s \<Longrightarrow> sol_json_path_is_array_key (segment_slice s) \<longleftrightarrow> (\<exists>ds. s = Index ds)"
  using segment_index_ok(2) by (cases s) (auto simp: sol_json_path_is_array_key_def neq_Nil_conv)

lemma follows_atom:
  assumes "next_is m ps s" and "wf_json (Atom t)" and "mem_get (sc_current sc) d = Some (hd t)"
  shows "follows l d m sc ps val (Atom t) s"
proof -
  have "byte_type (hd t) \<noteq> SOL_JSON_TYPE_OBJECT_START" "byte_type (hd t) \<noteq> SOL_JSON_TYPE_ARRAY_START"
    using atom_type(1) [of t] assms(2) by auto
  then show ?thesis
    using assms by (subst follows_def, subst by_path_loop.simps) (auto simp: next_is_def sol_json_mem_get_type_def)
qed

lemma follows_array:
  assumes nx: "next_is m ps s" and v: "wf_json (Array js)" "scans d sc (tokens (Array js)) sc'"
    and c: "mem_get (sc_current sc) d = Some (ascii CHR ''['')"
  shows "follows l d m sc ps val (Array js) s"
proof -
  have ty: "sol_json_mem_get_type d (sc_current sc) = Some SOL_JSON_TYPE_ARRAY_START"
    using c by (simp add: sol_json_mem_get_type_def byte_type_def)
  note ps = nx [unfolded next_is_def] and key = array_key_iff [of s]
  show ?thesis
  proof (cases "\<exists>ds. s = Index ds")
    case False
    then have "member (Array js) s = None" by (cases s) auto
    then show ?thesis using False ty ps key by (subst follows_def, subst by_path_loop.simps) auto
  next
    case True
    then obtain ds where ds: "s = Index ds" by blast
    have idx: "sol_json_path_array_get_segment_index (segment_slice s) = Inr (index_of ds)" "index_of ds \<le> UINT16_MAX"
      using segment_index_ok(1) [of ds] ps ds by auto
    note look = at_index_doc [OF v c idx(2), of val]
    show ?thesis
    proof (cases "index_of ds < length js")
      case False
      then obtain val' where "sol_json_array_get_at_index d sc (index_of ds) val = Some (Inl ENOENT, sc', val')" using look by auto
      then show ?thesis using False ds ty ps key idx by (subst follows_def, subst by_path_loop.simps) auto
    next
      case True
      let ?w = "js ! index_of ds"
      obtain sc1 q sc2 where l: "sol_json_array_get_at_index d sc (index_of ds) val = Some (Inr (), sc1, token_at q (hd (tokens ?w)))"
        "stands d q ?w sc2" "sc_mem_end sc2 = sc_mem_end sc1" "sc_mem sc2 = sc_mem sc1" using look True by auto
      have at: "scans d (sc1\<lparr>sc_current := q\<rparr>) (tokens ?w) sc2" "mem_get q d = Some (hd (hd (tokens ?w)))"
        using l(2) scanner_restart [OF l(4,3)] by (simp_all add: stands_def)
      show ?thesis
      proof (rule followsI [OF _ _ _ _ at(1)])
        show "wf_json ?w" using v(1) True by (simp add: list_all_length)
      qed (use at(2) True ds ty ps key idx l(1) in \<open>auto simp: token_at_def by_path_loop.simps [of l d m sc ps]\<close>)
    qed
  qed
qed

lemma follows_object:
  assumes nx: "next_is m ps s" and v: "wf_json (Object ms)" "scans d sc (tokens (Object ms)) sc'"
    and c: "mem_get (sc_current sc) d = Some (ascii CHR ''{'')"
  shows "follows (libc_std x) d m sc ps val (Object ms) s"
proof -
  have ty: "sol_json_mem_get_type d (sc_current sc) = Some SOL_JSON_TYPE_OBJECT_START"
    using c by (simp add: sol_json_mem_get_type_def byte_type_def)
  note ps = nx [unfolded next_is_def] and key = array_key_iff [of s]
  show ?thesis
  proof (cases "\<exists>ds. s = Index ds")
    case True
    then have "member (Object ms) s = None" by (cases s) auto
    then show ?thesis using True ty ps key by (subst follows_def, subst by_path_loop.simps) auto
  next
    case False
    let ?find = "find (\<lambda>(k, v). k = key_of (segment_name s)) ms"
    have mem: "member (Object ms) s = map_option snd ?find" using False by (cases s) auto
    obtain b b' where b: "json_path_parse_object_key (libc_std x) (segment_slice s) = Some (Inr (), b)"
      "sol_buffer_get_slice b = segment_name s" "sol_buffer_fini b = Some b'"
      by (rule parse_object_key_ok [of s x]) (use ps False in auto)
    note look = by_key_doc [OF v c, of "segment_name s" val]
    show ?thesis
    proof (cases ?find)
      case None
      then obtain val' where "sol_json_object_get_value_by_key d sc (segment_name s) val = Some (Inl ENOENT, sc', val')"
        using look by auto
      then show ?thesis using None mem False ty ps key b by (subst follows_def, subst by_path_loop.simps) auto
    next
      case (Some kw)
      obtain k w where kw: "kw = (k, w)" by (cases kw)
      obtain sc1 val' q where l: "sol_json_object_get_value_by_key d sc (segment_name s) val = Some (Inr (), sc1, val')"
        "tk_start val' = Some q" "stands d q w sc1" using look Some kw by (auto simp: value_at_def)
      have at: "scans d (sc1\<lparr>sc_current := q\<rparr>) (tokens w) sc1" "mem_get q d = Some (hd (hd (tokens w)))"
        using l(3) by (simp_all add: stands_def)
      have "(k, w) \<in> set ms" using Some kw by (metis find_Some_iff nth_mem)
      then have w: "wf_json w" using v(1) by (auto simp: list_all_iff)
      show ?thesis
        by (rule followsI [OF _ _ _ w at(1)])
          (use at(2) mem Some kw False ty ps key b l(1,2) in \<open>auto simp: by_path_loop.simps [of _ d m sc ps]\<close>)
    qed
  qed
qed

lemma by_path_loop_step:
  assumes ok: "list_all segment_ok (s # ss)" and m: "drop (ps_current ps) m = concat (map segment_text (s # ss)) @ r"
    and e: "ps_end ps = ps_current ps + length (concat (map segment_text (s # ss)))" "ps_path ps < ps_current ps" "ps_end ps \<le> length m"
    and v: "wf_json v" "scans d sc (tokens v) sc'" "mem_get (sc_current sc) d = Some (hd (hd (tokens v)))"
  shows "follows (libc_std x) d m sc ps val v s"
proof -
  have nx: "next_is m ps s"
    using ok by (auto simp: next_is_def intro: next_segment_ok [OF ok m e, of SOL_JSON_LOOP_REASON_OK])
  show ?thesis
    using v follows_atom [OF nx] follows_array [OF nx] follows_object [OF nx] by (cases v) simp_all
qed

lemma by_path_loop_ok:
  "list_all segment_ok ss \<Longrightarrow> drop (ps_current ps) m = concat (map segment_text ss) @ r \<Longrightarrow>
   ps_end ps = ps_current ps + length (concat (map segment_text ss)) \<Longrightarrow> ps_path ps < ps_current ps \<Longrightarrow> ps_end ps \<le> length m \<Longrightarrow>
   wf_json v \<Longrightarrow> scans d sc (tokens v) sc' \<Longrightarrow> mem_get (sc_current sc) d = Some (hd (hd (tokens v))) \<Longrightarrow>
   (case lookup v ss of
      None \<Rightarrow> \<exists>sc1 val'. by_path_loop (libc_std x) d m sc ps val SOL_JSON_LOOP_REASON_OK = Some (Inl ENOENT, sc1, val')
    | Some w \<Rightarrow> \<exists>sc1 val' sc2. by_path_loop (libc_std x) d m sc ps val SOL_JSON_LOOP_REASON_OK = Some (Inr (), sc1, val') \<and>
        scans d sc1 (tokens w) sc2 \<and> (ss = [] \<and> sc1 = sc \<or> tk_start val' = Some (sc_current sc1)))"
proof (induction ss arbitrary: ps sc val v sc')
  case Nil
  then show ?case using by_path_loop_end [of ps] by auto
next
  case (Cons s ss)
  let ?ps = "ps\<lparr>ps_current := ps_current ps + length (segment_text s)\<rparr>"
  note step = by_path_loop_step [OF Cons.prems, of x val, unfolded follows_def]
  show ?case
  proof (cases "member v s")
    case None
    then show ?thesis using step by simp
  next
    case (Some w)
    then obtain sc1 val1 sc2 where w: "by_path_loop (libc_std x) d m sc ps val SOL_JSON_LOOP_REASON_OK =
          by_path_loop (libc_std x) d m sc1 ?ps val1 SOL_JSON_LOOP_REASON_OK" "tk_start val1 = Some (sc_current sc1)" "wf_json w"
        "scans d sc1 (tokens w) sc2" "mem_get (sc_current sc1) d = Some (hd (hd (tokens w)))" using step by auto
    have d: "drop (ps_current ?ps) m = concat (map segment_text ss) @ r"
      using drop_past [of "ps_current ps" m "segment_text s"] Cons.prems(2) by simp
    show ?thesis
    proof (cases ss)
      case Nil
      then have "by_path_loop (libc_std x) d m sc1 ?ps val1 SOL_JSON_LOOP_REASON_OK = Some (Inr (), sc1, val1)"
        using Cons.prems(3,4) by (intro by_path_loop_end) auto
      then show ?thesis using w Nil Some by auto
    next
      case c: (Cons s' ss')
      have "case lookup w ss of
          None \<Rightarrow> \<exists>sc1' val'. by_path_loop (libc_std x) d m sc1 ?ps val1 SOL_JSON_LOOP_REASON_OK = Some (Inl ENOENT, sc1', val')
        | Some w \<Rightarrow> \<exists>sc1' val' sc2. by_path_loop (libc_std x) d m sc1 ?ps val1 SOL_JSON_LOOP_REASON_OK = Some (Inr (), sc1', val') \<and>
            scans d sc1' (tokens w) sc2 \<and> (ss = [] \<and> sc1' = sc1 \<or> tk_start val' = Some (sc_current sc1'))"
        by (rule Cons.IH [OF _ d _ _ _ w(3,4,5)]) (use Cons.prems(1,3,4,5) in auto)
      then show ?thesis using w(1) Some c by (cases "lookup w ss") auto
    qed
  qed
qed

lemma by_path_loop_root:
  assumes "mem_get p m = Some (ascii CHR ''$'')" and "p \<noteq> e"
  shows "by_path_loop l d m sc \<lparr>ps_path = p, ps_end = e, ps_current = p\<rparr> val reason =
    by_path_loop l d m sc \<lparr>ps_path = p, ps_end = e, ps_current = p + 1\<rparr> val reason"
proof -
  have "sol_json_path_get_next_segment m \<lparr>ps_path = p, ps_end = e, ps_current = p\<rparr> reason =
      sol_json_path_get_next_segment m \<lparr>ps_path = p, ps_end = e, ps_current = p + 1\<rparr> reason"
    using assms by (simp add: sol_json_path_get_next_segment_def)
  then show ?thesis by (simp add: by_path_loop.simps [of l d m sc "\<lparr>ps_path = p, ps_end = e, ps_current = _\<rparr>"])
qed

lemma document_first:
  assumes "spacing ws j" and "drop p d = document ws j @ r" and "\<forall>t. j \<noteq> Atom t"
  shows "mem_get p d = Some (hd (hd (tokens j)))"
  using assms by (cases j) (simp_all add: document_hd [OF assms(1,2)])

text \<open>
  C34. A path is followed to the value it names. On a well-formed array or object, for a path of keys
  behind dots, quoted keys and indices in brackets, in which the quotes of a quoted key are escaped,
  the function finds exactly the value that is reached from the document by taking one member or
  element for each segment: the returned token starts where that value starts, and scanning from
  there yields its tokens. If a segment has no such member or element, also when an array is given a
  key, an object an index or anything else either, the result is \<^verbatim>\<open>-ENOENT\<close>.\<close>

theorem json_path_lookup:
  assumes "wf_json j" and "spacing ws j" and "drop (sc_current sc) d = document ws j @ r"
    and "sc_current sc + length (document ws j) \<le> sc_mem_end sc" and "\<forall>t. j \<noteq> Atom t"
    and "list_all segment_ok ss" and "drop p m = path_text ss @ r'"
  shows "case lookup j ss of
      None \<Rightarrow> \<exists>sc' val'. sol_json_get_value_by_path (libc_std x) d sc m (p, length (path_text ss)) val = Some (Inl ENOENT, sc', val')
    | Some v \<Rightarrow> \<exists>sc' val' sc''. sol_json_get_value_by_path (libc_std x) d sc m (p, length (path_text ss)) val = Some (Inr (), sc', val') \<and>
        tk_start val' = Some (sc_current sc') \<and> scans d sc' (tokens v) sc''"
proof -
  let ?n = "length (path_text ss)" and ?ps = "\<lparr>ps_path = p, ps_end = p + length (path_text ss), ps_current = p + 1\<rparr>"
  have m: "mem_get p m = Some (ascii CHR ''$'')" "drop (p + 1) m = concat (map segment_text ss) @ r'"
    using mem_get_drop [of p m] assms(7) by (auto simp: path_text_def)
  have root: "by_path_loop (libc_std x) d m sc (sol_json_path_scanner_init (p, ?n)) val SOL_JSON_LOOP_REASON_OK =
      by_path_loop (libc_std x) d m sc ?ps val SOL_JSON_LOOP_REASON_OK"
    using by_path_loop_root [OF m(1)] by (simp add: sol_json_path_scanner_init_def path_text_def)
  have "length m - p = ?n + length r'" using arg_cong [OF assms(7), of length] by simp
  then have len: "p + ?n \<le> length m" "?n = 1 + length (concat (map segment_text ss))" by (simp_all add: path_text_def)
  note loop = by_path_loop_ok [of ss ?ps m r' j d sc _ x val, OF assms(6) _ _ _ _ assms(1) scans_document [OF assms(1-5)]
      document_first [OF assms(2,3,5)]]
  show ?thesis
  proof (cases "lookup j ss")
    case None
    then obtain sc1 val' where "by_path_loop (libc_std x) d m sc ?ps val SOL_JSON_LOOP_REASON_OK = Some (Inl ENOENT, sc1, val')"
      using loop m(2) len by auto
    then show ?thesis using None unfolding sol_json_get_value_by_path_def root by simp
  next
    case (Some v)
    then obtain sc1 val' sc2 where "by_path_loop (libc_std x) d m sc ?ps val SOL_JSON_LOOP_REASON_OK = Some (Inr (), sc1, val')"
      "scans d sc1 (tokens v) sc2" "sc1 = sc \<or> tk_start val' = Some (sc_current sc1)"
      using loop m(2) len by auto
    then show ?thesis using Some unfolding sol_json_get_value_by_path_def root by auto
  qed
qed

text \<open>The path \<^verbatim>\<open>$.a['it\'s'][1]\<close> in \<^verbatim>\<open>{"a": {"it's":[true,7]}}\<close>.\<close>

theorem json_path_lookup_witness:
  "\<exists>sc' val' sc''. sol_json_get_value_by_path (libc_std 0)
      [123, 34, 97, 34, 58, 32, 123, 34, 105, 116, 39, 115, 34, 58, 91, 116, 114, 117, 101, 44, 55, 93, 125, 125]
      (sol_json_scanner_init 0 24) [36, 46, 97, 91, 39, 105, 116, 92, 39, 115, 39, 93, 91, 49, 93] (0, 15) no_token = Some (Inr (), sc', val') \<and>
    tk_start val' = Some (sc_current sc') \<and>
    scans [123, 34, 97, 34, 58, 32, 123, 34, 105, 116, 39, 115, 34, 58, 91, 116, 114, 117, 101, 44, 55, 93, 125, 125] sc' [[55]] sc''"
proof -
  let ?d = "[123, 34, 97, 34, 58, 32, 123, 34, 105, 116, 39, 115, 34, 58, 91, 116, 114, 117, 101, 44, 55, 93, 125, 125] :: byte list"
  let ?j = "Object [([34, 97, 34], Object [([34, 105, 116, 39, 115, 34], Array [Atom [116, 114, 117, 101], Atom [55]])])]"
  let ?ss = "[Dot_key [97], Quoted_key [105, 116, 39, 115], Index [49]]"
  have l: "lookup ?j ?ss = Some (Atom [55])"
    by (simp add: key_of_def index_of_def hex_value_def isdigit_def)
  have t: "path_text ?ss = [36, 46, 97, 91, 39, 105, 116, 92, 39, 115, 39, 93, 91, 49, 93]"
    by (simp add: path_text_def quoted_def)
  have doc: "document ([[], [], [], [32]] @ replicate 9 []) ?j = ?d"
    by (simp add: document_def layout_def separate_def eval_nat_numeral)
  have wf: "wf_json ?j" by (simp add: string_lexeme_def number_lexeme_def symbol_lexemes_def byte_type_def exponent_def isdigit_def)
  have sp: "spacing ([[], [], [], [32]] @ replicate 9 []) ?j" by (simp add: spacing_def separate_def eval_nat_numeral isspace_def)
  have ok: "list_all segment_ok ?ss" by (simp add: isdigit_def index_of_def hex_value_def UINT16_MAX_def)
  have n: "length (path_text ?ss) = 15" by (simp add: t)
  show ?thesis
    using json_path_lookup [OF wf sp _ _ _ ok, of "sol_json_scanner_init 0 24" ?d "[]" 0 "path_text ?ss" "[]" 0 no_token]
    unfolding doc l n unfolding t by (simp add: sol_json_scanner_init_def)
qed

section \<open>What the parser accepts and should not\<close>

lemmas scanner_eval = sol_json_scanner_next_def next_loop.simps check_number_def number_loop.simps sol_json_scanner_init_def
  mem_get_def byte_type_def isdigit_def isspace_def no_token_def Let_def

lemmas array_eval = scanner_eval sol_json_array_get_at_index_def sol_json_loop_iterate_init_def at_index_loop.simps
  sol_json_loop_iterate_generic_def sol_json_mem_get_type_def sol_json_token_get_type_def sol_json_scanner_skip_def
  skip_loop.simps UINT16_MAX_def

lemmas index_eval = sol_json_path_array_get_segment_index_def sol_json_path_is_array_key_def sol_str_slice_to_int_def
  sol_util_strtol_n_def strtol_def int_prefix_def hex_value_def isdigit_def isspace_def LONG_MAX_def INT_MAX_def UINT16_MAX_def

lemmas path_eval = sol_json_get_value_by_path_def by_path_loop.simps sol_json_path_get_next_segment_def mem_get_def
  sol_json_path_scanner_init_def json_path_parse_key_in_brackets_def bracket_end_def

text \<open>
  The parser is more lenient than it means to be, and not always memory safe. (1) \<^verbatim>\<open>1.\<close> and \<^verbatim>\<open>1e\<close> are
  scanned as numbers: the test for missing digits compares the cursor with the place of the point or
  of the exponent, which the cursor has already left. (2) In \<^verbatim>\<open>[1,]\<close> there is an element with
  index 1, the closing bracket. (3) In \<^verbatim>\<open>[1 2]\<close> the missing comma is not noticed. (4) The index of
  the segment \<^verbatim>\<open>[010]\<close> is 8, because it is converted like a C literal. (5) The path \<^verbatim>\<open>$[\<close> makes the
  lookup read behind the end of the path, and (6) asking for the type of an empty document makes the
  function read before its first byte.\<close>

lemma json_broken_calls:
  "sol_json_scanner_next [49, 46] (sol_json_scanner_init 0 2) =
     Some (Scanned, \<lparr>sc_mem = 0, sc_mem_end = 2, sc_current = 2\<rparr>, \<lparr>tk_start = Some 0, tk_end = Some 2\<rparr>) \<and>
   sol_json_scanner_next [49, 101] (sol_json_scanner_init 0 2) =
     Some (Scanned, \<lparr>sc_mem = 0, sc_mem_end = 2, sc_current = 2\<rparr>, \<lparr>tk_start = Some 0, tk_end = Some 2\<rparr>) \<and>
   sol_json_array_get_at_index [91, 49, 44, 93] (sol_json_scanner_init 0 4) 1 no_token =
     Some (Inr (), \<lparr>sc_mem = 0, sc_mem_end = 4, sc_current = 4\<rparr>, \<lparr>tk_start = Some 3, tk_end = Some 4\<rparr>) \<and>
   sol_json_array_get_at_index [91, 49, 32, 50, 93] (sol_json_scanner_init 0 5) 1 no_token =
     Some (Inr (), \<lparr>sc_mem = 0, sc_mem_end = 5, sc_current = 4\<rparr>, \<lparr>tk_start = Some 3, tk_end = Some 4\<rparr>) \<and>
   sol_json_path_array_get_segment_index [91, 48, 49, 48, 93] = Inr 8 \<and>
   sol_json_get_value_by_path (libc_std 0) [123, 125] (sol_json_scanner_init 0 2) [36, 91] (0, 2) no_token = None \<and>
   sol_json_is_valid_type [] (sol_json_scanner_init 0 0) SOL_JSON_TYPE_OBJECT_START = None"
proof (intro conjI)
  show "sol_json_path_array_get_segment_index [91, 48, 49, 48, 93] = Inr 8"
    by (simp add: index_eval Let_def)
  show "sol_json_get_value_by_path (libc_std 0) [123, 125] (sol_json_scanner_init 0 2) [36, 91] (0, 2) no_token = None"
    by (simp add: path_eval)
  show "sol_json_is_valid_type [] (sol_json_scanner_init 0 0) SOL_JSON_TYPE_OBJECT_START = None"
    by (simp add: sol_json_is_valid_type_def sol_json_scanner_init_def)
qed (simp_all add: array_eval)

end
