(* ===== verification/Fbp_Scanner.thy ===== *)
theory Fbp_Scanner
  imports Str_Slice
begin

text \<open>
  The scanner of the flow language, \<^verbatim>\<open>src/shared/sol-fbp-internal-scanner.c\<close>: a state machine whose
  states are functions that move over the input and yield the next state. The input is the list
  \<open>inp\<close>, its end \<^verbatim>\<open>input_end\<close> is the length of the list, and pointers are offsets. \<^verbatim>\<open>token.end\<close> never
  passes the end of the input, which is a theorem below.
\<close>

section \<open>Tokens and states\<close>

datatype sol_fbp_token_type =
    SOL_FBP_TOKEN_NONE | SOL_FBP_TOKEN_ARROW | SOL_FBP_TOKEN_BRACKET_CLOSE | SOL_FBP_TOKEN_BRACKET_OPEN
  | SOL_FBP_TOKEN_COLON | SOL_FBP_TOKEN_COMMA | SOL_FBP_TOKEN_DOT | SOL_FBP_TOKEN_EOF | SOL_FBP_TOKEN_ERROR
  | SOL_FBP_TOKEN_EQUAL | SOL_FBP_TOKEN_IDENTIFIER | SOL_FBP_TOKEN_INPORT_KEYWORD | SOL_FBP_TOKEN_INTEGER
  | SOL_FBP_TOKEN_OUTPORT_KEYWORD | SOL_FBP_TOKEN_PAREN_CLOSE | SOL_FBP_TOKEN_PAREN_OPEN
  | SOL_FBP_TOKEN_STMT_SEPARATOR | SOL_FBP_TOKEN_STRING | SOL_FBP_TOKEN_DECLARE_KEYWORD | SOL_FBP_TOKEN_OPTION_KEYWORD

record sol_fbp_token =
  fbp_type :: sol_fbp_token_type
  fbp_start :: nat
  fbp_end :: nat
  fbp_line :: nat
  fbp_column :: nat

text \<open>The functions that \<^verbatim>\<open>state\<close> may point to; \<open>Null_state\<close> is NULL.\<close>

datatype fbp_state =
    Null_state | Default_state | Error_state | Space_state | Comment_state | Carriage_return_state | Arrow_state
  | Export_ident_state | Export_port_index_state | Export_port_array_state | Export_state
  | Inport_equal_state | Inport_state | Outport_equal_state | Outport_state
  | Declare_end_state | Declare_contents_state | Declare_second_sep_state | Declare_metatype_state
  | Declare_first_sep_state | Declare_name_state | Declare_equal_state | Declare_state
  | Option_end_state | Option_name_state | Option_second_sep_state | Option_node_option_state
  | Option_first_sep_state | Option_node_name_state | Option_equal_state | Option_state
  | Identifier_state | Identifier_or_keyword_state | Port_index_state | Port_array_state
  | String_start_state | Meta_item_state | Meta_state | Component_state

text \<open>Lines and columns are \<^verbatim>\<open>unsigned int\<close>; a position is a line and a column.\<close>

record sol_fbp_scanner =
  fs_token :: sol_fbp_token
  fs_state :: fbp_state
  fs_start :: "nat \<times> nat"
  fs_cur :: "nat \<times> nat"

definition uint_suc :: "nat \<Rightarrow> nat" where
  "uint_suc n = (n + 1) mod 2 ^ 32"

definition isblank :: "byte \<Rightarrow> bool" where
  "isblank c \<longleftrightarrow> c = 32 \<or> c = 9"

definition isalnum :: "byte \<Rightarrow> bool" where
  "isalnum c \<longleftrightarrow> isdigit c \<or> ascii CHR ''A'' \<le> c \<and> c \<le> ascii CHR ''Z'' \<or> ascii CHR ''a'' \<le> c \<and> c \<le> ascii CHR ''z''"

definition sol_fbp_scanner_init :: sol_fbp_scanner where
  "sol_fbp_scanner_init =
     \<lparr>fs_token = \<lparr>fbp_type = SOL_FBP_TOKEN_NONE, fbp_start = 0, fbp_end = 0, fbp_line = 0, fbp_column = 0\<rparr>,
      fs_state = Default_state, fs_start = (1, 1), fs_cur = (1, 1)\<rparr>"

abbreviation tok_end :: "sol_fbp_scanner \<Rightarrow> nat" where
  "tok_end s \<equiv> fbp_end (fs_token s)"

abbreviation tok_start :: "sol_fbp_scanner \<Rightarrow> nat" where
  "tok_start s \<equiv> fbp_start (fs_token s)"

abbreviation tok_type :: "sol_fbp_scanner \<Rightarrow> sol_fbp_token_type" where
  "tok_type s \<equiv> fbp_type (fs_token s)"

definition peek :: "byte list \<Rightarrow> sol_fbp_scanner \<Rightarrow> byte" where
  "peek inp s = (if tok_end s \<ge> length inp then 0 else inp ! tok_end s)"

definition advance :: "nat \<times> nat \<Rightarrow> byte \<Rightarrow> nat \<times> nat" where
  "advance pos c = (if c = 10 then (uint_suc (fst pos), 1) else (fst pos, uint_suc (snd pos)))"

definition next_char :: "byte list \<Rightarrow> sol_fbp_scanner \<Rightarrow> byte \<times> sol_fbp_scanner" where
  "next_char inp s =
     (if tok_end s \<ge> length inp then (0, s)
      else let c = inp ! tok_end s
           in (c, s\<lparr>fs_token := (fs_token s)\<lparr>fbp_end := tok_end s + 1\<rparr>, fs_cur := advance (fs_cur s) c\<rparr>))"

abbreviation skip_char :: "byte list \<Rightarrow> sol_fbp_scanner \<Rightarrow> sol_fbp_scanner" where
  "skip_char inp s \<equiv> snd (next_char inp s)"

definition set_token :: "sol_fbp_token_type \<Rightarrow> sol_fbp_scanner \<Rightarrow> sol_fbp_scanner" where
  "set_token type s =
     s\<lparr>fs_token := (fs_token s)\<lparr>fbp_type := type, fbp_line := fst (fs_start s), fbp_column := snd (fs_start s)\<rparr>\<rparr>"

definition ignore :: "sol_fbp_scanner \<Rightarrow> sol_fbp_scanner" where
  "ignore s = s\<lparr>fs_token := (fs_token s)\<lparr>fbp_start := tok_end s\<rparr>, fs_start := fs_cur s\<rparr>"

text \<open>
  \<^verbatim>\<open>while (P(peek(s))) next(s);\<close> for a test that is false of 0, which is what \<^verbatim>\<open>peek\<close> yields at the
  end of the input.
\<close>

function skip_while :: "(byte \<Rightarrow> bool) \<Rightarrow> byte list \<Rightarrow> sol_fbp_scanner \<Rightarrow> sol_fbp_scanner" where
  "skip_while P inp s = (if tok_end s < length inp \<and> P (peek inp s) then skip_while P inp (skip_char inp s) else s)"
  by pat_completeness auto
termination
  by (relation "measure (\<lambda>(P, inp, s). length inp - tok_end s)") (auto simp: next_char_def Let_def)

declare skip_while.simps [simp del]

type_synonym state_result = "fbp_state \<times> sol_fbp_scanner"

section \<open>The states\<close>

definition error_state :: "sol_fbp_scanner \<Rightarrow> state_result" where
  "error_state s = (Null_state, set_token SOL_FBP_TOKEN_ERROR s)"

definition is_node_ident :: "byte \<Rightarrow> bool" where
  "is_node_ident c \<longleftrightarrow> isalnum c \<or> c = ascii CHR ''_'' \<or> c = ascii CHR ''-''"

definition space_state :: "byte list \<Rightarrow> sol_fbp_scanner \<Rightarrow> state_result" where
  "space_state inp s = (Default_state, ignore (skip_while isblank inp s))"

definition comment_state :: "byte list \<Rightarrow> sol_fbp_scanner \<Rightarrow> state_result" where
  "comment_state inp s = (Default_state, skip_while (\<lambda>c. c \<noteq> 10 \<and> c \<noteq> 0) inp s)"

definition carriage_return_state :: "byte list \<Rightarrow> sol_fbp_scanner \<Rightarrow> state_result" where
  "carriage_return_state inp s =
     (let s = skip_char inp s in if peek inp s \<noteq> 10 then (Error_state, s) else (Default_state, s))"

text \<open>The states that take one character and yield its token share a shape.\<close>

definition one_char :: "byte \<Rightarrow> sol_fbp_token_type \<Rightarrow> fbp_state \<Rightarrow> byte list \<Rightarrow> sol_fbp_scanner \<Rightarrow> state_result" where
  "one_char c type st inp s =
     (let (d, s) = next_char inp s in if d \<noteq> c then (Error_state, s) else (st, set_token type s))"

definition arrow_state :: "byte list \<Rightarrow> sol_fbp_scanner \<Rightarrow> state_result" where
  "arrow_state inp s = one_char (ascii CHR ''>'') SOL_FBP_TOKEN_ARROW Default_state inp (skip_char inp s)"

definition ident_token :: "(byte \<Rightarrow> bool) \<Rightarrow> fbp_state \<Rightarrow> byte list \<Rightarrow> sol_fbp_scanner \<Rightarrow> state_result" where
  "ident_token P st inp s = (st, set_token SOL_FBP_TOKEN_IDENTIFIER (skip_while P inp s))"

definition export_ident_state :: "byte list \<Rightarrow> sol_fbp_scanner \<Rightarrow> state_result" where
  "export_ident_state inp s = ident_token is_node_ident Export_state inp s"

definition export_port_index_state :: "byte list \<Rightarrow> sol_fbp_scanner \<Rightarrow> state_result" where
  "export_port_index_state inp s = (Export_port_array_state, set_token SOL_FBP_TOKEN_INTEGER (skip_while isdigit inp s))"

definition export_port_array_state :: "byte list \<Rightarrow> sol_fbp_scanner \<Rightarrow> state_result" where
  "export_port_array_state inp s =
     (if peek inp s = ascii CHR '']'' then (Export_state, set_token SOL_FBP_TOKEN_BRACKET_CLOSE (skip_char inp s))
      else if isdigit (peek inp s) then (Export_port_index_state, s)
      else (Error_state, s))"

text \<open>The characters behind which a statement has come to its end.\<close>

definition stmt_ends :: "byte \<Rightarrow> bool" where
  "stmt_ends c \<longleftrightarrow> c \<in> {ascii CHR '','', 32, 10, 13, 9, ascii CHR ''#'', 0}"

definition export_state :: "byte list \<Rightarrow> sol_fbp_scanner \<Rightarrow> state_result" where
  "export_state inp s =
     (let c = peek inp s
      in if c = ascii CHR ''.'' then (Export_ident_state, set_token SOL_FBP_TOKEN_DOT (skip_char inp s))
         else if c = ascii CHR '':'' then (Export_ident_state, set_token SOL_FBP_TOKEN_COLON (skip_char inp s))
         else if c = ascii CHR ''['' then (Export_port_array_state, set_token SOL_FBP_TOKEN_BRACKET_OPEN (skip_char inp s))
         else if stmt_ends c then (Default_state, s)
         else (Error_state, s))"

definition inport_equal_state :: "byte list \<Rightarrow> sol_fbp_scanner \<Rightarrow> state_result" where
  "inport_equal_state inp s = one_char (ascii CHR ''='') SOL_FBP_TOKEN_EQUAL Export_ident_state inp s"

definition inport_state :: "sol_fbp_scanner \<Rightarrow> state_result" where
  "inport_state s = (Inport_equal_state, set_token SOL_FBP_TOKEN_INPORT_KEYWORD s)"

definition outport_equal_state :: "byte list \<Rightarrow> sol_fbp_scanner \<Rightarrow> state_result" where
  "outport_equal_state inp s = one_char (ascii CHR ''='') SOL_FBP_TOKEN_EQUAL Export_ident_state inp s"

definition outport_state :: "sol_fbp_scanner \<Rightarrow> state_result" where
  "outport_state s = (Outport_equal_state, set_token SOL_FBP_TOKEN_OUTPORT_KEYWORD s)"

definition declare_end_state :: "byte list \<Rightarrow> sol_fbp_scanner \<Rightarrow> state_result" where
  "declare_end_state inp s = (if stmt_ends (peek inp s) then (Default_state, s) else (Error_state, skip_char inp s))"

definition declare_contents_state :: "byte list \<Rightarrow> sol_fbp_scanner \<Rightarrow> state_result" where
  "declare_contents_state inp s = ident_token (\<lambda>c. c \<noteq> 10 \<and> c \<noteq> 0 \<and> c \<noteq> ascii CHR '','') Declare_end_state inp s"

definition declare_second_sep_state :: "byte list \<Rightarrow> sol_fbp_scanner \<Rightarrow> state_result" where
  "declare_second_sep_state inp s = one_char (ascii CHR '':'') SOL_FBP_TOKEN_COLON Declare_contents_state inp s"

definition declare_metatype_state :: "byte list \<Rightarrow> sol_fbp_scanner \<Rightarrow> state_result" where
  "declare_metatype_state inp s = ident_token is_node_ident Declare_second_sep_state inp s"

definition declare_first_sep_state :: "byte list \<Rightarrow> sol_fbp_scanner \<Rightarrow> state_result" where
  "declare_first_sep_state inp s = one_char (ascii CHR '':'') SOL_FBP_TOKEN_COLON Declare_metatype_state inp s"

definition declare_name_state :: "byte list \<Rightarrow> sol_fbp_scanner \<Rightarrow> state_result" where
  "declare_name_state inp s = ident_token is_node_ident Declare_first_sep_state inp s"

definition declare_equal_state :: "byte list \<Rightarrow> sol_fbp_scanner \<Rightarrow> state_result" where
  "declare_equal_state inp s = one_char (ascii CHR ''='') SOL_FBP_TOKEN_EQUAL Declare_name_state inp s"

definition declare_state :: "sol_fbp_scanner \<Rightarrow> state_result" where
  "declare_state s = (Declare_equal_state, set_token SOL_FBP_TOKEN_DECLARE_KEYWORD s)"

definition option_end_state :: "byte list \<Rightarrow> sol_fbp_scanner \<Rightarrow> state_result" where
  "option_end_state inp s = (if stmt_ends (peek inp s) then (Default_state, s) else (Error_state, skip_char inp s))"

definition option_name_state :: "byte list \<Rightarrow> sol_fbp_scanner \<Rightarrow> state_result" where
  "option_name_state inp s = ident_token is_node_ident Option_end_state inp s"

definition option_second_sep_state :: "byte list \<Rightarrow> sol_fbp_scanner \<Rightarrow> state_result" where
  "option_second_sep_state inp s = one_char (ascii CHR '':'') SOL_FBP_TOKEN_COLON Option_name_state inp s"

definition option_node_option_state :: "byte list \<Rightarrow> sol_fbp_scanner \<Rightarrow> state_result" where
  "option_node_option_state inp s = ident_token is_node_ident Option_second_sep_state inp s"

definition option_first_sep_state :: "byte list \<Rightarrow> sol_fbp_scanner \<Rightarrow> state_result" where
  "option_first_sep_state inp s = one_char (ascii CHR ''.'') SOL_FBP_TOKEN_DOT Option_node_option_state inp s"

definition option_node_name_state :: "byte list \<Rightarrow> sol_fbp_scanner \<Rightarrow> state_result" where
  "option_node_name_state inp s = ident_token is_node_ident Option_first_sep_state inp s"

definition option_equal_state :: "byte list \<Rightarrow> sol_fbp_scanner \<Rightarrow> state_result" where
  "option_equal_state inp s = one_char (ascii CHR ''='') SOL_FBP_TOKEN_EQUAL Option_node_name_state inp s"

definition option_state :: "sol_fbp_scanner \<Rightarrow> state_result" where
  "option_state s = (Option_equal_state, set_token SOL_FBP_TOKEN_OPTION_KEYWORD s)"

definition keyword_table :: "(byte list \<times> fbp_state) list" where
  "keyword_table =
     [(map ascii ''INPORT'', Inport_state), (map ascii ''OUTPORT'', Outport_state), (map ascii ''DECLARE'', Declare_state),
      (map ascii ''OPTION'', Option_state)]"

definition identifier_state :: "sol_fbp_scanner \<Rightarrow> state_result" where
  "identifier_state s = (Default_state, set_token SOL_FBP_TOKEN_IDENTIFIER s)"

definition token_slice :: "byte list \<Rightarrow> sol_fbp_token \<Rightarrow> byte list" where
  "token_slice inp t = take (fbp_end t - fbp_start t) (drop (fbp_start t) inp)"

definition identifier_or_keyword_state :: "byte list \<Rightarrow> sol_fbp_scanner \<Rightarrow> state_result" where
  "identifier_or_keyword_state inp s =
     (let s = skip_while is_node_ident inp s
      in (case map_of keyword_table (token_slice inp (fs_token s)) of None \<Rightarrow> Identifier_state | Some st \<Rightarrow> st, s))"

definition port_index_state :: "byte list \<Rightarrow> sol_fbp_scanner \<Rightarrow> state_result" where
  "port_index_state inp s = (Port_array_state, set_token SOL_FBP_TOKEN_INTEGER (skip_while isdigit inp s))"

definition port_array_state :: "byte list \<Rightarrow> sol_fbp_scanner \<Rightarrow> state_result" where
  "port_array_state inp s =
     (if peek inp s = ascii CHR '']'' then (Default_state, set_token SOL_FBP_TOKEN_BRACKET_CLOSE (skip_char inp s))
      else if isdigit (peek inp s) then (Port_index_state, s)
      else (Error_state, s))"

definition is_meta_ident :: "byte \<Rightarrow> bool" where
  "is_meta_ident c \<longleftrightarrow> isalnum c \<or>
     c \<in> {ascii CHR ''_'', ascii CHR ''/'', ascii CHR ''|'', ascii CHR '':'', ascii CHR ''.'', ascii CHR ''-''}"

definition string_end_state :: "byte list \<Rightarrow> sol_fbp_scanner \<Rightarrow> state_result" where
  "string_end_state inp s =
     (if peek inp s = quote then (Meta_state, set_token SOL_FBP_TOKEN_STRING (skip_char inp s)) else (Error_state, s))"

definition fbp_escapes :: "byte list" where
  "fbp_escapes = map ascii ''abfnrtv'' @ [backslash, quote, apostrophe]"

function string_state :: "byte list \<Rightarrow> sol_fbp_scanner \<Rightarrow> state_result"
  and string_escape_state :: "byte list \<Rightarrow> sol_fbp_scanner \<Rightarrow> state_result" where
  "string_state inp s =
     (let curr = peek inp s
      in if curr = backslash then string_escape_state inp s
         else if curr = quote then string_end_state inp s
         else if curr = 0 \<or> curr = 10 \<or> curr = 13 then (Error_state, s)
         else string_state inp (skip_char inp s))"
| "string_escape_state inp s =
     (if peek inp s = backslash then
        let s1 = skip_char inp s
        in if peek inp s1 \<in> set fbp_escapes then string_state inp (skip_char inp s1) else (Error_state, s1)
      else (Error_state, s))"
  by pat_completeness auto
termination
  by (relation "measure (\<lambda>x. case x of Inl (inp, s) \<Rightarrow> 2 * (length inp - tok_end s) + 1 | Inr (inp, s) \<Rightarrow> 2 * (length inp - tok_end s))")
    (auto simp: next_char_def Let_def peek_def split: if_splits)

declare string_state.simps [simp del] string_escape_state.simps [simp del]

definition string_start_state :: "byte list \<Rightarrow> sol_fbp_scanner \<Rightarrow> state_result" where
  "string_start_state inp s = (if peek inp s = quote then string_state inp (skip_char inp s) else (Error_state, s))"

definition meta_item_state :: "byte list \<Rightarrow> sol_fbp_scanner \<Rightarrow> state_result" where
  "meta_item_state inp s = ident_token is_meta_ident Meta_state inp s"

definition meta_state :: "byte list \<Rightarrow> sol_fbp_scanner \<Rightarrow> state_result" where
  "meta_state inp s =
     (let c = peek inp s
      in if c = ascii CHR '':'' then (Meta_state, set_token SOL_FBP_TOKEN_COLON (skip_char inp s))
         else if c = ascii CHR '')'' then (Default_state, set_token SOL_FBP_TOKEN_PAREN_CLOSE (skip_char inp s))
         else if c = ascii CHR ''='' then (Meta_state, set_token SOL_FBP_TOKEN_EQUAL (skip_char inp s))
         else if c = ascii CHR '','' then (Meta_state, set_token SOL_FBP_TOKEN_COMMA (skip_char inp s))
         else if c = 32 \<or> c = 9 \<or> c = 10 \<or> c = 13 then (Meta_state, ignore (skip_char inp s))
         else if c = quote then (String_start_state, s)
         else if is_meta_ident c then (Meta_item_state, s)
         else (Error_state, s))"

definition is_component_ident :: "byte \<Rightarrow> bool" where
  "is_component_ident c \<longleftrightarrow> isalnum c \<or> c = ascii CHR ''_'' \<or> c = ascii CHR ''/'' \<or> c = ascii CHR ''-''"

definition component_state :: "byte list \<Rightarrow> sol_fbp_scanner \<Rightarrow> state_result" where
  "component_state inp s = ident_token is_component_ident Meta_state inp s"

definition default_state :: "byte list \<Rightarrow> sol_fbp_scanner \<Rightarrow> state_result" where
  "default_state inp s =
     (let c = peek inp s
      in if c = 0 then (Null_state, set_token SOL_FBP_TOKEN_EOF s)
         else if c = 32 \<or> c = 9 then (Space_state, s)
         else if c = 13 then (Carriage_return_state, s)
         else if c = ascii CHR ''#'' then (Comment_state, s)
         else if c = ascii CHR ''-'' then (Arrow_state, s)
         else if c = 10 \<or> c = ascii CHR '','' then (Default_state, set_token SOL_FBP_TOKEN_STMT_SEPARATOR (skip_char inp s))
         else if c = ascii CHR ''('' then (Component_state, set_token SOL_FBP_TOKEN_PAREN_OPEN (skip_char inp s))
         else if c = ascii CHR ''['' then (Port_array_state, set_token SOL_FBP_TOKEN_BRACKET_OPEN (skip_char inp s))
         else if is_node_ident c then (Identifier_or_keyword_state, s)
         else (Error_state, s))"

fun run_state :: "byte list \<Rightarrow> fbp_state \<Rightarrow> sol_fbp_scanner \<Rightarrow> state_result option" where
  "run_state inp Null_state s = None"
| "run_state inp Default_state s = Some (default_state inp s)"
| "run_state inp Error_state s = Some (error_state s)"
| "run_state inp Space_state s = Some (space_state inp s)"
| "run_state inp Comment_state s = Some (comment_state inp s)"
| "run_state inp Carriage_return_state s = Some (carriage_return_state inp s)"
| "run_state inp Arrow_state s = Some (arrow_state inp s)"
| "run_state inp Export_ident_state s = Some (export_ident_state inp s)"
| "run_state inp Export_port_index_state s = Some (export_port_index_state inp s)"
| "run_state inp Export_port_array_state s = Some (export_port_array_state inp s)"
| "run_state inp Export_state s = Some (export_state inp s)"
| "run_state inp Inport_equal_state s = Some (inport_equal_state inp s)"
| "run_state inp Inport_state s = Some (inport_state s)"
| "run_state inp Outport_equal_state s = Some (outport_equal_state inp s)"
| "run_state inp Outport_state s = Some (outport_state s)"
| "run_state inp Declare_end_state s = Some (declare_end_state inp s)"
| "run_state inp Declare_contents_state s = Some (declare_contents_state inp s)"
| "run_state inp Declare_second_sep_state s = Some (declare_second_sep_state inp s)"
| "run_state inp Declare_metatype_state s = Some (declare_metatype_state inp s)"
| "run_state inp Declare_first_sep_state s = Some (declare_first_sep_state inp s)"
| "run_state inp Declare_name_state s = Some (declare_name_state inp s)"
| "run_state inp Declare_equal_state s = Some (declare_equal_state inp s)"
| "run_state inp Declare_state s = Some (declare_state s)"
| "run_state inp Option_end_state s = Some (option_end_state inp s)"
| "run_state inp Option_name_state s = Some (option_name_state inp s)"
| "run_state inp Option_second_sep_state s = Some (option_second_sep_state inp s)"
| "run_state inp Option_node_option_state s = Some (option_node_option_state inp s)"
| "run_state inp Option_first_sep_state s = Some (option_first_sep_state inp s)"
| "run_state inp Option_node_name_state s = Some (option_node_name_state inp s)"
| "run_state inp Option_equal_state s = Some (option_equal_state inp s)"
| "run_state inp Option_state s = Some (option_state s)"
| "run_state inp Identifier_state s = Some (identifier_state s)"
| "run_state inp Identifier_or_keyword_state s = Some (identifier_or_keyword_state inp s)"
| "run_state inp Port_index_state s = Some (port_index_state inp s)"
| "run_state inp Port_array_state s = Some (port_array_state inp s)"
| "run_state inp String_start_state s = Some (string_start_state inp s)"
| "run_state inp Meta_item_state s = Some (meta_item_state inp s)"
| "run_state inp Meta_state s = Some (meta_state inp s)"
| "run_state inp Component_state s = Some (component_state inp s)"

lemmas state_defs = default_state_def error_state_def space_state_def comment_state_def carriage_return_state_def arrow_state_def
  export_ident_state_def export_port_index_state_def export_port_array_state_def export_state_def inport_equal_state_def
  inport_state_def outport_equal_state_def outport_state_def declare_end_state_def declare_contents_state_def
  declare_second_sep_state_def declare_metatype_state_def declare_first_sep_state_def declare_name_state_def
  declare_equal_state_def declare_state_def option_end_state_def option_name_state_def option_second_sep_state_def
  option_node_option_state_def option_first_sep_state_def option_node_name_state_def option_equal_state_def option_state_def
  identifier_state_def identifier_or_keyword_state_def port_index_state_def port_array_state_def string_start_state_def
  meta_item_state_def meta_state_def component_state_def one_char_def ident_token_def

section \<open>Moving over the input\<close>

lemma skip_char_simps [simp]:
  "tok_end (skip_char inp s) = (if tok_end s < length inp then tok_end s + 1 else tok_end s)"
  "tok_start (skip_char inp s) = tok_start s" "tok_type (skip_char inp s) = tok_type s" "fst (next_char inp s) = peek inp s"
  "fs_start (skip_char inp s) = fs_start s" "fs_state (skip_char inp s) = fs_state s"
  by (simp_all add: next_char_def peek_def Let_def)

lemma set_token_simps [simp]:
  "tok_end (set_token t s) = tok_end s" "tok_start (set_token t s) = tok_start s" "tok_type (set_token t s) = t"
  "fs_start (set_token t s) = fs_start s" "fs_cur (set_token t s) = fs_cur s" "peek inp (set_token t s) = peek inp s"
  "fs_state (set_token t s) = fs_state s"
  by (simp_all add: set_token_def peek_def)

lemma ignore_simps [simp]:
  "tok_end (ignore s) = tok_end s" "tok_start (ignore s) = tok_end s" "tok_type (ignore s) = tok_type s"
  "fs_start (ignore s) = fs_cur s" "fs_cur (ignore s) = fs_cur s" "peek inp (ignore s) = peek inp s"
  by (simp_all add: ignore_def peek_def)

lemma peek_fs_state [simp]: "peek inp (s\<lparr>fs_state := st\<rparr>) = peek inp s"
  by (simp add: peek_def)

lemma peek_in: "peek inp s \<noteq> 0 \<Longrightarrow> tok_end s < length inp"
  by (auto simp: peek_def split: if_splits)

text \<open>Where in the input the scanner is, and that its counters agree with it.\<close>

definition pos_at :: "byte list \<Rightarrow> nat \<Rightarrow> nat \<times> nat" where
  "pos_at inp k = foldl advance (1, 1) (take k inp)"

definition scan_ok :: "byte list \<Rightarrow> sol_fbp_scanner \<Rightarrow> bool" where
  "scan_ok inp s \<longleftrightarrow> tok_start s \<le> tok_end s \<and> tok_end s \<le> length inp \<and>
     fs_cur s = pos_at inp (tok_end s) \<and> fs_start s = pos_at inp (tok_start s)"

lemma scan_ok_set_token [simp]: "scan_ok inp (set_token t s) = scan_ok inp s"
  by (simp add: scan_ok_def)

text \<open>Steps forward: a scanner that is all right stays so, and what is consumed was in the input.\<close>

definition forward :: "byte list \<Rightarrow> sol_fbp_scanner \<Rightarrow> sol_fbp_scanner \<Rightarrow> bool" where
  "forward inp s s' \<longleftrightarrow> (scan_ok inp s \<longrightarrow> scan_ok inp s') \<and> tok_end s \<le> tok_end s' \<and>
     (tok_end s < tok_end s' \<longrightarrow> tok_end s' \<le> length inp) \<and> (tok_start s' = tok_start s \<or> tok_end s \<le> tok_start s')"

lemma forward_refl [simp]: "forward inp s s"
  by (simp add: forward_def)

lemma forward_ok: "forward inp s s' \<Longrightarrow> scan_ok inp s \<Longrightarrow> scan_ok inp s'"
  by (simp add: forward_def)

lemma forward_trans: "forward inp s s1 \<Longrightarrow> forward inp s1 s2 \<Longrightarrow> forward inp s s2"
  by (auto simp: forward_def)

lemma forward_skip_char: "forward inp s (skip_char inp s)"
  by (auto simp: forward_def scan_ok_def next_char_def Let_def pos_at_def take_Suc_conv_app_nth)

lemma forward_set_token [simp]: "forward inp s (set_token t s') \<longleftrightarrow> forward inp s s'"
  by (simp add: forward_def scan_ok_def)

lemma forward_ignore: "forward inp s s' \<Longrightarrow> forward inp s (ignore s')"
  by (auto simp: forward_def scan_ok_def)

lemma forward_then_skip: "forward inp s s' \<Longrightarrow> forward inp s (skip_char inp s')"
  using forward_trans forward_skip_char by blast

lemma skip_while_facts:
  "tok_type (skip_while P inp s) = tok_type s \<and> tok_start (skip_while P inp s) = tok_start s \<and> tok_end s \<le> tok_end (skip_while P inp s) \<and>
   (tok_end s \<le> length inp \<longrightarrow> tok_end (skip_while P inp s) \<le> length inp) \<and>
   (P (peek inp s) \<and> tok_end s < length inp \<longrightarrow> tok_end s < tok_end (skip_while P inp s))"
proof (induction P inp s rule: skip_while.induct)
  case (1 P inp s)
  then show ?case
    by (subst (1 2 3 4 5) skip_while.simps) (use Suc_leI in fastforce)
qed

lemma skip_while_forward: "forward inp s (skip_while P inp s)"
proof (induction P inp s rule: skip_while.induct)
  case (1 P inp s)
  then show ?case
    using forward_trans [OF forward_skip_char] by (subst skip_while.simps) auto
qed

text \<open>What the states for strings do: a token behind the closing quote, or an error.\<close>

definition string_result :: "byte list \<Rightarrow> sol_fbp_scanner \<Rightarrow> state_result \<Rightarrow> bool" where
  "string_result inp s r \<longleftrightarrow> (case r of (st, s') \<Rightarrow>
     (st = Error_state \<and> tok_type s' = tok_type s \<and> tok_end s \<le> tok_end s' \<or>
      st = Meta_state \<and> tok_type s' = SOL_FBP_TOKEN_STRING \<and> tok_end s < tok_end s' \<and> (fbp_line (fs_token s'), fbp_column (fs_token s')) = fs_start s') \<and>
     forward inp s s')"

lemma string_result_step:
  assumes "string_result inp (skip_char inp s) r"
  shows "string_result inp s r"
  using assms forward_trans [OF forward_skip_char]
  by (auto simp: string_result_def split: if_splits prod.splits)

lemma string_state_result: "string_result inp s (string_state inp s)"
  and string_escape_result: "string_result inp s (string_escape_state inp s)"
proof (induction inp s and inp s rule: string_state_string_escape_state.induct)
  case (1 inp s)
  have end1: "string_result inp s (string_end_state inp s)" if "peek inp s = quote"
    using that peek_in [of inp s] forward_skip_char [of inp s]
    by (auto simp: string_result_def string_end_state_def set_token_def scan_ok_def forward_def)
  show ?case
    using 1 end1 string_result_step [of inp s "string_state inp (skip_char inp s)"]
    by (subst string_state.simps) (auto simp: Let_def string_result_def forward_refl)
next
  case (2 inp s)
  have err: "string_result inp s (Error_state, s)" "string_result inp s (Error_state, skip_char inp s)"
    using forward_skip_char [of inp s] by (auto simp: string_result_def forward_refl)
  have "string_result inp s (string_state inp (skip_char inp (skip_char inp s)))"
    if "peek inp s = backslash" "peek inp (skip_char inp s) \<in> set fbp_escapes"
    by (rule string_result_step, rule string_result_step) (use 2 that in blast)
  with err show ?case by (subst string_escape_state.simps) (simp add: Let_def)
qed

section \<open>The machine\<close>

text \<open>
  The loop ends: a state that yields no token either consumes input or is followed by a state of
  a lower rank.
\<close>

fun loop_rank :: "byte \<Rightarrow> fbp_state \<Rightarrow> nat" where
  "loop_rank c Default_state = 2"
| "loop_rank c Meta_state = 2"
| "loop_rank c Space_state = (if isblank c then 1 else 3)"
| "loop_rank c Comment_state = (if c \<noteq> 10 \<and> c \<noteq> 0 then 1 else 3)"
| "loop_rank c Export_state = 3"
| "loop_rank c Declare_end_state = 3"
| "loop_rank c Option_end_state = 3"
| "loop_rank c Error_state = 0"
| "loop_rank c Identifier_state = 0"
| "loop_rank c Inport_state = 0"
| "loop_rank c Outport_state = 0"
| "loop_rank c Declare_state = 0"
| "loop_rank c Option_state = 0"
| "loop_rank c Meta_item_state = 0"
| "loop_rank c Port_index_state = 0"
| "loop_rank c Export_port_index_state = 0"
| "loop_rank c _ = 1"

definition loop_weight :: "byte list \<Rightarrow> fbp_state \<Rightarrow> sol_fbp_scanner \<Rightarrow> nat" where
  "loop_weight inp st s = 4 * (length inp - tok_end s) + loop_rank (peek inp s) st"

lemma char_classes [simp]: "\<not> isblank 0" "\<not> isdigit 0" "\<not> isalnum 0" "\<not> is_node_ident 0" "\<not> is_meta_ident 0" "\<not> is_component_ident 0"
  by (simp_all add: isblank_def isdigit_def isalnum_def is_node_ident_def is_meta_ident_def is_component_ident_def)

lemma keyword_state: "(case map_of keyword_table x of None \<Rightarrow> Identifier_state | Some st \<Rightarrow> st)
    \<in> {Identifier_state, Inport_state, Outport_state, Declare_state, Option_state}"
  by (auto simp: keyword_table_def split: option.splits)

lemma skip_while_less: "P (peek inp s) \<Longrightarrow> \<not> P 0 \<Longrightarrow> tok_end s < tok_end (skip_while P inp s)"
  using skip_while_facts [of P inp s] peek_in [of inp s] by metis

lemma loop_rank_le: "loop_rank c st \<le> 3"
  by (cases st) auto

lemma consumed_weight:
  assumes "tok_end s < tok_end s'" and "tok_end s < length inp" and "loop_rank (peek inp s') st' \<le> 2 \<or> 0 < loop_rank (peek inp s) st"
  shows "loop_weight inp st' s' < loop_weight inp st s"
proof -
  have "length inp - tok_end s' < length inp - tok_end s" using assms(1,2) by linarith
  then have "4 * (length inp - tok_end s') + 4 \<le> 4 * (length inp - tok_end s)" by linarith
  then show ?thesis using assms(3) loop_rank_le [of "peek inp s'" st'] by (auto simp: loop_weight_def)
qed

lemma error_weight: "tok_end s \<le> tok_end s' \<Longrightarrow> 0 < loop_rank (peek inp s) st \<Longrightarrow> loop_weight inp Error_state s' < loop_weight inp st s"
  by (simp add: loop_weight_def)

lemma default_state_weight:
  assumes "default_state inp s = (st', s')" and "tok_type s' = SOL_FBP_TOKEN_NONE"
  shows "loop_weight inp st' s' < loop_weight inp Default_state s"
  using assms by (auto simp: default_state_def Let_def loop_weight_def isblank_def split: if_splits)

lemma meta_state_weight:
  assumes "meta_state inp s = (st', s')" and "tok_type s' = SOL_FBP_TOKEN_NONE"
  shows "loop_weight inp st' s' < loop_weight inp Meta_state s"
proof (cases "peek inp s \<in> {32, 9, 10, 13}")
  case True
  then have "st' = Meta_state" "s' = ignore (skip_char inp s)" using assms by (auto simp: meta_state_def)
  then show ?thesis using True peek_in [of inp s] by (intro consumed_weight) auto
qed (use assms in \<open>auto simp: meta_state_def Let_def loop_weight_def split: if_splits\<close>)

lemma one_char_weight:
  assumes "one_char c type st1 inp s = (st', s')" and "tok_type s' = SOL_FBP_TOKEN_NONE" and "type \<noteq> SOL_FBP_TOKEN_NONE"
  shows "st' = Error_state" and "tok_end s \<le> tok_end s'"
  using assms by (auto simp: one_char_def Let_def split: if_splits prod.splits dest!: arg_cong [of _ _ snd])

lemma skip_state_weight:
  assumes "st = Space_state \<and> P = isblank \<or> st = Comment_state \<and> P = (\<lambda>c. c \<noteq> 10 \<and> c \<noteq> 0)"
    and "s' = skip_while P inp s \<or> s' = ignore (skip_while P inp s)"
  shows "loop_weight inp Default_state s' < loop_weight inp st s"
proof -
  have e: "tok_end s' = tok_end (skip_while P inp s)" "\<not> P 0" using assms by auto
  show ?thesis
  proof (cases "P (peek inp s)")
    case True
    then have "peek inp s \<noteq> 0" using e(2) by metis
    then show ?thesis using skip_while_less [OF True e(2)] peek_in [of inp s] e(1) by (intro consumed_weight) auto
  next
    case False
    then have "loop_rank (peek inp s) st = 3" using assms(1) by auto
    moreover have "tok_end s \<le> tok_end s'" using e(1) skip_while_facts by simp
    ultimately show ?thesis by (simp add: loop_weight_def)
  qed
qed

lemma run_state_weight:
  assumes r: "run_state inp st s = Some (st', s')" and n: "tok_type s' = SOL_FBP_TOKEN_NONE"
  shows "loop_weight inp st' s' < loop_weight inp st s"
proof (cases "st \<in> {Default_state, Meta_state, Space_state, Comment_state, Carriage_return_state, Identifier_or_keyword_state, String_start_state, Arrow_state}")
  case False
  then show ?thesis
    using r n by (cases st; auto simp: state_defs Let_def loop_weight_def split: if_splits prod.splits dest!: arg_cong [of _ _ snd]; linarith)
next
  case True
  moreover have ?thesis if "st = Default_state" using that r n default_state_weight by simp
  moreover have ?thesis if "st = Meta_state" using that r n meta_state_weight by simp
  moreover have ?thesis if "st = Space_state" "st' = Default_state" "s' = ignore (skip_while isblank inp s)"
    using that skip_state_weight [of st isblank] by simp
  moreover have ?thesis if "st = Comment_state" "st' = Default_state" "s' = skip_while (\<lambda>c. c \<noteq> 10 \<and> c \<noteq> 0) inp s"
    using that skip_state_weight [of st "\<lambda>c. c \<noteq> 10 \<and> c \<noteq> 0"] by simp
  moreover have ?thesis if "st = Carriage_return_state"
  proof (cases "tok_end s < length inp")
    case t: True
    then show ?thesis using that r by (intro consumed_weight) (auto simp: carriage_return_state_def Let_def split: if_splits)
  next
    case False
    then have "st' = Error_state \<and> s' = skip_char inp s" using that r by (auto simp: carriage_return_state_def Let_def peek_def)
    then show ?thesis using that by (auto intro: error_weight)
  qed
  moreover have ?thesis if "st = Arrow_state"
    using that r n one_char_weight [of "ascii CHR ''>''" SOL_FBP_TOKEN_ARROW Default_state inp "skip_char inp s" st' s']
    by (auto simp: arrow_state_def split: if_splits intro!: error_weight)
  moreover have ?thesis if "st = Identifier_or_keyword_state"
  proof -
    have "loop_rank c st' = 0" for c
      using that r keyword_state [of "token_slice inp (fs_token (skip_while is_node_ident inp s))"]
      by (auto simp: identifier_or_keyword_state_def Let_def)
    moreover have "tok_end s \<le> tok_end s'"
      using that r skip_while_facts by (auto simp: identifier_or_keyword_state_def Let_def)
    ultimately show ?thesis using that by (simp add: loop_weight_def)
  qed
  moreover have ?thesis if "st = String_start_state"
  proof -
    have "st' = Error_state \<and> tok_end s \<le> tok_end s'"
      using that r n string_state_result [of inp "skip_char inp s"]
      by (auto simp: string_start_state_def string_result_def split: if_splits)
    then show ?thesis using that by (auto intro: error_weight)
  qed
  ultimately show ?thesis using r by (auto simp: space_state_def comment_state_def)
qed

function scan_loop :: "byte list \<Rightarrow> sol_fbp_scanner \<Rightarrow> sol_fbp_scanner option" where
  "scan_loop inp s =
     (case run_state inp (fs_state s) s of
        None \<Rightarrow> None
      | Some (st, s) \<Rightarrow>
          if tok_type s = SOL_FBP_TOKEN_NONE then scan_loop inp (s\<lparr>fs_state := st\<rparr>) else Some (s\<lparr>fs_state := st\<rparr>))"
  by pat_completeness auto
termination
proof (relation "measure (\<lambda>(inp, s). loop_weight inp (fs_state s) s)")
  fix inp s x st s'
  assume "run_state inp (fs_state s) s = Some x" "(st, s') = x" "tok_type s' = SOL_FBP_TOKEN_NONE"
  then have "loop_weight inp st s' < loop_weight inp (fs_state s) s" using run_state_weight by metis
  then show "((inp, s'\<lparr>fs_state := st\<rparr>), inp, s) \<in> measure (\<lambda>(inp, s). loop_weight inp (fs_state s) s)"
    by (simp add: loop_weight_def)
qed simp

declare scan_loop.simps [simp del]

definition sol_fbp_scan_token :: "byte list \<Rightarrow> sol_fbp_scanner \<Rightarrow> sol_fbp_scanner option" where
  "sol_fbp_scan_token inp s =
     (if tok_type s = SOL_FBP_TOKEN_EOF \<or> tok_type s = SOL_FBP_TOKEN_ERROR then Some s
      else scan_loop inp (set_token SOL_FBP_TOKEN_NONE (ignore s)))"

section \<open>What a step guarantees\<close>

text \<open>The position of the token is the position of its start.\<close>

definition placed :: "sol_fbp_scanner \<Rightarrow> bool" where
  "placed s \<longleftrightarrow> (fbp_line (fs_token s), fbp_column (fs_token s)) = fs_start s"

lemma placed_set_token [simp]: "placed (set_token t s)"
  by (simp add: placed_def set_token_def)

text \<open>Tokens that consume nothing: a state that may yield one is worth one token more.\<close>

fun empty_tokens :: "byte \<Rightarrow> fbp_state \<Rightarrow> nat" where
  "empty_tokens c Export_ident_state = 1"
| "empty_tokens c Inport_state = 1"
| "empty_tokens c Outport_state = 1"
| "empty_tokens c Declare_state = 1"
| "empty_tokens c Option_state = 1"
| "empty_tokens c Declare_contents_state = 1"
| "empty_tokens c Declare_metatype_state = 1"
| "empty_tokens c Declare_name_state = 1"
| "empty_tokens c Option_name_state = 1"
| "empty_tokens c Option_node_option_state = 1"
| "empty_tokens c Option_node_name_state = 1"
| "empty_tokens c Identifier_state = 1"
| "empty_tokens c Component_state = 1"
| "empty_tokens c Export_port_index_state = (if isdigit c then 0 else 1)"
| "empty_tokens c Port_index_state = (if isdigit c then 0 else 1)"
| "empty_tokens c Meta_item_state = (if is_meta_ident c then 0 else 1)"
| "empty_tokens c Identifier_or_keyword_state = (if is_node_ident c then 0 else 1)"
| "empty_tokens c _ = 0"

definition tokens_left :: "byte list \<Rightarrow> fbp_state \<Rightarrow> sol_fbp_scanner \<Rightarrow> nat" where
  "tokens_left inp st s = 2 * (length inp - tok_end s) + empty_tokens (peek inp s) st"

abbreviation final_type :: "sol_fbp_token_type \<Rightarrow> bool" where
  "final_type t \<equiv> t = SOL_FBP_TOKEN_EOF \<or> t = SOL_FBP_TOKEN_ERROR"

text \<open>What every state promises, when it runs on a scanner that has no token yet.\<close>

definition step_ok :: "byte list \<Rightarrow> fbp_state \<Rightarrow> sol_fbp_scanner \<Rightarrow> state_result \<Rightarrow> bool" where
  "step_ok inp st s r \<longleftrightarrow> (case r of (st', s') \<Rightarrow>
     forward inp s s' \<and> (tok_type s' \<noteq> SOL_FBP_TOKEN_NONE \<longrightarrow> placed s') \<and> (st' = Null_state \<longrightarrow> final_type (tok_type s')) \<and>
     tokens_left inp st' s' \<le> tokens_left inp st s \<and>
     (tok_type s' = SOL_FBP_TOKEN_NONE \<or> final_type (tok_type s') \<or> tokens_left inp st' s' < tokens_left inp st s))"

lemma empty_tokens_le: "empty_tokens c st \<le> 1"
  by (cases st) auto

text \<open>The shapes of the states: an error, a state without a token, and tokens with and without characters.\<close>

lemma step_error_state: "forward inp s s' \<Longrightarrow> tok_type s' = SOL_FBP_TOKEN_NONE \<Longrightarrow> step_ok inp st s (Error_state, s')"
  by (auto simp: step_ok_def tokens_left_def forward_def)

lemma step_silent:
  "forward inp s s' \<Longrightarrow> tok_type s' = SOL_FBP_TOKEN_NONE \<Longrightarrow> st' \<noteq> Null_state \<Longrightarrow>
     empty_tokens (peek inp s') st' = 0 \<or> tok_end s < tok_end s' \<Longrightarrow> step_ok inp st s (st', s')"
  using empty_tokens_le [of "peek inp s'" st']
  by (auto simp: step_ok_def tokens_left_def forward_def)

lemma step_token:
  "forward inp s s' \<Longrightarrow> st' \<noteq> Null_state \<Longrightarrow> tok_end s < tok_end s' \<Longrightarrow> step_ok inp st s (st', set_token t s')"
  using empty_tokens_le [of "peek inp s'" st']
  by (auto simp: step_ok_def tokens_left_def forward_def)

lemma step_empty_token:
  "forward inp s s' \<Longrightarrow> st' \<noteq> Null_state \<Longrightarrow> empty_tokens (peek inp s') st' < empty_tokens (peek inp s) st \<Longrightarrow>
     step_ok inp st s (st', set_token t s')"
  by (auto simp: step_ok_def tokens_left_def forward_def)

lemma step_char_token:
  assumes "peek inp s \<noteq> 0" and "st' \<noteq> Null_state"
  shows "step_ok inp st s (st', set_token t (skip_char inp s))"
  using assms peek_in by (intro step_token forward_skip_char) auto

lemma step_one_char:
  assumes "tok_type s = SOL_FBP_TOKEN_NONE" and "c \<noteq> 0" and "st' \<noteq> Null_state"
  shows "step_ok inp st s (one_char c t st' inp s)"
proof -
  have "one_char c t st' inp s = (if peek inp s \<noteq> c then (Error_state, skip_char inp s) else (st', set_token t (skip_char inp s)))"
    by (auto simp: one_char_def split: prod.splits dest!: arg_cong [of _ _ fst])
  then show ?thesis using assms step_char_token [of inp s] by (auto intro!: step_error_state forward_skip_char)
qed

lemma step_ident_token:
  assumes "empty_tokens (peek inp s) st = 1" and "\<And>c. empty_tokens c st' = 0" and "st' \<noteq> Null_state"
  shows "step_ok inp st s (st', set_token t (skip_while P inp s))"
  using assms by (intro step_empty_token skip_while_forward) auto

lemma step_digits_token:
  assumes "empty_tokens (peek inp s) st = (if P (peek inp s) then 0 else 1)" and "\<not> P 0"
    and "\<And>c. empty_tokens c st' = 0" and "st' \<noteq> Null_state"
  shows "step_ok inp st s (st', set_token t (skip_while P inp s))"
proof (cases "P (peek inp s)")
  case True
  then show ?thesis using skip_while_less [of P inp s, OF True assms(2)] assms by (intro step_token skip_while_forward) auto
next
  case False
  then show ?thesis using assms by (intro step_ident_token) auto
qed

lemma step_default:
  assumes "tok_type s = SOL_FBP_TOKEN_NONE"
  shows "step_ok inp Default_state s (default_state inp s)"
proof (cases "peek inp s = 0")
  case True
  then show ?thesis using assms by (simp add: default_state_def step_ok_def tokens_left_def forward_refl)
next
  case False
  then show ?thesis
    using assms step_char_token [OF False] step_silent [OF forward_refl assms]
      step_error_state [OF forward_refl assms]
    by (simp add: default_state_def Let_def)
qed

lemma step_meta:
  assumes "tok_type s = SOL_FBP_TOKEN_NONE"
  shows "step_ok inp Meta_state s (meta_state inp s)"
  using assms step_char_token step_silent [OF forward_refl assms]
    step_error_state [OF forward_refl assms] step_silent [OF forward_ignore [OF forward_skip_char]]
  by (simp add: meta_state_def Let_def)

lemma step_export:
  assumes "tok_type s = SOL_FBP_TOKEN_NONE"
  shows "step_ok inp Export_state s (export_state inp s)"
    "step_ok inp Export_port_array_state s (export_port_array_state inp s)" "step_ok inp Port_array_state s (port_array_state inp s)"
  using assms step_char_token step_silent [OF forward_refl assms]
    step_error_state [OF forward_refl assms]
  by (simp_all add: export_state_def export_port_array_state_def port_array_state_def Let_def)

lemma step_ends:
  assumes "tok_type s = SOL_FBP_TOKEN_NONE"
  shows "step_ok inp Declare_end_state s (declare_end_state inp s)" "step_ok inp Option_end_state s (option_end_state inp s)"
  using step_silent [OF forward_refl assms] step_error_state [OF forward_skip_char] assms
  by (simp_all add: declare_end_state_def option_end_state_def)

lemma step_spaces:
  assumes "tok_type s = SOL_FBP_TOKEN_NONE"
  shows "step_ok inp Space_state s (space_state inp s)" "step_ok inp Comment_state s (comment_state inp s)"
    "step_ok inp Carriage_return_state s (carriage_return_state inp s)"
  using assms skip_while_facts
  by (auto simp: space_state_def comment_state_def carriage_return_state_def Let_def
      intro!: step_silent step_error_state forward_ignore skip_while_forward forward_skip_char)

lemma step_keyword:
  assumes "tok_type s = SOL_FBP_TOKEN_NONE"
  shows "step_ok inp Identifier_or_keyword_state s (identifier_or_keyword_state inp s)"
proof -
  let ?s = "skip_while is_node_ident inp s"
  define st where "st = (case map_of keyword_table (token_slice inp (fs_token ?s)) of None \<Rightarrow> Identifier_state | Some st \<Rightarrow> st)"
  have st: "st \<in> {Identifier_state, Inport_state, Outport_state, Declare_state, Option_state}"
    unfolding st_def by (rule keyword_state)
  have eq: "identifier_or_keyword_state inp s = (st, ?s)" by (simp add: identifier_or_keyword_state_def st_def Let_def)
  note f = skip_while_forward [of inp s is_node_ident]
  show ?thesis
  proof (cases "is_node_ident (peek inp s)")
    case True
    have "tok_end s < tok_end ?s" using skip_while_less [of is_node_ident] True by simp
    then show ?thesis unfolding eq using st assms f skip_while_facts by (intro step_silent) auto
  next
    case False
    then have "?s = s" by (subst skip_while.simps) simp
    then show ?thesis unfolding eq using st assms False by (auto simp: step_ok_def tokens_left_def forward_refl)
  qed
qed

lemma step_string:
  assumes "tok_type s = SOL_FBP_TOKEN_NONE"
  shows "step_ok inp String_start_state s (string_start_state inp s)"
proof (cases "peek inp s = quote")
  case True
  then have e: "tok_end s < length inp" using peek_in [of inp s] by simp
  obtain st' s' where r: "string_state inp (skip_char inp s) = (st', s')" by fastforce
  note f = forward_skip_char
  have s: "string_result inp (skip_char inp s) (st', s')" using string_state_result [of inp "skip_char inp s"] r by simp
  then have fw: "forward inp s s'" using forward_trans [OF f] by (auto simp: string_result_def)
  consider "st' = Error_state" "tok_type s' = SOL_FBP_TOKEN_NONE"
    | "st' = Meta_state" "tok_type s' = SOL_FBP_TOKEN_STRING" "tok_end s < tok_end s'" "placed s'"
    using s assms e by (auto simp: string_result_def placed_def)
  then show ?thesis
  proof cases
    case 1
    then show ?thesis using True r fw by (simp add: string_start_state_def step_error_state)
  next
    case 2
    then show ?thesis using True r fw by (auto simp: string_start_state_def step_ok_def tokens_left_def forward_def)
  qed
next
  case False
  then show ?thesis using assms by (simp add: string_start_state_def step_error_state forward_refl)
qed

lemma step_arrow:
  assumes "tok_type s = SOL_FBP_TOKEN_NONE"
  shows "step_ok inp Arrow_state s (arrow_state inp s)"
proof -
  let ?s = "skip_char inp s"
  have "arrow_state inp s = (if peek inp ?s \<noteq> ascii CHR ''>'' then (Error_state, skip_char inp ?s)
      else (Default_state, set_token SOL_FBP_TOKEN_ARROW (skip_char inp ?s)))"
    by (auto simp: arrow_state_def one_char_def split: prod.splits dest!: arg_cong [of _ _ fst])
  moreover have "forward inp s (skip_char inp ?s)" using forward_then_skip forward_skip_char by blast
  ultimately show ?thesis
    using assms peek_in [of inp ?s] by (auto intro!: step_error_state step_token split: if_splits)
qed

lemma step_idents:
  shows "step_ok inp Export_port_index_state s (export_port_index_state inp s)" "step_ok inp Port_index_state s (port_index_state inp s)"
    "step_ok inp Meta_item_state s (meta_item_state inp s)" "step_ok inp Export_ident_state s (export_ident_state inp s)"
    "step_ok inp Declare_contents_state s (declare_contents_state inp s)" "step_ok inp Declare_metatype_state s (declare_metatype_state inp s)"
    "step_ok inp Declare_name_state s (declare_name_state inp s)" "step_ok inp Option_name_state s (option_name_state inp s)"
    "step_ok inp Option_node_option_state s (option_node_option_state inp s)"
    "step_ok inp Option_node_name_state s (option_node_name_state inp s)" "step_ok inp Component_state s (component_state inp s)"
  using step_digits_token [of inp s Export_port_index_state isdigit] step_digits_token [of inp s Port_index_state isdigit]
    step_digits_token [of inp s Meta_item_state is_meta_ident] step_ident_token [of inp s]
  by (simp_all add: export_port_index_state_def port_index_state_def meta_item_state_def export_ident_state_def declare_contents_state_def
      declare_metatype_state_def declare_name_state_def option_name_state_def option_node_option_state_def option_node_name_state_def
      component_state_def ident_token_def)

lemma step_keywords:
  shows "step_ok inp Inport_state s (inport_state s)" "step_ok inp Outport_state s (outport_state s)"
    "step_ok inp Declare_state s (declare_state s)" "step_ok inp Option_state s (option_state s)"
    "step_ok inp Identifier_state s (identifier_state s)"
  using step_empty_token [OF forward_refl]
  by (simp_all add: inport_state_def outport_state_def declare_state_def option_state_def identifier_state_def)

lemma run_state_step:
  assumes ok: "tok_type s = SOL_FBP_TOKEN_NONE" and "st \<noteq> Null_state"
  shows "\<exists>r. run_state inp st s = Some r \<and> step_ok inp st s r"
proof (cases "st = Error_state")
  case True
  then show ?thesis using ok by (simp add: error_state_def step_ok_def tokens_left_def forward_refl)
next
  case False
  note steps = step_default [OF ok] step_meta [OF ok] step_export [OF ok] step_ends [OF ok] step_spaces [OF ok]
    step_keyword [OF ok] step_string [OF ok] step_arrow [OF ok] step_idents step_keywords
  show ?thesis
    using False assms(2) by (cases st) (simp_all add: steps step_one_char [OF ok] inport_equal_state_def outport_equal_state_def
        declare_second_sep_state_def declare_first_sep_state_def declare_equal_state_def option_second_sep_state_def
        option_first_sep_state_def option_equal_state_def)
qed

section \<open>Scanning a token\<close>

definition scanner_ok :: "byte list \<Rightarrow> sol_fbp_scanner \<Rightarrow> bool" where
  "scanner_ok inp s \<longleftrightarrow> scan_ok inp s \<and> (fs_state s = Null_state \<longrightarrow> final_type (tok_type s))"

abbreviation scan_budget :: "byte list \<Rightarrow> sol_fbp_scanner \<Rightarrow> nat" where
  "scan_budget inp s \<equiv> tokens_left inp (fs_state s) s"

text \<open>A token is there, with its position.\<close>

definition scanned :: "sol_fbp_scanner \<Rightarrow> bool" where
  "scanned s \<longleftrightarrow> tok_type s \<noteq> SOL_FBP_TOKEN_NONE \<and> placed s \<and> (fs_state s = Null_state \<longrightarrow> final_type (tok_type s))"

lemma with_state [simp]:
  "scan_ok inp (s\<lparr>fs_state := st\<rparr>) = scan_ok inp s" "placed (s\<lparr>fs_state := st\<rparr>) = placed s"
  "tokens_left inp st' (s\<lparr>fs_state := st\<rparr>) = tokens_left inp st' s"
  "forward inp s0 (s\<lparr>fs_state := st\<rparr>) = forward inp s0 s" "forward inp (s\<lparr>fs_state := st\<rparr>) s1 = forward inp s s1"
  by (simp_all add: scan_ok_def placed_def tokens_left_def forward_def)

lemma scan_loop_ok:
  "tok_type s = SOL_FBP_TOKEN_NONE \<Longrightarrow> fs_state s \<noteq> Null_state \<Longrightarrow>
   \<exists>s'. scan_loop inp s = Some s' \<and> forward inp s s' \<and> scanned s' \<and> (final_type (tok_type s') \<or> scan_budget inp s' < scan_budget inp s)"
proof (induction inp s rule: scan_loop.induct)
  case (1 inp s)
  obtain st s1 where r: "run_state inp (fs_state s) s = Some (st, s1)" and ok: "step_ok inp (fs_state s) s (st, s1)"
    using run_state_step [OF "1.prems", of inp] by auto
  have f: "forward inp s s1" and left: "tokens_left inp st s1 \<le> scan_budget inp s" using ok by (simp_all add: step_ok_def)
  show ?case
  proof (cases "tok_type s1 = SOL_FBP_TOKEN_NONE")
    case True
    then have "st \<noteq> Null_state" using ok by (auto simp: step_ok_def)
    then obtain s' where "scan_loop inp (s1\<lparr>fs_state := st\<rparr>) = Some s'" "forward inp s1 s'" "scanned s'"
      "final_type (tok_type s') \<or> scan_budget inp s' < tokens_left inp st s1"
      using "1.IH" [OF r refl True] True by auto
    then show ?thesis using r True left forward_trans [OF f] by (subst scan_loop.simps) auto
  next
    case False
    then have "scanned (s1\<lparr>fs_state := st\<rparr>)" using ok by (auto simp: scanned_def step_ok_def)
    then show ?thesis using r False ok by (subst scan_loop.simps) (auto simp: step_ok_def)
  qed
qed

lemma scan_token_final: "final_type (tok_type s) \<Longrightarrow> sol_fbp_scan_token inp s = Some s"
  by (auto simp: sol_fbp_scan_token_def)

lemma scan_token_steps:
  assumes "\<not> final_type (tok_type s)" and "fs_state s \<noteq> Null_state"
  shows "\<exists>s'. sol_fbp_scan_token inp s = Some s' \<and> forward inp s s' \<and> scanned s' \<and>
    tok_end s \<le> tok_start s' \<and> (final_type (tok_type s') \<or> scan_budget inp s' < scan_budget inp s)"
proof -
  let ?s = "set_token SOL_FBP_TOKEN_NONE (ignore s)"
  have s: "fs_state ?s \<noteq> Null_state" "scan_budget inp ?s = scan_budget inp s" "tok_start ?s = tok_end ?s" "tok_end ?s = tok_end s"
    using assms by (auto simp: ignore_def tokens_left_def peek_def set_token_def)
  have f: "forward inp s ?s" using forward_ignore [OF forward_refl] by simp
  obtain s' where s': "scan_loop inp ?s = Some s'" "forward inp ?s s'" "scanned s'"
    "final_type (tok_type s') \<or> scan_budget inp s' < scan_budget inp ?s" using scan_loop_ok [of ?s inp] s(1) by auto
  have "tok_end s \<le> tok_start s'" using s'(2) s(3,4) by (auto simp: forward_def)
  then show ?thesis using s' s(2) forward_trans [OF f s'(2)] assms(1) by (auto simp: sol_fbp_scan_token_def)
qed

lemma scan_token_ok:
  assumes "scanner_ok inp s" and "\<not> final_type (tok_type s)"
  shows "\<exists>s'. sol_fbp_scan_token inp s = Some s' \<and> scanner_ok inp s' \<and> scanned s' \<and> tok_end s \<le> tok_start s' \<and>
    (final_type (tok_type s') \<or> scan_budget inp s' < scan_budget inp s)"
  using scan_token_steps [OF assms(2), of inp] assms by (auto simp: scanner_ok_def scanned_def forward_def)

text \<open>This also holds when the scanner is not all right: it is the reason why the loops of the parser end.\<close>

lemma scan_token_budget:
  assumes "sol_fbp_scan_token inp s = Some s'" and "\<not> final_type (tok_type s)"
  shows "final_type (tok_type s') \<or> scan_budget inp s' < scan_budget inp s"
proof (cases "fs_state s = Null_state")
  case True
  then have "scan_loop inp (set_token SOL_FBP_TOKEN_NONE (ignore s)) = None"
    by (subst scan_loop.simps) (simp add: ignore_def)
  then show ?thesis using assms by (auto simp: sol_fbp_scan_token_def)
qed (use scan_token_steps [OF assms(2), of inp] assms(1) in auto)

lemma scanner_init_ok: "scanner_ok inp sol_fbp_scanner_init"
  by (simp add: scanner_ok_def scan_ok_def sol_fbp_scanner_init_def pos_at_def)

text \<open>The scanner after \<open>n\<close> calls.\<close>

fun scan_n :: "byte list \<Rightarrow> nat \<Rightarrow> sol_fbp_scanner option" where
  "scan_n inp 0 = Some sol_fbp_scanner_init"
| "scan_n inp (Suc n) = Option.bind (scan_n inp n) (sol_fbp_scan_token inp)"

lemma scan_n_ok:
  "\<exists>s. scan_n inp n = Some s \<and> scanner_ok inp s \<and> (final_type (tok_type s) \<or> scan_budget inp s + n \<le> 2 * length inp) \<and>
     (0 < n \<longrightarrow> tok_type s \<noteq> SOL_FBP_TOKEN_NONE \<and> placed s)"
proof (induction n)
  case 0
  then show ?case using scanner_init_ok by (simp add: tokens_left_def sol_fbp_scanner_init_def)
next
  case (Suc n)
  then obtain s where s: "scan_n inp n = Some s" "scanner_ok inp s" "final_type (tok_type s) \<or> scan_budget inp s + n \<le> 2 * length inp"
    "0 < n \<longrightarrow> tok_type s \<noteq> SOL_FBP_TOKEN_NONE \<and> placed s" by auto
  show ?case
  proof (cases "final_type (tok_type s)")
    case True
    then have "0 < n" using s(1) by (cases n) (auto simp: sol_fbp_scanner_init_def)
    then show ?thesis using True s scan_token_final [of s inp] by auto
  next
    case False
    then show ?thesis using scan_token_ok [OF s(2) False] s(1,3) by (auto simp: scanned_def)
  qed
qed

lemma pos_at_short:
  assumes "length inp < 2 ^ 32 - 1"
  shows "k \<le> length inp \<Longrightarrow> pos_at inp k = (1 + count_list (take k inp) 10, 1 + length (takeWhile (\<lambda>c. c \<noteq> 10) (rev (take k inp))))"
proof (induction k)
  case (Suc k)
  have t: "take (Suc k) inp = take k inp @ [inp ! k]" using Suc.prems by (simp add: take_Suc_conv_app_nth)
  have "count_list (take k inp) 10 \<le> length (take k inp)" by (rule count_le_length)
  moreover have "length (takeWhile (\<lambda>c. c \<noteq> 10) (rev (take k inp))) \<le> length (take k inp)"
    using length_takeWhile_le [of _ "rev (take k inp)"] by simp
  ultimately show ?case using Suc assms by (simp add: pos_at_def t advance_def uint_suc_def)
qed (simp add: pos_at_def)

text \<open>
  C23. Scanning is memory safe and always comes to an end. However often the scanner of the flow
  language is asked for a token of any input, it yields one: the token lies in the input, behind the
  one before, and its line and column are those of its first byte (lines and columns count from 1). After
  at most \<^verbatim>\<open>2 * length + 1\<close> calls the token is the end of the input or an error, and it stays so.\<close>

theorem fbp_scanner_tokens:
  assumes "length inp < 2 ^ 32 - 1"
  shows "\<exists>s. scan_n inp (Suc n) = Some s \<and> fbp_type (fs_token s) \<noteq> SOL_FBP_TOKEN_NONE \<and>
    fbp_start (fs_token s) \<le> fbp_end (fs_token s) \<and> fbp_end (fs_token s) \<le> length inp \<and>
    fbp_line (fs_token s) = 1 + count_list (take (fbp_start (fs_token s)) inp) 10 \<and>
    fbp_column (fs_token s) = 1 + length (takeWhile (\<lambda>c. c \<noteq> 10) (rev (take (fbp_start (fs_token s)) inp))) \<and>
    (\<exists>s0. scan_n inp n = Some s0 \<and>
      (if final_type (fbp_type (fs_token s0)) then s = s0 else fbp_end (fs_token s0) \<le> fbp_start (fs_token s))) \<and>
    (2 * length inp \<le> n \<longrightarrow> final_type (fbp_type (fs_token s)))"
proof -
  obtain s where s: "scan_n inp (Suc n) = Some s" "scanner_ok inp s" "final_type (tok_type s) \<or> scan_budget inp s + Suc n \<le> 2 * length inp"
    "tok_type s \<noteq> SOL_FBP_TOKEN_NONE" "placed s" using scan_n_ok [of inp "Suc n"] by auto
  obtain s0 where s0: "scan_n inp n = Some s0" "scanner_ok inp s0" using scan_n_ok [of inp n] by auto
  have "(fbp_line (fs_token s), fbp_column (fs_token s)) = pos_at inp (tok_start s)" "tok_start s \<le> tok_end s" "tok_end s \<le> length inp"
    using s(2,5) by (simp_all add: scanner_ok_def scan_ok_def placed_def)
  moreover have "if final_type (tok_type s0) then s = s0 else tok_end s0 \<le> tok_start s"
    using s(1) s0 scan_token_final [of s0 inp] scan_token_ok [OF s0(2)] by (auto simp: scanned_def)
  ultimately show ?thesis using s(1,3,4) s0(1) pos_at_short [OF assms, of "tok_start s"] by auto
qed

text \<open>The input \<^verbatim>\<open>a\<close>, a line feed and \<^verbatim>\<open>b\<close>.\<close>

theorem fbp_scanner_tokens_witness:
  "\<exists>s. scan_n [97, 10, 98] (Suc 6) = Some s \<and> final_type (fbp_type (fs_token s)) \<and> fbp_end (fs_token s) \<le> length [97, 10, 98 :: byte]"
proof -
  have short: "length [97, 10, 98 :: byte] < 2 ^ 32 - 1" and six: "2 * length [97, 10, 98 :: byte] \<le> 6" by simp_all
  show ?thesis using fbp_scanner_tokens [OF short, of 6] six by blast
qed

end
