(* ===== verification/Fbp_Graph.thy ===== *)
theory Fbp_Graph
  imports Str_Slice Vector
begin

text \<open>
  The graph a flow description is parsed into, \<^verbatim>\<open>src/shared/sol-fbp-graph.c\<close>, with the part of
  \<^verbatim>\<open>sol-arena.c\<close> it uses. A slice is the list of its bytes, a vector the list of its elements: what
  \<^verbatim>\<open>sol_vector_append\<close> does to the elements is proved from the model of vectors. \<^verbatim>\<open>user_data\<close> of a node
  belongs to the users of the graph and is left out.
\<close>

section \<open>Vectors as lists\<close>

text \<open>Appending an element of \<open>es\<close> bytes: the vector is full, or cannot grow, or gets longer by one.\<close>

definition vec_append :: "'l libc \<Rightarrow> nat \<Rightarrow> 'a \<Rightarrow> 'a list \<Rightarrow> errno + 'a list" where
  "vec_append l es x xs =
     (if length xs + 1 > UINT16_MAX then Inl EOVERFLOW
      else let new_cap = align_power2_short_uint (length xs + 1)
           in if new_cap \<noteq> align_power2_short_uint (length xs) \<and> \<not> alloc_ok l (es * new_cap) then Inl ENOMEM
              else Inr (xs @ [x]))"

text \<open>The loop over a vector that stops at the first element with a property.\<close>

fun first_index :: "('a \<Rightarrow> bool) \<Rightarrow> 'a list \<Rightarrow> nat option" where
  "first_index P [] = None"
| "first_index P (x # xs) = (if P x then Some 0 else map_option Suc (first_index P xs))"

text \<open>\<^verbatim>\<open>sol_vector_get\<close> takes an index of 16 bits; the callers have an \<^verbatim>\<open>int\<close>.\<close>

definition index16 :: "int \<Rightarrow> nat" where
  "index16 i = nat (i mod 65536)"

section \<open>The graph\<close>

type_synonym position = "nat \<times> nat"

record sol_fbp_port =
  pt_position :: position
  pt_name :: "byte list"

record sol_fbp_meta =
  me_position :: position
  me_key :: "byte list"
  me_value :: "byte list"

record sol_fbp_node =
  fn_position :: position
  fn_name :: "byte list"
  fn_component :: "byte list"
  fn_meta :: "sol_fbp_meta list"
  fn_in_ports :: "sol_fbp_port list"
  fn_out_ports :: "sol_fbp_port list"

record sol_fbp_conn =
  cn_position :: position
  cn_src :: int
  cn_dst :: int
  cn_src_port :: "byte list"
  cn_dst_port :: "byte list"
  cn_src_port_idx :: int
  cn_dst_port_idx :: int

record sol_fbp_exported_port =
  ep_position :: position
  ep_node :: int
  ep_port_idx :: int
  ep_port :: "byte list"
  ep_exported_name :: "byte list"

record sol_fbp_declaration =
  de_name :: "byte list"
  de_metatype :: "byte list"
  de_contents :: "byte list"
  de_position :: position

record sol_fbp_option =
  op_name :: "byte list"
  op_node_option :: "byte list"
  op_node :: int
  op_position :: position

text \<open>\<open>None\<close> as the arena is NULL, which \<^verbatim>\<open>sol_fbp_graph_init\<close> leaves there when it could not be created.\<close>

record sol_fbp_graph =
  g_nodes :: "sol_fbp_node list"
  g_conns :: "sol_fbp_conn list"
  g_exported_in_ports :: "sol_fbp_exported_port list"
  g_exported_out_ports :: "sol_fbp_exported_port list"
  g_declarations :: "sol_fbp_declaration list"
  g_options :: "sol_fbp_option list"
  g_arena :: "byte list list option"

text \<open>The sizes of the structures, on a machine with pointers of 8 bytes.\<close>

definition sizeof_port :: nat where "sizeof_port = 24"

definition sizeof_meta :: nat where "sizeof_meta = 40"

definition sizeof_node :: nat where "sizeof_node = 96"

definition sizeof_conn :: nat where "sizeof_conn = 56"

definition sizeof_exported_port :: nat where "sizeof_exported_port = 48"

definition sizeof_declaration :: nat where "sizeof_declaration = 56"

definition sizeof_option :: nat where "sizeof_option = 48"

definition sizeof_arena :: nat where "sizeof_arena = 16"

subsection \<open>The arena\<close>

definition sol_arena_new :: "'l libc \<Rightarrow> byte list list option" where
  "sol_arena_new l = (if alloc_ok l sizeof_arena then Some [] else None)"

text \<open>\<open>str\<close> is what the format prints; \<^verbatim>\<open>vasprintf\<close> returns -1 when it cannot allocate.\<close>

definition sol_arena_slice_sprintf :: "'l libc \<Rightarrow> byte list \<Rightarrow> byte list list option \<Rightarrow> ((errno + byte list) \<times> byte list list option) option" where
  "sol_arena_slice_sprintf l str arena =
     (if \<not> alloc_ok l (length str + 1) then Some (Inl EPERM, arena)
      else case arena of None \<Rightarrow> None
        | Some strs \<Rightarrow>
            (case vec_append l 8 str strs of
               Inl e \<Rightarrow> Some (Inl e, arena)
             | Inr strs \<Rightarrow> Some (Inr str, Some strs)))"

text \<open>\<^verbatim>\<open>%d\<close>, and an \<^verbatim>\<open>unsigned int\<close> that is passed for it.\<close>

fun nat_digits :: "nat \<Rightarrow> byte list" where
  "nat_digits n = (if n < 10 then [of_nat (48 + n)] else nat_digits (n div 10) @ [of_nat (48 + n mod 10)])"

declare nat_digits.simps [simp del]

definition print_int :: "nat \<Rightarrow> byte list" where
  "print_int n = (if n < 2 ^ 31 then nat_digits n else ascii CHR ''-'' # nat_digits (2 ^ 32 - n))"

definition anon_name :: "position \<Rightarrow> byte list" where
  "anon_name position = map ascii ''#anon:'' @ print_int (fst position) @ [ascii CHR '':''] @ print_int (snd position)"

subsection \<open>Operations\<close>

definition sol_fbp_graph_init :: "'l libc \<Rightarrow> sol_fbp_graph" where
  "sol_fbp_graph_init l =
     \<lparr>g_nodes = [], g_conns = [], g_exported_in_ports = [], g_exported_out_ports = [], g_declarations = [], g_options = [],
      g_arena = sol_arena_new l\<rparr>"

text \<open>The second result is \<^verbatim>\<open>out_node\<close>, the index of a node.\<close>

definition append_node :: "'l libc \<Rightarrow> byte list \<Rightarrow> byte list \<Rightarrow> position \<Rightarrow> sol_fbp_graph \<Rightarrow> (errno + nat) \<times> nat option \<times> sol_fbp_graph" where
  "append_node l name component position g =
     (case vec_append l sizeof_node \<lparr>fn_position = position, fn_name = name, fn_component = component, fn_meta = [],
          fn_in_ports = [], fn_out_ports = []\<rparr> (g_nodes g) of
        Inl e \<Rightarrow> (Inl e, None, g)
      | Inr nodes \<Rightarrow> (Inr (length nodes - 1), Some (length nodes - 1), g\<lparr>g_nodes := nodes\<rparr>))"

definition sol_fbp_graph_add_node ::
    "'l libc \<Rightarrow> sol_fbp_graph \<Rightarrow> byte list \<Rightarrow> byte list \<Rightarrow> position \<Rightarrow> ((errno + nat) \<times> nat option \<times> sol_fbp_graph) option" where
  "sol_fbp_graph_add_node l g name component position =
     (if name = [ascii CHR ''_''] then
        if component = [] then Some (Inl EINVAL, None, g)
        else do {
          (r, arena) \<leftarrow> sol_arena_slice_sprintf l (anon_name position) (g_arena g);
          let g = g\<lparr>g_arena := arena\<rparr>;
          (case r of Inl e \<Rightarrow> Some (Inl e, None, g)
           | Inr name \<Rightarrow> Some (append_node l name component position g))
        }
      else
        (case first_index (\<lambda>n. fn_name n = name) (g_nodes g) of
           Some i \<Rightarrow>
             if component \<noteq> [] then
               if fn_component (g_nodes g ! i) \<noteq> [] then Some (Inl EEXIST, Some i, g)
               else Some (Inr i, None, g\<lparr>g_nodes := (g_nodes g)[i := (g_nodes g ! i)\<lparr>fn_component := component\<rparr>]\<rparr>)
             else Some (Inr i, None, g)
         | None \<Rightarrow> Some (append_node l name component position g)))"

definition set_node :: "nat \<Rightarrow> sol_fbp_node \<Rightarrow> sol_fbp_graph \<Rightarrow> sol_fbp_graph" where
  "set_node i n g = g\<lparr>g_nodes := (g_nodes g)[i := n]\<rparr>"

definition sol_fbp_graph_add_meta ::
    "'l libc \<Rightarrow> sol_fbp_graph \<Rightarrow> int \<Rightarrow> byte list \<Rightarrow> byte list \<Rightarrow> position \<Rightarrow> (errno + unit) \<times> sol_fbp_graph" where
  "sol_fbp_graph_add_meta l g node key value position =
     (if node < 0 \<or> index16 node \<ge> length (g_nodes g) then (Inl EINVAL, g)
      else let n = g_nodes g ! index16 node
           in if first_index (\<lambda>m. me_key m = key) (fn_meta n) \<noteq> None then (Inl EEXIST, g)
              else case vec_append l sizeof_meta \<lparr>me_position = position, me_key = key, me_value = value\<rparr> (fn_meta n) of
                     Inl e \<Rightarrow> (Inl e, g)
                   | Inr ms \<Rightarrow> (Inr (), set_node (index16 node) (n\<lparr>fn_meta := ms\<rparr>) g))"

definition sol_fbp_graph_add_in_port ::
    "'l libc \<Rightarrow> sol_fbp_graph \<Rightarrow> int \<Rightarrow> byte list \<Rightarrow> position \<Rightarrow> (errno + unit) \<times> sol_fbp_graph" where
  "sol_fbp_graph_add_in_port l g node name position =
     (if node < 0 \<or> index16 node \<ge> length (g_nodes g) then (Inl EINVAL, g)
      else let n = g_nodes g ! index16 node
           in if first_index (\<lambda>p. pt_name p = name) (fn_in_ports n) \<noteq> None then (Inr (), g)
              else case vec_append l sizeof_port \<lparr>pt_position = position, pt_name = name\<rparr> (fn_in_ports n) of
                     Inl e \<Rightarrow> (Inl e, g)
                   | Inr ps \<Rightarrow> (Inr (), set_node (index16 node) (n\<lparr>fn_in_ports := ps\<rparr>) g))"

definition sol_fbp_graph_add_out_port ::
    "'l libc \<Rightarrow> sol_fbp_graph \<Rightarrow> int \<Rightarrow> byte list \<Rightarrow> position \<Rightarrow> (errno + unit) \<times> sol_fbp_graph" where
  "sol_fbp_graph_add_out_port l g node name position =
     (if node < 0 \<or> index16 node \<ge> length (g_nodes g) then (Inl EINVAL, g)
      else let n = g_nodes g ! index16 node
           in if first_index (\<lambda>p. pt_name p = name) (fn_out_ports n) \<noteq> None then (Inr (), g)
              else case vec_append l sizeof_port \<lparr>pt_position = position, pt_name = name\<rparr> (fn_out_ports n) of
                     Inl e \<Rightarrow> (Inl e, g)
                   | Inr ps \<Rightarrow> (Inr (), set_node (index16 node) (n\<lparr>fn_out_ports := ps\<rparr>) g))"

definition same_conn :: "sol_fbp_conn \<Rightarrow> sol_fbp_conn \<Rightarrow> bool" where
  "same_conn c c' \<longleftrightarrow> cn_src c = cn_src c' \<and> cn_dst c = cn_dst c' \<and> cn_src_port_idx c = cn_src_port_idx c' \<and>
     cn_dst_port_idx c = cn_dst_port_idx c' \<and> cn_src_port c = cn_src_port c' \<and> cn_dst_port c = cn_dst_port c'"

definition sol_fbp_graph_add_conn ::
    "'l libc \<Rightarrow> sol_fbp_graph \<Rightarrow> int \<Rightarrow> byte list \<Rightarrow> int \<Rightarrow> int \<Rightarrow> byte list \<Rightarrow> int \<Rightarrow> position \<Rightarrow> (errno + nat) \<times> sol_fbp_graph" where
  "sol_fbp_graph_add_conn l g src src_port src_port_idx dst dst_port dst_port_idx position =
     (if src < 0 \<or> dst < 0 \<or> src_port = [] \<or> dst_port = [] then (Inl EINVAL, g)
      else
        let conn = \<lparr>cn_position = position, cn_src = src, cn_dst = dst, cn_src_port = src_port, cn_dst_port = dst_port,
                    cn_src_port_idx = src_port_idx, cn_dst_port_idx = dst_port_idx\<rparr>
        in if first_index (same_conn conn) (g_conns g) \<noteq> None then (Inl EEXIST, g)
           else case vec_append l sizeof_conn conn (g_conns g) of
                  Inl e \<Rightarrow> (Inl e, g)
                | Inr cs \<Rightarrow> (Inr (length (g_conns g)), g\<lparr>g_conns := cs\<rparr>))"

text \<open>What the two functions for exported ports share; the second result is \<^verbatim>\<open>out_ep\<close>.\<close>

definition ep_taken :: "int \<Rightarrow> byte list \<Rightarrow> int \<Rightarrow> sol_fbp_exported_port \<Rightarrow> bool" where
  "ep_taken node port port_idx ep \<longleftrightarrow>
     ep_node ep = node \<and> (ep_port_idx ep = port_idx \<or> ep_port_idx ep = - 1 \<or> port_idx = - 1) \<and> ep_port ep = port"

definition export_port ::
    "'l libc \<Rightarrow> int \<Rightarrow> byte list \<Rightarrow> int \<Rightarrow> byte list \<Rightarrow> position \<Rightarrow> sol_fbp_exported_port list
      \<Rightarrow> (errno + unit) \<times> nat option \<times> sol_fbp_exported_port list" where
  "export_port l node port port_idx exported_name position eps =
     (case first_index (\<lambda>ep. ep_exported_name ep = exported_name \<or> ep_taken node port port_idx ep) eps of
        Some i \<Rightarrow> (Inl (if ep_exported_name (eps ! i) = exported_name then EEXIST else EADDRINUSE), Some i, eps)
      | None \<Rightarrow>
          (case vec_append l sizeof_exported_port \<lparr>ep_position = position, ep_node = node, ep_port_idx = port_idx, ep_port = port,
               ep_exported_name = exported_name\<rparr> eps of
             Inl e \<Rightarrow> (Inl e, None, eps)
           | Inr eps' \<Rightarrow> (Inr (), Some (length eps), eps')))"

definition sol_fbp_graph_add_exported_in_port ::
    "'l libc \<Rightarrow> sol_fbp_graph \<Rightarrow> int \<Rightarrow> byte list \<Rightarrow> int \<Rightarrow> byte list \<Rightarrow> position \<Rightarrow> (errno + unit) \<times> nat option \<times> sol_fbp_graph" where
  "sol_fbp_graph_add_exported_in_port l g node port port_idx exported_name position =
     (case export_port l node port port_idx exported_name position (g_exported_in_ports g) of
        (r, ep, eps) \<Rightarrow> (r, ep, g\<lparr>g_exported_in_ports := eps\<rparr>))"

definition sol_fbp_graph_add_exported_out_port ::
    "'l libc \<Rightarrow> sol_fbp_graph \<Rightarrow> int \<Rightarrow> byte list \<Rightarrow> int \<Rightarrow> byte list \<Rightarrow> position \<Rightarrow> (errno + unit) \<times> nat option \<times> sol_fbp_graph" where
  "sol_fbp_graph_add_exported_out_port l g node port port_idx exported_name position =
     (case export_port l node port port_idx exported_name position (g_exported_out_ports g) of
        (r, ep, eps) \<Rightarrow> (r, ep, g\<lparr>g_exported_out_ports := eps\<rparr>))"

definition sol_fbp_graph_declare ::
    "'l libc \<Rightarrow> sol_fbp_graph \<Rightarrow> byte list \<Rightarrow> byte list \<Rightarrow> byte list \<Rightarrow> position \<Rightarrow> (errno + nat) \<times> sol_fbp_graph" where
  "sol_fbp_graph_declare l g name metatype contents position =
     (if name = [] \<or> metatype = [] \<or> contents = [] then (Inl EINVAL, g)
      else if first_index (\<lambda>d. de_name d = name) (g_declarations g) \<noteq> None then (Inl EEXIST, g)
      else case vec_append l sizeof_declaration \<lparr>de_name = name, de_metatype = metatype, de_contents = contents, de_position = position\<rparr>
             (g_declarations g) of
             Inl e \<Rightarrow> (Inl e, g)
           | Inr ds \<Rightarrow> (Inr (length (g_declarations g)), g\<lparr>g_declarations := ds\<rparr>))"

definition sol_fbp_graph_option ::
    "'l libc \<Rightarrow> sol_fbp_graph \<Rightarrow> int \<Rightarrow> byte list \<Rightarrow> byte list \<Rightarrow> position \<Rightarrow> (errno + nat) \<times> sol_fbp_graph" where
  "sol_fbp_graph_option l g node name node_opt position =
     (if name = [] \<or> node_opt = [] then (Inl EINVAL, g)
      else if first_index (\<lambda>x. op_name x = name) (g_options g) \<noteq> None then (Inl EEXIST, g)
      else case vec_append l sizeof_option \<lparr>op_name = name, op_node_option = node_opt, op_node = node, op_position = position\<rparr>
             (g_options g) of
             Inl e \<Rightarrow> (Inl e, g)
           | Inr os \<Rightarrow> (Inr (length (g_options g)), g\<lparr>g_options := os\<rparr>))"

text \<open>Everything the graph holds is given back.\<close>

definition sol_fbp_graph_fini :: "sol_fbp_graph \<Rightarrow> sol_fbp_graph" where
  "sol_fbp_graph_fini g =
     \<lparr>g_nodes = [], g_conns = [], g_exported_in_ports = [], g_exported_out_ports = [], g_declarations = [], g_options = [],
      g_arena = None\<rparr>"

section \<open>Vectors and lists\<close>

lemma vec_append_Inr: "vec_append l es x xs = Inr ys \<Longrightarrow> ys = xs @ [x] \<and> length xs < UINT16_MAX"
  by (auto simp: vec_append_def Let_def split: if_splits)

lemma vec_append_total: "alloc_total l \<Longrightarrow> length xs < UINT16_MAX \<Longrightarrow> vec_append l es x xs = Inr (xs @ [x])"
  by (simp add: vec_append_def alloc_total_def Let_def)

lemma first_index_None: "first_index P xs = None \<longleftrightarrow> (\<forall>x\<in>set xs. \<not> P x)"
  by (induction xs) auto

lemma first_index_Some: "first_index P xs = Some i \<Longrightarrow> i < length xs \<and> P (xs ! i) \<and> (\<forall>j<i. \<not> P (xs ! j))"
proof (induction xs arbitrary: i)
  case (Cons x xs)
  show ?case
  proof (cases "P x")
    case False
    then obtain k where k: "first_index P xs = Some k" "i = Suc k" using Cons.prems by auto
    then show ?thesis using Cons.IH [OF k(1)] False by (auto simp: less_Suc_eq_0_disj)
  qed (use Cons.prems in simp)
qed simp

text \<open>
  The lists are the elements of the vectors: on a vector that holds \<open>xs\<close>, appending an element
  and writing \<open>x\<close> to it has the result that \<open>vec_append\<close> says.
\<close>

lemma vec_append_refines:
  assumes wf: "vec_wf v" and small: "vec_small v"
  shows "case vec_append l (velem_size v) x (velems v) of
      Inl e \<Rightarrow> sol_vector_append l v = Some (Inl e, v)
    | Inr xs \<Rightarrow> \<exists>v'. sol_vector_append l v = Some (Inr (vlen v), v') \<and> vec_wf v' \<and>
        velems (v'\<lparr>vdata := Some ((vblock v')[vlen v := x])\<rparr>) = xs"
proof -
  have len: "length (velems v) = vlen v" by (rule length_velems [OF wf])
  let ?cap = "align_power2_short_uint (vlen v + 1)"
  have es: "0 < velem_size v" using wf by (simp add: vec_wf_def)
  have cap: "0 < ?cap" if "vlen v + 1 \<le> UINT16_MAX" using align_power2_short_uint_ge [OF that] by simp
  have fail: "sol_vector_append l v = Some (Inl EOVERFLOW, v)" if "vlen v + 1 > UINT16_MAX"
  proof -
    have "vlen v > UINT16_MAX - 1" using that by (simp add: UINT16_MAX_def)
    then show ?thesis by (simp add: sol_vector_append_def sol_vector_append_n_def sol_vector_grow_def)
  qed
  have nomem: "sol_vector_append l v = Some (Inl ENOMEM, v)"
    if "vlen v + 1 \<le> UINT16_MAX" "?cap \<noteq> align_power2_short_uint (vlen v)" "\<not> alloc_ok l (velem_size v * ?cap)"
    using that vec_size_small [OF wf, of "vlen v + 1"]
    by (simp add: sol_vector_append_def sol_vector_append_n_def sol_vector_grow_def realloc_cells_def mult.commute)
  have good: "\<exists>v'. sol_vector_append l v = Some (Inr (vlen v), v') \<and> vec_wf v' \<and> velems (v'\<lparr>vdata := Some ((vblock v')[vlen v := x])\<rparr>) = velems v @ [x]"
    if c: "vlen v + 1 \<le> UINT16_MAX" "\<not> (?cap \<noteq> align_power2_short_uint (vlen v) \<and> \<not> alloc_ok l (velem_size v * ?cap))"
  proof -
    have "\<exists>v1. sol_vector_grow l v 1 = (Inr (), v1)"
      using c cap [OF c(1)] es vec_size_small [OF wf, of "vlen v + 1"]
      by (auto simp: sol_vector_grow_def realloc_cells_def mult.commute Let_def)
    then have no_err: "sol_vector_append_n l v 1 \<noteq> Some (Inl e, v)" for e by (auto simp: sol_vector_append_n_def split: bind_splits if_splits)
    show ?thesis
    proof (rule sol_vector_append_n_ok [OF wf small, of 1 l])
      show "1 \<le> UINT16_MAX" by (simp add: UINT16_MAX_def)
    next
      fix v' assume v': "sol_vector_append_n l v 1 = Some (Inr (vlen v), v')" "vec_wf v'" "velems v' = velems v @ replicate 1 0" "vlen v' = vlen v + 1"
      have "velems (v'\<lparr>vdata := Some ((vblock v')[vlen v := x])\<rparr>) = (velems v')[vlen v := x]"
        by (simp add: velems_def take_update_swap)
      also have "\<dots> = velems v @ [x]" using v'(3) len by (simp add: list_update_append)
      finally show ?thesis using v'(1,2) by (auto simp: sol_vector_append_def)
    qed (use no_err in auto)
  qed
  show ?thesis
    using fail nomem good by (auto simp: vec_append_def len Let_def)
qed

section \<open>Well-formed graphs\<close>

definition valid_node :: "sol_fbp_graph \<Rightarrow> int \<Rightarrow> bool" where
  "valid_node g i \<longleftrightarrow> 0 \<le> i \<and> i < int (length (g_nodes g))"

definition node_ok :: "sol_fbp_node \<Rightarrow> bool" where
  "node_ok n \<longleftrightarrow> distinct (map me_key (fn_meta n)) \<and> distinct (map pt_name (fn_in_ports n)) \<and> distinct (map pt_name (fn_out_ports n))"

text \<open>Names that the graph makes up start with a character that identifiers do not have.\<close>

definition named :: "sol_fbp_node \<Rightarrow> bool" where
  "named n \<longleftrightarrow> take 1 (fn_name n) \<noteq> [ascii CHR ''#'']"

definition conn_key :: "sol_fbp_conn \<Rightarrow> int \<times> byte list \<times> int \<times> int \<times> byte list \<times> int" where
  "conn_key c = (cn_src c, cn_src_port c, cn_src_port_idx c, cn_dst c, cn_dst_port c, cn_dst_port_idx c)"

definition conn_ok :: "sol_fbp_graph \<Rightarrow> sol_fbp_conn \<Rightarrow> bool" where
  "conn_ok g c \<longleftrightarrow> valid_node g (cn_src c) \<and> valid_node g (cn_dst c) \<and> cn_src_port c \<noteq> [] \<and> cn_dst_port c \<noteq> []"

definition exports_ok :: "sol_fbp_graph \<Rightarrow> sol_fbp_exported_port list \<Rightarrow> bool" where
  "exports_ok g eps \<longleftrightarrow> (\<forall>ep\<in>set eps. valid_node g (ep_node ep)) \<and> distinct (map ep_exported_name eps) \<and>
     sorted_wrt (\<lambda>a b. \<not> ep_taken (ep_node b) (ep_port b) (ep_port_idx b) a) eps"

definition nodes_ok :: "sol_fbp_node list \<Rightarrow> bool" where
  "nodes_ok ns \<longleftrightarrow> length ns \<le> UINT16_MAX \<and> (\<forall>n\<in>set ns. node_ok n) \<and> distinct (map fn_name (filter named ns))"

definition graph_ok :: "sol_fbp_graph \<Rightarrow> bool" where
  "graph_ok g \<longleftrightarrow> nodes_ok (g_nodes g) \<and>
     (\<forall>c\<in>set (g_conns g). conn_ok g c) \<and> distinct (map conn_key (g_conns g)) \<and>
     exports_ok g (g_exported_in_ports g) \<and> exports_ok g (g_exported_out_ports g) \<and>
     (\<forall>d\<in>set (g_declarations g). de_name d \<noteq> [] \<and> de_metatype d \<noteq> [] \<and> de_contents d \<noteq> []) \<and> distinct (map de_name (g_declarations g)) \<and>
     (\<forall>x\<in>set (g_options g). op_name x \<noteq> [] \<and> op_node_option x \<noteq> [] \<and> valid_node g (op_node x)) \<and> distinct (map op_name (g_options g))"

lemma graph_ok_init: "graph_ok (sol_fbp_graph_init l)"
  by (simp add: graph_ok_def sol_fbp_graph_init_def nodes_ok_def exports_ok_def)

lemma graph_ok_nodes:
  assumes "graph_ok g" and "nodes_ok ns" and "length (g_nodes g) \<le> length ns"
  shows "graph_ok (g\<lparr>g_nodes := ns\<rparr>)"
  using assms by (fastforce simp: graph_ok_def exports_ok_def conn_ok_def valid_node_def)

lemma graph_ok_arena [simp]: "graph_ok (g\<lparr>g_arena := a\<rparr>) = graph_ok g"
  by (simp add: graph_ok_def exports_ok_def conn_ok_def valid_node_def)

lemma distinct_map_snoc: "distinct (map f xs) \<Longrightarrow> \<forall>y\<in>set xs. f y \<noteq> f x \<Longrightarrow> distinct (map f (xs @ [x]))"
  by auto

lemma nodes_ok_update:
  assumes "nodes_ok ns" and "i < length ns" and "node_ok n" and "fn_name n = fn_name (ns ! i)"
  shows "nodes_ok (ns[i := n])"
proof -
  have "map fn_name (filter named (ns[i := n])) = filter (\<lambda>x. take 1 x \<noteq> [ascii CHR ''#'']) (map fn_name (ns[i := n]))"
    by (simp add: filter_map named_def [abs_def] comp_def)
  also have "map fn_name (ns[i := n]) = map fn_name ns"
    using assms(2,4) by (simp add: map_update list_update_same_conv)
  finally have "map fn_name (filter named (ns[i := n])) = map fn_name (filter named ns)"
    by (simp add: filter_map named_def [abs_def] comp_def)
  moreover have "set (ns[i := n]) \<subseteq> insert n (set ns)" by (rule set_update_subset_insert)
  ultimately show ?thesis using assms(1,3) by (auto simp: nodes_ok_def)
qed

lemma nodes_ok_append:
  assumes "nodes_ok ns" and "length ns < UINT16_MAX" and "node_ok n" and "named n \<longrightarrow> (\<forall>m\<in>set ns. fn_name m \<noteq> fn_name n)"
  shows "nodes_ok (ns @ [n])"
  using assms by (auto simp: nodes_ok_def)

text \<open>The graph is still well formed and has its arena and the nodes it had, perhaps more.\<close>

definition extends :: "sol_fbp_graph \<Rightarrow> sol_fbp_graph \<Rightarrow> bool" where
  "extends g g' \<longleftrightarrow> graph_ok g' \<and> length (g_nodes g) \<le> length (g_nodes g') \<and> (g_arena g \<noteq> None \<longrightarrow> g_arena g' \<noteq> None)"

lemma extends_refl: "graph_ok g \<Longrightarrow> extends g g"
  by (simp add: extends_def)

lemma extends_trans: "extends g g1 \<Longrightarrow> extends g1 g2 \<Longrightarrow> extends g g2"
  by (simp add: extends_def)

lemma extends_valid: "extends g g' \<Longrightarrow> valid_node g i \<Longrightarrow> valid_node g' i"
  by (auto simp: extends_def valid_node_def)

lemma append_node_ok:
  assumes "graph_ok g" and "append_node l name component position g = (r, out, g')"
    and "take 1 name \<noteq> [ascii CHR ''#''] \<longrightarrow> (\<forall>m\<in>set (g_nodes g). fn_name m \<noteq> name)"
  shows "extends g g'" and "r = Inr i \<Longrightarrow> valid_node g' (int i)"
proof -
  let ?n = "\<lparr>fn_position = position, fn_name = name, fn_component = component, fn_meta = [], fn_in_ports = [], fn_out_ports = []\<rparr>"
  have ok: "nodes_ok (g_nodes g @ [?n])" if "length (g_nodes g) < UINT16_MAX"
    using assms that by (intro nodes_ok_append) (auto simp: graph_ok_def node_ok_def named_def)
  show "extends g g'" "r = Inr i \<Longrightarrow> valid_node g' (int i)"
    using assms(1,2) graph_ok_nodes [OF assms(1) ok]
    by (auto simp: append_node_def extends_def valid_node_def split: sum.splits dest!: vec_append_Inr)
qed

lemma add_node_ok:
  assumes "graph_ok g" and "sol_fbp_graph_add_node l g name component position = Some (r, out, g')"
  shows "extends g g'" and "r = Inr i \<Longrightarrow> valid_node g' (int i)"
proof -
  have "extends g g' \<and> (r = Inr i \<longrightarrow> valid_node g' (int i))"
  proof (cases "name = [ascii CHR ''_'']")
    case True
    have anon: "take 1 (anon_name position) = [ascii CHR ''#'']" by (simp add: anon_name_def)
    have str: "sol_arena_slice_sprintf l s a = Some (Inr x, a') \<Longrightarrow> x = s" and keep: "sol_arena_slice_sprintf l s a = Some (q, a') \<Longrightarrow> a \<noteq> None \<Longrightarrow> a' \<noteq> None" for s a x a' q
      by (auto simp: sol_arena_slice_sprintf_def split: if_splits option.splits sum.splits)
    show ?thesis
    proof (cases "component = []")
      case False
      then obtain q a where q: "sol_arena_slice_sprintf l (anon_name position) (g_arena g) = Some (q, a)"
        using assms(2) True by (auto simp: sol_fbp_graph_add_node_def split: bind_splits)
      let ?g = "g\<lparr>g_arena := a\<rparr>"
      have arena: "g_arena g \<noteq> None \<longrightarrow> a \<noteq> None" using keep [OF q] by blast
      have ok: "graph_ok ?g" using assms(1) by simp
      show ?thesis
      proof (cases q)
        case (Inl e)
        then show ?thesis using assms True False q arena by (auto simp: sol_fbp_graph_add_node_def extends_def)
      next
        case (Inr x)
        then have "append_node l (anon_name position) component position ?g = (r, out, g')"
          using assms(2) True False q str by (auto simp: sol_fbp_graph_add_node_def)
        note an = append_node_ok [OF ok this]
        show ?thesis using an(1) an(2) [of i] anon arena by (auto simp: extends_def)
      qed
    qed (use assms True in \<open>auto simp: sol_fbp_graph_add_node_def extends_def\<close>)
  next
    case name: False
    show ?thesis
    proof (cases "first_index (\<lambda>n. fn_name n = name) (g_nodes g)")
      case None
      then have a: "append_node l name component position g = (r, out, g')" using assms(2) name by (simp add: sol_fbp_graph_add_node_def)
      note an = append_node_ok [OF assms(1) a]
      show ?thesis using an(1) an(2) [of i] None by (auto simp: first_index_None)
    next
      case (Some k)
      note k = first_index_Some [OF Some]
      have "node_ok (g_nodes g ! k)" using assms(1) k by (auto simp: graph_ok_def nodes_ok_def)
      then have "graph_ok (g\<lparr>g_nodes := (g_nodes g)[k := (g_nodes g ! k)\<lparr>fn_component := component\<rparr>]\<rparr>)"
        using assms(1) k by (intro graph_ok_nodes nodes_ok_update) (auto simp: graph_ok_def node_ok_def)
      then show ?thesis
        using assms name Some k by (auto simp: sol_fbp_graph_add_node_def extends_def valid_node_def split: if_splits)
    qed
  qed
  then show "extends g g'" "r = Inr i \<Longrightarrow> valid_node g' (int i)" by auto
qed

lemma index16_small: "0 \<le> i \<Longrightarrow> i \<le> int UINT16_MAX \<Longrightarrow> index16 i = nat i"
  by (simp add: index16_def UINT16_MAX_def)

lemma set_node_ok:
  assumes "graph_ok g" and "i < length (g_nodes g)" and "node_ok n" and "fn_name n = fn_name (g_nodes g ! i)"
  shows "extends g (set_node i n g)"
proof -
  have "nodes_ok ((g_nodes g)[i := n])" using assms by (intro nodes_ok_update) (simp_all add: graph_ok_def)
  then show ?thesis using graph_ok_nodes [OF assms(1)] by (simp add: set_node_def extends_def)
qed

lemma node_in_ok: "graph_ok g \<Longrightarrow> i < length (g_nodes g) \<Longrightarrow> node_ok (g_nodes g ! i)"
  by (auto simp: graph_ok_def nodes_ok_def)

lemma add_meta_ok: "graph_ok g \<Longrightarrow> sol_fbp_graph_add_meta l g node key value position = (r, g') \<Longrightarrow> extends g g'"
  using node_in_ok [of g "index16 node"]
  by (auto simp: sol_fbp_graph_add_meta_def Let_def extends_refl node_ok_def first_index_None split: if_splits sum.splits
      intro!: set_node_ok dest!: vec_append_Inr)

lemma add_in_port_ok: "graph_ok g \<Longrightarrow> sol_fbp_graph_add_in_port l g node name position = (r, g') \<Longrightarrow> extends g g'"
  using node_in_ok [of g "index16 node"]
  by (auto simp: sol_fbp_graph_add_in_port_def Let_def extends_refl node_ok_def first_index_None split: if_splits sum.splits
      intro!: set_node_ok dest!: vec_append_Inr)

lemma add_out_port_ok: "graph_ok g \<Longrightarrow> sol_fbp_graph_add_out_port l g node name position = (r, g') \<Longrightarrow> extends g g'"
  using node_in_ok [of g "index16 node"]
  by (auto simp: sol_fbp_graph_add_out_port_def Let_def extends_refl node_ok_def first_index_None split: if_splits sum.splits
      intro!: set_node_ok dest!: vec_append_Inr)

lemma same_conn_key: "same_conn c c' \<longleftrightarrow> conn_key c = conn_key c'"
  by (auto simp: same_conn_def conn_key_def)

lemma add_conn_ok:
  assumes "graph_ok g" and "valid_node g src" and "valid_node g dst"
    and "sol_fbp_graph_add_conn l g src src_port si dst dst_port di position = (r, g')"
  shows "extends g g'"
proof -
  define c where "c = \<lparr>cn_position = position, cn_src = src, cn_dst = dst, cn_src_port = src_port, cn_dst_port = dst_port,
                    cn_src_port_idx = si, cn_dst_port_idx = di\<rparr>"
  have "graph_ok (g\<lparr>g_conns := g_conns g @ [c]\<rparr>)" if "src_port \<noteq> []" "dst_port \<noteq> []" "first_index (same_conn c) (g_conns g) = None"
    using assms(1-3) that
    by (auto simp: graph_ok_def conn_ok_def valid_node_def exports_ok_def c_def first_index_None same_conn_key)
  then show ?thesis
    using assms(1,4) by (auto simp: sol_fbp_graph_add_conn_def Let_def extends_refl extends_def simp flip: c_def
        split: if_splits sum.splits dest!: vec_append_Inr)
qed

lemma export_port_ok:
  assumes "exports_ok g eps" and "valid_node g node" and "export_port l node port port_idx name position eps = (r, ep, eps')"
  shows "exports_ok g eps'"
  using assms by (auto simp: export_port_def exports_ok_def sorted_wrt_append first_index_None split: option.splits sum.splits dest!: vec_append_Inr)

lemma valid_node_cong [simp]:
  "valid_node (g\<lparr>g_exported_in_ports := x\<rparr>) = valid_node g" "valid_node (g\<lparr>g_exported_out_ports := x\<rparr>) = valid_node g"
  "valid_node (g\<lparr>g_declarations := d\<rparr>) = valid_node g" "valid_node (g\<lparr>g_options := y\<rparr>) = valid_node g"
  by (simp_all add: valid_node_def fun_eq_iff)

lemma ok_cong [simp]:
  "exports_ok (g\<lparr>g_exported_in_ports := x\<rparr>) = exports_ok g" "exports_ok (g\<lparr>g_exported_out_ports := x\<rparr>) = exports_ok g"
  "exports_ok (g\<lparr>g_declarations := d\<rparr>) = exports_ok g" "exports_ok (g\<lparr>g_options := y\<rparr>) = exports_ok g"
  "conn_ok (g\<lparr>g_exported_in_ports := x\<rparr>) = conn_ok g" "conn_ok (g\<lparr>g_exported_out_ports := x\<rparr>) = conn_ok g"
  "conn_ok (g\<lparr>g_declarations := d\<rparr>) = conn_ok g" "conn_ok (g\<lparr>g_options := y\<rparr>) = conn_ok g"
  by (simp_all add: exports_ok_def conn_ok_def fun_eq_iff)

lemma add_exported_in_port_ok:
  assumes "graph_ok g" and "valid_node g node" and "sol_fbp_graph_add_exported_in_port l g node port port_idx name position = (r, ep, g')"
  shows "extends g g'"
proof -
  obtain eps where e: "export_port l node port port_idx name position (g_exported_in_ports g) = (r, ep, eps)" "g' = g\<lparr>g_exported_in_ports := eps\<rparr>"
    using assms(3) by (auto simp: sol_fbp_graph_add_exported_in_port_def split: prod.splits)
  have "exports_ok g eps" by (rule export_port_ok [OF _ assms(2) e(1)]) (use assms(1) in \<open>simp add: graph_ok_def\<close>)
  then show ?thesis using assms(1) e(2) by (simp add: extends_def graph_ok_def)
qed

lemma add_exported_out_port_ok:
  assumes "graph_ok g" and "valid_node g node" and "sol_fbp_graph_add_exported_out_port l g node port port_idx name position = (r, ep, g')"
  shows "extends g g'"
proof -
  obtain eps where e: "export_port l node port port_idx name position (g_exported_out_ports g) = (r, ep, eps)" "g' = g\<lparr>g_exported_out_ports := eps\<rparr>"
    using assms(3) by (auto simp: sol_fbp_graph_add_exported_out_port_def split: prod.splits)
  have "exports_ok g eps" by (rule export_port_ok [OF _ assms(2) e(1)]) (use assms(1) in \<open>simp add: graph_ok_def\<close>)
  then show ?thesis using assms(1) e(2) by (simp add: extends_def graph_ok_def)
qed

lemma declare_ok: "graph_ok g \<Longrightarrow> sol_fbp_graph_declare l g name metatype contents position = (r, g') \<Longrightarrow> extends g g'"
  by (auto simp: sol_fbp_graph_declare_def extends_def graph_ok_def first_index_None split: if_splits sum.splits dest!: vec_append_Inr)

lemma option_ok:
  "graph_ok g \<Longrightarrow> valid_node g node \<Longrightarrow> sol_fbp_graph_option l g node name node_opt position = (r, g') \<Longrightarrow> extends g g'"
  by (auto simp: sol_fbp_graph_option_def extends_def graph_ok_def first_index_None split: if_splits sum.splits dest!: vec_append_Inr)

lemma add_node_total:
  assumes "g_arena g \<noteq> None"
  shows "\<exists>r out g'. sol_fbp_graph_add_node l g name component position = Some (r, out, g')"
proof -
  obtain strs where strs: "g_arena g = Some strs" using assms by blast
  have an: "\<exists>r out g'. append_node l nm component position h = (r, out, g')" for nm h
    by (metis prod_cases3)
  obtain q a where q: "sol_arena_slice_sprintf l (anon_name position) (g_arena g) = Some (q, a)"
    by (cases "vec_append l 8 (anon_name position) strs"; cases "alloc_ok l (length (anon_name position) + 1)")
      (simp_all add: sol_arena_slice_sprintf_def strs)
  show ?thesis
    by (cases q) (use an in \<open>auto simp: sol_fbp_graph_add_node_def q Let_def split: option.split\<close>)
qed

lemma add_node_exists:
  assumes "sol_fbp_graph_add_node l g name component position = Some (Inl EEXIST, out, g')"
  shows "\<exists>i. out = Some i"
proof -
  have a: "append_node l nm component position h \<noteq> (Inl EEXIST, out, g')" for nm h
    by (auto simp: append_node_def vec_append_def Let_def split: sum.splits if_splits)
  have s: "sol_arena_slice_sprintf l str arena \<noteq> Some (Inl EEXIST, ar)" for str arena ar
    by (auto simp: sol_arena_slice_sprintf_def vec_append_def Let_def split: option.splits sum.splits if_splits)
  show ?thesis
  proof (cases "first_index (\<lambda>n. fn_name n = name) (g_nodes g)")
    case (Some k)
    then show ?thesis
      using assms a s by (force simp: sol_fbp_graph_add_node_def Let_def split: if_splits bind_splits sum.splits dest: sym)
  qed (use assms a s in \<open>auto simp: sol_fbp_graph_add_node_def Let_def split: if_splits bind_splits sum.splits\<close>)
qed

lemma exported_port_taken:
  assumes "export_port l node port port_idx name position eps = (r, ep, eps')" and "r = Inl EEXIST \<or> r = Inl EADDRINUSE"
  shows "\<exists>i. ep = Some i"
  using assms
  by (cases "first_index (\<lambda>ep. ep_exported_name ep = name \<or> ep_taken node port port_idx ep) eps")
    (force simp: export_port_def vec_append_def Let_def split: sum.splits if_splits dest: sym)+

end
