(* ===== verification/Fbp_Parser.thy ===== *)
theory Fbp_Parser
  imports Fbp_Scanner Fbp_Graph
begin

text \<open>
  The parser of the flow language, \<^verbatim>\<open>src/shared/sol-fbp-parser.c\<close>: recursive descent over the tokens of the
  scanner with one token of lookahead, which builds the graph while it reads. The error messages are
  kept as what they say and not as text; \<^verbatim>\<open>vasprintf\<close> is taken to succeed. The input is a slice of memory
  that need not end where the slice ends: \<open>behind\<close> are the bytes that follow it, which the message of a
  statement that cannot be parsed looks at.
\<close>

section \<open>The state of the parser\<close>

datatype fbp_message =
    Expected_equal_after_export | Expected_node_in_export | Expected_dot_in_export | Expected_port_in_export
  | Expected_integer | Expected_bracket_close | Expected_colon_in_export | Expected_exported_port
  | Anonymous_node_needs_type | Node_declared "byte list" "byte list" position | Cannot_create_node "byte list" errno
  | Conn_declared position | Cannot_add_conn "byte list" "byte list" errno
  | Meta_declared "byte list" "byte list" position | Cannot_add_meta "byte list" errno
  | In_port_declared "byte list" position | In_port_exported "byte list" "byte list" "byte list" position
  | Out_port_declared "byte list" position | Out_port_exported "byte list" "byte list" "byte list" position
  | Expected_equal_after_declare | Expected_declare_name | Expected_colon_after_declare_name | Expected_metatype
  | Expected_colon_after_metatype | Expected_contents | Type_declared "byte list" | Type_invalid "byte list"
  | Expected_equal_after_option | Expected_option_node | Expected_dot_in_option | Expected_option_original
  | Expected_colon_in_option | Expected_option_name | Option_declared "byte list" | Option_invalid "byte list" | Option_failed "byte list"
  | Expected_comma_in_meta | Expected_meta_key | Expected_meta_value
  | Expected_node_identifier | Expected_node_type | Expected_paren_close | Expected_port_identifier
  | Expected_node_and_port | Expected_arrow | Arrow_between_ports | Cannot_parse_statement "byte list" | Invalid_trailing
  | Node_without_type "byte list"

record sol_fbp_parser =
  fp_scanner :: sol_fbp_scanner
  fp_current :: sol_fbp_token
  fp_pending :: sol_fbp_token
  fp_error_msg :: "fbp_message option"
  fp_error_pos :: position
  fp_graph :: sol_fbp_graph

text \<open>\<open>Some (None, p)\<close> is \<^verbatim>\<open>return false\<close>; \<open>None\<close> is a failed assertion or an invalid pointer.\<close>

type_synonym 'a parsed = "('a option \<times> sol_fbp_parser) option"

definition p_then :: "'a parsed \<Rightarrow> ('a \<Rightarrow> sol_fbp_parser \<Rightarrow> 'b parsed) \<Rightarrow> 'b parsed" where
  "p_then m k = (case m of None \<Rightarrow> None | Some (None, p) \<Rightarrow> Some (None, p) | Some (Some x, p) \<Rightarrow> k x p)"

lemma p_then_cong [fundef_cong]:
  "m = m' \<Longrightarrow> (\<And>x p. m' = Some (Some x, p) \<Longrightarrow> k x p = k' x p) \<Longrightarrow> p_then m k = p_then m' k'"
  by (auto simp: p_then_def split: option.splits)

lemma p_then_simps [simp]: "p_then None k = None" "p_then (Some (None, p)) k = Some (None, p)" "p_then (Some (Some x, p)) k = k x p"
  by (simp_all add: p_then_def)

definition get_token_position :: "sol_fbp_token \<Rightarrow> position" where
  "get_token_position t = (fbp_line t, fbp_column t)"

definition next_token :: "byte list \<Rightarrow> sol_fbp_parser \<Rightarrow> (sol_fbp_token_type \<times> sol_fbp_parser) option" where
  "next_token inp p =
     (if fbp_type (fp_pending p) \<noteq> SOL_FBP_TOKEN_NONE then
        Some (fbp_type (fp_pending p), p\<lparr>fp_current := fp_pending p, fp_pending := (fp_pending p)\<lparr>fbp_type := SOL_FBP_TOKEN_NONE\<rparr>\<rparr>)
      else do {
        s \<leftarrow> sol_fbp_scan_token inp (fp_scanner p);
        Some (tok_type s, p\<lparr>fp_scanner := s, fp_current := fs_token s\<rparr>)
      })"

definition peek_token :: "byte list \<Rightarrow> sol_fbp_parser \<Rightarrow> (sol_fbp_token_type \<times> sol_fbp_parser) option" where
  "peek_token inp p =
     (if fbp_type (fp_pending p) \<noteq> SOL_FBP_TOKEN_NONE then Some (fbp_type (fp_pending p), p)
      else do {
        (type, q) \<leftarrow> next_token inp p;
        Some (type, q\<lparr>fp_pending := fp_current q, fp_current := fp_current p\<rparr>)
      })"

definition get_token_slice :: "byte list \<Rightarrow> sol_fbp_parser \<Rightarrow> byte list" where
  "get_token_slice inp p = token_slice inp (fp_current p)"

definition set_parse_error :: "fbp_message \<Rightarrow> sol_fbp_parser \<Rightarrow> sol_fbp_parser" where
  "set_parse_error msg p =
     p\<lparr>fp_error_msg := Some msg,
       fp_error_pos := if fst (fp_error_pos p) = 0 then get_token_position (fp_current p) else fp_error_pos p\<rparr>"

text \<open>\<^verbatim>\<open>if (next_token(p) != type) return set_parse_error(p, msg)\<close>\<close>

definition expect :: "byte list \<Rightarrow> sol_fbp_token_type \<Rightarrow> fbp_message \<Rightarrow> sol_fbp_parser \<Rightarrow> unit parsed" where
  "expect inp type msg p = do {
     (t, p) \<leftarrow> next_token inp p;
     Some (if t \<noteq> type then (None, set_parse_error msg p) else (Some (), p))
   }"

section \<open>Errors of the graph\<close>

definition handle_node_error :: "byte list \<Rightarrow> position \<Rightarrow> errno \<Rightarrow> nat option \<Rightarrow> sol_fbp_parser \<Rightarrow> 'a parsed" where
  "handle_node_error name position error err_node p =
     (let p = p\<lparr>fp_error_pos := position\<rparr>
      in if error = EINVAL then Some (None, set_parse_error Anonymous_node_needs_type p)
         else if error = EEXIST then
           (case err_node of None \<Rightarrow> None
            | Some i \<Rightarrow>
                let n = g_nodes (fp_graph p) ! i
                in Some (None, set_parse_error (Node_declared name (fn_component n) (fn_position n)) p))
         else Some (None, set_parse_error (Cannot_create_node name error) p))"

definition handle_conn_error :: "sol_fbp_conn \<Rightarrow> errno \<Rightarrow> sol_fbp_parser \<Rightarrow> 'a parsed" where
  "handle_conn_error c error p =
     (let p = p\<lparr>fp_error_pos := cn_position c\<rparr>
      in case (if error = EEXIST then first_index (same_conn c) (g_conns (fp_graph p)) else None) of
           Some i \<Rightarrow> Some (None, set_parse_error (Conn_declared (cn_position (g_conns (fp_graph p) ! i))) p)
         | None \<Rightarrow> Some (None, set_parse_error (Cannot_add_conn (cn_src_port c) (cn_dst_port c) error) p))"

text \<open>A missing node makes the function return \<^verbatim>\<open>-EINVAL\<close>, which is \<^verbatim>\<open>true\<close>.\<close>

definition handle_meta_error :: "int \<Rightarrow> byte list \<Rightarrow> position \<Rightarrow> errno \<Rightarrow> sol_fbp_parser \<Rightarrow> unit parsed" where
  "handle_meta_error node key position error p =
     (let p = p\<lparr>fp_error_pos := position\<rparr>; g = fp_graph p
      in if index16 node \<ge> length (g_nodes g) then Some (Some (), p)
         else
           let n = g_nodes g ! index16 node
           in case (if error = EEXIST then first_index (\<lambda>m. me_key m = key) (fn_meta n) else None) of
                Some i \<Rightarrow> Some (None, set_parse_error (Meta_declared (fn_name n) key (me_position (fn_meta n ! i))) p)
              | None \<Rightarrow> Some (None, set_parse_error (Cannot_add_meta key error) p))"

text \<open>\<^verbatim>\<open>sol_fbp_graph_add_node\<close> and what is done about its result, which four functions have.\<close>

definition add_node :: "'l libc \<Rightarrow> byte list \<Rightarrow> byte list \<Rightarrow> position \<Rightarrow> sol_fbp_parser \<Rightarrow> int parsed" where
  "add_node l name component position p = do {
     (r, err_node, g) \<leftarrow> sol_fbp_graph_add_node l (fp_graph p) name component position;
     let p = p\<lparr>fp_graph := g\<rparr>;
     (case r of Inl e \<Rightarrow> handle_node_error name position e err_node p | Inr i \<Rightarrow> Some (Some (int i), p))
   }"

section \<open>Statements\<close>

text \<open>The index in brackets behind a port. One that is not an \<^verbatim>\<open>int\<close> is ignored.\<close>

definition parse_port_index :: "byte list \<Rightarrow> sol_fbp_parser \<Rightarrow> int parsed" where
  "parse_port_index inp p = do {
     (t, p) \<leftarrow> peek_token inp p;
     (if t \<noteq> SOL_FBP_TOKEN_BRACKET_OPEN then Some (Some (- 1), p)
      else do {
        (_, p) \<leftarrow> next_token inp p;
        p_then (expect inp SOL_FBP_TOKEN_INTEGER Expected_integer p) (\<lambda>_ p.
          let idx = get_token_slice inp p
          in p_then (expect inp SOL_FBP_TOKEN_BRACKET_CLOSE Expected_bracket_close p) (\<lambda>_ p.
               Some (Some (case sol_str_slice_to_int idx of Inl _ \<Rightarrow> - 1 | Inr v \<Rightarrow> v), p)))
      })
   }"

definition parse_exported_port :: "byte list \<Rightarrow> sol_fbp_parser \<Rightarrow> (byte list \<times> byte list \<times> int \<times> byte list) parsed" where
  "parse_exported_port inp p =
     p_then (expect inp SOL_FBP_TOKEN_EQUAL Expected_equal_after_export p) (\<lambda>_ p.
     p_then (expect inp SOL_FBP_TOKEN_IDENTIFIER Expected_node_in_export p) (\<lambda>_ p.
     let node = get_token_slice inp p in
     p_then (expect inp SOL_FBP_TOKEN_DOT Expected_dot_in_export p) (\<lambda>_ p.
     p_then (expect inp SOL_FBP_TOKEN_IDENTIFIER Expected_port_in_export p) (\<lambda>_ p.
     let port = get_token_slice inp p in
     p_then (parse_port_index inp p) (\<lambda>port_idx p.
     p_then (expect inp SOL_FBP_TOKEN_COLON Expected_colon_in_export p) (\<lambda>_ p.
     p_then (expect inp SOL_FBP_TOKEN_IDENTIFIER Expected_exported_port p) (\<lambda>_ p.
       Some (Some (node, port, port_idx, get_token_slice inp p), p))))))))"

definition is_int :: "int \<Rightarrow> bool" where
  "is_int i \<longleftrightarrow> - (2 ^ 31) \<le> i \<and> i < 2 ^ 31"

definition assert_token :: "byte list \<Rightarrow> sol_fbp_token_type \<Rightarrow> sol_fbp_parser \<Rightarrow> sol_fbp_parser option" where
  "assert_token inp type p = do { (t, p) \<leftarrow> next_token inp p; (if t \<noteq> type then None else Some p) }"

definition parse_inport_stmt :: "'l libc \<Rightarrow> byte list \<Rightarrow> sol_fbp_parser \<Rightarrow> unit parsed" where
  "parse_inport_stmt l inp p = do {
     p \<leftarrow> assert_token inp SOL_FBP_TOKEN_INPORT_KEYWORD p;
     p_then (parse_exported_port inp p) (\<lambda>(node, port, port_idx, exported_port) p.
       let pos = get_token_position (fp_current p)
       in p_then (add_node l node [] pos p) (\<lambda>node_idx p.
            let p = p\<lparr>fp_graph := snd (sol_fbp_graph_add_in_port l (fp_graph p) node_idx port pos)\<rparr>
            in if \<not> is_int port_idx then Some (None, p)
               else
                 (case sol_fbp_graph_add_exported_in_port l (fp_graph p) node_idx port port_idx exported_port pos of
                    (r, ep, g) \<Rightarrow>
                      let p = p\<lparr>fp_graph := g\<rparr>
                      in if r \<noteq> Inl EEXIST \<and> r \<noteq> Inl EADDRINUSE then Some (Some (), p)
                         else (case ep of None \<Rightarrow> None
                           | Some i \<Rightarrow>
                               let e = g_exported_in_ports g ! i
                               in Some (None, set_parse_error
                                    (if r = Inl EEXIST then In_port_declared exported_port (ep_position e)
                                     else In_port_exported node port (ep_exported_name e) (ep_position e)) p)))))
   }"

definition parse_outport_stmt :: "'l libc \<Rightarrow> byte list \<Rightarrow> sol_fbp_parser \<Rightarrow> unit parsed" where
  "parse_outport_stmt l inp p = do {
     p \<leftarrow> assert_token inp SOL_FBP_TOKEN_OUTPORT_KEYWORD p;
     p_then (parse_exported_port inp p) (\<lambda>(node, port, port_idx, exported_port) p.
       let pos = get_token_position (fp_current p)
       in p_then (add_node l node [] pos p) (\<lambda>node_idx p.
            let p = p\<lparr>fp_graph := snd (sol_fbp_graph_add_out_port l (fp_graph p) node_idx port pos)\<rparr>
            in if \<not> is_int port_idx then Some (None, p)
               else
                 (case sol_fbp_graph_add_exported_out_port l (fp_graph p) node_idx port port_idx exported_port pos of
                    (r, ep, g) \<Rightarrow>
                      let p = p\<lparr>fp_graph := g\<rparr>
                      in if r \<noteq> Inl EEXIST \<and> r \<noteq> Inl EADDRINUSE then Some (Some (), p)
                         else (case ep of None \<Rightarrow> None
                           | Some i \<Rightarrow>
                               let e = g_exported_out_ports g ! i
                               in Some (None, set_parse_error
                                    (if r = Inl EEXIST then Out_port_declared exported_port (ep_position e)
                                     else Out_port_exported node port (ep_exported_name e) (ep_position e)) p)))))
   }"

definition parse_declare_stmt :: "'l libc \<Rightarrow> byte list \<Rightarrow> sol_fbp_parser \<Rightarrow> unit parsed" where
  "parse_declare_stmt l inp p = do {
     p \<leftarrow> assert_token inp SOL_FBP_TOKEN_DECLARE_KEYWORD p;
     p_then (expect inp SOL_FBP_TOKEN_EQUAL Expected_equal_after_declare p) (\<lambda>_ p.
     p_then (expect inp SOL_FBP_TOKEN_IDENTIFIER Expected_declare_name p) (\<lambda>_ p.
     let name = get_token_slice inp p; pos = get_token_position (fp_current p) in
     p_then (expect inp SOL_FBP_TOKEN_COLON Expected_colon_after_declare_name p) (\<lambda>_ p.
     p_then (expect inp SOL_FBP_TOKEN_IDENTIFIER Expected_metatype p) (\<lambda>_ p.
     let metatype = get_token_slice inp p in
     p_then (expect inp SOL_FBP_TOKEN_COLON Expected_colon_after_metatype p) (\<lambda>_ p.
     p_then (expect inp SOL_FBP_TOKEN_IDENTIFIER Expected_contents p) (\<lambda>_ p.
     (case sol_fbp_graph_declare l (fp_graph p) name metatype (get_token_slice inp p) pos of
        (r, g) \<Rightarrow>
          let p = p\<lparr>fp_graph := g\<rparr>
          in if r = Inl EEXIST then Some (None, set_parse_error (Type_declared name) (p\<lparr>fp_error_pos := pos\<rparr>))
             else if r = Inl EINVAL then Some (None, set_parse_error (Type_invalid name) (p\<lparr>fp_error_pos := pos\<rparr>))
             else Some (Some (), p))))))))
   }"

definition parse_option_stmt :: "'l libc \<Rightarrow> byte list \<Rightarrow> sol_fbp_parser \<Rightarrow> unit parsed" where
  "parse_option_stmt l inp p = do {
     p \<leftarrow> assert_token inp SOL_FBP_TOKEN_OPTION_KEYWORD p;
     p_then (expect inp SOL_FBP_TOKEN_EQUAL Expected_equal_after_option p) (\<lambda>_ p.
     p_then (expect inp SOL_FBP_TOKEN_IDENTIFIER Expected_option_node p) (\<lambda>_ p.
     let node_name = get_token_slice inp p; pos = get_token_position (fp_current p) in
     p_then (expect inp SOL_FBP_TOKEN_DOT Expected_dot_in_option p) (\<lambda>_ p.
     p_then (expect inp SOL_FBP_TOKEN_IDENTIFIER Expected_option_original p) (\<lambda>_ p.
     let node_opt = get_token_slice inp p in
     p_then (expect inp SOL_FBP_TOKEN_COLON Expected_colon_in_option p) (\<lambda>_ p.
     p_then (expect inp SOL_FBP_TOKEN_IDENTIFIER Expected_option_name p) (\<lambda>_ p.
     let opt_name = get_token_slice inp p in
     p_then (add_node l node_name [] pos p) (\<lambda>node_idx p.
     (case sol_fbp_graph_option l (fp_graph p) node_idx opt_name node_opt pos of
        (r, g) \<Rightarrow>
          let p = p\<lparr>fp_graph := g\<rparr>
          in (case r of
                Inr _ \<Rightarrow> Some (Some (), p)
              | Inl e \<Rightarrow> Some (None, set_parse_error
                  (if e = EEXIST then Option_declared opt_name else if e = EINVAL then Option_invalid opt_name else Option_failed opt_name)
                  (p\<lparr>fp_error_pos := pos\<rparr>)))))))))))
   }"

text \<open>The value behind a key; an empty one when there is none.\<close>

definition parse_meta_value :: "byte list \<Rightarrow> sol_fbp_parser \<Rightarrow> byte list parsed" where
  "parse_meta_value inp p = do {
     (t, p) \<leftarrow> peek_token inp p;
     (if t = SOL_FBP_TOKEN_EQUAL then do {
        (_, p) \<leftarrow> next_token inp p;
        (t, p) \<leftarrow> next_token inp p;
        Some (if t \<noteq> SOL_FBP_TOKEN_IDENTIFIER \<and> t \<noteq> SOL_FBP_TOKEN_STRING then (None, set_parse_error Expected_meta_value p)
              else (Some (get_token_slice inp p), p))
      } else Some (Some [], p))
   }"

section \<open>Why the loops end\<close>

definition todo :: "byte list \<Rightarrow> sol_fbp_parser \<Rightarrow> nat" where
  "todo inp p = (if fbp_type (fp_pending p) = SOL_FBP_TOKEN_NONE \<or> final_type (fbp_type (fp_pending p)) then 0 else 1) +
     (if final_type (tok_type (fp_scanner p)) then 0 else scan_budget inp (fp_scanner p) + 1)"

lemma next_token_todo:
  assumes "next_token inp p = Some (t, p')"
  shows "todo inp p' \<le> todo inp p" and "\<not> final_type t \<Longrightarrow> todo inp p' < todo inp p"
proof -
  have "todo inp p' \<le> todo inp p \<and> (\<not> final_type t \<longrightarrow> todo inp p' < todo inp p)"
  proof (cases "fbp_type (fp_pending p) = SOL_FBP_TOKEN_NONE")
    case True
    then obtain s where s: "sol_fbp_scan_token inp (fp_scanner p) = Some s" "t = tok_type s" "p' = p\<lparr>fp_scanner := s, fp_current := fs_token s\<rparr>"
      using assms by (auto simp: next_token_def split: bind_splits)
    show ?thesis
    proof (cases "final_type (tok_type (fp_scanner p))")
      case f: True
      then have "s = fp_scanner p" using scan_token_final [OF f, of inp] s(1) by simp
      then show ?thesis using True f s(2,3) by (auto simp: todo_def)
    next
      case False
      show ?thesis using scan_token_budget [OF s(1) False] True False s(2,3) by (auto simp: todo_def)
    qed
  qed (use assms in \<open>auto simp: next_token_def todo_def\<close>)
  then show "todo inp p' \<le> todo inp p" "\<not> final_type t \<Longrightarrow> todo inp p' < todo inp p" by auto
qed

lemma peek_token_todo:
  assumes "peek_token inp p = Some (t, p')"
  shows "todo inp p' \<le> todo inp p"
proof (cases "fbp_type (fp_pending p) = SOL_FBP_TOKEN_NONE")
  case True
  then obtain q where q: "next_token inp p = Some (t, q)" "p' = q\<lparr>fp_pending := fp_current q, fp_current := fp_current p\<rparr>"
    using assms by (auto simp: peek_token_def split: bind_splits)
  have c: "fbp_type (fp_current q) = t" "fbp_type (fp_pending q) = SOL_FBP_TOKEN_NONE"
    using q(1) True by (auto simp: next_token_def split: bind_splits)
  show ?thesis using next_token_todo [OF q(1)] c q(2) by (auto simp: todo_def)
qed (use assms in \<open>auto simp: peek_token_def\<close>)

lemma todo_simps [simp]:
  "todo inp (p\<lparr>fp_graph := g\<rparr>) = todo inp p" "todo inp (p\<lparr>fp_error_pos := e\<rparr>) = todo inp p" "todo inp (set_parse_error m p) = todo inp p"
  by (simp_all add: todo_def set_parse_error_def)

lemma expect_todo:
  assumes "expect inp type msg p = Some (r, p')"
  shows "todo inp p' \<le> todo inp p" and "r = Some u \<Longrightarrow> \<not> final_type type \<Longrightarrow> todo inp p' < todo inp p"
proof -
  obtain t q where q: "next_token inp p = Some (t, q)" "(r, p') = (if t \<noteq> type then (None, set_parse_error msg q) else (Some (), q))"
    using assms by (auto simp: expect_def split: bind_splits)
  show "todo inp p' \<le> todo inp p" "r = Some u \<Longrightarrow> \<not> final_type type \<Longrightarrow> todo inp p' < todo inp p"
    using next_token_todo [OF q(1)] q(2) by (auto split: if_splits)
qed

lemma p_then_Some: "p_then m k = Some (r, p') \<longleftrightarrow> (\<exists>x p. m = Some (x, p) \<and> (case x of None \<Rightarrow> r = None \<and> p' = p | Some y \<Rightarrow> k y p = Some (r, p')))"
  by (auto simp: p_then_def split: option.splits)

text \<open>Functions that do not move the parser backwards.\<close>

definition ahead :: "byte list \<Rightarrow> sol_fbp_parser \<Rightarrow> 'a parsed \<Rightarrow> bool" where
  "ahead inp p m \<longleftrightarrow> (\<forall>r p'. m = Some (r, p') \<longrightarrow> todo inp p' \<le> todo inp p)"

lemma ahead_expect: "ahead inp p (expect inp type msg p)"
  by (auto simp: ahead_def dest: expect_todo)

lemma ahead_then: "ahead inp p m \<Longrightarrow> (\<And>x q. m = Some (Some x, q) \<Longrightarrow> todo inp q \<le> todo inp p \<Longrightarrow> ahead inp q (k x q)) \<Longrightarrow> ahead inp p (p_then m k)"
  by (fastforce simp: ahead_def p_then_Some split: option.splits)

lemma ahead_None [simp]: "ahead inp p None"
  by (simp add: ahead_def)

lemma ahead_Some [simp]: "ahead inp p (Some (r, q)) \<longleftrightarrow> todo inp q \<le> todo inp p"
  by (auto simp: ahead_def)

lemma ahead_from: "ahead inp q m \<Longrightarrow> todo inp q \<le> todo inp p \<Longrightarrow> ahead inp p m"
  by (fastforce simp: ahead_def)

lemma ahead_peek: "(\<And>t q. peek_token inp p = Some (t, q) \<Longrightarrow> ahead inp q (k t q)) \<Longrightarrow> ahead inp p (Option.bind (peek_token inp p) (\<lambda>(t, q). k t q))"
  using peek_token_todo ahead_from by (cases "peek_token inp p") fastforce+

lemma ahead_next: "(\<And>t q. next_token inp p = Some (t, q) \<Longrightarrow> ahead inp q (k t q)) \<Longrightarrow> ahead inp p (Option.bind (next_token inp p) (\<lambda>(t, q). k t q))"
  using next_token_todo(1) ahead_from by (cases "next_token inp p") fastforce+

lemma ahead_if [simp]: "ahead inp p (if b then x else y) \<longleftrightarrow> (b \<longrightarrow> ahead inp p x) \<and> (\<not> b \<longrightarrow> ahead inp p y)"
  by simp

lemma ahead_bind: "(\<And>x. m = Some x \<Longrightarrow> ahead inp p (k x)) \<Longrightarrow> ahead inp p (Option.bind m k)"
  by (cases m) auto

named_theorems ahead_intros

lemmas [ahead_intros] = ahead_then ahead_expect ahead_peek ahead_next

lemma ahead_meta_value [ahead_intros]: "ahead inp p (parse_meta_value inp p)"
  unfolding parse_meta_value_def by (auto intro!: ahead_intros simp: Let_def)

lemma ahead_port_index [ahead_intros]: "ahead inp p (parse_port_index inp p)"
  unfolding parse_port_index_def by (auto intro!: ahead_intros simp: Let_def)

lemma ahead_node_error [ahead_intros]: "ahead inp p (handle_node_error name position e n p)"
  by (auto simp: handle_node_error_def Let_def split: option.splits)

lemma ahead_conn_error [ahead_intros]: "ahead inp p (handle_conn_error c e p)"
  by (auto simp: handle_conn_error_def Let_def split: option.splits)

lemma ahead_meta_error [ahead_intros]: "ahead inp p (handle_meta_error node key position e p)"
  by (auto simp: handle_meta_error_def Let_def split: option.splits)

lemma ahead_graph: "ahead inp (p\<lparr>fp_graph := g\<rparr>) m = ahead inp p m"
  by (simp add: ahead_def)

lemma ahead_add_node [ahead_intros]: "ahead inp p (add_node l name component position p)"
  unfolding add_node_def
  by (auto intro!: ahead_bind simp: Let_def ahead_node_error [of inp "p\<lparr>fp_graph := _\<rparr>", unfolded ahead_graph] split: sum.splits)

lemma meta_todo:
  assumes "peek_token inp p = Some (t, q)"
    and "(if first then Some (Some (), q) else expect inp SOL_FBP_TOKEN_COMMA Expected_comma_in_meta q) = Some (Some u, p1)"
    and "expect inp SOL_FBP_TOKEN_IDENTIFIER Expected_meta_key p1 = Some (Some w, p2)"
    and "parse_meta_value inp p2 = Some (Some value, p3)"
  shows "todo inp p3 < todo inp p"
proof -
  have "todo inp q \<le> todo inp p" by (rule peek_token_todo [OF assms(1)])
  moreover have "todo inp p1 \<le> todo inp q" using assms(2) by (auto split: if_splits dest: expect_todo(1))
  moreover have "todo inp p2 < todo inp p1" using expect_todo(2) [OF assms(3) refl] by simp
  moreover have "todo inp p3 \<le> todo inp p2" using ahead_meta_value [of inp p2] assms(4) by (auto simp: ahead_def)
  ultimately show ?thesis by linarith
qed

section \<open>Nodes and connections\<close>

function meta_loop :: "'l libc \<Rightarrow> byte list \<Rightarrow> int \<Rightarrow> bool \<Rightarrow> sol_fbp_parser \<Rightarrow> unit parsed" where
  "meta_loop l inp node first p =
     (case peek_token inp p of
        None \<Rightarrow> None
      | Some (t, p) \<Rightarrow>
          if t = SOL_FBP_TOKEN_PAREN_CLOSE then Some (Some (), p)
          else
            p_then (if first then Some (Some (), p) else expect inp SOL_FBP_TOKEN_COMMA Expected_comma_in_meta p) (\<lambda>_ p.
            p_then (expect inp SOL_FBP_TOKEN_IDENTIFIER Expected_meta_key p) (\<lambda>_ p.
            let key = get_token_slice inp p; key_position = get_token_position (fp_current p) in
            p_then (parse_meta_value inp p) (\<lambda>val p.
            (case sol_fbp_graph_add_meta l (fp_graph p) node key val key_position of
               (Inl e, g) \<Rightarrow> handle_meta_error node key key_position e (p\<lparr>fp_graph := g\<rparr>)
             | (Inr _, g) \<Rightarrow> meta_loop l inp node False (p\<lparr>fp_graph := g\<rparr>))))))"
  by pat_completeness auto
termination
  by (relation "measure (\<lambda>(l, inp, node, first, p). todo inp p)") (auto dest: meta_todo)

declare meta_loop.simps [simp del]

definition parse_meta :: "'l libc \<Rightarrow> byte list \<Rightarrow> int \<Rightarrow> sol_fbp_parser \<Rightarrow> unit parsed" where
  "parse_meta l inp node p = do {
     (t, p) \<leftarrow> peek_token inp p;
     (if t \<noteq> SOL_FBP_TOKEN_COLON then Some (Some (), p)
      else do { (_, p) \<leftarrow> next_token inp p; meta_loop l inp node True p })
   }"

definition parse_node :: "'l libc \<Rightarrow> byte list \<Rightarrow> sol_fbp_parser \<Rightarrow> int parsed" where
  "parse_node l inp p =
     p_then (expect inp SOL_FBP_TOKEN_IDENTIFIER Expected_node_identifier p) (\<lambda>_ p.
     let name = get_token_slice inp p; pos = get_token_position (fp_current p) in do {
       (t, p) \<leftarrow> peek_token inp p;
       (if t \<noteq> SOL_FBP_TOKEN_PAREN_OPEN then add_node l name [] pos p
        else do {
          (_, p) \<leftarrow> next_token inp p;
          (t, p) \<leftarrow> peek_token inp p;
          (if t = SOL_FBP_TOKEN_PAREN_CLOSE then do {
             (_, p) \<leftarrow> next_token inp p;
             add_node l name [] pos p
           } else
             p_then (expect inp SOL_FBP_TOKEN_IDENTIFIER Expected_node_type p) (\<lambda>_ p.
             p_then (add_node l name (get_token_slice inp p) pos p) (\<lambda>n p.
             p_then (parse_meta l inp n p) (\<lambda>_ p.
             p_then (expect inp SOL_FBP_TOKEN_PAREN_CLOSE Expected_paren_close p) (\<lambda>_ p.
               Some (Some n, p))))))
        })
     })"

definition parse_port :: "byte list \<Rightarrow> sol_fbp_parser \<Rightarrow> (byte list \<times> int) parsed" where
  "parse_port inp p =
     p_then (expect inp SOL_FBP_TOKEN_IDENTIFIER Expected_port_identifier p) (\<lambda>_ p.
     let name = get_token_slice inp p in
     p_then (parse_port_index inp p) (\<lambda>port_idx p. Some (Some (name, port_idx), p)))"

text \<open>One connection of a chain: ports and node of its other end, which is returned.\<close>

definition parse_conn :: "'l libc \<Rightarrow> byte list \<Rightarrow> int \<Rightarrow> sol_fbp_parser \<Rightarrow> int parsed" where
  "parse_conn l inp src p =
     p_then (parse_port inp p) (\<lambda>(src_port_name, src_port_idx) p.
     let conn_position = get_token_position (fp_current p);
         p = p\<lparr>fp_graph := snd (sol_fbp_graph_add_out_port l (fp_graph p) src src_port_name conn_position)\<rparr> in do {
       (t, p) \<leftarrow> next_token inp p;
       (if t \<noteq> SOL_FBP_TOKEN_ARROW then
          Some (None, set_parse_error (if t = SOL_FBP_TOKEN_PAREN_OPEN then Expected_node_and_port else Expected_arrow) p)
        else do {
          (t, p) \<leftarrow> peek_token inp p;
          (if t \<noteq> SOL_FBP_TOKEN_IDENTIFIER then Some (None, set_parse_error Expected_node_and_port p)
           else
             p_then (parse_port inp p) (\<lambda>(dst_port_name, dst_port_idx) p.
             let in_port_position = get_token_position (fp_current p) in do {
               (t, p) \<leftarrow> peek_token inp p;
               (if t \<noteq> SOL_FBP_TOKEN_IDENTIFIER then Some (None, set_parse_error Expected_node_and_port p)
                else
                  p_then (parse_node l inp p) (\<lambda>dst p.
                  let p = p\<lparr>fp_graph := snd (sol_fbp_graph_add_in_port l (fp_graph p) dst dst_port_name in_port_position)\<rparr>
                  in if \<not> is_int src_port_idx \<or> \<not> is_int dst_port_idx then Some (None, p)
                     else
                       (case sol_fbp_graph_add_conn l (fp_graph p) src src_port_name src_port_idx dst dst_port_name dst_port_idx conn_position of
                          (Inl e, g) \<Rightarrow>
                            handle_conn_error \<lparr>cn_position = conn_position, cn_src = src, cn_dst = dst, cn_src_port = src_port_name,
                              cn_dst_port = dst_port_name, cn_src_port_idx = src_port_idx, cn_dst_port_idx = dst_port_idx\<rparr> e (p\<lparr>fp_graph := g\<rparr>)
                        | (Inr _, g) \<Rightarrow> Some (Some dst, p\<lparr>fp_graph := g\<rparr>))))
             }))
        })
     })"

lemma ahead_meta_loop [ahead_intros]: "ahead inp p (meta_loop l inp node first p)"
proof (induction l inp node first p rule: meta_loop.induct)
  case (1 l inp node first p)
  show ?case
  proof (cases "peek_token inp p")
    case (Some tq)
    obtain t q where tq: "tq = (t, q)" by fastforce
    have q: "todo inp q \<le> todo inp p" using peek_token_todo Some tq by blast
    have "ahead inp q (meta_loop l inp node first p)"
    proof (cases "t = SOL_FBP_TOKEN_PAREN_CLOSE")
      case False
      have err: "ahead inp p' (handle_meta_error node key pos e (p'\<lparr>fp_graph := g\<rparr>))" for p' key pos e g
        using ahead_meta_error [of inp "p'\<lparr>fp_graph := g\<rparr>"] by (simp add: ahead_graph)
      have ih: "ahead inp p3 (meta_loop l inp node False (p3\<lparr>fp_graph := g\<rparr>))"
        if "(if first then Some (Some (), q) else expect inp SOL_FBP_TOKEN_COMMA Expected_comma_in_meta q) = Some (Some u, p1)"
          "expect inp SOL_FBP_TOKEN_IDENTIFIER Expected_meta_key p1 = Some (Some w, p2)" "parse_meta_value inp p2 = Some (Some v, p3)"
          "sol_fbp_graph_add_meta l (fp_graph p3) node (get_token_slice inp p2) v (get_token_position (fp_current p2)) = (Inr z, g)"
        for u p1 w p2 v p3 z g
        using "1.IH" [OF Some tq [symmetric] False that(1,2) refl refl that(3) that(4) [symmetric] refl] by (simp add: ahead_graph)
      have first: "ahead inp q (if first then Some (Some (), q) else expect inp SOL_FBP_TOKEN_COMMA Expected_comma_in_meta q)"
        by (simp add: ahead_expect)
      show ?thesis
        unfolding meta_loop.simps [of l inp node first p] Some tq option.case prod.case if_not_P [OF False] Let_def
        by (rule ahead_then [OF first], rule ahead_then [OF ahead_expect], rule ahead_then [OF ahead_meta_value])
          (auto split: prod.splits sum.splits intro: ih err)
    qed (simp add: meta_loop.simps [of l inp node first p] Some tq)
    then show ?thesis using ahead_from q by blast
  qed (simp add: meta_loop.simps)
qed

lemma ahead_meta [ahead_intros]: "ahead inp p (parse_meta l inp node p)"
  unfolding parse_meta_def by (auto intro!: ahead_intros)

lemma ahead_node: "ahead inp p (parse_node l inp p)"
  unfolding parse_node_def Let_def by (auto intro!: ahead_intros)

lemma ahead_port: "ahead inp p (parse_port inp p)"
  unfolding parse_port_def Let_def by (auto intro!: ahead_intros)

lemma parse_port_todo:
  assumes "parse_port inp p = Some (Some x, q)"
  shows "todo inp q < todo inp p"
proof -
  obtain p1 where p1: "expect inp SOL_FBP_TOKEN_IDENTIFIER Expected_port_identifier p = Some (Some (), p1)"
    and r: "p_then (parse_port_index inp p1) (\<lambda>port_idx p. Some (Some (get_token_slice inp p1, port_idx), p)) = Some (Some x, q)"
    using assms by (auto simp: parse_port_def p_then_Some split: option.splits)
  have "todo inp q \<le> todo inp p1"
    using r ahead_port_index [of inp p1] by (fastforce simp: p_then_Some ahead_def split: option.splits)
  with expect_todo(2) [OF p1 refl] show ?thesis by simp
qed

lemma parse_conn_todo:
  assumes "parse_conn l inp src p = Some (Some dst, q)"
  shows "todo inp q < todo inp p"
proof -
  obtain n i p1 where p1: "parse_port inp p = Some (Some (n, i), p1)"
    using assms by (auto simp: parse_conn_def p_then_Some split: option.splits)
  have err: "ahead inp p' (handle_conn_error c e (p'\<lparr>fp_graph := g\<rparr>))" for p' c e g
    using ahead_conn_error [of inp "p'\<lparr>fp_graph := g\<rparr>"] by (simp add: ahead_graph)
  have "ahead inp p1 (parse_conn l inp src p)"
    unfolding parse_conn_def p1 p_then_simps Let_def prod.case
    by (rule ahead_from [of inp "p1\<lparr>fp_graph := snd (sol_fbp_graph_add_out_port l (fp_graph p1) src n (get_token_position (fp_current p1)))\<rparr>"])
      (auto intro!: ahead_next ahead_peek ahead_then ahead_port ahead_node simp: err split: prod.splits sum.splits)
  then show ?thesis using assms parse_port_todo [OF p1] by (auto simp: ahead_def)
qed

function conn_loop :: "'l libc \<Rightarrow> byte list \<Rightarrow> int \<Rightarrow> sol_fbp_parser \<Rightarrow> unit parsed" where
  "conn_loop l inp src p =
     (case peek_token inp p of
        None \<Rightarrow> None
      | Some (t, p) \<Rightarrow>
          if t \<noteq> SOL_FBP_TOKEN_IDENTIFIER then Some (Some (), p)
          else p_then (parse_conn l inp src p) (\<lambda>dst p. conn_loop l inp dst p))"
  by pat_completeness auto
termination
  by (relation "measure (\<lambda>(l, inp, src, p). todo inp p)") (auto dest!: peek_token_todo parse_conn_todo)

declare conn_loop.simps [simp del]

definition parse_conn_stmt :: "'l libc \<Rightarrow> byte list \<Rightarrow> sol_fbp_parser \<Rightarrow> unit parsed" where
  "parse_conn_stmt l inp p =
     p_then (parse_node l inp p) (\<lambda>src p. do {
       (t, p) \<leftarrow> peek_token inp p;
       (if t \<noteq> SOL_FBP_TOKEN_IDENTIFIER \<and> t \<noteq> SOL_FBP_TOKEN_STMT_SEPARATOR \<and> t \<noteq> SOL_FBP_TOKEN_EOF then
          Some (None, set_parse_error Expected_node_and_port p)
        else conn_loop l inp src p)
     })"

section \<open>The whole input\<close>

text \<open>
  \<^verbatim>\<open>printf("%.*s", n, mem + off)\<close>: at most \<open>n\<close> bytes, and none from a NUL byte on. Reading on at the end of the
  memory is an access outside of it.
\<close>

definition printed_bytes :: "byte list \<Rightarrow> nat \<Rightarrow> nat \<Rightarrow> byte list option" where
  "printed_bytes mem off n =
     (let s = takeWhile (\<lambda>c. c \<noteq> 0) (take n (drop off mem))
      in if length s = n \<or> off + length s < length mem then Some s else None)"

lemma printed_bytes_inside:
  assumes "off + n \<le> length mem"
  shows "\<exists>s. printed_bytes mem off n = Some s"
proof -
  let ?s = "takeWhile (\<lambda>c. c \<noteq> 0) (take n (drop off mem))"
  have "length ?s \<le> n" using length_takeWhile_le [of "\<lambda>c. c \<noteq> 0" "take n (drop off mem)"] by simp
  then have "length ?s = n \<or> off + length ?s < length mem" using assms by linarith
  then show ?thesis unfolding printed_bytes_def Let_def by (simp only: if_True) blast
qed

text \<open>\<^verbatim>\<open>SOL_FBP_TOKEN_PRINT\<close> counts one byte more than the token has.\<close>

definition SOL_FBP_TOKEN_PRINT :: "sol_fbp_token \<Rightarrow> nat" where
  "SOL_FBP_TOKEN_PRINT tok = fbp_end tok - fbp_start tok + 1"

definition parse_stmt :: "'l libc \<Rightarrow> byte list \<Rightarrow> byte list \<Rightarrow> sol_fbp_parser \<Rightarrow> unit parsed" where
  "parse_stmt l inp behind p = do {
     (t, p) \<leftarrow> peek_token inp p;
     (case t of
        SOL_FBP_TOKEN_INPORT_KEYWORD \<Rightarrow> parse_inport_stmt l inp p
      | SOL_FBP_TOKEN_OUTPORT_KEYWORD \<Rightarrow> parse_outport_stmt l inp p
      | SOL_FBP_TOKEN_DECLARE_KEYWORD \<Rightarrow> parse_declare_stmt l inp p
      | SOL_FBP_TOKEN_OPTION_KEYWORD \<Rightarrow> parse_option_stmt l inp p
      | SOL_FBP_TOKEN_IDENTIFIER \<Rightarrow> parse_conn_stmt l inp p
      | SOL_FBP_TOKEN_STMT_SEPARATOR \<Rightarrow> do { (_, p) \<leftarrow> next_token inp p; Some (Some (), p) }
      | SOL_FBP_TOKEN_EOF \<Rightarrow> Some (None, p)
      | SOL_FBP_TOKEN_ARROW \<Rightarrow> do { (_, p) \<leftarrow> next_token inp p; Some (None, set_parse_error Arrow_between_ports p) }
      | _ \<Rightarrow> do {
          (_, p) \<leftarrow> next_token inp p;
          let tok = fp_current p;
          s \<leftarrow> printed_bytes (inp @ behind) (fbp_start tok) (SOL_FBP_TOKEN_PRINT tok);
          Some (None, set_parse_error (Cannot_parse_statement s) p)
        })
   }"

lemma peek_next:
  assumes "peek_token inp p = Some (t, q)" and "t \<noteq> SOL_FBP_TOKEN_NONE"
  shows "next_token inp q = Some (t, q\<lparr>fp_current := fp_pending q, fp_pending := (fp_pending q)\<lparr>fbp_type := SOL_FBP_TOKEN_NONE\<rparr>\<rparr>)"
  using assms by (auto simp: peek_token_def next_token_def split: if_splits bind_splits)

lemma assert_token_todo:
  assumes "assert_token inp type p = Some q" and "\<not> final_type type"
  shows "todo inp q < todo inp p"
  using assms next_token_todo(2) [of inp p type q] by (auto simp: assert_token_def split: bind_splits if_splits)

lemma ahead_exported_port: "ahead inp p (parse_exported_port inp p)"
  unfolding parse_exported_port_def Let_def by (intro ahead_then ahead_expect ahead_port_index) auto

lemma ahead_conn: "ahead inp p (parse_conn l inp src p)"
proof -
  have err: "ahead inp p' (handle_conn_error c e (p'\<lparr>fp_graph := g\<rparr>))" for p' c e g
    using ahead_conn_error [of inp "p'\<lparr>fp_graph := g\<rparr>"] by (simp add: ahead_graph)
  show ?thesis
    unfolding parse_conn_def Let_def
    apply (rule ahead_then [OF ahead_port])
    apply clarsimp
    subgoal for n i q
      by (rule ahead_from [of inp "q\<lparr>fp_graph := snd (sol_fbp_graph_add_out_port l (fp_graph q) src n (get_token_position (fp_current q)))\<rparr>"])
        (auto intro!: ahead_next ahead_peek ahead_then ahead_port ahead_node simp: err split: prod.splits sum.splits)
    done
qed

lemma ahead_conn_loop: "ahead inp p (conn_loop l inp src p)"
proof (induction l inp src p rule: conn_loop.induct)
  case (1 l inp src p)
  show ?case
  proof (cases "peek_token inp p")
    case (Some tq)
    obtain t q where tq: "tq = (t, q)" by fastforce
    have q: "todo inp q \<le> todo inp p" using peek_token_todo Some tq by blast
    have "ahead inp q (conn_loop l inp src p)"
      using "1.IH" [OF Some tq [symmetric]] by (subst conn_loop.simps) (auto simp: Some tq intro: ahead_then [OF ahead_conn])
    then show ?thesis using ahead_from q by blast
  qed (simp add: conn_loop.simps)
qed

lemma parse_conn_stmt_todo:
  assumes "parse_conn_stmt l inp p = Some (r, q)" and "r = Some ()"
  shows "todo inp q < todo inp p"
proof -
  obtain src p1 where p1: "parse_node l inp p = Some (Some src, p1)"
    using assms by (auto simp: parse_conn_stmt_def p_then_Some split: option.splits)
  obtain p0 where p0: "expect inp SOL_FBP_TOKEN_IDENTIFIER Expected_node_identifier p = Some (Some (), p0)"
    using p1 by (auto simp: parse_node_def p_then_Some split: option.splits)
  have "ahead inp p0 (parse_node l inp p)"
    unfolding parse_node_def p0 p_then_simps Let_def by (auto intro!: ahead_intros)
  moreover have "ahead inp p1 (parse_conn_stmt l inp p)"
    unfolding parse_conn_stmt_def p1 p_then_simps by (auto intro!: ahead_peek ahead_conn_loop)
  ultimately show ?thesis using expect_todo(2) [OF p0 refl] p1 assms by (auto simp: ahead_def)
qed

lemma ahead_keyword_stmts:
  "assert_token inp SOL_FBP_TOKEN_INPORT_KEYWORD p = Some q \<Longrightarrow> ahead inp q (parse_inport_stmt l inp p)"
  "assert_token inp SOL_FBP_TOKEN_OUTPORT_KEYWORD p = Some q \<Longrightarrow> ahead inp q (parse_outport_stmt l inp p)"
  "assert_token inp SOL_FBP_TOKEN_DECLARE_KEYWORD p = Some q \<Longrightarrow> ahead inp q (parse_declare_stmt l inp p)"
  "assert_token inp SOL_FBP_TOKEN_OPTION_KEYWORD p = Some q \<Longrightarrow> ahead inp q (parse_option_stmt l inp p)"
proof -
  show "ahead inp q (parse_inport_stmt l inp p)" if "assert_token inp SOL_FBP_TOKEN_INPORT_KEYWORD p = Some q"
    unfolding parse_inport_stmt_def that bind.simps
    by (rule ahead_then [OF ahead_exported_port]) (auto simp: Let_def split: prod.splits option.splits intro!: ahead_then [OF ahead_add_node])
  show "ahead inp q (parse_outport_stmt l inp p)" if "assert_token inp SOL_FBP_TOKEN_OUTPORT_KEYWORD p = Some q"
    unfolding parse_outport_stmt_def that bind.simps
    by (rule ahead_then [OF ahead_exported_port]) (auto simp: Let_def split: prod.splits option.splits intro!: ahead_then [OF ahead_add_node])
  show "ahead inp q (parse_declare_stmt l inp p)" if "assert_token inp SOL_FBP_TOKEN_DECLARE_KEYWORD p = Some q"
    unfolding parse_declare_stmt_def that bind.simps Let_def
    by (intro ahead_then ahead_expect) (auto split: prod.splits)
  show "ahead inp q (parse_option_stmt l inp p)" if "assert_token inp SOL_FBP_TOKEN_OPTION_KEYWORD p = Some q"
    unfolding parse_option_stmt_def that bind.simps Let_def
    by (intro ahead_then ahead_expect ahead_add_node) (auto split: prod.splits sum.splits)
qed

lemma parse_stmt_todo:
  assumes "parse_stmt l inp behind p = Some (Some u, q)"
  shows "todo inp q < todo inp p"
proof -
  obtain t p1 where p1: "peek_token inp p = Some (t, p1)" using assms by (auto simp: parse_stmt_def split: bind_splits)
  have kw: "todo inp q < todo inp p1"
    if "assert_token inp type p1 = Some p2" "\<not> final_type type" "ahead inp p2 m" "m = Some (Some u, q)" for type p2 m
    using assert_token_todo [OF that(1,2)] that(3,4) by (simp add: ahead_def)
  have "todo inp q < todo inp p1"
  proof (cases t)
    case SOL_FBP_TOKEN_IDENTIFIER
    then show ?thesis using assms p1 parse_conn_stmt_todo [of l inp p1 "Some ()" q] by (simp add: parse_stmt_def)
  next
    case SOL_FBP_TOKEN_STMT_SEPARATOR
    then show ?thesis using assms p1 peek_next [OF p1] next_token_todo(2) [of inp p1 t] by (auto simp: parse_stmt_def)
  next
    case SOL_FBP_TOKEN_INPORT_KEYWORD
    then have m: "parse_inport_stmt l inp p1 = Some (Some u, q)" using assms p1 by (simp add: parse_stmt_def)
    then obtain p2 where "assert_token inp SOL_FBP_TOKEN_INPORT_KEYWORD p1 = Some p2" by (auto simp: parse_inport_stmt_def split: bind_splits)
    from kw [OF this _ ahead_keyword_stmts(1) [OF this] m] show ?thesis by simp
  next
    case SOL_FBP_TOKEN_OUTPORT_KEYWORD
    then have m: "parse_outport_stmt l inp p1 = Some (Some u, q)" using assms p1 by (simp add: parse_stmt_def)
    then obtain p2 where "assert_token inp SOL_FBP_TOKEN_OUTPORT_KEYWORD p1 = Some p2" by (auto simp: parse_outport_stmt_def split: bind_splits)
    from kw [OF this _ ahead_keyword_stmts(2) [OF this] m] show ?thesis by simp
  next
    case SOL_FBP_TOKEN_DECLARE_KEYWORD
    then have m: "parse_declare_stmt l inp p1 = Some (Some u, q)" using assms p1 by (simp add: parse_stmt_def)
    then obtain p2 where "assert_token inp SOL_FBP_TOKEN_DECLARE_KEYWORD p1 = Some p2" by (auto simp: parse_declare_stmt_def split: bind_splits)
    from kw [OF this _ ahead_keyword_stmts(3) [OF this] m] show ?thesis by simp
  next
    case SOL_FBP_TOKEN_OPTION_KEYWORD
    then have m: "parse_option_stmt l inp p1 = Some (Some u, q)" using assms p1 by (simp add: parse_stmt_def)
    then obtain p2 where "assert_token inp SOL_FBP_TOKEN_OPTION_KEYWORD p1 = Some p2" by (auto simp: parse_option_stmt_def split: bind_splits)
    from kw [OF this _ ahead_keyword_stmts(4) [OF this] m] show ?thesis by simp
  qed (use assms p1 in \<open>auto simp: parse_stmt_def Let_def split: bind_splits\<close>)
  then show ?thesis using peek_token_todo [OF p1] by simp
qed

function stmt_loop :: "'l libc \<Rightarrow> byte list \<Rightarrow> byte list \<Rightarrow> sol_fbp_parser \<Rightarrow> sol_fbp_parser option" where
  "stmt_loop l inp behind p =
     (case parse_stmt l inp behind p of
        None \<Rightarrow> None
      | Some (None, p) \<Rightarrow> Some p
      | Some (Some _, p) \<Rightarrow> stmt_loop l inp behind p)"
  by pat_completeness auto
termination
  by (relation "measure (\<lambda>(l, inp, behind, p). todo inp p)") (auto dest: parse_stmt_todo)

declare stmt_loop.simps [simp del]

definition parse_stmt_list :: "'l libc \<Rightarrow> byte list \<Rightarrow> byte list \<Rightarrow> sol_fbp_parser \<Rightarrow> sol_fbp_parser option" where
  "parse_stmt_list l inp behind p = do {
     p \<leftarrow> stmt_loop l inp behind p;
     (if fp_error_msg p = None then do {
        (t, p) \<leftarrow> peek_token inp p;
        Some (if t \<noteq> SOL_FBP_TOKEN_EOF then set_parse_error Invalid_trailing p else p)
      } else Some p)
   }"

definition verify_graph :: "sol_fbp_parser \<Rightarrow> bool \<times> sol_fbp_parser" where
  "verify_graph p =
     (case first_index (\<lambda>n. fn_component n = []) (g_nodes (fp_graph p)) of
        None \<Rightarrow> (True, p)
      | Some i \<Rightarrow>
          let n = g_nodes (fp_graph p) ! i
          in (False, set_parse_error (Node_without_type (fn_name n)) (p\<lparr>fp_error_pos := fn_position n\<rparr>)))"

record sol_fbp_error =
  er_position :: position
  er_msg :: "fbp_message option"

definition sizeof_error :: nat where "sizeof_error = 16"

definition no_fbp_token :: sol_fbp_token where
  "no_fbp_token = \<lparr>fbp_type = SOL_FBP_TOKEN_NONE, fbp_start = 0, fbp_end = 0, fbp_line = 0, fbp_column = 0\<rparr>"

definition parser_init :: "sol_fbp_graph \<Rightarrow> sol_fbp_parser" where
  "parser_init g =
     \<lparr>fp_scanner = sol_fbp_scanner_init, fp_current = no_fbp_token, fp_pending = no_fbp_token, fp_error_msg = None,
      fp_error_pos = (0, 0), fp_graph = g\<rparr>"

text \<open>
  The result is NULL (\<open>None\<close>) or an error, and the graph. An error that cannot be allocated is
  reported as NULL too.
\<close>

definition sol_fbp_parse :: "'l libc \<Rightarrow> byte list \<Rightarrow> byte list \<Rightarrow> sol_fbp_graph \<Rightarrow> (sol_fbp_error option \<times> sol_fbp_graph) option" where
  "sol_fbp_parse l inp behind g = do {
     p \<leftarrow> parse_stmt_list l inp behind (parser_init g);
     let (ok, p) = (if fp_error_msg p = None then verify_graph p else (False, p));
     Some (if ok \<or> \<not> alloc_ok l sizeof_error then None else Some \<lparr>er_position = fp_error_pos p, er_msg = fp_error_msg p\<rparr>, fp_graph p)
   }"

end
