(* ===== verification/Fbp_Parse_Ok.thy ===== *)
theory Fbp_Parse_Ok
  imports Fbp_Parser
begin

text \<open>
  What parsing a flow description does to the graph: no assertion of the parser fails, no input
  that is followed by a byte in memory makes it follow an invalid pointer, and the graph it builds is well
  formed.
\<close>

section \<open>Parsers that keep the graph well formed\<close>

definition token_in :: "byte list \<Rightarrow> sol_fbp_token \<Rightarrow> bool" where
  "token_in inp t \<longleftrightarrow> fbp_start t \<le> fbp_end t \<and> fbp_end t \<le> length inp"

lemma token_in_type [simp]: "token_in inp (t\<lparr>fbp_type := x\<rparr>) = token_in inp t"
  by (simp add: token_in_def)

definition parser_ok :: "byte list \<Rightarrow> sol_fbp_parser \<Rightarrow> bool" where
  "parser_ok inp p \<longleftrightarrow> scanner_ok inp (fp_scanner p) \<and> token_in inp (fp_pending p) \<and> graph_ok (fp_graph p) \<and>
     g_arena (fp_graph p) \<noteq> None"

text \<open>A parsing function that returns, with a graph that extends the one it had; \<open>Q\<close> is what holds of a result.\<close>

definition safe :: "byte list \<Rightarrow> sol_fbp_parser \<Rightarrow> ('a \<Rightarrow> sol_fbp_graph \<Rightarrow> bool) \<Rightarrow> 'a parsed \<Rightarrow> bool" where
  "safe inp p Q m \<longleftrightarrow>
     (\<exists>r p'. m = Some (r, p') \<and> parser_ok inp p' \<and> extends (fp_graph p) (fp_graph p') \<and> (\<forall>x. r = Some x \<longrightarrow> Q x (fp_graph p')))"

named_theorems safe_intros

lemma set_parse_error_simps [simp]:
  "fp_graph (set_parse_error m p) = fp_graph p" "fp_scanner (set_parse_error m p) = fp_scanner p"
  "fp_pending (set_parse_error m p) = fp_pending p"
  by (simp_all add: set_parse_error_def)

lemma parser_ok_simps [simp]:
  "parser_ok inp (set_parse_error m p) = parser_ok inp p" "parser_ok inp (p\<lparr>fp_error_pos := e\<rparr>) = parser_ok inp p"
  by (simp_all add: parser_ok_def)

lemma parser_ok_refl [intro]: "parser_ok inp p \<Longrightarrow> extends (fp_graph p) (fp_graph p)"
  by (simp add: parser_ok_def extends_refl)

lemma parser_ok_graph: "parser_ok inp p \<Longrightarrow> extends (fp_graph p) g \<Longrightarrow> parser_ok inp (p\<lparr>fp_graph := g\<rparr>)"
  by (auto simp: parser_ok_def extends_def)

lemma parser_graph_ok: "parser_ok inp p \<Longrightarrow> graph_ok (fp_graph p)"
  by (simp add: parser_ok_def)

lemma safe_ret: "parser_ok inp q \<Longrightarrow> extends (fp_graph p) (fp_graph q) \<Longrightarrow> Q x (fp_graph q) \<Longrightarrow> safe inp p Q (Some (Some x, q))"
  by (simp add: safe_def)

lemma safe_fail: "parser_ok inp q \<Longrightarrow> extends (fp_graph p) (fp_graph q) \<Longrightarrow> safe inp p Q (Some (None, q))"
  by (simp add: safe_def)

lemma safe_then:
  assumes "safe inp p Q m"
    and "\<And>x q. parser_ok inp q \<Longrightarrow> extends (fp_graph p) (fp_graph q) \<Longrightarrow> Q x (fp_graph q) \<Longrightarrow> m = Some (Some x, q) \<Longrightarrow> safe inp q R (k x q)"
  shows "safe inp p R (p_then m k)"
proof -
  obtain r q where m: "m = Some (r, q)" "parser_ok inp q" "extends (fp_graph p) (fp_graph q)" "\<forall>x. r = Some x \<longrightarrow> Q x (fp_graph q)"
    using assms(1) by (auto simp: safe_def)
  show ?thesis
  proof (cases r)
    case (Some x)
    then show ?thesis using assms(2) [OF m(2,3), of x] m extends_trans by (fastforce simp: safe_def)
  qed (use m in \<open>simp add: safe_def\<close>)
qed

lemma safe_from: "safe inp q Q m \<Longrightarrow> extends (fp_graph p) (fp_graph q) \<Longrightarrow> safe inp p Q m"
  unfolding safe_def using extends_trans by blast

lemma safe_weaken: "safe inp p Q m \<Longrightarrow> (\<And>x g. Q x g \<Longrightarrow> R x g) \<Longrightarrow> safe inp p R m"
  unfolding safe_def by blast

subsection \<open>Tokens\<close>

lemma next_token_ok:
  assumes "parser_ok inp p"
  obtains t q where "next_token inp p = Some (t, q)" "parser_ok inp q" "fp_graph q = fp_graph p" "t \<noteq> SOL_FBP_TOKEN_NONE"
    "fbp_type (fp_current q) = t" "token_in inp (fp_current q)"
proof (cases "fbp_type (fp_pending p) = SOL_FBP_TOKEN_NONE")
  case True
  have ok: "scanner_ok inp (fp_scanner p)" using assms by (simp add: parser_ok_def)
  obtain s where "sol_fbp_scan_token inp (fp_scanner p) = Some s" "scanner_ok inp s" "tok_type s \<noteq> SOL_FBP_TOKEN_NONE"
  proof (cases "final_type (tok_type (fp_scanner p))")
    case f: True
    then show ?thesis using that [OF scan_token_final [OF f]] ok by auto
  next
    case False
    then show ?thesis using that scan_token_ok [OF ok False] by (auto simp: scanned_def)
  qed
  then show ?thesis using True assms that [of "tok_type s" "p\<lparr>fp_scanner := s, fp_current := fs_token s\<rparr>"]
    by (simp add: next_token_def parser_ok_def token_in_def scanner_ok_def scan_ok_def)
next
  case False
  then show ?thesis
    using assms that [of "fbp_type (fp_pending p)" "p\<lparr>fp_current := fp_pending p, fp_pending := (fp_pending p)\<lparr>fbp_type := SOL_FBP_TOKEN_NONE\<rparr>\<rparr>"]
    by (simp add: next_token_def parser_ok_def)
qed

lemma peek_token_ok:
  assumes "parser_ok inp p"
  obtains t q where "peek_token inp p = Some (t, q)" "parser_ok inp q" "fp_graph q = fp_graph p" "t \<noteq> SOL_FBP_TOKEN_NONE"
proof (cases "fbp_type (fp_pending p) = SOL_FBP_TOKEN_NONE")
  case True
  obtain t q where q: "next_token inp p = Some (t, q)" "parser_ok inp q" "fp_graph q = fp_graph p" "t \<noteq> SOL_FBP_TOKEN_NONE"
    "token_in inp (fp_current q)" by (rule next_token_ok [OF assms])
  then show ?thesis using that [of t "q\<lparr>fp_pending := fp_current q, fp_current := fp_current p\<rparr>"] True
    by (simp add: peek_token_def parser_ok_def)
next
  case False
  then show ?thesis using assms that by (simp add: peek_token_def)
qed

lemma safe_next:
  assumes "parser_ok inp p"
    and "\<And>t q. parser_ok inp q \<Longrightarrow> fp_graph q = fp_graph p \<Longrightarrow> next_token inp p = Some (t, q) \<Longrightarrow> t \<noteq> SOL_FBP_TOKEN_NONE \<Longrightarrow> safe inp q R (k t q)"
  shows "safe inp p R (Option.bind (next_token inp p) (\<lambda>(t, q). k t q))"
proof -
  obtain t q where q: "next_token inp p = Some (t, q)" "parser_ok inp q" "fp_graph q = fp_graph p" "t \<noteq> SOL_FBP_TOKEN_NONE"
    by (rule next_token_ok [OF assms(1)])
  then show ?thesis using assms(2) [OF q(2,3,1,4)] by (simp add: safe_def)
qed

lemma safe_peek:
  assumes "parser_ok inp p"
    and "\<And>t q. parser_ok inp q \<Longrightarrow> fp_graph q = fp_graph p \<Longrightarrow> peek_token inp p = Some (t, q) \<Longrightarrow> t \<noteq> SOL_FBP_TOKEN_NONE \<Longrightarrow> safe inp q R (k t q)"
  shows "safe inp p R (Option.bind (peek_token inp p) (\<lambda>(t, q). k t q))"
proof -
  obtain t q where q: "peek_token inp p = Some (t, q)" "parser_ok inp q" "fp_graph q = fp_graph p" "t \<noteq> SOL_FBP_TOKEN_NONE"
    by (rule peek_token_ok [OF assms(1)])
  then show ?thesis using assms(2) [OF q(2,3,1,4)] by (simp add: safe_def)
qed

abbreviation any_result :: "'a \<Rightarrow> sol_fbp_graph \<Rightarrow> bool" where
  "any_result \<equiv> \<lambda>_ _. True"

abbreviation node_result :: "int \<Rightarrow> sol_fbp_graph \<Rightarrow> bool" where
  "node_result \<equiv> \<lambda>i g. valid_node g i"

lemma safe_expect: "parser_ok inp p \<Longrightarrow> safe inp p any_result (expect inp type msg p)"
  unfolding expect_def by (rule safe_next) (auto simp: safe_def)

text \<open>The rules for results of which nothing is asked, and for functions that leave the graph alone.\<close>

lemma safe_then_any:
  "safe inp p any_result m \<Longrightarrow>
   (\<And>x q. parser_ok inp q \<Longrightarrow> extends (fp_graph p) (fp_graph q) \<Longrightarrow> m = Some (Some x, q) \<Longrightarrow> safe inp q R (k x q)) \<Longrightarrow>
   safe inp p R (p_then m k)"
  by (rule safe_then)

lemma safe_ret_same: "parser_ok inp q \<Longrightarrow> fp_graph q = fp_graph p \<Longrightarrow> Q x (fp_graph q) \<Longrightarrow> safe inp p Q (Some (Some x, q))"
  using safe_ret parser_ok_refl by fastforce

lemma safe_fail_same: "parser_ok inp q \<Longrightarrow> fp_graph q = fp_graph p \<Longrightarrow> safe inp p Q (Some (None, q))"
  using safe_fail parser_ok_refl by fastforce

lemmas [safe_intros] = safe_ret_same safe_fail_same safe_then_any safe_expect safe_next safe_peek

subsection \<open>Errors and nodes\<close>

lemma safe_node_error: "parser_ok inp p \<Longrightarrow> (e = EEXIST \<Longrightarrow> n \<noteq> None) \<Longrightarrow> safe inp p Q (handle_node_error name position e n p)"
  by (auto simp: handle_node_error_def Let_def intro!: safe_intros)

lemma safe_conn_error: "parser_ok inp p \<Longrightarrow> safe inp p Q (handle_conn_error c e p)"
  by (auto simp: handle_conn_error_def Let_def intro!: safe_intros split: option.splits)

lemma safe_meta_error: "parser_ok inp p \<Longrightarrow> safe inp p any_result (handle_meta_error node key position e p)"
  by (auto simp: handle_meta_error_def Let_def intro!: safe_intros split: option.splits)

lemma safe_add_node:
  assumes "parser_ok inp p"
  shows "safe inp p node_result (add_node l name component position p)"
proof -
  obtain r out g where g: "sol_fbp_graph_add_node l (fp_graph p) name component position = Some (r, out, g)"
    using add_node_total [of "fp_graph p" l name component position] assms by (auto simp: parser_ok_def)
  note ok = add_node_ok [OF parser_graph_ok [OF assms] g]
  have q: "parser_ok inp (p\<lparr>fp_graph := g\<rparr>)" using parser_ok_graph [OF assms ok(1)] .
  show ?thesis
  proof (cases r)
    case (Inl e)
    have "e = EEXIST \<Longrightarrow> out \<noteq> None" using add_node_exists g Inl by blast
    then have "safe inp (p\<lparr>fp_graph := g\<rparr>) node_result (handle_node_error name position e out (p\<lparr>fp_graph := g\<rparr>))"
      by (rule safe_node_error [OF q])
    then show ?thesis using safe_from [of inp _ _ _ p] ok(1) g Inl by (fastforce simp: add_node_def)
  next
    case (Inr i)
    then show ?thesis using ok(1) ok(2) [OF Inr] q g by (simp add: add_node_def safe_ret)
  qed
qed

lemma safe_port_index: "parser_ok inp p \<Longrightarrow> safe inp p any_result (parse_port_index inp p)"
  unfolding parse_port_index_def Let_def by (auto intro!: safe_intros)

lemma safe_meta_value: "parser_ok inp p \<Longrightarrow> safe inp p any_result (parse_meta_value inp p)"
  unfolding parse_meta_value_def by (auto intro!: safe_intros)

lemma safe_exported_port: "parser_ok inp p \<Longrightarrow> safe inp p any_result (parse_exported_port inp p)"
  unfolding parse_exported_port_def Let_def by (auto intro!: safe_intros safe_port_index)

lemma safe_port: "parser_ok inp p \<Longrightarrow> safe inp p any_result (parse_port inp p)"
  unfolding parse_port_def Let_def by (auto intro!: safe_intros safe_port_index)

lemma safe_meta_loop: "parser_ok inp p \<Longrightarrow> safe inp p any_result (meta_loop l inp node first p)"
proof (induction l inp node first p rule: meta_loop.induct)
  case (1 l inp node first p)
  obtain t q where q: "peek_token inp p = Some (t, q)" "parser_ok inp q" "fp_graph q = fp_graph p"
    using peek_token_ok [OF "1.prems"] by metis
  have "safe inp q any_result (meta_loop l inp node first p)"
  proof (cases "t = SOL_FBP_TOKEN_PAREN_CLOSE")
    case False
    have first: "safe inp q any_result (if first then Some (Some (), q) else expect inp SOL_FBP_TOKEN_COMMA Expected_comma_in_meta q)"
      using q(2) by (auto intro!: safe_intros)
    have last: "safe inp p3 any_result (case r of
        (Inl e, g) \<Rightarrow> handle_meta_error node (get_token_slice inp p2) (get_token_position (fp_current p2)) e (p3\<lparr>fp_graph := g\<rparr>)
      | (Inr _, g) \<Rightarrow> meta_loop l inp node False (p3\<lparr>fp_graph := g\<rparr>))"
      if h: "(if first then Some (Some (), q) else expect inp SOL_FBP_TOKEN_COMMA Expected_comma_in_meta q) = Some (Some u, p1)"
        "expect inp SOL_FBP_TOKEN_IDENTIFIER Expected_meta_key p1 = Some (Some w, p2)" "parse_meta_value inp p2 = Some (Some v, p3)"
        "sol_fbp_graph_add_meta l (fp_graph p3) node (get_token_slice inp p2) v (get_token_position (fp_current p2)) = r" "parser_ok inp p3"
      for u p1 w p2 v p3 r
    proof -
      obtain x g where r: "r = (x, g)" by fastforce
      have g: "extends (fp_graph p3) g" using add_meta_ok [OF parser_graph_ok [OF h(5)] h(4) [unfolded r]] .
      note ok = parser_ok_graph [OF h(5) g]
      show ?thesis
      proof (cases x)
        case (Inl e)
        then show ?thesis using safe_from [OF safe_meta_error [OF ok], of p3] g r by simp
      next
        case (Inr z)
        have "safe inp (p3\<lparr>fp_graph := g\<rparr>) any_result (meta_loop l inp node False (p3\<lparr>fp_graph := g\<rparr>))"
          by (rule "1.IH" [OF q(1) refl False h(1,2) refl refl h(3) _ refl ok]) (use h(4) r Inr in simp)
        then show ?thesis using safe_from [of inp _ _ _ p3] g r Inr by fastforce
      qed
    qed
    show ?thesis
      unfolding meta_loop.simps [of l inp node first p] q(1) option.case prod.case if_not_P [OF False] Let_def
      by (rule safe_then_any [OF first], rule safe_then_any [OF safe_expect], assumption, rule safe_then_any [OF safe_meta_value], assumption)
        (rule last, assumption+, rule refl, assumption)
  qed (use q in \<open>auto simp: meta_loop.simps [of l inp node first p] intro!: safe_ret_same\<close>)
  then show ?case using safe_from [of inp q _ _ p] q(3) parser_ok_refl [OF "1.prems"] by simp
qed

lemma safe_meta: "parser_ok inp p \<Longrightarrow> safe inp p any_result (parse_meta l inp node p)"
  unfolding parse_meta_def by (auto intro!: safe_intros safe_meta_loop)

lemma safe_node: "parser_ok inp p \<Longrightarrow> safe inp p node_result (parse_node l inp p)"
  unfolding parse_node_def Let_def
  apply (rule safe_then_any [OF safe_expect], assumption)
  apply (rule safe_peek, assumption)
  apply (simp add: safe_add_node)
  apply (rule impI, rule safe_next, assumption)
  apply (rule safe_peek, assumption)
  apply (rule if_split [THEN iffD2], intro conjI impI)
   apply (rule safe_next, assumption, erule safe_add_node)
  apply (rule safe_then_any [OF safe_expect], assumption)
  apply (rule safe_then [OF safe_add_node], assumption)
  apply (rule safe_then_any [OF safe_meta], assumption)
  apply (rule safe_then_any [OF safe_expect], assumption)
  by (blast intro: safe_ret extends_valid)

subsection \<open>Connections\<close>

lemma safe_add_conn:
  assumes p: "parser_ok inp p" and valid: "valid_node (fp_graph p) src" "valid_node (fp_graph p) dst"
  shows "safe inp p node_result (case sol_fbp_graph_add_conn l (fp_graph p) src sp si dst dp di position of
      (Inl e, g) \<Rightarrow> handle_conn_error c e (p\<lparr>fp_graph := g\<rparr>) | (Inr _, g) \<Rightarrow> Some (Some dst, p\<lparr>fp_graph := g\<rparr>))"
proof -
  obtain r g where r: "sol_fbp_graph_add_conn l (fp_graph p) src sp si dst dp di position = (r, g)" by fastforce
  have g: "extends (fp_graph p) g" by (rule add_conn_ok [OF parser_graph_ok [OF p] valid r])
  note ok = parser_ok_graph [OF p g]
  show ?thesis
  proof (cases r)
    case (Inl e)
    then show ?thesis using safe_from [OF safe_conn_error [OF ok], of p] g r by simp
  next
    case (Inr z)
    then show ?thesis using ok g r extends_valid [OF g valid(2)] by (simp add: safe_ret)
  qed
qed

text \<open>The ports that are added to a node while a statement is read; what that returns is not looked at.\<close>

lemma out_port_ok:
  "parser_ok inp p \<Longrightarrow> extends (fp_graph p) (snd (sol_fbp_graph_add_out_port l (fp_graph p) node name position))"
  using add_out_port_ok parser_graph_ok by (metis prod.collapse)

lemma in_port_ok:
  "parser_ok inp p \<Longrightarrow> extends (fp_graph p) (snd (sol_fbp_graph_add_in_port l (fp_graph p) node name position))"
  using add_in_port_ok parser_graph_ok by (metis prod.collapse)

lemma safe_graph: "safe inp (p\<lparr>fp_graph := g\<rparr>) Q m \<Longrightarrow> extends (fp_graph p) g \<Longrightarrow> safe inp p Q m"
  using safe_from [of inp "p\<lparr>fp_graph := g\<rparr>" Q m p] by simp

lemma safe_extended:
  assumes "parser_ok inp p" and "extends (fp_graph p) g"
    and "\<And>q. parser_ok inp q \<Longrightarrow> extends (fp_graph p) (fp_graph q) \<Longrightarrow> safe inp q Q (k q)"
  shows "safe inp p Q (let q = p\<lparr>fp_graph := g\<rparr> in k q)"
  unfolding Let_def
  by (rule safe_graph [OF assms(3) [OF parser_ok_graph [OF assms(1,2)]] assms(2)]) (use assms(2) in simp)

lemma safe_let: "(\<And>x. safe inp p Q (k x)) \<Longrightarrow> safe inp p Q (Let e k)"
  by (simp add: Let_def)

lemma safe_pair: "(\<And>a b. x = (a, b) \<Longrightarrow> safe inp p Q (k a b q)) \<Longrightarrow> safe inp p Q ((case x of (a, b) \<Rightarrow> k a b) q)"
  by (simp split: prod.split)

lemma safe_or_error: "parser_ok inp p \<Longrightarrow> (\<not> b \<Longrightarrow> safe inp p Q m) \<Longrightarrow> safe inp p Q (if b then Some (None, set_parse_error e p) else m)"
  by (auto intro: safe_intros)

lemma safe_or_fail: "parser_ok inp p \<Longrightarrow> (\<not> b \<Longrightarrow> safe inp p Q m) \<Longrightarrow> safe inp p Q (if b then Some (None, p) else m)"
  by (auto intro: safe_intros)

lemma safe_conn:
  assumes p: "parser_ok inp p" and src: "valid_node (fp_graph p) src"
  shows "safe inp p node_result (parse_conn l inp src p)"
  unfolding parse_conn_def
  apply (rule safe_then_any [OF safe_port [OF p]], rule safe_pair, rule safe_let, rule safe_extended, assumption, rule out_port_ok, assumption)
  apply (rule safe_next, assumption, rule safe_or_error, assumption)
  apply (rule safe_peek, assumption, rule safe_or_error, assumption)
  apply (rule safe_then_any [OF safe_port], assumption, rule safe_pair, rule safe_let)
  apply (rule safe_peek, assumption, rule safe_or_error, assumption)
  apply (rule safe_then [OF safe_node], assumption, rule safe_extended, assumption, rule in_port_ok, assumption, rule safe_or_fail, assumption)
  apply (rule safe_add_conn, assumption)
   apply (use src extends_valid in metis)
  apply (use extends_valid in blast)
  done

lemma safe_conn_loop: "parser_ok inp p \<Longrightarrow> valid_node (fp_graph p) src \<Longrightarrow> safe inp p any_result (conn_loop l inp src p)"
proof (induction l inp src p rule: conn_loop.induct)
  case (1 l inp src p)
  obtain t q where q: "peek_token inp p = Some (t, q)" "parser_ok inp q" "fp_graph q = fp_graph p"
    using peek_token_ok [OF "1.prems"(1)] by metis
  have "safe inp q any_result (conn_loop l inp src p)"
  proof (cases "t = SOL_FBP_TOKEN_IDENTIFIER")
    case True
    have "safe inp q any_result (p_then (parse_conn l inp src q) (\<lambda>dst p. conn_loop l inp dst p))"
    proof (rule safe_then [OF safe_conn [OF q(2)]])
      show "valid_node (fp_graph q) src" using "1.prems"(2) q(3) by simp
    next
      fix dst r assume r: "parser_ok inp r" "valid_node (fp_graph r) dst" "parse_conn l inp src q = Some (Some dst, r)"
      show "safe inp r any_result (conn_loop l inp dst r)" by (rule "1.IH" [OF q(1) refl _ r(3) r(1,2)]) (simp add: True)
    qed
    then show ?thesis using q(1) True by (simp add: conn_loop.simps [of l inp src p])
  qed (use q in \<open>auto simp: conn_loop.simps [of l inp src p] intro!: safe_ret_same\<close>)
  then show ?case using safe_from [of inp q _ _ p] q(3) parser_ok_refl [OF "1.prems"(1)] by simp
qed

lemma safe_conn_stmt: "parser_ok inp p \<Longrightarrow> safe inp p any_result (parse_conn_stmt l inp p)"
  unfolding parse_conn_stmt_def
  by (rule safe_then [OF safe_node], assumption, rule safe_peek, assumption, rule safe_or_error, assumption)
    (simp add: safe_conn_loop)

subsection \<open>Statements\<close>

lemma peeked_assert:
  assumes "parser_ok inp p" and "peek_token inp p0 = Some (t, p)" and "t \<noteq> SOL_FBP_TOKEN_NONE"
  obtains q where "assert_token inp t p = Some q" "parser_ok inp q" "fp_graph q = fp_graph p"
  using peek_next [OF assms(2,3)] assms(1) by (auto simp: assert_token_def parser_ok_def)

lemma safe_peeked:
  assumes "parser_ok inp p" and "peek_token inp p0 = Some (t, p)" and "t \<noteq> SOL_FBP_TOKEN_NONE"
    and "\<And>q. parser_ok inp q \<Longrightarrow> fp_graph q = fp_graph p \<Longrightarrow> safe inp q Q (k q)"
  shows "safe inp p Q (Option.bind (assert_token inp t p) k)"
proof (rule peeked_assert [OF assms(1-3)])
  fix q assume q: "assert_token inp t p = Some q" "parser_ok inp q" "fp_graph q = fp_graph p"
  show ?thesis using assms(4) [OF q(2,3)] q(1,3) by (simp add: safe_def)
qed

lemma safe_export:
  assumes p: "parser_ok inp p" and g: "extends (fp_graph p) g" and taken: "r = Inl EEXIST \<or> r = Inl EADDRINUSE \<Longrightarrow> ep \<noteq> None"
  shows "safe inp p any_result (let p = p\<lparr>fp_graph := g\<rparr>
      in if r \<noteq> Inl EEXIST \<and> r \<noteq> Inl EADDRINUSE then Some (Some (), p)
         else (case ep of None \<Rightarrow> None | Some i \<Rightarrow> let e = eps ! i in Some (None, set_parse_error (m e) p)))"
  using taken by (intro safe_extended [OF p g]) (auto simp: Let_def intro!: safe_intros)

lemma export_in_taken:
  assumes "sol_fbp_graph_add_exported_in_port l g n port port_idx name position = (r, ep, g')" and "r = Inl EEXIST \<or> r = Inl EADDRINUSE"
  shows "ep \<noteq> None"
  using assms exported_port_taken [of l n port port_idx name position "g_exported_in_ports g" r ep]
  by (auto simp: sol_fbp_graph_add_exported_in_port_def split: prod.splits)

lemma export_out_taken:
  assumes "sol_fbp_graph_add_exported_out_port l g n port port_idx name position = (r, ep, g')" and "r = Inl EEXIST \<or> r = Inl EADDRINUSE"
  shows "ep \<noteq> None"
  using assms exported_port_taken [of l n port port_idx name position "g_exported_out_ports g" r ep]
  by (auto simp: sol_fbp_graph_add_exported_out_port_def split: prod.splits)

lemma safe_case3: "(\<And>a b c. x = (a, b, c) \<Longrightarrow> safe inp p Q (k a b c)) \<Longrightarrow> safe inp p Q (case x of (a, b, c) \<Rightarrow> k a b c)"
  by (simp split: prod.split)

lemma safe_inport_stmt:
  assumes "parser_ok inp p" and "peek_token inp p0 = Some (SOL_FBP_TOKEN_INPORT_KEYWORD, p)"
  shows "safe inp p any_result (parse_inport_stmt l inp p)"
  unfolding parse_inport_stmt_def
  apply (rule safe_peeked [OF assms], simp)
  apply (rule safe_then_any [OF safe_exported_port], assumption, rule safe_pair, rule safe_pair, rule safe_pair, rule safe_let)
  apply (rule safe_then [OF safe_add_node], assumption, rule safe_extended, assumption, rule in_port_ok, assumption)
  apply (rule safe_or_fail, assumption, rule safe_case3, rule safe_export, assumption)
   apply (erule add_exported_in_port_ok [OF parser_graph_ok, rotated 2], assumption, rule extends_valid, assumption, assumption)
  apply (rule export_in_taken, assumption, assumption)
  done

lemma safe_outport_stmt:
  assumes "parser_ok inp p" and "peek_token inp p0 = Some (SOL_FBP_TOKEN_OUTPORT_KEYWORD, p)"
  shows "safe inp p any_result (parse_outport_stmt l inp p)"
  unfolding parse_outport_stmt_def
  apply (rule safe_peeked [OF assms], simp)
  apply (rule safe_then_any [OF safe_exported_port], assumption, rule safe_pair, rule safe_pair, rule safe_pair, rule safe_let)
  apply (rule safe_then [OF safe_add_node], assumption, rule safe_extended, assumption, rule out_port_ok, assumption)
  apply (rule safe_or_fail, assumption, rule safe_case3, rule safe_export, assumption)
   apply (erule add_exported_out_port_ok [OF parser_graph_ok, rotated 2], assumption, rule extends_valid, assumption, assumption)
  apply (rule export_out_taken, assumption, assumption)
  done

lemma safe_declare_stmt:
  assumes "parser_ok inp p" and "peek_token inp p0 = Some (SOL_FBP_TOKEN_DECLARE_KEYWORD, p)"
  shows "safe inp p any_result (parse_declare_stmt l inp p)"
proof -
  have "safe inp q any_result (case sol_fbp_graph_declare l (fp_graph q) name metatype contents pos of
        (r, g) \<Rightarrow>
          let p = q\<lparr>fp_graph := g\<rparr>
          in if r = Inl EEXIST then Some (None, set_parse_error (Type_declared name) (p\<lparr>fp_error_pos := pos\<rparr>))
             else if r = Inl EINVAL then Some (None, set_parse_error (Type_invalid name) (p\<lparr>fp_error_pos := pos\<rparr>))
             else Some (Some (), p))" if "parser_ok inp q" for q name metatype contents pos
  proof -
    obtain r g where r: "sol_fbp_graph_declare l (fp_graph q) name metatype contents pos = (r, g)" by fastforce
    have "extends (fp_graph q) g" by (rule declare_ok [OF parser_graph_ok [OF that] r])
    then show ?thesis unfolding r prod.case by (intro safe_extended [OF that]) (auto intro!: safe_intros)
  qed
  then show ?thesis
    unfolding parse_declare_stmt_def by (intro safe_peeked [OF assms] safe_then_any safe_let safe_expect) simp_all
qed

lemma safe_option_stmt:
  assumes "parser_ok inp p" and "peek_token inp p0 = Some (SOL_FBP_TOKEN_OPTION_KEYWORD, p)"
  shows "safe inp p any_result (parse_option_stmt l inp p)"
proof -
  have "safe inp q any_result (case sol_fbp_graph_option l (fp_graph q) node opt_name node_opt pos of
        (r, g) \<Rightarrow>
          let p = q\<lparr>fp_graph := g\<rparr>
          in (case r of
                Inr _ \<Rightarrow> Some (Some (), p)
              | Inl e \<Rightarrow> Some (None, set_parse_error
                  (if e = EEXIST then Option_declared opt_name else if e = EINVAL then Option_invalid opt_name else Option_failed opt_name)
                  (p\<lparr>fp_error_pos := pos\<rparr>))))" if "parser_ok inp q" "valid_node (fp_graph q) node" for q node opt_name node_opt pos
  proof -
    obtain r g where r: "sol_fbp_graph_option l (fp_graph q) node opt_name node_opt pos = (r, g)" by fastforce
    have "extends (fp_graph q) g" by (rule option_ok [OF parser_graph_ok [OF that(1)] that(2) r])
    then show ?thesis unfolding r prod.case by (intro safe_extended [OF that(1)]) (auto intro!: safe_intros split: sum.split)
  qed
  then show ?thesis
    unfolding parse_option_stmt_def
    by (intro safe_peeked [OF assms] safe_then_any [OF safe_expect] safe_let safe_then [OF safe_add_node]) simp_all
qed

section \<open>The whole input\<close>

text \<open>
  A statement that cannot be parsed: its token is printed with one byte more. That returns when a byte follows
  the input, and also when the byte more is still inside of it.
\<close>

lemma safe_bad_stmt:
  fixes behind :: "byte list"
  defines "report \<equiv> (\<lambda>inp p. do {
          let tok = fp_current p;
          s \<leftarrow> printed_bytes (inp @ behind) (fbp_start tok) (SOL_FBP_TOKEN_PRINT tok);
          Some (None, set_parse_error (Cannot_parse_statement s) p)
        }) :: byte list \<Rightarrow> sol_fbp_parser \<Rightarrow> unit parsed"
  assumes q: "parser_ok inp q" and some: "behind \<noteq> [] \<or> Option.bind (next_token inp q) (\<lambda>(_, p). report inp p) \<noteq> None"
  shows "safe inp q any_result (Option.bind (next_token inp q) (\<lambda>(_, p). report inp p))"
proof -
  obtain t p where p: "next_token inp q = Some (t, p)" "parser_ok inp p" "fp_graph p = fp_graph q" "token_in inp (fp_current p)"
    by (rule next_token_ok [OF q])
  let ?tok = "fp_current p"
  obtain s where "printed_bytes (inp @ behind) (fbp_start ?tok) (SOL_FBP_TOKEN_PRINT ?tok) = Some s"
  proof (cases "behind = []")
    case True
    then show ?thesis using some p(1) that by (auto simp: report_def Let_def split: bind_splits)
  next
    case False
    then have "0 < length behind" by simp
    then have "fbp_start ?tok + SOL_FBP_TOKEN_PRINT ?tok \<le> length (inp @ behind)"
      using p(4) unfolding token_in_def SOL_FBP_TOKEN_PRINT_def length_append by linarith
    then show ?thesis using printed_bytes_inside that by blast
  qed
  then show ?thesis using p by (auto simp: report_def Let_def intro!: safe_fail_same)
qed

lemma safe_stmt:
  assumes "parser_ok inp p" and "behind \<noteq> [] \<or> parse_stmt l inp behind p \<noteq> None"
  shows "safe inp p any_result (parse_stmt l inp behind p)"
proof -
  obtain t q where q: "peek_token inp p = Some (t, q)" "parser_ok inp q" "fp_graph q = fp_graph p" "t \<noteq> SOL_FBP_TOKEN_NONE"
    by (rule peek_token_ok [OF assms(1)])
  have consume: "safe inp q any_result (Option.bind (next_token inp q) (\<lambda>(_, p). k p))" if "\<And>p. parser_ok inp p \<Longrightarrow> safe inp p any_result (k p)"
    for k :: "sol_fbp_parser \<Rightarrow> unit parsed"
    by (rule safe_next [OF q(2)]) (rule that)
  note bad = safe_bad_stmt [OF q(2), of behind]
  have "safe inp q any_result (parse_stmt l inp behind p)"
    using q assms(2) unfolding parse_stmt_def
    by (cases t) (auto simp: safe_inport_stmt safe_outport_stmt safe_declare_stmt safe_option_stmt safe_conn_stmt
        intro!: consume safe_ret_same safe_fail_same bad simp del: not_None_eq)
  then show ?thesis by (rule safe_from) (simp add: q(3) parser_ok_refl [OF assms(1)])
qed

lemma stmt_loop_ok:
  "parser_ok inp p \<Longrightarrow> behind \<noteq> [] \<or> stmt_loop l inp behind p \<noteq> None \<Longrightarrow>
     \<exists>q. stmt_loop l inp behind p = Some q \<and> parser_ok inp q \<and> extends (fp_graph p) (fp_graph q)"
proof (induction l inp behind p rule: stmt_loop.induct)
  case (1 l inp behind p)
  have "behind \<noteq> [] \<or> parse_stmt l inp behind p \<noteq> None"
    using "1.prems"(2) stmt_loop.simps [of l inp behind p] by (auto split: option.splits)
  then obtain r q where q: "parse_stmt l inp behind p = Some (r, q)" "parser_ok inp q" "extends (fp_graph p) (fp_graph q)"
    using safe_stmt [OF "1.prems"(1), of behind l] by (auto simp: safe_def)
  show ?case
  proof (cases r)
    case (Some u)
    then have "behind \<noteq> [] \<or> stmt_loop l inp behind q \<noteq> None"
      using "1.prems"(2) q(1) stmt_loop.simps [of l inp behind p] by simp
    then obtain q' where "stmt_loop l inp behind q = Some q'" "parser_ok inp q'" "extends (fp_graph q) (fp_graph q')"
      using "1.IH" q Some by blast
    then show ?thesis using q Some extends_trans [OF q(3)] by (simp add: stmt_loop.simps [of l inp behind p])
  qed (use q in \<open>simp add: stmt_loop.simps [of l inp behind p]\<close>)
qed

lemma parse_stmt_list_ok:
  assumes "parser_ok inp p" and "behind \<noteq> [] \<or> parse_stmt_list l inp behind p \<noteq> None"
  shows "\<exists>q. parse_stmt_list l inp behind p = Some q \<and> parser_ok inp q \<and> extends (fp_graph p) (fp_graph q)"
proof -
  have "behind \<noteq> [] \<or> stmt_loop l inp behind p \<noteq> None" using assms(2) by (cases "stmt_loop l inp behind p") (simp_all add: parse_stmt_list_def)
  then obtain r where r: "stmt_loop l inp behind p = Some r" "parser_ok inp r" "extends (fp_graph p) (fp_graph r)"
    using stmt_loop_ok [OF assms(1)] by blast
  obtain t q where q: "peek_token inp r = Some (t, q)" "parser_ok inp q" "fp_graph q = fp_graph r"
    using peek_token_ok [OF r(2)] by metis
  show ?thesis using r q by (auto simp: parse_stmt_list_def)
qed

lemma verify_graph_ok:
  assumes "verify_graph p = (ok, q)"
  shows "fp_graph q = fp_graph p" and "ok \<longleftrightarrow> (\<forall>n\<in>set (g_nodes (fp_graph p)). fn_component n \<noteq> [])" and "\<not> ok \<Longrightarrow> fp_error_msg q \<noteq> None"
proof -
  have "fp_graph q = fp_graph p \<and> (ok \<longleftrightarrow> (\<forall>n\<in>set (g_nodes (fp_graph p)). fn_component n \<noteq> [])) \<and> (\<not> ok \<longrightarrow> fp_error_msg q \<noteq> None)"
  proof (cases "first_index (\<lambda>n. fn_component n = []) (g_nodes (fp_graph p))")
    case None
    then show ?thesis using assms iffD1 [OF first_index_None None] by (simp add: verify_graph_def)
  next
    case (Some i)
    then show ?thesis using assms first_index_Some [OF Some] by (auto simp: verify_graph_def Let_def set_parse_error_def)
  qed
  then show "fp_graph q = fp_graph p" "ok \<longleftrightarrow> (\<forall>n\<in>set (g_nodes (fp_graph p)). fn_component n \<noteq> [])" "\<not> ok \<Longrightarrow> fp_error_msg q \<noteq> None" by auto
qed

text \<open>
  C22. Parsing a flow description, into a well-formed graph whose arena exists, whatever the bytes are and whichever
  allocations of the graph fail. It always returns when a byte follows the input in memory, such as the NUL byte of a
  string: no assertion fails and no pointer is followed that is not valid. When the input ends where its memory
  ends, all that can go wrong is the message of a statement that cannot be parsed, which prints one byte more than
  the token has (\<open>parse_reads_behind\<close>). When it returns, the graph is still well formed: every connection,
  exported port and option refers to a node of the graph, names, keys of a node, connections, declarations and
  options are unique, and no port is exported twice. An error says what is wrong; no error means, unless
  the error itself could not be allocated, that every node has a type.
\<close>

theorem sol_fbp_parse_ok:
  assumes "graph_ok g" and "g_arena g \<noteq> None"
  shows "case sol_fbp_parse l inp behind g of
      None \<Rightarrow> behind = []
    | Some (e, g') \<Rightarrow> graph_ok g' \<and> length (g_nodes g) \<le> length (g_nodes g') \<and>
        (case e of None \<Rightarrow> alloc_ok l sizeof_error \<longrightarrow> (\<forall>n\<in>set (g_nodes g'). fn_component n \<noteq> []) | Some er \<Rightarrow> er_msg er \<noteq> None)"
proof (cases "behind \<noteq> [] \<or> parse_stmt_list l inp behind (parser_init g) \<noteq> None")
  case True
  have "parser_ok inp (parser_init g)"
    using assms scanner_init_ok by (simp add: parser_ok_def parser_init_def token_in_def no_fbp_token_def)
  from parse_stmt_list_ok [OF this True] obtain p where p: "parse_stmt_list l inp behind (parser_init g) = Some p"
    "parser_ok inp p" "extends (fp_graph (parser_init g)) (fp_graph p)" by blast
  obtain ok q where q: "verify_graph p = (ok, q)" by fastforce
  note v = verify_graph_ok [OF q]
  have g: "graph_ok (fp_graph p)" "length (g_nodes g) \<le> length (g_nodes (fp_graph p))"
    using p(3) by (simp_all add: extends_def parser_init_def)
  show ?thesis
  proof (cases "fp_error_msg p = None")
    case True
    then show ?thesis using p(1) q v g by (cases ok) (auto simp: sol_fbp_parse_def)
  next
    case False
    then show ?thesis using p(1) g by (auto simp: sol_fbp_parse_def)
  qed
next
  case False
  then show ?thesis by (simp add: sol_fbp_parse_def)
qed

text \<open>The empty graph and the input \<^verbatim>\<open>a(b)\<close>, which is followed by a NUL byte.\<close>

theorem sol_fbp_parse_ok_witness:
  "\<exists>e g'. sol_fbp_parse (libc_std ()) [97, 40, 98, 41] [0] (sol_fbp_graph_init (libc_std ())) = Some (e, g') \<and> graph_ok g'"
proof -
  have arena: "g_arena (sol_fbp_graph_init (libc_std ())) \<noteq> None"
    by (simp add: sol_fbp_graph_init_def sol_arena_new_def sizeof_arena_def SSIZE_MAX_def)
  show ?thesis using sol_fbp_parse_ok [OF graph_ok_init arena, of "[0]" "libc_std ()" "[97, 40, 98, 41]"]
    by (auto split: option.splits)
qed

text \<open>The input \<^verbatim>\<open>-\<close> at the end of its memory: the token that is no statement is the whole input.\<close>

lemma scan_minus:
  "sol_fbp_scan_token [45] sol_fbp_scanner_init =
     Some \<lparr>fs_token = \<lparr>fbp_type = SOL_FBP_TOKEN_ERROR, fbp_start = 0, fbp_end = 1, fbp_line = 1, fbp_column = 1\<rparr>,
       fs_state = Null_state, fs_start = (1, 1), fs_cur = (1, 2)\<rparr>"
  by (simp add: sol_fbp_scan_token_def scan_loop.simps sol_fbp_scanner_init_def ignore_def set_token_def state_defs next_char_def
      peek_def advance_def uint_suc_def)

lemma parse_reads_behind: "sol_fbp_parse l [45] [] g = None"
  by (simp add: sol_fbp_parse_def parse_stmt_list_def stmt_loop.simps parse_stmt_def peek_token_def next_token_def parser_init_def
      no_fbp_token_def scan_minus printed_bytes_def SOL_FBP_TOKEN_PRINT_def)

end
