(* ===== verification/Fbp_Round_Trip.thy ===== *)
theory Fbp_Round_Trip
  imports Fbp_Parser
begin

text \<open>
  The language of flows from its other side: descriptions of nodes with options and of connections
  are written as text, and the parser makes exactly these nodes and connections of it.
\<close>

section \<open>Descriptions and their text\<close>

text \<open>A name, a type and options; the numbers of two nodes with a port of each, which may have an index.\<close>

type_synonym node_decl = "byte list \<times> byte list \<times> (byte list \<times> byte list) list"

type_synonym port_decl = "byte list \<times> nat option"

type_synonym conn_decl = "nat \<times> port_decl \<times> port_decl \<times> nat"

type_synonym lexeme = "sol_fbp_token_type \<times> byte list"

definition node_name :: "node_decl list \<Rightarrow> nat \<Rightarrow> byte list" where
  "node_name ns i = fst (ns ! i)"

fun metas_text :: "byte \<Rightarrow> (byte list \<times> byte list) list \<Rightarrow> byte list" where
  "metas_text c [] = []"
| "metas_text c ((k, v) # ms) = c # k @ ascii CHR ''='' # v @ metas_text (ascii CHR '','') ms"

definition node_text :: "node_decl \<Rightarrow> byte list" where
  "node_text d = (case d of (name, component, ms) \<Rightarrow>
     name @ ascii CHR ''('' # component @ metas_text (ascii CHR '':'') ms @ [ascii CHR '')'', 10])"

definition port_text :: "port_decl \<Rightarrow> byte list" where
  "port_text p = (case p of (name, None) \<Rightarrow> name | (name, Some k) \<Rightarrow> name @ ascii CHR ''['' # nat_digits k @ [ascii CHR '']''])"

definition conn_text :: "node_decl list \<Rightarrow> conn_decl \<Rightarrow> byte list" where
  "conn_text ns c = (case c of (i, p, q, j) \<Rightarrow>
     node_name ns i @ 32 # port_text p @ 32 # ascii CHR ''-'' # ascii CHR ''>'' # 32 # port_text q @ 32 # node_name ns j @ [10])"

definition fbp_text :: "node_decl list \<Rightarrow> conn_decl list \<Rightarrow> byte list" where
  "fbp_text ns cs = concat (map node_text ns) @ concat (map (conn_text ns) cs)"

text \<open>What can be written: identifiers that are no keywords, different names, keys and connections.\<close>

definition ident :: "byte list \<Rightarrow> bool" where
  "ident w \<longleftrightarrow> w \<noteq> [] \<and> hd w \<noteq> ascii CHR ''-'' \<and> list_all is_node_ident w \<and> map_of keyword_table w = None"

definition meta_word :: "byte list \<Rightarrow> bool" where
  "meta_word w \<longleftrightarrow> w \<noteq> [] \<and> hd w \<noteq> ascii CHR '':'' \<and> list_all is_meta_ident w"

definition node_decl_ok :: "node_decl \<Rightarrow> bool" where
  "node_decl_ok d \<longleftrightarrow> (case d of (name, component, ms) \<Rightarrow>
     ident name \<and> name \<noteq> [ascii CHR ''_''] \<and> component \<noteq> [] \<and> list_all is_component_ident component \<and>
     list_all (\<lambda>(k, v). meta_word k \<and> meta_word v) ms \<and> distinct (map fst ms) \<and> length ms \<le> UINT16_MAX)"

definition port_decl_ok :: "port_decl \<Rightarrow> bool" where
  "port_decl_ok p \<longleftrightarrow> ident (fst p) \<and> (\<forall>k. snd p = Some k \<longrightarrow> k \<le> UINT16_MAX)"

definition conn_decl_ok :: "node_decl list \<Rightarrow> conn_decl \<Rightarrow> bool" where
  "conn_decl_ok ns c \<longleftrightarrow> (case c of (i, p, q, j) \<Rightarrow> i < length ns \<and> j < length ns \<and> port_decl_ok p \<and> port_decl_ok q)"

definition flow_ok :: "node_decl list \<Rightarrow> conn_decl list \<Rightarrow> bool" where
  "flow_ok ns cs \<longleftrightarrow> list_all node_decl_ok ns \<and> distinct (map fst ns) \<and> length ns \<le> UINT16_MAX \<and>
     list_all (conn_decl_ok ns) cs \<and> distinct cs \<and> length cs \<le> UINT16_MAX"

section \<open>The tokens of a text\<close>

definition tok_is :: "byte list \<Rightarrow> sol_fbp_token \<Rightarrow> lexeme \<Rightarrow> bool" where
  "tok_is inp t x \<longleftrightarrow> fbp_type t = fst x \<and> token_slice inp t = snd x"

fun scan_toks :: "byte list \<Rightarrow> sol_fbp_scanner \<Rightarrow> lexeme list \<Rightarrow> sol_fbp_scanner \<Rightarrow> bool" where
  "scan_toks inp s [] s' \<longleftrightarrow> s = s'"
| "scan_toks inp s (x # xs) s' \<longleftrightarrow> (\<exists>s1. sol_fbp_scan_token inp s = Some s1 \<and> tok_is inp (fs_token s1) x \<and> scan_toks inp s1 xs s')"

text \<open>The scanner is in front of \<open>rest\<close>; it is about to deliver a token.\<close>

definition at_text :: "byte list \<Rightarrow> fbp_state \<Rightarrow> byte list \<Rightarrow> sol_fbp_scanner \<Rightarrow> bool" where
  "at_text inp st rest s \<longleftrightarrow> fs_state s = st \<and> tok_end s \<le> length inp \<and> drop (tok_end s) inp = rest \<and> \<not> final_type (tok_type s)"

definition in_loop :: "byte list \<Rightarrow> fbp_state \<Rightarrow> byte list \<Rightarrow> sol_fbp_scanner \<Rightarrow> bool" where
  "in_loop inp st rest s \<longleftrightarrow> at_text inp st rest s \<and> tok_start s = tok_end s \<and> tok_type s = SOL_FBP_TOKEN_NONE"

definition lex1 :: "fbp_state \<Rightarrow> byte list \<Rightarrow> lexeme \<Rightarrow> fbp_state \<Rightarrow> byte list \<Rightarrow> bool" where
  "lex1 st body x st' rest \<longleftrightarrow> (\<forall>inp s. in_loop inp st body s \<longrightarrow>
     (\<exists>s'. scan_loop inp s = Some s' \<and> tok_is inp (fs_token s') x \<and> at_text inp st' rest s'))"

definition lex :: "fbp_state \<Rightarrow> byte list \<Rightarrow> lexeme list \<Rightarrow> fbp_state \<Rightarrow> byte list \<Rightarrow> bool" where
  "lex st body ts st' rest \<longleftrightarrow> (\<forall>inp s. at_text inp st body s \<longrightarrow> (\<exists>s'. scan_toks inp s ts s' \<and> at_text inp st' rest s'))"

lemma scan_toks_append: "scan_toks inp s (ts @ us) s' \<longleftrightarrow> (\<exists>s1. scan_toks inp s ts s1 \<and> scan_toks inp s1 us s')"
  by (induction ts arbitrary: s) auto

lemma lex_Nil: "lex st body [] st body"
  by (simp add: lex_def)

lemma lex_append: "lex st body ts st' mid \<Longrightarrow> lex st' mid us st'' rest \<Longrightarrow> lex st body (ts @ us) st'' rest"
  unfolding lex_def scan_toks_append by blast

lemma lex_Cons:
  assumes "lex1 st body x st' mid" and "lex st' mid ts st'' rest"
  shows "lex st body (x # ts) st'' rest"
  unfolding lex_def
proof (intro allI impI)
  fix inp s assume s: "at_text inp st body s"
  let ?s = "set_token SOL_FBP_TOKEN_NONE (ignore s)"
  have "in_loop inp st body ?s" using s by (auto simp: in_loop_def at_text_def ignore_def set_token_def)
  then obtain s1 where s1: "scan_loop inp ?s = Some s1" "tok_is inp (fs_token s1) x" "at_text inp st' mid s1"
    using assms(1) by (auto simp: lex1_def)
  then show "\<exists>s'. scan_toks inp s (x # ts) s' \<and> at_text inp st'' rest s'"
    using assms(2) s by (auto simp: lex_def sol_fbp_scan_token_def at_text_def)
qed

lemma peek_at: "drop (tok_end s) inp = c # r \<Longrightarrow> peek inp s = c \<and> tok_end s < length inp \<and> drop (Suc (tok_end s)) inp = r"
  by (metis Cons_nth_drop_Suc drop_eq_Nil2 linorder_not_le list.distinct(1) list.inject peek_def)

lemma skip_while_word:
  assumes "drop (tok_end s) inp = w @ rest" and "list_all P w" and "rest = [] \<or> \<not> P (hd rest)"
  shows "tok_end (skip_while P inp s) = tok_end s + length w"
  using assms
proof (induction w arbitrary: s)
  case Nil
  then have "\<not> (tok_end s < length inp \<and> P (peek inp s))" using peek_at [of s inp "hd rest" "tl rest"] by (cases rest) auto
  then show ?case by (subst skip_while.simps) auto
next
  case (Cons c w)
  have p: "peek inp s = c" "tok_end s < length inp" "drop (Suc (tok_end s)) inp = w @ rest"
    using peek_at [of s inp c "w @ rest"] Cons.prems(1) by auto
  then have "tok_end (skip_while P inp (skip_char inp s)) = tok_end (skip_char inp s) + length w"
    using Cons.prems by (intro Cons.IH) auto
  then show ?case using p Cons.prems(2) by (subst skip_while.simps) auto
qed

subsection \<open>Single tokens\<close>

lemma in_loop_state: "in_loop inp st body s \<Longrightarrow> in_loop inp st' body (s\<lparr>fs_state := st'\<rparr>)"
  by (simp add: in_loop_def at_text_def)

lemma lex1_char:
  assumes run: "\<And>inp s. peek inp s = c \<Longrightarrow> run_state inp st s = Some (st', set_token ty (skip_char inp s))"
    and ty: "ty \<noteq> SOL_FBP_TOKEN_NONE" "\<not> final_type ty"
  shows "lex1 st (c # rest) (ty, [c]) st' rest"
  unfolding lex1_def
proof (intro allI impI)
  fix inp s assume s: "in_loop inp st (c # rest) s"
  then have d: "drop (tok_end s) inp = c # rest" "fs_state s = st" "tok_start s = tok_end s" by (simp_all add: in_loop_def at_text_def)
  note p = peek_at [OF d(1)]
  let ?s = "(set_token ty (skip_char inp s))\<lparr>fs_state := st'\<rparr>"
  have "scan_loop inp s = Some ?s" using run [of inp s] p d(2) ty by (subst scan_loop.simps) simp
  moreover have "tok_is inp (fs_token ?s) (ty, [c])" using p d by (simp add: tok_is_def token_slice_def)
  moreover have "at_text inp st' rest ?s" using p ty by (simp add: at_text_def)
  ultimately show "\<exists>s'. scan_loop inp s = Some s' \<and> tok_is inp (fs_token s') (ty, [c]) \<and> at_text inp st' rest s'" by blast
qed

lemma lex1_word:
  assumes run: "\<And>inp s. run_state inp st s = Some (st', set_token ty (skip_while P inp s))"
    and ty: "ty \<noteq> SOL_FBP_TOKEN_NONE" "\<not> final_type ty" and w: "list_all P w" "rest = [] \<or> \<not> P (hd rest)"
  shows "lex1 st (w @ rest) (ty, w) st' rest"
  unfolding lex1_def
proof (intro allI impI)
  fix inp s assume s: "in_loop inp st (w @ rest) s"
  then have d: "drop (tok_end s) inp = w @ rest" "fs_state s = st" "tok_start s = tok_end s" "tok_end s \<le> length inp"
    by (simp_all add: in_loop_def at_text_def)
  let ?s = "(set_token ty (skip_while P inp s))\<lparr>fs_state := st'\<rparr>"
  have e: "tok_end (skip_while P inp s) = tok_end s + length w" by (rule skip_while_word [OF d(1) w])
  have f: "tok_start (skip_while P inp s) = tok_start s" "tok_end (skip_while P inp s) \<le> length inp" using skip_while_facts [of P inp s] d(4) by simp_all
  have "scan_loop inp s = Some ?s" using run [of inp s] d(2) ty by (subst scan_loop.simps) simp
  moreover have "tok_is inp (fs_token ?s) (ty, w)" using e f(1) d by (simp add: tok_is_def token_slice_def)
  moreover have "drop (tok_end s + length w) inp = rest" using d(1) by (metis add.commute append_eq_conv_conj drop_drop)
  then have "at_text inp st' rest ?s" using e f ty by (simp add: at_text_def)
  ultimately show "\<exists>s'. scan_loop inp s = Some s' \<and> tok_is inp (fs_token s') (ty, w) \<and> at_text inp st' rest s'" by blast
qed

text \<open>A state that does nothing but choose the next one, which sees the same body.\<close>

lemma lex1_choose:
  assumes run: "\<And>inp s. peek inp s = c \<Longrightarrow> run_state inp st s = Some (st1, s)" and next_state: "lex1 st1 (c # body) x st' rest"
  shows "lex1 st (c # body) x st' rest"
  unfolding lex1_def
proof (intro allI impI)
  fix inp s assume s: "in_loop inp st (c # body) s"
  have "scan_loop inp s = scan_loop inp (s\<lparr>fs_state := st1\<rparr>)"
    using run [of inp s] s peek_at [of s inp c body] by (subst scan_loop.simps) (simp add: in_loop_def at_text_def)
  then show "\<exists>s'. scan_loop inp s = Some s' \<and> tok_is inp (fs_token s') x \<and> at_text inp st' rest s'"
    using next_state in_loop_state [OF s] by (simp add: lex1_def)
qed

lemma lex1_space:
  assumes "lex1 Default_state body x st' rest" and "body = [] \<or> \<not> isblank (hd body)"
  shows "lex1 Default_state (32 # body) x st' rest"
proof (rule lex1_choose [where ?st1.0 = Space_state])
  show "lex1 Space_state (32 # body) x st' rest"
    unfolding lex1_def
  proof (intro allI impI)
    fix inp s assume s: "in_loop inp Space_state (32 # body) s"
    let ?s = "(ignore (skip_while isblank inp s))\<lparr>fs_state := Default_state\<rparr>"
    have d: "drop (tok_end s) inp = [32] @ body" "tok_end s \<le> length inp" using s by (simp_all add: in_loop_def at_text_def)
    have e: "tok_end (skip_while isblank inp s) = tok_end s + length [32 :: byte]"
      by (rule skip_while_word [of s inp _ _ isblank, OF d(1) _ assms(2)]) (simp add: isblank_def)
    note f = skip_while_facts [of isblank inp s]
    have "drop (Suc (tok_end s)) inp = body" using d(1) peek_at [of s inp 32 body] by simp
    then have "in_loop inp Default_state body ?s" using s e f d(2) by (simp add: in_loop_def at_text_def)
    moreover have "scan_loop inp s = scan_loop inp ?s"
      using s f by (subst scan_loop.simps) (simp add: in_loop_def at_text_def space_state_def)
    ultimately show "\<exists>s'. scan_loop inp s = Some s' \<and> tok_is inp (fs_token s') x \<and> at_text inp st' rest s'"
      using assms(1) by (simp add: lex1_def)
  qed
qed (simp add: default_state_def)

lemma lex1_ident:
  assumes "ident w" and "rest = [] \<or> \<not> is_node_ident (hd rest)"
  shows "lex1 Default_state (w @ rest) (SOL_FBP_TOKEN_IDENTIFIER, w) Default_state rest"
proof -
  obtain c v where w: "w = c # v" "is_node_ident c" "c \<noteq> ascii CHR ''-''" using assms(1) by (cases w) (auto simp: ident_def)
  have "run_state inp Default_state s = Some (Identifier_or_keyword_state, s)" if "peek inp s = c" for inp s
    using that w(2,3) by (auto simp: default_state_def is_node_ident_def isalnum_def isdigit_def)
  moreover have "lex1 Identifier_or_keyword_state (w @ rest) (SOL_FBP_TOKEN_IDENTIFIER, w) Default_state rest"
    unfolding lex1_def
  proof (intro allI impI)
    fix inp s assume s: "in_loop inp Identifier_or_keyword_state (w @ rest) s"
    then have d: "drop (tok_end s) inp = w @ rest" "fs_state s = Identifier_or_keyword_state" "tok_start s = tok_end s" "tok_end s \<le> length inp" "tok_type s = SOL_FBP_TOKEN_NONE"
      by (simp_all add: in_loop_def at_text_def)
    let ?t = "skip_while is_node_ident inp s"
    have e: "tok_end ?t = tok_end s + length w" by (rule skip_while_word [of s inp _ _ is_node_ident, OF d(1) _ assms(2)]) (use assms(1) in \<open>simp add: ident_def\<close>)
    note f = skip_while_facts [of is_node_ident inp s]
    have sl: "token_slice inp (fs_token ?t) = w" using e f d by (simp add: token_slice_def)
    let ?s = "(set_token SOL_FBP_TOKEN_IDENTIFIER (?t\<lparr>fs_state := Identifier_state\<rparr>))\<lparr>fs_state := Default_state\<rparr>"
    have "scan_loop inp s = scan_loop inp (?t\<lparr>fs_state := Identifier_state\<rparr>)"
      using d sl assms(1) f by (subst scan_loop.simps) (simp add: identifier_or_keyword_state_def Let_def ident_def)
    also have "\<dots> = Some ?s" by (subst scan_loop.simps) (simp add: identifier_state_def)
    finally have "scan_loop inp s = Some ?s" .
    moreover have "tok_is inp (fs_token ?s) (SOL_FBP_TOKEN_IDENTIFIER, w)" using e f d by (simp add: tok_is_def token_slice_def)
    moreover have "drop (tok_end s + length w) inp = rest" using d(1) by (metis add.commute append_eq_conv_conj drop_drop)
    then have "at_text inp Default_state rest ?s" using e f d(4) by (simp add: at_text_def)
    ultimately show "\<exists>s'. scan_loop inp s = Some s' \<and> tok_is inp (fs_token s') (SOL_FBP_TOKEN_IDENTIFIER, w) \<and> at_text inp Default_state rest s'" by blast
  qed
  ultimately show ?thesis using w(1) lex1_choose by fastforce
qed

lemma lex1_arrow: "lex1 Default_state (ascii CHR ''-'' # ascii CHR ''>'' # rest) (SOL_FBP_TOKEN_ARROW, map ascii ''->'') Default_state rest"
proof (rule lex1_choose [where ?st1.0 = Arrow_state])
  show "lex1 Arrow_state (ascii CHR ''-'' # ascii CHR ''>'' # rest) (SOL_FBP_TOKEN_ARROW, map ascii ''->'') Default_state rest"
    unfolding lex1_def
  proof (intro allI impI)
    fix inp s assume s: "in_loop inp Arrow_state (ascii CHR ''-'' # ascii CHR ''>'' # rest) s"
    then have d: "drop (tok_end s) inp = ascii CHR ''-'' # ascii CHR ''>'' # rest" "fs_state s = Arrow_state" "tok_start s = tok_end s"
      by (simp_all add: in_loop_def at_text_def)
    let ?u = "skip_char inp s"
    let ?s = "(set_token SOL_FBP_TOKEN_ARROW (skip_char inp ?u))\<lparr>fs_state := Default_state\<rparr>"
    note p = peek_at [OF d(1)]
    then have u: "tok_end ?u = Suc (tok_end s)" "drop (tok_end ?u) inp = ascii CHR ''>'' # rest" by simp_all
    note q = peek_at [OF u(2)]
    obtain t where t: "next_char inp ?u = (ascii CHR ''>'', t)" using q by (metis prod.collapse skip_char_simps(4))
    then have "scan_loop inp s = Some ?s"
      using d(2) by (subst scan_loop.simps) (simp add: arrow_state_def one_char_def)
    moreover have "tok_is inp (fs_token ?s) (SOL_FBP_TOKEN_ARROW, map ascii ''->'')" using p q u d by (simp add: tok_is_def token_slice_def)
    moreover have "at_text inp Default_state rest ?s" using p q u by (simp add: at_text_def)
    ultimately show "\<exists>s'. scan_loop inp s = Some s' \<and> tok_is inp (fs_token s') (SOL_FBP_TOKEN_ARROW, map ascii ''->'') \<and> at_text inp Default_state rest s'" by blast
  qed
qed (simp add: default_state_def)

lemma default_chars:
  "lex1 Default_state (10 # rest) (SOL_FBP_TOKEN_STMT_SEPARATOR, [10]) Default_state rest"
  "lex1 Default_state (ascii CHR ''('' # rest) (SOL_FBP_TOKEN_PAREN_OPEN, [ascii CHR ''('']) Component_state rest"
  "lex1 Default_state (ascii CHR ''['' # rest) (SOL_FBP_TOKEN_BRACKET_OPEN, [ascii CHR ''['']) Port_array_state rest"
  "lex1 Port_array_state (ascii CHR '']'' # rest) (SOL_FBP_TOKEN_BRACKET_CLOSE, [ascii CHR '']'']) Default_state rest"
  "lex1 Meta_state (ascii CHR '':'' # rest) (SOL_FBP_TOKEN_COLON, [ascii CHR '':'']) Meta_state rest"
  "lex1 Meta_state (ascii CHR '','' # rest) (SOL_FBP_TOKEN_COMMA, [ascii CHR '','']) Meta_state rest"
  "lex1 Meta_state (ascii CHR ''='' # rest) (SOL_FBP_TOKEN_EQUAL, [ascii CHR ''='']) Meta_state rest"
  "lex1 Meta_state (ascii CHR '')'' # rest) (SOL_FBP_TOKEN_PAREN_CLOSE, [ascii CHR '')'']) Default_state rest"
  by (rule lex1_char; simp add: default_state_def port_array_state_def meta_state_def)+

lemma lex1_component:
  "list_all is_component_ident w \<Longrightarrow> rest = [] \<or> \<not> is_component_ident (hd rest) \<Longrightarrow>
   lex1 Component_state (w @ rest) (SOL_FBP_TOKEN_IDENTIFIER, w) Meta_state rest"
  by (rule lex1_word [where P = is_component_ident]) (simp_all add: component_state_def ident_token_def)

lemma lex1_meta_word:
  assumes "meta_word w" and "rest = [] \<or> \<not> is_meta_ident (hd rest)"
  shows "lex1 Meta_state (w @ rest) (SOL_FBP_TOKEN_IDENTIFIER, w) Meta_state rest"
proof -
  obtain c v where w: "w = c # v" "is_meta_ident c" "c \<noteq> ascii CHR '':''" using assms(1) by (cases w) (auto simp: meta_word_def)
  have "run_state inp Meta_state s = Some (Meta_item_state, s)" if "peek inp s = c" for inp s
    using that w(2,3) by (auto simp: meta_state_def is_meta_ident_def isalnum_def isdigit_def)
  moreover have "lex1 Meta_item_state (w @ rest) (SOL_FBP_TOKEN_IDENTIFIER, w) Meta_state rest"
    by (rule lex1_word [where P = is_meta_ident]) (use assms in \<open>simp_all add: meta_item_state_def ident_token_def meta_word_def\<close>)
  ultimately show ?thesis using w(1) lex1_choose by fastforce
qed

lemma lex1_index:
  assumes "list_all isdigit ds" and "ds \<noteq> []"
  shows "lex1 Port_array_state (ds @ ascii CHR '']'' # rest) (SOL_FBP_TOKEN_INTEGER, ds) Port_array_state (ascii CHR '']'' # rest)"
proof -
  obtain c v where w: "ds = c # v" "isdigit c" using assms by (cases ds) auto
  have "run_state inp Port_array_state s = Some (Port_index_state, s)" if "peek inp s = c" for inp s
    using that w(2) by (auto simp: port_array_state_def isdigit_def)
  moreover have "lex1 Port_index_state (ds @ ascii CHR '']'' # rest) (SOL_FBP_TOKEN_INTEGER, ds) Port_array_state (ascii CHR '']'' # rest)"
    by (rule lex1_word [where P = isdigit]) (use assms in \<open>simp_all add: port_index_state_def isdigit_def\<close>)
  ultimately show ?thesis using w(1) lex1_choose by fastforce
qed

lemma nat_digits_digits: "list_all isdigit (nat_digits n) \<and> nat_digits n \<noteq> []"
proof (induction n rule: nat_digits.induct)
  case (1 n)
  have d: "isdigit (of_nat (48 + k))" if "k < 10" for k
    using that by (simp add: isdigit_def word_le_nat_alt unat_of_nat del: of_nat_add)
  show ?case using 1 d [of n] d [of "n mod 10"] by (subst (1 2) nat_digits.simps) (auto simp del: of_nat_add)
qed

subsection \<open>Statements\<close>

fun metas_toks :: "lexeme \<Rightarrow> (byte list \<times> byte list) list \<Rightarrow> lexeme list" where
  "metas_toks x [] = []"
| "metas_toks x ((k, v) # ms) =
     x # (SOL_FBP_TOKEN_IDENTIFIER, k) # (SOL_FBP_TOKEN_EQUAL, [ascii CHR ''='']) # (SOL_FBP_TOKEN_IDENTIFIER, v) #
     metas_toks (SOL_FBP_TOKEN_COMMA, [ascii CHR '','']) ms"

definition node_toks :: "node_decl \<Rightarrow> lexeme list" where
  "node_toks d = (case d of (name, component, ms) \<Rightarrow>
     (SOL_FBP_TOKEN_IDENTIFIER, name) # (SOL_FBP_TOKEN_PAREN_OPEN, [ascii CHR ''('']) # (SOL_FBP_TOKEN_IDENTIFIER, component) #
     metas_toks (SOL_FBP_TOKEN_COLON, [ascii CHR '':'']) ms @ [(SOL_FBP_TOKEN_PAREN_CLOSE, [ascii CHR '')'']), (SOL_FBP_TOKEN_STMT_SEPARATOR, [10])])"

definition port_toks :: "port_decl \<Rightarrow> lexeme list" where
  "port_toks p = (SOL_FBP_TOKEN_IDENTIFIER, fst p) # (case snd p of None \<Rightarrow> []
     | Some k \<Rightarrow> [(SOL_FBP_TOKEN_BRACKET_OPEN, [ascii CHR ''['']), (SOL_FBP_TOKEN_INTEGER, nat_digits k), (SOL_FBP_TOKEN_BRACKET_CLOSE, [ascii CHR '']''])])"

definition conn_toks :: "node_decl list \<Rightarrow> conn_decl \<Rightarrow> lexeme list" where
  "conn_toks ns c = (case c of (i, p, q, j) \<Rightarrow>
     (SOL_FBP_TOKEN_IDENTIFIER, node_name ns i) # port_toks p @ (SOL_FBP_TOKEN_ARROW, map ascii ''->'') #
     port_toks q @ [(SOL_FBP_TOKEN_IDENTIFIER, node_name ns j), (SOL_FBP_TOKEN_STMT_SEPARATOR, [10])])"

lemma not_ident_chars [simp]:
  "\<not> is_node_ident 32" "\<not> is_node_ident 10" "\<not> is_node_ident 40" "\<not> is_node_ident 91" "\<not> is_component_ident 58" "\<not> is_component_ident 41"
  "\<not> is_meta_ident 61" "\<not> is_meta_ident 44" "\<not> is_meta_ident 41"
  by (simp_all add: is_node_ident_def is_component_ident_def is_meta_ident_def isalnum_def isdigit_def)

lemma ident_not_blank: "ident w \<Longrightarrow> w @ rest = [] \<or> \<not> isblank (hd (w @ rest))"
  by (cases w) (auto simp: ident_def is_node_ident_def isalnum_def isdigit_def isblank_def)

lemma lex_spaced_port:
  assumes "port_decl_ok p"
  shows "lex Default_state (32 # port_text p @ 32 # rest) (port_toks p) Default_state (32 # rest)"
proof -
  obtain n k where p: "p = (n, k)" by fastforce
  have n: "ident n" using assms p by (simp add: port_decl_ok_def)
  note space = lex1_space [OF lex1_ident [OF n] ident_not_blank [OF n]]
  show ?thesis
  proof (cases k)
    case None
    then show ?thesis using lex_Cons [OF space [of "32 # rest"] lex_Nil] p by (simp add: port_text_def port_toks_def)
  next
    case (Some i)
    note d = nat_digits_digits [of i]
    have "lex Default_state (ascii CHR ''['' # nat_digits i @ ascii CHR '']'' # 32 # rest)
      [(SOL_FBP_TOKEN_BRACKET_OPEN, [ascii CHR ''['']), (SOL_FBP_TOKEN_INTEGER, nat_digits i), (SOL_FBP_TOKEN_BRACKET_CLOSE, [ascii CHR '']''])]
      Default_state (32 # rest)"
      by (rule lex_Cons [OF default_chars(3)], rule lex_Cons [OF lex1_index], use d in simp, use d in simp, rule lex_Cons [OF default_chars(4) lex_Nil])
    from lex_Cons [OF space this] show ?thesis using p Some by (simp add: port_text_def port_toks_def)
  qed
qed

lemma lex_metas:
  assumes "list_all (\<lambda>(k, v). meta_word k \<and> meta_word v) ms"
    and "\<And>rest. lex1 Meta_state (c # rest) x Meta_state rest"
  shows "lex Meta_state (metas_text c ms @ ascii CHR '')'' # rest) (metas_toks x ms) Meta_state (ascii CHR '')'' # rest)"
  using assms
proof (induction c ms arbitrary: x rule: metas_text.induct)
  case (2 c k v ms)
  have w: "meta_word k" "meta_word v" "list_all (\<lambda>(k, v). meta_word k \<and> meta_word v) ms" using "2.prems"(1) by simp_all
  have hd: "(metas_text (ascii CHR '','') ms @ ascii CHR '')'' # rest) = [] \<or> \<not> is_meta_ident (hd (metas_text (ascii CHR '','') ms @ ascii CHR '')'' # rest))"
    by (cases ms) auto
  have "lex Meta_state (c # k @ ascii CHR ''='' # v @ metas_text (ascii CHR '','') ms @ ascii CHR '')'' # rest)
    (metas_toks x ((k, v) # ms)) Meta_state (ascii CHR '')'' # rest)"
    unfolding metas_toks.simps
    by (rule lex_Cons [OF "2.prems"(2)], rule lex_Cons [OF lex1_meta_word [OF w(1)]], simp, rule lex_Cons [OF default_chars(7)],
        rule lex_Cons [OF lex1_meta_word [OF w(2) hd]], rule "2.IH" [OF w(3) default_chars(6)])
  then show ?case by simp
qed (simp add: lex_Nil)

lemma lex_node:
  assumes "node_decl_ok d"
  shows "lex Default_state (node_text d @ rest) (node_toks d) Default_state rest"
proof -
  obtain n c ms where d: "d = (n, c, ms)" by (metis prod_cases3)
  have ok: "ident n" "list_all is_component_ident c" "list_all (\<lambda>(k, v). meta_word k \<and> meta_word v) ms"
    using assms d by (simp_all add: node_decl_ok_def)
  have hd: "(metas_text (ascii CHR '':'') ms @ ascii CHR '')'' # 10 # rest) = [] \<or> \<not> is_component_ident (hd (metas_text (ascii CHR '':'') ms @ ascii CHR '')'' # 10 # rest))"
    by (cases ms) auto
  have "lex Default_state (n @ ascii CHR ''('' # c @ metas_text (ascii CHR '':'') ms @ ascii CHR '')'' # 10 # rest) (node_toks d) Default_state rest"
    unfolding d node_toks_def prod.case
    by (rule lex_Cons [OF lex1_ident [OF ok(1)]], simp, rule lex_Cons [OF default_chars(2)], rule lex_Cons [OF lex1_component [OF ok(2) hd]],
        rule lex_append [OF lex_metas [OF ok(3) default_chars(5)]], rule lex_Cons [OF default_chars(8)], rule lex_Cons [OF default_chars(1) lex_Nil])
  then show ?thesis by (simp add: d node_text_def)
qed

lemma node_decl_ident: "node_decl_ok d \<Longrightarrow> ident (fst d)"
  by (auto simp: node_decl_ok_def)

lemma lex_conn:
  assumes "conn_decl_ok ns c" and "list_all node_decl_ok ns"
  shows "lex Default_state (conn_text ns c @ rest) (conn_toks ns c) Default_state rest"
proof -
  obtain i p q j where c: "c = (i, p, q, j)" by (metis prod_cases4)
  have ok: "i < length ns" "j < length ns" "port_decl_ok p" "port_decl_ok q" using assms(1) c by (simp_all add: conn_decl_ok_def)
  have id: "ident (node_name ns i)" "ident (node_name ns j)"
    using assms(2) ok(1,2) node_decl_ident by (simp_all add: node_name_def list_all_length)
  have "lex Default_state (node_name ns i @ 32 # port_text p @ 32 # ascii CHR ''-'' # ascii CHR ''>'' # 32 # port_text q @ 32 # node_name ns j @ 10 # rest)
    (conn_toks ns c) Default_state rest"
    unfolding c conn_toks_def prod.case
    by (rule lex_Cons [OF lex1_ident [OF id(1)]], simp, rule lex_append [OF lex_spaced_port [OF ok(3)]], rule lex_Cons [OF lex1_space [OF lex1_arrow]],
        simp add: isblank_def, rule lex_append [OF lex_spaced_port [OF ok(4)]], rule lex_Cons [OF lex1_space [OF lex1_ident [OF id(2)] ident_not_blank [OF id(2)]]], simp,
        rule lex_Cons [OF default_chars(1) lex_Nil])
  then show ?thesis by (simp add: c conn_text_def)
qed

lemma lex_concat: "(\<And>x rest. x \<in> set xs \<Longrightarrow> lex st (f x @ rest) (g x) st rest) \<Longrightarrow> lex st (concat (map f xs) @ rest) (concat (map g xs)) st rest"
proof (induction xs)
  case (Cons x xs)
  have "lex st (f x @ concat (map f xs) @ rest) (g x @ concat (map g xs)) st rest"
    by (rule lex_append [OF Cons.prems Cons.IH]) (use Cons.prems in auto)
  then show ?case by simp
qed (simp add: lex_Nil)

definition flow_toks :: "node_decl list \<Rightarrow> conn_decl list \<Rightarrow> lexeme list" where
  "flow_toks ns cs = concat (map node_toks ns) @ concat (map (conn_toks ns) cs)"

lemma lex_flow:
  assumes "flow_ok ns cs"
  shows "lex Default_state (fbp_text ns cs) (flow_toks ns cs) Default_state []"
proof -
  have ok: "list_all node_decl_ok ns" "list_all (conn_decl_ok ns) cs" using assms by (simp_all add: flow_ok_def)
  have "lex Default_state (concat (map node_text ns) @ concat (map (conn_text ns) cs)) (concat (map node_toks ns)) Default_state (concat (map (conn_text ns) cs))"
    by (rule lex_concat) (use ok(1) in \<open>auto simp: list_all_iff intro: lex_node\<close>)
  moreover have "lex Default_state (concat (map (conn_text ns) cs) @ []) (concat (map (conn_toks ns) cs)) Default_state []"
    by (rule lex_concat) (use ok in \<open>auto simp: list_all_iff intro: lex_conn\<close>)
  ultimately show ?thesis using lex_append by (fastforce simp: fbp_text_def flow_toks_def)
qed

lemma scan_flow:
  assumes "flow_ok ns cs"
  shows "\<exists>s'. scan_toks (fbp_text ns cs) sol_fbp_scanner_init (flow_toks ns cs @ [(SOL_FBP_TOKEN_EOF, [])]) s'"
proof -
  have "at_text (fbp_text ns cs) Default_state (fbp_text ns cs) sol_fbp_scanner_init" by (simp add: at_text_def sol_fbp_scanner_init_def)
  then obtain s where s: "scan_toks (fbp_text ns cs) sol_fbp_scanner_init (flow_toks ns cs) s" "at_text (fbp_text ns cs) Default_state [] s"
    using lex_flow [OF assms] by (auto simp: lex_def)
  let ?u = "set_token SOL_FBP_TOKEN_NONE (ignore s)"
  have "fs_state ?u = Default_state" "peek (fbp_text ns cs) ?u = 0" using s(2) by (auto simp: at_text_def ignore_def peek_def)
  then have "scan_loop (fbp_text ns cs) ?u = Some ((set_token SOL_FBP_TOKEN_EOF ?u)\<lparr>fs_state := Null_state\<rparr>)"
    by (subst scan_loop.simps) (simp add: default_state_def)
  then have "scan_toks (fbp_text ns cs) s [(SOL_FBP_TOKEN_EOF, [])] ((set_token SOL_FBP_TOKEN_EOF ?u)\<lparr>fs_state := Null_state\<rparr>)"
    using s(2) by (simp add: sol_fbp_scan_token_def at_text_def tok_is_def token_slice_def)
  then show ?thesis using s(1) scan_toks_append by blast
qed

section \<open>The graph of a flow\<close>

definition node_decl_of :: "sol_fbp_node \<Rightarrow> node_decl" where
  "node_decl_of n = (fn_name n, fn_component n, map (\<lambda>m. (me_key m, me_value m)) (fn_meta n))"

definition port_index :: "port_decl \<Rightarrow> int" where
  "port_index p = (case snd p of None \<Rightarrow> - 1 | Some k \<Rightarrow> int k)"

definition decl_key :: "conn_decl \<Rightarrow> int \<times> byte list \<times> int \<times> int \<times> byte list \<times> int" where
  "decl_key c = (case c of (i, p, q, j) \<Rightarrow> (int i, fst p, port_index p, int j, fst q, port_index q))"

text \<open>The graph has these nodes and connections, in this order, and nothing else.\<close>

definition is_flow :: "node_decl list \<Rightarrow> conn_decl list \<Rightarrow> sol_fbp_graph \<Rightarrow> bool" where
  "is_flow ns cs g \<longleftrightarrow> map node_decl_of (g_nodes g) = ns \<and> map conn_key (g_conns g) = map decl_key cs \<and>
     g_exported_in_ports g = [] \<and> g_exported_out_ports g = [] \<and> g_declarations g = [] \<and> g_options g = []"

lemma is_flow_init: "is_flow [] [] (sol_fbp_graph_init l)"
  by (simp add: is_flow_def sol_fbp_graph_init_def)

lemma is_flow_length: "is_flow ns cs g \<Longrightarrow> length (g_nodes g) = length ns \<and> length (g_conns g) = length cs"
  by (auto simp: is_flow_def dest: map_eq_imp_length_eq)

lemma is_flow_nth: "is_flow ns cs g \<Longrightarrow> i < length ns \<Longrightarrow> node_decl_of (g_nodes g ! i) = ns ! i"
  by (auto simp: is_flow_def)

lemma is_flow_name: "is_flow ns cs g \<Longrightarrow> i < length ns \<Longrightarrow> fn_name (g_nodes g ! i) = node_name ns i"
  by (simp add: node_name_def is_flow_nth [symmetric] node_decl_of_def)

lemma flow_add_node:
  assumes "is_flow ns cs g" and "alloc_total l" and "length ns < UINT16_MAX" and "n \<notin> fst ` set ns" and "n \<noteq> [ascii CHR ''_'']"
  shows "\<exists>out g'. sol_fbp_graph_add_node l g n c pos = Some (Inr (length ns), out, g') \<and> is_flow (ns @ [(n, c, [])]) cs g'"
proof -
  note len = is_flow_length [OF assms(1)]
  have "n \<noteq> fn_name (g_nodes g ! i)" if "i < length ns" for i
    using is_flow_name [OF assms(1) that] assms(4) that by (auto simp: node_name_def)
  then have "first_index (\<lambda>m. fn_name m = n) (g_nodes g) = None"
    using len by (fastforce simp: first_index_None in_set_conv_nth)
  then show ?thesis
    using assms len by (simp add: sol_fbp_graph_add_node_def append_node_def vec_append_total is_flow_def node_decl_of_def)
qed

lemma flow_find_node:
  assumes "is_flow ns cs g" and "i < length ns" and "distinct (map fst ns)" and "node_name ns i \<noteq> [ascii CHR ''_'']"
  shows "sol_fbp_graph_add_node l g (node_name ns i) [] pos = Some (Inr i, None, g)"
proof -
  note len = is_flow_length [OF assms(1)]
  obtain k where k: "first_index (\<lambda>m. fn_name m = node_name ns i) (g_nodes g) = Some k"
  proof (cases "first_index (\<lambda>m. fn_name m = node_name ns i) (g_nodes g)")
    case None
    moreover have "g_nodes g ! i \<in> set (g_nodes g)" using assms(2) len by simp
    ultimately show ?thesis using is_flow_name [OF assms(1,2)] by (auto simp: first_index_None)
  qed
  have "k = i"
    using first_index_Some [OF k] is_flow_name [OF assms(1)] assms(2,3) len
    by (metis (no_types, lifting) length_map node_name_def nth_eq_iff_index_eq nth_map)
  then show ?thesis using k assms(4) by (simp add: sol_fbp_graph_add_node_def)
qed

lemma is_flow_set_node:
  assumes "is_flow ns cs g" and "i < length ns" and "node_decl_of n = d"
  shows "is_flow (ns[i := d]) cs (set_node i n g)"
  using assms by (auto simp: is_flow_def set_node_def map_update)

lemma flow_add_meta:
  assumes "is_flow ns cs g" and "alloc_total l" and "i < length ns" and "length ns \<le> UINT16_MAX"
    and "ns ! i = (n, c, ms)" and "k \<notin> fst ` set ms" and "length ms < UINT16_MAX"
  shows "\<exists>g'. sol_fbp_graph_add_meta l g (int i) k v pos = (Inr (), g') \<and> is_flow (ns[i := (n, c, ms @ [(k, v)])]) cs g'"
proof -
  let ?n = "g_nodes g ! i"
  have d: "node_decl_of ?n = (n, c, ms)" using is_flow_nth [OF assms(1,3)] assms(5) by simp
  have i: "index16 (int i) = i" using assms(3,4) by (intro index16_small [THEN trans]) simp_all
  have m: "map (\<lambda>m. (me_key m, me_value m)) (fn_meta ?n) = ms" using d by (simp add: node_decl_of_def)
  have "first_index (\<lambda>m. me_key m = k) (fn_meta ?n) = None" using assms(6) unfolding m [symmetric] first_index_None by (auto simp: image_image)
  moreover have "length (fn_meta ?n) < UINT16_MAX" using m assms(7) by auto
  moreover have "is_flow (ns[i := (n, c, ms @ [(k, v)])]) cs
      (set_node i (?n\<lparr>fn_meta := fn_meta ?n @ [\<lparr>me_position = pos, me_key = k, me_value = v\<rparr>]\<rparr>) g)"
    by (rule is_flow_set_node [OF assms(1,3)]) (use d in \<open>simp add: node_decl_of_def\<close>)
  ultimately show ?thesis
    using assms(2,3) is_flow_length [OF assms(1)] i by (simp add: sol_fbp_graph_add_meta_def vec_append_total Let_def)
qed

lemma is_flow_ports:
  assumes "is_flow ns cs g"
  shows "is_flow ns cs (snd (sol_fbp_graph_add_in_port l g node name pos))"
    and "is_flow ns cs (snd (sol_fbp_graph_add_out_port l g node name pos))"
proof -
  have same: "is_flow ns cs (set_node i n g)" if "i < length (g_nodes g)" "node_decl_of n = node_decl_of (g_nodes g ! i)" for i n
    using is_flow_set_node [OF assms, of i n "ns ! i"] that is_flow_nth [OF assms, of i] is_flow_length [OF assms] by simp
  show "is_flow ns cs (snd (sol_fbp_graph_add_in_port l g node name pos))"
    "is_flow ns cs (snd (sol_fbp_graph_add_out_port l g node name pos))"
    using assms by (auto simp: sol_fbp_graph_add_in_port_def sol_fbp_graph_add_out_port_def Let_def node_decl_of_def split: sum.split intro!: same)
qed

lemma decl_key_inj: "decl_key c = decl_key c' \<Longrightarrow> c = c'"
  by (auto simp: decl_key_def port_index_def split: prod.splits option.splits)

lemma flow_add_conn:
  assumes "is_flow ns cs g" and "alloc_total l" and "length cs < UINT16_MAX" and "(i, p, q, j) \<notin> set cs" and "fst p \<noteq> []" "fst q \<noteq> []"
  shows "\<exists>r g'. sol_fbp_graph_add_conn l g (int i) (fst p) (port_index p) (int j) (fst q) (port_index q) pos = (Inr r, g') \<and>
    is_flow ns (cs @ [(i, p, q, j)]) g'"
proof -
  let ?c = "\<lparr>cn_position = pos, cn_src = int i, cn_dst = int j, cn_src_port = fst p, cn_dst_port = fst q,
    cn_src_port_idx = port_index p, cn_dst_port_idx = port_index q\<rparr>"
  have key: "conn_key ?c = decl_key (i, p, q, j)" by (simp add: conn_key_def decl_key_def)
  have "conn_key ?c \<notin> conn_key ` set (g_conns g)"
  proof
    assume "conn_key ?c \<in> conn_key ` set (g_conns g)"
    then have "decl_key (i, p, q, j) \<in> set (map conn_key (g_conns g))" unfolding key by simp
    also have "map conn_key (g_conns g) = map decl_key cs" using assms(1) by (simp add: is_flow_def)
    finally have "decl_key (i, p, q, j) \<in> decl_key ` set cs" by simp
    then show False by (rule imageE) (use assms(4) decl_key_inj in blast)
  qed
  then have "first_index (same_conn ?c) (g_conns g) = None" by (auto simp: first_index_None same_conn_key)
  then show ?thesis
    using assms key is_flow_length [OF assms(1)] by (simp add: sol_fbp_graph_add_conn_def vec_append_total Let_def is_flow_def)
qed

section \<open>Parsing the tokens\<close>

text \<open>The tokens that the parser will see, the nodes and connections it has so far; nothing was wrong yet.\<close>

definition upcoming :: "byte list \<Rightarrow> lexeme list \<Rightarrow> sol_fbp_parser \<Rightarrow> bool" where
  "upcoming inp ts p \<longleftrightarrow>
     (if fbp_type (fp_pending p) = SOL_FBP_TOKEN_NONE then \<exists>s'. scan_toks inp (fp_scanner p) ts s'
      else ts \<noteq> [] \<and> tok_is inp (fp_pending p) (hd ts) \<and> (\<exists>s'. scan_toks inp (fp_scanner p) (tl ts) s'))"

definition parsing :: "byte list \<Rightarrow> lexeme list \<Rightarrow> node_decl list \<Rightarrow> conn_decl list \<Rightarrow> sol_fbp_parser \<Rightarrow> bool" where
  "parsing inp ts ns cs p \<longleftrightarrow> upcoming inp ts p \<and> is_flow ns cs (fp_graph p) \<and> fp_error_msg p = None"

lemma next_parsing:
  assumes "parsing inp ((t, w) # ts) ns cs p" and "t \<noteq> SOL_FBP_TOKEN_NONE"
  obtains q where "next_token inp p = Some (t, q)" "parsing inp ts ns cs q" "get_token_slice inp q = w"
proof (cases "fbp_type (fp_pending p) = SOL_FBP_TOKEN_NONE")
  case True
  then obtain s s' where s: "sol_fbp_scan_token inp (fp_scanner p) = Some s" "tok_is inp (fs_token s) (t, w)" "scan_toks inp s ts s'"
    using assms(1) by (auto simp: parsing_def upcoming_def)
  show ?thesis
    by (rule that [of "p\<lparr>fp_scanner := s, fp_current := fs_token s\<rparr>"])
      (use s True assms(1) in \<open>auto simp: next_token_def parsing_def upcoming_def get_token_slice_def tok_is_def\<close>)
next
  case False
  show ?thesis
    by (rule that [of "p\<lparr>fp_current := fp_pending p, fp_pending := (fp_pending p)\<lparr>fbp_type := SOL_FBP_TOKEN_NONE\<rparr>\<rparr>"])
      (use False assms(1) in \<open>auto simp: next_token_def parsing_def upcoming_def get_token_slice_def tok_is_def\<close>)
qed

lemma peek_parsing:
  assumes "parsing inp ((t, w) # ts) ns cs p" and "t \<noteq> SOL_FBP_TOKEN_NONE"
  obtains q where "peek_token inp p = Some (t, q)" "parsing inp ((t, w) # ts) ns cs q"
proof (cases "fbp_type (fp_pending p) = SOL_FBP_TOKEN_NONE")
  case True
  then obtain s s' where s: "sol_fbp_scan_token inp (fp_scanner p) = Some s" "tok_is inp (fs_token s) (t, w)" "scan_toks inp s ts s'"
    using assms(1) by (auto simp: parsing_def upcoming_def)
  show ?thesis
    by (rule that [of "p\<lparr>fp_scanner := s, fp_pending := fs_token s\<rparr>"])
      (use s True assms in \<open>auto simp: peek_token_def next_token_def parsing_def upcoming_def tok_is_def\<close>)
next
  case False
  then show ?thesis using that [of p] assms(1) by (simp add: peek_token_def parsing_def upcoming_def tok_is_def)
qed

lemma expect_parsing:
  assumes "parsing inp ((t, w) # ts) ns cs p" and "t \<noteq> SOL_FBP_TOKEN_NONE"
  obtains q where "expect inp t msg p = Some (Some (), q)" "parsing inp ts ns cs q" "get_token_slice inp q = w"
proof (rule next_parsing [OF assms])
  fix q assume "next_token inp p = Some (t, q)" "parsing inp ts ns cs q" "get_token_slice inp q = w"
  then show thesis using that by (simp add: expect_def)
qed

lemma parsing_graph: "parsing inp ts ns cs p \<Longrightarrow> is_flow ns' cs' g \<Longrightarrow> parsing inp ts ns' cs' (p\<lparr>fp_graph := g\<rparr>)"
  by (simp add: parsing_def upcoming_def)

lemma parsing_flow: "parsing inp ts ns cs p \<Longrightarrow> is_flow ns cs (fp_graph p)"
  by (simp add: parsing_def)

subsection \<open>Ports\<close>

lemma digit_byte:
  assumes "k < 10"
  shows "hex_value (of_nat (48 + k)) = k" and "of_nat (48 + k) = (48 :: byte) \<longleftrightarrow> k = 0"
proof -
  have u: "unat (of_nat (48 + k) :: byte) = 48 + k" using assms by (simp add: unat_of_nat del: of_nat_add)
  then show "hex_value (of_nat (48 + k)) = k" using assms by (simp add: hex_value_def isdigit_def word_le_nat_alt del: of_nat_add)
  show "of_nat (48 + k) = (48 :: byte) \<longleftrightarrow> k = 0" using u by (simp add: word_unat_eq_iff del: of_nat_add)
qed

lemma nat_digits_value: "index_of (nat_digits n) = n \<and> (hd (nat_digits n) = ascii CHR ''0'' \<longrightarrow> n = 0)"
proof (induction n rule: nat_digits.induct)
  case (1 n)
  show ?case
  proof (cases "n < 10")
    case True
    then show ?thesis using digit_byte [of n] by (subst (1 2) nat_digits.simps) (simp add: index_of_def del: of_nat_add)
  next
    case False
    have d: "nat_digits n = nat_digits (n div 10) @ [of_nat (48 + n mod 10)]" using False by (subst nat_digits.simps) simp
    have "index_of (nat_digits n) = 10 * index_of (nat_digits (n div 10)) + n mod 10"
      using digit_byte(1) [of "n mod 10"] unfolding d index_of_def by (simp del: of_nat_add)
    moreover have "hd (nat_digits n) = hd (nat_digits (n div 10))" unfolding d using nat_digits_digits [of "n div 10"] by simp
    ultimately show ?thesis using "1.IH" [OF False] False by auto
  qed
qed

lemma slice_to_int_digits:
  assumes "k \<le> UINT16_MAX"
  shows "sol_str_slice_to_int (nat_digits k) = Inr (int k)"
proof -
  note d = nat_digits_digits [of k] nat_digits_value [of k]
  have nz: "takeWhile (\<lambda>c. c \<noteq> 0) (nat_digits k) = nat_digits k"
    using d(1) by (auto simp: takeWhile_eq_all_conv list_all_iff digit_facts)
  have "tl (nat_digits k) = []" if "hd (nat_digits k) = ascii CHR ''0''"
    using d(2) that by (auto simp: nat_digits.simps [of 0])
  then have "strtol (nat_digits k) = (int k, length (nat_digits k), None)"
    using strtol_digits [of "nat_digits k"] d assms by auto
  then show ?thesis
    using d(1) assms by (simp add: sol_str_slice_to_int_def sol_util_strtol_n_def nz INT_MAX_def UINT16_MAX_def)
qed

lemma port_parsing:
  assumes "parsing inp (port_toks p @ (t, w) # ts) ns cs a" and "port_decl_ok p" and "t \<noteq> SOL_FBP_TOKEN_NONE" "t \<noteq> SOL_FBP_TOKEN_BRACKET_OPEN"
  obtains b where "parse_port inp a = Some (Some (fst p, port_index p), b)" "parsing inp ((t, w) # ts) ns cs b"
proof -
  let ?rest = "(case snd p of None \<Rightarrow> []
     | Some k \<Rightarrow> [(SOL_FBP_TOKEN_BRACKET_OPEN, [ascii CHR ''['']), (SOL_FBP_TOKEN_INTEGER, nat_digits k), (SOL_FBP_TOKEN_BRACKET_CLOSE, [ascii CHR '']''])]) @ (t, w) # ts"
  have "parsing inp ((SOL_FBP_TOKEN_IDENTIFIER, fst p) # ?rest) ns cs a" using assms(1) by (simp add: port_toks_def)
  then obtain a1 where a1: "expect inp SOL_FBP_TOKEN_IDENTIFIER Expected_port_identifier a = Some (Some (), a1)" "parsing inp ?rest ns cs a1"
    "get_token_slice inp a1 = fst p" by (rule expect_parsing) simp
  obtain b where b: "parse_port_index inp a1 = Some (Some (port_index p), b)" "parsing inp ((t, w) # ts) ns cs b"
  proof (cases "snd p")
    case None
    then obtain b where "peek_token inp a1 = Some (t, b)" "parsing inp ((t, w) # ts) ns cs b"
      using peek_parsing [of inp t w ts ns cs a1] a1(2) assms(3) by auto
    then show ?thesis using that assms(4) None by (simp add: parse_port_index_def port_index_def)
  next
    case (Some k)
    have "parsing inp ((SOL_FBP_TOKEN_BRACKET_OPEN, [ascii CHR ''['']) # (SOL_FBP_TOKEN_INTEGER, nat_digits k) # (SOL_FBP_TOKEN_BRACKET_CLOSE, [ascii CHR '']'']) # (t, w) # ts) ns cs a1"
      using a1(2) Some by simp
    then obtain a2 where a2: "peek_token inp a1 = Some (SOL_FBP_TOKEN_BRACKET_OPEN, a2)"
      "parsing inp ((SOL_FBP_TOKEN_BRACKET_OPEN, [ascii CHR ''['']) # (SOL_FBP_TOKEN_INTEGER, nat_digits k) # (SOL_FBP_TOKEN_BRACKET_CLOSE, [ascii CHR '']'']) # (t, w) # ts) ns cs a2"
      by (rule peek_parsing) simp
    obtain a3 where a3: "next_token inp a2 = Some (SOL_FBP_TOKEN_BRACKET_OPEN, a3)"
      "parsing inp ((SOL_FBP_TOKEN_INTEGER, nat_digits k) # (SOL_FBP_TOKEN_BRACKET_CLOSE, [ascii CHR '']'']) # (t, w) # ts) ns cs a3"
      by (rule next_parsing [OF a2(2)]) simp
    obtain a4 where a4: "expect inp SOL_FBP_TOKEN_INTEGER Expected_integer a3 = Some (Some (), a4)"
      "parsing inp ((SOL_FBP_TOKEN_BRACKET_CLOSE, [ascii CHR '']'']) # (t, w) # ts) ns cs a4" "get_token_slice inp a4 = nat_digits k"
      by (rule expect_parsing [OF a3(2)]) simp
    obtain a5 where a5: "expect inp SOL_FBP_TOKEN_BRACKET_CLOSE Expected_bracket_close a4 = Some (Some (), a5)" "parsing inp ((t, w) # ts) ns cs a5"
      by (rule expect_parsing [OF a4(2)]) simp
    have "k \<le> UINT16_MAX" using assms(2) Some by (simp add: port_decl_ok_def)
    then show ?thesis using that [of a5] a2 a3 a4 a5 Some slice_to_int_digits by (simp add: parse_port_index_def port_index_def)
  qed
  show ?thesis using that [of b] a1 b by (simp add: parse_port_def)
qed

subsection \<open>Nodes\<close>

lemma node_parsing_found:
  assumes "parsing inp ts ns cs a" and "i < length ns" and "distinct (map fst ns)" and "node_name ns i \<noteq> [ascii CHR ''_'']"
  shows "add_node l (node_name ns i) [] pos a = Some (Some (int i), a)"
  using flow_find_node [OF parsing_flow [OF assms(1)] assms(2-4), of l pos] by (cases a) (simp add: add_node_def)

lemma node_parsing_new:
  assumes "parsing inp ts ns cs a" and "alloc_total l" and "length ns < UINT16_MAX" and "n \<notin> fst ` set ns" and "n \<noteq> [ascii CHR ''_'']"
  obtains b where "add_node l n c pos a = Some (Some (int (length ns)), b)" "parsing inp ts (ns @ [(n, c, [])]) cs b"
proof -
  obtain out g where g: "sol_fbp_graph_add_node l (fp_graph a) n c pos = Some (Inr (length ns), out, g)" "is_flow (ns @ [(n, c, [])]) cs g"
    using flow_add_node [OF parsing_flow [OF assms(1)] assms(2-5)] by blast
  show ?thesis using that [of "a\<lparr>fp_graph := g\<rparr>"] g parsing_graph [OF assms(1)] by (simp add: add_node_def)
qed

text \<open>One turn of the loop over the options of the last node.\<close>

lemma meta_parsing_step:
  assumes a: "parsing inp ((if first then [] else [(SOL_FBP_TOKEN_COMMA, [ascii CHR '',''])]) @
        (SOL_FBP_TOKEN_IDENTIFIER, k) # (SOL_FBP_TOKEN_EQUAL, [ascii CHR ''='']) # (SOL_FBP_TOKEN_IDENTIFIER, v) # ts) (ns @ [(n, c, ms)]) cs a"
    and ok: "alloc_total l" "length ns < UINT16_MAX" "k \<notin> fst ` set ms" "length ms < UINT16_MAX"
  obtains b where "meta_loop l inp (int (length ns)) first a = meta_loop l inp (int (length ns)) False b"
    "parsing inp ts (ns @ [(n, c, ms @ [(k, v)])]) cs b"
proof -
  let ?ts = "(SOL_FBP_TOKEN_IDENTIFIER, k) # (SOL_FBP_TOKEN_EQUAL, [ascii CHR ''='']) # (SOL_FBP_TOKEN_IDENTIFIER, v) # ts"
  let ?ns = "ns @ [(n, c, ms)]"
  let ?comma = "\<lambda>p. if first then Some (Some (), p) else expect inp SOL_FBP_TOKEN_COMMA Expected_comma_in_meta p"
  obtain t a1 a2 where a1: "peek_token inp a = Some (t, a1)" "t \<noteq> SOL_FBP_TOKEN_PAREN_CLOSE"
    and a2: "?comma a1 = Some (Some (), a2)" "parsing inp ?ts ?ns cs a2"
  proof (cases first)
    case True
    then have "parsing inp ?ts ?ns cs a" using a by simp
    then obtain a1 where "peek_token inp a = Some (SOL_FBP_TOKEN_IDENTIFIER, a1)" "parsing inp ?ts ?ns cs a1" by (rule peek_parsing) simp
    then show ?thesis using that True by simp
  next
    case False
    then have "parsing inp ((SOL_FBP_TOKEN_COMMA, [ascii CHR '','']) # ?ts) ?ns cs a" using a by simp
    then obtain a1 where a1: "peek_token inp a = Some (SOL_FBP_TOKEN_COMMA, a1)" "parsing inp ((SOL_FBP_TOKEN_COMMA, [ascii CHR '','']) # ?ts) ?ns cs a1"
      by (rule peek_parsing) simp
    obtain a2 where "expect inp SOL_FBP_TOKEN_COMMA Expected_comma_in_meta a1 = Some (Some (), a2)" "parsing inp ?ts ?ns cs a2"
      by (rule expect_parsing [OF a1(2)]) simp
    then show ?thesis using that a1(1) False by simp
  qed
  obtain a3 where a3: "expect inp SOL_FBP_TOKEN_IDENTIFIER Expected_meta_key a2 = Some (Some (), a3)"
    "parsing inp ((SOL_FBP_TOKEN_EQUAL, [ascii CHR ''='']) # (SOL_FBP_TOKEN_IDENTIFIER, v) # ts) ?ns cs a3" "get_token_slice inp a3 = k"
    by (rule expect_parsing [OF a2(2)]) simp
  obtain a4 where a4: "peek_token inp a3 = Some (SOL_FBP_TOKEN_EQUAL, a4)"
    "parsing inp ((SOL_FBP_TOKEN_EQUAL, [ascii CHR ''='']) # (SOL_FBP_TOKEN_IDENTIFIER, v) # ts) ?ns cs a4"
    by (rule peek_parsing [OF a3(2)]) simp
  obtain a5 where a5: "next_token inp a4 = Some (SOL_FBP_TOKEN_EQUAL, a5)" "parsing inp ((SOL_FBP_TOKEN_IDENTIFIER, v) # ts) ?ns cs a5"
    by (rule next_parsing [OF a4(2)]) simp
  obtain a6 where a6: "next_token inp a5 = Some (SOL_FBP_TOKEN_IDENTIFIER, a6)" "parsing inp ts ?ns cs a6" "get_token_slice inp a6 = v"
    by (rule next_parsing [OF a5(2)]) simp
  have val: "parse_meta_value inp a3 = Some (Some v, a6)" using a4 a5 a6 by (simp add: parse_meta_value_def)
  obtain g where g: "sol_fbp_graph_add_meta l (fp_graph a6) (int (length ns)) k v (get_token_position (fp_current a3)) = (Inr (), g)"
    "is_flow (ns @ [(n, c, ms @ [(k, v)])]) cs g"
    using flow_add_meta [OF parsing_flow [OF a6(2)] ok(1), of "length ns" n c ms k v "get_token_position (fp_current a3)"] ok(2-4) by auto
  show ?thesis
  proof (rule that)
    show "parsing inp ts (ns @ [(n, c, ms @ [(k, v)])]) cs (a6\<lparr>fp_graph := g\<rparr>)" by (rule parsing_graph [OF a6(2) g(2)])
    show "meta_loop l inp (int (length ns)) first a = meta_loop l inp (int (length ns)) False (a6\<lparr>fp_graph := g\<rparr>)"
      unfolding meta_loop.simps [of l inp "int (length ns)" first a] a1(1) option.case prod.case if_not_P [OF a1(2)] a2(1) p_then_simps a3(1,3) Let_def val
      using g(1) by simp
  qed
qed

lemma meta_parsing:
  assumes "parsing inp (metas_toks (SOL_FBP_TOKEN_COMMA, [ascii CHR '','']) ms @ (SOL_FBP_TOKEN_PAREN_CLOSE, w) # ts) (ns @ [(n, c, ms0)]) cs a"
    and "alloc_total l" "length ns < UINT16_MAX" "distinct (map fst (ms0 @ ms))" "length (ms0 @ ms) \<le> UINT16_MAX"
  shows "\<exists>b. meta_loop l inp (int (length ns)) False a = Some (Some (), b) \<and>
    parsing inp ((SOL_FBP_TOKEN_PAREN_CLOSE, w) # ts) (ns @ [(n, c, ms0 @ ms)]) cs b"
  using assms
proof (induction ms arbitrary: ms0 a)
  case Nil
  then obtain b where "peek_token inp a = Some (SOL_FBP_TOKEN_PAREN_CLOSE, b)" "parsing inp ((SOL_FBP_TOKEN_PAREN_CLOSE, w) # ts) (ns @ [(n, c, ms0)]) cs b"
    using peek_parsing [of inp SOL_FBP_TOKEN_PAREN_CLOSE w ts "ns @ [(n, c, ms0)]" cs a] by auto
  then show ?case by (simp add: meta_loop.simps)
next
  case (Cons m ms)
  obtain k v where m: "m = (k, v)" by fastforce
  let ?more = "metas_toks (SOL_FBP_TOKEN_COMMA, [ascii CHR '','']) ms @ (SOL_FBP_TOKEN_PAREN_CLOSE, w) # ts"
  obtain b where b: "meta_loop l inp (int (length ns)) False a = meta_loop l inp (int (length ns)) False b"
    "parsing inp ?more (ns @ [(n, c, ms0 @ [(k, v)])]) cs b"
    by (rule meta_parsing_step [of inp False k v ?more ns n c ms0 cs a l]) (use Cons.prems m in auto)
  show ?case using Cons.IH [OF b(2)] Cons.prems b(1) m by simp
qed

lemma metas_parsing:
  assumes a: "parsing inp (metas_toks (SOL_FBP_TOKEN_COLON, [ascii CHR '':'']) ms @ (SOL_FBP_TOKEN_PAREN_CLOSE, w) # ts) (ns @ [(n, c, [])]) cs a"
    and ok: "alloc_total l" "length ns < UINT16_MAX" "distinct (map fst ms)" "length ms \<le> UINT16_MAX"
  obtains b where "parse_meta l inp (int (length ns)) a = Some (Some (), b)" "parsing inp ((SOL_FBP_TOKEN_PAREN_CLOSE, w) # ts) (ns @ [(n, c, ms)]) cs b"
proof (cases ms)
  case Nil
  then have "parsing inp ((SOL_FBP_TOKEN_PAREN_CLOSE, w) # ts) (ns @ [(n, c, [])]) cs a" using a by simp
  then obtain b where "peek_token inp a = Some (SOL_FBP_TOKEN_PAREN_CLOSE, b)" "parsing inp ((SOL_FBP_TOKEN_PAREN_CLOSE, w) # ts) (ns @ [(n, c, [])]) cs b"
    by (rule peek_parsing) simp
  then show ?thesis using that Nil by (simp add: parse_meta_def)
next
  case (Cons m ms')
  obtain k v where m: "m = (k, v)" by fastforce
  let ?more = "metas_toks (SOL_FBP_TOKEN_COMMA, [ascii CHR '','']) ms' @ ((SOL_FBP_TOKEN_PAREN_CLOSE, w) # ts)"
  let ?first = "(SOL_FBP_TOKEN_IDENTIFIER, k) # (SOL_FBP_TOKEN_EQUAL, [ascii CHR ''='']) # (SOL_FBP_TOKEN_IDENTIFIER, v) # ?more"
  have "parsing inp ((SOL_FBP_TOKEN_COLON, [ascii CHR '':'']) # ?first) (ns @ [(n, c, [])]) cs a" using a Cons m by simp
  then obtain b1 where b1: "peek_token inp a = Some (SOL_FBP_TOKEN_COLON, b1)" "parsing inp ((SOL_FBP_TOKEN_COLON, [ascii CHR '':'']) # ?first) (ns @ [(n, c, [])]) cs b1"
    by (rule peek_parsing) simp
  obtain b2 where b2: "next_token inp b1 = Some (SOL_FBP_TOKEN_COLON, b2)" "parsing inp ?first (ns @ [(n, c, [])]) cs b2"
    by (rule next_parsing [OF b1(2)]) simp
  obtain b3 where b3: "meta_loop l inp (int (length ns)) True b2 = meta_loop l inp (int (length ns)) False b3"
    "parsing inp ?more (ns @ [(n, c, [] @ [(k, v)])]) cs b3"
    by (rule meta_parsing_step [of inp True k v ?more ns n c "[]" cs b2 l]) (use b2(2) ok(1,2) in \<open>simp_all add: UINT16_MAX_def\<close>)
  have "\<exists>b. meta_loop l inp (int (length ns)) False b3 = Some (Some (), b) \<and> parsing inp ((SOL_FBP_TOKEN_PAREN_CLOSE, w) # ts) (ns @ [(n, c, ([] @ [(k, v)]) @ ms')]) cs b"
    by (rule meta_parsing [OF b3(2) ok(1,2)]) (use ok(3,4) Cons m in simp_all)
  then show ?thesis using that b1(1) b2(1) b3(1) Cons m by (auto simp: parse_meta_def)
qed

lemma node_parsing:
  assumes a: "parsing inp (node_toks d @ ts) ns cs a" and ok: "node_decl_ok d" "alloc_total l" "length ns < UINT16_MAX" "fst d \<notin> fst ` set ns"
  obtains b where "parse_node l inp a = Some (Some (int (length ns)), b)" "parsing inp ((SOL_FBP_TOKEN_STMT_SEPARATOR, [10]) # ts) (ns @ [d]) cs b"
proof -
  obtain n c ms where d: "d = (n, c, ms)" by (metis prod_cases3)
  have n: "n \<notin> fst ` set ns" "n \<noteq> [ascii CHR ''_'']" "distinct (map fst ms)" "length ms \<le> UINT16_MAX" using ok d by (auto simp: node_decl_ok_def)
  let ?close = "(SOL_FBP_TOKEN_PAREN_CLOSE, [ascii CHR '')'']) # (SOL_FBP_TOKEN_STMT_SEPARATOR, [10]) # ts"
  let ?metas = "metas_toks (SOL_FBP_TOKEN_COLON, [ascii CHR '':'']) ms @ ?close"
  have "parsing inp ((SOL_FBP_TOKEN_IDENTIFIER, n) # (SOL_FBP_TOKEN_PAREN_OPEN, [ascii CHR ''('']) # (SOL_FBP_TOKEN_IDENTIFIER, c) # ?metas) ns cs a"
    using a d by (simp add: node_toks_def)
  then obtain a1 where a1: "expect inp SOL_FBP_TOKEN_IDENTIFIER Expected_node_identifier a = Some (Some (), a1)"
    "parsing inp ((SOL_FBP_TOKEN_PAREN_OPEN, [ascii CHR ''('']) # (SOL_FBP_TOKEN_IDENTIFIER, c) # ?metas) ns cs a1" "get_token_slice inp a1 = n"
    by (rule expect_parsing) simp
  obtain a2 where a2: "peek_token inp a1 = Some (SOL_FBP_TOKEN_PAREN_OPEN, a2)"
    "parsing inp ((SOL_FBP_TOKEN_PAREN_OPEN, [ascii CHR ''('']) # (SOL_FBP_TOKEN_IDENTIFIER, c) # ?metas) ns cs a2"
    by (rule peek_parsing [OF a1(2)]) simp
  obtain a3 where a3: "next_token inp a2 = Some (SOL_FBP_TOKEN_PAREN_OPEN, a3)" "parsing inp ((SOL_FBP_TOKEN_IDENTIFIER, c) # ?metas) ns cs a3"
    by (rule next_parsing [OF a2(2)]) simp
  obtain a4 where a4: "peek_token inp a3 = Some (SOL_FBP_TOKEN_IDENTIFIER, a4)" "parsing inp ((SOL_FBP_TOKEN_IDENTIFIER, c) # ?metas) ns cs a4"
    by (rule peek_parsing [OF a3(2)]) simp
  obtain a5 where a5: "expect inp SOL_FBP_TOKEN_IDENTIFIER Expected_node_type a4 = Some (Some (), a5)" "parsing inp ?metas ns cs a5" "get_token_slice inp a5 = c"
    by (rule expect_parsing [OF a4(2)]) simp
  obtain a6 where a6: "add_node l n c (get_token_position (fp_current a1)) a5 = Some (Some (int (length ns)), a6)" "parsing inp ?metas (ns @ [(n, c, [])]) cs a6"
    by (rule node_parsing_new [OF a5(2) ok(2,3) n(1,2)])
  obtain a7 where a7: "parse_meta l inp (int (length ns)) a6 = Some (Some (), a7)" "parsing inp ?close (ns @ [d]) cs a7"
    by (rule metas_parsing [OF a6(2) ok(2,3) n(3,4)]) (use d in simp)
  obtain a8 where a8: "expect inp SOL_FBP_TOKEN_PAREN_CLOSE Expected_paren_close a7 = Some (Some (), a8)" "parsing inp ((SOL_FBP_TOKEN_STMT_SEPARATOR, [10]) # ts) (ns @ [d]) cs a8"
    by (rule expect_parsing [OF a7(2)]) simp
  show ?thesis using that [of a8] a1 a2(1) a3(1) a4(1) a5(1,3) a6(1) a7(1) a8 by (simp add: parse_node_def)
qed

lemma node_ref_parsing:
  assumes a: "parsing inp ((SOL_FBP_TOKEN_IDENTIFIER, node_name ns i) # (t, w) # ts) ns cs a" and t: "t \<noteq> SOL_FBP_TOKEN_NONE" "t \<noteq> SOL_FBP_TOKEN_PAREN_OPEN"
    and ok: "i < length ns" "distinct (map fst ns)" "node_name ns i \<noteq> [ascii CHR ''_'']"
  obtains b where "parse_node l inp a = Some (Some (int i), b)" "parsing inp ((t, w) # ts) ns cs b"
proof -
  obtain a1 where a1: "expect inp SOL_FBP_TOKEN_IDENTIFIER Expected_node_identifier a = Some (Some (), a1)" "parsing inp ((t, w) # ts) ns cs a1"
    "get_token_slice inp a1 = node_name ns i" by (rule expect_parsing [OF a]) simp
  obtain a2 where a2: "peek_token inp a1 = Some (t, a2)" "parsing inp ((t, w) # ts) ns cs a2" by (rule peek_parsing [OF a1(2) t(1)])
  show ?thesis using that [of a2] a1 a2 t(2) node_parsing_found [OF a2(2) ok, of l] by (simp add: parse_node_def)
qed

subsection \<open>Connections and statements\<close>

lemma conn_loop_ends:
  assumes "parsing inp ((SOL_FBP_TOKEN_STMT_SEPARATOR, w) # ts) ns cs a"
  obtains b where "conn_loop l inp src a = Some (Some (), b)" "parsing inp ((SOL_FBP_TOKEN_STMT_SEPARATOR, w) # ts) ns cs b"
proof -
  obtain b where "peek_token inp a = Some (SOL_FBP_TOKEN_STMT_SEPARATOR, b)" "parsing inp ((SOL_FBP_TOKEN_STMT_SEPARATOR, w) # ts) ns cs b"
    by (rule peek_parsing [OF assms]) simp
  then show ?thesis using that [of b] by (simp add: conn_loop.simps)
qed

lemma port_index_int: "port_decl_ok p \<Longrightarrow> is_int (port_index p)"
  by (auto simp: port_decl_ok_def is_int_def port_index_def UINT16_MAX_def split: option.split)

lemma conn_parsing:
  assumes a: "parsing inp (port_toks p @ (SOL_FBP_TOKEN_ARROW, map ascii ''->'') # port_toks q @
        (SOL_FBP_TOKEN_IDENTIFIER, node_name ns j) # (SOL_FBP_TOKEN_STMT_SEPARATOR, [10]) # ts) ns cs a"
    and ports: "port_decl_ok p" "port_decl_ok q"
    and j: "j < length ns" "distinct (map fst ns)" "node_name ns j \<noteq> [ascii CHR ''_'']"
    and ok: "alloc_total l" "length cs < UINT16_MAX" "(i, p, q, j) \<notin> set cs"
  obtains b where "parse_conn l inp (int i) a = Some (Some (int j), b)" "parsing inp ((SOL_FBP_TOKEN_STMT_SEPARATOR, [10]) # ts) ns (cs @ [(i, p, q, j)]) b"
proof -
  let ?dst = "(SOL_FBP_TOKEN_IDENTIFIER, node_name ns j) # (SOL_FBP_TOKEN_STMT_SEPARATOR, [10]) # ts"
  obtain a1 where a1: "parse_port inp a = Some (Some (fst p, port_index p), a1)" "parsing inp ((SOL_FBP_TOKEN_ARROW, map ascii ''->'') # port_toks q @ ?dst) ns cs a1"
    by (rule port_parsing [OF a ports(1)]) simp_all
  define g1 where "g1 = snd (sol_fbp_graph_add_out_port l (fp_graph a1) (int i) (fst p) (get_token_position (fp_current a1)))"
  have "parsing inp ((SOL_FBP_TOKEN_ARROW, map ascii ''->'') # port_toks q @ ?dst) ns cs (a1\<lparr>fp_graph := g1\<rparr>)"
    unfolding g1_def by (rule parsing_graph [OF a1(2) is_flow_ports(2) [OF parsing_flow [OF a1(2)]]])
  then obtain a2 where a2: "next_token inp (a1\<lparr>fp_graph := g1\<rparr>) = Some (SOL_FBP_TOKEN_ARROW, a2)" "parsing inp (port_toks q @ ?dst) ns cs a2"
    by (rule next_parsing) simp
  then have "parsing inp ((SOL_FBP_TOKEN_IDENTIFIER, fst q) # tl (port_toks q) @ ?dst) ns cs a2" by (simp add: port_toks_def)
  then obtain a3 where a3: "peek_token inp a2 = Some (SOL_FBP_TOKEN_IDENTIFIER, a3)" "parsing inp ((SOL_FBP_TOKEN_IDENTIFIER, fst q) # tl (port_toks q) @ ?dst) ns cs a3"
    by (rule peek_parsing) simp
  then have "parsing inp (port_toks q @ ?dst) ns cs a3" by (simp add: port_toks_def)
  then obtain a4 where a4: "parse_port inp a3 = Some (Some (fst q, port_index q), a4)" "parsing inp ?dst ns cs a4"
    by (rule port_parsing [OF _ ports(2)]) simp_all
  obtain a5 where a5: "peek_token inp a4 = Some (SOL_FBP_TOKEN_IDENTIFIER, a5)" "parsing inp ?dst ns cs a5" by (rule peek_parsing [OF a4(2)]) simp
  obtain a6 where a6: "parse_node l inp a5 = Some (Some (int j), a6)" "parsing inp ((SOL_FBP_TOKEN_STMT_SEPARATOR, [10]) # ts) ns cs a6"
    by (rule node_ref_parsing [OF a5(2) _ _ j]) simp_all
  define g2 where "g2 = snd (sol_fbp_graph_add_in_port l (fp_graph a6) (int j) (fst q) (get_token_position (fp_current a4)))"
  have a7: "parsing inp ((SOL_FBP_TOKEN_STMT_SEPARATOR, [10]) # ts) ns cs (a6\<lparr>fp_graph := g2\<rparr>)"
    unfolding g2_def by (rule parsing_graph [OF a6(2) is_flow_ports(1) [OF parsing_flow [OF a6(2)]]])
  have names: "fst p \<noteq> []" "fst q \<noteq> []" using ports by (auto simp: port_decl_ok_def ident_def)
  obtain r g3 where g3: "sol_fbp_graph_add_conn l g2 (int i) (fst p) (port_index p) (int j) (fst q) (port_index q) (get_token_position (fp_current a1)) = (Inr r, g3)"
    "is_flow ns (cs @ [(i, p, q, j)]) g3"
    using flow_add_conn [OF parsing_flow [OF a7] ok names, of "get_token_position (fp_current a1)"] by auto
  show ?thesis
    using that [OF _ parsing_graph [OF a7 g3(2)]] a1(1) a2(1) a3(1) a4(1) a5(1) a6(1) g3(1) port_index_int [OF ports(1)] port_index_int [OF ports(2)]
    by (simp add: parse_conn_def Let_def g1_def g2_def)
qed

lemma separator_parsing:
  assumes "parsing inp ((SOL_FBP_TOKEN_STMT_SEPARATOR, w) # ts) ns cs a"
  obtains b where "stmt_loop l inp behind a = stmt_loop l inp behind b" "parsing inp ts ns cs b"
proof -
  obtain a1 where a1: "peek_token inp a = Some (SOL_FBP_TOKEN_STMT_SEPARATOR, a1)" "parsing inp ((SOL_FBP_TOKEN_STMT_SEPARATOR, w) # ts) ns cs a1"
    by (rule peek_parsing [OF assms]) simp
  obtain a2 where a2: "next_token inp a1 = Some (SOL_FBP_TOKEN_STMT_SEPARATOR, a2)" "parsing inp ts ns cs a2" by (rule next_parsing [OF a1(2)]) simp
  have "parse_stmt l inp behind a = Some (Some (), a2)" using a1(1) a2(1) by (simp add: parse_stmt_def)
  then have "stmt_loop l inp behind a = stmt_loop l inp behind a2" by (subst stmt_loop.simps) simp
  then show ?thesis using that a2(2) by blast
qed

text \<open>A statement that starts with a node, and the end of its line.\<close>

lemma stmt_parsing:
  assumes a: "peek_token inp a = Some (SOL_FBP_TOKEN_IDENTIFIER, a1)" and node: "parse_node l inp a1 = Some (Some src, a2)"
    and peek: "peek_token inp a2 = Some (t, a3)" "t = SOL_FBP_TOKEN_IDENTIFIER \<or> t = SOL_FBP_TOKEN_STMT_SEPARATOR"
    and loop: "conn_loop l inp src a3 = Some (Some (), a4)" "parsing inp ((SOL_FBP_TOKEN_STMT_SEPARATOR, w) # ts) ns cs a4"
  obtains b where "stmt_loop l inp behind a = stmt_loop l inp behind b" "parsing inp ts ns cs b"
proof -
  have "parse_stmt l inp behind a = Some (Some (), a4)" using a node peek loop(1) by (auto simp: parse_stmt_def parse_conn_stmt_def)
  then have "stmt_loop l inp behind a = stmt_loop l inp behind a4" by (subst stmt_loop.simps) simp
  moreover obtain b where "stmt_loop l inp behind a4 = stmt_loop l inp behind b" "parsing inp ts ns cs b" by (rule separator_parsing [OF loop(2)])
  ultimately show ?thesis using that by simp
qed

lemma node_stmt_parsing:
  assumes a: "parsing inp (node_toks d @ ts) ns cs a" and ok: "node_decl_ok d" "alloc_total l" "length ns < UINT16_MAX" "fst d \<notin> fst ` set ns"
  obtains b where "stmt_loop l inp behind a = stmt_loop l inp behind b" "parsing inp ts (ns @ [d]) cs b"
proof -
  have hd: "node_toks d @ ts = (SOL_FBP_TOKEN_IDENTIFIER, fst d) # tl (node_toks d) @ ts" by (simp add: node_toks_def split: prod.split)
  obtain a1 where a1: "peek_token inp a = Some (SOL_FBP_TOKEN_IDENTIFIER, a1)" "parsing inp (node_toks d @ ts) ns cs a1"
    using peek_parsing [OF a [unfolded hd]] unfolding hd [symmetric] by blast
  obtain a2 where a2: "parse_node l inp a1 = Some (Some (int (length ns)), a2)" "parsing inp ((SOL_FBP_TOKEN_STMT_SEPARATOR, [10]) # ts) (ns @ [d]) cs a2"
    by (rule node_parsing [OF a1(2) ok])
  obtain a3 where a3: "peek_token inp a2 = Some (SOL_FBP_TOKEN_STMT_SEPARATOR, a3)" "parsing inp ((SOL_FBP_TOKEN_STMT_SEPARATOR, [10]) # ts) (ns @ [d]) cs a3"
    by (rule peek_parsing [OF a2(2)]) simp
  obtain a4 where a4: "conn_loop l inp (int (length ns)) a3 = Some (Some (), a4)" "parsing inp ((SOL_FBP_TOKEN_STMT_SEPARATOR, [10]) # ts) (ns @ [d]) cs a4"
    by (rule conn_loop_ends [OF a3(2)])
  obtain b where "stmt_loop l inp behind a = stmt_loop l inp behind b" "parsing inp ts (ns @ [d]) cs b"
    by (rule stmt_parsing [OF a1(1) a2(1) a3(1) _ a4]) simp
  then show ?thesis by (rule that)
qed

lemma conn_stmt_parsing:
  assumes a: "parsing inp (conn_toks ns c @ ts) ns cs a" and ns: "list_all node_decl_ok ns" "distinct (map fst ns)"
    and ok: "conn_decl_ok ns c" "alloc_total l" "length cs < UINT16_MAX" "c \<notin> set cs"
  obtains b where "stmt_loop l inp behind a = stmt_loop l inp behind b" "parsing inp ts ns (cs @ [c]) b"
proof -
  obtain i p q j where c: "c = (i, p, q, j)" by (metis prod_cases4)
  have ij: "i < length ns" "j < length ns" and ports: "port_decl_ok p" "port_decl_ok q" using ok(1) c by (simp_all add: conn_decl_ok_def)
  have name: "node_name ns k \<noteq> [ascii CHR ''_'']" if "k < length ns" for k
    using ns(1) that by (fastforce simp: node_name_def list_all_length node_decl_ok_def)
  let ?conn = "port_toks p @ (SOL_FBP_TOKEN_ARROW, map ascii ''->'') # port_toks q @ (SOL_FBP_TOKEN_IDENTIFIER, node_name ns j) # (SOL_FBP_TOKEN_STMT_SEPARATOR, [10]) # ts"
  obtain after where hd: "?conn = (SOL_FBP_TOKEN_IDENTIFIER, fst p) # after" by (simp add: port_toks_def)
  have "parsing inp ((SOL_FBP_TOKEN_IDENTIFIER, node_name ns i) # ?conn) ns cs a" using a c by (simp add: conn_toks_def)
  then obtain a1 where a1: "peek_token inp a = Some (SOL_FBP_TOKEN_IDENTIFIER, a1)" "parsing inp ((SOL_FBP_TOKEN_IDENTIFIER, node_name ns i) # ?conn) ns cs a1"
    by (rule peek_parsing) simp
  obtain a2 where a2: "parse_node l inp a1 = Some (Some (int i), a2)" "parsing inp ?conn ns cs a2"
    using node_ref_parsing [OF a1(2) [unfolded hd] _ _ ij(1) ns(2) name [OF ij(1)], of l] unfolding hd [symmetric] by blast
  obtain a3 where a3: "peek_token inp a2 = Some (SOL_FBP_TOKEN_IDENTIFIER, a3)" "parsing inp ?conn ns cs a3"
    using peek_parsing [OF a2(2) [unfolded hd]] unfolding hd [symmetric] by blast
  obtain a4 where a4: "peek_token inp a3 = Some (SOL_FBP_TOKEN_IDENTIFIER, a4)" "parsing inp ?conn ns cs a4"
    using peek_parsing [OF a3(2) [unfolded hd]] unfolding hd [symmetric] by blast
  obtain a5 where a5: "parse_conn l inp (int i) a4 = Some (Some (int j), a5)" "parsing inp ((SOL_FBP_TOKEN_STMT_SEPARATOR, [10]) # ts) ns (cs @ [c]) a5"
    by (rule conn_parsing [OF a4(2) ports ij(2) ns(2) name [OF ij(2)] ok(2,3)]) (use ok(4) c in auto)
  obtain a6 where a6: "conn_loop l inp (int j) a5 = Some (Some (), a6)" "parsing inp ((SOL_FBP_TOKEN_STMT_SEPARATOR, [10]) # ts) ns (cs @ [c]) a6"
    by (rule conn_loop_ends [OF a5(2)])
  have loop: "conn_loop l inp (int i) a3 = Some (Some (), a6)" using a4(1) a5(1) a6(1) by (subst conn_loop.simps) simp
  obtain b where "stmt_loop l inp behind a = stmt_loop l inp behind b" "parsing inp ts ns (cs @ [c]) b"
    by (rule stmt_parsing [OF a1(1) a2(1) a3(1) _ loop a6(2)]) simp
  then show ?thesis by (rule that)
qed

lemma nodes_parsing:
  assumes "parsing inp (concat (map node_toks ds) @ ts) ns cs a" and "list_all node_decl_ok ds" and "alloc_total l"
    and "distinct (map fst (ns @ ds))" and "length (ns @ ds) \<le> UINT16_MAX"
  shows "\<exists>b. stmt_loop l inp behind a = stmt_loop l inp behind b \<and> parsing inp ts (ns @ ds) cs b"
  using assms
proof (induction ds arbitrary: ns a)
  case (Cons d ds)
  obtain b where b: "stmt_loop l inp behind a = stmt_loop l inp behind b" "parsing inp (concat (map node_toks ds) @ ts) (ns @ [d]) cs b"
    by (rule node_stmt_parsing [of inp d "concat (map node_toks ds) @ ts" ns cs a l]) (use Cons.prems in auto)
  show ?case using Cons.IH [OF b(2)] Cons.prems b(1) by simp
qed auto

lemma conns_parsing:
  assumes "parsing inp (concat (map (conn_toks ns) ds) @ ts) ns cs a" and "list_all (conn_decl_ok ns) ds" and "alloc_total l"
    and "list_all node_decl_ok ns" "distinct (map fst ns)" and "distinct (cs @ ds)" and "length (cs @ ds) \<le> UINT16_MAX"
  shows "\<exists>b. stmt_loop l inp behind a = stmt_loop l inp behind b \<and> parsing inp ts ns (cs @ ds) b"
  using assms
proof (induction ds arbitrary: cs a)
  case (Cons d ds)
  obtain b where b: "stmt_loop l inp behind a = stmt_loop l inp behind b" "parsing inp (concat (map (conn_toks ns) ds) @ ts) ns (cs @ [d]) b"
    by (rule conn_stmt_parsing [of inp ns d "concat (map (conn_toks ns) ds) @ ts" cs a l]) (use Cons.prems in auto)
  show ?case using Cons.IH [OF b(2)] Cons.prems b(1) by simp
qed auto

lemma end_parsing:
  assumes "parsing inp [(SOL_FBP_TOKEN_EOF, [])] ns cs a"
  shows "\<exists>b. stmt_loop l inp behind a = Some b \<and> parsing inp [(SOL_FBP_TOKEN_EOF, [])] ns cs b"
proof -
  obtain b where "peek_token inp a = Some (SOL_FBP_TOKEN_EOF, b)" "parsing inp [(SOL_FBP_TOKEN_EOF, [])] ns cs b"
    by (rule peek_parsing [OF assms]) simp
  then show ?thesis by (subst stmt_loop.simps) (simp add: parse_stmt_def)
qed

section \<open>The round trip\<close>

lemma flow_typed:
  assumes "is_flow ns cs (fp_graph p)" and "list_all node_decl_ok ns"
  shows "verify_graph p = (True, p)"
proof -
  have "fn_component n \<noteq> []" if "n \<in> set (g_nodes (fp_graph p))" for n
  proof -
    have "node_decl_of n \<in> set ns" using assms(1) that by (auto simp: is_flow_def)
    then show ?thesis using assms(2) by (auto simp: list_all_iff node_decl_ok_def node_decl_of_def)
  qed
  then have "first_index (\<lambda>n. fn_component n = []) (g_nodes (fp_graph p)) = None" by (simp add: first_index_None)
  then show ?thesis by (simp add: verify_graph_def)
qed

text \<open>
  C21. A flow that is written down is read back: for any nodes with types and options and any connections between
  them, with or without port indices, parsing their text succeeds and yields a graph that has exactly
  these nodes, options and connections, in order, and nothing else. The words have to be identifiers of the language
  (and no keywords), names, keys and connections unique and their numbers below the limit of a vector.
\<close>

theorem fbp_round_trip:
  assumes "flow_ok ns cs" and "alloc_total l"
  shows "\<exists>g. sol_fbp_parse l (fbp_text ns cs) behind (sol_fbp_graph_init l) = Some (None, g) \<and> is_flow ns cs g"
proof -
  let ?inp = "fbp_text ns cs" and ?p = "parser_init (sol_fbp_graph_init l)"
  have ok: "list_all node_decl_ok ns" "distinct (map fst ([] @ ns))" "length ([] @ ns) \<le> UINT16_MAX"
    "list_all (conn_decl_ok ns) cs" "distinct ([] @ cs)" "length ([] @ cs) \<le> UINT16_MAX"
    using assms(1) by (simp_all add: flow_ok_def)
  have "parsing ?inp (flow_toks ns cs @ [(SOL_FBP_TOKEN_EOF, [])]) [] [] ?p"
    using scan_flow [OF assms(1)] is_flow_init [of l] by (simp add: parsing_def upcoming_def parser_init_def no_fbp_token_def)
  then have start: "parsing ?inp (concat (map node_toks ns) @ concat (map (conn_toks ns) cs) @ [(SOL_FBP_TOKEN_EOF, [])]) [] [] ?p"
    by (simp add: flow_toks_def)
  obtain a where a: "stmt_loop l ?inp behind ?p = stmt_loop l ?inp behind a" "parsing ?inp (concat (map (conn_toks ns) cs) @ [(SOL_FBP_TOKEN_EOF, [])]) ns [] a"
    using nodes_parsing [OF start ok(1) assms(2) ok(2,3)] by auto
  obtain b where b: "stmt_loop l ?inp behind a = stmt_loop l ?inp behind b" "parsing ?inp [(SOL_FBP_TOKEN_EOF, [])] ns cs b"
    using conns_parsing [OF a(2) ok(4) assms(2) ok(1) _ ok(5,6)] ok(2) by auto
  obtain c where c: "stmt_loop l ?inp behind b = Some c" "parsing ?inp [(SOL_FBP_TOKEN_EOF, [])] ns cs c" using end_parsing [OF b(2)] by blast
  obtain d where d: "peek_token ?inp c = Some (SOL_FBP_TOKEN_EOF, d)" "parsing ?inp [(SOL_FBP_TOKEN_EOF, [])] ns cs d"
    by (rule peek_parsing [OF c(2)]) simp
  have "parse_stmt_list l ?inp behind ?p = Some d" using a(1) b(1) c d(1) by (simp add: parse_stmt_list_def parsing_def)
  then show ?thesis
    using d(2) flow_typed [of ns cs d] ok(1) by (simp add: sol_fbp_parse_def parsing_def)
qed

text \<open>The text \<^verbatim>\<open>a(b:k=1)\<close>, \<^verbatim>\<open>c(d)\<close>, \<^verbatim>\<open>a OUT -> IN[3] c\<close>, on three lines.\<close>

theorem fbp_round_trip_witness:
  "\<exists>g. sol_fbp_parse (libc_total ()) (map ascii ''a(b:k=1)'' @ [10] @ map ascii ''c(d)'' @ [10] @ map ascii ''a OUT -> IN[3] c'' @ [10])
      [] (sol_fbp_graph_init (libc_total ())) = Some (None, g) \<and>
    map fn_name (g_nodes g) = [map ascii ''a'', map ascii ''c''] \<and>
    map conn_key (g_conns g) = [(0, map ascii ''OUT'', - 1, 1, map ascii ''IN'', 3)]"
proof -
  define ns :: "node_decl list" where "ns = [(map ascii ''a'', map ascii ''b'', [(map ascii ''k'', map ascii ''1'')]), (map ascii ''c'', map ascii ''d'', [])]"
  define cs :: "conn_decl list" where "cs = [(0, (map ascii ''OUT'', None), (map ascii ''IN'', Some 3), 1)]"
  have flow: "flow_ok ns cs"
    by (simp add: ns_def cs_def flow_ok_def node_decl_ok_def conn_decl_ok_def port_decl_ok_def ident_def meta_word_def is_node_ident_def is_component_ident_def
        is_meta_ident_def isalnum_def isdigit_def keyword_table_def UINT16_MAX_def)
  have body: "fbp_text ns cs = map ascii ''a(b:k=1)'' @ [10] @ map ascii ''c(d)'' @ [10] @ map ascii ''a OUT -> IN[3] c'' @ [10]"
    by (simp add: ns_def cs_def fbp_text_def node_text_def conn_text_def port_text_def node_name_def nat_digits.simps)
  have names: "map fn_name (g_nodes g) = map fst ns" "map conn_key (g_conns g) = map decl_key cs" if "is_flow ns cs g" for g
    using that by (auto simp: is_flow_def node_decl_of_def)
  have keys: "map fst ns = [map ascii ''a'', map ascii ''c'']" "map decl_key cs = [(0, map ascii ''OUT'', - 1, 1, map ascii ''IN'', 3)]"
    by (simp_all add: ns_def cs_def decl_key_def port_index_def)
  show ?thesis
    using fbp_round_trip [OF flow alloc_total_libc_total [of "()"]] names unfolding body keys by metis
qed

end
