(* ===== verification/Spec2Isabelle.thy ===== *)
theory Spec2Isabelle
  imports Util_Arith Vector Codec Buffer Coap Mainloop Linked_List Flow_Type Flow_Static Json_Number Json_Path Fbp_Parse_Ok Fbp_Round_Trip
begin

text \<open>
  A verification development for Soletta, a C framework for programs of small connected devices. A
  Soletta program is a main loop that calls timeouts, idlers and event sources; flows, which are
  graphs of nodes that send packets to each other, run on that loop; the messages they exchange with
  the outside are CoAP packets, JSON documents and other formats. All of these keep their data in a
  few containers. Flows are written down in a language of their own, FBP. The theories follow that
  structure from the bottom up; file names are relative to \<^verbatim>\<open>src/lib/\<close> of the repository unless they
  start with \<^verbatim>\<open>src/shared/\<close>.

  \<^bold>\<open>How C is modelled.\<close> A block of memory is a list of cells, and an access outside of it, like any
  other undefined behaviour and a failed assertion, is the result \<open>None\<close>; a theorem that a call
  yields \<open>Some\<close> therefore says that it is memory safe and that it returns. A negative result code is
  \<open>Inl e\<close>, a success \<open>Inr x\<close>; both come with the state they leave. Integers that may wrap are words
  or numbers with the limit of their type written out (\<open>size_minus\<close>, \<open>UINT16_MAX\<close>). The allocator
  is a parameter that may refuse any request (\<open>libc\<close> in \<open>Prelude\<close>), and so are callbacks of
  applications and nodes, which may call back into the library. Loops are recursive functions with a
  proof that they end; where they may not (a pass over the timeouts), \<open>partial_function (option)\<close> is
  used, and that they return is a theorem with its premises. Nothing in the model needs fuel.

  \<^bold>\<open>The theories.\<close>

  \<^item> \<open>Prelude\<close>: result codes, memory blocks, the allocator, sequences of operations and the locale
    \<open>simulation\<close>, in which a run of operations is related to a run of their specifications.
  \<^item> \<open>Util_Arith\<close> (\<^verbatim>\<open>common/sol-util.c\<close>, \<^verbatim>\<open>common/sol-util-internal.h\<close>): the checked arithmetic and the
    alignment to powers of two. The operations are exact or report an overflow.
  \<^item> \<open>Vector\<close> (\<^verbatim>\<open>datatypes/sol-vector.c\<close>, \<^verbatim>\<open>sol-vector.h\<close>): growing arrays and arrays of pointers. Each
    operation is related to one on lists (\<open>velems\<close>). Sorted insertion, update and search are proved
    in the locale \<open>comparator\<close> for any order and are used by the main loop.
  \<^item> \<open>Codec\<close> (\<^verbatim>\<open>common/sol-util.c\<close>): base64, base16, UTF-8 and UUIDs, with their round trips.
  \<^item> \<open>Buffer\<close> (\<^verbatim>\<open>datatypes/sol-buffer.c\<close>, \<^verbatim>\<open>sol-buffer.h\<close>): the byte buffer. Any sequence of the operations
    of \<open>buf_op\<close> keeps the invariant \<open>buf_wf\<close> and refines operations on lists of bytes (\<open>simulation\<close> is
    interpreted here); the coded insertions share the locale \<open>buffer_codec\<close>. The sequences leave out the
    calls that hand the memory over (steal, copy, to blob, fini) and take base64 in whole groups;
    \<open>sol_buffer_copy_too_small\<close> and \<open>decode_lone_pad\<close> show what goes wrong otherwise.
  \<^item> \<open>Coap\<close> (\<^verbatim>\<open>comms/coap.c\<close> and the packet functions of \<^verbatim>\<open>comms/sol-coap.c\<close>): header, options, token, path
    and payload of a packet, on a buffer. The parser is safe on any bytes and finds the options that
    were encoded, as far as no option number differs by 269 or more from the one before and no value has
    269 bytes or more: the decoder misreads the two extension bytes of larger ones.
  \<^item> \<open>Mainloop\<close> (\<^verbatim>\<open>common/sol-mainloop-common.c\<close>): timeouts, idlers and sources, with the deferred deletion
    during a pass, as built without \<^verbatim>\<open>THREADS\<close> (a choice of the configuration; on Linux threads are the
    default). The invariant is proved for every reachable state of a step relation whose
    callbacks may make any legal call; each pass is characterised by whom it calls. That the
    passes end needs periods above zero, a clock that does not go back and allocations that succeed; with
    periods of zero a pass may run forever (\<open>timeout_livelock\<close>).
  \<^item> \<open>Linked_List\<close> (\<^verbatim>\<open>datatypes/include/sol-list.h\<close>): lists on a store of links; the locale \<open>drainable\<close> is
    the loop that empties a list.
  \<^item> \<open>Flow_Type\<close> and \<open>Flow_Static\<close> (\<^verbatim>\<open>flow/sol-flow-static.c\<close>, parts of \<^verbatim>\<open>flow/sol-flow.c\<close>): building the
    type of a flow from its tables of nodes and connections, and a running flow: opening, connecting,
    sending, delivering and closing, with the trace of all calls into nodes. Exported ports are not
    checked by the code, and opening and closing have outcomes that leave something undone; the theorems
    say which.
  \<^item> \<open>Str_Slice\<close> (\<^verbatim>\<open>sol_str_slice_to_int\<close> of \<^verbatim>\<open>datatypes/sol-str-slice.c\<close>): characters and the numbers in
    strings, which the two languages below share.
  \<^item> \<open>Json\<close>, \<open>Json_String\<close>, \<open>Json_Number\<close> and \<open>Json_Path\<close> (\<^verbatim>\<open>parsers/sol-json.c\<close>, \<^verbatim>\<open>sol-json.h\<close>):
    the scanner, lookups by key, index and path, strings and integers. The
    scanner is safe on any text; on the text of a well-formed tree, with any white space, the lookups
    do what the tree says.
  \<^item> \<open>Fbp_Scanner\<close>, \<open>Fbp_Graph\<close>, \<open>Fbp_Parser\<close>, \<open>Fbp_Parse_Ok\<close> and \<open>Fbp_Round_Trip\<close> (\<^verbatim>\<open>src/shared/sol-fbp-internal-scanner.c\<close>,
    \<^verbatim>\<open>sol-fbp-graph.c\<close>, \<^verbatim>\<open>sol-fbp-parser.c\<close>, the arena of \<^verbatim>\<open>datatypes/sol-arena.c\<close>): the state machine that
    splits a flow description into tokens, the graph of nodes, connections, exported ports,
    declarations and options, and the recursive descent that builds it. The scanner ends on any input
    with tokens at the right lines and columns; the parser returns on any input that is followed by a byte in
    memory, with a well-formed graph (\<open>graph_ok\<close>), and of the text of given nodes and connections it makes
    exactly these. The byte behind the input is what one error message reads. The loops of the parser end
    because each turn uses up a token (\<open>todo\<close>). The vectors of the graph are lists: \<open>vec_append_refines\<close> relates them to \<open>Vector\<close>.

  \<^bold>\<open>Kinds of results.\<close> Refinements of abstract containers (buffers, lists, vectors, documents), round
  trips of the codecs, of JSON strings and of flow descriptions, invariants over all reachable states (main loop, flows),
  liveness of the passes (who is called, in which order, and that the pass ends), safety on arbitrary
  input (CoAP, JSON, base64, FBP), exactness of arithmetic, and classes of calls in which the code does
  not do what it means to (zero periods, copies of buffers, lone padding, numbers without digits).

  \<^bold>\<open>Not modelled.\<close> Threads (the locks of the main loop and its second set of vectors), the operating system and network layers (sockets, files, D-Bus, GPIO and the other
  device drivers), the wrappers around third-party libraries (curl, microhttpd, mosquitto, mavlink,
  tinycbor, tinydtls), the protocols above CoAP packets (the CoAP server with its timers and
  sockets, LWM2M, OIC), floating point numbers (JSON doubles, ranges of doubles), the printf family
  (a parameter of the buffer; the messages of the FBP parser are kept as what they say), memory descriptions, the contents of flow packets, the builders and
  resolvers of flows, the nodes of the flow modules (a parameter of the flow), command line tools
  and language bindings.
\<close>

end
